(* ===== verification/Prelude.thy ===== *)
theory Prelude
  imports Main "HOL-Library.Word"
begin

text \<open>
  Shared vocabulary of the development: the machine-integer types of the Rust sources, the
  result type of operations that can abort, the counting of leading zero bits, and the
  generic word, list and result lemmas the component theories use.

  Rust's \<^verbatim>\<open>usize\<close> is 64 bits wide here (\<^verbatim>\<open>global size_of usize == 8\<close> in
  \<^verbatim>\<open>config.rs\<close>). The arithmetic operators on machine integers are those of a release
  build: they wrap around.
\<close>

unbundle bit_operations_syntax

type_synonym u8 = "8 word"
type_synonym u16 = "16 word"
type_synonym u32 = "32 word"
type_synonym u64 = "64 word"
type_synonym usize = "64 word"
type_synonym i64 = "64 word"  \<comment> \<open>two's complement, read with \<^const>\<open>sint\<close>\<close>

text \<open>Rule collections filled by the component theories.\<close>

named_theorems layout_consts \<open>numeric values of the configuration constants\<close>
named_theorems bin_arith \<open>index arithmetic of the size bins\<close>
named_theorems mask_view \<open>commit masks read as sets of bit indices\<close>
named_theorems heap_upd \<open>reads of the allocator state after a write\<close>


section \<open>Results: values or an abort\<close>

text \<open>
  \<open>Todo\<close> is the \<^verbatim>\<open>todo()\<close> of \<^verbatim>\<open>types.rs\<close>, which aborts the process (with the system-allocator
  feature) or panics. \<open>Fault\<close> is an access to memory that holds no object of the type the
  code reads there, \<open>Panic\<close> an array index out of range or a failed \<^verbatim>\<open>mprotect\<close>, and
  \<open>Diverge\<close> a loop that does not end.
\<close>

datatype err = Todo | Fault | Panic | Diverge

type_synonym 'a res = "err + 'a"

definition bindR :: "'a res \<Rightarrow> ('a \<Rightarrow> 'b res) \<Rightarrow> 'b res" where
  "bindR x f = (case x of Inl e \<Rightarrow> Inl e | Inr a \<Rightarrow> f a)"

lemma bindR_simps [simp]:
  "bindR (Inl e) f = Inl e"
  "bindR (Inr a) f = f a"
  by (simp_all add: bindR_def)

lemma bindR_Inr_iff: "bindR x f = Inr b \<longleftrightarrow> (\<exists>a. x = Inr a \<and> f a = Inr b)"
  by (cases x) auto

lemma bindR_cong [fundef_cong]:
  "x = y \<Longrightarrow> (\<And>a. y = Inr a \<Longrightarrow> f a = g a) \<Longrightarrow> bindR x f = bindR y g"
  by (cases y) auto

text \<open>Reading a map or an array slot that must be there.\<close>

definition fetch :: "('k \<rightharpoonup> 'v) \<Rightarrow> 'k \<Rightarrow> 'v res" where
  "fetch m k = (case m k of None \<Rightarrow> Inl Fault | Some v \<Rightarrow> Inr v)"

lemma fetch_simps [simp]:
  "m k = Some v \<Longrightarrow> fetch m k = Inr v"
  "m k = None \<Longrightarrow> fetch m k = Inl Fault"
  by (simp_all add: fetch_def)

lemma fetch_Inr_iff: "fetch m k = Inr v \<longleftrightarrow> m k = Some v"
  by (simp add: fetch_def split: option.splits)

definition index :: "'a list \<Rightarrow> nat \<Rightarrow> 'a res" where
  "index xs i = (if i < length xs then Inr (xs ! i) else Inl Panic)"

lemma index_simps [simp]:
  "i < length xs \<Longrightarrow> index xs i = Inr (xs ! i)"
  "\<not> i < length xs \<Longrightarrow> index xs i = Inl Panic"
  by (simp_all add: index_def)


section \<open>Words as natural numbers\<close>

lemma unat_of_nat_small: "n < 2 ^ LENGTH('a) \<Longrightarrow> unat (of_nat n :: 'a::len word) = n"
  by (simp add: unsigned_of_nat take_bit_nat_eq_self)

lemma unat_bound: "unat (x :: 'a::len word) < 2 ^ LENGTH('a)"
  by (rule unsigned_less)

lemma usize_max [layout_consts]: "unat (- 1 :: usize) = 18446744073709551615"
  by (simp add: unsigned_minus_1_eq_mask mask_eq_exp_minus_1)

lemma unat_add_small:
  "unat a + unat b < 2 ^ LENGTH('a) \<Longrightarrow> unat (a + b) = unat (a :: 'a::len word) + unat b"
  by (simp add: unat_word_ariths)

lemma unat_mult_small:
  "unat a * unat b < 2 ^ LENGTH('a) \<Longrightarrow> unat (a * b) = unat (a :: 'a::len word) * unat b"
  by (simp add: unat_word_ariths)

text \<open>The \<open>i\<close>-th element of an array of \<open>n\<close> elements that ends before the end of memory.\<close>

lemma unat_stride:
  fixes b w :: "'a::len word"
  assumes "unat b + n * unat w < 2 ^ LENGTH('a)" "0 < w" "i \<le> n"
  shows "unat (b + of_nat i * w) = unat b + i * unat w"
proof -
  have le: "i * unat w \<le> n * unat w" using assms(3) by (rule mult_right_mono) simp
  have "0 < unat w" using assms(2) by (simp add: unat_gt_0 word_gt_0)
  then have "i \<le> i * unat w" by simp
  with le assms(1) have "i < 2 ^ LENGTH('a)" by linarith
  then have "unat (of_nat i :: 'a word) = i" by (rule unat_of_nat_small)
  moreover have lt: "unat b + i * unat w < 2 ^ LENGTH('a)" using le assms(1) by linarith
  ultimately have "unat (of_nat i * w) = i * unat w" by (simp add: unat_mult_small)
  with lt show ?thesis by (simp add: unat_add_small)
qed

lemma unat_sub_small: "b \<le> a \<Longrightarrow> unat (a - b) = unat (a :: 'a::len word) - unat b"
  by (rule unat_sub)

lemma unat_ucast_small:
  "unat w < 2 ^ LENGTH('b) \<Longrightarrow> unat (ucast (w :: 'a::len word) :: 'b::len word) = unat w"
  by (simp add: unsigned_ucast_eq take_bit_nat_eq_self)

lemma unat_and_mask: "unat (x AND mask n) = unat (x :: 'a::len word) mod 2 ^ n"
  by (metis take_bit_eq_mask take_bit_eq_mod unsigned_take_bit_eq)

lemma unat_and_3: "unat (x AND 3) = unat (x :: 'a::len word) mod 4"
  using unat_and_mask [of x 2] by (simp add: mask_eq_exp_minus_1)

lemma unat_drop_bit: "unat (drop_bit n w) = unat (w :: 'a::len word) div 2 ^ n"
  by (subst unat_drop_bit_eq) (rule drop_bit_eq_div)

lemma unat_word_of_int_small:
  "0 \<le> i \<Longrightarrow> i < 2 ^ LENGTH('a) \<Longrightarrow> unat (word_of_int i :: 'a::len word) = nat i"
  by (simp add: unsigned_of_int take_bit_int_eq_self)

lemmas unat_small = unat_add_small unat_mult_small unat_sub_small unat_ucast_small


section \<open>Leading zero bits\<close>

text \<open>\<^verbatim>\<open>u64::leading_zeros\<close>: the zero bits above the highest set bit, 64 for 0.\<close>

primrec clz_from :: "u64 \<Rightarrow> nat \<Rightarrow> nat" where
  "clz_from w 0 = 0"
| "clz_from w (Suc n) = (if bit w n then 0 else Suc (clz_from w n))"

definition leading_zeros :: "u64 \<Rightarrow> u32" where
  "leading_zeros w = of_nat (clz_from w 64)"

lemma clz_from_le: "clz_from w n \<le> n"
  by (induction n) auto

lemma clz_from_bounds:
  assumes "unat w < 2 ^ n" and "w \<noteq> 0"
  obtains b where "b < n" and "clz_from w n = n - 1 - b"
    and "2 ^ b \<le> unat w" and "unat w < 2 ^ Suc b"
  using assms
proof (induction n arbitrary: thesis)
  case 0
  then show ?case by (simp add: unat_eq_0)
next
  case (Suc n)
  have bit_iff: "bit w n \<longleftrightarrow> odd (unat w div 2 ^ n)"
    using Suc.prems(2) bit_imp_le_length [of w n]
    by (auto simp: bit_iff_odd [of "unat w", symmetric] bit_unsigned_iff)
  show ?case
  proof (cases "unat w < 2 ^ n")
    case True
    then have "\<not> bit w n" by (simp add: bit_iff)
    from Suc.IH [OF _ True Suc.prems(3)]
    obtain b where "b < n" "clz_from w n = n - 1 - b" "2 ^ b \<le> unat w" "unat w < 2 ^ Suc b"
      by blast
    with \<open>\<not> bit w n\<close> show ?thesis by (intro Suc.prems(1) [of b]) auto
  next
    case False
    then have "unat w div 2 ^ n = 1"
      using Suc.prems(2) by (intro div_nat_eqI) auto
    then have "bit w n" by (simp add: bit_iff)
    with False Suc.prems(2) show ?thesis by (intro Suc.prems(1) [of n]) auto
  qed
qed

lemma leading_zeros_bounds:
  assumes "w \<noteq> 0"
  obtains b where "b < 64" and "unat (leading_zeros w) = 63 - b"
    and "2 ^ b \<le> unat w" and "unat w < 2 ^ Suc b"
proof -
  have "unat w < 2 ^ 64" using unsigned_less [of w] by simp
  from clz_from_bounds [OF this assms]
  obtain b where b: "b < 64" "clz_from w 64 = 63 - b" "2 ^ b \<le> unat w" "unat w < 2 ^ Suc b"
    by auto
  have "unat (of_nat (63 - b) :: u32) = 63 - b" by (rule unat_of_nat_small) simp
  then have "unat (leading_zeros w) = 63 - b" unfolding leading_zeros_def b(2) .
  with b show ?thesis using that by blast
qed

text \<open>The position of the highest set bit is unique.\<close>

lemma log2_unique:
  assumes "2 ^ a \<le> (n::nat)" "n < 2 ^ Suc a" "2 ^ b \<le> n" "n < 2 ^ Suc b"
  shows "a = b"
proof -
  have "(2::nat) ^ a < 2 ^ Suc b" "(2::nat) ^ b < 2 ^ Suc a" using assms by linarith+
  then have "a < Suc b" "b < Suc a"
    using power_less_imp_less_exp [of "2::nat" a "Suc b"] power_less_imp_less_exp [of "2::nat" b "Suc a"]
    by (simp_all only: one_less_numeral_iff semiring_norm)
  then show ?thesis by simp
qed

end
