(* ===== verification/Config.thy ===== *)
theory Config
  imports Prelude
begin

text \<open>
  The configuration constants of \<^verbatim>\<open>config.rs\<close> and the option functions. Each constant is
  defined by the expression the source gives; their numeric values are collected in
  \<open>layout_consts\<close>.
\<close>

definition INTPTR_SHIFT :: u64 where "INTPTR_SHIFT = 3"
definition INTPTR_SIZE :: u64 where "INTPTR_SIZE = 8"
definition SLICE_SHIFT :: u64 where "SLICE_SHIFT = 13 + INTPTR_SHIFT"
definition SLICE_SIZE :: u64 where "SLICE_SIZE = 65536"
definition SEGMENT_SHIFT :: u64 where "SEGMENT_SHIFT = 9 + SLICE_SHIFT"
definition SEGMENT_SIZE :: u64 where "SEGMENT_SIZE = push_bit (unat SEGMENT_SHIFT) 1"
definition SEGMENT_ALIGN :: u64 where "SEGMENT_ALIGN = SEGMENT_SIZE"
definition SLICES_PER_SEGMENT :: u64 where "SLICES_PER_SEGMENT = SEGMENT_SIZE div SLICE_SIZE"
definition BIN_HUGE :: u64 where "BIN_HUGE = 73"
definition BIN_FULL :: u64 where "BIN_FULL = BIN_HUGE + 1"
definition SMALL_PAGE_SHIFT :: u64 where "SMALL_PAGE_SHIFT = SLICE_SHIFT"
definition MEDIUM_PAGE_SHIFT :: u64 where "MEDIUM_PAGE_SHIFT = 3 + SMALL_PAGE_SHIFT"
definition SMALL_PAGE_SIZE :: u64 where "SMALL_PAGE_SIZE = push_bit (unat SMALL_PAGE_SHIFT) 1"
definition MEDIUM_PAGE_SIZE :: u64 where "MEDIUM_PAGE_SIZE = push_bit (unat MEDIUM_PAGE_SHIFT) 1"
definition SMALL_OBJ_SIZE_MAX :: u64 where "SMALL_OBJ_SIZE_MAX = SMALL_PAGE_SIZE div 4"
definition MEDIUM_OBJ_SIZE_MAX :: u64 where "MEDIUM_OBJ_SIZE_MAX = MEDIUM_PAGE_SIZE div 4"
definition LARGE_OBJ_SIZE_MAX :: u64 where "LARGE_OBJ_SIZE_MAX = SEGMENT_SIZE div 2"
definition MAX_ALLOC_SIZE :: usize where "MAX_ALLOC_SIZE = 0x7FFFFFFFFFFFFFFF"
definition SMALL_WSIZE_MAX :: usize where "SMALL_WSIZE_MAX = 128"
definition PAGES_DIRECT :: usize where "PAGES_DIRECT = SMALL_WSIZE_MAX + 1"
definition SMALL_SIZE_MAX :: usize where "SMALL_SIZE_MAX = SMALL_WSIZE_MAX * INTPTR_SIZE"
definition MAX_ALIGN_SIZE :: usize where "MAX_ALIGN_SIZE = 16"
definition MAX_ALIGN_GUARANTEE :: usize where "MAX_ALIGN_GUARANTEE = 8 * MAX_ALIGN_SIZE"
definition SEGMENT_BIN_MAX :: usize where "SEGMENT_BIN_MAX = 31"
definition ALIGNMENT_MAX :: u64 where "ALIGNMENT_MAX = SEGMENT_SIZE div 2"
definition SIZEOF_SEGMENT_HEADER :: usize where "SIZEOF_SEGMENT_HEADER = 264"
definition SIZEOF_PAGE_HEADER :: usize where "SIZEOF_PAGE_HEADER = 80"
definition SIZEOF_HEAP :: usize where "SIZEOF_HEAP = 2904"
definition SIZEOF_TLD :: usize where "SIZEOF_TLD = 552"
definition COMMIT_SIZE :: u64 where "COMMIT_SIZE = SLICE_SIZE"
definition COMMIT_MASK_BITS :: u64 where "COMMIT_MASK_BITS = SLICES_PER_SEGMENT"
definition COMMIT_MASK_FIELD_COUNT :: u64 where "COMMIT_MASK_FIELD_COUNT = COMMIT_MASK_BITS div 64"
definition HUGE_BLOCK_SIZE :: u32 where "HUGE_BLOCK_SIZE = 0x80000000"

definition option_eager_commit_delay :: i64 where "option_eager_commit_delay = 1"
definition option_eager_commit :: bool where "option_eager_commit = True"
definition option_allow_decommit :: bool where "option_allow_decommit = True"
definition option_page_reset :: bool where "option_page_reset = False"
definition option_decommit_delay :: i64 where "option_decommit_delay = 25"
definition option_decommit_extend_delay :: i64 where "option_decommit_extend_delay = 1"

lemma const_facts [layout_consts]:
  "INTPTR_SIZE = 8" "SLICE_SIZE = 65536" "SEGMENT_SIZE = 33554432" "SEGMENT_ALIGN = 33554432"
  "SLICES_PER_SEGMENT = 512" "BIN_HUGE = 73" "BIN_FULL = 74"
  "SMALL_PAGE_SIZE = 65536" "MEDIUM_PAGE_SIZE = 524288"
  "SMALL_OBJ_SIZE_MAX = 16384" "MEDIUM_OBJ_SIZE_MAX = 131072" "LARGE_OBJ_SIZE_MAX = 16777216"
  "SMALL_WSIZE_MAX = 128" "PAGES_DIRECT = 129" "SMALL_SIZE_MAX = 1024"
  "MAX_ALIGN_SIZE = 16" "MAX_ALIGN_GUARANTEE = 128" "SEGMENT_BIN_MAX = 31"
  "ALIGNMENT_MAX = 16777216" "SIZEOF_SEGMENT_HEADER = 264" "SIZEOF_PAGE_HEADER = 80"
  "SIZEOF_HEAP = 2904" "SIZEOF_TLD = 552"
  "COMMIT_SIZE = 65536" "COMMIT_MASK_BITS = 512" "COMMIT_MASK_FIELD_COUNT = 8"
  "HUGE_BLOCK_SIZE = 0x80000000"
  by (simp_all add: INTPTR_SIZE_def INTPTR_SHIFT_def SLICE_SHIFT_def SLICE_SIZE_def SEGMENT_SHIFT_def
      SEGMENT_SIZE_def SEGMENT_ALIGN_def SLICES_PER_SEGMENT_def BIN_HUGE_def BIN_FULL_def
      SMALL_PAGE_SHIFT_def MEDIUM_PAGE_SHIFT_def SMALL_PAGE_SIZE_def MEDIUM_PAGE_SIZE_def
      SMALL_OBJ_SIZE_MAX_def MEDIUM_OBJ_SIZE_MAX_def LARGE_OBJ_SIZE_MAX_def SMALL_WSIZE_MAX_def
      PAGES_DIRECT_def SMALL_SIZE_MAX_def MAX_ALIGN_SIZE_def MAX_ALIGN_GUARANTEE_def
      SEGMENT_BIN_MAX_def ALIGNMENT_MAX_def SIZEOF_SEGMENT_HEADER_def SIZEOF_PAGE_HEADER_def
      SIZEOF_HEAP_def SIZEOF_TLD_def COMMIT_SIZE_def COMMIT_MASK_BITS_def
      COMMIT_MASK_FIELD_COUNT_def HUGE_BLOCK_SIZE_def)

text \<open>Segments are split into whole slices, and the page headers fit in the first slice.\<close>

lemma slices_fill_segment: "SLICES_PER_SEGMENT * SLICE_SIZE = SEGMENT_SIZE"
  by (simp add: layout_consts)

lemma headers_fit_first_slice:
  "SIZEOF_SEGMENT_HEADER + (SLICES_PER_SEGMENT + 1) * SIZEOF_PAGE_HEADER \<le> SLICE_SIZE"
  by (simp add: layout_consts)

end
