(* ===== verification/Bin_Sizes.thy ===== *)
theory Bin_Sizes
  imports Config
begin

text \<open>
  Size classes (\<^verbatim>\<open>bin_sizes.rs\<close>). \<^verbatim>\<open>bin\<close> maps a request size to one of the bins of a
  heap, \<^verbatim>\<open>slice_bin\<close> a slice count to one of the span queues of the thread-local data.
  The specification functions \<^verbatim>\<open>size_of_bin\<close>, \<^verbatim>\<open>smallest_bin_fitting_size\<close> and the
  bounds of the direct-page table are over unbounded integers, as in the source.
\<close>

section \<open>Bins of block sizes\<close>

definition valid_bin_idx :: "int \<Rightarrow> bool" where
  "valid_bin_idx bin_idx \<longleftrightarrow> 1 \<le> bin_idx \<and> bin_idx \<le> 73"

function pow2 :: "int \<Rightarrow> nat" where
  "pow2 i = (if i \<le> 0 then 1 else pow2 (i - 1) * 2)"
  by pat_completeness auto
termination by (relation "measure nat") auto

declare pow2.simps [simp del]

definition size_of_bin :: "int \<Rightarrow> nat" where
  "size_of_bin bin_idx =
     (if 1 \<le> bin_idx \<and> bin_idx \<le> 8 then 64 div 8 * nat bin_idx
      else if bin_idx = 73 then 8 * (524288 + 1)
      else let group = (bin_idx - 9) div 4; inner = (bin_idx - 9) mod 4
           in nat ((64 div 8) * (inner + 5) * int (pow2 (group + 1))))"

definition smallest_bin_fitting_size :: "int \<Rightarrow> int" where
  "smallest_bin_fitting_size sz =
     (let bytes_per_word = 64 div 8; wsize = (sz + bytes_per_word - 1) div bytes_per_word
      in if wsize \<le> 1 then 1
         else if wsize \<le> 8 then wsize
         else if wsize > 524288 then 73
         else let w = (word_of_int (wsize - 1) :: u64);
                  b = (63 - uint (leading_zeros w));
                  shifted = (ucast (drop_bit (nat (b - 2)) w) :: u8)
              in b * 4 + uint (shifted AND 3) - 3)"

definition pfd_lower :: "int \<Rightarrow> nat" where
  "pfd_lower bin_idx = (if bin_idx = 1 then 0 else size_of_bin (bin_idx - 1) div 8 + 1)"

definition pfd_upper :: "int \<Rightarrow> nat" where
  "pfd_upper bin_idx = size_of_bin bin_idx div 8"

definition bin :: "usize \<Rightarrow> u8" where
  "bin sz =
     (let bytes_per_word = 64 div 8;
          wsize = (sz + bytes_per_word - 1) div bytes_per_word
      in if wsize \<le> 1 then 1
         else if wsize \<le> 8 then ucast wsize
         else let w = wsize - 1;
                  lz = leading_zeros w;
                  b = (ucast (64 - 1 - lz) :: u8);
                  shifted = (ucast (drop_bit (unat ((ucast b :: u64) - 2)) w) :: u8)
              in ((b * 4) + (shifted AND 0x03)) - 3)"

text \<open>Powers of two of the source are those of the library.\<close>

lemma pow2_eq [bin_arith]: "pow2 i = 2 ^ nat i"
proof (induction i rule: pow2.induct)
  case (1 i)
  show ?case
  proof (cases "i \<le> 0")
    case True
    then show ?thesis by (simp add: pow2.simps [of i])
  next
    case False
    then have "nat i = Suc (nat (i - 1))" by simp
    with False 1 show ?thesis by (simp add: pow2.simps [of i])
  qed
qed

text \<open>
  A size of \<open>w + 1\<close> words with \<open>8 \<le> w\<close> and highest bit \<open>b\<close> falls in the bin
  \<open>4 b + q - 7\<close>, where \<open>q\<close> (from 4 to 7) are the three highest bits of \<open>w\<close>.
\<close>

lemma top_bits_range:
  assumes "2 ^ b \<le> (w::nat)" "w < 2 ^ Suc b" "2 \<le> b"
  shows "4 \<le> w div 2 ^ (b - 2)" and "w div 2 ^ (b - 2) < 8"
proof -
  obtain k where b: "b = k + 2" using assms(3) by (metis le_add_diff_inverse2)
  show "4 \<le> w div 2 ^ (b - 2)"
    using assms(1) by (simp add: b less_eq_div_iff_mult_less_eq)
  show "w div 2 ^ (b - 2) < 8"
    using assms(2) by (simp add: b div_less_iff_less_mult)
qed

lemma size_of_bin_top_bits:
  assumes "4 \<le> q" "q < 8" "3 \<le> b" "4 * b + q < 80"
  shows "size_of_bin (4 * int b + int q - 7) = 8 * ((q + 1) * 2 ^ (b - 2))"
proof -
  have q: "q = 4 \<or> q = 5 \<or> q = 6 \<or> q = 7" using assms by arith
  obtain k where b: "b = k + 3" using assms(3) by (metis le_add_diff_inverse2)
  have "(4 * int b + int q - 7 - 9) div 4 + 1 = int k + 1"
    "(4 * int b + int q - 7 - 9) mod 4 = int q - 4"
    using q by (auto simp: b)
  moreover have "\<not> 4 * int b + int q - 7 \<le> 8" "4 * int b + int q - 7 \<noteq> 73"
    using q assms by auto
  ultimately show ?thesis
    using q by (auto simp: size_of_bin_def Let_def pow2_eq b nat_mult_distrib nat_add_distrib)
qed

lemma smallest_bin_unfold:
  assumes "wsize = (sz + 7) div 8" and "ww = (word_of_int (wsize - 1) :: u64)"
  shows "smallest_bin_fitting_size sz =
     (if wsize \<le> 1 then 1
      else if wsize \<le> 8 then wsize
      else if wsize > 524288 then 73
      else (63 - uint (leading_zeros ww)) * 4
        + uint ((ucast (drop_bit (nat (63 - uint (leading_zeros ww) - 2)) ww) :: u8) AND 3) - 3)"
proof -
  have "(sz + 64 div 8 - 1) div (64 div 8) = wsize" by (simp add: assms(1) add.commute)
  then show ?thesis unfolding smallest_bin_fitting_size_def Let_def assms(2) by simp
qed

lemma spec_bin_top_bits:
  assumes "9 \<le> wsize" "wsize \<le> 524288"
    and "wsize = (sz + 7) div 8" and "w = nat (wsize - 1)"
  obtains b q where "3 \<le> b" "b < 19" "2 ^ b \<le> w" "w < 2 ^ Suc b"
    and "q = w div 2 ^ (b - 2)" "4 \<le> q" "q < 8"
    and "smallest_bin_fitting_size sz = 4 * int b + int q - 7"
proof -
  define ww where "ww = (word_of_int (wsize - 1) :: u64)"
  have uw: "unat ww = w"
    unfolding ww_def assms(4) using assms(1,2) by (intro unat_word_of_int_small) auto
  then have nz: "ww \<noteq> 0" using assms by auto
  from leading_zeros_bounds [OF nz]
  obtain b where b: "b < 64" "unat (leading_zeros ww) = 63 - b" "2 ^ b \<le> w" "w < 2 ^ Suc b"
    unfolding uw by blast
  have w: "8 \<le> w" "w < 2 ^ 19" using assms by auto
  have b3: "3 \<le> b"
  proof (rule ccontr)
    assume "\<not> 3 \<le> b"
    then have "Suc b \<le> 3" by simp
    then have "(2::nat) ^ Suc b \<le> 2 ^ 3" by (rule power_increasing) simp
    with b w show False by simp
  qed
  have b19: "b < 19"
  proof (rule ccontr)
    assume "\<not> b < 19"
    then have "(2::nat) ^ 19 \<le> 2 ^ b" by (intro power_increasing) auto
    with b w show False by simp
  qed
  define q where "q = w div 2 ^ (b - 2)"
  have q: "4 \<le> q" "q < 8" using top_bits_range [OF b(3,4)] b3 by (auto simp: q_def)
  have lz: "uint (leading_zeros ww) = int (63 - b)"
    using b(2) by (metis int_nat_eq uint_nonnegative unat_eq_nat_uint nat_eq_iff2 of_nat_unat)
  have "unat (drop_bit (b - 2) ww) = q" by (simp only: unat_drop_bit uw q_def)
  then have "unat ((ucast (drop_bit (b - 2) ww) :: u8) AND 3) = q - 4"
    using q by (simp add: unat_and_3 unat_ucast_small mod_if)
  then have sh: "uint ((ucast (drop_bit (b - 2) ww) :: u8) AND 3) = int q - 4"
    using q by (metis of_nat_diff of_nat_numeral of_nat_unat)
  have n: "nat (63 - int (63 - b) - 2) = b - 2" using b(1) b3 by simp
  have "smallest_bin_fitting_size sz = (63 - int (63 - b)) * 4 + (int q - 4) - 3"
    unfolding smallest_bin_unfold [OF assms(3) ww_def] lz n sh using assms(1,2) by simp
  then have "smallest_bin_fitting_size sz = 4 * int b + int q - 7"
    using b(1) by (simp add: of_nat_diff)
  with b3 b19 b q show ?thesis by (intro that [of b q]) (auto simp: q_def)
qed

lemma bin_indices: "[1..73::int] =
    [1, 2, 3, 4, 5, 6, 7, 8, 9, 10, 11, 12, 13, 14, 15, 16, 17, 18, 19, 20, 21, 22, 23, 24, 25,
     26, 27, 28, 29, 30, 31, 32, 33, 34, 35, 36, 37, 38, 39, 40, 41, 42, 43, 44, 45, 46, 47, 48, 49, 50,
     51, 52, 53, 54, 55, 56, 57, 58, 59, 60, 61, 62, 63, 64, 65, 66, 67, 68, 69, 70, 71, 72, 73]"
  by code_simp

lemma size_of_bin_table:
  "map size_of_bin [1..73] =
    [8, 16, 24, 32, 40, 48, 56, 64, 80, 96, 112, 128, 160, 192, 224, 256, 320, 384, 448, 512,
     640, 768, 896, 1024, 1280, 1536, 1792, 2048, 2560, 3072, 3584, 4096, 5120, 6144, 7168, 8192,
     10240, 12288, 14336, 16384, 20480, 24576, 28672, 32768, 40960, 49152, 57344, 65536,
     81920, 98304, 114688, 131072, 163840, 196608, 229376, 262144, 327680, 393216, 458752, 524288,
     655360, 786432, 917504, 1048576, 1310720, 1572864, 1835008, 2097152, 2621440, 3145728,
     3670016, 4194304, 4194312]"
  unfolding bin_indices by (simp add: size_of_bin_def pow2_eq)

lemma size_of_bin_step:
  assumes "1 \<le> i" "i < 73"
  shows "size_of_bin i < size_of_bin (i + 1)"
proof -
  have "list_all (\<lambda>i. i = 73 \<or> size_of_bin i < size_of_bin (i + 1)) [1..73]"
    unfolding bin_indices by (simp add: size_of_bin_def pow2_eq)
  moreover have "i \<in> set [1..73]" using assms by simp
  ultimately have "i = 73 \<or> size_of_bin i < size_of_bin (i + 1)"
    unfolding list_all_iff by blast
  with assms show ?thesis by auto
qed

lemma size_of_bin_strict_mono:
  assumes "1 \<le> i" "i < j" "j \<le> 73"
  shows "size_of_bin i < size_of_bin j"
proof -
  have "1 \<le> i \<Longrightarrow> i + int (Suc n) \<le> 73 \<Longrightarrow> size_of_bin i < size_of_bin (i + int (Suc n))" for n
  proof (induction n)
    case 0
    then show ?case using size_of_bin_step [of i] by simp
  next
    case (Suc n)
    then show ?case using size_of_bin_step [of "i + int (Suc n)"]
      by (simp add: algebra_simps)
  qed
  from this [of "nat (j - i - 1)"] assms show ?thesis by simp
qed

lemma size_of_bin_small: "1 \<le> i \<Longrightarrow> i \<le> 8 \<Longrightarrow> size_of_bin i = 8 * nat i"
  by (simp add: size_of_bin_def)

text \<open>The chosen bin holds the size, and the bin below it does not.\<close>

lemma smallest_bin_bounds:
  assumes "0 \<le> sz" "sz \<le> 4194304"
  shows "1 \<le> smallest_bin_fitting_size sz" "smallest_bin_fitting_size sz \<le> 72"
    and "sz \<le> int (size_of_bin (smallest_bin_fitting_size sz))"
    and "smallest_bin_fitting_size sz \<noteq> 1 \<Longrightarrow>
         int (size_of_bin (smallest_bin_fitting_size sz - 1)) < sz"
proof -
  let ?s = "smallest_bin_fitting_size sz"
  define wsize where "wsize = (sz + 7) div 8"
  have ws: "wsize \<le> 524288" "sz \<le> 8 * wsize" "8 * (wsize - 1) < sz" "0 \<le> wsize"
    using assms by (auto simp: wsize_def)
  have "1 \<le> ?s \<and> ?s \<le> 72 \<and> sz \<le> int (size_of_bin ?s)
      \<and> (?s \<noteq> 1 \<longrightarrow> int (size_of_bin (?s - 1)) < sz)"
  proof (cases "wsize \<le> 8")
    case True
    then have s: "?s = (if wsize \<le> 1 then 1 else wsize)"
      by (simp add: smallest_bin_unfold [OF wsize_def refl])
    show ?thesis using True ws by (simp add: s size_of_bin_small)
  next
    case False
    then have "9 \<le> wsize" by simp
    from spec_bin_top_bits [OF this ws(1) wsize_def refl]
    obtain b q where bq: "3 \<le> b" "b < 19" "2 ^ b \<le> nat (wsize - 1)"
        "nat (wsize - 1) < 2 ^ Suc b" "q = nat (wsize - 1) div 2 ^ (b - 2)" "4 \<le> q" "q < 8"
      and s: "?s = 4 * int b + int q - 7" .
    have top: "size_of_bin ?s = 8 * ((q + 1) * 2 ^ (b - 2))"
      unfolding s by (rule size_of_bin_top_bits) (use bq(1,2,6,7) in auto)
    have w_lt: "nat (wsize - 1) < (q + 1) * 2 ^ (b - 2)"
      unfolding bq(5) using div_less_iff_less_mult [of "2 ^ (b - 2)" "nat (wsize - 1)"]
      by (metis Suc_eq_plus1 lessI zero_less_numeral zero_less_power)
    have w_ge: "q * 2 ^ (b - 2) \<le> nat (wsize - 1)"
      unfolding bq(5) by (rule div_times_less_eq_dividend)
    have below: "size_of_bin (?s - 1) = 8 * (q * 2 ^ (b - 2))"
    proof (cases "q = 4")
      case False
      have "size_of_bin (4 * int b + int (q - 1) - 7) = 8 * ((q - 1 + 1) * 2 ^ (b - 2))"
        by (rule size_of_bin_top_bits) (use bq(1,2,6,7) False in auto)
      then show ?thesis using bq(6) False unfolding s by (simp add: of_nat_diff algebra_simps)
    next
      case q4: True
      obtain k where k: "b = k + 3" using bq(1) by (metis le_add_diff_inverse2)
      show ?thesis
      proof (cases k)
        case 0
        then show ?thesis unfolding s by (simp add: q4 k size_of_bin_small)
      next
        case (Suc m)
        have "size_of_bin (4 * int (b - 1) + int 7 - 7) = 8 * ((7 + 1) * 2 ^ (b - 1 - 2))"
          by (rule size_of_bin_top_bits) (use bq(1,2,6,7) k Suc in auto)
        then show ?thesis unfolding s by (simp add: q4 k Suc algebra_simps)
      qed
    qed
    have "wsize \<le> int ((q + 1) * 2 ^ (b - 2))" using w_lt \<open>9 \<le> wsize\<close> by linarith
    moreover have "int (q * 2 ^ (b - 2)) \<le> wsize - 1" using w_ge \<open>9 \<le> wsize\<close> by linarith
    ultimately show ?thesis
      using bq(1,2,6,7) ws unfolding top below by (auto simp: s)
  qed
  then show "1 \<le> ?s" "?s \<le> 72" "sz \<le> int (size_of_bin ?s)"
    "?s \<noteq> 1 \<Longrightarrow> int (size_of_bin (?s - 1)) < sz" by auto
qed

lemma smallest_bin_eqI:
  assumes "0 \<le> sz" "sz \<le> 4194304" "1 \<le> i" "i \<le> 73"
    and "sz \<le> int (size_of_bin i)" and "i = 1 \<or> int (size_of_bin (i - 1)) < sz"
  shows "smallest_bin_fitting_size sz = i"
proof -
  let ?s = "smallest_bin_fitting_size sz"
  note s = smallest_bin_bounds [OF assms(1,2)]
  have "\<not> ?s < i"
  proof
    assume less: "?s < i"
    then have "size_of_bin ?s \<le> size_of_bin (i - 1)"
      using size_of_bin_strict_mono [of ?s "i - 1"] s(1) assms by (cases "?s = i - 1") auto
    with less s assms show False by auto
  qed
  moreover have "\<not> i < ?s"
  proof
    assume less: "i < ?s"
    then have "size_of_bin i \<le> size_of_bin (?s - 1)"
      using size_of_bin_strict_mono [of i "?s - 1"] s(2) assms by (cases "i = ?s - 1") auto
    with less s assms show False by auto
  qed
  ultimately show ?thesis by simp
qed

text \<open>The machine-integer function computes the specification on its whole domain.\<close>

lemma wsize_unat:
  assumes "unat sz \<le> 131072"
  shows "unat ((sz + 64 div 8 - 1) div (64 div 8) :: usize) = (unat sz + 7) div 8"
proof -
  have *: "(64 div 8 :: usize) = 8" by simp
  have **: "sz + 8 - 1 = sz + 7" by simp
  have "unat (sz + 7) = unat sz + 7" using assms by (simp add: unat_add_small)
  moreover have "unat ((sz + 7) div 8) = unat (sz + 7) div unat (8 :: usize)" by (rule unat_div)
  ultimately show ?thesis unfolding * ** by simp
qed

text \<open>The machine code reads off the highest bit of a word and the two bits below it.\<close>

lemma top_bits_word:
  assumes "2 ^ b \<le> unat (w :: u64)" "unat w < 2 ^ Suc b" "2 \<le> b"
  shows "unat (ucast (64 - 1 - leading_zeros w) :: u8) = b"
    and "unat ((ucast (ucast (64 - 1 - leading_zeros w) :: u8) :: u64) - 2) = b - 2"
proof -
  have "w \<noteq> 0" using assms(1) by (auto simp: le_eq_less_or_eq)
  from leading_zeros_bounds [OF this] log2_unique [OF assms(1,2)]
  have lz: "unat (leading_zeros w) = 63 - b" and b: "b < 64" by metis+
  then have "unat (64 - 1 - leading_zeros w) = b"
    by (simp add: unat_sub_small word_le_nat_alt)
  then show ub: "unat (ucast (64 - 1 - leading_zeros w) :: u8) = b"
    using b by (simp add: unat_ucast_small)
  define bb where "bb = (ucast (64 - 1 - leading_zeros w) :: u8)"
  have "unat bb = b" using ub by (simp add: bb_def)
  then show "unat ((ucast (ucast (64 - 1 - leading_zeros w) :: u8) :: u64) - 2) = b - 2"
    using assms(3) b unfolding bb_def [symmetric]
    by (simp add: unat_sub_small unat_ucast_small word_le_nat_alt)
qed

lemma top_bits_inner:
  assumes "q = unat (w :: u64) div 2 ^ (b - 2)" "4 \<le> q" "q < 8"
  shows "unat (drop_bit (b - 2) w AND 3) = q - 4"
    and "unat ((ucast (drop_bit (b - 2) w) :: u8) AND 3) = q - 4"
proof -
  have "unat (drop_bit (b - 2) w) = q" by (simp only: unat_drop_bit assms(1))
  then show "unat (drop_bit (b - 2) w AND 3) = q - 4"
    and "unat ((ucast (drop_bit (b - 2) w) :: u8) AND 3) = q - 4"
    using assms(2,3) by (simp_all add: unat_and_3 unat_ucast_small mod_if)
qed

lemma bin_eq_spec:
  assumes "unat sz \<le> 131072"
  shows "uint (bin sz) = smallest_bin_fitting_size (uint sz)"
proof -
  define wsize where "wsize = (uint sz + 7) div 8"
  define ws where "ws = ((sz + 64 div 8 - 1) div (64 div 8) :: usize)"
  have "int (unat ws) = wsize"
    unfolding ws_def wsize_unat [OF assms] wsize_def by (simp add: zdiv_int)
  then have uws: "unat ws = nat wsize" by linarith
  have "uint sz \<le> 131072" using assms by (metis of_nat_le_iff of_nat_numeral of_nat_unat)
  then have wb: "0 \<le> wsize" "wsize \<le> 16384"
    unfolding wsize_def using uint_nonnegative [of sz] by linarith+
  have le: "ws \<le> of_nat n \<longleftrightarrow> wsize \<le> int n" if "n \<le> 8" for n
    using wb that by (auto simp: word_le_nat_alt unat_of_nat_small uws)
  show ?thesis
  proof (cases "wsize \<le> 8")
    case True
    have "smallest_bin_fitting_size (uint sz) = (if wsize \<le> 1 then 1 else wsize)"
      using True by (simp add: smallest_bin_unfold [OF wsize_def refl])
    moreover have "bin sz = (if wsize \<le> 1 then 1 else ucast ws)"
      using True le [of 1] le [of 8] unfolding bin_def Let_def ws_def [symmetric] by simp
    moreover have "unat (ucast ws :: u8) = nat wsize"
      using wb True by (simp add: unat_ucast_small uws)
    then have "uint (ucast ws :: u8) = wsize"
      using wb by (metis int_nat_eq of_nat_unat)
    ultimately show ?thesis by simp
  next
    case False
    then have "9 \<le> wsize" by simp
    define w where "w = ws - 1"
    have uw: "unat w = nat (wsize - 1)"
      using \<open>9 \<le> wsize\<close> uws by (simp add: w_def unat_sub_small word_le_nat_alt)
    have "wsize \<le> 524288" using wb by simp
    from spec_bin_top_bits [OF \<open>9 \<le> wsize\<close> this wsize_def refl]
    obtain b q where b: "3 \<le> b" "2 ^ b \<le> unat w" "unat w < 2 ^ Suc b"
      and q: "q = unat w div 2 ^ (b - 2)" "4 \<le> q" "q < 8"
      and s: "smallest_bin_fitting_size (uint sz) = 4 * int b + int q - 7"
      unfolding uw by metis
    have "b < 14"
    proof (rule ccontr)
      assume "\<not> b < 14"
      then have "(2::nat) ^ 14 \<le> 2 ^ b" by (intro power_increasing) auto
      with b(2) have "16384 \<le> unat w" by simp
      then show False using wb unfolding uw by linarith
    qed
    define bb where "bb = (ucast (64 - 1 - leading_zeros w) :: u8)"
    have ub: "unat bb = b" and sh: "unat ((ucast bb :: u64) - 2) = b - 2"
      using top_bits_word [OF b(2,3)] b(1) by (simp_all add: bb_def)
    define inner where "inner = ((ucast (drop_bit (b - 2) w) :: u8) AND 3)"
    have ui: "unat inner = q - 4" using top_bits_inner [OF q] by (simp add: inner_def)
    have "unat (bb * 4) = b * 4"
      using ub \<open>b < 14\<close> by (simp add: unat_mult_small)
    then have "unat (bb * 4 + inner) = b * 4 + (q - 4)"
      using \<open>b < 14\<close> q ui by (simp add: unat_add_small)
    then have "unat (bb * 4 + inner - 3) = b * 4 + (q - 4) - 3"
      using b(1) by (simp add: unat_sub_small word_le_nat_alt)
    moreover have "bin sz = bb * 4 + inner - 3"
      using False le [of 1] le [of 8] \<open>9 \<le> wsize\<close>
      unfolding bin_def Let_def ws_def [symmetric] w_def [symmetric] bb_def [symmetric] sh
        inner_def [symmetric] by simp
    ultimately have "unat (bin sz) = b * 4 + (q - 4) - 3" by simp
    then have "int (unat (bin sz)) = 4 * int b + int q - 7"
      using q b(1) by (simp add: of_nat_diff)
    then show ?thesis by (simp add: s)
  qed
qed


section \<open>Span queues: bins of slice counts\<close>

definition valid_sbin_idx :: "int \<Rightarrow> bool" where
  "valid_sbin_idx sbin_idx \<longleftrightarrow> 0 \<le> sbin_idx \<and> sbin_idx \<le> uint SEGMENT_BIN_MAX"

definition size_of_sbin :: "int \<Rightarrow> nat" where
  "size_of_sbin sbin_idx =
     (if 0 \<le> sbin_idx \<and> sbin_idx \<le> 7 then nat sbin_idx
      else if sbin_idx = 8 then 10
      else let group = (sbin_idx - 8) div 4; inner = (sbin_idx - 8) mod 4
           in nat ((inner + 5) * int (pow2 (group + 1))))"

definition smallest_sbin_fitting_size :: "int \<Rightarrow> int" where
  "smallest_sbin_fitting_size i =
     (if i \<le> 8 then i
      else let w = (word_of_int (i - 1) :: u64);
               lz = leading_zeros w;
               b = (ucast (64 - 1 - lz) :: u8)
           in uint ((ucast (push_bit 2 b) :: u64)
                OR (drop_bit (unat ((ucast b :: u64) - 2)) w AND 0x03)) - 4)"

definition slice_bin :: "usize \<Rightarrow> usize" where
  "slice_bin slice_count =
     (if slice_count \<le> 8 then slice_count
      else let w = slice_count - 1;
               lz = leading_zeros w;
               b = (ucast (64 - 1 - lz) :: u8)
           in ((ucast (push_bit 2 b) :: u64)
                OR (drop_bit (unat ((ucast b :: u64) - 2)) w AND 0x03)) - 4)"

text \<open>
  For counts above 8 the span bins are the block-size bins of \<open>8 n\<close> bytes, one lower: both
  take the highest bit and the two bits below it.
\<close>

lemma or_low_bits: "y < 4 \<Longrightarrow> push_bit 2 x OR y = push_bit 2 x + (y :: 'a::len word)"
proof (rule disjunctive_add_eq_or [symmetric], rule bit_word_eqI)
  fix n assume y: "y < 4"
  have "take_bit 2 y = y"
    using y by (simp add: take_bit_eq_mod mod_word_less)
  then have "bit y n \<Longrightarrow> n < 2" by (metis bit_take_bit_iff)
  then show "bit (push_bit 2 x AND y) n = bit (0 :: 'a word) n"
    by (auto simp: bit_and_iff bit_push_bit_iff)
qed

lemma sbin_top_bits:
  assumes "unat w = n - 1" "9 \<le> n" "n \<le> 512"
    and r_def: "r = (ucast (push_bit 2 (ucast (64 - 1 - leading_zeros w) :: u8)) :: u64)
      OR (drop_bit (unat ((ucast (ucast (64 - 1 - leading_zeros w) :: u8) :: u64) - 2)) w AND 3)"
  shows "int (unat (r - 4)) = smallest_bin_fitting_size (8 * int n) - 1" and "4 \<le> r"
proof -
  have "9 \<le> int n" "int n \<le> 524288" "int n = (8 * int n + 7) div 8" "unat w = nat (int n - 1)"
    using assms by auto
  from spec_bin_top_bits [OF this]
  obtain b q where b: "3 \<le> b" "2 ^ b \<le> unat w" "unat w < 2 ^ Suc b"
    and q: "q = unat w div 2 ^ (b - 2)" "4 \<le> q" "q < 8"
    and s: "smallest_bin_fitting_size (8 * int n) = 4 * int b + int q - 7" .
  have "b < 9"
  proof (rule ccontr)
    assume "\<not> b < 9"
    then have "(2::nat) ^ 9 \<le> 2 ^ b" by (intro power_increasing) auto
    with b(2) assms show False by simp
  qed
  define bb where "bb = (ucast (64 - 1 - leading_zeros w) :: u8)"
  have ub: "unat bb = b" and sh: "unat ((ucast bb :: u64) - 2) = b - 2"
    using top_bits_word [OF b(2,3)] b(1) by (simp_all add: bb_def)
  have "unat (push_bit 2 bb) = 4 * b"
    using ub \<open>b < 9\<close> by (simp add: push_bit_eq_mult unat_mult_small)
  then have "unat (ucast (push_bit 2 bb) :: u64) = 4 * b"
    using \<open>b < 9\<close> by (simp add: unat_ucast_small)
  moreover have "unat (push_bit 2 (of_nat b) :: u64) = 4 * b"
    using \<open>b < 9\<close> by (simp add: push_bit_eq_mult unat_mult_small unat_of_nat_small)
  ultimately have pb: "(ucast (push_bit 2 bb) :: u64) = push_bit 2 (of_nat b)"
    by (metis unsigned_word_eqI)
  have inner: "unat (drop_bit (b - 2) w AND 3) = q - 4" by (rule top_bits_inner [OF q])
  then have "drop_bit (b - 2) w AND 3 < 4" using q by (simp add: word_less_nat_alt)
  then have r: "r = push_bit 2 (of_nat b) + (drop_bit (b - 2) w AND 3)"
    unfolding r_def bb_def [symmetric] sh pb by (rule or_low_bits)
  have ur: "unat r = 4 * b + (q - 4)"
    unfolding r using \<open>b < 9\<close> q inner \<open>unat (push_bit 2 (of_nat b) :: u64) = 4 * b\<close>
    by (simp add: unat_add_small)
  then show "4 \<le> r" using b(1) by (simp add: word_le_nat_alt)
  then have "unat (r - 4) = 4 * b + (q - 4) - 4"
    by (simp only: unat_sub_small ur) simp
  then show "int (unat (r - 4)) = smallest_bin_fitting_size (8 * int n) - 1"
    unfolding s using b(1) q by (simp add: of_nat_diff)
qed

lemma smallest_sbin_eq:
  assumes "9 \<le> n" "n \<le> 512"
  shows "smallest_sbin_fitting_size (int n) = smallest_bin_fitting_size (8 * int n) - 1"
proof -
  define w where "w = (word_of_int (int n - 1) :: u64)"
  have "unat w = n - 1"
    unfolding w_def by (subst unat_word_of_int_small) (use assms in auto)
  note r = sbin_top_bits [OF this assms refl]
  have "uint (x :: u64) - 4 = int (unat (x - 4))" if "4 \<le> x" for x
    using that uint_sub_lem [of 4 x] by (simp add: word_le_def)
  from this [OF r(2)] show ?thesis
    using assms r(1) unfolding smallest_sbin_fitting_size_def Let_def w_def [symmetric] by simp
qed

lemma slice_bin_eq_spec:
  assumes "unat n \<le> 512"
  shows "uint (slice_bin n) = smallest_sbin_fitting_size (uint n)"
proof (cases "n \<le> 8")
  case True
  then have "uint n \<le> 8" by (simp add: word_le_def)
  with True show ?thesis by (simp add: slice_bin_def smallest_sbin_fitting_size_def)
next
  case False
  then have n9: "9 \<le> unat n" by (simp add: word_le_nat_alt)
  then have "unat (n - 1) = unat n - 1" by (simp add: unat_sub_small word_le_nat_alt)
  from sbin_top_bits(1) [OF this n9 assms refl] False
  show ?thesis
    using smallest_sbin_eq [OF n9 assms] by (simp add: slice_bin_def Let_def)
qed

lemma size_of_sbin_eq:
  assumes "8 \<le> i" "i \<le> 71"
  shows "8 * size_of_sbin i = size_of_bin (i + 1)"
proof (cases "i = 8")
  case True
  then show ?thesis by (simp add: size_of_sbin_def size_of_bin_def pow2_eq)
next
  case False
  have "nat (8 * m + 40) = 8 * nat (m + 5)" if "0 \<le> m" for m :: int using that by arith
  from this [of "(i - 8) mod 4"] False assms show ?thesis
    by (simp add: size_of_sbin_def size_of_bin_def Let_def nat_mult_distrib)
qed

lemma smallest_sbin_bounds:
  assumes "n \<le> 512"
  shows "0 \<le> smallest_sbin_fitting_size (int n)" "smallest_sbin_fitting_size (int n) \<le> 31"
    and "n \<le> size_of_sbin (smallest_sbin_fitting_size (int n))"
proof -
  let ?s = "smallest_sbin_fitting_size (int n)"
  have "0 \<le> ?s \<and> ?s \<le> 31 \<and> n \<le> size_of_sbin ?s"
  proof (cases "n \<le> 8")
    case True
    then have "?s = int n" by (simp add: smallest_sbin_fitting_size_def)
    with True show ?thesis by (auto simp: size_of_sbin_def)
  next
    case False
    let ?b = "smallest_bin_fitting_size (8 * int n)"
    have s: "?s = ?b - 1" using False assms by (simp add: smallest_sbin_eq)
    have b: "0 \<le> 8 * int n" "8 * int n \<le> 4194304" using assms by auto
    note bounds = smallest_bin_bounds [OF b]
    have "9 \<le> ?b"
    proof (rule ccontr)
      assume "\<not> 9 \<le> ?b"
      then have "size_of_bin ?b \<le> 64" using bounds(1) by (simp add: size_of_bin_small)
      with bounds(3) False show False by simp
    qed
    moreover have "?b \<le> 32"
    proof (rule ccontr)
      assume *: "\<not> ?b \<le> 32"
      have "size_of_bin 32 \<le> size_of_bin (?b - 1)"
        using size_of_bin_strict_mono [of 32 "?b - 1"] bounds(2) * by (cases "?b - 1 = 32") auto
      moreover have "size_of_bin 32 = 4096" by (simp add: size_of_bin_def pow2_eq)
      moreover have "int (size_of_bin (?b - 1)) < 8 * int n" using bounds(4) * by simp
      ultimately show False using assms by linarith
    qed
    moreover have "8 * size_of_sbin (?b - 1) = size_of_bin ?b"
      using size_of_sbin_eq [of "?b - 1"] \<open>9 \<le> ?b\<close> bounds(2) by simp
    ultimately show ?thesis using bounds(3) unfolding s by auto
  qed
  then show "0 \<le> ?s" "?s \<le> 31" "n \<le> size_of_sbin ?s" by auto
qed

lemma smallest_bin_mono:
  assumes "0 \<le> x" "x \<le> y" "y \<le> 4194304"
  shows "smallest_bin_fitting_size x \<le> smallest_bin_fitting_size y"
proof (rule ccontr)
  assume less: "\<not> ?thesis"
  note bx = smallest_bin_bounds [OF assms(1)] and byy = smallest_bin_bounds [OF _ assms(3)]
  have "size_of_bin (smallest_bin_fitting_size y) \<le> size_of_bin (smallest_bin_fitting_size x - 1)"
    using size_of_bin_strict_mono [of "smallest_bin_fitting_size y" "smallest_bin_fitting_size x - 1"]
      less bx(2) byy(1) assms by (cases "smallest_bin_fitting_size x - 1 = smallest_bin_fitting_size y") auto
  with bx(4) byy(1,3) less assms show False by force
qed

lemma smallest_sbin_mono:
  assumes "m \<le> n" "n \<le> 512"
  shows "smallest_sbin_fitting_size (int m) \<le> smallest_sbin_fitting_size (int n)"
proof (cases "m \<le> 8")
  case m8: True
  then have sm: "smallest_sbin_fitting_size (int m) = int m"
    by (simp add: smallest_sbin_fitting_size_def)
  show ?thesis
  proof (cases "n \<le> 8")
    case True
    then show ?thesis using assms m8 by (simp add: smallest_sbin_fitting_size_def)
  next
    case False
    have "smallest_bin_fitting_size 72 \<le> smallest_bin_fitting_size (8 * int n)"
      by (rule smallest_bin_mono) (use False assms in auto)
    moreover have "smallest_bin_fitting_size 72 = 9"
      by (rule smallest_bin_eqI) (simp_all add: size_of_bin_def pow2_eq)
    ultimately show ?thesis using False assms m8 by (simp add: sm smallest_sbin_eq)
  qed
next
  case False
  have "smallest_bin_fitting_size (8 * int m) \<le> smallest_bin_fitting_size (8 * int n)"
    by (rule smallest_bin_mono) (use assms in auto)
  then show ?thesis using False assms by (simp add: smallest_sbin_eq)
qed


lemma smallest_bin_of_size_of_bin:
  assumes "valid_bin_idx i"
  shows "smallest_bin_fitting_size (int (size_of_bin i)) = i"
proof (cases "i = 73")
  case True
  then show ?thesis
    by (simp add: size_of_bin_def smallest_bin_fitting_size_def)
next
  case False
  then have i: "1 \<le> i" "i \<le> 72" using assms by (auto simp: valid_bin_idx_def)
  have "size_of_bin i \<le> size_of_bin 72"
    using size_of_bin_strict_mono [of i 72] i by (cases "i = 72") auto
  also have "size_of_bin 72 = 4194304" by (simp add: size_of_bin_def pow2_eq)
  finally have "int (size_of_bin i) \<le> 4194304" by linarith
  moreover have "i = 1 \<or> int (size_of_bin (i - 1)) < int (size_of_bin i)"
    using size_of_bin_strict_mono [of "i - 1" i] i by (cases "i = 1") auto
  ultimately show ?thesis using i by (intro smallest_bin_eqI) auto
qed

lemma direct_range:
  assumes "valid_bin_idx i" "wsize \<le> 128"
  shows "smallest_bin_fitting_size (int wsize * 8) = i
    \<longleftrightarrow> pfd_lower i \<le> wsize \<and> wsize \<le> pfd_upper i"
proof -
  let ?sz = "int wsize * 8"
  have sz: "0 \<le> ?sz" "?sz \<le> 4194304" using assms by auto
  note bounds = smallest_bin_bounds [OF sz]
  have i: "1 \<le> i" "i \<le> 73" using assms by (auto simp: valid_bin_idx_def)
  have up: "wsize \<le> pfd_upper j \<longleftrightarrow> ?sz \<le> int (size_of_bin j)" for j
    by (simp add: pfd_upper_def less_eq_div_iff_mult_less_eq) linarith
  have lo: "pfd_lower j \<le> wsize \<longleftrightarrow> j = 1 \<or> int (size_of_bin (j - 1)) < ?sz" for j
    by (simp add: pfd_lower_def Suc_le_eq div_less_iff_less_mult) linarith
  show ?thesis
    unfolding up lo using bounds smallest_bin_eqI [OF sz i] by auto
qed

section \<open>Properties\<close>

text \<open>
  C21. For every request of at most 131072 bytes \<^verbatim>\<open>bin\<close> returns the bin that its
  specification \<^verbatim>\<open>smallest_bin_fitting_size\<close> names, without wrapping around in \<^verbatim>\<open>u8\<close>:
  a valid bin whose block size holds the request, and every smaller bin has blocks too small.
\<close>

theorem bin_is_smallest_fitting:
  assumes "sz \<le> MEDIUM_OBJ_SIZE_MAX"
  shows "uint (bin sz) = smallest_bin_fitting_size (uint sz) \<and> valid_bin_idx (uint (bin sz))
    \<and> unat sz \<le> size_of_bin (uint (bin sz))
    \<and> (\<forall>i. valid_bin_idx i \<and> i < uint (bin sz) \<longrightarrow> size_of_bin i < unat sz)"
proof -
  have sz: "unat sz \<le> 131072" using assms by (simp add: layout_consts word_le_nat_alt)
  then have "uint sz \<le> 131072" by (metis of_nat_le_iff of_nat_numeral of_nat_unat)
  then have b: "0 \<le> uint sz" "uint sz \<le> 4194304" by simp_all
  note bounds = smallest_bin_bounds [OF b] and eq = bin_eq_spec [OF sz]
  have below: "size_of_bin i < unat sz" if "1 \<le> i" "i < smallest_bin_fitting_size (uint sz)" for i
  proof -
    have "size_of_bin i \<le> size_of_bin (smallest_bin_fitting_size (uint sz) - 1)"
      using size_of_bin_strict_mono [of i "smallest_bin_fitting_size (uint sz) - 1"] that bounds(2)
      by (cases "i = smallest_bin_fitting_size (uint sz) - 1") auto
    moreover have "int (size_of_bin (smallest_bin_fitting_size (uint sz) - 1)) < int (unat sz)"
      using bounds(4) that by simp
    ultimately show ?thesis by linarith
  qed
  have "unat sz \<le> size_of_bin (smallest_bin_fitting_size (uint sz))"
    using bounds(3) by (metis of_nat_le_iff of_nat_unat)
  then show ?thesis using bounds(1,2) below by (auto simp: eq valid_bin_idx_def)
qed

theorem bin_is_smallest_fitting_witness:
  "(100 :: usize) \<le> MEDIUM_OBJ_SIZE_MAX \<and> uint (bin 100) = smallest_bin_fitting_size (uint (100 :: usize))"
  using bin_is_smallest_fitting [of 100] by (simp add: layout_consts)

text \<open>
  The entries of the direct-page table that belong to a bin are exactly the word sizes
  from \<^verbatim>\<open>pfd_lower\<close> to \<^verbatim>\<open>pfd_upper\<close>: \<^verbatim>\<open>heap_queue_first_update\<close> rewrites this range.
\<close>

lemma direct_range_is_bin:
  assumes "valid_bin_idx i" "wsize \<le> 128"
  shows "smallest_bin_fitting_size (int wsize * 8) = i
    \<longleftrightarrow> pfd_lower i \<le> wsize \<and> wsize \<le> pfd_upper i"
  by (rule direct_range [OF assms])

text \<open>Which spans are in queues 11 and 12.\<close>

lemma sbin_11_12:
  assumes "n \<le> 512"
  shows "smallest_sbin_fitting_size (int n) = 12 \<longleftrightarrow> 17 \<le> n \<and> n \<le> 20" "smallest_sbin_fitting_size (int n) = 11 \<longleftrightarrow> 15 \<le> n \<and> n \<le> 16"
proof -
  let ?f = "\<lambda>k. smallest_sbin_fitting_size (int k)"
  have v: "?f 14 = 10" "?f 15 = 11" "?f 16 = 11" "?f 17 = 12" "?f 20 = 12" "?f 21 = 13" by code_simp+
  have m: "?f i \<le> ?f j" if "i \<le> j" "j \<le> 512" for i j using smallest_sbin_mono [OF that] .
  consider "n \<le> 14" | "15 \<le> n" "n \<le> 16" | "17 \<le> n" "n \<le> 20" | "21 \<le> n" by linarith
  then have "(?f n = 12 \<longleftrightarrow> 17 \<le> n \<and> n \<le> 20) \<and> (?f n = 11 \<longleftrightarrow> 15 \<le> n \<and> n \<le> 16)"
  proof cases
    case 1
    then show ?thesis using m [of n 14] v by simp
  next
    case 2
    then show ?thesis using m [of 15 n] m [of n 16] v by simp
  next
    case 3
    then show ?thesis using m [of 17 n] m [of n 20] v by simp
  next
    case 4
    then show ?thesis using m [of 21 n] v assms by simp
  qed
  then show "?f n = 12 \<longleftrightarrow> 17 \<le> n \<and> n \<le> 20" "?f n = 11 \<longleftrightarrow> 15 \<le> n \<and> n \<le> 16" by simp_all
qed

text \<open>
  C22. \<^verbatim>\<open>slice_bin\<close> computes its specification for every span of a segment: a valid span
  queue, whose upper size holds the span, and monotone in the count, so that spans in later
  queues are larger than the one asked for. In particular spans of 17 to 20 slices are in queue 12, in
  the code and in its specification; the table in the comment above them (\<^verbatim>\<open>bin_sizes.rs\<close>, line 78) says 11, the
  queue of 15 and 16 slices.
\<close>

theorem slice_bin_fits_monotone:
  assumes "m \<le> n" "n \<le> SLICES_PER_SEGMENT"
  shows "uint (slice_bin n) = smallest_sbin_fitting_size (uint n)
    \<and> valid_sbin_idx (uint (slice_bin n)) \<and> unat n \<le> size_of_sbin (uint (slice_bin n))
    \<and> slice_bin m \<le> slice_bin n \<and> (slice_bin n = 12 \<longleftrightarrow> 17 \<le> n \<and> n \<le> 20) \<and> (slice_bin n = 11 \<longleftrightarrow> 15 \<le> n \<and> n \<le> 16)"
proof -
  have n: "unat n \<le> 512" and m: "unat m \<le> unat n" "unat m \<le> 512"
    using assms by (auto simp: layout_consts word_le_nat_alt)
  have q: "(slice_bin n = 12 \<longleftrightarrow> 17 \<le> n \<and> n \<le> 20) \<and> (slice_bin n = 11 \<longleftrightarrow> 15 \<le> n \<and> n \<le> 16)"
    using sbin_11_12 [OF n] slice_bin_eq_spec [OF n] by (simp add: word_uint_eq_iff [of "slice_bin n"] word_le_nat_alt)
  have "smallest_sbin_fitting_size (int (unat m)) \<le> smallest_sbin_fitting_size (int (unat n))"
    by (rule smallest_sbin_mono) (use n m in auto)
  then have "uint (slice_bin n) = smallest_sbin_fitting_size (uint n)
    \<and> valid_sbin_idx (uint (slice_bin n)) \<and> unat n \<le> size_of_sbin (uint (slice_bin n)) \<and> slice_bin m \<le> slice_bin n"
    using smallest_sbin_bounds [OF n]
    by (simp add: slice_bin_eq_spec n m valid_sbin_idx_def layout_consts word_le_def)
  then show ?thesis using q by blast
qed

theorem slice_bin_fits_monotone_witness:
  "(10 :: usize) \<le> 20 \<and> (20 :: usize) \<le> SLICES_PER_SEGMENT \<and> slice_bin 10 \<le> slice_bin 20 \<and> slice_bin 20 = 12"
proof -
  have "(10 :: usize) \<le> 20" "(20 :: usize) \<le> SLICES_PER_SEGMENT" "(17 :: usize) \<le> 20" by (simp_all add: layout_consts)
  then show ?thesis using slice_bin_fits_monotone [of 10 20] by blast
qed

end
