(* ===== verification/Types.thy ===== *)
theory Types
  imports Config
begin

text \<open>
  The runtime data of \<^verbatim>\<open>types.rs\<close>: page headers, segment headers, page queues, the heap, the
  thread-local data, and the allocator state they live in. Ghost and tracked fields of the
  source have no runtime part and are left out; a \<^verbatim>\<open>PCell\<close> or an atomic is its value. A
  pointer is its address, and a free list (\<^verbatim>\<open>LL\<close>) is the address of its first node.
\<close>

section \<open>Page headers\<close>

record PageInner =
  flags0 :: u8        \<comment> \<open>is_reset, is_committed, is_zero_init\<close>
  capacity :: u16
  reserved :: u16
  flags1 :: u8        \<comment> \<open>in_full, has_aligned\<close>
  flags2 :: u8        \<comment> \<open>is_zero, retire_expire\<close>
  free :: usize       \<comment> \<open>first node of the free list\<close>
  used :: u32
  xblock_size :: u32
  local_free :: usize

record Page =
  pcount :: u32
  poffset :: u32
  inner :: PageInner
  xthread_free :: usize   \<comment> \<open>list head and delay state in the two low bits\<close>
  xheap :: usize
  prev_ptr :: usize
  next_ptr :: usize

definition zeroed_inner :: PageInner where
  "zeroed_inner = \<lparr>flags0 = 0, capacity = 0, reserved = 0, flags1 = 0, flags2 = 0, free = 0,
     used = 0, xblock_size = 0, local_free = 0\<rparr>"

definition zeroed_page :: Page where
  "zeroed_page = \<lparr>pcount = 0, poffset = 0, inner = zeroed_inner, xthread_free = 0, xheap = 0,
     prev_ptr = 0, next_ptr = 0\<rparr>"


section \<open>Segment headers\<close>

datatype SegmentKind = Normal | Huge

definition segment_kind_is_huge :: "SegmentKind \<Rightarrow> bool" where
  "segment_kind_is_huge kind \<longleftrightarrow> (case kind of Huge \<Rightarrow> True | Normal \<Rightarrow> False)"

text \<open>A commit mask is eight 64-bit fields (\<^verbatim>\<open>commit_mask.rs\<close>).\<close>

type_synonym CommitMask = "usize list"

record SegmentHeaderMain =
  memid :: usize
  mem_is_pinned :: bool
  mem_is_large :: bool
  mem_is_committed :: bool
  mem_alignment :: usize
  mem_align_offset :: usize
  allow_decommit :: bool
  decommit_expire :: i64
  decommit_mask :: CommitMask
  commit_mask :: CommitMask

record SegmentHeaderMain2 =
  seg_next :: usize
  abandoned :: usize
  abandoned_visits :: usize
  seg_used :: usize
  cookie :: usize
  segment_slices :: usize
  segment_info_slices :: usize
  seg_kind :: SegmentKind
  slice_entries :: usize

record SegmentHeader =
  main :: SegmentHeaderMain
  abandoned_next :: usize
  main2 :: SegmentHeaderMain2
  thread_id :: u64    \<comment> \<open>0 if the segment is abandoned\<close>


section \<open>Heap and thread-local data\<close>

record PageQueue =
  pq_first :: usize
  pq_last :: usize
  pq_block_size :: usize

record Heap =
  tld_ptr :: usize
  pages_free_direct :: "usize list"   \<comment> \<open>length 129\<close>
  pages :: "PageQueue list"           \<comment> \<open>length 75\<close>
  thread_delayed_free :: usize
  heap_thread_id :: u64
  arena_id :: usize
  page_count :: usize
  page_retired_min :: usize
  page_retired_max :: usize
  no_reclaim :: bool
  page_empty_ptr :: usize

record SpanQueueHeader =
  sq_first :: usize
  sq_last :: usize

record SegmentsTld =
  span_queue_headers :: "SpanQueueHeader list"   \<comment> \<open>length 32\<close>
  segments_count :: usize
  peak_count :: usize
  current_size :: usize
  peak_size :: usize

record Tld =
  heap_backing :: usize
  segments :: SegmentsTld


section \<open>The allocator state\<close>

text \<open>
  Typed memory: each kind of object is a map from its address. \<open>node_at\<close> is the first word
  of each free block, the \<^verbatim>\<open>Node\<close> of \<^verbatim>\<open>linked_list.rs\<close>. \<open>os_prot\<close> is the read-write
  protection the operating system gives each mapped byte, and the two counters are the
  statics \<^verbatim>\<open>ALIGNED_BASE\<close> and \<^verbatim>\<open>THREAD_COUNT\<close>. \<open>sys_calls\<close> numbers the system calls
  made, so that each call of the environment has its own answer.
\<close>

record st =
  page_at :: "usize \<rightharpoonup> Page"
  segment_at :: "usize \<rightharpoonup> SegmentHeader"
  heap_at :: "usize \<rightharpoonup> Heap"
  tld_at :: "usize \<rightharpoonup> Tld"
  node_at :: "usize \<rightharpoonup> usize"
  os_prot :: "usize \<rightharpoonup> bool"
  aligned_base :: usize
  thread_count :: usize
  sys_calls :: nat

text \<open>
  The operating system is outside the sources: the answers of \<^verbatim>\<open>mmap\<close>, \<^verbatim>\<open>mprotect\<close> and
  \<^verbatim>\<open>clock_gettime\<close> to the \<open>n\<close>-th call, and the identifier of the running thread.
\<close>

record Env =
  env_mmap :: "nat \<Rightarrow> usize \<Rightarrow> usize \<Rightarrow> bool \<Rightarrow> usize"
  env_mprotect :: "nat \<Rightarrow> usize \<Rightarrow> usize \<Rightarrow> bool \<Rightarrow> bool"
  env_clock :: "nat \<Rightarrow> i64 \<times> i64"
  env_thread_id :: u64

text \<open>Updating a header in place; an address with no header is a fault.\<close>

definition upd_page :: "st \<Rightarrow> usize \<Rightarrow> (Page \<Rightarrow> Page) \<Rightarrow> st res" where
  "upd_page s p f = bindR (fetch (page_at s) p) (\<lambda>pg. Inr (s\<lparr>page_at := (page_at s)(p \<mapsto> f pg)\<rparr>))"

definition upd_inner :: "st \<Rightarrow> usize \<Rightarrow> (PageInner \<Rightarrow> PageInner) \<Rightarrow> st res" where
  "upd_inner s p f = upd_page s p (\<lambda>pg. pg\<lparr>inner := f (inner pg)\<rparr>)"

definition upd_segment :: "st \<Rightarrow> usize \<Rightarrow> (SegmentHeader \<Rightarrow> SegmentHeader) \<Rightarrow> st res" where
  "upd_segment s p f =
     bindR (fetch (segment_at s) p) (\<lambda>sg. Inr (s\<lparr>segment_at := (segment_at s)(p \<mapsto> f sg)\<rparr>))"

definition upd_main :: "st \<Rightarrow> usize \<Rightarrow> (SegmentHeaderMain \<Rightarrow> SegmentHeaderMain) \<Rightarrow> st res" where
  "upd_main s p f = upd_segment s p (\<lambda>sg. sg\<lparr>main := f (main sg)\<rparr>)"

definition upd_main2 :: "st \<Rightarrow> usize \<Rightarrow> (SegmentHeaderMain2 \<Rightarrow> SegmentHeaderMain2) \<Rightarrow> st res" where
  "upd_main2 s p f = upd_segment s p (\<lambda>sg. sg\<lparr>main2 := f (main2 sg)\<rparr>)"

definition upd_heap :: "st \<Rightarrow> usize \<Rightarrow> (Heap \<Rightarrow> Heap) \<Rightarrow> st res" where
  "upd_heap s p f = bindR (fetch (heap_at s) p) (\<lambda>h. Inr (s\<lparr>heap_at := (heap_at s)(p \<mapsto> f h)\<rparr>))"

definition upd_tld :: "st \<Rightarrow> usize \<Rightarrow> (Tld \<Rightarrow> Tld) \<Rightarrow> st res" where
  "upd_tld s p f = bindR (fetch (tld_at s) p) (\<lambda>t. Inr (s\<lparr>tld_at := (tld_at s)(p \<mapsto> f t)\<rparr>))"

lemma upd_page_eq [heap_upd]:
  "page_at s p = Some pg \<Longrightarrow> upd_page s p f = Inr (s\<lparr>page_at := (page_at s)(p \<mapsto> f pg)\<rparr>)"
  by (simp add: upd_page_def)

lemma upd_inner_eq [heap_upd]:
  "page_at s p = Some pg \<Longrightarrow>
     upd_inner s p f = Inr (s\<lparr>page_at := (page_at s)(p \<mapsto> pg\<lparr>inner := f (inner pg)\<rparr>)\<rparr>)"
  by (simp add: upd_inner_def heap_upd)

lemma upd_segment_eq [heap_upd]:
  "segment_at s p = Some sg \<Longrightarrow>
     upd_segment s p f = Inr (s\<lparr>segment_at := (segment_at s)(p \<mapsto> f sg)\<rparr>)"
  by (simp add: upd_segment_def)

lemma upd_main_eq [heap_upd]:
  "segment_at s p = Some sg \<Longrightarrow>
     upd_main s p f = Inr (s\<lparr>segment_at := (segment_at s)(p \<mapsto> sg\<lparr>main := f (main sg)\<rparr>)\<rparr>)"
  by (simp add: upd_main_def heap_upd)

lemma upd_main2_eq [heap_upd]:
  "segment_at s p = Some sg \<Longrightarrow>
     upd_main2 s p f = Inr (s\<lparr>segment_at := (segment_at s)(p \<mapsto> sg\<lparr>main2 := f (main2 sg)\<rparr>)\<rparr>)"
  by (simp add: upd_main2_def heap_upd)

lemma upd_heap_eq [heap_upd]:
  "heap_at s p = Some h \<Longrightarrow> upd_heap s p f = Inr (s\<lparr>heap_at := (heap_at s)(p \<mapsto> f h)\<rparr>)"
  by (simp add: upd_heap_def)

lemma upd_tld_eq [heap_upd]:
  "tld_at s p = Some t \<Longrightarrow> upd_tld s p f = Inr (s\<lparr>tld_at := (tld_at s)(p \<mapsto> f t)\<rparr>)"
  by (simp add: upd_tld_def)

text \<open>Updates of different parts of the state commute; page headers are written first.\<close>

lemma page_heap_commute: "s\<lparr>heap_at := H, page_at := P\<rparr> = s\<lparr>page_at := P, heap_at := H\<rparr>"
  by simp

text \<open>Updates of different parts of the state, brought into the order of the record's fields.\<close>

lemma st_canon:
  "s\<lparr>segment_at := S, page_at := P\<rparr> = s\<lparr>page_at := P, segment_at := S\<rparr>"
  "s\<lparr>heap_at := H, page_at := P\<rparr> = s\<lparr>page_at := P, heap_at := H\<rparr>"
  "s\<lparr>tld_at := T, page_at := P\<rparr> = s\<lparr>page_at := P, tld_at := T\<rparr>"
  "s\<lparr>node_at := N, page_at := P\<rparr> = s\<lparr>page_at := P, node_at := N\<rparr>"
  "s\<lparr>os_prot := O1, page_at := P\<rparr> = s\<lparr>page_at := P, os_prot := O1\<rparr>"
  "s\<lparr>aligned_base := b, page_at := P\<rparr> = s\<lparr>page_at := P, aligned_base := b\<rparr>"
  "s\<lparr>thread_count := c, page_at := P\<rparr> = s\<lparr>page_at := P, thread_count := c\<rparr>"
  "s\<lparr>sys_calls := n, page_at := P\<rparr> = s\<lparr>page_at := P, sys_calls := n\<rparr>"
  "s\<lparr>heap_at := H, segment_at := S\<rparr> = s\<lparr>segment_at := S, heap_at := H\<rparr>"
  "s\<lparr>tld_at := T, segment_at := S\<rparr> = s\<lparr>segment_at := S, tld_at := T\<rparr>"
  "s\<lparr>node_at := N, segment_at := S\<rparr> = s\<lparr>segment_at := S, node_at := N\<rparr>"
  "s\<lparr>os_prot := O1, segment_at := S\<rparr> = s\<lparr>segment_at := S, os_prot := O1\<rparr>"
  "s\<lparr>aligned_base := b, segment_at := S\<rparr> = s\<lparr>segment_at := S, aligned_base := b\<rparr>"
  "s\<lparr>thread_count := c, segment_at := S\<rparr> = s\<lparr>segment_at := S, thread_count := c\<rparr>"
  "s\<lparr>sys_calls := n, segment_at := S\<rparr> = s\<lparr>segment_at := S, sys_calls := n\<rparr>"
  "s\<lparr>tld_at := T, heap_at := H\<rparr> = s\<lparr>heap_at := H, tld_at := T\<rparr>"
  "s\<lparr>node_at := N, heap_at := H\<rparr> = s\<lparr>heap_at := H, node_at := N\<rparr>"
  "s\<lparr>os_prot := O1, heap_at := H\<rparr> = s\<lparr>heap_at := H, os_prot := O1\<rparr>"
  "s\<lparr>aligned_base := b, heap_at := H\<rparr> = s\<lparr>heap_at := H, aligned_base := b\<rparr>"
  "s\<lparr>thread_count := c, heap_at := H\<rparr> = s\<lparr>heap_at := H, thread_count := c\<rparr>"
  "s\<lparr>sys_calls := n, heap_at := H\<rparr> = s\<lparr>heap_at := H, sys_calls := n\<rparr>"
  "s\<lparr>node_at := N, tld_at := T\<rparr> = s\<lparr>tld_at := T, node_at := N\<rparr>"
  "s\<lparr>os_prot := O1, tld_at := T\<rparr> = s\<lparr>tld_at := T, os_prot := O1\<rparr>"
  "s\<lparr>aligned_base := b, tld_at := T\<rparr> = s\<lparr>tld_at := T, aligned_base := b\<rparr>"
  "s\<lparr>thread_count := c, tld_at := T\<rparr> = s\<lparr>tld_at := T, thread_count := c\<rparr>"
  "s\<lparr>sys_calls := n, tld_at := T\<rparr> = s\<lparr>tld_at := T, sys_calls := n\<rparr>"
  "s\<lparr>os_prot := O1, node_at := N\<rparr> = s\<lparr>node_at := N, os_prot := O1\<rparr>"
  "s\<lparr>aligned_base := b, node_at := N\<rparr> = s\<lparr>node_at := N, aligned_base := b\<rparr>"
  "s\<lparr>thread_count := c, node_at := N\<rparr> = s\<lparr>node_at := N, thread_count := c\<rparr>"
  "s\<lparr>sys_calls := n, node_at := N\<rparr> = s\<lparr>node_at := N, sys_calls := n\<rparr>"
  "s\<lparr>aligned_base := b, os_prot := O1\<rparr> = s\<lparr>os_prot := O1, aligned_base := b\<rparr>"
  "s\<lparr>thread_count := c, os_prot := O1\<rparr> = s\<lparr>os_prot := O1, thread_count := c\<rparr>"
  "s\<lparr>sys_calls := n, os_prot := O1\<rparr> = s\<lparr>os_prot := O1, sys_calls := n\<rparr>"
  "s\<lparr>thread_count := c, aligned_base := b\<rparr> = s\<lparr>aligned_base := b, thread_count := c\<rparr>"
  "s\<lparr>sys_calls := n, aligned_base := b\<rparr> = s\<lparr>aligned_base := b, sys_calls := n\<rparr>"
  "s\<lparr>sys_calls := n, thread_count := c\<rparr> = s\<lparr>thread_count := c, sys_calls := n\<rparr>"
  by simp_all

lemma page_canon:
  "pg\<lparr>poffset := o1, pcount := c\<rparr> = pg\<lparr>pcount := c, poffset := o1\<rparr>"
  "pg\<lparr>inner := n, pcount := c\<rparr> = pg\<lparr>pcount := c, inner := n\<rparr>"
  "pg\<lparr>xthread_free := x, pcount := c\<rparr> = pg\<lparr>pcount := c, xthread_free := x\<rparr>"
  "pg\<lparr>xheap := h, pcount := c\<rparr> = pg\<lparr>pcount := c, xheap := h\<rparr>"
  "pg\<lparr>prev_ptr := p, pcount := c\<rparr> = pg\<lparr>pcount := c, prev_ptr := p\<rparr>"
  "pg\<lparr>next_ptr := q, pcount := c\<rparr> = pg\<lparr>pcount := c, next_ptr := q\<rparr>"
  "pg\<lparr>inner := n, poffset := o1\<rparr> = pg\<lparr>poffset := o1, inner := n\<rparr>"
  "pg\<lparr>xthread_free := x, poffset := o1\<rparr> = pg\<lparr>poffset := o1, xthread_free := x\<rparr>"
  "pg\<lparr>xheap := h, poffset := o1\<rparr> = pg\<lparr>poffset := o1, xheap := h\<rparr>"
  "pg\<lparr>prev_ptr := p, poffset := o1\<rparr> = pg\<lparr>poffset := o1, prev_ptr := p\<rparr>"
  "pg\<lparr>next_ptr := q, poffset := o1\<rparr> = pg\<lparr>poffset := o1, next_ptr := q\<rparr>"
  "pg\<lparr>xthread_free := x, inner := n\<rparr> = pg\<lparr>inner := n, xthread_free := x\<rparr>"
  "pg\<lparr>xheap := h, inner := n\<rparr> = pg\<lparr>inner := n, xheap := h\<rparr>"
  "pg\<lparr>prev_ptr := p, inner := n\<rparr> = pg\<lparr>inner := n, prev_ptr := p\<rparr>"
  "pg\<lparr>next_ptr := q, inner := n\<rparr> = pg\<lparr>inner := n, next_ptr := q\<rparr>"
  "pg\<lparr>xheap := h, xthread_free := x\<rparr> = pg\<lparr>xthread_free := x, xheap := h\<rparr>"
  "pg\<lparr>prev_ptr := p, xthread_free := x\<rparr> = pg\<lparr>xthread_free := x, prev_ptr := p\<rparr>"
  "pg\<lparr>next_ptr := q, xthread_free := x\<rparr> = pg\<lparr>xthread_free := x, next_ptr := q\<rparr>"
  "pg\<lparr>prev_ptr := p, xheap := h\<rparr> = pg\<lparr>xheap := h, prev_ptr := p\<rparr>"
  "pg\<lparr>next_ptr := q, xheap := h\<rparr> = pg\<lparr>xheap := h, next_ptr := q\<rparr>"
  "pg\<lparr>next_ptr := q, prev_ptr := p\<rparr> = pg\<lparr>prev_ptr := p, next_ptr := q\<rparr>"
  by simp_all

text \<open>
  \<^verbatim>\<open>todo()\<close> of \<^verbatim>\<open>types.rs\<close> does not return.
\<close>

definition todo :: "'a res" where
  "todo = Inl Todo"

end
