(* ===== verification/Flags.thy ===== *)
theory Flags
  imports Types
begin

text \<open>
  The packed page flags of \<^verbatim>\<open>flags.rs\<close>: three boolean flags in \<open>flags0\<close>, two in \<open>flags1\<close>,
  and in \<open>flags2\<close> a boolean and the seven-bit retire counter.
\<close>

definition get_is_reset :: "PageInner \<Rightarrow> bool" where
  "get_is_reset p \<longleftrightarrow> flags0 p AND 1 \<noteq> 0"
definition get_is_committed :: "PageInner \<Rightarrow> bool" where
  "get_is_committed p \<longleftrightarrow> flags0 p AND 2 \<noteq> 0"
definition get_is_zero_init :: "PageInner \<Rightarrow> bool" where
  "get_is_zero_init p \<longleftrightarrow> flags0 p AND 4 \<noteq> 0"
definition get_in_full :: "PageInner \<Rightarrow> bool" where
  "get_in_full p \<longleftrightarrow> flags1 p AND 1 \<noteq> 0"
definition get_has_aligned :: "PageInner \<Rightarrow> bool" where
  "get_has_aligned p \<longleftrightarrow> flags1 p AND 2 \<noteq> 0"
definition get_is_zero :: "PageInner \<Rightarrow> bool" where
  "get_is_zero p \<longleftrightarrow> flags2 p AND 1 \<noteq> 0"
definition get_retire_expire :: "PageInner \<Rightarrow> u8" where
  "get_retire_expire p = drop_bit 1 (flags2 p)"

definition not_full_nor_aligned :: "PageInner \<Rightarrow> bool" where
  "not_full_nor_aligned p \<longleftrightarrow> flags1 p = 0"

definition set_retire_expire :: "u8 \<Rightarrow> PageInner \<Rightarrow> PageInner" where
  "set_retire_expire u p = p\<lparr>flags2 := (flags2 p AND 1) OR push_bit 1 u\<rparr>"
definition set_is_reset :: "bool \<Rightarrow> PageInner \<Rightarrow> PageInner" where
  "set_is_reset b p = p\<lparr>flags0 := (flags0 p AND NOT 1) OR (if b then 1 else 0)\<rparr>"
definition set_is_committed :: "bool \<Rightarrow> PageInner \<Rightarrow> PageInner" where
  "set_is_committed b p = p\<lparr>flags0 := (flags0 p AND NOT 2) OR push_bit 1 (if b then 1 else 0)\<rparr>"
definition set_is_zero_init :: "bool \<Rightarrow> PageInner \<Rightarrow> PageInner" where
  "set_is_zero_init b p = p\<lparr>flags0 := (flags0 p AND NOT 4) OR push_bit 2 (if b then 1 else 0)\<rparr>"
definition set_in_full :: "bool \<Rightarrow> PageInner \<Rightarrow> PageInner" where
  "set_in_full b p = p\<lparr>flags1 := (flags1 p AND NOT 1) OR (if b then 1 else 0)\<rparr>"
definition set_has_aligned :: "bool \<Rightarrow> PageInner \<Rightarrow> PageInner" where
  "set_has_aligned b p = p\<lparr>flags1 := (flags1 p AND NOT 2) OR push_bit 1 (if b then 1 else 0)\<rparr>"

text \<open>A flag test reads one bit of its byte.\<close>

lemma and_exp_nonzero: "x AND 2 ^ n \<noteq> 0 \<longleftrightarrow> bit x n" if "n < LENGTH('a)" for x :: "'a::len word"
  using that by (simp add: bit_iff_and_push_bit_not_eq_0 push_bit_eq_mult)

lemmas flag_bits =
  and_exp_nonzero [of 0, where ?'a = 8, simplified] and_exp_nonzero [of 1, where ?'a = 8, simplified]
  and_exp_nonzero [of 2, where ?'a = 8, simplified]

lemmas flag_getters = get_is_reset_def get_is_committed_def get_is_zero_init_def get_in_full_def
  get_has_aligned_def get_is_zero_def get_retire_expire_def not_full_nor_aligned_def

lemmas flag_setters = set_retire_expire_def set_is_reset_def set_is_committed_def
  set_is_zero_init_def set_in_full_def set_has_aligned_def

lemma bit_2_word: "bit (2 :: 'a::len word) n \<longleftrightarrow> n = 1 \<and> 1 < LENGTH('a)"
  using bit_exp_iff [of 1 n, where ?'a = "'a word"] by auto

lemma bit_4_word: "bit (4 :: 'a::len word) n \<longleftrightarrow> n = 2 \<and> 2 < LENGTH('a)"
  using bit_exp_iff [of 2 n, where ?'a = "'a word"] by auto

lemmas flag_bit_simps = flag_getters flag_setters flag_bits bit_simps bit_2_word bit_4_word bit_1_iff

lemma flags1_laws:
  "get_in_full (set_in_full b p) = b" "get_has_aligned (set_in_full b p) = get_has_aligned p"
  "get_has_aligned (set_has_aligned b p) = b" "get_in_full (set_has_aligned b p) = get_in_full p"
  by (auto simp: flag_bit_simps)

lemma flags0_laws:
  "get_is_reset (set_is_reset b p) = b"
  "get_is_committed (set_is_reset b p) = get_is_committed p"
  "get_is_zero_init (set_is_reset b p) = get_is_zero_init p"
  "get_is_committed (set_is_committed b p) = b"
  "get_is_reset (set_is_committed b p) = get_is_reset p"
  "get_is_zero_init (set_is_committed b p) = get_is_zero_init p"
  "get_is_zero_init (set_is_zero_init b p) = b"
  "get_is_reset (set_is_zero_init b p) = get_is_reset p"
  "get_is_committed (set_is_zero_init b p) = get_is_committed p"
  by (auto simp: flag_bit_simps)

lemma bit_double: "bit (u * 2) (Suc n) \<longleftrightarrow> Suc n < LENGTH('a) \<and> bit u n" for u :: "'a::len word"
  using bit_push_bit_iff [of 1 u "Suc n"] by (simp add: push_bit_eq_mult)

lemma retire_expire_laws:
  "get_is_zero (set_retire_expire u p) = get_is_zero p"
  "u < 128 \<Longrightarrow> get_retire_expire (set_retire_expire u p) = u"
proof -
  show "get_is_zero (set_retire_expire u p) = get_is_zero p"
    by (auto simp: flag_bit_simps bit_0 even_or_iff even_and_iff)
  assume "u < 128"
  then have "take_bit 7 u = u" by (simp add: take_bit_eq_mod mod_word_less)
  then have high: "bit u n \<Longrightarrow> n < 7" for n by (metis bit_take_bit_iff)
  show "get_retire_expire (set_retire_expire u p) = u"
    by (rule bit_word_eqI) (use high in \<open>auto simp: flag_bit_simps bit_double\<close>)
qed

lemma not_full_nor_aligned_imp:
  "not_full_nor_aligned p \<Longrightarrow> \<not> get_in_full p \<and> \<not> get_has_aligned p"
  by (simp add: flag_getters)

text \<open>Setting a flag changes one byte of the header and nothing else.\<close>

lemma flag_setters_frame [simp]:
  "flags1 (set_is_reset b p) = flags1 p" "flags2 (set_is_reset b p) = flags2 p"
  "flags1 (set_is_committed b p) = flags1 p" "flags2 (set_is_committed b p) = flags2 p"
  "flags0 (set_in_full b p) = flags0 p" "flags2 (set_in_full b p) = flags2 p"
  "free (set_in_full b p) = free p" "local_free (set_in_full b p) = local_free p"
  "used (set_in_full b p) = used p" "xblock_size (set_in_full b p) = xblock_size p"
  "capacity (set_in_full b p) = capacity p" "reserved (set_in_full b p) = reserved p"
  "xblock_size (set_retire_expire u p) = xblock_size p" "free (set_retire_expire u p) = free p"
  "xblock_size (set_has_aligned b p) = xblock_size p" "free (set_has_aligned b p) = free p"
  by (simp_all add: flag_setters)


section \<open>Property\<close>

text \<open>
  Each flag setter changes exactly its own flag: reading the flag back gives the value
  set, every other flag of the byte keeps its value, and the retire counter survives a
  round trip for every value below 128.
\<close>

lemma flags_independent:
  "get_in_full (set_in_full b p) = b \<and> get_has_aligned (set_in_full b p) = get_has_aligned p
    \<and> get_has_aligned (set_has_aligned b p) = b \<and> get_in_full (set_has_aligned b p) = get_in_full p
    \<and> get_is_reset (set_is_reset b p) = b \<and> get_is_committed (set_is_reset b p) = get_is_committed p
    \<and> get_is_committed (set_is_committed b p) = b \<and> get_is_reset (set_is_committed b p) = get_is_reset p
    \<and> get_is_zero_init (set_is_zero_init b p) = b
    \<and> get_is_zero_init (set_is_committed b p) = get_is_zero_init p
    \<and> get_is_zero (set_retire_expire u p) = get_is_zero p
    \<and> get_retire_expire (set_retire_expire (u AND 127) p) = u AND 127"
proof -
  have "u AND 127 < 128" by (rule le_less_trans [OF word_and_le1]) simp
  then show ?thesis by (simp only: flags1_laws flags0_laws retire_expire_laws simp_thms)
qed

end
