(* ===== verification/Commit_Mask.thy ===== *)
theory Commit_Mask
  imports Types
begin

text \<open>
  The commit masks of \<^verbatim>\<open>commit_mask.rs\<close>: 512 bits, one per slice of a segment, in eight
  64-bit fields. The \<^verbatim>\<open>while i < 8\<close> loops of the source are recursions over the field
  index. \<open>view\<close> is the abstraction the source gives: the set of set bit indices.
\<close>

definition is_bit_set :: "usize \<Rightarrow> nat \<Rightarrow> bool" where
  "is_bit_set a b \<longleftrightarrow> a AND push_bit b 1 = push_bit b 1"

definition view :: "CommitMask \<Rightarrow> nat set" where
  "view cm = set (filter (\<lambda>n.
     (n < 64 \<and> is_bit_set (cm ! 0) n)
     \<or> (64 \<le> n \<and> n < 128 \<and> is_bit_set (cm ! 1) (n - 64))
     \<or> (128 \<le> n \<and> n < 192 \<and> is_bit_set (cm ! 2) (n - 128))
     \<or> (192 \<le> n \<and> n < 256 \<and> is_bit_set (cm ! 3) (n - 192))
     \<or> (256 \<le> n \<and> n < 320 \<and> is_bit_set (cm ! 4) (n - 256))
     \<or> (320 \<le> n \<and> n < 384 \<and> is_bit_set (cm ! 5) (n - 320))
     \<or> (384 \<le> n \<and> n < 448 \<and> is_bit_set (cm ! 6) (n - 384))
     \<or> (448 \<le> n \<and> n < 512 \<and> is_bit_set (cm ! 7) (n - 448))) [0..<512])"

definition empty :: CommitMask where
  "empty = [0, 0, 0, 0, 0, 0, 0, 0]"

section \<open>Field-wise operations\<close>

function all_set_loop :: "CommitMask \<Rightarrow> CommitMask \<Rightarrow> nat \<Rightarrow> bool" where
  "all_set_loop self other i =
     (if i < 8 then
        if self ! i AND other ! i \<noteq> other ! i then False else all_set_loop self other (i + 1)
      else True)"
  by pat_completeness auto
termination by (relation "measure (\<lambda>(_, _, i). 8 - i)") auto

definition all_set :: "CommitMask \<Rightarrow> CommitMask \<Rightarrow> bool" where
  "all_set self other = all_set_loop self other 0"

function any_set_loop :: "CommitMask \<Rightarrow> CommitMask \<Rightarrow> nat \<Rightarrow> bool" where
  "any_set_loop self other i =
     (if i < 8 then
        if self ! i AND other ! i \<noteq> 0 then True else any_set_loop self other (i + 1)
      else False)"
  by pat_completeness auto
termination by (relation "measure (\<lambda>(_, _, i). 8 - i)") auto

definition any_set :: "CommitMask \<Rightarrow> CommitMask \<Rightarrow> bool" where
  "any_set self other = any_set_loop self other 0"

function create_intersect_loop :: "CommitMask \<Rightarrow> CommitMask \<Rightarrow> CommitMask \<Rightarrow> nat \<Rightarrow> CommitMask" where
  "create_intersect_loop self other res i =
     (if i < 8 then create_intersect_loop self other (res[i := self ! i AND other ! i]) (i + 1)
      else res)"
  by pat_completeness auto
termination by (relation "measure (\<lambda>(_, _, _, i). 8 - i)") auto

definition create_intersect :: "CommitMask \<Rightarrow> CommitMask \<Rightarrow> CommitMask \<Rightarrow> CommitMask" where
  "create_intersect self other res = create_intersect_loop self other res 0"

function clear_loop :: "CommitMask \<Rightarrow> CommitMask \<Rightarrow> nat \<Rightarrow> CommitMask" where
  "clear_loop self other i =
     (if i < 8 then clear_loop (self[i := self ! i AND NOT (other ! i)]) other (i + 1) else self)"
  by pat_completeness auto
termination by (relation "measure (\<lambda>(_, _, i). 8 - i)") auto

definition clear :: "CommitMask \<Rightarrow> CommitMask \<Rightarrow> CommitMask" where
  "clear self other = clear_loop self other 0"

function set_loop :: "CommitMask \<Rightarrow> CommitMask \<Rightarrow> nat \<Rightarrow> CommitMask" where
  "set_loop self other i =
     (if i < 8 then set_loop (self[i := self ! i OR other ! i]) other (i + 1) else self)"
  by pat_completeness auto
termination by (relation "measure (\<lambda>(_, _, i). 8 - i)") auto

definition set_mask :: "CommitMask \<Rightarrow> CommitMask \<Rightarrow> CommitMask" where
  "set_mask self other = set_loop self other 0"

function fill_loop :: "usize \<Rightarrow> CommitMask \<Rightarrow> nat \<Rightarrow> CommitMask" where
  "fill_loop v self i = (if i < 8 then fill_loop v (self[i := v]) (i + 1) else self)"
  by pat_completeness auto
termination by (relation "measure (\<lambda>(_, _, i). 8 - i)") auto

definition create_empty :: "CommitMask \<Rightarrow> CommitMask" where
  "create_empty self = fill_loop 0 self 0"

definition create_full :: "CommitMask \<Rightarrow> CommitMask" where
  "create_full self = fill_loop (NOT 0) self 0"

function is_const_loop :: "usize \<Rightarrow> CommitMask \<Rightarrow> nat \<Rightarrow> bool" where
  "is_const_loop v self i =
     (if i < 8 then if self ! i \<noteq> v then False else is_const_loop v self (i + 1) else True)"
  by pat_completeness auto
termination by (relation "measure (\<lambda>(_, _, i). 8 - i)") auto

definition is_empty :: "CommitMask \<Rightarrow> bool" where
  "is_empty self = is_const_loop 0 self 0"

definition is_full :: "CommitMask \<Rightarrow> bool" where
  "is_full self = is_const_loop (NOT 0) self 0"

text \<open>\<^verbatim>\<open>create\<close>: the fields from \<open>idx\<close> on get up to 64 of the \<open>count\<close> bits each.\<close>

function create_loop :: "CommitMask \<Rightarrow> nat \<Rightarrow> nat \<Rightarrow> nat \<Rightarrow> CommitMask res" where
  "create_loop self i ofs bitcount =
     (if bitcount > 0 then
        let avail = 64 - ofs;
            c = (if bitcount > avail then avail else bitcount);
            m = (if c \<ge> 64 then NOT 0 else push_bit ofs (push_bit c 1 - 1))
        in if \<not> i < 8 then Inl Panic
           else create_loop (self[i := m]) (i + 1) 0 (bitcount - c)
      else Inr self)"
  by pat_completeness auto
termination by (relation "measure (\<lambda>(_, i, _, _). 8 - i)") (auto simp: Let_def)

definition create :: "CommitMask \<Rightarrow> usize \<Rightarrow> usize \<Rightarrow> CommitMask res" where
  "create self idx count =
     (if count = COMMIT_MASK_BITS then Inr (create_full self)
      else if count = 0 then Inr self
      else create_loop self (unat (idx div 64)) (unat (idx mod 64)) (unat count))"

section \<open>Runs of set bits\<close>

text \<open>
  \<^verbatim>\<open>next_run\<close>. The inner loop over \<^verbatim>\<open>mask & 1 == 0\<close> is entered only with a non-zero
  \<open>mask\<close> (the enclosing test), and then ends at its lowest set bit; the extra guard makes
  the recursion total and is never the one that stops it.
\<close>

function skip_zeros :: "usize \<Rightarrow> nat \<Rightarrow> usize \<times> nat" where
  "skip_zeros m ofs =
     (if m \<noteq> 0 \<and> m AND 1 = 0 then skip_zeros (drop_bit 1 m) (ofs + 1) else (m, ofs))"
  by pat_completeness auto
termination
proof (relation "measure (\<lambda>(m, _). unat m)")
  fix m :: usize and ofs :: nat
  assume "m \<noteq> 0 \<and> m AND 1 = 0"
  then have "0 < unat m" by (simp add: unat_gt_0)
  then show "((drop_bit 1 m, ofs + 1), m, ofs) \<in> measure (\<lambda>(m, _). unat m)"
    using unat_drop_bit [of 1 m] by simp
qed simp

function find_run :: "CommitMask \<Rightarrow> nat \<Rightarrow> nat \<Rightarrow> usize \<Rightarrow> nat \<times> nat \<times> usize" where
  "find_run self i ofs m =
     (if i < 8 then
        let m = drop_bit ofs (self ! i)
        in if m \<noteq> 0 then (let (m, ofs) = skip_zeros m ofs in (i, ofs, m))
           else find_run self (i + 1) 0 m
      else (i, ofs, m))"
  by pat_completeness auto
termination by (relation "measure (\<lambda>(_, i, _, _). 8 - i)") auto

function count_ones :: "usize \<Rightarrow> nat \<Rightarrow> usize \<times> nat" where
  "count_ones m count =
     (let count = count + 1; m = drop_bit 1 m
      in if m AND 1 \<noteq> 1 then (m, count) else count_ones m count)"
  by pat_completeness auto
termination
proof (relation "measure (\<lambda>(m, _). unat m)")
  fix m :: usize and c x :: nat and m' :: usize
  assume "x = c + 1" "m' = drop_bit 1 m" "\<not> m' AND 1 \<noteq> 1"
  then have "m' \<noteq> 0" by auto
  then have "unat (drop_bit 1 m) \<noteq> 0" using \<open>m' = _\<close> by (simp add: unat_eq_0)
  then have "unat m div 2 \<noteq> 0" by (simp add: unat_drop_bit)
  then show "((m', x), m, c) \<in> measure (\<lambda>(m, _). unat m)"
    using \<open>m' = _\<close> by (simp add: unat_drop_bit)
qed simp

declare all_set_loop.simps [simp del] any_set_loop.simps [simp del] create_intersect_loop.simps [simp del]
  clear_loop.simps [simp del] set_loop.simps [simp del] fill_loop.simps [simp del]
  is_const_loop.simps [simp del] create_loop.simps [simp del] skip_zeros.simps [simp del]
  find_run.simps [simp del] count_ones.simps [simp del]

lemma count_ones_even: "fst (count_ones m count) AND 1 \<noteq> 1"
  by (induction m count rule: count_ones.induct) (simp add: count_ones.simps Let_def)

function run_loop :: "CommitMask \<Rightarrow> nat \<Rightarrow> usize \<Rightarrow> nat \<Rightarrow> nat \<Rightarrow> nat" where
  "run_loop self i m next_idx count =
     (let (m, count) = count_ones m count
      in if (next_idx + count) mod 64 = 0 then
           let i = i + 1
           in if i \<ge> 8 then count
              else let m = self ! i
                   in if m AND 1 \<noteq> 1 then count else run_loop self i m next_idx count
         else if m AND 1 \<noteq> 1 then count else run_loop self i m next_idx count)"
  by pat_completeness auto
termination
  by (relation "measure (\<lambda>(_, i, _, _, _). 8 - i)") (auto dest: arg_cong [where f = fst] simp: count_ones_even)

definition next_run :: "CommitMask \<Rightarrow> usize \<Rightarrow> usize \<times> usize" where
  "next_run self idx =
     (let (i, ofs, m) = find_run self (unat (idx div 64)) (unat (idx mod 64)) 0
      in if i \<ge> 8 then (COMMIT_MASK_BITS, 0)
         else let next_idx = i * 64 + ofs
              in (of_nat next_idx, of_nat (run_loop self i m next_idx 0)))"

declare run_loop.simps [simp del]

section \<open>Masks as sets\<close>

abbreviation cm_wf :: "CommitMask \<Rightarrow> bool" where
  "cm_wf cm \<equiv> length cm = 8"

definition bit_at :: "CommitMask \<Rightarrow> nat \<Rightarrow> bool" where
  "bit_at cm n \<longleftrightarrow> bit (cm ! (n div 64)) (n mod 64)"

lemma is_bit_set_iff: "b < 64 \<Longrightarrow> is_bit_set a b \<longleftrightarrow> bit a b"
proof -
  assume b: "b < 64"
  have "a AND push_bit b 1 = push_bit b 1 \<longleftrightarrow> bit a b"
  proof
    assume "a AND push_bit b 1 = push_bit b 1"
    then have "bit (a AND push_bit b 1) b" using b by (simp add: bit_exp_iff)
    then show "bit a b" by (simp add: bit_and_iff)
  next
    assume "bit a b"
    then show "a AND push_bit b 1 = push_bit b 1"
      by (intro bit_word_eqI) (auto simp: bit_and_iff bit_exp_iff)
  qed
  then show ?thesis by (simp add: is_bit_set_def)
qed

lemma field_of:
  assumes "64 * i \<le> n" "n < 64 * i + 64"
  shows "n div 64 = i" and "n mod 64 = n - 64 * (i::nat)"
proof -
  show "n div 64 = i" using assms by (intro div_nat_eqI) auto
  then show "n mod 64 = n - 64 * i" by (metis minus_mult_div_eq_mod)
qed

lemma mem_view [mask_view]: "n \<in> view cm \<longleftrightarrow> n < 512 \<and> bit_at cm n"
proof (cases "n < 512")
  case False
  then show ?thesis by (simp add: view_def)
next
  case True
  consider "n < 64" | "64 \<le> n" "n < 128" | "128 \<le> n" "n < 192" | "192 \<le> n" "n < 256"
    | "256 \<le> n" "n < 320" | "320 \<le> n" "n < 384" | "384 \<le> n" "n < 448" | "448 \<le> n" "n < 512"
    using True by linarith
  then show ?thesis
    using field_of [of 0 n] field_of [of 1 n] field_of [of 2 n] field_of [of 3 n] field_of [of 4 n]
      field_of [of 5 n] field_of [of 6 n] field_of [of 7 n]
    by cases (simp_all add: view_def bit_at_def is_bit_set_iff)
qed

text \<open>Two masks with the same view are equal.\<close>

lemma view_inject:
  assumes "cm_wf a" "cm_wf b" "view a = view b"
  shows "a = b"
proof (rule nth_equalityI)
  show "length a = length b" using assms by simp
  fix i assume "i < length a"
  then have i: "i < 8" using assms by simp
  show "a ! i = b ! i"
  proof (rule bit_word_eqI)
    fix n assume n: "n < LENGTH(64)"
    then have "64 * i + n < 512" "(64 * i + n) div 64 = i" "(64 * i + n) mod 64 = n" using i by auto
    then show "bit (a ! i) n = bit (b ! i) n"
      using assms(3) mem_view [of "64 * i + n" a] mem_view [of "64 * i + n" b]
      by (simp add: bit_at_def)
  qed
qed

section \<open>Field-wise operations on views\<close>

lemma field_bound: "n < 512 \<Longrightarrow> n div 64 < (8::nat)" by simp

lemma all_fields_Suc:
  "i < 8 \<Longrightarrow> (\<forall>j. i \<le> j \<and> j < (8::nat) \<longrightarrow> P j) \<longleftrightarrow> P i \<and> (\<forall>j. i + 1 \<le> j \<and> j < 8 \<longrightarrow> P j)"
  by (metis Suc_eq_plus1 Suc_leD Suc_leI le_neq_implies_less order_refl)

lemma ex_field_Suc:
  "i < 8 \<Longrightarrow> (\<exists>j. i \<le> j \<and> j < (8::nat) \<and> P j) \<longleftrightarrow> P i \<or> (\<exists>j. i + 1 \<le> j \<and> j < 8 \<and> P j)"
  using all_fields_Suc [of i "\<lambda>j. \<not> P j"] by blast

lemma all_set_loop_iff:
  "all_set_loop a b i \<longleftrightarrow> (\<forall>j. i \<le> j \<and> j < 8 \<longrightarrow> a ! j AND b ! j = b ! j)"
proof (induction a b i rule: all_set_loop.induct)
  case (1 a b i)
  then show ?case
    by (cases "i < 8", simp add: all_set_loop.simps [of a b i] all_fields_Suc [of i])
       (auto simp: all_set_loop.simps [of a b i])
qed

lemma any_set_loop_iff:
  "any_set_loop a b i \<longleftrightarrow> (\<exists>j. i \<le> j \<and> j < 8 \<and> a ! j AND b ! j \<noteq> 0)"
proof (induction a b i rule: any_set_loop.induct)
  case (1 a b i)
  then show ?case
    by (cases "i < 8") (simp_all add: any_set_loop.simps [of a b i] ex_field_Suc [of i])
qed

lemma is_const_loop_iff: "is_const_loop v a i \<longleftrightarrow> (\<forall>j. i \<le> j \<and> j < 8 \<longrightarrow> a ! j = v)"
proof (induction v a i rule: is_const_loop.induct)
  case (1 v a i)
  then show ?case
    by (cases "i < 8", simp add: is_const_loop.simps [of v a i] all_fields_Suc [of i])
       (auto simp: is_const_loop.simps [of v a i])
qed

lemma create_intersect_loop_nth:
  "cm_wf r \<Longrightarrow> cm_wf (create_intersect_loop a b r i) \<and> (\<forall>j < 8. create_intersect_loop a b r i ! j =
     (if i \<le> j then a ! j AND b ! j else r ! j))"
proof (induction a b r i rule: create_intersect_loop.induct)
  case (1 a b r i)
  then show ?case
    by (subst create_intersect_loop.simps, subst (2) create_intersect_loop.simps)
       (auto simp: nth_list_update not_less_eq_eq dest: le_antisym)
qed

lemma clear_loop_nth:
  "cm_wf a \<Longrightarrow> cm_wf (clear_loop a b i) \<and> (\<forall>j < 8. clear_loop a b i ! j =
     (if i \<le> j then a ! j AND NOT (b ! j) else a ! j))"
proof (induction a b i rule: clear_loop.induct)
  case (1 a b i)
  then show ?case
    by (subst clear_loop.simps, subst (2) clear_loop.simps) (auto simp: nth_list_update not_less_eq_eq dest: le_antisym)
qed

lemma set_loop_nth:
  "cm_wf a \<Longrightarrow> cm_wf (set_loop a b i) \<and> (\<forall>j < 8. set_loop a b i ! j =
     (if i \<le> j then a ! j OR b ! j else a ! j))"
proof (induction a b i rule: set_loop.induct)
  case (1 a b i)
  then show ?case
    by (subst set_loop.simps, subst (2) set_loop.simps) (auto simp: nth_list_update not_less_eq_eq dest: le_antisym)
qed

lemma fill_loop_nth:
  "cm_wf a \<Longrightarrow> cm_wf (fill_loop v a i) \<and> (\<forall>j < 8. fill_loop v a i ! j = (if i \<le> j then v else a ! j))"
proof (induction v a i rule: fill_loop.induct)
  case (1 v a i)
  then show ?case
    by (subst fill_loop.simps, subst (2) fill_loop.simps) (auto simp: nth_list_update not_less_eq_eq dest: le_antisym)
qed

lemma view_eq_UNIV_fields:
  assumes "\<And>n. n < 512 \<Longrightarrow> bit_at c n \<longleftrightarrow> P n"
  shows "view c = {n. n < 512 \<and> P n}"
  using assms by (auto simp: mem_view)

lemma view_bound: "view a \<subseteq> {..<512}"
  by (auto simp: mem_view)

lemma view_create_intersect [mask_view]:
  "cm_wf r \<Longrightarrow> view (create_intersect a b r) = view a \<inter> view b"
  using create_intersect_loop_nth [of r a b 0]
  by (auto simp: create_intersect_def mem_view bit_at_def bit_and_iff field_bound)

lemma view_clear [mask_view]: "cm_wf a \<Longrightarrow> view (clear a b) = view a - view b"
  using clear_loop_nth [of a b 0]
  by (auto simp: clear_def mem_view bit_at_def bit_and_iff bit_not_iff field_bound)

lemma view_set_mask [mask_view]: "cm_wf a \<Longrightarrow> view (set_mask a b) = view a \<union> view b"
  using set_loop_nth [of a b 0]
  by (auto simp: set_mask_def mem_view bit_at_def bit_or_iff field_bound)

lemma view_create_empty [mask_view]: "cm_wf a \<Longrightarrow> view (create_empty a) = {}"
  using fill_loop_nth [of a 0 0]
  by (auto simp: create_empty_def mem_view bit_at_def field_bound)

lemma view_create_full [mask_view]: "cm_wf a \<Longrightarrow> view (create_full a) = {..<512}"
  using fill_loop_nth [of a "NOT 0" 0]
  by (auto simp: create_full_def mem_view bit_at_def field_bound)

lemma wf_ops [simp]:
  "cm_wf empty" "cm_wf r \<Longrightarrow> cm_wf (create_intersect a b r)" "cm_wf a \<Longrightarrow> cm_wf (clear a b)"
  "cm_wf a \<Longrightarrow> cm_wf (set_mask a b)" "cm_wf a \<Longrightarrow> cm_wf (create_empty a)"
  "cm_wf a \<Longrightarrow> cm_wf (create_full a)"
  using create_intersect_loop_nth [of r a b 0] clear_loop_nth [of a b 0] set_loop_nth [of a b 0]
    fill_loop_nth [of a 0 0] fill_loop_nth [of a "NOT 0" 0]
  by (simp_all add: empty_def create_intersect_def clear_def set_mask_def create_empty_def
      create_full_def)

lemma empty_nth: "i < 8 \<Longrightarrow> empty ! i = 0"
proof -
  assume "i < 8"
  have "empty = replicate 8 0" by (simp add: empty_def numeral_eq_Suc)
  then show ?thesis using nth_replicate [OF \<open>i < 8\<close>] by metis
qed

lemma view_empty [mask_view]: "view empty = {}"
  by (auto simp: mem_view bit_at_def field_bound empty_nth)

lemma field_subset_iff:
  "(\<forall>j<8. \<forall>n<64. bit (b ! j) n \<longrightarrow> bit (a ! j) n) \<longleftrightarrow> view b \<subseteq> view a"
proof
  assume l: "\<forall>j<8. \<forall>n<64. bit (b ! j) n \<longrightarrow> bit (a ! j) n"
  then show "view b \<subseteq> view a" by (auto simp: mem_view bit_at_def field_bound)
next
  assume sub: "view b \<subseteq> view a"
  show "\<forall>j<8. \<forall>n<64. bit (b ! j) n \<longrightarrow> bit (a ! j) n"
  proof (intro allI impI)
    fix j n assume "j < (8::nat)" "n < (64::nat)" "bit (b ! j) n"
    then have "64 * j + n \<in> view b" by (simp add: mem_view bit_at_def)
    then have "64 * j + n \<in> view a" using sub by blast
    then show "bit (a ! j) n" using \<open>n < 64\<close> by (simp add: mem_view bit_at_def)
  qed
qed

lemma all_set_iff [mask_view]: "all_set a b \<longleftrightarrow> view b \<subseteq> view a"
proof -
  have "x AND y = y \<longleftrightarrow> (\<forall>n<64. bit y n \<longrightarrow> bit x n)" for x y :: usize
    by (auto simp: bit_eq_iff bit_and_iff dest: bit_imp_le_length)
  then show ?thesis
    by (simp add: all_set_def all_set_loop_iff flip: field_subset_iff)
qed

lemma view_eq_empty_iff: "view c = {} \<longleftrightarrow> (\<forall>j<8. c ! j = 0)"
proof -
  have "view c = {} \<longleftrightarrow> view c \<subseteq> view empty" by (simp add: view_empty)
  also have "\<dots> \<longleftrightarrow> (\<forall>j<8. \<forall>n<64. \<not> bit (c ! j) n)"
    unfolding field_subset_iff [symmetric] by (simp add: empty_nth)
  also have "\<dots> \<longleftrightarrow> (\<forall>j<8. c ! j = 0)"
    by (auto simp: bit_eq_iff dest: bit_imp_le_length)
  finally show ?thesis .
qed

lemma any_set_iff [mask_view]: "any_set a b \<longleftrightarrow> view a \<inter> view b \<noteq> {}"
proof -
  have "view a \<inter> view b = view (create_intersect a b empty)" by (simp add: view_create_intersect)
  also have "\<dots> = {} \<longleftrightarrow> (\<forall>j<8. a ! j AND b ! j = 0)"
    using create_intersect_loop_nth [of empty a b 0]
    by (simp add: view_eq_empty_iff create_intersect_def)
  finally show ?thesis by (auto simp: any_set_def any_set_loop_iff)
qed

lemma is_empty_iff [mask_view]: "is_empty a \<longleftrightarrow> view a = {}"
  by (simp add: is_empty_def is_const_loop_iff view_eq_empty_iff)

lemma is_full_iff [mask_view]: "is_full a \<longleftrightarrow> view a = {..<512}"
proof -
  have "x = NOT 0 \<longleftrightarrow> (\<forall>n<64. bit x n)" for x :: usize
    by (auto simp: bit_eq_iff)
  then have "is_full a \<longleftrightarrow> (\<forall>j<8. \<forall>n<64. bit (a ! j) n)"
    by (simp add: is_full_def is_const_loop_iff)
  also have "\<dots> \<longleftrightarrow> view (create_full empty) \<subseteq> view a"
    unfolding field_subset_iff [symmetric] using fill_loop_nth [of empty "NOT 0" 0]
    by (auto simp: create_full_def)
  finally show ?thesis using view_bound [of a] by (auto simp: view_create_full)
qed

section \<open>Creating a range of bits\<close>

lemma bit_block_mask:
  assumes "c + ofs \<le> 64"
  shows "bit ((if c \<ge> 64 then NOT 0 else push_bit ofs (push_bit c 1 - 1)) :: usize) n
    \<longleftrightarrow> n < 64 \<and> ofs \<le> n \<and> n < ofs + c"
proof (cases "c \<ge> 64")
  case True
  then show ?thesis using assms by (auto simp: bit_not_iff)
next
  case False
  have "push_bit c 1 - 1 = (mask c :: usize)" by (simp add: mask_eq_exp_minus_1)
  with False show ?thesis using assms
    by (auto simp: bit_push_bit_iff bit_mask_iff)
qed

lemma create_loop_ok:
  assumes "cm_wf self" "ofs < 64" "64 * i + ofs + k \<le> 512" "\<forall>j. i \<le> j \<and> j < 8 \<longrightarrow> self ! j = 0"
  shows "\<exists>r. create_loop self i ofs k = Inr r \<and> cm_wf r \<and>
    (\<forall>n<512. bit_at r n \<longleftrightarrow> (if n < 64 * i then bit_at self n
       else 64 * i + ofs \<le> n \<and> n < 64 * i + ofs + k))"
  using assms
proof (induction self i ofs k rule: create_loop.induct)
  case (1 self i ofs k)
  show ?case
  proof (cases "k = 0")
    case True
    have "create_loop self i ofs 0 = Inr self" by (simp add: create_loop.simps)
    moreover have "\<not> bit_at self n" if "64 * i \<le> n" "n < 512" for n
      using 1(5) that by (simp add: bit_at_def less_eq_div_iff_mult_less_eq mult.commute)
    ultimately show ?thesis using True 1(2) by auto
  next
    case False
    define c where "c = (if k > 64 - ofs then 64 - ofs else k)"
    define m where "m = ((if c \<ge> 64 then NOT 0 else push_bit ofs (push_bit c 1 - 1)) :: usize)"
    have i: "i < 8" using 1(3-) False by auto
    have c: "c + ofs \<le> 64" "c \<le> k" "0 < c" using False 1(3) by (auto simp: c_def)
    have step: "create_loop self i ofs k = create_loop (self[i := m]) (i + 1) 0 (k - c)"
      using False i unfolding create_loop.simps [of self i ofs k] Let_def c_def m_def by simp
    have rest: "64 * (i + 1) + 0 + (k - c) \<le> 512 \<or> k = c"
      using 1(4) by (auto simp: c_def)
    have "64 * (i + 1) + 0 + (k - c) \<le> 512" using 1(4) i rest c by (auto simp: c_def)
    then obtain r where r: "create_loop (self[i := m]) (i + 1) 0 (k - c) = Inr r" "cm_wf r"
      "\<forall>n<512. bit_at r n \<longleftrightarrow> (if n < 64 * (i + 1) then bit_at (self[i := m]) n
         else 64 * (i + 1) + 0 \<le> n \<and> n < 64 * (i + 1) + 0 + (k - c))"
      using 1(1) [OF _ refl c_def m_def] 1(2,5) False i by auto
    have "bit_at r n \<longleftrightarrow> (if n < 64 * i then bit_at self n
       else 64 * i + ofs \<le> n \<and> n < 64 * i + ofs + k)" if n: "n < 512" for n
    proof -
      consider "n < 64 * i" | "64 * i \<le> n" "n < 64 * (i + 1)" | "64 * (i + 1) \<le> n" by linarith
      then show ?thesis
      proof cases
        case 1
        then have "n div 64 \<noteq> i" by auto
        with 1 show ?thesis using r(3) n by (simp add: bit_at_def)
      next
        case 2
        then have "n div 64 = i" "n mod 64 = n - 64 * i" by (simp_all add: field_of)
        moreover have "n - 64 * i < 64" using 2 by simp
        moreover have "bit_at r n \<longleftrightarrow> bit_at (self[i := m]) n" using 2 r(3) n by auto
        ultimately have "bit_at r n \<longleftrightarrow> ofs \<le> n - 64 * i \<and> n - 64 * i < ofs + c"
          using i \<open>cm_wf self\<close> bit_block_mask [OF c(1), folded m_def, of "n - 64 * i"]
          by (simp add: bit_at_def)
        also have "\<dots> \<longleftrightarrow> 64 * i + ofs \<le> n \<and> n < 64 * i + ofs + k"
          using 2 by (auto simp: c_def)
        finally show ?thesis using 2 by simp
      next
        case 3
        then show ?thesis using r(3) n c by (auto simp: c_def split: if_splits)
      qed
    qed
    with r step show ?thesis by auto
  qed
qed

lemma view_create:
  assumes "cm_wf self" "view self = {}" "unat idx + unat n \<le> 512" "0 < unat n"
  shows "\<exists>r. create self idx n = Inr r \<and> cm_wf r \<and> view r = {unat idx..<unat idx + unat n}"
proof (cases "n = COMMIT_MASK_BITS")
  case True
  then have "unat n = 512" by (simp add: layout_consts)
  then have "unat idx = 0" using assms(3) by simp
  then show ?thesis using True assms(1) \<open>unat n = 512\<close>
    by (simp add: create_def view_create_full atLeast0LessThan)
next
  case False
  let ?i = "unat idx div 64" and ?o = "unat idx mod 64"
  have io: "64 * ?i + ?o = unat idx" by simp
  have "\<forall>j. ?i \<le> j \<and> j < 8 \<longrightarrow> self ! j = 0" using assms(2) by (simp add: view_eq_empty_iff)
  then obtain r where r: "create_loop self ?i ?o (unat n) = Inr r" "cm_wf r"
    "\<forall>m<512. bit_at r m \<longleftrightarrow> (if m < 64 * ?i then bit_at self m
        else 64 * ?i + ?o \<le> m \<and> m < 64 * ?i + ?o + unat n)"
    using create_loop_ok [of self ?o ?i "unat n"] assms by (auto simp: io)
  have "create self idx n = Inr r"
    using False assms(4) r(1) by (auto simp: create_def unat_div unat_mod)
  moreover have "view r = {unat idx..<unat idx + unat n}"
  proof (rule set_eqI)
    fix m
    have "\<not> (m < 512 \<and> bit_at self m)" using assms(2) mem_view [of m self] by simp
    moreover have "64 * ?i \<le> unat idx" by simp
    ultimately show "m \<in> view r \<longleftrightarrow> m \<in> {unat idx..<unat idx + unat n}"
      using r(3) assms(3) unfolding mem_view io by (cases "m < 512") auto
  qed
  ultimately show ?thesis using r(2) by blast
qed

section \<open>Finding runs\<close>

lemma and_one_iff: "x AND 1 = 1 \<longleftrightarrow> bit x 0" "x AND 1 = 0 \<longleftrightarrow> \<not> bit x 0" for x :: "'a::len word"
  by (simp_all add: and_one_eq bit_0 mod_2_eq_odd)

lemma drop_bit_eq_0_bits: "drop_bit ofs x = 0 \<longleftrightarrow> (\<forall>k \<ge> ofs. \<not> bit x k)" for x :: "'a::len word"
proof -
  have "n < LENGTH('a)" if "bit x (ofs + n)" for n using bit_imp_le_length [OF that] by simp
  then have "drop_bit ofs x = 0 \<longleftrightarrow> (\<forall>n. \<not> bit x (ofs + n))"
    by (auto simp: bit_eq_iff bit_drop_bit_eq)
  also have "\<dots> \<longleftrightarrow> (\<forall>k \<ge> ofs. \<not> bit x k)" by (metis le_add1 le_iff_add)
  finally show ?thesis .
qed

lemma skip_zeros_spec:
  assumes "skip_zeros m ofs = (m', ofs')" "m = drop_bit ofs x" "m \<noteq> 0"
  shows "ofs \<le> ofs' \<and> m' = drop_bit ofs' x \<and> bit x ofs' \<and> (\<forall>k. ofs \<le> k \<and> k < ofs' \<longrightarrow> \<not> bit x k)"
  using assms
proof (induction m ofs arbitrary: m' ofs' rule: skip_zeros.induct)
  case (1 m ofs)
  have b0: "bit m 0 \<longleftrightarrow> bit x ofs" using 1(3) by (simp add: bit_drop_bit_eq)
  show ?case
  proof (cases "bit x ofs")
    case True
    then have "skip_zeros m ofs = (m, ofs)" by (simp add: skip_zeros.simps [of m ofs] and_one_iff b0)
    with True 1(2,3) show ?thesis by auto
  next
    case False
    have rec: "skip_zeros (drop_bit 1 m) (ofs + 1) = (m', ofs')"
      using 1(2,4) b0 False by (simp add: skip_zeros.simps [of m ofs] and_one_iff)
    have eq: "drop_bit 1 m = drop_bit (ofs + 1) x" using 1(3) by (simp add: add.commute)
    have "drop_bit 1 m \<noteq> 0"
    proof
      assume "drop_bit 1 m = 0"
      then have "\<not> bit m n" for n
        using b0 False by (cases n) (auto simp: drop_bit_eq_0_bits)
      then show False using 1(4) by (simp add: bit_eq_iff)
    qed
    with 1(1) [OF _ rec eq] 1(4) b0 False
    have ih: "ofs + 1 \<le> ofs' \<and> m' = drop_bit ofs' x \<and> bit x ofs'
        \<and> (\<forall>k. ofs + 1 \<le> k \<and> k < ofs' \<longrightarrow> \<not> bit x k)"
      by (simp add: and_one_iff)
    have "\<not> bit x k" if "ofs \<le> k" "k < ofs'" for k
      using ih False that by (cases "k = ofs") auto
    with ih show ?thesis by auto
  qed
qed

lemma find_run_spec:
  assumes "find_run cm i ofs m0 = (i', ofs', m)" "ofs < 64"
  shows "(i' \<ge> 8 \<longrightarrow> (\<forall>k. 64 * i + ofs \<le> k \<and> k < 512 \<longrightarrow> \<not> bit_at cm k))
    \<and> (i' < 8 \<longrightarrow> ofs' < 64 \<and> m = drop_bit ofs' (cm ! i') \<and> 64 * i + ofs \<le> 64 * i' + ofs'
        \<and> bit_at cm (64 * i' + ofs')
        \<and> (\<forall>k. 64 * i + ofs \<le> k \<and> k < 64 * i' + ofs' \<longrightarrow> \<not> bit_at cm k))"
  using assms
proof (induction cm i ofs m0 rule: find_run.induct)
  case (1 cm i ofs m0)
  have at: "bit_at cm k \<longleftrightarrow> bit (cm ! i) (k - 64 * i)" if "64 * i \<le> k" "k < 64 * i + 64" for k
    using that by (simp add: bit_at_def field_of)
  consider "\<not> i < 8" | "i < 8" "drop_bit ofs (cm ! i) \<noteq> 0" | "i < 8" "drop_bit ofs (cm ! i) = 0" by blast
  then show ?case
  proof cases
    case 1
    then show ?thesis using "1.prems" by (auto simp: find_run.simps [of cm i ofs m0])
  next
    case 2
    then obtain m1 where sk: "skip_zeros (drop_bit ofs (cm ! i)) ofs = (m1, ofs')" "i' = i" "m = m1"
      using "1.prems"(1) by (auto simp: find_run.simps [of cm i ofs m0] Let_def split: prod.splits)
    have sp: "ofs \<le> ofs' \<and> m1 = drop_bit ofs' (cm ! i) \<and> bit (cm ! i) ofs'
        \<and> (\<forall>k. ofs \<le> k \<and> k < ofs' \<longrightarrow> \<not> bit (cm ! i) k)"
      by (rule skip_zeros_spec [OF sk(1) refl 2(2)])
    then have o64: "ofs' < 64" using bit_imp_le_length [of "cm ! i" ofs'] by simp
    have "\<not> bit_at cm k" if "64 * i + ofs \<le> k" "k < 64 * i + ofs'" for k
    proof -
      have "ofs \<le> k - 64 * i" "k - 64 * i < ofs'" using that by auto
      with sp have "\<not> bit (cm ! i) (k - 64 * i)" by blast
      then show ?thesis using at [of k] that o64 by simp
    qed
    then show ?thesis using sk sp o64 at [of "64 * i + ofs'"] 2(1) by auto
  next
    case 3
    then have "find_run cm (i + 1) 0 0 = (i', ofs', m)"
      using "1.prems"(1) by (simp add: find_run.simps [of cm i ofs m0] Let_def)
    note ih = "1.IH" [OF 3(1) refl, unfolded 3(2), simplified, OF this [simplified]]
    have low: "\<not> bit_at cm k" if "64 * i + ofs \<le> k" "k < 64 * i + 64" for k
      using at [of k] 3(2) that by (auto simp: drop_bit_eq_0_bits)
    have "\<not> bit_at cm k" if "64 * i + ofs \<le> k" "\<forall>k. 64 + 64 * i \<le> k \<and> k < n \<longrightarrow> \<not> bit_at cm k" "k < n" for k n
      using low [of k] that by (cases "k < 64 * i + 64") auto
    then show ?thesis using ih "1.prems"(2) by (auto simp: add.commute)
  qed
qed

lemma count_ones_spec:
  assumes "count_ones m n = (m', n')" "m = drop_bit k x" "bit x k"
  shows "n < n' \<and> m' = drop_bit (k + (n' - n)) x \<and> \<not> bit x (k + (n' - n))
    \<and> (\<forall>j. k \<le> j \<and> j < k + (n' - n) \<longrightarrow> bit x j)"
  using assms
proof (induction m n arbitrary: k rule: count_ones.induct)
  case (1 m n)
  have m1: "drop_bit 1 m = drop_bit (k + 1) x" using 1(3) by (simp add: add.commute)
  then have b: "drop_bit 1 m AND 1 = 1 \<longleftrightarrow> bit x (k + 1)" by (simp add: and_one_iff bit_drop_bit_eq)
  show ?case
  proof (cases "bit x (k + 1)")
    case False
    then have "m' = drop_bit (k + 1) x" "n' = n + 1"
      using 1(2) b m1 by (simp_all add: count_ones.simps [of m n] Let_def)
    then show ?thesis using False 1(4) by (auto simp: less_Suc_eq)
  next
    case True
    then have "count_ones (drop_bit 1 m) (n + 1) = (m', n')"
      using 1(2) b by (simp add: count_ones.simps [of m n] Let_def)
    moreover have "\<not> drop_bit 1 m AND 1 \<noteq> 1" using True b by blast
    ultimately have ih: "n + 1 < n' \<and> m' = drop_bit (k + 1 + (n' - (n + 1))) x
        \<and> \<not> bit x (k + 1 + (n' - (n + 1))) \<and> (\<forall>j. k + 1 \<le> j \<and> j < k + 1 + (n' - (n + 1)) \<longrightarrow> bit x j)"
      by (intro 1(1) [OF refl refl _ _ m1 True]) assumption+
    then have "n + 1 < n'" by blast
    then have eq: "k + 1 + (n' - (n + 1)) = k + (n' - n)" by arith
    have "bit x j" if "k \<le> j" "j < k + (n' - n)" for j
      using ih [unfolded eq] 1(4) that by (cases "j = k") auto
    then show ?thesis using ih [unfolded eq] by auto
  qed
qed

text \<open>
  The counting loop goes through whole fields: it starts at a set bit \<open>64 i + k\<close> with
  \<open>n\<close> bits counted and ends at the first clear bit, or at the end of the mask.
\<close>

lemma run_loop_spec:
  assumes "m = drop_bit k (cm ! i)" "bit (cm ! i) k" "k < 64" "i < 8" "next_idx + n = 64 * i + k"
  shows "n < run_loop cm i m next_idx n \<and> next_idx + run_loop cm i m next_idx n \<le> 512
    \<and> (\<forall>j. next_idx + n \<le> j \<and> j < next_idx + run_loop cm i m next_idx n \<longrightarrow> bit_at cm j)
    \<and> (next_idx + run_loop cm i m next_idx n < 512 \<longrightarrow> \<not> bit_at cm (next_idx + run_loop cm i m next_idx n))"
  using assms
proof (induction cm i m next_idx n arbitrary: k rule: run_loop.induct)
  case (1 cm i m next_idx n)
  obtain m' n' where co: "count_ones m n = (m', n')" by fastforce
  note sp = count_ones_spec [OF co 1(3,4)]
  define d where "d = n' - n"
  have d: "n' = n + d" "0 < d" using sp by (auto simp: d_def)
  have run: "\<forall>j. k \<le> j \<and> j < k + d \<longrightarrow> bit (cm ! i) j" and stop: "\<not> bit (cm ! i) (k + d)"
    and m': "m' = drop_bit (k + d) (cm ! i)" using sp by (auto simp: d_def)
  have "bit (cm ! i) (k + d - 1)" using run d by simp
  then have kd: "k + d \<le> 64" using bit_imp_le_length [of "cm ! i" "k + d - 1"] d by simp
  have at: "bit_at cm j \<longleftrightarrow> bit (cm ! i) (j - 64 * i)" if "64 * i \<le> j" "j < 64 * i + 64" for j
    using that by (simp add: bit_at_def field_of)
  have bits: "bit_at cm j" if "next_idx + n \<le> j" "j < next_idx + n'" for j
  proof -
    have "k \<le> j - 64 * i" "j - 64 * i < k + d" using that 1(7) d by auto
    with run have "bit (cm ! i) (j - 64 * i)" by blast
    then show ?thesis using at [of j] that 1(7) d kd by auto
  qed
  have pos: "next_idx + n' = 64 * i + (k + d)" using 1(7) d by simp
  show ?case
  proof (cases "k + d = 64")
    case False
    then have "k + d < 64" using kd by simp
    then have "(next_idx + n') mod 64 \<noteq> 0" unfolding pos using d by simp
    moreover have "m' AND 1 \<noteq> 1" using stop by (simp add: m' and_one_iff bit_drop_bit_eq)
    ultimately have "run_loop cm i m next_idx n = n'"
      by (simp add: run_loop.simps [of cm i m] co)
    moreover have "\<not> bit_at cm (next_idx + n')"
      unfolding pos using \<open>k + d < 64\<close> at [of "64 * i + (k + d)"] stop by simp
    ultimately show ?thesis using bits d pos \<open>k + d < 64\<close> 1(6) by auto
  next
    case True
    then have bnd: "(next_idx + n') mod 64 = 0" unfolding pos by simp
    consider "i + 1 \<ge> 8" | "i + 1 < 8" "\<not> bit (cm ! (i + 1)) 0" | "i + 1 < 8" "bit (cm ! (i + 1)) 0"
      by linarith
    then show ?thesis
    proof cases
      case 1
      then have "run_loop cm i m next_idx n = n'" using bnd by (simp add: run_loop.simps [of cm i m] co)
      moreover have "next_idx + n' = 512" using pos True 1 \<open>i < 8\<close> by simp
      ultimately show ?thesis using bits d by auto
    next
      case 2
      then have "run_loop cm i m next_idx n = n'"
        using bnd by (simp add: run_loop.simps [of cm i m] co and_one_iff)
      moreover have "next_idx + n' = 64 * (i + 1)" using pos True by simp
      then have "\<not> bit_at cm (next_idx + n')" "next_idx + n' \<le> 512"
        using 2 by (simp_all add: bit_at_def)
      ultimately show ?thesis using bits d by auto
    next
      case 3
      let ?r = "run_loop cm (i + 1) (cm ! (i + 1)) next_idx n'"
      have eq: "run_loop cm i m next_idx n = ?r"
        using bnd 3 by (simp add: run_loop.simps [of cm i m] co and_one_iff)
      have "next_idx + n' = 64 * (i + 1) + 0" using pos True by simp
      with "1.IH"(1) [OF co [symmetric] refl bnd refl _ refl _ _ _ _ 3(1)] 3
      have ih: "n' < ?r \<and> next_idx + ?r \<le> 512 \<and> (\<forall>j. next_idx + n' \<le> j \<and> j < next_idx + ?r \<longrightarrow> bit_at cm j)
          \<and> (next_idx + ?r < 512 \<longrightarrow> \<not> bit_at cm (next_idx + ?r))"
        by (simp add: and_one_iff)
      have "bit_at cm j" if "next_idx + n \<le> j" "j < next_idx + ?r" for j
        using bits [of j] ih that by (cases "j < next_idx + n'") auto
      then show ?thesis using ih d unfolding eq by auto
    qed
  qed
qed

lemma next_run_spec:
  fixes cm :: CommitMask and idx :: usize
  defines "r \<equiv> next_run cm idx"
  shows "(snd r = 0 \<longrightarrow> fst r = 512 \<and> (\<forall>k \<ge> unat idx. k \<notin> view cm))
    \<and> (snd r \<noteq> 0 \<longrightarrow> unat idx \<le> unat (fst r) \<and> unat (fst r) + unat (snd r) \<le> 512
        \<and> (\<forall>k. unat idx \<le> k \<and> k < unat (fst r) \<longrightarrow> k \<notin> view cm)
        \<and> {unat (fst r)..<unat (fst r) + unat (snd r)} \<subseteq> view cm
        \<and> unat (fst r) + unat (snd r) \<notin> view cm)"
proof -
  obtain i ofs m where fr: "find_run cm (unat idx div 64) (unat idx mod 64) 0 = (i, ofs, m)"
    by (cases "find_run cm (unat idx div 64) (unat idx mod 64) 0") auto
  have idx: "64 * (unat idx div 64) + unat idx mod 64 = unat idx" by simp
  note sp = find_run_spec [OF fr, unfolded idx, simplified]
  have unf: "next_run cm idx = (if i \<ge> 8 then (512, 0)
      else (of_nat (i * 64 + ofs), of_nat (run_loop cm i m (i * 64 + ofs) 0)))"
    using fr by (simp add: next_run_def unat_div unat_mod Let_def layout_consts)
  show ?thesis
  proof (cases "i \<ge> 8")
    case True
    then show ?thesis using sp by (auto simp: r_def unf mem_view)
  next
    case False
    let ?n = "i * 64 + ofs"
    let ?c = "run_loop cm i m ?n 0"
    have o: "ofs < 64" "m = drop_bit ofs (cm ! i)" "unat idx \<le> ?n" "bit_at cm ?n"
      "\<forall>k. unat idx \<le> k \<and> k < ?n \<longrightarrow> \<not> bit_at cm k"
      using sp False by (auto simp: mult.commute)
    then have "bit (cm ! i) ofs" using field_of [of i ?n] by (simp add: bit_at_def)
    from run_loop_spec [OF o(2) this o(1), of ?n 0] False
    have c: "0 < ?c" "?n + ?c \<le> 512" "\<forall>j. ?n \<le> j \<and> j < ?n + ?c \<longrightarrow> bit_at cm j"
      "?n + ?c < 512 \<longrightarrow> \<not> bit_at cm (?n + ?c)"
      by (simp_all add: mult.commute)
    have u: "unat (of_nat ?n :: usize) = ?n" "unat (of_nat ?c :: usize) = ?c"
      using c by (auto intro!: unat_of_nat_small simp del: of_nat_add of_nat_mult)
    have r: "r = (of_nat ?n, of_nat ?c)" using False by (simp only: r_def unf if_False)
    have "snd r \<noteq> 0" using u(2) c(1) unfolding r snd_conv by (metis less_irrefl unat_0)
    moreover have "{?n..<?n + ?c} \<subseteq> view cm" "?n + ?c \<notin> view cm"
      "\<forall>k. unat idx \<le> k \<and> k < ?n \<longrightarrow> k \<notin> view cm"
      using c o by (auto simp: mem_view)
    ultimately show ?thesis using o(3) c(2) unfolding r fst_conv snd_conv u by blast
  qed
qed

section \<open>Properties\<close>

text \<open>
  C23. The field-by-field loops compute the set operations on the bits: \<^verbatim>\<open>set\<close> is union,
  \<^verbatim>\<open>clear\<close> difference, \<^verbatim>\<open>create_intersect\<close> intersection, and the tests are subset,
  overlap, emptiness and fullness.
\<close>

theorem mask_ops_refine_sets:
  assumes "cm_wf a" "cm_wf r"
  shows "view (set_mask a b) = view a \<union> view b \<and> view (clear a b) = view a - view b
    \<and> view (create_intersect a b r) = view a \<inter> view b
    \<and> view (create_empty a) = {} \<and> view (create_full a) = {..<512}
    \<and> all_set a b = (view b \<subseteq> view a) \<and> any_set a b = (view a \<inter> view b \<noteq> {})
    \<and> is_empty a = (view a = {}) \<and> is_full a = (view a = {..<512})"
  using assms by (simp add: mask_view)

theorem mask_ops_refine_sets_witness:
  "cm_wf empty \<and> view (set_mask empty [1, 0, 0, 0, 0, 0, 0, 2]) = view empty \<union> view [1, 0, 0, 0, 0, 0, 0, 2]"
  using mask_ops_refine_sets [of empty empty "[1, 0, 0, 0, 0, 0, 0, 2]"] by simp

text \<open>
  C24. \<^verbatim>\<open>create\<close> on an empty mask returns, for every range inside the 512 bits, the mask of
  exactly that range, and never writes outside the eight fields.
\<close>

theorem create_is_range:
  assumes "cm_wf self" "view self = {}" "unat idx + unat n \<le> 512"
  shows "\<exists>r. create self idx n = Inr r \<and> cm_wf r \<and> view r = {unat idx..<unat idx + unat n}"
proof (cases "n = 0")
  case True
  then show ?thesis using assms by (simp add: create_def layout_consts)
next
  case False
  then have "0 < unat n" by (simp add: unat_gt_0)
  then show ?thesis by (rule view_create [OF assms])
qed

theorem create_is_range_witness:
  "cm_wf empty \<and> view empty = {} \<and>
    (\<exists>r. create empty 60 10 = Inr r \<and> cm_wf r \<and> view r = {60..<70})"
  using create_is_range [of empty 60 10] by (simp add: view_empty)

text \<open>
  C25. \<^verbatim>\<open>next_run\<close> finds the first maximal run: when it returns a non-zero count, the run is
  set, starts at the first set bit at or after \<open>idx\<close> and ends before a clear bit or the end
  of the mask; a zero count means no bit at or after \<open>idx\<close> is set. It always returns.
\<close>

theorem next_run_first_maximal_run:
  "case next_run cm idx of (i, n) \<Rightarrow>
     if n = 0 then i = COMMIT_MASK_BITS \<and> view cm \<inter> {unat idx..} = {}
     else unat idx \<le> unat i \<and> {unat i..<unat i + unat n} \<subseteq> view cm
       \<and> view cm \<inter> {unat idx..<unat i} = {} \<and> unat i + unat n \<notin> view cm
       \<and> unat i + unat n \<le> unat COMMIT_MASK_BITS"
  using next_run_spec [of cm idx] by (auto simp: layout_consts split: prod.splits)

end
