(* ===== verification/Linked_List.thy ===== *)
theory Linked_List
  imports Types
begin

text \<open>
  The free lists of \<^verbatim>\<open>linked_list.rs\<close>. A list is the address of its first node; the first word
  of every free block holds the address of the next one, and 0 ends the list. The operations
  work on the memory of first words (\<open>node_at\<close> of the allocator state) and are shown to
  implement the operations of HOL lists. The second part is the word that a page's
  thread-free list lives in: the list head with the delay state in its two low bits.
\<close>

type_synonym mem = "usize \<rightharpoonup> usize"

section \<open>Operations of \<open>LL\<close>\<close>

definition LL_new :: usize where
  "LL_new = 0"

definition LL_empty :: usize where
  "LL_empty = LL_new"

definition LL_is_empty :: "usize \<Rightarrow> bool" where
  "LL_is_empty first \<longleftrightarrow> first = 0"

definition insert_block :: "mem \<Rightarrow> usize \<Rightarrow> usize \<Rightarrow> mem \<times> usize" where
  "insert_block m first ptr = (m(ptr \<mapsto> first), ptr)"

text \<open>The popped block and the rest of the list.\<close>

definition pop_block :: "mem \<Rightarrow> usize \<Rightarrow> (usize \<times> usize) res" where
  "pop_block m first = bindR (fetch m first) (\<lambda>node. Inr (first, node))"

definition block_write_ptr :: "mem \<Rightarrow> usize \<Rightarrow> usize \<Rightarrow> mem" where
  "block_write_ptr m ptr nxt = m(ptr \<mapsto> nxt)"

text \<open>
  The loops walk along addresses and their exit depends only on the address reached (the
  memory they read is not written before). A walk that visits more nodes than there are
  addresses repeats itself, so \<open>2 ^ 64\<close> rounds decide whether the loop ends.
\<close>

definition address_count :: nat where
  "address_count = 18446744073709551616"

primrec append_walk :: "nat \<Rightarrow> mem \<Rightarrow> usize \<Rightarrow> u32 \<Rightarrow> (usize \<times> u32) res" where
  "append_walk 0 m p n = Inl Diverge"
| "append_walk (Suc k) m p n = bindR (fetch m p) (\<lambda>nxt.
     if nxt \<noteq> 0 then append_walk k m nxt (n + 1) else Inr (p, n))"

text \<open>The memory, the new \<^verbatim>\<open>self.first\<close>, the new \<^verbatim>\<open>other.first\<close> and the number of blocks moved.\<close>

definition append :: "mem \<Rightarrow> usize \<Rightarrow> usize \<Rightarrow> (mem \<times> usize \<times> usize \<times> u32) res" where
  "append m self_first other_first =
     (if other_first = 0 then Inr (m, self_first, other_first, 0)
      else bindR (append_walk address_count m other_first 1) (\<lambda>(p, n).
        Inr (m(p \<mapsto> self_first), other_first, 0, n)))"

primrec contiguous_loop :: "nat \<Rightarrow> mem \<Rightarrow> usize \<Rightarrow> usize \<Rightarrow> usize \<Rightarrow> (mem \<times> usize) res" where
  "contiguous_loop 0 m block end_addr bsize = Inl Diverge"
| "contiguous_loop (Suc k) m block end_addr bsize =
     (if block < end_addr then
        let nxt = block + bsize in contiguous_loop k (m(block \<mapsto> nxt)) nxt end_addr bsize
      else Inr (m, block))"

definition prepend_contiguous_blocks :: "mem \<Rightarrow> usize \<Rightarrow> usize \<Rightarrow> usize \<Rightarrow> usize \<Rightarrow> (mem \<times> usize) res" where
  "prepend_contiguous_blocks m first start end_addr bsize =
     bindR (contiguous_loop address_count m start end_addr bsize) (\<lambda>(m', block).
       Inr (m'(block \<mapsto> first), start))"

definition make_empty :: "usize \<Rightarrow> usize" where
  "make_empty first = 0"


section \<open>Lists in memory\<close>

text \<open>\<open>lseg m p xs q\<close>: following the nodes from \<open>p\<close> visits \<open>xs\<close> and arrives at \<open>q\<close>.\<close>

fun lseg :: "mem \<Rightarrow> usize \<Rightarrow> usize list \<Rightarrow> usize \<Rightarrow> bool" where
  "lseg m p [] q \<longleftrightarrow> p = q"
| "lseg m p (x # xs) q \<longleftrightarrow> p = x \<and> x \<noteq> 0 \<and> (case m x of None \<Rightarrow> False | Some n \<Rightarrow> lseg m n xs q)"

abbreviation ll :: "mem \<Rightarrow> usize \<Rightarrow> usize list \<Rightarrow> bool" where
  "ll m p xs \<equiv> lseg m p xs 0"

fun_cases lseg_ConsE: "lseg m p (x # xs) q"

lemma lseg_append [simp]: "lseg m p (xs @ ys) q \<longleftrightarrow> (\<exists>r. lseg m p xs r \<and> lseg m r ys q)"
  by (induction xs arbitrary: p) (auto split: option.splits)

lemma lseg_upd_other [simp]: "a \<notin> set xs \<Longrightarrow> lseg (m(a := v)) p xs q = lseg m p xs q"
  by (induction xs arbitrary: p) (auto split: option.splits)

lemma lseg_cong: "(\<And>a. a \<in> set xs \<Longrightarrow> m a = m' a) \<Longrightarrow> lseg m p xs q = lseg m' p xs q"
  by (induction xs arbitrary: p) (auto split: option.splits)

lemma ll_null [simp]: "ll m 0 xs \<longleftrightarrow> xs = []"
  by (cases xs) auto

lemma ll_unique: "ll m p xs \<Longrightarrow> ll m p ys \<Longrightarrow> xs = ys"
  by (induction xs arbitrary: p ys) (auto elim!: lseg_ConsE split: option.splits simp: neq_Nil_conv,
      case_tac ys, auto split: option.splits)

lemma ll_nonnull: "ll m p xs \<Longrightarrow> 0 \<notin> set xs"
  by (induction xs arbitrary: p) (auto split: option.splits)

lemma ll_distinct: "ll m p xs \<Longrightarrow> distinct xs"
proof (induction xs arbitrary: p)
  case (Cons x xs)
  then obtain n where n: "m x = Some n" "ll m n xs" "p = x" by (auto split: option.splits)
  have "x \<notin> set xs"
  proof
    assume "x \<in> set xs"
    then obtain ys zs where xs: "xs = ys @ x # zs" by (meson split_list)
    with n have "ll m x (x # zs)" "ll m x (x # xs)" using Cons.prems by auto
    then have "x # zs = x # xs" by (rule ll_unique)
    with xs show False by simp
  qed
  with Cons.IH n show ?case by simp
qed simp

lemma ll_length: assumes "ll m p xs" shows "length xs < address_count"
proof -
  have "card (set xs) < card (UNIV :: usize set)"
    using ll_nonnull [OF assms] by (intro psubset_card_mono) auto
  then show ?thesis
    using distinct_card [OF ll_distinct [OF assms]] by (simp add: card_word address_count_def)
qed

lemma ll_Cons_iff: "p \<noteq> 0 \<Longrightarrow> ll m p xs \<longleftrightarrow> (\<exists>n ys. xs = p # ys \<and> m p = Some n \<and> ll m n ys)"
  by (cases xs) (auto split: option.splits)


section \<open>The operations on lists in memory\<close>

lemma insert_block_spec:
  assumes "ll m first xs" "b \<noteq> 0" "b \<notin> set xs" "insert_block m first b = (m', first')"
  shows "ll m' first' (b # xs)"
  using assms by (auto simp: insert_block_def)

lemma pop_block_spec:
  assumes "ll m first (b # xs)"
  shows "\<exists>rest. pop_block m first = Inr (b, rest) \<and> ll m rest xs"
  using assms by (auto simp: pop_block_def fetch_def split: option.splits)

lemma append_walk_spec:
  assumes "ll m p (ys @ [z])" "length ys < k"
  shows "append_walk k m p n = Inr (z, n + of_nat (length ys))"
  using assms
proof (induction ys arbitrary: p k n)
  case Nil
  then show ?case by (cases k) (auto simp: fetch_def split: option.splits)
next
  case (Cons y ys)
  then obtain k' nxt where "k = Suc k'" "m y = Some nxt" "ll m nxt (ys @ [z])" "p = y"
    by (cases k) (auto split: option.splits)
  moreover from this(3) have "nxt \<noteq> 0" by (metis ll_null snoc_eq_iff_butlast)
  ultimately show ?case using Cons.IH [of nxt k' "n + 1"] Cons.prems(2) by (simp add: algebra_simps)
qed

lemma append_spec:
  assumes "ll m a xs" "ll m b ys" "set xs \<inter> set ys = {}"
  shows "\<exists>m' a'. append m a b = Inr (m', a', 0, of_nat (length ys)) \<and> ll m' a' (ys @ xs)
    \<and> (\<forall>q. q \<notin> set ys \<longrightarrow> m' q = m q)"
proof (cases "b = 0")
  case True
  then show ?thesis using assms by (simp add: append_def)
next
  case False
  then have "ys \<noteq> []" using assms(2) by auto
  then obtain us z where ys: "ys = us @ [z]" by (metis append_butlast_last_id)
  have d: "distinct ys" by (rule ll_distinct [OF assms(2)])
  have "length us < address_count" using ll_length [OF assms(2)] ys by simp
  with assms(2) have w: "append_walk address_count m b 1 = Inr (z, 1 + of_nat (length us))"
    unfolding ys by (rule append_walk_spec)
  have "lseg m b us z" "z \<noteq> 0" using assms(2) unfolding ys by (auto split: option.splits)
  then have "ll (m(z \<mapsto> a)) b (ys @ xs)" using d assms(1,3) ys by auto
  then show ?thesis using False w ys by (auto simp: append_def)
qed

lemma contiguous_loop_spec:
  assumes "unat block + n * unat bsize < 2 ^ 64" "0 < bsize" "n < k"
    "end_addr = block + of_nat n * bsize"
  shows "\<exists>m'. contiguous_loop k m block end_addr bsize = Inr (m', end_addr)
    \<and> (\<forall>i<n. m' (block + of_nat i * bsize) = Some (block + of_nat (Suc i) * bsize))
    \<and> (\<forall>q. (\<forall>i<n. q \<noteq> block + of_nat i * bsize) \<longrightarrow> m' q = m q)"
  using assms
proof (induction n arbitrary: m block k)
  case 0
  then show ?case by (cases k) auto
next
  case (Suc n)
  obtain k' where k: "k = Suc k'" using Suc.prems(3) by (cases k) auto
  have ub: "unat (block + bsize) = unat block + unat bsize"
    using Suc.prems(1) by (intro unat_add_small) simp
  have end_addr: "end_addr = (block + bsize) + of_nat n * bsize"
    using Suc.prems(4) by (simp add: algebra_simps)
  have pos: "0 < unat bsize" using Suc.prems(2) by (simp add: unat_gt_0 word_gt_0)
  have ua: "unat (block + of_nat i * bsize) = unat block + i * unat bsize" if "i \<le> Suc n" for i
    using Suc.prems(1,2) that by (intro unat_stride [where n = "Suc n"]) auto
  have "block < end_addr" unfolding Suc.prems(4) word_less_nat_alt ua [OF order_refl] using pos by simp
  then have step: "contiguous_loop k m block end_addr bsize
      = contiguous_loop k' (m(block \<mapsto> block + bsize)) (block + bsize) end_addr bsize"
    by (simp add: k Let_def)
  obtain m' where m': "contiguous_loop k' (m(block \<mapsto> block + bsize)) (block + bsize) end_addr bsize = Inr (m', end_addr)"
    "\<forall>i<n. m' (block + bsize + of_nat i * bsize) = Some (block + bsize + of_nat (Suc i) * bsize)"
    "\<forall>q. (\<forall>i<n. q \<noteq> block + bsize + of_nat i * bsize) \<longrightarrow> m' q = (m(block \<mapsto> block + bsize)) q"
    using Suc.IH [of "block + bsize" k' "m(block \<mapsto> block + bsize)", OF _ Suc.prems(2) _ end_addr]
      Suc.prems(1,3) k ub by (auto simp del: fun_upd_apply of_nat_Suc)
  have sh: "block + bsize + of_nat i * bsize = block + of_nat (Suc i) * bsize" for i
    by (simp add: algebra_simps)
  have fresh: "block \<noteq> block + of_nat (Suc i) * bsize" if "i < n" for i
  proof
    assume "block = block + of_nat (Suc i) * bsize"
    then have "unat block = unat block + Suc i * unat bsize" using ua [of "Suc i"] that by simp
    with pos show False by simp
  qed
  have "m' block = Some (block + bsize)" using m'(3) fresh unfolding sh by simp
  then have "m' (block + of_nat i * bsize) = Some (block + of_nat (Suc i) * bsize)" if "i < Suc n" for i
    using that m'(2) unfolding sh by (cases i) auto
  moreover have "m' q = m q" if "\<forall>i<Suc n. q \<noteq> block + of_nat i * bsize" for q
  proof -
    have "q \<noteq> block" using that [rule_format, of 0] by simp
    moreover have "q \<noteq> block + of_nat (Suc i) * bsize" if "i < n" for i
      using \<open>\<forall>i<Suc n. q \<noteq> _ i\<close> that by blast
    ultimately show ?thesis using m'(3) unfolding sh by simp
  qed
  ultimately show ?case using step m'(1) by auto
qed


lemma lseg_nexts:
  "(\<And>i. i < n \<Longrightarrow> f i \<noteq> 0 \<and> m (f i) = Some (f (Suc i))) \<Longrightarrow> lseg m (f 0) (map f [0..<n]) (f n)"
  by (induction n) auto

abbreviation blocks_from :: "usize \<Rightarrow> usize \<Rightarrow> nat \<Rightarrow> usize list" where
  "blocks_from start bsize n \<equiv> map (\<lambda>i. start + of_nat i * bsize) [0..<n]"

lemma blocks_from_nonnull:
  fixes start bsize :: usize
  assumes "start \<noteq> 0" "unat start + n * unat bsize < 2 ^ 64" "0 < bsize" "i \<le> n"
  shows "start + of_nat i * bsize \<noteq> 0"
proof
  assume "start + of_nat i * bsize = 0"
  then have "unat (start + of_nat i * bsize) = 0" by simp
  then have "unat start = 0" using unat_stride [of start n bsize i] assms by simp
  then show False using assms(1) by (simp add: unat_eq_0)
qed

lemma prepend_contiguous_blocks_spec:
  assumes "ll m first xs" "start \<noteq> 0" "0 < bsize" "unat start + n * unat bsize < 2 ^ 64"
    "set (blocks_from start bsize (Suc n)) \<inter> set xs = {}"
  shows "\<exists>m'. prepend_contiguous_blocks m first start (start + of_nat n * bsize) bsize = Inr (m', start)
    \<and> ll m' start (blocks_from start bsize (Suc n) @ xs)
    \<and> (\<forall>q. q \<notin> set (blocks_from start bsize (Suc n)) \<longrightarrow> m' q = m q)"
proof -
  let ?e = "start + of_nat n * bsize"
  have ua: "unat (start + of_nat i * bsize) = unat start + i * unat bsize" if "i \<le> n" for i
    using assms(3,4) that by (intro unat_stride [where n = n]) auto
  have pos: "0 < unat bsize" using assms(3) by (simp add: unat_gt_0 word_gt_0)
  then have "n \<le> n * unat bsize" by simp
  then have "n < 2 ^ 64" using assms(4) by linarith
  then have "n < address_count" unfolding address_count_def by simp
  then obtain m1 where m1: "contiguous_loop address_count m start ?e bsize = Inr (m1, ?e)"
      "\<forall>i<n. m1 (start + of_nat i * bsize) = Some (start + of_nat (Suc i) * bsize)"
      "\<forall>q. (\<forall>i<n. q \<noteq> start + of_nat i * bsize) \<longrightarrow> m1 q = m q"
    using contiguous_loop_spec [OF assms(4,3) _ refl, of address_count m] by blast
  let ?m = "m1(?e \<mapsto> first)"
  have ne: "start + of_nat i * bsize \<noteq> ?e" if "i < n" for i
  proof
    assume "start + of_nat i * bsize = ?e"
    then have "unat (start + of_nat i * bsize) = unat ?e" by (rule arg_cong)
    then have "i * unat bsize = n * unat bsize" using ua [of i] ua [of n] that by simp
    then show False using pos that by simp
  qed
  have seg: "lseg ?m (start + of_nat 0 * bsize) (blocks_from start bsize n) ?e"
    using m1(2) ne blocks_from_nonnull [OF assms(2,4,3)]
    by (intro lseg_nexts [where f = "\<lambda>i. start + of_nat i * bsize"]) auto
  have frame: "?m q = m q" if "q \<notin> set (blocks_from start bsize (Suc n))" for q
    using that m1(3) by (simp add: image_def del: of_nat_Suc)
  have "ll ?m first xs = ll m first xs"
    using assms(5) by (intro lseg_cong frame) blast
  then have "ll ?m start (blocks_from start bsize (Suc n) @ xs)"
    using seg assms(1) blocks_from_nonnull [OF assms(2,4,3), of n] by auto
  then show ?thesis using m1(1) frame by (auto simp: prepend_contiguous_blocks_def simp del: of_nat_Suc)
qed


section \<open>The interface the page code relies on\<close>

text \<open>
  A list of blocks in memory with insertion and removal at the front. The client lemma is
  the last-in first-out order in which freed blocks are handed out again.
\<close>

primrec insert_all :: "('m \<Rightarrow> 'h \<Rightarrow> 'b \<Rightarrow> 'm \<times> 'h) \<Rightarrow> 'm \<times> 'h \<Rightarrow> 'b list \<Rightarrow> 'm \<times> 'h" where
  "insert_all ins mh [] = mh"
| "insert_all ins mh (b # bs) = insert_all ins (ins (fst mh) (snd mh) b) bs"

primrec pop_many :: "('m \<Rightarrow> 'h \<Rightarrow> ('b \<times> 'h) res) \<Rightarrow> 'm \<Rightarrow> 'h \<Rightarrow> nat \<Rightarrow> ('b list \<times> 'h) res" where
  "pop_many pop m h 0 = Inr ([], h)"
| "pop_many pop m h (Suc n) = bindR (pop m h) (\<lambda>(b, h'). bindR (pop_many pop m h' n) (\<lambda>(bs, h''). Inr (b # bs, h'')))"

locale block_list =
  fixes repr :: "'m \<Rightarrow> 'h \<Rightarrow> 'b list \<Rightarrow> bool"
    and ok :: "'b \<Rightarrow> bool"
    and ins :: "'m \<Rightarrow> 'h \<Rightarrow> 'b \<Rightarrow> 'm \<times> 'h"
    and pop :: "'m \<Rightarrow> 'h \<Rightarrow> ('b \<times> 'h) res"
  assumes repr_ins: "repr m h xs \<Longrightarrow> ok b \<Longrightarrow> b \<notin> set xs \<Longrightarrow> ins m h b = (m', h') \<Longrightarrow> repr m' h' (b # xs)"
    and repr_pop: "repr m h (b # xs) \<Longrightarrow> \<exists>h'. pop m h = Inr (b, h') \<and> repr m h' xs"
begin

lemma insert_all_repr:
  assumes "repr m h xs" "\<forall>b\<in>set bs. ok b" "distinct bs" "set bs \<inter> set xs = {}"
  shows "repr (fst (insert_all ins (m, h) bs)) (snd (insert_all ins (m, h) bs)) (rev bs @ xs)"
  using assms
proof (induction bs arbitrary: m h xs)
  case (Cons b bs)
  obtain m' h' where i: "ins m h b = (m', h')" by fastforce
  then have "repr m' h' (b # xs)" using repr_ins Cons.prems by auto
  then have "repr (fst (insert_all ins (m', h') bs)) (snd (insert_all ins (m', h') bs)) (rev bs @ (b # xs))"
    using Cons.prems by (intro Cons.IH) auto
  then show ?case by (simp add: i)
qed simp

lemma pop_many_repr:
  "repr m h (bs @ xs) \<Longrightarrow> \<exists>h'. pop_many pop m h (length bs) = Inr (bs, h') \<and> repr m h' xs"
proof (induction bs arbitrary: h)
  case (Cons b bs)
  then obtain h' where "pop m h = Inr (b, h')" "repr m h' (bs @ xs)" using repr_pop by fastforce
  then show ?case using Cons.IH [of h'] by auto
qed simp

lemma lifo:
  assumes "repr m h xs" "\<forall>b\<in>set bs. ok b" "distinct bs" "set bs \<inter> set xs = {}"
    "insert_all ins (m, h) bs = (m', h')"
  shows "\<exists>h''. pop_many pop m' h' (length bs) = Inr (rev bs, h'') \<and> repr m' h'' xs"
  using pop_many_repr [of m' h' "rev bs" xs] insert_all_repr [OF assms(1-4)] assms(5) by simp

end

interpretation free_list: block_list ll "\<lambda>b. b \<noteq> 0" insert_block pop_block
  by unfold_locales (auto simp: insert_block_def intro: pop_block_spec)


section \<open>Delay states and the thread-free word\<close>

datatype DelayState = UseDelayedFree | Freeing | NoDelayedFree | NeverDelayedFree

definition to_int :: "DelayState \<Rightarrow> usize" where
  "to_int d = (case d of UseDelayedFree \<Rightarrow> 0 | Freeing \<Rightarrow> 1 | NoDelayedFree \<Rightarrow> 2 | NeverDelayedFree \<Rightarrow> 3)"

definition masked_ptr_delay_wf :: "usize \<Rightarrow> DelayState \<Rightarrow> usize \<Rightarrow> bool" where
  "masked_ptr_delay_wf v d p \<longleftrightarrow> p mod 4 = 0 \<and> unat v = unat p + unat (to_int d)"

definition masked_ptr_delay_get_is_use_delayed :: "usize \<Rightarrow> bool" where
  "masked_ptr_delay_get_is_use_delayed v \<longleftrightarrow> v mod 4 = 0"

definition masked_ptr_delay_get_delay :: "usize \<Rightarrow> usize" where
  "masked_ptr_delay_get_delay v = v mod 4"

definition masked_ptr_delay_get_ptr :: "usize \<Rightarrow> usize" where
  "masked_ptr_delay_get_ptr v = v AND NOT 3"

definition masked_ptr_delay_set_ptr :: "usize \<Rightarrow> usize \<Rightarrow> usize" where
  "masked_ptr_delay_set_ptr v new_ptr = (v AND 3) OR new_ptr"

definition masked_ptr_delay_set_freeing :: "usize \<Rightarrow> usize" where
  "masked_ptr_delay_set_freeing v = (v AND NOT 3) OR 1"

definition masked_ptr_delay_set_delay :: "usize \<Rightarrow> usize \<Rightarrow> usize" where
  "masked_ptr_delay_set_delay v new_delay = (v AND NOT 3) OR new_delay"

text \<open>The \<^verbatim>\<open>fetch_xor(3)\<close> with which the freeing thread leaves the state \<^const>\<open>Freeing\<close>.\<close>

definition leave_freeing :: "usize \<Rightarrow> usize" where
  "leave_freeing v = v XOR 3"

definition encode :: "usize \<Rightarrow> DelayState \<Rightarrow> usize" where
  "encode p d = p OR to_int d"

lemma bit_3_int: "bit (3 :: int) n \<longleftrightarrow> n < 2" "bit (- 4 :: int) n \<longleftrightarrow> 2 \<le> n"
proof -
  have m: "(mask 2 :: int) = 3" by (simp add: mask_eq_exp_minus_1)
  have b: "bit (mask 2 :: int) n \<longleftrightarrow> n < 2" by (simp only: bit_mask_iff) auto
  then show "bit (3 :: int) n \<longleftrightarrow> n < 2" by (simp only: m)
  have "(- 4 :: int) = NOT 3" by simp
  then show "bit (- 4 :: int) n \<longleftrightarrow> 2 \<le> n" using b by (simp only: m bit_not_iff) auto
qed

lemma bit_3_word: "bit (3 :: usize) n \<longleftrightarrow> n < 2" "bit (- 4 :: usize) n \<longleftrightarrow> n < 64 \<and> 2 \<le> n"
  by (auto simp: bit_3_int)

lemma mod4_and: "(x :: usize) mod 4 = x AND 3"
proof -
  have "(3 :: usize) = mask 2" "(4 :: usize) = 2 ^ 2" by (simp_all add: mask_eq_exp_minus_1)
  then show ?thesis by (simp only: take_bit_eq_mod [symmetric] take_bit_eq_mask)
qed

lemma to_int_low [simp]: "to_int d AND 3 = to_int d"
  by (cases d) (simp_all add: to_int_def)

lemma to_int_bits: "bit (to_int d) n \<Longrightarrow> n < 2"
  using to_int_low [of d] by (metis bit_and_iff bit_3_word(1))

lemma aligned_bits: "p AND 3 = (0 :: usize) \<Longrightarrow> bit p n \<Longrightarrow> 2 \<le> n"
  by (metis not_le bit_0_eq bit_3_word(1) bit_and_iff bot_apply bot_bool_def)

lemma aligned_disjoint: "p AND 3 = 0 \<Longrightarrow> p AND to_int d = 0"
  by (auto intro!: bit_word_eqI simp: bit_and_iff dest!: aligned_bits to_int_bits)

lemma masked_wf_encode: "masked_ptr_delay_wf v d p \<longleftrightarrow> p AND 3 = 0 \<and> v = encode p d"
proof -
  have "unat (p OR to_int d) = unat p + unat (to_int d)" if p: "p AND 3 = 0"
  proof -
    from aligned_disjoint [OF p] have "p OR to_int d = p + to_int d" by (simp add: disjunctive_add_eq_or)
    moreover have "unat p mod 4 = 0" using p by (metis unat_0 unat_and_3)
    then have "unat p + 3 < 2 ^ 64" using unat_bound [of p] by (simp, presburger)
    moreover have "unat (to_int d) \<le> 3" by (cases d) (simp_all add: to_int_def)
    ultimately show ?thesis by (simp add: unat_add_small)
  qed
  then show ?thesis by (auto simp: masked_ptr_delay_wf_def encode_def mod4_and word_unat_eq_iff)
qed

lemma aligned_and_not_3: "p AND 3 = (0 :: usize) \<Longrightarrow> p AND - 4 = p"
  by (auto intro!: bit_word_eqI simp: bit_and_iff bit_3_int dest: aligned_bits)

lemma encode_parts:
  assumes "p AND 3 = 0"
  shows "encode p d AND 3 = to_int d" "encode p d AND - 4 = p"
proof -
  have "to_int d AND - 4 = 0" by (cases d) (simp_all add: to_int_def)
  then show "encode p d AND 3 = to_int d" "encode p d AND - 4 = p"
    using assms by (simp_all add: encode_def bit.conj_disj_distrib2 aligned_and_not_3)
qed

lemma encode_AND_3 [simp]: "p AND 3 = 0 \<Longrightarrow> encode p d AND 3 = to_int d"
  by (rule encode_parts)

lemma to_int_inject [simp]: "to_int d = to_int e \<longleftrightarrow> d = e"
  by (cases d; cases e) (simp_all add: to_int_def)

lemma encode_inject: "p AND 3 = 0 \<Longrightarrow> q AND 3 = 0 \<Longrightarrow> encode p d = encode q e \<longleftrightarrow> p = q \<and> d = e"
  by (metis encode_parts to_int_inject)

lemma encode_xor: "p AND 3 = 0 \<Longrightarrow> encode p d = p XOR to_int d"
  by (simp add: encode_def disjunctive_xor_eq_or aligned_disjoint)

lemma masked_ptr_ops:
  assumes "p AND 3 = 0"
  shows "masked_ptr_delay_get_is_use_delayed (encode p d) \<longleftrightarrow> d = UseDelayedFree"
    "masked_ptr_delay_get_delay (encode p d) = to_int d"
    "masked_ptr_delay_get_ptr (encode p d) = p"
    "masked_ptr_delay_set_ptr (encode p d) q = encode q d"
    "masked_ptr_delay_set_freeing (encode p d) = encode p Freeing"
    "masked_ptr_delay_set_delay (encode p d) (to_int e) = encode p e"
    "leave_freeing (encode p Freeing) = encode p NoDelayedFree"
proof -
  have "to_int d = 0 \<longleftrightarrow> d = UseDelayedFree" by (cases d) (simp_all add: to_int_def)
  then show "masked_ptr_delay_get_is_use_delayed (encode p d) \<longleftrightarrow> d = UseDelayedFree"
    using assms by (simp add: masked_ptr_delay_get_is_use_delayed_def mod4_and)
  show "leave_freeing (encode p Freeing) = encode p NoDelayedFree"
    unfolding leave_freeing_def encode_xor [OF assms] by (simp add: to_int_def xor.assoc)
qed (use assms in \<open>simp_all add: encode_parts masked_ptr_delay_get_delay_def mod4_and
      masked_ptr_delay_get_ptr_def masked_ptr_delay_set_ptr_def masked_ptr_delay_set_freeing_def
      masked_ptr_delay_set_delay_def\<close>, simp_all add: encode_def to_int_def or.commute)


section \<open>Properties\<close>

text \<open>
  C29. \<^verbatim>\<open>LL::append\<close> always returns on two disjoint lists: the result is the other list followed
  by this one, the other list is empty, the count is its length (modulo \<open>2 ^ 32\<close>), and no
  word outside the other list is written.
\<close>

theorem append_concatenates:
  assumes "ll m a xs" "ll m b ys" "set xs \<inter> set ys = {}"
  shows "\<exists>m' a'. append m a b = Inr (m', a', LL_empty, of_nat (length ys)) \<and> ll m' a' (ys @ xs)
    \<and> (\<forall>q. q \<notin> set ys \<longrightarrow> m' q = m q)"
  using append_spec [OF assms] by (simp add: LL_empty_def LL_new_def)

theorem append_concatenates_witness:
  "\<exists>m' a'. append [16 \<mapsto> 0, 32 \<mapsto> 48, 48 \<mapsto> 0] 16 32 = Inr (m', a', LL_empty, 2) \<and> ll m' a' [32, 48, 16]"
  using append_concatenates [of "[16 \<mapsto> 0, 32 \<mapsto> 48, 48 \<mapsto> 0]" 16 "[16]" 32 "[32, 48]"] by auto

text \<open>
  C30. Blocks freed to a list come back in last-in first-out order, each exactly once, and
  popping them restores the list: \<^verbatim>\<open>insert_block\<close> repeated and \<^verbatim>\<open>pop_block\<close> repeated.
\<close>

theorem freed_blocks_lifo:
  assumes "ll m first xs" "\<forall>b\<in>set bs. b \<noteq> 0" "distinct bs" "set bs \<inter> set xs = {}"
    "insert_all insert_block (m, first) bs = (m', first')"
  shows "\<exists>rest. pop_many pop_block m' first' (length bs) = Inr (rev bs, rest) \<and> ll m' rest xs"
  by (rule free_list.lifo [OF assms])

theorem freed_blocks_lifo_witness:
  "\<exists>rest. pop_many pop_block [8 \<mapsto> 0, 16 \<mapsto> 8, 24 \<mapsto> 16] 24 (length [16, 24 :: usize]) = Inr ([24, 16], rest)
    \<and> ll [8 \<mapsto> 0, 16 \<mapsto> 8, 24 \<mapsto> 16] rest [8]"
proof -
  have "ll [8 \<mapsto> 0] 8 [8]" "insert_all insert_block ([8 \<mapsto> 0], 8) [16, 24] = ([8 \<mapsto> 0, 16 \<mapsto> 8, 24 \<mapsto> 16], 24)"
    by (simp_all add: insert_block_def)
  from freed_blocks_lifo [OF this(1) _ _ _ this(2)] show ?thesis by simp
qed

text \<open>
  The thread-free word holds a 4-aligned list head and a delay state: each accessor reads
  its half, each update changes its half only, and the \<^verbatim>\<open>fetch_xor(3)\<close> turns
  \<^const>\<open>Freeing\<close> into \<^const>\<open>NoDelayedFree\<close> without touching the list.
\<close>

lemma delay_word_halves:
  assumes "masked_ptr_delay_wf v d p" "q mod 4 = 0"
  shows "masked_ptr_delay_get_ptr v = p \<and> masked_ptr_delay_get_delay v = to_int d
    \<and> masked_ptr_delay_get_is_use_delayed v = (d = UseDelayedFree)
    \<and> masked_ptr_delay_wf (masked_ptr_delay_set_ptr v q) d q
    \<and> masked_ptr_delay_wf (masked_ptr_delay_set_freeing v) Freeing p
    \<and> masked_ptr_delay_wf (masked_ptr_delay_set_delay v (to_int e)) e p
    \<and> (d = Freeing \<longrightarrow> masked_ptr_delay_wf (leave_freeing v) NoDelayedFree p)"
  using assms by (auto simp: masked_wf_encode masked_ptr_ops mod4_and)

end
