(* ===== verification/Thread_Free.thy ===== *)
theory Thread_Free
  imports Linked_List
begin

text \<open>
  Concurrent frees. A thread that frees a block of a page it does not own runs
  \<^verbatim>\<open>free_block_mt\<close> (\<^verbatim>\<open>free.rs\<close>): it pushes the block on the thread-free list of the page with a
  compare-and-exchange or, when the page asks for delayed frees, takes the delay state of the page to
  \<^verbatim>\<open>Freeing\<close>, pushes the block on the delayed list of the heap and leaves the state again. The owner
  collects the lists of its pages, and in \<^verbatim>\<open>heap_delayed_free_partial\<close> (\<^verbatim>\<open>alloc_generic.rs\<close>) detaches the delayed
  list and goes through it: for each block it tries to switch the delay state of the page back, collects the
  page and frees the block, or puts the block on the delayed list again
  (\<^verbatim>\<open>ThreadLLWithDelayBits::take\<close>, \<^verbatim>\<open>try_use_delayed_free\<close>, \<^verbatim>\<open>ThreadLLSimple::take\<close>, \<^verbatim>\<open>atomic_insert_block\<close>).

  The heap has any number of pages, which stay its pages; \<open>page_of\<close> says which page a block is in. Every
  atomic access to the word of a page or to the delayed list is one step (the load of \<^verbatim>\<open>xheap\<close>, which nothing
  writes, is not), and the steps of any number of freeing threads and of the owner interleave
  freely. A compare-and-exchange may fail even when the values agree (\<^verbatim>\<open>compare_exchange_weak\<close>). Blocks on the
  owner's side may be written at any time, and may be handed to a thread that frees them again, so a list head can
  come back to an old value.
\<close>

section \<open>The state\<close>

text \<open>Where a freeing thread stands in \<^verbatim>\<open>free_block_mt\<close>, with the local variables it has read.\<close>

datatype mt_pc =
    MtTop                       \<comment> \<open>top of the loop\<close>
  | MtLoaded usize              \<comment> \<open>\<^verbatim>\<open>mask\<close> loaded\<close>
  | MtCas usize usize bool      \<comment> \<open>before the exchange: \<^verbatim>\<open>mask\<close>, \<^verbatim>\<open>mask1\<close>, \<^verbatim>\<open>use_delayed\<close>\<close>
  | HpTop                       \<comment> \<open>top of the loop of \<^verbatim>\<open>atomic_insert_block\<close>\<close>
  | HpLoaded usize              \<comment> \<open>\<^verbatim>\<open>next_ptr\<close> loaded\<close>
  | HpCas usize                 \<comment> \<open>before the exchange\<close>
  | MtLeave                     \<comment> \<open>before the \<^verbatim>\<open>fetch_xor(3)\<close>\<close>

text \<open>Where the owner stands in \<^verbatim>\<open>heap_delayed_free_partial\<close> and the functions it calls.\<close>

datatype own_pc =
    OIdle
  | OSwap                       \<comment> \<open>in \<^verbatim>\<open>take\<close>: a non-null delayed list was seen\<close>
  | OLoop                       \<comment> \<open>top of the loop over the detached list\<close>
  | OTry nat                    \<comment> \<open>in \<^verbatim>\<open>try_use_delayed_free\<close>: \<^verbatim>\<open>yield_count\<close>\<close>
  | OTryCas usize usize nat     \<comment> \<open>\<^verbatim>\<open>tfree\<close>, \<^verbatim>\<open>tfreex\<close>, \<^verbatim>\<open>yield_count\<close>\<close>
  | OCollect                    \<comment> \<open>it returned true; before \<^verbatim>\<open>page_free_collect\<close>\<close>
  | OFree                       \<comment> \<open>before \<^verbatim>\<open>free_block\<close>\<close>
  | OIns                        \<comment> \<open>it returned false; top of the loop of \<^verbatim>\<open>atomic_insert_block\<close>\<close>
  | OInsLoaded usize            \<comment> \<open>\<^verbatim>\<open>next_ptr\<close> loaded\<close>
  | OInsCas usize               \<comment> \<open>before the exchange\<close>

record tfsys =
  page_of :: "usize \<Rightarrow> usize"   \<comment> \<open>the page of a block; fixed\<close>
  xtf :: "usize \<Rightarrow> usize"       \<comment> \<open>\<^verbatim>\<open>xthread_free\<close> of each page\<close>
  delayed :: usize              \<comment> \<open>\<^verbatim>\<open>heap.thread_delayed_free\<close>\<close>
  fmem :: mem
  owned :: "usize set"          \<comment> \<open>blocks on the owner's side\<close>
  pcs :: "nat \<rightharpoonup> usize \<times> mt_pc"  \<comment> \<open>the freeing threads: block and position\<close>
  own :: own_pc
  detached :: usize             \<comment> \<open>the list \<^verbatim>\<open>ll\<close> of \<^verbatim>\<open>heap_delayed_free_partial\<close>\<close>
  hand :: "usize option"        \<comment> \<open>its \<^verbatim>\<open>ptr\<close>, until it is freed or put back\<close>


section \<open>The steps of a freeing thread\<close>

definition mt_load :: "tfsys \<Rightarrow> nat \<Rightarrow> usize \<Rightarrow> tfsys" where
  "mt_load s t b = s\<lparr>pcs := (pcs s)(t \<mapsto> (b, MtLoaded (xtf s (page_of s b))))\<rparr>"

definition mt_prepare :: "tfsys \<Rightarrow> nat \<Rightarrow> usize \<Rightarrow> usize \<Rightarrow> tfsys" where
  "mt_prepare s t b msk =
     (let use_delayed = masked_ptr_delay_get_is_use_delayed msk in
      if use_delayed then
        s\<lparr>pcs := (pcs s)(t \<mapsto> (b, MtCas msk (masked_ptr_delay_set_freeing msk) True))\<rparr>
      else
        s\<lparr>fmem := block_write_ptr (fmem s) b (masked_ptr_delay_get_ptr msk),
          pcs := (pcs s)(t \<mapsto> (b, MtCas msk (masked_ptr_delay_set_ptr msk b) False))\<rparr>)"

definition mt_cas_ok :: "tfsys \<Rightarrow> nat \<Rightarrow> usize \<Rightarrow> usize \<Rightarrow> bool \<Rightarrow> tfsys" where
  "mt_cas_ok s t b msk1 use_delayed =
     s\<lparr>xtf := (xtf s)(page_of s b := msk1), pcs := (pcs s)(t := if use_delayed then Some (b, HpTop) else None)\<rparr>"

definition mt_retry :: "tfsys \<Rightarrow> nat \<Rightarrow> usize \<Rightarrow> tfsys" where
  "mt_retry s t b = s\<lparr>pcs := (pcs s)(t \<mapsto> (b, MtTop))\<rparr>"

definition hp_load :: "tfsys \<Rightarrow> nat \<Rightarrow> usize \<Rightarrow> tfsys" where
  "hp_load s t b = s\<lparr>pcs := (pcs s)(t \<mapsto> (b, HpLoaded (delayed s)))\<rparr>"

definition hp_write :: "tfsys \<Rightarrow> nat \<Rightarrow> usize \<Rightarrow> usize \<Rightarrow> tfsys" where
  "hp_write s t b nxt =
     s\<lparr>fmem := block_write_ptr (fmem s) b nxt, pcs := (pcs s)(t \<mapsto> (b, HpCas nxt))\<rparr>"

definition hp_cas_ok :: "tfsys \<Rightarrow> nat \<Rightarrow> usize \<Rightarrow> tfsys" where
  "hp_cas_ok s t b = s\<lparr>delayed := b, pcs := (pcs s)(t \<mapsto> (b, MtLeave))\<rparr>"

definition hp_retry :: "tfsys \<Rightarrow> nat \<Rightarrow> usize \<Rightarrow> tfsys" where
  "hp_retry s t b = s\<lparr>pcs := (pcs s)(t \<mapsto> (b, HpTop))\<rparr>"

definition mt_leave :: "tfsys \<Rightarrow> nat \<Rightarrow> usize \<Rightarrow> tfsys" where
  "mt_leave s t b = s\<lparr>xtf := (xtf s)(page_of s b := leave_freeing (xtf s (page_of s b))), pcs := (pcs s)(t := None)\<rparr>"


section \<open>The steps of the owner\<close>

text \<open>The blocks on a list that the owner has detached.\<close>

primrec nodes_upto :: "nat \<Rightarrow> mem \<Rightarrow> usize \<Rightarrow> usize list" where
  "nodes_upto 0 m p = []"
| "nodes_upto (Suc k) m p =
     (if p = 0 then [] else case m p of None \<Rightarrow> [p] | Some n \<Rightarrow> p # nodes_upto k m n)"

definition nodes :: "mem \<Rightarrow> usize \<Rightarrow> usize list" where
  "nodes m p = nodes_upto address_count m p"

definition thread_free_take :: "usize \<Rightarrow> tfsys \<Rightarrow> tfsys" where
  "thread_free_take page s =
     s\<lparr>xtf := (xtf s)(page := xtf s page AND 3), owned := owned s \<union> set (nodes (fmem s) (xtf s page AND NOT 3))\<rparr>"

definition simple_take_load :: "tfsys \<Rightarrow> tfsys" where
  "simple_take_load s = (if delayed s = 0 then s else s\<lparr>own := OSwap\<rparr>)"

definition simple_take_swap :: "tfsys \<Rightarrow> tfsys" where
  "simple_take_swap s = s\<lparr>delayed := 0, detached := delayed s, own := OLoop\<rparr>"

text \<open>A round of the loop: pop a block and call \<^verbatim>\<open>free_delayed_block\<close>, which begins with \<^verbatim>\<open>try_use_delayed_free\<close>.\<close>

definition delayed_round :: "tfsys \<Rightarrow> tfsys" where
  "delayed_round s =
     (if LL_is_empty (detached s) then s\<lparr>own := OIdle\<rparr>
      else case pop_block (fmem s) (detached s) of
        Inr (ptr, rest) \<Rightarrow> s\<lparr>hand := Some ptr, detached := rest, own := OTry 0\<rparr>
      | Inl e \<Rightarrow> s)"

definition try_load :: "tfsys \<Rightarrow> usize \<Rightarrow> nat \<Rightarrow> tfsys" where
  "try_load s ptr yield_count =
     (let tfree = xtf s (page_of s ptr);
          delay = to_int UseDelayedFree;
          tfreex = masked_ptr_delay_set_delay tfree delay;
          old_delay = masked_ptr_delay_get_delay tfree in
      if old_delay = 1 then
        (if yield_count \<ge> 4 then s\<lparr>own := OIns\<rparr> else s\<lparr>own := OTry (yield_count + 1)\<rparr>)
      else if delay = old_delay then s\<lparr>own := OCollect\<rparr>
      else if old_delay = 3 then s\<lparr>own := OCollect\<rparr>
      else s\<lparr>own := OTryCas tfree tfreex yield_count\<rparr>)"

definition try_cas_ok :: "tfsys \<Rightarrow> usize \<Rightarrow> usize \<Rightarrow> tfsys" where
  "try_cas_ok s ptr tfreex = s\<lparr>xtf := (xtf s)(page_of s ptr := tfreex), own := OCollect\<rparr>"

text \<open>\<^verbatim>\<open>page_free_collect\<close> takes the list of the page, and \<^verbatim>\<open>free_block\<close> returns the block to the owner's lists.\<close>

definition delayed_collect :: "tfsys \<Rightarrow> usize \<Rightarrow> tfsys" where
  "delayed_collect s ptr = (thread_free_take (page_of s ptr) s)\<lparr>own := OFree\<rparr>"

definition delayed_free :: "tfsys \<Rightarrow> usize \<Rightarrow> tfsys" where
  "delayed_free s ptr = s\<lparr>owned := insert ptr (owned s), hand := None, own := OLoop\<rparr>"

text \<open>The owner's \<^verbatim>\<open>atomic_insert_block\<close>, when \<^verbatim>\<open>free_delayed_block\<close> returned false.\<close>

definition ins_load :: "tfsys \<Rightarrow> tfsys" where
  "ins_load s = s\<lparr>own := OInsLoaded (delayed s)\<rparr>"

definition ins_write :: "tfsys \<Rightarrow> usize \<Rightarrow> usize \<Rightarrow> tfsys" where
  "ins_write s ptr nxt = s\<lparr>fmem := block_write_ptr (fmem s) ptr nxt, own := OInsCas nxt\<rparr>"

definition ins_cas_ok :: "tfsys \<Rightarrow> usize \<Rightarrow> tfsys" where
  "ins_cas_ok s ptr = s\<lparr>delayed := ptr, hand := None, own := OLoop\<rparr>"

inductive tf_step :: "tfsys \<Rightarrow> tfsys \<Rightarrow> bool" where
  begin_free: "b \<in> owned s \<Longrightarrow> pcs s t = None \<Longrightarrow>
     tf_step s (s\<lparr>owned := owned s - {b}, pcs := (pcs s)(t \<mapsto> (b, MtTop))\<rparr>)"
| load: "pcs s t = Some (b, MtTop) \<Longrightarrow> tf_step s (mt_load s t b)"
| prepare: "pcs s t = Some (b, MtLoaded msk) \<Longrightarrow> tf_step s (mt_prepare s t b msk)"
| cas_ok: "pcs s t = Some (b, MtCas msk msk1 ud) \<Longrightarrow> xtf s (page_of s b) = msk \<Longrightarrow> tf_step s (mt_cas_ok s t b msk1 ud)"
| cas_fail: "pcs s t = Some (b, MtCas msk msk1 ud) \<Longrightarrow> tf_step s (mt_retry s t b)"
| heap_load: "pcs s t = Some (b, HpTop) \<Longrightarrow> tf_step s (hp_load s t b)"
| heap_write: "pcs s t = Some (b, HpLoaded nxt) \<Longrightarrow> tf_step s (hp_write s t b nxt)"
| heap_cas_ok: "pcs s t = Some (b, HpCas nxt) \<Longrightarrow> delayed s = nxt \<Longrightarrow> tf_step s (hp_cas_ok s t b)"
| heap_cas_fail: "pcs s t = Some (b, HpCas nxt) \<Longrightarrow> tf_step s (hp_retry s t b)"
| leave: "pcs s t = Some (b, MtLeave) \<Longrightarrow> tf_step s (mt_leave s t b)"
| own_write: "b \<in> owned s \<Longrightarrow> tf_step s (s\<lparr>fmem := (fmem s)(b := v)\<rparr>)"
| own_take: "own s = OIdle \<Longrightarrow> tf_step s (thread_free_take page s)"
| own_delayed_load: "own s = OIdle \<Longrightarrow> tf_step s (simple_take_load s)"
| own_delayed_swap: "own s = OSwap \<Longrightarrow> tf_step s (simple_take_swap s)"
| own_round: "own s = OLoop \<Longrightarrow> tf_step s (delayed_round s)"
| own_try_load: "own s = OTry yc \<Longrightarrow> hand s = Some b \<Longrightarrow> tf_step s (try_load s b yc)"
| own_try_cas_ok: "own s = OTryCas tfree tfreex yc \<Longrightarrow> hand s = Some b \<Longrightarrow> xtf s (page_of s b) = tfree \<Longrightarrow>
     tf_step s (try_cas_ok s b tfreex)"
| own_try_cas_fail: "own s = OTryCas tfree tfreex yc \<Longrightarrow> tf_step s (s\<lparr>own := OTry yc\<rparr>)"
| own_collect: "own s = OCollect \<Longrightarrow> hand s = Some b \<Longrightarrow> tf_step s (delayed_collect s b)"
| own_free: "own s = OFree \<Longrightarrow> hand s = Some b \<Longrightarrow> tf_step s (delayed_free s b)"
| own_ins_load: "own s = OIns \<Longrightarrow> tf_step s (ins_load s)"
| own_ins_write: "own s = OInsLoaded nxt \<Longrightarrow> hand s = Some b \<Longrightarrow> tf_step s (ins_write s b nxt)"
| own_ins_cas_ok: "own s = OInsCas nxt \<Longrightarrow> hand s = Some b \<Longrightarrow> delayed s = nxt \<Longrightarrow> tf_step s (ins_cas_ok s b)"
| own_ins_cas_fail: "own s = OInsCas nxt \<Longrightarrow> tf_step s (s\<lparr>own := OIns\<rparr>)"

inductive_cases tf_stepE: "tf_step s s'"

text \<open>
  The next step of a freeing thread; \<open>spurious\<close> says whether an exchange fails although the values agree.
\<close>

definition mt_next :: "nat \<Rightarrow> bool \<Rightarrow> tfsys \<Rightarrow> tfsys" where
  "mt_next t spurious s = (case pcs s t of None \<Rightarrow> s | Some (b, pc) \<Rightarrow> (case pc of
     MtTop \<Rightarrow> mt_load s t b
   | MtLoaded msk \<Rightarrow> mt_prepare s t b msk
   | MtCas msk msk1 ud \<Rightarrow> if xtf s (page_of s b) = msk \<and> \<not> spurious then mt_cas_ok s t b msk1 ud else mt_retry s t b
   | HpTop \<Rightarrow> hp_load s t b
   | HpLoaded nxt \<Rightarrow> hp_write s t b nxt
   | HpCas nxt \<Rightarrow> if delayed s = nxt \<and> \<not> spurious then hp_cas_ok s t b else hp_retry s t b
   | MtLeave \<Rightarrow> mt_leave s t b))"

text \<open>Steps of a thread that runs alone, one for each element of the list.\<close>

definition mt_run :: "nat \<Rightarrow> bool list \<Rightarrow> tfsys \<Rightarrow> tfsys" where
  "mt_run t fs s = fold (mt_next t) fs s"

text \<open>The pages enabled with all their blocks on the owner's side (\<^verbatim>\<open>ThreadLLWithDelayBits::empty\<close>, \<^verbatim>\<open>enable\<close>).\<close>

definition tf_init :: "(usize \<Rightarrow> usize) \<Rightarrow> usize set \<Rightarrow> mem \<Rightarrow> tfsys" where
  "tf_init P A m = \<lparr>page_of = P, xtf = (\<lambda>_. 0), delayed = 0, fmem = m, owned = A, pcs = Map.empty, own = OIdle,
     detached = 0, hand = None\<rparr>"

inductive tf_reach :: "usize set \<Rightarrow> tfsys \<Rightarrow> bool" for A where
  init: "tf_reach A (tf_init P A m)"
| step: "tf_reach A s \<Longrightarrow> tf_step s s' \<Longrightarrow> tf_reach A s'"


section \<open>The invariant\<close>

lemma nodes_upto_ll: "ll m p xs \<Longrightarrow> length xs < k \<Longrightarrow> nodes_upto k m p = xs"
proof (induction xs arbitrary: p k)
  case Nil
  then show ?case by (cases k) auto
next
  case (Cons x xs)
  then show ?case by (cases k) (auto split: option.splits)
qed

lemma nodes_ll: "ll m p xs \<Longrightarrow> nodes m p = xs"
  unfolding nodes_def using ll_length nodes_upto_ll by blast

definition heap_phase :: "mt_pc \<Rightarrow> bool" where
  "heap_phase pc \<longleftrightarrow> (case pc of HpTop \<Rightarrow> True | HpLoaded _ \<Rightarrow> True | HpCas _ \<Rightarrow> True | MtLeave \<Rightarrow> True | _ \<Rightarrow> False)"

text \<open>A thread that has taken the delay state of a page to \<^const>\<open>Freeing\<close> and not yet left it.\<close>

definition freeing :: "(usize \<Rightarrow> usize) \<Rightarrow> (nat \<rightharpoonup> usize \<times> mt_pc) \<Rightarrow> usize \<Rightarrow> nat \<Rightarrow> bool" where
  "freeing P f page t \<longleftrightarrow> (\<exists>b pc. f t = Some (b, pc) \<and> heap_phase pc \<and> P b = page)"

definition in_flight :: "(nat \<rightharpoonup> usize \<times> mt_pc) \<Rightarrow> usize set" where
  "in_flight f = {b. \<exists>t pc. f t = Some (b, pc) \<and> pc \<noteq> MtLeave}"

definition pc_ok :: "mem \<Rightarrow> usize \<Rightarrow> mt_pc \<Rightarrow> bool" where
  "pc_ok m b pc \<longleftrightarrow> (case pc of
     MtLoaded msk \<Rightarrow> \<exists>q e. q AND 3 = 0 \<and> msk = encode q e
   | MtCas msk msk1 ud \<Rightarrow> \<exists>q e. q AND 3 = 0 \<and> msk = encode q e \<and> ud = (e = UseDelayedFree)
       \<and> (if ud then msk1 = encode q Freeing else msk1 = encode b e \<and> m b = Some q)
   | HpCas n \<Rightarrow> m b = Some n
   | _ \<Rightarrow> True)"

text \<open>The owner holds a block just inside a round, and has detached blocks left just inside the loop.\<close>

definition own_ok :: "usize \<Rightarrow> usize option \<Rightarrow> mem \<Rightarrow> own_pc \<Rightarrow> bool" where
  "own_ok lst ptr m pc \<longleftrightarrow> (case pc of
     OIdle \<Rightarrow> ptr = None \<and> lst = 0
   | OSwap \<Rightarrow> ptr = None \<and> lst = 0
   | OLoop \<Rightarrow> ptr = None
   | OTryCas tfree tfreex yc \<Rightarrow> ptr \<noteq> None \<and> (\<exists>q e. q AND 3 = 0 \<and> tfree = encode q e \<and> e \<noteq> Freeing
       \<and> tfreex = encode q UseDelayedFree)
   | OInsCas n \<Rightarrow> (\<exists>b. ptr = Some b \<and> m b = Some n)
   | _ \<Rightarrow> ptr \<noteq> None)"

text \<open>
  Every block is in one place: on the owner's side, with a freeing thread, on the list of its page, on the
  delayed list, or with the owner in \<^verbatim>\<open>heap_delayed_free_partial\<close>.
\<close>

definition blocks_split :: "usize set \<Rightarrow> usize set \<Rightarrow> usize set \<Rightarrow> usize set \<Rightarrow> usize set \<Rightarrow> usize set \<Rightarrow> bool" where
  "blocks_split A own_blocks flying listed delays in_loop \<longleftrightarrow> own_blocks \<union> flying \<union> listed \<union> delays \<union> in_loop = A
     \<and> own_blocks \<inter> flying = {} \<and> own_blocks \<inter> listed = {} \<and> own_blocks \<inter> delays = {} \<and> own_blocks \<inter> in_loop = {}
     \<and> flying \<inter> listed = {} \<and> flying \<inter> delays = {} \<and> flying \<inter> in_loop = {}
     \<and> listed \<inter> delays = {} \<and> listed \<inter> in_loop = {} \<and> delays \<inter> in_loop = {}"

definition all_listed :: "(usize \<Rightarrow> usize list) \<Rightarrow> usize set" where
  "all_listed X = (\<Union>g. set (X g))"

definition one_thread_per_block :: "(nat \<rightharpoonup> usize \<times> mt_pc) \<Rightarrow> bool" where
  "one_thread_per_block f \<longleftrightarrow> (\<forall>t t' b pc pc'. f t = Some (b, pc) \<and> pc \<noteq> MtLeave
     \<and> f t' = Some (b, pc') \<and> pc' \<noteq> MtLeave \<longrightarrow> t = t')"

text \<open>At most one thread is in the window of a page, and the delay state of the page says whether there is one.\<close>

definition windows_ok :: "(usize \<Rightarrow> usize) \<Rightarrow> (nat \<rightharpoonup> usize \<times> mt_pc) \<Rightarrow> (usize \<Rightarrow> DelayState) \<Rightarrow> bool" where
  "windows_ok P f d \<longleftrightarrow> (\<forall>g t t'. freeing P f g t \<and> freeing P f g t' \<longrightarrow> t = t') \<and> (\<forall>g. d g = Freeing \<longleftrightarrow> (\<exists>t. freeing P f g t))"

text \<open>The word of a page holds a list of blocks of the page and a delay state.\<close>

definition word_ok :: "(usize \<Rightarrow> usize) \<Rightarrow> mem \<Rightarrow> usize \<Rightarrow> usize \<Rightarrow> usize \<Rightarrow> DelayState \<Rightarrow> usize list \<Rightarrow> bool" where
  "word_ok P m g w p d xs \<longleftrightarrow> w = encode p d \<and> p AND 3 = 0 \<and> ll m p xs \<and> (\<forall>b\<in>set xs. P b = g)"

text \<open>
  \<open>tf_inv A s p d X ys zs\<close>: the word of each page \<open>g\<close> holds the list \<open>X g\<close> from \<open>p g\<close> and delay state \<open>d g\<close>, the
  delayed list is \<open>ys\<close> and the detached list \<open>zs\<close>.
\<close>

definition tf_inv :: "usize set \<Rightarrow> tfsys \<Rightarrow> (usize \<Rightarrow> usize) \<Rightarrow> (usize \<Rightarrow> DelayState) \<Rightarrow> (usize \<Rightarrow> usize list)
    \<Rightarrow> usize list \<Rightarrow> usize list \<Rightarrow> bool" where
  "tf_inv A s p d X ys zs \<longleftrightarrow>
     (\<forall>g. word_ok (page_of s) (fmem s) g (xtf s g) (p g) (d g) (X g))
     \<and> ll (fmem s) (delayed s) ys \<and> ll (fmem s) (detached s) zs \<and> (\<forall>b\<in>set zs. hand s \<noteq> Some b)
     \<and> blocks_split A (owned s) (in_flight (pcs s)) (all_listed X) (set ys) (set_option (hand s) \<union> set zs)
     \<and> one_thread_per_block (pcs s) \<and> (\<forall>b\<in>A. b AND 3 = 0 \<and> b \<noteq> 0)
     \<and> (\<forall>t b pc. pcs s t = Some (b, pc) \<longrightarrow> pc_ok (fmem s) b pc) \<and> own_ok (detached s) (hand s) (fmem s) (own s)
     \<and> windows_ok (page_of s) (pcs s) d"


subsection \<open>Threads in flight\<close>

lemma one_threadD:
  "one_thread_per_block f \<Longrightarrow> f t = Some (b, pc) \<Longrightarrow> pc \<noteq> MtLeave \<Longrightarrow>
     f t' = Some (b, pc') \<Longrightarrow> pc' \<noteq> MtLeave \<Longrightarrow> t = t'"
  unfolding one_thread_per_block_def by blast

lemma held_in_flight: "f t = Some (b, pc) \<Longrightarrow> pc \<noteq> MtLeave \<Longrightarrow> b \<in> in_flight f"
  by (auto simp: in_flight_def)

lemma one_thread_move:
  assumes one: "one_thread_per_block f"
    and new: "pc = MtLeave \<or> b \<notin> in_flight f \<or> (\<exists>pc0. f t = Some (b, pc0) \<and> pc0 \<noteq> MtLeave)"
  shows "one_thread_per_block (f(t \<mapsto> (b, pc)))"
  unfolding one_thread_per_block_def
proof (intro allI impI, elim conjE)
  fix u u' c k k'
  assume a: "(f(t \<mapsto> (b, pc))) u = Some (c, k)" "k \<noteq> MtLeave" "(f(t \<mapsto> (b, pc))) u' = Some (c, k')" "k' \<noteq> MtLeave"
  have own: "t' = t" if "f t' = Some (b, pc')" "pc' \<noteq> MtLeave" "pc \<noteq> MtLeave" for t' pc'
    using new that held_in_flight [of f t' b pc'] one_threadD [OF one, of t' b pc' t] by blast
  consider "u = t" "u' = t" | "u = t" "u' \<noteq> t" | "u \<noteq> t" "u' = t" | "u \<noteq> t" "u' \<noteq> t" by blast
  then show "u = u'"
  proof cases
    case 2
    then show ?thesis using a own [of u' k'] by simp
  next
    case 3
    then show ?thesis using a own [of u k] by simp
  next
    case 4
    then show ?thesis using a one_threadD [OF one, of u c k u' k'] by simp
  qed simp
qed

lemma one_thread_remove: "one_thread_per_block f \<Longrightarrow> one_thread_per_block (f(t := None))"
  unfolding one_thread_per_block_def by (auto split: if_splits)

lemma in_flight_upd:
  "in_flight (f(t := r)) = {b. \<exists>pc. r = Some (b, pc) \<and> pc \<noteq> MtLeave}
     \<union> {b. \<exists>t' pc. t' \<noteq> t \<and> f t' = Some (b, pc) \<and> pc \<noteq> MtLeave}"
  unfolding in_flight_def by (auto split: if_splits)

lemma in_flight_split:
  "in_flight f = {b. \<exists>pc. f t = Some (b, pc) \<and> pc \<noteq> MtLeave}
     \<union> {b. \<exists>t' pc. t' \<noteq> t \<and> f t' = Some (b, pc) \<and> pc \<noteq> MtLeave}"
  using in_flight_upd [of f t "f t"] by simp

lemma in_flight_add:
  "f t = None \<Longrightarrow> pc \<noteq> MtLeave \<Longrightarrow> in_flight (f(t \<mapsto> (b, pc))) = insert b (in_flight f)"
  unfolding in_flight_upd in_flight_split [of f t] by simp

lemma in_flight_move:
  "f t = Some (b, pc) \<Longrightarrow> pc \<noteq> MtLeave \<Longrightarrow> pc' \<noteq> MtLeave \<Longrightarrow> in_flight (f(t \<mapsto> (b, pc'))) = in_flight f"
  unfolding in_flight_upd in_flight_split [of f t] by simp

lemma in_flight_remove:
  assumes "one_thread_per_block f" "f t = Some (b, pc)" "pc \<noteq> MtLeave" "r = None \<or> r = Some (b, MtLeave)"
  shows "in_flight (f(t := r)) = in_flight f - {b}"
proof -
  have "b \<notin> {b. \<exists>t' pc. t' \<noteq> t \<and> f t' = Some (b, pc) \<and> pc \<noteq> MtLeave}"
    using one_threadD [OF assms(1-3)] by blast
  then show ?thesis unfolding in_flight_upd in_flight_split [of f t] using assms(2-4) by auto
qed

lemma in_flight_leave: "f t = Some (b, MtLeave) \<Longrightarrow> in_flight (f(t := None)) = in_flight f"
  unfolding in_flight_upd in_flight_split [of f t] by simp

lemma freeing_upd:
  "freeing P (f(t \<mapsto> (b, pc))) g t' \<longleftrightarrow> (if t' = t then heap_phase pc \<and> P b = g else freeing P f g t')"
  "freeing P (f(t := None)) g t' \<longleftrightarrow> t' \<noteq> t \<and> freeing P f g t'"
  by (auto simp: freeing_def)

lemma freeing_same:
  "f t = Some (b, pc) \<Longrightarrow> heap_phase pc' = heap_phase pc \<Longrightarrow> freeing P (f(t \<mapsto> (b, pc'))) = freeing P f"
  "f t = None \<or> f t = Some (b, pc) \<Longrightarrow> \<not> heap_phase pc \<Longrightarrow> freeing P (f(t := None)) = freeing P f"
  "f t = None \<Longrightarrow> \<not> heap_phase pc' \<Longrightarrow> freeing P (f(t \<mapsto> (b, pc'))) = freeing P f"
  by (auto simp: fun_eq_iff freeing_upd freeing_def)

lemma heap_phase_simps [simp]:
  "\<not> heap_phase MtTop" "\<not> heap_phase (MtLoaded v)" "\<not> heap_phase (MtCas v w u)"
  "heap_phase HpTop" "heap_phase (HpLoaded v)" "heap_phase (HpCas v)" "heap_phase MtLeave"
  by (simp_all add: heap_phase_def)

lemma pc_ok_simps [simp]:
  "pc_ok m b MtTop" "pc_ok m b HpTop" "pc_ok m b (HpLoaded v)" "pc_ok m b MtLeave"
  "pc_ok m b (HpCas n) \<longleftrightarrow> m b = Some n"
  by (simp_all add: pc_ok_def)

lemma pc_ok_other: "b \<noteq> a \<Longrightarrow> pc_ok (m(a := v)) b pc = pc_ok m b pc"
  by (simp add: pc_ok_def split: mt_pc.splits)

lemma own_ok_simps [simp]:
  "own_ok l h m OIdle \<longleftrightarrow> h = None \<and> l = 0" "own_ok l h m OSwap \<longleftrightarrow> h = None \<and> l = 0" "own_ok l h m OLoop \<longleftrightarrow> h = None"
  "own_ok l h m (OTry n) \<longleftrightarrow> h \<noteq> None" "own_ok l h m OCollect \<longleftrightarrow> h \<noteq> None" "own_ok l h m OFree \<longleftrightarrow> h \<noteq> None"
  "own_ok l h m OIns \<longleftrightarrow> h \<noteq> None" "own_ok l h m (OInsLoaded v) \<longleftrightarrow> h \<noteq> None"
  "own_ok l h m (OInsCas v) \<longleftrightarrow> (\<exists>b. h = Some b \<and> m b = Some v)"
  by (simp_all add: own_ok_def)

lemma own_ok_other: "h \<noteq> Some a \<Longrightarrow> own_ok l h (m(a := v)) pc = own_ok l h m pc"
  by (auto simp: own_ok_def split: own_pc.splits)

lemma all_listed_upd: "all_listed (X(g := xs)) = set xs \<union> (\<Union>h\<in>- {g}. set (X h))" "all_listed X = set (X g) \<union> (\<Union>h\<in>- {g}. set (X h))"
  by (auto simp: all_listed_def split: if_splits)

lemma all_listed_push: "all_listed (X(g := b # X g)) = insert b (all_listed X)"
  by (auto simp: all_listed_def split: if_splits)

lemma in_all_listed: "b \<in> set (X g) \<Longrightarrow> b \<in> all_listed X"
  by (auto simp: all_listed_def)

text \<open>The parts of the invariant.\<close>

lemma tf_invD:
  assumes "tf_inv A s p d X ys zs"
  shows "xtf s g = encode (p g) (d g)" "p g AND 3 = 0" "ll (fmem s) (p g) (X g)" "ll (fmem s) (delayed s) ys"
    "blocks_split A (owned s) (in_flight (pcs s)) (all_listed X) (set ys) (set_option (hand s) \<union> set zs)" "one_thread_per_block (pcs s)"
    "\<And>t b pc. pcs s t = Some (b, pc) \<Longrightarrow> pc_ok (fmem s) b pc" "own_ok (detached s) (hand s) (fmem s) (own s)"
    "windows_ok (page_of s) (pcs s) d"
    "d g = Freeing \<longleftrightarrow> (\<exists>t. freeing (page_of s) (pcs s) g t)"
    "ll (fmem s) (detached s) zs" "b \<in> set (X g) \<Longrightarrow> page_of s b = g" "hand s = Some b \<Longrightarrow> b \<notin> set zs"
    "b \<in> A \<Longrightarrow> b AND 3 = 0 \<and> b \<noteq> 0"
  using assms unfolding tf_inv_def word_ok_def windows_ok_def by blast+

lemma tf_invI:
  assumes "\<And>g. word_ok (page_of s) (fmem s) g (xtf s g) (p g) (d g) (X g)" "ll (fmem s) (delayed s) ys" "ll (fmem s) (detached s) zs"
    "\<And>b. hand s = Some b \<Longrightarrow> b \<notin> set zs"
    "blocks_split A (owned s) (in_flight (pcs s)) (all_listed X) (set ys) (set_option (hand s) \<union> set zs)" "one_thread_per_block (pcs s)"
    "\<And>b. b \<in> A \<Longrightarrow> b AND 3 = 0 \<and> b \<noteq> 0" "\<And>t b pc. pcs s t = Some (b, pc) \<Longrightarrow> pc_ok (fmem s) b pc"
    "own_ok (detached s) (hand s) (fmem s) (own s)" "windows_ok (page_of s) (pcs s) d"
  shows "tf_inv A s p d X ys zs"
  using assms unfolding tf_inv_def by blast

lemma word_ok_other: "a \<notin> set xs \<Longrightarrow> word_ok P (m(a := v)) g w p d xs = word_ok P m g w p d xs"
  by (simp add: word_ok_def)

lemma windows_same: "freeing P f' = freeing P f \<Longrightarrow> windows_ok P f' d = windows_ok P f d"
  by (simp add: windows_ok_def)

lemma windows_enter:
  assumes w: "windows_ok P f d" and d: "d (P b) \<noteq> Freeing" and t: "f t = Some (b, pc)" "\<not> heap_phase pc"
  shows "windows_ok P (f(t \<mapsto> (b, HpTop))) (d(P b := Freeing))"
proof -
  have no: "\<not> freeing P f (P b) t'" for t' using w d unfolding windows_ok_def by blast
  have fr: "freeing P (f(t \<mapsto> (b, HpTop))) h t' \<longleftrightarrow> h = P b \<and> t' = t \<or> h \<noteq> P b \<and> freeing P f h t'" for h t'
    using no t by (simp add: freeing_upd) (auto simp: freeing_def)
  show ?thesis unfolding windows_ok_def fr
  proof (intro conjI allI impI)
    show "u = u'" if "(g = P b \<and> u = t \<or> g \<noteq> P b \<and> freeing P f g u) \<and> (g = P b \<and> u' = t \<or> g \<noteq> P b \<and> freeing P f g u')" for g u u'
      using that w unfolding windows_ok_def by blast
    show "(d(P b := Freeing)) g = Freeing \<longleftrightarrow> (\<exists>u. g = P b \<and> u = t \<or> g \<noteq> P b \<and> freeing P f g u)" for g
      using w unfolding windows_ok_def by (cases "g = P b") simp_all
  qed
qed

lemma windows_leave:
  assumes w: "windows_ok P f d" and t: "f t = Some (b, pc)" "heap_phase pc" and e: "e \<noteq> Freeing"
  shows "windows_ok P (f(t := None)) (d(P b := e))"
proof -
  have f: "freeing P f (P b) t" using t by (auto simp: freeing_def)
  have one: "t' = t" if "freeing P f (P b) t'" for t' using w f that unfolding windows_ok_def by blast
  have fr: "freeing P (f(t := None)) h t' \<longleftrightarrow> h \<noteq> P b \<and> freeing P f h t'" for h t'
    using one [of t'] t by (auto simp: freeing_upd) (auto simp: freeing_def)
  show ?thesis unfolding windows_ok_def fr
  proof (intro conjI allI impI)
    show "u = u'" if "(g \<noteq> P b \<and> freeing P f g u) \<and> g \<noteq> P b \<and> freeing P f g u'" for g u u'
      using that w unfolding windows_ok_def by blast
    show "(d(P b := e)) g = Freeing \<longleftrightarrow> (\<exists>u. g \<noteq> P b \<and> freeing P f g u)" for g
      using w e unfolding windows_ok_def by (cases "g = P b") simp_all
  qed
qed

lemma tf_inv_flying:
  assumes "tf_inv A s p d X ys zs" "b \<in> in_flight (pcs s) \<union> owned s"
  shows "b \<in> A" "b AND 3 = 0" "b \<noteq> 0" "b \<notin> all_listed X" "b \<notin> set ys" "b \<notin> set zs" "hand s \<noteq> Some b"
proof -
  show "b \<in> A" "b \<notin> all_listed X" "b \<notin> set ys" "b \<notin> set zs" "hand s \<noteq> Some b"
    using assms(2) tf_invD(5) [OF assms(1)] unfolding blocks_split_def by (blast, blast, blast, blast, auto)
  then show "b AND 3 = 0" "b \<noteq> 0" using tf_invD(14) [OF assms(1)] by blast+
qed

lemma tf_inv_hand:
  assumes "tf_inv A s p d X ys zs" "hand s = Some b"
  shows "b \<in> A" "b AND 3 = 0" "b \<noteq> 0" "b \<notin> all_listed X" "b \<notin> set ys" "b \<notin> set zs" "b \<notin> owned s" "b \<notin> in_flight (pcs s)"
proof -
  show "b \<in> A" "b \<notin> all_listed X" "b \<notin> set ys" "b \<notin> set zs" "b \<notin> owned s" "b \<notin> in_flight (pcs s)"
    using assms(2) tf_invD(5,13) [OF assms(1)] unfolding blocks_split_def by auto
  then show "b AND 3 = 0" "b \<noteq> 0" using tf_invD(14) [OF assms(1)] by blast+
qed

lemma tf_inv_read: "tf_inv A s p d X ys zs \<Longrightarrow> q AND 3 = 0 \<Longrightarrow> xtf s g = encode q e \<Longrightarrow> q = p g \<and> e = d g"
  using encode_inject [of "p g" q "d g" e] tf_invD(1,2) [of A s p d X ys zs g] by simp


subsection \<open>Steps that keep every block where it is\<close>

text \<open>A thread moves on in the same phase.\<close>

lemma inv_set_pc:
  assumes inv: "tf_inv A s p d X ys zs" and t: "pcs s t = Some (b, pc)" "pc \<noteq> MtLeave" "pc' \<noteq> MtLeave"
    and ph: "heap_phase pc' = heap_phase pc" and ok: "pc_ok (fmem s) b pc'"
  shows "tf_inv A (s\<lparr>pcs := (pcs s)(t \<mapsto> (b, pc'))\<rparr>) p d X ys zs"
proof -
  let ?f = "(pcs s)(t \<mapsto> (b, pc'))"
  have "windows_ok (page_of s) ?f d = windows_ok (page_of s) (pcs s) d" by (rule windows_same [OF freeing_same(1) [of "pcs s", OF t(1) ph]])
  moreover have "in_flight ?f = in_flight (pcs s)" using t by (rule in_flight_move)
  moreover have "one_thread_per_block ?f"
    using t tf_invD(6) [OF inv] by (intro one_thread_move) auto
  ultimately show ?thesis using inv ok by (simp add: tf_inv_def)
qed

text \<open>A word is written in a block that is on no list, by the one that holds it.\<close>

lemma inv_write:
  assumes inv: "tf_inv A s p d X ys zs" and b: "b \<in> in_flight (pcs s) \<union> owned s"
    and ok: "\<And>t pc. pcs s t = Some (b, pc) \<Longrightarrow> pc_ok ((fmem s)(b := v)) b pc"
  shows "tf_inv A (s\<lparr>fmem := (fmem s)(b := v)\<rparr>) p d X ys zs"
proof -
  note F = tf_inv_flying [OF inv b]
  have "pc_ok ((fmem s)(b := v)) b' pc" if "pcs s t = Some (b', pc)" for t b' pc
    using ok tf_invD(7) [OF inv] that by (cases "b' = b") (auto simp: pc_ok_other)
  moreover have "b \<notin> set (X g)" for g using F(4) in_all_listed [of b X g] by blast
  ultimately show ?thesis using inv F(5,6) own_ok_other [OF F(7), of "detached s" "fmem s" v "own s"] by (simp add: tf_inv_def word_ok_other)
qed

lemma inv_own:
  "tf_inv A s p d X ys zs \<Longrightarrow> own_ok (detached s) (hand s) (fmem s) c \<Longrightarrow> tf_inv A (s\<lparr>own := c\<rparr>) p d X ys zs"
  by (simp add: tf_inv_def)

text \<open>The word of one page changes, with its delay state and its list.\<close>

lemma inv_word:
  assumes inv: "tf_inv A s p d X ys zs" and q: "q AND 3 = 0" "ll (fmem s) q xs" "\<forall>b\<in>set xs. page_of s b = g"
    and w: "windows_ok (page_of s) f (d(g := e))"
    and one: "one_thread_per_block f" and pc: "\<And>t b pc. f t = Some (b, pc) \<Longrightarrow> pc_ok (fmem s) b pc"
    and sp: "blocks_split A O' (in_flight f) (all_listed (X(g := xs))) (set ys) (set_option (hand s) \<union> set zs)"
  shows "tf_inv A (s\<lparr>xtf := (xtf s)(g := encode q e), owned := O', pcs := f\<rparr>) (p(g := q)) (d(g := e)) (X(g := xs)) ys zs"
proof -
  note D = tf_invD [OF inv]
  have W: "word_ok (page_of s) (fmem s) h (((xtf s)(g := encode q e)) h) ((p(g := q)) h) ((d(g := e)) h) ((X(g := xs)) h)" for h
  proof (cases "h = g")
    case True
    then show ?thesis using q by (simp add: word_ok_def)
  next
    case False
    have "word_ok (page_of s) (fmem s) h (xtf s h) (p h) (d h) (X h)" using inv unfolding tf_inv_def by blast
    then show ?thesis using False by simp
  qed
  let ?s = "s\<lparr>xtf := (xtf s)(g := encode q e), owned := O', pcs := f\<rparr>"
  have S: "page_of ?s = page_of s" "fmem ?s = fmem s" "xtf ?s = (xtf s)(g := encode q e)" "delayed ?s = delayed s" "detached ?s = detached s"
    "hand ?s = hand s" "owned ?s = O'" "pcs ?s = f" "own ?s = own s" by simp_all
  show ?thesis
    by (rule tf_invI, unfold S) (rule W, rule D(4), rule D(11), erule D(13), rule sp, rule one, erule D(14), erule pc, rule D(8), rule w)
qed


subsection \<open>Steps that move blocks\<close>

lemma inv_begin_free:
  assumes inv: "tf_inv A s p d X ys zs" and b: "b \<in> owned s" and t: "pcs s t = None"
  shows "tf_inv A (s\<lparr>owned := owned s - {b}, pcs := (pcs s)(t \<mapsto> (b, MtTop))\<rparr>) p d X ys zs"
proof -
  let ?f = "(pcs s)(t \<mapsto> (b, MtTop))"
  have "windows_ok (page_of s) ?f d = windows_ok (page_of s) (pcs s) d" by (rule windows_same [OF freeing_same(3) [of "pcs s", OF t]]) simp
  moreover have "in_flight ?f = insert b (in_flight (pcs s))" using t by (simp add: in_flight_add)
  moreover have "blocks_split A (owned s - {b}) (insert b (in_flight (pcs s))) (all_listed X) (set ys) (set_option (hand s) \<union> set zs)"
    using tf_invD(5) [OF inv] b unfolding blocks_split_def by auto
  moreover have "b \<notin> in_flight (pcs s)" using tf_invD(5) [OF inv] b unfolding blocks_split_def by auto
  then have "one_thread_per_block ?f" using tf_invD(6) [OF inv] by (intro one_thread_move) auto
  ultimately show ?thesis using inv by (simp add: tf_inv_def)
qed

lemma inv_prepare:
  assumes inv: "tf_inv A s p d X ys zs" and t: "pcs s t = Some (b, MtLoaded msk)"
  shows "tf_inv A (mt_prepare s t b msk) p d X ys zs"
proof -
  obtain q e where q: "q AND 3 = 0" "msk = encode q e"
    using tf_invD(7) [OF inv t] by (auto simp: pc_ok_def)
  have only: "pc = MtLoaded msk \<or> pc = MtLeave" if "pcs s t' = Some (b, pc)" for t' pc
    using t that one_threadD [OF tf_invD(6) [OF inv] t _ that] by fastforce
  show ?thesis
  proof (cases "e = UseDelayedFree")
    case True
    then have "mt_prepare s t b msk = s\<lparr>pcs := (pcs s)(t \<mapsto> (b, MtCas msk (encode q Freeing) True))\<rparr>"
      using q by (simp add: mt_prepare_def masked_ptr_ops)
    moreover have "pc_ok (fmem s) b (MtCas msk (encode q Freeing) True)"
      using q True by (auto simp: pc_ok_def)
    ultimately show ?thesis using inv_set_pc [OF inv t] by simp
  next
    case False
    let ?s = "s\<lparr>fmem := (fmem s)(b \<mapsto> q)\<rparr>"
    have "pc_ok ((fmem s)(b \<mapsto> q)) b pc" if "pcs s t' = Some (b, pc)" for t' pc
      using only [OF that] q unfolding pc_ok_def by (elim disjE) (simp, blast, simp)
    then have "tf_inv A ?s p d X ys zs" using held_in_flight [of "pcs s", OF t] by (intro inv_write [OF inv]) auto
    then have "tf_inv A (?s\<lparr>pcs := (pcs ?s)(t \<mapsto> (b, MtCas msk (encode b e) False))\<rparr>) p d X ys zs"
      using q False t by (rule_tac inv_set_pc) (auto simp: pc_ok_def)
    then show ?thesis using q False by (simp add: mt_prepare_def masked_ptr_ops block_write_ptr_def)
  qed
qed

lemma inv_cas_push:
  assumes inv: "tf_inv A s p d X ys zs" and t: "pcs s t = Some (b, MtCas (xtf s (page_of s b)) msk1 False)"
  shows "\<exists>p d X. tf_inv A (mt_cas_ok s t b msk1 False) p d X ys zs"
proof -
  let ?g = "page_of s b" and ?f = "(pcs s)(t := None)"
  obtain q e where q: "q AND 3 = 0" "xtf s ?g = encode q e" "msk1 = encode b e" "fmem s b = Some q"
    using tf_invD(7) [OF inv t] by (auto simp: pc_ok_def)
  then have eq: "q = p ?g" "e = d ?g" using tf_inv_read [OF inv q(1,2)] by auto
  have "b \<in> in_flight (pcs s)" using t by (rule held_in_flight) simp
  then have b: "b AND 3 = 0" "b \<noteq> 0" "b \<notin> all_listed X" "b \<notin> set ys" "b \<notin> set zs" "hand s \<noteq> Some b" "b \<in> in_flight (pcs s)"
    using tf_inv_flying [OF inv, of b] by auto
  have "windows_ok (page_of s) ?f d = windows_ok (page_of s) (pcs s) d" by (rule windows_same, rule freeing_same(2) [of "pcs s" t b "MtCas (xtf s (page_of s b)) msk1 False"]) (use t in auto)
  then have "windows_ok (page_of s) ?f (d(?g := d ?g))" using tf_invD(9) [OF inv] by simp
  moreover have "in_flight ?f = in_flight (pcs s) - {b}"
    using tf_invD(6) [OF inv] t by (rule in_flight_remove) auto
  moreover have "blocks_split A (owned s) (in_flight (pcs s) - {b}) (insert b (all_listed X)) (set ys) (set_option (hand s) \<union> set zs)"
    using tf_invD(5) [OF inv] b unfolding blocks_split_def by auto
  moreover have "one_thread_per_block ?f" using tf_invD(6) [OF inv] by (rule one_thread_remove)
  moreover have "ll (fmem s) b (b # X ?g)" using tf_invD(3) [OF inv, of ?g] q(4) eq b(2) by simp
  moreover have "\<forall>c\<in>set (b # X ?g). page_of s c = ?g" using tf_invD(12) [OF inv, of _ ?g] by auto
  ultimately have "tf_inv A (s\<lparr>xtf := (xtf s)(?g := encode b (d ?g)), owned := owned s, pcs := ?f\<rparr>) (p(?g := b)) (d(?g := d ?g)) (X(?g := b # X ?g)) ys zs"
    by (intro inv_word [OF inv b(1)]) (use tf_invD(7) [OF inv] in \<open>auto simp only: all_listed_push fun_upd_apply split: if_splits\<close>)
  then show ?thesis using q(3) eq by (auto simp: mt_cas_ok_def)
qed

lemma inv_cas_freeing:
  assumes inv: "tf_inv A s p d X ys zs" and t: "pcs s t = Some (b, MtCas (xtf s (page_of s b)) msk1 True)"
  shows "\<exists>p d X. tf_inv A (mt_cas_ok s t b msk1 True) p d X ys zs"
proof -
  let ?g = "page_of s b" and ?f = "(pcs s)(t \<mapsto> (b, HpTop))"
  obtain q where q: "q AND 3 = 0" "xtf s ?g = encode q UseDelayedFree" "msk1 = encode q Freeing"
    using tf_invD(7) [OF inv t] by (auto simp: pc_ok_def)
  then have eq: "q = p ?g" "d ?g = UseDelayedFree" using tf_inv_read [OF inv q(1,2)] by auto
  have "windows_ok (page_of s) ?f (d(?g := Freeing))" by (rule windows_enter [OF tf_invD(9) [OF inv] _ t]) (simp_all add: eq)
  moreover have "in_flight ?f = in_flight (pcs s)" using t by (rule in_flight_move) auto
  moreover have "one_thread_per_block ?f" using t tf_invD(6) [OF inv] by (intro one_thread_move) auto
  ultimately have "tf_inv A (s\<lparr>xtf := (xtf s)(?g := encode q Freeing), owned := owned s, pcs := ?f\<rparr>) (p(?g := q)) (d(?g := Freeing)) (X(?g := X ?g)) ys zs"
    using q(1) tf_invD(12) [OF inv, of _ ?g] tf_invD(3) [OF inv, of ?g] tf_invD(5,7) [OF inv] eq
    by (intro inv_word [OF inv]) (simp_all split: if_splits)
  then show ?thesis using q(3) by (auto simp: mt_cas_ok_def)
qed

lemma inv_heap_write:
  assumes inv: "tf_inv A s p d X ys zs" and t: "pcs s t = Some (b, HpLoaded nxt)"
  shows "tf_inv A (hp_write s t b nxt) p d X ys zs"
proof -
  let ?s = "s\<lparr>fmem := (fmem s)(b \<mapsto> nxt)\<rparr>"
  have "pc_ok ((fmem s)(b \<mapsto> nxt)) b pc" if "pcs s t' = Some (b, pc)" for t' pc
    using t that one_threadD [OF tf_invD(6) [OF inv] t _ that] by (cases "pc = MtLeave") auto
  then have "tf_inv A ?s p d X ys zs" using held_in_flight [of "pcs s", OF t] by (intro inv_write [OF inv]) auto
  then have "tf_inv A (?s\<lparr>pcs := (pcs ?s)(t \<mapsto> (b, HpCas nxt))\<rparr>) p d X ys zs"
    using t by (rule_tac inv_set_pc) auto
  then show ?thesis by (simp add: hp_write_def block_write_ptr_def)
qed

lemma inv_heap_push:
  assumes inv: "tf_inv A s p d X ys zs" and t: "pcs s t = Some (b, HpCas (delayed s))"
  shows "tf_inv A (hp_cas_ok s t b) p d X (b # ys) zs"
proof -
  let ?f = "(pcs s)(t \<mapsto> (b, MtLeave))"
  have m: "fmem s b = Some (delayed s)" using tf_invD(7) [OF inv t] by simp
  have "b \<in> in_flight (pcs s)" using t by (rule held_in_flight) simp
  then have b: "b \<noteq> 0" "b \<notin> all_listed X" "b \<notin> set ys" "b \<notin> set zs" "hand s \<noteq> Some b" "b \<in> in_flight (pcs s)"
    using tf_inv_flying [OF inv, of b] by auto
  have "windows_ok (page_of s) ?f d = windows_ok (page_of s) (pcs s) d" by (rule windows_same [OF freeing_same(1) [of "pcs s", OF t]]) simp
  moreover have "in_flight ?f = in_flight (pcs s) - {b}"
    using tf_invD(6) [OF inv] t by (rule in_flight_remove) auto
  moreover have "blocks_split A (owned s) (in_flight (pcs s) - {b}) (all_listed X) (set (b # ys)) (set_option (hand s) \<union> set zs)"
    using tf_invD(5) [OF inv] b unfolding blocks_split_def by auto
  moreover have "one_thread_per_block ?f" using tf_invD(6) [OF inv] by (intro one_thread_move) auto
  ultimately show ?thesis using inv m b by (simp add: tf_inv_def hp_cas_ok_def)
qed

lemma inv_leave:
  assumes inv: "tf_inv A s p d X ys zs" and t: "pcs s t = Some (b, MtLeave)"
  shows "\<exists>d. tf_inv A (mt_leave s t b) p d X ys zs"
proof -
  let ?g = "page_of s b" and ?f = "(pcs s)(t := None)"
  have f: "freeing (page_of s) (pcs s) ?g t" using t by (auto simp: freeing_def)
  then have d: "d ?g = Freeing" using tf_invD(10) [OF inv, of ?g] by auto
  have "windows_ok (page_of s) ?f (d(?g := NoDelayedFree))" by (rule windows_leave [OF tf_invD(9) [OF inv] t]) simp_all
  moreover have "in_flight ?f = in_flight (pcs s)" using t by (rule in_flight_leave)
  moreover have "one_thread_per_block ?f" using tf_invD(6) [OF inv] by (rule one_thread_remove)
  ultimately have "tf_inv A (s\<lparr>xtf := (xtf s)(?g := encode (p ?g) NoDelayedFree), owned := owned s, pcs := ?f\<rparr>) (p(?g := p ?g)) (d(?g := NoDelayedFree)) (X(?g := X ?g)) ys zs"
    using tf_invD(2,3) [OF inv, of ?g] tf_invD(12) [OF inv, of _ ?g] tf_invD(5,7) [OF inv]
    by (intro inv_word [OF inv]) (simp_all split: if_splits)
  moreover have "leave_freeing (xtf s ?g) = encode (p ?g) NoDelayedFree" using tf_invD(1,2) [OF inv, of ?g] d by (simp add: masked_ptr_ops)
  ultimately show ?thesis by (auto simp: mt_leave_def)
qed

lemma inv_take:
  assumes inv: "tf_inv A s p d X ys zs"
  shows "\<exists>p X. tf_inv A (thread_free_take g s) p d X ys zs"
proof -
  have "xtf s g AND NOT 3 = p g" "xtf s g AND 3 = encode 0 (d g)" "nodes (fmem s) (p g) = X g"
    using tf_invD(1,2,3) [OF inv, of g] by (simp_all add: encode_parts nodes_ll) (simp add: encode_def)
  then have e: "thread_free_take g s = s\<lparr>xtf := (xtf s)(g := encode 0 (d g)), owned := owned s \<union> set (X g), pcs := pcs s\<rparr>"
    by (simp add: thread_free_take_def)
  have "(\<Union>h\<in>- {g}. set (X h)) \<inter> set (X g) = {}" using tf_invD(12) [OF inv] by blast
  then have "blocks_split A (owned s \<union> set (X g)) (in_flight (pcs s)) (all_listed (X(g := []))) (set ys) (set_option (hand s) \<union> set zs)"
    using tf_invD(5) [OF inv] unfolding blocks_split_def all_listed_upd(1) all_listed_upd(2) [of X g] by auto
  then have "tf_inv A (thread_free_take g s) (p(g := 0)) (d(g := d g)) (X(g := [])) ys zs"
    using tf_invD(6,7,9) [OF inv] unfolding e by (intro inv_word [OF inv]) simp_all
  then show ?thesis by auto
qed

lemma inv_delayed_swap:
  assumes inv: "tf_inv A s p d X ys zs" and o: "own s = OSwap"
  shows "tf_inv A (simple_take_swap s) p d X [] ys"
proof -
  have h: "hand s = None" "detached s = 0" using tf_invD(8) [OF inv] o by simp_all
  then have z: "zs = []" using tf_invD(11) [OF inv] by simp
  moreover have "blocks_split A (owned s) (in_flight (pcs s)) (all_listed X) {} (set ys)"
    using tf_invD(5) [OF inv] z h(1) unfolding blocks_split_def by auto
  ultimately show ?thesis using inv h by (simp add: tf_inv_def simple_take_swap_def)
qed

text \<open>A block goes from the detached list to the owner's hand, and from there on.\<close>

lemma inv_round:
  assumes inv: "tf_inv A s p d X ys zs" and o: "own s = OLoop"
  shows "\<exists>zs. tf_inv A (delayed_round s) p d X ys zs"
proof (cases zs)
  case Nil
  have h: "hand s = None" using tf_invD(8) [OF inv] o by simp
  have "detached s = 0" using tf_invD(11) [OF inv] Nil by simp
  then show ?thesis using inv_own [OF inv, of OIdle] h by (auto simp: delayed_round_def LL_is_empty_def)
next
  case (Cons b zs')
  have h: "hand s = None" using tf_invD(8) [OF inv] o by simp
  obtain r where r: "fmem s b = Some r" "ll (fmem s) r zs'" "detached s = b" "b \<noteq> 0"
    using tf_invD(11) [OF inv] Cons by (auto split: option.splits)
  have e: "delayed_round s = s\<lparr>hand := Some b, detached := r, own := OTry 0\<rparr>"
    using r by (simp add: delayed_round_def LL_is_empty_def pop_block_def)
  have "b \<notin> set zs'" using ll_distinct [OF tf_invD(11) [OF inv]] Cons by simp
  then have "tf_inv A (s\<lparr>hand := Some b, detached := r, own := OTry 0\<rparr>) p d X ys zs'"
    using inv r(2) h Cons by (auto simp: tf_inv_def)
  then show ?thesis unfolding e by blast
qed

lemma inv_try_load:
  assumes inv: "tf_inv A s p d X ys zs" and h: "hand s = Some b"
  shows "tf_inv A (try_load s b yc) p d X ys zs"
proof -
  let ?g = "page_of s b"
  note x = tf_invD(1,2) [OF inv, of ?g]
  have "own_ok (detached s) (hand s) (fmem s) (OTryCas (encode (p ?g) (d ?g)) (encode (p ?g) UseDelayedFree) yc)" if "to_int (d ?g) \<noteq> 1"
  proof -
    have "d ?g \<noteq> Freeing" using that by (auto simp: to_int_def)
    with x(2) h show ?thesis unfolding own_ok_def by auto
  qed
  then show ?thesis
    using inv x h by (auto simp: try_load_def Let_def masked_ptr_ops intro!: inv_own)
qed

lemma inv_try_cas:
  assumes inv: "tf_inv A s p d X ys zs" and o: "own s = OTryCas (xtf s (page_of s b)) tfreex yc" and h: "hand s = Some b"
  shows "\<exists>d. tf_inv A (try_cas_ok s b tfreex) p d X ys zs"
proof -
  let ?g = "page_of s b"
  obtain q e where q: "q AND 3 = 0" "xtf s ?g = encode q e" "e \<noteq> Freeing" "tfreex = encode q UseDelayedFree"
    using tf_invD(8) [OF inv] o unfolding own_ok_def by auto
  then have eq: "q = p ?g" "e = d ?g" using tf_inv_read [OF inv q(1,2)] by auto
  have "windows_ok (page_of s) (pcs s) (d(?g := UseDelayedFree))"
    using tf_invD(9) [OF inv] q(3) eq(2) unfolding windows_ok_def by auto
  then have "tf_inv A (s\<lparr>xtf := (xtf s)(?g := encode q UseDelayedFree), owned := owned s, pcs := pcs s\<rparr>) (p(?g := q)) (d(?g := UseDelayedFree)) (X(?g := X ?g)) ys zs"
    using q tf_invD(3) [OF inv, of ?g] tf_invD(12) [OF inv, of _ ?g] tf_invD(5,6,7) [OF inv] eq
    by (intro inv_word [OF inv]) simp_all
  then have "tf_inv A (s\<lparr>xtf := (xtf s)(?g := encode q UseDelayedFree)\<rparr>) p (d(?g := UseDelayedFree)) X ys zs" using eq by simp
  from inv_own [OF this, of OCollect] show ?thesis using q(4) h by (auto simp: try_cas_ok_def)
qed

lemma inv_collect:
  assumes inv: "tf_inv A s p d X ys zs" and h: "hand s = Some b"
  shows "\<exists>p X. tf_inv A (delayed_collect s b) p d X ys zs"
proof -
  obtain p' X' where "tf_inv A (thread_free_take (page_of s b) s) p' d X' ys zs" using inv_take [OF inv] by blast
  then have "tf_inv A (delayed_collect s b) p' d X' ys zs"
    unfolding delayed_collect_def by (rule inv_own) (simp add: h thread_free_take_def)
  then show ?thesis by blast
qed

lemma inv_free:
  assumes inv: "tf_inv A s p d X ys zs" and h: "hand s = Some b"
  shows "tf_inv A (delayed_free s b) p d X ys zs"
proof -
  have "blocks_split A (insert b (owned s)) (in_flight (pcs s)) (all_listed X) (set ys) (set zs)"
    using tf_invD(5) [OF inv] tf_inv_hand [OF inv h] h unfolding blocks_split_def by auto
  then show ?thesis using inv by (simp add: tf_inv_def delayed_free_def)
qed

lemma inv_ins_write:
  assumes inv: "tf_inv A s p d X ys zs" and h: "hand s = Some b"
  shows "tf_inv A (ins_write s b nxt) p d X ys zs"
proof -
  note H = tf_inv_hand [OF inv h]
  have "pc_ok ((fmem s)(b \<mapsto> nxt)) b' pc" if a: "pcs s t = Some (b', pc)" for t b' pc
  proof (cases "b' = b")
    case True
    then have "pc = MtLeave" using H(8) a held_in_flight [of "pcs s" t b pc] by blast
    then show ?thesis by simp
  next
    case False
    then show ?thesis using tf_invD(7) [OF inv a] by (simp add: pc_ok_other)
  qed
  moreover have "b \<notin> set (X g)" for g using H(4) in_all_listed [of b X g] by blast
  ultimately show ?thesis using inv H(5,6) h by (simp add: tf_inv_def ins_write_def block_write_ptr_def word_ok_other)
qed

lemma inv_ins_push:
  assumes inv: "tf_inv A s p d X ys zs" and o: "own s = OInsCas (delayed s)" and h: "hand s = Some b"
  shows "tf_inv A (ins_cas_ok s b) p d X (b # ys) zs"
proof -
  note H = tf_inv_hand [OF inv h]
  have m: "fmem s b = Some (delayed s)" using tf_invD(8) [OF inv] o h by simp
  have "blocks_split A (owned s) (in_flight (pcs s)) (all_listed X) (set (b # ys)) (set zs)"
    using tf_invD(5) [OF inv] H h unfolding blocks_split_def by auto
  then show ?thesis using inv m H(3) by (simp add: tf_inv_def ins_cas_ok_def)
qed


section \<open>Every reachable state\<close>

lemma tf_init_inv: "\<forall>b\<in>A. b AND 3 = 0 \<and> b \<noteq> 0 \<Longrightarrow> tf_inv A (tf_init P A m) (\<lambda>_. 0) (\<lambda>_. UseDelayedFree) (\<lambda>_. []) [] []"
  by (simp add: tf_inv_def tf_init_def blocks_split_def in_flight_def freeing_def one_thread_per_block_def
      encode_def to_int_def all_listed_def windows_ok_def word_ok_def)

lemma tf_step_inv:
  assumes "tf_step s s'" "tf_inv A s p d X ys zs"
  shows "\<exists>p d X ys zs. tf_inv A s' p d X ys zs"
  using assms(1)
proof cases
  case (cas_ok t b msk msk1 ud)
  then have t: "pcs s t = Some (b, MtCas (xtf s (page_of s b)) msk1 ud)" by simp
  have "\<exists>p d X. tf_inv A (mt_cas_ok s t b msk1 ud) p d X ys zs"
    using inv_cas_push [OF assms(2), of t b msk1] inv_cas_freeing [OF assms(2), of t b msk1] t by (cases ud) simp_all
  then show ?thesis unfolding cas_ok(1) by blast
next
  case (own_write b v)
  have "pc_ok ((fmem s)(b := v)) b pc" if "pcs s t = Some (b, pc)" for t pc
    using own_write held_in_flight [of "pcs s", OF that] tf_invD(5) [OF assms(2)]
    by (cases "pc = MtLeave") (auto simp: blocks_split_def)
  then show ?thesis using own_write inv_write [OF assms(2), of b v] by blast
next
  case (load t b)
  have "pc_ok (fmem s) b (MtLoaded (xtf s (page_of s b)))"
    using tf_invD(1,2) [OF assms(2), of "page_of s b"] by (auto simp: pc_ok_def)
  then have "tf_inv A s' p d X ys zs" using load inv_set_pc [OF assms(2) load(2), of "MtLoaded (xtf s (page_of s b))"] by (simp add: mt_load_def)
  then show ?thesis by blast
next
  case (cas_fail t b msk msk1 ud)
  then show ?thesis using inv_set_pc [OF assms(2), of t b "MtCas msk msk1 ud" MtTop] by (simp add: mt_retry_def) blast
next
  case (heap_load t b)
  then show ?thesis using inv_set_pc [OF assms(2), of t b HpTop "HpLoaded (delayed s)"] by (simp add: hp_load_def) blast
next
  case (heap_cas_fail t b nxt)
  then show ?thesis using inv_set_pc [OF assms(2), of t b "HpCas nxt" HpTop] by (simp add: hp_retry_def) blast
next
  case own_delayed_load
  then show ?thesis using assms(2) inv_own [OF assms(2), of OSwap] tf_invD(8) [OF assms(2)] by (cases "delayed s = 0") (simp_all add: simple_take_load_def, blast+)
next
  case begin_free
  then show ?thesis using inv_begin_free [OF assms(2)] by blast
next
  case prepare
  then show ?thesis using inv_prepare [OF assms(2)] by blast
next
  case heap_write
  then show ?thesis using inv_heap_write [OF assms(2)] by blast
next
  case heap_cas_ok
  then show ?thesis using inv_heap_push [OF assms(2)] by blast
next
  case leave
  then show ?thesis using inv_leave [OF assms(2)] by blast
next
  case own_take
  then show ?thesis using inv_take [OF assms(2)] by blast
next
  case own_delayed_swap
  then show ?thesis using inv_delayed_swap [OF assms(2)] by blast
next
  case own_round
  then show ?thesis using inv_round [OF assms(2)] by blast
next
  case own_try_load
  then show ?thesis using inv_try_load [OF assms(2)] by blast
next
  case own_try_cas_ok
  then show ?thesis using inv_try_cas [OF assms(2)] by blast
next
  case (own_try_cas_fail tfree tfreex yc)
  then show ?thesis using inv_own [OF assms(2), of "OTry yc"] tf_invD(8) [OF assms(2)] by (simp add: own_ok_def) blast
next
  case own_collect
  then show ?thesis using inv_collect [OF assms(2)] by blast
next
  case own_free
  then show ?thesis using inv_free [OF assms(2)] by blast
next
  case own_ins_load
  then show ?thesis using inv_own [OF assms(2), of "OInsLoaded (delayed s)"] tf_invD(8) [OF assms(2)] by (simp add: ins_load_def) blast
next
  case own_ins_write
  then show ?thesis using inv_ins_write [OF assms(2)] by blast
next
  case own_ins_cas_ok
  then show ?thesis using inv_ins_push [OF assms(2)] by blast
next
  case (own_ins_cas_fail nxt)
  then show ?thesis using inv_own [OF assms(2), of OIns] tf_invD(8) [OF assms(2)] by (simp add: own_ok_def) blast
qed

lemma tf_reach_inv:
  assumes "tf_reach A s" "\<forall>b\<in>A. b AND 3 = 0 \<and> b \<noteq> 0"
  shows "\<exists>p d X ys zs. tf_inv A s p d X ys zs"
  using assms by (induction rule: tf_reach.induct) (blast intro: tf_init_inv dest: tf_step_inv)+


section \<open>A thread that runs alone\<close>

lemma mt_next_step: "pcs s t \<noteq> None \<Longrightarrow> tf_step s (mt_next t f s)"
  by (auto simp: mt_next_def intro: tf_step.intros split: mt_pc.splits)

lemma mt_next_reach: "tf_reach A s \<Longrightarrow> tf_reach A (mt_next t f s)"
  using mt_next_step [of s t f] by (cases "pcs s t") (auto simp: mt_next_def intro: tf_reach.step)

lemma mt_run_simps [simp]: "mt_run t [] s = s" "mt_run t (f # fs) s = mt_run t fs (mt_next t f s)"
  by (simp_all add: mt_run_def)

lemma mt_run_done: "pcs s t = None \<Longrightarrow> mt_run t fs s = s"
  by (induction fs) (simp_all add: mt_next_def)

lemma mt_run_reach: "tf_reach A s \<Longrightarrow> tf_reach A (mt_run t fs s)"
  by (induction fs arbitrary: s) (simp_all add: mt_next_reach)

text \<open>How many steps a thread still needs at most, when no exchange fails spuriously; one that does adds three.\<close>

fun steps_left :: "tfsys \<Rightarrow> nat \<Rightarrow> nat" where
  "steps_left s t = (case pcs s t of None \<Rightarrow> 0 | Some (b, pc) \<Rightarrow> (case pc of
     MtTop \<Rightarrow> 7
   | MtLoaded msk \<Rightarrow> if msk = xtf s (page_of s b) then 6 else 9
   | MtCas msk msk1 ud \<Rightarrow> if msk = xtf s (page_of s b) then 5 else 8
   | HpTop \<Rightarrow> 4
   | HpLoaded nxt \<Rightarrow> if nxt = delayed s then 3 else 6
   | HpCas nxt \<Rightarrow> if nxt = delayed s then 2 else 5
   | MtLeave \<Rightarrow> 1))"

lemma mt_next_decreases: "pcs s t \<noteq> None \<Longrightarrow> steps_left (mt_next t f s) t < steps_left s t + (if f then 3 else 0)"
  by (auto simp: mt_next_def mt_load_def mt_prepare_def mt_cas_ok_def mt_retry_def hp_load_def
      hp_write_def hp_cas_ok_def hp_retry_def mt_leave_def Let_def split: mt_pc.splits)

lemma steps_left_0: "steps_left s t = 0 \<longleftrightarrow> pcs s t = None"
  by (auto split: option.splits mt_pc.splits)

lemma mt_run_finishes: "steps_left s t + 3 * count_list fs True \<le> length fs \<Longrightarrow> pcs (mt_run t fs s) t = None"
proof (induction fs arbitrary: s)
  case Nil
  then show ?case using steps_left_0 [of s t] by simp
next
  case (Cons f fs)
  show ?case
  proof (cases "pcs s t")
    case None
    then show ?thesis using mt_run_done [OF None, of "f # fs"] by simp
  next
    case (Some a)
    then have "steps_left (mt_next t f s) t + 3 * count_list fs True \<le> length fs"
      using mt_next_decreases [of s t f] Cons.prems by (cases f) simp_all
    then show ?thesis using Cons.IH by simp
  qed
qed

lemma steps_left_bound: "steps_left s t \<le> 9"
  by (auto split: option.splits mt_pc.splits)

section \<open>An example\<close>

text \<open>
  Blocks 16 and 32 are of two pages. Threads 0 and 1 have both taken the delay state of their page
  to \<^const>\<open>Freeing\<close>. Thread 0 has put its block on the delayed list and is about to leave, thread 1 is about to
  put its block there; the owner has taken block 16 from the list and, after five looks at the word of its page, puts it back.
\<close>

definition tf_pages :: "usize \<Rightarrow> usize" where
  "tf_pages b = (if b = 16 then 4096 else 8192)"

definition tf_example :: "own_pc \<Rightarrow> usize option \<Rightarrow> usize \<Rightarrow> tfsys" where
  "tf_example pc ptr delays = \<lparr>page_of = tf_pages, xtf = (\<lambda>_. 0)(4096 := 1, 8192 := 1), delayed = delays, fmem = [16 \<mapsto> 0], owned = {},
     pcs = [0 \<mapsto> (16, MtLeave), 1 \<mapsto> (32, HpTop)], own = pc, detached = 0, hand = ptr\<rparr>"

lemma tf_example_threads:
  "mt_run 1 [False, False, False] (mt_run 0 [False, False, False, False, False, False]
     ((tf_init tf_pages {16, 32} Map.empty)\<lparr>owned := {}, pcs := [0 \<mapsto> (16, MtTop), 1 \<mapsto> (32, MtTop)]\<rparr>)) = tf_example OIdle None 16"
  by (simp add: tf_init_def mt_next_def mt_load_def mt_prepare_def mt_cas_ok_def hp_load_def hp_write_def hp_cas_ok_def block_write_ptr_def
      masked_ptr_delay_get_is_use_delayed_def masked_ptr_delay_set_freeing_def tf_pages_def tf_example_def fun_upd_twist)

lemma tf_example_begun: "tf_reach {16, 32} ((tf_init tf_pages {16, 32} Map.empty)\<lparr>owned := {}, pcs := [0 \<mapsto> (16, MtTop), 1 \<mapsto> (32, MtTop)]\<rparr>)"
proof -
  let ?i = "tf_init tf_pages {16, 32} Map.empty"
  let ?j = "?i\<lparr>owned := {32}, pcs := [0 \<mapsto> (16, MtTop)]\<rparr>"
  have "tf_step ?i (?i\<lparr>owned := owned ?i - {16}, pcs := (pcs ?i)(0 \<mapsto> (16, MtTop))\<rparr>)"
    by (rule tf_step.begin_free) (simp_all add: tf_init_def)
  then have j: "tf_reach {16, 32} ?j" using tf_reach.step [OF tf_reach.init] by (auto simp: tf_init_def)
  have "tf_step ?j (?j\<lparr>owned := owned ?j - {32}, pcs := (pcs ?j)(1 \<mapsto> (32, MtTop))\<rparr>)"
    by (rule tf_step.begin_free) simp_all
  from tf_reach.step [OF j this] show ?thesis by simp
qed

lemma tf_example_try:
  assumes "tf_reach {16, 32} (tf_example (OTry k) (Some 16) 0)" "k < 4"
  shows "tf_reach {16, 32} (tf_example (OTry (Suc k)) (Some 16) 0)"
proof -
  have "tf_step (tf_example (OTry k) (Some 16) 0) (try_load (tf_example (OTry k) (Some 16) 0) 16 k)"
    by (rule tf_step.own_try_load) (simp_all add: tf_example_def)
  moreover have "try_load (tf_example (OTry k) (Some 16) 0) 16 k = tf_example (OTry (Suc k)) (Some 16) 0"
    using assms(2) by (simp add: try_load_def tf_example_def tf_pages_def masked_ptr_delay_get_delay_def)
  ultimately show ?thesis using tf_reach.step [OF assms(1)] by simp
qed

lemma tf_example_reach: "tf_reach {16, 32} (tf_example OIdle None 16)" "tf_reach {16, 32} (tf_example OIns (Some 16) 0)"
proof -
  let ?e = "\<lambda>pc. tf_example pc (Some 16) 0"
  show r0: "tf_reach {16, 32} (tf_example OIdle None 16)"
    using mt_run_reach [OF mt_run_reach [OF tf_example_begun]] unfolding tf_example_threads [symmetric] by blast
  have "tf_step (tf_example OIdle None 16) (simple_take_load (tf_example OIdle None 16))"
    by (rule tf_step.own_delayed_load) (simp add: tf_example_def)
  then have r1: "tf_reach {16, 32} (tf_example OSwap None 16)"
    using tf_reach.step [OF r0] by (simp add: simple_take_load_def tf_example_def)
  have "tf_step (tf_example OSwap None 16) (simple_take_swap (tf_example OSwap None 16))"
    by (rule tf_step.own_delayed_swap) (simp add: tf_example_def)
  then have r2: "tf_reach {16, 32} ((tf_example OLoop None 0)\<lparr>detached := 16\<rparr>)" (is "tf_reach _ ?l")
    using tf_reach.step [OF r1] by (simp add: simple_take_swap_def tf_example_def)
  have "tf_step ?l (delayed_round ?l)" by (rule tf_step.own_round) (simp add: tf_example_def)
  then have r3: "tf_reach {16, 32} (?e (OTry 0))"
    using tf_reach.step [OF r2] by (simp add: delayed_round_def LL_is_empty_def pop_block_def tf_example_def)
  have r4: "tf_reach {16, 32} (?e (OTry 4))"
    using tf_example_try [OF tf_example_try [OF tf_example_try [OF tf_example_try [OF r3]]]] by (simp add: eval_nat_numeral)
  have "tf_step (?e (OTry 4)) (try_load (?e (OTry 4)) 16 4)" by (rule tf_step.own_try_load) (simp_all add: tf_example_def)
  moreover have "try_load (?e (OTry 4)) 16 4 = ?e OIns" by (simp add: try_load_def tf_example_def tf_pages_def masked_ptr_delay_get_delay_def)
  ultimately show "tf_reach {16, 32} (?e OIns)" using tf_reach.step [OF r4] by simp
qed


section \<open>Properties\<close>

text \<open>
  C26. No block of a heap is lost, duplicated or put on two lists, whatever the interleaving of frees by
  other threads, on any number of pages, with the owner's collections and its \<^verbatim>\<open>heap_delayed_free_partial\<close>, putting
  blocks back included: in every reachable state the word of each page, the delayed list and the
  list the owner has detached are well-formed lists of distinct blocks, those of the word of a page are of that page, and
  every block is with exactly one of the owner's side, a freeing thread, the list of its page, the
  delayed list, and the owner's loop. The pages are taken to stay pages of the heap.
\<close>

theorem remote_free_conserves_blocks:
  assumes "tf_reach A s" "\<forall>b\<in>A. b mod 4 = 0 \<and> b \<noteq> 0"
  shows "\<exists>p d X ys zs. (\<forall>g. masked_ptr_delay_wf (xtf s g) (d g) (p g) \<and> ll (fmem s) (p g) (X g) \<and> distinct (X g) \<and> (\<forall>b\<in>set (X g). page_of s b = g))
    \<and> ll (fmem s) (delayed s) ys \<and> distinct ys \<and> ll (fmem s) (detached s) zs \<and> distinct zs \<and> (\<forall>b\<in>set zs. hand s \<noteq> Some b)
    \<and> one_thread_per_block (pcs s)
    \<and> blocks_split A (owned s) (in_flight (pcs s)) (all_listed X) (set ys) (set_option (hand s) \<union> set zs)"
proof -
  obtain p d X ys zs where inv: "tf_inv A s p d X ys zs"
    using tf_reach_inv [OF assms(1)] assms(2) by (auto simp: mod4_and)
  note i = tf_invD [OF inv]
  have "masked_ptr_delay_wf (xtf s g) (d g) (p g) \<and> ll (fmem s) (p g) (X g) \<and> distinct (X g) \<and> (\<forall>b\<in>set (X g). page_of s b = g)" for g
    using i(1,2,3,12) ll_distinct [OF i(3)] masked_wf_encode by blast
  then show ?thesis using i(4,5,6,11,13) ll_distinct [OF i(4)] ll_distinct [OF i(11)] by blast
qed

theorem remote_free_conserves_blocks_witness:
  "tf_reach {16, 32} (tf_example OIns (Some 16) 0)
   \<and> (\<exists>X ys zs. blocks_split {16, 32} {} {32} (all_listed X) (set ys) (insert 16 (set zs)))"
proof -
  have "owned (tf_example OIns (Some 16) 0) = {}" "in_flight (pcs (tf_example OIns (Some 16) 0)) = {32}" "hand (tf_example OIns (Some 16) 0) = Some 16"
    by (auto simp: tf_example_def in_flight_def)
  moreover have "\<forall>b\<in>{16, 32 :: usize}. b mod 4 = 0 \<and> b \<noteq> 0" by simp
  ultimately show ?thesis using remote_free_conserves_blocks [OF tf_example_reach(2)] tf_example_reach(2) by fastforce
qed

text \<open>
  C27. Of each page, only one thread at a time is in the section between taking the delay state to
  \<^const>\<open>Freeing\<close> and the \<^verbatim>\<open>fetch_xor(3)\<close>, and the word of the page says \<^const>\<open>Freeing\<close> exactly then; so
  the owner's \<^verbatim>\<open>try_use_delayed_free\<close> never overwrites the state under a freeing thread.
\<close>

theorem delayed_freeing_exclusive:
  assumes "tf_reach A s" "\<forall>b\<in>A. b mod 4 = 0 \<and> b \<noteq> 0"
  shows "(\<forall>t t'. freeing (page_of s) (pcs s) g t \<and> freeing (page_of s) (pcs s) g t' \<longrightarrow> t = t')
    \<and> (masked_ptr_delay_get_delay (xtf s g) = to_int Freeing \<longleftrightarrow> (\<exists>t. freeing (page_of s) (pcs s) g t))"
proof -
  obtain p d X ys zs where inv: "tf_inv A s p d X ys zs"
    using tf_reach_inv [OF assms(1)] assms(2) by (auto simp: mod4_and)
  note i = tf_invD [OF inv]
  have "masked_ptr_delay_get_delay (xtf s g) = to_int (d g)" using i(1,2) [of g] by (simp add: masked_ptr_ops)
  moreover have "\<forall>t t'. freeing (page_of s) (pcs s) g t \<and> freeing (page_of s) (pcs s) g t' \<longrightarrow> t = t'" using i(9) unfolding windows_ok_def by blast
  ultimately show ?thesis using i(10) [of g] to_int_inject by simp
qed

theorem delayed_freeing_exclusive_witness:
  "tf_reach {16, 32} (tf_example OIdle None 16) \<and> freeing tf_pages (pcs (tf_example OIdle None 16)) 4096 0
    \<and> masked_ptr_delay_get_delay (xtf (tf_example OIdle None 16) 4096) = to_int Freeing"
proof -
  have "freeing tf_pages (pcs (tf_example OIdle None 16)) 4096 0" "page_of (tf_example OIdle None 16) = tf_pages"
    by (simp_all add: tf_example_def freeing_def tf_pages_def)
  then show ?thesis using delayed_freeing_exclusive [OF tf_example_reach(1), of 4096] tf_example_reach(1) by auto
qed

text \<open>
  C28. A remote free is never blocked by another thread: from every reachable state, a freeing thread that runs
  alone returns within nine atomic steps and three more for each exchange (\<^verbatim>\<open>compare_exchange_weak\<close>) that fails
  although the values agree, and the state it leaves is again reachable (so its
  block is on one of the lists or with the owner).
\<close>

theorem remote_free_completes:
  assumes "tf_reach A s" "9 + 3 * count_list fs True \<le> length fs"
  shows "pcs (mt_run t fs s) t = None \<and> tf_reach A (mt_run t fs s)"
proof -
  have "steps_left s t + 3 * count_list fs True \<le> length fs" using steps_left_bound [of s t] assms(2) by linarith
  then show ?thesis using mt_run_finishes mt_run_reach [OF assms(1)] by blast
qed

theorem remote_free_completes_witness:
  "pcs (mt_run 1 ([False, False, True] @ replicate 9 False) (tf_example OIdle None 16)) 1 = None"
  using remote_free_completes [OF tf_example_reach(1), of "[False, False, True] @ replicate 9 False" 1] by (simp add: numeral_eq_Suc)

end
