(* ===== verification/Layout.thy ===== *)
theory Layout
  imports Types
begin

text \<open>
  Addresses (\<^verbatim>\<open>layout.rs\<close> and the pointer methods of \<^verbatim>\<open>types.rs\<close>). A segment is an aligned
  region of \<open>2 ^ 25\<close> bytes; its first slice holds the segment header and the page headers,
  one per slice and one after the end; a page is a run of slices cut into blocks. The code
  finds the headers of a block from its address alone. The first part translates the specification functions
  (over mathematical integers), the second the executable ones (over machine words).
\<close>

section \<open>Identifiers and the addresses they stand for\<close>

record PageId =
  segment_id :: nat
  idx :: nat

record BlockId =
  page_id :: PageId
  block_idx :: nat       \<comment> \<open>\<^verbatim>\<open>idx\<close>: within the page\<close>
  slice_idx :: nat       \<comment> \<open>the slice the block starts in, within the segment\<close>
  block_size :: nat

definition segment_start :: "nat \<Rightarrow> nat" where
  "segment_start seg = seg * unat SEGMENT_SIZE"

definition page_header_start :: "PageId \<Rightarrow> nat" where
  "page_header_start p = segment_start (segment_id p) + unat SIZEOF_SEGMENT_HEADER + idx p * unat SIZEOF_PAGE_HEADER"

definition page_start :: "PageId \<Rightarrow> nat" where
  "page_start p = segment_start (segment_id p) + unat SLICE_SIZE * idx p"

definition start_offset :: "nat \<Rightarrow> nat" where
  "start_offset bsize = (if unat INTPTR_SIZE \<le> bsize \<and> bsize \<le> 1024 then 3 * unat MAX_ALIGN_GUARANTEE else 0)"

definition block_start_at :: "PageId \<Rightarrow> nat \<Rightarrow> nat \<Rightarrow> nat" where
  "block_start_at p bsize i = page_start p + start_offset bsize + i * bsize"

definition block_start :: "BlockId \<Rightarrow> nat" where
  "block_start b = block_start_at (page_id b) (block_size b) (block_idx b)"

definition is_page_ptr :: "usize \<Rightarrow> PageId \<Rightarrow> bool" where
  "is_page_ptr ptr p \<longleftrightarrow> unat ptr = page_header_start p \<and> idx p \<le> unat SLICES_PER_SEGMENT
     \<and> segment_start (segment_id p) + unat SEGMENT_SIZE < unat (-1 :: usize)"

definition is_segment_ptr :: "usize \<Rightarrow> nat \<Rightarrow> bool" where
  "is_segment_ptr ptr seg \<longleftrightarrow> unat ptr = segment_start seg \<and> unat ptr + unat SEGMENT_SIZE < unat (-1 :: usize)"

definition is_block_ptr1 :: "nat \<Rightarrow> BlockId \<Rightarrow> bool" where
  "is_block_ptr1 ptr b \<longleftrightarrow>
     (let s = segment_start (segment_id (page_id b)) in
        s < ptr \<and> ptr \<le> s + unat SEGMENT_SIZE \<and> s + unat SEGMENT_SIZE < unat (-1 :: usize)
      \<and> slice_idx b \<le> unat SLICES_PER_SEGMENT
      \<and> s + slice_idx b * unat SLICE_SIZE \<le> ptr \<and> ptr < s + slice_idx b * unat SLICE_SIZE + unat SLICE_SIZE
      \<and> ptr = block_start b
      \<and> block_size b \<ge> 8 \<and> block_size b mod 8 = 0)"


section \<open>Executable address arithmetic\<close>

definition calculate_segment_ptr_from_block :: "usize \<Rightarrow> usize" where
  "calculate_segment_ptr_from_block block_p = (block_p - 1) AND NOT (SEGMENT_SIZE - 1)"

definition calculate_slice_page_ptr_from_block :: "usize \<Rightarrow> usize \<Rightarrow> usize" where
  "calculate_slice_page_ptr_from_block b s =
     (let q = (b - s) div SLICE_SIZE in s + SIZEOF_SEGMENT_HEADER + q * SIZEOF_PAGE_HEADER)"

definition calculate_page_ptr_subtract_offset :: "usize \<Rightarrow> u32 \<Rightarrow> usize" where
  "calculate_page_ptr_subtract_offset p offset = p - ucast offset"

definition ptr_segment :: "usize \<Rightarrow> usize" where
  "ptr_segment p = (p div SEGMENT_SIZE) * SEGMENT_SIZE"

definition segment_page_start_from_slice :: "usize \<Rightarrow> usize \<Rightarrow> usize \<Rightarrow> usize" where
  "segment_page_start_from_slice segment_ptr page_ptr bsize =
     (let idxx = page_ptr - (segment_ptr + SIZEOF_SEGMENT_HEADER);
          i = idxx div SIZEOF_PAGE_HEADER;
          so = (if bsize \<ge> INTPTR_SIZE \<and> bsize \<le> 1024 then 3 * MAX_ALIGN_GUARANTEE else 0) in
      segment_ptr + i * SLICE_SIZE + so)"

definition calculate_page_start :: "usize \<Rightarrow> usize \<Rightarrow> usize" where
  "calculate_page_start page_ptr bsize = segment_page_start_from_slice (ptr_segment page_ptr) page_ptr bsize"

definition calculate_page_block_at :: "usize \<Rightarrow> usize \<Rightarrow> usize \<Rightarrow> usize" where
  "calculate_page_block_at pstart bsize i = pstart + bsize * i"

definition calculate_start_offset :: "usize \<Rightarrow> u32" where
  "calculate_start_offset bsize = (if bsize \<ge> 8 \<and> bsize \<le> 1024 then 3 * ucast MAX_ALIGN_GUARANTEE else 0)"

definition align_down :: "usize \<Rightarrow> usize \<Rightarrow> usize" where
  "align_down x y = (let msk = y - 1 in
     if y AND msk = 0 then x AND NOT msk else (x div y) * y)"

definition align_up :: "usize \<Rightarrow> usize \<Rightarrow> usize" where
  "align_up x y = (let msk = y - 1 in
     if y AND msk = 0 then (x + msk) AND NOT msk else ((x + msk) div y) * y)"

text \<open>The methods of \<^verbatim>\<open>SegmentPtr\<close> and \<^verbatim>\<open>PagePtr\<close>.\<close>

definition get_page_header_ptr :: "usize \<Rightarrow> usize \<Rightarrow> usize" where
  "get_page_header_ptr segment i = segment + SIZEOF_SEGMENT_HEADER + i * SIZEOF_PAGE_HEADER"

definition get_page_after_end :: "usize \<Rightarrow> usize" where
  "get_page_after_end segment = segment + SIZEOF_SEGMENT_HEADER + SLICES_PER_SEGMENT * SIZEOF_PAGE_HEADER"

definition add_offset :: "usize \<Rightarrow> usize \<Rightarrow> usize" where
  "add_offset p n = p + n * SIZEOF_PAGE_HEADER"

definition sub_offset :: "usize \<Rightarrow> usize \<Rightarrow> usize" where
  "sub_offset p n = p - n * SIZEOF_PAGE_HEADER"

definition is_gt_0th_slice :: "usize \<Rightarrow> usize \<Rightarrow> bool" where
  "is_gt_0th_slice p segment \<longleftrightarrow> p > get_page_header_ptr segment 0"

definition get_index :: "usize \<Rightarrow> usize" where
  "get_index p = (let segment = ptr_segment p in (p - segment - SIZEOF_SEGMENT_HEADER) div SIZEOF_PAGE_HEADER)"

definition slice_start :: "usize \<Rightarrow> usize" where
  "slice_start p = (let s = ptr_segment p in
     s + ((p - s - SIZEOF_SEGMENT_HEADER) div SIZEOF_PAGE_HEADER) * SLICE_SIZE)"

definition add_offset_and_check :: "usize \<Rightarrow> usize \<Rightarrow> usize \<Rightarrow> usize \<times> bool" where
  "add_offset_and_check p n segment =
     (let q = p + n * SIZEOF_PAGE_HEADER; end_ptr = get_page_after_end segment in (q, q < end_ptr))"


section \<open>Masking and alignment\<close>

lemma and_not_mask: "unat (x AND NOT (mask n)) = unat (x :: 'a::len word) div 2 ^ n * 2 ^ n"
proof -
  have "x AND NOT (mask n) = x - (x AND mask n)"
  proof -
    have "NOT x AND (x AND mask n) = 0" by (auto intro!: bit_word_eqI simp: bit_and_iff bit_not_iff)
    then have "x - (x AND mask n) = x AND NOT (x AND mask n)" by (rule disjunctive_diff_eq_and_not)
    also have "\<dots> = x AND NOT (mask n)" by (auto intro!: bit_word_eqI simp: bit_and_iff bit_or_iff bit_not_iff)
    finally show ?thesis by simp
  qed
  moreover have "x AND mask n \<le> x" unfolding word_le_nat_alt unat_and_mask by (rule mod_less_eq_dividend)
  ultimately have "unat (x AND NOT (mask n)) = unat x - unat x mod 2 ^ n"
    by (simp add: unat_sub_small unat_and_mask)
  then show ?thesis by (simp add: minus_mod_eq_div_mult)
qed

lemma nat_and_pred_zero: "0 < n \<Longrightarrow> n AND (n - 1) = 0 \<Longrightarrow> \<exists>k. n = 2 ^ k" for n :: nat
proof (induction n rule: less_induct)
  case (less n)
  show ?case
  proof (cases "even n")
    case True
    then obtain m where m: "n = 2 * m" "0 < m" using less.prems(1) by auto
    then have "(n - 1) div 2 = m - 1" by simp
    moreover have "n AND (n - 1) = 2 * ((n div 2) AND ((n - 1) div 2))"
      using True by (subst and_nat_rec) simp
    ultimately have "m AND (m - 1) = 0" using less.prems(2) m by simp
    then obtain k where "m = 2 ^ k" using less.IH [of m] m by auto
    then have "n = 2 ^ Suc k" using m by simp
    then show ?thesis by blast
  next
    case False
    then obtain m where m: "n = Suc (2 * m)" by (auto elim: oddE)
    then have "n AND (n - 1) = 2 * (m AND m)" by (subst and_nat_rec) simp
    then have "n = 2 ^ 0" using less.prems(2) m by simp
    then show ?thesis by blast
  qed
qed

lemma power_of_two_mask:
  fixes y :: usize
  assumes "0 < y" "y AND (y - 1) = 0"
  shows "\<exists>k. y - 1 = mask k \<and> unat y = 2 ^ k"
proof -
  have pos: "0 < unat y" using assms(1) by (simp add: unat_gt_0 word_gt_0)
  have "1 \<le> y" using pos by (simp add: word_le_nat_alt)
  then have s: "unat (y - 1) = unat y - 1" by (simp add: unat_sub_small)
  have "unat y AND (unat y - 1) = 0"
    using assms(2) by (metis s unsigned_and_eq unsigned_0)
  then obtain k where k: "unat y = 2 ^ k" using nat_and_pred_zero pos by blast
  have "k < 64"
  proof (rule ccontr)
    assume "\<not> k < 64"
    then have "(2 :: nat) ^ 64 \<le> 2 ^ k" by (intro power_increasing) auto
    then show False using unat_bound [of y] k by simp
  qed
  have "y = of_nat (unat y)" by simp
  then have "y = 2 ^ k" unfolding k by simp
  then show ?thesis using k by (auto simp: mask_eq_exp_minus_1)
qed

lemma align_down_unat:
  assumes "0 < y"
  shows "unat (align_down x y) = unat x div unat y * unat y"
proof (cases "y AND (y - 1) = 0")
  case True
  then obtain k where "y - 1 = mask k" "unat y = 2 ^ k" using power_of_two_mask assms by blast
  then show ?thesis using True by (simp add: align_down_def and_not_mask)
next
  case False
  have "unat (x div y) * unat y < 2 ^ LENGTH(64)"
    unfolding unat_div using div_times_less_eq_dividend unat_bound by (rule le_less_trans)
  then show ?thesis using False by (simp add: align_down_def unat_mult_small unat_div)
qed

lemma align_up_down: "align_up x y = align_down (x + (y - 1)) y"
  by (simp add: align_up_def align_down_def Let_def)

lemma align_up_unat:
  assumes "0 < y" "unat x + unat y - 1 < 2 ^ 64"
  shows "unat (align_up x y) = (unat x + unat y - 1) div unat y * unat y"
proof -
  have pos: "0 < unat y" using assms(1) by (simp add: unat_gt_0 word_gt_0)
  then have "1 \<le> y" by (simp add: word_le_nat_alt)
  then have "unat (y - 1) = unat y - 1" by (simp add: unat_sub_small)
  then have "unat (x + (y - 1)) = unat x + unat y - 1" using assms(2) pos by (simp add: unat_add_small)
  then show ?thesis unfolding align_up_down using align_down_unat [OF assms(1)] by simp
qed


section \<open>Addresses of headers\<close>

lemmas layout_unat = segment_start_def page_header_start_def page_start_def start_offset_def
  is_segment_ptr_def is_page_ptr_def layout_consts

lemma div_eqI: "k * n \<le> m \<Longrightarrow> m < k * n + n \<Longrightarrow> m div n = k" for m n k :: nat
  by (intro div_nat_eqI) (auto simp: algebra_simps)

lemma unat_header:
  assumes "is_segment_ptr s seg" "unat i \<le> 512"
  shows "unat (s + SIZEOF_SEGMENT_HEADER + i * SIZEOF_PAGE_HEADER) = segment_start seg + 264 + unat i * 80"
proof -
  have s: "unat s = seg * 33554432" "seg * 33554432 + 33554432 < 18446744073709551615"
    using assms(1) by (simp_all add: layout_unat)
  have "unat (i * 80) = unat i * 80" using assms(2) by (subst unat_mult_small) auto
  moreover have "unat (s + 264) = unat s + 264" using s by (subst unat_add_small) auto
  ultimately have "unat (s + 264 + i * 80) = unat s + 264 + unat i * 80"
    using s assms(2) by (subst unat_add_small) auto
  then show ?thesis using s by (simp add: layout_consts segment_start_def)
qed

lemma get_page_header_ptr_ok:
  assumes "is_segment_ptr s seg" "unat i \<le> 512"
  shows "is_page_ptr (get_page_header_ptr s i) \<lparr>segment_id = seg, idx = unat i\<rparr>"
  using assms unat_header [OF assms] by (simp add: get_page_header_ptr_def layout_unat)

lemma ptr_segment_ok:
  assumes "is_page_ptr p pid"
  shows "is_segment_ptr (ptr_segment p) (segment_id pid)"
proof -
  have p: "unat p = segment_id pid * 33554432 + 264 + idx pid * 80" "idx pid \<le> 512"
    "segment_id pid * 33554432 + 33554432 < 18446744073709551615"
    using assms by (simp_all add: layout_unat)
  have "unat p div 33554432 = segment_id pid" using p by (intro div_eqI) auto
  then have "unat (p div 33554432) = segment_id pid" by (simp add: unat_div)
  then have "unat (p div 33554432 * 33554432) = segment_id pid * 33554432"
    using p by (subst unat_mult_small) auto
  then show ?thesis using p by (simp add: ptr_segment_def layout_unat)
qed

lemma header_index:
  assumes "is_page_ptr p pid" "is_segment_ptr s (segment_id pid)"
  shows "unat ((p - (s + SIZEOF_SEGMENT_HEADER)) div SIZEOF_PAGE_HEADER) = idx pid"
proof -
  have p: "unat p = segment_id pid * 33554432 + 264 + idx pid * 80" "idx pid \<le> 512"
    "segment_id pid * 33554432 + 33554432 < 18446744073709551615" "unat s = segment_id pid * 33554432"
    using assms by (simp_all add: layout_unat)
  have s: "unat (s + 264) = unat s + 264" using p by (subst unat_add_small) auto
  then have "unat (p - (s + 264)) = idx pid * 80" using p by (subst unat_sub_small) (auto simp: word_le_nat_alt)
  then show ?thesis by (simp add: unat_div layout_consts)
qed

lemma get_index_ok: "is_page_ptr p pid \<Longrightarrow> unat (get_index p) = idx pid"
  using header_index [OF _ ptr_segment_ok, of p pid] by (simp add: get_index_def diff_diff_eq)

lemma unat_slice_address:
  assumes "is_segment_ptr s seg" "unat i \<le> 512"
  shows "unat (s + i * SLICE_SIZE) = segment_start seg + unat i * 65536"
proof -
  have s: "unat s = seg * 33554432" "seg * 33554432 + 33554432 < 18446744073709551615"
    using assms(1) by (simp_all add: layout_unat)
  have "unat (i * 65536) = unat i * 65536" using assms(2) by (subst unat_mult_small) auto
  then have "unat (s + i * 65536) = unat s + unat i * 65536" using s assms(2) by (subst unat_add_small) auto
  then show ?thesis using s by (simp add: layout_consts segment_start_def)
qed

lemma slice_start_ok: "is_page_ptr p pid \<Longrightarrow> unat (slice_start p) = page_start pid"
proof -
  assume p: "is_page_ptr p pid"
  have "unat ((p - (ptr_segment p + SIZEOF_SEGMENT_HEADER)) div SIZEOF_PAGE_HEADER) = idx pid"
    by (rule header_index [OF p ptr_segment_ok [OF p]])
  moreover have "idx pid \<le> 512" using p by (simp add: layout_unat)
  ultimately show ?thesis
    using unat_slice_address [OF ptr_segment_ok [OF p]] by (simp add: slice_start_def Let_def diff_diff_eq page_start_def layout_consts)
qed

lemma calculate_page_start_ok:
  assumes "is_page_ptr p pid"
  shows "unat (calculate_page_start p bsize) = page_start pid + start_offset (unat bsize)"
proof -
  let ?s = "ptr_segment p"
  let ?i = "(p - (?s + SIZEOF_SEGMENT_HEADER)) div SIZEOF_PAGE_HEADER"
  have i: "unat ?i = idx pid" by (rule header_index [OF assms ptr_segment_ok [OF assms]])
  have b: "idx pid \<le> 512" "segment_id pid * 33554432 + 33554432 < 18446744073709551615"
    using assms by (simp_all add: layout_unat)
  have a: "unat (?s + ?i * SLICE_SIZE) = segment_id pid * 33554432 + idx pid * 65536"
    using unat_slice_address [OF ptr_segment_ok [OF assms], of ?i] i b by (simp add: segment_start_def layout_consts)
  define so :: usize where "so = (if bsize \<ge> INTPTR_SIZE \<and> bsize \<le> 1024 then 3 * MAX_ALIGN_GUARANTEE else 0)"
  have so: "unat so = start_offset (unat bsize)"
    by (simp add: so_def start_offset_def word_le_nat_alt layout_consts)
  then have "unat so \<le> 384" by (simp add: start_offset_def layout_consts)
  moreover have "segment_id pid \<le> 549755813886" using b by simp
  ultimately have "segment_id pid * 33554432 + idx pid * 65536 + unat so < 18446744073709551616" using b(1) by linarith
  then have "unat (?s + ?i * SLICE_SIZE + so) = unat (?s + ?i * SLICE_SIZE) + unat so"
    using a by (simp add: unat_add_small)
  then show ?thesis
    using a so by (simp add: calculate_page_start_def segment_page_start_from_slice_def Let_def so_def page_start_def segment_start_def layout_consts)
qed

lemma add_offset_ok:
  assumes "is_page_ptr p pid" "idx pid + unat n \<le> 512"
  shows "is_page_ptr (add_offset p n) (pid\<lparr>idx := idx pid + unat n\<rparr>)"
proof -
  have p: "unat p = segment_id pid * 33554432 + 264 + idx pid * 80"
    "segment_id pid * 33554432 + 33554432 < 18446744073709551615"
    using assms(1) by (simp_all add: layout_unat)
  have "unat (n * 80) = unat n * 80" using assms(2) by (subst unat_mult_small) auto
  then have "unat (p + n * 80) = unat p + unat n * 80" using p assms(2) by (subst unat_add_small) auto
  then show ?thesis using p assms(2) by (simp add: add_offset_def layout_unat)
qed

lemma sub_offset_ok:
  assumes "is_page_ptr p pid" "unat n \<le> idx pid"
  shows "is_page_ptr (sub_offset p n) (pid\<lparr>idx := idx pid - unat n\<rparr>)"
proof -
  have p: "unat p = segment_id pid * 33554432 + 264 + idx pid * 80" "idx pid \<le> 512"
    "segment_id pid * 33554432 + 33554432 < 18446744073709551615"
    using assms(1) by (simp_all add: layout_unat)
  have "unat (n * 80) = unat n * 80" using assms(2) p by (subst unat_mult_small) auto
  then have "unat (p - n * 80) = unat p - unat n * 80"
    using p assms(2) by (subst unat_sub_small) (auto simp: word_le_nat_alt)
  then show ?thesis using p assms(2) by (simp add: sub_offset_def layout_unat diff_mult_distrib)
qed

lemma page_ptr_unique: "is_page_ptr p pid \<Longrightarrow> is_page_ptr q pid \<Longrightarrow> p = q"
  by (simp add: is_page_ptr_def word_unat_eq_iff)

lemma page_id_unique:
  assumes "is_page_ptr p pid" "is_page_ptr p pid'"
  shows "segment_id pid = segment_id pid' \<and> idx pid = idx pid'"
proof -
  have "segment_start (segment_id pid) = segment_start (segment_id pid')"
    using ptr_segment_ok [OF assms(1)] ptr_segment_ok [OF assms(2)] by (simp add: is_segment_ptr_def)
  then show ?thesis
    using get_index_ok [OF assms(1)] get_index_ok [OF assms(2)] by (simp add: segment_start_def layout_consts)
qed

section \<open>From a block to its headers\<close>

lemma block_ptr_facts:
  assumes "is_block_ptr1 (unat p) b"
  shows "segment_id (page_id b) * 33554432 < unat p"
    "unat p \<le> segment_id (page_id b) * 33554432 + 33554432"
    "segment_id (page_id b) * 33554432 + 33554432 < 18446744073709551615"
    "slice_idx b \<le> 512"
    "segment_id (page_id b) * 33554432 + slice_idx b * 65536 \<le> unat p"
    "unat p < segment_id (page_id b) * 33554432 + slice_idx b * 65536 + 65536"
  using assms by (simp_all add: is_block_ptr1_def Let_def segment_start_def layout_consts)

lemma segment_ptr_from_block_ok:
  assumes "is_block_ptr1 (unat p) b"
  shows "is_segment_ptr (calculate_segment_ptr_from_block p) (segment_id (page_id b))"
proof -
  note f = block_ptr_facts [OF assms]
  have "1 \<le> p" using f(1) by (simp add: word_le_nat_alt)
  then have "unat (p - 1) = unat p - 1" by (simp add: unat_sub_small)
  moreover have "(unat p - 1) div 33554432 = segment_id (page_id b)" using f by (intro div_eqI) auto
  ultimately have "unat ((p - 1) AND NOT (mask 25)) = segment_id (page_id b) * 33554432"
    by (simp add: and_not_mask)
  moreover have "SEGMENT_SIZE - 1 = mask 25" by (simp add: layout_consts mask_eq_exp_minus_1)
  ultimately show ?thesis using f by (simp add: calculate_segment_ptr_from_block_def layout_unat)
qed

lemma slice_page_ptr_from_block_ok:
  assumes "is_block_ptr1 (unat p) b" "is_segment_ptr s (segment_id (page_id b))"
  shows "is_page_ptr (calculate_slice_page_ptr_from_block p s) ((page_id b)\<lparr>idx := slice_idx b\<rparr>)"
proof -
  note f = block_ptr_facts [OF assms(1)]
  have s: "unat s = segment_id (page_id b) * 33554432" using assms(2) by (simp add: layout_unat)
  then have "unat (p - s) = unat p - unat s" using f by (subst unat_sub_small) (auto simp: word_le_nat_alt)
  moreover have "(unat p - unat s) div 65536 = slice_idx b" using f s by (intro div_eqI) auto
  ultimately have q: "unat ((p - s) div SLICE_SIZE) = slice_idx b" by (simp add: unat_div layout_consts)
  then show ?thesis
    using unat_header [OF assms(2), of "(p - s) div SLICE_SIZE"] f
    by (simp add: calculate_slice_page_ptr_from_block_def Let_def layout_unat)
qed

lemma subtract_offset_ok:
  assumes "is_page_ptr p pid" "unat off = n * 80" "n \<le> idx pid"
  shows "is_page_ptr (calculate_page_ptr_subtract_offset p off) (pid\<lparr>idx := idx pid - n\<rparr>)"
proof -
  have p: "unat p = segment_id pid * 33554432 + 264 + idx pid * 80" "idx pid \<le> 512"
    "segment_id pid * 33554432 + 33554432 < 18446744073709551615"
    using assms(1) by (simp_all add: layout_unat)
  have u: "unat (ucast off :: usize) = n * 80" using assms(2) p assms(3) by (subst unat_ucast_small) auto
  then have "unat (p - ucast off) = unat p - n * 80"
    using p assms(3) by (subst unat_sub_small) (auto simp: word_le_nat_alt)
  then show ?thesis using p assms(3)
    by (simp add: calculate_page_ptr_subtract_offset_def layout_unat diff_mult_distrib)
qed


section \<open>Properties\<close>

text \<open>
  \<^verbatim>\<open>align_down\<close> and \<^verbatim>\<open>align_up\<close> round to the nearest multiple below and above, in the
  mask branch for powers of two and in the division branch alike.
\<close>

lemma align_rounds:
  assumes "0 < y" "unat x + unat y - 1 < 2 ^ 64"
  shows "unat (align_down x y) = unat x div unat y * unat y
    \<and> unat (align_up x y) = (unat x + unat y - 1) div unat y * unat y
    \<and> align_down x y \<le> x \<and> x \<le> align_up x y \<and> unat (align_up x y) < unat x + unat y
    \<and> unat y dvd unat (align_down x y) \<and> unat y dvd unat (align_up x y)"
proof -
  note d = align_down_unat [OF assms(1), of x] and u = align_up_unat [OF assms]
  have pos: "0 < unat y" using assms(1) by (simp add: unat_gt_0 word_gt_0)
  let ?z = "unat x + unat y - 1"
  have "?z div unat y * unat y + ?z mod unat y = ?z" by (rule div_mult_mod_eq)
  moreover have "?z mod unat y < unat y" using pos by simp
  ultimately have "unat x \<le> unat (align_up x y)" "unat (align_up x y) < unat x + unat y"
    using u pos by linarith+
  moreover have "unat (align_down x y) \<le> unat x" unfolding d by (rule div_times_less_eq_dividend)
  ultimately show ?thesis using d u by (simp add: word_le_nat_alt)
qed

text \<open>
  C31. From the address of a block alone the code finds its segment, the header of the slice
  the block starts in and, subtracting that header's offset, the header of its page. The block
  at the very end of the segment is included.
\<close>

theorem block_to_headers:
  assumes "is_block_ptr1 (unat p) b" "idx (page_id b) \<le> slice_idx b"
    "unat off = (slice_idx b - idx (page_id b)) * 80"
  shows "let s = calculate_segment_ptr_from_block p; h = calculate_slice_page_ptr_from_block p s in
    is_segment_ptr s (segment_id (page_id b)) \<and> is_page_ptr h ((page_id b)\<lparr>idx := slice_idx b\<rparr>)
    \<and> is_page_ptr (calculate_page_ptr_subtract_offset h off) (page_id b)"
proof -
  note s = segment_ptr_from_block_ok [OF assms(1)]
  note h = slice_page_ptr_from_block_ok [OF assms(1) s]
  from subtract_offset_ok [OF h assms(3)] assms(2) show ?thesis
    using s h by (simp add: Let_def)
qed

theorem block_to_headers_witness:
  "is_page_ptr (calculate_page_ptr_subtract_offset
      (calculate_slice_page_ptr_from_block 0x2020180 (calculate_segment_ptr_from_block 0x2020180)) 80)
    \<lparr>segment_id = 1, idx = 1\<rparr>"
proof -
  let ?b = "\<lparr>page_id = \<lparr>segment_id = 1, idx = 1\<rparr>, block_idx = 128, slice_idx = 2, block_size = 512\<rparr>"
  have "is_block_ptr1 (unat (0x2020180 :: usize)) ?b"
    by (simp add: is_block_ptr1_def Let_def block_start_def block_start_at_def page_start_def segment_start_def
        start_offset_def layout_consts)
  from block_to_headers [OF this, of 80] show ?thesis by (simp add: Let_def)
qed

text \<open>
  Page headers and indices convert back and forth: from the header pointer the code gets
  back the segment, the index, the first byte of the slice and the first block of the page, and
  moving by headers moves the index; \<^verbatim>\<open>add_offset_and_check\<close> says whether the end was passed.
\<close>

lemma page_header_roundtrip:
  assumes "is_segment_ptr s seg" "unat i \<le> 512" "unat i + unat n \<le> 512" "unat k \<le> unat i"
  shows "let p = get_page_header_ptr s i; pid = \<lparr>segment_id = seg, idx = unat i\<rparr> in
    is_page_ptr p pid \<and> ptr_segment p = s \<and> get_index p = i
    \<and> unat (slice_start p) = page_start pid
    \<and> unat (calculate_page_start p bsize) = block_start_at pid (unat bsize) 0
    \<and> get_index (add_offset p n) = i + n \<and> get_index (sub_offset p k) = i - k
    \<and> add_offset_and_check p n s = (add_offset p n, unat i + unat n < 512)"
proof -
  let ?p = "get_page_header_ptr s i" and ?pid = "\<lparr>segment_id = seg, idx = unat i\<rparr>"
  note p = get_page_header_ptr_ok [OF assms(1,2)]
  have seg: "ptr_segment ?p = s"
    using ptr_segment_ok [OF p] assms(1) by (simp add: is_segment_ptr_def word_unat_eq_iff)
  have "is_page_ptr (add_offset ?p n) (?pid\<lparr>idx := unat i + unat n\<rparr>)" using add_offset_ok [OF p, of n] assms(3) by simp
  note a = get_index_ok [OF this]
  have "unat (i + n) = unat i + unat n" using assms(3) by (subst unat_add_small) auto
  then have add: "get_index (add_offset ?p n) = i + n" using a by (simp add: word_unat_eq_iff)
  have "is_page_ptr (sub_offset ?p k) (?pid\<lparr>idx := unat i - unat k\<rparr>)" using sub_offset_ok [OF p, of k] assms(4) by simp
  note b = get_index_ok [OF this]
  have "unat (i - k) = unat i - unat k" using assms(4) by (simp add: unat_sub_small word_le_nat_alt)
  then have sub: "get_index (sub_offset ?p k) = i - k" using b by (simp add: word_unat_eq_iff)
  have "unat (add_offset ?p n) = segment_start seg + 264 + (unat i + unat n) * 80"
    using add_offset_ok [OF p, of n] assms(3) by (simp add: is_page_ptr_def page_header_start_def layout_consts)
  moreover have "unat (get_page_after_end s) = segment_start seg + 264 + 512 * 80"
    using unat_header [OF assms(1), of 512] by (simp add: get_page_after_end_def layout_consts)
  ultimately have "add_offset ?p n < get_page_after_end s \<longleftrightarrow> unat i + unat n < 512"
    unfolding word_less_nat_alt by presburger
  then have chk: "add_offset_and_check ?p n s = (add_offset ?p n, unat i + unat n < 512)"
    by (simp add: add_offset_and_check_def Let_def add_offset_def)
  have "get_index ?p = i" using get_index_ok [OF p] by (simp add: word_unat_eq_iff)
  then show ?thesis
    using p seg add sub chk slice_start_ok [OF p] calculate_page_start_ok [OF p]
    by (simp add: Let_def block_start_at_def)
qed

text \<open>
  Blocks never overlap: two blocks of a page are disjoint, all of them lie inside the
  page's slices and behind the headers of the segment, and blocks of pages on disjoint slices
  are disjoint.
\<close>

lemma blocks_disjoint:
  assumes "start_offset bsize + num * bsize \<le> cnt * unat SLICE_SIZE" "1 \<le> idx pid" "i < num"
  shows "(\<forall>j<num. j \<noteq> i \<longrightarrow> block_start_at pid bsize i + bsize \<le> block_start_at pid bsize j
            \<or> block_start_at pid bsize j + bsize \<le> block_start_at pid bsize i)
    \<and> page_start pid \<le> block_start_at pid bsize i
    \<and> block_start_at pid bsize i + bsize \<le> page_start (pid\<lparr>idx := idx pid + cnt\<rparr>)
    \<and> page_header_start (pid\<lparr>idx := unat SLICES_PER_SEGMENT\<rparr>) + unat SIZEOF_PAGE_HEADER \<le> block_start_at pid bsize i"
proof -
  have "(i + 1) * bsize \<le> num * bsize" using assms(3) by (intro mult_right_mono) auto
  then have hi: "start_offset bsize + i * bsize + bsize \<le> cnt * 65536"
    using assms(1) by (simp add: layout_consts)
  have "block_start_at pid bsize i + bsize \<le> block_start_at pid bsize j
      \<or> block_start_at pid bsize j + bsize \<le> block_start_at pid bsize i" if "j \<noteq> i" for j
  proof (cases "i < j")
    case True
    then have "(i + 1) * bsize \<le> j * bsize" by (intro mult_right_mono) auto
    then show ?thesis by (simp add: block_start_at_def)
  next
    case False
    then have "(j + 1) * bsize \<le> i * bsize" using that by (intro mult_right_mono) auto
    then show ?thesis by (simp add: block_start_at_def)
  qed
  then show ?thesis
    using hi assms(2) by (simp add: block_start_at_def page_start_def page_header_start_def layout_consts)
qed

end
