(* ===== verification/Dll.thy ===== *)
theory Dll
  imports Types
begin

text \<open>
  Doubly linked lists of page headers, threaded through the \<^verbatim>\<open>prev\<close> and \<^verbatim>\<open>next\<close> fields. The page
  queues of the heap (\<^verbatim>\<open>queues.rs\<close>) and the span queues of the thread-local data
  (\<^verbatim>\<open>segment.rs\<close>) are such lists; the lemmas here are the ones both need.
\<close>

type_synonym page_map = "usize \<rightharpoonup> Page"

definition hd_or :: "usize \<Rightarrow> usize list \<Rightarrow> usize" where
  "hd_or d xs = (case xs of [] \<Rightarrow> d | x # _ \<Rightarrow> x)"

definition last_or :: "usize \<Rightarrow> usize list \<Rightarrow> usize" where
  "last_or d xs = (if xs = [] then d else last xs)"

lemma hd_or_simps [simp]: "hd_or d [] = d" "hd_or d (x # xs) = x"
  by (simp_all add: hd_or_def)

lemma last_or_simps [simp]: "last_or d [] = d" "last_or d (x # xs) = last_or x xs" "last_or d (xs @ [x]) = x"
  by (simp_all add: last_or_def)

lemma hd_or_append: "hd_or d (xs @ ys) = hd_or (hd_or d ys) xs"
  by (cases xs) simp_all

lemma last_or_append: "last_or d (xs @ ys) = last_or (last_or d xs) ys"
  by (simp add: last_or_def)

lemma last_or_in: "xs \<noteq> [] \<Longrightarrow> last_or d xs \<in> set xs"
  by (simp add: last_or_def)

lemma hd_or_in: "xs \<noteq> [] \<Longrightarrow> hd_or d xs \<in> set xs"
  by (cases xs) simp_all

text \<open>\<open>dseg P pv xs nx\<close>: the headers \<open>xs\<close> are linked in this order, between \<open>pv\<close> and \<open>nx\<close>.\<close>

fun dseg :: "page_map \<Rightarrow> usize \<Rightarrow> usize list \<Rightarrow> usize \<Rightarrow> bool" where
  "dseg P pv [] nx \<longleftrightarrow> True"
| "dseg P pv (x # xs) nx \<longleftrightarrow> x \<noteq> 0
     \<and> (case P x of None \<Rightarrow> False | Some pg \<Rightarrow> prev_ptr pg = pv \<and> next_ptr pg = hd_or nx xs)
     \<and> dseg P x xs nx"

lemma dseg_append: "dseg P pv (xs @ ys) nx \<longleftrightarrow> dseg P pv xs (hd_or nx ys) \<and> dseg P (last_or pv xs) ys nx"
  by (induction xs arbitrary: pv) (auto simp: hd_or_append split: option.splits)

lemma dseg_nonnull: "dseg P pv xs nx \<Longrightarrow> 0 \<notin> set xs"
  by (induction xs arbitrary: pv) auto

lemma dseg_mem: "dseg P pv xs nx \<Longrightarrow> x \<in> set xs \<Longrightarrow> \<exists>pg. P x = Some pg"
  by (induction xs arbitrary: pv) (auto split: option.splits)

lemma dseg_cong:
  "(\<And>x. x \<in> set xs \<Longrightarrow> P' x = P x) \<Longrightarrow> dseg P' pv xs nx = dseg P pv xs nx"
  by (induction xs arbitrary: pv) auto

text \<open>The links determine the list.\<close>

lemma dseg_unique:
  "dseg P pv xs 0 \<Longrightarrow> dseg P pv' ys 0 \<Longrightarrow> hd_or 0 xs = hd_or 0 ys \<Longrightarrow> xs = ys"
proof (induction xs arbitrary: pv pv' ys)
  case Nil
  then show ?case by (cases ys) auto
next
  case (Cons x xs)
  then obtain zs where ys: "ys = x # zs" by (cases ys) auto
  have "hd_or 0 xs = hd_or 0 zs" using Cons.prems ys by (auto split: option.splits)
  then show ?case using Cons ys by auto
qed

lemma dseg_upd_other [simp]: "x \<notin> set xs \<Longrightarrow> dseg (P(x := v)) pv xs nx = dseg P pv xs nx"
  by (rule dseg_cong) auto

text \<open>Fields other than the links do not matter.\<close>

lemma dseg_same_links:
  "P x = Some pg \<Longrightarrow> prev_ptr pg' = prev_ptr pg \<Longrightarrow> next_ptr pg' = next_ptr pg \<Longrightarrow>
     dseg (P(x \<mapsto> pg')) pv xs nx = dseg P pv xs nx"
  by (induction xs arbitrary: pv) auto

lemma dseg_middle:
  assumes "dseg P pv (us @ x # vs) nx" "P x = Some pg"
  shows "prev_ptr pg = last_or pv us" "next_ptr pg = hd_or nx vs" "x \<noteq> 0"
  using assms by (auto simp: dseg_append)


section \<open>Changing links\<close>

definition set_next :: "page_map \<Rightarrow> usize \<Rightarrow> usize \<Rightarrow> page_map" where
  "set_next P x v = (case P x of None \<Rightarrow> P | Some pg \<Rightarrow> P(x \<mapsto> pg\<lparr>next_ptr := v\<rparr>))"

definition set_prev :: "page_map \<Rightarrow> usize \<Rightarrow> usize \<Rightarrow> page_map" where
  "set_prev P x v = (case P x of None \<Rightarrow> P | Some pg \<Rightarrow> P(x \<mapsto> pg\<lparr>prev_ptr := v\<rparr>))"

lemma set_next_eq: "P x = Some pg \<Longrightarrow> set_next P x v = P(x \<mapsto> pg\<lparr>next_ptr := v\<rparr>)"
  by (simp add: set_next_def)

lemma set_prev_eq: "P x = Some pg \<Longrightarrow> set_prev P x v = P(x \<mapsto> pg\<lparr>prev_ptr := v\<rparr>)"
  by (simp add: set_prev_def)

lemma set_links_other [simp]: "y \<noteq> x \<Longrightarrow> set_next P x v y = P y" "y \<noteq> x \<Longrightarrow> set_prev P x v y = P y"
  by (simp_all add: set_next_def set_prev_def split: option.splits)

lemma set_links_dom [simp]: "dom (set_next P x v) = dom P" "dom (set_prev P x v) = dom P"
  by (auto simp: set_next_def set_prev_def split: option.splits)

lemma set_links_inner:
  "map_option inner (set_next P x v y) = map_option inner (P y)"
  "map_option inner (set_prev P x v y) = map_option inner (P y)"
  by (simp_all add: set_next_def set_prev_def split: option.splits)

lemma dseg_set_other:
  assumes "x \<notin> set xs"
  shows "dseg (set_next P x v) pv xs nx = dseg P pv xs nx" "dseg (set_prev P x v) pv xs nx = dseg P pv xs nx"
proof -
  have "set_next P x v y = P y" "set_prev P x v y = P y" if "y \<in> set xs" for y
    using that assms by (cases "y = x"; simp)+
  note eq = this
  show "dseg (set_next P x v) pv xs nx = dseg P pv xs nx" by (rule dseg_cong) (rule eq(1))
  show "dseg (set_prev P x v) pv xs nx = dseg P pv xs nx" by (rule dseg_cong) (rule eq(2))
qed

lemma dseg_set_next:
  assumes "dseg P pv (xs @ [z]) nx" "z \<notin> set xs"
  shows "dseg (set_next P z nx') pv (xs @ [z]) nx'"
proof -
  obtain pg where pg: "P z = Some pg" using dseg_mem [OF assms(1), of z] by auto
  then show ?thesis
    using assms(1) dseg_set_other(1) [OF assms(2), of P nx'] by (simp add: dseg_append set_next_eq)
qed

lemma dseg_set_prev:
  assumes "dseg P pv (z # xs) nx" "z \<notin> set xs"
  shows "dseg (set_prev P z pv') pv' (z # xs) nx"
proof -
  obtain pg where pg: "P z = Some pg" using dseg_mem [OF assms(1), of z] by auto
  then show ?thesis using assms by (simp add: set_prev_eq)
qed

text \<open>Joining the neighbours of an element that leaves the list.\<close>

definition unlink :: "page_map \<Rightarrow> usize \<Rightarrow> usize \<Rightarrow> page_map" where
  "unlink P prev nxt =
     (let P1 = (if prev \<noteq> 0 then set_next P prev nxt else P) in
      if nxt \<noteq> 0 then set_prev P1 nxt prev else P1)"

lemma dseg_join:
  assumes "dseg P 0 us x" "dseg P x vs 0" "distinct (us @ vs)"
  shows "dseg (unlink P (last_or 0 us) (hd_or 0 vs)) 0 (us @ vs) 0"
proof -
  let ?pr = "last_or 0 us" and ?nx = "hd_or 0 vs"
  define P1 where "P1 = (if ?pr \<noteq> 0 then set_next P ?pr ?nx else P)"
  have u: "unlink P ?pr ?nx = (if ?nx \<noteq> 0 then set_prev P1 ?nx ?pr else P1)"
    by (simp only: unlink_def Let_def P1_def)
  have l: "?pr \<noteq> 0 \<longleftrightarrow> us \<noteq> []" using dseg_nonnull [OF assms(1)] last_or_in [of us 0] by (cases us) auto
  have h: "?nx \<noteq> 0 \<longleftrightarrow> vs \<noteq> []" using dseg_nonnull [OF assms(2)] by (cases vs) auto
  have 1: "dseg P1 0 us ?nx"
  proof (cases us rule: rev_cases)
    case (snoc ys z)
    then show ?thesis using dseg_set_next [of P 0 ys z x ?nx] assms(1,3) l by (auto simp: P1_def)
  qed (simp add: P1_def)
  have "?pr \<noteq> 0 \<Longrightarrow> ?pr \<notin> set vs" using l last_or_in [of us 0] assms(3) by auto
  then have 2: "dseg P1 x vs 0" using assms(2) by (simp add: dseg_set_other P1_def)
  show ?thesis
  proof (cases vs)
    case Nil
    then show ?thesis using 1 u by simp
  next
    case (Cons z ws)
    have "dseg (set_prev P1 z ?pr) ?pr (z # ws) 0"
      using 2 assms(3) Cons by (intro dseg_set_prev) auto
    moreover have "dseg (set_prev P1 z ?pr) 0 us z"
      using 1 assms(3) Cons by (simp add: dseg_set_other)
    ultimately show ?thesis using Cons h u by (simp add: dseg_append)
  qed
qed

lemma unlink_other: "y \<noteq> prev \<Longrightarrow> y \<noteq> nxt \<Longrightarrow> unlink P prev nxt y = P y"
  by (simp add: unlink_def Let_def)

lemma dseg_unlink_other:
  assumes "prev \<notin> set xs" "nxt \<notin> set xs"
  shows "dseg (unlink P prev nxt) pv xs nx = dseg P pv xs nx"
  using assms by (intro dseg_cong unlink_other) auto

text \<open>Putting a new element in front of a list or behind it.\<close>

definition link_front :: "page_map \<Rightarrow> usize \<Rightarrow> Page \<Rightarrow> usize \<Rightarrow> page_map" where
  "link_front P x pg first = (if first \<noteq> 0 then set_prev P first x else P)(x \<mapsto> pg\<lparr>prev_ptr := 0, next_ptr := first\<rparr>)"

definition link_back :: "page_map \<Rightarrow> usize \<Rightarrow> Page \<Rightarrow> usize \<Rightarrow> page_map" where
  "link_back P x pg last_x = (if last_x \<noteq> 0 then set_next P last_x x else P)(x \<mapsto> pg\<lparr>next_ptr := 0, prev_ptr := last_x\<rparr>)"

lemma hd_or_zero: "dseg P pv xs nx \<Longrightarrow> hd_or 0 xs = 0 \<longleftrightarrow> xs = []"
  by (cases xs) auto

lemma last_or_zero: "dseg P pv xs nx \<Longrightarrow> last_or 0 xs = 0 \<longleftrightarrow> xs = []"
  using dseg_nonnull [of P pv xs nx] last_or_in [of xs 0] by (cases "xs = []") auto

lemma dseg_link_front:
  assumes "dseg P 0 xs 0" "distinct xs" "x \<notin> set xs" "x \<noteq> 0"
  shows "dseg (link_front P x pg (hd_or 0 xs)) 0 (x # xs) 0"
proof (cases xs)
  case Nil
  then show ?thesis using assms(4) by (simp add: link_front_def)
next
  case (Cons y ys)
  have "dseg (set_prev P y x) x (y # ys) 0" using assms(1,2) Cons by (intro dseg_set_prev) auto
  then have "dseg ((set_prev P y x)(x \<mapsto> pg\<lparr>prev_ptr := 0, next_ptr := y\<rparr>)) x (y # ys) 0"
    using assms(3) Cons by (subst dseg_upd_other) auto
  then show ?thesis using assms Cons by (simp add: link_front_def)
qed

lemma dseg_link_back:
  assumes "dseg P 0 xs 0" "distinct xs" "x \<notin> set xs" "x \<noteq> 0"
  shows "dseg (link_back P x pg (last_or 0 xs)) 0 (xs @ [x]) 0"
proof (cases xs rule: rev_cases)
  case Nil
  then show ?thesis using assms(4) by (simp add: link_back_def)
next
  case (snoc ys y)
  have "dseg (set_next P y x) 0 (ys @ [y]) x" using assms(1,2) snoc by (intro dseg_set_next [where nx = 0]) auto
  then have "dseg ((set_next P y x)(x \<mapsto> pg\<lparr>next_ptr := 0, prev_ptr := y\<rparr>)) 0 (ys @ [y]) x"
    using assms(3) snoc by (subst dseg_upd_other) auto
  moreover have "y \<noteq> 0" using last_or_zero [OF assms(1)] snoc by simp
  ultimately show ?thesis using assms snoc by (simp add: link_back_def dseg_append [of _ 0 "ys @ [y]" "[x]", simplified])
qed

lemma link_front_other: "y \<noteq> x \<Longrightarrow> y \<noteq> first \<Longrightarrow> link_front P x pg first y = P y"
  by (simp add: link_front_def)

lemma link_back_other: "y \<noteq> x \<Longrightarrow> y \<noteq> last_x \<Longrightarrow> link_back P x pg last_x y = P y"
  by (simp add: link_back_def)

lemma link_inner:
  "map_option inner (unlink P a b y) = map_option inner (P y)"
  "map_option inner (link_front P x pg a y) = (if y = x then Some (inner pg) else map_option inner (P y))"
  "map_option inner (link_back P x pg a y) = (if y = x then Some (inner pg) else map_option inner (P y))"
  by (simp_all add: unlink_def Let_def link_front_def link_back_def set_links_inner)

lemma link_dom:
  "dom (unlink P a b) = dom P"
  "dom (link_front P x pg a) = insert x (dom P)"
  "dom (link_back P x pg a) = insert x (dom P)"
  by (simp_all add: unlink_def Let_def link_front_def link_back_def)

lemma link_front_eq:
  "first \<noteq> x \<Longrightarrow> (if first \<noteq> 0 then set_prev (P(x \<mapsto> pg0)) first x else P(x \<mapsto> pg0))(x \<mapsto> pg\<lparr>prev_ptr := 0, next_ptr := first\<rparr>)
     = link_front P x pg first"
  by (auto simp: link_front_def set_prev_def fun_eq_iff split: option.splits)

lemma link_back_eq:
  assumes "last_x \<noteq> x"
  shows "(if last_x \<noteq> 0 then set_next (P(x \<mapsto> pg\<lparr>next_ptr := 0, prev_ptr := last_x\<rparr>)) last_x x else P(x \<mapsto> pg\<lparr>next_ptr := 0, prev_ptr := last_x\<rparr>))
     = link_back P x pg last_x"
  using assms by (auto simp: link_back_def set_next_def fun_eq_iff split: option.splits)

lemma dseg_link_front_other:
  "x \<notin> set xs \<Longrightarrow> first \<notin> set xs \<Longrightarrow> dseg (link_front P x pg first) pv xs nx = dseg P pv xs nx"
  by (intro dseg_cong link_front_other) auto

lemma dseg_link_back_other:
  "x \<notin> set xs \<Longrightarrow> last_x \<notin> set xs \<Longrightarrow> dseg (link_back P x pg last_x) pv xs nx = dseg P pv xs nx"
  by (intro dseg_cong link_back_other) auto

text \<open>The two writes that take an element out of its list.\<close>

lemma upd_neighbours:
  assumes "prev \<noteq> 0 \<Longrightarrow> prev \<in> dom (page_at s)" "nxt \<noteq> 0 \<Longrightarrow> nxt \<in> dom (page_at s)"
  shows "bindR (if prev \<noteq> 0 then upd_page s prev (\<lambda>g. g\<lparr>next_ptr := nxt\<rparr>) else Inr s) (\<lambda>s.
      bindR (if nxt \<noteq> 0 then upd_page s nxt (\<lambda>g. g\<lparr>prev_ptr := prev\<rparr>) else Inr s) f)
    = f (s\<lparr>page_at := unlink (page_at s) prev nxt\<rparr>)"
proof -
  define P1 where "P1 = (if prev \<noteq> 0 then set_next (page_at s) prev nxt else page_at s)"
  have 1: "(if prev \<noteq> 0 then upd_page s prev (\<lambda>g. g\<lparr>next_ptr := nxt\<rparr>) else Inr s) = Inr (s\<lparr>page_at := P1\<rparr>)"
    using assms(1) by (auto simp: heap_upd set_next_eq P1_def)
  have u: "unlink (page_at s) prev nxt = (if nxt \<noteq> 0 then set_prev P1 nxt prev else P1)"
    by (simp only: unlink_def Let_def P1_def)
  have "nxt \<noteq> 0 \<Longrightarrow> nxt \<in> dom P1" using assms(2) by (simp add: P1_def)
  then have "(if nxt \<noteq> 0 then upd_page (s\<lparr>page_at := P1\<rparr>) nxt (\<lambda>g. g\<lparr>prev_ptr := prev\<rparr>) else Inr (s\<lparr>page_at := P1\<rparr>))
      = Inr (s\<lparr>page_at := unlink (page_at s) prev nxt\<rparr>)"
    unfolding u by (auto simp: upd_page_eq set_prev_eq)
  then show ?thesis unfolding 1 by simp
qed

lemma upd_links:
  "x \<in> dom (page_at s) \<Longrightarrow> upd_page s x (\<lambda>g. g\<lparr>next_ptr := v\<rparr>) = Inr (s\<lparr>page_at := set_next (page_at s) x v\<rparr>)"
  "x \<in> dom (page_at s) \<Longrightarrow> upd_page s x (\<lambda>g. g\<lparr>prev_ptr := v\<rparr>) = Inr (s\<lparr>page_at := set_prev (page_at s) x v\<rparr>)"
  by (auto simp: upd_page_eq set_next_eq set_prev_eq)

end
