(* ===== verification/Init_Tables.thy ===== *)
theory Init_Tables
  imports Types
begin

text \<open>The tables \<^verbatim>\<open>heap_init\<close> starts from (\<^verbatim>\<open>init.rs\<close>).\<close>

definition PageQueue_empty :: "usize \<Rightarrow> PageQueue" where
  "PageQueue_empty wsize = \<lparr>pq_first = 0, pq_last = 0, pq_block_size = wsize * INTPTR_SIZE\<rparr>"

definition pages_tmp :: "PageQueue list" where
  "pages_tmp =
    [PageQueue_empty 1, PageQueue_empty 1, PageQueue_empty 2, PageQueue_empty 3, PageQueue_empty 4,
     PageQueue_empty 5, PageQueue_empty 6, PageQueue_empty 7, PageQueue_empty 8, PageQueue_empty 10,
     PageQueue_empty 12, PageQueue_empty 14, PageQueue_empty 16, PageQueue_empty 20, PageQueue_empty 24,
     PageQueue_empty 28, PageQueue_empty 32, PageQueue_empty 40, PageQueue_empty 48, PageQueue_empty 56,
     PageQueue_empty 64, PageQueue_empty 80, PageQueue_empty 96, PageQueue_empty 112, PageQueue_empty 128,
     PageQueue_empty 160, PageQueue_empty 192, PageQueue_empty 224, PageQueue_empty 256, PageQueue_empty 320,
     PageQueue_empty 384, PageQueue_empty 448, PageQueue_empty 512, PageQueue_empty 640, PageQueue_empty 768,
     PageQueue_empty 896, PageQueue_empty 1024, PageQueue_empty 1280, PageQueue_empty 1536, PageQueue_empty 1792,
     PageQueue_empty 2048, PageQueue_empty 2560, PageQueue_empty 3072, PageQueue_empty 3584, PageQueue_empty 4096,
     PageQueue_empty 5120, PageQueue_empty 6144, PageQueue_empty 7168, PageQueue_empty 8192, PageQueue_empty 10240,
     PageQueue_empty 12288, PageQueue_empty 14336, PageQueue_empty 16384, PageQueue_empty 20480, PageQueue_empty 24576,
     PageQueue_empty 28672, PageQueue_empty 32768, PageQueue_empty 40960, PageQueue_empty 49152, PageQueue_empty 57344,
     PageQueue_empty 65536, PageQueue_empty 81920, PageQueue_empty 98304, PageQueue_empty 114688, PageQueue_empty 131072,
     PageQueue_empty 163840, PageQueue_empty 196608, PageQueue_empty 229376, PageQueue_empty 262144, PageQueue_empty 327680,
     PageQueue_empty 393216, PageQueue_empty 458752, PageQueue_empty 524288, PageQueue_empty (524288 + 1), PageQueue_empty (524288 + 2)]"

definition pages_free_direct_tmp :: "usize list" where
  "pages_free_direct_tmp = replicate 129 0"

definition span_queue_headers_tmp :: "SpanQueueHeader list" where
  "span_queue_headers_tmp = replicate 32 \<lparr>sq_first = 0, sq_last = 0\<rparr>"

end
