(* ===== verification/Queues.thy ===== *)
theory Queues
  imports Dll Flags Bin_Sizes Init_Tables
begin

text \<open>
  The page queues of the heap (\<^verbatim>\<open>queues.rs\<close>): one doubly linked list of pages per bin and one
  of full pages, and the table \<^verbatim>\<open>pages_free_direct\<close> that maps a small word size to the first
  page of its bin. Each operation is shown to act on the queues as on a list of lists and to
  keep the table in step with them.
\<close>

section \<open>Operations\<close>

text \<open>The current queue \<^verbatim>\<open>&mut pages[pq]\<close> of a heap; an index out of range panics.\<close>

definition upd_queue :: "st \<Rightarrow> usize \<Rightarrow> usize \<Rightarrow> (PageQueue \<Rightarrow> PageQueue) \<Rightarrow> st res" where
  "upd_queue s heap pq f = bindR (fetch (heap_at s) heap) (\<lambda>h. bindR (index (pages h) (unat pq)) (\<lambda>cq.
     Inr (s\<lparr>heap_at := (heap_at s)(heap \<mapsto> h\<lparr>pages := (pages h)[unat pq := f cq]\<rparr>)\<rparr>)))"

definition get_queue :: "st \<Rightarrow> usize \<Rightarrow> usize \<Rightarrow> PageQueue res" where
  "get_queue s heap pq = bindR (fetch (heap_at s) heap) (\<lambda>h. index (pages h) (unat pq))"

text \<open>The loop that writes \<^verbatim>\<open>pages_free_direct[sz]\<close> for \<^verbatim>\<open>sz\<close> from \<^verbatim>\<open>start\<close> to \<^verbatim>\<open>idx\<close>.\<close>

function pfd_fill :: "usize list \<Rightarrow> nat \<Rightarrow> nat \<Rightarrow> usize \<Rightarrow> usize list res" where
  "pfd_fill pfd sz last_sz p =
     (if sz \<le> last_sz then
        if sz < length pfd then pfd_fill (pfd[sz := p]) (sz + 1) last_sz p else Inl Panic
      else Inr pfd)"
  by pat_completeness auto
termination by (relation "measure (\<lambda>(pfd, sz, last_sz, p). last_sz + 1 - sz)") auto

declare pfd_fill.simps [simp del]

definition heap_queue_first_update :: "st \<Rightarrow> usize \<Rightarrow> usize \<Rightarrow> st res" where
  "heap_queue_first_update s heap pq =
     bindR (fetch (heap_at s) heap) (\<lambda>h. bindR (index (pages h) (unat pq)) (\<lambda>q.
       let sz = pq_block_size q in
       if sz > SMALL_SIZE_MAX then Inr s
       else
         let page_ptr = (if pq_first q = 0 then page_empty_ptr h else pq_first q);
             i = sz div 8 in
         bindR (index (pages_free_direct h) (unat i)) (\<lambda>cur.
           if cur = page_ptr then Inr s
           else
             bindR (if i \<le> 1 then Inr 0
                    else bindR (index (pages h) (unat (pq - 1))) (\<lambda>prev. Inr (1 + pq_block_size prev div 8)))
             (\<lambda>start. bindR (pfd_fill (pages_free_direct h) (unat start) (unat i) page_ptr) (\<lambda>pfd.
               Inr (s\<lparr>heap_at := (heap_at s)(heap \<mapsto> h\<lparr>pages_free_direct := pfd\<rparr>)\<rparr>))))))"

definition page_queue_remove :: "st \<Rightarrow> usize \<Rightarrow> usize \<Rightarrow> usize \<Rightarrow> st res" where
  "page_queue_remove s heap pq page =
     bindR (fetch (page_at s) page) (\<lambda>pg.
     let prev = prev_ptr pg; nxt = next_ptr pg in
     bindR (if prev \<noteq> 0 then upd_page s prev (\<lambda>g. g\<lparr>next_ptr := nxt\<rparr>) else Inr s) (\<lambda>s.
     bindR (if nxt \<noteq> 0 then upd_page s nxt (\<lambda>g. g\<lparr>prev_ptr := prev\<rparr>) else Inr s) (\<lambda>s.
     bindR (upd_queue s heap pq (\<lambda>cq.
        let cq = (if nxt = 0 then cq\<lparr>pq_last := prev\<rparr> else cq) in
        if prev = 0 then cq\<lparr>pq_first := nxt\<rparr> else cq)) (\<lambda>s.
     bindR (if prev = 0 then heap_queue_first_update s heap pq else Inr s) (\<lambda>s.
     upd_heap s heap (\<lambda>h. h\<lparr>page_count := page_count h - 1\<rparr>))))))"

definition page_queue_push :: "st \<Rightarrow> usize \<Rightarrow> usize \<Rightarrow> usize \<Rightarrow> st res" where
  "page_queue_push s heap pq page =
     bindR (upd_inner s page (set_in_full (pq = BIN_FULL))) (\<lambda>s.
     bindR (get_queue s heap pq) (\<lambda>cq.
     let first_in_queue = pq_first cq in
     bindR (upd_queue s heap pq (\<lambda>cq.
        let cq = cq\<lparr>pq_first := page\<rparr> in
        if first_in_queue = 0 then cq\<lparr>pq_last := page\<rparr> else cq)) (\<lambda>s.
     bindR (if first_in_queue \<noteq> 0 then upd_page s first_in_queue (\<lambda>g. g\<lparr>prev_ptr := page\<rparr>) else Inr s) (\<lambda>s.
     bindR (upd_page s page (\<lambda>g. g\<lparr>prev_ptr := 0\<rparr>)) (\<lambda>s.
     bindR (upd_page s page (\<lambda>g. g\<lparr>next_ptr := first_in_queue\<rparr>)) (\<lambda>s.
     bindR (heap_queue_first_update s heap pq) (\<lambda>s.
     upd_heap s heap (\<lambda>h. h\<lparr>page_count := page_count h + 1\<rparr>))))))))"

definition page_queue_push_back :: "st \<Rightarrow> usize \<Rightarrow> usize \<Rightarrow> usize \<Rightarrow> st res" where
  "page_queue_push_back s heap pq page =
     bindR (upd_inner s page (set_in_full (pq = BIN_FULL))) (\<lambda>s.
     bindR (get_queue s heap pq) (\<lambda>cq.
     let last_in_queue = pq_last cq in
     bindR (upd_queue s heap pq (\<lambda>cq.
        let cq = cq\<lparr>pq_last := page\<rparr> in
        if last_in_queue = 0 then cq\<lparr>pq_first := page\<rparr> else cq)) (\<lambda>s.
     bindR (upd_page s page (\<lambda>g. g\<lparr>next_ptr := 0\<rparr>)) (\<lambda>s.
     bindR (upd_page s page (\<lambda>g. g\<lparr>prev_ptr := last_in_queue\<rparr>)) (\<lambda>s.
     bindR (if last_in_queue \<noteq> 0 then upd_page s last_in_queue (\<lambda>g. g\<lparr>next_ptr := page\<rparr>) else Inr s) (\<lambda>s.
     bindR (if last_in_queue = 0 then heap_queue_first_update s heap pq else Inr s) (\<lambda>s.
     upd_heap s heap (\<lambda>h. h\<lparr>page_count := page_count h + 1\<rparr>))))))))"

text \<open>\<^verbatim>\<open>page_queue_enqueue_from\<close> of \<^verbatim>\<open>page.rs\<close>.\<close>

definition page_queue_enqueue_from :: "st \<Rightarrow> usize \<Rightarrow> usize \<Rightarrow> usize \<Rightarrow> usize \<Rightarrow> st res" where
  "page_queue_enqueue_from s heap to from page =
     bindR (page_queue_remove s heap from page) (\<lambda>s. page_queue_push_back s heap to page)"


section \<open>What the heap promises\<close>

definition pages_free_direct_match :: "usize \<Rightarrow> usize \<Rightarrow> usize \<Rightarrow> bool" where
  "pages_free_direct_match pfd_val p_val emp \<longleftrightarrow>
     (p_val = 0 \<longrightarrow> pfd_val = emp) \<and> (p_val \<noteq> 0 \<longrightarrow> pfd_val = p_val)"

definition pages_free_direct_is_correct :: "usize list \<Rightarrow> PageQueue list \<Rightarrow> usize \<Rightarrow> bool" where
  "pages_free_direct_is_correct pfd qs emp \<longleftrightarrow> length pfd = unat PAGES_DIRECT \<and> length qs = unat BIN_FULL + 1
     \<and> (\<forall>wsize < length pfd. pages_free_direct_match (pfd ! wsize)
          (pq_first (qs ! nat (smallest_bin_fitting_size (int wsize * 8)))) emp)"

text \<open>The part of \<^verbatim>\<open>HeapLocalAccess::wf_basic\<close> on lengths and block sizes.\<close>

definition queue_sizes_ok :: "PageQueue list \<Rightarrow> bool" where
  "queue_sizes_ok qs \<longleftrightarrow> length qs = unat BIN_FULL + 1
     \<and> (\<forall>i \<in> {1..73}. unat (pq_block_size (qs ! i)) = size_of_bin (int i))
     \<and> pq_block_size (qs ! 0) = 8 \<and> pq_block_size (qs ! unat BIN_FULL) = 8 * (524288 + 2)"

text \<open>\<open>Q ! i\<close> is the list of pages in queue \<open>i\<close>.\<close>

definition queues_ok :: "page_map \<Rightarrow> PageQueue list \<Rightarrow> usize list list \<Rightarrow> bool" where
  "queues_ok P qs Q \<longleftrightarrow> length Q = length qs
     \<and> (\<forall>i < length qs. pq_first (qs ! i) = hd_or 0 (Q ! i) \<and> pq_last (qs ! i) = last_or 0 (Q ! i)
          \<and> dseg P 0 (Q ! i) 0 \<and> distinct (Q ! i))
     \<and> (\<forall>i < length qs. \<forall>j < length qs. i \<noteq> j \<longrightarrow> set (Q ! i) \<inter> set (Q ! j) = {})"

definition heap_ok :: "st \<Rightarrow> usize \<Rightarrow> usize list list \<Rightarrow> bool" where
  "heap_ok s heap Q \<longleftrightarrow> (case heap_at s heap of None \<Rightarrow> False | Some h \<Rightarrow>
     queues_ok (page_at s) (pages h) Q \<and> queue_sizes_ok (pages h)
     \<and> pages_free_direct_is_correct (pages_free_direct h) (pages h) (page_empty_ptr h))"


section \<open>The direct table\<close>

lemma pfd_fill_spec:
  "last_sz < length pfd \<Longrightarrow> \<exists>pfd'. pfd_fill pfd sz last_sz p = Inr pfd' \<and> length pfd' = length pfd
     \<and> (\<forall>w < length pfd. pfd' ! w = (if sz \<le> w \<and> w \<le> last_sz then p else pfd ! w))"
proof (induction pfd sz last_sz p rule: pfd_fill.induct)
  case (1 pfd sz last_sz p)
  show ?case
  proof (cases "sz \<le> last_sz")
    case False
    then show ?thesis by (auto simp: pfd_fill.simps [of pfd sz])
  next
    case True
    then have "sz < length pfd" using "1.prems" by simp
    with True "1.IH" "1.prems" obtain pfd' where ih: "pfd_fill (pfd[sz := p]) (sz + 1) last_sz p = Inr pfd'"
      "length pfd' = length pfd"
      "\<forall>w < length pfd. pfd' ! w = (if sz + 1 \<le> w \<and> w \<le> last_sz then p else pfd[sz := p] ! w)"
      by auto
    have "pfd' ! w = (if sz \<le> w \<and> w \<le> last_sz then p else pfd ! w)" if "w < length pfd" for w
      using ih(3) that True by (cases "w = sz") auto
    then show ?thesis using True ih \<open>sz < length pfd\<close> by (auto simp: pfd_fill.simps [of pfd sz])
  qed
qed

lemma smallest_bin_small:
  assumes "w \<le> 128"
  shows "1 \<le> smallest_bin_fitting_size (int w * 8) \<and> smallest_bin_fitting_size (int w * 8) \<le> 72"
  using smallest_bin_bounds(1,2) [of "int w * 8"] assms by auto

lemma large_bin_not_direct:
  assumes "w \<le> 128" "1 \<le> i" "i \<le> 73" "1024 < size_of_bin i"
  shows "smallest_bin_fitting_size (int w * 8) \<noteq> i"
proof
  assume "smallest_bin_fitting_size (int w * 8) = i"
  then have "pfd_lower i \<le> w" using direct_range [of i w] assms by (simp add: valid_bin_idx_def)
  moreover have "1 < i" using assms(2,4) by (cases "i = 1") (auto simp: size_of_bin_def)
  moreover have "1024 \<le> size_of_bin (i - 1)"
  proof (rule ccontr)
    assume "\<not> ?thesis"
    then have "size_of_bin (i - 1) < size_of_bin 24" by (simp add: size_of_bin_def pow2_eq)
    then have "i - 1 < 24" using size_of_bin_strict_mono [of 24 "i - 1"] assms(3) by (cases "i - 1 = 24") force+
    then have "size_of_bin i \<le> size_of_bin 24" using size_of_bin_strict_mono [of i 24] assms(2) by (cases "i = 24") auto
    then show False using assms(4) by (simp add: size_of_bin_def pow2_eq)
  qed
  ultimately show False using assms(1) by (simp add: pfd_lower_def)
qed

text \<open>The page a bin's table entries hold, and the bin of a word size.\<close>

definition direct_page :: "PageQueue \<Rightarrow> usize \<Rightarrow> usize" where
  "direct_page q emp = (if pq_first q = 0 then emp else pq_first q)"

abbreviation wbin :: "nat \<Rightarrow> nat" where
  "wbin w \<equiv> nat (smallest_bin_fitting_size (int w * 8))"

lemma pfd_correct_iff:
  "pages_free_direct_is_correct pfd qs emp \<longleftrightarrow> length pfd = 129 \<and> length qs = 75
     \<and> (\<forall>w < 129. pfd ! w = direct_page (qs ! wbin w) emp)"
  by (auto simp: pages_free_direct_is_correct_def pages_free_direct_match_def direct_page_def layout_consts)

lemma wbin_range: "w \<le> 128 \<Longrightarrow> 1 \<le> wbin w \<and> wbin w \<le> 72"
  using smallest_bin_small [of w] by (simp add: nat_le_iff) linarith

lemma wbin_eq_iff:
  assumes "w \<le> 128" "1 \<le> i" "i \<le> 73"
  shows "wbin w = i \<longleftrightarrow> pfd_lower (int i) \<le> w \<and> w \<le> pfd_upper (int i)"
  using direct_range [of "int i" w] assms smallest_bin_small [OF assms(1)]
  by (auto simp: valid_bin_idx_def)

lemma size_of_bin_words:
  assumes "1 \<le> i" "i \<le> 73"
  shows "8 dvd size_of_bin i" "i \<noteq> 1 \<Longrightarrow> 16 \<le> size_of_bin i"
proof -
  have "list_all (\<lambda>i. 8 dvd size_of_bin i \<and> (i \<noteq> 1 \<longrightarrow> 16 \<le> size_of_bin i)) [1..73]"
    unfolding bin_indices by (simp add: size_of_bin_def pow2_eq)
  moreover have "i \<in> set [1..73]" using assms by simp
  ultimately have "8 dvd size_of_bin i \<and> (i \<noteq> 1 \<longrightarrow> 16 \<le> size_of_bin i)" unfolding list_all_iff by blast
  then show "8 dvd size_of_bin i" "i \<noteq> 1 \<Longrightarrow> 16 \<le> size_of_bin i" by auto
qed

lemma pfd_upper_wbin:
  assumes "1 \<le> k" "k \<le> 73" "pfd_upper (int k) \<le> 128"
  shows "wbin (pfd_upper (int k)) = k"
proof -
  have "int (pfd_upper (int k)) * 8 = int (size_of_bin (int k))"
    using size_of_bin_words(1) [of "int k"] assms by (auto simp: pfd_upper_def elim!: dvdE)
  then show ?thesis using smallest_bin_of_size_of_bin [of "int k"] assms by (simp add: valid_bin_idx_def)
qed

lemma direct_bounds:
  assumes sizes: "queue_sizes_ok qs" and k: "unat pq = k" "1 \<le> k" "k \<le> 73"
    and small: "pq_block_size (qs ! k) \<le> SMALL_SIZE_MAX"
  defines "i \<equiv> pq_block_size (qs ! k) div 8"
  shows "unat i = pfd_upper (int k)" "unat i \<le> 128"
    "unat (if i \<le> 1 then 0 else 1 + pq_block_size (qs ! unat (pq - 1)) div 8) = pfd_lower (int k)"
proof -
  have sz: "unat (pq_block_size (qs ! j)) = size_of_bin (int j)" if "1 \<le> j" "j \<le> 73" for j
    using sizes that by (simp add: queue_sizes_ok_def)
  show i: "unat i = pfd_upper (int k)" using sz [OF k(2,3)] by (simp add: i_def unat_div pfd_upper_def)
  have "unat (pq_block_size (qs ! k)) \<le> 1024" using small by (simp add: word_le_nat_alt layout_consts)
  then show "unat i \<le> 128" by (simp add: i_def unat_div)
  have i1: "i \<le> 1 \<longleftrightarrow> size_of_bin (int k) div 8 \<le> 1" using i by (simp add: word_le_nat_alt pfd_upper_def)
  show "unat (if i \<le> 1 then 0 else 1 + pq_block_size (qs ! unat (pq - 1)) div 8) = pfd_lower (int k)"
  proof (cases "k = 1")
    case True
    then show ?thesis using i1 by (simp add: pfd_lower_def size_of_bin_def)
  next
    case False
    then have big: "\<not> i \<le> 1" using i1 size_of_bin_words(2) [of "int k"] k by simp
    have "unat (pq - 1) = k - 1" using k by (subst unat_sub_small) (auto simp: word_le_nat_alt)
    then have "unat (pq_block_size (qs ! unat (pq - 1))) = size_of_bin (int k - 1)"
      using sz [of "k - 1"] False k by (simp add: of_nat_diff)
    moreover have "unat (1 + x div 8) = 1 + unat x div 8" for x :: usize
      using unat_bound [of x] by (subst unat_add_small) (auto simp: unat_div)
    ultimately show ?thesis using big False k by (simp add: pfd_lower_def)
  qed
qed

text \<open>
  The table is right for the queues as they were before the first page of queue \<open>pq\<close> changed;
  the update makes it right for the queues as they are.
\<close>

lemma large_queue_not_direct:
  assumes "queue_sizes_ok qs" "1 \<le> k" "k \<le> 74" "SMALL_SIZE_MAX < pq_block_size (qs ! k)" "w < 129"
  shows "wbin w \<noteq> k"
proof (cases "k = 74")
  case True
  then show ?thesis using wbin_range [of w] assms(5) by simp
next
  case False
  then have "1024 < size_of_bin (int k)"
    using assms by (auto simp: queue_sizes_ok_def word_less_nat_alt layout_consts)
  then have "smallest_bin_fitting_size (int w * 8) \<noteq> int k"
    using large_bin_not_direct [of w "int k"] assms False by simp
  then show ?thesis using smallest_bin_small [of w] assms(5) by auto
qed

lemma heap_queue_first_update_spec:
  assumes h: "heap_at s heap = Some h" and sizes: "queue_sizes_ok (pages h)"
    and k: "unat pq = k" "1 \<le> k" "k \<le> 74"
    and old: "pages_free_direct_is_correct (pages_free_direct h) ((pages h)[k := q0]) (page_empty_ptr h)"
  shows "\<exists>pfd. heap_queue_first_update s heap pq = Inr (s\<lparr>heap_at := (heap_at s)(heap \<mapsto> h\<lparr>pages_free_direct := pfd\<rparr>)\<rparr>)
    \<and> pages_free_direct_is_correct pfd (pages h) (page_empty_ptr h)"
proof -
  let ?pfd = "pages_free_direct h" and ?emp = "page_empty_ptr h" and ?q = "pages h ! k"
  have len: "length ?pfd = 129" "length (pages h) = 75"
    and cor: "\<And>w. w < 129 \<Longrightarrow> ?pfd ! w = direct_page ((pages h)[k := q0] ! wbin w) ?emp"
    using old by (auto simp: pfd_correct_iff)
  have other: "?pfd ! w = direct_page (pages h ! wbin w) ?emp" if "w < 129" "wbin w \<noteq> k" for w
    using cor [OF that(1)] that(2) by simp
  have same: "s = s\<lparr>heap_at := (heap_at s)(heap \<mapsto> h\<lparr>pages_free_direct := ?pfd\<rparr>)\<rparr>"
    using h by (simp add: fun_upd_idem)
  have idx: "index (pages h) (unat pq) = Inr ?q" using len k by simp
  show ?thesis
  proof (cases "pq_block_size ?q > SMALL_SIZE_MAX")
    case True
    then have "pages_free_direct_is_correct ?pfd (pages h) ?emp"
      using other large_queue_not_direct [OF sizes k(2,3)] len by (simp add: pfd_correct_iff)
    moreover have "heap_queue_first_update s heap pq = Inr s"
      using True h idx by (simp add: heap_queue_first_update_def Let_def)
    ultimately show ?thesis using same by metis
  next
    case False
    then have small: "pq_block_size ?q \<le> SMALL_SIZE_MAX" by simp
    have k73: "k \<le> 73"
      using small sizes k(3) by (cases "k = 74") (auto simp: queue_sizes_ok_def layout_consts)
    define i where "i = pq_block_size ?q div 8"
    define st where "st = (if i \<le> 1 then 0 else 1 + pq_block_size (pages h ! unat (pq - 1)) div 8)"
    note b = direct_bounds [OF sizes k(1,2) k73 small, folded i_def, folded st_def]
    have range: "wbin w = k \<longleftrightarrow> unat st \<le> w \<and> w \<le> unat i" if "w < 129" for w
      using wbin_eq_iff [of w k] that k(2) k73 b by simp
    have p1: "unat (pq - 1) < 75" using k by (subst unat_sub_small) (auto simp: word_le_nat_alt)
    have upd: "heap_queue_first_update s heap pq = (if ?pfd ! unat i = direct_page ?q ?emp then Inr s
        else bindR (pfd_fill ?pfd (unat st) (unat i) (direct_page ?q ?emp)) (\<lambda>pfd.
          Inr (s\<lparr>heap_at := (heap_at s)(heap \<mapsto> h\<lparr>pages_free_direct := pfd\<rparr>)\<rparr>)))"
      using small h idx len b(2) p1
      by (auto simp: heap_queue_first_update_def Let_def i_def [symmetric] direct_page_def st_def)
    show ?thesis
    proof (cases "?pfd ! unat i = direct_page ?q ?emp")
      case True
      have "?pfd ! w = direct_page ?q ?emp" if "w < 129" "wbin w = k" for w
        using cor [of w] cor [of "unat i"] that b(1,2) pfd_upper_wbin [OF k(2) k73] len k True by simp
      then have "pages_free_direct_is_correct ?pfd (pages h) ?emp"
        using other len by (auto simp: pfd_correct_iff)
      then show ?thesis using upd True same by metis
    next
      case False
      obtain pfd' where f: "pfd_fill ?pfd (unat st) (unat i) (direct_page ?q ?emp) = Inr pfd'"
          "length pfd' = length ?pfd"
          "\<forall>w < length ?pfd. pfd' ! w = (if unat st \<le> w \<and> w \<le> unat i then direct_page ?q ?emp else ?pfd ! w)"
        using pfd_fill_spec [of "unat i" ?pfd "unat st" "direct_page ?q ?emp"] b(2) len by auto
      have "pfd' ! w = direct_page (pages h ! wbin w) ?emp" if "w < 129" for w
        using f(3) range [OF that] other [OF that] that len by auto
      then have "pages_free_direct_is_correct pfd' (pages h) ?emp" using f(2) len by (simp add: pfd_correct_iff)
      then show ?thesis using upd False f(1) by auto
    qed
  qed
qed


section \<open>The operations on lists of pages\<close>

lemma queues_ok_nth:
  assumes "queues_ok P qs Q" "k < length qs"
  shows "pq_first (qs ! k) = hd_or 0 (Q ! k)" "pq_last (qs ! k) = last_or 0 (Q ! k)"
    "dseg P 0 (Q ! k) 0" "distinct (Q ! k)"
  using assms by (auto simp: queues_ok_def)

lemma queues_ok_update:
  assumes ok: "queues_ok P qs Q" "k < length qs"
    and new: "pq_first q' = hd_or 0 ys" "pq_last q' = last_or 0 ys" "dseg P' 0 ys 0" "distinct ys"
    and rest: "\<And>j. j < length qs \<Longrightarrow> j \<noteq> k \<Longrightarrow> dseg P' 0 (Q ! j) 0 \<and> set ys \<inter> set (Q ! j) = {}"
  shows "queues_ok P' (qs[k := q']) (Q[k := ys])"
proof -
  have "length Q = length qs" using ok(1) by (simp add: queues_ok_def)
  moreover have "set (Q[k := ys] ! i) \<inter> set (Q[k := ys] ! j) = {}"
    if "i < length qs" "j < length qs" "i \<noteq> j" for i j
    using ok(1) rest that ok(2) by (cases "i = k"; cases "j = k") (auto simp: queues_ok_def Int_commute)
  ultimately show ?thesis
    using ok new rest by (auto simp: queues_ok_def nth_list_update)
qed

lemma queue_sizes_ok_update:
  "queue_sizes_ok qs \<Longrightarrow> pq_block_size q' = pq_block_size (qs ! k) \<Longrightarrow> queue_sizes_ok (qs[k := q'])"
  by (cases "k < length qs") (auto simp: queue_sizes_ok_def nth_list_update list_update_beyond)

lemma pfd_correct_same_first:
  "pages_free_direct_is_correct pfd qs emp \<Longrightarrow> pq_first q' = pq_first (qs ! k) \<Longrightarrow>
     pages_free_direct_is_correct pfd (qs[k := q']) emp"
  by (cases "k < length qs") (auto simp: pages_free_direct_is_correct_def nth_list_update list_update_beyond)

lemma upd_queue_eq:
  "heap_at s heap = Some h \<Longrightarrow> unat pq < length (pages h) \<Longrightarrow>
     upd_queue s heap pq f = Inr (s\<lparr>heap_at := (heap_at s)(heap \<mapsto> h\<lparr>pages := (pages h)[unat pq := f (pages h ! unat pq)]\<rparr>)\<rparr>)"
  by (simp add: upd_queue_def)

text \<open>What a queue operation leaves alone: a header without its links, and most of the heap.\<close>

definition body :: "Page \<Rightarrow> Page" where
  "body pg = pg\<lparr>prev_ptr := 0, next_ptr := 0\<rparr>"

lemma body_links [simp]: "body (pg\<lparr>prev_ptr := a\<rparr>) = body pg" "body (pg\<lparr>next_ptr := a\<rparr>) = body pg"
  by (simp_all add: body_def)

lemma body_fields: "body pg' = body pg \<longleftrightarrow> pcount pg' = pcount pg \<and> poffset pg' = poffset pg \<and> inner pg' = inner pg
    \<and> xthread_free pg' = xthread_free pg \<and> xheap pg' = xheap pg"
  by (cases pg; cases pg') (auto simp: body_def)

lemma set_links_body:
  "map_option body (set_next P x v y) = map_option body (P y)" "map_option body (set_prev P x v y) = map_option body (P y)"
  by (simp_all add: set_next_def set_prev_def split: option.splits)

lemma link_body:
  "map_option body (unlink P a b y) = map_option body (P y)"
  "map_option body (link_front P x pg a y) = (if y = x then Some (body pg) else map_option body (P y))"
  "map_option body (link_back P x pg a y) = (if y = x then Some (body pg) else map_option body (P y))"
  by (simp_all add: unlink_def Let_def link_front_def link_back_def set_links_body)

lemma link_same:
  assumes "y \<notin> insert x (set (us @ vs))"
  shows "unlink P (last_or 0 us) (hd_or 0 vs) y = P y" "link_front P x pg (hd_or 0 vs) y = P y" "link_back P x pg (last_or 0 us) y = P y"
proof -
  have "last_or 0 us \<noteq> 0 \<Longrightarrow> y \<noteq> last_or 0 us" "hd_or 0 vs \<noteq> 0 \<Longrightarrow> y \<noteq> hd_or 0 vs"
    using assms last_or_in [of us 0] hd_or_in [of vs 0] by (cases "us = []"; cases "vs = []"; auto)+
  then show "unlink P (last_or 0 us) (hd_or 0 vs) y = P y" "link_front P x pg (hd_or 0 vs) y = P y" "link_back P x pg (last_or 0 us) y = P y"
    using assms by (auto simp: unlink_def Let_def link_front_def link_back_def)
qed

definition same_heap :: "Heap \<Rightarrow> Heap \<Rightarrow> bool" where
  "same_heap h h' \<longleftrightarrow> (\<exists>qs pfd n. h' = h\<lparr>pages := qs, pages_free_direct := pfd, page_count := n\<rparr>)"

text \<open>
  Every queue operation ends the same way: the queue is replaced, the table is updated when
  the first page changed, and the page count is set.
\<close>

lemma finish_queue_op:
  assumes h: "heap_at s heap = Some h" and sizes: "queue_sizes_ok (pages h)"
    and k: "unat pq = k" "1 \<le> k" "k \<le> 74"
    and pfd: "pages_free_direct_is_correct (pages_free_direct h) (pages h) (page_empty_ptr h)"
    and q': "pq_block_size q' = pq_block_size (pages h ! k)" "\<not> c \<longrightarrow> pq_first q' = pq_first (pages h ! k)"
  defines "s1 \<equiv> s\<lparr>heap_at := (heap_at s)(heap \<mapsto> h\<lparr>pages := (pages h)[k := q']\<rparr>)\<rparr>"
  shows "\<exists>pfd'. bindR (if c then heap_queue_first_update s1 heap pq else Inr s1)
      (\<lambda>s. upd_heap s heap (\<lambda>h. h\<lparr>page_count := f (page_count h)\<rparr>))
    = Inr (s\<lparr>heap_at := (heap_at s)(heap \<mapsto> h\<lparr>pages := (pages h)[k := q'], pages_free_direct := pfd',
        page_count := f (page_count h)\<rparr>)\<rparr>)
    \<and> pages_free_direct_is_correct pfd' ((pages h)[k := q']) (page_empty_ptr h)"
proof (cases c)
  case False
  have "h\<lparr>pages := (pages h)[k := q']\<rparr> = h\<lparr>pages := (pages h)[k := q'], pages_free_direct := pages_free_direct h\<rparr>"
    by (cases h) simp
  then show ?thesis
    using False q'(2) pfd_correct_same_first [OF pfd, of q' k]
    by (intro exI [of _ "pages_free_direct h"]) (simp add: s1_def heap_upd)
next
  case True
  let ?h = "h\<lparr>pages := (pages h)[k := q']\<rparr>"
  have "(pages h)[k := q', k := pages h ! k] = pages h" by simp
  then obtain pfd' where "heap_queue_first_update s1 heap pq
        = Inr (s1\<lparr>heap_at := (heap_at s1)(heap \<mapsto> ?h\<lparr>pages_free_direct := pfd'\<rparr>)\<rparr>)"
      "pages_free_direct_is_correct pfd' ((pages h)[k := q']) (page_empty_ptr h)"
    using heap_queue_first_update_spec [of s1 heap ?h pq k "pages h ! k"] k pfd queue_sizes_ok_update [OF sizes q'(1)]
    by (auto simp: s1_def)
  then show ?thesis using True by (intro exI [of _ pfd']) (simp add: s1_def heap_upd)
qed

lemma finish_heap_ok:
  assumes h: "heap_at s heap = Some h" and sizes: "queue_sizes_ok (pages h)"
    and k: "unat pq = k" "1 \<le> k" "k \<le> 74"
    and pfd: "pages_free_direct_is_correct (pages_free_direct h) (pages h) (page_empty_ptr h)"
    and q': "pq_block_size q' = pq_block_size (pages h ! k)" "\<not> c \<longrightarrow> pq_first q' = pq_first (pages h ! k)"
    and qs: "queues_ok P ((pages h)[k := q']) Q'"
  defines "s1 \<equiv> s\<lparr>page_at := P, heap_at := (heap_at s)(heap \<mapsto> h\<lparr>pages := (pages h)[k := q']\<rparr>)\<rparr>"
  shows "\<exists>h'. bindR (if c then heap_queue_first_update s1 heap pq else Inr s1)
      (\<lambda>s. upd_heap s heap (\<lambda>h. h\<lparr>page_count := f (page_count h)\<rparr>))
    = Inr (s\<lparr>page_at := P, heap_at := (heap_at s)(heap \<mapsto> h')\<rparr>)
    \<and> heap_ok (s\<lparr>page_at := P, heap_at := (heap_at s)(heap \<mapsto> h')\<rparr>) heap Q' \<and> page_count h' = f (page_count h) \<and> same_heap h h'"
proof -
  have "heap_at (s\<lparr>page_at := P\<rparr>) heap = Some h" using h by simp
  from finish_queue_op [OF this sizes k pfd q', where f = f]
  obtain pfd' where "bindR (if c then heap_queue_first_update s1 heap pq else Inr s1)
        (\<lambda>s. upd_heap s heap (\<lambda>h. h\<lparr>page_count := f (page_count h)\<rparr>))
      = Inr (s\<lparr>page_at := P, heap_at := (heap_at s)(heap \<mapsto> h\<lparr>pages := (pages h)[k := q'], pages_free_direct := pfd',
          page_count := f (page_count h)\<rparr>)\<rparr>)"
    "pages_free_direct_is_correct pfd' ((pages h)[k := q']) (page_empty_ptr h)"
    unfolding s1_def by (auto cong: if_cong)
  then show ?thesis using qs queue_sizes_ok_update [OF sizes q'(1)]
    by (intro exI [of _ "h\<lparr>pages := (pages h)[k := q'], pages_free_direct := pfd', page_count := f (page_count h)\<rparr>"])
       (auto simp: heap_ok_def same_heap_def)
qed

lemma heap_okE:
  assumes "heap_ok s heap Q" "k \<le> 74"
  obtains h where "heap_at s heap = Some h" "queues_ok (page_at s) (pages h) Q" "queue_sizes_ok (pages h)"
    "pages_free_direct_is_correct (pages_free_direct h) (pages h) (page_empty_ptr h)" "k < length (pages h)"
  using assms by (auto simp: heap_ok_def queue_sizes_ok_def layout_consts split: option.splits)

lemma queues_disjoint:
  "queues_ok P qs Q \<Longrightarrow> i < length qs \<Longrightarrow> j < length qs \<Longrightarrow> i \<noteq> j \<Longrightarrow> set (Q ! i) \<inter> set (Q ! j) = {}"
  unfolding queues_ok_def by blast

text \<open>Taking a page out of queue \<open>k\<close>.\<close>

lemma queues_ok_unlink:
  assumes qs: "queues_ok P qs Q" "k < length qs" and Qk: "Q ! k = us @ x # vs"
    and q': "pq_first q' = hd_or 0 (us @ vs)" "pq_last q' = last_or 0 (us @ vs)"
  shows "queues_ok (unlink P (last_or 0 us) (hd_or 0 vs)) (qs[k := q']) (Q[k := us @ vs])"
proof -
  note q = queues_ok_nth [OF qs, unfolded Qk]
  have segs: "dseg P 0 us x" "dseg P x vs 0" using q(3) by (auto simp: dseg_append)
  show ?thesis
  proof (rule queues_ok_update [OF qs q'])
    show "dseg (unlink P (last_or 0 us) (hd_or 0 vs)) 0 (us @ vs) 0" using dseg_join [OF segs] q(4) by auto
    show "distinct (us @ vs)" using q(4) by auto
    fix j assume j: "j < length qs" "j \<noteq> k"
    have dj: "set (Q ! k) \<inter> set (Q ! j) = {}" using queues_disjoint [OF qs(1) qs(2) j(1)] j(2) by auto
    have "0 \<notin> set (Q ! j)" using dseg_nonnull queues_ok_nth(3) [OF qs(1) j(1)] by blast
    then have "last_or 0 us \<notin> set (Q ! j)" "hd_or 0 vs \<notin> set (Q ! j)"
      using last_or_in [of us 0] hd_or_in [of vs 0] dj Qk by (cases "us = []"; cases "vs = []"; auto)+
    then show "dseg (unlink P (last_or 0 us) (hd_or 0 vs)) 0 (Q ! j) 0 \<and> set (us @ vs) \<inter> set (Q ! j) = {}"
      using queues_ok_nth(3) [OF qs(1) j(1)] dj Qk by (auto simp: dseg_unlink_other)
  qed
qed

lemma page_queue_remove_unfold:
  assumes "page_at s page = Some pg" "prev_ptr pg = prev" "next_ptr pg = nxt"
    "prev \<noteq> 0 \<Longrightarrow> prev \<in> dom (page_at s)" "nxt \<noteq> 0 \<Longrightarrow> nxt \<in> dom (page_at s)"
  shows "page_queue_remove s heap pq page =
     bindR (upd_queue (s\<lparr>page_at := unlink (page_at s) prev nxt\<rparr>) heap pq (\<lambda>cq.
        let cq = (if nxt = 0 then cq\<lparr>pq_last := prev\<rparr> else cq) in
        if prev = 0 then cq\<lparr>pq_first := nxt\<rparr> else cq)) (\<lambda>s.
     bindR (if prev = 0 then heap_queue_first_update s heap pq else Inr s) (\<lambda>s.
     upd_heap s heap (\<lambda>h. h\<lparr>page_count := page_count h - 1\<rparr>)))"
proof -
  have "fetch (page_at s) page = Inr pg" using assms(1) by simp
  then have "page_queue_remove s heap pq page =
     bindR (if prev \<noteq> 0 then upd_page s prev (\<lambda>g. g\<lparr>next_ptr := nxt\<rparr>) else Inr s) (\<lambda>s.
     bindR (if nxt \<noteq> 0 then upd_page s nxt (\<lambda>g. g\<lparr>prev_ptr := prev\<rparr>) else Inr s) (\<lambda>s.
     bindR (upd_queue s heap pq (\<lambda>cq.
        let cq = (if nxt = 0 then cq\<lparr>pq_last := prev\<rparr> else cq) in
        if prev = 0 then cq\<lparr>pq_first := nxt\<rparr> else cq)) (\<lambda>s.
     bindR (if prev = 0 then heap_queue_first_update s heap pq else Inr s) (\<lambda>s.
     upd_heap s heap (\<lambda>h. h\<lparr>page_count := page_count h - 1\<rparr>)))))"
    by (simp only: page_queue_remove_def bindR_simps Let_def assms(2,3))
  then show ?thesis by (rule trans) (rule upd_neighbours [OF assms(4,5)])
qed

lemma page_queue_remove_spec:
  assumes ok: "heap_ok s heap Q" and k: "unat pq = k" "1 \<le> k" "k \<le> 74" and Qk: "Q ! k = us @ page # vs"
  shows "\<exists>P h h'. heap_at s heap = Some h
    \<and> page_queue_remove s heap pq page = Inr (s\<lparr>page_at := P, heap_at := (heap_at s)(heap \<mapsto> h')\<rparr>)
    \<and> heap_ok (s\<lparr>page_at := P, heap_at := (heap_at s)(heap \<mapsto> h')\<rparr>) heap (Q[k := us @ vs])
    \<and> page_count h' = page_count h - 1 \<and> dom P = dom (page_at s)
    \<and> (\<forall>y. map_option inner (P y) = map_option inner (page_at s y))
    \<and> same_heap h h' \<and> (\<forall>y. map_option body (P y) = map_option body (page_at s y)) \<and> (\<forall>y. y \<notin> set (Q ! k) \<longrightarrow> P y = page_at s y)"
proof -
  obtain h where h: "heap_at s heap = Some h" and qs: "queues_ok (page_at s) (pages h) Q"
    and sizes: "queue_sizes_ok (pages h)"
    and pfd: "pages_free_direct_is_correct (pages_free_direct h) (pages h) (page_empty_ptr h)"
    and kl: "k < length (pages h)" using heap_okE [OF ok k(3)] .
  note q = queues_ok_nth [OF qs kl, unfolded Qk]
  let ?prev = "last_or 0 us" and ?nxt = "hd_or 0 vs"
  obtain pg where pg: "page_at s page = Some pg" using dseg_mem [OF q(3), of page] by auto
  note mid = dseg_middle [OF q(3) pg]
  have segs: "dseg (page_at s) 0 us page" "dseg (page_at s) page vs 0" using q(3) by (auto simp: dseg_append)
  have p0: "?prev = 0 \<longleftrightarrow> us = []" "?nxt = 0 \<longleftrightarrow> vs = []"
    using last_or_zero [OF segs(1)] hd_or_zero [OF segs(2)] by auto
  then have dm: "?prev \<noteq> 0 \<Longrightarrow> ?prev \<in> dom (page_at s)" "?nxt \<noteq> 0 \<Longrightarrow> ?nxt \<in> dom (page_at s)"
    using dseg_mem [OF q(3)] last_or_in [of us 0] hd_or_in [of vs 0] by auto
  define q' where "q' = (let cq = (if ?nxt = 0 then (pages h ! k)\<lparr>pq_last := ?prev\<rparr> else pages h ! k) in
        if ?prev = 0 then cq\<lparr>pq_first := ?nxt\<rparr> else cq)"
  have q'f: "pq_first q' = hd_or 0 (us @ vs)" "pq_last q' = last_or 0 (us @ vs)"
    "pq_block_size q' = pq_block_size (pages h ! k)" "\<not> ?prev = 0 \<longrightarrow> pq_first q' = pq_first (pages h ! k)"
    using q(1,2) p0 by (cases us; cases vs; simp add: q'_def Let_def hd_or_append last_or_append)+
  let ?s1 = "s\<lparr>page_at := unlink (page_at s) ?prev ?nxt, heap_at := (heap_at s)(heap \<mapsto> h\<lparr>pages := (pages h)[k := q']\<rparr>)\<rparr>"
  have "page_queue_remove s heap pq page = bindR (if ?prev = 0 then heap_queue_first_update ?s1 heap pq else Inr ?s1)
      (\<lambda>s. upd_heap s heap (\<lambda>h. h\<lparr>page_count := page_count h - 1\<rparr>))"
    using h kl k(1) by (simp add: page_queue_remove_unfold [OF pg mid(1,2) dm] upd_queue_eq q'_def)
  with finish_heap_ok [OF h sizes k pfd q'f(3,4) queues_ok_unlink [OF qs kl Qk q'f(1,2)], where f = "\<lambda>c. c - 1"]
  obtain h' where "page_queue_remove s heap pq page
        = Inr (s\<lparr>page_at := unlink (page_at s) ?prev ?nxt, heap_at := (heap_at s)(heap \<mapsto> h')\<rparr>)"
      "heap_ok (s\<lparr>page_at := unlink (page_at s) ?prev ?nxt, heap_at := (heap_at s)(heap \<mapsto> h')\<rparr>) heap (Q[k := us @ vs])"
      "page_count h' = page_count h - 1" "same_heap h h'"
    by auto
  moreover have "\<forall>y. y \<notin> set (Q ! k) \<longrightarrow> unlink (page_at s) ?prev ?nxt y = page_at s y" using link_same(1) [of _ page us vs] Qk by auto
  ultimately show ?thesis using h link_inner(1) link_body(1) link_dom(1) by blast
qed

text \<open>Putting a page that is in no queue into queue \<open>k\<close>.\<close>

lemma queues_ok_link:
  assumes qs: "queues_ok P qs Q" "k < length qs" and x: "x \<noteq> 0" "\<forall>i < length qs. x \<notin> set (Q ! i)"
  shows "pq_first q' = x \<Longrightarrow> pq_last q' = last_or x (Q ! k) \<Longrightarrow>
      queues_ok (link_front P x pg (hd_or 0 (Q ! k))) (qs[k := q']) (Q[k := x # Q ! k])"
    "pq_first q' = hd_or x (Q ! k) \<Longrightarrow> pq_last q' = x \<Longrightarrow>
      queues_ok (link_back P x pg (last_or 0 (Q ! k))) (qs[k := q']) (Q[k := Q ! k @ [x]])"
proof -
  note q = queues_ok_nth [OF qs]
  have xk: "x \<notin> set (Q ! k)" using x(2) qs(2) by blast
  have ends: "hd_or 0 (Q ! k) \<notin> set (Q ! j)" "last_or 0 (Q ! k) \<notin> set (Q ! j)" "x \<notin> set (Q ! j)"
    "set (Q ! k) \<inter> set (Q ! j) = {}" "dseg P 0 (Q ! j) 0" if j: "j < length qs" "j \<noteq> k" for j
  proof -
    show dj: "set (Q ! k) \<inter> set (Q ! j) = {}" using queues_disjoint [OF qs(1) qs(2) j(1)] j(2) by auto
    show d: "dseg P 0 (Q ! j) 0" by (rule queues_ok_nth(3) [OF qs(1) j(1)])
    show "x \<notin> set (Q ! j)" using x(2) j(1) by blast
    show "hd_or 0 (Q ! k) \<notin> set (Q ! j)" "last_or 0 (Q ! k) \<notin> set (Q ! j)"
      using dseg_nonnull [OF d] hd_or_in [of "Q ! k" 0] last_or_in [of "Q ! k" 0] dj by (cases "Q ! k = []"; auto)+
  qed
  show "pq_first q' = x \<Longrightarrow> pq_last q' = last_or x (Q ! k) \<Longrightarrow>
      queues_ok (link_front P x pg (hd_or 0 (Q ! k))) (qs[k := q']) (Q[k := x # Q ! k])"
    using q xk x(1) ends by (intro queues_ok_update [OF qs]) (auto simp: dseg_link_front_other dseg_link_front simp del: dseg.simps)
  show "pq_first q' = hd_or x (Q ! k) \<Longrightarrow> pq_last q' = x \<Longrightarrow>
      queues_ok (link_back P x pg (last_or 0 (Q ! k))) (qs[k := q']) (Q[k := Q ! k @ [x]])"
    using q xk x(1) ends
    by (intro queues_ok_update [OF qs]) (auto simp: dseg_link_back_other dseg_link_back hd_or_append last_or_append)
qed

lemma page_queue_push_unfold:
  assumes pg: "page_at s page = Some pg" and h: "heap_at s heap = Some h" and k: "unat pq < length (pages h)"
    and first: "pq_first (pages h ! unat pq) = first" "first \<noteq> page" "first \<noteq> 0 \<longrightarrow> first \<in> dom (page_at s)"
  defines "pg1 \<equiv> pg\<lparr>inner := set_in_full (pq = BIN_FULL) (inner pg)\<rparr>"
    and "q' \<equiv> (let cq = (pages h ! unat pq)\<lparr>pq_first := page\<rparr> in if first = 0 then cq\<lparr>pq_last := page\<rparr> else cq)"
  defines "s1 \<equiv> s\<lparr>page_at := link_front (page_at s) page pg1 first,
      heap_at := (heap_at s)(heap \<mapsto> h\<lparr>pages := (pages h)[unat pq := q']\<rparr>)\<rparr>"
  shows "page_queue_push s heap pq page = bindR (heap_queue_first_update s1 heap pq)
    (\<lambda>s. upd_heap s heap (\<lambda>h. h\<lparr>page_count := page_count h + 1\<rparr>))"
proof (cases "first = 0")
  case True
  then have "link_front (page_at s) page pg1 first = (page_at s)(page \<mapsto> pg1\<lparr>prev_ptr := 0, next_ptr := first\<rparr>)"
    by (simp add: link_front_def)
  then show ?thesis
    using pg h k first True
    by (simp add: page_queue_push_def upd_inner_eq get_queue_def Let_def upd_queue_eq upd_page_eq s1_def q'_def pg1_def page_heap_commute)
next
  case False
  then obtain fg where fg: "page_at s first = Some fg" using first(3) by auto
  have "link_front (page_at s) page pg1 first
      = (page_at s)(page \<mapsto> pg1, first \<mapsto> fg\<lparr>prev_ptr := page\<rparr>, page \<mapsto> pg1\<lparr>prev_ptr := 0\<rparr>, page \<mapsto> pg1\<lparr>prev_ptr := 0, next_ptr := first\<rparr>)"
    using link_front_eq [OF first(2), of "page_at s" pg1 pg1] fg False first(2) by (simp add: set_prev_eq)
  then show ?thesis
    using pg h k first False fg
    by (simp add: page_queue_push_def upd_inner_eq get_queue_def Let_def upd_queue_eq upd_page_eq s1_def q'_def pg1_def page_heap_commute)
qed

lemma page_queue_push_spec:
  assumes ok: "heap_ok s heap Q" and k: "unat pq = k" "1 \<le> k" "k \<le> 74"
    and page: "page \<noteq> 0" "page_at s page = Some pg" "\<forall>i \<le> 74. page \<notin> set (Q ! i)"
  shows "\<exists>P h h'. heap_at s heap = Some h
    \<and> page_queue_push s heap pq page = Inr (s\<lparr>page_at := P, heap_at := (heap_at s)(heap \<mapsto> h')\<rparr>)
    \<and> heap_ok (s\<lparr>page_at := P, heap_at := (heap_at s)(heap \<mapsto> h')\<rparr>) heap (Q[k := page # Q ! k])
    \<and> page_count h' = page_count h + 1 \<and> dom P = dom (page_at s)
    \<and> (\<forall>y. map_option inner (P y) = (if y = page then Some (set_in_full (pq = BIN_FULL) (inner pg))
          else map_option inner (page_at s y)))
    \<and> same_heap h h' \<and> (\<forall>y. map_option body (P y) = (if y = page then Some (body (pg\<lparr>inner := set_in_full (pq = BIN_FULL) (inner pg)\<rparr>))
          else map_option body (page_at s y))) \<and> (\<forall>y. y \<notin> insert page (set (Q ! k)) \<longrightarrow> P y = page_at s y)"
proof -
  obtain h where h: "heap_at s heap = Some h" and qs: "queues_ok (page_at s) (pages h) Q"
    and sizes: "queue_sizes_ok (pages h)"
    and pfd: "pages_free_direct_is_correct (pages_free_direct h) (pages h) (page_empty_ptr h)"
    and kl: "k < length (pages h)" using heap_okE [OF ok k(3)] .
  have len: "length (pages h) = 75" using sizes by (simp add: queue_sizes_ok_def layout_consts)
  note q = queues_ok_nth [OF qs kl]
  let ?first = "hd_or 0 (Q ! k)"
  let ?pg1 = "pg\<lparr>inner := set_in_full (pq = BIN_FULL) (inner pg)\<rparr>"
  define q' where "q' = (let cq = (pages h ! k)\<lparr>pq_first := page\<rparr> in if ?first = 0 then cq\<lparr>pq_last := page\<rparr> else cq)"
  have f0: "?first = 0 \<longleftrightarrow> Q ! k = []" by (rule hd_or_zero [OF q(3)])
  have fd: "?first \<noteq> page" "?first \<noteq> 0 \<longrightarrow> ?first \<in> dom (page_at s)"
    using page(1,3) k(3) hd_or_in [of "Q ! k" 0] dseg_mem [OF q(3)] f0 by (cases "Q ! k = []"; auto)+
  have q'f: "pq_first q' = page" "pq_last q' = last_or page (Q ! k)" "pq_block_size q' = pq_block_size (pages h ! k)"
    using q(2) f0 by (cases "Q ! k"; simp add: q'_def)+
  have "\<forall>i < length (pages h). page \<notin> set (Q ! i)" using page(3) len by auto
  note ql = queues_ok_link(1) [OF qs kl page(1) this q'f(1,2)]
  have "\<not> True \<longrightarrow> pq_first q' = pq_first (pages h ! k)" by simp
  from finish_heap_ok [OF h sizes k pfd q'f(3) this ql, where f = "\<lambda>c. c + 1"]
    page_queue_push_unfold [OF page(2) h _ _ fd, of pq] kl k(1) q(1)
  obtain h' where "page_queue_push s heap pq page
        = Inr (s\<lparr>page_at := link_front (page_at s) page ?pg1 ?first, heap_at := (heap_at s)(heap \<mapsto> h')\<rparr>)"
      "heap_ok (s\<lparr>page_at := link_front (page_at s) page ?pg1 ?first, heap_at := (heap_at s)(heap \<mapsto> h')\<rparr>) heap (Q[k := page # Q ! k])"
      "page_count h' = page_count h + 1" "same_heap h h'"
    by (auto simp: q'_def)
  moreover have "dom (link_front (page_at s) page ?pg1 ?first) = dom (page_at s)" using page(2) by (auto simp: link_dom)
  moreover have "map_option inner (link_front (page_at s) page ?pg1 ?first y)
      = (if y = page then Some (set_in_full (pq = BIN_FULL) (inner pg)) else map_option inner (page_at s y))" for y
    by (simp add: link_inner)
  moreover have "map_option body (link_front (page_at s) page ?pg1 ?first y) = (if y = page then Some (body ?pg1) else map_option body (page_at s y))" for y
    by (simp add: link_body)
  moreover have "link_front (page_at s) page ?pg1 ?first y = page_at s y" if "y \<notin> insert page (set (Q ! k))" for y
    using link_same(2) [of y page "[]" "Q ! k"] that by simp
  ultimately show ?thesis using h by blast
qed

lemma page_queue_push_back_unfold:
  assumes pg: "page_at s page = Some pg" and h: "heap_at s heap = Some h" and k: "unat pq < length (pages h)"
    and lst: "pq_last (pages h ! unat pq) = last_x" "last_x \<noteq> page" "last_x \<noteq> 0 \<longrightarrow> last_x \<in> dom (page_at s)"
  defines "pg1 \<equiv> pg\<lparr>inner := set_in_full (pq = BIN_FULL) (inner pg)\<rparr>"
    and "q' \<equiv> (let cq = (pages h ! unat pq)\<lparr>pq_last := page\<rparr> in if last_x = 0 then cq\<lparr>pq_first := page\<rparr> else cq)"
  defines "s1 \<equiv> s\<lparr>page_at := link_back (page_at s) page pg1 last_x,
      heap_at := (heap_at s)(heap \<mapsto> h\<lparr>pages := (pages h)[unat pq := q']\<rparr>)\<rparr>"
  shows "page_queue_push_back s heap pq page = bindR (if last_x = 0 then heap_queue_first_update s1 heap pq else Inr s1)
    (\<lambda>s. upd_heap s heap (\<lambda>h. h\<lparr>page_count := page_count h + 1\<rparr>))"
proof (cases "last_x = 0")
  case True
  then have "link_back (page_at s) page pg1 last_x = (page_at s)(page \<mapsto> pg1\<lparr>next_ptr := 0, prev_ptr := last_x\<rparr>)"
    by (simp add: link_back_def)
  then show ?thesis
    using pg h k lst True
    by (simp add: page_queue_push_back_def upd_inner_eq get_queue_def Let_def upd_queue_eq upd_page_eq s1_def q'_def pg1_def page_heap_commute)
next
  case False
  then obtain fg where fg: "page_at s last_x = Some fg" using lst(3) by auto
  have "link_back (page_at s) page pg1 last_x
      = (page_at s)(page \<mapsto> pg1\<lparr>next_ptr := 0, prev_ptr := last_x\<rparr>, last_x \<mapsto> fg\<lparr>next_ptr := page\<rparr>)"
    using link_back_eq [OF lst(2), of "page_at s" pg1] fg False lst(2) by (simp add: set_next_eq)
  then show ?thesis
    using pg h k lst False fg
    by (simp add: page_queue_push_back_def upd_inner_eq get_queue_def Let_def upd_queue_eq upd_page_eq s1_def q'_def pg1_def page_heap_commute)
qed

lemma page_queue_push_back_spec:
  assumes ok: "heap_ok s heap Q" and k: "unat pq = k" "1 \<le> k" "k \<le> 74"
    and page: "page \<noteq> 0" "page_at s page = Some pg" "\<forall>i \<le> 74. page \<notin> set (Q ! i)"
  shows "\<exists>P h h'. heap_at s heap = Some h
    \<and> page_queue_push_back s heap pq page = Inr (s\<lparr>page_at := P, heap_at := (heap_at s)(heap \<mapsto> h')\<rparr>)
    \<and> heap_ok (s\<lparr>page_at := P, heap_at := (heap_at s)(heap \<mapsto> h')\<rparr>) heap (Q[k := Q ! k @ [page]])
    \<and> page_count h' = page_count h + 1 \<and> dom P = dom (page_at s)
    \<and> (\<forall>y. map_option inner (P y) = (if y = page then Some (set_in_full (pq = BIN_FULL) (inner pg))
          else map_option inner (page_at s y)))
    \<and> same_heap h h' \<and> (\<forall>y. map_option body (P y) = (if y = page then Some (body (pg\<lparr>inner := set_in_full (pq = BIN_FULL) (inner pg)\<rparr>))
          else map_option body (page_at s y))) \<and> (\<forall>y. y \<notin> insert page (set (Q ! k)) \<longrightarrow> P y = page_at s y)"
proof -
  obtain h where h: "heap_at s heap = Some h" and qs: "queues_ok (page_at s) (pages h) Q"
    and sizes: "queue_sizes_ok (pages h)"
    and pfd: "pages_free_direct_is_correct (pages_free_direct h) (pages h) (page_empty_ptr h)"
    and kl: "k < length (pages h)" using heap_okE [OF ok k(3)] .
  have len: "length (pages h) = 75" using sizes by (simp add: queue_sizes_ok_def layout_consts)
  note q = queues_ok_nth [OF qs kl]
  let ?lst = "last_or 0 (Q ! k)"
  let ?pg1 = "pg\<lparr>inner := set_in_full (pq = BIN_FULL) (inner pg)\<rparr>"
  define q' where "q' = (let cq = (pages h ! k)\<lparr>pq_last := page\<rparr> in if ?lst = 0 then cq\<lparr>pq_first := page\<rparr> else cq)"
  have f0: "?lst = 0 \<longleftrightarrow> Q ! k = []" by (rule last_or_zero [OF q(3)])
  have fd: "?lst \<noteq> page" "?lst \<noteq> 0 \<longrightarrow> ?lst \<in> dom (page_at s)"
    using page(1,3) k(3) last_or_in [of "Q ! k" 0] dseg_mem [OF q(3)] f0 by (cases "Q ! k = []"; auto)+
  have q'f: "pq_first q' = hd_or page (Q ! k)" "pq_last q' = page" "pq_block_size q' = pq_block_size (pages h ! k)"
    "\<not> ?lst = 0 \<longrightarrow> pq_first q' = pq_first (pages h ! k)"
    using q(1) f0 by (cases "Q ! k"; simp add: q'_def)+
  have "\<forall>i < length (pages h). page \<notin> set (Q ! i)" using page(3) len by auto
  note ql = queues_ok_link(2) [OF qs kl page(1) this q'f(1,2), of ?pg1]
  let ?s1 = "s\<lparr>page_at := link_back (page_at s) page ?pg1 ?lst, heap_at := (heap_at s)(heap \<mapsto> h\<lparr>pages := (pages h)[k := q']\<rparr>)\<rparr>"
  have unf: "page_queue_push_back s heap pq page = bindR (if ?lst = 0 then heap_queue_first_update ?s1 heap pq else Inr ?s1)
      (\<lambda>s. upd_heap s heap (\<lambda>h. h\<lparr>page_count := page_count h + 1\<rparr>))"
    unfolding q'_def by (rule page_queue_push_back_unfold [OF page(2) h, of pq ?lst, unfolded k(1), OF kl q(2) fd])
  obtain h' where "page_queue_push_back s heap pq page
        = Inr (s\<lparr>page_at := link_back (page_at s) page ?pg1 ?lst, heap_at := (heap_at s)(heap \<mapsto> h')\<rparr>)"
      "heap_ok (s\<lparr>page_at := link_back (page_at s) page ?pg1 ?lst, heap_at := (heap_at s)(heap \<mapsto> h')\<rparr>) heap (Q[k := Q ! k @ [page]])"
      "page_count h' = page_count h + 1" "same_heap h h'"
    using finish_heap_ok [OF h sizes k pfd q'f(3,4) ql, where f = "\<lambda>c. c + 1", folded unf] by blast
  moreover have "dom (link_back (page_at s) page ?pg1 ?lst) = dom (page_at s)" using page(2) by (auto simp: link_dom)
  moreover have "map_option inner (link_back (page_at s) page ?pg1 ?lst y)
      = (if y = page then Some (set_in_full (pq = BIN_FULL) (inner pg)) else map_option inner (page_at s y))" for y
    by (simp add: link_inner)
  moreover have "map_option body (link_back (page_at s) page ?pg1 ?lst y) = (if y = page then Some (body ?pg1) else map_option body (page_at s y))" for y
    by (simp add: link_body)
  moreover have "link_back (page_at s) page ?pg1 ?lst y = page_at s y" if "y \<notin> insert page (set (Q ! k))" for y
    using link_same(3) [of y page "Q ! k" "[]"] that by simp
  ultimately show ?thesis using h by blast
qed


section \<open>The interface of the queues\<close>

text \<open>
  What the page code relies on: a page can be taken out of its queue and put at the back of
  another, and the lists say where every page is.
\<close>

locale page_queues =
  fixes ok :: "st \<Rightarrow> usize \<Rightarrow> usize list list \<Rightarrow> bool"
    and remove push_back :: "st \<Rightarrow> usize \<Rightarrow> usize \<Rightarrow> usize \<Rightarrow> st res"
  assumes remove: "ok s heap Q \<Longrightarrow> 1 \<le> unat pq \<Longrightarrow> unat pq \<le> 74 \<Longrightarrow> Q ! unat pq = us @ page # vs \<Longrightarrow>
      \<exists>s'. remove s heap pq page = Inr s' \<and> ok s' heap (Q[unat pq := us @ vs]) \<and> dom (page_at s') = dom (page_at s)"
    and push_back: "ok s heap Q \<Longrightarrow> 1 \<le> unat pq \<Longrightarrow> unat pq \<le> 74 \<Longrightarrow> page \<noteq> 0 \<Longrightarrow> page \<in> dom (page_at s) \<Longrightarrow>
      \<forall>i \<le> 74. page \<notin> set (Q ! i) \<Longrightarrow>
      \<exists>s'. push_back s heap pq page = Inr s' \<and> ok s' heap (Q[unat pq := Q ! unat pq @ [page]])
        \<and> dom (page_at s') = dom (page_at s)"
    and queued: "ok s heap Q \<Longrightarrow> i \<le> 74 \<Longrightarrow> page \<in> set (Q ! i) \<Longrightarrow>
      page \<noteq> 0 \<and> page \<in> dom (page_at s) \<and> distinct (Q ! i) \<and> (\<forall>j \<le> 74. j \<noteq> i \<longrightarrow> page \<notin> set (Q ! j))"
    and queue_count: "ok s heap Q \<Longrightarrow> length Q = 75"
begin

lemma move_to_back:
  assumes ok: "ok s heap Q" and f: "1 \<le> unat from" "unat from \<le> 74" "Q ! unat from = us @ page # vs"
    and t: "1 \<le> unat to" "unat to \<le> 74" "unat to \<noteq> unat from"
  shows "\<exists>s'. bindR (remove s heap from page) (\<lambda>s. push_back s heap to page) = Inr s'
    \<and> ok s' heap (Q[unat from := us @ vs, unat to := Q ! unat to @ [page]]) \<and> dom (page_at s') = dom (page_at s)"
proof -
  obtain s1 where s1: "remove s heap from page = Inr s1" "ok s1 heap (Q[unat from := us @ vs])"
    "dom (page_at s1) = dom (page_at s)" using remove [OF ok f] by blast
  have q: "page \<noteq> 0" "page \<in> dom (page_at s)" "distinct (us @ page # vs)" "\<forall>j \<le> 74. j \<noteq> unat from \<longrightarrow> page \<notin> set (Q ! j)"
    using queued [OF ok f(2), of page] f(3) by auto
  then have "\<forall>i \<le> 74. page \<notin> set (Q[unat from := us @ vs] ! i)"
    using queue_count [OF ok] f(2) by (auto simp: nth_list_update)
  with push_back [OF s1(2) t(1,2) q(1)] q(2) s1(3)
  obtain s' where "push_back s1 heap to page = Inr s'"
    "ok s' heap (Q[unat from := us @ vs, unat to := Q[unat from := us @ vs] ! unat to @ [page]])"
    "dom (page_at s') = dom (page_at s1)" by auto
  then show ?thesis using s1 t(3) by simp
qed

end

interpretation heap_queues: page_queues heap_ok page_queue_remove page_queue_push_back
proof
  fix s heap Q and pq page :: usize and us vs
  assume "heap_ok s heap Q" "1 \<le> unat pq" "unat pq \<le> 74" "Q ! unat pq = us @ page # vs"
  from page_queue_remove_spec [OF this(1) refl this(2-4)]
  show "\<exists>s'. page_queue_remove s heap pq page = Inr s' \<and> heap_ok s' heap (Q[unat pq := us @ vs]) \<and> dom (page_at s') = dom (page_at s)"
    by auto
next
  fix s heap Q and pq page :: usize
  assume "heap_ok s heap Q" "1 \<le> unat pq" "unat pq \<le> 74" "page \<noteq> 0" "page \<in> dom (page_at s)" "\<forall>i \<le> 74. page \<notin> set (Q ! i)"
  from page_queue_push_back_spec [OF this(1) refl this(2-4) _ this(6)] this(5)
  show "\<exists>s'. page_queue_push_back s heap pq page = Inr s' \<and> heap_ok s' heap (Q[unat pq := Q ! unat pq @ [page]])
      \<and> dom (page_at s') = dom (page_at s)" by fastforce
next
  fix s heap Q i page
  assume a: "heap_ok s heap Q" "i \<le> 74" "page \<in> set (Q ! i)"
  obtain h :: Heap where h: "queues_ok (page_at s) (pages h) Q" "queue_sizes_ok (pages h)" "i < length (pages h)"
    by (rule heap_okE [OF a(1,2)])
  note q = queues_ok_nth [OF h(1,3)]
  have "page \<notin> set (Q ! j)" if "j \<le> 74" "j \<noteq> i" for j
    using queues_disjoint [OF h(1,3), of j] h(2) that a(3) by (auto simp: queue_sizes_ok_def layout_consts)
  then show "page \<noteq> 0 \<and> page \<in> dom (page_at s) \<and> distinct (Q ! i) \<and> (\<forall>j \<le> 74. j \<noteq> i \<longrightarrow> page \<notin> set (Q ! j))"
    using dseg_nonnull [OF q(3)] dseg_mem [OF q(3) a(3)] q(4) a(3) by auto
next
  fix s heap Q
  assume a: "heap_ok s heap Q"
  obtain h :: Heap where "queues_ok (page_at s) (pages h) Q" "queue_sizes_ok (pages h)"
    using heap_okE [OF a, of 0] by auto
  then show "length Q = 75" by (simp add: queues_ok_def queue_sizes_ok_def layout_consts)
qed


section \<open>The initial tables\<close>

lemma pages_tmp_sizes: "map pq_block_size pages_tmp = 8 # map of_nat (map size_of_bin [1..73]) @ [8 * (524288 + 2)]"
  unfolding size_of_bin_table by (simp add: pages_tmp_def PageQueue_empty_def layout_consts)

lemma pages_tmp_empty: "length pages_tmp = 75" "\<forall>q \<in> set pages_tmp. pq_first q = 0 \<and> pq_last q = 0"
  by (simp_all add: pages_tmp_def PageQueue_empty_def)

lemma pages_tmp_ok: "queue_sizes_ok pages_tmp"
proof -
  have nth: "pq_block_size (pages_tmp ! i) = (8 # map of_nat (map size_of_bin [1..73]) @ [8 * (524288 + 2)]) ! i" if "i < 75" for i
    using that pages_tmp_empty(1) by (metis nth_map pages_tmp_sizes)
  have "unat (pq_block_size (pages_tmp ! i)) = size_of_bin (int i)" if i: "1 \<le> i" "i \<le> 73" for i
  proof -
    have "pq_block_size (pages_tmp ! i) = of_nat (size_of_bin (int i))"
      using nth [of i] i by (cases i) (simp_all add: nth_append nth_upto)
    moreover have "size_of_bin (int i) \<le> size_of_bin 73"
      using size_of_bin_strict_mono [of "int i" 73] i by (cases "i = 73") auto
    then have "size_of_bin (int i) < 2 ^ LENGTH(64)" by (simp add: size_of_bin_def)
    ultimately show ?thesis by (simp add: unat_of_nat_small)
  qed
  then show ?thesis
    using nth [of 0] nth [of 74] pages_tmp_empty(1)
    by (simp add: queue_sizes_ok_def layout_consts nth_append)
qed

lemma initial_tables_ok:
  assumes "heap_at s heap = Some h" "pages h = pages_tmp" "pages_free_direct h = replicate 129 (page_empty_ptr h)"
  shows "heap_ok s heap (replicate 75 [])"
proof -
  have first: "pq_first (pages_tmp ! i) = 0" "pq_last (pages_tmp ! i) = 0" if "i < 75" for i
    using pages_tmp_empty that by auto
  have "queues_ok (page_at s) pages_tmp (replicate 75 [])"
    using first pages_tmp_empty(1) by (auto simp: queues_ok_def)
  moreover have "direct_page (pages_tmp ! wbin w) e = e" if "w < 129" for w e
    using wbin_range [of w] that first [of "wbin w"] by (simp add: direct_page_def)
  then have "pages_free_direct_is_correct (replicate 129 (page_empty_ptr h)) pages_tmp (page_empty_ptr h)"
    using pages_tmp_empty(1) by (simp add: pfd_correct_iff)
  ultimately show ?thesis using assms pages_tmp_ok by (simp add: heap_ok_def)
qed

text \<open>A heap at address 5000 with no page queued, and one page header at address 1000.\<close>

definition queue_example :: st where
  "queue_example = \<lparr>page_at = [1000 \<mapsto> zeroed_page], segment_at = Map.empty,
     heap_at = [5000 \<mapsto> \<lparr>tld_ptr = 9000, pages_free_direct = replicate 129 7000, pages = pages_tmp,
       thread_delayed_free = 0, heap_thread_id = 1, arena_id = 0, page_count = 0, page_retired_min = 0,
       page_retired_max = 0, no_reclaim = False, page_empty_ptr = 7000\<rparr>],
     tld_at = Map.empty, node_at = Map.empty, os_prot = Map.empty, aligned_base = 0, thread_count = 0, sys_calls = 0\<rparr>"

lemma queue_example_ok: "heap_ok queue_example 5000 (replicate 75 [])"
  by (rule initial_tables_ok) (auto simp: queue_example_def)


lemma queue_example_pushed: "\<exists>s. heap_ok s 5000 ((replicate 75 [])[3 := [1000]])"
  using page_queue_push_spec [OF queue_example_ok, of 3 3 1000 zeroed_page] by (auto simp: queue_example_def)


section \<open>Properties\<close>

text \<open>
  C35. After the first page of a queue changed, \<^verbatim>\<open>heap_queue_first_update\<close> returns without a panic
  and makes \<^verbatim>\<open>pages_free_direct\<close> right for the queues as they are: every small word size
  points to the first page of its bin, or to the empty page.
\<close>

theorem direct_table_follows_queues:
  assumes "heap_at s heap = Some h" "queue_sizes_ok (pages h)" "1 \<le> unat pq" "unat pq \<le> 74"
    "pages_free_direct_is_correct (pages_free_direct h) ((pages h)[unat pq := q0]) (page_empty_ptr h)"
  shows "\<exists>pfd. heap_queue_first_update s heap pq = Inr (s\<lparr>heap_at := (heap_at s)(heap \<mapsto> h\<lparr>pages_free_direct := pfd\<rparr>)\<rparr>)
    \<and> pages_free_direct_is_correct pfd (pages h) (page_empty_ptr h)"
  by (rule heap_queue_first_update_spec [OF assms(1,2) refl assms(3-5)])

theorem direct_table_follows_queues_witness:
  "\<exists>pfd. heap_queue_first_update queue_example 5000 3
      = Inr (queue_example\<lparr>heap_at := (heap_at queue_example)(5000 \<mapsto> the (heap_at queue_example 5000)\<lparr>pages_free_direct := pfd\<rparr>)\<rparr>)"
proof -
  let ?h = "the (heap_at queue_example 5000)"
  have h: "heap_at queue_example 5000 = Some ?h" "pages ?h = pages_tmp" by (simp_all add: queue_example_def)
  have "pages_free_direct_is_correct (pages_free_direct ?h) (pages ?h) (page_empty_ptr ?h)"
    using queue_example_ok h(1) by (auto simp: heap_ok_def split: option.splits)
  then have "pages_free_direct_is_correct (pages_free_direct ?h) ((pages ?h)[unat (3 :: usize) := pages ?h ! 3]) (page_empty_ptr ?h)"
    by simp
  from direct_table_follows_queues [OF h(1) _ _ _ this] h(2) pages_tmp_ok show ?thesis by auto
qed

text \<open>
  C32. \<^verbatim>\<open>page_queue_push\<close> and \<^verbatim>\<open>page_queue_push_back\<close> put a page that is in no queue at the front
  or the back of the queue: they return, the queue's list gains exactly that page, all other
  queues keep theirs, the direct table stays right, the page's \<^verbatim>\<open>in_full\<close> flag says whether the
  queue is the full one, and no other page's data changes.
\<close>

theorem page_queue_push_refines:
  assumes "heap_ok s heap Q" "1 \<le> unat pq" "unat pq \<le> 74" "page \<noteq> 0" "page_at s page = Some pg"
    "\<forall>i \<le> 74. page \<notin> set (Q ! i)"
  shows "(\<exists>s'. page_queue_push s heap pq page = Inr s' \<and> heap_ok s' heap (Q[unat pq := page # Q ! unat pq])
      \<and> (\<forall>y. map_option inner (page_at s' y) = (if y = page then Some (set_in_full (pq = BIN_FULL) (inner pg))
            else map_option inner (page_at s y))))
    \<and> (\<exists>s'. page_queue_push_back s heap pq page = Inr s' \<and> heap_ok s' heap (Q[unat pq := Q ! unat pq @ [page]])
      \<and> (\<forall>y. map_option inner (page_at s' y) = (if y = page then Some (set_in_full (pq = BIN_FULL) (inner pg))
            else map_option inner (page_at s y))))"
proof -
  from page_queue_push_spec [OF assms(1) refl assms(2-6)]
  have "\<exists>s'. page_queue_push s heap pq page = Inr s' \<and> heap_ok s' heap (Q[unat pq := page # Q ! unat pq])
      \<and> (\<forall>y. map_option inner (page_at s' y) = (if y = page then Some (set_in_full (pq = BIN_FULL) (inner pg))
            else map_option inner (page_at s y)))" by (elim exE conjE) (rule exI, intro conjI, assumption+, simp)
  moreover from page_queue_push_back_spec [OF assms(1) refl assms(2-6)]
  have "\<exists>s'. page_queue_push_back s heap pq page = Inr s' \<and> heap_ok s' heap (Q[unat pq := Q ! unat pq @ [page]])
      \<and> (\<forall>y. map_option inner (page_at s' y) = (if y = page then Some (set_in_full (pq = BIN_FULL) (inner pg))
            else map_option inner (page_at s y)))" by (elim exE conjE) (rule exI, intro conjI, assumption+, simp)
  ultimately show ?thesis by blast
qed

theorem page_queue_push_refines_witness:
  "\<exists>s'. page_queue_push queue_example 5000 3 1000 = Inr s' \<and> heap_ok s' 5000 ((replicate 75 [])[3 := [1000]])"
proof -
  have "page_at queue_example 1000 = Some zeroed_page" by (simp add: queue_example_def)
  with page_queue_push_refines [OF queue_example_ok, of 3 1000 zeroed_page] show ?thesis by auto
qed

text \<open>
  C33. \<^verbatim>\<open>page_queue_remove\<close> takes a page out of the middle, the front or the back of its queue:
  it returns, exactly that page leaves the list, the other queues and the direct table stay
  right, and the page count goes down by one.
\<close>

theorem page_queue_remove_refines:
  assumes "heap_ok s heap Q" "1 \<le> unat pq" "unat pq \<le> 74" "Q ! unat pq = us @ page # vs"
  shows "\<exists>s' h h'. page_queue_remove s heap pq page = Inr s' \<and> heap_ok s' heap (Q[unat pq := us @ vs])
    \<and> heap_at s heap = Some h \<and> heap_at s' heap = Some h' \<and> page_count h' = page_count h - 1
    \<and> (\<forall>y. map_option inner (page_at s' y) = map_option inner (page_at s y))"
  using page_queue_remove_spec [OF assms(1) refl assms(2-4)] by fastforce

theorem page_queue_remove_refines_witness:
  "\<exists>s s'. heap_ok s 5000 ((replicate 75 [])[3 := [1000]]) \<and> page_queue_remove s 5000 3 1000 = Inr s'
    \<and> heap_ok s' 5000 ((replicate 75 [])[3 := []])"
proof -
  obtain s where s: "heap_ok s 5000 ((replicate 75 [])[3 := [1000]])" using queue_example_pushed by blast
  with page_queue_remove_refines [OF s, of 3 "[]" 1000 "[]"] show ?thesis by auto
qed

text \<open>
  C34. \<^verbatim>\<open>page_queue_enqueue_from\<close> (a page becoming full, or free again) moves the page from its
  queue to the back of the other one and loses no page.
\<close>

theorem page_enqueue_from_moves:
  assumes "heap_ok s heap Q" "1 \<le> unat from" "unat from \<le> 74" "Q ! unat from = us @ page # vs"
    "1 \<le> unat to" "unat to \<le> 74" "unat to \<noteq> unat from"
  shows "\<exists>s'. page_queue_enqueue_from s heap to from page = Inr s'
    \<and> heap_ok s' heap (Q[unat from := us @ vs, unat to := Q ! unat to @ [page]])
    \<and> dom (page_at s') = dom (page_at s)"
  unfolding page_queue_enqueue_from_def by (rule heap_queues.move_to_back [OF assms])

theorem page_enqueue_from_moves_witness:
  "\<exists>s s'. heap_ok s 5000 ((replicate 75 [])[3 := [1000]]) \<and> page_queue_enqueue_from s 5000 74 3 1000 = Inr s'
    \<and> heap_ok s' 5000 ((replicate 75 [])[3 := [], 74 := [1000]])"
proof -
  obtain s where s: "heap_ok s 5000 ((replicate 75 [])[3 := [1000]])" using queue_example_pushed by blast
  with page_enqueue_from_moves [OF s, of 3 "[]" 1000 "[]" 74] show ?thesis by auto
qed

end
