(* ===== verification/Os.thy ===== *)
theory Os
  imports Layout
begin

text \<open>
  Memory from the operating system: the wrappers of \<^verbatim>\<open>os_mem.rs\<close>, allocation
  (\<^verbatim>\<open>os_alloc.rs\<close>, \<^verbatim>\<open>arena.rs\<close>) and commitment (\<^verbatim>\<open>os_commit.rs\<close>). The kernel is the parameter
  \<open>env\<close>; what it does to the protection of the mapped bytes is recorded in \<open>os_prot\<close>. A call
  the kernel refuses is \<open>MAP_FAILED\<close> for \<^verbatim>\<open>mmap\<close> and a panic for \<^verbatim>\<open>mprotect\<close>.
\<close>

section \<open>\<open>os_mem.rs\<close>\<close>

definition get_page_size :: usize where
  "get_page_size = 4096"

definition MAP_FAILED :: usize where
  "MAP_FAILED = - 1"

text \<open>The bytes of a region; \<open>len\<close> bytes from \<open>a\<close>, not wrapping.\<close>

definition in_region :: "usize \<Rightarrow> usize \<Rightarrow> usize \<Rightarrow> bool" where
  "in_region a len x \<longleftrightarrow> unat a \<le> unat x \<and> unat x < unat a + unat len"

definition set_prot :: "st \<Rightarrow> usize \<Rightarrow> usize \<Rightarrow> bool \<Rightarrow> st" where
  "set_prot s a len rw = s\<lparr>os_prot := (\<lambda>x. if in_region a len x then Some rw else os_prot s x)\<rparr>"

definition mmap_prot :: "Env \<Rightarrow> bool \<Rightarrow> usize \<Rightarrow> usize \<Rightarrow> st \<Rightarrow> usize \<times> st" where
  "mmap_prot env rw hint len s =
     (let p = env_mmap env (sys_calls s) hint len rw; s = s\<lparr>sys_calls := sys_calls s + 1\<rparr> in
      if p = MAP_FAILED then (MAP_FAILED, s) else (p, set_prot s p len rw))"

definition mmap_prot_none :: "Env \<Rightarrow> usize \<Rightarrow> usize \<Rightarrow> st \<Rightarrow> usize \<times> st" where
  "mmap_prot_none env = mmap_prot env False"

definition mmap_prot_read_write :: "Env \<Rightarrow> usize \<Rightarrow> usize \<Rightarrow> st \<Rightarrow> usize \<times> st" where
  "mmap_prot_read_write env = mmap_prot env True"

definition mprotect_prot :: "Env \<Rightarrow> bool \<Rightarrow> usize \<Rightarrow> usize \<Rightarrow> st \<Rightarrow> st res" where
  "mprotect_prot env rw addr len s =
     (let ok = env_mprotect env (sys_calls s) addr len rw; s = s\<lparr>sys_calls := sys_calls s + 1\<rparr> in
      if ok then Inr (set_prot s addr len rw) else Inl Panic)"

definition mprotect_prot_none :: "Env \<Rightarrow> usize \<Rightarrow> usize \<Rightarrow> st \<Rightarrow> st res" where
  "mprotect_prot_none env = mprotect_prot env False"

definition mprotect_prot_read_write :: "Env \<Rightarrow> usize \<Rightarrow> usize \<Rightarrow> st \<Rightarrow> st res" where
  "mprotect_prot_read_write env = mprotect_prot env True"

definition clock_gettime_monotonic :: "Env \<Rightarrow> st \<Rightarrow> (i64 \<times> i64) \<times> st" where
  "clock_gettime_monotonic env s = (env_clock env (sys_calls s), s\<lparr>sys_calls := sys_calls s + 1\<rparr>)"


section \<open>\<open>os_alloc.rs\<close> and \<open>arena.rs\<close>\<close>

definition os_good_alloc_size :: "usize \<Rightarrow> usize" where
  "os_good_alloc_size sz =
     (let kib = 1024; mib = 1024 * 1024;
          align_size = (if sz < 512 * kib then get_page_size
            else if sz < 2 * mib then 64 * kib
            else if sz < 8 * mib then 256 * kib
            else if sz < 32 * mib then mib
            else 4 * mib) in
      if sz \<ge> (- 1) - align_size then sz else align_up sz align_size)"

definition aligned_base_add :: "usize \<Rightarrow> st \<Rightarrow> usize \<times> st" where
  "aligned_base_add n s = (aligned_base s, s\<lparr>aligned_base := aligned_base s + n\<rparr>)"

definition aligned_base_cas :: "usize \<Rightarrow> usize \<Rightarrow> st \<Rightarrow> st" where
  "aligned_base_cas expected new s = (if aligned_base s = expected then s\<lparr>aligned_base := new\<rparr> else s)"

definition HINT_BASE :: usize where "HINT_BASE = push_bit 40 2"
definition HINT_MAX :: usize where "HINT_MAX = push_bit 40 30"

definition os_get_aligned_hint :: "usize \<Rightarrow> usize \<Rightarrow> st \<Rightarrow> usize \<times> st" where
  "os_get_aligned_hint try_alignment sz s =
     (if try_alignment \<le> 1 \<or> try_alignment > SEGMENT_SIZE then (0, s)
      else
        let sz = align_up sz SEGMENT_SIZE in
        if sz > 1024 * 1024 * 1024 then (0, s)
        else
          let (hint, s) = aligned_base_add sz s;
              (hint, s) = (if hint = 0 \<or> hint > HINT_MAX then
                  let expected = hint + sz in aligned_base_add sz (aligned_base_cas expected HINT_BASE s)
                else (hint, s)) in
          if hint mod try_alignment \<noteq> 0 then (0, s) else (hint, s))"

definition unix_mmapx :: "Env \<Rightarrow> usize \<Rightarrow> usize \<Rightarrow> usize \<Rightarrow> bool \<Rightarrow> st \<Rightarrow> usize \<times> st" where
  "unix_mmapx env hint sz try_alignment prot_rw s =
     (let (early, s) =
        (if hint = 0 \<and> INTPTR_SIZE \<ge> 8 then
           let (hint, s) = os_get_aligned_hint try_alignment sz s in
           if hint \<noteq> 0 then
             let (p, s) = mmap_prot env prot_rw hint sz s in
             (if p \<noteq> MAP_FAILED then Some p else None, s)
           else (None, s)
         else (None, s)) in
      case early of Some p \<Rightarrow> (p, s)
      | None \<Rightarrow>
        let (p, s) = mmap_prot env prot_rw hint sz s in
        if p \<noteq> MAP_FAILED then (p, s) else (0, s))"

definition use_large_os_page :: "usize \<Rightarrow> usize \<Rightarrow> bool" where
  "use_large_os_page sz alignment = False"

text \<open>The results are the address and \<^verbatim>\<open>is_large\<close>.\<close>

definition unix_mmap :: "Env \<Rightarrow> usize \<Rightarrow> usize \<Rightarrow> usize \<Rightarrow> bool \<Rightarrow> bool \<Rightarrow> bool \<Rightarrow> st \<Rightarrow> (usize \<times> bool \<times> st) res" where
  "unix_mmap env addr sz try_alignment prot_rw large_only allow_large s =
     (if (large_only \<or> use_large_os_page sz try_alignment) \<and> allow_large then todo
      else
        let (p, s) = unix_mmapx env addr sz try_alignment prot_rw s in
        if p \<noteq> 0 then (if allow_large \<and> use_large_os_page sz try_alignment then todo else Inr (p, False, s))
        else todo)"

definition os_mem_alloc :: "Env \<Rightarrow> usize \<Rightarrow> usize \<Rightarrow> bool \<Rightarrow> bool \<Rightarrow> st \<Rightarrow> (usize \<times> bool \<times> st) res" where
  "os_mem_alloc env sz try_alignment request_commit allow_large s =
     (if sz = 0 then Inr (0, allow_large, s)
      else
        let allow_large = (if \<not> request_commit then False else allow_large);
            try_alignment = (if try_alignment = 0 then 1 else try_alignment) in
        unix_mmap env 0 sz try_alignment request_commit False allow_large s)"

definition os_mem_alloc_aligned :: "Env \<Rightarrow> usize \<Rightarrow> usize \<Rightarrow> bool \<Rightarrow> bool \<Rightarrow> st \<Rightarrow> (usize \<times> bool \<times> st) res" where
  "os_mem_alloc_aligned env sz alignment request_commit allow_large s =
     (let allow_large = (if \<not> request_commit then False else allow_large) in
      if \<not> (alignment \<ge> get_page_size \<and> alignment AND (alignment - 1) = 0) then Inr (0, allow_large, s)
      else bindR (os_mem_alloc env sz alignment request_commit allow_large s) (\<lambda>(p, is_large, s).
        if p = 0 then Inr (p, is_large, s)
        else if p mod alignment \<noteq> 0 then todo
        else Inr (p, is_large, s)))"

definition os_alloc_aligned :: "Env \<Rightarrow> usize \<Rightarrow> usize \<Rightarrow> bool \<Rightarrow> bool \<Rightarrow> st \<Rightarrow> (usize \<times> bool \<times> st) res" where
  "os_alloc_aligned env sz alignment request_commit allow_large s =
     (if sz = 0 then Inr (0, allow_large, s)
      else os_mem_alloc_aligned env (os_good_alloc_size sz) (align_up alignment get_page_size) request_commit allow_large s)"

definition os_alloc_aligned_offset :: "Env \<Rightarrow> usize \<Rightarrow> usize \<Rightarrow> usize \<Rightarrow> bool \<Rightarrow> bool \<Rightarrow> st \<Rightarrow> (usize \<times> bool \<times> st) res" where
  "os_alloc_aligned_offset env sz alignment offset request_commit allow_large s =
     (if offset > SEGMENT_SIZE then Inr (0, allow_large, s)
      else if offset = 0 then os_alloc_aligned env sz alignment request_commit allow_large s
      else todo)"

text \<open>Address, \<^verbatim>\<open>did_commit\<close>, \<^verbatim>\<open>is_large\<close>, \<^verbatim>\<open>is_pinned\<close>, \<^verbatim>\<open>is_zero\<close>, \<^verbatim>\<open>memid\<close>.\<close>

definition arena_alloc_aligned :: "Env \<Rightarrow> usize \<Rightarrow> usize \<Rightarrow> usize \<Rightarrow> bool \<Rightarrow> bool \<Rightarrow> usize \<Rightarrow> st
    \<Rightarrow> (usize \<times> bool \<times> bool \<times> bool \<times> bool \<times> usize \<times> st) res" where
  "arena_alloc_aligned env sz alignment align_offset request_commit allow_large req_arena_id s =
     bindR (os_alloc_aligned_offset env sz alignment align_offset request_commit allow_large s) (\<lambda>(p, is_large, s).
       Inr (p, request_commit, is_large, is_large, True, 0, s))"


section \<open>\<open>os_commit.rs\<close>\<close>

definition os_page_align_areax :: "bool \<Rightarrow> usize \<Rightarrow> usize \<Rightarrow> usize \<times> usize" where
  "os_page_align_areax conservative addr sz =
     (if sz = 0 \<or> addr = 0 then (0, 0)
      else
        let start = (if conservative then align_up addr get_page_size else align_down addr get_page_size);
            end_addr = (if conservative then align_down (addr + sz) get_page_size else align_up (addr + sz) get_page_size);
            diff = end_addr - start in
        if diff \<le> 0 then (0, 0) else (start, diff))"

text \<open>The result is \<^verbatim>\<open>(success, is_zero)\<close>.\<close>

definition os_commitx :: "Env \<Rightarrow> usize \<Rightarrow> usize \<Rightarrow> bool \<Rightarrow> bool \<Rightarrow> st \<Rightarrow> (bool \<times> bool \<times> st) res" where
  "os_commitx env addr sz commit conservative s =
     (let is_zero = False; (start, csize) = os_page_align_areax conservative addr sz in
      if csize = 0 then Inr (True, is_zero, s)
      else bindR (if commit then mprotect_prot_read_write env start csize s else mprotect_prot_none env start csize s)
        (\<lambda>s. Inr (True, is_zero, s)))"

definition os_commit :: "Env \<Rightarrow> usize \<Rightarrow> usize \<Rightarrow> st \<Rightarrow> (bool \<times> bool \<times> st) res" where
  "os_commit env addr sz s = os_commitx env addr sz True False s"

definition os_decommit :: "Env \<Rightarrow> usize \<Rightarrow> usize \<Rightarrow> st \<Rightarrow> (bool \<times> st) res" where
  "os_decommit env addr sz s =
     bindR (os_commitx env addr sz False True s) (\<lambda>(success, is_zero, s). Inr (success, s))"


section \<open>Lemmas\<close>

lemma set_prot_prot [simp]: "os_prot (set_prot s a len rw) x = (if in_region a len x then Some rw else os_prot s x)"
  by (simp add: set_prot_def)

lemma set_prot_frame [simp]:
  "page_at (set_prot s a len rw) = page_at s" "segment_at (set_prot s a len rw) = segment_at s"
  "heap_at (set_prot s a len rw) = heap_at s" "tld_at (set_prot s a len rw) = tld_at s"
  "node_at (set_prot s a len rw) = node_at s" "sys_calls (set_prot s a len rw) = sys_calls s"
  "aligned_base (set_prot s a len rw) = aligned_base s" "thread_count (set_prot s a len rw) = thread_count s"
  by (simp_all add: set_prot_def)

lemma align_multiple:
  assumes "0 < y" "unat y dvd unat x" "unat x + unat y - 1 < 2 ^ 64"
  shows "align_down x y = x" "align_up x y = x"
proof -
  have pos: "0 < unat y" using assms(1) by (simp add: unat_gt_0 word_gt_0)
  obtain k where k: "unat x = unat y * k" using assms(2) by blast
  show "align_down x y = x" using align_down_unat [OF assms(1), of x] k pos by (simp add: word_unat_eq_iff)
  have "(unat x + unat y - 1) div unat y = k" using k pos by (intro div_eqI) (auto simp: algebra_simps)
  then show "align_up x y = x" using align_up_unat [OF assms(1,3)] k by (simp add: word_unat_eq_iff mult.commute)
qed

lemma page_align_exact:
  assumes "addr \<noteq> 0" "sz \<noteq> 0" "4096 dvd unat addr" "4096 dvd unat sz" "unat addr + unat sz + 4095 < 2 ^ 64"
  shows "os_page_align_areax conservative addr sz = (addr, sz)"
proof -
  have u: "unat (addr + sz) = unat addr + unat sz" using assms(5) by (intro unat_add_small) simp
  have "align_down addr 4096 = addr" "align_up addr 4096 = addr"
    using assms(3,5) by (auto intro!: align_multiple)
  moreover have "align_down (addr + sz) 4096 = addr + sz" "align_up (addr + sz) 4096 = addr + sz"
    using assms(3-5) u by (auto intro!: align_multiple)
  ultimately show ?thesis using assms(1,2)
    by (simp add: os_page_align_areax_def get_page_size_def Let_def)
qed

lemma os_commitx_exact:
  assumes "addr \<noteq> 0" "sz \<noteq> 0" "4096 dvd unat addr" "4096 dvd unat sz" "unat addr + unat sz + 4095 < 2 ^ 64"
  shows "os_commitx env addr sz commit conservative s =
    (if env_mprotect env (sys_calls s) addr sz commit
     then Inr (True, False, set_prot (s\<lparr>sys_calls := sys_calls s + 1\<rparr>) addr sz commit) else Inl Panic)"
  using assms(2) page_align_exact [OF assms, of conservative]
  by (simp add: os_commitx_def mprotect_prot_read_write_def mprotect_prot_none_def mprotect_prot_def Let_def)

lemma mmap_prot_ok:
  "mmap_prot env rw hint len s = (p, s') \<Longrightarrow> p \<noteq> MAP_FAILED \<Longrightarrow> in_region p len x \<Longrightarrow> os_prot s' x = Some rw"
  by (auto simp: mmap_prot_def Let_def split: if_splits)

lemma unix_mmapx_ok:
  assumes "unix_mmapx env hint sz al rw s = (p, s')" "p \<noteq> 0" "in_region p sz x"
  shows "os_prot s' x = Some rw"
  using assms by (auto simp: unix_mmapx_def Let_def split: prod.splits option.splits if_splits dest: mmap_prot_ok)

lemma unix_mmapx_exact:
  assumes "unix_mmapx env hint sz al rw s = (p, s')" "p \<noteq> 0"
  shows "os_prot s' = (\<lambda>x. if in_region p sz x then Some rw else os_prot s x)"
  using assms
  by (auto simp: unix_mmapx_def mmap_prot_def os_get_aligned_hint_def aligned_base_add_def aligned_base_cas_def
      set_prot_def Let_def fun_eq_iff split: prod.splits option.splits if_splits)

lemma pow2_aligned:
  assumes "12 \<le> k" "k < 64"
  shows "unat (2 ^ k :: usize) = 2 ^ k" "(2 ^ k :: usize) AND (2 ^ k - 1) = 0" "(4096 :: usize) \<le> 2 ^ k"
    "align_up (2 ^ k) get_page_size = 2 ^ k"
proof -
  have "(2::nat) ^ k < 2 ^ 64" using assms(2) by (intro power_strict_increasing) auto
  then show u: "unat (2 ^ k :: usize) = 2 ^ k" using unat_of_nat_small [of "2 ^ k", where 'a = 64] by simp
  show "(2 ^ k :: usize) AND (2 ^ k - 1) = 0"
    by (rule bit_word_eqI) (simp add: bit_simps mask_eq_exp_minus_1 [symmetric])
  have "(2::nat) ^ 12 \<le> 2 ^ k" using assms(1) by (rule power_increasing) simp
  then show "(4096 :: usize) \<le> 2 ^ k" using u by (simp add: word_le_nat_alt)
  have "(2::nat) ^ 12 dvd 2 ^ k" using assms(1) by (rule le_imp_power_dvd)
  moreover have "(2::nat) ^ k \<le> 2 ^ 63" using assms(2) by (intro power_increasing) auto
  ultimately show "align_up (2 ^ k) get_page_size = 2 ^ k"
    using u by (intro align_multiple(2)) (auto simp: get_page_size_def)
qed

lemma good_alloc_align:
  "\<exists>a. os_good_alloc_size sz = (if sz \<ge> (- 1) - a then sz else align_up sz a) \<and> 0 < a \<and> 4096 dvd unat a \<and>
     unat a \<le> max 4096 (unat sz div 8) \<and> unat a \<le> 4194304 \<and>
     (unat sz \<le> 33554432 \<longrightarrow> unat a dvd 33554432) \<and> (unat sz < 524288 \<longrightarrow> unat a = 4096) \<and>
     (524288 \<le> unat sz \<longrightarrow> unat a \<le> unat sz div 8) \<and> (33554432 \<le> unat sz \<longrightarrow> unat a = 4194304)"
  by (rule exI [of _ "if sz < 524288 then 4096 else if sz < 2097152 then 65536 else if sz < 8388608 then 262144
      else if sz < 33554432 then 1048576 else 4194304"])
    (auto simp: os_good_alloc_size_def get_page_size_def Let_def word_less_nat_alt word_le_nat_alt)

lemma pow2_dvd_mod: "k < 64 \<Longrightarrow> (p :: usize) mod 2 ^ k = 0 \<longleftrightarrow> 2 ^ k dvd unat p"
proof -
  assume "k < 64"
  then have "(2::nat) ^ k < 2 ^ 64" by (intro power_strict_increasing) auto
  then have "unat (2 ^ k :: usize) = 2 ^ k" using unat_of_nat_small [of "2 ^ k", where 'a = 64] by simp
  then show ?thesis by (simp add: dvd_eq_mod_eq_0 word_unat_eq_iff unat_mod_distrib)
qed

lemma good_alloc_ge: "sz \<le> os_good_alloc_size sz"
proof -
  obtain a where a: "os_good_alloc_size sz = (if sz \<ge> (- 1) - a then sz else align_up sz a)" "0 < a"
    using good_alloc_align [of sz] by blast
  show ?thesis
  proof (cases "sz \<ge> (- 1) - a")
    case False
    have pos: "0 < unat a" using a(2) by (simp add: unat_gt_0 word_gt_0)
    have "unat ((- 1) - a) = unat (- 1 :: usize) - unat a" by (rule unat_sub_small) simp
    then have lt: "unat sz + unat a < 18446744073709551615"
      using False usize_max by (auto simp: word_le_nat_alt)
    have "unat sz \<le> (unat sz + unat a - 1) div unat a * unat a"
      using pos div_mult_mod_eq [of "unat sz + unat a - 1" "unat a"]
        mod_less_divisor [OF pos, of "unat sz + unat a - 1"] by linarith
    then show ?thesis using False a lt by (simp add: word_le_nat_alt align_up_unat)
  qed (simp add: a)
qed

lemma arena_alloc_cases:
  assumes "0 < sz" "12 \<le> k" "k < 64"
  shows "arena_alloc_aligned env sz (2 ^ k) 0 rw large aid s =
    (let (p, s') = unix_mmapx env 0 (os_good_alloc_size sz) (2 ^ k) rw s in
     if p = 0 \<or> \<not> 2 ^ k dvd unat p then Inl Todo else Inr (p, rw, False, False, True, 0, s'))"
proof -
  have "os_good_alloc_size sz \<noteq> 0" using assms(1) good_alloc_ge [of sz] by auto
  moreover have "(2 ^ k :: usize) \<noteq> 0" "(2 ^ k :: usize) \<ge> 4096" "(2 ^ k :: usize) AND (2 ^ k - 1) = 0"
    using pow2_aligned [OF assms(2,3)] assms(3) by auto
  moreover have "sz \<noteq> 0" using assms(1) by auto
  moreover obtain p s' where "unix_mmapx env 0 (os_good_alloc_size sz) (2 ^ k) rw s = (p, s')"
    by (cases "unix_mmapx env 0 (os_good_alloc_size sz) (2 ^ k) rw s")
  ultimately show ?thesis using pow2_aligned(4) [OF assms(2,3)] pow2_dvd_mod [OF assms(3)]
    by (cases rw) (simp_all add: arena_alloc_aligned_def os_alloc_aligned_offset_def os_alloc_aligned_def os_mem_alloc_aligned_def
        os_mem_alloc_def unix_mmap_def use_large_os_page_def get_page_size_def layout_consts todo_def Let_def)
qed

text \<open>
  C36. Memory for a segment. Asked for \<open>sz\<close> bytes at a power-of-two alignment, the arena
  either stops in \<^verbatim>\<open>todo\<close> (no memory, or memory the kernel did not align) or returns a non-null
  aligned address whose bytes, the request rounded up to a good allocation size, have exactly
  the protection requested while every other byte keeps its protection; nothing is pinned or
  large, and \<^verbatim>\<open>did_commit\<close> says what was requested. When the kernel always answers with an
  aligned address it does return.
\<close>

theorem arena_alloc_maps_segment:
  assumes "0 < sz" "12 \<le> k" "k < 64"
  shows "(arena_alloc_aligned env sz (2 ^ k) 0 rw large aid s = Inl Todo
      \<or> (\<exists>p s'. arena_alloc_aligned env sz (2 ^ k) 0 rw large aid s = Inr (p, rw, False, False, True, 0, s')
          \<and> p \<noteq> 0 \<and> 2 ^ k dvd unat p \<and> sz \<le> os_good_alloc_size sz
          \<and> os_prot s' = (\<lambda>x. if in_region p (os_good_alloc_size sz) x then Some rw else os_prot s x)))
    \<and> ((\<forall>n hint len. let p = env_mmap env n hint len rw in p \<noteq> 0 \<and> p \<noteq> MAP_FAILED \<and> 2 ^ k dvd unat p) \<longrightarrow>
        arena_alloc_aligned env sz (2 ^ k) 0 rw large aid s \<noteq> Inl Todo)"
proof (intro conjI impI)
  let ?r = "unix_mmapx env 0 (os_good_alloc_size sz) (2 ^ k) rw s"
  obtain p s' where r: "?r = (p, s')" by (cases ?r)
  note e = arena_alloc_cases [OF assms, of env rw large aid s]
  show "arena_alloc_aligned env sz (2 ^ k) 0 rw large aid s = Inl Todo
      \<or> (\<exists>p s'. arena_alloc_aligned env sz (2 ^ k) 0 rw large aid s = Inr (p, rw, False, False, True, 0, s')
          \<and> p \<noteq> 0 \<and> 2 ^ k dvd unat p \<and> sz \<le> os_good_alloc_size sz
          \<and> os_prot s' = (\<lambda>x. if in_region p (os_good_alloc_size sz) x then Some rw else os_prot s x))"
    using r e unix_mmapx_exact [OF r] by (simp add: good_alloc_ge)
  assume "\<forall>n hint len. let p = env_mmap env n hint len rw in p \<noteq> 0 \<and> p \<noteq> MAP_FAILED \<and> 2 ^ k dvd unat p"
  then have "p \<noteq> 0 \<and> 2 ^ k dvd unat p"
    using r by (auto simp: unix_mmapx_def mmap_prot_def Let_def split: prod.splits option.splits if_splits)
  then show "arena_alloc_aligned env sz (2 ^ k) 0 rw large aid s \<noteq> Inl Todo" using r e by simp
qed

text \<open>A kernel that grants every request at its hint, or at 64 MiB when there is none.\<close>

definition env_example :: Env where
  "env_example = \<lparr>env_mmap = (\<lambda>n hint len rw. if hint = 0 then 67108864 else hint),
     env_mprotect = (\<lambda>n addr len rw. True), env_clock = (\<lambda>n. (of_nat n, 0)), env_thread_id = 1\<rparr>"

definition st_empty :: st where
  "st_empty = \<lparr>page_at = Map.empty, segment_at = Map.empty, heap_at = Map.empty, tld_at = Map.empty,
     node_at = Map.empty, os_prot = Map.empty, aligned_base = 0, thread_count = 0, sys_calls = 0\<rparr>"

theorem arena_alloc_maps_segment_witness:
  "\<exists>p s'. arena_alloc_aligned (env_example\<lparr>env_mmap := \<lambda>n hint len rw. 67108864\<rparr>) 33554432 (2 ^ 25) 0 True False 0 st_empty
      = Inr (p, True, False, False, True, 0, s') \<and> p \<noteq> 0 \<and> 2 ^ 25 dvd unat p
      \<and> os_prot s' = (\<lambda>x. if in_region p (os_good_alloc_size 33554432) x then Some True else os_prot st_empty x)"
  using arena_alloc_maps_segment [of 33554432 25 "env_example\<lparr>env_mmap := \<lambda>n hint len rw. 67108864\<rparr>" True False 0 st_empty]
  by (auto simp: MAP_FAILED_def)

text \<open>
  C37. \<^verbatim>\<open>os_good_alloc_size\<close> never returns less than the request. Up to four MiB below the end of the address space
  the result is a multiple of the page size (4096), which exceeds a request below 512 KiB by less than a page
  and a larger one by less than an eighth; from there on, where rounding up could wrap around, the size
  is returned as it is. A request of at most one segment gets at most a segment.
\<close>

theorem good_alloc_size_bounds:
  "sz \<le> os_good_alloc_size sz
   \<and> (unat sz < 18446744073709551615 - 4194304 \<longrightarrow>
        4096 dvd unat (os_good_alloc_size sz) \<and>
        (unat sz < 524288 \<longrightarrow> unat (os_good_alloc_size sz) < unat sz + 4096) \<and>
        (524288 \<le> unat sz \<longrightarrow> unat (os_good_alloc_size sz) < unat sz + unat sz div 8))
   \<and> (18446744073709551615 - 4194304 \<le> unat sz \<longrightarrow> os_good_alloc_size sz = sz)
   \<and> (sz \<le> SEGMENT_SIZE \<longrightarrow> os_good_alloc_size sz \<le> SEGMENT_SIZE)"
proof (intro conjI impI)
  show "sz \<le> os_good_alloc_size sz" by (rule good_alloc_ge)
  obtain a where a: "os_good_alloc_size sz = (if sz \<ge> (- 1) - a then sz else align_up sz a)"
    "0 < a" "4096 dvd unat a" "unat a \<le> max 4096 (unat sz div 8)" "unat a \<le> 4194304"
    "unat sz \<le> 33554432 \<longrightarrow> unat a dvd 33554432" "unat sz < 524288 \<longrightarrow> unat a = 4096" "524288 \<le> unat sz \<longrightarrow> unat a \<le> unat sz div 8"
    "33554432 \<le> unat sz \<longrightarrow> unat a = 4194304"
    using good_alloc_align [of sz] by blast
  have pos: "0 < unat a" using a(2) by (simp add: unat_gt_0 word_gt_0)
  have "unat ((- 1) - a) = unat (- 1 :: usize) - unat a" by (rule unat_sub_small) simp
  then have le: "sz \<ge> (- 1) - a \<longleftrightarrow> 18446744073709551615 \<le> unat sz + unat a"
    using usize_max a(5) by (auto simp: word_le_nat_alt)
  let ?d = "(unat sz + unat a - 1) div unat a"
  have u: "unat (os_good_alloc_size sz) = ?d * unat a" if "unat sz + unat a < 18446744073709551615"
    using a(1,2) le that by (simp add: align_up_unat)
  have up: "?d * unat a < unat sz + unat a"
    using pos div_times_less_eq_dividend [of "unat sz + unat a - 1" "unat a"] by linarith
  {
    assume "unat sz < 18446744073709551615 - 4194304"
    then have u: "unat (os_good_alloc_size sz) = ?d * unat a" using u a(5) by linarith
    show "4096 dvd unat (os_good_alloc_size sz)" using u a(3) by simp
    show "unat (os_good_alloc_size sz) < unat sz + 4096" if "unat sz < 524288" using u up a(7) that by simp
    show "unat (os_good_alloc_size sz) < unat sz + unat sz div 8" if "524288 \<le> unat sz" using u up a(8) that by linarith
  next
    assume "18446744073709551615 - 4194304 \<le> unat sz"
    then show "os_good_alloc_size sz = sz" using a(1,9) le by simp
  next
    assume "sz \<le> SEGMENT_SIZE"
    then have sz: "unat sz \<le> 33554432" by (simp add: word_le_nat_alt layout_consts)
    then obtain m where m: "33554432 = unat a * m" using a(6) by blast
    have "?d * unat a < (m + 1) * unat a" using up sz m by (simp add: algebra_simps)
    then have "?d < m + 1" using mult_less_cancel2 [of ?d "unat a" "m + 1"] by blast
    then have "?d \<le> m" by simp
    then have "?d * unat a \<le> m * unat a" by (rule mult_le_mono1)
    then have "?d * unat a \<le> 33554432" using m by (simp only: mult.commute)
    then show "os_good_alloc_size sz \<le> SEGMENT_SIZE" using u sz a(5) by (simp add: word_le_nat_alt layout_consts)
  }
qed

theorem good_alloc_size_bounds_witness:
  "unat (os_good_alloc_size 600000) < 675000 \<and> 4096 dvd unat (os_good_alloc_size 600000)
    \<and> os_good_alloc_size 600000 \<le> SEGMENT_SIZE"
  using good_alloc_size_bounds [of 600000] by (auto simp: layout_consts)

text \<open>
  Address hints. While the counter is a multiple of the segment size (it starts at 0), a
  request of at most one GiB at an alignment that divides the segment size gets the counter's
  value, or \<open>HINT_BASE\<close> when the counter is 0 or beyond \<open>HINT_MAX\<close>; the hint has the alignment
  asked for, and the counter moves past the request to the next multiple of the segment size,
  so that successive hints do not overlap.
\<close>

lemma aligned_hints_advance:
  assumes "1 < al" "unat al dvd 33554432" "sz \<le> 1073741824" "33554432 dvd unat (aligned_base s)"
  defines "hint \<equiv> if aligned_base s = 0 \<or> aligned_base s > HINT_MAX then HINT_BASE else aligned_base s"
  shows "os_get_aligned_hint al sz s = (hint, s\<lparr>aligned_base := hint + align_up sz SEGMENT_SIZE\<rparr>)
    \<and> unat al dvd unat hint
    \<and> unat (hint + align_up sz SEGMENT_SIZE) = unat hint + unat (align_up sz SEGMENT_SIZE)
    \<and> unat sz \<le> unat (align_up sz SEGMENT_SIZE)
    \<and> 33554432 dvd unat (hint + align_up sz SEGMENT_SIZE)"
proof (intro conjI)
  let ?a = "align_up sz SEGMENT_SIZE"
  have sz: "unat sz \<le> 1073741824" using assms(3) by (simp add: word_le_nat_alt)
  have a: "unat ?a = (unat sz + 33554431) div 33554432 * 33554432"
    using sz by (simp add: layout_consts align_up_unat)
  have a_ge: "unat sz \<le> unat ?a" using a by linarith
  have "(unat sz + 33554431) div 33554432 \<le> 32" using sz by linarith
  then have a_le: "unat ?a \<le> 1073741824" using a by linarith
  have base: "unat HINT_BASE = 2199023255552" "unat HINT_MAX = 32985348833280"
    by (simp_all add: HINT_BASE_def HINT_MAX_def push_bit_eq_mult)
  have h: "hint \<noteq> 0" "33554432 dvd unat hint" "unat hint \<le> 32985348833280"
    using base assms(4) by (auto simp: hint_def word_less_nat_alt)
  have al: "unat al dvd unat hint" using assms(2) h(2) by (rule dvd_trans)
  have "0 < unat al" using assms(1) by (auto simp: word_less_nat_alt)
  then have "hint mod al = 0" using al by (simp add: word_unat_eq_iff unat_mod_distrib)
  moreover have "\<not> al > SEGMENT_SIZE" using dvd_imp_le [OF assms(2)] by (simp add: layout_consts word_less_nat_alt)
  moreover have "\<not> ?a > 1073741824" using a_le by (simp add: word_less_nat_alt)
  moreover have "HINT_BASE \<noteq> 0" using base by auto
  ultimately show "os_get_aligned_hint al sz s = (hint, s\<lparr>aligned_base := hint + ?a\<rparr>)"
    using assms(1)
    by (auto simp: os_get_aligned_hint_def aligned_base_add_def aligned_base_cas_def hint_def Let_def
        mod_eq_0_iff_dvd split: if_splits)
  show "unat al dvd unat hint" by (rule al)
  show u: "unat (hint + ?a) = unat hint + unat ?a" using h(3) a_le by (intro unat_add_small) simp
  show "unat sz \<le> unat ?a" by (rule a_ge)
  show "33554432 dvd unat (hint + ?a)" using u h(2) a by simp
qed

text \<open>
  Committing a page-aligned region makes exactly its bytes readable and writable, and
  decommitting it makes exactly its bytes inaccessible; if the kernel refuses, both panic.
  Nothing but the protection (and the count of system calls) changes.
\<close>

lemma os_commit_exact:
  assumes "addr \<noteq> 0" "sz \<noteq> 0" "4096 dvd unat addr" "4096 dvd unat sz" "unat addr + unat sz + 4095 < 2 ^ 64"
  shows "os_commit env addr sz s =
      (if env_mprotect env (sys_calls s) addr sz True
       then Inr (True, False, set_prot (s\<lparr>sys_calls := sys_calls s + 1\<rparr>) addr sz True) else Inl Panic)
    \<and> os_decommit env addr sz s =
      (if env_mprotect env (sys_calls s) addr sz False
       then Inr (True, set_prot (s\<lparr>sys_calls := sys_calls s + 1\<rparr>) addr sz False) else Inl Panic)"
  by (simp add: os_commit_def os_decommit_def os_commitx_exact [OF assms])

end
