(* ===== verification/Commit_Segment.thy ===== *)
theory Commit_Segment
  imports Commit_Mask Os
begin

text \<open>
  Commitment of segment memory (\<^verbatim>\<open>commit_segment.rs\<close>): each segment has 512 chunks of
  \<open>COMMIT_SIZE\<close> bytes; \<open>commit_mask\<close> says which are committed and \<open>decommit_mask\<close> which of
  those wait to be decommitted. The invariant \<open>commit_ok\<close> ties the masks to the protection of
  the bytes; the operations are described by their effect on the two sets of chunks.
\<close>

section \<open>Operations\<close>

definition clock_now :: "Env \<Rightarrow> st \<Rightarrow> i64 \<times> st" where
  "clock_now env s =
     (let ((tv_sec, tv_nsec), s) = clock_gettime_monotonic env s in
      (tv_sec * 1000 + tv_nsec div 1000000, s))"

text \<open>The results are \<^verbatim>\<open>start_p\<close>, \<^verbatim>\<open>full_size\<close> and the mask written through \<^verbatim>\<open>cm\<close>.\<close>

definition segment_commit_mask :: "usize \<Rightarrow> bool \<Rightarrow> usize \<Rightarrow> usize \<Rightarrow> CommitMask \<Rightarrow> (usize \<times> usize \<times> CommitMask) res" where
  "segment_commit_mask segment_ptr conservative p sz cm =
     (if sz = 0 \<or> sz > SEGMENT_SIZE then Inr (0, 0, cm)
      else
        let segstart = SLICE_SIZE; segsize = SEGMENT_SIZE in
        if p \<ge> segment_ptr + segsize then Inr (0, 0, cm)
        else
          let pstart = p - segment_ptr;
              start = (if conservative then align_up pstart COMMIT_SIZE else align_down pstart COMMIT_SIZE);
              end_ofs = (if conservative then align_down (pstart + sz) COMMIT_SIZE else align_up (pstart + sz) COMMIT_SIZE);
              start = (if pstart \<ge> segstart \<and> start < segstart then segstart else start);
              end_ofs = (if end_ofs > segsize then segsize else end_ofs);
              start_p = segment_ptr + start;
              full_size = (if end_ofs > start then end_ofs - start else 0) in
          if full_size = 0 then Inr (start_p, full_size, cm)
          else
            let bitidx = start div COMMIT_SIZE; bitcount = full_size div COMMIT_SIZE in
            bindR (create cm bitidx bitcount) (\<lambda>cm. Inr (start_p, full_size, cm)))"

definition get_main :: "st \<Rightarrow> usize \<Rightarrow> SegmentHeaderMain res" where
  "get_main s segment = bindR (fetch (segment_at s) segment) (\<lambda>sg. Inr (main sg))"

text \<open>Lines 1202 to 1317 and 1318 to 1494: the call to the operating system and the commit mask.\<close>

definition commitx_os :: "Env \<Rightarrow> usize \<Rightarrow> bool \<Rightarrow> usize \<Rightarrow> usize \<Rightarrow> CommitMask \<Rightarrow> st \<Rightarrow> (bool \<times> st) res" where
  "commitx_os env segment commit start full_size m s =
     bindR (get_main s segment) (\<lambda>mn.
       if commit \<and> \<not> all_set (commit_mask mn) m then
         bindR (os_commit env start full_size s) (\<lambda>(success, is_zero, s).
           if \<not> success then Inr (False, s)
           else bindR (upd_main s segment (\<lambda>mn. mn\<lparr>commit_mask := set_mask (commit_mask mn) m\<rparr>)) (\<lambda>s. Inr (True, s)))
       else if \<not> commit \<and> any_set (commit_mask mn) m then
         bindR (if allow_decommit mn then os_decommit env start full_size s else Inr (True, s)) (\<lambda>(success, s).
           bindR (upd_main s segment (\<lambda>mn. mn\<lparr>commit_mask := clear (commit_mask mn) m\<rparr>)) (\<lambda>s. Inr (True, s)))
       else Inr (True, s))"

text \<open>Lines 1566 to 1585: pending decommits of the range are dropped.\<close>

definition commitx_pending :: "Env \<Rightarrow> usize \<Rightarrow> bool \<Rightarrow> CommitMask \<Rightarrow> st \<Rightarrow> st res" where
  "commitx_pending env segment commit m s =
     bindR (get_main s segment) (\<lambda>mn.
       bindR (if commit \<and> any_set (decommit_mask mn) m then
                let (now, s) = clock_now env s in
                upd_main s segment (\<lambda>mn. mn\<lparr>decommit_expire := now + option_decommit_delay\<rparr>)
              else Inr s)
         (\<lambda>s. upd_main s segment (\<lambda>mn. mn\<lparr>decommit_mask := clear (decommit_mask mn) m\<rparr>)))"

definition segment_commitx :: "Env \<Rightarrow> usize \<Rightarrow> bool \<Rightarrow> usize \<Rightarrow> usize \<Rightarrow> st \<Rightarrow> (bool \<times> st) res" where
  "segment_commitx env segment commit p sz s =
     bindR (segment_commit_mask segment (\<not> commit) p sz empty) (\<lambda>(start, full_size, m).
       if is_empty m \<or> full_size = 0 then Inr (True, s)
       else bindR (commitx_os env segment commit start full_size m s) (\<lambda>(success, s).
         if \<not> success then Inr (False, s)
         else bindR (commitx_pending env segment commit m s) (\<lambda>s. Inr (True, s))))"

definition segment_ensure_committed :: "Env \<Rightarrow> usize \<Rightarrow> usize \<Rightarrow> usize \<Rightarrow> st \<Rightarrow> (bool \<times> st) res" where
  "segment_ensure_committed env segment p sz s =
     bindR (get_main s segment) (\<lambda>mn.
       if is_full (commit_mask mn) \<and> is_empty (decommit_mask mn) then Inr (True, s)
       else segment_commitx env segment True p sz s)"

text \<open>
  The loop of \<^verbatim>\<open>segment_delayed_decommit\<close>. Each round clears the run it found, so that a mask of
  512 bits allows at most 512 rounds and one more to see that it is empty.
\<close>

fun delayed_decommit_loop :: "nat \<Rightarrow> Env \<Rightarrow> usize \<Rightarrow> usize \<Rightarrow> st \<Rightarrow> st res" where
  "delayed_decommit_loop 0 env segment i s = Inl Diverge"
| "delayed_decommit_loop (Suc fuel) env segment i s =
     bindR (get_main s segment) (\<lambda>mn.
       let (next_idx, cnt) = next_run (decommit_mask mn) i in
       if cnt = 0 then Inr s
       else
         let i = next_idx; p = segment + i * COMMIT_SIZE; sz = cnt * COMMIT_SIZE in
         bindR (segment_commitx env segment False p sz s) (\<lambda>(success, s).
           delayed_decommit_loop fuel env segment i s))"

definition segment_delayed_decommit :: "Env \<Rightarrow> usize \<Rightarrow> bool \<Rightarrow> st \<Rightarrow> st res" where
  "segment_delayed_decommit env segment force s =
     bindR (get_main s segment) (\<lambda>mn.
       if \<not> allow_decommit mn \<or> is_empty (decommit_mask mn) then Inr s
       else
         let (now, s) = clock_now env s in
         if \<not> force \<and> sint now < sint (decommit_expire mn) then Inr s
         else delayed_decommit_loop 513 env segment 0 s)"

text \<open>Lines 2457 to 2488: when the pending chunks are decommitted.\<close>

definition perhaps_expire :: "Env \<Rightarrow> usize \<Rightarrow> st \<Rightarrow> st res" where
  "perhaps_expire env segment s =
     (let (now, s) = clock_now env s in
      bindR (get_main s segment) (\<lambda>mn.
        if decommit_expire mn = 0 then
          upd_main s segment (\<lambda>mn. mn\<lparr>decommit_expire := now + option_decommit_delay\<rparr>)
        else if sint (decommit_expire mn) \<le> sint now then
          if sint (decommit_expire mn + option_decommit_extend_delay) \<le> sint now
          then segment_delayed_decommit env segment True s
          else upd_main s segment (\<lambda>mn. mn\<lparr>decommit_expire := now + option_decommit_extend_delay\<rparr>)
        else upd_main s segment (\<lambda>mn. mn\<lparr>decommit_expire := decommit_expire mn + option_decommit_extend_delay\<rparr>)))"

definition segment_perhaps_decommit :: "Env \<Rightarrow> usize \<Rightarrow> usize \<Rightarrow> usize \<Rightarrow> st \<Rightarrow> st res" where
  "segment_perhaps_decommit env segment p sz s =
     bindR (get_main s segment) (\<lambda>mn.
       if \<not> allow_decommit mn then Inr s
       else if option_decommit_delay = 0 then todo
       else
         bindR (segment_commit_mask segment True p sz empty) (\<lambda>(start, full_size, m).
           if is_empty m \<or> full_size = 0 then Inr s
           else
             bindR (upd_main s segment (\<lambda>mn.
                 let cmask = create_intersect (commit_mask mn) m empty in
                 mn\<lparr>decommit_mask := set_mask (decommit_mask mn) cmask\<rparr>))
               (perhaps_expire env segment)))"


section \<open>The chunks of a range\<close>

text \<open>
  The chunks that meet the \<open>sz\<close> bytes at offset \<open>ofs\<close>, or that lie inside them when
  \<open>conservative\<close>.
\<close>

definition chunk_lo :: "bool \<Rightarrow> nat \<Rightarrow> nat" where
  "chunk_lo conservative ofs = (if conservative then (ofs + 65535) div 65536 else ofs div 65536)"

definition chunk_hi :: "bool \<Rightarrow> nat \<Rightarrow> nat" where
  "chunk_hi conservative e = min 512 (if conservative then e div 65536 else (e + 65535) div 65536)"

definition seg_addr_ok :: "usize \<Rightarrow> bool" where
  "seg_addr_ok segment \<longleftrightarrow> segment \<noteq> 0 \<and> 33554432 dvd unat segment \<and> unat segment + 33558528 < 18446744073709551616"

lemma segment_commit_mask_spec:
  fixes cons :: bool
  assumes "seg_addr_ok seg" "sz \<noteq> 0" "sz \<le> SEGMENT_SIZE" "seg \<le> p" "unat p < unat seg + 33554432" "cm_wf cm" "view cm = {}"
  defines "lo \<equiv> chunk_lo cons (unat p - unat seg)" and "hi \<equiv> chunk_hi cons (unat p - unat seg + unat sz)"
  shows "\<exists>start full cm'. segment_commit_mask seg cons p sz cm = Inr (start, full, cm') \<and> cm_wf cm'
    \<and> view cm' = {lo..<hi} \<and> unat start = unat seg + 65536 * lo \<and> unat full = (hi - lo) * 65536"
proof -
  have seg: "unat seg + 33554432 < 18446744073709551616" using assms(1) by (simp add: seg_addr_ok_def)
  then have end_seg: "unat (seg + 33554432) = unat seg + 33554432" by (simp add: unat_add_small)
  define ps where "ps = p - seg"
  have ps: "unat ps = unat p - unat seg" using assms(4) by (simp add: ps_def unat_sub_small)
  then have ps_lt: "unat ps < 33554432" using assms(4,5) by (simp add: word_le_nat_alt)
  have sz: "unat sz \<le> 33554432" using assms(3) by (simp add: word_le_nat_alt layout_consts)
  have e: "unat (ps + sz) = unat ps + unat sz" using ps_lt sz by (intro unat_add_small) simp
  define start where "start = (if cons then align_up ps 65536 else align_down ps 65536)"
  define e1 where "e1 = (if cons then align_down (ps + sz) 65536 else align_up (ps + sz) 65536)"
  have st: "unat start = 65536 * lo"
    using ps_lt by (simp add: start_def lo_def chunk_lo_def ps [symmetric] align_up_unat align_down_unat)
      (simp add: add.commute)
  have e1: "unat e1 = 65536 * (if cons then (unat ps + unat sz) div 65536 else (unat ps + unat sz + 65535) div 65536)"
    using ps_lt sz e by (simp add: e1_def align_up_unat align_down_unat) (simp add: ac_simps)
  define e2 where "e2 = (if e1 > 33554432 then 33554432 else e1)"
  have e2: "unat e2 = 65536 * hi"
    using e1 by (auto simp: e2_def hi_def chunk_hi_def ps [symmetric] word_less_nat_alt min_def)
  have g: "(65536 \<le> ps \<and> start < 65536) = False" "(sz = 0 \<or> 33554432 < sz) = False"
    "(seg + 33554432 \<le> p) = False"
    using st assms(2,5) sz end_seg
    by (auto simp: word_less_nat_alt word_le_nat_alt lo_def chunk_lo_def ps [symmetric])
  have eq: "segment_commit_mask seg cons p sz cm =
    (let full = (if e2 > start then e2 - start else 0) in
     if full = 0 then Inr (seg + start, full, cm)
     else bindR (create cm (start div 65536) (full div 65536)) (\<lambda>cm. Inr (seg + start, full, cm)))"
    by (simp only: segment_commit_mask_def const_facts Let_def ps_def [symmetric] start_def [symmetric]
        e1_def [symmetric] e2_def [symmetric] g if_False cong: if_cong)
  have hi: "hi \<le> 512" by (simp add: hi_def chunk_hi_def)
  have lo: "lo \<le> 512" using ps_lt by (auto simp: lo_def chunk_lo_def ps [symmetric])
  have sp: "unat (seg + start) = unat seg + 65536 * lo" using st lo seg by (simp add: unat_add_small)
  show ?thesis
  proof (cases "lo < hi")
    case True
    then have gt: "e2 > start" using st e2 by (simp add: word_less_nat_alt)
    then have full: "unat (e2 - start) = (hi - lo) * 65536" using st e2 True by (simp add: unat_sub_small diff_mult_distrib2)
    moreover have "unat (start div 65536) = lo" "unat ((e2 - start) div 65536) = hi - lo"
      using st full by (simp_all add: unat_div)
    moreover then obtain r where "create cm (start div 65536) ((e2 - start) div 65536) = Inr r \<and> cm_wf r \<and> view r = {lo..<hi}"
      using view_create [OF assms(6,7), of "start div 65536" "(e2 - start) div 65536"] True hi by auto
    moreover have "e2 - start \<noteq> 0" using full True by auto
    ultimately show ?thesis using eq gt sp by (simp add: Let_def)
  next
    case False
    then have "\<not> e2 > start" using st e2 by (simp add: word_less_nat_alt)
    then show ?thesis using eq sp False assms(6,7) by (simp add: Let_def)
  qed
qed


section \<open>The invariant and the effect of an operation\<close>

text \<open>The bytes of a set of chunks of a segment.\<close>

definition chunk_bytes :: "usize \<Rightarrow> nat set \<Rightarrow> usize set" where
  "chunk_bytes seg K = {x. unat seg \<le> unat x \<and> (unat x - unat seg) div 65536 \<in> K}"

definition prot_chunks :: "usize \<Rightarrow> nat set \<Rightarrow> bool \<Rightarrow> (usize \<rightharpoonup> bool) \<Rightarrow> usize \<rightharpoonup> bool" where
  "prot_chunks seg K rw P x = (if x \<in> chunk_bytes seg K then Some rw else P x)"

definition commit_ok :: "st \<Rightarrow> usize \<Rightarrow> bool" where
  "commit_ok s seg \<longleftrightarrow> seg_addr_ok seg \<and> (\<exists>sg. segment_at s seg = Some sg
     \<and> cm_wf (commit_mask (main sg)) \<and> cm_wf (decommit_mask (main sg))
     \<and> view (decommit_mask (main sg)) \<subseteq> view (commit_mask (main sg))
     \<and> (\<forall>x \<in> chunk_bytes seg (view (commit_mask (main sg))). os_prot s x = Some True))"

text \<open>
  After the operation the chunks \<open>C\<close> are committed and \<open>D\<close> pending, the protection is \<open>P\<close>, and
  nothing else of the state but the expiry time and the count of system calls has changed.
\<close>

definition commit_post :: "usize \<Rightarrow> st \<Rightarrow> nat set \<Rightarrow> nat set \<Rightarrow> (usize \<rightharpoonup> bool) \<Rightarrow> st \<Rightarrow> bool" where
  "commit_post seg s C D P s' \<longleftrightarrow> (\<exists>sg cm dm e n. segment_at s seg = Some sg
     \<and> cm_wf cm \<and> cm_wf dm \<and> view cm = C \<and> view dm = D
     \<and> s' = s\<lparr>segment_at := (segment_at s)(seg \<mapsto> sg\<lparr>main := (main sg)\<lparr>decommit_expire := e, decommit_mask := dm, commit_mask := cm\<rparr>\<rparr>),
         os_prot := P, sys_calls := n\<rparr>)"

abbreviation set_masks :: "usize \<Rightarrow> i64 \<Rightarrow> CommitMask \<Rightarrow> CommitMask \<Rightarrow> (usize \<rightharpoonup> bool) \<Rightarrow> nat \<Rightarrow> st \<Rightarrow> SegmentHeader \<Rightarrow> st" where
  "set_masks seg e dm cm P n s sg \<equiv>
     s\<lparr>segment_at := (segment_at s)(seg \<mapsto> sg\<lparr>main := (main sg)\<lparr>decommit_expire := e, decommit_mask := dm, commit_mask := cm\<rparr>\<rparr>),
       os_prot := P, sys_calls := n\<rparr>"

lemma commit_postI:
  assumes "segment_at s seg = Some sg" "s' = set_masks seg e dm cm P n s sg" "cm_wf cm" "cm_wf dm" "view cm = C" "view dm = D"
  shows "commit_post seg s C D P s'"
  unfolding commit_post_def using assms by blast

lemma commit_postE:
  assumes "commit_post seg s C D P s'"
  obtains sg cm dm e n where "segment_at s seg = Some sg" "s' = set_masks seg e dm cm P n s sg" "cm_wf cm" "cm_wf dm"
    "view cm = C" "view dm = D"
  using assms unfolding commit_post_def by blast

lemma commit_post_trans:
  assumes "commit_post seg s C D P s1" "commit_post seg s1 C' D' P' s2"
  shows "commit_post seg s C' D' P' s2"
proof -
  obtain sg cm dm e n where a: "segment_at s seg = Some sg" "s1 = set_masks seg e dm cm P n s sg"
    using assms(1) by (rule commit_postE)
  obtain sg' cm' dm' e' n' where b: "segment_at s1 seg = Some sg'" "s2 = set_masks seg e' dm' cm' P' n' s1 sg'"
    "cm_wf cm'" "cm_wf dm'" "view cm' = C'" "view dm' = D'"
    using assms(2) by (rule commit_postE)
  have "sg' = sg\<lparr>main := (main sg)\<lparr>decommit_expire := e, decommit_mask := dm, commit_mask := cm\<rparr>\<rparr>"
    using a(2) b(1) by simp
  then have "s2 = set_masks seg e' dm' cm' P' n' s sg" using a(2) b(2) by simp
  then show ?thesis using commit_postI a(1) b(3-6) by blast
qed

lemma commit_post_refl:
  assumes "segment_at s seg = Some sg" "cm_wf (commit_mask (main sg))" "cm_wf (decommit_mask (main sg))"
  shows "commit_post seg s (view (commit_mask (main sg))) (view (decommit_mask (main sg))) (os_prot s) s"
  by (rule commit_postI [where e = "decommit_expire (main sg)" and n = "sys_calls s", OF assms(1)])
    (simp_all add: assms fun_upd_idem)

lemma commit_post_prot: "commit_post seg s C D P s' \<Longrightarrow> os_prot s' = P"
  by (auto simp: commit_post_def)

lemma commit_post_ok:
  assumes "commit_post seg s C D P s'" "seg_addr_ok seg" "D \<subseteq> C" "\<And>x. x \<in> chunk_bytes seg C \<Longrightarrow> P x = Some True"
  shows "commit_ok s' seg"
proof -
  obtain sg cm dm e n where "s' = set_masks seg e dm cm P n s sg" "cm_wf cm" "cm_wf dm" "view cm = C" "view dm = D"
    using assms(1) by (rule commit_postE)
  then show ?thesis using assms(2-4) by (simp add: commit_ok_def)
qed

text \<open>A region of whole chunks.\<close>

lemma in_region_chunks:
  assumes "unat start = unat seg + 65536 * lo" "unat full = (hi - lo) * 65536"
  shows "in_region start full x \<longleftrightarrow> x \<in> chunk_bytes seg {lo..<hi}"
proof -
  have "in_region start full x \<longleftrightarrow> unat seg \<le> unat x \<and> 65536 * lo \<le> unat x - unat seg \<and> unat x - unat seg < 65536 * lo + (hi - lo) * 65536"
    using assms by (auto simp: in_region_def)
  moreover have "65536 * lo \<le> n \<and> n < 65536 * lo + (hi - lo) * 65536 \<longleftrightarrow> lo \<le> n div 65536 \<and> n div 65536 < hi" for n :: nat
    by (cases "lo \<le> hi") (auto simp: less_mult_imp_div_less diff_mult_distrib mult.commute)
  ultimately show ?thesis by (auto simp: chunk_bytes_def)
qed

text \<open>The kernel grants every change of protection.\<close>

definition mprotect_granted :: "Env \<Rightarrow> bool" where
  "mprotect_granted env \<longleftrightarrow> (\<forall>n a len rw. env_mprotect env n a len rw)"

lemma os_chunks:
  assumes "seg_addr_ok seg" "unat start = unat seg + 65536 * lo" "unat full = (hi - lo) * 65536" "lo < hi" "hi \<le> 512"
  shows "os_commitx env start full rw cons s =
    (if env_mprotect env (sys_calls s) start full rw
     then Inr (True, False, s\<lparr>os_prot := prot_chunks seg {lo..<hi} rw (os_prot s), sys_calls := sys_calls s + 1\<rparr>) else Inl Panic)"
proof -
  have seg: "33554432 dvd unat seg" "unat seg + 33558528 < 18446744073709551616" using assms(1) by (auto simp: seg_addr_ok_def)
  have "0 < unat seg" using assms(1) by (simp add: seg_addr_ok_def unat_gt_0)
  then have "start \<noteq> 0" using assms(2) by auto
  moreover have "full \<noteq> 0" using assms(3,4) by auto
  moreover have "4096 dvd unat seg" using dvd_trans [OF _ seg(1), of 4096] by simp
  then have "4096 dvd unat start" "4096 dvd unat full" using assms(2,3) by (simp_all add: dvd_mult dvd_mult2)
  moreover have "unat start + unat full + 4095 < 2 ^ 64" using assms(2-5) seg(2) by simp
  ultimately have "os_commitx env start full rw cons s =
    (if env_mprotect env (sys_calls s) start full rw
     then Inr (True, False, set_prot (s\<lparr>sys_calls := sys_calls s + 1\<rparr>) start full rw) else Inl Panic)"
    by (rule os_commitx_exact)
  moreover have "set_prot (s\<lparr>sys_calls := sys_calls s + 1\<rparr>) start full rw =
    s\<lparr>os_prot := prot_chunks seg {lo..<hi} rw (os_prot s), sys_calls := sys_calls s + 1\<rparr>"
    by (simp add: set_prot_def prot_chunks_def fun_eq_iff in_region_chunks [OF assms(2,3)])
  ultimately show ?thesis by simp
qed

text \<open>The chunks whose protection a call changes.\<close>

definition touched :: "bool \<Rightarrow> SegmentHeaderMain \<Rightarrow> nat set \<Rightarrow> bool" where
  "touched commit mn K \<longleftrightarrow> (if commit then \<not> K \<subseteq> view (commit_mask mn) else allow_decommit mn \<and> K \<inter> view (commit_mask mn) \<noteq> {})"

lemma commitx_os_effect:
  assumes "seg_addr_ok seg" "segment_at s seg = Some sg" "cm_wf (commit_mask (main sg))" "cm_wf (decommit_mask (main sg))"
    "cm_wf m" "view m = {lo..<hi}" "lo < hi" "hi \<le> 512" "unat start = unat seg + 65536 * lo" "unat full = (hi - lo) * 65536"
  defines "C \<equiv> view (commit_mask (main sg))" and "K \<equiv> {lo..<hi}"
  shows "commitx_os env seg commit start full m s = Inl Panic \<and> \<not> mprotect_granted env
    \<or> (\<exists>s'. commitx_os env seg commit start full m s = Inr (True, s')
         \<and> commit_post seg s (if commit then C \<union> K else C - K) (view (decommit_mask (main sg)))
              (if touched commit (main sg) K then prot_chunks seg K commit (os_prot s) else os_prot s) s')"
proof -
  let ?mn = "main sg" and ?n = "sys_calls s + 1"
  note os = os_chunks [OF assms(1,9,10,7,8), folded K_def]
  have mn: "get_main s seg = Inr ?mn" by (simp add: get_main_def assms(2))
  have granted: "\<not> mprotect_granted env" if "\<not> env_mprotect env (sys_calls s) start full commit"
    using that by (auto simp: mprotect_granted_def)
  consider (set) "commit" "\<not> K \<subseteq> C" | (clr) "\<not> commit" "K \<inter> C \<noteq> {}" "allow_decommit ?mn"
    | (clr0) "\<not> commit" "K \<inter> C \<noteq> {}" "\<not> allow_decommit ?mn" | (none) "commit" "K \<subseteq> C" | (none') "\<not> commit" "K \<inter> C = {}"
    by blast
  then show ?thesis
  proof cases
    case set
    have "commit_post seg s (C \<union> K) (view (decommit_mask ?mn)) (prot_chunks seg K True (os_prot s))
        (set_masks seg (decommit_expire ?mn) (decommit_mask ?mn) (set_mask (commit_mask ?mn) m) (prot_chunks seg K True (os_prot s)) ?n s sg)"
      by (rule commit_postI [OF assms(2) refl]) (simp_all add: assms(3-6) C_def K_def mask_view)
    then show ?thesis using set os granted assms(2,6)
      by (auto simp: commitx_os_def mn mask_view os_commit_def upd_main_eq touched_def C_def K_def st_canon)
  next
    case clr
    have "commit_post seg s (C - K) (view (decommit_mask ?mn)) (prot_chunks seg K False (os_prot s))
        (set_masks seg (decommit_expire ?mn) (decommit_mask ?mn) (clear (commit_mask ?mn) m) (prot_chunks seg K False (os_prot s)) ?n s sg)"
      by (rule commit_postI [OF assms(2) refl]) (simp_all add: assms(3-6) C_def K_def mask_view)
    then show ?thesis using clr os granted assms(2,6)
      by (auto simp: commitx_os_def mn mask_view os_decommit_def upd_main_eq touched_def C_def K_def Int_commute st_canon)
  next
    case clr0
    have "commit_post seg s (C - K) (view (decommit_mask ?mn)) (os_prot s)
        (set_masks seg (decommit_expire ?mn) (decommit_mask ?mn) (clear (commit_mask ?mn) m) (os_prot s) (sys_calls s) s sg)"
      by (rule commit_postI [OF assms(2) refl]) (simp_all add: assms(3-6) C_def K_def mask_view)
    then show ?thesis using clr0 assms(2,6)
      by (auto simp: commitx_os_def mn mask_view upd_main_eq touched_def C_def K_def Int_commute st_canon)
  next
    case none
    then show ?thesis using commit_post_refl [OF assms(2-4)] assms(6)
      by (auto simp: commitx_os_def mn mask_view touched_def C_def K_def Un_absorb2)
  next
    case none'
    then have "C - K = C" by blast
    then show ?thesis using none' commit_post_refl [OF assms(2-4)] assms(6)
      by (auto simp: commitx_os_def mn mask_view touched_def C_def K_def Int_commute)
  qed
qed

lemma clock_now_st: "\<exists>now. clock_now env s = (now, s\<lparr>sys_calls := sys_calls s + 1\<rparr>)"
  by (simp add: clock_now_def clock_gettime_monotonic_def Let_def split: prod.splits)

lemma commitx_pending_effect:
  assumes "segment_at s seg = Some sg" "cm_wf (commit_mask (main sg))" "cm_wf (decommit_mask (main sg))"
  shows "\<exists>s'. commitx_pending env seg commit m s = Inr s'
    \<and> commit_post seg s (view (commit_mask (main sg))) (view (decommit_mask (main sg)) - view m) (os_prot s) s'"
proof -
  let ?mn = "main sg" and ?dm = "clear (decommit_mask (main sg)) m"
  have mn: "get_main s seg = Inr ?mn" by (simp add: get_main_def assms(1))
  obtain now where now: "clock_now env s = (now, s\<lparr>sys_calls := sys_calls s + 1\<rparr>)" using clock_now_st by blast
  have post: "commit_post seg s (view (commit_mask ?mn)) (view (decommit_mask ?mn) - view m) (os_prot s)
      (set_masks seg e ?dm (commit_mask ?mn) (os_prot s) n s sg)" for e n
    by (rule commit_postI [OF assms(1) refl]) (simp_all add: assms mask_view)
  show ?thesis
  proof (cases "commit \<and> any_set (decommit_mask ?mn) m")
    case True
    then have "commitx_pending env seg commit m s =
        Inr (set_masks seg (now + option_decommit_delay) ?dm (commit_mask ?mn) (os_prot s) (sys_calls s + 1) s sg)"
      using assms(1) by (simp add: commitx_pending_def mn now upd_main_eq st_canon)
    then show ?thesis using post by blast
  next
    case False
    then have "commitx_pending env seg commit m s =
        Inr (set_masks seg (decommit_expire ?mn) ?dm (commit_mask ?mn) (os_prot s) (sys_calls s) s sg)"
      using assms(1) by (auto simp add: commitx_pending_def mn upd_main_eq)
    then show ?thesis using post by blast
  qed
qed

definition range_ok :: "usize \<Rightarrow> usize \<Rightarrow> usize \<Rightarrow> bool" where
  "range_ok seg p sz \<longleftrightarrow> seg_addr_ok seg \<and> sz \<noteq> 0 \<and> sz \<le> SEGMENT_SIZE \<and> seg \<le> p \<and> unat p < unat seg + 33554432"

text \<open>The chunks an operation on \<open>sz\<close> bytes at \<open>p\<close> is about.\<close>

definition range_chunks :: "bool \<Rightarrow> usize \<Rightarrow> usize \<Rightarrow> usize \<Rightarrow> nat set" where
  "range_chunks conservative seg p sz =
     {chunk_lo conservative (unat p - unat seg)..<chunk_hi conservative (unat p - unat seg + unat sz)}"

lemma empty_wf: "cm_wf empty"
  by (simp add: empty_def)

lemma segment_commitx_effect:
  fixes commit :: bool
  assumes "range_ok seg p sz" "segment_at s seg = Some sg" "cm_wf (commit_mask (main sg))" "cm_wf (decommit_mask (main sg))"
  defines "C \<equiv> view (commit_mask (main sg))" and "D \<equiv> view (decommit_mask (main sg))" and "K \<equiv> range_chunks (\<not> commit) seg p sz"
  shows "segment_commitx env seg commit p sz s = Inl Panic \<and> \<not> mprotect_granted env
    \<or> (\<exists>s'. segment_commitx env seg commit p sz s = Inr (True, s')
         \<and> commit_post seg s (if commit then C \<union> K else C - K) (D - K)
              (if touched commit (main sg) K then prot_chunks seg K commit (os_prot s) else os_prot s) s')"
proof -
  define lo where "lo = chunk_lo (\<not> commit) (unat p - unat seg)"
  define hi where "hi = chunk_hi (\<not> commit) (unat p - unat seg + unat sz)"
  have K: "K = {lo..<hi}" by (simp add: K_def range_chunks_def lo_def hi_def)
  have r: "seg_addr_ok seg" "sz \<noteq> 0" "sz \<le> SEGMENT_SIZE" "seg \<le> p" "unat p < unat seg + 33554432"
    using assms(1) by (auto simp: range_ok_def)
  obtain start full m where m: "segment_commit_mask seg (\<not> commit) p sz empty = Inr (start, full, m)" "cm_wf m"
    "view m = {lo..<hi}" "unat start = unat seg + 65536 * lo" "unat full = (hi - lo) * 65536"
    using segment_commit_mask_spec [OF r empty_wf view_empty, of "\<not> commit"] unfolding lo_def hi_def by blast
  show ?thesis
  proof (cases "lo < hi")
    case False
    then have "K = {}" "is_empty m" using m(3) by (simp_all add: K mask_view)
    then show ?thesis using m(1) commit_post_refl [OF assms(2-4)]
      by (simp add: segment_commitx_def touched_def C_def D_def)
  next
    case True
    have ne: "\<not> (is_empty m \<or> full = 0)" using True m(3,5) by (auto simp: mask_view)
    have hi: "hi \<le> 512" by (simp add: hi_def chunk_hi_def)
    note eff = commitx_os_effect [OF r(1) assms(2-4) m(2,3) True hi m(4,5), of env commit, folded K C_def D_def]
    show ?thesis
    proof (cases "commitx_os env seg commit start full m s")
      case (Inl e)
      then show ?thesis using eff m(1) ne by (simp add: segment_commitx_def)
    next
      case (Inr a)
      then obtain s1 where s1: "commitx_os env seg commit start full m s = Inr (True, s1)"
        "commit_post seg s (if commit then C \<union> K else C - K) D
           (if touched commit (main sg) K then prot_chunks seg K commit (os_prot s) else os_prot s) s1"
        using eff by auto
      obtain sg1 where sg1: "segment_at s1 seg = Some sg1" "cm_wf (commit_mask (main sg1))" "cm_wf (decommit_mask (main sg1))"
        "view (commit_mask (main sg1)) = (if commit then C \<union> K else C - K)" "view (decommit_mask (main sg1)) = D"
        "os_prot s1 = (if touched commit (main sg) K then prot_chunks seg K commit (os_prot s) else os_prot s)"
        using s1(2) by (rule commit_postE) simp
      obtain s2 where s2: "commitx_pending env seg commit m s1 = Inr s2"
        "commit_post seg s1 (view (commit_mask (main sg1))) (view (decommit_mask (main sg1)) - view m) (os_prot s1) s2"
        using commitx_pending_effect [OF sg1(1-3)] by blast
      have "commit_post seg s (view (commit_mask (main sg1))) (view (decommit_mask (main sg1)) - view m) (os_prot s1) s2"
        using commit_post_trans [OF s1(2) s2(2)] .
      then show ?thesis using s1(1) s2(1) m(1,3) ne unfolding sg1 by (simp add: segment_commitx_def K)
    qed
  qed
qed

lemma chunk_bytes_mono: "K \<subseteq> L \<Longrightarrow> chunk_bytes seg K \<subseteq> chunk_bytes seg L"
  by (auto simp: chunk_bytes_def)

lemma prot_chunks_empty [simp]: "prot_chunks seg {} rw P = P"
  by (simp add: prot_chunks_def chunk_bytes_def fun_eq_iff)

lemma range_chunks_bound: "range_chunks cons seg p sz \<subseteq> {..<512}"
  by (auto simp: range_chunks_def chunk_hi_def)

lemma range_bytes:
  assumes "range_ok seg p sz" "in_region p sz x" "unat x < unat seg + 33554432"
  shows "x \<in> chunk_bytes seg (range_chunks False seg p sz)"
proof -
  have le: "unat seg \<le> unat p" using assms(1) by (simp add: range_ok_def word_le_nat_alt)
  define d where "d = unat x - unat seg"
  have d: "unat p - unat seg \<le> d" "d < unat p - unat seg + unat sz" "d < 33554432"
    using assms(2,3) le by (auto simp: in_region_def d_def)
  then have "d div 65536 < 512" "(unat p - unat seg) div 65536 \<le> d div 65536"
    "d div 65536 < (unat p - unat seg + unat sz + 65535) div 65536"
    by (auto intro: div_le_mono)
  then show ?thesis using assms(2) le
    by (auto simp: chunk_bytes_def range_chunks_def chunk_lo_def chunk_hi_def d_def [symmetric] in_region_def)
qed

lemma range_inner_bytes:
  assumes "seg \<le> p" "x \<in> chunk_bytes seg (range_chunks True seg p sz)"
  shows "in_region p sz x"
proof -
  define d where "d = unat x - unat seg"
  define ps where "ps = unat p - unat seg"
  have x: "unat x = unat seg + d" "unat p = unat seg + ps" using assms
    by (auto simp: chunk_bytes_def d_def ps_def word_le_nat_alt)
  have "(ps + 65535) div 65536 \<le> d div 65536" "d div 65536 < (ps + unat sz) div 65536"
    using assms(2) by (auto simp: chunk_bytes_def range_chunks_def chunk_lo_def chunk_hi_def d_def ps_def)
  then have "ps \<le> d" "d < ps + unat sz" by linarith+
  then show ?thesis using x by (simp add: in_region_def)
qed

text \<open>Whole chunks stay whole.\<close>

lemma range_whole_chunks:
  assumes "unat p = unat seg + 65536 * i" "unat sz = 65536 * n" "i + n \<le> 512"
  shows "range_chunks cons seg p sz = {i..<i + n}"
  using assms by (auto simp: range_chunks_def chunk_lo_def chunk_hi_def)

section \<open>Committing\<close>

lemma ensure_committed_effect:
  assumes "commit_ok s seg" "range_ok seg p sz" "segment_at s seg = Some sg"
  defines "K \<equiv> range_chunks False seg p sz"
  shows "segment_ensure_committed env seg p sz s = Inl Panic \<and> \<not> mprotect_granted env
    \<or> (\<exists>s'. segment_ensure_committed env seg p sz s = Inr (True, s') \<and> commit_ok s' seg
        \<and> commit_post seg s (view (commit_mask (main sg)) \<union> K) (view (decommit_mask (main sg)) - K) (os_prot s') s'
        \<and> (\<forall>x. in_region p sz x \<and> unat x < unat seg + 33554432 \<longrightarrow> os_prot s' x = Some True)
        \<and> (\<forall>x. os_prot s x = Some True \<longrightarrow> os_prot s' x = Some True)
        \<and> (\<forall>x. x \<notin> chunk_bytes seg K \<longrightarrow> os_prot s' x = os_prot s x))"
proof -
  let ?C = "view (commit_mask (main sg))" and ?D = "view (decommit_mask (main sg))"
  have ok: "seg_addr_ok seg" "cm_wf (commit_mask (main sg))" "cm_wf (decommit_mask (main sg))" "?D \<subseteq> ?C"
    "\<And>x. x \<in> chunk_bytes seg ?C \<Longrightarrow> os_prot s x = Some True"
    using assms(1,3) by (auto simp: commit_ok_def)
  have bytes: "x \<in> chunk_bytes seg (?C \<union> K)" if "in_region p sz x" "unat x < unat seg + 33554432" for x
    using range_bytes [OF assms(2) that] chunk_bytes_mono [of K "?C \<union> K" seg] by (auto simp: K_def)
  have fin: ?thesis if e: "segment_ensure_committed env seg p sz s = Inr (True, s')"
    and post: "commit_post seg s (?C \<union> K) (?D - K) (os_prot s') s'"
    and P: "os_prot s' = os_prot s \<and> K \<subseteq> ?C \<or> os_prot s' = prot_chunks seg K True (os_prot s)" for s'
  proof -
    have rw: "os_prot s' x = Some True" if "x \<in> chunk_bytes seg (?C \<union> K)" for x
      using P that ok(5) by (auto simp: prot_chunks_def chunk_bytes_def)
    have keep: "os_prot s x = Some True \<Longrightarrow> os_prot s' x = Some True" for x
      using P by (auto simp: prot_chunks_def)
    have "commit_ok s' seg" using commit_post_ok [OF post ok(1)] ok(4) rw by blast
    moreover have "x \<notin> chunk_bytes seg K \<Longrightarrow> os_prot s' x = os_prot s x" for x using P by (auto simp: prot_chunks_def)
    ultimately show ?thesis using e post rw bytes keep by blast
  qed
  show ?thesis
  proof (cases "is_full (commit_mask (main sg)) \<and> is_empty (decommit_mask (main sg))")
    case True
    then have "?C \<union> K = ?C" "?D - K = ?D" "K \<subseteq> ?C"
      using range_chunks_bound [of False seg p sz] by (auto simp: mask_view K_def)
    moreover have "segment_ensure_committed env seg p sz s = Inr (True, s)"
      using True assms(3) by (simp add: segment_ensure_committed_def get_main_def)
    ultimately show ?thesis using fin [of s] commit_post_refl [OF assms(3) ok(2,3)] by simp
  next
    case False
    then have e: "segment_ensure_committed env seg p sz s = segment_commitx env seg True p sz s"
      using assms(3) by (auto simp: segment_ensure_committed_def get_main_def)
    have eff: "segment_commitx env seg True p sz s = Inl Panic \<and> \<not> mprotect_granted env
      \<or> (\<exists>s'. segment_commitx env seg True p sz s = Inr (True, s') \<and> commit_post seg s (?C \<union> K) (?D - K)
            (if touched True (main sg) K then prot_chunks seg K True (os_prot s) else os_prot s) s')"
      using segment_commitx_effect [OF assms(2,3) ok(2,3), of env True] by (simp only: K_def not_True_eq_False if_True)
    show ?thesis
    proof (cases "segment_commitx env seg True p sz s")
      case (Inl err)
      then show ?thesis using eff e by auto
    next
      case (Inr r)
      then obtain s' where s': "segment_commitx env seg True p sz s = Inr (True, s')"
        "commit_post seg s (?C \<union> K) (?D - K) (if touched True (main sg) K then prot_chunks seg K True (os_prot s) else os_prot s) s'"
        using eff by auto
      have P: "os_prot s' = (if touched True (main sg) K then prot_chunks seg K True (os_prot s) else os_prot s)"
        using s'(2) by (rule commit_postE) simp
      show ?thesis using fin [of s'] e s' P by (auto simp: touched_def)
    qed
  qed
qed

text \<open>
  C38. Making a range of a segment usable. If the invariant holds, \<^verbatim>\<open>segment_ensure_committed\<close>
  either panics because the kernel refused or returns true in a state where every byte of the
  range (inside the segment) can be read and written, no chunk the range meets is waiting to
  be decommitted, no byte has lost its protection, no byte outside those chunks has changed it,
  and the invariant still holds. Exactly the chunks the range meets are added to the committed
  ones.
\<close>

theorem ensure_committed_makes_writable:
  assumes "commit_ok s seg" "range_ok seg p sz" "segment_at s seg = Some sg"
  defines "K \<equiv> range_chunks False seg p sz"
  shows "segment_ensure_committed env seg p sz s = Inl Panic \<and> \<not> mprotect_granted env
    \<or> (\<exists>s'. segment_ensure_committed env seg p sz s = Inr (True, s') \<and> commit_ok s' seg
        \<and> commit_post seg s (view (commit_mask (main sg)) \<union> K) (view (decommit_mask (main sg)) - K) (os_prot s') s'
        \<and> (\<forall>x. in_region p sz x \<and> unat x < unat seg + 33554432 \<longrightarrow> os_prot s' x = Some True)
        \<and> (\<forall>x. os_prot s x = Some True \<longrightarrow> os_prot s' x = Some True)
        \<and> (\<forall>x. x \<notin> chunk_bytes seg K \<longrightarrow> os_prot s' x = os_prot s x))"
  unfolding K_def by (rule ensure_committed_effect [OF assms(1-3)])

section \<open>Decommitting\<close>

lemma delayed_decommit_loop_effect:
  assumes "segment_at s seg = Some sg" "seg_addr_ok seg" "cm_wf (commit_mask (main sg))" "cm_wf (decommit_mask (main sg))"
    "allow_decommit (main sg)" "view (decommit_mask (main sg)) \<subseteq> view (commit_mask (main sg))"
    "view (decommit_mask (main sg)) \<inter> {..<unat i} = {}" "card (view (decommit_mask (main sg))) < fuel"
  shows "delayed_decommit_loop fuel env seg i s = Inl Panic \<and> \<not> mprotect_granted env
    \<or> (\<exists>s'. delayed_decommit_loop fuel env seg i s = Inr s'
        \<and> commit_post seg s (view (commit_mask (main sg)) - view (decommit_mask (main sg))) {}
             (prot_chunks seg (view (decommit_mask (main sg))) False (os_prot s)) s')"
  using assms
proof (induction fuel arbitrary: s sg i)
  case (Suc fuel)
  let ?C = "view (commit_mask (main sg))" and ?D = "view (decommit_mask (main sg))"
  have mn: "get_main s seg = Inr (main sg)" by (simp add: get_main_def Suc.prems(1))
  obtain ni n where run: "next_run (decommit_mask (main sg)) i = (ni, n)" by (cases "next_run (decommit_mask (main sg)) i")
  note sp = next_run_spec [of "decommit_mask (main sg)" i, unfolded run fst_conv snd_conv]
  show ?case
  proof (cases "n = 0")
    case True
    have "?D = {}" using sp True Suc.prems(7) by (auto simp: not_le) (meson disjoint_iff lessThan_iff not_le)
    then show ?thesis using True mn run commit_post_refl [OF Suc.prems(1,3,4)]
      by simp
  next
    case False
    define K where "K = {unat ni..<unat ni + unat n}"
    have n: "0 < unat n" "unat ni + unat n \<le> 512" "K \<subseteq> ?D" "\<And>k. k \<in> ?D \<Longrightarrow> unat ni \<le> k"
      using sp False Suc.prems(7) by (auto simp: unat_gt_0 K_def disjoint_iff not_less)
    let ?p = "seg + ni * COMMIT_SIZE" and ?sz = "n * COMMIT_SIZE"
    have seg: "unat seg + 33558528 < 18446744073709551616" using Suc.prems(2) by (simp add: seg_addr_ok_def)
    have nz: "unat (ni * COMMIT_SIZE) = 65536 * unat ni" "unat ?sz = 65536 * unat n"
      using n(2) by (simp_all add: layout_consts unat_mult_small)
    then have p: "unat ?p = unat seg + 65536 * unat ni" using n(2) seg by (simp add: unat_add_small)
    have r: "range_ok seg ?p ?sz"
      using Suc.prems(2) n p nz by (auto simp: range_ok_def word_le_nat_alt layout_consts word_unat_eq_iff)
    have K: "range_chunks (\<not> False) seg ?p ?sz = K" using range_whole_chunks [OF p nz(2) n(2)] by (simp add: K_def)
    have "unat ni \<in> K" using n(1) by (simp add: K_def)
    then have t: "touched False (main sg) K" using n(3) Suc.prems(5,6) by (auto simp: touched_def)
    note eff = segment_commitx_effect [OF r Suc.prems(1,3,4), of env False, unfolded K, simplified, simplified t if_True]
    have unf: "delayed_decommit_loop (Suc fuel) env seg i s =
        bindR (segment_commitx env seg False ?p ?sz s) (\<lambda>(success, s). delayed_decommit_loop fuel env seg ni s)"
      using mn run False by (simp add: Let_def)
    from eff show ?thesis
    proof
      assume "segment_commitx env seg False ?p ?sz s = Inl Panic \<and> \<not> mprotect_granted env"
      then show ?thesis unfolding unf by simp
    next
      assume "\<exists>s'. segment_commitx env seg False ?p ?sz s = Inr (True, s') \<and>
        commit_post seg s (?C - K) (?D - K) (prot_chunks seg K False (os_prot s)) s'"
      then obtain s1 where s1: "segment_commitx env seg False ?p ?sz s = Inr (True, s1)"
        "commit_post seg s (?C - K) (?D - K) (prot_chunks seg K False (os_prot s)) s1" by blast
      obtain sg1 where sg1: "segment_at s1 seg = Some sg1" "cm_wf (commit_mask (main sg1))" "cm_wf (decommit_mask (main sg1))"
        "allow_decommit (main sg1)" "view (commit_mask (main sg1)) = ?C - K" "view (decommit_mask (main sg1)) = ?D - K"
        "os_prot s1 = prot_chunks seg K False (os_prot s)"
        using s1(2) by (rule commit_postE) (use Suc.prems(1,5) in simp)
      have fin: "finite ?D" using finite_subset [OF view_bound] by blast
      have "card (?D - K) < card ?D" using n(3) fin \<open>unat ni \<in> K\<close> by (intro psubset_card_mono) auto
      then have "card (?D - K) < fuel" using Suc.prems(8) by simp
      moreover have "(?D - K) \<inter> {..<unat ni} = {}" using n(4) by (auto simp: not_less [symmetric])
      moreover have "?D - K \<subseteq> ?C - K" using Suc.prems(6) by blast
      ultimately have ih: "delayed_decommit_loop fuel env seg ni s1 = Inl Panic \<and> \<not> mprotect_granted env
        \<or> (\<exists>s'. delayed_decommit_loop fuel env seg ni s1 = Inr s'
            \<and> commit_post seg s1 ((?C - K) - (?D - K)) {} (prot_chunks seg (?D - K) False (prot_chunks seg K False (os_prot s))) s')"
        using Suc.IH [OF sg1(1) Suc.prems(2) sg1(2-4), of ni] by (simp add: sg1(5-7))
      have "(?C - K) - (?D - K) = ?C - ?D" using n(3) by blast
      moreover have "prot_chunks seg (?D - K) False (prot_chunks seg K False (os_prot s)) = prot_chunks seg ?D False (os_prot s)"
        using n(3) by (auto simp: prot_chunks_def chunk_bytes_def fun_eq_iff)
      ultimately show ?thesis using ih s1(1) commit_post_trans [OF s1(2)] unfolding unf by auto
    qed
  qed
qed simp

lemma forced_decommit_effect:
  assumes "commit_ok s seg" "segment_at s seg = Some sg" "allow_decommit (main sg)"
  shows "segment_delayed_decommit env seg True s = Inl Panic \<and> \<not> mprotect_granted env
    \<or> (\<exists>s'. segment_delayed_decommit env seg True s = Inr s'
        \<and> commit_post seg s (view (commit_mask (main sg)) - view (decommit_mask (main sg))) {}
             (prot_chunks seg (view (decommit_mask (main sg))) False (os_prot s)) s')"
proof -
  let ?C = "view (commit_mask (main sg))" and ?D = "view (decommit_mask (main sg))"
  let ?s = "s\<lparr>sys_calls := sys_calls s + 1\<rparr>"
  have ok: "seg_addr_ok seg" "cm_wf (commit_mask (main sg))" "cm_wf (decommit_mask (main sg))" "?D \<subseteq> ?C"
    using assms(1,2) by (auto simp: commit_ok_def)
  have mn: "get_main s seg = Inr (main sg)" by (simp add: get_main_def assms(2))
  obtain now where now: "clock_now env s = (now, ?s)" using clock_now_st by blast
  show ?thesis
  proof (cases "?D = {}")
    case True
    then show ?thesis using mn commit_post_refl [OF assms(2) ok(2,3)]
      by (simp add: segment_delayed_decommit_def mask_view)
  next
    case False
    then have e: "segment_delayed_decommit env seg True s = delayed_decommit_loop 513 env seg 0 ?s"
      using mn now assms(3) by (simp add: segment_delayed_decommit_def mask_view)
    have "card ?D < 513" using card_mono [OF _ view_bound [of "decommit_mask (main sg)"]] by simp
    then have "delayed_decommit_loop 513 env seg 0 ?s = Inl Panic \<and> \<not> mprotect_granted env
      \<or> (\<exists>s'. delayed_decommit_loop 513 env seg 0 ?s = Inr s'
          \<and> commit_post seg ?s (?C - ?D) {} (prot_chunks seg ?D False (os_prot s)) s')"
      using delayed_decommit_loop_effect [of ?s seg sg 0 513 env] ok assms(2,3) by simp
    moreover have "commit_post seg s ?C ?D (os_prot s) ?s"
      by (rule commit_postI [OF assms(2), where e = "decommit_expire (main sg)" and n = "sys_calls s + 1"])
        (simp_all add: ok assms(2) fun_upd_idem)
    ultimately show ?thesis using commit_post_trans unfolding e by blast
  qed
qed

text \<open>
  C39. Decommitting what is pending. When the segment allows it, a forced
  \<^verbatim>\<open>segment_delayed_decommit\<close> ends for every mask, whatever its runs: it panics if the kernel
  refuses and otherwise removes exactly the pending chunks from the committed ones, makes
  exactly their bytes inaccessible, leaves nothing pending and keeps the invariant.
\<close>

theorem delayed_decommit_terminates:
  assumes "commit_ok s seg" "segment_at s seg = Some sg" "allow_decommit (main sg)"
  defines "D \<equiv> view (decommit_mask (main sg))"
  shows "segment_delayed_decommit env seg True s = Inl Panic \<and> \<not> mprotect_granted env
    \<or> (\<exists>s'. segment_delayed_decommit env seg True s = Inr s' \<and> commit_ok s' seg
        \<and> commit_post seg s (view (commit_mask (main sg)) - D) {} (prot_chunks seg D False (os_prot s)) s')"
proof -
  have "segment_delayed_decommit env seg True s = Inl Panic \<and> \<not> mprotect_granted env
    \<or> (\<exists>s'. segment_delayed_decommit env seg True s = Inr s'
        \<and> commit_post seg s (view (commit_mask (main sg)) - D) {} (prot_chunks seg D False (os_prot s)) s')"
    unfolding D_def by (rule forced_decommit_effect [OF assms(1-3)])
  moreover have "commit_ok s' seg"
    if "commit_post seg s (view (commit_mask (main sg)) - D) {} (prot_chunks seg D False (os_prot s)) s'" for s'
    using commit_post_ok [OF that] assms(1,2) by (auto simp: commit_ok_def prot_chunks_def chunk_bytes_def D_def)
  ultimately show ?thesis by blast
qed

lemma perhaps_expire_effect:
  assumes "commit_ok s seg" "segment_at s seg = Some sg" "allow_decommit (main sg)"
  defines "C \<equiv> view (commit_mask (main sg))" and "D \<equiv> view (decommit_mask (main sg))"
  shows "perhaps_expire env seg s = Inl Panic \<and> \<not> mprotect_granted env
    \<or> (\<exists>s'. perhaps_expire env seg s = Inr s'
        \<and> (commit_post seg s C D (os_prot s) s' \<or> commit_post seg s (C - D) {} (prot_chunks seg D False (os_prot s)) s'))"
proof -
  let ?s = "s\<lparr>sys_calls := sys_calls s + 1\<rparr>"
  have ok: "cm_wf (commit_mask (main sg))" "cm_wf (decommit_mask (main sg))" using assms(1,2) by (auto simp: commit_ok_def)
  have ok': "commit_ok ?s seg" using assms(1) by (simp add: commit_ok_def)
  obtain now where now: "clock_now env s = (now, ?s)" using clock_now_st by blast
  have mn: "get_main ?s seg = Inr (main sg)" by (simp add: get_main_def assms(2))
  have upd: "commit_post seg s C D (os_prot s) (set_masks seg e (decommit_mask (main sg)) (commit_mask (main sg)) (os_prot s) n s sg)" for e n
    by (rule commit_postI [OF assms(2) refl]) (simp_all add: ok C_def D_def)
  have eq: "\<exists>e. upd_main ?s seg (\<lambda>mn. mn\<lparr>decommit_expire := f mn\<rparr>) =
      Inr (set_masks seg e (decommit_mask (main sg)) (commit_mask (main sg)) (os_prot s) (sys_calls s + 1) s sg)" for f
    by (rule exI [of _ "f (main sg)"]) (simp add: upd_main_eq assms(2) st_canon)
  let ?e = "decommit_expire (main sg)"
  show ?thesis
  proof (cases "?e \<noteq> 0 \<and> sint ?e \<le> sint now \<and> sint (?e + option_decommit_extend_delay) \<le> sint now")
    case True
    then have "perhaps_expire env seg s = segment_delayed_decommit env seg True ?s"
      using now mn by (simp add: perhaps_expire_def)
    moreover have "commit_post seg s C D (os_prot s) ?s"
      by (rule commit_postI [OF assms(2), where e = ?e and n = "sys_calls s + 1"])
        (simp_all add: ok assms(2) fun_upd_idem C_def D_def)
    ultimately show ?thesis
      using forced_decommit_effect [OF ok', of sg env] assms(2,3) commit_post_trans by (auto simp: C_def D_def)
  next
    case False
    then have "\<exists>f. perhaps_expire env seg s = upd_main ?s seg (\<lambda>mn. mn\<lparr>decommit_expire := f mn\<rparr>)"
      using now mn by (auto simp: perhaps_expire_def)
    then show ?thesis using eq upd by fastforce
  qed
qed

lemma perhaps_decommit_effect:
  assumes "commit_ok s seg" "range_ok seg p sz" "segment_at s seg = Some sg"
  defines "C \<equiv> view (commit_mask (main sg))" and "D \<equiv> view (decommit_mask (main sg))" and "K \<equiv> range_chunks True seg p sz"
  shows "segment_perhaps_decommit env seg p sz s = Inl Panic \<and> \<not> mprotect_granted env
    \<or> (\<exists>s'. segment_perhaps_decommit env seg p sz s = Inr s' \<and> commit_ok s' seg
        \<and> (commit_post seg s C D (os_prot s) s' \<or> commit_post seg s C (D \<union> C \<inter> K) (os_prot s) s'
           \<or> commit_post seg s (C - (D \<union> K)) {} (os_prot s') s')
        \<and> (\<forall>x. \<not> in_region p sz x \<and> x \<notin> chunk_bytes seg D \<longrightarrow> os_prot s' x = os_prot s x))"
proof -
  have ok: "seg_addr_ok seg" "cm_wf (commit_mask (main sg))" "cm_wf (decommit_mask (main sg))" "D \<subseteq> C"
    "\<And>x. x \<in> chunk_bytes seg C \<Longrightarrow> os_prot s x = Some True"
    using assms(1,3) by (auto simp: commit_ok_def C_def D_def)
  have mn: "get_main s seg = Inr (main sg)" by (simp add: get_main_def assms(3))
  have refl: "commit_post seg s C D (os_prot s) s" using commit_post_refl [OF assms(3) ok(2,3)] by (simp add: C_def D_def)
  have r: "seg_addr_ok seg" "sz \<noteq> 0" "sz \<le> SEGMENT_SIZE" "seg \<le> p" "unat p < unat seg + 33554432"
    using assms(2) by (auto simp: range_ok_def)
  obtain start full m where m: "segment_commit_mask seg True p sz empty = Inr (start, full, m)" "cm_wf m" "view m = K"
    using segment_commit_mask_spec [OF r empty_wf view_empty, of True] unfolding K_def range_chunks_def by blast
  have delay: "option_decommit_delay \<noteq> 0" by (simp add: option_decommit_delay_def)
  show ?thesis
  proof (cases "allow_decommit (main sg) \<and> \<not> (is_empty m \<or> full = 0)")
    case False
    then have "segment_perhaps_decommit env seg p sz s = Inr s"
      using mn m(1) delay by (auto simp: segment_perhaps_decommit_def)
    then show ?thesis using assms(1) refl by blast
  next
    case True
    let ?dm = "set_mask (decommit_mask (main sg)) (create_intersect (commit_mask (main sg)) m empty)"
    let ?sg = "sg\<lparr>main := (main sg)\<lparr>decommit_mask := ?dm\<rparr>\<rparr>"
    let ?s = "s\<lparr>segment_at := (segment_at s)(seg \<mapsto> ?sg)\<rparr>"
    have dm: "view ?dm = D \<union> C \<inter> K" "cm_wf ?dm"
      using ok(3) m by (simp_all add: mask_view D_def C_def empty_wf)
    have e: "segment_perhaps_decommit env seg p sz s = perhaps_expire env seg ?s"
      using mn m(1) delay True assms(3) by (simp add: segment_perhaps_decommit_def upd_main_eq Let_def)
    have post: "commit_post seg s C (D \<union> C \<inter> K) (os_prot s) ?s"
      by (rule commit_postI [OF assms(3), where e = "decommit_expire (main sg)" and n = "sys_calls s"
            and dm = ?dm and cm = "commit_mask (main sg)"])
        (simp_all add: ok dm C_def [symmetric])
    have ok1: "commit_ok ?s seg" using commit_post_ok [OF post ok(1)] ok(4,5) by blast
    have eq: "C - (D \<union> C \<inter> K) = C - (D \<union> K)" by blast
    have eff: "perhaps_expire env seg ?s = Inl Panic \<and> \<not> mprotect_granted env
      \<or> (\<exists>s'. perhaps_expire env seg ?s = Inr s' \<and> (commit_post seg ?s C (D \<union> C \<inter> K) (os_prot s) s'
          \<or> commit_post seg ?s (C - (D \<union> K)) {} (prot_chunks seg (D \<union> C \<inter> K) False (os_prot s)) s'))"
      using perhaps_expire_effect [OF ok1, of ?sg env] True dm(1) eq by (simp add: C_def [symmetric])
    have inner: "prot_chunks seg (D \<union> C \<inter> K) False (os_prot s) x = os_prot s x"
      if "\<not> in_region p sz x" "x \<notin> chunk_bytes seg D" for x
      using that range_inner_bytes [OF r(4), of x sz] by (auto simp: prot_chunks_def chunk_bytes_def K_def)
    have rest: "\<And>x. x \<in> chunk_bytes seg (C - (D \<union> K)) \<Longrightarrow> prot_chunks seg (D \<union> C \<inter> K) False (os_prot s) x = Some True"
      using ok(5) by (auto simp: prot_chunks_def chunk_bytes_def)
    consider (panic) "perhaps_expire env seg ?s = Inl Panic" "\<not> mprotect_granted env"
      | (mark) s' where "perhaps_expire env seg ?s = Inr s'" "commit_post seg s C (D \<union> C \<inter> K) (os_prot s) s'"
      | (dec) s' where "perhaps_expire env seg ?s = Inr s'"
          "commit_post seg s (C - (D \<union> K)) {} (prot_chunks seg (D \<union> C \<inter> K) False (os_prot s)) s'"
      using eff commit_post_trans [OF post] by blast
    then show ?thesis
    proof cases
      case panic
      then show ?thesis unfolding e by blast
    next
      case mark
      then show ?thesis using commit_post_ok [OF mark(2) ok(1)] commit_post_prot [OF mark(2)] ok(4,5) unfolding e by auto
    next
      case dec
      have p: "os_prot s' = prot_chunks seg (D \<union> C \<inter> K) False (os_prot s)" by (rule commit_post_prot [OF dec(2)])
      have "commit_ok s' seg" using commit_post_ok [OF dec(2) ok(1)] rest by blast
      then show ?thesis using dec inner unfolding e p [symmetric] by auto
    qed
  qed
qed

text \<open>
  C40. Offering freed memory back. \<^verbatim>\<open>segment_perhaps_decommit\<close> keeps the invariant, and either
  only marks the committed chunks inside the freed range as pending, or decommits those
  together with all chunks already pending. The only bytes that can become inaccessible are
  those of the freed range and those that were pending before.
\<close>

theorem perhaps_decommit_only_freed:
  assumes "commit_ok s seg" "range_ok seg p sz" "segment_at s seg = Some sg"
  defines "C \<equiv> view (commit_mask (main sg))" and "D \<equiv> view (decommit_mask (main sg))" and "K \<equiv> range_chunks True seg p sz"
  shows "segment_perhaps_decommit env seg p sz s = Inl Panic \<and> \<not> mprotect_granted env
    \<or> (\<exists>s'. segment_perhaps_decommit env seg p sz s = Inr s' \<and> commit_ok s' seg
        \<and> (commit_post seg s C D (os_prot s) s' \<or> commit_post seg s C (D \<union> C \<inter> K) (os_prot s) s'
           \<or> commit_post seg s (C - (D \<union> K)) {} (os_prot s') s')
        \<and> (\<forall>x. \<not> in_region p sz x \<and> x \<notin> chunk_bytes seg D \<longrightarrow> os_prot s' x = os_prot s x))"
  unfolding C_def D_def K_def by (rule perhaps_decommit_effect [OF assms(1-3)])

text \<open>
  Which chunks a range is about. For a range that starts inside a segment the mask
  computed without \<^verbatim>\<open>conservative\<close> covers every byte of the range that lies in the segment, the
  conservative one holds only chunks that lie entirely inside the range, and in both cases the
  returned address and size are exactly the bytes of the chunks of the mask.
\<close>

lemma commit_mask_covers_range:
  assumes "range_ok seg p sz"
  shows "\<exists>start full m. segment_commit_mask seg conservative p sz empty = Inr (start, full, m)
    \<and> (\<forall>x. in_region start full x \<longleftrightarrow> x \<in> chunk_bytes seg (view m))
    \<and> (\<forall>x. \<not> conservative \<and> in_region p sz x \<and> unat x < unat seg + 33554432 \<longrightarrow> in_region start full x)
    \<and> (\<forall>x. conservative \<and> in_region start full x \<longrightarrow> in_region p sz x)"
proof -
  have r: "seg_addr_ok seg" "sz \<noteq> 0" "sz \<le> SEGMENT_SIZE" "seg \<le> p" "unat p < unat seg + 33554432"
    using assms by (auto simp: range_ok_def)
  define lo where "lo = chunk_lo conservative (unat p - unat seg)"
  define hi where "hi = chunk_hi conservative (unat p - unat seg + unat sz)"
  obtain start full m where m: "segment_commit_mask seg conservative p sz empty = Inr (start, full, m)"
    "view m = {lo..<hi}" "unat start = unat seg + 65536 * lo" "unat full = (hi - lo) * 65536"
    using segment_commit_mask_spec [OF r empty_wf view_empty, of conservative] unfolding lo_def hi_def by blast
  note reg = in_region_chunks [OF m(3,4)]
  have K: "{lo..<hi} = range_chunks conservative seg p sz" by (simp add: range_chunks_def lo_def hi_def)
  have "in_region start full x" if "\<not> conservative" "in_region p sz x" "unat x < unat seg + 33554432" for x
    using range_bytes [OF assms that(2,3)] that(1) reg K by simp
  moreover have "in_region p sz x" if "conservative" "in_region start full x" for x
    using range_inner_bytes [OF r(4), of x sz] that reg K by simp
  ultimately show ?thesis using m(1,2) reg by auto
qed

section \<open>Examples\<close>

text \<open>A segment at 64 MiB whose first two chunks are committed, the second one waiting.\<close>

definition main_example :: SegmentHeaderMain where
  "main_example = \<lparr>memid = 0, mem_is_pinned = False, mem_is_large = False, mem_is_committed = False,
     mem_alignment = 33554432, mem_align_offset = 0, allow_decommit = True, decommit_expire = 0,
     decommit_mask = [2, 0, 0, 0, 0, 0, 0, 0], commit_mask = [3, 0, 0, 0, 0, 0, 0, 0]\<rparr>"

definition segment_example :: SegmentHeader where
  "segment_example = \<lparr>main = main_example, abandoned_next = 0,
     main2 = \<lparr>seg_next = 0, abandoned = 0, abandoned_visits = 0, seg_used = 0, cookie = 0, segment_slices = 512,
       segment_info_slices = 1, seg_kind = Normal, slice_entries = 512\<rparr>, thread_id = 1\<rparr>"

definition commit_example :: st where
  "commit_example = st_empty\<lparr>segment_at := [67108864 \<mapsto> segment_example], os_prot := \<lambda>_. Some True\<rparr>"

lemma commit_example_ok:
  "commit_ok commit_example 67108864" "segment_at commit_example 67108864 = Some segment_example"
  "allow_decommit (main segment_example)" "mprotect_granted env_example"
proof -
  have "view [2, 0, 0, 0, 0, 0, 0, 0] \<subseteq> view [3, 0, 0, 0, 0, 0, 0, 0]"
    by (simp flip: all_set_iff) (simp add: all_set_def all_set_loop.simps)
  then show "commit_ok commit_example 67108864"
    by (simp add: commit_ok_def commit_example_def segment_example_def main_example_def seg_addr_ok_def)
qed (simp_all add: commit_example_def segment_example_def main_example_def mprotect_granted_def env_example_def)

lemma range_example: "range_ok 67108864 67200000 100000"
  by (simp add: range_ok_def seg_addr_ok_def layout_consts)

theorem ensure_committed_makes_writable_witness:
  "\<exists>s'. segment_ensure_committed env_example 67108864 67200000 100000 commit_example = Inr (True, s')
      \<and> commit_ok s' 67108864 \<and> os_prot s' 67200000 = Some True"
  using ensure_committed_makes_writable [OF commit_example_ok(1) range_example commit_example_ok(2), of env_example]
    commit_example_ok(4) by (auto simp: in_region_def)

theorem delayed_decommit_terminates_witness:
  "\<exists>s'. segment_delayed_decommit env_example 67108864 True commit_example = Inr s' \<and> commit_ok s' 67108864"
  using delayed_decommit_terminates [OF commit_example_ok(1-3), of env_example] commit_example_ok(4) by blast

theorem perhaps_decommit_only_freed_witness:
  "\<exists>s'. segment_perhaps_decommit env_example 67108864 67200000 100000 commit_example = Inr s' \<and> commit_ok s' 67108864"
  using perhaps_decommit_only_freed [OF commit_example_ok(1) range_example commit_example_ok(2), of env_example]
    commit_example_ok(4) by blast

end
