(* ===== verification/Segment.thy ===== *)
theory Segment
  imports Dll Flags Bin_Sizes Init_Tables Commit_Segment Linked_List
begin

text \<open>
  Spans of slices inside segments (\<^verbatim>\<open>segment.rs\<close>): the span queues of the thread-local data,
  splitting and allocating a span, freeing it with its free neighbours, and obtaining a fresh
  segment from the operating system. This theory holds the definitions; \<open>Spans\<close> holds the
  invariant and what the operations do to the spans.
\<close>

section \<open>Access to headers and span queues\<close>

definition get_main2 :: "st \<Rightarrow> usize \<Rightarrow> SegmentHeaderMain2 res" where
  "get_main2 s segment = bindR (fetch (segment_at s) segment) (\<lambda>sg. Inr (main2 sg))"

text \<open>\<^verbatim>\<open>span_queue_headers[i]\<close>; an index out of range panics.\<close>

definition get_span_queue :: "st \<Rightarrow> usize \<Rightarrow> usize \<Rightarrow> SpanQueueHeader res" where
  "get_span_queue s tld i = bindR (fetch (tld_at s) tld) (\<lambda>t. index (span_queue_headers (segments t)) (unat i))"

definition upd_span_queue :: "st \<Rightarrow> usize \<Rightarrow> usize \<Rightarrow> (SpanQueueHeader \<Rightarrow> SpanQueueHeader) \<Rightarrow> st res" where
  "upd_span_queue s tld i f =
     bindR (fetch (tld_at s) tld) (\<lambda>t. bindR (index (span_queue_headers (segments t)) (unat i)) (\<lambda>cq.
       Inr (s\<lparr>tld_at := (tld_at s)(tld \<mapsto> t\<lparr>segments := (segments t)
              \<lparr>span_queue_headers := (span_queue_headers (segments t))[unat i := f cq]\<rparr>\<rparr>)\<rparr>)))"


section \<open>Queues of free spans\<close>

definition span_queue_delete :: "usize \<Rightarrow> usize \<Rightarrow> usize \<Rightarrow> st \<Rightarrow> st res" where
  "span_queue_delete tld sbin_idx slice_p s =
     bindR (fetch (page_at s) slice_p) (\<lambda>pg.
     let prev = prev_ptr pg; nxt = next_ptr pg in
     bindR (if prev = 0 then upd_span_queue s tld sbin_idx (\<lambda>cq. cq\<lparr>sq_first := nxt\<rparr>)
            else upd_page s prev (\<lambda>g. g\<lparr>next_ptr := nxt\<rparr>)) (\<lambda>s.
     if nxt = 0 then upd_span_queue s tld sbin_idx (\<lambda>cq. cq\<lparr>sq_last := prev\<rparr>)
     else upd_page s nxt (\<lambda>g. g\<lparr>prev_ptr := prev\<rparr>)))"

definition segment_slice_split :: "usize \<Rightarrow> usize \<Rightarrow> usize \<Rightarrow> usize \<Rightarrow> st \<Rightarrow> st res" where
  "segment_slice_split slice_p current_slice_count target_slice_count tld s =
     (let next_slice = add_offset slice_p target_slice_count;
          rest = current_slice_count - target_slice_count;
          bin_idx = slice_bin rest in
      bindR (get_span_queue s tld bin_idx) (\<lambda>cq.
      let first_in_queue = sq_first cq in
      bindR (upd_span_queue s tld bin_idx (\<lambda>cq.
         let cq = cq\<lparr>sq_first := next_slice\<rparr> in
         if first_in_queue = 0 then cq\<lparr>sq_last := next_slice\<rparr> else cq)) (\<lambda>s.
      bindR (if first_in_queue \<noteq> 0 then upd_page s first_in_queue (\<lambda>g. g\<lparr>prev_ptr := next_slice\<rparr>) else Inr s) (\<lambda>s.
      bindR (upd_page s slice_p (\<lambda>g. g\<lparr>pcount := ucast target_slice_count\<rparr>)) (\<lambda>s.
      bindR (upd_inner s next_slice (\<lambda>n. n\<lparr>xblock_size := 0\<rparr>)) (\<lambda>s.
      bindR (upd_page s next_slice (\<lambda>g. g\<lparr>prev_ptr := 0\<rparr>)) (\<lambda>s.
      bindR (upd_page s next_slice (\<lambda>g. g\<lparr>next_ptr := first_in_queue\<rparr>)) (\<lambda>s.
      bindR (upd_page s next_slice (\<lambda>g. g\<lparr>pcount := ucast rest\<rparr>)) (\<lambda>s.
      bindR (upd_page s next_slice (\<lambda>g. g\<lparr>poffset := 0\<rparr>)) (\<lambda>s.
      if current_slice_count > target_slice_count + 1 then
        let last_slice = add_offset slice_p (current_slice_count - 1) in
        bindR (upd_inner s last_slice (\<lambda>n. n\<lparr>xblock_size := 0\<rparr>)) (\<lambda>s.
        bindR (upd_page s last_slice (\<lambda>g. g\<lparr>pcount := ucast rest\<rparr>)) (\<lambda>s.
        upd_page s last_slice (\<lambda>g. g\<lparr>poffset := ucast (rest - 1) * ucast SIZEOF_PAGE_HEADER\<rparr>)))
      else Inr s))))))))))"


section \<open>Allocating a span\<close>

text \<open>The loop over the slices behind the first one.\<close>

function offset_loop :: "usize \<Rightarrow> nat \<Rightarrow> nat \<Rightarrow> st \<Rightarrow> st res" where
  "offset_loop slice_p i extra s =
     (if i \<le> extra then
        bindR (upd_page s (add_offset slice_p (of_nat i)) (\<lambda>g. g\<lparr>poffset := of_nat i * ucast SIZEOF_PAGE_HEADER\<rparr>))
          (offset_loop slice_p (i + 1) extra)
      else Inr s)"
  by pat_completeness auto
termination by (relation "measure (\<lambda>(p, i, extra, s). extra + 1 - i)") auto

declare offset_loop.simps [simp del]

definition segment_span_allocate :: "Env \<Rightarrow> usize \<Rightarrow> usize \<Rightarrow> usize \<Rightarrow> st \<Rightarrow> (bool \<times> st) res" where
  "segment_span_allocate env segment slice_p slice_count s =
     (let p = segment_page_start_from_slice segment slice_p 0 in
      bindR (segment_ensure_committed env segment p (slice_count * SLICE_SIZE) s) (\<lambda>(success, s).
      if \<not> success then Inr (False, s)
      else
        bindR (upd_page s slice_p (\<lambda>g. g\<lparr>poffset := 0\<rparr>)) (\<lambda>s.
        bindR (upd_page s slice_p (\<lambda>g. g\<lparr>pcount := ucast slice_count\<rparr>)) (\<lambda>s.
        bindR (upd_inner s slice_p (\<lambda>n.
           let bsize = slice_count * SLICE_SIZE in
           n\<lparr>xblock_size := (if bsize \<ge> ucast HUGE_BLOCK_SIZE then HUGE_BLOCK_SIZE else ucast bsize)\<rparr>)) (\<lambda>s.
        bindR (offset_loop slice_p 1 (unat (slice_count - 1)) s) (\<lambda>s.
        bindR (upd_inner s slice_p (\<lambda>n. set_is_committed False (set_is_reset False n))) (\<lambda>s.
        bindR (upd_main2 s segment (\<lambda>m. m\<lparr>seg_used := seg_used m + 1\<rparr>)) (\<lambda>s. Inr (True, s)))))))))"

text \<open>
  The search for a span. The inner loop walks one queue; a queue is a list of distinct headers,
  so \<open>address_count\<close> rounds reach its end.
\<close>

fun find_in_queue :: "nat \<Rightarrow> Env \<Rightarrow> usize \<Rightarrow> usize \<Rightarrow> usize \<Rightarrow> usize \<Rightarrow> st \<Rightarrow> (usize option \<times> st) res" where
  "find_in_queue 0 env tld sbin_idx slice_count slice_ptr s = Inl Diverge"
| "find_in_queue (Suc fuel) env tld sbin_idx slice_count slice_ptr s =
     (if slice_ptr = 0 then Inr (None, s)
      else
        bindR (fetch (page_at s) slice_ptr) (\<lambda>pg.
        let found_slice_count = ucast (pcount pg) in
        if found_slice_count \<ge> slice_count then
          let segment = ptr_segment slice_ptr in
          bindR (span_queue_delete tld sbin_idx slice_ptr s) (\<lambda>s.
          bindR (if found_slice_count > slice_count
                 then segment_slice_split slice_ptr found_slice_count slice_count tld s else Inr s) (\<lambda>s.
          bindR (segment_span_allocate env segment slice_ptr slice_count s) (\<lambda>(suc, s).
          if \<not> suc then todo else Inr (Some slice_ptr, s))))
        else find_in_queue fuel env tld sbin_idx slice_count (next_ptr pg) s))"

function find_in_bins :: "Env \<Rightarrow> usize \<Rightarrow> nat \<Rightarrow> usize \<Rightarrow> st \<Rightarrow> (usize \<times> st) res" where
  "find_in_bins env tld sbin_idx slice_count s =
     (if sbin_idx \<le> unat SEGMENT_BIN_MAX then
        bindR (get_span_queue s tld (of_nat sbin_idx)) (\<lambda>cq.
        bindR (find_in_queue address_count env tld (of_nat sbin_idx) slice_count (sq_first cq) s) (\<lambda>(found, s).
        case found of Some p \<Rightarrow> Inr (p, s) | None \<Rightarrow> find_in_bins env tld (sbin_idx + 1) slice_count s))
      else Inr (0, s))"
  by pat_completeness auto
termination by (relation "measure (\<lambda>(env, tld, i, n, s). unat SEGMENT_BIN_MAX + 1 - i)") auto

declare find_in_bins.simps [simp del]

definition segments_page_find_and_allocate :: "Env \<Rightarrow> usize \<Rightarrow> usize \<Rightarrow> st \<Rightarrow> (usize \<times> st) res" where
  "segments_page_find_and_allocate env slice_count0 tld s =
     (let sbin_idx = slice_bin slice_count0;
          slice_count = (if slice_count0 = 0 then 1 else slice_count0) in
      find_in_bins env tld (unat sbin_idx) slice_count s)"


section \<open>Freeing a span\<close>

definition segment_span_free :: "Env \<Rightarrow> usize \<Rightarrow> usize \<Rightarrow> usize \<Rightarrow> bool \<Rightarrow> usize \<Rightarrow> st \<Rightarrow> st res" where
  "segment_span_free env segment slice_index slice_count allow_dec tld s =
     (let bin_idx = slice_bin slice_count;
          slice_p = get_page_header_ptr segment slice_index in
      bindR (upd_page s slice_p (\<lambda>g. g\<lparr>pcount := ucast slice_count\<rparr>)) (\<lambda>s.
      bindR (upd_page s slice_p (\<lambda>g. g\<lparr>poffset := 0\<rparr>)) (\<lambda>s.
      bindR (if slice_count > 1 then
               upd_page s (get_page_header_ptr segment (slice_index + slice_count - 1))
                 (\<lambda>g. g\<lparr>poffset := (ucast slice_count - 1) * ucast SIZEOF_PAGE_HEADER\<rparr>)
             else Inr s) (\<lambda>s.
      bindR (if allow_dec then segment_perhaps_decommit env segment (slice_start slice_p) (slice_count * SLICE_SIZE) s
             else Inr s) (\<lambda>s.
      bindR (get_span_queue s tld bin_idx) (\<lambda>cq.
      let first_in_queue = sq_first cq in
      bindR (upd_span_queue s tld bin_idx (\<lambda>cq.
         let cq = cq\<lparr>sq_first := slice_p\<rparr> in
         if first_in_queue = 0 then cq\<lparr>sq_last := slice_p\<rparr> else cq)) (\<lambda>s.
      bindR (if first_in_queue \<noteq> 0 then upd_page s first_in_queue (\<lambda>g. g\<lparr>prev_ptr := slice_p\<rparr>) else Inr s) (\<lambda>s.
      bindR (upd_page s slice_p (\<lambda>g. g\<lparr>prev_ptr := 0\<rparr>)) (\<lambda>s.
      bindR (upd_page s slice_p (\<lambda>g. g\<lparr>next_ptr := first_in_queue\<rparr>)) (\<lambda>s.
      upd_inner s slice_p (\<lambda>n. n\<lparr>xblock_size := 0\<rparr>)))))))))))"

text \<open>A free neighbour leaves its queue (the same lines in both coalescing functions); the result is its count.\<close>

definition coalesce_unlink :: "usize \<Rightarrow> usize \<Rightarrow> st \<Rightarrow> (u32 \<times> st) res" where
  "coalesce_unlink page tld s =
     bindR (fetch (page_at s) page) (\<lambda>pg.
     let prev = prev_ptr pg; nxt = next_ptr pg; n_count = pcount pg; sbin_idx = slice_bin (ucast n_count) in
     bindR (if prev \<noteq> 0 then upd_page s prev (\<lambda>g. g\<lparr>next_ptr := nxt\<rparr>) else Inr s) (\<lambda>s.
     bindR (if nxt \<noteq> 0 then upd_page s nxt (\<lambda>g. g\<lparr>prev_ptr := prev\<rparr>) else Inr s) (\<lambda>s.
     bindR (upd_span_queue s tld sbin_idx (\<lambda>cq.
        let cq = (if prev = 0 then cq\<lparr>sq_first := nxt\<rparr> else cq) in
        if nxt = 0 then cq\<lparr>sq_last := prev\<rparr> else cq)) (\<lambda>s.
     Inr (n_count, s)))))"

definition segment_span_free_coalesce_before :: "usize \<Rightarrow> usize \<Rightarrow> usize \<Rightarrow> u32 \<Rightarrow> st \<Rightarrow> (usize \<times> u32 \<times> st) res" where
  "segment_span_free_coalesce_before segment slice_p tld slice_count s =
     (if is_gt_0th_slice slice_p segment then
        let last_p = sub_offset slice_p 1 in
        bindR (fetch (page_at s) last_p) (\<lambda>last_pg.
        let page = calculate_page_ptr_subtract_offset last_p (poffset last_pg) in
        bindR (fetch (page_at s) page) (\<lambda>pg.
        if xblock_size (inner pg) = 0 then
          bindR (coalesce_unlink page tld s) (\<lambda>(n_count, s). Inr (page, slice_count + n_count, s))
        else Inr (slice_p, slice_count, s)))
      else Inr (slice_p, slice_count, s))"

definition segment_span_free_coalesce :: "Env \<Rightarrow> usize \<Rightarrow> usize \<Rightarrow> st \<Rightarrow> st res" where
  "segment_span_free_coalesce env slice_p tld s =
     (let segment = ptr_segment slice_p in
      bindR (fetch (segment_at s) segment) (\<lambda>sg.
      if thread_id sg = 0 then todo
      else if seg_kind (main2 sg) = Huge then todo
      else
        bindR (fetch (page_at s) slice_p) (\<lambda>pg.
        let slice_count = pcount pg;
            (page, less_than_end) = add_offset_and_check slice_p (ucast slice_count) segment in
        bindR (if less_than_end then bindR (fetch (page_at s) page) (\<lambda>g. Inr (xblock_size (inner g) = 0)) else Inr False)
          (\<lambda>is_free.
        bindR (if is_free then bindR (coalesce_unlink page tld s) (\<lambda>(n_count, s). Inr (slice_count + n_count, s))
               else Inr (slice_count, s)) (\<lambda>(slice_count, s).
        bindR (segment_span_free_coalesce_before segment slice_p tld slice_count s) (\<lambda>(slice_p, slice_count, s).
        segment_span_free env segment (get_index slice_p) (ucast slice_count) True tld s))))))"

text \<open>
  \<^verbatim>\<open>check_is_good\<close> waits while another thread is in the middle of a delayed free. Alone, a
  thread that finds the state \<^verbatim>\<open>Freeing\<close> would wait forever.
\<close>

definition check_is_good :: "usize \<Rightarrow> unit res" where
  "check_is_good tfree = (if masked_ptr_delay_get_delay tfree = 1 then Inl Diverge else Inr ())"

definition segment_page_clear :: "Env \<Rightarrow> usize \<Rightarrow> usize \<Rightarrow> st \<Rightarrow> st res" where
  "segment_page_clear env page tld s =
     (let segment = ptr_segment page in
      bindR (get_main s segment) (\<lambda>mn.
      bindR (fetch (page_at s) page) (\<lambda>pg.
      if \<not> mem_is_pinned mn \<and> \<not> get_is_reset (inner pg) \<and> option_page_reset then todo
      else
        bindR (upd_inner s page (\<lambda>n. (set_is_zero_init False n)
           \<lparr>capacity := 0, reserved := 0, free := make_empty (free n), flags1 := 0, flags2 := 0, used := 0,
            xblock_size := 0, local_free := make_empty (local_free n)\<rparr>)) (\<lambda>s.
        bindR (check_is_good (xthread_free pg)) (\<lambda>_.
        bindR (upd_page s page (\<lambda>g. g\<lparr>xthread_free := 0\<rparr>)) (\<lambda>s.
        bindR (segment_span_free_coalesce env page tld s) (\<lambda>s.
        upd_main2 s segment (\<lambda>m. m\<lparr>seg_used := seg_used m - 1\<rparr>))))))))"

definition segment_free :: "usize \<Rightarrow> bool \<Rightarrow> usize \<Rightarrow> st \<Rightarrow> st res" where
  "segment_free segment force tld s = todo"

definition segment_os_free :: "usize \<Rightarrow> usize \<Rightarrow> st \<Rightarrow> st res" where
  "segment_os_free segment tld s = todo"

definition segment_page_free :: "Env \<Rightarrow> usize \<Rightarrow> bool \<Rightarrow> usize \<Rightarrow> st \<Rightarrow> st res" where
  "segment_page_free env page force tld s =
     (let segment = ptr_segment page in
      bindR (segment_page_clear env page tld s) (\<lambda>s.
      bindR (get_main2 s segment) (\<lambda>m.
      if seg_used m = 0 then segment_free segment force tld s
      else if seg_used m = abandoned m then todo
      else Inr s)))"


section \<open>A fresh segment\<close>

definition segment_calculate_slices :: "usize \<Rightarrow> usize \<times> usize \<times> usize" where
  "segment_calculate_slices required =
     (let page_size = get_page_size;
          i_size = align_up SIZEOF_SEGMENT_HEADER page_size;
          guardsize = 0;
          pre_size = i_size;
          j_size = align_up (i_size + guardsize) SLICE_SIZE;
          info_slices = j_size div SLICE_SIZE;
          segment_size = (if required = 0 then SEGMENT_SIZE else align_up (required + j_size + guardsize) SLICE_SIZE);
          num_slices = segment_size div SLICE_SIZE in
      (num_slices, pre_size, info_slices))"

text \<open>
  What \<^verbatim>\<open>segment_os_alloc\<close> returns and writes: the segment, the two masks, the memory id, whether
  the memory is large and pinned, and the alignment offset. The slice counts and sizes it passes
  back unchanged are left out, as are \<^verbatim>\<open>is_zero\<close> and \<^verbatim>\<open>pcommit\<close>, which its caller does not use.
\<close>

record os_segment =
  os_ptr :: usize
  os_commit_mask :: CommitMask
  os_decommit_mask :: CommitMask
  os_mem_id :: usize
  os_mem_large :: bool
  os_is_pinned :: bool
  os_align_offset :: usize

definition segment_os_alloc :: "Env \<Rightarrow> usize \<Rightarrow> bool \<Rightarrow> usize \<Rightarrow> usize \<Rightarrow> usize \<Rightarrow> CommitMask \<Rightarrow> CommitMask \<Rightarrow> bool \<Rightarrow> st
    \<Rightarrow> (os_segment \<times> st) res" where
  "segment_os_alloc env page_alignment eager_delay req_arena_id psegment_slices pinfo_slices pcommit_mask pdecommit_mask request_commit s =
     (let align_offset = 0; alignment = SEGMENT_ALIGN in
      if page_alignment > 0 then todo
      else
        let segment_size = psegment_slices * SLICE_SIZE in
        bindR (arena_alloc_aligned env segment_size alignment align_offset request_commit (\<not> eager_delay) req_arena_id s)
          (\<lambda>(segment, pcommit, mem_large, is_pinned, is_zero, mem_id, s).
        let res = \<lparr>os_ptr = segment, os_commit_mask = pcommit_mask, os_decommit_mask = pdecommit_mask, os_mem_id = mem_id,
               os_mem_large = mem_large, os_is_pinned = is_pinned, os_align_offset = align_offset\<rparr> in
        if segment = 0 then Inr (res, s)
        else
          let pcommit_mask = (if pcommit then create_full pcommit_mask else create_empty pcommit_mask);
              commit_needed = pinfo_slices in
          bindR (create empty 0 commit_needed) (\<lambda>commit_needed_mask.
          if \<not> all_set pcommit_mask commit_needed_mask then
            bindR (os_commit env segment (commit_needed * COMMIT_SIZE) s) (\<lambda>(success, is_zero, s).
            if \<not> success then Inr (\<lparr>os_ptr = 0, os_commit_mask = pcommit_mask, os_decommit_mask = pdecommit_mask, os_mem_id = 0,
                 os_mem_large = False, os_is_pinned = False, os_align_offset = 0\<rparr>, s)
            else Inr (res\<lparr>os_commit_mask := set_mask pcommit_mask commit_needed_mask\<rparr>, s))
          else Inr (res\<lparr>os_commit_mask := pcommit_mask\<rparr>, s))))"

text \<open>The loop that writes the page headers, one per slice and one behind the last.\<close>

function header_loop :: "nat \<Rightarrow> usize \<Rightarrow> st \<Rightarrow> st" where
  "header_loop i cur_page_ptr s =
     (if i \<le> unat SLICES_PER_SEGMENT
      then header_loop (i + 1) (cur_page_ptr + SIZEOF_PAGE_HEADER) (s\<lparr>page_at := (page_at s)(cur_page_ptr \<mapsto> zeroed_page)\<rparr>)
      else s)"
  by pat_completeness auto
termination by (relation "measure (\<lambda>(i, p, s). unat SLICES_PER_SEGMENT + 1 - i)") auto

declare header_loop.simps [simp del]

definition segment_alloc :: "Env \<Rightarrow> usize \<Rightarrow> usize \<Rightarrow> usize \<Rightarrow> usize \<Rightarrow> st \<Rightarrow> (usize \<times> st) res" where
  "segment_alloc env required page_alignment req_arena_id tld s =
     (let (sl, pre_size, info_slices) = segment_calculate_slices required in
      bindR (fetch (tld_at s) tld) (\<lambda>t.
      let eager_delay = (thread_count s > 1 \<and> segments_count (segments t) < option_eager_commit_delay);
          eager = (\<not> eager_delay \<and> option_eager_commit);
          commit = (eager \<or> required > 0) in
      bindR (segment_os_alloc env page_alignment eager_delay req_arena_id sl info_slices empty empty commit s) (\<lambda>(r, s).
      let segment = os_ptr r in
      if segment = 0 then Inr (0, s)
      else
        let allow_dec = (option_allow_decommit \<and> \<not> os_is_pinned r \<and> \<not> os_mem_large r);
            hdr = \<lparr>main = \<lparr>memid = os_mem_id r, mem_is_pinned = os_is_pinned r, mem_is_large = os_mem_large r,
                     mem_is_committed = is_full (os_commit_mask r), mem_alignment = page_alignment,
                     mem_align_offset = os_align_offset r, allow_decommit = allow_dec, decommit_expire = 0,
                     decommit_mask = (if allow_dec then os_decommit_mask r else empty), commit_mask = os_commit_mask r\<rparr>,
                   abandoned_next = 0,
                   main2 = \<lparr>seg_next = 0, abandoned = 0, abandoned_visits = 0, seg_used = 0, cookie = 0, segment_slices = 0,
                     segment_info_slices = 0, seg_kind = (if required = 0 then Normal else Huge), slice_entries = 0\<rparr>,
                   thread_id = env_thread_id env\<rparr>;
            s = s\<lparr>segment_at := (segment_at s)(segment \<mapsto> hdr)\<rparr>;
            s = header_loop 0 (segment + SIZEOF_SEGMENT_HEADER) s;
            first_slice = segment + SIZEOF_SEGMENT_HEADER in
        bindR (segment_span_allocate env segment first_slice 1 s) (\<lambda>(success, s).
        if \<not> success then todo
        else
          bindR (upd_main2 s segment (\<lambda>m. m\<lparr>seg_used := seg_used m - 1\<rparr>)) (\<lambda>s.
          if required = 0 then
            bindR (segment_span_free env segment 1 (SLICES_PER_SEGMENT - 1) False tld s) (\<lambda>s. Inr (segment, s))
          else todo)))))"

definition segment_reclaim_or_alloc :: "Env \<Rightarrow> usize \<Rightarrow> usize \<Rightarrow> usize \<Rightarrow> usize \<Rightarrow> st \<Rightarrow> (usize \<times> st) res" where
  "segment_reclaim_or_alloc env heap needed_slices bsize tld s =
     bindR (fetch (heap_at s) heap) (\<lambda>h. segment_alloc env 0 0 (arena_id h) tld s)"

text \<open>Each recursive call follows a fresh segment, which has room for the request.\<close>

fun segments_page_alloc_rec :: "nat \<Rightarrow> Env \<Rightarrow> usize \<Rightarrow> usize \<Rightarrow> usize \<Rightarrow> usize \<Rightarrow> st \<Rightarrow> (usize \<times> st) res" where
  "segments_page_alloc_rec 0 env heap required bsize tld s = Inl Diverge"
| "segments_page_alloc_rec (Suc fuel) env heap required bsize tld s =
     (let alignment = (if required > MEDIUM_PAGE_SIZE then MEDIUM_PAGE_SIZE else SLICE_SIZE);
          page_size = align_up required alignment;
          slices_needed = page_size div SLICE_SIZE in
      bindR (segments_page_find_and_allocate env slices_needed tld s) (\<lambda>(page_ptr, s).
      if page_ptr = 0 then
        bindR (segment_reclaim_or_alloc env heap slices_needed bsize tld s) (\<lambda>(roa, s).
        if roa = 0 then Inr (0, s)
        else segments_page_alloc_rec fuel env heap required bsize tld s)
      else Inr (page_ptr, s)))"

definition segments_page_alloc :: "Env \<Rightarrow> usize \<Rightarrow> usize \<Rightarrow> usize \<Rightarrow> usize \<Rightarrow> st \<Rightarrow> (usize \<times> st) res" where
  "segments_page_alloc env heap required bsize tld s = segments_page_alloc_rec 2 env heap required bsize tld s"

definition segment_page_alloc :: "Env \<Rightarrow> usize \<Rightarrow> usize \<Rightarrow> usize \<Rightarrow> usize \<Rightarrow> st \<Rightarrow> (usize \<times> st) res" where
  "segment_page_alloc env heap bsize page_alignment tld s =
     (if page_alignment > ALIGNMENT_MAX then todo
      else if bsize \<le> SMALL_OBJ_SIZE_MAX then segments_page_alloc env heap bsize bsize tld s
      else if bsize \<le> MEDIUM_OBJ_SIZE_MAX then segments_page_alloc env heap MEDIUM_PAGE_SIZE bsize tld s
      else if bsize \<le> LARGE_OBJ_SIZE_MAX then segments_page_alloc env heap bsize bsize tld s
      else todo)"

end
