(* ===== verification/Tiling.thy ===== *)
theory Tiling
  imports Main
begin

text \<open>
  Segments cut into spans. A map takes a segment and the index of a slice to the length and the
  state of the span that starts there; the spans of a segment are disjoint and cover its 512 slices.
  \<open>Spans\<close> uses it for the segments of the code, \<open>Page_Org\<close> for those of the abstract state machine.
\<close>

definition tiled :: "('g \<times> nat \<rightharpoonup> nat \<times> 'u) \<Rightarrow> 'g \<Rightarrow> bool" where
  "tiled M g \<longleftrightarrow> (\<forall>i c u. M (g, i) = Some (c, u) \<longrightarrow> 0 < c \<and> i + c \<le> 512)
     \<and> (\<forall>k<512. \<exists>i c u. M (g, i) = Some (c, u) \<and> i \<le> k \<and> k < i + c)
     \<and> (\<forall>i j c d u v. M (g, i) = Some (c, u) \<and> M (g, j) = Some (d, v) \<and> i < j \<longrightarrow> i + c \<le> j)"

lemma tiled_inside:
  assumes "tiled M g" "M (g, i) = Some (c, u)" "i < k" "k < i + c"
  shows "M (g, k) = None"
proof (cases "M (g, k)")
  case (Some a)
  then obtain d v where "M (g, k) = Some (d, v)" by (cases a) auto
  then have "i + c \<le> k" using assms unfolding tiled_def by blast
  then show ?thesis using assms(4) by simp
qed simp

text \<open>One span changes its state.\<close>

lemma tiled_state: "tiled M g \<Longrightarrow> M (g, i) = Some (c, u) \<Longrightarrow> tiled (M((g, i) \<mapsto> (c, v))) g"
  unfolding tiled_def by (auto split: if_splits) (metis option.inject prod.inject)+

lemma tiled_other: "g' \<noteq> g \<Longrightarrow> tiled (M((g, i) := x)) g' = tiled M g'"
  by (simp add: tiled_def)

text \<open>Splitting and merging keep the tiling.\<close>

lemma tiled_unique:
  assumes "tiled M g" "M (g, i) = Some (c, u)" "M (g, j) = Some (d, v)" "i \<le> k" "k < i + c" "j \<le> k" "k < j + d"
  shows "i = j"
proof (rule ccontr)
  assume "i \<noteq> j"
  then have "i + c \<le> j \<or> j + d \<le> i" using assms(1-3) unfolding tiled_def by (meson linorder_neqE_nat)
  then show False using assms(4-7) by auto
qed

lemma tiled_split:
  assumes t: "tiled M g" and m: "M (g, i) = Some (c, u)" and n: "0 < n" "n < c"
  shows "tiled (M((g, i) \<mapsto> (n, v), (g, i + n) \<mapsto> (c - n, w))) g"
proof -
  let ?M = "M((g, i) \<mapsto> (n, v), (g, i + n) \<mapsto> (c - n, w))"
  have r: "0 < c" "i + c \<le> 512" using t m unfolding tiled_def by blast+
  have none: "M (g, i + n) = None"
  proof (cases "M (g, i + n)")
    case (Some a)
    obtain d v where "a = (d, v)" by (cases a)
    moreover from this have "0 < d" using t Some unfolding tiled_def by blast
    ultimately show ?thesis using tiled_unique [OF t m, of "i + n" d v "i + n"] Some n by simp
  qed
  have "\<exists>j d x. ?M (g, j) = Some (d, x) \<and> j \<le> k \<and> k < j + d" if k512: "k < 512" for k
  proof -
    obtain j d x where j: "M (g, j) = Some (d, x)" "j \<le> k" "k < j + d" using t k512 unfolding tiled_def by blast
    show ?thesis
    proof (cases "j = i")
      case True
      then have "d = c" using j m by simp
      have M: "?M (g, i) = Some (n, v)" "?M (g, i + n) = Some (c - n, w)" using n by auto
      have "i \<le> k \<and> k < i + n \<or> i + n \<le> k \<and> k < i + n + (c - n)" using True j \<open>d = c\<close> n by auto
      then show ?thesis using M by blast
    next
      case False
      then have "?M (g, j) = Some (d, x)" using j none by auto
      then show ?thesis using j by blast
    qed
  qed
  moreover have "0 < d \<and> j + d \<le> 512" if "?M (g, j) = Some (d, x)" for j d x
    using that n r t unfolding tiled_def by (auto split: if_splits)
  moreover have "j + d \<le> k" if jk: "?M (g, j) = Some (d, x)" "?M (g, k) = Some (e, y)" "j < k" for j k d e x y
  proof -
    have ord: "a + l \<le> b" if "M (g, a) = Some (l, p)" "M (g, b) = Some (l', q)" "a < b" for a b l l' p q
      using t that unfolding tiled_def by blast
    show ?thesis
    proof (cases "j = i \<or> j = i + n")
      case True
      show ?thesis
      proof (cases "k = i + n \<or> k = i")
        case False
        then have "M (g, k) = Some (e, y)" "i < k" using jk True by auto
        then have "i + c \<le> k" using ord m by blast
        then show ?thesis using True jk n by (auto split: if_splits)
      qed (use True jk n in \<open>auto split: if_splits\<close>)
    next
      case False
      then have j: "M (g, j) = Some (d, x)" using jk by auto
      show ?thesis
      proof (cases "k = i + n \<or> k = i")
        case True
        then have "j < i \<or> i < j \<and> j < i + n" using False jk(3) by auto
        then show ?thesis
        proof
          assume "i < j \<and> j < i + n"
          then show ?thesis using ord [OF m j] n by simp
        qed (use ord [OF j m] True in auto)
      next
        case False
        then show ?thesis using jk ord [OF j, of k e y] by auto
      qed
    qed
  qed
  ultimately show ?thesis unfolding tiled_def by blast
qed

lemma tiled_merge:
  assumes t: "tiled M g" and m: "M (g, i) = Some (c, u)" "M (g, i + c) = Some (d, v)"
  shows "tiled (M((g, i + c) := None, (g, i) \<mapsto> (c + d, w))) g"
proof -
  let ?M = "M((g, i + c) := None, (g, i) \<mapsto> (c + d, w))"
  have r: "0 < c" "0 < d" "i + c + d \<le> 512" using t m unfolding tiled_def by blast+
  have "\<exists>j l x. ?M (g, j) = Some (l, x) \<and> j \<le> k \<and> k < j + l" if k512: "k < 512" for k
  proof -
    obtain j l x where j: "M (g, j) = Some (l, x)" "j \<le> k" "k < j + l" using t k512 unfolding tiled_def by blast
    show ?thesis
    proof (cases "j = i \<or> j = i + c")
      case True
      have M: "?M (g, i) = Some (c + d, w)" by simp
      have "i \<le> k \<and> k < i + (c + d)" using True j m by auto
      then show ?thesis using M by blast
    next
      case False
      then have "?M (g, j) = Some (l, x)" using j by auto
      then show ?thesis using j by blast
    qed
  qed
  moreover have "0 < l \<and> j + l \<le> 512" if "?M (g, j) = Some (l, x)" for j l x
    using that r t unfolding tiled_def by (auto split: if_splits)
  moreover have "j + l \<le> k" if jk: "?M (g, j) = Some (l, x)" "?M (g, k) = Some (e, y)" "j < k" for j k l e x y
  proof -
    have ord: "a + l \<le> b" if "M (g, a) = Some (l, p)" "M (g, b) = Some (l', q)" "a < b" for a b l l' p q
      using t that unfolding tiled_def by blast
    show ?thesis
    proof (cases "j = i")
      case True
      then have k: "M (g, k) = Some (e, y)" "k \<noteq> i + c" "i < k" using jk by (auto split: if_splits)
      then have "i + c \<le> k" using ord [OF m(1)] by blast
      then have "i + c + d \<le> k" using ord [OF m(2) k(1)] k(2) by simp
      then show ?thesis using True jk by simp
    next
      case False
      then have j: "M (g, j) = Some (l, x)" using jk by (auto split: if_splits)
      show ?thesis using ord [OF j] jk m(1) by (cases "k = i") (auto split: if_splits)
    qed
  qed
  ultimately show ?thesis unfolding tiled_def by blast
qed

lemma tiled_next:
  assumes "tiled M g" "M (g, i) = Some (c, u)" "i + c < 512"
  obtains d v where "M (g, i + c) = Some (d, v)"
proof -
  obtain j e v where j: "M (g, j) = Some (e, v)" "j \<le> i + c" "i + c < j + e" using assms(1,3) unfolding tiled_def by blast
  have "0 < c" using assms(1,2) unfolding tiled_def by blast
  have "\<not> j < i + c"
  proof
    assume "j < i + c"
    then have "i = j" using tiled_unique [OF assms(1,2) j(1), of "i + c - 1"] j(3) \<open>0 < c\<close> by simp
    then show False using j assms(2) by simp
  qed
  then show ?thesis using that j by simp
qed

lemma tiled_prev:
  assumes "tiled M g" "M (g, i) = Some (c, u)" "0 < i"
  obtains e v where "0 < e" "e \<le> i" "M (g, i - e) = Some (e, v)"
proof -
  have "0 < c" "i + c \<le> 512" using assms(1,2) unfolding tiled_def by blast+
  then have "i - 1 < 512" by simp
  then obtain j e v where j: "M (g, j) = Some (e, v)" "j \<le> i - 1" "i - 1 < j + e" using assms(1) unfolding tiled_def by blast
  have "j < i" using j(2) assms(3) by simp
  then have "j + e \<le> i" using assms(1,2) j(1) unfolding tiled_def by blast
  then have "j + e = i" using j(3) by simp
  then show ?thesis using that [of e v] j \<open>j < i\<close> by auto
qed

end
