(* ===== verification/Spans.thy ===== *)
theory Spans
  imports Segment Tiling
begin

text \<open>
  What the operations of \<^verbatim>\<open>segment.rs\<close> do to the spans of the segments. The abstract state is a
  map from segment and slice index to the length and the state of the span that starts there
  (the \<^verbatim>\<open>pages\<close> of \<^verbatim>\<open>page_organization.rs\<close> restricted to first slices); \<open>spans_inv\<close> relates it
  to the page headers and the span queues. The spans of a segment tile its 512 slices, the free
  ones are exactly those in the queue of their bin, and each operation is a change of the map.
\<close>

section \<open>Headers of a segment\<close>

definition hdr :: "usize \<Rightarrow> nat \<Rightarrow> usize" where
  "hdr g k = get_page_header_ptr g (of_nat k)"

lemma seg_addr_ptr: "seg_addr_ok g \<Longrightarrow> is_segment_ptr g (unat g div 33554432)"
  by (auto simp: seg_addr_ok_def is_segment_ptr_def segment_start_def layout_consts)

lemma small_word [simp]: "n \<le> 512 \<Longrightarrow> unat (of_nat n :: usize) = n" "n \<le> 512 \<Longrightarrow> unat (of_nat n :: u32) = n"
  by (simp_all add: unat_of_nat_small)

lemma small_cast: "n \<le> 512 \<Longrightarrow> ucast (of_nat n :: u32) = (of_nat n :: usize)"
  "n \<le> 512 \<Longrightarrow> ucast (of_nat n :: usize) = (of_nat n :: u32)"
  by (simp_all add: word_unat_eq_iff unat_ucast_small)

lemma hdr_page_ptr:
  assumes "seg_addr_ok g" "k \<le> 512"
  shows "is_page_ptr (hdr g k) \<lparr>segment_id = unat g div 33554432, idx = k\<rparr>"
  using get_page_header_ptr_ok [OF seg_addr_ptr [OF assms(1)], of "of_nat k"] assms(2) by (simp add: hdr_def)

lemma hdr_unat: "seg_addr_ok g \<Longrightarrow> k \<le> 512 \<Longrightarrow> unat (hdr g k) = unat g + 264 + k * 80"
  using unat_header [OF seg_addr_ptr, of g "of_nat k"]
  by (auto simp: hdr_def get_page_header_ptr_def segment_start_def layout_consts seg_addr_ok_def)

lemma hdr_nonnull: "seg_addr_ok g \<Longrightarrow> k \<le> 512 \<Longrightarrow> hdr g k \<noteq> 0"
  using hdr_unat [of g k] by auto

lemma hdr_inject:
  assumes "seg_addr_ok g" "seg_addr_ok g'" "k \<le> 512" "k' \<le> 512"
  shows "hdr g k = hdr g' k' \<longleftrightarrow> g = g' \<and> k = k'"
proof
  assume e: "hdr g k = hdr g' k'"
  obtain a b where ab: "unat g = 33554432 * a" "unat g' = 33554432 * b"
    using assms(1,2) unfolding seg_addr_ok_def by blast
  have eq: "33554432 * a + k * 80 = 33554432 * b + k' * 80"
    using e hdr_unat [OF assms(1,3)] hdr_unat [OF assms(2,4)] ab by simp
  have "(33554432 * a + k * 80) div 33554432 = a" "(33554432 * b + k' * 80) div 33554432 = b"
    using assms(3,4) by (simp_all add: div_eqI)
  then have "a = b \<and> k = k'" using eq by simp
  then show "g = g' \<and> k = k'" using ab by (simp add: word_unat_eq_iff)
qed simp

lemma hdr_offsets:
  "add_offset (hdr g i) (of_nat n) = hdr g (i + n)"
  "0 < i \<Longrightarrow> sub_offset (hdr g i) 1 = hdr g (i - 1)"
  by (cases i; simp add: hdr_def get_page_header_ptr_def add_offset_def sub_offset_def algebra_simps)+

lemma hdr_subtract:
  assumes "n \<le> k" "k \<le> 512"
  shows "calculate_page_ptr_subtract_offset (hdr g k) (of_nat n * 80) = hdr g (k - n)"
proof -
  have "unat (of_nat n * 80 :: u32) = n * 80" using assms by (simp add: unat_mult_small)
  then have "ucast (of_nat n * 80 :: u32) = (of_nat n * 80 :: usize)"
    using assms by (simp add: word_unat_eq_iff unat_ucast_small unat_mult_small)
  moreover have "(of_nat k :: usize) = of_nat (k - n) + of_nat n" using assms by (simp flip: of_nat_add)
  ultimately show ?thesis
    by (simp add: calculate_page_ptr_subtract_offset_def hdr_def get_page_header_ptr_def layout_consts algebra_simps)
qed

lemma hdr_back:
  assumes "seg_addr_ok g" "k \<le> 512"
  shows "ptr_segment (hdr g k) = g" "get_index (hdr g k) = of_nat k"
    "unat (slice_start (hdr g k)) = unat g + 65536 * k"
proof -
  note p = hdr_page_ptr [OF assms]
  have g: "unat g = unat g div 33554432 * 33554432" using assms(1) by (auto simp: seg_addr_ok_def)
  show "ptr_segment (hdr g k) = g"
    using ptr_segment_ok [OF p] g by (simp add: is_segment_ptr_def segment_start_def layout_consts word_unat_eq_iff)
  show "get_index (hdr g k) = of_nat k" using get_index_ok [OF p] assms(2) by (simp add: word_unat_eq_iff)
  show "unat (slice_start (hdr g k)) = unat g + 65536 * k"
    using slice_start_ok [OF p] g by (simp add: page_start_def segment_start_def layout_consts)
qed

lemma hdr_start:
  assumes "seg_addr_ok g" "k \<le> 512"
  shows "unat (segment_page_start_from_slice g (hdr g k) 0) = unat g + 65536 * k"
proof -
  have "unat (calculate_page_start (hdr g k) 0) = unat g + 65536 * k"
    using calculate_page_start_ok [OF hdr_page_ptr [OF assms], of 0] assms(1)
    by (auto simp: page_start_def segment_start_def start_offset_def layout_consts seg_addr_ok_def)
  then show ?thesis by (simp add: calculate_page_start_def hdr_back [OF assms])
qed

lemma hdr_checks:
  assumes "seg_addr_ok g" "i \<le> 512" "n \<le> 512"
  shows "is_gt_0th_slice (hdr g i) g \<longleftrightarrow> 0 < i"
    "i + n \<le> 512 \<Longrightarrow> add_offset_and_check (hdr g i) (of_nat n) g = (hdr g (i + n), i + n < 512)"
proof -
  have h0: "get_page_header_ptr g 0 = hdr g 0" by (simp add: hdr_def)
  show "is_gt_0th_slice (hdr g i) g \<longleftrightarrow> 0 < i"
    using hdr_unat [OF assms(1,2)] hdr_unat [OF assms(1), of 0]
    by (auto simp: is_gt_0th_slice_def h0 word_less_nat_alt)
  assume le: "i + n \<le> 512"
  have e: "get_page_after_end g = hdr g 512" by (simp add: get_page_after_end_def hdr_def get_page_header_ptr_def layout_consts)
  have "hdr g i + of_nat n * SIZEOF_PAGE_HEADER = hdr g (i + n)"
    using hdr_offsets(1) [of g i n] by (simp add: add_offset_def)
  then show "add_offset_and_check (hdr g i) (of_nat n) g = (hdr g (i + n), i + n < 512)"
    using hdr_unat [OF assms(1) le] hdr_unat [OF assms(1), of 512]
    by (auto simp: add_offset_and_check_def e word_less_nat_alt Let_def)
qed

lemma slice_bin_nat:
  assumes "k \<le> 512"
  shows "int (unat (slice_bin (of_nat k))) = smallest_sbin_fitting_size (int k)"
proof -
  have "uint (of_nat k :: usize) = int k"
    using small_word(1) [OF assms] by (metis uint_nat)
  then show ?thesis using slice_bin_eq_spec [of "of_nat k"] assms by simp
qed

lemma sbin_mono:
  assumes "m \<le> n" "n \<le> 512"
  shows "unat (slice_bin (of_nat m)) \<le> unat (slice_bin (of_nat n))"
proof -
  have "smallest_sbin_fitting_size (int m) \<le> smallest_sbin_fitting_size (int n)"
    by (rule smallest_sbin_mono) (use assms in auto)
  then have "int (unat (slice_bin (of_nat m))) \<le> int (unat (slice_bin (of_nat n)))"
    using slice_bin_nat [of m] slice_bin_nat [of n] assms by linarith
  then show ?thesis by linarith
qed

section \<open>The invariant\<close>

datatype span_state = FreeSpan | UsedSpan | PoppedSpan

text \<open>Segment and slice index to length and state; a popped span is in no queue and being changed.\<close>

type_synonym spans = "usize \<times> nat \<rightharpoonup> nat \<times> span_state"

definition sbin :: "nat \<Rightarrow> nat" where
  "sbin c = unat (slice_bin (of_nat c))"

text \<open>What the headers of a span say: the first one has its length, the last one leads back to it, in a used span all do.\<close>

definition span_hdr :: "page_map \<Rightarrow> usize \<Rightarrow> nat \<Rightarrow> nat \<Rightarrow> span_state \<Rightarrow> bool" where
  "span_hdr P g i c u \<longleftrightarrow> u = PoppedSpan \<or>
     ((\<exists>pg. P (hdr g i) = Some pg \<and> pcount pg = of_nat c \<and> poffset pg = 0
          \<and> (xblock_size (inner pg) = 0 \<longleftrightarrow> u = FreeSpan))
      \<and> (\<forall>m<c. u = UsedSpan \<or> m = c - 1 \<longrightarrow> (\<exists>pg. P (hdr g (i + m)) = Some pg \<and> poffset pg = of_nat m * 80)))"

definition free_hdrs :: "spans \<Rightarrow> nat \<Rightarrow> usize set" where
  "free_hdrs M b = {hdr g i | g i. \<exists>c. M (g, i) = Some (c, FreeSpan) \<and> sbin c = b}"

definition spans_inv :: "page_map \<Rightarrow> SpanQueueHeader list \<Rightarrow> usize set \<Rightarrow> spans \<Rightarrow> usize list list \<Rightarrow> bool" where
  "spans_inv P T G M L \<longleftrightarrow>
     (\<forall>g \<in> G. seg_addr_ok g \<and> tiled M g \<and> (\<forall>k\<le>512. P (hdr g k) \<noteq> None))
     \<and> (\<forall>g i c u. M (g, i) = Some (c, u) \<longrightarrow> g \<in> G \<and> span_hdr P g i c u)
     \<and> length T = 32 \<and> length L = 32
     \<and> (\<forall>b<32. sq_first (T ! b) = hd_or 0 (L ! b) \<and> sq_last (T ! b) = last_or 0 (L ! b)
          \<and> dseg P 0 (L ! b) 0 \<and> distinct (L ! b) \<and> set (L ! b) = free_hdrs M b)"

text \<open>The headers of the slices of the spans in some states.\<close>

definition slices_of :: "spans \<Rightarrow> span_state set \<Rightarrow> usize set" where
  "slices_of M U = {hdr g k | g k. \<exists>i c u. M (g, i) = Some (c, u) \<and> u \<in> U \<and> i \<le> k \<and> k < i + c}"

lemma spans_invD:
  assumes "spans_inv P T G M L" "M (g, i) = Some (c, u)"
  shows "seg_addr_ok g" "0 < c" "i + c \<le> 512" "i \<le> 512" "c \<le> 512" "span_hdr P g i c u" "g \<in> G" "tiled M g"
proof -
  show g: "g \<in> G" "span_hdr P g i c u" using assms unfolding spans_inv_def by blast+
  then show t: "seg_addr_ok g" "tiled M g" using assms(1) unfolding spans_inv_def by blast+
  show le: "0 < c" "i + c \<le> 512" using t(2) assms(2) unfolding tiled_def by blast+
  show "i \<le> 512" "c \<le> 512" using le(2) by simp_all
qed

lemma spans_inv_hdrs: "spans_inv P T G M L \<Longrightarrow> g \<in> G \<Longrightarrow> k \<le> 512 \<Longrightarrow> \<exists>pg. P (hdr g k) = Some pg"
  by (auto simp: spans_inv_def)

lemma sbin_bound: "c \<le> 512 \<Longrightarrow> sbin c < 32"
  using smallest_sbin_bounds(2) [of c] slice_bin_nat [of c] unfolding sbin_def by linarith

text \<open>Two spans with the same first header are the same.\<close>

lemma span_hdr_unique:
  assumes "spans_inv P T G M L" "M (g, i) = Some (c, u)" "M (g', i') = Some (c', u')" "hdr g i = hdr g' i'"
  shows "g' = g \<and> i' = i \<and> c' = c \<and> u' = u"
proof -
  have "g = g' \<and> i = i'"
    using hdr_inject spans_invD(1,4) [OF assms(1,2)] spans_invD(1,4) [OF assms(1,3)] assms(4) by blast
  then show ?thesis using assms(2,3) by simp
qed

lemma free_hdrs_disjoint:
  assumes "spans_inv P T G M L" "b \<noteq> b'"
  shows "free_hdrs M b \<inter> free_hdrs M b' = {}"
proof (rule ccontr)
  assume "free_hdrs M b \<inter> free_hdrs M b' \<noteq> {}"
  then obtain g i c g' i' c' where "M (g, i) = Some (c, FreeSpan)" "sbin c = b" "M (g', i') = Some (c', FreeSpan)" "sbin c' = b'"
    "hdr g i = hdr g' i'" unfolding free_hdrs_def by blast
  then show False using span_hdr_unique [OF assms(1)] assms(2) by blast
qed


section \<open>Steps that keep the invariant\<close>

text \<open>The fields of a header other than its links.\<close>

definition core :: "Page \<Rightarrow> u32 \<times> u32 \<times> PageInner" where
  "core pg = (pcount pg, poffset pg, inner pg)"

lemma span_hdr_core: "span_hdr P g i c u \<longleftrightarrow> u = PoppedSpan \<or>
     ((\<exists>n. map_option core (P (hdr g i)) = Some (of_nat c, 0, n) \<and> (xblock_size n = 0 \<longleftrightarrow> u = FreeSpan))
      \<and> (\<forall>m<c. u = UsedSpan \<or> m = c - 1 \<longrightarrow> (\<exists>d n. map_option core (P (hdr g (i + m))) = Some (d, of_nat m * 80, n))))"
  unfolding span_hdr_def core_def by (auto 4 4)

lemma span_hdr_cong:
  assumes "\<And>k. i \<le> k \<Longrightarrow> k < i + c \<Longrightarrow> map_option core (P' (hdr g k)) = map_option core (P (hdr g k))" "0 < c"
  shows "span_hdr P' g i c u = span_hdr P g i c u"
proof -
  have "map_option core (P' (hdr g (i + m))) = map_option core (P (hdr g (i + m)))" if "m < c" for m
    using assms(1) [of "i + m"] that by simp
  moreover from this [of 0] have "map_option core (P' (hdr g i)) = map_option core (P (hdr g i))" using assms(2) by simp
  ultimately show ?thesis by (simp add: span_hdr_core cong: conj_cong imp_cong)
qed

lemma unlink_core: "map_option core (unlink P a b x) = map_option core (P x)"
  by (simp add: unlink_def Let_def set_next_def set_prev_def core_def split: option.splits)

lemma set_prev_core: "map_option core (set_prev P a v x) = map_option core (P x)"
  by (simp add: set_prev_def core_def split: option.splits)

text \<open>Headers outside the spans that matter may change; the spans may be regrouped.\<close>

lemma slices_mem: "M (g, i) = Some (c, u) \<Longrightarrow> u \<in> U \<Longrightarrow> i \<le> k \<Longrightarrow> k < i + c \<Longrightarrow> hdr g k \<in> slices_of M U"
  unfolding slices_of_def by blast

lemma slices_mono: "U \<subseteq> V \<Longrightarrow> slices_of M U \<subseteq> slices_of M V"
  unfolding slices_of_def by blast

lemma free_hdrs_slices: "spans_inv P T G M L \<Longrightarrow> free_hdrs M b \<subseteq> slices_of M {FreeSpan}"
proof
  fix x assume inv: "spans_inv P T G M L" and "x \<in> free_hdrs M b"
  then obtain g i c where x: "x = hdr g i" "M (g, i) = Some (c, FreeSpan)" unfolding free_hdrs_def by blast
  then show "x \<in> slices_of M {FreeSpan}" using slices_mem [of M g i c FreeSpan _ i] spans_invD(2) [OF inv x(2)] by simp
qed

lemma spans_inv_headers:
  assumes inv: "spans_inv P T G M L"
    and same: "\<And>x. x \<in> slices_of M {FreeSpan, UsedSpan} \<Longrightarrow> P' x = P x"
    and dom: "\<And>x. P x \<noteq> None \<Longrightarrow> P' x \<noteq> None"
  shows "spans_inv P' T G M L"
proof -
  have h: "span_hdr P' g i c u" if m: "M (g, i) = Some (c, u)" for g i c u
  proof (cases "u = PoppedSpan")
    case False
    then have u: "u \<in> {FreeSpan, UsedSpan}" by (cases u) auto
    have "span_hdr P' g i c u = span_hdr P g i c u"
      using slices_mem [of M g i c u "{FreeSpan, UsedSpan}", OF m u] same spans_invD(2) [OF inv m]
      by (intro span_hdr_cong) simp_all
    then show ?thesis using spans_invD(6) [OF inv m] by simp
  qed (simp add: span_hdr_def)
  have q: "dseg P' 0 (L ! b) 0" if "b < 32" for b
  proof -
    have "set (L ! b) \<subseteq> slices_of M {FreeSpan, UsedSpan}"
      using free_hdrs_slices [OF inv, of b] inv that unfolding spans_inv_def slices_of_def by blast
    then have "dseg P' 0 (L ! b) 0 = dseg P 0 (L ! b) 0" using same by (intro dseg_cong) auto
    then show ?thesis using inv that by (simp add: spans_inv_def)
  qed
  show ?thesis using inv h q dom unfolding spans_inv_def by blast
qed

lemma spans_inv_remap:
  assumes inv: "spans_inv P T G M L"
    and tiled: "\<And>g. g \<in> G \<Longrightarrow> tiled M' g"
    and free: "\<And>key c. M' key = Some (c, FreeSpan) \<longleftrightarrow> M key = Some (c, FreeSpan)"
    and seg: "\<And>g i c u. M' (g, i) = Some (c, u) \<Longrightarrow> g \<in> G"
    and used: "\<And>g i c. M' (g, i) = Some (c, UsedSpan) \<Longrightarrow> span_hdr P g i c UsedSpan"
  shows "spans_inv P T G M' L"
proof -
  have "span_hdr P g i c u" if "M' (g, i) = Some (c, u)" for g i c u
    using that free [of "(g, i)" c] used [of g i c] spans_invD(6) [OF inv, of g i c u]
    by (cases u) (auto simp: span_hdr_def)
  moreover have "free_hdrs M' b = free_hdrs M b" for b by (simp add: free_hdrs_def free)
  ultimately show ?thesis using inv tiled seg unfolding spans_inv_def by simp
qed

text \<open>A free span leaves its queue.\<close>

lemma free_hdrsI: "M (g, i) = Some (c, FreeSpan) \<Longrightarrow> sbin c = b \<Longrightarrow> hdr g i \<in> free_hdrs M b"
  unfolding free_hdrs_def by blast

lemma free_hdrs_pop:
  assumes inv: "spans_inv P T G M L" and m: "M (g, i) = Some (c, FreeSpan)"
  shows "free_hdrs (M((g, i) \<mapsto> (d, PoppedSpan))) b = free_hdrs M b - {hdr g i}"
proof (rule set_eqI)
  fix x
  show "x \<in> free_hdrs (M((g, i) \<mapsto> (d, PoppedSpan))) b \<longleftrightarrow> x \<in> free_hdrs M b - {hdr g i}"
  proof
    assume "x \<in> free_hdrs (M((g, i) \<mapsto> (d, PoppedSpan))) b"
    then obtain g' i' c' where x: "x = hdr g' i'" "(g', i') \<noteq> (g, i)" "M (g', i') = Some (c', FreeSpan)" "sbin c' = b"
      unfolding free_hdrs_def by (auto split: if_splits)
    then have "hdr g' i' \<noteq> hdr g i" using span_hdr_unique [OF inv x(3) m] by auto
    then show "x \<in> free_hdrs M b - {hdr g i}" using x free_hdrsI [of M, OF x(3,4)] by simp
  next
    assume "x \<in> free_hdrs M b - {hdr g i}"
    then obtain g' i' c' where x: "x = hdr g' i'" "x \<noteq> hdr g i" "M (g', i') = Some (c', FreeSpan)" "sbin c' = b"
      unfolding free_hdrs_def by blast
    then have "(M((g, i) \<mapsto> (d, PoppedSpan))) (g', i') = Some (c', FreeSpan)" by auto
    then show "x \<in> free_hdrs (M((g, i) \<mapsto> (d, PoppedSpan))) b" using x free_hdrsI by blast
  qed
qed

lemma spans_inv_pop:
  assumes inv: "spans_inv P T G M L" and m: "M (g, i) = Some (c, FreeSpan)"
    and Lb: "L ! sbin c = us @ hdr g i # vs"
    and T': "length T' = 32" "sq_first (T' ! sbin c) = hd_or 0 (us @ vs)" "sq_last (T' ! sbin c) = last_or 0 (us @ vs)"
      "\<And>b. b \<noteq> sbin c \<Longrightarrow> T' ! b = T ! b"
  shows "spans_inv (unlink P (last_or 0 us) (hd_or 0 vs)) T' G (M((g, i) \<mapsto> (c, PoppedSpan))) (L[sbin c := us @ vs])"
proof -
  let ?P = "unlink P (last_or 0 us) (hd_or 0 vs)" and ?M = "M((g, i) \<mapsto> (c, PoppedSpan))" and ?b = "sbin c"
  note d = spans_invD [OF inv m]
  have b: "?b < 32" using sbin_bound d(5) by blast
  have q: "length L = 32" "length T = 32" and q': "\<And>b. b < 32 \<Longrightarrow> sq_first (T ! b) = hd_or 0 (L ! b) \<and> sq_last (T ! b) = last_or 0 (L ! b)
      \<and> dseg P 0 (L ! b) 0 \<and> distinct (L ! b) \<and> set (L ! b) = free_hdrs M b"
    using inv unfolding spans_inv_def by blast+
  have seg: "dseg P 0 us (hdr g i)" "dseg P (hdr g i) vs 0" "distinct (us @ vs)" "hdr g i \<notin> set (us @ vs)"
    and set_b: "free_hdrs M ?b = insert (hdr g i) (set (us @ vs))"
    using q' [OF b] Lb by (auto simp: dseg_append)
  have new: "dseg ?P 0 (us @ vs) 0" by (rule dseg_join [OF seg(1-3)])
  have hd: "span_hdr ?P g' i' c' u" if "?M (g', i') = Some (c', u)" for g' i' c' u
  proof (cases "(g', i') = (g, i)")
    case False
    then have "M (g', i') = Some (c', u)" using that by auto
    then show ?thesis using spans_invD(2,6) [OF inv] span_hdr_cong [of i' c' ?P g' P u] unlink_core by blast
  qed (use that in \<open>auto simp: span_hdr_def\<close>)
  have other: "dseg ?P 0 (L ! b) 0" if "b < 32" "b \<noteq> ?b" for b
  proof -
    have "set (L ! b) \<inter> (insert (hdr g i) (set (us @ vs))) = {}"
      using free_hdrs_disjoint [OF inv that(2)] q' [OF that(1)] set_b by blast
    moreover have "0 \<notin> set (L ! b)" using q' [OF that(1)] dseg_nonnull by blast
    moreover have "last_or 0 us \<in> insert 0 (set us)" "hd_or 0 vs \<in> insert 0 (set vs)"
      using last_or_in [of us 0] hd_or_in [of vs 0] by (cases "us = []"; cases "vs = []"; simp)+
    ultimately have "last_or 0 us \<notin> set (L ! b)" "hd_or 0 vs \<notin> set (L ! b)" by auto
    then show ?thesis using q' [OF that(1)] by (simp add: dseg_unlink_other)
  qed
  have queues: "sq_first (T' ! b) = hd_or 0 (L[?b := us @ vs] ! b) \<and> sq_last (T' ! b) = last_or 0 (L[?b := us @ vs] ! b)
      \<and> dseg ?P 0 (L[?b := us @ vs] ! b) 0 \<and> distinct (L[?b := us @ vs] ! b) \<and> set (L[?b := us @ vs] ! b) = free_hdrs ?M b"
    if "b < 32" for b
  proof (cases "b = ?b")
    case True
    then show ?thesis using T'(2,3) new seg(3,4) set_b q(1) b free_hdrs_pop [OF inv m] by simp
  next
    case False
    then have "hdr g i \<notin> free_hdrs M b" using free_hdrs_disjoint [OF inv False] set_b by blast
    then show ?thesis using False T'(4) other [OF that False] q' [OF that] free_hdrs_pop [OF inv m] by simp
  qed
  have "?P x \<noteq> None" if "P x \<noteq> None" for x using that link_dom(1) [of P "last_or 0 us" "hd_or 0 vs"] by (auto simp: dom_def)
  moreover have "tiled ?M g'" if "g' \<in> G" for g'
    using that inv tiled_state [OF d(8) m] by (cases "g' = g") (auto simp: spans_inv_def tiled_other)
  moreover have "g' \<in> G" if "?M (g', i') = Some (c', u)" for g' i' c' u
    using that d(7) spans_invD(7) [OF inv, of g' i' c' u] by (auto split: if_splits)
  ultimately show ?thesis using inv hd queues T'(1) q unfolding spans_inv_def by simp
qed

text \<open>A popped span enters the queue of its bin.\<close>

lemma free_hdrs_push:
  "free_hdrs (M((g, i) \<mapsto> (c, FreeSpan))) b =
     (if sbin c = b then insert (hdr g i) (free_hdrs (M((g, i) := None)) b) else free_hdrs (M((g, i) := None)) b)"
  unfolding free_hdrs_def by (auto split: if_splits)

lemma free_hdrs_popped:
  assumes "M (g, i) = Some (c, PoppedSpan)"
  shows "free_hdrs (M((g, i) := None)) b = free_hdrs M b"
proof -
  have "(M((g, i) := None)) key = Some (d, FreeSpan) \<longleftrightarrow> M key = Some (d, FreeSpan)" for key d using assms by auto
  then show ?thesis unfolding free_hdrs_def by (simp only:)
qed

lemma spans_inv_push:
  assumes inv: "spans_inv P T G M L" and m: "M (g, i) = Some (c, PoppedSpan)"
    and pg: "pcount pg = of_nat c" "poffset pg = 0" "xblock_size (inner pg) = 0"
    and lst: "1 < c \<Longrightarrow> \<exists>lg. P (hdr g (i + c - 1)) = Some lg \<and> poffset lg = of_nat (c - 1) * 80"
    and T': "length T' = 32" "sq_first (T' ! sbin c) = hdr g i" "sq_last (T' ! sbin c) = last_or (hdr g i) (L ! sbin c)"
      "\<And>b. b \<noteq> sbin c \<Longrightarrow> T' ! b = T ! b"
  shows "spans_inv (link_front P (hdr g i) pg (hd_or 0 (L ! sbin c))) T' G (M((g, i) \<mapsto> (c, FreeSpan)))
    (L[sbin c := hdr g i # L ! sbin c])"
proof -
  let ?b = "sbin c" and ?x = "hdr g i"
  let ?f = "hd_or 0 (L ! ?b)" and ?M = "M((g, i) \<mapsto> (c, FreeSpan))"
  let ?P = "link_front P ?x pg ?f"
  note d = spans_invD [OF inv m]
  have b: "?b < 32" using sbin_bound d(5) by blast
  have q: "length L = 32" "length T = 32" and q': "\<And>b. b < 32 \<Longrightarrow> sq_first (T ! b) = hd_or 0 (L ! b) \<and> sq_last (T ! b) = last_or 0 (L ! b)
      \<and> dseg P 0 (L ! b) 0 \<and> distinct (L ! b) \<and> set (L ! b) = free_hdrs M b"
    using inv unfolding spans_inv_def by blast+
  have x0: "?x \<noteq> 0" using hdr_nonnull d(1,4) by blast
  have fresh: "?x \<notin> free_hdrs M b" for b
  proof
    assume "?x \<in> free_hdrs M b"
    then obtain g' i' c' where "?x = hdr g' i'" "M (g', i') = Some (c', FreeSpan)" unfolding free_hdrs_def by blast
    then show False using span_hdr_unique [OF inv m] by blast
  qed
  have f_in: "?f = 0 \<or> ?f \<in> free_hdrs M ?b" using q' [OF b] hd_or_in [of "L ! ?b" 0] by (cases "L ! ?b") auto
  have fx: "?f \<noteq> ?x" using f_in fresh x0 by auto
  have core_eq: "map_option core (?P y) = (if y = ?x then Some (core pg) else map_option core (P y))" for y
    by (simp add: link_front_def set_prev_core) (simp add: core_def)
  have hd: "span_hdr ?P g' i' c' u" if "?M (g', i') = Some (c', u)" for g' i' c' u
  proof (cases "(g', i') = (g, i)")
    case True
    have same: "map_option core (?P (hdr g (i + m))) = map_option core (P (hdr g (i + m)))" if "0 < m" "m < c" for m
      using core_eq hdr_inject [OF d(1) d(1), of "i + m" i] that d(3,4) by simp
    have "\<exists>d n. map_option core (?P (hdr g (i + (c - 1)))) = Some (d, of_nat (c - 1) * 80, n)"
    proof (cases "c = 1")
      case True
      then show ?thesis using pg core_eq [of ?x] by (auto simp: core_def)
    next
      case False
      then have c: "0 < c - 1" "c - 1 < c" "1 < c" using d(2) by simp_all
      have "\<exists>d n. map_option core (P (hdr g (i + (c - 1)))) = Some (d, of_nat (c - 1) * 80, n)"
        using lst [OF c(3)] d(2) by (auto simp: core_def)
      then show ?thesis using same [OF c(1,2)] by simp
    qed
    then show ?thesis using True that pg core_eq [of ?x] unfolding span_hdr_core by (auto simp: core_def)
  next
    case False
    then have m': "M (g', i') = Some (c', u)" using that by auto
    note d' = spans_invD [OF inv m']
    have "map_option core (?P (hdr g' k)) = map_option core (P (hdr g' k))" if k: "i' \<le> k" "k < i' + c'" for k
    proof -
      have "hdr g' k \<noteq> ?x"
      proof
        assume "hdr g' k = ?x"
        then have e: "g' = g" "k = i" using hdr_inject [OF d'(1) d(1), of k i] k d'(3) d(4) by simp_all
        then have "i' < i" using False k by auto
        then have "i' + c' \<le> i" using d(8) m m' e(1) unfolding tiled_def by blast
        then show False using k e by simp
      qed
      then show ?thesis using core_eq by simp
    qed
    then show ?thesis using d'(2,6) span_hdr_cong [of i' c' ?P g' P u] by blast
  qed
  have free_eq: "free_hdrs ?M b' = (if ?b = b' then insert ?x (free_hdrs M b') else free_hdrs M b')" for b'
    by (simp add: free_hdrs_push free_hdrs_popped [of M, OF m])
  have queues: "sq_first (T' ! b') = hd_or 0 (L[?b := ?x # L ! ?b] ! b') \<and> sq_last (T' ! b') = last_or 0 (L[?b := ?x # L ! ?b] ! b')
      \<and> dseg ?P 0 (L[?b := ?x # L ! ?b] ! b') 0 \<and> distinct (L[?b := ?x # L ! ?b] ! b') \<and> set (L[?b := ?x # L ! ?b] ! b') = free_hdrs ?M b'"
    if b': "b' < 32" for b'
  proof (cases "b' = ?b")
    case True
    have "dseg ?P 0 (?x # L ! ?b) 0" using q' [OF b] fresh x0 by (intro dseg_link_front) auto
    then show ?thesis using True T'(2,3) q q' [OF b] fresh free_eq b by (simp add: last_or_def)
  next
    case False
    have "?f \<notin> set (L ! b')" using f_in q' [OF b'] dseg_nonnull [of P 0 "L ! b'" 0] free_hdrs_disjoint [OF inv False] by auto
    then have "dseg ?P 0 (L ! b') 0" using fresh q' [OF b'] by (simp add: dseg_link_front_other)
    then show ?thesis using False T'(4) q' [OF b'] free_eq by simp
  qed
  have "?P y \<noteq> None" if "P y \<noteq> None" for y using that link_dom(2) [of P ?x pg ?f] by (auto simp: dom_def)
  moreover have "tiled ?M g'" if "g' \<in> G" for g'
    using that inv tiled_state [OF d(8) m] by (cases "g' = g") (auto simp: spans_inv_def tiled_other)
  moreover have "g' \<in> G" if "?M (g', i') = Some (c', u)" for g' i' c' u
    using that d(7) spans_invD(7) [OF inv, of g' i' c' u] by (auto split: if_splits)
  ultimately show ?thesis using inv hd queues T'(1) q unfolding spans_inv_def by simp
qed


section \<open>The code's steps\<close>

abbreviation set_queues :: "st \<Rightarrow> usize \<Rightarrow> Tld \<Rightarrow> page_map \<Rightarrow> SpanQueueHeader list \<Rightarrow> st" where
  "set_queues s tld t P T \<equiv>
     s\<lparr>page_at := P, tld_at := (tld_at s)(tld \<mapsto> t\<lparr>segments := (segments t)\<lparr>span_queue_headers := T\<rparr>\<rparr>)\<rparr>"

abbreviation sqs :: "Tld \<Rightarrow> SpanQueueHeader list" where
  "sqs t \<equiv> span_queue_headers (segments t)"

lemma upd_span_queue_eq:
  "tld_at s tld = Some t \<Longrightarrow> unat i < length (sqs t) \<Longrightarrow>
     upd_span_queue s tld i f = Inr (s\<lparr>tld_at := (tld_at s)(tld \<mapsto> t\<lparr>segments := (segments t)
        \<lparr>span_queue_headers := (sqs t)[unat i := f (sqs t ! unat i)]\<rparr>\<rparr>)\<rparr>)"
  by (simp add: upd_span_queue_def)

lemma get_span_queue_eq:
  "tld_at s tld = Some t \<Longrightarrow> unat i < length (sqs t) \<Longrightarrow> get_span_queue s tld i = Inr (sqs t ! unat i)"
  by (simp add: get_span_queue_def)

text \<open>What unlinking does, whichever of the two copies of the code runs.\<close>

definition unlinked :: "SpanQueueHeader \<Rightarrow> usize \<Rightarrow> usize \<Rightarrow> SpanQueueHeader" where
  "unlinked cq prev nxt =
     (let cq = (if prev = 0 then cq\<lparr>sq_first := nxt\<rparr> else cq) in if nxt = 0 then cq\<lparr>sq_last := prev\<rparr> else cq)"

lemma unlink_effect:
  assumes inv: "spans_inv P T G M L" and m: "M (g, i) = Some (c, FreeSpan)"
  obtains pg L' where "P (hdr g i) = Some pg" "pcount pg = of_nat c"
    "prev_ptr pg \<noteq> 0 \<Longrightarrow> prev_ptr pg \<in> dom P" "next_ptr pg \<noteq> 0 \<Longrightarrow> next_ptr pg \<in> dom P"
    "spans_inv (unlink P (prev_ptr pg) (next_ptr pg)) (T[sbin c := unlinked (T ! sbin c) (prev_ptr pg) (next_ptr pg)]) G
       (M((g, i) \<mapsto> (c, PoppedSpan))) L'"
    "\<And>x. x \<notin> slices_of M {FreeSpan} \<Longrightarrow> unlink P (prev_ptr pg) (next_ptr pg) x = P x"
proof -
  note d = spans_invD [OF inv m]
  have b: "sbin c < 32" using sbin_bound d(5) by blast
  have q: "length T = 32" "sq_first (T ! sbin c) = hd_or 0 (L ! sbin c)" "sq_last (T ! sbin c) = last_or 0 (L ! sbin c)"
    "dseg P 0 (L ! sbin c) 0" "distinct (L ! sbin c)" "set (L ! sbin c) = free_hdrs M (sbin c)"
    using inv b unfolding spans_inv_def by blast+
  have "hdr g i \<in> set (L ! sbin c)" using q(6) free_hdrsI [of M g i c] m by simp
  then obtain us vs where L: "L ! sbin c = us @ hdr g i # vs" by (meson split_list)
  obtain pg where pg: "P (hdr g i) = Some pg" "pcount pg = of_nat c" using d(6) unfolding span_hdr_def by auto
  have links: "prev_ptr pg = last_or 0 us" "next_ptr pg = hd_or 0 vs"
    using dseg_middle(1,2) [OF q(4) [unfolded L] pg(1)] by auto
  have in_list: "prev_ptr pg \<noteq> 0 \<Longrightarrow> prev_ptr pg \<in> set (L ! sbin c)" "next_ptr pg \<noteq> 0 \<Longrightarrow> next_ptr pg \<in> set (L ! sbin c)"
    unfolding links L using last_or_in [of us 0] hd_or_in [of vs 0] by (cases "us = []"; cases "vs = []"; simp)+
  have ends: "prev_ptr pg = 0 \<longleftrightarrow> us = []" "next_ptr pg = 0 \<longleftrightarrow> vs = []"
    using last_or_zero [of P 0 us "hdr g i"] hd_or_zero [of P "hdr g i" vs 0] q(4) L links by (auto simp: dseg_append)
  have "spans_inv (unlink P (last_or 0 us) (hd_or 0 vs)) (T[sbin c := unlinked (T ! sbin c) (prev_ptr pg) (next_ptr pg)]) G
      (M((g, i) \<mapsto> (c, PoppedSpan))) (L[sbin c := us @ vs])"
  proof (rule spans_inv_pop [OF inv m L])
    show "sq_first (T[sbin c := unlinked (T ! sbin c) (prev_ptr pg) (next_ptr pg)] ! sbin c) = hd_or 0 (us @ vs)"
      using q(1,2) b ends links L by (cases us) (auto simp: unlinked_def)
    show "sq_last (T[sbin c := unlinked (T ! sbin c) (prev_ptr pg) (next_ptr pg)] ! sbin c) = last_or 0 (us @ vs)"
      using q(1,3) b ends links L by (cases vs) (auto simp: unlinked_def last_or_append last_or_def)
  qed (use q(1) in simp_all)
  moreover have "unlink P (prev_ptr pg) (next_ptr pg) x = P x" if x: "x \<notin> slices_of M {FreeSpan}" for x
  proof -
    have "x \<notin> set (L ! sbin c)" using x free_hdrs_slices [OF inv] q(6) by blast
    then show ?thesis using in_list by (cases "x = prev_ptr pg"; cases "x = next_ptr pg") (auto simp: unlink_def set_next_def set_prev_def Let_def split: option.splits)
  qed
  ultimately show ?thesis using that [OF pg, of "L[sbin c := us @ vs]"] in_list dseg_mem [OF q(4)] links by (auto simp: domIff)
qed

lemma span_queue_delete_ok:
  assumes t: "tld_at s tld = Some t" and inv: "spans_inv (page_at s) (sqs t) G M L" and m: "M (g, i) = Some (c, FreeSpan)"
  obtains P' T' L' where "span_queue_delete tld (slice_bin (of_nat c)) (hdr g i) s = Inr (set_queues s tld t P' T')"
    "spans_inv P' T' G (M((g, i) \<mapsto> (c, PoppedSpan))) L'"
    "\<And>x. x \<notin> slices_of M {FreeSpan} \<Longrightarrow> P' x = page_at s x"
    "\<And>x. map_option core (P' x) = map_option core (page_at s x)"
proof -
  obtain pg L' where pg: "page_at s (hdr g i) = Some pg" "pcount pg = of_nat c"
    and dom: "prev_ptr pg \<noteq> 0 \<Longrightarrow> prev_ptr pg \<in> dom (page_at s)" "next_ptr pg \<noteq> 0 \<Longrightarrow> next_ptr pg \<in> dom (page_at s)"
    and inv': "spans_inv (unlink (page_at s) (prev_ptr pg) (next_ptr pg)) ((sqs t)[sbin c := unlinked (sqs t ! sbin c) (prev_ptr pg) (next_ptr pg)]) G
       (M((g, i) \<mapsto> (c, PoppedSpan))) L'"
    and frame: "\<And>x. x \<notin> slices_of M {FreeSpan} \<Longrightarrow> unlink (page_at s) (prev_ptr pg) (next_ptr pg) x = page_at s x"
    using unlink_effect [OF inv m] by metis
  have b: "unat (slice_bin (of_nat c)) = sbin c" "sbin c < length (sqs t)"
    using spans_invD(5) [OF inv m] inv sbin_bound unfolding spans_inv_def by (simp_all add: sbin_def)
  have "span_queue_delete tld (slice_bin (of_nat c)) (hdr g i) s =
      Inr (set_queues s tld t (unlink (page_at s) (prev_ptr pg) (next_ptr pg))
        ((sqs t)[sbin c := unlinked (sqs t ! sbin c) (prev_ptr pg) (next_ptr pg)]))"
    using pg t b dom
    by (cases "prev_ptr pg = 0"; cases "next_ptr pg = 0")
      (simp_all add: span_queue_delete_def upd_span_queue_eq upd_links unlink_def unlinked_def Let_def st_canon fun_upd_idem)
  then show ?thesis using that inv' frame unlink_core by blast
qed

lemma coalesce_unlink_ok:
  assumes t: "tld_at s tld = Some t" and inv: "spans_inv (page_at s) (sqs t) G M L" and m: "M (g, i) = Some (c, FreeSpan)"
  obtains P' T' L' where "coalesce_unlink (hdr g i) tld s = Inr (of_nat c, set_queues s tld t P' T')"
    "spans_inv P' T' G (M((g, i) \<mapsto> (c, PoppedSpan))) L'"
    "\<And>x. x \<notin> slices_of M {FreeSpan} \<Longrightarrow> P' x = page_at s x"
    "\<And>x. map_option core (P' x) = map_option core (page_at s x)"
proof -
  obtain pg L' where pg: "page_at s (hdr g i) = Some pg" "pcount pg = of_nat c"
    and dom: "prev_ptr pg \<noteq> 0 \<Longrightarrow> prev_ptr pg \<in> dom (page_at s)" "next_ptr pg \<noteq> 0 \<Longrightarrow> next_ptr pg \<in> dom (page_at s)"
    and inv': "spans_inv (unlink (page_at s) (prev_ptr pg) (next_ptr pg)) ((sqs t)[sbin c := unlinked (sqs t ! sbin c) (prev_ptr pg) (next_ptr pg)]) G
       (M((g, i) \<mapsto> (c, PoppedSpan))) L'"
    and frame: "\<And>x. x \<notin> slices_of M {FreeSpan} \<Longrightarrow> unlink (page_at s) (prev_ptr pg) (next_ptr pg) x = page_at s x"
    using unlink_effect [OF inv m] by metis
  have b: "unat (slice_bin (of_nat c)) = sbin c" "sbin c < length (sqs t)"
    using spans_invD(5) [OF inv m] inv sbin_bound unfolding spans_inv_def by (simp_all add: sbin_def)
  have cast: "ucast (of_nat c :: u32) = (of_nat c :: usize)" using small_cast spans_invD(5) [OF inv m] by blast
  have "coalesce_unlink (hdr g i) tld s =
      bindR (if prev_ptr pg \<noteq> 0 then upd_page s (prev_ptr pg) (\<lambda>g. g\<lparr>next_ptr := next_ptr pg\<rparr>) else Inr s) (\<lambda>s.
      bindR (if next_ptr pg \<noteq> 0 then upd_page s (next_ptr pg) (\<lambda>g. g\<lparr>prev_ptr := prev_ptr pg\<rparr>) else Inr s) (\<lambda>s.
      bindR (upd_span_queue s tld (slice_bin (of_nat c)) (\<lambda>cq.
        let cq = (if prev_ptr pg = 0 then cq\<lparr>sq_first := next_ptr pg\<rparr> else cq) in
        if next_ptr pg = 0 then cq\<lparr>sq_last := prev_ptr pg\<rparr> else cq)) (\<lambda>s. Inr (of_nat c, s))))"
    using pg by (simp add: coalesce_unlink_def cast Let_def)
  also have "\<dots> = Inr (of_nat c, set_queues s tld t (unlink (page_at s) (prev_ptr pg) (next_ptr pg))
        ((sqs t)[sbin c := unlinked (sqs t ! sbin c) (prev_ptr pg) (next_ptr pg)]))"
    using t b by (subst upd_neighbours [OF dom]) (simp_all add: upd_span_queue_eq unlinked_def Let_def)
  finally show ?thesis using that inv' frame unlink_core by blast
qed

text \<open>The slices of a span belong to no other span.\<close>

lemma slices_disjoint:
  assumes inv: "spans_inv P T G M L" and m: "M (g, i) = Some (c, u)" "u \<notin> U" and k: "i \<le> k" "k < i + c"
  shows "hdr g k \<notin> slices_of M U"
proof
  assume "hdr g k \<in> slices_of M U"
  then obtain g' k' i' c' u' where o: "hdr g k = hdr g' k'" "M (g', i') = Some (c', u')" "u' \<in> U" "i' \<le> k'" "k' < i' + c'"
    unfolding slices_of_def by blast
  note d = spans_invD [OF inv m(1)] and d' = spans_invD [OF inv o(2)]
  have "g = g'" "k = k'" using hdr_inject [OF d(1) d'(1), of k k'] o k d(3) d'(3) by simp_all
  then have "i' = i" using tiled_unique [OF d(8) m(1), of i' c' u' k] o k by simp
  then show False using m o \<open>g = g'\<close> by auto
qed

lemma first_in_queue:
  assumes inv: "spans_inv P T G M L" and "b < 32" "sq_first (T ! b) \<noteq> 0"
  shows "sq_first (T ! b) \<in> slices_of M {FreeSpan}" "sq_first (T ! b) \<in> dom P"
proof -
  have q: "sq_first (T ! b) = hd_or 0 (L ! b)" "dseg P 0 (L ! b) 0" "set (L ! b) = free_hdrs M b"
    using inv assms(2) unfolding spans_inv_def by blast+
  then have "sq_first (T ! b) \<in> set (L ! b)" using assms(3) hd_or_in [of "L ! b" 0] by (cases "L ! b = []") simp_all
  then show "sq_first (T ! b) \<in> slices_of M {FreeSpan}" "sq_first (T ! b) \<in> dom P"
    using q free_hdrs_slices [OF inv] dseg_mem [OF q(2)] by auto
qed

lemma upd_page_on: "P x = Some pg \<Longrightarrow> upd_page (s\<lparr>page_at := P\<rparr>) x f = Inr (s\<lparr>page_at := P(x \<mapsto> f pg)\<rparr>)"
  by (simp add: upd_page_eq)

lemma upd_inner_on:
  "P x = Some pg \<Longrightarrow> upd_inner (s\<lparr>page_at := P\<rparr>) x f = Inr (s\<lparr>page_at := P(x \<mapsto> pg\<lparr>inner := f (inner pg)\<rparr>)\<rparr>)"
  by (simp add: upd_inner_eq)

text \<open>The writes of \<^verbatim>\<open>segment_slice_split\<close>.\<close>

lemma slice_split_writes:
  fixes cw nw :: usize
  assumes t: "tld_at s tld = Some t" and b: "unat (slice_bin (cw - nw)) = b" "b < length (sqs t)"
    and addr: "add_offset sp nw = x" "add_offset sp (cw - 1) = lp"
    and pages: "page_at s sp = Some sg" "page_at s x = Some xg" "page_at s lp = Some lg"
    and dist: "x \<noteq> sp" "lp \<noteq> sp" "nw + 1 < cw \<Longrightarrow> lp \<noteq> x"
    and first: "sq_first (sqs t ! b) = f" "f \<noteq> 0 \<Longrightarrow> f \<in> dom (page_at s)" "f \<notin> {sp, x, lp}"
  defines "cq \<equiv> (sqs t ! b)\<lparr>sq_first := x\<rparr>"
    and "P2 \<equiv> (page_at s)(sp \<mapsto> sg\<lparr>pcount := ucast nw\<rparr>)"
    and "xg' \<equiv> xg\<lparr>inner := (inner xg)\<lparr>xblock_size := 0\<rparr>, pcount := ucast (cw - nw), poffset := 0\<rparr>"
    and "lg' \<equiv> lg\<lparr>inner := (inner lg)\<lparr>xblock_size := 0\<rparr>, pcount := ucast (cw - nw),
      poffset := ucast (cw - nw - 1) * ucast SIZEOF_PAGE_HEADER\<rparr>"
  shows "segment_slice_split sp cw nw tld s =
    Inr (set_queues s tld t (link_front (if nw + 1 < cw then P2(lp \<mapsto> lg') else P2) x xg' f)
      ((sqs t)[b := if f = 0 then cq\<lparr>sq_last := x\<rparr> else cq]))"
proof -
  define s1 where "s1 = s\<lparr>tld_at := (tld_at s)(tld \<mapsto> t\<lparr>segments := (segments t)
      \<lparr>span_queue_headers := (sqs t)[b := if f = 0 then cq\<lparr>sq_last := x\<rparr> else cq]\<rparr>\<rparr>)\<rparr>"
  have q1: "upd_span_queue s tld (slice_bin (cw - nw)) (\<lambda>cq. if f = 0 then cq\<lparr>sq_first := x, sq_last := x\<rparr> else cq\<lparr>sq_first := x\<rparr>)
      = Inr (s1\<lparr>page_at := page_at s\<rparr>)"
    using t b by (simp add: upd_span_queue_eq s1_def cq_def)
  have q0: "get_span_queue s tld (slice_bin (cw - nw)) = Inr (sqs t ! b)"
    using t b by (simp add: get_span_queue_eq)
  define P1 where "P1 = (if f \<noteq> 0 then set_prev (page_at s) f x else page_at s)"
  have p1: "(if f \<noteq> 0 then upd_page (s1\<lparr>page_at := page_at s\<rparr>) f (\<lambda>g'. g'\<lparr>prev_ptr := x\<rparr>) else Inr (s1\<lparr>page_at := page_at s\<rparr>))
      = Inr (s1\<lparr>page_at := P1\<rparr>)"
    using first(2) by (auto simp: P1_def upd_links)
  have P1: "P1 sp = Some sg" "P1 x = Some xg" "P1 lp = Some lg"
    using pages first(3) by (auto simp: P1_def)
  define P3 where "P3 = P1(sp \<mapsto> sg\<lparr>pcount := ucast nw\<rparr>, x \<mapsto> xg'\<lparr>prev_ptr := 0, next_ptr := f\<rparr>)"
  have code: "segment_slice_split sp cw nw tld s = Inr (s1\<lparr>page_at := (if nw + 1 < cw then P3(lp \<mapsto> lg') else P3)\<rparr>)"
    unfolding segment_slice_split_def Let_def addr q0 bindR_simps first(1) q1 p1
    using P1 dist by (simp add: upd_page_on upd_inner_on P3_def xg'_def lg'_def page_canon)
  have "(if nw + 1 < cw then P3(lp \<mapsto> lg') else P3) = link_front (if nw + 1 < cw then P2(lp \<mapsto> lg') else P2) x xg' f"
    using dist first(3) by (auto simp: P3_def P1_def P2_def link_front_def set_prev_def fun_eq_iff split: option.splits)
  then show ?thesis unfolding code by (simp add: s1_def st_canon)
qed

text \<open>Writing the headers of popped slices.\<close>

lemma spans_inv_write_popped:
  assumes inv: "spans_inv P T G M L" and m: "M (g, i) = Some (c, PoppedSpan)" "i \<le> k" "k < i + c"
  shows "spans_inv (P(hdr g k \<mapsto> pg)) T G M L"
  using slices_disjoint [OF inv m(1) _ m(2,3), of "{FreeSpan, UsedSpan}"]
  by (intro spans_inv_headers [OF inv]) (auto split: if_splits)

lemma spans_inv_split:
  assumes inv: "spans_inv P T G M L" and m: "M (g, i) = Some (c, PoppedSpan)" and n: "0 < n" "n < c"
  shows "spans_inv P T G (M((g, i) \<mapsto> (n, PoppedSpan), (g, i + n) \<mapsto> (c - n, PoppedSpan))) L"
proof -
  let ?M = "M((g, i) \<mapsto> (n, PoppedSpan), (g, i + n) \<mapsto> (c - n, PoppedSpan))"
  note d = spans_invD [OF inv m]
  have none: "M (g, i + n) = None"
  proof (cases "M (g, i + n)")
    case (Some a)
    then obtain e v where e: "M (g, i + n) = Some (e, v)" by (cases a) auto
    then have "0 < e" using spans_invD(2) [OF inv] by blast
    then show ?thesis using tiled_unique [OF d(8) m e, of "i + n"] n by simp
  qed simp
  show ?thesis
  proof (rule spans_inv_remap [OF inv])
    show "tiled ?M g'" if "g' \<in> G" for g'
      using that inv tiled_split [OF d(8) m n] by (cases "g' = g") (auto simp: spans_inv_def tiled_other)
    show "?M key = Some (c', FreeSpan) \<longleftrightarrow> M key = Some (c', FreeSpan)" for key c' using m none by auto
    show "g' \<in> G" if "?M (g', j) = Some (c', u)" for g' j c' u
      using that d(7) spans_invD(7) [OF inv, of g' j c' u] by (auto split: if_splits)
    show "span_hdr P g' j c' UsedSpan" if "?M (g', j) = Some (c', UsedSpan)" for g' j c'
      using that spans_invD(6) [OF inv, of g' j c' UsedSpan] by (auto split: if_splits)
  qed
qed

lemma slices_popped_split:
  assumes "M (g, i) = Some (c, PoppedSpan)" "i \<le> k" "k < i + c"
  shows "hdr g k \<in> slices_of M {FreeSpan, PoppedSpan}"
  using slices_mem [of M g i c PoppedSpan _ k] assms by simp

lemma slice_split_ok:
  assumes t: "tld_at s tld = Some t" and inv: "spans_inv (page_at s) (sqs t) G M L"
    and m: "M (g, i) = Some (c, PoppedSpan)" and n: "0 < n" "n < c"
  obtains P' T' L' where "segment_slice_split (hdr g i) (of_nat c) (of_nat n) tld s = Inr (set_queues s tld t P' T')"
    "spans_inv P' T' G (M((g, i) \<mapsto> (n, PoppedSpan), (g, i + n) \<mapsto> (c - n, FreeSpan))) L'"
    "\<And>x. x \<notin> slices_of M {FreeSpan, PoppedSpan} \<Longrightarrow> P' x = page_at s x"
proof -
  note d = spans_invD [OF inv m]
  let ?cw = "of_nat c :: usize" and ?nw = "of_nat n :: usize" and ?b = "sbin (c - n)"
  let ?sp = "hdr g i" and ?x = "hdr g (i + n)" and ?lp = "hdr g (i + c - 1)"
  have w: "?cw - ?nw = of_nat (c - n)" "?cw - 1 = of_nat (c - 1)" "?cw - ?nw - 1 = of_nat (c - n - 1)"
    using n by (simp_all add: of_nat_diff)
  have b: "unat (slice_bin (?cw - ?nw)) = ?b" "?b < length (sqs t)" "?b < 32"
    using w(1) sbin_bound [of "c - n"] d(5) inv by (simp_all add: sbin_def spans_inv_def)
  have "i + c - 1 = i + (c - 1)" using d(2) by simp
  then have addr: "add_offset ?sp ?nw = ?x" "add_offset ?sp (?cw - 1) = ?lp" unfolding w(2) by (simp_all only: hdr_offsets)
  obtain sg xg lg where pages: "page_at s ?sp = Some sg" "page_at s ?x = Some xg" "page_at s ?lp = Some lg"
    using spans_inv_hdrs [OF inv d(7)] d(2-4) n by (meson add_le_mono le_add1 le_trans less_imp_le_nat nat_add_left_cancel_le diff_le_self)
  have cmp: "?nw + 1 < ?cw \<longleftrightarrow> n + 1 < c"
  proof -
    have "?nw + 1 = of_nat (n + 1)" by simp
    then show ?thesis using n d(5) by (simp only: word_less_nat_alt small_word)
  qed
  have inj: "hdr g j = hdr g k \<longleftrightarrow> j = k" if "j < i + c" "k < i + c" for j k
    using hdr_inject [OF d(1) d(1), of j k] that d(3) by simp
  have dist: "?x \<noteq> ?sp" "?lp \<noteq> ?sp" "?nw + 1 < ?cw \<Longrightarrow> ?lp \<noteq> ?x" using inj n unfolding cmp by auto
  let ?f = "sq_first (sqs t ! ?b)"
  have pop: "hdr g k \<notin> slices_of M {FreeSpan}" if "i \<le> k" "k < i + c" for k
    using slices_disjoint [OF inv m _ that, of "{FreeSpan}"] by simp
  have f: "?f \<noteq> 0 \<Longrightarrow> ?f \<in> dom (page_at s)" "?f \<notin> {?sp, ?x, ?lp}"
  proof -
    show "?f \<noteq> 0 \<Longrightarrow> ?f \<in> dom (page_at s)" using first_in_queue(2) [OF inv b(3)] by blast
    have "?sp \<noteq> 0" "?x \<noteq> 0" "?lp \<noteq> 0" using hdr_nonnull [OF d(1)] d(3) n by simp_all
    moreover have "{?sp, ?x, ?lp} \<inter> slices_of M {FreeSpan} = {}" using pop n by simp
    ultimately show "?f \<notin> {?sp, ?x, ?lp}" using first_in_queue(1) [OF inv b(3)] by (cases "?f = 0") auto
  qed
  let ?M1 = "M((g, i) \<mapsto> (n, PoppedSpan), (g, i + n) \<mapsto> (c - n, PoppedSpan))"
  let ?cq = "(sqs t ! ?b)\<lparr>sq_first := ?x\<rparr>"
  have cast: "ucast (of_nat (c - n) :: usize) = (of_nat (c - n) :: u32)" "ucast (of_nat (c - n - 1) :: usize) = (of_nat (c - n - 1) :: u32)"
    by (rule small_cast; use d(5) in simp)+
  define xg' where "xg' = xg\<lparr>inner := (inner xg)\<lparr>xblock_size := 0\<rparr>, pcount := ucast (?cw - ?nw), poffset := 0\<rparr>"
  define lg' where "lg' = lg\<lparr>inner := (inner lg)\<lparr>xblock_size := 0\<rparr>, pcount := ucast (?cw - ?nw),
      poffset := ucast (?cw - ?nw - 1) * ucast SIZEOF_PAGE_HEADER\<rparr>"
  have xg': "pcount xg' = of_nat (c - n)" "poffset xg' = 0" "xblock_size (inner xg') = 0"
    unfolding xg'_def w cast by simp_all
  have lg': "poffset lg' = of_nat (c - n - 1) * 80" unfolding lg'_def w(3) cast by (simp add: layout_consts)
  define P2 where "P2 = (page_at s)(?sp \<mapsto> sg\<lparr>pcount := ucast ?nw\<rparr>)"
  define P3 where "P3 = (if n + 1 < c then P2(?lp \<mapsto> lg') else P2)"
  let ?T = "(sqs t)[?b := if ?f = 0 then ?cq\<lparr>sq_last := ?x\<rparr> else ?cq]"
  note code = slice_split_writes [OF t b(1,2) addr pages dist refl f, folded xg'_def lg'_def P2_def, unfolded cmp, folded P3_def]
  have M1: "?M1 (g, i) = Some (n, PoppedSpan)" "?M1 (g, i + n) = Some (c - n, PoppedSpan)" using n by auto
  have inv1: "spans_inv (page_at s) (sqs t) G ?M1 L" by (rule spans_inv_split [OF inv m n])
  have i2: "spans_inv P2 (sqs t) G ?M1 L" unfolding P2_def by (rule spans_inv_write_popped [OF inv1 M1(1)]) (use n in auto)
  have "spans_inv (P2(?lp \<mapsto> lg')) (sqs t) G ?M1 L" by (rule spans_inv_write_popped [OF i2 M1(2)]) (use n in auto)
  then have inv2: "spans_inv P3 (sqs t) G ?M1 L" using i2 by (simp add: P3_def)
  have q: "?f = hd_or 0 (L ! ?b)" "sq_last (sqs t ! ?b) = last_or 0 (L ! ?b)" "length (sqs t) = 32" "dseg (page_at s) 0 (L ! ?b) 0"
    using inv b(3) unfolding spans_inv_def by blast+
  have inv3: "spans_inv (link_front P3 ?x xg' (hd_or 0 (L ! ?b))) ?T G (?M1((g, i + n) \<mapsto> (c - n, FreeSpan))) (L[?b := ?x # L ! ?b])"
  proof (rule spans_inv_push [OF inv2 M1(2) xg'])
    show "\<exists>lg. P3 (hdr g (i + n + (c - n) - 1)) = Some lg \<and> poffset lg = of_nat (c - n - 1) * 80" if "1 < c - n"
    proof -
      have "n + 1 < c" using that by simp
      then have "P3 ?lp = Some lg'" by (simp add: P3_def)
      moreover have "i + n + (c - n) - 1 = i + c - 1" using n by simp
      ultimately show ?thesis using lg' by (simp only:) blast
    qed
    show "sq_last (?T ! ?b) = last_or ?x (L ! ?b)"
      using q b(3) hd_or_zero [OF q(4)] by (cases "L ! ?b = []") (simp_all add: last_or_def)
  qed (use q b(3) in simp_all)
  have "?M1((g, i + n) \<mapsto> (c - n, FreeSpan)) = M((g, i) \<mapsto> (n, PoppedSpan), (g, i + n) \<mapsto> (c - n, FreeSpan))" by simp
  moreover have "link_front P3 ?x xg' ?f y = page_at s y" if y: "y \<notin> slices_of M {FreeSpan, PoppedSpan}" for y
  proof -
    have "y \<noteq> ?x" "y \<noteq> ?sp" "y \<noteq> ?lp" using y slices_popped_split [of M g i c, OF m] n by auto
    moreover have "?f \<noteq> 0 \<Longrightarrow> y \<noteq> ?f" using y first_in_queue(1) [OF inv b(3)] slices_mono [of "{FreeSpan}" "{FreeSpan, PoppedSpan}" M] by auto
    ultimately show ?thesis by (auto simp: link_front_def P3_def P2_def)
  qed
  ultimately show ?thesis using that [OF code] inv3 q(1) by simp
qed


end
