(* ===== verification/Span_Ops.thy ===== *)
theory Span_Ops
  imports Spans
begin

text \<open>
  The operations of \<^verbatim>\<open>segment.rs\<close> as changes of the map of spans: committing and decommitting
  the slices of a span, finding a span and allocating it.
\<close>

section \<open>Outcomes, frames and the invariant of the state\<close>

text \<open>An operation panics because the kernel refused, or returns a result that satisfies \<open>Q\<close>.\<close>

definition outcome :: "Env \<Rightarrow> 'a res \<Rightarrow> ('a \<Rightarrow> bool) \<Rightarrow> bool" where
  "outcome env r Q \<longleftrightarrow> r = Inl Panic \<and> \<not> mprotect_granted env \<or> (\<exists>a. r = Inr a \<and> Q a)"

lemma outcome_Inr [simp]: "outcome env (Inr a) Q \<longleftrightarrow> Q a"
  by (simp add: outcome_def)

lemma outcome_bind:
  assumes "outcome env r Q" "\<And>a. Q a \<Longrightarrow> outcome env (f a) R"
  shows "outcome env (bindR r f) R"
  using assms(1) unfolding outcome_def
proof
  assume "\<exists>a. r = Inr a \<and> Q a"
  then obtain a where "r = Inr a" "Q a" by blast
  then show "bindR r f = Inl Panic \<and> \<not> mprotect_granted env \<or> (\<exists>a. bindR r f = Inr a \<and> R a)"
    using assms(2) [of a] by (simp add: outcome_def)
qed simp

lemma outcome_mono: "outcome env r Q \<Longrightarrow> (\<And>a. Q a \<Longrightarrow> R a) \<Longrightarrow> outcome env r R"
  unfolding outcome_def by blast

definition in_segment :: "usize \<Rightarrow> usize \<Rightarrow> bool" where
  "in_segment g x \<longleftrightarrow> unat g \<le> unat x \<and> unat x < unat g + 33554432"

text \<open>The slices of a segment that are committed and not waiting to be decommitted.\<close>

definition committed :: "st \<Rightarrow> usize \<Rightarrow> nat set" where
  "committed s g = (case segment_at s g of None \<Rightarrow> {}
     | Some sg \<Rightarrow> view (commit_mask (main sg)) - view (decommit_mask (main sg)))"

text \<open>
  What an operation on segment \<open>g\<close> leaves alone: everything but the page headers in \<open>A\<close>, the
  span queues of \<open>tld\<close>, the masks and the count of used pages of \<open>g\<close>, and the protection of its
  bytes; and it commits or decommits only slices with a header in \<open>A\<close>.
\<close>

definition span_frame :: "usize \<Rightarrow> usize \<Rightarrow> usize set \<Rightarrow> st \<Rightarrow> st \<Rightarrow> bool" where
  "span_frame tld g A s s' \<longleftrightarrow> heap_at s' = heap_at s \<and> node_at s' = node_at s \<and> thread_count s' = thread_count s
     \<and> aligned_base s' = aligned_base s
     \<and> (\<forall>q. q \<noteq> g \<longrightarrow> segment_at s' q = segment_at s q) \<and> (\<forall>q. q \<noteq> tld \<longrightarrow> tld_at s' q = tld_at s q)
     \<and> (\<forall>x. x \<notin> A \<longrightarrow> page_at s' x = page_at s x) \<and> (\<forall>x. \<not> in_segment g x \<longrightarrow> os_prot s' x = os_prot s x)
     \<and> (\<forall>t. tld_at s tld = Some t \<longrightarrow> (\<exists>T. tld_at s' tld = Some (t\<lparr>segments := (segments t)\<lparr>span_queue_headers := T\<rparr>\<rparr>)))
     \<and> (\<forall>sg. segment_at s g = Some sg \<longrightarrow> (\<exists>e dm cm u. segment_at s' g = Some (sg\<lparr>
          main := (main sg)\<lparr>decommit_expire := e, decommit_mask := dm, commit_mask := cm\<rparr>,
          main2 := (main2 sg)\<lparr>seg_used := u\<rparr>\<rparr>)))
     \<and> (\<forall>k<512. hdr g k \<notin> A \<longrightarrow> (k \<in> committed s' g \<longleftrightarrow> k \<in> committed s g))"

lemma span_frame_refl: "span_frame tld g A s s"
  unfolding span_frame_def
proof (intro conjI allI impI)
  fix t assume "tld_at s tld = Some t"
  then show "\<exists>T. tld_at s tld = Some (t\<lparr>segments := (segments t)\<lparr>span_queue_headers := T\<rparr>\<rparr>)" by (intro exI [of _ "sqs t"]) simp
next
  fix sg assume "segment_at s g = Some sg"
  then show "\<exists>e dm cm u. segment_at s g = Some (sg\<lparr>main := (main sg)\<lparr>decommit_expire := e, decommit_mask := dm, commit_mask := cm\<rparr>,
          main2 := (main2 sg)\<lparr>seg_used := u\<rparr>\<rparr>)"
    by (intro exI [of _ "decommit_expire (main sg)"] exI [of _ "decommit_mask (main sg)"] exI [of _ "commit_mask (main sg)"]
        exI [of _ "seg_used (main2 sg)"]) simp
qed simp_all

lemma span_frame_trans:
  assumes "span_frame tld g A s s1" "span_frame tld g A s1 s2"
  shows "span_frame tld g A s s2"
  unfolding span_frame_def
proof (intro conjI allI impI)
  fix t assume "tld_at s tld = Some t"
  then obtain T where "tld_at s1 tld = Some (t\<lparr>segments := (segments t)\<lparr>span_queue_headers := T\<rparr>\<rparr>)"
    using assms(1) unfolding span_frame_def by blast
  then obtain T' where "tld_at s2 tld = Some ((t\<lparr>segments := (segments t)\<lparr>span_queue_headers := T\<rparr>\<rparr>)
      \<lparr>segments := (segments (t\<lparr>segments := (segments t)\<lparr>span_queue_headers := T\<rparr>\<rparr>))\<lparr>span_queue_headers := T'\<rparr>\<rparr>)"
    using assms(2) unfolding span_frame_def by blast
  then show "\<exists>T. tld_at s2 tld = Some (t\<lparr>segments := (segments t)\<lparr>span_queue_headers := T\<rparr>\<rparr>)" by auto
next
  fix sg assume "segment_at s g = Some sg"
  then obtain e dm cm u where s1: "segment_at s1 g = Some (sg\<lparr>main := (main sg)\<lparr>decommit_expire := e, decommit_mask := dm, commit_mask := cm\<rparr>,
          main2 := (main2 sg)\<lparr>seg_used := u\<rparr>\<rparr>)" using assms(1) unfolding span_frame_def by blast
  define sg1 where "sg1 = sg\<lparr>main := (main sg)\<lparr>decommit_expire := e, decommit_mask := dm, commit_mask := cm\<rparr>,
          main2 := (main2 sg)\<lparr>seg_used := u\<rparr>\<rparr>"
  have "segment_at s1 g = Some sg1" using s1 by (simp add: sg1_def)
  then obtain e' dm' cm' u' where "segment_at s2 g = Some (sg1\<lparr>main := (main sg1)\<lparr>decommit_expire := e', decommit_mask := dm', commit_mask := cm'\<rparr>,
          main2 := (main2 sg1)\<lparr>seg_used := u'\<rparr>\<rparr>)" using assms(2) unfolding span_frame_def by blast
  then have "segment_at s2 g = Some (sg\<lparr>main := (main sg)\<lparr>decommit_expire := e', decommit_mask := dm', commit_mask := cm'\<rparr>,
          main2 := (main2 sg)\<lparr>seg_used := u'\<rparr>\<rparr>)" by (simp add: sg1_def)
  then show "\<exists>e dm cm u. segment_at s2 g = Some (sg\<lparr>main := (main sg)\<lparr>decommit_expire := e, decommit_mask := dm, commit_mask := cm\<rparr>,
          main2 := (main2 sg)\<lparr>seg_used := u\<rparr>\<rparr>)" by blast
qed (use assms in \<open>simp_all add: span_frame_def\<close>)

lemma span_frame_mono: "span_frame tld g A s s' \<Longrightarrow> A \<subseteq> B \<Longrightarrow> span_frame tld g B s s'"
  unfolding span_frame_def by blast

text \<open>Changes of page headers and span queues only.\<close>

lemma span_frame_queues:
  assumes "tld_at s tld = Some t" "\<And>x. x \<notin> A \<Longrightarrow> P x = page_at s x"
  shows "span_frame tld g A s (set_queues s tld t P T)"
proof -
  have "span_frame tld g A s s" by (rule span_frame_refl)
  then show ?thesis using assms unfolding span_frame_def by (auto simp: committed_def)
qed

lemma span_frame_pages:
  assumes "\<And>x. x \<notin> A \<Longrightarrow> P x = page_at s x"
  shows "span_frame tld g A s (s\<lparr>page_at := P\<rparr>)"
proof -
  have "span_frame tld g A s s" by (rule span_frame_refl)
  then show ?thesis using assms unfolding span_frame_def by (simp add: committed_def)
qed

lemma span_frame_used:
  assumes "segment_at s g = Some sg" "\<And>x. x \<notin> A \<Longrightarrow> P x = page_at s x"
  shows "span_frame tld g A s (s\<lparr>page_at := P, segment_at := (segment_at s)(g \<mapsto> sg\<lparr>main2 := (main2 sg)\<lparr>seg_used := u\<rparr>\<rparr>)\<rparr>)"
proof -
  have "\<exists>e dm cm v. sg\<lparr>main2 := (main2 sg)\<lparr>seg_used := u\<rparr>\<rparr> = sg\<lparr>main := (main sg)\<lparr>decommit_expire := e, decommit_mask := dm, commit_mask := cm\<rparr>,
          main2 := (main2 sg)\<lparr>seg_used := v\<rparr>\<rparr>"
    by (intro exI [of _ "decommit_expire (main sg)"] exI [of _ "decommit_mask (main sg)"] exI [of _ "commit_mask (main sg)"] exI [of _ u]) simp
  then show ?thesis using span_frame_refl [of tld g A s] assms unfolding span_frame_def by (simp add: committed_def)
qed

text \<open>The whole invariant: spans and queues, and commit masks that tell the truth.\<close>

definition seg_ok :: "st \<Rightarrow> usize \<Rightarrow> usize set \<Rightarrow> spans \<Rightarrow> bool" where
  "seg_ok s tld G M \<longleftrightarrow> (\<exists>t L. tld_at s tld = Some t \<and> spans_inv (page_at s) (sqs t) G M L) \<and> (\<forall>g \<in> G. commit_ok s g)"

lemma chunk_bytes_in_segment: "K \<subseteq> {..<512} \<Longrightarrow> x \<in> chunk_bytes g K \<Longrightarrow> in_segment g x"
  unfolding chunk_bytes_def in_segment_def by fastforce

lemma segments_disjoint:
  assumes "seg_addr_ok g" "seg_addr_ok g'" "in_segment g x" "in_segment g' x"
  shows "g = g'"
proof -
  obtain a b where ab: "unat g = 33554432 * a" "unat g' = 33554432 * b"
    using assms(1,2) unfolding seg_addr_ok_def by blast
  have "unat x div 33554432 = a" "unat x div 33554432 = b"
    using assms(3,4) ab by (auto simp: in_segment_def intro!: div_eqI)
  then show ?thesis using ab by (simp add: word_unat_eq_iff)
qed

text \<open>Masks and bytes of other segments are not touched.\<close>

lemma commit_ok_other:
  assumes "commit_ok s g'" "g' \<noteq> g" "seg_addr_ok g" "segment_at s' g' = segment_at s g'"
    "\<And>x. \<not> in_segment g x \<Longrightarrow> os_prot s' x = os_prot s x"
  shows "commit_ok s' g'"
proof -
  obtain sg where sg: "segment_at s g' = Some sg" "cm_wf (commit_mask (main sg))" "cm_wf (decommit_mask (main sg))"
    "view (decommit_mask (main sg)) \<subseteq> view (commit_mask (main sg))"
    "\<And>x. x \<in> chunk_bytes g' (view (commit_mask (main sg))) \<Longrightarrow> os_prot s x = Some True" "seg_addr_ok g'"
    using assms(1) unfolding commit_ok_def by blast
  have "os_prot s' x = Some True" if "x \<in> chunk_bytes g' (view (commit_mask (main sg)))" for x
  proof -
    have "\<not> in_segment g x"
      using sg(6) assms(2,3) segments_disjoint [of g g' x] chunk_bytes_in_segment [OF view_bound that] by blast
    then show ?thesis using assms(5) sg(5) [OF that] by simp
  qed
  then show ?thesis using sg assms(4) unfolding commit_ok_def by auto
qed

lemma commit_ok_cong:
  "segment_at s' = segment_at s \<Longrightarrow> os_prot s' = os_prot s \<Longrightarrow> commit_ok s' g = commit_ok s g"
  by (simp add: commit_ok_def)

lemma commit_ok_main:
  assumes "commit_ok s g" "segment_at s g = Some sg" "segment_at s' = (segment_at s)(g \<mapsto> sg')" "main sg' = main sg" "os_prot s' = os_prot s"
  shows "commit_ok s' g"
  using assms unfolding commit_ok_def by simp

text \<open>What a change of commitment of segment \<open>g\<close> means for the whole state.\<close>

lemma commit_post_frame:
  assumes post: "commit_post g s C D P s'" and ok: "\<And>g. g \<in> G \<Longrightarrow> commit_ok s g" and g: "g \<in> G" "commit_ok s' g"
    and P: "\<And>x. \<not> in_segment g x \<Longrightarrow> P x = os_prot s x" and sg: "segment_at s g = Some sg"
    and A: "\<forall>k<512. hdr g k \<notin> A \<longrightarrow> (k \<in> C - D \<longleftrightarrow> k \<in> view (commit_mask (main sg)) - view (decommit_mask (main sg)))"
  shows "span_frame tld g A s s'" "page_at s' = page_at s" "tld_at s' = tld_at s" "\<forall>g \<in> G. commit_ok s' g"
    "\<exists>sg'. segment_at s' g = Some sg' \<and> main2 sg' = main2 sg \<and> thread_id sg' = thread_id sg \<and> allow_decommit (main sg') = allow_decommit (main sg)"
    "committed s' g = C - D"
proof -
  obtain sg1 cm dm e n where s': "segment_at s g = Some sg1" "s' = set_masks g e dm cm P n s sg1" "view cm = C" "view dm = D"
    using post by (rule commit_postE)
  have [simp]: "sg1 = sg" using s'(1) sg by simp
  show com: "committed s' g = C - D" using s' by (simp add: committed_def)
  show "page_at s' = page_at s" "tld_at s' = tld_at s"
    "\<exists>sg'. segment_at s' g = Some sg' \<and> main2 sg' = main2 sg \<and> thread_id sg' = thread_id sg \<and> allow_decommit (main sg') = allow_decommit (main sg)"
    using s'(2) by simp_all
  have "\<exists>e' dm' cm' u. segment_at s' g = Some (sg\<lparr>main := (main sg)\<lparr>decommit_expire := e', decommit_mask := dm', commit_mask := cm'\<rparr>,
          main2 := (main2 sg)\<lparr>seg_used := u\<rparr>\<rparr>)"
    using s'(2) by (intro exI [of _ e] exI [of _ dm] exI [of _ cm] exI [of _ "seg_used (main2 sg)"]) simp
  moreover have "k \<in> committed s' g \<longleftrightarrow> k \<in> committed s g" if "k < 512" "hdr g k \<notin> A" for k
    using A that com sg by (simp add: committed_def)
  ultimately show "span_frame tld g A s s'" using span_frame_refl [of tld g A s] s'(1,2) P unfolding span_frame_def by simp
  show "\<forall>g \<in> G. commit_ok s' g"
  proof
    fix g' assume g': "g' \<in> G"
    show "commit_ok s' g'"
    proof (cases "g' = g")
      case False
      moreover have "seg_addr_ok g" using ok [OF g(1)] by (simp add: commit_ok_def)
      ultimately show ?thesis using ok [OF g'] commit_ok_other [of s g' g s'] s'(2) P by simp
    qed (use g(2) in simp)
  qed
qed

lemma span_bytes_ok:
  assumes "seg_addr_ok g" "i + c \<le> 512" "0 < c" "unat p = unat g + 65536 * i"
  shows "range_ok g p (of_nat c * SLICE_SIZE)" "unat (of_nat c * SLICE_SIZE) = 65536 * c"
    "range_chunks cons g p (of_nat c * SLICE_SIZE) = {i..<i + c}"
proof -
  show sz: "unat (of_nat c * SLICE_SIZE) = 65536 * c" using assms(2) by (simp add: layout_consts unat_mult_small)
  show "range_ok g p (of_nat c * SLICE_SIZE)"
    using assms sz by (auto simp: range_ok_def word_le_nat_alt layout_consts word_unat_eq_iff)
  show "range_chunks cons g p (of_nat c * SLICE_SIZE) = {i..<i + c}" by (rule range_whole_chunks [OF assms(4) sz assms(2)])
qed

text \<open>Committing the slices of a span.\<close>

lemma ensure_committed_span:
  assumes ok: "\<And>g. g \<in> G \<Longrightarrow> commit_ok s g" and g: "g \<in> G" "segment_at s g = Some sg" and i: "i + c \<le> 512" "0 < c"
    and A: "\<And>k. i \<le> k \<Longrightarrow> k < i + c \<Longrightarrow> hdr g k \<in> A"
  shows "outcome env (segment_ensure_committed env g (segment_page_start_from_slice g (hdr g i) 0) (of_nat c * SLICE_SIZE) s)
    (\<lambda>(suc, s'). suc \<and> span_frame tld g A s s' \<and> page_at s' = page_at s \<and> tld_at s' = tld_at s \<and> (\<forall>g \<in> G. commit_ok s' g)
      \<and> (\<exists>sg'. segment_at s' g = Some sg' \<and> main2 sg' = main2 sg \<and> thread_id sg' = thread_id sg)
      \<and> (\<forall>x. unat g + 65536 * i \<le> unat x \<and> unat x < unat g + 65536 * (i + c) \<longrightarrow> os_prot s' x = Some True)
      \<and> {i..<i + c} \<subseteq> committed s' g)"
proof -
  let ?p = "segment_page_start_from_slice g (hdr g i) 0" and ?sz = "of_nat c * SLICE_SIZE"
  have a: "seg_addr_ok g" using ok [OF g(1)] by (simp add: commit_ok_def)
  have p: "unat ?p = unat g + 65536 * i" using hdr_start [OF a, of i] i by simp
  note r = span_bytes_ok [OF a i p]
  note eff = ensure_committed_effect [OF ok [OF g(1)] r(1) g(2), of env, unfolded r(3)]
  have K: "{i..<i + c} \<subseteq> {..<512}" using i by auto
  have fin: "span_frame tld g A s s' \<and> page_at s' = page_at s \<and> tld_at s' = tld_at s \<and> (\<forall>g \<in> G. commit_ok s' g)
      \<and> (\<exists>sg'. segment_at s' g = Some sg' \<and> main2 sg' = main2 sg \<and> thread_id sg' = thread_id sg)
      \<and> (\<forall>x. unat g + 65536 * i \<le> unat x \<and> unat x < unat g + 65536 * (i + c) \<longrightarrow> os_prot s' x = Some True)
      \<and> {i..<i + c} \<subseteq> committed s' g"
    if s': "commit_ok s' g" "commit_post g s (view (commit_mask (main sg)) \<union> {i..<i + c}) (view (decommit_mask (main sg)) - {i..<i + c}) (os_prot s') s'"
      "\<And>x. in_region ?p ?sz x \<and> unat x < unat g + 33554432 \<longrightarrow> os_prot s' x = Some True"
      "\<And>x. x \<notin> chunk_bytes g {i..<i + c} \<longrightarrow> os_prot s' x = os_prot s x" for s'
  proof -
    have CD: "\<forall>k<512. hdr g k \<notin> A \<longrightarrow> (k \<in> view (commit_mask (main sg)) \<union> {i..<i + c} - (view (decommit_mask (main sg)) - {i..<i + c})
        \<longleftrightarrow> k \<in> view (commit_mask (main sg)) - view (decommit_mask (main sg)))"
      using A by auto
    have P: "\<not> in_segment g x \<Longrightarrow> os_prot s' x = os_prot s x" for x
      using s'(4) chunk_bytes_in_segment [OF K] by blast
    have "os_prot s' x = Some True" if "unat g + 65536 * i \<le> unat x \<and> unat x < unat g + 65536 * (i + c)" for x
      using that s'(3) [of x] p r(2) i by (auto simp: in_region_def)
    moreover note f = commit_post_frame [OF s'(2) ok g(1) s'(1) P g(2) CD]
    ultimately show ?thesis using f(1) [where tld = tld] f(2-6) by auto
  qed
  show ?thesis
  proof (cases "segment_ensure_committed env g ?p ?sz s")
    case (Inl e)
    then show ?thesis using eff by (simp add: outcome_def)
  next
    case (Inr a)
    then obtain s' where s': "segment_ensure_committed env g ?p ?sz s = Inr (True, s')" "commit_ok s' g"
      "commit_post g s (view (commit_mask (main sg)) \<union> {i..<i + c}) (view (decommit_mask (main sg)) - {i..<i + c}) (os_prot s') s'"
      "\<And>x. in_region ?p ?sz x \<and> unat x < unat g + 33554432 \<longrightarrow> os_prot s' x = Some True"
      "\<And>x. x \<notin> chunk_bytes g {i..<i + c} \<longrightarrow> os_prot s' x = os_prot s x"
      using eff by auto
    then show ?thesis using fin [OF s'(2-5)] by simp
  qed
qed

text \<open>Offering the slices of a span back.\<close>

lemma perhaps_decommit_span:
  assumes ok: "\<And>g. g \<in> G \<Longrightarrow> commit_ok s g" and g: "g \<in> G" "segment_at s g = Some sg" and i: "i + c \<le> 512" "0 < c"
    and A: "\<And>k. i \<le> k \<Longrightarrow> k < i + c \<Longrightarrow> hdr g k \<in> A"
  shows "outcome env (segment_perhaps_decommit env g (slice_start (hdr g i)) (of_nat c * SLICE_SIZE) s)
    (\<lambda>s'. span_frame tld g A s s' \<and> page_at s' = page_at s \<and> tld_at s' = tld_at s \<and> (\<forall>g \<in> G. commit_ok s' g)
      \<and> (\<exists>sg'. segment_at s' g = Some sg' \<and> main2 sg' = main2 sg \<and> thread_id sg' = thread_id sg))"
proof -
  let ?p = "slice_start (hdr g i)" and ?sz = "of_nat c * SLICE_SIZE"
  have a: "seg_addr_ok g" using ok [OF g(1)] by (simp add: commit_ok_def)
  have p: "unat ?p = unat g + 65536 * i" using hdr_back(3) [OF a, of i] i by simp
  note r = span_bytes_ok [OF a i p]
  note eff = perhaps_decommit_effect [OF ok [OF g(1)] r(1) g(2), of env]
  have fin: "span_frame tld g A s s' \<and> page_at s' = page_at s \<and> tld_at s' = tld_at s \<and> (\<forall>g \<in> G. commit_ok s' g)
      \<and> (\<exists>sg'. segment_at s' g = Some sg' \<and> main2 sg' = main2 sg \<and> thread_id sg' = thread_id sg)"
    if s': "commit_ok s' g" "commit_post g s C D (os_prot s') s'"
      and CD: "\<forall>k<512. hdr g k \<notin> A \<longrightarrow> (k \<in> C - D \<longleftrightarrow> k \<in> view (commit_mask (main sg)) - view (decommit_mask (main sg)))"
      and pr:
      "\<forall>x. \<not> in_region ?p ?sz x \<and> x \<notin> chunk_bytes g (view (decommit_mask (main sg))) \<longrightarrow> os_prot s' x = os_prot s x" for s' C D
  proof -
    have P: "os_prot s' x = os_prot s x" if x: "\<not> in_segment g x" for x
    proof -
      have "\<not> in_region ?p ?sz x" using x p r(2) i by (auto simp: in_region_def in_segment_def)
      moreover have "x \<notin> chunk_bytes g (view (decommit_mask (main sg)))" using x chunk_bytes_in_segment [OF view_bound] by blast
      ultimately show ?thesis using pr by blast
    qed
    note f = commit_post_frame [OF s'(2) ok g(1) s'(1) P g(2) CD]
    show ?thesis using f(1) [where tld = tld] f(2-5) by auto
  qed
  have outside: "k \<notin> range_chunks True g ?p ?sz" if "hdr g k \<notin> A" for k using A [of k] that unfolding r(3) by auto
  have post: "commit_post g s C D (os_prot s') s'" if "commit_post g s C D P s'" for C D P s'
    using that commit_post_prot [OF that] by simp
  show ?thesis using eff unfolding outcome_def
  proof
    assume "\<exists>s'. segment_perhaps_decommit env g ?p ?sz s = Inr s' \<and> commit_ok s' g \<and>
         (commit_post g s (view (commit_mask (main sg))) (view (decommit_mask (main sg))) (os_prot s) s' \<or>
          commit_post g s (view (commit_mask (main sg)))
           (view (decommit_mask (main sg)) \<union> view (commit_mask (main sg)) \<inter> range_chunks True g ?p ?sz) (os_prot s) s' \<or>
          commit_post g s (view (commit_mask (main sg)) - (view (decommit_mask (main sg)) \<union> range_chunks True g ?p ?sz)) {}
           (os_prot s') s') \<and>
         (\<forall>x. \<not> in_region ?p ?sz x \<and> x \<notin> chunk_bytes g (view (decommit_mask (main sg))) \<longrightarrow> os_prot s' x = os_prot s x)"
    then obtain s' where s': "segment_perhaps_decommit env g ?p ?sz s = Inr s'" "commit_ok s' g"
      "commit_post g s (view (commit_mask (main sg))) (view (decommit_mask (main sg))) (os_prot s) s' \<or>
          commit_post g s (view (commit_mask (main sg)))
           (view (decommit_mask (main sg)) \<union> view (commit_mask (main sg)) \<inter> range_chunks True g ?p ?sz) (os_prot s) s' \<or>
          commit_post g s (view (commit_mask (main sg)) - (view (decommit_mask (main sg)) \<union> range_chunks True g ?p ?sz)) {}
           (os_prot s') s'"
      "\<forall>x. \<not> in_region ?p ?sz x \<and> x \<notin> chunk_bytes g (view (decommit_mask (main sg))) \<longrightarrow> os_prot s' x = os_prot s x" by blast
    obtain C D where CD: "commit_post g s C D (os_prot s') s'"
      "\<And>k. k \<notin> range_chunks True g ?p ?sz \<Longrightarrow> k \<in> C - D \<longleftrightarrow> k \<in> view (commit_mask (main sg)) - view (decommit_mask (main sg))"
      using s'(3)
    proof (elim disjE)
      assume c: "commit_post g s (view (commit_mask (main sg))) (view (decommit_mask (main sg))) (os_prot s) s'"
      show thesis by (rule that [OF post [OF c]]) simp
    next
      assume c: "commit_post g s (view (commit_mask (main sg)))
           (view (decommit_mask (main sg)) \<union> view (commit_mask (main sg)) \<inter> range_chunks True g ?p ?sz) (os_prot s) s'"
      show thesis by (rule that [OF post [OF c]]) simp
    next
      assume c: "commit_post g s (view (commit_mask (main sg)) - (view (decommit_mask (main sg)) \<union> range_chunks True g ?p ?sz)) {} (os_prot s') s'"
      show thesis by (rule that [OF c]) simp
    qed
    have "span_frame tld g A s s' \<and> page_at s' = page_at s \<and> tld_at s' = tld_at s \<and> (\<forall>g \<in> G. commit_ok s' g)
      \<and> (\<exists>sg'. segment_at s' g = Some sg' \<and> main2 sg' = main2 sg \<and> thread_id sg' = thread_id sg)"
      by (rule fin [OF s'(2) CD(1) _ s'(4)]) (use CD(2) outside in simp)
    then show "segment_perhaps_decommit env g ?p ?sz s = Inl Panic \<and> \<not> mprotect_granted env \<or> (\<exists>a. segment_perhaps_decommit env g ?p ?sz s = Inr a \<and>
       span_frame tld g A s a \<and> page_at a = page_at s \<and> tld_at a = tld_at s \<and> (\<forall>g\<in>G. commit_ok a g) \<and>
            (\<exists>sg'. segment_at a g = Some sg' \<and> main2 sg' = main2 sg \<and> thread_id sg' = thread_id sg))"
      using s'(1) by simp
  qed blast
qed

text \<open>The headers of a span that becomes used.\<close>

lemma offset_loop_ok:
  assumes "seg_addr_ok g" "i + c \<le> 512" "1 \<le> j" "j \<le> c" "\<And>k. 1 \<le> k \<Longrightarrow> k < c \<Longrightarrow> page_at s (hdr g (i + k)) \<noteq> None"
  shows "\<exists>P. offset_loop (hdr g i) j (c - 1) s = Inr (s\<lparr>page_at := P\<rparr>)
    \<and> (\<forall>k. j \<le> k \<and> k < c \<longrightarrow> (\<exists>pg. P (hdr g (i + k)) = Some pg \<and> poffset pg = of_nat k * 80))
    \<and> (\<forall>x. x \<notin> {hdr g (i + k) | k. j \<le> k \<and> k < c} \<longrightarrow> P x = page_at s x)"
  using assms
proof (induction "c - j" arbitrary: j s)
  case 0
  then have "\<not> j \<le> c - 1" "j = c" by simp_all
  then show ?case by (intro exI [of _ "page_at s"]) (auto simp: offset_loop.simps)
next
  case (Suc n)
  then have j: "j < c" "j \<le> c - 1" by simp_all
  obtain pg where pg: "page_at s (hdr g (i + j)) = Some pg" using Suc.prems(5) [of j] Suc.prems(3) j by auto
  let ?P = "(page_at s)(hdr g (i + j) \<mapsto> pg\<lparr>poffset := of_nat j * 80\<rparr>)"
  let ?s = "s\<lparr>page_at := ?P\<rparr>"
  have step: "offset_loop (hdr g i) j (c - 1) s = offset_loop (hdr g i) (j + 1) (c - 1) ?s"
    using j pg by (simp add: offset_loop.simps [of _ j] hdr_offsets upd_page_eq layout_consts)
  have "\<exists>P. offset_loop (hdr g i) (j + 1) (c - 1) ?s = Inr (?s\<lparr>page_at := P\<rparr>)
    \<and> (\<forall>k. j + 1 \<le> k \<and> k < c \<longrightarrow> (\<exists>pg. P (hdr g (i + k)) = Some pg \<and> poffset pg = of_nat k * 80))
    \<and> (\<forall>x. x \<notin> {hdr g (i + k) | k. j + 1 \<le> k \<and> k < c} \<longrightarrow> P x = page_at ?s x)"
    by (rule Suc.hyps(1)) (use Suc j in auto)
  then obtain P where P: "offset_loop (hdr g i) (j + 1) (c - 1) ?s = Inr (s\<lparr>page_at := P\<rparr>)"
    "\<And>k. j + 1 \<le> k \<and> k < c \<Longrightarrow> \<exists>pg. P (hdr g (i + k)) = Some pg \<and> poffset pg = of_nat k * 80"
    "\<And>x. x \<notin> {hdr g (i + k) | k. j + 1 \<le> k \<and> k < c} \<Longrightarrow> P x = ?P x" by auto
  have "\<exists>pg. P (hdr g (i + k)) = Some pg \<and> poffset pg = of_nat k * 80" if k: "j \<le> k" "k < c" for k
  proof (cases "k = j")
    case True
    have "hdr g (i + j) \<noteq> hdr g (i + k)" if "j + 1 \<le> k" "k < c" for k
      using hdr_inject [OF Suc.prems(1) Suc.prems(1), of "i + j" "i + k"] that Suc.prems(2) by simp
    then have "hdr g (i + j) \<notin> {hdr g (i + k) | k. j + 1 \<le> k \<and> k < c}" by blast
    from P(3) [OF this] show ?thesis using True by simp
  next
    case False
    then show ?thesis using P(2) [of k] k by simp
  qed
  moreover have "P x = page_at s x" if x: "x \<notin> {hdr g (i + k) | k. j \<le> k \<and> k < c}" for x
  proof -
    have "x \<noteq> hdr g (i + j)" using x j by blast
    moreover have "x \<notin> {hdr g (i + k) | k. j + 1 \<le> k \<and> k < c}" using x by (auto intro: Suc_leD)
    ultimately show ?thesis using P(3) by simp
  qed
  ultimately show ?case using step P(1) by auto
qed

text \<open>The size a used span is given.\<close>

lemma span_block_size:
  assumes "0 < c" "c \<le> 512"
  defines "bs \<equiv> (of_nat c * SLICE_SIZE :: usize)"
  shows "(if bs \<ge> ucast HUGE_BLOCK_SIZE then HUGE_BLOCK_SIZE else ucast bs) = (of_nat (c * 65536) :: u32)"
    "(of_nat (c * 65536) :: u32) \<noteq> 0"
proof -
  have u: "unat bs = c * 65536" using assms by (simp add: layout_consts unat_mult_small)
  have w: "unat (of_nat (c * 65536) :: u32) = c * 65536" using assms by (intro unat_of_nat_small) simp
  have "\<not> bs \<ge> ucast HUGE_BLOCK_SIZE" using u assms by (simp add: word_le_nat_alt HUGE_BLOCK_SIZE_def)
  moreover have "ucast bs = (of_nat (c * 65536) :: u32)" using u w assms by (simp only: word_unat_eq_iff) (simp add: unat_ucast_small)
  ultimately show "(if bs \<ge> ucast HUGE_BLOCK_SIZE then HUGE_BLOCK_SIZE else ucast bs) = (of_nat (c * 65536) :: u32)" by simp
  show "(of_nat (c * 65536) :: u32) \<noteq> 0" using w assms(1) by (metis mult_is_0 not_gr0 unsigned_0 zero_neq_numeral)
qed

lemma span_hdr_writes:
  assumes a: "seg_addr_ok g" "i + c \<le> 512" "0 < c" and P: "\<And>k. k \<le> 512 \<Longrightarrow> page_at s (hdr g k) \<noteq> None"
  shows "\<exists>P. bindR (upd_page s (hdr g i) (\<lambda>g. g\<lparr>poffset := 0\<rparr>)) (\<lambda>s.
        bindR (upd_page s (hdr g i) (\<lambda>g. g\<lparr>pcount := ucast (of_nat c :: usize)\<rparr>)) (\<lambda>s.
        bindR (upd_inner s (hdr g i) (\<lambda>n.
           let bsize = of_nat c * SLICE_SIZE in
           n\<lparr>xblock_size := (if bsize \<ge> ucast HUGE_BLOCK_SIZE then HUGE_BLOCK_SIZE else ucast bsize)\<rparr>)) (\<lambda>s.
        bindR (offset_loop (hdr g i) 1 (unat (of_nat c - 1 :: usize)) s) (\<lambda>s.
        upd_inner s (hdr g i) (\<lambda>n. set_is_committed False (set_is_reset False n)))))) = Inr (s\<lparr>page_at := P\<rparr>)
      \<and> span_hdr P g i c UsedSpan
      \<and> (\<exists>pg. P (hdr g i) = Some pg \<and> pcount pg = of_nat c \<and> xblock_size (inner pg) = of_nat (c * 65536))
      \<and> (\<forall>x. x \<notin> {hdr g (i + k) | k. k < c} \<longrightarrow> P x = page_at s x)
      \<and> (\<forall>x. page_at s x \<noteq> None \<longrightarrow> P x \<noteq> None)"
proof -
  obtain pg where pg: "page_at s (hdr g i) = Some pg" using P [of i] a(2) by auto
  define pg1 where "pg1 = pg\<lparr>pcount := of_nat c, poffset := 0, inner := (inner pg)\<lparr>xblock_size := of_nat (c * 65536)\<rparr>\<rparr>"
  let ?s = "s\<lparr>page_at := (page_at s)(hdr g i \<mapsto> pg1)\<rparr>"
  have c1: "unat (of_nat c - 1 :: usize) = c - 1"
  proof -
    have "(of_nat c - 1 :: usize) = of_nat (c - 1)" using a(3) by (simp add: of_nat_diff)
    then show ?thesis using a(2) by (simp only: small_word)
  qed
  have cast: "ucast (of_nat c :: usize) = (of_nat c :: u32)" using small_cast(2) [of c] a(2) by simp
  have ne: "hdr g (i + k) \<noteq> hdr g i" if "0 < k" "k < c" for k
    using hdr_inject [OF a(1) a(1), of "i + k" i] that a(2) by simp
  have le1: "1 \<le> c" using a(3) by simp
  have pre: "page_at ?s (hdr g (i + k)) \<noteq> None" if k: "1 \<le> k" "k < c" for k
  proof -
    have "i + k \<le> 512" using k a(2) by simp
    then have "page_at s (hdr g (i + k)) \<noteq> None" by (rule P)
    then show ?thesis by simp
  qed
  have "\<exists>P2. offset_loop (hdr g i) 1 (c - 1) ?s = Inr (?s\<lparr>page_at := P2\<rparr>)
    \<and> (\<forall>k. 1 \<le> k \<and> k < c \<longrightarrow> (\<exists>pg. P2 (hdr g (i + k)) = Some pg \<and> poffset pg = of_nat k * 80))
    \<and> (\<forall>x. x \<notin> {hdr g (i + k) | k. 1 \<le> k \<and> k < c} \<longrightarrow> P2 x = page_at ?s x)"
    by (rule offset_loop_ok [OF a(1,2) le_refl le1]) (rule pre)
  then obtain P2 where P2: "offset_loop (hdr g i) 1 (c - 1) ?s = Inr (?s\<lparr>page_at := P2\<rparr>)"
    "\<And>k. 1 \<le> k \<and> k < c \<Longrightarrow> \<exists>pg. P2 (hdr g (i + k)) = Some pg \<and> poffset pg = of_nat k * 80"
    "\<And>x. x \<notin> {hdr g (i + k) | k. 1 \<le> k \<and> k < c} \<Longrightarrow> P2 x = page_at ?s x"
    by blast
  have h: "P2 (hdr g i) = Some pg1"
  proof -
    have "hdr g i \<notin> {hdr g (i + k) | k. 1 \<le> k \<and> k < c}"
    proof
      assume "hdr g i \<in> {hdr g (i + k) | k. 1 \<le> k \<and> k < c}"
      then obtain k where "hdr g i = hdr g (i + k)" "1 \<le> k" "k < c" by blast
      then show False using ne [of k] by simp
    qed
    from P2(3) [OF this] show ?thesis by simp
  qed
  define pg2 where "pg2 = pg1\<lparr>inner := set_is_committed False (set_is_reset False (inner pg1))\<rparr>"
  define P3 where "P3 = P2(hdr g i \<mapsto> pg2)"
  have pg2: "pcount pg2 = of_nat c" "poffset pg2 = 0" "xblock_size (inner pg2) = of_nat (c * 65536)"
    by (simp_all add: pg2_def pg1_def set_is_committed_def set_is_reset_def)
  have "span_hdr P3 g i c UsedSpan"
  proof -
    have "\<exists>pg. P3 (hdr g (i + m)) = Some pg \<and> poffset pg = of_nat m * 80" if "m < c" for m
      using that P2(2) [of m] ne [of m] pg2 by (cases "m = 0") (auto simp: P3_def)
    moreover have "P3 (hdr g i) = Some pg2" by (simp add: P3_def)
    ultimately show ?thesis using pg2 span_block_size(2) [of c] a by (simp add: span_hdr_def del: of_nat_mult)
  qed
  moreover have "P3 x = page_at s x" if x: "x \<notin> {hdr g (i + k) | k. k < c}" for x
  proof -
    have "x \<notin> {hdr g (i + k) | k. 1 \<le> k \<and> k < c}" "x \<noteq> hdr g i" using x a(3) by (auto intro: exI [of _ 0])
    then show ?thesis using P2(3) by (simp add: P3_def)
  qed
  moreover have "P3 x \<noteq> None" if "page_at s x \<noteq> None" for x
    using that P2(2,3) by (cases "x \<in> {hdr g (i + k) | k. 1 \<le> k \<and> k < c}") (auto simp: P3_def)
  moreover have "P3 (hdr g i) = Some pg2" by (simp add: P3_def)
  ultimately show ?thesis
    using pg P2(1) h pg2 span_block_size(1) [of c] a
    by (intro exI [of _ P3]) (simp add: upd_page_eq upd_inner_eq c1 cast pg1_def pg2_def P3_def Let_def page_canon del: of_nat_mult)
qed

lemma bindR_assoc: "bindR (bindR x f) h = bindR x (\<lambda>a. bindR (f a) h)"
  by (cases x) simp_all

text \<open>A popped span becomes used.\<close>

lemma spans_inv_use:
  assumes inv: "spans_inv P T G M L" and m: "M (g, i) = Some (c, PoppedSpan)" and h: "span_hdr P' g i c UsedSpan"
    and P': "\<And>x. x \<notin> {hdr g (i + k) | k. k < c} \<Longrightarrow> P' x = P x" "\<And>x. P x \<noteq> None \<Longrightarrow> P' x \<noteq> None"
  shows "spans_inv P' T G (M((g, i) \<mapsto> (c, UsedSpan))) L"
proof -
  note d = spans_invD [OF inv m]
  have inv1: "spans_inv P' T G M L"
  proof (rule spans_inv_headers [OF inv _ P'(2)])
    fix x assume x: "x \<in> slices_of M {FreeSpan, UsedSpan}"
    have "x \<notin> {hdr g (i + k) | k. k < c}"
    proof
      assume "x \<in> {hdr g (i + k) | k. k < c}"
      then obtain k where "x = hdr g (i + k)" "k < c" by blast
      then show False using x slices_disjoint [OF inv m, of "{FreeSpan, UsedSpan}" "i + k"] by simp
    qed
    then show "P' x = P x" by (rule P'(1))
  qed
  let ?M = "M((g, i) \<mapsto> (c, UsedSpan))"
  show ?thesis
  proof (rule spans_inv_remap [OF inv1])
    show "tiled ?M g'" if "g' \<in> G" for g'
      using that inv tiled_state [OF d(8) m] by (cases "g' = g") (auto simp: spans_inv_def tiled_other)
    show "?M key = Some (c', FreeSpan) \<longleftrightarrow> M key = Some (c', FreeSpan)" for key c' using m by auto
    show "g' \<in> G" if "?M (g', j) = Some (c', u)" for g' j c' u
      using that d(7) spans_invD(7) [OF inv, of g' j c' u] by (auto split: if_splits)
    show "span_hdr P' g' j c' UsedSpan" if "?M (g', j) = Some (c', UsedSpan)" for g' j c'
      using that h spans_invD(6) [OF inv1, of g' j c' UsedSpan] by (auto split: if_splits)
  qed
qed

lemma span_allocate_ok:
  assumes ok: "seg_ok s tld G M" and m: "M (g, i) = Some (c, PoppedSpan)" and sg: "segment_at s g = Some sg"
  shows "outcome env (segment_span_allocate env g (hdr g i) (of_nat c) s)
    (\<lambda>(suc, s'). suc \<and> seg_ok s' tld G (M((g, i) \<mapsto> (c, UsedSpan))) \<and> span_frame tld g (slices_of M {FreeSpan, PoppedSpan}) s s'
      \<and> (\<exists>sg'. segment_at s' g = Some sg' \<and> main2 sg' = (main2 sg)\<lparr>seg_used := seg_used (main2 sg) + 1\<rparr>)
      \<and> (\<exists>pg. page_at s' (hdr g i) = Some pg \<and> pcount pg = of_nat c \<and> xblock_size (inner pg) = of_nat (c * 65536))
      \<and> (\<forall>x. unat g + 65536 * i \<le> unat x \<and> unat x < unat g + 65536 * (i + c) \<longrightarrow> os_prot s' x = Some True)
      \<and> {i..<i + c} \<subseteq> committed s' g)"
proof -
  obtain t L where t: "tld_at s tld = Some t" "spans_inv (page_at s) (sqs t) G M L" "\<And>g. g \<in> G \<Longrightarrow> commit_ok s g"
    using ok unfolding seg_ok_def by blast
  note d = spans_invD [OF t(2) m]
  let ?A = "slices_of M {FreeSpan, PoppedSpan}"
  let ?body = "\<lambda>s. bindR (upd_page s (hdr g i) (\<lambda>g. g\<lparr>poffset := 0\<rparr>)) (\<lambda>s.
        bindR (upd_page s (hdr g i) (\<lambda>g. g\<lparr>pcount := ucast (of_nat c :: usize)\<rparr>)) (\<lambda>s.
        bindR (upd_inner s (hdr g i) (\<lambda>n.
           let bsize = of_nat c * SLICE_SIZE in
           n\<lparr>xblock_size := (if bsize \<ge> ucast HUGE_BLOCK_SIZE then HUGE_BLOCK_SIZE else ucast bsize)\<rparr>)) (\<lambda>s.
        bindR (offset_loop (hdr g i) 1 (unat (of_nat c - 1 :: usize)) s) (\<lambda>s.
        upd_inner s (hdr g i) (\<lambda>n. set_is_committed False (set_is_reset False n))))))"
  let ?p = "segment_page_start_from_slice g (hdr g i) 0"
  have code: "segment_span_allocate env g (hdr g i) (of_nat c) s =
     bindR (segment_ensure_committed env g ?p (of_nat c * SLICE_SIZE) s) (\<lambda>(success, s).
      if \<not> success then Inr (False, s)
      else bindR (?body s) (\<lambda>s. bindR (upd_main2 s g (\<lambda>m. m\<lparr>seg_used := seg_used m + 1\<rparr>)) (\<lambda>s. Inr (True, s))))"
    unfolding segment_span_allocate_def by (simp only: Let_def bindR_assoc)
  let ?R = "\<lambda>s'. seg_ok s' tld G (M((g, i) \<mapsto> (c, UsedSpan))) \<and> span_frame tld g ?A s s'
      \<and> (\<exists>sg'. segment_at s' g = Some sg' \<and> main2 sg' = (main2 sg)\<lparr>seg_used := seg_used (main2 sg) + 1\<rparr>)
      \<and> (\<exists>pg. page_at s' (hdr g i) = Some pg \<and> pcount pg = of_nat c \<and> xblock_size (inner pg) = of_nat (c * 65536))
      \<and> (\<forall>x. unat g + 65536 * i \<le> unat x \<and> unat x < unat g + 65536 * (i + c) \<longrightarrow> os_prot s' x = Some True)
      \<and> {i..<i + c} \<subseteq> committed s' g"
  have rest: "\<exists>s2. bindR (?body s1) (\<lambda>s. bindR (upd_main2 s g (\<lambda>m. m\<lparr>seg_used := seg_used m + 1\<rparr>)) (\<lambda>s. Inr (True, s))) = Inr (True, s2) \<and> ?R s2"
    if f1: "span_frame tld g ?A s s1" and s1: "page_at s1 = page_at s" "tld_at s1 = tld_at s" "\<forall>g\<in>G. commit_ok s1 g"
      and sg1: "segment_at s1 g = Some sg1" "main2 sg1 = main2 sg"
      and rw: "\<forall>x. unat g + 65536 * i \<le> unat x \<and> unat x < unat g + 65536 * (i + c) \<longrightarrow> os_prot s1 x = Some True"
      and com: "{i..<i + c} \<subseteq> committed s1 g" for s1 sg1
  proof -
    have "page_at s1 (hdr g k) \<noteq> None" if "k \<le> 512" for k using spans_inv_hdrs [OF t(2) d(7) that] s1(1) by simp
    from span_hdr_writes [OF d(1,3,2) this]
    obtain P where P: "?body s1 = Inr (s1\<lparr>page_at := P\<rparr>)" "span_hdr P g i c UsedSpan"
      "\<exists>pg. P (hdr g i) = Some pg \<and> pcount pg = of_nat c \<and> xblock_size (inner pg) = of_nat (c * 65536)"
      "\<And>x. x \<notin> {hdr g (i + k) | k. k < c} \<Longrightarrow> P x = page_at s x" "\<And>x. page_at s x \<noteq> None \<Longrightarrow> P x \<noteq> None"
      unfolding s1(1) by blast
    define sg2 where "sg2 = sg1\<lparr>main2 := (main2 sg1)\<lparr>seg_used := seg_used (main2 sg1) + 1\<rparr>\<rparr>"
    define s2 where "s2 = s1\<lparr>page_at := P, segment_at := (segment_at s1)(g \<mapsto> sg2)\<rparr>"
    have main2: "upd_main2 (s1\<lparr>page_at := P\<rparr>) g (\<lambda>m. m\<lparr>seg_used := seg_used m + 1\<rparr>) = Inr s2"
      using sg1(1) by (simp add: upd_main2_eq s2_def sg2_def)
    have inv2: "spans_inv P (sqs t) G (M((g, i) \<mapsto> (c, UsedSpan))) L" by (rule spans_inv_use [OF t(2) m P(2,4,5)])
    have "commit_ok s2 g'" if "g' \<in> G" for g'
      using s1(3) that commit_ok_main [of s1 g sg1 s2 sg2] commit_ok_other [of s1 g' g s2] sg1(1) d(1)
      by (cases "g' = g") (simp_all add: s2_def sg2_def)
    then have ok2: "seg_ok s2 tld G (M((g, i) \<mapsto> (c, UsedSpan)))" using t(1) s1(2) inv2 unfolding seg_ok_def by (auto simp: s2_def)
    have same: "P x = page_at s1 x" if "x \<notin> ?A" for x
    proof -
      have "x \<notin> {hdr g (i + k) | k. k < c}"
        using that slices_popped_split [of M g i c, OF m] by (auto simp: less_imp_le)
      then show ?thesis using P(4) s1(1) by simp
    qed
    have "span_frame tld g ?A s1 s2"
      unfolding s2_def sg2_def by (rule span_frame_used [OF sg1(1) same])
    then have f2: "span_frame tld g ?A s s2" using span_frame_trans [OF f1] by blast
    have "committed s2 g = committed s1 g" using sg1(1) by (simp add: committed_def s2_def sg2_def)
    then show ?thesis unfolding P(1) using ok2 f2 P(3) rw com main2 sg1(2) by (simp add: s2_def sg2_def)
  qed
  have inA: "hdr g k \<in> ?A" if "i \<le> k" "k < i + c" for k using slices_mem [of M g i c PoppedSpan] m that by simp
  show ?thesis unfolding code
  proof (rule outcome_bind [OF ensure_committed_span [OF t(3) d(7) sg d(3,2) inA, where tld = tld]])
    fix a
    assume "case a of (suc, s') \<Rightarrow> suc \<and> span_frame tld g ?A s s' \<and> page_at s' = page_at s \<and> tld_at s' = tld_at s \<and> (\<forall>g \<in> G. commit_ok s' g)
      \<and> (\<exists>sg'. segment_at s' g = Some sg' \<and> main2 sg' = main2 sg \<and> thread_id sg' = thread_id sg)
      \<and> (\<forall>x. unat g + 65536 * i \<le> unat x \<and> unat x < unat g + 65536 * (i + c) \<longrightarrow> os_prot s' x = Some True)
      \<and> {i..<i + c} \<subseteq> committed s' g"
    then obtain s1 sg1 where "a = (True, s1)" "span_frame tld g ?A s s1" "page_at s1 = page_at s" "tld_at s1 = tld_at s" "\<forall>g \<in> G. commit_ok s1 g"
      "segment_at s1 g = Some sg1" "main2 sg1 = main2 sg" "\<forall>x. unat g + 65536 * i \<le> unat x \<and> unat x < unat g + 65536 * (i + c) \<longrightarrow> os_prot s1 x = Some True"
      "{i..<i + c} \<subseteq> committed s1 g"
      by (cases a) auto
    with rest [of s1 sg1] show "outcome env (case a of (success, s) \<Rightarrow>
      if \<not> success then Inr (False, s)
      else bindR (?body s) (\<lambda>s. bindR (upd_main2 s g (\<lambda>m. m\<lparr>seg_used := seg_used m + 1\<rparr>)) (\<lambda>s. Inr (True, s)))) (\<lambda>(suc, s'). suc \<and> ?R s')"
      by (auto simp del: of_nat_mult)
  qed
qed


section \<open>Finding a span\<close>

text \<open>A free span of \<open>c\<close> slices gives its first \<open>n\<close> to a new page; the rest stays free.\<close>

definition carve :: "spans \<Rightarrow> usize \<Rightarrow> nat \<Rightarrow> nat \<Rightarrow> nat \<Rightarrow> spans" where
  "carve M g i c n = (if n < c then M((g, i) \<mapsto> (n, UsedSpan), (g, i + n) \<mapsto> (c - n, FreeSpan)) else M((g, i) \<mapsto> (n, UsedSpan)))"

definition took_span :: "st \<Rightarrow> usize \<Rightarrow> usize set \<Rightarrow> spans \<Rightarrow> usize \<Rightarrow> nat \<Rightarrow> nat \<Rightarrow> nat \<Rightarrow> st \<Rightarrow> bool" where
  "took_span s tld G M g i c n s' \<longleftrightarrow> M (g, i) = Some (c, FreeSpan) \<and> n \<le> c \<and> seg_ok s' tld G (carve M g i c n)
     \<and> span_frame tld g (slices_of M {FreeSpan, PoppedSpan}) s s'
     \<and> (\<forall>sg. segment_at s g = Some sg \<longrightarrow> (\<exists>sg'. segment_at s' g = Some sg' \<and> main2 sg' = (main2 sg)\<lparr>seg_used := seg_used (main2 sg) + 1\<rparr>))
     \<and> (\<exists>pg. page_at s' (hdr g i) = Some pg \<and> pcount pg = of_nat n \<and> xblock_size (inner pg) = of_nat (n * 65536))
     \<and> (\<forall>x. unat g + 65536 * i \<le> unat x \<and> unat x < unat g + 65536 * (i + n) \<longrightarrow> os_prot s' x = Some True)
     \<and> {i..<i + n} \<subseteq> committed s' g"

lemma seg_ok_queues:
  assumes "spans_inv P T G M L" "\<And>g. g \<in> G \<Longrightarrow> commit_ok s g"
  shows "seg_ok (set_queues s tld t P T) tld G M"
proof -
  have "commit_ok (set_queues s tld t P T) g = commit_ok s g" for g by (rule commit_ok_cong) simp_all
  then show ?thesis using assms unfolding seg_ok_def by auto
qed

lemma slices_of_state: "M (g, i) = Some (c, u) \<Longrightarrow> u \<in> U \<Longrightarrow> v \<in> U \<Longrightarrow> slices_of (M((g, i) \<mapsto> (c, v))) U = slices_of M U"
  unfolding slices_of_def by (auto split: if_splits) (metis option.inject prod.inject)+

lemma slices_of_split:
  assumes "M (g, i) = Some (c, u)" "u \<in> U" "n \<le> c"
  shows "slices_of (M((g, i) \<mapsto> (n, v), (g, i + n) \<mapsto> (c - n, w))) U \<subseteq> slices_of M U"
proof
  let ?M = "M((g, i) \<mapsto> (n, v), (g, i + n) \<mapsto> (c - n, w))"
  fix x assume "x \<in> slices_of ?M U"
  then obtain g' k j d y where x: "x = hdr g' k" "?M (g', j) = Some (d, y)" "y \<in> U" "j \<le> k" "k < j + d"
    unfolding slices_of_def by blast
  show "x \<in> slices_of M U"
  proof (cases "g' = g \<and> i \<le> k \<and> k < i + c")
    case True
    then show ?thesis using x(1) slices_mem [of M g i c u U k] assms by simp
  next
    case False
    then have "M (g', j) = Some (d, y)" using x assms(3) by (auto split: if_splits)
    then show ?thesis using x slices_mem by blast
  qed
qed

lemma take_span_ok:
  assumes ok: "seg_ok s tld G M" and m: "M (g, i) = Some (c, FreeSpan)" and n: "0 < n" "n \<le> c"
  shows "outcome env (bindR (span_queue_delete tld (slice_bin (of_nat c)) (hdr g i) s) (\<lambda>s.
          bindR (if (of_nat c :: usize) > of_nat n then segment_slice_split (hdr g i) (of_nat c) (of_nat n) tld s else Inr s) (\<lambda>s.
          bindR (segment_span_allocate env g (hdr g i) (of_nat n) s) (\<lambda>(suc, s).
          if \<not> suc then todo else Inr (Some (hdr g i), s)))))
    (\<lambda>(r, s'). r = Some (hdr g i) \<and> took_span s tld G M g i c n s')"
proof -
  obtain t L where t: "tld_at s tld = Some t" "spans_inv (page_at s) (sqs t) G M L" "\<And>g. g \<in> G \<Longrightarrow> commit_ok s g"
    using ok unfolding seg_ok_def by blast
  note d = spans_invD [OF t(2) m]
  let ?A = "slices_of M {FreeSpan, PoppedSpan}" and ?M1 = "M((g, i) \<mapsto> (c, PoppedSpan))"
  obtain sg where sg: "segment_at s g = Some sg" using t(3) [OF d(7)] unfolding commit_ok_def by blast
  have lt: "(of_nat c :: usize) > of_nat n \<longleftrightarrow> n < c" using n d(5) by (simp add: word_less_nat_alt)
  obtain P1 T1 L1 where del: "span_queue_delete tld (slice_bin (of_nat c)) (hdr g i) s = Inr (set_queues s tld t P1 T1)"
    "spans_inv P1 T1 G ?M1 L1" "\<And>x. x \<notin> slices_of M {FreeSpan} \<Longrightarrow> P1 x = page_at s x"
    using span_queue_delete_ok [OF t(1,2) m] by metis
  define s1 where "s1 = set_queues s tld t P1 T1"
  have F: "slices_of M {FreeSpan} \<subseteq> ?A" by (rule slices_mono) blast
  then have fr1: "span_frame tld g ?A s s1" unfolding s1_def by (intro span_frame_queues [OF t(1)] del(3)) blast
  have m1: "?M1 (g, i) = Some (c, PoppedSpan)" by simp
  have A1: "slices_of ?M1 {FreeSpan, PoppedSpan} = ?A" using slices_of_state [of M g i c FreeSpan, OF m] by simp
  define M2 where "M2 = (if n < c then ?M1((g, i) \<mapsto> (n, PoppedSpan), (g, i + n) \<mapsto> (c - n, FreeSpan)) else ?M1)"
  obtain s2 where s2: "(if n < c then segment_slice_split (hdr g i) (of_nat c) (of_nat n) tld s1 else Inr s1) = Inr s2"
    "seg_ok s2 tld G M2" "span_frame tld g ?A s1 s2" "segment_at s2 = segment_at s"
  proof (cases "n < c")
    case False
    then show ?thesis using that [of s1] del(2) t(3) seg_ok_queues [of P1 T1 G ?M1 L1 s tld t] span_frame_refl by (simp add: M2_def s1_def)
  next
    case True
    have t1: "tld_at s1 tld = Some (t\<lparr>segments := (segments t)\<lparr>span_queue_headers := T1\<rparr>\<rparr>)" "page_at s1 = P1" by (simp_all add: s1_def)
    have inv1: "spans_inv (page_at s1) (sqs (t\<lparr>segments := (segments t)\<lparr>span_queue_headers := T1\<rparr>\<rparr>)) G ?M1 L1" using del(2) t1(2) by simp
    obtain P2 T2 L2 where sp: "segment_slice_split (hdr g i) (of_nat c) (of_nat n) tld s1 =
        Inr (set_queues s1 tld (t\<lparr>segments := (segments t)\<lparr>span_queue_headers := T1\<rparr>\<rparr>) P2 T2)"
      "spans_inv P2 T2 G (?M1((g, i) \<mapsto> (n, PoppedSpan), (g, i + n) \<mapsto> (c - n, FreeSpan))) L2"
      "\<And>x. x \<notin> slices_of ?M1 {FreeSpan, PoppedSpan} \<Longrightarrow> P2 x = page_at s1 x"
      using slice_split_ok [OF t1(1) inv1 m1 n(1) True] by metis
    have "commit_ok s1 g'" if "g' \<in> G" for g' using t(3) [OF that] commit_ok_cong [of s1 s g'] by (simp add: s1_def)
    from seg_ok_queues [OF sp(2) this] have "seg_ok (set_queues s1 tld (t\<lparr>segments := (segments t)\<lparr>span_queue_headers := T1\<rparr>\<rparr>) P2 T2) tld G M2"
      using True by (simp add: M2_def)
    moreover have "span_frame tld g ?A s1 (set_queues s1 tld (t\<lparr>segments := (segments t)\<lparr>span_queue_headers := T1\<rparr>\<rparr>) P2 T2)"
      by (rule span_frame_queues [OF t1(1)]) (use sp(3) A1 in simp)
    ultimately show ?thesis using that True sp(1) by (simp add: s1_def)
  qed
  have m2: "M2 (g, i) = Some (n, PoppedSpan)" using n by (simp add: M2_def)
  have A2: "slices_of M2 {FreeSpan, PoppedSpan} \<subseteq> ?A"
    using slices_of_split [of ?M1 g i c PoppedSpan, OF m1, of "{FreeSpan, PoppedSpan}" n PoppedSpan FreeSpan] A1 n by (simp add: M2_def)
  have M3: "M2((g, i) \<mapsto> (n, UsedSpan)) = carve M g i c n" using n by (auto simp: M2_def carve_def fun_upd_twist)
  have sg2: "segment_at s2 g = Some sg" using sg s2(4) by simp
  have "outcome env (bindR (segment_span_allocate env g (hdr g i) (of_nat n) s2) (\<lambda>(suc, s). if \<not> suc then todo else Inr (Some (hdr g i), s)))
      (\<lambda>(r, s'). r = Some (hdr g i) \<and> took_span s tld G M g i c n s')"
  proof (rule outcome_bind [OF span_allocate_ok [OF s2(2) m2 sg2, of env]])
    fix a
    assume a: "case a of (suc, s') \<Rightarrow> suc \<and> seg_ok s' tld G (M2((g, i) \<mapsto> (n, UsedSpan))) \<and> span_frame tld g (slices_of M2 {FreeSpan, PoppedSpan}) s2 s'
      \<and> (\<exists>sg'. segment_at s' g = Some sg' \<and> main2 sg' = (main2 sg)\<lparr>seg_used := seg_used (main2 sg) + 1\<rparr>)
      \<and> (\<exists>pg. page_at s' (hdr g i) = Some pg \<and> pcount pg = of_nat n \<and> xblock_size (inner pg) = of_nat (n * 65536))
      \<and> (\<forall>x. unat g + 65536 * i \<le> unat x \<and> unat x < unat g + 65536 * (i + n) \<longrightarrow> os_prot s' x = Some True)
      \<and> {i..<i + n} \<subseteq> committed s' g"
    obtain suc s3 where s3: "a = (suc, s3)" by (cases a)
    have "span_frame tld g ?A s s3"
      using fr1 s2(3) a s3 span_frame_mono [OF _ A2] span_frame_trans [of tld g ?A] by blast
    then have "suc \<and> took_span s tld G M g i c n s3" using a s3 m n sg M3 unfolding took_span_def by simp
    then show "outcome env (case a of (suc, s) \<Rightarrow> if \<not> suc then todo else Inr (Some (hdr g i), s))
        (\<lambda>(r, s'). r = Some (hdr g i) \<and> took_span s tld G M g i c n s')" using s3 by simp
  qed
  then show ?thesis by (simp only: lt del(1) [folded s1_def] bindR_simps s2(1))
qed

text \<open>One queue: the first span that is long enough.\<close>

lemma find_in_queue_ok:
  assumes ok: "seg_ok s tld G M" and n: "0 < n" "n \<le> 512"
    and inv: "tld_at s tld = Some t" "spans_inv (page_at s) (sqs t) G M L" and b: "b < 32"
    and L: "dseg (page_at s) p xs 0" "set xs \<subseteq> free_hdrs M b" and fuel: "length xs < fuel"
  shows "outcome env (find_in_queue fuel env tld (of_nat b) (of_nat n) (hd_or 0 xs) s)
    (\<lambda>(r, s'). case r of None \<Rightarrow> s' = s \<and> (\<forall>g i c. hdr g i \<in> set xs \<and> M (g, i) = Some (c, FreeSpan) \<longrightarrow> c < n)
      | Some q \<Rightarrow> (\<exists>g i c. q = hdr g i \<and> took_span s tld G M g i c n s'))"
  using L fuel
proof (induction xs arbitrary: p fuel)
  case Nil
  then show ?case by (cases fuel) simp_all
next
  case (Cons x xs)
  obtain f where f: "fuel = Suc f" "length xs < f" using Cons.prems(3) by (cases fuel) auto
  obtain g i c where x: "x = hdr g i" "M (g, i) = Some (c, FreeSpan)" "sbin c = b" using Cons.prems(2) unfolding free_hdrs_def by auto
  note d = spans_invD [OF inv(2) x(2)]
  obtain pg where pg: "page_at s (hdr g i) = Some pg" "pcount pg = of_nat c" using d(6) unfolding span_hdr_def by auto
  have "next_ptr pg = hd_or 0 xs" "dseg (page_at s) x xs 0" using Cons.prems(1) x(1) pg by auto
  note nxt = this
  have cnt: "ucast (pcount pg) = (of_nat c :: usize)" using pg(2) small_cast(1) d(5) by simp
  have le: "(of_nat n :: usize) \<le> of_nat c \<longleftrightarrow> n \<le> c" using n d(5) by (simp add: word_le_nat_alt)
  have bin: "(of_nat b :: usize) = slice_bin (of_nat c)" using x(3) by (auto simp: sbin_def)
  show ?case
  proof (cases "n \<le> c")
    case True
    then show ?thesis
      using take_span_ok [OF ok x(2) n(1) True, of env] x(1) pg(1) hdr_nonnull [OF d(1,4)] hdr_back [OF d(1,4)]
      by (simp add: f(1) cnt le bin Let_def cong: if_cong) (erule outcome_mono, clarsimp, blast)
  next
    case False
    have "c' < n" if "hdr g' i' = x" "M (g', i') = Some (c', FreeSpan)" for g' i' c'
      using span_hdr_unique [OF inv(2) x(2) that(2)] that x False by simp
    then show ?thesis
      using Cons.IH [OF nxt(2) _ f(2)] Cons.prems(2) False x(1) pg(1) hdr_nonnull [OF d(1,4)]
      by (simp add: f(1) cnt le Let_def nxt(1)) (erule outcome_mono, auto split: option.splits)
  qed
qed


text \<open>All queues from index \<open>b\<close> on.\<close>

lemma queue_length: "distinct xs \<Longrightarrow> (0 :: usize) \<notin> set xs \<Longrightarrow> length xs < address_count"
proof -
  assume d: "distinct xs" "(0 :: usize) \<notin> set xs"
  then have "set xs \<subset> UNIV" by blast
  then have "card (set xs) < card (UNIV :: usize set)" by (rule psubset_card_mono [OF finite])
  then show ?thesis using distinct_card [OF d(1)] by (simp add: card_word address_count_def)
qed

lemma find_in_bins_ok:
  assumes ok: "seg_ok s tld G M" and n: "0 < n" "n \<le> 512"
  shows "outcome env (find_in_bins env tld b (of_nat n) s)
    (\<lambda>(p, s'). if p = 0 then s' = s \<and> (\<forall>g i c. M (g, i) = Some (c, FreeSpan) \<and> b \<le> sbin c \<longrightarrow> c < n)
      else (\<exists>g i c. p = hdr g i \<and> took_span s tld G M g i c n s'))"
proof -
  obtain t L where t: "tld_at s tld = Some t" "spans_inv (page_at s) (sqs t) G M L"
    using ok unfolding seg_ok_def by blast
  have sbin: "sbin c < 32" if "M (g, i) = Some (c, FreeSpan)" for g i c using sbin_bound spans_invD(5) [OF t(2) that] by blast
  show ?thesis
  proof (induction "32 - b" arbitrary: b)
    case 0
    then have "\<not> b \<le> unat SEGMENT_BIN_MAX" by (simp add: SEGMENT_BIN_MAX_def)
    then show ?case using 0 sbin by (auto simp: find_in_bins.simps [of _ _ b]) force
  next
    case (Suc k)
    then have b: "b < 32" "b \<le> unat SEGMENT_BIN_MAX" by (simp_all add: SEGMENT_BIN_MAX_def)
    have q: "sq_first (sqs t ! b) = hd_or 0 (L ! b)" "dseg (page_at s) 0 (L ! b) 0" "distinct (L ! b)" "set (L ! b) = free_hdrs M b" "length (sqs t) = 32"
      using t(2) b(1) unfolding spans_inv_def by blast+
    have "0 \<notin> set (L ! b)" using q(4) spans_invD [OF t(2)] hdr_nonnull unfolding free_hdrs_def by fastforce
    then have len: "length (L ! b) < address_count" using q(3) queue_length by blast
    have get: "get_span_queue s tld (of_nat b) = Inr (sqs t ! b)" using get_span_queue_eq [OF t(1), of "of_nat b"] b q(5) by simp
    have rest: "outcome env (find_in_bins env tld (b + 1) (of_nat n) s)
      (\<lambda>(p, s'). if p = 0 then s' = s \<and> (\<forall>g i c. M (g, i) = Some (c, FreeSpan) \<and> b + 1 \<le> sbin c \<longrightarrow> c < n)
        else (\<exists>g i c. p = hdr g i \<and> took_span s tld G M g i c n s'))"
      by (rule Suc.hyps(1)) (use Suc.hyps(2) in simp)
    have fq: "outcome env (find_in_queue address_count env tld (of_nat b) (of_nat n) (hd_or 0 (L ! b)) s)
      (\<lambda>(r, s'). case r of None \<Rightarrow> s' = s \<and> (\<forall>g i c. hdr g i \<in> set (L ! b) \<and> M (g, i) = Some (c, FreeSpan) \<longrightarrow> c < n)
      | Some q \<Rightarrow> (\<exists>g i c. q = hdr g i \<and> took_span s tld G M g i c n s'))"
      by (rule find_in_queue_ok [OF ok n t b(1) q(2) _ len]) (simp add: q(4))
    have nonnull: "hdr g i \<noteq> 0" if "took_span s tld G M g i c n s'" for g i c s'
      using that spans_invD [OF t(2), of g i c FreeSpan] hdr_nonnull unfolding took_span_def by blast
    show ?case unfolding find_in_bins.simps [of _ _ b]
    proof (simp only: b(2) if_True get bindR_simps q(1), rule outcome_bind [OF fq])
      fix a
      assume a: "case a of (r, s') \<Rightarrow> case r of None \<Rightarrow> s' = s \<and> (\<forall>g i c. hdr g i \<in> set (L ! b) \<and> M (g, i) = Some (c, FreeSpan) \<longrightarrow> c < n)
        | Some q \<Rightarrow> (\<exists>g i c. q = hdr g i \<and> took_span s tld G M g i c n s')"
      obtain r s' where r: "a = (r, s')" by (cases a)
      show "outcome env (case a of (found, s) \<Rightarrow> case found of None \<Rightarrow> find_in_bins env tld (b + 1) (of_nat n) s | Some p \<Rightarrow> Inr (p, s))
       (\<lambda>(p, s'). if p = 0 then s' = s \<and> (\<forall>g i c. M (g, i) = Some (c, FreeSpan) \<and> b \<le> sbin c \<longrightarrow> c < n)
        else (\<exists>g i c. p = hdr g i \<and> took_span s tld G M g i c n s'))"
      proof (cases r)
        case (Some q)
        then show ?thesis using a r nonnull by auto
      next
        case None
        have "c < n" if "\<forall>g i c. M (g, i) = Some (c, FreeSpan) \<and> b + 1 \<le> sbin c \<longrightarrow> c < n" "M (g, i) = Some (c, FreeSpan)" "b \<le> sbin c" for g i c
          using that a r None free_hdrsI [of M g i c b] q(4) by (cases "sbin c = b") auto
        then have all: "(\<forall>g i c. M (g, i) = Some (c, FreeSpan) \<and> b + 1 \<le> sbin c \<longrightarrow> c < n) \<longrightarrow> (\<forall>g i c. M (g, i) = Some (c, FreeSpan) \<and> b \<le> sbin c \<longrightarrow> c < n)"
          by blast
        have "outcome env (find_in_bins env tld (b + 1) (of_nat n) s)
          (\<lambda>(p, s'). if p = 0 then s' = s \<and> (\<forall>g i c. M (g, i) = Some (c, FreeSpan) \<and> b \<le> sbin c \<longrightarrow> c < n)
            else (\<exists>g i c. p = hdr g i \<and> took_span s tld G M g i c n s'))"
          by (rule outcome_mono [OF rest]) (use all in \<open>(simp add: Suc_eq_plus1 split: prod.splits if_splits del: One_nat_def, iprover?)\<close>)
        then show ?thesis using a r None by simp
      qed
    qed
  qed
qed


text \<open>
  The search as a whole: it fails exactly when no free span is long enough, whichever queue the
  spans are in, because the bin of a span grows with its length.
\<close>

lemma find_and_allocate_ok:
  assumes ok: "seg_ok s tld G M" and n: "n \<le> 512"
  shows "outcome env (segments_page_find_and_allocate env (of_nat n) tld s)
    (\<lambda>(p, s'). if p = 0 then s' = s \<and> (\<forall>g i c. M (g, i) = Some (c, FreeSpan) \<longrightarrow> c < max 1 n)
      else (\<exists>g i c. p = hdr g i \<and> took_span s tld G M g i c (max 1 n) s'))"
proof -
  obtain t L where t: "spans_inv (page_at s) (sqs t) G M L" using ok unfolding seg_ok_def by blast
  have w: "(if (of_nat n :: usize) = 0 then 1 else of_nat n) = (of_nat (max 1 n) :: usize)"
  proof (cases "n = 0")
    case False
    then have "unat (of_nat n :: usize) \<noteq> 0" using n by simp
    then have "(of_nat n :: usize) \<noteq> 0" by (metis unsigned_0)
    then show ?thesis using False by simp
  qed simp
  have bin: "unat (slice_bin (of_nat n)) \<le> sbin c" if "M (g, i) = Some (c, FreeSpan)" "max 1 n \<le> c" for g i c
    using that sbin_mono [of n c] spans_invD(5) [OF t that(1)] by (simp add: sbin_def)
  have m: "0 < max 1 n" "max 1 n \<le> 512" using n by simp_all
  show ?thesis unfolding segments_page_find_and_allocate_def Let_def w
    by (rule outcome_mono [OF find_in_bins_ok [OF ok m]]) (use bin in \<open>force split: prod.splits if_splits\<close>)
qed

end
