(* ===== verification/Span_Free.thy ===== *)
theory Span_Free
  imports Span_Ops
begin

text \<open>
  Freeing in \<^verbatim>\<open>segment.rs\<close> as a change of the map of spans: a span is written back as
  free, merged with its free neighbours, and a page of a segment is returned.
\<close>

section \<open>Freeing a span\<close>

text \<open>The slices from \<open>j\<close> on become one span, whatever they were before.\<close>

definition put_span :: "spans \<Rightarrow> usize \<Rightarrow> nat \<Rightarrow> nat \<Rightarrow> span_state \<Rightarrow> spans" where
  "put_span M g j n u = (\<lambda>(g', k). if g' = g \<and> j \<le> k \<and> k < j + n then if k = j then Some (n, u) else None else M (g', k))"

lemma put_span_apply [simp]: "put_span M g j n u (g', k) =
    (if g' = g \<and> j \<le> k \<and> k < j + n then if k = j then Some (n, u) else None else M (g', k))"
  by (simp add: put_span_def)

lemma put_span_put: "j \<le> i \<Longrightarrow> i + n \<le> j + n' \<Longrightarrow> put_span (put_span M g i n u) g j n' v = put_span M g j n' v"
  by (auto simp: put_span_def fun_eq_iff)

lemma put_span_state: "tiled M g \<Longrightarrow> M (g, i) = Some (c, u) \<Longrightarrow> put_span M g i c v = M((g, i) \<mapsto> (c, v))"
proof -
  assume a: "tiled M g" "M (g, i) = Some (c, u)"
  then have "0 < c" unfolding tiled_def by blast
  moreover have "M (g, k) = None" if "i < k" "k < i + c" for k by (rule tiled_inside [OF a that])
  ultimately show ?thesis by (auto simp: put_span_def fun_eq_iff)
qed

lemma put_span_same: "tiled M g \<Longrightarrow> M (g, i) = Some (c, u) \<Longrightarrow> put_span M g i c u = M"
  using put_span_state [of M g i c u u] by (simp add: fun_upd_idem)

lemma put_span_merge:
  assumes "tiled M g" "M (g, i) = Some (c, u)" "M (g, i + c) = Some (d, v)"
  shows "put_span M g i (c + d) w = M((g, i + c) := None, (g, i) \<mapsto> (c + d, w))"
proof -
  have "0 < c" "0 < d" using assms unfolding tiled_def by blast+
  moreover have "M (g, k) = None" if "i < k" "k < i + (c + d)" "k \<noteq> i + c" for k
    using that tiled_inside [OF assms(1,2), of k] tiled_inside [OF assms(1,3), of k] by (cases "k < i + c") auto
  ultimately show ?thesis by (auto simp: put_span_def fun_eq_iff)
qed

lemma spans_inv_merge:
  assumes inv: "spans_inv P T G M L" and m: "M (g, i) = Some (c, PoppedSpan)" "M (g, i + c) = Some (d, PoppedSpan)"
  shows "spans_inv P T G (put_span M g i (c + d) PoppedSpan) L"
proof -
  note t = spans_invD [OF inv m(1)]
  let ?M = "M((g, i + c) := None, (g, i) \<mapsto> (c + d, PoppedSpan))"
  have "spans_inv P T G ?M L"
  proof (rule spans_inv_remap [OF inv])
    show "tiled ?M g'" if "g' \<in> G" for g'
      using that inv tiled_merge [OF t(8) m] by (cases "g' = g") (auto simp: spans_inv_def tiled_other)
    show "?M key = Some (c', FreeSpan) \<longleftrightarrow> M key = Some (c', FreeSpan)" for key c' using m by auto
    show "g' \<in> G" if "?M (g', j) = Some (c', u)" for g' j c' u
      using that t(7) spans_invD(7) [OF inv, of g' j c' u] by (auto split: if_splits)
    show "span_hdr P g' j c' UsedSpan" if "?M (g', j) = Some (c', UsedSpan)" for g' j c'
      using that spans_invD(6) [OF inv, of g' j c' UsedSpan] by (auto split: if_splits)
  qed
  then show ?thesis using put_span_merge [OF t(8) m] by simp
qed

text \<open>A popped span is written back as free and put at the front of its queue.\<close>

abbreviation span_push_code :: "usize \<Rightarrow> usize \<Rightarrow> usize \<Rightarrow> st \<Rightarrow> st res" where
  "span_push_code tld bi x s \<equiv> bindR (get_span_queue s tld bi) (\<lambda>cq. bindR (upd_span_queue s tld bi (\<lambda>cq'.
         if sq_first cq = 0 then cq'\<lparr>sq_first := x, sq_last := x\<rparr> else cq'\<lparr>sq_first := x\<rparr>)) (\<lambda>s.
      bindR (if sq_first cq \<noteq> 0 then upd_page s (sq_first cq) (\<lambda>g. g\<lparr>prev_ptr := x\<rparr>) else Inr s) (\<lambda>s.
      bindR (upd_page s x (\<lambda>g. g\<lparr>prev_ptr := 0\<rparr>)) (\<lambda>s.
      bindR (upd_page s x (\<lambda>g. g\<lparr>next_ptr := sq_first cq\<rparr>)) (\<lambda>s.
      upd_inner s x (\<lambda>n. n\<lparr>xblock_size := 0\<rparr>))))))"

lemma span_push_writes:
  assumes t: "tld_at s tld = Some t" and b: "unat bi = b" "b < length (sqs t)" and x: "page_at s x = Some xg"
    and first: "sq_first (sqs t ! b) = f" "f \<noteq> 0 \<Longrightarrow> f \<in> dom (page_at s)" "f \<noteq> x"
  defines "cq \<equiv> (sqs t ! b)\<lparr>sq_first := x\<rparr>"
  shows "span_push_code tld bi x s
    = Inr (set_queues s tld t (link_front (page_at s) x (xg\<lparr>inner := (inner xg)\<lparr>xblock_size := 0\<rparr>\<rparr>) f)
        ((sqs t)[b := if f = 0 then cq\<lparr>sq_last := x\<rparr> else cq]))"
proof -
  define s1 where "s1 = s\<lparr>tld_at := (tld_at s)(tld \<mapsto> t\<lparr>segments := (segments t)
      \<lparr>span_queue_headers := (sqs t)[b := if f = 0 then cq\<lparr>sq_last := x\<rparr> else cq]\<rparr>\<rparr>)\<rparr>"
  have q1: "upd_span_queue s tld bi (\<lambda>cq. if f = 0 then cq\<lparr>sq_first := x, sq_last := x\<rparr> else cq\<lparr>sq_first := x\<rparr>)
      = Inr (s1\<lparr>page_at := page_at s\<rparr>)"
    using t b by (simp add: upd_span_queue_eq s1_def cq_def)
  have q0: "get_span_queue s tld bi = Inr (sqs t ! b)" using t b by (simp add: get_span_queue_eq)
  define P1 where "P1 = (if f \<noteq> 0 then set_prev (page_at s) f x else page_at s)"
  have p1: "(if f \<noteq> 0 then upd_page (s1\<lparr>page_at := page_at s\<rparr>) f (\<lambda>g'. g'\<lparr>prev_ptr := x\<rparr>) else Inr (s1\<lparr>page_at := page_at s\<rparr>))
      = Inr (s1\<lparr>page_at := P1\<rparr>)"
    using first(2) by (auto simp: P1_def upd_links)
  have P1: "P1 x = Some xg" using x first(3) by (auto simp: P1_def)
  show ?thesis unfolding q0 bindR_simps first(1) q1 p1
    using P1 by (simp add: upd_page_on upd_inner_on page_canon) (simp add: s1_def st_canon link_front_def P1_def page_canon)
qed

lemma span_free_push:
  assumes t: "tld_at s tld = Some t" "spans_inv (page_at s) (sqs t) G M L" and m: "M (g, i) = Some (c, PoppedSpan)"
    and xg: "page_at s (hdr g i) = Some xg" "pcount xg = of_nat c" "poffset xg = 0"
    and lst: "1 < c \<Longrightarrow> \<exists>lg. page_at s (hdr g (i + c - 1)) = Some lg \<and> poffset lg = of_nat (c - 1) * 80"
  shows "\<exists>P T L. span_push_code tld (slice_bin (of_nat c)) (hdr g i) s = Inr (set_queues s tld t P T)
    \<and> spans_inv P T G (M((g, i) \<mapsto> (c, FreeSpan))) L \<and> (\<forall>x. x \<notin> slices_of M {FreeSpan, PoppedSpan} \<longrightarrow> P x = page_at s x)"
proof -
  note d = spans_invD [OF t(2) m]
  let ?x = "hdr g i" and ?b = "sbin c"
  let ?f = "sq_first (sqs t ! ?b)"
  have b: "unat (slice_bin (of_nat c)) = ?b" "?b < length (sqs t)" "?b < 32"
    using sbin_bound [of c] d(5) t(2) by (simp_all add: sbin_def spans_inv_def)
  have pop: "?x \<notin> slices_of M {FreeSpan}" using slices_disjoint [OF t(2) m, of "{FreeSpan}" i] d(2) by simp
  have f: "?f \<noteq> 0 \<Longrightarrow> ?f \<in> dom (page_at s)" "?f \<noteq> ?x"
    using first_in_queue [OF t(2) b(3)] pop hdr_nonnull [OF d(1,4)] by (cases "?f = 0"; auto)+
  have q: "?f = hd_or 0 (L ! ?b)" "sq_last (sqs t ! ?b) = last_or 0 (L ! ?b)" "length (sqs t) = 32" "dseg (page_at s) 0 (L ! ?b) 0"
    using t(2) b(3) unfolding spans_inv_def by blast+
  define xg' where "xg' = xg\<lparr>inner := (inner xg)\<lparr>xblock_size := 0\<rparr>\<rparr>"
  let ?cq = "(sqs t ! ?b)\<lparr>sq_first := ?x\<rparr>"
  let ?T = "(sqs t)[?b := if ?f = 0 then ?cq\<lparr>sq_last := ?x\<rparr> else ?cq]"
  note code = span_push_writes [OF t(1) b(1,2) xg(1) refl f, folded xg'_def]
  have "spans_inv (link_front (page_at s) ?x xg' (hd_or 0 (L ! ?b))) ?T G (M((g, i) \<mapsto> (c, FreeSpan))) (L[?b := ?x # L ! ?b])"
  proof (rule spans_inv_push [OF t(2) m])
    show "sq_last (?T ! ?b) = last_or ?x (L ! ?b)"
      using q b(3) hd_or_zero [OF q(4)] by (cases "L ! ?b = []") (simp_all add: last_or_def)
  qed (use q b(3) xg lst in \<open>simp_all add: xg'_def\<close>)
  moreover have "link_front (page_at s) ?x xg' ?f y = page_at s y" if y: "y \<notin> slices_of M {FreeSpan, PoppedSpan}" for y
  proof -
    have "y \<noteq> ?x" using y slices_popped_split [of M g i c i, OF m] d(2) by auto
    moreover have "?f \<noteq> 0 \<Longrightarrow> y \<noteq> ?f" using y first_in_queue(1) [OF t(2) b(3)] slices_mono [of "{FreeSpan}" "{FreeSpan, PoppedSpan}" M] by auto
    ultimately show ?thesis by (auto simp: link_front_def)
  qed
  moreover have "span_push_code tld (slice_bin (of_nat c)) ?x s = Inr (set_queues s tld t (link_front (page_at s) ?x xg' ?f) ?T)"
    by (rule code)
  ultimately show ?thesis unfolding q(1) [symmetric]
    by (intro exI [of _ "link_front (page_at s) ?x xg' ?f"] exI [of _ "?T"] exI [of _ "L[?b := ?x # L ! ?b]"] conjI allI impI)
qed

lemma span_free_ok:
  assumes ok: "seg_ok s tld G M" and m: "M (g, i) = Some (c, PoppedSpan)" and sg: "segment_at s g = Some sg"
  shows "outcome env (segment_span_free env g (of_nat i) (of_nat c) allow_dec tld s)
    (\<lambda>s'. seg_ok s' tld G (M((g, i) \<mapsto> (c, FreeSpan))) \<and> span_frame tld g (slices_of M {FreeSpan, PoppedSpan}) s s'
      \<and> (\<exists>sg'. segment_at s' g = Some sg' \<and> main2 sg' = main2 sg \<and> thread_id sg' = thread_id sg))"
proof -
  obtain t L where t: "tld_at s tld = Some t" "spans_inv (page_at s) (sqs t) G M L" "\<And>g. g \<in> G \<Longrightarrow> commit_ok s g"
    using ok unfolding seg_ok_def by blast
  note d = spans_invD [OF t(2) m]
  let ?A = "slices_of M {FreeSpan, PoppedSpan}" and ?x = "hdr g i" and ?lp = "hdr g (i + c - 1)"
  obtain xg lg where pages: "page_at s ?x = Some xg" "page_at s ?lp = Some lg"
    using spans_inv_hdrs [OF t(2) d(7) d(4)] spans_inv_hdrs [OF t(2) d(7), of "i + c - 1"] d(3) by fastforce
  have cast: "ucast (of_nat c :: usize) = (of_nat c :: u32)" using small_cast(2) d(5) by simp
  have gt: "(1 :: usize) < of_nat c \<longleftrightarrow> 1 < c" using d(5) by (simp add: word_less_nat_alt)
  have lp: "get_page_header_ptr g (of_nat i + of_nat c - 1) = ?lp" if "1 < c"
  proof -
    have "(of_nat i + of_nat c - 1 :: usize) = of_nat (i + c - 1)" using that by (simp add: of_nat_diff)
    then show ?thesis by (simp only: hdr_def)
  qed
  have dec: "(of_nat c - 1 :: u32) = of_nat (c - 1)" using d(2) by (simp add: of_nat_diff)
  define P1 where "P1 = (page_at s)(?x \<mapsto> xg\<lparr>pcount := of_nat c, poffset := 0\<rparr>)"
  define P2 where "P2 = (if 1 < c then P1(?lp \<mapsto> lg\<lparr>poffset := of_nat (c - 1) * 80\<rparr>) else P1)"
  have ne: "?lp \<noteq> ?x" if "1 < c" using hdr_inject [OF d(1) d(1), of "i + c - 1" i] that d(3) by simp
  define s1 where "s1 = s\<lparr>page_at := P2\<rparr>"
  have w: "bindR (upd_page s ?x (\<lambda>g. g\<lparr>pcount := ucast (of_nat c :: usize)\<rparr>)) (\<lambda>s.
      bindR (upd_page s ?x (\<lambda>g. g\<lparr>poffset := 0\<rparr>)) (\<lambda>s.
      bindR (if (1 :: usize) < of_nat c then
               upd_page s (get_page_header_ptr g (of_nat i + of_nat c - 1))
                 (\<lambda>g. g\<lparr>poffset := (ucast (of_nat c :: usize) - 1) * ucast SIZEOF_PAGE_HEADER\<rparr>)
             else Inr s) f)) = f s1" for f :: "st \<Rightarrow> st res"
    using pages ne lp by (cases "1 < c") (simp_all add: gt cast dec upd_page_eq P1_def P2_def s1_def layout_consts page_canon del: of_nat_diff)
  have hd: "get_page_header_ptr g (of_nat i) = ?x" by (simp add: hdr_def)
  have i1: "spans_inv P1 (sqs t) G M L" unfolding P1_def by (rule spans_inv_write_popped [OF t(2) m]) (use d(2) in auto)
  have "spans_inv (P1(?lp \<mapsto> lg\<lparr>poffset := of_nat (c - 1) * 80\<rparr>)) (sqs t) G M L"
    by (rule spans_inv_write_popped [OF i1 m]) (use d(2) in auto)
  then have i2: "spans_inv P2 (sqs t) G M L" using i1 unfolding P2_def by (cases "1 < c") (simp_all only: if_True if_False)
  have x2: "P2 ?x = Some (xg\<lparr>pcount := of_nat c, poffset := 0\<rparr>)" using ne by (cases "1 < c") (auto simp: P1_def P2_def)
  have l2: "1 < c \<Longrightarrow> \<exists>lg. P2 ?lp = Some lg \<and> poffset lg = of_nat (c - 1) * 80" by (simp add: P2_def)
  have same: "P2 y = page_at s y" if "y \<notin> ?A" for y
  proof -
    have "y \<noteq> ?x" "y \<noteq> ?lp" using that slices_popped_split [of M g i c i, OF m] slices_popped_split [of M g i c "i + c - 1", OF m] d(2) by auto
    then show ?thesis by (simp add: P1_def P2_def)
  qed
  have fr1: "span_frame tld g ?A s s1" unfolding s1_def by (rule span_frame_pages [OF same])
  have c1: "commit_ok s1 g'" if "g' \<in> G" for g' using t(3) [OF that] commit_ok_cong [of s1 s g'] by (simp add: s1_def)
  have sg1: "segment_at s1 g = Some sg" using sg by (simp add: s1_def)
  have inA: "hdr g k \<in> ?A" if "i \<le> k" "k < i + c" for k using slices_mem [of M g i c PoppedSpan] m that by simp
  let ?D = "if allow_dec then segment_perhaps_decommit env g (slice_start ?x) (of_nat c * SLICE_SIZE) s1 else Inr s1"
  have D: "outcome env ?D (\<lambda>s'. span_frame tld g ?A s1 s' \<and> page_at s' = page_at s1 \<and> tld_at s' = tld_at s1 \<and> (\<forall>g \<in> G. commit_ok s' g)
      \<and> (\<exists>sg'. segment_at s' g = Some sg' \<and> main2 sg' = main2 sg \<and> thread_id sg' = thread_id sg))"
    using perhaps_decommit_span [OF c1 d(7) sg1 d(3,2) inA, of env tld] c1 sg1 span_frame_refl by (cases allow_dec) simp_all
  show ?thesis unfolding segment_span_free_def Let_def hd w
  proof (rule outcome_bind [OF D])
    fix s2 assume s2: "span_frame tld g ?A s1 s2 \<and> page_at s2 = page_at s1 \<and> tld_at s2 = tld_at s1 \<and> (\<forall>g \<in> G. commit_ok s2 g)
      \<and> (\<exists>sg'. segment_at s2 g = Some sg' \<and> main2 sg' = main2 sg \<and> thread_id sg' = thread_id sg)"
    have t2: "tld_at s2 tld = Some t" "page_at s2 = P2" using s2 t(1) by (simp_all add: s1_def)
    have "\<exists>P T L. span_push_code tld (slice_bin (of_nat c)) (hdr g i) s2 = Inr (set_queues s2 tld t P T)
      \<and> spans_inv P T G (M((g, i) \<mapsto> (c, FreeSpan))) L \<and> (\<forall>x. x \<notin> ?A \<longrightarrow> P x = page_at s2 x)"
    proof (rule span_free_push [OF t2(1)])
      show "spans_inv (page_at s2) (sqs t) G M L" using i2 t2(2) by simp
      show "M (g, i) = Some (c, PoppedSpan)" by (rule m)
      show "page_at s2 ?x = Some (xg\<lparr>pcount := of_nat c, poffset := 0\<rparr>)" using x2 t2(2) by simp
      show "\<exists>lg. page_at s2 ?lp = Some lg \<and> poffset lg = of_nat (c - 1) * 80" if "1 < c" using l2 [OF that] unfolding t2(2) .
    qed simp_all
    then obtain P T L where r: "span_push_code tld (slice_bin (of_nat c)) (hdr g i) s2 = Inr (set_queues s2 tld t P T)"
      "spans_inv P T G (M((g, i) \<mapsto> (c, FreeSpan))) L" "\<And>x. x \<notin> ?A \<Longrightarrow> P x = page_at s2 x" by blast
    have fin: "span_frame tld g ?A s2 (set_queues s2 tld t P T)" by (rule span_frame_queues [OF t2(1) r(3)])
    have fr: "span_frame tld g ?A s (set_queues s2 tld t P T)" using fr1 s2 fin span_frame_trans by blast
    have "seg_ok (set_queues s2 tld t P T) tld G (M((g, i) \<mapsto> (c, FreeSpan)))" by (rule seg_ok_queues [OF r(2)]) (use s2 in blast)
    then show "outcome env (span_push_code tld (slice_bin (of_nat c)) (hdr g i) s2)
      (\<lambda>s'. seg_ok s' tld G (M((g, i) \<mapsto> (c, FreeSpan))) \<and> span_frame tld g ?A s s'
      \<and> (\<exists>sg'. segment_at s' g = Some sg' \<and> main2 sg' = main2 sg \<and> thread_id sg' = thread_id sg))"
      unfolding r(1) using fr s2 by simp
  qed
qed


section \<open>Merging with the neighbours\<close>

text \<open>Every span but the last has a successor, every span but the first a predecessor.\<close>

lemma slices_of_put:
  assumes "\<And>k. j \<le> k \<Longrightarrow> k < j + n \<Longrightarrow> hdr g k \<in> slices_of M U"
  shows "slices_of (put_span M g j n u) U \<subseteq> slices_of M U"
proof
  fix x assume "x \<in> slices_of (put_span M g j n u) U"
  then obtain g' k l d v where x: "x = hdr g' k" "put_span M g j n u (g', l) = Some (d, v)" "v \<in> U" "l \<le> k" "k < l + d"
    unfolding slices_of_def by blast
  show "x \<in> slices_of M U"
  proof (cases "g' = g \<and> j \<le> l \<and> l < j + n")
    case True
    then have "l = j" "d = n" using x(2) by (auto split: if_splits)
    then show ?thesis using assms [of k] x True by simp
  next
    case False
    then have "M (g', l) = Some (d, v)" using x(2) by auto
    then show ?thesis using x slices_mem [of M g' l d v U k] by simp
  qed
qed

lemma free_header:
  assumes "spans_inv P T G M L" "M (g, i) = Some (c, v)" "v \<noteq> PoppedSpan"
  obtains pg where "P (hdr g i) = Some pg" "xblock_size (inner pg) = 0 \<longleftrightarrow> v = FreeSpan"
  using spans_invD(6) [OF assms(1,2)] assms(3) unfolding span_hdr_def by blast

text \<open>Unlinking a free neighbour of a popped span leaves one longer popped span.\<close>

lemma unlink_neighbour:
  assumes ok: "seg_ok s tld G M" and f: "M (g, j) = Some (d, FreeSpan)" and m: "M (g, i) = Some (c, PoppedSpan)" "j = i + c \<or> i = j + d"
  obtains s' where "coalesce_unlink (hdr g j) tld s = Inr (of_nat d, s')" "seg_ok s' tld G (put_span M g (min i j) (c + d) PoppedSpan)"
    "span_frame tld g (slices_of M {FreeSpan, PoppedSpan}) s s'" "segment_at s' = segment_at s"
    "\<And>x. map_option core (page_at s' x) = map_option core (page_at s x)"
    "slices_of (put_span M g (min i j) (c + d) PoppedSpan) {FreeSpan, PoppedSpan} \<subseteq> slices_of M {FreeSpan, PoppedSpan}"
proof -
  obtain t L where t: "tld_at s tld = Some t" "spans_inv (page_at s) (sqs t) G M L" "\<And>g. g \<in> G \<Longrightarrow> commit_ok s g"
    using ok unfolding seg_ok_def by blast
  note d = spans_invD [OF t(2) m(1)] and dj = spans_invD [OF t(2) f]
  let ?A = "slices_of M {FreeSpan, PoppedSpan}" and ?M1 = "M((g, j) \<mapsto> (d, PoppedSpan))"
  obtain P T L' where u: "coalesce_unlink (hdr g j) tld s = Inr (of_nat d, set_queues s tld t P T)"
    "spans_inv P T G ?M1 L'" "\<And>x. x \<notin> slices_of M {FreeSpan} \<Longrightarrow> P x = page_at s x"
    "\<And>x. map_option core (P x) = map_option core (page_at s x)"
    using coalesce_unlink_ok [OF t(1,2) f] by metis
  have ne: "j \<noteq> i" using m f by auto
  have M1: "?M1 (g, i) = Some (c, PoppedSpan)" "?M1 (g, j) = Some (d, PoppedSpan)" using m(1) ne by simp_all
  have "spans_inv P T G (put_span ?M1 g (min i j) (c + d) PoppedSpan) L'"
    using m(2)
  proof
    assume "j = i + c"
    then show ?thesis using spans_inv_merge [of P T G ?M1 L' g i c d, OF u(2) M1(1)] M1(2) by simp
  next
    assume "i = j + d"
    then show ?thesis using spans_inv_merge [of P T G ?M1 L' g j d c, OF u(2) M1(2)] M1(1) by (simp add: add.commute)
  qed
  moreover have "put_span ?M1 g (min i j) (c + d) PoppedSpan = put_span M g (min i j) (c + d) PoppedSpan"
    using m(2) d(2) dj(2) by (auto simp: put_span_def fun_eq_iff)
  ultimately have inv: "spans_inv P T G (put_span M g (min i j) (c + d) PoppedSpan) L'" by simp
  have F: "slices_of M {FreeSpan} \<subseteq> ?A" by (rule slices_mono) blast
  have "span_frame tld g ?A s (set_queues s tld t P T)" by (rule span_frame_queues [OF t(1)]) (use u(3) F in blast)
  moreover have "hdr g k \<in> ?A" if "min i j \<le> k" "k < min i j + (c + d)" for k
  proof -
    have "i \<le> k \<and> k < i + c \<or> j \<le> k \<and> k < j + d" using that m(2) by (auto simp: min_def split: if_splits)
    then show ?thesis using slices_mem [of M g i c PoppedSpan "{FreeSpan, PoppedSpan}" k] m(1)
      slices_mem [of M g j d FreeSpan "{FreeSpan, PoppedSpan}" k] f by auto
  qed
  then have "slices_of (put_span M g (min i j) (c + d) PoppedSpan) {FreeSpan, PoppedSpan} \<subseteq> ?A" by (rule slices_of_put)
  ultimately show ?thesis using that [OF u(1)] seg_ok_queues [OF inv t(3), of tld t] u(4) by simp
qed


text \<open>The neighbours of a popped span that may be merged.\<close>

definition free_after :: "spans \<Rightarrow> usize \<Rightarrow> nat \<Rightarrow> nat \<Rightarrow> bool" where
  "free_after M g e d \<longleftrightarrow> M (g, e) = Some (d, FreeSpan) \<or> d = 0 \<and> (\<forall>d'. M (g, e) \<noteq> Some (d', FreeSpan))"

definition free_before :: "spans \<Rightarrow> usize \<Rightarrow> nat \<Rightarrow> nat \<Rightarrow> bool" where
  "free_before M g i e \<longleftrightarrow> e \<le> i \<and> M (g, i - e) = Some (e, FreeSpan)
     \<or> e = 0 \<and> (\<forall>e'. e' \<le> i \<longrightarrow> M (g, i - e') \<noteq> Some (e', FreeSpan))"

lemma coalesce_after_ok:
  assumes ok: "seg_ok s tld G M" and m: "M (g, i) = Some (c, PoppedSpan)" and alone: "\<And>key d. M key = Some (d, PoppedSpan) \<Longrightarrow> key = (g, i)"
  obtains d s' where "free_after M g (i + c) d"
    "\<forall>f :: u32 \<times> st \<Rightarrow> st res. bindR (if i + c < 512 then bindR (fetch (page_at s) (hdr g (i + c))) (\<lambda>g. Inr (xblock_size (inner g) = 0)) else Inr False)
       (\<lambda>is_free. bindR (if is_free then bindR (coalesce_unlink (hdr g (i + c)) tld s) (\<lambda>(n_count, s). Inr (of_nat c + n_count, s))
               else Inr (of_nat c, s)) f) = f (of_nat (c + d), s')"
    "seg_ok s' tld G (put_span M g i (c + d) PoppedSpan)"
    "span_frame tld g (slices_of M {FreeSpan, PoppedSpan}) s s'" "segment_at s' = segment_at s"
    "slices_of (put_span M g i (c + d) PoppedSpan) {FreeSpan, PoppedSpan} \<subseteq> slices_of M {FreeSpan, PoppedSpan}"
proof -
  obtain t L where t: "spans_inv (page_at s) (sqs t) G M L" using ok unfolding seg_ok_def by blast
  note d = spans_invD [OF t m]
  have skip: "put_span M g i (c + 0) PoppedSpan = M" using put_span_same [of M g i c, OF d(8) m] by simp
  show ?thesis
  proof (cases "\<exists>e. M (g, i + c) = Some (e, FreeSpan)")
    case True
    then obtain e where e: "M (g, i + c) = Some (e, FreeSpan)" by blast
    have lt: "i + c < 512" using spans_invD(2,3) [OF t e] by simp
    obtain pg where pg: "page_at s (hdr g (i + c)) = Some pg" "xblock_size (inner pg) = 0" using free_header [OF t e] by auto
    obtain s' where s': "coalesce_unlink (hdr g (i + c)) tld s = Inr (of_nat e, s')" "seg_ok s' tld G (put_span M g (min i (i + c)) (c + e) PoppedSpan)"
      "span_frame tld g (slices_of M {FreeSpan, PoppedSpan}) s s'" "segment_at s' = segment_at s"
      "slices_of (put_span M g (min i (i + c)) (c + e) PoppedSpan) {FreeSpan, PoppedSpan} \<subseteq> slices_of M {FreeSpan, PoppedSpan}"
      using unlink_neighbour [of s tld G M g "i + c" e i c, OF ok e m disjI1 [OF refl]] by metis
    show ?thesis by (rule that [of e s']) (use s' lt pg e in \<open>simp_all add: free_after_def\<close>)
  next
    case False
    have "(if i + c < 512 then bindR (fetch (page_at s) (hdr g (i + c))) (\<lambda>g. Inr (xblock_size (inner g) = 0)) else Inr False) = Inr False"
    proof (cases "i + c < 512")
      case True
      then obtain e v where e: "M (g, i + c) = Some (e, v)" using tiled_next [OF d(8) m] by blast
      then have v: "v \<noteq> PoppedSpan" "v \<noteq> FreeSpan" using False alone [of "(g, i + c)" e] d(2) by auto
      obtain pg where "page_at s (hdr g (i + c)) = Some pg" "xblock_size (inner pg) = 0 \<longleftrightarrow> v = FreeSpan" by (rule free_header [OF t e v(1)])
      then show ?thesis using v(2) by simp
    qed simp
    then show ?thesis using that [of 0 s] ok False skip span_frame_refl by (simp add: free_after_def)
  qed
qed

lemma coalesce_before_ok:
  assumes ok: "seg_ok s tld G M" and m: "M (g, i) = Some (c, PoppedSpan)" and alone: "\<And>key d. M key = Some (d, PoppedSpan) \<Longrightarrow> key = (g, i)"
  obtains e s' where "free_before M g i e"
    "segment_span_free_coalesce_before g (hdr g i) tld (of_nat c) s = Inr (hdr g (i - e), of_nat (c + e), s')"
    "seg_ok s' tld G (put_span M g (i - e) (c + e) PoppedSpan)"
    "span_frame tld g (slices_of M {FreeSpan, PoppedSpan}) s s'" "segment_at s' = segment_at s"
    "slices_of (put_span M g (i - e) (c + e) PoppedSpan) {FreeSpan, PoppedSpan} \<subseteq> slices_of M {FreeSpan, PoppedSpan}"
proof -
  obtain t L where t: "spans_inv (page_at s) (sqs t) G M L" using ok unfolding seg_ok_def by blast
  note d = spans_invD [OF t m]
  have skip: "put_span M g i (c + 0) PoppedSpan = M" using put_span_same [of M g i c, OF d(8) m] by simp
  note gt = hdr_checks(1) [OF d(1,4,5)]
  show ?thesis
  proof (cases "i = 0")
    case True
    have "M (g, 0) \<noteq> Some (e', FreeSpan)" for e' using m True by simp
    then show ?thesis using that [of 0 s] gt ok True skip span_frame_refl by (simp add: free_before_def segment_span_free_coalesce_before_def)
  next
    case False
    then obtain e v where e: "0 < e" "e \<le> i" "M (g, i - e) = Some (e, v)" using tiled_prev [OF d(8) m] by blast
    then have v: "v \<noteq> PoppedSpan" using alone [of "(g, i - e)" e] by auto
    obtain pg where pg: "page_at s (hdr g (i - e)) = Some pg" "xblock_size (inner pg) = 0 \<longleftrightarrow> v = FreeSpan" using free_header [OF t e(3) v] by blast
    obtain lg where lg: "page_at s (hdr g (i - e + (e - 1))) = Some lg" "poffset lg = of_nat (e - 1) * 80"
      using spans_invD(6) [OF t e(3)] v e(1) unfolding span_hdr_def by (metis diff_less zero_less_one)
    have idx: "i - e + (e - 1) = i - 1" "i - 1 - (e - 1) = i - e" using e by simp_all
    have last_p: "sub_offset (hdr g i) 1 = hdr g (i - 1)" using hdr_offsets(2) [of i g] False by simp
    have page: "calculate_page_ptr_subtract_offset (hdr g (i - 1)) (poffset lg) = hdr g (i - e)"
      unfolding lg(2) using hdr_subtract [of "e - 1" "i - 1" g] e d(4) idx(2) by simp
    have code: "segment_span_free_coalesce_before g (hdr g i) tld (of_nat c) s = (if v = FreeSpan then
        bindR (coalesce_unlink (hdr g (i - e)) tld s) (\<lambda>(n_count, s). Inr (hdr g (i - e), of_nat c + n_count, s)) else Inr (hdr g i, of_nat c, s))"
      using False lg(1) pg unfolding idx(1) by (simp add: segment_span_free_coalesce_before_def gt last_p page Let_def del: One_nat_def)
    show ?thesis
    proof (cases "v = FreeSpan")
      case True
      have E: "M (g, i - e) = Some (e, FreeSpan)" using e(3) True by simp
      have adj: "i - e = i + c \<or> i = i - e + e" using e by simp
      obtain s' where s': "coalesce_unlink (hdr g (i - e)) tld s = Inr (of_nat e, s')" "seg_ok s' tld G (put_span M g (min i (i - e)) (c + e) PoppedSpan)"
        "span_frame tld g (slices_of M {FreeSpan, PoppedSpan}) s s'" "segment_at s' = segment_at s"
        "slices_of (put_span M g (min i (i - e)) (c + e) PoppedSpan) {FreeSpan, PoppedSpan} \<subseteq> slices_of M {FreeSpan, PoppedSpan}"
        using unlink_neighbour [of s tld G M g "i - e" e i c, OF ok E m adj] by metis
      show ?thesis by (rule that [of e s']) (use s' code True E e in \<open>simp_all add: free_before_def\<close>)
    next
      case False
      have "M (g, i - e') \<noteq> Some (e', FreeSpan)" if "e' \<le> i" for e'
      proof
        assume E: "M (g, i - e') = Some (e', FreeSpan)"
        then have "0 < e'" using spans_invD(2) [OF t] by blast
        then have "i - e = i - e'" using tiled_unique [OF d(8) e(3) E, of "i - 1"] e(1,2) that by simp
        then have "e = e'" using e(2) that by simp
        then show False using E e(3) False by simp
      qed
      then show ?thesis using that [of 0 s] code False ok skip span_frame_refl by (simp add: free_before_def)
    qed
  qed
qed


text \<open>The whole of it: the popped span and the free spans next to it become one free span.\<close>

definition freed_span :: "spans \<Rightarrow> usize \<Rightarrow> nat \<Rightarrow> nat \<Rightarrow> spans \<Rightarrow> bool" where
  "freed_span M g i c M' \<longleftrightarrow> (\<exists>d e. free_after M g (i + c) d \<and> free_before M g i e \<and> M' = put_span M g (i - e) (c + d + e) FreeSpan)"

lemma free_before_put: "M (g, i) = Some (c, PoppedSpan) \<Longrightarrow> free_before (put_span M g i n PoppedSpan) g i e = free_before M g i e"
proof -
  assume m: "M (g, i) = Some (c, PoppedSpan)"
  have "put_span M g i n PoppedSpan (g, i - e') = Some (e', FreeSpan) \<longleftrightarrow> M (g, i - e') = Some (e', FreeSpan)" if "e' \<le> i" for e'
    using that m by (cases "e' = 0") auto
  then show ?thesis unfolding free_before_def by (simp del: put_span_apply cong: conj_cong imp_cong)
qed

lemma put_span_popped: "put_span M g j n PoppedSpan key = Some (d, PoppedSpan) \<Longrightarrow> (\<And>d. M key = Some (d, PoppedSpan) \<Longrightarrow> P) \<Longrightarrow> (key = (g, j) \<Longrightarrow> P) \<Longrightarrow> P"
  by (cases key) (auto split: if_splits)

lemma span_free_coalesce_ok:
  assumes ok: "seg_ok s tld G M" and m: "M (g, i) = Some (c, PoppedSpan)" and alone: "\<And>key d. M key = Some (d, PoppedSpan) \<Longrightarrow> key = (g, i)"
    and sg: "segment_at s g = Some sg" "thread_id sg \<noteq> 0" "seg_kind (main2 sg) \<noteq> Huge" and pg: "page_at s (hdr g i) = Some pg" "pcount pg = of_nat c"
  shows "outcome env (segment_span_free_coalesce env (hdr g i) tld s)
    (\<lambda>s'. (\<exists>M'. freed_span M g i c M' \<and> seg_ok s' tld G M') \<and> span_frame tld g (slices_of M {FreeSpan, PoppedSpan}) s s'
      \<and> (\<exists>sg'. segment_at s' g = Some sg' \<and> main2 sg' = main2 sg \<and> thread_id sg' = thread_id sg))"
proof -
  obtain t L where t: "spans_inv (page_at s) (sqs t) G M L" using ok unfolding seg_ok_def by blast
  note d = spans_invD [OF t m]
  let ?A = "slices_of M {FreeSpan, PoppedSpan}"
  obtain da s1 where a: "free_after M g (i + c) da"
    "\<forall>f :: u32 \<times> st \<Rightarrow> st res. bindR (if i + c < 512 then bindR (fetch (page_at s) (hdr g (i + c))) (\<lambda>g. Inr (xblock_size (inner g) = 0)) else Inr False)
       (\<lambda>is_free. bindR (if is_free then bindR (coalesce_unlink (hdr g (i + c)) tld s) (\<lambda>(n_count, s). Inr (of_nat c + n_count, s))
               else Inr (of_nat c, s)) f) = f (of_nat (c + da), s1)"
    "seg_ok s1 tld G (put_span M g i (c + da) PoppedSpan)" "span_frame tld g ?A s s1" "segment_at s1 = segment_at s"
    "slices_of (put_span M g i (c + da) PoppedSpan) {FreeSpan, PoppedSpan} \<subseteq> ?A"
    by (rule coalesce_after_ok [of s tld G M g i c, OF ok m alone])
  let ?M1 = "put_span M g i (c + da) PoppedSpan"
  have m1: "?M1 (g, i) = Some (c + da, PoppedSpan)" using d(2) by simp
  have alone1: "key = (g, i)" if "?M1 key = Some (e, PoppedSpan)" for key e using that alone by (rule put_span_popped)
  obtain e s2 where b: "free_before ?M1 g i e"
    "segment_span_free_coalesce_before g (hdr g i) tld (of_nat (c + da)) s1 = Inr (hdr g (i - e), of_nat (c + da + e), s2)"
    "seg_ok s2 tld G (put_span ?M1 g (i - e) (c + da + e) PoppedSpan)"
    "span_frame tld g (slices_of ?M1 {FreeSpan, PoppedSpan}) s1 s2" "segment_at s2 = segment_at s1"
    "slices_of (put_span ?M1 g (i - e) (c + da + e) PoppedSpan) {FreeSpan, PoppedSpan} \<subseteq> slices_of ?M1 {FreeSpan, PoppedSpan}"
    by (rule coalesce_before_ok [of s1 tld G ?M1 g i "c + da", OF a(3) m1 alone1])
  have fb: "free_before M g i e" using b(1) free_before_put [of M g i c, OF m] by simp
  have le: "e \<le> i" using fb unfolding free_before_def by auto
  let ?n = "c + da + e" and ?j = "i - e"
  let ?M2 = "put_span M g ?j ?n PoppedSpan"
  have M2: "put_span ?M1 g ?j ?n PoppedSpan = ?M2" using le by (intro put_span_put) auto
  have m2: "?M2 (g, ?j) = Some (?n, PoppedSpan)" using d(2) by simp
  obtain t2 L2 where t2: "spans_inv (page_at s2) (sqs t2) G ?M2 L2" using b(3) unfolding M2 seg_ok_def by blast
  note d2 = spans_invD [OF t2 m2]
  have M3: "?M2((g, ?j) \<mapsto> (?n, FreeSpan)) = put_span M g ?j ?n FreeSpan"
    using put_span_state [of ?M2 g ?j ?n, OF d2(8) m2] put_span_put [of ?j ?j ?n ?n M g PoppedSpan FreeSpan] by simp
  have sg2: "segment_at s2 g = Some sg" using sg a(5) b(5) by simp
  have cnt: "ucast (of_nat ?n :: u32) = (of_nat ?n :: usize)" using small_cast(1) d2(5) by blast
  have code: "segment_span_free_coalesce env (hdr g i) tld s = segment_span_free env g (of_nat ?j) (of_nat ?n) True tld s2"
  proof -
    have "ucast (pcount pg) = (of_nat c :: usize)" using pg(2) small_cast(1) d(5) by simp
    then show ?thesis
      unfolding segment_span_free_coalesce_def Let_def hdr_back(1) [OF d(1,4)]
      using sg pg(1) b(2) hdr_back(2) [OF d2(1,4)] cnt
      by (simp add: pg(2) hdr_checks(2) [OF d(1,4,5) d(3)] a(2) [rule_format] del: of_nat_add split del: if_split cong: if_cong)
  qed
  have "slices_of ?M2 {FreeSpan, PoppedSpan} \<subseteq> ?A" using b(6) a(6) unfolding M2 by blast
  note sub = span_frame_mono [OF _ this] span_frame_mono [OF _ a(6)]
  show ?thesis unfolding code
  proof (rule outcome_mono [OF span_free_ok [of s2 tld G ?M2 g ?j ?n, OF b(3) [unfolded M2] m2 sg2]])
    fix s3
    assume s3: "seg_ok s3 tld G (?M2((g, ?j) \<mapsto> (?n, FreeSpan))) \<and> span_frame tld g (slices_of ?M2 {FreeSpan, PoppedSpan}) s2 s3
      \<and> (\<exists>sg'. segment_at s3 g = Some sg' \<and> main2 sg' = main2 sg \<and> thread_id sg' = thread_id sg)"
    have "span_frame tld g ?A s s3" using span_frame_trans [OF span_frame_trans [OF a(4) sub(2) [OF b(4)]]] sub(1) s3 by blast
    moreover have "freed_span M g i c (put_span M g ?j ?n FreeSpan)" using a(1) fb unfolding freed_span_def by blast
    ultimately show "(\<exists>M'. freed_span M g i c M' \<and> seg_ok s3 tld G M') \<and> span_frame tld g ?A s s3
      \<and> (\<exists>sg'. segment_at s3 g = Some sg' \<and> main2 sg' = main2 sg \<and> thread_id sg' = thread_id sg)" using s3 unfolding M3 by blast
  qed
qed



section \<open>Freeing a page\<close>

lemma spans_inv_release:
  assumes inv: "spans_inv P T G M L" and m: "M (g, i) = Some (c, UsedSpan)"
  shows "spans_inv P T G (M((g, i) \<mapsto> (c, PoppedSpan))) L"
proof -
  note d = spans_invD [OF inv m]
  let ?M = "M((g, i) \<mapsto> (c, PoppedSpan))"
  show ?thesis
  proof (rule spans_inv_remap [OF inv])
    show "tiled ?M g'" if "g' \<in> G" for g'
      using that inv tiled_state [OF d(8) m] by (cases "g' = g") (auto simp: spans_inv_def tiled_other)
    show "?M key = Some (c', FreeSpan) \<longleftrightarrow> M key = Some (c', FreeSpan)" for key c' using m by auto
    show "g' \<in> G" if "?M (g', j) = Some (c', u)" for g' j c' u
      using that d(7) spans_invD(7) [OF inv, of g' j c' u] by (auto split: if_splits)
    show "span_hdr P g' j c' UsedSpan" if "?M (g', j) = Some (c', UsedSpan)" for g' j c'
      using that spans_invD(6) [OF inv, of g' j c' UsedSpan] by (auto split: if_splits)
  qed
qed

lemma freed_span_state:
  assumes "M (g, i) = Some (c, u)" "u \<noteq> FreeSpan" "v \<noteq> FreeSpan" "0 < c"
  shows "freed_span (M((g, i) \<mapsto> (c, v))) g i c M' = freed_span M g i c M'"
proof -
  let ?M = "M((g, i) \<mapsto> (c, v))"
  have F: "?M key = Some (d, FreeSpan) \<longleftrightarrow> M key = Some (d, FreeSpan)" for key d using assms by auto
  have same: "free_after ?M g (i + c) d = free_after M g (i + c) d" "free_before ?M g i e = free_before M g i e" for d e
    unfolding free_after_def free_before_def F by simp_all
  have "put_span ?M g (i - e) (c + d + e) FreeSpan = put_span M g (i - e) (c + d + e) FreeSpan" if "e \<le> i" for d e
    using that assms(4) by (auto simp: put_span_def fun_eq_iff)
  moreover have "e \<le> i" if "free_before M g i e" for e using that unfolding free_before_def by auto
  ultimately have "put_span ?M g (i - e) (c + d + e) FreeSpan = put_span M g (i - e) (c + d + e) FreeSpan" if "free_before M g i e" for d e
    using that by blast
  then show ?thesis unfolding freed_span_def same by (simp cong: conj_cong)
qed

lemma span_frame_main2:
  assumes "span_frame tld g A s s'" "segment_at s g = Some sg" "segment_at s' g = Some sg'"
  shows "span_frame tld g A s (s'\<lparr>segment_at := (segment_at s')(g \<mapsto> sg'\<lparr>main2 := (main2 sg')\<lparr>seg_used := u\<rparr>\<rparr>)\<rparr>)"
proof -
  have "span_frame tld g A s' (s'\<lparr>page_at := page_at s', segment_at := (segment_at s')(g \<mapsto> sg'\<lparr>main2 := (main2 sg')\<lparr>seg_used := u\<rparr>\<rparr>)\<rparr>)"
    by (rule span_frame_used [OF assms(3)]) simp
  then show ?thesis using span_frame_trans [OF assms(1)] by simp
qed

lemma seg_ok_main2:
  assumes "seg_ok s tld G M" "segment_at s g = Some sg" "g \<in> G"
  shows "seg_ok (s\<lparr>segment_at := (segment_at s)(g \<mapsto> sg\<lparr>main2 := m\<rparr>)\<rparr>) tld G M"
proof -
  let ?s = "s\<lparr>segment_at := (segment_at s)(g \<mapsto> sg\<lparr>main2 := m\<rparr>)\<rparr>"
  have ok: "commit_ok s g'" if "g' \<in> G" for g' using assms(1) that unfolding seg_ok_def by blast
  have "commit_ok ?s g'" if "g' \<in> G" for g'
  proof (cases "g' = g")
    case True
    then show ?thesis using ok [OF that] commit_ok_main [of s g sg ?s "sg\<lparr>main2 := m\<rparr>"] assms(2) by simp
  next
    case False
    have "seg_addr_ok g" using ok [OF assms(3)] by (simp add: commit_ok_def)
    then show ?thesis using ok [OF that] commit_ok_other [of s g' g ?s] False by simp
  qed
  then show ?thesis using assms(1) unfolding seg_ok_def by simp
qed

lemma page_clear_ok:
  assumes ok: "seg_ok s tld G M" and m: "M (g, i) = Some (c, UsedSpan)" and alone: "\<And>key d. M key \<noteq> Some (d, PoppedSpan)"
    and sg: "segment_at s g = Some sg" "thread_id sg \<noteq> 0" "seg_kind (main2 sg) \<noteq> Huge"
    and pg: "page_at s (hdr g i) = Some pg" "masked_ptr_delay_get_delay (xthread_free pg) \<noteq> 1"
  shows "outcome env (segment_page_clear env (hdr g i) tld s)
    (\<lambda>s'. (\<exists>M'. freed_span M g i c M' \<and> seg_ok s' tld G M') \<and> span_frame tld g (slices_of (M((g, i) \<mapsto> (c, PoppedSpan))) {FreeSpan, PoppedSpan}) s s'
      \<and> (\<exists>sg'. segment_at s' g = Some sg' \<and> main2 sg' = (main2 sg)\<lparr>seg_used := seg_used (main2 sg) - 1\<rparr>))"
proof -
  obtain t L where t: "tld_at s tld = Some t" "spans_inv (page_at s) (sqs t) G M L" "\<And>g. g \<in> G \<Longrightarrow> commit_ok s g"
    using ok unfolding seg_ok_def by blast
  note d = spans_invD [OF t(2) m]
  let ?M1 = "M((g, i) \<mapsto> (c, PoppedSpan))" and ?x = "hdr g i"
  let ?A = "slices_of ?M1 {FreeSpan, PoppedSpan}"
  have cnt: "pcount pg = of_nat c" using d(6) pg(1) unfolding span_hdr_def by simp
  define n where "n = (set_is_zero_init False (inner pg))
           \<lparr>capacity := 0, reserved := 0, free := make_empty (free (inner pg)), flags1 := 0, flags2 := 0, used := 0,
            xblock_size := 0, local_free := make_empty (local_free (inner pg))\<rparr>"
  define pg1 where "pg1 = pg\<lparr>inner := n, xthread_free := 0\<rparr>"
  define s1 where "s1 = s\<lparr>page_at := (page_at s)(?x \<mapsto> pg1)\<rparr>"
  have sets: "free (set_is_zero_init b n) = free n" "local_free (set_is_zero_init b n) = local_free n" for b n
    by (simp_all add: set_is_zero_init_def)
  have code: "segment_page_clear env ?x tld s = bindR (segment_span_free_coalesce env ?x tld s1) (\<lambda>s. upd_main2 s g (\<lambda>m. m\<lparr>seg_used := seg_used m - 1\<rparr>))"
    using sg(1) pg unfolding segment_page_clear_def Let_def hdr_back(1) [OF d(1,4)]
    by (simp add: get_main_def option_page_reset_def check_is_good_def upd_inner_eq upd_page_eq s1_def pg1_def n_def page_canon sets)
  have m1: "?M1 (g, i) = Some (c, PoppedSpan)" by simp
  have alone1: "key = (g, i)" if "?M1 key = Some (e, PoppedSpan)" for key e using that alone by (auto split: if_splits)
  have "spans_inv ((page_at s)(?x \<mapsto> pg1)) (sqs t) G ?M1 L"
    by (rule spans_inv_write_popped [of _ _ _ ?M1 _ _ i c, OF spans_inv_release [OF t(2) m] m1]) (use d(2) in simp_all)
  moreover have c1: "commit_ok s1 g'" if "g' \<in> G" for g' using t(3) [OF that] commit_ok_cong [of s1 s g'] by (simp add: s1_def)
  ultimately have ok1: "seg_ok s1 tld G ?M1" using t(1) unfolding seg_ok_def by (auto simp: s1_def)
  have sg1: "segment_at s1 g = Some sg" "page_at s1 ?x = Some pg1" "pcount pg1 = of_nat c" using sg(1) cnt by (simp_all add: s1_def pg1_def)
  have "?x \<in> ?A" using slices_popped_split [of ?M1 g i c i] d(2) by simp
  then have fr1: "span_frame tld g ?A s s1" unfolding s1_def by (intro span_frame_pages) auto
  show ?thesis unfolding code
  proof (rule outcome_bind [OF span_free_coalesce_ok [of s1 tld G ?M1 g i c, OF ok1 m1 alone1 sg1(1) sg(2,3) sg1(2,3)]])
    fix s2
    assume s2: "(\<exists>M'. freed_span ?M1 g i c M' \<and> seg_ok s2 tld G M') \<and> span_frame tld g ?A s1 s2
      \<and> (\<exists>sg'. segment_at s2 g = Some sg' \<and> main2 sg' = main2 sg \<and> thread_id sg' = thread_id sg)"
    then obtain M' sg2 where M': "freed_span M g i c M'" "seg_ok s2 tld G M'" and sg2: "segment_at s2 g = Some sg2" "main2 sg2 = main2 sg"
      using freed_span_state [of M g i c UsedSpan PoppedSpan, OF m] d(2) by auto
    let ?s3 = "s2\<lparr>segment_at := (segment_at s2)(g \<mapsto> sg2\<lparr>main2 := (main2 sg2)\<lparr>seg_used := seg_used (main2 sg2) - 1\<rparr>\<rparr>)\<rparr>"
    have "span_frame tld g ?A s s2" using fr1 s2 span_frame_trans by blast
    then have "span_frame tld g ?A s ?s3" by (rule span_frame_main2 [OF _ sg(1) sg2(1)])
    moreover have "seg_ok ?s3 tld G M'" by (rule seg_ok_main2 [OF M'(2) sg2(1) d(7)])
    ultimately show "outcome env (upd_main2 s2 g (\<lambda>m. m\<lparr>seg_used := seg_used m - 1\<rparr>)) (\<lambda>s'. (\<exists>M'. freed_span M g i c M' \<and> seg_ok s' tld G M') \<and> span_frame tld g ?A s s'
      \<and> (\<exists>sg'. segment_at s' g = Some sg' \<and> main2 sg' = (main2 sg)\<lparr>seg_used := seg_used (main2 sg) - 1\<rparr>))"
      using M'(1) sg2 by (auto simp: upd_main2_eq)
  qed
qed

end
