(* ===== verification/Segment_Alloc.thy ===== *)
theory Segment_Alloc
  imports Span_Free
begin

text \<open>
  Fresh segments (\<^verbatim>\<open>segment_alloc\<close> and its callers in \<^verbatim>\<open>segment.rs\<close>): the memory comes from the
  operating system, the headers are written, the first slice is allocated for the segment's own
  data and the rest becomes one free span. With it, the search for a page ends after at most
  two rounds.
\<close>

section \<open>Memory for a segment\<close>

text \<open>
  What the code relies on of \<^verbatim>\<open>mmap\<close>: an address it will return is not that of a live segment, and
  a segment there does not reach the end of the address space.
\<close>

definition mmap_fresh :: "Env \<Rightarrow> st \<Rightarrow> usize set \<Rightarrow> bool" where
  "mmap_fresh env s G \<longleftrightarrow> (\<forall>n hint len rw. sys_calls s \<le> n \<and> env_mmap env n hint len rw \<noteq> MAP_FAILED \<longrightarrow>
     env_mmap env n hint len rw \<notin> G \<and> unat (env_mmap env n hint len rw) + 33558528 < 18446744073709551616)"

text \<open>The address is the kernel's answer to a request for a segment.\<close>

definition mapped_by :: "Env \<Rightarrow> st \<Rightarrow> usize \<Rightarrow> bool" where
  "mapped_by env s g \<longleftrightarrow> (\<exists>n h rw. sys_calls s \<le> n \<and> g = env_mmap env n h 33554432 rw \<and> g \<noteq> MAP_FAILED)"

text \<open>A kernel that never runs out of memory and aligns what it returns.\<close>

definition mmap_granted :: "Env \<Rightarrow> bool" where
  "mmap_granted env \<longleftrightarrow> (\<forall>n hint len rw. env_mmap env n hint len rw \<noteq> MAP_FAILED \<and> env_mmap env n hint len rw \<noteq> 0
     \<and> 33554432 dvd unat (env_mmap env n hint len rw))"

text \<open>The calls below change nothing but protection, address hints and the count of system calls.\<close>

definition os_only :: "st \<Rightarrow> st \<Rightarrow> bool" where
  "os_only s s' \<longleftrightarrow> page_at s' = page_at s \<and> segment_at s' = segment_at s \<and> heap_at s' = heap_at s \<and> tld_at s' = tld_at s
     \<and> node_at s' = node_at s \<and> thread_count s' = thread_count s"

lemma os_only_refl: "os_only s s"
  by (simp add: os_only_def)

lemma os_only_trans: "os_only s s1 \<Longrightarrow> os_only s1 s2 \<Longrightarrow> os_only s s2"
  by (simp add: os_only_def)

lemma hint_frame: "os_only s (snd (os_get_aligned_hint al sz s))"
  by (simp add: os_get_aligned_hint_def aligned_base_add_def aligned_base_cas_def os_only_def Let_def)

lemma mmap_prot_frame: "os_only s (snd (mmap_prot env rw hint len s))"
  by (simp add: mmap_prot_def os_only_def set_prot_def Let_def)

lemma hint_calls: "sys_calls (snd (os_get_aligned_hint al sz s)) = sys_calls s"
  by (simp add: os_get_aligned_hint_def aligned_base_add_def aligned_base_cas_def Let_def)

lemma mmap_prot_calls: "sys_calls (snd (mmap_prot env rw hint len s)) = sys_calls s + 1"
  by (simp add: mmap_prot_def set_prot_def Let_def)

lemma mmap_prot_result: "fst (mmap_prot env rw hint len s) = env_mmap env (sys_calls s) hint len rw"
  by (simp add: mmap_prot_def Let_def)

lemma unix_mmapx_frame:
  assumes "unix_mmapx env 0 sz al rw s = (p, s')"
  shows "os_only s s'" "p \<noteq> 0 \<Longrightarrow> \<exists>n h. sys_calls s \<le> n \<and> p = env_mmap env n h sz rw \<and> p \<noteq> MAP_FAILED"
    "mmap_granted env \<Longrightarrow> p \<noteq> 0"
proof -
  obtain h s1 where h: "os_get_aligned_hint al sz s = (h, s1)" "os_only s s1" "sys_calls s1 = sys_calls s"
    using hint_frame [of s al sz] hint_calls [of al sz s] by (metis prod.exhaust_sel)
  obtain p1 s2 where m1: "mmap_prot env rw h sz s1 = (p1, s2)" "os_only s1 s2" "p1 = env_mmap env (sys_calls s1) h sz rw" "sys_calls s2 = sys_calls s1 + 1"
    using mmap_prot_frame [of s1 env rw h sz] mmap_prot_result [of env rw h sz s1] mmap_prot_calls [of env rw h sz s1] by (metis prod.collapse)
  define s3 where "s3 = (if h \<noteq> 0 then s2 else s1)"
  obtain p2 s4 where m2: "mmap_prot env rw 0 sz s3 = (p2, s4)" "os_only s3 s4" "p2 = env_mmap env (sys_calls s3) 0 sz rw"
    using mmap_prot_frame [of s3 env rw 0 sz] mmap_prot_result [of env rw 0 sz s3] by (metis prod.collapse)
  have r: "(p, s') = (if h \<noteq> 0 \<and> p1 \<noteq> MAP_FAILED then (p1, s2) else if p2 \<noteq> MAP_FAILED then (p2, s4) else (0, s4))"
    using assms h(1) m1(1) m2(1) unfolding unix_mmapx_def s3_def by (cases "h = 0") (auto simp: INTPTR_SIZE_def split: if_splits)
  have f2: "os_only s s2" by (rule os_only_trans [OF h(2) m1(2)])
  have "os_only s s3" using h(2) f2 unfolding s3_def by simp
  from os_only_trans [OF this m2(2)] show "os_only s s'" using r f2 by (auto split: if_splits)
  have "sys_calls s \<le> sys_calls s3" using h(3) m1(4) by (simp add: s3_def)
  then show "\<exists>n h. sys_calls s \<le> n \<and> p = env_mmap env n h sz rw \<and> p \<noteq> MAP_FAILED" if "p \<noteq> 0" using r that h(3) m1(3) m2(3) by (auto split: if_splits)
  show "p \<noteq> 0" if "mmap_granted env" using r that m1(3) m2(3) by (auto simp: mmap_granted_def split: if_splits)
qed


lemma whole_segment: "in_region g 33554432 x \<longleftrightarrow> x \<in> chunk_bytes g {..<512}"
proof -
  have "(unat x - unat g) div 65536 < 512 \<longleftrightarrow> unat x - unat g < 33554432" using div_less_iff_less_mult [of 65536 "unat x - unat g" 512] by simp
  then show ?thesis unfolding in_region_def chunk_bytes_def by auto
qed

lemma calculate_slices_0: "segment_calculate_slices 0 = (512, 4096, 1)"
  by (simp add: segment_calculate_slices_def get_page_size_def layout_consts align_up_def align_down_def Let_def)

lemma good_segment_size: "os_good_alloc_size 33554432 = 33554432"
  by (simp add: os_good_alloc_size_def get_page_size_def align_up_def Let_def)


lemma create_first: "create empty 0 1 = Inr m \<Longrightarrow> cm_wf m \<and> view m = {0}"
  "\<exists>m. create empty 0 1 = Inr m"
  using view_create [of empty 0 1] by (auto simp: view_empty)

text \<open>
  The memory of a segment: nowhere near a live one, the first chunk committed at least, and what
  the mask calls committed can be read and written.
\<close>

lemma segment_os_alloc_ok:
  assumes fresh: "mmap_fresh env s G" and r: "segment_os_alloc env 0 delay aid 512 1 empty empty rw s = r"
  shows "r = Inl Todo \<and> \<not> mmap_granted env \<or> r = Inl Panic \<and> \<not> mprotect_granted env
    \<or> (\<exists>g cm s'. r = Inr (\<lparr>os_ptr = g, os_commit_mask = cm, os_decommit_mask = empty, os_mem_id = 0, os_mem_large = False,
          os_is_pinned = False, os_align_offset = 0\<rparr>, s') \<and> seg_addr_ok g \<and> g \<notin> G \<and> mapped_by env s g \<and> cm_wf cm \<and> 0 \<in> view cm \<and> os_only s s'
        \<and> (\<forall>x. \<not> in_segment g x \<longrightarrow> os_prot s' x = os_prot s x) \<and> (\<forall>x \<in> chunk_bytes g (view cm). os_prot s' x = Some True))"
proof -
  obtain g s1 where m: "unix_mmapx env 0 33554432 33554432 rw s = (g, s1)" by (cases "unix_mmapx env 0 33554432 33554432 rw s")
  have arena: "arena_alloc_aligned env 33554432 33554432 0 rw (\<not> delay) aid s =
      (if g = 0 \<or> \<not> 33554432 dvd unat g then Inl Todo else Inr (g, rw, False, False, True, 0, s1))"
    using arena_alloc_cases [of 33554432 25 env rw "\<not> delay" aid s] m by (simp add: good_segment_size)
  show ?thesis
  proof (cases "g = 0 \<or> \<not> 33554432 dvd unat g")
    case True
    have "\<not> mmap_granted env"
      using True unix_mmapx_frame(2,3) [OF m] unfolding mmap_granted_def by metis
    then show ?thesis using r arena True by (simp add: segment_os_alloc_def layout_consts Let_def)
  next
    case False
    obtain n h where h: "sys_calls s \<le> n" "g = env_mmap env n h 33554432 rw" "g \<noteq> MAP_FAILED" using unix_mmapx_frame(2) [OF m] False by blast
    then have g: "g \<notin> G" "unat g + 33558528 < 18446744073709551616" using fresh unfolding mmap_fresh_def by blast+
    then have a: "seg_addr_ok g" using False by (simp add: seg_addr_ok_def)
    have mb: "mapped_by env s g" using h unfolding mapped_by_def by blast
    have fr: "os_only s s1" by (rule unix_mmapx_frame(1) [OF m])
    have prot: "os_prot s1 = (\<lambda>x. if in_region g 33554432 x then Some rw else os_prot s x)" using unix_mmapx_exact [OF m] False by simp
    have seg: "in_region g 33554432 x \<longleftrightarrow> in_segment g x" for x by (simp add: in_region_def in_segment_def)
    obtain m1 where m1: "create empty 0 1 = Inr m1" "cm_wf m1" "view m1 = {0}" using create_first by blast
    let ?res = "\<lambda>cm. \<lparr>os_ptr = g, os_commit_mask = cm, os_decommit_mask = empty, os_mem_id = 0, os_mem_large = False,
          os_is_pinned = False, os_align_offset = 0\<rparr>"
    show ?thesis
    proof (cases rw)
      case True
      then have "r = Inr (?res (create_full empty), s1)"
        using r arena False m1 by (simp add: segment_os_alloc_def layout_consts Let_def all_set_iff empty_wf view_create_full)
      then show ?thesis using a g(1) mb fr prot True
        by (auto simp: view_create_full empty_wf whole_segment [symmetric] seg)
    next
      case False
      let ?cm = "set_mask (create_empty empty) m1"
      let ?P = "prot_chunks g {0..<1} True (os_prot s1)"
      have cm: "cm_wf ?cm" "view ?cm = {0}" using m1(3) by (simp_all add: view_set_mask view_create_empty)
      have commit: "os_commit env g 65536 s1 = (if env_mprotect env (sys_calls s1) g 65536 True
          then Inr (True, False, s1\<lparr>os_prot := ?P, sys_calls := sys_calls s1 + 1\<rparr>) else Inl Panic)"
        using os_chunks [OF a, of g 0 65536 1 env True False s1] by (simp add: os_commit_def)
      have code: "r = (if env_mprotect env (sys_calls s1) g 65536 True
          then Inr (?res ?cm, s1\<lparr>os_prot := ?P, sys_calls := sys_calls s1 + 1\<rparr>) else Inl Panic)"
        using r arena \<open>\<not> (g = 0 \<or> \<not> 33554432 dvd unat g)\<close> False m1 commit
        by (cases "env_mprotect env (sys_calls s1) g 65536 True")
          (simp_all add: segment_os_alloc_def layout_consts Let_def all_set_iff view_create_empty)
      have "?P x = os_prot s x" if "\<not> in_segment g x" for x
        using that chunk_bytes_in_segment [of "{0..<1}" x g] prot seg by (auto simp: prot_chunks_def)
      then show ?thesis using code a g(1) mb fr cm by (auto simp: mprotect_granted_def os_only_def prot_chunks_def)
    qed
  qed
qed



section \<open>The headers of a fresh segment\<close>

definition with_headers :: "usize \<Rightarrow> nat \<Rightarrow> page_map \<Rightarrow> page_map" where
  "with_headers g i P = (\<lambda>x. if x \<in> {hdr g k | k. i \<le> k \<and> k \<le> 512} then Some zeroed_page else P x)"

lemma hdr_Suc: "hdr g i + SIZEOF_PAGE_HEADER = hdr g (i + 1)"
  by (simp add: hdr_def get_page_header_ptr_def layout_consts algebra_simps)

lemma with_headers_step:
  assumes "i \<le> 512"
  shows "with_headers g (i + 1) (P(hdr g i \<mapsto> zeroed_page)) = with_headers g i P"
proof -
  have "{hdr g k | k. i \<le> k \<and> k \<le> 512} = insert (hdr g i) {hdr g k | k. i + 1 \<le> k \<and> k \<le> 512}"
    using assms by (auto simp: Suc_le_eq intro: le_neq_implies_less)
  then show ?thesis by (auto simp: with_headers_def fun_eq_iff)
qed

lemma header_loop_ok: "i \<le> 513 \<Longrightarrow> header_loop i (hdr g i) s = s\<lparr>page_at := with_headers g i (page_at s)\<rparr>"
proof (induction "513 - i" arbitrary: i s)
  case 0
  then have "i = 513" by simp
  then have "with_headers g i (page_at s) = page_at s" by (auto simp: with_headers_def fun_eq_iff)
  then show ?case using 0 by (subst header_loop.simps) (simp add: layout_consts)
next
  case (Suc n)
  let ?s = "s\<lparr>page_at := (page_at s)(hdr g i \<mapsto> zeroed_page)\<rparr>"
  have i: "i \<le> 512" "i \<le> unat SLICES_PER_SEGMENT" using Suc.hyps(2) by (simp_all add: layout_consts)
  have "header_loop (i + 1) (hdr g (i + 1)) ?s = ?s\<lparr>page_at := with_headers g (i + 1) (page_at ?s)\<rparr>"
    by (rule Suc.hyps(1)) (use Suc.hyps(2) in simp_all)
  then show ?case using i with_headers_step [OF i(1), of g "page_at s"] by (subst header_loop.simps) (simp add: hdr_Suc)
qed

text \<open>A segment with two spans that no queue knows yet.\<close>

lemma spans_inv_extend:
  assumes inv: "spans_inv P T G M L" and g: "seg_addr_ok g" "g \<notin> G"
  shows "spans_inv (with_headers g 0 P) T (insert g G) (M((g, 0) \<mapsto> (1, PoppedSpan), (g, 1) \<mapsto> (511, PoppedSpan))) L"
proof -
  let ?P = "with_headers g 0 P" and ?M = "M((g, 0) \<mapsto> (1, PoppedSpan), (g, 1) \<mapsto> (511, PoppedSpan))"
  have none: "M (g, i) = None" for i using g(2) spans_invD(7) [OF inv, of g i] by (cases "M (g, i)") auto
  have old: "?P (hdr g' k) = P (hdr g' k)" if "g' \<in> G" "k \<le> 512" for g' k
  proof -
    have a: "seg_addr_ok g'" "g' \<noteq> g" using inv that g unfolding spans_inv_def by auto
    have "hdr g' k \<noteq> hdr g k'" if "k' \<le> 512" for k' using hdr_inject [OF a(1) g(1) \<open>k \<le> 512\<close> that] a(2) by simp
    then show ?thesis by (auto simp: with_headers_def)
  qed
  have tg: "tiled ?M g"
  proof -
    have "?M (g, i) = (if i = 1 then Some (511, PoppedSpan) else if i = 0 then Some (1, PoppedSpan) else None)" for i using none by simp
    moreover have "k < 512 \<Longrightarrow> k = 0 \<or> 1 \<le> k \<and> k < 1 + 511" for k :: nat by auto
    ultimately show ?thesis unfolding tiled_def by (auto split: if_splits)
  qed
  have keep: "?M (g', i) = Some (c, u) \<longleftrightarrow> M (g', i) = Some (c, u)" if "g' \<noteq> g" for g' i c u using that by simp
  have tiled: "tiled ?M g'" if "g' \<in> G" for g'
  proof -
    have "g' \<noteq> g" "tiled M g'" using that inv g(2) unfolding spans_inv_def by auto
    then show ?thesis by (simp add: tiled_other)
  qed
  have free: "free_hdrs ?M b = free_hdrs M b" for b
  proof -
    have "?M key = Some (c, FreeSpan) \<longleftrightarrow> M key = Some (c, FreeSpan)" for key c using none by (cases key) auto
    then show ?thesis by (simp only: free_hdrs_def)
  qed
  have spans: "g' \<in> insert g G \<and> span_hdr ?P g' i c u" if "?M (g', i) = Some (c, u)" for g' i c u
  proof (cases "g' = g")
    case True
    then have "u = PoppedSpan" using that none by (auto split: if_splits)
    then show ?thesis using True by (simp add: span_hdr_def)
  next
    case False
    then have m: "M (g', i) = Some (c, u)" using that by simp
    note d = spans_invD [OF inv m]
    have "span_hdr ?P g' i c u = span_hdr P g' i c u" by (rule span_hdr_cong) (use old d in simp_all)
    then show ?thesis using d by simp
  qed
  have queue: "dseg ?P 0 (L ! b) 0" if "b < 32" for b
  proof -
    have "?P x = P x" if x: "x \<in> set (L ! b)" for x
    proof -
      have "x \<in> free_hdrs M b" using x inv \<open>b < 32\<close> unfolding spans_inv_def by blast
      then obtain g' i c where "x = hdr g' i" "M (g', i) = Some (c, FreeSpan)" unfolding free_hdrs_def by blast
      then show ?thesis using old spans_invD(4,7) [OF inv] by blast
    qed
    then have "dseg ?P 0 (L ! b) 0 = dseg P 0 (L ! b) 0" by (rule dseg_cong)
    then show ?thesis using inv \<open>b < 32\<close> unfolding spans_inv_def by blast
  qed
  have "?P (hdr g' k) \<noteq> None" if "g' \<in> insert g G" "k \<le> 512" for g' k
    using that old inv by (auto simp: spans_inv_def with_headers_def)
  then show ?thesis using inv g(1) tg tiled spans queue free unfolding spans_inv_def by auto
qed



section \<open>A fresh segment\<close>

definition fresh_spans :: "spans \<Rightarrow> usize \<Rightarrow> spans" where
  "fresh_spans M g = M((g, 0) \<mapsto> (1, UsedSpan), (g, 1) \<mapsto> (511, FreeSpan))"

definition fresh_segment :: "Env \<Rightarrow> st \<Rightarrow> usize \<Rightarrow> usize set \<Rightarrow> spans \<Rightarrow> usize \<Rightarrow> st \<Rightarrow> bool" where
  "fresh_segment env s tld G M g s' \<longleftrightarrow> g \<noteq> 0 \<and> g \<notin> G \<and> mapped_by env s g \<and> seg_ok s' tld (insert g G) (fresh_spans M g)
     \<and> (\<exists>sg. segment_at s' g = Some sg \<and> thread_id sg = env_thread_id env \<and> seg_kind (main2 sg) = Normal
          \<and> seg_used (main2 sg) = 0 \<and> abandoned (main2 sg) = 0)
     \<and> heap_at s' = heap_at s \<and> node_at s' = node_at s \<and> thread_count s' = thread_count s
     \<and> (\<forall>q. q \<noteq> g \<longrightarrow> segment_at s' q = segment_at s q) \<and> (\<forall>q. q \<noteq> tld \<longrightarrow> tld_at s' q = tld_at s q)
     \<and> (\<forall>x. \<not> in_segment g x \<longrightarrow> os_prot s' x = os_prot s x)
     \<and> (\<forall>x. x \<notin> slices_of M {FreeSpan, PoppedSpan} \<and> x \<notin> {hdr g k | k. k \<le> 512} \<longrightarrow> page_at s' x = page_at s x)"

text \<open>The segment as the writes leave it, before its first slice is allocated.\<close>

lemma seg_ok_extend:
  assumes ok: "seg_ok s tld G M" and g: "seg_addr_ok g" "g \<notin> G" and os: "os_only s s0"
    and prot: "\<And>x. \<not> in_segment g x \<Longrightarrow> os_prot s0 x = os_prot s x"
    and cm: "cm_wf (commit_mask (main sg))" "decommit_mask (main sg) = empty" "\<forall>x \<in> chunk_bytes g (view (commit_mask (main sg))). os_prot s0 x = Some True"
  defines "s1 \<equiv> s0\<lparr>segment_at := (segment_at s0)(g \<mapsto> sg), page_at := with_headers g 0 (page_at s0)\<rparr>"
  shows "seg_ok s1 tld (insert g G) (M((g, 0) \<mapsto> (1, PoppedSpan), (g, 1) \<mapsto> (511, PoppedSpan)))"
proof -
  obtain t L where t: "tld_at s tld = Some t" "spans_inv (page_at s) (sqs t) G M L" "\<And>g. g \<in> G \<Longrightarrow> commit_ok s g"
    using ok unfolding seg_ok_def by blast
  have "commit_ok s1 g" using g(1) cm unfolding commit_ok_def s1_def by (simp add: view_empty)
  moreover have "commit_ok s1 g'" if "g' \<in> G" for g'
  proof (rule commit_ok_other [OF t(3) [OF that] _ g(1)])
    show "g' \<noteq> g" using that g(2) by blast
    then show "segment_at s1 g' = segment_at s g'" using os by (simp add: s1_def os_only_def)
    show "os_prot s1 x = os_prot s x" if "\<not> in_segment g x" for x using prot [OF that] by (simp add: s1_def)
  qed
  moreover have "spans_inv (page_at s1) (sqs t) (insert g G) (M((g, 0) \<mapsto> (1, PoppedSpan), (g, 1) \<mapsto> (511, PoppedSpan))) L"
    using spans_inv_extend [OF t(2) g] os by (simp add: s1_def os_only_def)
  moreover have "tld_at s1 tld = Some t" using t(1) os by (simp add: s1_def os_only_def)
  ultimately show ?thesis unfolding seg_ok_def by blast
qed

lemma fresh_slices:
  assumes "spans_inv P T G M L" "g \<notin> G"
  shows "slices_of (M((g, 0) \<mapsto> (1, PoppedSpan), (g, 1) \<mapsto> (511, PoppedSpan))) {FreeSpan, PoppedSpan}
    \<subseteq> slices_of M {FreeSpan, PoppedSpan} \<union> {hdr g k | k. k \<le> 512}"
proof
  fix x assume "x \<in> slices_of (M((g, 0) \<mapsto> (1, PoppedSpan), (g, 1) \<mapsto> (511, PoppedSpan))) {FreeSpan, PoppedSpan}"
  then obtain g' k i c u where x: "x = hdr g' k" "(M((g, 0) \<mapsto> (1, PoppedSpan), (g, 1) \<mapsto> (511, PoppedSpan))) (g', i) = Some (c, u)"
    "u \<in> {FreeSpan, PoppedSpan}" "i \<le> k" "k < i + c" unfolding slices_of_def by blast
  show "x \<in> slices_of M {FreeSpan, PoppedSpan} \<union> {hdr g k | k. k \<le> 512}"
  proof (cases "g' = g")
    case True
    have "M (g, i) = None" using assms(2) spans_invD(7) [OF assms(1), of g i] by (cases "M (g, i)") auto
    then have "k \<le> 512" using True x by (auto split: if_splits)
    then show ?thesis using True x(1) by blast
  next
    case False
    then have "M (g', i) = Some (c, u)" using x(2) by simp
    then show ?thesis using x slices_mem [of M g' i c u _ k] by blast
  qed
qed


lemma slices_of_use: "slices_of (M((g, i) \<mapsto> (c, UsedSpan))) {FreeSpan, PoppedSpan} \<subseteq> slices_of M {FreeSpan, PoppedSpan}"
  unfolding slices_of_def by (auto split: if_splits) blast+

text \<open>The first slice goes to the segment's own data, the others become one free span.\<close>

lemma first_spans:
  assumes ok: "seg_ok s tld G (M((g, 0) \<mapsto> (1, PoppedSpan), (g, 1) \<mapsto> (511, PoppedSpan)))" and sg: "segment_at s g = Some sg" "seg_used (main2 sg) = 0"
    and g: "g \<in> G"
  shows "outcome env (bindR (segment_span_allocate env g (hdr g 0) 1 s) (\<lambda>(success, s).
        if \<not> success then todo
        else bindR (upd_main2 s g (\<lambda>m. m\<lparr>seg_used := seg_used m - 1\<rparr>)) (\<lambda>s.
            bindR (segment_span_free env g 1 (SLICES_PER_SEGMENT - 1) False tld s) (\<lambda>s. Inr (g, s)))))
    (\<lambda>(p, s'). p = g \<and> seg_ok s' tld G (fresh_spans M g)
      \<and> span_frame tld g (slices_of (M((g, 0) \<mapsto> (1, PoppedSpan), (g, 1) \<mapsto> (511, PoppedSpan))) {FreeSpan, PoppedSpan}) s s'
      \<and> (\<exists>sg'. segment_at s' g = Some sg' \<and> main2 sg' = main2 sg))"
proof -
  let ?M1 = "M((g, 0) \<mapsto> (1, PoppedSpan), (g, 1) \<mapsto> (511, PoppedSpan))"
  let ?M2 = "?M1((g, 0) \<mapsto> (1, UsedSpan))"
  let ?A = "slices_of ?M1 {FreeSpan, PoppedSpan}"
  let ?R = "\<lambda>(p, s'). p = g \<and> seg_ok s' tld G (fresh_spans M g) \<and> span_frame tld g ?A s s' \<and> (\<exists>sg'. segment_at s' g = Some sg' \<and> main2 sg' = main2 sg)"
  have m1: "?M1 (g, 0) = Some (1, PoppedSpan)" and m2: "?M2 (g, 1) = Some (511, PoppedSpan)" by simp_all
  have fin: "?M2((g, 1) \<mapsto> (511, FreeSpan)) = fresh_spans M g" by (simp add: fresh_spans_def fun_upd_twist)
  have A2: "slices_of ?M2 {FreeSpan, PoppedSpan} \<subseteq> ?A" by (rule slices_of_use)
  have w: "(1 :: usize) = of_nat 1" "SLICES_PER_SEGMENT - 1 = (of_nat 511 :: usize)" by (simp_all add: layout_consts)
  note alloc = span_allocate_ok [of s tld G ?M1 g 0 1, OF ok m1 sg(1), of env, folded w(1)]
  show ?thesis
  proof (rule outcome_bind [OF alloc])
    fix a
    assume a: "case a of (suc, s') \<Rightarrow> suc \<and> seg_ok s' tld G ?M2 \<and> span_frame tld g ?A s s'
      \<and> (\<exists>sg'. segment_at s' g = Some sg' \<and> main2 sg' = (main2 sg)\<lparr>seg_used := seg_used (main2 sg) + 1\<rparr>)
      \<and> (\<exists>pg. page_at s' (hdr g 0) = Some pg \<and> pcount pg = of_nat 1 \<and> xblock_size (inner pg) = of_nat (1 * 65536))
      \<and> (\<forall>x. unat g + 65536 * 0 \<le> unat x \<and> unat x < unat g + 65536 * (0 + 1) \<longrightarrow> os_prot s' x = Some True)
      \<and> {0..<0 + 1} \<subseteq> committed s' g"
    then obtain s2 sg2 where s2: "a = (True, s2)" "seg_ok s2 tld G ?M2" "span_frame tld g ?A s s2" "segment_at s2 g = Some sg2"
      "main2 sg2 = (main2 sg)\<lparr>seg_used := seg_used (main2 sg) + 1\<rparr>" by (cases a) auto
    define s3 where "s3 = s2\<lparr>segment_at := (segment_at s2)(g \<mapsto> sg2\<lparr>main2 := (main2 sg2)\<lparr>seg_used := seg_used (main2 sg2) - 1\<rparr>\<rparr>)\<rparr>"
    have u: "upd_main2 s2 g (\<lambda>m. m\<lparr>seg_used := seg_used m - 1\<rparr>) = Inr s3" using s2(4) by (simp add: upd_main2_eq s3_def)
    have ok3: "seg_ok s3 tld G ?M2" unfolding s3_def by (rule seg_ok_main2 [OF s2(2,4) g])
    have fr3: "span_frame tld g ?A s s3" unfolding s3_def by (rule span_frame_main2 [OF s2(3) sg(1) s2(4)])
    define sg3 where "sg3 = sg2\<lparr>main2 := (main2 sg2)\<lparr>seg_used := seg_used (main2 sg2) - 1\<rparr>\<rparr>"
    have sg3: "segment_at s3 g = Some sg3" "main2 sg3 = main2 sg" using s2(5) sg(2) by (simp_all add: s3_def sg3_def)
    have "outcome env (bindR (segment_span_free env g 1 (SLICES_PER_SEGMENT - 1) False tld s3) (\<lambda>s. Inr (g, s))) ?R"
    proof (rule outcome_bind [OF span_free_ok [of s3 tld G ?M2 g 1 511, OF ok3 m2 sg3(1), folded w]])
      fix s4
      assume s4: "seg_ok s4 tld G (?M2((g, 1) \<mapsto> (511, FreeSpan))) \<and> span_frame tld g (slices_of ?M2 {FreeSpan, PoppedSpan}) s3 s4 \<and>
          (\<exists>sg'. segment_at s4 g = Some sg' \<and> main2 sg' = main2 sg3 \<and> thread_id sg' = thread_id sg3)"
      have "span_frame tld g ?A s s4" using span_frame_trans [OF fr3] span_frame_mono [OF _ A2] s4 by blast
      then show "outcome env (Inr (g, s4)) ?R" using s4 sg3(2) unfolding fin by auto
    qed
    then show "outcome env (case a of (success, s) \<Rightarrow> if \<not> success then todo
        else bindR (upd_main2 s g (\<lambda>m. m\<lparr>seg_used := seg_used m - 1\<rparr>)) (\<lambda>s.
            bindR (segment_span_free env g 1 (SLICES_PER_SEGMENT - 1) False tld s) (\<lambda>s. Inr (g, s)))) ?R"
      using u s2(1) by simp
  qed
qed


lemma fresh_segment_intro:
  assumes os: "os_only s s0" "\<And>x. \<not> in_segment g x \<Longrightarrow> os_prot s0 x = os_prot s x" and g: "g \<noteq> 0" "g \<notin> G" "mapped_by env s g"
    and sg: "seg_kind (main2 sg) = Normal" "thread_id sg = env_thread_id env" "seg_used (main2 sg) = 0" "abandoned (main2 sg) = 0"
    and fr: "span_frame tld g A (s0\<lparr>segment_at := (segment_at s0)(g \<mapsto> sg), page_at := with_headers g 0 (page_at s0)\<rparr>) s'"
      "A \<subseteq> slices_of M {FreeSpan, PoppedSpan} \<union> {hdr g k | k. k \<le> 512}"
    and s': "seg_ok s' tld (insert g G) (fresh_spans M g)" "segment_at s' g = Some sg'" "main2 sg' = main2 sg"
  shows "fresh_segment env s tld G M g s'"
proof -
  let ?s1 = "s0\<lparr>segment_at := (segment_at s0)(g \<mapsto> sg), page_at := with_headers g 0 (page_at s0)\<rparr>"
  have f: "heap_at s' = heap_at ?s1" "node_at s' = node_at ?s1" "thread_count s' = thread_count ?s1"
    "\<And>q. q \<noteq> g \<Longrightarrow> segment_at s' q = segment_at ?s1 q" "\<And>q. q \<noteq> tld \<Longrightarrow> tld_at s' q = tld_at ?s1 q"
    "\<And>x. x \<notin> A \<Longrightarrow> page_at s' x = page_at ?s1 x" "\<And>x. \<not> in_segment g x \<Longrightarrow> os_prot s' x = os_prot ?s1 x"
    using fr(1) unfolding span_frame_def by blast+
  have "segment_at ?s1 g = Some sg" by simp
  then obtain e dm cm u where "segment_at s' g = Some (sg\<lparr>main := (main sg)\<lparr>decommit_expire := e, decommit_mask := dm, commit_mask := cm\<rparr>,
          main2 := (main2 sg)\<lparr>seg_used := u\<rparr>\<rparr>)" using fr(1) unfolding span_frame_def by blast
  then have t: "thread_id sg' = thread_id sg" using s'(2) by simp
  have "page_at s' x = page_at s x" if "x \<notin> slices_of M {FreeSpan, PoppedSpan}" "x \<notin> {hdr g k | k. k \<le> 512}" for x
  proof -
    have "x \<notin> A" using that fr(2) by blast
    moreover have "with_headers g 0 (page_at s0) x = page_at s0 x" using that(2) unfolding with_headers_def by auto
    ultimately show ?thesis using f(6) [of x] os(1) by (simp add: os_only_def)
  qed
  then show ?thesis using f t s' sg g os unfolding fresh_segment_def by (auto simp: os_only_def)
qed

lemma segment_alloc_ok:
  assumes ok: "seg_ok s tld G M" and fresh: "mmap_fresh env s G"
  shows "segment_alloc env 0 0 aid tld s = Inl Todo \<and> \<not> mmap_granted env
    \<or> outcome env (segment_alloc env 0 0 aid tld s) (\<lambda>(g, s'). fresh_segment env s tld G M g s')"
proof -
  obtain t L where t: "tld_at s tld = Some t" "spans_inv (page_at s) (sqs t) G M L" using ok unfolding seg_ok_def by blast
  define delay where "delay = (thread_count s > 1 \<and> segments_count (segments t) < option_eager_commit_delay)"
  let ?c = "\<not> delay \<and> option_eager_commit \<or> (0 :: usize) > 0"
  let ?r = "segment_os_alloc env 0 delay aid 512 1 empty empty ?c s"
  note code = segment_alloc_def calculate_slices_0 Let_def prod.case fetch_simps(1) [of "tld_at s", OF t(1)] bindR_simps delay_def [symmetric]
  from segment_os_alloc_ok [OF fresh refl, of delay aid ?c] consider (todo) "?r = Inl Todo" "\<not> mmap_granted env" | (panic) "?r = Inl Panic" "\<not> mprotect_granted env"
    | (ok) g cm s0 where "?r = Inr (\<lparr>os_ptr = g, os_commit_mask = cm, os_decommit_mask = empty, os_mem_id = 0, os_mem_large = False,
          os_is_pinned = False, os_align_offset = 0\<rparr>, s0)" "seg_addr_ok g" "g \<notin> G" "mapped_by env s g" "cm_wf cm" "os_only s s0"
        "\<And>x. \<not> in_segment g x \<Longrightarrow> os_prot s0 x = os_prot s x" "\<forall>x \<in> chunk_bytes g (view cm). os_prot s0 x = Some True" by blast
  then show ?thesis
  proof cases
    case todo
    then show ?thesis unfolding code by simp
  next
    case panic
    then show ?thesis unfolding code by (simp add: outcome_def)
  next
    case ok
    have g0: "g \<noteq> 0" using ok(2) by (simp add: seg_addr_ok_def)
    define sg where "sg = \<lparr>main = \<lparr>memid = 0, mem_is_pinned = False, mem_is_large = False,
                     mem_is_committed = is_full cm, mem_alignment = 0, mem_align_offset = 0, allow_decommit = option_allow_decommit, decommit_expire = 0,
                     decommit_mask = empty, commit_mask = cm\<rparr>,
                   abandoned_next = 0,
                   main2 = \<lparr>seg_next = 0, abandoned = 0, abandoned_visits = 0, seg_used = 0, cookie = 0, segment_slices = 0,
                     segment_info_slices = 0, seg_kind = Normal, slice_entries = 0\<rparr>,
                   thread_id = env_thread_id env\<rparr>"
    let ?s1 = "s0\<lparr>segment_at := (segment_at s0)(g \<mapsto> sg), page_at := with_headers g 0 (page_at s0)\<rparr>"
    have h0: "g + SIZEOF_SEGMENT_HEADER = hdr g 0" by (simp add: hdr_def get_page_header_ptr_def layout_consts)
    have "segment_alloc env 0 0 aid tld s = bindR (segment_span_allocate env g (hdr g 0) 1 ?s1) (\<lambda>(success, s).
        if \<not> success then todo
        else bindR (upd_main2 s g (\<lambda>m. m\<lparr>seg_used := seg_used m - 1\<rparr>)) (\<lambda>s.
            bindR (segment_span_free env g 1 (SLICES_PER_SEGMENT - 1) False tld s) (\<lambda>s. Inr (g, s))))"
      unfolding code ok(1) using g0 header_loop_ok [of 0 g]
      by (simp add: h0 sg_def option_allow_decommit_def st_canon cong: if_cong)
    moreover have ok1: "seg_ok ?s1 tld (insert g G) (M((g, 0) \<mapsto> (1, PoppedSpan), (g, 1) \<mapsto> (511, PoppedSpan)))"
      by (rule seg_ok_extend [OF assms(1) ok(2,3,6,7)]) (use ok in \<open>simp_all add: sg_def\<close>)
    let ?M1 = "M((g, 0) \<mapsto> (1, PoppedSpan), (g, 1) \<mapsto> (511, PoppedSpan))"
    have sub: "slices_of ?M1 {FreeSpan, PoppedSpan} \<subseteq> slices_of M {FreeSpan, PoppedSpan} \<union> {hdr g k | k. k \<le> 512}"
      by (rule fresh_slices [OF t(2) ok(3)])
    have sg: "segment_at ?s1 g = Some sg" "seg_used (main2 sg) = 0" "seg_kind (main2 sg) = Normal" "thread_id sg = env_thread_id env" "abandoned (main2 sg) = 0"
      by (simp_all add: sg_def)
    have "outcome env (bindR (segment_span_allocate env g (hdr g 0) 1 ?s1) (\<lambda>(success, s).
        if \<not> success then todo
        else bindR (upd_main2 s g (\<lambda>m. m\<lparr>seg_used := seg_used m - 1\<rparr>)) (\<lambda>s.
            bindR (segment_span_free env g 1 (SLICES_PER_SEGMENT - 1) False tld s) (\<lambda>s. Inr (g, s)))))
        (\<lambda>(g, s'). fresh_segment env s tld G M g s')"
    proof (rule outcome_mono [OF first_spans [OF ok1 sg(1,2)]])
      show "g \<in> insert g G" by simp
      fix a
      assume "case a of (p, s') \<Rightarrow> p = g \<and> seg_ok s' tld (insert g G) (fresh_spans M g) \<and> span_frame tld g (slices_of ?M1 {FreeSpan, PoppedSpan}) ?s1 s'
        \<and> (\<exists>sg'. segment_at s' g = Some sg' \<and> main2 sg' = main2 sg)"
      then show "case a of (g, s') \<Rightarrow> fresh_segment env s tld G M g s'"
        using fresh_segment_intro [OF ok(6,7) g0 ok(3,4) sg(3,4,2,5) _ sub] by auto
    qed
    ultimately show ?thesis by simp
  qed
qed



section \<open>Allocating a page\<close>

lemma needed_slices:
  assumes "unat required \<le> 16777216"
  obtains n where "align_up required (if required > MEDIUM_PAGE_SIZE then MEDIUM_PAGE_SIZE else SLICE_SIZE) div SLICE_SIZE = of_nat n"
    "n \<le> 256" "unat required \<le> n * 65536" "unat required \<le> 524288 \<longrightarrow> n * 65536 < unat required + 65536"
proof -
  define y where "y = (if required > MEDIUM_PAGE_SIZE then MEDIUM_PAGE_SIZE else SLICE_SIZE)"
  have y: "unat y = 65536 \<or> unat y = 524288" "0 < y" by (simp_all add: y_def layout_consts)
  have u: "unat (align_up required y) = (unat required + unat y - 1) div unat y * unat y"
    by (rule align_up_unat) (use y assms in auto)
  let ?n = "unat (align_up required y) div 65536"
  have le: "unat required \<le> unat (align_up required y)" "unat (align_up required y) \<le> 16777216" "65536 dvd unat (align_up required y)"
    using y(1) assms unfolding u by (elim disjE; simp; presburger)+
  have n: "?n \<le> 256" "unat required \<le> ?n * 65536" using le by (auto elim!: dvdE)
  have "unat y = 65536" if "unat required \<le> 524288" using that by (simp add: y_def layout_consts word_less_nat_alt)
  then have "unat (align_up required y) < unat required + 65536" if "unat required \<le> 524288"
    using that unfolding u by (simp add: less_mult_imp_div_less)
  moreover have "?n * 65536 = unat (align_up required y)" using le(3) by simp
  ultimately have n3: "unat required \<le> 524288 \<longrightarrow> ?n * 65536 < unat required + 65536" by simp
  from n have "unat (of_nat ?n :: usize) = ?n" by (intro small_word) simp
  then have "align_up required y div SLICE_SIZE = of_nat ?n" by (simp add: word_unat_eq_iff unat_div layout_consts)
  with n n3 show ?thesis using that unfolding y_def by blast
qed


text \<open>
  A page of \<open>n\<close> slices: out of a free span that was there, or out of a fresh segment, and then
  no free span was long enough.
\<close>

definition got_page :: "Env \<Rightarrow> st \<Rightarrow> usize \<Rightarrow> usize set \<Rightarrow> spans \<Rightarrow> nat \<Rightarrow> usize \<Rightarrow> st \<Rightarrow> bool" where
  "got_page env s tld G M n p s' \<longleftrightarrow>
     (\<exists>g i c. p = hdr g i \<and> took_span s tld G M g i c n s')
     \<or> (\<forall>g i c. M (g, i) = Some (c, FreeSpan) \<longrightarrow> c < n) \<and>
       (\<exists>g s0. p = hdr g 1 \<and> fresh_segment env s tld G M g s0 \<and> took_span s0 tld (insert g G) (fresh_spans M g) g 1 511 n s')"

lemma find_in_fresh:
  assumes fs: "fresh_segment env s tld G M g s0" and small: "\<forall>g i c. M (g, i) = Some (c, FreeSpan) \<longrightarrow> c < max 1 n" and n: "n \<le> 256"
  shows "outcome env (segments_page_find_and_allocate env (of_nat n) tld s0)
    (\<lambda>(p, s'). p = hdr g 1 \<and> p \<noteq> 0 \<and> took_span s0 tld (insert g G) (fresh_spans M g) g 1 511 (max 1 n) s')"
proof -
  let ?M = "fresh_spans M g"
  have ok: "seg_ok s0 tld (insert g G) ?M" using fs unfolding fresh_segment_def by blast
  then have "commit_ok s0 g" unfolding seg_ok_def by blast
  then have h: "hdr g 1 \<noteq> 0" using hdr_nonnull [of g 1] unfolding commit_ok_def by simp
  have m: "?M (g, 1) = Some (511, FreeSpan)" by (simp add: fresh_spans_def)
  have only: "g' = g \<and> i = 1 \<and> c = 511" if "?M (g', i) = Some (c, FreeSpan)" "max 1 n \<le> c" for g' i c
  proof (rule ccontr)
    assume "\<not> (g' = g \<and> i = 1 \<and> c = 511)"
    then have "M (g', i) = Some (c, FreeSpan)" using that(1) by (auto simp: fresh_spans_def split: if_splits)
    then show False using small that(2) by fastforce
  qed
  show ?thesis
  proof (rule outcome_mono [OF find_and_allocate_ok [OF ok]])
    show "n \<le> 512" using n by simp
    fix a
    assume a: "case a of (p, s') \<Rightarrow> if p = 0 then s' = s0 \<and> (\<forall>g i c. ?M (g, i) = Some (c, FreeSpan) \<longrightarrow> c < max 1 n)
      else (\<exists>g' i c. p = hdr g' i \<and> took_span s0 tld (insert g G) ?M g' i c (max 1 n) s')"
    obtain p s' where p: "a = (p, s')" by (cases a)
    have "p \<noteq> 0"
    proof
      assume "p = 0"
      then have "511 < max 1 n" using a p m by fastforce
      then show False using n by simp
    qed
    then obtain g' i c where g': "p = hdr g' i" "took_span s0 tld (insert g G) ?M g' i c (max 1 n) s'" using a p by auto
    then have "g' = g \<and> i = 1 \<and> c = 511" using only unfolding took_span_def by blast
    then show "case a of (p, s') \<Rightarrow> p = hdr g 1 \<and> p \<noteq> 0 \<and> took_span s0 tld (insert g G) ?M g 1 511 (max 1 n) s'" using p g' h by simp
  qed
qed


text \<open>An operation that may also stop in \<^verbatim>\<open>todo\<close>, when the kernel had no memory.\<close>

definition outcome_todo :: "Env \<Rightarrow> 'a res \<Rightarrow> ('a \<Rightarrow> bool) \<Rightarrow> bool" where
  "outcome_todo env r Q \<longleftrightarrow> r = Inl Todo \<and> \<not> mmap_granted env \<or> outcome env r Q"

lemma outcome_todo_bind:
  assumes "outcome_todo env r Q" "\<And>a. Q a \<Longrightarrow> outcome_todo env (f a) R"
  shows "outcome_todo env (bindR r f) R"
proof (cases "r = Inl Todo \<and> \<not> mmap_granted env")
  case False
  then have "outcome env r Q" using assms(1) unfolding outcome_todo_def by blast
  then show ?thesis
  proof (cases "r = Inl Panic")
    case True
    then show ?thesis using \<open>outcome env r Q\<close> by (simp add: outcome_todo_def outcome_def)
  next
    case False
    then obtain a where "r = Inr a" "Q a" using \<open>outcome env r Q\<close> by (auto simp: outcome_def)
    then show ?thesis using assms(2) by simp
  qed
qed (simp add: outcome_todo_def)

lemma outcome_todoI: "outcome env r Q \<Longrightarrow> outcome_todo env r Q"
  by (simp add: outcome_todo_def)

lemma outcome_todo_Inr [simp]: "outcome_todo env (Inr a) Q \<longleftrightarrow> Q a"
  by (simp add: outcome_todo_def)

lemma page_alloc_ok:
  assumes ok: "seg_ok s tld G M" and fresh: "mmap_fresh env s G" and h: "heap_at s heap = Some h" and req: "unat required \<le> 16777216"
  shows "\<exists>n. unat required \<le> n * 65536 \<and> 0 < n \<and> n \<le> 256
    \<and> (unat required \<le> 524288 \<longrightarrow> n = 1 \<or> n * 65536 < unat required + 65536)
    \<and> outcome_todo env (segments_page_alloc env heap required bsize tld s) (\<lambda>(p, s'). got_page env s tld G M n p s')"
proof -
  obtain n where n: "align_up required (if required > MEDIUM_PAGE_SIZE then MEDIUM_PAGE_SIZE else SLICE_SIZE) div SLICE_SIZE = of_nat n"
    "n \<le> 256" "unat required \<le> n * 65536" "unat required \<le> 524288 \<longrightarrow> n * 65536 < unat required + 65536" by (rule needed_slices [OF req])
  let ?n = "max 1 n" and ?Q = "\<lambda>(p, s'). got_page env s tld G M (max 1 n) p s'"
  have n5: "n \<le> 512" using n(2) by simp
  have two: "(2 :: nat) = Suc (Suc 0)" by simp
  have "outcome_todo env (segments_page_alloc env heap required bsize tld s) ?Q"
    unfolding segments_page_alloc_def two segments_page_alloc_rec.simps Let_def n(1)
  proof (rule outcome_todo_bind [OF outcome_todoI [OF find_and_allocate_ok [OF ok n5]]])
    fix a
    assume a: "case a of (p, s') \<Rightarrow> if p = 0 then s' = s \<and> (\<forall>g i c. M (g, i) = Some (c, FreeSpan) \<longrightarrow> c < ?n)
      else (\<exists>g i c. p = hdr g i \<and> took_span s tld G M g i c ?n s')"
    obtain p s1 where p: "a = (p, s1)" by (cases a)
    show "outcome_todo env (case a of (page_ptr, s) \<Rightarrow>
      if page_ptr = 0 then bindR (segment_reclaim_or_alloc env heap (of_nat n) bsize tld s) (\<lambda>(roa, s).
        if roa = 0 then Inr (0, s) else
          bindR (segments_page_find_and_allocate env (of_nat n) tld s) (\<lambda>(page_ptr, s).
          if page_ptr = 0 then bindR (segment_reclaim_or_alloc env heap (of_nat n) bsize tld s) (\<lambda>(roa, s). if roa = 0 then Inr (0, s) else Inl Diverge)
          else Inr (page_ptr, s)))
      else Inr (page_ptr, s)) ?Q"
    proof (cases "p = 0")
      case False
      then show ?thesis using a p by (auto simp: got_page_def)
    next
      case True
      then have s1: "s1 = s" and small: "\<forall>g i c. M (g, i) = Some (c, FreeSpan) \<longrightarrow> c < ?n" using a p by auto
      have alloc: "outcome_todo env (segment_reclaim_or_alloc env heap (of_nat n) bsize tld s) (\<lambda>(g, s'). fresh_segment env s tld G M g s')"
        using segment_alloc_ok [OF ok fresh, of "arena_id h"] h by (simp add: segment_reclaim_or_alloc_def outcome_todo_def)
      show ?thesis unfolding p prod.case True s1
      proof (simp only: if_True simp_thms, rule outcome_todo_bind [OF alloc])
        fix b assume b: "case b of (g, s') \<Rightarrow> fresh_segment env s tld G M g s'"
        obtain g s2 where g: "b = (g, s2)" "fresh_segment env s tld G M g s2" using b by (cases b) auto
        then have g0: "g \<noteq> 0" by (simp add: fresh_segment_def)
        have fnd: "outcome_todo env (bindR (segments_page_find_and_allocate env (of_nat n) tld s2) (\<lambda>(page_ptr, s).
          if page_ptr = 0 then bindR (segment_reclaim_or_alloc env heap (of_nat n) bsize tld s) (\<lambda>(roa, s). if roa = 0 then Inr (0, s) else Inl Diverge)
          else Inr (page_ptr, s))) ?Q"
        proof (rule outcome_todo_bind [OF outcome_todoI [OF find_in_fresh [OF g(2) small n(2)]]])
          fix d assume "case d of (p, s') \<Rightarrow> p = hdr g 1 \<and> p \<noteq> 0 \<and> took_span s2 tld (insert g G) (fresh_spans M g) g 1 511 ?n s'"
          then show "outcome_todo env (case d of (page_ptr, s) \<Rightarrow>
            if page_ptr = 0 then bindR (segment_reclaim_or_alloc env heap (of_nat n) bsize tld s) (\<lambda>(roa, s). if roa = 0 then Inr (0, s) else Inl Diverge)
            else Inr (page_ptr, s)) ?Q" using g(2) small by (cases d) (auto simp: got_page_def)
        qed
        then show "outcome_todo env (case b of (roa, s) \<Rightarrow> if roa = 0 then Inr (0, s) else
          bindR (segments_page_find_and_allocate env (of_nat n) tld s) (\<lambda>(page_ptr, s).
          if page_ptr = 0 then bindR (segment_reclaim_or_alloc env heap (of_nat n) bsize tld s) (\<lambda>(roa, s). if roa = 0 then Inr (0, s) else Inl Diverge)
          else Inr (page_ptr, s))) ?Q" using g(1) g0 by simp
      qed
    qed
  qed
  moreover have "?n = 1 \<or> ?n = n" by auto
  ultimately show ?thesis using n(2-4) by (intro exI [of _ ?n]) auto
qed



section \<open>Free spans are never adjacent\<close>

definition separated :: "spans \<Rightarrow> bool" where
  "separated M \<longleftrightarrow> (\<forall>g i c d. M (g, i) = Some (c, FreeSpan) \<longrightarrow> M (g, i + c) \<noteq> Some (d, FreeSpan))"

lemma separated_carve:
  assumes sep: "separated M" and m: "M (g, i) = Some (c, FreeSpan)" and n: "0 < n" "n \<le> c" and t: "tiled M g"
  shows "separated (carve M g i c n)"
  unfolding separated_def
proof (intro allI impI notI)
  fix g' j e d
  assume a: "carve M g i c n (g', j) = Some (e, FreeSpan)" and b: "carve M g i c n (g', j + e) = Some (d, FreeSpan)"
  have no: "M (g, i + c) \<noteq> Some (d, FreeSpan)" using sep m unfolding separated_def by blast
  show False
  proof (cases "g' = g \<and> j = i + n \<and> n < c")
    case True
    then have "e = c - n" using a by (simp add: carve_def)
    then have "M (g, i + c) = Some (d, FreeSpan)" using b True n by (simp add: carve_def split: if_splits)
    then show False using no by blast
  next
    case False
    then have A: "M (g', j) = Some (e, FreeSpan)" "(g', j) \<noteq> (g, i)" using a by (auto simp: carve_def split: if_splits)
    have "(g', j + e) \<noteq> (g, i + n) \<or> \<not> n < c"
    proof (rule ccontr)
      assume "\<not> ?thesis"
      then have e: "g' = g" "j + e = i + n" "n < c" by auto
      have "0 < e" using t A(1) e(1) unfolding tiled_def by blast
      then have "i \<le> i + n - 1" "i + n - 1 < i + c" "j \<le> i + n - 1" "i + n - 1 < j + e" using e(2,3) n by simp_all
      then show False using tiled_unique [OF t m, of j e FreeSpan "i + n - 1"] A e(1) by simp
    qed
    then have "M (g', j + e) = Some (d, FreeSpan)" using b by (auto simp: carve_def split: if_splits)
    then show False using sep A(1) unfolding separated_def by blast
  qed
qed


lemma separated_freed:
  assumes sep: "separated M" and m: "M (g, i) = Some (c, u)" "u \<noteq> FreeSpan" and t: "tiled M g" and fr: "freed_span M g i c M'"
  shows "separated M'"
proof -
  obtain da eb where d: "free_after M g (i + c) da" "free_before M g i eb" "M' = put_span M g (i - eb) (c + da + eb) FreeSpan"
    using fr unfolding freed_span_def by blast
  have le: "eb \<le> i" using d(2) unfolding free_before_def by auto
  have after: "M (g, i + c + da) \<noteq> Some (e, FreeSpan)" for e
    using d(1) sep unfolding free_after_def separated_def by auto
  have before: "k + e \<noteq> i - eb" if "M (g, k) = Some (e, FreeSpan)" for k e
  proof
    assume ke: "k + e = i - eb"
    from d(2) show False unfolding free_before_def
    proof
      assume "eb \<le> i \<and> M (g, i - eb) = Some (eb, FreeSpan)"
      then show False using sep that ke unfolding separated_def by (metis)
    next
      assume "eb = 0 \<and> (\<forall>e'\<le>i. M (g, i - e') \<noteq> Some (e', FreeSpan))"
      then show False using that ke by (metis diff_add_inverse2 diff_zero le_add2)
    qed
  qed
  show ?thesis unfolding separated_def
  proof (intro allI impI notI)
    fix g' k e d'
    assume a: "M' (g', k) = Some (e, FreeSpan)" and b: "M' (g', k + e) = Some (d', FreeSpan)"
    show False
    proof (cases "g' = g \<and> k = i - eb")
      case True
      have c0: "0 < c" using t m(1) unfolding tiled_def by blast
      then have "e = c + da + eb" using a True d(3) by simp
      then have "k + e = i + c + da" using True le by simp
      moreover have "M (g, k + e) = Some (d', FreeSpan)" using b True d(3) \<open>e = c + da + eb\<close> by simp
      ultimately show False using after by simp
    next
      case False
      then have A: "M (g', k) = Some (e, FreeSpan)" using a d(3) by (auto split: if_splits)
      have "\<not> (g' = g \<and> k + e = i - eb)" using before A by auto
      then have "M (g', k + e) = Some (d', FreeSpan)" using b d(3) by (auto split: if_splits)
      then show False using sep A unfolding separated_def by blast
    qed
  qed
qed

lemma separated_fresh:
  assumes sep: "separated M" and none: "\<And>i. M (g, i) = None"
  shows "separated (fresh_spans M g)"
  unfolding separated_def
proof (intro allI impI notI)
  fix g' i c d
  assume a: "fresh_spans M g (g', i) = Some (c, FreeSpan)" "fresh_spans M g (g', i + c) = Some (d, FreeSpan)"
  show False
  proof (cases "g' = g")
    case True
    then have "i = 1 \<and> c = 511" "i + c = 1" using a none by (auto simp: fresh_spans_def split: if_splits)
    then show False by simp
  next
    case False
    then show False using a sep unfolding separated_def by (simp add: fresh_spans_def)
  qed
qed

end
