(* ===== verification/Segment_Props.thy ===== *)
theory Segment_Props
  imports Segment_Alloc
begin

text \<open>
  What \<^verbatim>\<open>segment.rs\<close> promises to the page layer: a page of the size asked for whose slices belong
  to no other live page, memory that can be written, and that a page given back is merged with
  its free neighbours. The operations are also run as a transition system, whose states keep
  the invariant.
\<close>

section \<open>Allocating and freeing a page\<close>

lemma segment_page_alloc_ok:
  assumes ok: "seg_ok s tld G M" "mmap_fresh env s G" "heap_at s heap = Some h" and b: "bsize \<le> LARGE_OBJ_SIZE_MAX" "al \<le> ALIGNMENT_MAX"
  shows "\<exists>n. unat bsize \<le> n * 65536 \<and> 0 < n \<and> n \<le> 256
    \<and> (bsize \<le> SMALL_OBJ_SIZE_MAX \<longrightarrow> n = 1) \<and> (bsize \<le> MEDIUM_OBJ_SIZE_MAX \<longrightarrow> n \<le> 8)
    \<and> outcome_todo env (segment_page_alloc env heap bsize al tld s) (\<lambda>(p, s'). got_page env s tld G M n p s')"
proof -
  define required where "required = (if SMALL_OBJ_SIZE_MAX < bsize \<and> bsize \<le> MEDIUM_OBJ_SIZE_MAX then MEDIUM_PAGE_SIZE else bsize)"
  have r: "unat required \<le> 16777216" "unat bsize \<le> unat required"
    using b(1) by (auto simp: required_def layout_consts word_le_nat_alt word_less_nat_alt)
  have code: "segment_page_alloc env heap bsize al tld s = segments_page_alloc env heap required bsize tld s"
    using b by (simp add: segment_page_alloc_def required_def flip: not_less)
  from page_alloc_ok [OF ok r(1), of bsize] obtain n where n: "unat required \<le> n * 65536" "0 < n" "n \<le> 256"
    "unat required \<le> 524288 \<longrightarrow> n = 1 \<or> n * 65536 < unat required + 65536"
    "outcome_todo env (segments_page_alloc env heap required bsize tld s) (\<lambda>(p, s'). got_page env s tld G M n p s')" by (elim exE conjE) (rule that)
  have small: "n = 1 \<or> n * 65536 < k + 65536" if "unat required = k" "k \<le> 524288" for k
    using n(4) that(2) unfolding that(1) by blast
  have "n = 1" if "bsize \<le> SMALL_OBJ_SIZE_MAX"
  proof -
    have "unat required = unat bsize" "unat bsize \<le> 16384"
      using that by (auto simp: required_def layout_consts word_le_nat_alt word_less_nat_alt)
    then show ?thesis using small [of "unat bsize"] n(2) by auto
  qed
  moreover have "n \<le> 8" if "bsize \<le> MEDIUM_OBJ_SIZE_MAX"
  proof (cases "bsize \<le> SMALL_OBJ_SIZE_MAX")
    case False
    then have "unat required = 524288" using that by (simp add: required_def layout_consts flip: not_less)
    then show ?thesis using small [of 524288] by auto
  qed (use calculation in simp)
  ultimately show ?thesis unfolding code using r(2) n(1-3,5) by (intro exI [of _ n]) simp
qed

lemma segment_page_free_ok:
  assumes ok: "seg_ok s tld G M" and m: "M (g, i) = Some (c, UsedSpan)" and alone: "\<And>key d. M key \<noteq> Some (d, PoppedSpan)"
    and sg: "segment_at s g = Some sg" "thread_id sg \<noteq> 0" "seg_kind (main2 sg) \<noteq> Huge"
    and pg: "page_at s (hdr g i) = Some pg" "masked_ptr_delay_get_delay (xthread_free pg) \<noteq> 1"
  shows "segment_page_free env (hdr g i) force tld s = Inl Panic \<and> \<not> mprotect_granted env
    \<or> (if seg_used (main2 sg) - 1 \<in> {0, abandoned (main2 sg)} then segment_page_free env (hdr g i) force tld s = Inl Todo
       else \<exists>s' M' sg'. segment_page_free env (hdr g i) force tld s = Inr s' \<and> freed_span M g i c M' \<and> seg_ok s' tld G M'
         \<and> span_frame tld g (slices_of (M((g, i) \<mapsto> (c, PoppedSpan))) {FreeSpan, PoppedSpan}) s s'
         \<and> segment_at s' g = Some sg' \<and> main2 sg' = (main2 sg)\<lparr>seg_used := seg_used (main2 sg) - 1\<rparr>)"
proof -
  obtain t L where t: "spans_inv (page_at s) (sqs t) G M L" using ok unfolding seg_ok_def by blast
  note d = spans_invD [OF t m]
  have code: "segment_page_free env (hdr g i) force tld s = bindR (segment_page_clear env (hdr g i) tld s) (\<lambda>s.
      bindR (get_main2 s g) (\<lambda>m. if seg_used m = 0 then segment_free g force tld s else if seg_used m = abandoned m then todo else Inr s))"
    unfolding segment_page_free_def Let_def hdr_back(1) [OF d(1,4)] ..
  from page_clear_ok [OF ok m alone sg pg, of env] show ?thesis unfolding outcome_def
  proof
    assume "segment_page_clear env (hdr g i) tld s = Inl Panic \<and> \<not> mprotect_granted env"
    then show ?thesis unfolding code by simp
  next
    assume "\<exists>a. segment_page_clear env (hdr g i) tld s = Inr a \<and> (\<exists>M'. freed_span M g i c M' \<and> seg_ok a tld G M')
      \<and> span_frame tld g (slices_of (M((g, i) \<mapsto> (c, PoppedSpan))) {FreeSpan, PoppedSpan}) s a
      \<and> (\<exists>sg'. segment_at a g = Some sg' \<and> main2 sg' = (main2 sg)\<lparr>seg_used := seg_used (main2 sg) - 1\<rparr>)"
    then obtain s' M' sg' where s': "segment_page_clear env (hdr g i) tld s = Inr s'" "freed_span M g i c M'" "seg_ok s' tld G M'"
      "span_frame tld g (slices_of (M((g, i) \<mapsto> (c, PoppedSpan))) {FreeSpan, PoppedSpan}) s s'"
      "segment_at s' g = Some sg'" "main2 sg' = (main2 sg)\<lparr>seg_used := seg_used (main2 sg) - 1\<rparr>" by blast
    then show ?thesis unfolding code by (auto simp: get_main2_def segment_free_def todo_def)
  qed
qed

text \<open>A page of an abandoned or a huge segment.\<close>

lemma segment_page_free_todo:
  assumes ok: "seg_ok s tld G M" and m: "M (g, i) = Some (c, UsedSpan)"
    and sg: "segment_at s g = Some sg" "thread_id sg = 0 \<or> seg_kind (main2 sg) = Huge"
    and pg: "page_at s (hdr g i) = Some pg" "masked_ptr_delay_get_delay (xthread_free pg) \<noteq> 1"
  shows "segment_page_free env (hdr g i) force tld s = Inl Todo"
proof -
  obtain t L where t: "spans_inv (page_at s) (sqs t) G M L" using ok unfolding seg_ok_def by blast
  note d = spans_invD [OF t m]
  have "segment_page_clear env (hdr g i) tld s = Inl Todo"
    using sg pg unfolding segment_page_clear_def Let_def hdr_back(1) [OF d(1,4)]
    by (auto simp: get_main_def option_page_reset_def check_is_good_def upd_inner_eq upd_page_eq
        segment_span_free_coalesce_def Let_def hdr_back(1) [OF d(1,4)] todo_def)
  then show ?thesis unfolding segment_page_free_def Let_def hdr_back(1) [OF d(1,4)] by simp
qed



section \<open>Running the operations\<close>

text \<open>
  Between calls: the segments are those with a header, their first slice holds the headers, no
  two free spans touch, no span is in the middle of a change, and the pages handed out are the
  used spans.
\<close>

definition seg_inv :: "usize \<Rightarrow> st \<Rightarrow> usize set \<Rightarrow> spans \<Rightarrow> bool" where
  "seg_inv tld s U M \<longleftrightarrow> seg_ok s tld (dom (segment_at s)) M \<and> separated M \<and> (\<forall>key d. M key \<noteq> Some (d, PoppedSpan))
     \<and> (\<forall>g \<in> dom (segment_at s). M (g, 0) = Some (1, UsedSpan))
     \<and> U = {hdr g i | g i. 0 < i \<and> (\<exists>c. M (g, i) = Some (c, UsedSpan))}
     \<and> (\<forall>g sg. segment_at s g = Some sg \<longrightarrow> thread_id sg \<noteq> 0 \<and> seg_kind (main2 sg) \<noteq> Huge)"

lemma seg_invI:
  assumes "seg_ok s tld G M" "dom (segment_at s) = G" "separated M" "\<And>key d. M key \<noteq> Some (d, PoppedSpan)" "\<And>g. g \<in> G \<Longrightarrow> M (g, 0) = Some (1, UsedSpan)"
    "U = {hdr g i | g i. 0 < i \<and> (\<exists>c. M (g, i) = Some (c, UsedSpan))}"
    "\<forall>g sg. segment_at s g = Some sg \<longrightarrow> thread_id sg \<noteq> 0 \<and> seg_kind (main2 sg) \<noteq> Huge"
  shows "seg_inv tld s U M"
  unfolding seg_inv_def assms(2) by (intro conjI ballI allI assms(1,3-6)) (use assms(7) in blast)+

lemma span_frame_segments:
  assumes "span_frame tld g A s s'" "g \<in> dom (segment_at s)"
  shows "dom (segment_at s') = dom (segment_at s)"
    "(\<forall>g sg. segment_at s g = Some sg \<longrightarrow> thread_id sg \<noteq> 0 \<and> seg_kind (main2 sg) \<noteq> Huge) \<Longrightarrow>
     \<forall>g sg. segment_at s' g = Some sg \<longrightarrow> thread_id sg \<noteq> 0 \<and> seg_kind (main2 sg) \<noteq> Huge"
proof -
  obtain sg where sg: "segment_at s g = Some sg" using assms(2) by blast
  then obtain e dm cm u where s': "segment_at s' g = Some (sg\<lparr>main := (main sg)\<lparr>decommit_expire := e, decommit_mask := dm, commit_mask := cm\<rparr>,
          main2 := (main2 sg)\<lparr>seg_used := u\<rparr>\<rparr>)" using assms(1) unfolding span_frame_def by blast
  have o: "q \<noteq> g \<Longrightarrow> segment_at s' q = segment_at s q" for q using assms(1) unfolding span_frame_def by blast
  show "dom (segment_at s') = dom (segment_at s)"
  proof (rule set_eqI)
    show "q \<in> dom (segment_at s') \<longleftrightarrow> q \<in> dom (segment_at s)" for q using sg s' o [of q] by (cases "q = g") (simp_all add: domIff)
  qed
  assume old: "\<forall>g sg. segment_at s g = Some sg \<longrightarrow> thread_id sg \<noteq> 0 \<and> seg_kind (main2 sg) \<noteq> Huge"
  show "\<forall>g sg. segment_at s' g = Some sg \<longrightarrow> thread_id sg \<noteq> 0 \<and> seg_kind (main2 sg) \<noteq> Huge"
  proof (intro allI impI)
    show "thread_id sg1 \<noteq> 0 \<and> seg_kind (main2 sg1) \<noteq> Huge" if "segment_at s' q = Some sg1" for q sg1
      using that old sg s' o [of q] by (cases "q = g") auto
  qed
qed

lemma seg_inv_took:
  assumes inv: "seg_inv tld s U M" and t: "took_span s tld (dom (segment_at s)) M g i c n s'" and n: "0 < n"
  shows "seg_inv tld s' (insert (hdr g i) U) (carve M g i c n)" "hdr g i \<notin> U" "M (g, i) = Some (c, FreeSpan)" "n \<le> c"
proof -
  note k = t [unfolded took_span_def] and v = inv [unfolded seg_inv_def]
  show m: "M (g, i) = Some (c, FreeSpan)" "n \<le> c" using k by blast+
  obtain tt L where sp: "spans_inv (page_at s) (sqs tt) (dom (segment_at s)) M L" using v unfolding seg_ok_def by blast
  note d = spans_invD [OF sp m(1)]
  have zero: "M (g, 0) = Some (1, UsedSpan)" using v d(7) by blast
  then have i: "0 < i" using m(1) by (cases "i = 0") auto
  have fr: "span_frame tld g (slices_of M {FreeSpan, PoppedSpan}) s s'" using k by blast
  note sf = span_frame_segments [OF fr d(7)]
  have none: "M (g, i + n) = None" if "n < c" using tiled_inside [OF d(8) m(1), of "i + n"] that n by simp
  have M': "carve M g i c n (g', j) = Some (e, UsedSpan) \<longleftrightarrow> (g', j) = (g, i) \<and> e = n \<or> M (g', j) = Some (e, UsedSpan)" for g' j e
    using m none n by (cases "n < c") (auto simp: carve_def)
  show "hdr g i \<notin> U"
  proof
    assume "hdr g i \<in> U"
    then obtain g' j e where u: "hdr g i = hdr g' j" "M (g', j) = Some (e, UsedSpan)" using v by auto
    then show False using span_hdr_unique [OF sp m(1) u(2) u(1)] by simp
  qed
  have "carve M g i c n (g', 0) = Some (1, UsedSpan)" if "g' \<in> dom (segment_at s)" for g' using that v M' by blast
  moreover have "carve M g i c n key \<noteq> Some (e, PoppedSpan)" for key e using v by (cases key) (simp add: carve_def)
  moreover have "insert (hdr g i) U = {hdr g' j | g' j. 0 < j \<and> (\<exists>c'. carve M g i c n (g', j) = Some (c', UsedSpan))}"
    using v i unfolding M' by auto
  moreover have "separated (carve M g i c n)" using v by (intro separated_carve [OF _ m(1) n m(2) d(8)]) blast
  moreover have "\<forall>g sg. segment_at s' g = Some sg \<longrightarrow> thread_id sg \<noteq> 0 \<and> seg_kind (main2 sg) \<noteq> Huge" using sf(2) v by blast
  moreover have "seg_ok s' tld (dom (segment_at s)) (carve M g i c n)" using k by blast
  ultimately show "seg_inv tld s' (insert (hdr g i) U) (carve M g i c n)" using sf(1) by (intro seg_invI)
qed


lemma seg_inv_fresh:
  assumes inv: "seg_inv tld s U M" and f: "fresh_segment env s tld (dom (segment_at s)) M g s'" and tid: "env_thread_id env \<noteq> 0"
  shows "seg_inv tld s' U (fresh_spans M g)" "dom (segment_at s') = insert g (dom (segment_at s))"
proof -
  note k = f [unfolded fresh_segment_def] and v = inv [unfolded seg_inv_def]
  obtain tt L where sp: "spans_inv (page_at s) (sqs tt) (dom (segment_at s)) M L" using v unfolding seg_ok_def by blast
  have none: "M (g, i) = None" for i using k spans_invD(7) [OF sp, of g i] by (cases "M (g, i)") auto
  obtain sg where sg: "segment_at s' g = Some sg" "thread_id sg = env_thread_id env" "seg_kind (main2 sg) = Normal" using k by blast
  have o: "q \<noteq> g \<Longrightarrow> segment_at s' q = segment_at s q" for q using k by blast
  show dom: "dom (segment_at s') = insert g (dom (segment_at s))"
  proof (rule set_eqI)
    show "q \<in> dom (segment_at s') \<longleftrightarrow> q \<in> insert g (dom (segment_at s))" for q using sg(1) o [of q] by (cases "q = g") (simp_all add: domIff)
  qed
  have M': "fresh_spans M g (g', j) = Some (e, UsedSpan) \<longleftrightarrow> (g', j) = (g, 0) \<and> e = 1 \<or> M (g', j) = Some (e, UsedSpan)" for g' j e
    using none by (auto simp: fresh_spans_def)
  have "{hdr g' i | g' i. 0 < i \<and> (\<exists>c. fresh_spans M g (g', i) = Some (c, UsedSpan))} = U" using v unfolding M' by auto
  moreover have "fresh_spans M g key \<noteq> Some (e, PoppedSpan)" for key e using v by (cases key) (simp add: fresh_spans_def)
  moreover have "separated (fresh_spans M g)" using v none by (intro separated_fresh) blast+
  moreover have "fresh_spans M g (g', 0) = Some (1, UsedSpan)" if "g' \<in> insert g (dom (segment_at s))" for g'
    using that v unfolding M' by auto
  moreover have "thread_id sg1 \<noteq> 0 \<and> seg_kind (main2 sg1) \<noteq> Huge" if "segment_at s' q = Some sg1" for q sg1
    using that sg o [of q] v tid by (cases "q = g") auto
  ultimately show "seg_inv tld s' U (fresh_spans M g)" using k unfolding seg_inv_def dom by auto
qed

lemma freed_span_cases:
  assumes "freed_span M g i c M'" "tiled M g" "M (g, i) = Some (c, u)" "0 < i" "M (g, 0) = Some (1, UsedSpan)"
  shows "M' (g', j) = Some (e, UsedSpan) \<longleftrightarrow> M (g', j) = Some (e, UsedSpan) \<and> (g', j) \<noteq> (g, i)"
    "M' (g', j) = Some (e, PoppedSpan) \<Longrightarrow> M (g', j) = Some (e, PoppedSpan)"
proof -
  obtain da eb where d: "free_after M g (i + c) da" "free_before M g i eb" "M' = put_span M g (i - eb) (c + da + eb) FreeSpan"
    using assms(1) unfolding freed_span_def by blast
  show "M' (g', j) = Some (e, PoppedSpan) \<Longrightarrow> M (g', j) = Some (e, PoppedSpan)" using d(3) by (auto split: if_splits)
  have le: "eb \<le> i" using d(2) unfolding free_before_def by auto
  have inside: "k = i" if "M (g, k) = Some (e, UsedSpan)" "i - eb \<le> k" "k < i - eb + (c + da + eb)" for k
  proof (rule ccontr)
    assume "k \<noteq> i"
    then consider "k < i" | "i < k" "k < i + c" | "i + c \<le> k" by linarith
    then show False
    proof cases
      case 1
      then have "M (g, i - eb) = Some (eb, FreeSpan)" "0 < eb" using d(2) that(2) unfolding free_before_def by auto
      then show False using that 1 le tiled_inside [OF assms(2), of "i - eb" eb FreeSpan k] by (cases "k = i - eb") auto
    next
      case 2
      then show False using tiled_inside [OF assms(2,3)] that(1) by simp
    next
      case 3
      then have "M (g, i + c) = Some (da, FreeSpan)" "k < i + c + da" using d(1) that(3) le unfolding free_after_def by auto
      then show False using that(1) 3 tiled_inside [OF assms(2), of "i + c" da FreeSpan k] by (cases "k = i + c") auto
    qed
  qed
  have "0 < c" using assms(2,3) unfolding tiled_def by blast
  then show "M' (g', j) = Some (e, UsedSpan) \<longleftrightarrow> M (g', j) = Some (e, UsedSpan) \<and> (g', j) \<noteq> (g, i)"
    using inside [of j] le unfolding d(3) by (auto split: if_splits)
qed

lemma seg_inv_freed:
  assumes inv: "seg_inv tld s U M" and m: "M (g, i) = Some (c, UsedSpan)" "0 < i" and fr: "freed_span M g i c M'"
    and s': "seg_ok s' tld (dom (segment_at s)) M'" "span_frame tld g A s s'"
  shows "seg_inv tld s' (U - {hdr g i}) M'"
proof -
  note v = inv [unfolded seg_inv_def]
  obtain tt L where sp: "spans_inv (page_at s) (sqs tt) (dom (segment_at s)) M L" using v unfolding seg_ok_def by blast
  note d = spans_invD [OF sp m(1)]
  have zero: "M (g, 0) = Some (1, UsedSpan)" using v d(7) by blast
  note M' = freed_span_cases [OF fr d(8) m zero]
  note sf = span_frame_segments [OF s'(2) d(7)]
  have "U - {hdr g i} = {hdr g' j | g' j. 0 < j \<and> (\<exists>c'. M' (g', j) = Some (c', UsedSpan))}"
  proof (rule set_eqI)
    fix x
    have "hdr g' j \<noteq> hdr g i" if "M (g', j) = Some (c', UsedSpan)" "(g', j) \<noteq> (g, i)" for g' j c'
      using span_hdr_unique [OF sp m(1) that(1)] that(2) by auto
    moreover have "U = {hdr g i | g i. 0 < i \<and> (\<exists>c. M (g, i) = Some (c, UsedSpan))}" using v by blast
    ultimately show "x \<in> U - {hdr g i} \<longleftrightarrow> x \<in> {hdr g' j | g' j. 0 < j \<and> (\<exists>c'. M' (g', j) = Some (c', UsedSpan))}"
      unfolding M'(1) by auto
  qed
  moreover have "M' key \<noteq> Some (e, PoppedSpan)" for key e using v M'(2) by (cases key) blast
  moreover have "separated M'" by (rule separated_freed [OF _ m(1) _ d(8) fr]) (use v in simp_all)
  moreover have "M' (g', 0) = Some (1, UsedSpan)" if "g' \<in> dom (segment_at s)" for g' using that v M'(1) m(2) by simp
  moreover have "\<forall>g sg. segment_at s' g = Some sg \<longrightarrow> thread_id sg \<noteq> 0 \<and> seg_kind (main2 sg) \<noteq> Huge" using sf(2) v by blast
  ultimately show ?thesis using s'(1) sf(1) by (intro seg_invI)
qed


text \<open>
  The transition system. A thread starts with empty queues, allocates and frees pages, and
  writes the headers of the pages it owns in any way that keeps the slice count and offset and
  leaves a block size.
\<close>

inductive seg_reach :: "Env \<Rightarrow> usize \<Rightarrow> usize \<Rightarrow> st \<Rightarrow> usize set \<Rightarrow> bool" for env heap tld where
  start: "tld_at s tld = Some t \<Longrightarrow> sqs t = span_queue_headers_tmp \<Longrightarrow> segment_at s = Map.empty \<Longrightarrow>
    heap_at s heap \<noteq> None \<Longrightarrow> seg_reach env heap tld s {}"
| alloc: "seg_reach env heap tld s U \<Longrightarrow> mmap_fresh env s (dom (segment_at s)) \<Longrightarrow>
    segment_page_alloc env heap bsize al tld s = Inr (p, s') \<Longrightarrow> seg_reach env heap tld s' (insert p U)"
| freeing: "seg_reach env heap tld s U \<Longrightarrow> p \<in> U \<Longrightarrow> page_at s p = Some pg \<Longrightarrow> masked_ptr_delay_get_delay (xthread_free pg) \<noteq> 1 \<Longrightarrow>
    segment_page_free env p force tld s = Inr s' \<Longrightarrow> seg_reach env heap tld s' (U - {p})"
| writing: "seg_reach env heap tld s U \<Longrightarrow> p \<in> U \<Longrightarrow> page_at s p = Some pg \<Longrightarrow> pcount pg' = pcount pg \<Longrightarrow> poffset pg' = poffset pg \<Longrightarrow>
    xblock_size (inner pg') \<noteq> 0 \<Longrightarrow> seg_reach env heap tld (s\<lparr>page_at := (page_at s)(p \<mapsto> pg')\<rparr>) U"

lemma seg_inv_start:
  assumes "tld_at s tld = Some t" "sqs t = span_queue_headers_tmp" "segment_at s = Map.empty"
  shows "seg_inv tld s {} Map.empty"
proof -
  have "spans_inv (page_at s) (sqs t) {} Map.empty (replicate 32 [])"
    unfolding spans_inv_def assms(2) by (simp add: span_queue_headers_tmp_def hd_or_def last_or_def free_hdrs_def)
  then have "seg_ok s tld {} Map.empty" using assms(1) unfolding seg_ok_def by blast
  then show ?thesis using assms(3) by (simp add: seg_inv_def separated_def)
qed

lemma page_alloc_large:
  assumes "segment_page_alloc env heap bsize al tld s = Inr (p, s')"
  shows "bsize \<le> LARGE_OBJ_SIZE_MAX" "al \<le> ALIGNMENT_MAX"
  using assms by (auto simp: segment_page_alloc_def todo_def layout_consts word_le_nat_alt word_less_nat_alt split: if_splits)

lemma seg_inv_writing:
  assumes inv: "seg_inv tld s U M" and p: "p \<in> U" "page_at s p = Some pg" "pcount pg' = pcount pg" "poffset pg' = poffset pg" "xblock_size (inner pg') \<noteq> 0"
  shows "seg_inv tld (s\<lparr>page_at := (page_at s)(p \<mapsto> pg')\<rparr>) U M"
proof -
  note v = inv [unfolded seg_inv_def]
  let ?s = "s\<lparr>page_at := (page_at s)(p \<mapsto> pg')\<rparr>" and ?G = "dom (segment_at s)"
  obtain g i c where m: "p = hdr g i" "M (g, i) = Some (c, UsedSpan)" using v p(1) by blast
  obtain t L where t: "tld_at s tld = Some t" "spans_inv (page_at s) (sqs t) ?G M L" "\<And>g. g \<in> ?G \<Longrightarrow> commit_ok s g"
    using v unfolding seg_ok_def by blast
  note d = spans_invD [OF t(2) m(2)]
  let ?M1 = "M((g, i) \<mapsto> (c, PoppedSpan))" and ?P = "(page_at s)(p \<mapsto> pg')"
  have inv1: "spans_inv (page_at s) (sqs t) ?G ?M1 L" by (rule spans_inv_release [OF t(2) m(2)])
  have hd: "span_hdr ?P g i c UsedSpan"
  proof -
    have "p \<noteq> hdr g (i + k)" if "0 < k" "k < c" for k using hdr_inject [OF d(1) d(1), of i "i + k"] that d(3) m(1) by simp
    then show ?thesis using d(6) p m(1) unfolding span_hdr_def
      by auto
  qed
  have M1: "?M1 (g, i) = Some (c, PoppedSpan)" by simp
  have "spans_inv ?P (sqs t) ?G (?M1((g, i) \<mapsto> (c, UsedSpan))) L"
  proof (rule spans_inv_use [of _ _ _ ?M1 _ g i c, OF inv1 M1 hd])
    show "?P x = page_at s x" if "x \<notin> {hdr g (i + k) | k. k < c}" for x
    proof -
      have "x \<noteq> p" using that m(1) d(2) by (auto intro: exI [of _ 0])
      then show ?thesis by simp
    qed
  qed simp
  moreover have "?M1((g, i) \<mapsto> (c, UsedSpan)) = M" using m(2) by (simp add: fun_upd_idem)
  ultimately have "spans_inv ?P (sqs t) ?G M L" by simp
  moreover have "commit_ok ?s g'" if "g' \<in> ?G" for g' using t(3) [OF that] commit_ok_cong [of ?s s g'] by simp
  ultimately have "seg_ok ?s tld ?G M" using t(1) unfolding seg_ok_def by auto
  then show ?thesis using v unfolding seg_inv_def by simp
qed


lemma outcome_todo_result: "outcome_todo env r Q \<Longrightarrow> r = Inr a \<Longrightarrow> Q a"
  by (auto simp: outcome_todo_def outcome_def)

text \<open>An allocation from a state with the invariant.\<close>

lemma seg_inv_alloc:
  assumes inv: "seg_inv tld s U M" and h: "heap_at s heap \<noteq> None" and fresh: "mmap_fresh env s (dom (segment_at s))" and tid: "env_thread_id env \<noteq> 0"
    and r: "segment_page_alloc env heap bsize al tld s = Inr (p, s')"
  obtains M' g i c n s0 M0 where "p = hdr g i" "took_span s0 tld (dom (segment_at s0)) M0 g i c n s'" "unat bsize \<le> n * 65536" "0 < n" "n \<le> 256"
    "seg_inv tld s0 U M0" "heap_at s' = heap_at s"
proof -
  have ok: "seg_ok s tld (dom (segment_at s)) M" using inv unfolding seg_inv_def by blast
  obtain hp where hp: "heap_at s heap = Some hp" using h by blast
  obtain n where n: "unat bsize \<le> n * 65536" "0 < n" "n \<le> 256" "got_page env s tld (dom (segment_at s)) M n p s'"
    using segment_page_alloc_ok [OF ok fresh hp page_alloc_large [OF r]] outcome_todo_result [OF _ r] by auto
  from n(4) [unfolded got_page_def] show ?thesis
  proof (elim disjE exE conjE)
    fix g i c assume a: "p = hdr g i" "took_span s tld (dom (segment_at s)) M g i c n s'"
    then have "heap_at s' = heap_at s" unfolding took_span_def span_frame_def by blast
    then show ?thesis using that [OF a n(1-3) inv] by blast
  next
    fix g s0 assume a: "p = hdr g 1" "fresh_segment env s tld (dom (segment_at s)) M g s0"
      "took_span s0 tld (insert g (dom (segment_at s))) (fresh_spans M g) g 1 511 n s'"
    note f = seg_inv_fresh [OF inv a(2) tid]
    have "heap_at s' = heap_at s0" using a(3) unfolding took_span_def span_frame_def by blast
    then have "heap_at s' = heap_at s" using a(2) unfolding fresh_segment_def by simp
    then show ?thesis using that [OF a(1) a(3) [folded f(2)] n(1-3) f(1)] by blast
  qed
qed

lemma seg_reach_inv:
  assumes "seg_reach env heap tld s U" "env_thread_id env \<noteq> 0"
  shows "(\<exists>M. seg_inv tld s U M) \<and> heap_at s heap \<noteq> None"
  using assms(1)
proof (induction rule: seg_reach.induct)
  case (start s t)
  then show ?case using seg_inv_start by blast
next
  case (alloc s U bsize al p s')
  obtain M where M: "seg_inv tld s U M" "heap_at s heap \<noteq> None" using alloc.IH by blast
  from seg_inv_alloc [OF M alloc.hyps(2) assms(2) alloc.hyps(3)] obtain g i c n s0 M0 where
    a: "p = hdr g i" "took_span s0 tld (dom (segment_at s0)) M0 g i c n s'" "0 < n" "seg_inv tld s0 U M0" "heap_at s' = heap_at s" by metis
  then show ?case using seg_inv_took(1) [OF a(4,2,3)] M(2) by auto
next
  case (freeing s U p pg force s')
  obtain M where M: "seg_inv tld s U M" "heap_at s heap \<noteq> None" using freeing.IH by blast
  note v = M(1) [unfolded seg_inv_def]
  obtain g i c where m: "p = hdr g i" "0 < i" "M (g, i) = Some (c, UsedSpan)" using v freeing.hyps(2) by blast
  have ok: "seg_ok s tld (dom (segment_at s)) M" using v by blast
  have "g \<in> dom (segment_at s)" using ok m(3) unfolding seg_ok_def spans_inv_def by blast
  then obtain sg where sg: "segment_at s g = Some sg" "thread_id sg \<noteq> 0" "seg_kind (main2 sg) \<noteq> Huge" using v by blast
  have "\<exists>M'. freed_span M g i c M' \<and> seg_ok s' tld (dom (segment_at s)) M' \<and> span_frame tld g (slices_of (M((g, i) \<mapsto> (c, PoppedSpan))) {FreeSpan, PoppedSpan}) s s'"
    using segment_page_free_ok [OF ok m(3) _ sg, of pg env force] v freeing.hyps(3-5) unfolding m(1) by (auto split: if_splits)
  then obtain M' where M': "freed_span M g i c M'" "seg_ok s' tld (dom (segment_at s)) M'"
    "span_frame tld g (slices_of (M((g, i) \<mapsto> (c, PoppedSpan))) {FreeSpan, PoppedSpan}) s s'" by blast
  have "heap_at s' = heap_at s" using M'(3) unfolding span_frame_def by blast
  then show ?case using seg_inv_freed [OF M(1) m(3,2) M'] M(2) m(1) by auto
next
  case (writing s U p pg pg')
  then obtain M where M: "seg_inv tld s U M" "heap_at s heap \<noteq> None" by blast
  show ?case using seg_inv_writing [OF M(1) writing.hyps(2-6)] M(2) by auto
qed



section \<open>Live pages\<close>

definition page_bytes :: "st \<Rightarrow> usize \<Rightarrow> usize set" where
  "page_bytes s p = (case page_at s p of None \<Rightarrow> {}
     | Some pg \<Rightarrow> {x. unat (slice_start p) \<le> unat x \<and> unat x < unat (slice_start p) + 65536 * unat (pcount pg)})"

lemma page_bytes_span:
  assumes "spans_inv (page_at s) T G M L" "M (g, i) = Some (c, UsedSpan)"
  shows "page_bytes s (hdr g i) = {x. unat g + 65536 * i \<le> unat x \<and> unat x < unat g + 65536 * (i + c)}"
proof -
  note d = spans_invD [OF assms]
  obtain pg where "page_at s (hdr g i) = Some pg" "pcount pg = of_nat c" using d(6) unfolding span_hdr_def by auto
  then show ?thesis using hdr_back(3) [OF d(1,4)] d(5) by (simp add: page_bytes_def algebra_simps)
qed

lemma spans_bytes_disjoint:
  fixes x :: usize
  assumes inv: "spans_inv P T G M L" and m: "M (g, i) = Some (c, u)" "M (g', j) = Some (e, v)" "(g, i) \<noteq> (g', j)"
    and x: "unat g + 65536 * i \<le> unat x" "unat x < unat g + 65536 * (i + c)" "unat g' + 65536 * j \<le> unat x" "unat x < unat g' + 65536 * (j + e)"
  shows False
proof -
  note d = spans_invD [OF inv m(1)] and d' = spans_invD [OF inv m(2)]
  have "in_segment g x" "in_segment g' x" using x d(3) d'(3) by (simp_all add: in_segment_def)
  then have g: "g' = g" using segments_disjoint [OF d(1) d'(1)] by blast
  let ?k = "(unat x - unat g) div 65536"
  have "i \<le> ?k" "?k < i + c" "j \<le> ?k" "?k < j + e"
    using x g by (simp_all add: less_eq_div_iff_mult_less_eq div_less_iff_less_mult)
  then have "i = j" using tiled_unique [OF d(8) m(1), of j e v ?k] m(2) g by simp
  then show False using m(3) g by simp
qed

text \<open>
  C5. Two live pages never share a byte. Whatever sequence of page allocations, page frees and
  writes to the headers of owned pages a thread runs, the memory of any two pages that were
  handed out and not yet freed is disjoint, lies inside a segment and leaves that segment's
  first slice, which holds the headers, alone.
\<close>

theorem live_pages_disjoint:
  assumes "seg_reach env heap tld s U" "env_thread_id env \<noteq> 0"
  shows "(\<forall>p \<in> U. \<forall>q \<in> U. p \<noteq> q \<longrightarrow> page_bytes s p \<inter> page_bytes s q = {})
    \<and> (\<forall>p \<in> U. page_bytes s p \<noteq> {} \<and> (\<forall>x \<in> page_bytes s p. in_segment (ptr_segment p) x \<and> unat x \<ge> unat (ptr_segment p) + 65536))"
proof -
  obtain M where inv: "seg_inv tld s U M" using seg_reach_inv [OF assms] by blast
  obtain t L where sp: "spans_inv (page_at s) (sqs t) (dom (segment_at s)) M L" using inv unfolding seg_inv_def seg_ok_def by blast
  have U: "\<exists>g i c. p = hdr g i \<and> 0 < i \<and> M (g, i) = Some (c, UsedSpan)" if "p \<in> U" for p using that inv unfolding seg_inv_def by auto
  have "page_bytes s p \<inter> page_bytes s q = {}" if pq: "p \<in> U" "q \<in> U" "p \<noteq> q" for p q
  proof -
    obtain g i c where p: "p = hdr g i" "M (g, i) = Some (c, UsedSpan)" using U [OF pq(1)] by blast
    obtain g' j e where q: "q = hdr g' j" "M (g', j) = Some (e, UsedSpan)" using U [OF pq(2)] by blast
    have ne: "(g, i) \<noteq> (g', j)" using pq(3) p q by auto
    show ?thesis unfolding p(1) q(1) page_bytes_span [OF sp p(2)] page_bytes_span [OF sp q(2)]
      using spans_bytes_disjoint [OF sp p(2) q(2) ne] by blast
  qed
  moreover have "page_bytes s p \<noteq> {} \<and> (\<forall>x \<in> page_bytes s p. in_segment (ptr_segment p) x \<and> unat x \<ge> unat (ptr_segment p) + 65536)"
    if u: "p \<in> U" for p
  proof -
    obtain g i c where p: "p = hdr g i" "0 < i" "M (g, i) = Some (c, UsedSpan)" using U [OF u] by blast
    note d = spans_invD [OF sp p(3)]
    have "slice_start (hdr g i) \<in> page_bytes s p" unfolding p(1) page_bytes_span [OF sp p(3)] using hdr_back(3) [OF d(1,4)] d(2) by simp
    then show ?thesis unfolding p(1) page_bytes_span [OF sp p(3)] hdr_back(1) [OF d(1,4)] using p(2) d(3) by (auto simp: in_segment_def)
  qed
  ultimately show ?thesis by blast
qed


text \<open>
  C6. A page that is allocated is new, long enough and usable. From every reachable state,
  when \<^verbatim>\<open>segment_page_alloc\<close> returns a page, it is none of the live pages, its slices hold the
  block size asked for, and every byte of it can be read and written.
\<close>

theorem allocated_page_usable:
  assumes "seg_reach env heap tld s U" "env_thread_id env \<noteq> 0" "mmap_fresh env s (dom (segment_at s))"
    "segment_page_alloc env heap bsize al tld s = Inr (p, s')"
  shows "p \<notin> U \<and> (\<exists>pg. page_at s' p = Some pg \<and> unat bsize \<le> 65536 * unat (pcount pg))
    \<and> page_bytes s' p \<noteq> {} \<and> (\<forall>x \<in> page_bytes s' p. os_prot s' x = Some True)"
proof -
  obtain M where M: "seg_inv tld s U M" "heap_at s heap \<noteq> None" using seg_reach_inv [OF assms(1,2)] by blast
  obtain g i c n s0 M0 where a: "p = hdr g i" "took_span s0 tld (dom (segment_at s0)) M0 g i c n s'" "unat bsize \<le> n * 65536"
    "0 < n" "n \<le> 256" "seg_inv tld s0 U M0" using seg_inv_alloc [OF M assms(3,2,4)] by metis
  note f = seg_inv_took [OF a(6,2,4)]
  obtain t L where sp: "spans_inv (page_at s') (sqs t) (dom (segment_at s')) (carve M0 g i c n) L"
    using f(1) unfolding seg_inv_def seg_ok_def by blast
  have m: "carve M0 g i c n (g, i) = Some (n, UsedSpan)" using a(4) f(4) by (simp add: carve_def)
  note b = page_bytes_span [OF sp m] and d = spans_invD [OF sp m]
  have "slice_start p \<in> page_bytes s' p" unfolding a(1) b using hdr_back(3) [OF d(1,4)] a(4) by simp
  moreover have "\<forall>x \<in> page_bytes s' p. os_prot s' x = Some True" using a(2) unfolding a(1) b took_span_def by blast
  moreover have "\<exists>pg. page_at s' p = Some pg \<and> pcount pg = of_nat n" using a(1,2) unfolding took_span_def by blast
  then have "\<exists>pg. page_at s' p = Some pg \<and> unat bsize \<le> 65536 * unat (pcount pg)" using a(3,5) by auto
  ultimately show ?thesis using f(2) a(1) by blast
qed

text \<open>
  C7. Page allocation always returns. From every reachable state, for every block size up to
  \<^verbatim>\<open>LARGE_OBJ_SIZE_MAX\<close> and every supported alignment, a kernel that grants memory makes
  \<^verbatim>\<open>segment_page_alloc\<close> return a page; its search of the queues and its retry with a fresh
  segment end. If it does not return a page, it stopped because the kernel refused: in \<^verbatim>\<open>todo\<close>
  when there was no memory, in a panic when it could not be committed. Larger sizes and
  alignments stop in \<^verbatim>\<open>todo\<close>.
\<close>

theorem page_alloc_returns:
  assumes "seg_reach env heap tld s U" "env_thread_id env \<noteq> 0" "mmap_fresh env s (dom (segment_at s))"
  shows "(bsize \<le> LARGE_OBJ_SIZE_MAX \<and> al \<le> ALIGNMENT_MAX \<longrightarrow>
      (\<exists>p s'. segment_page_alloc env heap bsize al tld s = Inr (p, s') \<and> p \<noteq> 0)
      \<or> segment_page_alloc env heap bsize al tld s = Inl Todo \<and> \<not> mmap_granted env
      \<or> segment_page_alloc env heap bsize al tld s = Inl Panic \<and> \<not> mprotect_granted env)
    \<and> (bsize > LARGE_OBJ_SIZE_MAX \<or> al > ALIGNMENT_MAX \<longrightarrow> segment_page_alloc env heap bsize al tld s = Inl Todo)"
proof (intro conjI impI)
  obtain M where M: "seg_inv tld s U M" "heap_at s heap \<noteq> None" using seg_reach_inv [OF assms(1,2)] by blast
  assume b: "bsize \<le> LARGE_OBJ_SIZE_MAX \<and> al \<le> ALIGNMENT_MAX"
  let ?r = "segment_page_alloc env heap bsize al tld s"
  have ok: "seg_ok s tld (dom (segment_at s)) M" using M(1) unfolding seg_inv_def by blast
  obtain h where h: "heap_at s heap = Some h" using M(2) by blast
  obtain n where n: "outcome_todo env ?r (\<lambda>(p, s'). got_page env s tld (dom (segment_at s)) M n p s')"
    using segment_page_alloc_ok [OF ok assms(3) h conjunct1 [OF b] conjunct2 [OF b]] by blast
  have "p \<noteq> 0" if r: "?r = Inr (p, s')" for p s'
  proof -
    obtain g i c n s0 M0 where a: "p = hdr g i" "took_span s0 tld (dom (segment_at s0)) M0 g i c n s'" "0 < n" "seg_inv tld s0 U M0"
      using seg_inv_alloc [OF M assms(3,2) r] by metis
    obtain t L where sp: "spans_inv (page_at s0) (sqs t) (dom (segment_at s0)) M0 L" using a(4) unfolding seg_inv_def seg_ok_def by blast
    have "M0 (g, i) = Some (c, FreeSpan)" by (rule seg_inv_took(3) [OF a(4,2,3)])
    note d = spans_invD [OF sp this]
    show ?thesis using hdr_nonnull [OF d(1,4)] a(1) by simp
  qed
  then show "(\<exists>p s'. ?r = Inr (p, s') \<and> p \<noteq> 0) \<or> ?r = Inl Todo \<and> \<not> mmap_granted env \<or> ?r = Inl Panic \<and> \<not> mprotect_granted env"
    using n by (auto simp: outcome_todo_def outcome_def)
next
  assume "bsize > LARGE_OBJ_SIZE_MAX \<or> al > ALIGNMENT_MAX"
  then show "segment_page_alloc env heap bsize al tld s = Inl Todo"
    by (auto simp: segment_page_alloc_def todo_def layout_consts word_le_nat_alt word_less_nat_alt)
qed

text \<open>
  C8. Freeing a page. A used span whose page is freed becomes free together with the free spans
  right before and right after it, one free span in place of up to three; every other span, the
  other segments and the memory outside the segment stay as they are, the count of used pages
  goes down by one, and if no two free spans touched before, none do afterwards. The only other
  outcome is the panic of a kernel that refuses to decommit. (A segment that loses its last
  page, or whose pages are all abandoned, is the subject of the next property.)
\<close>

theorem page_free_merges:
  assumes "seg_ok s tld G M" "M (g, i) = Some (c, UsedSpan)" "0 < i" "\<forall>key d. M key \<noteq> Some (d, PoppedSpan)"
    "segment_at s g = Some sg" "thread_id sg \<noteq> 0" "seg_kind (main2 sg) \<noteq> Huge" "page_at s (hdr g i) = Some pg"
    "masked_ptr_delay_get_delay (xthread_free pg) \<noteq> 1" "seg_used (main2 sg) - 1 \<notin> {0, abandoned (main2 sg)}"
  shows "outcome env (segment_page_free env (hdr g i) force tld s) (\<lambda>s'. \<exists>M' sg'. freed_span M g i c M' \<and> seg_ok s' tld G M'
    \<and> (separated M \<longrightarrow> separated M') \<and> span_frame tld g (slices_of (M((g, i) \<mapsto> (c, PoppedSpan))) {FreeSpan, PoppedSpan}) s s'
    \<and> segment_at s' g = Some sg' \<and> main2 sg' = (main2 sg)\<lparr>seg_used := seg_used (main2 sg) - 1\<rparr>)"
proof -
  obtain t L where sp: "spans_inv (page_at s) (sqs t) G M L" using assms(1) unfolding seg_ok_def by blast
  note d = spans_invD [OF sp assms(2)]
  have sep: "separated M \<longrightarrow> separated M'" if "freed_span M g i c M'" for M'
    using separated_freed [OF _ assms(2) _ d(8) that] by blast
  have alone: "\<And>key d. M key \<noteq> Some (d, PoppedSpan)" using assms(4) by blast
  note f = segment_page_free_ok [OF assms(1,2) alone assms(5-9), of env force]
  show ?thesis using f assms(10) sep unfolding outcome_def by (auto split: if_splits)
qed

text \<open>
  C9. When freeing a page is not implemented. With a kernel that does not refuse, freeing a
  page stops in \<^verbatim>\<open>todo\<close> exactly when its segment is abandoned or huge, when it was the last
  used page of the segment (\<^verbatim>\<open>segment_free\<close> is a \<^verbatim>\<open>todo\<close>), or when only abandoned pages remain.
\<close>

theorem page_free_todo_iff:
  assumes "seg_ok s tld G M" "M (g, i) = Some (c, UsedSpan)" "\<forall>key d. M key \<noteq> Some (d, PoppedSpan)" "segment_at s g = Some sg"
    "page_at s (hdr g i) = Some pg" "masked_ptr_delay_get_delay (xthread_free pg) \<noteq> 1" "mprotect_granted env"
  shows "segment_page_free env (hdr g i) force tld s = Inl Todo \<longleftrightarrow>
    thread_id sg = 0 \<or> seg_kind (main2 sg) = Huge \<or> seg_used (main2 sg) - 1 \<in> {0, abandoned (main2 sg)}"
proof (cases "thread_id sg = 0 \<or> seg_kind (main2 sg) = Huge")
  case True
  then show ?thesis using segment_page_free_todo [OF assms(1,2,4) True assms(5,6)] by blast
next
  case False
  have alone: "\<And>key d. M key \<noteq> Some (d, PoppedSpan)" using assms(3) by blast
  show ?thesis using segment_page_free_ok [OF assms(1,2) alone assms(4) _ _ assms(5,6), of env force] False assms(7)
    by (auto split: if_splits)
qed

text \<open>
  Finding a span. The search fails, changing nothing, exactly when no free span has the
  slices asked for; the queues it skips hold only shorter spans. Otherwise it takes one that is
  long enough: the first slices become a used span whose bytes can be read and written, the
  rest stays a free span in its own queue, and everything else is as before.
\<close>

lemma find_and_allocate_fits:
  assumes "seg_ok s tld G M" "n \<le> 512"
  shows "outcome env (segments_page_find_and_allocate env (of_nat n) tld s)
    (\<lambda>(p, s'). if p = 0 then s' = s \<and> (\<forall>g i c. M (g, i) = Some (c, FreeSpan) \<longrightarrow> c < max 1 n)
      else (\<exists>g i c. p = hdr g i \<and> took_span s tld G M g i c (max 1 n) s'))"
  by (rule find_and_allocate_ok [OF assms])

text \<open>
  A fresh segment. Unless the kernel refuses, \<^verbatim>\<open>segment_alloc\<close> returns a segment that is none
  of the live ones, with its first slice used for the headers and all the others one free span,
  its masks telling the truth about its memory, and leaves everything else as it was.
\<close>

lemma segment_alloc_fresh:
  assumes "seg_ok s tld G M" "mmap_fresh env s G"
  shows "outcome_todo env (segment_alloc env 0 0 aid tld s) (\<lambda>(g, s'). fresh_segment env s tld G M g s')"
  using segment_alloc_ok [OF assms, of aid] unfolding outcome_todo_def .


section \<open>An execution\<close>

text \<open>A kernel that maps the first segment at 64 MiB, and a thread with empty queues.\<close>

definition env_one :: Env where
  "env_one = env_example\<lparr>env_mmap := (\<lambda>n hint len rw. 67108864)\<rparr>"

definition tld_example :: Tld where
  "tld_example = \<lparr>heap_backing = 16, segments = \<lparr>span_queue_headers = span_queue_headers_tmp, segments_count = 0, peak_count = 0,
     current_size = 0, peak_size = 0\<rparr>\<rparr>"

definition seg_example :: st where
  "seg_example = st_empty\<lparr>tld_at := [8 \<mapsto> tld_example],
     heap_at := [16 \<mapsto> \<lparr>tld_ptr = 8, pages_free_direct = pages_free_direct_tmp, pages = pages_tmp, thread_delayed_free = 0,
       heap_thread_id = 1, arena_id = 0, page_count = 0, page_retired_min = 0, page_retired_max = 0, no_reclaim = False, page_empty_ptr = 0\<rparr>]\<rparr>"

lemma seg_example_fields [simp]: "tld_at seg_example 8 = Some tld_example" "sqs tld_example = span_queue_headers_tmp"
  "segment_at seg_example = Map.empty" "\<exists>h. heap_at seg_example 16 = Some h"
  by (simp_all add: seg_example_def tld_example_def st_empty_def)

lemma env_one_grants: "mmap_granted env_one" "mprotect_granted env_one" "env_thread_id env_one \<noteq> 0" "mmap_fresh env_one s {}"
  by (simp_all add: mmap_granted_def mprotect_granted_def mmap_fresh_def env_one_def env_example_def MAP_FAILED_def)

lemma granted_outcome: "mprotect_granted env \<Longrightarrow> outcome env r Q \<Longrightarrow> \<exists>a. r = Inr a \<and> Q a"
  by (auto simp: outcome_def)

lemma granted_outcome_todo: "mmap_granted env \<Longrightarrow> mprotect_granted env \<Longrightarrow> outcome_todo env r Q \<Longrightarrow> \<exists>a. r = Inr a \<and> Q a"
  by (auto simp: outcome_todo_def outcome_def)

lemma seg_example_reach: "seg_reach env_one 16 8 seg_example {}"
  by (rule seg_reach.start [where t = tld_example]) simp_all

lemma seg_example_inv: "seg_inv 8 seg_example {} Map.empty" "seg_ok seg_example 8 {} Map.empty"
proof -
  show inv: "seg_inv 8 seg_example {} Map.empty" by (rule seg_inv_start [where t = tld_example]) simp_all
  then show "seg_ok seg_example 8 {} Map.empty" unfolding seg_inv_def by simp
qed

text \<open>A fresh segment, then one page and a second one in it.\<close>

lemma example_fresh:
  obtains g s sg where "segment_alloc env_one 0 0 0 8 seg_example = Inr (g, s)" "seg_inv 8 s {} (fresh_spans Map.empty g)"
    "dom (segment_at s) = {g}" "segment_at s g = Some sg" "seg_used (main2 sg) = 0" "abandoned (main2 sg) = 0"
proof -
  have "outcome_todo env_one (segment_alloc env_one 0 0 0 8 seg_example) (\<lambda>(g, s'). fresh_segment env_one seg_example 8 {} Map.empty g s')"
    unfolding outcome_todo_def by (rule segment_alloc_ok [OF seg_example_inv(2) env_one_grants(4)])
  then obtain g s where s: "segment_alloc env_one 0 0 0 8 seg_example = Inr (g, s)" "fresh_segment env_one seg_example 8 {} Map.empty g s"
    using granted_outcome_todo [OF env_one_grants(1,2)] by force
  have "fresh_segment env_one seg_example 8 (dom (segment_at seg_example)) Map.empty g s" using s(2) by simp
  note f = seg_inv_fresh [OF seg_example_inv(1) this env_one_grants(3)]
  obtain sg where "segment_at s g = Some sg" "seg_used (main2 sg) = 0" "abandoned (main2 sg) = 0" using s(2) unfolding fresh_segment_def by blast
  then show ?thesis using that [OF s(1) f(1)] f(2) by simp
qed

text \<open>Where only one span is free, the search takes it.\<close>

lemma find_only:
  assumes inv: "seg_inv tld s U M" and only: "\<And>g' j e. M (g', j) = Some (e, FreeSpan) \<Longrightarrow> (g', j, e) = (g, i, c)"
    and m: "M (g, i) = Some (c, FreeSpan)" "n \<le> c" "0 < n" and sg: "segment_at s g = Some sg"
  obtains s' sg' where "segments_page_find_and_allocate env_one (of_nat n) tld s = Inr (hdr g i, s')" "seg_inv tld s' (insert (hdr g i) U) (carve M g i c n)"
    "segment_at s' g = Some sg'" "main2 sg' = (main2 sg)\<lparr>seg_used := seg_used (main2 sg) + 1\<rparr>"
proof -
  have ok: "seg_ok s tld (dom (segment_at s)) M" using inv unfolding seg_inv_def by blast
  obtain t L where sp: "spans_inv (page_at s) (sqs t) (dom (segment_at s)) M L" using ok unfolding seg_ok_def by blast
  have n5: "n \<le> 512" "max 1 n = n" using spans_invD(5) [OF sp m(1)] m by auto
  obtain a where a: "segments_page_find_and_allocate env_one (of_nat n) tld s = Inr a"
    "case a of (p, s') \<Rightarrow> if p = 0 then s' = s \<and> (\<forall>g i c. M (g, i) = Some (c, FreeSpan) \<longrightarrow> c < max 1 n)
      else (\<exists>g i c. p = hdr g i \<and> took_span s tld (dom (segment_at s)) M g i c (max 1 n) s')"
    using granted_outcome [OF env_one_grants(2) find_and_allocate_ok [OF ok n5(1)]] by blast
  obtain p s' where p: "a = (p, s')" by (cases a)
  have "p \<noteq> 0" using a(2) p m n5(2) by fastforce
  then obtain g' j e where t: "p = hdr g' j" "took_span s tld (dom (segment_at s)) M g' j e n s'" using a(2) p n5(2) by auto
  then have "(g', j, e) = (g, i, c)" using only unfolding took_span_def by blast
  then have T: "took_span s tld (dom (segment_at s)) M g i c n s'" "p = hdr g i" using t by simp_all
  obtain sg' where "segment_at s' g = Some sg'" "main2 sg' = (main2 sg)\<lparr>seg_used := seg_used (main2 sg) + 1\<rparr>" using T(1) sg unfolding took_span_def by blast
  then show ?thesis using that seg_inv_took(1) [OF inv T(1) m(3)] a(1) p T(2) by blast
qed


lemma example_two:
  obtains g s U M sg pg where "seg_inv 8 s U M" "M (g, 1) = Some (1, UsedSpan)" "segment_at s g = Some sg" "seg_used (main2 sg) = 2"
    "abandoned (main2 sg) = 0" "page_at s (hdr g 1) = Some pg" "xthread_free pg = 0"
proof -
  obtain g s sg where s: "seg_inv 8 s {} (fresh_spans Map.empty g)" "segment_at s g = Some sg" "seg_used (main2 sg) = 0" "abandoned (main2 sg) = 0"
    by (rule example_fresh)
  let ?M1 = "fresh_spans Map.empty g" and ?M2 = "carve (fresh_spans Map.empty g) g 1 511 1"
  obtain s1 sg1 where s1: "seg_inv 8 s1 (insert (hdr g 1) {}) ?M2" "segment_at s1 g = Some sg1" "main2 sg1 = (main2 sg)\<lparr>seg_used := seg_used (main2 sg) + 1\<rparr>"
  proof (rule find_only [of 8 s "{}" ?M1 g 1 511 1 sg, OF s(1) _ _ _ _ s(2)])
    show "(g', j, e) = (g, 1, 511)" if "?M1 (g', j) = Some (e, FreeSpan)" for g' j e using that by (auto simp: fresh_spans_def split: if_splits)
    show "?M1 (g, 1) = Some (511, FreeSpan)" by (simp add: fresh_spans_def)
  qed simp_all
  let ?M3 = "carve ?M2 g 2 510 1"
  obtain s2 sg2 where s2: "seg_inv 8 s2 (insert (hdr g 2) (insert (hdr g 1) {})) ?M3" "segment_at s2 g = Some sg2"
    "main2 sg2 = (main2 sg1)\<lparr>seg_used := seg_used (main2 sg1) + 1\<rparr>"
  proof (rule find_only [of 8 s1 "insert (hdr g 1) {}" ?M2 g 2 510 1 sg1, OF s1(1) _ _ _ _ s1(2)])
    show "(g', j, e) = (g, 2, 510)" if "?M2 (g', j) = Some (e, FreeSpan)" for g' j e using that by (auto simp: fresh_spans_def carve_def split: if_splits)
    show "?M2 (g, 2) = Some (510, FreeSpan)" by (simp add: fresh_spans_def carve_def numeral_2_eq_2)
  qed simp_all
  let ?U = "insert (hdr g 2) (insert (hdr g 1) {})"
  have m: "?M3 (g, 1) = Some (1, UsedSpan)" by (simp add: carve_def)
  obtain t L where sp: "spans_inv (page_at s2) (sqs t) (dom (segment_at s2)) ?M3 L" using s2(1) unfolding seg_inv_def seg_ok_def by blast
  obtain pg where pg: "page_at s2 (hdr g 1) = Some pg" "xblock_size (inner pg) \<noteq> 0" using spans_invD(6) [OF sp m] unfolding span_hdr_def by auto
  let ?s3 = "s2\<lparr>page_at := (page_at s2)(hdr g 1 \<mapsto> pg\<lparr>xthread_free := 0\<rparr>)\<rparr>"
  have "seg_inv 8 ?s3 ?U ?M3" by (rule seg_inv_writing [OF s2(1) _ pg(1)]) (use pg(2) in simp_all)
  then show ?thesis using that [of ?s3 ?U ?M3 g sg2] m s2(2,3) s1(3) s(3,4) by simp
qed

lemma example_alloc:
  obtains p s where "segment_page_alloc env_one 16 1024 0 8 seg_example = Inr (p, s)"
proof -
  obtain h where h: "heap_at seg_example 16 = Some h" using seg_example_fields(4) by blast
  obtain n where "outcome_todo env_one (segment_page_alloc env_one 16 1024 0 8 seg_example) (\<lambda>(p, s'). got_page env_one seg_example 8 {} Map.empty n p s')"
    using segment_page_alloc_ok [OF seg_example_inv(2) env_one_grants(4) h, of 1024 0] by (auto simp: layout_consts)
  then show ?thesis using that granted_outcome_todo [OF env_one_grants(1,2)] by force
qed

theorem live_pages_disjoint_witness:
  "\<exists>p s. seg_reach env_one 16 8 s {p} \<and> page_bytes s p \<noteq> {}"
proof -
  obtain p s where "segment_page_alloc env_one 16 1024 0 8 seg_example = Inr (p, s)" by (rule example_alloc)
  then have r: "seg_reach env_one 16 8 s {p}"
    using seg_reach.alloc [OF seg_example_reach, of 1024 0 p s] env_one_grants(4) by simp
  from live_pages_disjoint [OF r env_one_grants(3)] show ?thesis using r by blast
qed

theorem allocated_page_usable_witness:
  "\<exists>p s. segment_page_alloc env_one 16 1024 0 8 seg_example = Inr (p, s) \<and> page_bytes s p \<noteq> {}"
proof -
  obtain p s where r: "segment_page_alloc env_one 16 1024 0 8 seg_example = Inr (p, s)" by (rule example_alloc)
  have "mmap_fresh env_one seg_example (dom (segment_at seg_example))" using env_one_grants(4) by simp
  from allocated_page_usable [OF seg_example_reach env_one_grants(3) this r] r show ?thesis by blast
qed

theorem page_alloc_returns_witness:
  "(\<exists>p s. segment_page_alloc env_one 16 1024 0 8 seg_example = Inr (p, s)) \<and> segment_page_alloc env_one 16 16777217 0 8 seg_example = Inl Todo"
proof -
  have f: "mmap_fresh env_one seg_example (dom (segment_at seg_example))" using env_one_grants(4) by simp
  show ?thesis
    using page_alloc_returns [OF seg_example_reach env_one_grants(3) f, of 1024 0]
      page_alloc_returns [OF seg_example_reach env_one_grants(3) f, of 16777217 0] env_one_grants(1,2)
    by (auto simp: layout_consts)
qed

theorem page_free_merges_witness:
  "\<exists>g s s' M'. segment_page_free env_one (hdr g 1) False 8 s = Inr s' \<and> seg_ok s' 8 (dom (segment_at s)) M' \<and> separated M'"
proof -
  obtain g s U M sg pg where x: "seg_inv 8 s U M" "M (g, 1) = Some (1, UsedSpan)" "segment_at s g = Some sg" "seg_used (main2 sg) = 2"
    "abandoned (main2 sg) = 0" "page_at s (hdr g 1) = Some pg" "xthread_free pg = 0" by (rule example_two)
  note v = x(1) [unfolded seg_inv_def]
  have "outcome env_one (segment_page_free env_one (hdr g 1) False 8 s) (\<lambda>s'. \<exists>M' sg'. freed_span M g 1 1 M' \<and> seg_ok s' 8 (dom (segment_at s)) M'
    \<and> (separated M \<longrightarrow> separated M') \<and> span_frame 8 g (slices_of (M((g, 1) \<mapsto> (1, PoppedSpan))) {FreeSpan, PoppedSpan}) s s'
    \<and> segment_at s' g = Some sg' \<and> main2 sg' = (main2 sg)\<lparr>seg_used := seg_used (main2 sg) - 1\<rparr>)"
    by (rule page_free_merges [of s 8 "dom (segment_at s)" M g 1 1 sg pg]) (use v x in \<open>simp_all add: masked_ptr_delay_get_delay_def\<close>)
  from granted_outcome [OF env_one_grants(2) this] show ?thesis using v by blast
qed

theorem page_free_todo_iff_witness:
  "\<exists>g s. segment_page_free env_one (hdr g 1) False 8 s \<noteq> Inl Todo"
proof -
  obtain g s U M sg pg where x: "seg_inv 8 s U M" "M (g, 1) = Some (1, UsedSpan)" "segment_at s g = Some sg" "seg_used (main2 sg) = 2"
    "abandoned (main2 sg) = 0" "page_at s (hdr g 1) = Some pg" "xthread_free pg = 0" by (rule example_two)
  note v = x(1) [unfolded seg_inv_def]
  have "segment_page_free env_one (hdr g 1) False 8 s = Inl Todo \<longleftrightarrow>
    thread_id sg = 0 \<or> seg_kind (main2 sg) = Huge \<or> seg_used (main2 sg) - 1 \<in> {0, abandoned (main2 sg)}"
    by (rule page_free_todo_iff [of s 8 "dom (segment_at s)" M g 1 1 sg pg]) (use v x env_one_grants(2) in \<open>simp_all add: masked_ptr_delay_get_delay_def\<close>)
  moreover have "thread_id sg \<noteq> 0" "seg_kind (main2 sg) \<noteq> Huge" using v x(3) by blast+
  ultimately show ?thesis using x(4,5) by auto
qed

end
