(* ===== verification/Transitions.thy ===== *)
theory Transitions
  imports Main
begin

text \<open>
  Transitions of the state machines of the source. A transition has conditions under which it may be
  taken (\<^verbatim>\<open>require\<close>, \<^verbatim>\<open>have\<close>, \<^verbatim>\<open>remove\<close>) and facts it claims to hold then (\<^verbatim>\<open>assert\<close>, and that what it adds is
  new, what it withdraws is there). The result is \<open>Disabled\<close> when a condition is false, \<open>Violated\<close> when a
  claimed fact is, and the next state otherwise.
\<close>

datatype 's step_res = Disabled | Violated | Next 's

definition require :: "bool \<Rightarrow> 's step_res \<Rightarrow> 's step_res" where
  "require b k = (if b then k else Disabled)"

definition claim :: "bool \<Rightarrow> 's step_res \<Rightarrow> 's step_res" where
  "claim b k = (if b then k else Violated)"

text \<open>No claimed fact fails, and the next state has a property.\<close>

definition holds :: "'s step_res \<Rightarrow> ('s \<Rightarrow> bool) \<Rightarrow> bool" where
  "holds r Q = (case r of Disabled \<Rightarrow> True | Violated \<Rightarrow> False | Next s \<Rightarrow> Q s)"

lemma holds_simps [simp]: "holds Disabled Q" "\<not> holds Violated Q" "holds (Next s) Q = Q s"
  by (simp_all add: holds_def)

lemma holds_require: "holds (require b k) Q \<longleftrightarrow> (b \<longrightarrow> holds k Q)"
  by (simp add: require_def)

lemma holds_claim: "holds (claim b k) Q \<longleftrightarrow> b \<and> holds k Q"
  by (simp add: claim_def)

lemma requireI: "(b \<Longrightarrow> holds k Q) \<Longrightarrow> holds (require b k) Q"
  by (simp add: holds_require)

lemma claimI: "b \<Longrightarrow> holds k Q \<Longrightarrow> holds (claim b k) Q"
  by (simp add: holds_claim)

lemma holds_next: "holds r Q \<Longrightarrow> r \<noteq> Disabled \<Longrightarrow> \<exists>s'. r = Next s' \<and> Q s'"
  by (cases r) auto

lemma holds_mono: "holds r Q \<Longrightarrow> (\<And>s. Q s \<Longrightarrow> R s) \<Longrightarrow> holds r R"
  by (cases r) auto

text \<open>Steps one after the other.\<close>

fun run_steps :: "('a \<Rightarrow> 's \<Rightarrow> 's step_res) \<Rightarrow> 'a list \<Rightarrow> 's \<Rightarrow> 's step_res" where
  "run_steps ex [] s = Next s"
| "run_steps ex (a # as) s = (case ex a s of Next s' \<Rightarrow> run_steps ex as s' | r \<Rightarrow> r)"

lemma run_steps_append: "run_steps ex (as @ bs) s = (case run_steps ex as s of Next s' \<Rightarrow> run_steps ex bs s' | r \<Rightarrow> r)"
  by (induction as arbitrary: s) (auto split: step_res.splits)

lemma run_steps_keep:
  "(\<And>s a s'. R s \<Longrightarrow> ex a s = Next s' \<Longrightarrow> R s') \<Longrightarrow> R s \<Longrightarrow> run_steps ex as s = Next s' \<Longrightarrow> R s'"
  by (induction as arbitrary: s) (auto split: step_res.splits)


text \<open>
  The interface of a machine whose steps keep an invariant and, under it, claim nothing false. Both state
  machines of the source are one.
\<close>

locale machine =
  fixes exec :: "'a \<Rightarrow> 's \<Rightarrow> 's step_res"
    and ok :: "'s \<Rightarrow> bool"
  assumes exec_ok: "ok s \<Longrightarrow> holds (exec a s) ok"
begin

lemma not_violated: "ok s \<Longrightarrow> exec a s \<noteq> Violated"
  using exec_ok [of s a] by auto

lemma next_ok: "ok s \<Longrightarrow> exec a s = Next s' \<Longrightarrow> ok s'"
  using exec_ok [of s a] by simp

lemma enabled_next: "ok s \<Longrightarrow> exec a s \<noteq> Disabled \<Longrightarrow> \<exists>s'. exec a s = Next s' \<and> ok s'"
  by (rule holds_next [OF exec_ok])

lemma runs_ok: "ok s \<Longrightarrow> holds (run_steps exec as s) ok"
  by (induction as arbitrary: s) (auto simp: not_violated next_ok split: step_res.splits)

end

end
