(* ===== verification/Org_Lists.thy ===== *)
theory Org_Lists
  imports Main
begin

text \<open>
  The queues of \<^verbatim>\<open>PageOrg\<close> as lists: doubly linked through entries that name the neighbours, with a header for
  each queue. A queue assignment \<open>K\<close> says in which queue a span is; taking a span out and putting one in are
  changes of it. The lemmas serve the unused and the used queues alike.
\<close>

section \<open>Queues of the state machine\<close>

text \<open>The names \<open>'p\<close> of pages are those of \<open>Page_Org\<close>.\<close>

record 'p DlistHeader =
  dh_first :: "'p option"
  dh_last :: "'p option"

record 'p DlistEntry =
  de_prev :: "'p option"
  de_next :: "'p option"

definition remove_at :: "nat \<Rightarrow> 'a list \<Rightarrow> 'a list" where
  "remove_at j l = take j l @ drop (Suc j) l"

definition insert_front :: "'p list list \<Rightarrow> nat \<Rightarrow> 'p \<Rightarrow> 'p list list" where
  "insert_front ll i p = ll[i := p # ll ! i]"

definition insert_back :: "'p list list \<Rightarrow> nat \<Rightarrow> 'p \<Rightarrow> 'p list list" where
  "insert_back ll i p = ll[i := ll ! i @ [p]]"

text \<open>The source chooses any position of \<open>p\<close>; this is the first one, and there is only one in a reachable state.\<close>

definition get_list_idx :: "'p list list \<Rightarrow> 'p \<Rightarrow> nat \<times> nat" where
  "get_list_idx ls p = (let i = length (takeWhile (\<lambda>l. p \<notin> set l) ls)
     in (i, length (takeWhile (\<lambda>q. q \<noteq> p) (ls ! i))))"


section \<open>Linked entries\<close>

type_synonym 'p entries = "'p \<rightharpoonup> 'p DlistEntry"

definition hd_opt :: "'p option \<Rightarrow> 'p list \<Rightarrow> 'p option" where
  "hd_opt d xs = (case xs of [] \<Rightarrow> d | x # _ \<Rightarrow> Some x)"

definition last_opt :: "'p option \<Rightarrow> 'p list \<Rightarrow> 'p option" where
  "last_opt d xs = (if xs = [] then d else Some (last xs))"

lemma hd_opt_simps [simp]: "hd_opt d [] = d" "hd_opt d (x # xs) = Some x"
  by (simp_all add: hd_opt_def)

lemma last_opt_simps [simp]: "last_opt d [] = d" "last_opt d (x # xs) = last_opt (Some x) xs" "last_opt d (xs @ [x]) = Some x"
  by (simp_all add: last_opt_def)

lemma hd_opt_append: "hd_opt d (xs @ ys) = hd_opt (hd_opt d ys) xs"
  by (cases xs) simp_all

lemma last_opt_append: "last_opt d (xs @ ys) = last_opt (last_opt d xs) ys"
  by (simp add: last_opt_def)

lemma opt_ends [simp]: "hd_opt None xs = None \<longleftrightarrow> xs = []" "last_opt None xs = None \<longleftrightarrow> xs = []"
  by (cases xs; simp add: last_opt_def)+

lemma opt_ends_in: "hd_opt None xs = Some x \<Longrightarrow> x \<in> set xs" "last_opt None xs = Some x \<Longrightarrow> x \<in> set xs"
  by (cases xs; auto simp: last_opt_def split: if_splits)+

fun linked :: "'p entries \<Rightarrow> 'p option \<Rightarrow> 'p list \<Rightarrow> 'p option \<Rightarrow> bool" where
  "linked E pv [] nx \<longleftrightarrow> True"
| "linked E pv (x # xs) nx \<longleftrightarrow> E x = Some \<lparr>de_prev = pv, de_next = hd_opt nx xs\<rparr> \<and> linked E (Some x) xs nx"

lemma linked_append: "linked E pv (xs @ ys) nx \<longleftrightarrow> linked E pv xs (hd_opt nx ys) \<and> linked E (last_opt pv xs) ys nx"
  by (induction xs arbitrary: pv) (auto simp: hd_opt_append)

lemma linked_cong: "(\<And>x. x \<in> set xs \<Longrightarrow> E' x = E x) \<Longrightarrow> linked E' pv xs nx = linked E pv xs nx"
  by (induction xs arbitrary: pv) auto

lemma linked_upd [simp]: "x \<notin> set xs \<Longrightarrow> linked (E(x := v)) pv xs nx = linked E pv xs nx"
  by (rule linked_cong) auto

lemma linked_mem: "linked E pv xs nx \<Longrightarrow> x \<in> set xs \<Longrightarrow> \<exists>e. E x = Some e"
  by (induction xs arbitrary: pv) auto

lemma linked_at:
  assumes "linked E pv (us @ x # vs) nx"
  shows "E x = Some \<lparr>de_prev = last_opt pv us, de_next = hd_opt nx vs\<rparr>"
  using assms by (simp add: linked_append)

text \<open>Writing one link of an entry.\<close>

definition put_next :: "'p option \<Rightarrow> 'p option \<Rightarrow> 'p entries \<Rightarrow> 'p entries" where
  "put_next q v E = (case q of None \<Rightarrow> E | Some q \<Rightarrow> E(q := map_option (de_next_update (\<lambda>_. v)) (E q)))"

definition put_prev :: "'p option \<Rightarrow> 'p option \<Rightarrow> 'p entries \<Rightarrow> 'p entries" where
  "put_prev q v E = (case q of None \<Rightarrow> E | Some q \<Rightarrow> E(q := map_option (de_prev_update (\<lambda>_. v)) (E q)))"

lemma put_None [simp]: "put_next None v E = E" "put_prev None v E = E"
  by (simp_all add: put_next_def put_prev_def)

lemma put_other: "q \<noteq> Some x \<Longrightarrow> put_next q v E x = E x" "q \<noteq> Some x \<Longrightarrow> put_prev q v E x = E x"
  by (auto simp: put_next_def put_prev_def split: option.splits)

lemma put_None_iff [simp]: "put_next q v E x = None \<longleftrightarrow> E x = None" "put_prev q v E x = None \<longleftrightarrow> E x = None"
  by (auto simp: put_next_def put_prev_def split: option.splits)

lemma linked_put_other:
  assumes "\<And>x. q = Some x \<Longrightarrow> x \<notin> set xs"
  shows "linked (put_next q v E) pv xs nx = linked E pv xs nx" "linked (put_prev q v E) pv xs nx = linked E pv xs nx"
proof -
  have eq: "put_next q v E x = E x" "put_prev q v E x = E x" if "x \<in> set xs" for x
    using put_other [of q x v E] assms that by auto
  show "linked (put_next q v E) pv xs nx = linked E pv xs nx" by (rule linked_cong) (rule eq(1))
  show "linked (put_prev q v E) pv xs nx = linked E pv xs nx" by (rule linked_cong) (rule eq(2))
qed

lemma linked_put_next:
  assumes "linked E None us x" "distinct us"
  shows "linked (put_next (last_opt None us) v E) None us v"
proof (cases us rule: rev_cases)
  case (snoc ws z)
  have z: "E z = Some \<lparr>de_prev = last_opt None ws, de_next = x\<rparr>" and w: "linked E None ws (Some z)"
    using assms(1) by (simp_all add: snoc linked_append)
  have "linked (put_next (Some z) v E) None ws (Some z)"
    using w assms(2) linked_put_other(1) [of "Some z" ws] by (auto simp: snoc)
  then show ?thesis using z by (simp add: snoc linked_append put_next_def)
qed simp

lemma linked_put_prev:
  assumes "linked E (Some x) vs None" "distinct vs"
  shows "linked (put_prev (hd_opt None vs) v E) v vs None"
proof (cases vs)
  case (Cons z ws)
  have "linked (put_prev (Some z) v E) (Some z) ws None"
    using assms linked_put_other(2) [of "Some z" ws] by (auto simp: Cons)
  then show ?thesis using assms(1) by (simp add: Cons put_prev_def)
qed simp

text \<open>An entry leaves the list and its neighbours are joined.\<close>

definition relink :: "'p entries \<Rightarrow> 'p option \<Rightarrow> 'p option \<Rightarrow> 'p entries" where
  "relink E pv nx = put_prev nx pv (put_next pv nx E)"

lemma relink_other: "pv \<noteq> Some x \<Longrightarrow> nx \<noteq> Some x \<Longrightarrow> relink E pv nx x = E x"
  by (simp add: relink_def put_other)

lemma linked_join:
  assumes l: "linked E None (us @ x # vs) None" and d: "distinct (us @ x # vs)"
  shows "linked (relink E (last_opt None us) (hd_opt None vs)) None (us @ vs) None"
proof -
  let ?p = "last_opt None us" and ?n = "hd_opt None vs"
  let ?E = "put_next ?p ?n E"
  have u: "linked E None us (Some x)" and v: "linked E (Some x) vs None"
    using l by (simp_all add: linked_append)
  have "linked ?E None us ?n" using linked_put_next [OF u] d by simp
  moreover have "linked ?E (Some x) vs None" using v d opt_ends_in(2) [of us] by (subst linked_put_other(1)) (auto dest: opt_ends_in)
  then have "linked (put_prev ?n ?p ?E) ?p vs None" by (rule linked_put_prev) (use d in simp)
  then have "linked (relink E ?p ?n) ?p vs None" by (simp only: relink_def)
  moreover have "linked (relink E ?p ?n) None us ?n"
    unfolding relink_def using d \<open>linked ?E None us ?n\<close> by (subst linked_put_other(2)) (auto dest: opt_ends_in)
  ultimately show ?thesis by (simp add: linked_append)
qed

lemma linked_cons_front:
  assumes "linked E None xs None" "distinct xs" "x \<notin> set xs"
  shows "linked ((put_prev (hd_opt None xs) (Some x) E)(x \<mapsto> \<lparr>de_prev = None, de_next = hd_opt None xs\<rparr>)) None (x # xs) None"
proof (cases xs)
  case (Cons y ys)
  then have "linked E (Some y) ys None" "E y = Some \<lparr>de_prev = None, de_next = hd_opt None ys\<rparr>" "y \<notin> set ys" "x \<notin> set ys" "x \<noteq> y" using assms by auto
  then show ?thesis by (simp add: Cons put_prev_def)
qed simp

lemma linked_snoc_back:
  assumes "linked E None xs None" "distinct xs" "x \<notin> set xs"
  shows "linked ((put_next (last_opt None xs) (Some x) E)(x \<mapsto> \<lparr>de_prev = last_opt None xs, de_next = None\<rparr>)) None (xs @ [x]) None"
proof -
  have "linked (put_next (last_opt None xs) (Some x) E) None xs (Some x)" using linked_put_next [OF assms(1,2)] .
  then show ?thesis using assms(3) by (simp add: linked_append)
qed


section \<open>Queues\<close>

definition queues_are :: "'p entries \<Rightarrow> 'p DlistHeader list \<Rightarrow> 'p list list \<Rightarrow> nat \<Rightarrow> ('p \<rightharpoonup> nat) \<Rightarrow> bool" where
  "queues_are E hs ls n K \<longleftrightarrow> length hs = n \<and> length ls = n \<and> (\<forall>p b. K p = Some b \<longrightarrow> b < n)
     \<and> (\<forall>b<n. dh_first (hs ! b) = hd_opt None (ls ! b) \<and> dh_last (hs ! b) = last_opt None (ls ! b)
          \<and> linked E None (ls ! b) None \<and> distinct (ls ! b) \<and> set (ls ! b) = {p. K p = Some b})"

lemma queues_areD:
  assumes "queues_are E hs ls n K"
  shows "length hs = n" "length ls = n" "K p = Some b \<Longrightarrow> b < n"
    and "b < n \<Longrightarrow> dh_first (hs ! b) = hd_opt None (ls ! b)" "b < n \<Longrightarrow> dh_last (hs ! b) = last_opt None (ls ! b)"
    and "b < n \<Longrightarrow> linked E None (ls ! b) None" "b < n \<Longrightarrow> distinct (ls ! b)" "b < n \<Longrightarrow> set (ls ! b) = {p. K p = Some b}"
  using assms unfolding queues_are_def by blast+

lemma queues_entry: "queues_are E hs ls n K \<Longrightarrow> K p = Some b \<Longrightarrow> \<exists>e. E p = Some e"
  using linked_mem [OF queues_areD(6), of E hs ls n K b p] queues_areD(3,8) [of E hs ls n K] by blast

lemma queues_cong:
  assumes "queues_are E hs ls n K" "\<And>p. K p \<noteq> None \<Longrightarrow> E' p = E p"
  shows "queues_are E' hs ls n K"
proof -
  have "linked E' None (ls ! b) None" if "b < n" for b
    using queues_areD(6,8) [OF assms(1) that] assms(2) by (subst linked_cong [where E = E]) auto
  then show ?thesis using assms(1) unfolding queues_are_def by blast
qed

lemma queues_first:
  assumes "queues_are E hs ls n K" "b < n"
  shows "dh_first (hs ! b) = Some q \<Longrightarrow> K q = Some b" "dh_last (hs ! b) = Some q \<Longrightarrow> K q = Some b"
    "dh_first (hs ! b) = None \<longleftrightarrow> dh_last (hs ! b) = None"
  using queues_areD(4,5,8) [OF assms] opt_ends_in [of "ls ! b"] by auto

text \<open>Where a span stands in its queue, and who its neighbours are.\<close>

lemma queue_spot:
  assumes q: "queues_are E hs ls n K" and p: "K p = Some b"
  obtains us vs where "ls ! b = us @ p # vs" "E p = Some \<lparr>de_prev = last_opt None us, de_next = hd_opt None vs\<rparr>"
proof -
  have "p \<in> set (ls ! b)" using queues_areD(3,8) [OF q] p by blast
  then obtain us vs where l: "ls ! b = us @ p # vs" by (meson split_list)
  moreover have "E p = Some \<lparr>de_prev = last_opt None us, de_next = hd_opt None vs\<rparr>"
    using queues_areD(6) [OF q queues_areD(3) [OF q p]] unfolding l by (rule linked_at)
  ultimately show ?thesis by (rule that)
qed

lemma queue_neighbours:
  assumes q: "queues_are E hs ls n K" and p: "K p = Some b" "E p = Some e"
  shows "de_prev e = Some x \<Longrightarrow> K x = Some b \<and> x \<noteq> p" "de_next e = Some x \<Longrightarrow> K x = Some b \<and> x \<noteq> p"
    "de_prev e \<noteq> None \<Longrightarrow> de_prev e \<noteq> de_next e"
proof -
  obtain us vs where l: "ls ! b = us @ p # vs" "E p = Some \<lparr>de_prev = last_opt None us, de_next = hd_opt None vs\<rparr>"
    by (rule queue_spot [OF q p(1)])
  have b: "b < n" by (rule queues_areD(3) [OF q p(1)])
  have e: "de_prev e = last_opt None us" "de_next e = hd_opt None vs" using p(2) l(2) by auto
  have d: "distinct (us @ p # vs)" and s: "x \<in> set us \<Longrightarrow> K x = Some b" "x \<in> set vs \<Longrightarrow> K x = Some b" for x
    using queues_areD(7,8) [OF q b] unfolding l(1) by auto
  show "de_prev e = Some x \<Longrightarrow> K x = Some b \<and> x \<noteq> p" "de_next e = Some x \<Longrightarrow> K x = Some b \<and> x \<noteq> p"
    using d s unfolding e by (auto dest: opt_ends_in)
  show "de_prev e \<noteq> None \<Longrightarrow> de_prev e \<noteq> de_next e"
    using d opt_ends_in(1) [of vs] unfolding e by (cases "last_opt None us") (auto dest!: opt_ends_in(2) dest: sym)
qed

lemma remove_at_mid: "distinct (us @ p # vs) \<Longrightarrow> j < length (us @ p # vs) \<Longrightarrow> (us @ p # vs) ! j = p \<Longrightarrow> remove_at j (us @ p # vs) = us @ vs"
proof -
  assume d: "distinct (us @ p # vs)" and j: "j < length (us @ p # vs)" "(us @ p # vs) ! j = p"
  have "(us @ p # vs) ! length us = p" by simp
  then have "j = length us" using d j nth_eq_iff_index_eq [OF d j(1), of "length us"] by simp
  then show ?thesis by (simp add: remove_at_def)
qed

lemma queue_pop:
  assumes q: "queues_are E hs ls n K" and p: "K p = Some b" "E p = Some e" and j: "j < length (ls ! b)" "ls ! b ! j = p"
    and E': "\<And>x. x \<noteq> p \<Longrightarrow> E' x = relink E (de_prev e) (de_next e) x"
    and h: "dh_first h = (if de_prev e = None then de_next e else dh_first (hs ! b))"
      "dh_last h = (if de_next e = None then de_prev e else dh_last (hs ! b))"
  shows "queues_are E' (hs[b := h]) (ls[b := remove_at j (ls ! b)]) n (K(p := None))"
proof -
  obtain us vs where l: "ls ! b = us @ p # vs" "E p = Some \<lparr>de_prev = last_opt None us, de_next = hd_opt None vs\<rparr>"
    by (rule queue_spot [OF q p(1)])
  have b: "b < n" by (rule queues_areD(3) [OF q p(1)])
  have e: "de_prev e = last_opt None us" "de_next e = hd_opt None vs" using p(2) l(2) by auto
  note dd = queues_areD(1,2,4,5,6,7,8) [OF q]
  have d: "distinct (us @ p # vs)" and s: "set (us @ p # vs) = {p. K p = Some b}" and lk: "linked E None (us @ p # vs) None"
    using dd(5-7) [OF b] by (simp_all add: l(1))
  have r: "remove_at j (ls ! b) = us @ vs" using d j unfolding l(1) by (rule remove_at_mid)
  have new: "linked E' None (us @ vs) None"
  proof -
    have "E' x = relink E (last_opt None us) (hd_opt None vs) x" if "x \<in> set (us @ vs)" for x
      using E' [of x] that d unfolding e by auto
    then have "linked E' None (us @ vs) None = linked (relink E (last_opt None us) (hd_opt None vs)) None (us @ vs) None" by (rule linked_cong)
    then show ?thesis using linked_join [OF lk d] by simp
  qed
  have h1: "dh_first h = hd_opt None (us @ vs)"
    using h(1) dd(3) [OF b] unfolding e l(1) by (cases us) (simp_all add: last_opt_def)
  have h2: "dh_last h = last_opt None (us @ vs)"
    using h(2) dd(4) [OF b] unfolding e l(1) by (cases vs) (simp_all add: last_opt_def)
  have other: "linked E' None (ls ! b') None" if b': "b' < n" "b' \<noteq> b" for b'
  proof -
    have "E' x = E x" if x: "x \<in> set (ls ! b')" for x
    proof -
      have "K x = Some b'" using dd(7) [OF b'(1)] x by simp
      then have "x \<noteq> p" "de_prev e \<noteq> Some x" "de_next e \<noteq> Some x"
        using queue_neighbours(1,2) [OF q p, of x] b'(2) p(1) by auto
      then show ?thesis using E' by (simp add: relink_other)
    qed
    then show ?thesis using dd(5) [OF b'(1)] by (subst linked_cong [where E = E]) auto
  qed
  have sets: "set (us @ vs) = {x. (K(p := None)) x = Some b}" using d s by auto
  have "{x. (K(p := None)) x = Some b'} = {x. K x = Some b'}" if "b' \<noteq> b" for b' using that p(1) by auto
  then have "dh_first (hs[b := h] ! b') = hd_opt None (ls[b := us @ vs] ! b') \<and> dh_last (hs[b := h] ! b') = last_opt None (ls[b := us @ vs] ! b')
      \<and> linked E' None (ls[b := us @ vs] ! b') None \<and> distinct (ls[b := us @ vs] ! b') \<and> set (ls[b := us @ vs] ! b') = {x. (K(p := None)) x = Some b'}"
    if "b' < n" for b'
    using dd(1,2) that other [OF that] dd(3,4,6,7) [OF that] new h1 h2 d sets by (cases "b' = b") simp_all
  moreover have "b' < n" if "(K(p := None)) x = Some b'" for x b' using that queues_areD(3) [OF q] by (auto split: if_splits)
  ultimately show ?thesis using dd(1,2) unfolding queues_are_def r by simp
qed

lemma queue_push:
  assumes q: "queues_are E hs ls n K" and b: "b < n" and p: "K p = None"
    and l: "linked E' None l None" "distinct l" "set l = insert p (set (ls ! b))"
    and h: "dh_first h = hd_opt None l" "dh_last h = last_opt None l"
    and E': "\<And>x. x \<noteq> p \<Longrightarrow> K x \<noteq> Some b \<Longrightarrow> E' x = E x"
  shows "queues_are E' (hs[b := h]) (ls[b := l]) n (K(p \<mapsto> b))"
proof -
  note dd = queues_areD(1,2,4,5,6,7,8) [OF q]
  have other: "linked E' None (ls ! b') None" if b': "b' < n" "b' \<noteq> b" for b'
  proof -
    have "E' x = E x" if "x \<in> set (ls ! b')" for x
    proof -
      have "K x = Some b'" using dd(7) [OF b'(1)] that by simp
      then have "x \<noteq> p" "K x \<noteq> Some b" using b'(2) p by auto
      then show ?thesis by (rule E')
    qed
    then have "linked E' None (ls ! b') None = linked E None (ls ! b') None" by (rule linked_cong)
    then show ?thesis using dd(5) [OF b'(1)] by simp
  qed
  have "set l = {x. (K(p \<mapsto> b)) x = Some b}" using l(3) dd(7) [OF b] by auto
  moreover have "{x. (K(p \<mapsto> b)) x = Some b'} = {x. K x = Some b'}" if "b' \<noteq> b" for b' using that p by auto
  ultimately have "dh_first (hs[b := h] ! b') = hd_opt None (ls[b := l] ! b') \<and> dh_last (hs[b := h] ! b') = last_opt None (ls[b := l] ! b')
      \<and> linked E' None (ls[b := l] ! b') None \<and> distinct (ls[b := l] ! b') \<and> set (ls[b := l] ! b') = {x. (K(p \<mapsto> b)) x = Some b'}"
    if "b' < n" for b'
    using dd(1,2) that other [OF that] dd(3,4,6,7) [OF that] l(1,2) h by (cases "b' = b") simp_all
  moreover have "b' < n" if "(K(p \<mapsto> b)) x = Some b'" for x b' using that b queues_areD(3) [OF q] by (auto split: if_splits)
  ultimately show ?thesis using dd(1,2) unfolding queues_are_def by simp
qed

lemma queue_push_front:
  assumes q: "queues_are E hs ls n K" and b: "b < n" and p: "K p = None"
    and E': "E' p = Some \<lparr>de_prev = None, de_next = dh_first (hs ! b)\<rparr>" "\<And>x. x \<noteq> p \<Longrightarrow> E' x = put_prev (dh_first (hs ! b)) (Some p) E x"
    and h: "dh_first h = Some p" "dh_last h = (if dh_first (hs ! b) \<noteq> None then dh_last (hs ! b) else Some p)"
  shows "queues_are E' (hs[b := h]) (insert_front ls b p) n (K(p \<mapsto> b))"
  unfolding insert_front_def
proof (rule queue_push [OF q b p])
  note dd = queues_areD(4-8) [OF q b]
  have np: "p \<notin> set (ls ! b)" using dd(5) p by simp
  have "E' = (put_prev (hd_opt None (ls ! b)) (Some p) E)(p \<mapsto> \<lparr>de_prev = None, de_next = hd_opt None (ls ! b)\<rparr>)"
    using E' dd(1) by (auto simp: fun_eq_iff)
  then show "linked E' None (p # ls ! b) None" using linked_cons_front [OF dd(3,4) np] by simp
  show "distinct (p # ls ! b)" using dd(4) np by simp
  show "dh_last h = last_opt None (p # ls ! b)" using h(2) dd(1,2) by (simp add: last_opt_def)
  show "E' x = E x" if "x \<noteq> p" "K x \<noteq> Some b" for x
    using E'(2) [OF that(1)] put_other(2) [of "dh_first (hs ! b)" x] queues_first(1) [OF q b] that(2) by fastforce
qed (simp_all add: h)

lemma queue_push_back:
  assumes q: "queues_are E hs ls n K" and b: "b < n" and p: "K p = None"
    and E': "E' p = Some \<lparr>de_prev = dh_last (hs ! b), de_next = None\<rparr>" "\<And>x. x \<noteq> p \<Longrightarrow> E' x = put_next (dh_last (hs ! b)) (Some p) E x"
    and h: "dh_first h = (if dh_last (hs ! b) \<noteq> None then dh_first (hs ! b) else Some p)" "dh_last h = Some p"
  shows "queues_are E' (hs[b := h]) (insert_back ls b p) n (K(p \<mapsto> b))"
  unfolding insert_back_def
proof (rule queue_push [OF q b p])
  note dd = queues_areD(4-8) [OF q b]
  have np: "p \<notin> set (ls ! b)" using dd(5) p by simp
  have "E' = (put_next (last_opt None (ls ! b)) (Some p) E)(p \<mapsto> \<lparr>de_prev = last_opt None (ls ! b), de_next = None\<rparr>)"
    using E' dd(2) by (auto simp: fun_eq_iff)
  then show "linked E' None (ls ! b @ [p]) None" using linked_snoc_back [OF dd(3,4) np] by simp
  show "distinct (ls ! b @ [p])" using dd(4) np by simp
  show "dh_first h = hd_opt None (ls ! b @ [p])" using h(1) dd(1,2) by (cases "ls ! b") (simp_all add: last_opt_def)
  show "E' x = E x" if "x \<noteq> p" "K x \<noteq> Some b" for x
    using E'(2) [OF that(1)] put_other(1) [of "dh_last (hs ! b)" x] queues_first(2) [OF q b] that(2) by fastforce
qed (simp_all add: h)

text \<open>Finding a span by search is finding it in its queue.\<close>

lemma get_list_idx_spot:
  assumes q: "queues_are E hs ls n K" and p: "K p = Some b"
  defines "j \<equiv> snd (get_list_idx ls p)"
  shows "j < length (ls ! b)" "ls ! b ! j = p"
proof -
  note dd = queues_areD(2,3,8) [OF q]
  have b: "b < length ls" using dd(1,2) p by simp
  have in_b: "p \<in> set (ls ! k) \<longleftrightarrow> k = b" if "k < length ls" for k using dd(3) [of k] that dd(1) p by auto
  have "takeWhile (\<lambda>l. p \<notin> set l) ls = take b ls"
    using b in_b by (intro takeWhile_eq_take_P_nth) auto
  then have j: "j = length (takeWhile (\<lambda>q. q \<noteq> p) (ls ! b))" using b by (simp add: j_def get_list_idx_def Let_def)
  have "p \<in> set (ls ! b)" using in_b b by simp
  then show "j < length (ls ! b)" unfolding j by (metis (mono_tags, lifting) length_takeWhile_le nat_less_le takeWhile_eq_all_conv takeWhile_eq_take take_all_iff order_refl)
  then show "ls ! b ! j = p" unfolding j using nth_length_takeWhile by blast
qed

end
