(* ===== verification/Page_Org.thy ===== *)
theory Page_Org
  imports Transitions Org_Lists Layout Bin_Sizes
begin

text \<open>
  The state machine \<^verbatim>\<open>PageOrg\<close> of \<^verbatim>\<open>page_organization.rs\<close>: how a thread's segments are cut into
  spans of slices, which spans are pages, and in which queue each one is. It is the abstract
  specification the Verus proof gives the code of \<^verbatim>\<open>segment.rs\<close>, \<^verbatim>\<open>queues.rs\<close> and \<^verbatim>\<open>page.rs\<close>.

  The transitions are functions to a result of \<open>Transitions\<close>. Updates of one transition are written in the order of the
  source, with the values read from the state before.
\<close>

section \<open>States\<close>

record SegmentId =
  seg_nr :: nat       \<comment> \<open>\<^verbatim>\<open>id\<close>; its provenance is left out\<close>
  seg_uniq :: int

type_synonym page_id = "SegmentId \<times> nat"  \<comment> \<open>segment and index of the slice\<close>

datatype PageHeaderKind = NormalPage int int  \<comment> \<open>bin and block size\<close>

record PageData =
  pd_dlist :: "page_id DlistEntry option"
  pd_count :: "nat option"
  pd_offset :: "nat option"
  pd_used :: bool
  pd_full :: "bool option"
  pd_kind :: "PageHeaderKind option"

text \<open>The span that is out of its queue while it is being changed. The integer components are natural numbers here.\<close>

datatype Popped = No | Ready page_id bool | Used page_id bool | SegmentCreating SegmentId
  | VeryUnready SegmentId nat nat bool | SegmentFreeing SegmentId nat | ExtraCount SegmentId

record PageOrg =
  unused_dlist_headers :: "page_id DlistHeader list"
  used_dlist_headers :: "page_id DlistHeader list"
  opages :: "page_id \<rightharpoonup> PageData"
  osegments :: "SegmentId \<rightharpoonup> int"     \<comment> \<open>\<^verbatim>\<open>SegmentData.used\<close>\<close>
  popped :: Popped
  unused_lists :: "page_id list list"
  used_lists :: "page_id list list"

definition page_id_range :: "SegmentId \<Rightarrow> nat \<Rightarrow> nat \<Rightarrow> page_id set" where
  "page_id_range sid lo hi = {sid} \<times> {lo..<hi}"

definition map_new :: "page_id set \<Rightarrow> (page_id \<Rightarrow> PageData) \<Rightarrow> page_id \<rightharpoonup> PageData" where
  "map_new D f = (\<lambda>p. if p \<in> D then Some (f p) else None)"

definition pg :: "PageOrg \<Rightarrow> page_id \<Rightarrow> PageData" where
  "pg s p = the (opages s p)"

definition blank_page :: PageData where
  "blank_page = \<lparr>pd_dlist = None, pd_count = None, pd_offset = None, pd_used = False, pd_full = None, pd_kind = None\<rparr>"

definition valid_unused_page :: "PageOrg \<Rightarrow> page_id \<Rightarrow> nat \<Rightarrow> nat \<Rightarrow> bool" where
  "valid_unused_page s p sbin_idx list_idx \<longleftrightarrow> opages s p \<noteq> None \<and> snd p \<noteq> 0 \<and> \<not> pd_used (pg s p)
     \<and> (case pd_count (pg s p) of Some c \<Rightarrow> 1 \<le> c \<and> c \<le> unat SLICES_PER_SEGMENT | None \<Rightarrow> False)
     \<and> pd_dlist (pg s p) \<noteq> None \<and> sbin_idx \<le> unat SEGMENT_BIN_MAX
     \<and> list_idx < length (unused_lists s ! sbin_idx) \<and> unused_lists s ! sbin_idx ! list_idx = p"

definition valid_used_page :: "PageOrg \<Rightarrow> page_id \<Rightarrow> nat \<Rightarrow> nat \<Rightarrow> bool" where
  "valid_used_page s p bin_idx list_idx \<longleftrightarrow> opages s p \<noteq> None \<and> snd p \<noteq> 0 \<and> pd_used (pg s p)
     \<and> pd_dlist (pg s p) \<noteq> None \<and> pd_offset (pg s p) = Some 0
     \<and> (valid_bin_idx (int bin_idx) \<or> bin_idx = unat BIN_FULL)
     \<and> list_idx < length (used_lists s ! bin_idx) \<and> used_lists s ! bin_idx ! list_idx = p
     \<and> (case pd_kind (pg s p) of None \<Rightarrow> False | Some (NormalPage b bsize) \<Rightarrow>
          valid_bin_idx b \<and> int (size_of_bin b) = bsize \<and> (bin_idx \<noteq> unat BIN_FULL \<longrightarrow> int bin_idx = b))"


section \<open>Neighbours in a queue\<close>

text \<open>The neighbours of a span in its queue, as the transitions read and write them.\<close>

definition nbr_ok :: "PageOrg \<Rightarrow> bool \<Rightarrow> page_id option \<Rightarrow> bool" where
  "nbr_ok s u q = (case q of None \<Rightarrow> True | Some q \<Rightarrow> opages s q \<noteq> None \<and> pd_dlist (pg s q) \<noteq> None \<and> pd_used (pg s q) = u)"

definition write_next :: "PageOrg \<Rightarrow> page_id option \<Rightarrow> page_id option \<Rightarrow> (page_id \<rightharpoonup> PageData) \<Rightarrow> page_id \<rightharpoonup> PageData" where
  "write_next s q v P = (case q of None \<Rightarrow> P
     | Some q \<Rightarrow> P(q \<mapsto> (pg s q)\<lparr>pd_dlist := Some ((the (pd_dlist (pg s q)))\<lparr>de_next := v\<rparr>)\<rparr>))"

definition write_prev :: "PageOrg \<Rightarrow> page_id option \<Rightarrow> page_id option \<Rightarrow> (page_id \<rightharpoonup> PageData) \<Rightarrow> page_id \<rightharpoonup> PageData" where
  "write_prev s q v P = (case q of None \<Rightarrow> P
     | Some q \<Rightarrow> P(q \<mapsto> (pg s q)\<lparr>pd_dlist := Some ((the (pd_dlist (pg s q)))\<lparr>de_prev := v\<rparr>)\<rparr>))"


section \<open>Transitions\<close>

definition initialize :: PageOrg where
  "initialize = \<lparr>unused_dlist_headers = replicate (unat SEGMENT_BIN_MAX + 1) \<lparr>dh_first = None, dh_last = None\<rparr>,
     used_dlist_headers = replicate (unat BIN_FULL + 1) \<lparr>dh_first = None, dh_last = None\<rparr>,
     opages = Map.empty, osegments = Map.empty, popped = No,
     unused_lists = replicate (unat SEGMENT_BIN_MAX + 1) [], used_lists = replicate (unat BIN_FULL + 1) []\<rparr>"

definition take_page_from_unused_queue :: "page_id \<Rightarrow> nat \<Rightarrow> nat \<Rightarrow> PageOrg \<Rightarrow> PageOrg step_res" where
  "take_page_from_unused_queue p sbin_idx list_idx s =
     require (valid_unused_page s p sbin_idx list_idx) (
     require (popped s = No \<or> popped s = SegmentFreeing (fst p) (snd p)) (
     claim (pd_dlist (pg s p) \<noteq> None) (
     let e = the (pd_dlist (pg s p)); pv = de_prev e; nx = de_next e; h = unused_dlist_headers s ! sbin_idx in
     claim (\<not> pd_used (pg s p)) (
     claim (pv \<noteq> Some p \<and> nbr_ok s False pv) (
     claim (nx \<noteq> Some p \<and> nbr_ok s False nx) (
     claim (pv \<noteq> None \<and> nx \<noteq> None \<longrightarrow> pv \<noteq> nx) (
     claim (pd_count (pg s p) \<noteq> None) (
     let c = the (pd_count (pg s p)); last_id = (fst p, snd p + c - 1) in
     claim (c \<ge> 1) (
     claim (last_id \<noteq> p \<longrightarrow> opages s last_id \<noteq> None \<and> \<not> pd_used (pg s last_id) \<and> pd_kind (pg s last_id) = None) (
     claim (pv \<noteq> Some last_id \<and> nx \<noteq> Some last_id) (
     let P = write_prev s nx pv (write_next s pv nx
           ((opages s)(p \<mapsto> (pg s p)\<lparr>pd_dlist := None, pd_count := None, pd_offset := None\<rparr>)));
         P = (if last_id \<noteq> p then P(last_id \<mapsto> (pg s last_id)\<lparr>pd_offset := None\<rparr>) else P)
     in Next (s\<lparr>opages := P,
          unused_dlist_headers := (unused_dlist_headers s)[sbin_idx :=
            if pv = None \<and> nx = None then \<lparr>dh_first = nx, dh_last = pv\<rparr>
            else if pv = None then h\<lparr>dh_first := nx\<rparr>
            else if nx = None then h\<lparr>dh_last := pv\<rparr> else h],
          popped := (case popped s of No \<Rightarrow> VeryUnready (fst p) (snd p) c False
            | SegmentFreeing sid i \<Rightarrow> SegmentFreeing sid (i + c) | q \<Rightarrow> q),
          unused_lists := (unused_lists s)[sbin_idx := remove_at list_idx (unused_lists s ! sbin_idx)]\<rparr>))))))))))))"

definition split_page :: "page_id \<Rightarrow> nat \<Rightarrow> nat \<Rightarrow> nat \<Rightarrow> PageOrg \<Rightarrow> PageOrg step_res" where
  "split_page p current_count target_count sbin_idx s =
     require (popped s = VeryUnready (fst p) (snd p) current_count False) (
     claim (opages s p \<noteq> None) (
     claim (pd_count (pg s p) = None) (
     require (\<not> pd_used (pg s p)) (
     require (1 \<le> target_count \<and> target_count < current_count) (
     require (sbin_idx \<le> unat SEGMENT_BIN_MAX) (
     require (int sbin_idx = smallest_sbin_fitting_size (int (current_count - target_count))) (
     let next_id = (fst p, snd p + target_count); last_id = (fst p, snd p + current_count - 1);
         h = unused_dlist_headers s ! sbin_idx in
     claim (opages s next_id \<noteq> None \<and> opages s last_id \<noteq> None \<and> \<not> pd_used (pg s next_id) \<and> \<not> pd_used (pg s last_id)) (
     claim (case dh_first h of None \<Rightarrow> True | Some f \<Rightarrow> opages s f \<noteq> None \<and> \<not> pd_used (pg s f) \<and> pd_dlist (pg s f) \<noteq> None
         \<and> f \<noteq> p \<and> f \<noteq> next_id \<and> f \<noteq> last_id) (
     let P = (opages s)(next_id \<mapsto> (pg s next_id)\<lparr>pd_count := Some (current_count - target_count), pd_offset := Some 0,
               pd_dlist := Some \<lparr>de_prev = None, de_next = dh_first h\<rparr>\<rparr>);
         P = (if current_count - target_count > 1
              then P(last_id \<mapsto> (pg s last_id)\<lparr>pd_count := None, pd_offset := Some (current_count - target_count - 1)\<rparr>) else P)
     in Next (s\<lparr>opages := write_prev s (dh_first h) (Some next_id) P,
          unused_dlist_headers := (unused_dlist_headers s)[sbin_idx := \<lparr>dh_first = Some next_id,
            dh_last = (if dh_first h \<noteq> None then dh_last h else Some next_id)\<rparr>],
          popped := VeryUnready (fst p) (snd p) target_count False,
          unused_lists := insert_front (unused_lists s) sbin_idx next_id\<rparr>))))))))))"

definition create_segment :: "SegmentId \<Rightarrow> PageOrg \<Rightarrow> PageOrg step_res" where
  "create_segment sid s =
     require (popped s = No) (
     require (osegments s sid = None) (
     require (segment_start (seg_nr sid) \<noteq> 0) (
     Next (s\<lparr>osegments := (osegments s)(sid \<mapsto> 0),
       opages := opages s ++ map_new (page_id_range sid 0 (unat SLICES_PER_SEGMENT + 1)) (\<lambda>p. blank_page),
       popped := SegmentCreating sid\<rparr>))))"

text \<open>Every slice of a range.\<close>

definition all_in :: "SegmentId \<Rightarrow> nat \<Rightarrow> nat \<Rightarrow> (page_id \<Rightarrow> bool) \<Rightarrow> bool" where
  "all_in sid lo hi Q = list_all (\<lambda>i. Q (sid, i)) [lo..<hi]"

definition allocate_popped :: "PageOrg \<Rightarrow> PageOrg step_res" where
  "allocate_popped s = (case popped s of VeryUnready sid i c fals \<Rightarrow>
     require (fals = False) (
     let p = (sid, i) in
     claim (opages s p \<noteq> None) (
     claim (c > 0) (
     claim (c + i \<le> unat SLICES_PER_SEGMENT) (
     claim (all_in sid i (i + c) (\<lambda>q. opages s q \<noteq> None)) (
     claim (all_in sid i (i + c) (\<lambda>q. \<not> pd_used (pg s q))) (
     let changed = map_new (page_id_range sid i (i + c)) (\<lambda>q.
           \<lparr>pd_dlist = pd_dlist (pg s q), pd_count = (if q = p then Some c else pd_count (pg s q)),
            pd_offset = Some (snd q - i), pd_used = False, pd_full = None, pd_kind = None\<rparr>) in
     claim (osegments s sid \<noteq> None \<and> the (osegments s sid) \<le> uint SLICES_PER_SEGMENT + 1) (
     Next (s\<lparr>osegments := (osegments s)(sid \<mapsto> the (osegments s sid) + 1),
       opages := opages s ++ changed, popped := Ready p True\<rparr>))))))))
   | _ \<Rightarrow> Disabled)"

definition forget_about_first_page :: "nat \<Rightarrow> PageOrg \<Rightarrow> PageOrg step_res" where
  "forget_about_first_page c s =
     require (1 \<le> c \<and> c < unat SLICES_PER_SEGMENT) (
     case popped s of SegmentCreating sid \<Rightarrow>
     claim (osegments s sid \<noteq> None) (
     claim (all_in sid 0 c (\<lambda>q. opages s q \<noteq> None)) (
     claim (all_in sid 0 c (\<lambda>q. \<not> pd_used (pg s q))) (
     let p = (sid, 0) in
     claim (opages s p \<noteq> None) (
     let changed = map_new (page_id_range sid 0 c) (\<lambda>q.
           \<lparr>pd_dlist = pd_dlist (pg s q), pd_count = (if q = p then Some c else pd_count (pg s q)),
            pd_offset = Some (snd q - 0), pd_used = False, pd_full = None, pd_kind = None\<rparr>) in
     claim (the (osegments s sid) \<le> uint SLICES_PER_SEGMENT + 1) (
     Next (s\<lparr>opages := opages s ++ changed, osegments := (osegments s)(sid \<mapsto> the (osegments s sid) + 1),
       popped := VeryUnready sid c (unat SLICES_PER_SEGMENT - c) True\<rparr>))))))
   | _ \<Rightarrow> Disabled)"

definition forget_about_first_page2 :: "PageOrg \<Rightarrow> PageOrg step_res" where
  "forget_about_first_page2 s = (case popped s of VeryUnready sid start c tru \<Rightarrow>
     require (tru = True) (
     claim (the (osegments s sid) \<ge> 1) (
     Next (s\<lparr>osegments := (osegments s)(sid \<mapsto> the (osegments s sid) - 1), popped := VeryUnready sid start c False\<rparr>)))
   | _ \<Rightarrow> Disabled)"

definition clear_ec :: "PageOrg \<Rightarrow> PageOrg step_res" where
  "clear_ec s = (case popped s of ExtraCount sid \<Rightarrow>
     claim (the (osegments s sid) \<ge> 1) (
     Next (s\<lparr>osegments := (osegments s)(sid \<mapsto> the (osegments s sid) - 1), popped := No\<rparr>))
   | _ \<Rightarrow> Disabled)"

definition free_to_unused_queue :: "nat \<Rightarrow> PageOrg \<Rightarrow> PageOrg step_res" where
  "free_to_unused_queue sbin_idx s =
     require (valid_sbin_idx (int sbin_idx)) (
     case popped s of VeryUnready sid start c ec \<Rightarrow>
     claim (osegments s sid \<noteq> None) (
     claim (1 \<le> start \<and> start < start + c \<and> start + c \<le> unat SLICES_PER_SEGMENT) (
     require (int sbin_idx = smallest_sbin_fitting_size (int c)) (
     let first_id = (sid, start); last_id = (sid, start + c - 1); h = unused_dlist_headers s ! sbin_idx in
     claim (opages s first_id \<noteq> None) (
     claim (\<not> pd_used (pg s first_id)) (
     claim (opages s last_id \<noteq> None) (
     claim (\<not> pd_used (pg s last_id)) (
     claim (pd_count (pg s first_id) = None) (
     claim (pd_offset (pg s first_id) = None) (
     claim (pd_offset (pg s last_id) = None) (
     claim (c > 1 \<longrightarrow> last_id \<noteq> first_id) (
     claim (case dh_first h of None \<Rightarrow> True | Some f \<Rightarrow> f \<noteq> first_id \<and> f \<noteq> last_id
         \<and> opages s f \<noteq> None \<and> \<not> pd_used (pg s f) \<and> pd_dlist (pg s f) \<noteq> None) (
     let P = (opages s)(first_id \<mapsto> \<lparr>pd_dlist = Some \<lparr>de_prev = None, de_next = dh_first h\<rparr>, pd_count = Some c,
               pd_offset = Some 0, pd_used = False, pd_full = None, pd_kind = None\<rparr>);
         P = (if c > 1 then P(last_id \<mapsto> (pg s last_id)\<lparr>pd_offset := Some (c - 1)\<rparr>) else P)
     in Next (s\<lparr>opages := write_prev s (dh_first h) (Some first_id) P,
          unused_dlist_headers := (unused_dlist_headers s)[sbin_idx := \<lparr>dh_first = Some first_id,
            dh_last = (if dh_first h \<noteq> None then dh_last h else Some first_id)\<rparr>],
          popped := (if ec then ExtraCount sid else No),
          unused_lists := insert_front (unused_lists s) sbin_idx first_id\<rparr>)))))))))))))
   | _ \<Rightarrow> Disabled)"

definition set_range_to_used :: "PageHeaderKind \<Rightarrow> PageOrg \<Rightarrow> PageOrg step_res" where
  "set_range_to_used k s = (case popped s of Ready p b \<Rightarrow>
     claim (opages s p \<noteq> None) (
     claim (pd_count (pg s p) \<noteq> None) (
     let c = the (pd_count (pg s p)) in
     claim (c > 0) (
     claim (pd_offset (pg s p) = Some 0) (
     claim (snd p \<noteq> 0) (
     claim (all_in (fst p) (snd p) (snd p + c) (\<lambda>q. opages s q \<noteq> None)) (
     claim (all_in (fst p) (snd p) (snd p + c) (\<lambda>q. \<not> pd_used (pg s q))) (
     claim (all_in (fst p) (snd p) (snd p + c) (\<lambda>q. pd_offset (pg s q) = Some (snd q - snd p))) (
     let changed = map_new (page_id_range (fst p) (snd p) (snd p + c)) (\<lambda>q.
           (pg s q)\<lparr>pd_used := True, pd_kind := (if q = p then Some k else None)\<rparr>) in
     Next (s\<lparr>opages := opages s ++ changed, popped := Used p b\<rparr>)))))))))
   | _ \<Rightarrow> Disabled)"

definition set_range_to_not_used :: "PageOrg \<Rightarrow> PageOrg step_res" where
  "set_range_to_not_used s = (case popped s of Used p b \<Rightarrow>
     claim (opages s p \<noteq> None) (
     claim (pd_count (pg s p) \<noteq> None) (
     let c = the (pd_count (pg s p)) in
     claim (c > 0) (
     claim (pd_offset (pg s p) = Some 0) (
     claim (pd_full (pg s p) = None) (
     claim (all_in (fst p) (snd p) (snd p + c) (\<lambda>q. opages s q \<noteq> None)) (
     claim (all_in (fst p) (snd p) (snd p + c) (\<lambda>q. pd_used (pg s q))) (
     claim (all_in (fst p) (snd p) (snd p + c) (\<lambda>q. pd_offset (pg s q) = Some (snd q - snd p))) (
     let changed = map_new (page_id_range (fst p) (snd p) (snd p + c)) (\<lambda>q.
           (pg s q)\<lparr>pd_used := False, pd_kind := None, pd_offset := None, pd_count := None\<rparr>) in
     Next (s\<lparr>opages := opages s ++ changed, popped := VeryUnready (fst p) (snd p) c b\<rparr>)))))))))
   | _ \<Rightarrow> Disabled)"

text \<open>The bin a page may be put in: that of its kind, or the one of full pages.\<close>

definition kind_allows :: "PageHeaderKind \<Rightarrow> nat \<Rightarrow> bool" where
  "kind_allows k bin_idx = (case k of NormalPage i bsize \<Rightarrow> (bin_idx \<noteq> unat BIN_FULL \<longrightarrow> int bin_idx = i)
     \<and> valid_bin_idx i \<and> bsize = int (size_of_bin i) \<and> i = smallest_bin_fitting_size bsize
     \<and> bsize \<le> uint MEDIUM_OBJ_SIZE_MAX)"

definition into_used_list :: "nat \<Rightarrow> PageOrg \<Rightarrow> PageOrg step_res" where
  "into_used_list bin_idx s =
     require (valid_bin_idx (int bin_idx) \<or> bin_idx = unat BIN_FULL) (
     case popped s of Used p tru \<Rightarrow>
     require (tru = True) (
     claim (opages s p \<noteq> None) (
     claim (pd_kind (pg s p) \<noteq> None) (
     require (kind_allows (the (pd_kind (pg s p))) bin_idx) (
     let h = used_dlist_headers s ! bin_idx in
     claim (nbr_ok s True (dh_first h) \<and> dh_first h \<noteq> Some p) (
     claim (pd_used (pg s p)) (
     claim (pd_offset (pg s p) = Some 0) (
     claim (pd_dlist (pg s p) = None) (
     let P = (write_prev s (dh_first h) (Some p) (opages s))(p \<mapsto> (pg s p)\<lparr>
           pd_dlist := Some \<lparr>de_prev = None, de_next = dh_first h\<rparr>, pd_full := Some (bin_idx = unat BIN_FULL)\<rparr>)
     in Next (s\<lparr>opages := P,
          used_dlist_headers := (used_dlist_headers s)[bin_idx := \<lparr>dh_first = Some p,
            dh_last = (if dh_first h \<noteq> None then dh_last h else Some p)\<rparr>],
          popped := No, used_lists := insert_front (used_lists s) bin_idx p\<rparr>)))))))))
   | _ \<Rightarrow> Disabled)"

definition into_used_list_back :: "nat \<Rightarrow> PageOrg \<Rightarrow> PageOrg step_res" where
  "into_used_list_back bin_idx s =
     require (valid_bin_idx (int bin_idx) \<or> bin_idx = unat BIN_FULL) (
     case popped s of Used p tru \<Rightarrow>
     require (tru = True) (
     claim (opages s p \<noteq> None) (
     claim (pd_kind (pg s p) \<noteq> None) (
     require (kind_allows (the (pd_kind (pg s p))) bin_idx) (
     let h = used_dlist_headers s ! bin_idx in
     claim (dh_last h \<noteq> None \<longleftrightarrow> dh_first h \<noteq> None) (
     claim (nbr_ok s True (dh_last h) \<and> dh_last h \<noteq> Some p) (
     claim (pd_used (pg s p)) (
     claim (pd_offset (pg s p) = Some 0) (
     claim (pd_dlist (pg s p) = None) (
     let P = (write_next s (dh_last h) (Some p) (opages s))(p \<mapsto> (pg s p)\<lparr>
           pd_dlist := Some \<lparr>de_prev = dh_last h, de_next = None\<rparr>, pd_full := Some (bin_idx = unat BIN_FULL)\<rparr>)
     in Next (s\<lparr>opages := P,
          used_dlist_headers := (used_dlist_headers s)[bin_idx := \<lparr>
            dh_first = (if dh_last h \<noteq> None then dh_first h else Some p), dh_last = Some p\<rparr>],
          popped := No, used_lists := insert_back (used_lists s) bin_idx p\<rparr>))))))))))
   | _ \<Rightarrow> Disabled)"

definition out_of_used_list :: "page_id \<Rightarrow> nat \<Rightarrow> nat \<Rightarrow> PageOrg \<Rightarrow> PageOrg step_res" where
  "out_of_used_list p bin_idx list_idx s =
     require (popped s = No) (
     require (valid_used_page s p bin_idx list_idx) (
     claim (pd_dlist (pg s p) \<noteq> None) (
     let pv = de_prev (the (pd_dlist (pg s p))); nx = de_next (the (pd_dlist (pg s p)));
         h = used_dlist_headers s ! bin_idx in
     claim (pv \<noteq> Some p \<and> nx \<noteq> Some p \<and> pv \<noteq> None \<longrightarrow> pv \<noteq> nx) (
     claim (nbr_ok s True pv) (
     claim (nbr_ok s True nx) (
     let P = (write_prev s nx pv (write_next s pv nx (opages s)))(p \<mapsto> (pg s p)\<lparr>pd_full := None, pd_dlist := None\<rparr>)
     in Next (s\<lparr>opages := P,
          used_dlist_headers := (used_dlist_headers s)[bin_idx := \<lparr>
            dh_first = (if pv \<noteq> None then dh_first h else nx), dh_last = (if nx \<noteq> None then dh_last h else pv)\<rparr>],
          popped := Used p True,
          used_lists := (used_lists s)[bin_idx := remove_at list_idx (used_lists s ! bin_idx)]\<rparr>)))))))"

definition segment_freeing_start :: "SegmentId \<Rightarrow> PageOrg \<Rightarrow> PageOrg step_res" where
  "segment_freeing_start sid s =
     require (popped s = No) (
     require (osegments s sid \<noteq> None) (
     require (the (osegments s sid) = 0) (
     let p = (sid, 0) in
     claim (opages s p \<noteq> None) (
     claim (pd_count (pg s p) \<noteq> None) (
     let c = the (pd_count (pg s p)) in
     claim (1 \<le> c \<and> c \<le> unat SLICES_PER_SEGMENT) (
     Next (s\<lparr>opages := opages s ++ map_new (page_id_range sid 0 c) (\<lambda>q. blank_page),
       popped := SegmentFreeing sid c\<rparr>)))))))"

definition segment_freeing_finish :: "PageOrg \<Rightarrow> PageOrg step_res" where
  "segment_freeing_finish s = (case popped s of SegmentFreeing sid i \<Rightarrow>
     require (i = unat SLICES_PER_SEGMENT) (
     claim (osegments s sid \<noteq> None) (
     Next (s\<lparr>osegments := (osegments s)(sid := None), popped := No,
       opages := opages s |` (- page_id_range sid 0 (unat SLICES_PER_SEGMENT + 1))\<rparr>)))
   | _ \<Rightarrow> Disabled)"

definition merge_with_after :: "PageOrg \<Rightarrow> PageOrg step_res" where
  "merge_with_after s = (case popped s of VeryUnready sid cur_start cur_count b \<Rightarrow>
     require (cur_start + cur_count < unat SLICES_PER_SEGMENT) (
     let p = (sid, cur_start + cur_count) in
     claim (opages s p \<noteq> None) (
     require (\<not> pd_used (pg s p)) (
     claim (pd_count (pg s p) \<noteq> None) (
     let n_count = the (pd_count (pg s p)) in
     claim (cur_count + n_count \<le> unat SLICES_PER_SEGMENT) (
     claim (pd_dlist (pg s p) \<noteq> None) (
     let e = the (pd_dlist (pg s p)); pv = de_prev e; nx = de_next e;
         final_id = (sid, cur_start + cur_count + n_count - 1);
         sbin_idx = nat (smallest_sbin_fitting_size (int n_count)); h = unused_dlist_headers s ! sbin_idx in
     claim (opages s final_id \<noteq> None) (
     claim (\<not> pd_used (pg s final_id)) (
     claim (pv \<noteq> Some p \<and> nbr_ok s False pv) (
     claim (nx \<noteq> Some p \<and> nbr_ok s False nx) (
     claim (0 \<le> smallest_sbin_fitting_size (int n_count) \<and> sbin_idx \<le> unat SEGMENT_BIN_MAX) (
     claim (pv \<noteq> None \<and> nx \<noteq> None \<longrightarrow> pv \<noteq> nx) (
     let P = write_prev s nx pv (write_next s pv nx ((opages s)(
           p \<mapsto> (pg s p)\<lparr>pd_offset := None, pd_count := None, pd_dlist := None\<rparr>,
           final_id \<mapsto> (pg s final_id)\<lparr>pd_offset := None, pd_count := None, pd_dlist := None\<rparr>)));
         list_idx = snd (get_list_idx (unused_lists s) p)
     in Next (s\<lparr>opages := P,
          unused_dlist_headers := (unused_dlist_headers s)[sbin_idx := \<lparr>
            dh_first = (if pv = None then nx else dh_first h), dh_last = (if nx = None then pv else dh_last h)\<rparr>],
          popped := VeryUnready sid cur_start (cur_count + n_count) b,
          unused_lists := (unused_lists s)[sbin_idx := remove_at list_idx (unused_lists s ! sbin_idx)]\<rparr>)))))))))))))
   | _ \<Rightarrow> Disabled)"

definition merge_with_before :: "PageOrg \<Rightarrow> PageOrg step_res" where
  "merge_with_before s = (case popped s of VeryUnready sid cur_start cur_count b \<Rightarrow>
     require (cur_start > 1) (
     let last_id = (sid, cur_start - 1) in
     claim (pd_offset (pg s last_id) \<noteq> None) (
     let off = the (pd_offset (pg s last_id)) in
     require (off < snd last_id) (
     let p = (sid, snd last_id - off) in
     require (\<not> pd_used (pg s p)) (
     claim (\<not> pd_used (pg s last_id)) (
     claim (pd_count (pg s p) \<noteq> None) (
     let p_count = the (pd_count (pg s p)) in
     claim (cur_count + p_count \<le> unat SLICES_PER_SEGMENT) (
     claim (pd_dlist (pg s p) \<noteq> None) (
     let e = the (pd_dlist (pg s p)); pv = de_prev e; nx = de_next e;
         sbin_idx = nat (smallest_sbin_fitting_size (int p_count)); h = unused_dlist_headers s ! sbin_idx in
     claim (opages s last_id \<noteq> None) (
     claim (pv \<noteq> Some p \<and> nbr_ok s False pv \<and> pv \<noteq> Some last_id) (
     claim (nx \<noteq> Some p \<and> nbr_ok s False nx \<and> nx \<noteq> Some last_id) (
     claim (0 \<le> smallest_sbin_fitting_size (int p_count) \<and> sbin_idx \<le> unat SEGMENT_BIN_MAX) (
     claim (pv \<noteq> None \<and> nx \<noteq> None \<longrightarrow> pv \<noteq> nx) (
     let P = write_prev s nx pv (write_next s pv nx ((opages s)(
           p \<mapsto> (pg s p)\<lparr>pd_offset := None, pd_count := None, pd_dlist := None\<rparr>,
           last_id \<mapsto> (pg s last_id)\<lparr>pd_offset := None, pd_count := None, pd_dlist := None\<rparr>)));
         list_idx = snd (get_list_idx (unused_lists s) p)
     in Next (s\<lparr>opages := P,
          unused_dlist_headers := (unused_dlist_headers s)[sbin_idx := \<lparr>
            dh_first = (if pv = None then nx else dh_first h), dh_last = (if nx = None then pv else dh_last h)\<rparr>],
          popped := VeryUnready sid (snd p) (cur_count + p_count) b,
          unused_lists := (unused_lists s)[sbin_idx := remove_at list_idx (unused_lists s ! sbin_idx)]\<rparr>))))))))))))))
   | _ \<Rightarrow> Disabled)"


section \<open>Runs\<close>

text \<open>The transitions with their parameters.\<close>

datatype org_step = TakePage page_id nat nat | SplitPage page_id nat nat nat | CreateSegment SegmentId
  | AllocatePopped | ForgetFirst nat | ForgetFirst2 | ClearEc | FreeToUnused nat | SetUsed PageHeaderKind | SetNotUsed
  | IntoUsed nat | IntoUsedBack nat | OutOfUsed page_id nat nat | FreeingStart SegmentId | FreeingFinish
  | MergeAfter | MergeBefore

fun org_exec :: "org_step \<Rightarrow> PageOrg \<Rightarrow> PageOrg step_res" where
  "org_exec (TakePage p b j) = take_page_from_unused_queue p b j"
| "org_exec (SplitPage p c t b) = split_page p c t b"
| "org_exec (CreateSegment sid) = create_segment sid"
| "org_exec AllocatePopped = allocate_popped"
| "org_exec (ForgetFirst c) = forget_about_first_page c"
| "org_exec ForgetFirst2 = forget_about_first_page2"
| "org_exec ClearEc = clear_ec"
| "org_exec (FreeToUnused b) = free_to_unused_queue b"
| "org_exec (SetUsed k) = set_range_to_used k"
| "org_exec SetNotUsed = set_range_to_not_used"
| "org_exec (IntoUsed b) = into_used_list b"
| "org_exec (IntoUsedBack b) = into_used_list_back b"
| "org_exec (OutOfUsed p b j) = out_of_used_list p b j"
| "org_exec (FreeingStart sid) = segment_freeing_start sid"
| "org_exec FreeingFinish = segment_freeing_finish"
| "org_exec MergeAfter = merge_with_after"
| "org_exec MergeBefore = merge_with_before"

inductive org_reach :: "PageOrg \<Rightarrow> bool" where
  init: "org_reach initialize"
| step: "org_reach s \<Longrightarrow> org_exec a s = Next s' \<Longrightarrow> org_reach s'"

end
