(* ===== verification/Page_Org_Inv.thy ===== *)
theory Page_Org_Inv
  imports Page_Org Tiling
begin

text \<open>
  The invariant of \<^verbatim>\<open>PageOrg\<close>. A map of spans with a kind for each determines every field of every page
  except the links, and the queue each span is in; each transition is a change of that map. The invariants of
  the source follow from it.
\<close>

section \<open>Spans and the pages they stand for\<close>

datatype kind = KFirst | KFree | KBlank | KReady | KTaken PageHeaderKind | KQueued PageHeaderKind bool

type_synonym kspans = "page_id \<rightharpoonup> nat \<times> kind"

fun is_page :: "kind \<Rightarrow> bool" where
  "is_page (KTaken hk) = True"
| "is_page (KQueued hk f) = True"
| "is_page _ = False"

fun is_out :: "kind \<Rightarrow> bool" where
  "is_out KBlank = True"
| "is_out KReady = True"
| "is_out (KTaken hk) = True"
| "is_out _ = False"

text \<open>The page of the \<open>m\<close>-th slice of a span of \<open>c\<close> slices, apart from its links.\<close>

definition cell :: "kind \<Rightarrow> nat \<Rightarrow> nat \<Rightarrow> PageData" where
  "cell k c m = \<lparr>pd_dlist = None, pd_count = (if m = 0 \<and> k \<noteq> KBlank then Some c else None),
     pd_offset = (case k of KBlank \<Rightarrow> None | KFree \<Rightarrow> if m = 0 \<or> m = c - 1 then Some m else None | _ \<Rightarrow> Some m),
     pd_used = is_page k,
     pd_full = (case k of KQueued hk f \<Rightarrow> if m = 0 then Some f else None | _ \<Rightarrow> None),
     pd_kind = (case k of KTaken hk \<Rightarrow> if m = 0 then Some hk else None | KQueued hk f \<Rightarrow> if m = 0 then Some hk else None | _ \<Rightarrow> None)\<rparr>"

definition sbin_of :: "nat \<Rightarrow> nat" where
  "sbin_of c = nat (smallest_sbin_fitting_size (int c))"

definition free_queue :: "kspans \<Rightarrow> page_id \<rightharpoonup> nat" where
  "free_queue M p = (case M p of Some (c, KFree) \<Rightarrow> Some (sbin_of c) | _ \<Rightarrow> None)"

definition page_queue :: "kspans \<Rightarrow> page_id \<rightharpoonup> nat" where
  "page_queue M p = (case M p of Some (c, KQueued (NormalPage i b) f) \<Rightarrow> Some (if f then 74 else nat i) | _ \<Rightarrow> None)"

definition core :: "(page_id \<rightharpoonup> PageData) \<Rightarrow> page_id \<rightharpoonup> PageData" where
  "core P p = map_option (pd_dlist_update (\<lambda>_. None)) (P p)"

definition link :: "(page_id \<rightharpoonup> PageData) \<Rightarrow> page_id entries" where
  "link P p = (case P p of None \<Rightarrow> None | Some d \<Rightarrow> pd_dlist d)"

lemma core_upd [simp]: "core (P(q \<mapsto> d)) = (core P)(q \<mapsto> d\<lparr>pd_dlist := None\<rparr>)"
  by (auto simp: core_def fun_eq_iff)

lemma link_upd [simp]: "link (P(q \<mapsto> d)) = (link P)(q := pd_dlist d)"
  by (auto simp: link_def fun_eq_iff)

lemma core_None: "core P p = None \<longleftrightarrow> P p = None"
  by (simp add: core_def)

text \<open>A page is its core and its links.\<close>

lemma core_link: "core P p = Some d \<Longrightarrow> P p = Some (d\<lparr>pd_dlist := link P p\<rparr>)"
  by (cases "P p") (auto simp: core_def link_def)

text \<open>The writes to the links of neighbours.\<close>

lemma write_links:
  assumes "nbr_ok s u q" "\<And>x. q = Some x \<Longrightarrow> P x = opages s x"
  shows "link (write_next s q v P) = put_next q v (link P)" "core (write_next s q v P) = core P"
    "link (write_prev s q v P) = put_prev q v (link P)" "core (write_prev s q v P) = core P"
proof -
  have "link (write_next s q v P) = put_next q v (link P) \<and> core (write_next s q v P) = core P
     \<and> link (write_prev s q v P) = put_prev q v (link P) \<and> core (write_prev s q v P) = core P"
  proof (cases q)
    case (Some x)
    then obtain d e where d: "opages s x = Some d" "pd_dlist d = Some e" using assms(1) by (auto simp: nbr_ok_def pg_def)
    then have "P x = Some d" using assms(2) Some by simp
    then have "link P x = Some e" "core P x = Some (d\<lparr>pd_dlist := None\<rparr>)" using d by (simp_all add: link_def core_def)
    then show ?thesis
      using d by (auto simp: Some write_next_def write_prev_def put_next_def put_prev_def pg_def fun_eq_iff)
  qed (simp add: write_next_def write_prev_def)
  then show "link (write_next s q v P) = put_next q v (link P)" "core (write_next s q v P) = core P"
    "link (write_prev s q v P) = put_prev q v (link P)" "core (write_prev s q v P) = core P" by blast+
qed

lemma write_next_other: "q \<noteq> Some x \<Longrightarrow> write_next s q v P x = P x"
  by (auto simp: write_next_def split: option.splits)

text \<open>Writing every page of a range.\<close>

lemma range_write:
  "(P ++ map_new (page_id_range g lo hi) f) (h, k) = (if h = g \<and> lo \<le> k \<and> k < hi then Some (f (g, k)) else P (h, k))"
  by (auto simp: map_new_def page_id_range_def map_add_def)

lemma all_in_iff: "all_in g lo hi Q \<longleftrightarrow> (\<forall>k. lo \<le> k \<and> k < hi \<longrightarrow> Q (g, k))"
  by (auto simp: all_in_def list_all_iff)


section \<open>The invariant\<close>

definition kind_ok :: "PageHeaderKind \<Rightarrow> bool" where
  "kind_ok hk = (case hk of NormalPage i bsize \<Rightarrow> valid_bin_idx i \<and> bsize = int (size_of_bin i)
     \<and> i = smallest_bin_fitting_size bsize \<and> bsize \<le> 131072)"

definition org_map :: "PageOrg \<Rightarrow> kspans \<Rightarrow> bool" where
  "org_map s M \<longleftrightarrow>
     (\<forall>g. osegments s g \<noteq> None \<longrightarrow> tiled M g \<and> segment_start (seg_nr g) \<noteq> 0 \<and> core (opages s) (g, 512) = Some blank_page)
   \<and> (\<forall>g i. M (g, i) \<noteq> None \<longrightarrow> osegments s g \<noteq> None)
   \<and> (\<forall>g i. opages s (g, i) \<noteq> None \<longrightarrow> osegments s g \<noteq> None \<and> i \<le> 512)
   \<and> (\<forall>g i c k m. M (g, i) = Some (c, k) \<and> m < c \<longrightarrow> core (opages s) (g, i + m) = Some (cell k c m))
   \<and> (\<forall>p. link (opages s) p \<noteq> None \<longrightarrow> free_queue M p \<noteq> None \<or> page_queue M p \<noteq> None)
   \<and> (\<forall>p c hk f. M p = Some (c, KQueued hk f) \<longrightarrow> kind_ok hk)
   \<and> queues_are (link (opages s)) (unused_dlist_headers s) (unused_lists s) 32 (free_queue M)
   \<and> queues_are (link (opages s)) (used_dlist_headers s) (used_lists s) 75 (page_queue M)"

definition out_span :: "Popped \<Rightarrow> page_id option" where
  "out_span q = (case q of VeryUnready g i _ _ \<Rightarrow> Some (g, i) | Ready p _ \<Rightarrow> Some p | Used p _ \<Rightarrow> Some p
     | SegmentCreating g \<Rightarrow> Some (g, 0) | SegmentFreeing g _ \<Rightarrow> Some (g, 0) | _ \<Rightarrow> None)"

fun out_data :: "Popped \<Rightarrow> nat \<times> kind \<Rightarrow> bool" where
  "out_data (VeryUnready g i c b) d \<longleftrightarrow> d = (c, KBlank) \<and> 0 < i"
| "out_data (Ready p b) d \<longleftrightarrow> b \<and> snd p \<noteq> 0 \<and> snd d = KReady"
| "out_data (Used p b) d \<longleftrightarrow> b \<and> snd p \<noteq> 0 \<and> (\<exists>hk. snd d = KTaken hk)"
| "out_data (SegmentCreating g) d \<longleftrightarrow> d = (512, KBlank)"
| "out_data (SegmentFreeing g i) d \<longleftrightarrow> d = (i, KBlank)"
| "out_data _ d \<longleftrightarrow> True"

definition out_ok :: "Popped \<Rightarrow> kspans \<Rightarrow> (SegmentId \<rightharpoonup> int) \<Rightarrow> bool" where
  "out_ok q M S \<longleftrightarrow> (\<forall>p c k. M p = Some (c, k) \<and> is_out k \<longrightarrow> out_span q = Some p)
     \<and> (\<forall>p. out_span q = Some p \<longrightarrow> (\<exists>d. M p = Some d \<and> out_data q d))
     \<and> (\<forall>g i c k. M (g, i) = Some (c, k) \<longrightarrow> (k = KFirst \<longrightarrow> i = 0) \<and> (i = 0 \<longrightarrow> k = KFirst \<or> out_span q = Some (g, 0)))
     \<and> (\<forall>g. q = ExtraCount g \<longrightarrow> S g \<noteq> None) \<and> (\<forall>g i. q = SegmentFreeing g i \<longrightarrow> S g = Some 0)"

text \<open>\<^verbatim>\<open>ec_of_popped\<close>: a page that is counted although it is not in use, or not counted although it is.\<close>

definition ec_of_popped :: "Popped \<Rightarrow> SegmentId \<Rightarrow> int" where
  "ec_of_popped q g = (case q of Ready p b \<Rightarrow> if fst p = g \<and> b then 1 else 0
     | Used p b \<Rightarrow> if fst p = g then (if b then 0 else -1) else 0
     | VeryUnready sid i c b \<Rightarrow> if g = sid \<and> b then 1 else 0
     | ExtraCount sid \<Rightarrow> if g = sid then 1 else 0 | _ \<Rightarrow> 0)"

definition pages_in :: "kspans \<Rightarrow> SegmentId \<Rightarrow> nat set" where
  "pages_in M g = {i. \<exists>c k. M (g, i) = Some (c, k) \<and> is_page k}"

definition counts :: "(SegmentId \<rightharpoonup> int) \<Rightarrow> kspans \<Rightarrow> Popped \<Rightarrow> bool" where
  "counts S M q \<longleftrightarrow> (\<forall>g n. S g = Some n \<longrightarrow> n = int (card (pages_in M g)) + ec_of_popped q g)"

definition org_ok :: "PageOrg \<Rightarrow> kspans \<Rightarrow> bool" where
  "org_ok s M \<longleftrightarrow> org_map s M \<and> out_ok (popped s) M (osegments s) \<and> counts (osegments s) M (popped s)"


section \<open>What the invariant says of a span\<close>

lemma org_mapD:
  assumes "org_map s M"
  shows "osegments s g \<noteq> None \<Longrightarrow> tiled M g" "osegments s g \<noteq> None \<Longrightarrow> segment_start (seg_nr g) \<noteq> 0"
    "osegments s g \<noteq> None \<Longrightarrow> core (opages s) (g, 512) = Some blank_page"
    "M (g, i) \<noteq> None \<Longrightarrow> osegments s g \<noteq> None"
    "opages s (g, i) \<noteq> None \<Longrightarrow> osegments s g \<noteq> None \<and> i \<le> 512"
    "M (g, i) = Some (c, k) \<Longrightarrow> m < c \<Longrightarrow> core (opages s) (g, i + m) = Some (cell k c m)"
    "link (opages s) p \<noteq> None \<Longrightarrow> free_queue M p \<noteq> None \<or> page_queue M p \<noteq> None"
    "M p = Some (c, KQueued hk f) \<Longrightarrow> kind_ok hk"
    "queues_are (link (opages s)) (unused_dlist_headers s) (unused_lists s) 32 (free_queue M)"
    "queues_are (link (opages s)) (used_dlist_headers s) (used_lists s) 75 (page_queue M)"
  using assms unfolding org_map_def by blast+

lemma org_mapI:
  assumes "\<And>g. osegments s g \<noteq> None \<Longrightarrow> tiled M g" "\<And>g. osegments s g \<noteq> None \<Longrightarrow> segment_start (seg_nr g) \<noteq> 0"
    "\<And>g. osegments s g \<noteq> None \<Longrightarrow> core (opages s) (g, 512) = Some blank_page"
    "\<And>g i. M (g, i) \<noteq> None \<Longrightarrow> osegments s g \<noteq> None"
    "\<And>g i. opages s (g, i) \<noteq> None \<Longrightarrow> osegments s g \<noteq> None \<and> i \<le> 512"
    "\<And>g i c k m. M (g, i) = Some (c, k) \<Longrightarrow> m < c \<Longrightarrow> core (opages s) (g, i + m) = Some (cell k c m)"
    "\<And>p. link (opages s) p \<noteq> None \<Longrightarrow> free_queue M p \<noteq> None \<or> page_queue M p \<noteq> None"
    "\<And>p c hk f. M p = Some (c, KQueued hk f) \<Longrightarrow> kind_ok hk"
    "queues_are (link (opages s)) (unused_dlist_headers s) (unused_lists s) 32 (free_queue M)"
    "queues_are (link (opages s)) (used_dlist_headers s) (used_lists s) 75 (page_queue M)"
  shows "org_map s M"
  unfolding org_map_def using assms by simp

lemma span_facts:
  assumes "org_map s M" "M (g, i) = Some (c, k)"
  shows "tiled M g" "osegments s g \<noteq> None" "0 < c" "i + c \<le> 512"
proof -
  show s: "osegments s g \<noteq> None" using org_mapD(4) [OF assms(1), of g i] assms(2) by simp
  show t: "tiled M g" by (rule org_mapD(1) [OF assms(1) s])
  show "0 < c" "i + c \<le> 512" using t assms(2) unfolding tiled_def by blast+
qed

lemma span_page:
  assumes "org_map s M" "M (g, i) = Some (c, k)" "m < c"
  shows "opages s (g, i + m) = Some (pg s (g, i + m))" "pg s (g, i + m) = (cell k c m)\<lparr>pd_dlist := link (opages s) (g, i + m)\<rparr>"
  using core_link [OF org_mapD(6) [OF assms]] by (simp_all add: pg_def)

lemma span_page0:
  assumes "org_map s M" "M (g, i) = Some (c, k)"
  shows "opages s (g, i) = Some (pg s (g, i))" "pg s (g, i) = (cell k c 0)\<lparr>pd_dlist := link (opages s) (g, i)\<rparr>"
  using span_page [OF assms, of 0] span_facts(3) [OF assms] by simp_all

text \<open>Only queued spans have links.\<close>

lemma span_link_None:
  assumes inv: "org_map s M" and m: "M (g, i) = Some (c, k)" "i \<le> j" "j < i + c" and u: "j = i \<Longrightarrow> \<not> (k = KFree \<or> (\<exists>hk f. k = KQueued hk f))"
  shows "link (opages s) (g, j) = None"
proof (rule ccontr)
  assume "link (opages s) (g, j) \<noteq> None"
  then have "free_queue M (g, j) \<noteq> None \<or> page_queue M (g, j) \<noteq> None" by (rule org_mapD(7) [OF inv])
  then obtain d k' where k': "M (g, j) = Some (d, k')" "k' = KFree \<or> (\<exists>hk f. k' = KQueued hk f)"
    by (auto simp: free_queue_def page_queue_def split: option.splits prod.splits kind.splits)
  then have "j = i" using tiled_inside [OF span_facts(1) [OF inv m(1)] m(1), of j] m(2,3) by (cases "j = i") auto
  then show False using u k' m(1) by auto
qed

lemma sbin_lt: "c \<le> 512 \<Longrightarrow> sbin_of c < 32" "c \<le> 512 \<Longrightarrow> int (sbin_of c) = smallest_sbin_fitting_size (int c)"
  using smallest_sbin_bounds [of c] unfolding sbin_of_def by linarith+


section \<open>Changing the map of spans\<close>

lemma free_queue_upd: "free_queue (M(p \<mapsto> (c, k))) = (free_queue M)(p := (if k = KFree then Some (sbin_of c) else None))"
  by (auto simp: free_queue_def fun_eq_iff split: kind.splits)

fun page_bin :: "kind \<Rightarrow> nat option" where
  "page_bin (KQueued (NormalPage i b) f) = Some (if f then 74 else nat i)"
| "page_bin _ = None"

lemma page_queue_alt: "page_queue M p = (case M p of None \<Rightarrow> None | Some (c, k) \<Rightarrow> page_bin k)"
  by (auto simp: page_queue_def split: option.splits kind.splits PageHeaderKind.splits)

lemma page_queue_upd: "page_queue (M(p \<mapsto> (c, k))) = (page_queue M)(p := page_bin k)"
  by (auto simp: page_queue_alt fun_eq_iff)

lemma queues_None:
  "M p = Some (c, k) \<Longrightarrow> k \<noteq> KFree \<Longrightarrow> free_queue M p = None"
  "M p = Some (c, k) \<Longrightarrow> (\<And>hk f. k \<noteq> KQueued hk f) \<Longrightarrow> page_queue M p = None"
  by (auto simp: free_queue_def page_queue_def split: kind.splits)

text \<open>One span changes its kind.\<close>

lemma org_map_change:
  assumes inv: "org_map s M" and m: "M (g, i) = Some (c, k)" and M': "M' = M((g, i) \<mapsto> (c, k'))"
    and S: "\<And>h. osegments s' h = None \<longleftrightarrow> osegments s h = None"
    and outside: "\<And>h j. h \<noteq> g \<or> j < i \<or> i + c \<le> j \<Longrightarrow> core (opages s') (h, j) = core (opages s) (h, j)"
    and inside: "\<And>n. n < c \<Longrightarrow> core (opages s') (g, i + n) = Some (cell k' c n)"
    and lk: "\<And>p. link (opages s') p \<noteq> None \<Longrightarrow> free_queue M' p \<noteq> None \<or> page_queue M' p \<noteq> None"
    and hk: "\<And>hk f. k' = KQueued hk f \<Longrightarrow> kind_ok hk"
    and qf: "queues_are (link (opages s')) (unused_dlist_headers s') (unused_lists s') 32 (free_queue M')"
    and qp: "queues_are (link (opages s')) (used_dlist_headers s') (used_lists s') 75 (page_queue M')"
  shows "org_map s' M'"
proof -
  note f = span_facts [OF inv m]
  note D = org_mapD [OF inv]
  have tl: "tiled M' h" if "osegments s' h \<noteq> None" for h
    using that S D(1) [of h] tiled_state [OF f(1) m] by (cases "h = g") (auto simp: M' tiled_other)
  have cells: "core (opages s') (h, j + n) = Some (cell u d n)" if a: "M' (h, j) = Some (d, u)" "n < d" for h j d u n
  proof (cases "h = g \<and> j = i")
    case True
    then show ?thesis using a inside by (simp add: M')
  next
    case False
    then have a': "M (h, j) = Some (d, u)" using a by (auto simp: M')
    have "j + d \<le> i \<or> i + c \<le> j" if "h = g"
      using f(1) m a' False that unfolding tiled_def by (metis linorder_neqE_nat)
    then have "h \<noteq> g \<or> j + n < i \<or> i + c \<le> j + n" using a(2) by auto
    then show ?thesis using outside D(6) [OF a' a(2)] by simp
  qed
  have dm: "osegments s' h \<noteq> None \<and> j \<le> 512" if "opages s' (h, j) \<noteq> None" for h j
  proof (cases "h = g \<and> i \<le> j \<and> j < i + c")
    case True
    then show ?thesis using S f(2,4) by auto
  next
    case False
    then have "opages s (h, j) \<noteq> None" using outside [of h j] that core_None [of "opages s'" "(h, j)"] core_None [of "opages s" "(h, j)"] by auto
    then show ?thesis using D(5) [of h j] S by simp
  qed
  have last: "core (opages s') (h, 512) = Some blank_page" if "osegments s' h \<noteq> None" for h
    using outside [of h 512] f(4) D(3) [of h] S that by simp
  have seg: "osegments s' h \<noteq> None" if "M' (h, j) \<noteq> None" for h j
    using that D(4) [of h j] f(2) S by (auto simp: M' split: if_splits)
  have kd: "kind_ok hk" if "M' p = Some (d, KQueued hk b)" for p d hk b
    using that hk D(8) [of p d hk b] by (auto simp: M' split: if_splits)
  have st: "segment_start (seg_nr h) \<noteq> 0" if "osegments s' h \<noteq> None" for h using that unfolding S by (rule D(2))
  show ?thesis by (rule org_mapI) (fact tl st last seg dm cells lk kd qf qp)+
qed

text \<open>A kind changes outside the queues.\<close>

lemma org_map_relabel:
  assumes inv: "org_map s M" and m: "M (g, i) = Some (c, k)"
    and u: "k \<noteq> KFree" "\<And>hk f. k \<noteq> KQueued hk f" "k' \<noteq> KFree" "\<And>hk f. k' \<noteq> KQueued hk f"
    and S: "\<And>h. osegments s' h = None \<longleftrightarrow> osegments s h = None"
    and outside: "\<And>h j. h \<noteq> g \<or> j < i \<or> i + c \<le> j \<Longrightarrow> opages s' (h, j) = opages s (h, j)"
    and inside: "\<And>n. n < c \<Longrightarrow> opages s' (g, i + n) = Some (cell k' c n)"
    and q: "unused_dlist_headers s' = unused_dlist_headers s" "unused_lists s' = unused_lists s"
      "used_dlist_headers s' = used_dlist_headers s" "used_lists s' = used_lists s"
  shows "org_map s' (M((g, i) \<mapsto> (c, k')))"
proof (rule org_map_change [OF inv m refl])
  note D = org_mapD [OF inv]
  have lk: "link (opages s') (h, j) = link (opages s) (h, j)" for h j
  proof (cases "h = g \<and> i \<le> j \<and> j < i + c")
    case True
    then have j: "j - i < c" "i + (j - i) = j" by auto
    have "opages s' (h, j) = Some (cell k' c (j - i))" using inside [OF j(1)] True unfolding j(2) by simp
    then have "link (opages s') (h, j) = None" by (simp add: link_def cell_def)
    moreover have "link (opages s) (h, j) = None" using span_link_None [OF inv m, of j] u True by auto
    ultimately show ?thesis by simp
  qed (use outside in \<open>auto simp: link_def\<close>)
  then have lk': "link (opages s') = link (opages s)" by (auto simp: fun_eq_iff)
  have fq: "free_queue (M((g, i) \<mapsto> (c, k'))) = free_queue M"
    using queues_None(1) [of M, OF m u(1)] u(3) by (auto simp: free_queue_upd fun_eq_iff)
  have pb: "page_bin k' = None" using u(4) by (cases k') auto
  have pq: "page_queue (M((g, i) \<mapsto> (c, k'))) = page_queue M"
    using queues_None(2) [of M, OF m u(2)] pb by (auto simp: page_queue_upd fun_eq_iff)
  show "core (opages s') (h, j) = core (opages s) (h, j)" if "h \<noteq> g \<or> j < i \<or> i + c \<le> j" for h j
    using outside [OF that] by (simp add: core_def)
  show "core (opages s') (g, i + n) = Some (cell k' c n)" if "n < c" for n
    using inside [OF that] by (simp add: core_def cell_def)
  show "free_queue (M((g, i) \<mapsto> (c, k'))) p \<noteq> None \<or> page_queue (M((g, i) \<mapsto> (c, k'))) p \<noteq> None"
    if "link (opages s') p \<noteq> None" for p
    using that D(7) unfolding lk' fq pq by blast
  show "queues_are (link (opages s')) (unused_dlist_headers s') (unused_lists s') 32 (free_queue (M((g, i) \<mapsto> (c, k'))))"
    using D(9) unfolding lk' fq q .
  show "queues_are (link (opages s')) (used_dlist_headers s') (used_lists s') 75 (page_queue (M((g, i) \<mapsto> (c, k'))))"
    using D(10) unfolding lk' pq q .
qed (use u S in auto)

text \<open>Blank spans are split and merged without touching a page.\<close>

lemma cell_blank: "cell KBlank c m = blank_page"
  by (simp add: cell_def blank_page_def)

lemma org_map_regroup:
  assumes inv: "org_map s M" and t: "\<And>h. osegments s h \<noteq> None \<Longrightarrow> tiled M' h"
    and old: "\<And>h j d u. M' (h, j) = Some (d, u) \<Longrightarrow> u \<noteq> KBlank \<Longrightarrow> M (h, j) = Some (d, u)"
    and blank: "\<And>h j d n. M' (h, j) = Some (d, KBlank) \<Longrightarrow> n < d \<Longrightarrow> core (opages s) (h, j + n) = Some blank_page"
    and seg: "\<And>h j. M' (h, j) \<noteq> None \<Longrightarrow> osegments s h \<noteq> None"
    and new: "\<And>h j d u. M (h, j) = Some (d, u) \<Longrightarrow> u \<noteq> KBlank \<Longrightarrow> M' (h, j) = Some (d, u)"
  shows "org_map s M'"
proof -
  note D = org_mapD [OF inv]
  have eq: "M' p = Some (d, u) \<longleftrightarrow> M p = Some (d, u)" if "u \<noteq> KBlank" for p d u
    using old [of "fst p" "snd p" d u] new [of "fst p" "snd p" d u] that by auto
  have fq: "free_queue M' p = Some b \<longleftrightarrow> free_queue M p = Some b" for p b
  proof -
    have e: "free_queue N p = Some b \<longleftrightarrow> (\<exists>c. N p = Some (c, KFree) \<and> sbin_of c = b)" for N
      by (auto simp: free_queue_def split: option.splits prod.splits kind.splits)
    show ?thesis unfolding e using eq by simp
  qed
  have pq: "page_queue M' p = Some b \<longleftrightarrow> page_queue M p = Some b" for p b
  proof -
    have e: "page_queue N p = Some b \<longleftrightarrow> (\<exists>c hk f. N p = Some (c, KQueued hk f) \<and> page_bin (KQueued hk f) = Some b)" for N
      by (auto simp: page_queue_alt split: option.splits prod.splits elim: page_bin.elims)
    show ?thesis unfolding e using eq by simp
  qed
  have fq': "free_queue M' = free_queue M" and pq': "page_queue M' = page_queue M"
    using fq pq by (metis ext not_Some_eq)+
  have cells: "core (opages s) (h, j + n) = Some (cell u d n)" if "M' (h, j) = Some (d, u)" "n < d" for h j d u n
    using that blank [of h j d n] old [of h j d u] D(6) [of h j d u n] by (cases "u = KBlank") (auto simp: cell_blank)
  have kd: "kind_ok hk" if "M' p = Some (c, KQueued hk f)" for p c hk f using that eq D(8) by blast
  show ?thesis
    by (rule org_mapI) (fact t D(2) D(3) seg D(5) cells D(7) [folded fq' pq'] kd D(9) [folded fq'] D(10) [folded pq'])+
qed

lemma org_map_split:
  assumes inv: "org_map s M" and m: "M (g, i) = Some (c, KBlank)" and n: "0 < n" "n < c"
  shows "org_map s (M((g, i) \<mapsto> (n, KBlank), (g, i + n) \<mapsto> (c - n, KBlank)))"
proof -
  note f = span_facts [OF inv m] and D = org_mapD [OF inv]
  have none: "M (g, i + n) = None" using tiled_inside [OF f(1) m, of "i + n"] n by simp
  have all: "core (opages s) (g, i + k) = Some blank_page" if "k < c" for k
    using D(6) [OF m that] by (simp add: cell_blank)
  show ?thesis
  proof (rule org_map_regroup [OF inv])
    show "tiled (M((g, i) \<mapsto> (n, KBlank), (g, i + n) \<mapsto> (c - n, KBlank))) h" if "osegments s h \<noteq> None" for h
      using tiled_split [OF f(1) m n] D(1) [OF that] by (cases "h = g") (auto simp: tiled_other)
    show "core (opages s) (h, j + k) = Some blank_page"
      if a: "(M((g, i) \<mapsto> (n, KBlank), (g, i + n) \<mapsto> (c - n, KBlank))) (h, j) = Some (d, KBlank)" "k < d" for h j d k
      using a all [of k] all [of "n + k"] n D(6) [of h j d KBlank k] by (auto simp: cell_blank add.assoc split: if_splits)
    show "osegments s h \<noteq> None" if "(M((g, i) \<mapsto> (n, KBlank), (g, i + n) \<mapsto> (c - n, KBlank))) (h, j) \<noteq> None" for h j
      using that f(2) D(4) [of h j] by (auto split: if_splits)
  qed (use m none in \<open>auto split: if_splits\<close>)
qed

lemma org_map_merge:
  assumes inv: "org_map s M" and m: "M (g, i) = Some (c, KBlank)" "M (g, i + c) = Some (d, KBlank)"
  shows "org_map s (M((g, i + c) := None, (g, i) \<mapsto> (c + d, KBlank)))"
proof -
  note f = span_facts [OF inv m(1)] and D = org_mapD [OF inv]
  have all: "core (opages s) (g, i + k) = Some blank_page" if "k < c + d" for k
    using D(6) [OF m(1), of k] D(6) [OF m(2), of "k - c"] that by (cases "k < c") (simp_all add: cell_blank add.assoc)
  show ?thesis
  proof (rule org_map_regroup [OF inv])
    show "tiled (M((g, i + c) := None, (g, i) \<mapsto> (c + d, KBlank))) h" if "osegments s h \<noteq> None" for h
      using tiled_merge [OF f(1) m] D(1) [OF that] by (cases "h = g") (auto simp: tiled_other)
    show "core (opages s) (h, j + k) = Some blank_page"
      if a: "(M((g, i + c) := None, (g, i) \<mapsto> (c + d, KBlank))) (h, j) = Some (d', KBlank)" "k < d'" for h j d' k
      using a all [of k] D(6) [of h j d' KBlank k] by (auto simp: cell_blank split: if_splits)
    show "osegments s h \<noteq> None" if "(M((g, i + c) := None, (g, i) \<mapsto> (c + d, KBlank))) (h, j) \<noteq> None" for h j
      using that f(2) D(4) [of h j] by (auto split: if_splits)
  qed (use m in \<open>auto split: if_splits\<close>)
qed


section \<open>Spans that enter and leave the queues\<close>

lemma queues_apart: "free_queue M p = Some b \<Longrightarrow> page_queue M p = None" "page_queue M p = Some b \<Longrightarrow> free_queue M p = None"
  by (auto simp: free_queue_def page_queue_def split: option.splits prod.splits kind.splits)

lemma relink_None [simp]: "relink E pv nx x = None \<longleftrightarrow> E x = None"
  by (simp add: relink_def)

lemma queued_spanE:
  assumes "free_queue M p = Some b" obtains c where "M p = Some (c, KFree)" "sbin_of c = b"
  using assms by (auto simp: free_queue_def split: option.splits prod.splits kind.splits)

lemma paged_spanE:
  assumes "page_queue M p = Some b" obtains c hk f where "M p = Some (c, KQueued hk f)" "page_bin (KQueued hk f) = Some b"
  using assms by (auto simp: page_queue_alt split: option.splits prod.splits elim: page_bin.elims)

lemma org_map_pop:
  assumes inv: "org_map s M" and m: "M (g, i) = Some (c, KFree)"
    and e: "link (opages s) (g, i) = Some e" and j: "j < length (unused_lists s ! sbin_of c)" "unused_lists s ! sbin_of c ! j = (g, i)"
    and S: "osegments s' = osegments s"
    and co: "core (opages s') = (core (opages s))((g, i) \<mapsto> blank_page, (g, i + c - 1) \<mapsto> blank_page)"
    and li: "link (opages s') = (relink (link (opages s)) (de_prev e) (de_next e))((g, i) := None)"
    and q: "unused_dlist_headers s' = (unused_dlist_headers s)[sbin_of c := h]"
      "dh_first h = (if de_prev e = None then de_next e else dh_first (unused_dlist_headers s ! sbin_of c))"
      "dh_last h = (if de_next e = None then de_prev e else dh_last (unused_dlist_headers s ! sbin_of c))"
      "unused_lists s' = (unused_lists s)[sbin_of c := remove_at j (unused_lists s ! sbin_of c)]"
      "used_dlist_headers s' = used_dlist_headers s" "used_lists s' = used_lists s"
  shows "org_map s' (M((g, i) \<mapsto> (c, KBlank)))"
proof (rule org_map_change [OF inv m refl])
  note D = org_mapD [OF inv] and f = span_facts [OF inv m]
  have K: "free_queue M (g, i) = Some (sbin_of c)" using m by (simp add: free_queue_def)
  have fq: "free_queue (M((g, i) \<mapsto> (c, KBlank))) = (free_queue M)((g, i) := None)" by (simp add: free_queue_upd)
  have pq: "page_queue (M((g, i) \<mapsto> (c, KBlank))) = page_queue M"
    using m by (auto simp: page_queue_upd page_queue_alt fun_eq_iff)
  show "core (opages s') (h, k) = core (opages s) (h, k)" if "h \<noteq> g \<or> k < i \<or> i + c \<le> k" for h k
    using that f(3) by (auto simp: co)
  show "core (opages s') (g, i + n) = Some (cell KBlank c n)" if n: "n < c" for n
  proof (cases "n = 0 \<or> n = c - 1")
    case False
    then have "cell KFree c n = blank_page" by (simp add: cell_def blank_page_def)
    then show ?thesis using False D(6) [OF m n] f(3) by (auto simp: co cell_blank)
  qed (use f(3) in \<open>auto simp: co cell_blank\<close>)
  show "free_queue (M((g, i) \<mapsto> (c, KBlank))) p \<noteq> None \<or> page_queue (M((g, i) \<mapsto> (c, KBlank))) p \<noteq> None"
    if "link (opages s') p \<noteq> None" for p
    using that D(7) [of p] relink_None put_None_iff unfolding fq pq li by (auto split: if_splits simp del: not_None_eq)
  show "queues_are (link (opages s')) (unused_dlist_headers s') (unused_lists s') 32 (free_queue (M((g, i) \<mapsto> (c, KBlank))))"
    unfolding fq q(1,4) by (rule queue_pop [OF D(9) K e j _ q(2,3)]) (simp add: li)
  show "queues_are (link (opages s')) (used_dlist_headers s') (used_lists s') 75 (page_queue (M((g, i) \<mapsto> (c, KBlank))))"
    unfolding pq q(5,6)
  proof (rule queues_cong [OF D(10)])
    fix x assume x: "page_queue M x \<noteq> None"
    then have "free_queue M x = None" using queues_apart(2) by blast
    then have "x \<noteq> (g, i)" "de_prev e \<noteq> Some x" "de_next e \<noteq> Some x"
      using K queue_neighbours(1,2) [OF D(9) K e, of x] by auto
    then show "link (opages s') x = link (opages s) x" by (simp add: li relink_other)
  qed
qed (use S in auto)

lemma org_map_push:
  assumes inv: "org_map s M" and m: "M (g, i) = Some (c, KBlank)"
    and S: "osegments s' = osegments s"
    and co: "core (opages s') = (core (opages s))((g, i + c - 1) \<mapsto> cell KFree c (c - 1), (g, i) \<mapsto> cell KFree c 0)"
    and h0: "hd0 = unused_dlist_headers s ! sbin_of c"
    and li: "link (opages s') = (put_prev (dh_first hd0) (Some (g, i)) (link (opages s)))((g, i) \<mapsto> \<lparr>de_prev = None, de_next = dh_first hd0\<rparr>)"
    and q: "unused_dlist_headers s' = (unused_dlist_headers s)[sbin_of c := h]"
      "dh_first h = Some (g, i)" "dh_last h = (if dh_first hd0 \<noteq> None then dh_last hd0 else Some (g, i))"
      "unused_lists s' = insert_front (unused_lists s) (sbin_of c) (g, i)"
      "used_dlist_headers s' = used_dlist_headers s" "used_lists s' = used_lists s"
  shows "org_map s' (M((g, i) \<mapsto> (c, KFree)))"
proof (rule org_map_change [OF inv m refl])
  note D = org_mapD [OF inv] and f = span_facts [OF inv m]
  have b: "sbin_of c < 32" using sbin_lt(1) f(4) by simp
  have K: "free_queue M (g, i) = None" using m by (simp add: free_queue_def)
  have fq: "free_queue (M((g, i) \<mapsto> (c, KFree))) = (free_queue M)((g, i) \<mapsto> sbin_of c)" by (simp add: free_queue_upd)
  have pq: "page_queue (M((g, i) \<mapsto> (c, KFree))) = page_queue M"
    using m by (auto simp: page_queue_upd page_queue_alt fun_eq_iff)
  show "core (opages s') (h, k) = core (opages s) (h, k)" if "h \<noteq> g \<or> k < i \<or> i + c \<le> k" for h k
    using that f(3) by (auto simp: co)
  show "core (opages s') (g, i + n) = Some (cell KFree c n)" if n: "n < c" for n
  proof (cases "n = 0 \<or> n = c - 1")
    case False
    then have "cell KFree c n = blank_page" by (simp add: cell_def blank_page_def)
    then show ?thesis using False D(6) [OF m n] f(3) by (auto simp: co cell_blank)
  qed (use f(3) in \<open>auto simp: co\<close>)
  show "free_queue (M((g, i) \<mapsto> (c, KFree))) p \<noteq> None \<or> page_queue (M((g, i) \<mapsto> (c, KFree))) p \<noteq> None"
    if "link (opages s') p \<noteq> None" for p
    using that D(7) [of p] relink_None put_None_iff unfolding fq pq li by (auto split: if_splits simp del: not_None_eq)
  show "queues_are (link (opages s')) (unused_dlist_headers s') (unused_lists s') 32 (free_queue (M((g, i) \<mapsto> (c, KFree))))"
    unfolding fq q(1,4) by (rule queue_push_front [OF D(9) b K]) (simp_all add: li q h0)
  show "queues_are (link (opages s')) (used_dlist_headers s') (used_lists s') 75 (page_queue (M((g, i) \<mapsto> (c, KFree))))"
    unfolding pq q(5,6)
  proof (rule queues_cong [OF D(10)])
    fix x assume x: "page_queue M x \<noteq> None"
    then have "free_queue M x = None" using queues_apart(2) by blast
    moreover have "x \<noteq> (g, i)" using x m by (auto simp: page_queue_alt)
    moreover have "dh_first hd0 \<noteq> Some x" using queues_first(1) [OF D(9) b, of x] calculation(1) by (auto simp: h0)
    ultimately show "link (opages s') x = link (opages s) x" by (simp add: li put_other)
  qed
qed (use S in auto)

text \<open>The same for the queues of pages, where only the first page of the span is written.\<close>

lemma org_map_requeue:
  assumes inv: "org_map s M" and m: "M (g, i) = Some (c, k)" and k: "is_page k" "is_page k'" and n0: "\<And>n. 0 < n \<Longrightarrow> cell k' c n = cell k c n"
    and S: "osegments s' = osegments s"
    and co: "core (opages s') = (core (opages s))((g, i) \<mapsto> cell k' c 0)"
    and lk: "\<And>x. x \<noteq> (g, i) \<Longrightarrow> free_queue M x \<noteq> None \<Longrightarrow> link (opages s') x = link (opages s) x"
    and ln: "\<And>x. link (opages s') x \<noteq> None \<Longrightarrow> link (opages s) x \<noteq> None \<and> x \<noteq> (g, i) \<or> x = (g, i) \<and> page_bin k' \<noteq> None"
    and hk: "\<And>hk f. k' = KQueued hk f \<Longrightarrow> kind_ok hk"
    and q: "unused_dlist_headers s' = unused_dlist_headers s" "unused_lists s' = unused_lists s"
      "queues_are (link (opages s')) (used_dlist_headers s') (used_lists s') 75 ((page_queue M)((g, i) := page_bin k'))"
  shows "org_map s' (M((g, i) \<mapsto> (c, k')))"
proof (rule org_map_change [OF inv m refl])
  note D = org_mapD [OF inv] and f = span_facts [OF inv m]
  have nf: "k \<noteq> KFree" "k' \<noteq> KFree" using k by auto
  have fq: "free_queue (M((g, i) \<mapsto> (c, k'))) = free_queue M"
    using queues_None(1) [of M, OF m nf(1)] nf(2) by (auto simp: free_queue_upd fun_eq_iff)
  show "core (opages s') (h, j) = core (opages s) (h, j)" if "h \<noteq> g \<or> j < i \<or> i + c \<le> j" for h j
    using that f(3) by (auto simp: co)
  show "core (opages s') (g, i + n) = Some (cell k' c n)" if n: "n < c" for n
    using D(6) [OF m n] n0 [of n] by (auto simp: co)
  show "free_queue (M((g, i) \<mapsto> (c, k'))) p \<noteq> None \<or> page_queue (M((g, i) \<mapsto> (c, k'))) p \<noteq> None"
    if "link (opages s') p \<noteq> None" for p
    using ln [OF that] D(7) [of p] unfolding fq page_queue_upd by auto
  show "queues_are (link (opages s')) (unused_dlist_headers s') (unused_lists s') 32 (free_queue (M((g, i) \<mapsto> (c, k'))))"
    unfolding fq q(1,2)
  proof (rule queues_cong [OF D(9)])
    fix x assume x: "free_queue M x \<noteq> None"
    then have "x \<noteq> (g, i)" using queues_None(1) [of M, OF m nf(1)] by auto
    then show "link (opages s') x = link (opages s) x" using x by (rule lk)
  qed
  show "queues_are (link (opages s')) (used_dlist_headers s') (used_lists s') 75 (page_queue (M((g, i) \<mapsto> (c, k'))))"
    using q(3) by (simp add: page_queue_upd)
qed (use S hk in auto)


section \<open>Counting pages\<close>

lemma pages_in_finite: "tiled M g \<Longrightarrow> finite (pages_in M g)"
proof -
  assume "tiled M g"
  then have "pages_in M g \<subseteq> {..<512}" unfolding pages_in_def tiled_def by fastforce
  then show ?thesis by (rule finite_subset) simp
qed

lemma pages_in_upd:
  "pages_in (M((g, i) \<mapsto> (c, k))) h = (if h = g then if is_page k then insert i (pages_in M g) else pages_in M g - {i} else pages_in M h)"
  "\<not> is_page k \<Longrightarrow> M (g, i) = Some (c, k) \<Longrightarrow> pages_in (M((g, i) := None)) h = pages_in M h"
  by (auto simp: pages_in_def)

lemma pages_in_other: "(\<And>i c k. is_page k \<Longrightarrow> M' (g, i) = Some (c, k) \<longleftrightarrow> M (g, i) = Some (c, k)) \<Longrightarrow> pages_in M' g = pages_in M g"
  unfolding pages_in_def by blast

lemma countsD: "counts S M q \<Longrightarrow> S g = Some n \<Longrightarrow> n = int (card (pages_in M g)) + ec_of_popped q g"
  by (simp add: counts_def)

lemma counts_same:
  assumes "counts S M q" "\<And>g. pages_in M' g = pages_in M g" "\<And>g. ec_of_popped q' g = ec_of_popped q g"
  shows "counts S M' q'"
  using assms by (simp add: counts_def)

lemma counts_start:
  assumes c: "counts S M q" and t: "tiled M g" and m: "M (g, i) = Some (c, k)" "\<not> is_page k" "is_page k'"
    and e: "\<And>h. ec_of_popped q' h = ec_of_popped q h - (if h = g then 1 else 0)"
  shows "counts S (M((g, i) \<mapsto> (c', k'))) q'"
proof -
  have "i \<notin> pages_in M g" using m by (simp add: pages_in_def)
  then have "card (pages_in (M((g, i) \<mapsto> (c', k'))) g) = Suc (card (pages_in M g))" using m(3) pages_in_finite [OF t] by (simp add: pages_in_upd)
  moreover have "pages_in (M((g, i) \<mapsto> (c', k'))) h = pages_in M h" if "h \<noteq> g" for h using that by (simp add: pages_in_upd)
  ultimately have "int (card (pages_in (M((g, i) \<mapsto> (c', k'))) h)) + ec_of_popped q' h = int (card (pages_in M h)) + ec_of_popped q h" for h
    unfolding e by (cases "h = g") simp_all
  then show ?thesis using c unfolding counts_def by simp
qed

lemma counts_stop:
  assumes c: "counts S M q" and t: "tiled M g" and m: "M (g, i) = Some (c, k)" "is_page k" "\<not> is_page k'"
    and e: "\<And>h. ec_of_popped q' h = ec_of_popped q h + (if h = g then 1 else 0)"
  shows "counts S (M((g, i) \<mapsto> (c', k'))) q'"
proof -
  have i: "i \<in> pages_in M g" using m by (simp add: pages_in_def)
  then have "card (pages_in M g) = Suc (card (pages_in M g - {i}))" by (rule card.remove [OF pages_in_finite [OF t]])
  moreover have "pages_in (M((g, i) \<mapsto> (c', k'))) g = pages_in M g - {i}" using m(3) by (simp add: pages_in_upd)
  moreover have "pages_in (M((g, i) \<mapsto> (c', k'))) h = pages_in M h" if "h \<noteq> g" for h using that by (simp add: pages_in_upd)
  ultimately have "int (card (pages_in (M((g, i) \<mapsto> (c', k'))) h)) + ec_of_popped q' h = int (card (pages_in M h)) + ec_of_popped q h" for h
    unfolding e by (cases "h = g") simp_all
  then show ?thesis using c unfolding counts_def by simp
qed

lemma pages_in_bound: "tiled M g \<Longrightarrow> card (pages_in M g) \<le> 512"
proof -
  assume "tiled M g"
  then have "pages_in M g \<subseteq> {..<512}" unfolding pages_in_def tiled_def by fastforce
  then show ?thesis using card_mono [of "{..<512}"] by fastforce
qed


section \<open>The span that is out\<close>

lemma out_okD:
  assumes "out_ok q M S"
  shows "M p = Some (c, k) \<Longrightarrow> is_out k \<Longrightarrow> out_span q = Some p" "out_span q = Some p \<Longrightarrow> \<exists>d. M p = Some d \<and> out_data q d"
    "M (g, i) = Some (c, KFirst) \<Longrightarrow> i = 0" "M (g, 0) = Some (c, k) \<Longrightarrow> k = KFirst \<or> out_span q = Some (g, 0)"
    "q = ExtraCount g \<Longrightarrow> S g \<noteq> None" "q = SegmentFreeing g j \<Longrightarrow> S g = Some 0"
  using assms unfolding out_ok_def by blast+

text \<open>The span that is out changes, or goes back.\<close>

lemma out_ok_swap:
  assumes o: "out_ok q M S" and m: "M' (g, i) = Some (c, k)"
    and sub: "\<And>h j d u. (h, j) \<noteq> (g, i) \<Longrightarrow> M' (h, j) = Some (d, u) \<Longrightarrow>
        M (h, j) = Some (d, u) \<and> out_span q \<noteq> Some (h, j) \<or> u = KFree \<and> j \<noteq> 0 \<or> u = KFirst \<and> j = 0"
    and q': "out_span q' = (if is_out k then Some (g, i) else None)"
    and d: "is_out k \<Longrightarrow> out_data q' (c, k)" and k: "k \<noteq> KFirst" "i = 0 \<Longrightarrow> is_out k"
    and x: "\<And>h. q' = ExtraCount h \<Longrightarrow> S' h \<noteq> None" "\<And>h j. q' = SegmentFreeing h j \<Longrightarrow> S' h = Some 0"
  shows "out_ok q' M' S'"
proof -
  have 1: "out_span q' = Some (h, j)" if a: "M' (h, j) = Some (d, u)" "is_out u" for h j d u
  proof (cases "(h, j) = (g, i)")
    case False
    then show ?thesis using sub [OF False a(1)] a(2) out_okD(1) [OF o, of "(h, j)" d u] by auto
  qed (use a m q' in auto)
  have 2: "\<exists>d. M' p = Some d \<and> out_data q' d" if "out_span q' = Some p" for p
    using that q' d m by (auto split: if_splits)
  have 3: "(u = KFirst \<longrightarrow> j = 0) \<and> (j = 0 \<longrightarrow> u = KFirst \<or> out_span q' = Some (h, 0))" if a: "M' (h, j) = Some (d, u)" for h j d u
  proof (cases "(h, j) = (g, i)")
    case True
    then show ?thesis using a m k q' by auto
  next
    case False
    then show ?thesis using sub [OF False a] out_okD(3) [OF o, of h j d] out_okD(4) [OF o, of h d u] by auto
  qed
  have "out_span q' = Some p" if "M' p = Some (d, u)" "is_out u" for p d u using 1 [of "fst p" "snd p" d u] that by simp
  then show ?thesis unfolding out_ok_def using 2 3 x by blast
qed

end
