(* ===== verification/Page_Org_Spec.thy ===== *)
theory Page_Org_Spec
  imports Page_Org_Inv
begin

text \<open>
  The invariants \<^verbatim>\<open>page_organization.rs\<close> declares for the state machine, as they are written there:
  domains, the shape of every span, the linked queues and which span is in which, the span that is out, and
  the counts of pages. \<open>Page_Org_Props\<close> shows that every reachable state has them.
\<close>

section \<open>Lists of pages\<close>

definition get_next :: "page_id list \<Rightarrow> nat \<Rightarrow> page_id option" where
  "get_next ll j = (if Suc j = length ll then None else Some (ll ! (j + 1)))"

definition get_prev :: "page_id list \<Rightarrow> nat \<Rightarrow> page_id option" where
  "get_prev ll j = (if j = 0 then None else Some (ll ! (j - 1)))"

definition valid_ll_i :: "(page_id \<rightharpoonup> PageData) \<Rightarrow> page_id list \<Rightarrow> nat \<Rightarrow> bool" where
  "valid_ll_i P ll j \<longleftrightarrow> j < length ll \<and> P (ll ! j) \<noteq> None \<and> pd_dlist (the (P (ll ! j))) \<noteq> None
     \<and> de_prev (the (pd_dlist (the (P (ll ! j))))) = get_prev ll j
     \<and> de_next (the (pd_dlist (the (P (ll ! j))))) = get_next ll j"

definition valid_ll :: "(page_id \<rightharpoonup> PageData) \<Rightarrow> page_id DlistHeader \<Rightarrow> page_id list \<Rightarrow> bool" where
  "valid_ll P h ll \<longleftrightarrow>
     (case dh_first h of Some f \<Rightarrow> length ll \<noteq> 0 \<and> ll ! 0 = f | None \<Rightarrow> length ll = 0)
   \<and> (case dh_last h of Some l \<Rightarrow> length ll \<noteq> 0 \<and> ll ! (length ll - 1) = l | None \<Rightarrow> length ll = 0)
   \<and> (\<forall>j<length ll. valid_ll_i P ll j)"

definition is_in_lls :: "page_id \<Rightarrow> page_id list list \<Rightarrow> bool" where
  "is_in_lls p ls \<longleftrightarrow> (\<exists>i<length ls. \<exists>j<length (ls ! i). ls ! i ! j = p)"

definition is_in_list_at :: "page_id \<Rightarrow> page_id list list \<Rightarrow> int \<Rightarrow> bool" where
  "is_in_list_at p ls i \<longleftrightarrow> 0 \<le> i \<and> i < int (length ls) \<and> (\<exists>j<length (ls ! nat i). ls ! nat i ! j = p)"


section \<open>The span that is out\<close>

definition in_popped_range :: "PageOrg \<Rightarrow> page_id \<Rightarrow> bool" where
  "in_popped_range s p = (case popped s of
       VeryUnready sid i c _ \<Rightarrow> fst p = sid \<and> i \<le> snd p \<and> snd p < i + c
     | Ready q _ \<Rightarrow> fst p = fst q \<and> snd q \<le> snd p \<and> snd p < snd q + the (pd_count (pg s q))
     | Used q _ \<Rightarrow> fst p = fst q \<and> snd q \<le> snd p \<and> snd p < snd q + the (pd_count (pg s q))
     | _ \<Rightarrow> False)"

definition popped_for_seg :: "PageOrg \<Rightarrow> SegmentId \<Rightarrow> bool" where
  "popped_for_seg s g = (case popped s of Ready q _ \<Rightarrow> fst q = g | Used q _ \<Rightarrow> fst q = g | VeryUnready sid _ _ _ \<Rightarrow> sid = g | _ \<Rightarrow> False)"

definition is_the_popped :: "SegmentId \<Rightarrow> nat \<Rightarrow> Popped \<Rightarrow> bool" where
  "is_the_popped g i q = (case q of Ready p _ \<Rightarrow> fst p = g \<and> snd p = i | Used p _ \<Rightarrow> fst p = g \<and> snd p = i
     | VeryUnready sid j _ _ \<Rightarrow> sid = g \<and> j = i | _ \<Rightarrow> False)"

definition popped_len :: "PageOrg \<Rightarrow> nat" where
  "popped_len s = (case popped s of Ready p _ \<Rightarrow> the (pd_count (pg s p)) | Used p _ \<Rightarrow> the (pd_count (pg s p))
     | VeryUnready _ _ c _ \<Rightarrow> c | _ \<Rightarrow> undefined)"

text \<open>The condition under which a page header is where its data says: it is not, or not in, the span that is out.\<close>

definition settled :: "PageOrg \<Rightarrow> page_id \<Rightarrow> bool" where
  "settled s p = (case popped s of No \<Rightarrow> True | ExtraCount _ \<Rightarrow> True | SegmentFreeing _ _ \<Rightarrow> True
     | Ready _ _ \<Rightarrow> \<not> in_popped_range s p | VeryUnready _ _ _ _ \<Rightarrow> \<not> in_popped_range s p
     | Used q _ \<Rightarrow> p \<noteq> q | SegmentCreating _ \<Rightarrow> False)"


section \<open>The shape of a span\<close>

text \<open>The pages of a range, each with its distance from the start.\<close>

definition in_range :: "page_id \<Rightarrow> nat \<Rightarrow> page_id \<Rightarrow> bool" where
  "in_range p c q \<longleftrightarrow> fst q = fst p \<and> snd p \<le> snd q \<and> snd q < snd p + c"

definition good_range_very_unready :: "PageOrg \<Rightarrow> page_id \<Rightarrow> bool" where
  "good_range_very_unready s p \<longleftrightarrow> opages s p \<noteq> None \<and> pd_offset (pg s p) = None \<and> pd_count (pg s p) = None
     \<and> (case popped s of VeryUnready _ _ c _ \<Rightarrow> snd p + c \<le> unat SLICES_PER_SEGMENT
         \<and> (\<forall>q. in_range p c q \<longrightarrow> opages s q \<noteq> None \<and> \<not> pd_used (pg s q) \<and> pd_full (pg s q) = None \<and> pd_kind (pg s q) = None
              \<and> pd_count (pg s q) = None \<and> pd_dlist (pg s q) = None \<and> pd_offset (pg s q) = None)
       | _ \<Rightarrow> False)"

definition good_range0 :: "PageOrg \<Rightarrow> SegmentId \<Rightarrow> bool" where
  "good_range0 s g = (let p = (g, 0) in opages s p \<noteq> None \<and> pd_offset (pg s p) = Some 0 \<and> pd_count (pg s p) \<noteq> None
     \<and> (let c = the (pd_count (pg s p)) in snd p + c \<le> unat SLICES_PER_SEGMENT
         \<and> (\<forall>q. in_range p c q \<longrightarrow> opages s q \<noteq> None \<and> \<not> pd_used (pg s q) \<and> pd_full (pg s q) = None \<and> pd_kind (pg s q) = None
              \<and> (pd_count (pg s q) \<noteq> None \<longleftrightarrow> q = p) \<and> pd_dlist (pg s q) = None \<and> pd_offset (pg s q) = Some (snd q - snd p))))"

definition good_range_unused :: "PageOrg \<Rightarrow> page_id \<Rightarrow> bool" where
  "good_range_unused s p \<longleftrightarrow> opages s p \<noteq> None \<and> pd_offset (pg s p) = Some 0 \<and> pd_count (pg s p) \<noteq> None
     \<and> (let c = the (pd_count (pg s p)) in snd p + c \<le> unat SLICES_PER_SEGMENT
         \<and> (\<forall>q. in_range p c q \<longrightarrow> opages s q \<noteq> None \<and> \<not> pd_used (pg s q) \<and> pd_full (pg s q) = None \<and> pd_kind (pg s q) = None
              \<and> (pd_count (pg s q) \<noteq> None \<longleftrightarrow> q = p) \<and> (pd_dlist (pg s q) \<noteq> None \<longleftrightarrow> q = p)
              \<and> pd_offset (pg s q) = (if q = p \<or> q = (fst p, snd p + c - 1) then Some (snd q - snd p) else None)))"

definition good_range_ready :: "PageOrg \<Rightarrow> page_id \<Rightarrow> bool" where
  "good_range_ready s p \<longleftrightarrow> opages s p \<noteq> None \<and> pd_offset (pg s p) = Some 0 \<and> pd_count (pg s p) \<noteq> None
     \<and> (let c = the (pd_count (pg s p)) in snd p + c \<le> unat SLICES_PER_SEGMENT
         \<and> (\<forall>q. in_range p c q \<longrightarrow> opages s q \<noteq> None \<and> \<not> pd_used (pg s q) \<and> pd_full (pg s q) = None \<and> pd_kind (pg s q) = None
              \<and> (pd_count (pg s q) \<noteq> None \<longleftrightarrow> q = p) \<and> pd_dlist (pg s q) = None \<and> pd_offset (pg s q) = Some (snd q - snd p)))"

definition good_range_used :: "PageOrg \<Rightarrow> page_id \<Rightarrow> bool" where
  "good_range_used s p \<longleftrightarrow> opages s p \<noteq> None \<and> pd_offset (pg s p) = Some 0 \<and> pd_count (pg s p) \<noteq> None
     \<and> (let c = the (pd_count (pg s p)) in snd p + c \<le> unat SLICES_PER_SEGMENT
         \<and> (\<forall>q. in_range p c q \<longrightarrow> opages s q \<noteq> None \<and> pd_used (pg s q) \<and> pd_offset (pg s q) = Some (snd q - snd p)
              \<and> (pd_kind (pg s q) \<noteq> None \<longleftrightarrow> q = p) \<and> (q \<noteq> p \<longrightarrow> pd_dlist (pg s q) = None) \<and> (q \<noteq> p \<longrightarrow> pd_full (pg s q) = None)))"

text \<open>From a slice on, one span follows the other to the end of the segment; \<open>sp\<close> says whether the span that is out is among them.\<close>

declare conj_cong [fundef_cong]

function attached_rec :: "PageOrg \<Rightarrow> SegmentId \<Rightarrow> nat \<Rightarrow> bool \<Rightarrow> bool" where
  "attached_rec s g i sp = (if i = unat SLICES_PER_SEGMENT then \<not> sp
     else if i > unat SLICES_PER_SEGMENT then False
     else if is_the_popped g i (popped s) then
       sp \<and> popped_len s > 0 \<and> i + popped_len s \<le> unat SLICES_PER_SEGMENT \<and> attached_rec s g (i + popped_len s) False
     else let p = (g, i); c = the (pd_count (pg s p)) in
       (pd_used (pg s p) \<longrightarrow> good_range_used s p) \<and> (\<not> pd_used (pg s p) \<longrightarrow> good_range_unused s p)
       \<and> c > 0 \<and> i + c \<le> unat SLICES_PER_SEGMENT \<and> attached_rec s g (i + c) sp)"
  by pat_completeness auto
termination
  by (relation "measure (\<lambda>(s, g, i, sp). unat SLICES_PER_SEGMENT - i)") auto

declare attached_rec.simps [simp del]

definition attached_rec0 :: "PageOrg \<Rightarrow> SegmentId \<Rightarrow> bool \<Rightarrow> bool" where
  "attached_rec0 s g sp \<longleftrightarrow> good_range0 s g \<and> attached_rec s g (the (pd_count (pg s (g, 0)))) sp"

definition attached_ranges_segment :: "PageOrg \<Rightarrow> SegmentId \<Rightarrow> bool" where
  "attached_ranges_segment s g = (case popped s of
       SegmentCreating sid \<Rightarrow> if sid = g then True else attached_rec0 s g (popped_for_seg s g)
     | SegmentFreeing sid i \<Rightarrow> if sid = g \<and> i > 0 then attached_rec s g i False else attached_rec0 s g (popped_for_seg s g)
     | _ \<Rightarrow> attached_rec0 s g (popped_for_seg s g))"

definition seg_free_prefix :: "PageOrg \<Rightarrow> SegmentId \<Rightarrow> nat \<Rightarrow> bool" where
  "seg_free_prefix s g i \<longleftrightarrow> (\<forall>j<i. opages s (g, j) \<noteq> None \<and> pd_dlist (pg s (g, j)) = None \<and> pd_count (pg s (g, j)) = None
     \<and> pd_offset (pg s (g, j)) = None \<and> \<not> pd_used (pg s (g, j)) \<and> pd_full (pg s (g, j)) = None \<and> pd_kind (pg s (g, j)) = None)"

text \<open>The pages in use of a segment, counted up to an index.\<close>

definition does_count :: "PageOrg \<Rightarrow> page_id \<Rightarrow> bool" where
  "does_count s p \<longleftrightarrow> opages s p \<noteq> None \<and> snd p \<noteq> 0 \<and> pd_used (pg s p) \<and> pd_offset (pg s p) = Some 0"

definition one_count :: "PageOrg \<Rightarrow> page_id \<Rightarrow> nat" where
  "one_count s p = (if does_count s p then 1 else 0)"

fun ucount_sum :: "PageOrg \<Rightarrow> SegmentId \<Rightarrow> nat \<Rightarrow> nat" where
  "ucount_sum s g 0 = 0"
| "ucount_sum s g (Suc i) = ucount_sum s g i + one_count s (g, i)"

definition ucount :: "PageOrg \<Rightarrow> SegmentId \<Rightarrow> nat" where
  "ucount s g = ucount_sum s g (unat SLICES_PER_SEGMENT)"



section \<open>The declared invariants\<close>

definition ll_basics :: "PageOrg \<Rightarrow> bool" where
  "ll_basics s \<longleftrightarrow> length (unused_dlist_headers s) = unat SEGMENT_BIN_MAX + 1 \<and> length (unused_lists s) = unat SEGMENT_BIN_MAX + 1
     \<and> length (used_dlist_headers s) = unat BIN_FULL + 1 \<and> length (used_lists s) = unat BIN_FULL + 1"

definition page_id_domain :: "PageOrg \<Rightarrow> bool" where
  "page_id_domain s \<longleftrightarrow> (\<forall>p. opages s p \<noteq> None \<longleftrightarrow> osegments s (fst p) \<noteq> None \<and> snd p \<le> unat SLICES_PER_SEGMENT)"

definition segments_nonzero :: "PageOrg \<Rightarrow> bool" where
  "segments_nonzero s \<longleftrightarrow> (\<forall>g. osegments s g \<noteq> None \<longrightarrow> segment_start (seg_nr g) \<noteq> 0)"

definition count_off0 :: "PageOrg \<Rightarrow> bool" where
  "count_off0 s \<longleftrightarrow> (\<forall>p. opages s p \<noteq> None \<and> pd_count (pg s p) \<noteq> None \<longrightarrow>
     1 \<le> the (pd_count (pg s p)) \<and> snd p + the (pd_count (pg s p)) \<le> unat SLICES_PER_SEGMENT)"

definition end_is_unused :: "PageOrg \<Rightarrow> bool" where
  "end_is_unused s \<longleftrightarrow> (\<forall>g. osegments s g \<noteq> None
     \<and> \<not> (case popped s of SegmentCreating sid \<Rightarrow> sid = g | SegmentFreeing sid _ \<Rightarrow> sid = g | _ \<Rightarrow> False)
     \<and> the (osegments s g) = ec_of_popped (popped s) g \<longrightarrow>
       opages s (g, 0) \<noteq> None \<and> pd_offset (pg s (g, 0)) = Some 0 \<and> \<not> pd_used (pg s (g, 0)) \<and> pd_count (pg s (g, 0)) \<noteq> None)"

definition count_is_right :: "PageOrg \<Rightarrow> bool" where
  "count_is_right s \<longleftrightarrow> (\<forall>g. osegments s g \<noteq> None \<longrightarrow> the (osegments s g) = int (ucount s g) + ec_of_popped (popped s) g)"

definition popped_basics :: "PageOrg \<Rightarrow> bool" where
  "popped_basics s = (let page_out = (\<lambda>p. osegments s (fst p) \<noteq> None \<and> opages s p \<noteq> None \<and> snd p \<noteq> 0 \<and> pd_offset (pg s p) = Some 0
         \<and> pd_count (pg s p) \<noteq> None \<and> 1 \<le> the (pd_count (pg s p)) \<and> snd p + the (pd_count (pg s p)) \<le> unat SLICES_PER_SEGMENT)
     in case popped s of No \<Rightarrow> True | Ready p _ \<Rightarrow> page_out p | Used p _ \<Rightarrow> page_out p
     | SegmentCreating g \<Rightarrow> osegments s g \<noteq> None
     | VeryUnready g i c _ \<Rightarrow> osegments s g \<noteq> None \<and> 0 < i \<and> 0 < c \<and> i + c \<le> unat SLICES_PER_SEGMENT
     | SegmentFreeing g i \<Rightarrow> osegments s g \<noteq> None \<and> i \<le> unat SLICES_PER_SEGMENT
     | ExtraCount g \<Rightarrow> osegments s g \<noteq> None)"

text \<open>The data of a page header in use, and the queue it is in.\<close>

definition header_data :: "PageOrg \<Rightarrow> page_id \<Rightarrow> bool" where
  "header_data s p \<longleftrightarrow> pd_dlist (pg s p) \<noteq> None \<and> pd_full (pg s p) \<noteq> None
     \<and> (case pd_kind (pg s p) of Some (NormalPage b n) \<Rightarrow> valid_bin_idx b \<and> n = int (size_of_bin b)
          \<and> b = smallest_bin_fitting_size n \<and> n \<le> uint MEDIUM_OBJ_SIZE_MAX | None \<Rightarrow> False)"

definition header_queue :: "PageOrg \<Rightarrow> page_id \<Rightarrow> bool" where
  "header_queue s p \<longleftrightarrow> (pd_full (pg s p) \<noteq> Some False \<longrightarrow> is_in_list_at p (used_lists s) (int (unat BIN_FULL)))
     \<and> (pd_full (pg s p) \<noteq> Some True \<longrightarrow>
          (case pd_kind (pg s p) of Some (NormalPage b n) \<Rightarrow> is_in_list_at p (used_lists s) b | None \<Rightarrow> False))"

definition data_for_used_header :: "PageOrg \<Rightarrow> bool" where
  "data_for_used_header s \<longleftrightarrow> (\<forall>p. opages s p \<noteq> None \<and> settled s p \<and> pd_used (pg s p) \<and> pd_offset (pg s p) = Some 0 \<longrightarrow> header_data s p)"

definition inv_segment_creating :: "PageOrg \<Rightarrow> bool" where
  "inv_segment_creating s = (case popped s of SegmentCreating g \<Rightarrow> osegments s g = Some 0
       \<and> (\<forall>i\<le>unat SLICES_PER_SEGMENT. opages s (g, i) = Some blank_page)
       \<and> (\<forall>p. opages s p \<noteq> None \<and> fst p \<noteq> g \<and> pd_used (pg s p) \<and> pd_offset (pg s p) = Some 0 \<longrightarrow> header_data s p \<and> header_queue s p)
       \<and> (\<forall>p. opages s p \<noteq> None \<and> fst p \<noteq> g \<and> pd_offset (pg s p) = Some 0 \<and> \<not> pd_used (pg s p) \<and> snd p \<noteq> 0
            \<longrightarrow> pd_count (pg s p) \<noteq> None \<and> is_in_lls p (unused_lists s))
     | _ \<Rightarrow> True)"

definition inv_very_unready :: "PageOrg \<Rightarrow> bool" where
  "inv_very_unready s = (case popped s of VeryUnready g i c _ \<Rightarrow>
     0 < i \<and> 0 < c \<and> i + c \<le> unat SLICES_PER_SEGMENT \<and> good_range_very_unready s (g, i) | _ \<Rightarrow> True)"

definition inv_segment_freeing :: "PageOrg \<Rightarrow> bool" where
  "inv_segment_freeing s = (case popped s of SegmentFreeing g i \<Rightarrow> osegments s g = Some 0 \<and> 0 < i \<and> i \<le> unat SLICES_PER_SEGMENT
     \<and> seg_free_prefix s g i \<and> (i < unat SLICES_PER_SEGMENT \<longrightarrow> attached_rec s g i False) | _ \<Rightarrow> True)"

definition inv_ready :: "PageOrg \<Rightarrow> bool" where
  "inv_ready s = (case popped s of Ready p _ \<Rightarrow> good_range_ready s p \<and> pd_dlist (pg s p) = None \<and> pd_full (pg s p) = None
     \<and> pd_kind (pg s p) = None | _ \<Rightarrow> True)"

definition inv_used :: "PageOrg \<Rightarrow> bool" where
  "inv_used s = (case popped s of Used p _ \<Rightarrow> good_range_used s p \<and> pd_dlist (pg s p) = None \<and> pd_full (pg s p) = None | _ \<Rightarrow> True)"

definition ready_popped_not_in_unused_lists :: "PageOrg \<Rightarrow> bool" where
  "ready_popped_not_in_unused_lists s = (case popped s of Ready p _ \<Rightarrow>
     (\<forall>i<length (unused_lists s). \<forall>j<length (unused_lists s ! i). unused_lists s ! i ! j \<noteq> p) | _ \<Rightarrow> True)"

definition ll_inv_valid_unused :: "PageOrg \<Rightarrow> bool" where
  "ll_inv_valid_unused s \<longleftrightarrow> (\<forall>i<length (unused_lists s). valid_ll (opages s) (unused_dlist_headers s ! i) (unused_lists s ! i))
     \<and> (\<forall>i<length (unused_lists s). \<forall>j<length (unused_lists s ! i). let p = unused_lists s ! i ! j in
          i \<le> unat SEGMENT_BIN_MAX \<and> opages s p \<noteq> None \<and> snd p \<noteq> 0 \<and> \<not> pd_used (pg s p)
          \<and> (case pd_count (pg s p) of Some c \<Rightarrow> 1 \<le> c \<and> c \<le> unat SLICES_PER_SEGMENT | None \<Rightarrow> False)
          \<and> pd_offset (pg s p) = Some 0 \<and> pd_dlist (pg s p) \<noteq> None \<and> valid_unused_page s p i j
          \<and> int i = smallest_sbin_fitting_size (int (the (pd_count (pg s p)))))"

definition ll_inv_valid_used :: "PageOrg \<Rightarrow> bool" where
  "ll_inv_valid_used s \<longleftrightarrow> (\<forall>i<length (used_lists s). valid_ll (opages s) (used_dlist_headers s ! i) (used_lists s ! i))
     \<and> (\<forall>i<length (used_lists s). \<forall>j<length (used_lists s ! i). let p = used_lists s ! i ! j in
          (valid_bin_idx (int i) \<or> i = unat BIN_FULL) \<and> valid_used_page s p i j \<and> pd_count (pg s p) \<noteq> None
          \<and> pd_full (pg s p) = Some (i = unat BIN_FULL) \<and> (case popped s of Ready q _ \<Rightarrow> p \<noteq> q | _ \<Rightarrow> True))"

definition ll_inv_valid_used2 :: "PageOrg \<Rightarrow> bool" where
  "ll_inv_valid_used2 s \<longleftrightarrow> (\<forall>p. opages s p \<noteq> None \<and> settled s p \<and> pd_used (pg s p) \<and> pd_offset (pg s p) = Some 0 \<longrightarrow> header_queue s p)"

definition ll_inv_exists_in_some_list :: "PageOrg \<Rightarrow> bool" where
  "ll_inv_exists_in_some_list s \<longleftrightarrow> (\<forall>p. opages s p \<noteq> None \<and> (case popped s of SegmentCreating _ \<Rightarrow> False | _ \<Rightarrow> True)
       \<and> \<not> in_popped_range s p \<and> pd_offset (pg s p) = Some 0 \<and> \<not> pd_used (pg s p) \<and> snd p \<noteq> 0
       \<longrightarrow> pd_count (pg s p) \<noteq> None \<and> is_in_lls p (unused_lists s))
     \<and> (\<forall>i<length (unused_lists s). \<forall>j<length (unused_lists s ! i).
          int i = smallest_sbin_fitting_size (int (the (pd_count (pg s (unused_lists s ! i ! j))))))"

definition attached_ranges :: "PageOrg \<Rightarrow> bool" where
  "attached_ranges s \<longleftrightarrow> (\<forall>g. osegments s g \<noteq> None \<longrightarrow> attached_ranges_segment s g)"

definition page_org_invariant :: "PageOrg \<Rightarrow> bool" where
  "page_org_invariant s \<longleftrightarrow> ll_basics s \<and> page_id_domain s \<and> segments_nonzero s \<and> count_off0 s \<and> end_is_unused s
     \<and> count_is_right s \<and> popped_basics s \<and> data_for_used_header s \<and> inv_segment_creating s \<and> inv_very_unready s
     \<and> inv_segment_freeing s \<and> inv_ready s \<and> inv_used s \<and> ready_popped_not_in_unused_lists s
     \<and> ll_inv_valid_unused s \<and> ll_inv_valid_used s \<and> ll_inv_valid_used2 s \<and> ll_inv_exists_in_some_list s \<and> attached_ranges s"

end
