(* ===== verification/Page_Org_Steps.thy ===== *)
theory Page_Org_Steps
  imports Page_Org_Inv
begin

text \<open>
  Every transition of \<^verbatim>\<open>PageOrg\<close> keeps the invariant, and every fact it claims holds. One lemma for each
  transition; those that take a span out of a queue or put one in share the lemmas of the first two sections.
\<close>

section \<open>Spans in queues\<close>

lemma slices_const: "unat SLICES_PER_SEGMENT = 512" "unat SEGMENT_BIN_MAX = 31" "unat BIN_FULL = 74" "uint SLICES_PER_SEGMENT = 512"
    "uint MEDIUM_OBJ_SIZE_MAX = 131072"
  by (simp_all add: layout_consts)

lemma nbr_free:
  assumes inv: "org_map s M" and q: "\<And>x. q = Some x \<Longrightarrow> free_queue M x \<noteq> None"
  shows "nbr_ok s False q"
proof (cases q)
  case (Some x)
  obtain h j where x: "x = (h, j)" by (cases x)
  obtain b where b: "free_queue M x = Some b" using q [OF Some] by blast
  then obtain c where c: "M (h, j) = Some (c, KFree)" unfolding x by (rule queued_spanE)
  obtain e where "link (opages s) (h, j) = Some e" using queues_entry [OF org_mapD(9) [OF inv] b] x by blast
  then show ?thesis using span_page0 [OF inv c] by (simp add: nbr_ok_def Some x cell_def)
qed (simp add: nbr_ok_def)

lemma nbr_page:
  assumes inv: "org_map s M" and q: "\<And>x. q = Some x \<Longrightarrow> page_queue M x \<noteq> None"
  shows "nbr_ok s True q"
proof (cases q)
  case (Some x)
  obtain h j where x: "x = (h, j)" by (cases x)
  obtain b where b: "page_queue M x = Some b" using q [OF Some] by blast
  then obtain c hk f where c: "M (h, j) = Some (c, KQueued hk f)" unfolding x by (rule paged_spanE)
  obtain e where "link (opages s) (h, j) = Some e" using queues_entry [OF org_mapD(10) [OF inv] b] x by blast
  then show ?thesis using span_page0 [OF inv c] by (simp add: nbr_ok_def Some x cell_def)
qed (simp add: nbr_ok_def)

lemma free_facts:
  assumes inv: "org_map s M" and m: "M (g, i) = Some (c, KFree)"
  obtains e where "link (opages s) (g, i) = Some e"
    "opages s (g, i) = Some (pg s (g, i))" "pg s (g, i) = (cell KFree c 0)\<lparr>pd_dlist := Some e\<rparr>"
    "opages s (g, i + c - 1) = Some (pg s (g, i + c - 1))"
    "pg s (g, i + c - 1) = (cell KFree c (c - 1))\<lparr>pd_dlist := if c = 1 then Some e else None\<rparr>"
    "nbr_ok s False (de_prev e)" "nbr_ok s False (de_next e)" "de_prev e \<noteq> Some (g, i)" "de_next e \<noteq> Some (g, i)"
    "de_prev e \<noteq> Some (g, i + c - 1)" "de_next e \<noteq> Some (g, i + c - 1)" "de_prev e \<noteq> None \<longrightarrow> de_prev e \<noteq> de_next e"
proof -
  note D = org_mapD [OF inv] and f = span_facts [OF inv m]
  have K: "free_queue M (g, i) = Some (sbin_of c)" using m by (simp add: free_queue_def)
  obtain e where e: "link (opages s) (g, i) = Some e" using queues_entry [OF D(9) K] by blast
  note n = queue_neighbours [OF D(9) K e]
  have l: "i + (c - 1) = i + c - 1" using f(3) by simp
  have lk: "link (opages s) (g, i + c - 1) = (if c = 1 then Some e else None)"
    using span_link_None [OF inv m, of "i + c - 1"] e f(3) by simp
  have far: "free_queue M (g, i + c - 1) = None" if "c \<noteq> 1"
    using tiled_inside [OF f(1) m, of "i + c - 1"] f(3) that by (simp add: free_queue_def)
  have last: "q \<noteq> Some (g, i + c - 1)" if "\<And>x. q = Some x \<Longrightarrow> free_queue M x = Some (sbin_of c) \<and> x \<noteq> (g, i)" for q
    using that [of "(g, i + c - 1)"] far f(3) by (cases "c = 1") auto
  show ?thesis
  proof (rule that [OF e])
    show "opages s (g, i) = Some (pg s (g, i))" "pg s (g, i) = (cell KFree c 0)\<lparr>pd_dlist := Some e\<rparr>"
      using span_page0 [OF inv m] e by simp_all
    show "opages s (g, i + c - 1) = Some (pg s (g, i + c - 1))"
      "pg s (g, i + c - 1) = (cell KFree c (c - 1))\<lparr>pd_dlist := if c = 1 then Some e else None\<rparr>"
      using span_page [OF inv m, of "c - 1"] f(3) lk unfolding l by simp_all
    show "nbr_ok s False (de_prev e)" using n(1) by (intro nbr_free [OF inv]) blast
    show "nbr_ok s False (de_next e)" using n(2) by (intro nbr_free [OF inv]) blast
    show "de_prev e \<noteq> Some (g, i + c - 1)" by (rule last) (use n(1) in blast)
    show "de_next e \<noteq> Some (g, i + c - 1)" by (rule last) (use n(2) in blast)
  qed (use n in blast)+
qed

text \<open>The two writes that take a span out of its queue.\<close>

lemma relink_upd: "pv \<noteq> Some p \<Longrightarrow> nx \<noteq> Some p \<Longrightarrow> relink (E(p := v)) pv nx = (relink E pv nx)(p := v)"
  by (auto simp: relink_def put_next_def put_prev_def fun_eq_iff split: option.splits)

lemma pop_writes:
  assumes n: "nbr_ok s u pv" "nbr_ok s u nx" and P: "\<And>x. pv = Some x \<or> nx = Some x \<Longrightarrow> P x = opages s x"
    and d: "pv \<noteq> None \<longrightarrow> pv \<noteq> nx"
  shows "link (write_prev s nx pv (write_next s pv nx P)) = relink (link P) pv nx"
    "core (write_prev s nx pv (write_next s pv nx P)) = core P"
proof -
  let ?Q = "write_next s pv nx P"
  have Q: "link ?Q = put_next pv nx (link P)" "core ?Q = core P" using write_links [OF n(1), of P nx] P by blast+
  have "?Q x = opages s x" if "nx = Some x" for x
  proof -
    have "pv \<noteq> Some x" using d that by (cases pv) simp_all
    moreover have "P x = opages s x" using P that by blast
    ultimately show ?thesis by (simp add: write_next_other)
  qed
  then show "link (write_prev s nx pv ?Q) = relink (link P) pv nx" "core (write_prev s nx pv ?Q) = core P"
    using write_links [OF n(2), of ?Q pv] Q by (simp_all add: relink_def)
qed

lemma blank_no_links [simp]: "blank_page\<lparr>pd_dlist := None\<rparr> = blank_page"
  by (simp add: blank_page_def)

text \<open>The pages after a free span has left its queue, in the two orders of writes that occur.\<close>

lemma free_popped:
  assumes inv: "org_map s M" and m: "M (g, i) = Some (c, KFree)"
    and e: "link (opages s) (g, i) = Some e" and l: "l = (g, i + c - 1)"
    and A: "A = (pg s (g, i))\<lparr>pd_dlist := None, pd_count := None, pd_offset := None\<rparr>"
  defines "W P \<equiv> write_prev s (de_next e) (de_prev e) (write_next s (de_prev e) (de_next e) P)"
  shows "core (if l \<noteq> (g, i) then (W ((opages s)((g, i) \<mapsto> A)))(l \<mapsto> (pg s l)\<lparr>pd_offset := None\<rparr>) else W ((opages s)((g, i) \<mapsto> A)))
      = (core (opages s))((g, i) \<mapsto> blank_page, l \<mapsto> blank_page)"
    and "link (if l \<noteq> (g, i) then (W ((opages s)((g, i) \<mapsto> A)))(l \<mapsto> (pg s l)\<lparr>pd_offset := None\<rparr>) else W ((opages s)((g, i) \<mapsto> A)))
      = (relink (link (opages s)) (de_prev e) (de_next e))((g, i) := None)"
    and "core (W ((opages s)((g, i) \<mapsto> A, l \<mapsto> (pg s l)\<lparr>pd_offset := None, pd_count := None, pd_dlist := None\<rparr>)))
      = (core (opages s))((g, i) \<mapsto> blank_page, l \<mapsto> blank_page)"
    and "link (W ((opages s)((g, i) \<mapsto> A, l \<mapsto> (pg s l)\<lparr>pd_offset := None, pd_count := None, pd_dlist := None\<rparr>)))
      = (relink (link (opages s)) (de_prev e) (de_next e))((g, i) := None)"
proof -
  obtain e' where F: "link (opages s) (g, i) = Some e'"
    "opages s (g, i) = Some (pg s (g, i))" "pg s (g, i) = (cell KFree c 0)\<lparr>pd_dlist := Some e'\<rparr>"
    "opages s (g, i + c - 1) = Some (pg s (g, i + c - 1))"
    "pg s (g, i + c - 1) = (cell KFree c (c - 1))\<lparr>pd_dlist := if c = 1 then Some e' else None\<rparr>"
    "nbr_ok s False (de_prev e')" "nbr_ok s False (de_next e')" "de_prev e' \<noteq> Some (g, i)" "de_next e' \<noteq> Some (g, i)"
    "de_prev e' \<noteq> Some (g, i + c - 1)" "de_next e' \<noteq> Some (g, i + c - 1)" "de_prev e' \<noteq> None \<longrightarrow> de_prev e' \<noteq> de_next e'"
    by (rule free_facts [OF inv m])
  have ee: "e' = e" using F(1) e by simp
  have c: "0 < c" by (rule span_facts(3) [OF inv m])
  have l1: "l = (g, i) \<longleftrightarrow> c = 1" using c by (auto simp: l)
  have bA: "A\<lparr>pd_dlist := None\<rparr> = blank_page" unfolding A F(3) by (simp add: cell_def blank_page_def)
  have bl: "(pg s l)\<lparr>pd_offset := None, pd_dlist := None\<rparr> = blank_page" if "c \<noteq> 1"
    using c that unfolding l F(5) by (simp add: cell_def blank_page_def)
  have bl2: "(pg s l)\<lparr>pd_offset := None, pd_count := None, pd_dlist := None\<rparr> = blank_page"
    unfolding l F(5) by (simp add: cell_def blank_page_def)
  have dA: "pd_dlist A = None" by (simp add: A)
  have lk: "link (opages s) l = None" if "c \<noteq> 1" using F(4,5) that by (simp add: link_def l)
  have dl: "pd_dlist (pg s l) = None" if "c \<noteq> 1" using F(5) that by (simp add: l)
  have n: "nbr_ok s False (de_prev e)" "nbr_ok s False (de_next e)" "de_prev e \<noteq> None \<longrightarrow> de_prev e \<noteq> de_next e"
    "de_prev e \<noteq> Some (g, i)" "de_next e \<noteq> Some (g, i)" "de_prev e \<noteq> Some l" "de_next e \<noteq> Some l"
    using F(6-12) unfolding ee l by blast+
  let ?P1 = "(opages s)((g, i) \<mapsto> A)"
  let ?P2 = "(opages s)((g, i) \<mapsto> A, l \<mapsto> (pg s l)\<lparr>pd_offset := None, pd_count := None, pd_dlist := None\<rparr>)"
  have W1: "link (W ?P1) = relink (link ?P1) (de_prev e) (de_next e)" "core (W ?P1) = core ?P1"
    unfolding W_def by (rule pop_writes [OF n(1,2) _ n(3)]; use n(4,5) in auto)+
  have W2: "link (W ?P2) = relink (link ?P2) (de_prev e) (de_next e)" "core (W ?P2) = core ?P2"
    unfolding W_def by (rule pop_writes [OF n(1,2) _ n(3)]; use n(4-7) in auto)+
  have 1: "link ?P1 = (link (opages s))((g, i) := None)" by (simp add: dA)
  have 2: "link ?P2 = (link (opages s))((g, i) := None)"
    using lk l1 by (cases "c = 1") (auto simp: dA fun_eq_iff)
  have r: "relink ((link (opages s))((g, i) := None)) (de_prev e) (de_next e) = (relink (link (opages s)) (de_prev e) (de_next e))((g, i) := None)"
    by (rule relink_upd [OF n(4,5)])
  have rl: "relink (link (opages s)) (de_prev e) (de_next e) l = None" if "c \<noteq> 1" using lk [OF that] by simp
  show "core (W ?P2) = (core (opages s))((g, i) \<mapsto> blank_page, l \<mapsto> blank_page)"
    unfolding W2(2) by (simp add: bA bl2)
  show "link (W ?P2) = (relink (link (opages s)) (de_prev e) (de_next e))((g, i) := None)"
    unfolding W2(1) 2 by (rule r)
  show "core (if l \<noteq> (g, i) then (W ?P1)(l \<mapsto> (pg s l)\<lparr>pd_offset := None\<rparr>) else W ?P1)
      = (core (opages s))((g, i) \<mapsto> blank_page, l \<mapsto> blank_page)"
    using l1 bl W1(2) bA by (cases "c = 1") simp_all
  show "link (if l \<noteq> (g, i) then (W ?P1)(l \<mapsto> (pg s l)\<lparr>pd_offset := None\<rparr>) else W ?P1)
      = (relink (link (opages s)) (de_prev e) (de_next e))((g, i) := None)"
  proof (cases "c = 1")
    case False
    have "((relink (link (opages s)) (de_prev e) (de_next e))((g, i) := None)) l = None" using rl [OF False] by simp
    then show ?thesis using False l1 dl [OF False] W1(1) r unfolding 1 by (simp add: fun_upd_idem)
  qed (use l1 W1(1) r in \<open>simp add: 1 dA\<close>)
qed

text \<open>The span of a position in a queue.\<close>

lemma valid_unused_span:
  assumes inv: "org_map s M" and v: "valid_unused_page s (g, i) b j"
  obtains c where "M (g, i) = Some (c, KFree)" "sbin_of c = b" "j < length (unused_lists s ! b)" "unused_lists s ! b ! j = (g, i)"
proof -
  have j: "b < 32" "j < length (unused_lists s ! b)" "unused_lists s ! b ! j = (g, i)"
    using v by (auto simp: valid_unused_page_def slices_const)
  then have "(g, i) \<in> set (unused_lists s ! b)" by (metis nth_mem)
  then have "free_queue M (g, i) = Some b" using queues_areD(8) [OF org_mapD(9) [OF inv] j(1)] by simp
  then show ?thesis by (rule queued_spanE) (use j that in blast)
qed

lemma valid_used_span:
  assumes inv: "org_map s M" and v: "valid_used_page s (g, i) b j"
  obtains c hk f where "M (g, i) = Some (c, KQueued hk f)" "page_bin (KQueued hk f) = Some b" "b < 75"
    "j < length (used_lists s ! b)" "used_lists s ! b ! j = (g, i)"
proof -
  have j: "b < 75" "j < length (used_lists s ! b)" "used_lists s ! b ! j = (g, i)"
    using v by (auto simp: valid_used_page_def slices_const valid_bin_idx_def)
  then have "(g, i) \<in> set (used_lists s ! b)" by (metis nth_mem)
  then have "page_queue M (g, i) = Some b" using queues_areD(8) [OF org_mapD(10) [OF inv] j(1)] by simp
  then show ?thesis by (rule paged_spanE) (use j that in blast)
qed


section \<open>Taking a span out of its queue\<close>

abbreviation keeps :: "PageOrg step_res \<Rightarrow> bool" where
  "keeps r \<equiv> holds r (\<lambda>s'. \<exists>M'. org_ok s' M')"

lemma org_okD:
  assumes "org_ok s M"
  shows "org_map s M" "out_ok (popped s) M (osegments s)" "counts (osegments s) M (popped s)"
  using assms unfolding org_ok_def by blast+

lemma org_okI: "org_map s' M' \<Longrightarrow> out_ok (popped s') M' (osegments s') \<Longrightarrow> counts (osegments s') M' (popped s') \<Longrightarrow> \<exists>M'. org_ok s' M'"
  unfolding org_ok_def by blast

lemma cell_fields:
  "pd_count (cell KFree c 0) = Some c" "pd_used (cell KFree c m) = False" "pd_kind (cell KFree c m) = None"
  by (simp_all add: cell_def)

text \<open>Spans that are not pages come and go without a change in the count.\<close>

lemma pages_in_quiet: "\<forall>c k. M (g, i) = Some (c, k) \<longrightarrow> \<not> is_page k \<Longrightarrow> \<not> is_page k' \<Longrightarrow> pages_in (M((g, i) \<mapsto> (c', k'))) h = pages_in M h"
  by (auto simp: pages_in_def)

lemma pages_in_drop: "\<forall>c k. M (g, i) = Some (c, k) \<longrightarrow> \<not> is_page k \<Longrightarrow> pages_in (M((g, i) := None)) h = pages_in M h"
  by (auto simp: pages_in_def)

text \<open>The new header of a queue as the two transitions that pop write it.\<close>

lemma header_pop:
  fixes h :: "'p DlistHeader"
  shows "dh_first (if pv = None \<and> nx = None then \<lparr>dh_first = nx, dh_last = pv\<rparr> else if pv = None then h\<lparr>dh_first := nx\<rparr>
      else if nx = None then h\<lparr>dh_last := pv\<rparr> else h) = (if pv = None then nx else dh_first h)"
    "dh_last (if pv = None \<and> nx = None then \<lparr>dh_first = nx, dh_last = pv\<rparr> else if pv = None then h\<lparr>dh_first := nx\<rparr>
      else if nx = None then h\<lparr>dh_last := pv\<rparr> else h) = (if nx = None then pv else dh_last h)"
  by auto

lemma take_keeps:
  assumes ok: "org_ok s M"
  shows "keeps (take_page_from_unused_queue p b j s)"
proof (cases "valid_unused_page s p b j \<and> (popped s = No \<or> popped s = SegmentFreeing (fst p) (snd p))")
  case False
  then show ?thesis by (auto simp: take_page_from_unused_queue_def holds_require)
next
  case True
  obtain g i where p: "p = (g, i)" by (cases p)
  note inv = org_okD(1) [OF ok] and out = org_okD(2) [OF ok] and cnt = org_okD(3) [OF ok]
  obtain c where c: "M (g, i) = Some (c, KFree)" "sbin_of c = b" "j < length (unused_lists s ! b)" "unused_lists s ! b ! j = (g, i)"
    by (rule valid_unused_span [OF inv]) (use True p in blast)
  note f = span_facts [OF inv c(1)]
  obtain e where F: "link (opages s) (g, i) = Some e"
    "opages s (g, i) = Some (pg s (g, i))" "pg s (g, i) = (cell KFree c 0)\<lparr>pd_dlist := Some e\<rparr>"
    "opages s (g, i + c - 1) = Some (pg s (g, i + c - 1))"
    "pg s (g, i + c - 1) = (cell KFree c (c - 1))\<lparr>pd_dlist := if c = 1 then Some e else None\<rparr>"
    "nbr_ok s False (de_prev e)" "nbr_ok s False (de_next e)" "de_prev e \<noteq> Some (g, i)" "de_next e \<noteq> Some (g, i)"
    "de_prev e \<noteq> Some (g, i + c - 1)" "de_next e \<noteq> Some (g, i + c - 1)" "de_prev e \<noteq> None \<longrightarrow> de_prev e \<noteq> de_next e"
    by (rule free_facts [OF inv c(1)])
  let ?l = "(g, i + c - 1)"
  let ?A = "(pg s (g, i))\<lparr>pd_dlist := None, pd_count := None, pd_offset := None\<rparr>"
  have fields: "pd_dlist (pg s (g, i)) = Some e" "pd_count (pg s (g, i)) = Some c" "\<not> pd_used (pg s (g, i))"
    "\<not> pd_used (pg s ?l)" "pd_kind (pg s ?l) = None"
    unfolding F(3,5) by (simp_all add: cell_fields)
  let ?W = "write_prev s (de_next e) (de_prev e) (write_next s (de_prev e) (de_next e) ((opages s)((g, i) \<mapsto> ?A)))"
  define P where "P = (if ?l \<noteq> (g, i) then ?W(?l \<mapsto> (pg s ?l)\<lparr>pd_offset := None\<rparr>) else ?W)"
  define h where "h = (if de_prev e = None \<and> de_next e = None then \<lparr>dh_first = de_next e, dh_last = de_prev e\<rparr>
            else if de_prev e = None then (unused_dlist_headers s ! b)\<lparr>dh_first := de_next e\<rparr>
            else if de_next e = None then (unused_dlist_headers s ! b)\<lparr>dh_last := de_prev e\<rparr> else unused_dlist_headers s ! b)"
  note h = header_pop [of "de_prev e" "de_next e" "unused_dlist_headers s ! b", folded h_def]
  define s' where "s' = s\<lparr>opages := P, unused_dlist_headers := (unused_dlist_headers s)[b := h],
          popped := (case popped s of No \<Rightarrow> VeryUnready g i c False
            | SegmentFreeing sid k \<Rightarrow> SegmentFreeing sid (k + c) | q \<Rightarrow> q),
          unused_lists := (unused_lists s)[b := remove_at j (unused_lists s ! b)]\<rparr>"
  note P = free_popped [OF inv c(1) F(1) refl refl, folded P_def]
  have m': "org_map s' (M((g, i) \<mapsto> (c, KBlank)))"
  proof (rule org_map_pop [OF inv c(1) F(1), where j = j])
    show "core (opages s') = (core (opages s))((g, i) \<mapsto> blank_page, ?l \<mapsto> blank_page)" unfolding s'_def using P(1) by simp
    show "link (opages s') = (relink (link (opages s)) (de_prev e) (de_next e))((g, i) := None)" unfolding s'_def using P(2) by simp
    show "dh_first h = (if de_prev e = None then de_next e else dh_first (unused_dlist_headers s ! sbin_of c))"
      "dh_last h = (if de_next e = None then de_prev e else dh_last (unused_dlist_headers s ! sbin_of c))" unfolding c(2) by (rule h)+
  qed (use c in \<open>simp_all add: s'_def\<close>)
  have i0: "i \<noteq> 0" using True p by (auto simp: valid_unused_page_def)
  have S: "osegments s' = osegments s" by (simp add: s'_def)
  have goal: "\<exists>M'. org_ok s' M'"
  proof (cases "popped s = No")
    case no: True
    have "out_ok (popped s') (M((g, i) \<mapsto> (c, KBlank))) (osegments s')"
      by (rule out_ok_swap [OF out]) (use no i0 in \<open>auto simp: s'_def out_span_def\<close>)
    moreover have "counts (osegments s') (M((g, i) \<mapsto> (c, KBlank))) (popped s')"
      unfolding S using no c(1) by (intro counts_same [OF cnt]) (simp_all add: s'_def ec_of_popped_def pages_in_quiet)
    ultimately show ?thesis using m' by (intro org_okI)
  next
    case False
    then have q: "popped s = SegmentFreeing g i" using True p by auto
    obtain d where d: "M (g, 0) = Some d" "out_data (popped s) d" using out_okD(2) [OF out, of "(g, 0)"] by (auto simp: q out_span_def)
    then have d0: "M (g, 0) = Some (i, KBlank)" by (simp add: q)
    let ?M = "M((g, i) \<mapsto> (c, KBlank))"
    let ?N = "?M((g, i) := None, (g, 0) \<mapsto> (i + c, KBlank))"
    have "?M (g, 0) = Some (i, KBlank)" "?M (g, 0 + i) = Some (c, KBlank)" using d0 i0 by simp_all
    from org_map_merge [OF m' this] have "org_map s' ?N" by (simp only: add_0)
    moreover have "out_ok (popped s') ?N (osegments s')"
      by (rule out_ok_swap [OF out, of _ g 0 "i + c" KBlank]) (use q out_okD(6) [OF out q] in \<open>auto simp: s'_def out_span_def split: if_splits\<close>)
    moreover have "counts (osegments s') ?N (popped s')"
    proof (unfold S, rule counts_same [OF cnt])
      show "pages_in ?N h' = pages_in M h'" for h'
        by (rule pages_in_other) (use c(1) d0 in \<open>auto split: if_splits\<close>)
    qed (simp add: s'_def q ec_of_popped_def)
    ultimately show ?thesis by (intro org_okI)
  qed
  show ?thesis
    unfolding take_page_from_unused_queue_def p Let_def fst_conv snd_conv fields option.sel holds_require holds_claim holds_simps
    by (intro impI conjI; (rule goal [unfolded s'_def P_def h_def])?) (use True p F(2,4,6-12) fields f(3) in auto)
qed

section \<open>Merging the span that is out with a neighbour\<close>

lemma out_very_unready:
  assumes ok: "org_ok s M" and q: "popped s = VeryUnready g st c b"
  shows "M (g, st) = Some (c, KBlank)" "0 < st" "is_out k \<Longrightarrow> M p = Some (d, k) \<Longrightarrow> p = (g, st)"
    "M (g, i) = Some (d, KFirst) \<Longrightarrow> i = 0" "M (h, 0) = Some (d, k) \<Longrightarrow> k = KFirst"
proof -
  note out = org_okD(2) [OF ok]
  obtain x where "M (g, st) = Some x" "out_data (popped s) x" using out_okD(2) [OF out, of "(g, st)"] by (auto simp: q out_span_def)
  then show m: "M (g, st) = Some (c, KBlank)" "0 < st" by (simp_all add: q)
  show "is_out k \<Longrightarrow> M p = Some (d, k) \<Longrightarrow> p = (g, st)" using out_okD(1) [OF out, of p d k] by (simp add: q out_span_def)
  show "M (g, i) = Some (d, KFirst) \<Longrightarrow> i = 0" by (rule out_okD(3) [OF out])
  show "M (h, 0) = Some (d, k) \<Longrightarrow> k = KFirst" using out_okD(4) [OF out, of h d k] m(2) by (simp add: q out_span_def)
qed

lemma merge_neighbour:
  assumes ok: "org_ok s M" and q: "popped s = VeryUnready g st c b" and m: "M (g, i) = Some (n, KFree)"
    and adj: "i = st + c \<and> a = st \<or> i + n = st \<and> a = i" and e: "link (opages s) (g, i) = Some e" and l: "l = (g, i + n - 1)"
    and h: "dh_first h = (if de_prev e = None then de_next e else dh_first (unused_dlist_headers s ! sbin_of n))"
      "dh_last h = (if de_next e = None then de_prev e else dh_last (unused_dlist_headers s ! sbin_of n))"
    and j: "j = snd (get_list_idx (unused_lists s) (g, i))"
    and s': "s' = s\<lparr>opages := write_prev s (de_next e) (de_prev e) (write_next s (de_prev e) (de_next e) ((opages s)(
           (g, i) \<mapsto> (pg s (g, i))\<lparr>pd_offset := None, pd_count := None, pd_dlist := None\<rparr>,
           l \<mapsto> (pg s l)\<lparr>pd_offset := None, pd_count := None, pd_dlist := None\<rparr>))),
       unused_dlist_headers := (unused_dlist_headers s)[sbin_of n := h], popped := VeryUnready g a (c + n) b,
       unused_lists := (unused_lists s)[sbin_of n := remove_at j (unused_lists s ! sbin_of n)]\<rparr>"
  shows "\<exists>M'. org_ok s' M'"
proof -
  note inv = org_okD(1) [OF ok] and out = org_okD(2) [OF ok] and cnt = org_okD(3) [OF ok] and o = out_very_unready [OF ok q]
  have A: "(pg s (g, i))\<lparr>pd_offset := None, pd_count := None, pd_dlist := None\<rparr> = (pg s (g, i))\<lparr>pd_dlist := None, pd_count := None, pd_offset := None\<rparr>"
    by simp
  note P = free_popped(3,4) [OF inv m e l A]
  have K: "free_queue M (g, i) = Some (sbin_of n)" using m by (simp add: free_queue_def)
  note J = get_list_idx_spot [OF org_mapD(9) [OF inv] K, folded j]
  let ?M = "M((g, i) \<mapsto> (n, KBlank))"
  have m': "org_map s' ?M"
  proof (rule org_map_pop [OF inv m e J])
    show "core (opages s') = (core (opages s))((g, i) \<mapsto> blank_page, (g, i + n - 1) \<mapsto> blank_page)" using P(1) by (simp add: s' l)
    show "link (opages s') = (relink (link (opages s)) (de_prev e) (de_next e))((g, i) := None)" using P(2) by (simp add: s')
  qed (use h in \<open>simp_all add: s'\<close>)
  have S: "osegments s' = osegments s" by (simp add: s')
  have c0: "0 < c" "0 < n" using span_facts(3) [OF inv o(1)] span_facts(3) [OF inv m] by simp_all
  have i0: "i \<noteq> 0"
  proof
    assume "i = 0"
    then show False using o(5) [of g n KFree] m by simp
  qed
  then have a0: "a \<noteq> 0" using adj o(2) by auto
  define x where "x = (if a = st then i else st)"
  let ?N = "?M((g, x) := None, (g, a) \<mapsto> (c + n, KBlank))"
  have x: "i \<noteq> st" using adj c0 by auto
  have "org_map s' ?N"
  proof (cases "a = st")
    case True
    then have xi: "x = st + c" "a = st" using adj c0 by (auto simp: x_def)
    have "?M (g, st) = Some (c, KBlank)" "?M (g, st + c) = Some (n, KBlank)" using True adj o(1) c0 x by auto
    from org_map_merge [OF m' this] show ?thesis unfolding xi .
  next
    case False
    then have i: "a = i" "x = i + n" "st = i + n" using adj by (auto simp: x_def)
    have "?M (g, i) = Some (n, KBlank)" "?M (g, i + n) = Some (c, KBlank)" using i o(1) c0 by auto
    from org_map_merge [OF m' this] show ?thesis unfolding i add.commute [of c n] .
  qed
  moreover have "out_ok (popped s') ?N (osegments s')"
  proof (rule out_ok_swap [OF out, of _ g a "c + n" KBlank])
    fix h' k d u assume ne: "(h', k) \<noteq> (g, a)" and N: "?N (h', k) = Some (d, u)"
    have "(h', k) \<noteq> (g, i)" "(h', k) \<noteq> (g, st)" using ne N adj by (auto simp: x_def split: if_splits)
    then show "M (h', k) = Some (d, u) \<and> out_span (popped s) \<noteq> Some (h', k) \<or> u = KFree \<and> k \<noteq> 0 \<or> u = KFirst \<and> k = 0"
      using N ne by (auto simp: q out_span_def split: if_splits)
  qed (use a0 in \<open>auto simp: s' out_span_def\<close>)
  moreover have "counts (osegments s') ?N (popped s')"
  proof (unfold S, rule counts_same [OF cnt])
    show "pages_in ?N h' = pages_in M h'" for h'
      by (rule pages_in_other) (use m o(1) adj in \<open>auto simp: x_def split: if_splits\<close>)
  qed (simp add: s' q ec_of_popped_def)
  ultimately show ?thesis by (intro org_okI)
qed

lemma free_sbin: "c \<le> 512 \<Longrightarrow> nat (smallest_sbin_fitting_size (int c)) = sbin_of c" "c \<le> 512 \<Longrightarrow> 0 \<le> smallest_sbin_fitting_size (int c)"
    "c \<le> 512 \<Longrightarrow> sbin_of c \<le> 31"
  using smallest_sbin_bounds [of c] by (simp_all add: sbin_of_def)

lemma merge_after_keeps:
  assumes ok: "org_ok s M"
  shows "keeps (merge_with_after s)"
proof (cases "popped s")
  case (VeryUnready g st c b)
  note inv = org_okD(1) [OF ok] and o = out_very_unready [OF ok VeryUnready]
  note f = span_facts [OF inv o(1)]
  let ?i = "st + c"
  show ?thesis
  proof (cases "st + c < 512")
    case lt: True
    obtain n k where n: "M (g, ?i) = Some (n, k)" by (rule tiled_next [OF f(1) o(1) lt])
    show ?thesis
    proof (cases "pd_used (pg s (g, ?i))")
      case False
      have u: "pd_used (pg s (g, ?i)) = is_page k" using span_page0 [OF inv n] by (simp add: cell_def)
      have "\<not> is_out k" using o(3) [OF _ n] f(3) by auto
      moreover have "k \<noteq> KFirst" using o(4) [of ?i n] n o(2) by auto
      ultimately have m: "M (g, ?i) = Some (n, KFree)" using n u False by (cases k) auto
      note fn = span_facts [OF inv m]
      obtain e where F: "link (opages s) (g, ?i) = Some e"
        "opages s (g, ?i) = Some (pg s (g, ?i))" "pg s (g, ?i) = (cell KFree n 0)\<lparr>pd_dlist := Some e\<rparr>"
        "opages s (g, ?i + n - 1) = Some (pg s (g, ?i + n - 1))"
        "pg s (g, ?i + n - 1) = (cell KFree n (n - 1))\<lparr>pd_dlist := if n = 1 then Some e else None\<rparr>"
        "nbr_ok s False (de_prev e)" "nbr_ok s False (de_next e)" "de_prev e \<noteq> Some (g, ?i)" "de_next e \<noteq> Some (g, ?i)"
        "de_prev e \<noteq> Some (g, ?i + n - 1)" "de_next e \<noteq> Some (g, ?i + n - 1)" "de_prev e \<noteq> None \<longrightarrow> de_prev e \<noteq> de_next e"
        by (rule free_facts [OF inv m])
      have fields: "pd_dlist (pg s (g, ?i)) = Some e" "pd_count (pg s (g, ?i)) = Some n" "\<not> pd_used (pg s (g, ?i + n - 1))"
        unfolding F(3,5) by (simp_all add: cell_fields)
      have n512: "n \<le> 512" using fn(4) by simp
      note sb = free_sbin [OF n512]
      show ?thesis
        unfolding merge_with_after_def VeryUnready Popped.case Let_def fields option.sel sb(1) holds_require holds_claim holds_simps
        by (intro impI conjI; (rule merge_neighbour [OF ok VeryUnready m _ F(1) refl _ _ refl refl])?)
          (use lt F(2,4,6-9,12) fields fn(4) f(3) sb in \<open>auto simp: slices_const\<close>)
    qed (use span_page0(1) [OF inv n] in \<open>simp add: merge_with_after_def VeryUnready holds_require holds_claim slices_const Let_def\<close>)
  qed (simp add: merge_with_after_def VeryUnready holds_require holds_claim slices_const Let_def)
qed (simp_all add: merge_with_after_def)

lemma merge_before_keeps:
  assumes ok: "org_ok s M"
  shows "keeps (merge_with_before s)"
proof (cases "popped s")
  case (VeryUnready g st c b)
  note inv = org_okD(1) [OF ok] and o = out_very_unready [OF ok VeryUnready]
  note f = span_facts [OF inv o(1)]
  obtain n k where n: "0 < n" "n \<le> st" "M (g, st - n) = Some (n, k)" by (rule tiled_prev [OF f(1) o(1,2)])
  let ?i = "st - n" and ?l = "(g, st - 1)"
  have l: "?l = (g, ?i + n - 1)" "?l = (g, ?i + (n - 1))" using n by simp_all
  have nm: "n - 1 < n" using n(1) by simp
  note L = span_page [OF inv n(3) nm, folded l(2)] and S = span_page0 [OF inv n(3)]
  have "\<not> is_out k" using o(3) [OF _ n(3)] n(1,2) by auto
  then have off: "pd_offset (pg s ?l) = Some (n - 1)" unfolding L(2) by (cases k) (simp_all add: cell_def)
  show ?thesis
  proof (cases "n - 1 < st - 1 \<and> \<not> pd_used (pg s (g, ?i))")
    case True
    then have ii: "st - 1 - (n - 1) = ?i" "?i \<noteq> 0" using n(1,2) by auto
    have u: "pd_used (pg s (g, ?i)) = is_page k" using S by (simp add: cell_def)
    have "k \<noteq> KFirst" using o(4) [of ?i n] n(3) ii(2) by auto
    then have m: "M (g, ?i) = Some (n, KFree)" using n(3) u True \<open>\<not> is_out k\<close> by (cases k) auto
    obtain e where F: "link (opages s) (g, ?i) = Some e"
      "opages s (g, ?i) = Some (pg s (g, ?i))" "pg s (g, ?i) = (cell KFree n 0)\<lparr>pd_dlist := Some e\<rparr>"
      "opages s (g, ?i + n - 1) = Some (pg s (g, ?i + n - 1))"
      "pg s (g, ?i + n - 1) = (cell KFree n (n - 1))\<lparr>pd_dlist := if n = 1 then Some e else None\<rparr>"
      "nbr_ok s False (de_prev e)" "nbr_ok s False (de_next e)" "de_prev e \<noteq> Some (g, ?i)" "de_next e \<noteq> Some (g, ?i)"
      "de_prev e \<noteq> Some (g, ?i + n - 1)" "de_next e \<noteq> Some (g, ?i + n - 1)" "de_prev e \<noteq> None \<longrightarrow> de_prev e \<noteq> de_next e"
      by (rule free_facts [OF inv m])
    have fields: "pd_dlist (pg s (g, ?i)) = Some e" "pd_count (pg s (g, ?i)) = Some n" "\<not> pd_used (pg s ?l)"
      unfolding F(3) l(1) F(5) by (simp_all add: cell_fields)
    have n512: "n \<le> 512" using span_facts(4) [OF inv m] by simp
    note sb = free_sbin [OF n512]
    have adj: "?i = st + c \<and> ?i = st \<or> ?i + n = st \<and> ?i = ?i" using n(2) by simp
    show ?thesis
      unfolding merge_with_before_def VeryUnready Popped.case Let_def off option.sel snd_conv ii(1) fields sb(1) holds_require holds_claim holds_simps
      by (intro impI conjI; (rule merge_neighbour [OF ok VeryUnready m adj F(1) l(1) _ _ refl refl])?)
        (use True F(2,6-12) L(1) fields f(4) n sb off in \<open>auto simp: slices_const l\<close>)
  next
    case False
    have "snd ?l - (n - 1) = ?i" using n(1,2) by simp
    then show ?thesis using False off by (simp add: merge_with_before_def VeryUnready holds_require holds_claim Let_def)
  qed
qed (simp_all add: merge_with_before_def)


section \<open>Putting a span into its queue\<close>

lemma out_blank:
  assumes "org_map s M" "M (g, i) = Some (c, KBlank)" "i \<le> j" "j < i + c"
  shows "opages s (g, j) = Some blank_page" "pg s (g, j) = blank_page"
proof -
  have "link (opages s) (g, j) = None" using span_link_None [OF assms] by simp
  then show "opages s (g, j) = Some blank_page" "pg s (g, j) = blank_page"
    using span_page [OF assms(1,2), of "j - i"] assms(3,4) by (simp_all add: cell_blank blank_page_def)
qed

lemma queue_first_apart:
  assumes inv: "org_map s M" and m: "M (g, i) = Some (c, KBlank)" and b: "b < 32" and f: "dh_first (unused_dlist_headers s ! b) = Some x"
  shows "nbr_ok s False (Some x)" "i \<le> j \<Longrightarrow> j < i + c \<Longrightarrow> x \<noteq> (g, j)"
proof -
  have K: "free_queue M x = Some b" using queues_first(1) [OF org_mapD(9) [OF inv] b f] .
  show "nbr_ok s False (Some x)" by (rule nbr_free [OF inv]) (use K in simp)
  obtain e where "link (opages s) x = Some e" using queues_entry [OF org_mapD(9) [OF inv] K] by blast
  then show "i \<le> j \<Longrightarrow> j < i + c \<Longrightarrow> x \<noteq> (g, j)" using span_link_None [OF inv m, of j] by auto
qed

lemma free_pushed:
  assumes inv: "org_map s M" and m: "M (g, i) = Some (c, KBlank)" and h0: "hd0 = unused_dlist_headers s ! sbin_of c"
    and h: "h = \<lparr>dh_first = Some (g, i), dh_last = (if dh_first hd0 \<noteq> None then dh_last hd0 else Some (g, i))\<rparr>"
    and l: "l = (g, i + c - 1)"
    and s': "s' = s\<lparr>opages := write_prev s (dh_first hd0) (Some (g, i))
        (if 1 < c then (opages s)((g, i) \<mapsto> (cell KFree c 0)\<lparr>pd_dlist := Some \<lparr>de_prev = None, de_next = dh_first hd0\<rparr>\<rparr>,
            l \<mapsto> cell KFree c (c - 1))
         else (opages s)((g, i) \<mapsto> (cell KFree c 0)\<lparr>pd_dlist := Some \<lparr>de_prev = None, de_next = dh_first hd0\<rparr>\<rparr>)),
       unused_dlist_headers := (unused_dlist_headers s)[sbin_of c := h], popped := q,
       unused_lists := insert_front (unused_lists s) (sbin_of c) (g, i)\<rparr>"
  shows "org_map s' (M((g, i) \<mapsto> (c, KFree)))"
proof (rule org_map_push [OF inv m _ _ h0, where h = h])
  note f = span_facts [OF inv m]
  have b: "sbin_of c < 32" using sbin_lt(1) f(4) by simp
  have n: "nbr_ok s False (dh_first hd0)"
    using queue_first_apart(1) [OF inv m b] by (cases "dh_first hd0") (auto simp: h0 nbr_ok_def)
  have a: "dh_first hd0 \<noteq> Some (g, i)" "dh_first hd0 \<noteq> Some l"
  proof -
    have far: "dh_first hd0 \<noteq> Some (g, j)" if "i \<le> j" "j < i + c" for j
      using queue_first_apart(2) [OF inv m b _ that] unfolding h0 by blast
    have "i \<le> i + c - 1" "i + c - 1 < i + c" using f(3) by simp_all
    then show "dh_first hd0 \<noteq> Some (g, i)" "dh_first hd0 \<noteq> Some l" using far [of i] far [of "i + c - 1"] f(3) unfolding l by simp_all
  qed
  let ?D = "(cell KFree c 0)\<lparr>pd_dlist := Some \<lparr>de_prev = None, de_next = dh_first hd0\<rparr>\<rparr>"
  define P where "P = (if 1 < c then (opages s)((g, i) \<mapsto> ?D, l \<mapsto> cell KFree c (c - 1)) else (opages s)((g, i) \<mapsto> ?D))"
  have W: "link (opages s') = put_prev (dh_first hd0) (Some (g, i)) (link P)" "core (opages s') = core P"
  proof -
    have Px: "P x = opages s x" if "dh_first hd0 = Some x" for x
      using a that by (auto simp: P_def)
    have o: "opages s' = write_prev s (dh_first hd0) (Some (g, i)) P" by (simp add: s' P_def)
    show "link (opages s') = put_prev (dh_first hd0) (Some (g, i)) (link P)" unfolding o by (rule write_links(3) [OF n]) (rule Px)
    show "core (opages s') = core P" unfolding o by (rule write_links(4) [OF n]) (rule Px)
  qed
  have nc: "(cell k c' n)\<lparr>pd_dlist := None\<rparr> = cell k c' n" "pd_dlist (cell k c' n) = None" for k c' n by (simp_all add: cell_def)
  have li: "l \<noteq> (g, i)" if "1 < c" using that by (simp add: l)
  show "core (opages s') = (core (opages s))((g, i + c - 1) \<mapsto> cell KFree c (c - 1), (g, i) \<mapsto> cell KFree c 0)"
  proof (cases "1 < c")
    case True
    then show ?thesis using li [OF True] by (simp add: W P_def nc fun_upd_twist l)
  next
    case False
    then have "c = 1" using f(3) by simp
    then show ?thesis by (simp add: W P_def nc)
  qed
  have ll: "link (opages s) l = None" using span_link_None [OF inv m, of "i + c - 1"] f(3) by (simp add: l)
  have "link P = (link (opages s))((g, i) \<mapsto> \<lparr>de_prev = None, de_next = dh_first hd0\<rparr>)"
    using ll li by (auto simp: P_def nc fun_eq_iff)
  then show "link (opages s') = (put_prev (dh_first hd0) (Some (g, i)) (link (opages s)))((g, i) \<mapsto> \<lparr>de_prev = None, de_next = dh_first hd0\<rparr>)"
    using a(1) by (auto simp: W put_prev_def fun_eq_iff split: option.splits)
qed (simp_all add: s' h)

lemma blank_free_cells:
  assumes "0 < n"
  shows "blank_page\<lparr>pd_count := Some n, pd_offset := Some 0, pd_dlist := d\<rparr> = (cell KFree n 0)\<lparr>pd_dlist := d\<rparr>"
    "\<lparr>pd_dlist = d, pd_count = Some n, pd_offset = Some 0, pd_used = False, pd_full = None, pd_kind = None\<rparr> = (cell KFree n 0)\<lparr>pd_dlist := d\<rparr>"
    "1 < n \<Longrightarrow> blank_page\<lparr>pd_count := None, pd_offset := Some (n - 1)\<rparr> = cell KFree n (n - 1)"
    "1 < n \<Longrightarrow> blank_page\<lparr>pd_offset := Some (n - 1)\<rparr> = cell KFree n (n - 1)"
  using assms by (simp_all add: blank_page_def cell_def)

lemma blank_last:
  "(if 1 < n then P(l \<mapsto> blank_page\<lparr>pd_count := None, pd_offset := Some (n - 1)\<rparr>) else P) = (if 1 < n then P(l \<mapsto> cell KFree n (n - 1)) else P)"
  "(if 1 < n then P(l \<mapsto> blank_page\<lparr>pd_offset := Some (n - 1)\<rparr>) else P) = (if 1 < n then P(l \<mapsto> cell KFree n (n - 1)) else P)"
  using blank_free_cells(3,4) [of n] by simp_all

lemma blank_fields [simp]: "pd_used blank_page = False" "pd_count blank_page = None" "pd_offset blank_page = None"
    "pd_dlist blank_page = None" "pd_kind blank_page = None" "pd_full blank_page = None"
  by (simp_all add: blank_page_def)

text \<open>What the transitions claim of the first span of the queue.\<close>

lemma first_claim:
  assumes inv: "org_map s M" and m: "M (g, i) = Some (c, KBlank)" and b: "b < 32"
    and f: "dh_first (unused_dlist_headers s ! b) = Some x"
  shows "opages s x \<noteq> None \<and> \<not> pd_used (pg s x) \<and> pd_dlist (pg s x) \<noteq> None" "\<forall>j. i \<le> j \<and> j < i + c \<longrightarrow> x \<noteq> (g, j)"
  using queue_first_apart [OF inv m b f] by (auto simp: nbr_ok_def)

lemma split_keeps:
  assumes ok: "org_ok s M"
  shows "keeps (split_page p cc t b s)"
proof (cases "popped s = VeryUnready (fst p) (snd p) cc False")
  case True
  obtain g i where p: "p = (g, i)" by (cases p)
  have q: "popped s = VeryUnready g i cc False" using True p by simp
  note inv = org_okD(1) [OF ok] and out = org_okD(2) [OF ok] and cnt = org_okD(3) [OF ok] and o = out_very_unready [OF ok q]
  note f = span_facts [OF inv o(1)] and bl = out_blank [OF inv o(1)]
  have first: "opages s (g, i) = Some blank_page" "pg s (g, i) = blank_page" using bl [of i] f(3) by simp_all
  show ?thesis
  proof (cases "1 \<le> t \<and> t < cc \<and> b \<le> 31 \<and> int b = smallest_sbin_fitting_size (int (cc - t))")
    case False
    then show ?thesis using first q by (auto simp: p split_page_def holds_require holds_claim slices_const)
  next
    case g: True
    let ?n = "cc - t" and ?j = "i + t"
    let ?l = "(g, i + cc - 1)"
    have n: "0 < ?n" "sbin_of ?n = b" "?j + ?n - 1 = i + cc - 1" "i \<le> ?j" "?j < i + cc" "i \<le> i + cc - 1" "i + cc - 1 < i + cc" "0 < t"
      using g by (auto simp: sbin_of_def)
    let ?M = "M((g, i) \<mapsto> (t, KBlank), (g, ?j) \<mapsto> (?n, KBlank))"
    have m: "org_map s ?M" "?M (g, ?j) = Some (?n, KBlank)" using org_map_split [OF inv o(1), of t] g by simp_all
    note new = bl [OF n(4,5)] and lst = bl [OF n(6,7)]
    let ?N = "?M((g, ?j) \<mapsto> (?n, KFree))"
    have fin: "\<exists>M'. org_ok s' M'" if m': "org_map s' ?N" and S: "osegments s' = osegments s" "popped s' = VeryUnready g i t False" for s'
    proof (rule org_okI [OF m'])
      show "out_ok (popped s') ?N (osegments s')"
        by (rule out_ok_swap [OF out, of _ g i t KBlank]) (use n o(2) q in \<open>auto simp: S out_span_def split: if_splits\<close>)
      show "counts (osegments s') ?N (popped s')" unfolding S
      proof (rule counts_same [OF cnt])
        show "pages_in ?N h' = pages_in M h'" for h'
          by (rule pages_in_other) (use o(1) tiled_inside [OF f(1) o(1), of ?j] n in \<open>auto split: if_splits\<close>)
      qed (simp add: q ec_of_popped_def)
    qed
    have fc: "case dh_first (unused_dlist_headers s ! b) of None \<Rightarrow> True | Some x \<Rightarrow> opages s x \<noteq> None \<and> \<not> pd_used (pg s x)
        \<and> pd_dlist (pg s x) \<noteq> None \<and> x \<noteq> (g, i) \<and> x \<noteq> (g, ?j) \<and> x \<noteq> ?l"
      using first_claim [OF inv o(1), of b] g n f(3) by (auto split: option.splits)
    have b: "b = sbin_of ?n" and l: "?l = (g, ?j + ?n - 1)" using n(2,3) by simp_all
    show ?thesis
      unfolding split_page_def p Let_def fst_conv snd_conv first new lst blank_free_cells(1) [OF n(1)] blank_last(1) holds_require holds_claim holds_simps
      by (intro impI conjI; (rule fin [OF free_pushed [OF m refl refl l, where q = "VeryUnready g i t False"]])?)
        (use fc g n f(4) in \<open>auto simp: slices_const\<close>)
  qed
qed (simp add: split_page_def holds_require)

lemma free_keeps:
  assumes ok: "org_ok s M"
  shows "keeps (free_to_unused_queue b s)"
proof (cases "popped s")
  case (VeryUnready g i c ec)
  note q = VeryUnready
  note inv = org_okD(1) [OF ok] and out = org_okD(2) [OF ok] and cnt = org_okD(3) [OF ok] and o = out_very_unready [OF ok q]
  note f = span_facts [OF inv o(1)] and bl = out_blank [OF inv o(1)]
  have first: "opages s (g, i) = Some blank_page" "pg s (g, i) = blank_page" using bl [of i] f(3) by simp_all
  have lst: "opages s (g, i + c - 1) = Some blank_page" "pg s (g, i + c - 1) = blank_page" using bl [of "i + c - 1"] f(3) by simp_all
  show ?thesis
  proof (cases "valid_sbin_idx (int b) \<and> int b = smallest_sbin_fitting_size (int c)")
    case False
    then show ?thesis using o(2) f by (auto simp: free_to_unused_queue_def q holds_require holds_claim slices_const)
  next
    case True
    then have b: "b = sbin_of c" by (auto simp: sbin_of_def)
    have b32: "sbin_of c < 32" using sbin_lt(1) f(4) by simp
    let ?N = "M((g, i) \<mapsto> (c, KFree))" and ?q = "if ec then ExtraCount g else No"
    have fin: "\<exists>M'. org_ok s' M'" if m': "org_map s' ?N" and S: "osegments s' = osegments s" "popped s' = ?q" for s'
    proof (rule org_okI [OF m'])
      show "out_ok (popped s') ?N (osegments s')"
        by (rule out_ok_swap [OF out, of _ g i c KFree]) (use o(2) f(2) q in \<open>auto simp: S out_span_def split: if_splits\<close>)
      show "counts (osegments s') ?N (popped s')" unfolding S
        by (rule counts_same [OF cnt]) (use o(1) q in \<open>simp_all add: pages_in_quiet ec_of_popped_def\<close>)
    qed
    have i: "i \<le> i + c - 1" "i + c - 1 < i + c" using f(3) by simp_all
    have fc: "case dh_first (unused_dlist_headers s ! sbin_of c) of None \<Rightarrow> True | Some x \<Rightarrow> x \<noteq> (g, i) \<and> x \<noteq> (g, i + c - 1)
        \<and> opages s x \<noteq> None \<and> \<not> pd_used (pg s x) \<and> pd_dlist (pg s x) \<noteq> None"
      using first_claim [OF inv o(1) b32] f(3) i by (auto split: option.splits)
    show ?thesis
      unfolding free_to_unused_queue_def q Popped.case Let_def first lst b blank_free_cells(2) [OF f(3)] blank_last(2) holds_require holds_claim holds_simps
      by (intro impI conjI; (rule fin [OF free_pushed [OF inv o(1) refl refl refl, where q = ?q]])?)
        (use fc f o(2) in \<open>auto simp: slices_const\<close>)
  qed
qed (simp_all add: free_to_unused_queue_def holds_require)


section \<open>Changing a span that is out\<close>

lemma all_blank:
  assumes "org_map s M" "M (g, i) = Some (c, KBlank)"
  shows "all_in g i (i + c) (\<lambda>q. opages s q \<noteq> None)" "all_in g i (i + c) (\<lambda>q. \<not> pd_used (pg s q))"
  using out_blank [OF assms] by (auto simp: all_in_iff)

lemma range_relabel:
  assumes inv: "org_map s M" and m: "M (g, i) = Some (c, k)"
    and u: "k \<noteq> KFree" "\<And>hk f. k \<noteq> KQueued hk f" "k' \<noteq> KFree" "\<And>hk f. k' \<noteq> KQueued hk f"
    and F: "\<And>n. n < c \<Longrightarrow> F (g, i + n) = cell k' c n"
    and s': "opages s' = opages s ++ map_new (page_id_range g i (i + c)) F" "\<And>h. osegments s' h = None \<longleftrightarrow> osegments s h = None"
      "unused_dlist_headers s' = unused_dlist_headers s" "unused_lists s' = unused_lists s"
      "used_dlist_headers s' = used_dlist_headers s" "used_lists s' = used_lists s"
  shows "org_map s' (M((g, i) \<mapsto> (c, k')))"
  by (rule org_map_relabel [OF inv m u s'(2)]) (auto simp: s' range_write F)

lemma counts_upd:
  assumes "counts S M q" "S g = Some n" "\<And>h. pages_in M' h = pages_in M h"
    and "\<And>h. ec_of_popped q' h = ec_of_popped q h + (if h = g then d else 0)"
  shows "counts (S(g \<mapsto> n + d)) M' q'"
proof -
  have "m = int (card (pages_in M' h)) + ec_of_popped q' h" if "(S(g \<mapsto> n + d)) h = Some m" for h m
    using that countsD [OF assms(1), of h] assms(2) unfolding assms(3,4) by (cases "h = g") auto
  then show ?thesis unfolding counts_def by blast
qed

lemma allocate_keeps:
  assumes ok: "org_ok s M"
  shows "keeps (allocate_popped s)"
proof (cases "popped s")
  case (VeryUnready g i c b)
  note q = VeryUnready
  note inv = org_okD(1) [OF ok] and out = org_okD(2) [OF ok] and cnt = org_okD(3) [OF ok] and o = out_very_unready [OF ok q]
  note f = span_facts [OF inv o(1)] and bl = out_blank [OF inv o(1)]
  have first: "opages s (g, i) = Some blank_page" using bl [of i] f(3) by simp
  show ?thesis
  proof (cases b)
    case False
    obtain n where n: "osegments s g = Some n" using f(2) by blast
    have n': "n = int (card (pages_in M g))" using countsD [OF cnt n] False by (simp add: q ec_of_popped_def)
    then have le: "n \<le> 513" using pages_in_bound [OF f(1)] by simp
    let ?N = "M((g, i) \<mapsto> (c, KReady))"
    let ?F = "\<lambda>q. \<lparr>pd_dlist = pd_dlist (pg s q), pd_count = (if q = (g, i) then Some c else pd_count (pg s q)),
            pd_offset = Some (snd q - i), pd_used = False, pd_full = None, pd_kind = None\<rparr>"
    have F: "?F (g, i + m) = cell KReady c m" if "m < c" for m
      using bl [of "i + m"] that by (simp add: cell_def)
    have fin: "\<exists>M'. org_ok s' M'" if s': "s' = s\<lparr>osegments := (osegments s)(g \<mapsto> n + 1),
       opages := opages s ++ map_new (page_id_range g i (i + c)) ?F, popped := Ready (g, i) True\<rparr>" for s'
    proof (rule org_okI)
      show "org_map s' ?N" by (rule range_relabel [OF inv o(1) _ _ _ _ F]) (use f(2) in \<open>auto simp: s'\<close>)
      show "out_ok (popped s') ?N (osegments s')"
        by (rule out_ok_swap [OF out, of _ g i c KReady]) (use o(2) q in \<open>auto simp: s' out_span_def split: if_splits\<close>)
      show "counts (osegments s') ?N (popped s')"
        using counts_upd [OF cnt n, where M' = ?N and q' = "Ready (g, i) True" and d = 1] o(1)
        by (simp add: s' q ec_of_popped_def pages_in_quiet False)
    qed
    show ?thesis
      unfolding allocate_popped_def q Popped.case Let_def holds_require holds_claim holds_simps n option.sel
      using all_blank [OF inv o(1)] first f le fin [OF refl] by (simp add: slices_const)
  qed (simp add: allocate_popped_def q holds_require)
qed (simp_all add: allocate_popped_def)

lemma forget2_keeps:
  assumes ok: "org_ok s M"
  shows "keeps (forget_about_first_page2 s)"
proof (cases "popped s")
  case (VeryUnready g i c b)
  note q = VeryUnready
  note inv = org_okD(1) [OF ok] and out = org_okD(2) [OF ok] and cnt = org_okD(3) [OF ok] and o = out_very_unready [OF ok q]
  note f = span_facts [OF inv o(1)]
  show ?thesis
  proof (cases b)
    case True
    obtain n where n: "osegments s g = Some n" using f(2) by blast
    have n': "n = int (card (pages_in M g)) + 1" using countsD [OF cnt n] True by (simp add: q ec_of_popped_def)
    have fin: "\<exists>M'. org_ok s' M'" if s': "s' = s\<lparr>osegments := (osegments s)(g \<mapsto> n - 1), popped := VeryUnready g i c False\<rparr>" for s'
    proof (rule org_okI)
      show "org_map s' M"
        by (rule org_mapI) (use org_mapD [OF inv] f(2) in \<open>auto simp: s' simp del: not_None_eq split: if_splits\<close>)
      show "out_ok (popped s') M (osegments s')"
        by (rule out_ok_swap [OF out, of M g i c KBlank]) (use o(1,2,3) q in \<open>auto simp: s' out_span_def\<close>)
      show "counts (osegments s') M (popped s')"
        using counts_upd [OF cnt n, where M' = M and q' = "VeryUnready g i c False" and d = "-1"]
        by (simp add: s' q ec_of_popped_def True)
    qed
    show ?thesis using n' fin [OF refl] True by (simp add: forget_about_first_page2_def q holds_require holds_claim n)
  qed (simp add: forget_about_first_page2_def q holds_require)
qed (simp_all add: forget_about_first_page2_def)

lemma clear_keeps:
  assumes ok: "org_ok s M"
  shows "keeps (clear_ec s)"
proof (cases "popped s")
  case (ExtraCount g)
  note q = ExtraCount
  note inv = org_okD(1) [OF ok] and out = org_okD(2) [OF ok] and cnt = org_okD(3) [OF ok]
  obtain n where n: "osegments s g = Some n" using out_okD(5) [OF out q] by blast
  have n': "n = int (card (pages_in M g)) + 1" using countsD [OF cnt n] by (simp add: q ec_of_popped_def)
  have fin: "\<exists>M'. org_ok s' M'" if s': "s' = s\<lparr>osegments := (osegments s)(g \<mapsto> n - 1), popped := No\<rparr>" for s'
  proof (rule org_okI)
    show "org_map s' M"
      by (rule org_mapI) (use org_mapD [OF inv] n in \<open>auto simp: s' simp del: not_None_eq split: if_splits\<close>)
    show "out_ok (popped s') M (osegments s')"
      using out by (simp add: s' q out_ok_def out_span_def)
    show "counts (osegments s') M (popped s')"
      using counts_upd [OF cnt n, where M' = M and q' = No and d = "-1"] by (simp add: s' q ec_of_popped_def)
  qed
  show ?thesis using n' fin [OF refl] by (simp add: clear_ec_def q holds_claim n)
qed (simp_all add: clear_ec_def)

lemma forget_keeps:
  assumes ok: "org_ok s M"
  shows "keeps (forget_about_first_page c s)"
proof (cases "popped s")
  case (SegmentCreating g)
  note q = SegmentCreating
  note inv = org_okD(1) [OF ok] and out = org_okD(2) [OF ok] and cnt = org_okD(3) [OF ok]
  obtain d where "M (g, 0) = Some d" "out_data (popped s) d" using out_okD(2) [OF out, of "(g, 0)"] by (auto simp: q out_span_def)
  then have m: "M (g, 0) = Some (512, KBlank)" by (simp add: q)
  note f = span_facts [OF inv m] and bl = out_blank [OF inv m]
  show ?thesis
  proof (cases "1 \<le> c \<and> c < 512")
    case True
    then have c: "0 < c" "c < 512" by simp_all
    obtain n where n: "osegments s g = Some n" using f(2) by blast
    have "pages_in M g = {}"
    proof -
      have False if j: "M (g, j) = Some (d, k)" "is_page k" for j d k
      proof -
        have "j < 512" using j(1) f(1) unfolding tiled_def by fastforce
        then have "j = 0" using tiled_inside [OF f(1) m, of j] j(1) by (cases j) simp_all
        then show False using j m by simp
      qed
      then show ?thesis unfolding pages_in_def by blast
    qed
    then have n0: "n = 0" using countsD [OF cnt n] by (simp add: q ec_of_popped_def)
    let ?M = "M((g, 0) \<mapsto> (c, KBlank), (g, c) \<mapsto> (512 - c, KBlank))"
    let ?N = "?M((g, 0) \<mapsto> (c, KFirst))"
    let ?F = "\<lambda>q. \<lparr>pd_dlist = pd_dlist (pg s q), pd_count = (if q = (g, 0) then Some c else pd_count (pg s q)),
            pd_offset = Some (snd q - 0), pd_used = False, pd_full = None, pd_kind = None\<rparr>"
    have M': "org_map s ?M" "?M (g, 0) = Some (c, KBlank)" using org_map_split [OF inv m c] c by simp_all
    have F: "?F (g, 0 + k) = cell KFirst c k" if "k < c" for k
      using bl [of k] that c by (simp add: cell_def)
    have all: "all_in g 0 c (\<lambda>q. opages s q \<noteq> None)" "all_in g 0 c (\<lambda>q. \<not> pd_used (pg s q))"
      using bl c by (auto simp: all_in_iff)
    have fin: "\<exists>M'. org_ok s' M'" if s': "s' = s\<lparr>opages := opages s ++ map_new (page_id_range g 0 c) ?F,
       osegments := (osegments s)(g \<mapsto> n + 1), popped := VeryUnready g c (512 - c) True\<rparr>" for s'
    proof (rule org_okI)
      show "org_map s' ?N" by (rule range_relabel [OF M' _ _ _ _ F]) (use f(2) in \<open>auto simp: s'\<close>)
      show "out_ok (popped s') ?N (osegments s')"
        by (rule out_ok_swap [OF out, of _ g c "512 - c" KBlank]) (use c q in \<open>auto simp: s' out_span_def split: if_splits\<close>)
      have "pages_in ?N h = pages_in M h" for h
        by (rule pages_in_other) (use m tiled_inside [OF f(1) m, of c] c in \<open>auto split: if_splits\<close>)
      then show "counts (osegments s') ?N (popped s')"
        using counts_upd [OF cnt n, where M' = ?N and q' = "VeryUnready g c (512 - c) True" and d = 1]
        by (simp add: s' q ec_of_popped_def)
    qed
    show ?thesis
      unfolding forget_about_first_page_def q Popped.case Let_def holds_require holds_claim holds_simps n option.sel slices_const
      using all bl [of 0] c n0 fin [OF refl] by simp
  qed (auto simp: forget_about_first_page_def holds_require slices_const)
qed (simp_all add: forget_about_first_page_def holds_require)

lemma used_keeps:
  assumes ok: "org_ok s M"
  shows "keeps (set_range_to_used k s)"
proof (cases "popped s")
  case (Ready p b)
  note q = Ready
  note inv = org_okD(1) [OF ok] and out = org_okD(2) [OF ok] and cnt = org_okD(3) [OF ok]
  obtain g i where p: "p = (g, i)" by (cases p)
  obtain c where m: "M (g, i) = Some (c, KReady)" and b: b "i \<noteq> 0"
    using out_okD(2) [OF out, of p] by (auto simp: q out_span_def p)
  note f = span_facts [OF inv m]
  have bl: "opages s (g, i + n) \<noteq> None" "pg s (g, i + n) = cell KReady c n" if "n < c" for n
    using span_page [OF inv m that] span_link_None [OF inv m, of "i + n"] that by (simp_all add: cell_def)
  let ?N = "M((g, i) \<mapsto> (c, KTaken k))"
  let ?F = "\<lambda>q. (pg s q)\<lparr>pd_used := True, pd_kind := (if q = (g, i) then Some k else None)\<rparr>"
  have F: "?F (g, i + n) = cell (KTaken k) c n" if "n < c" for n using bl [OF that] by (simp add: cell_def)
  have first: "pd_count (pg s (g, i)) = Some c" "pd_offset (pg s (g, i)) = Some 0" "opages s (g, i) \<noteq> None"
    using bl [of 0] f(3) by (simp_all add: cell_def)
  have all: "all_in g i (i + c) (\<lambda>q. opages s q \<noteq> None)" "all_in g i (i + c) (\<lambda>q. \<not> pd_used (pg s q))"
    "all_in g i (i + c) (\<lambda>q. pd_offset (pg s q) = Some (snd q - i))"
  proof -
    have "opages s (g, j) \<noteq> None \<and> \<not> pd_used (pg s (g, j)) \<and> pd_offset (pg s (g, j)) = Some (j - i)" if "i \<le> j" "j < i + c" for j
      using bl [of "j - i"] that by (simp add: cell_def)
    then show "all_in g i (i + c) (\<lambda>q. opages s q \<noteq> None)" "all_in g i (i + c) (\<lambda>q. \<not> pd_used (pg s q))"
      "all_in g i (i + c) (\<lambda>q. pd_offset (pg s q) = Some (snd q - i))" by (simp_all add: all_in_iff)
  qed
  have fin: "\<exists>M'. org_ok s' M'" if s': "s' = s\<lparr>opages := opages s ++ map_new (page_id_range g i (i + c)) ?F, popped := Used (g, i) b\<rparr>" for s'
  proof (rule org_okI)
    show "org_map s' ?N" by (rule range_relabel [OF inv m _ _ _ _ F]) (auto simp: s')
    show "out_ok (popped s') ?N (osegments s')"
      by (rule out_ok_swap [OF out, of _ g i c "KTaken k"]) (use b q in \<open>auto simp: s' p out_span_def split: if_splits\<close>)
    show "counts (osegments s') ?N (popped s')"
      by (simp add: s', rule counts_start [OF cnt f(1) m]) (use b in \<open>simp_all add: q p ec_of_popped_def\<close>)
  qed
  show ?thesis
    unfolding set_range_to_used_def q p Popped.case Let_def fst_conv snd_conv holds_claim holds_simps first option.sel
    using all first b f(3) fin [OF refl] by simp
qed (simp_all add: set_range_to_used_def)

text \<open>A page that is out of its queue.\<close>

lemma out_taken:
  assumes ok: "org_ok s M" and q: "popped s = Used (g, i) b"
  obtains c hk where "M (g, i) = Some (c, KTaken hk)" "b" "i \<noteq> 0"
    "\<forall>n<c. opages s (g, i + n) \<noteq> None \<and> pg s (g, i + n) = cell (KTaken hk) c n"
proof -
  note inv = org_okD(1) [OF ok] and out = org_okD(2) [OF ok]
  obtain c hk where m: "M (g, i) = Some (c, KTaken hk)" and b: b "i \<noteq> 0"
    using out_okD(2) [OF out, of "(g, i)"] by (auto simp: q out_span_def)
  have "opages s (g, i + n) \<noteq> None \<and> pg s (g, i + n) = cell (KTaken hk) c n" if "n < c" for n
    using span_page [OF inv m that] span_link_None [OF inv m, of "i + n"] that by (simp add: cell_def)
  then show ?thesis using that m b by blast
qed

lemma not_used_keeps:
  assumes ok: "org_ok s M"
  shows "keeps (set_range_to_not_used s)"
proof (cases "popped s")
  case (Used p b)
  note q = Used
  note inv = org_okD(1) [OF ok] and out = org_okD(2) [OF ok] and cnt = org_okD(3) [OF ok]
  obtain g i where p: "p = (g, i)" by (cases p)
  obtain c hk where m: "M (g, i) = Some (c, KTaken hk)" and b: b "i \<noteq> 0"
    and pages: "\<forall>n<c. opages s (g, i + n) \<noteq> None \<and> pg s (g, i + n) = cell (KTaken hk) c n"
    by (rule out_taken [OF ok q [unfolded p]])
  note bl = pages [rule_format] and f = span_facts [OF inv m]
  let ?N = "M((g, i) \<mapsto> (c, KBlank))"
  let ?F = "\<lambda>q. (pg s q)\<lparr>pd_used := False, pd_kind := None, pd_offset := None, pd_count := None\<rparr>"
  have F: "?F (g, i + n) = cell KBlank c n" if "n < c" for n using bl [OF that] by (simp add: cell_def)
  have first: "pd_count (pg s (g, i)) = Some c" "pd_offset (pg s (g, i)) = Some 0" "pd_full (pg s (g, i)) = None" "opages s (g, i) \<noteq> None"
    using bl [of 0] f(3) by (simp_all add: cell_def)
  have all: "all_in g i (i + c) (\<lambda>q. opages s q \<noteq> None)" "all_in g i (i + c) (\<lambda>q. pd_used (pg s q))"
    "all_in g i (i + c) (\<lambda>q. pd_offset (pg s q) = Some (snd q - i))"
  proof -
    have "opages s (g, j) \<noteq> None \<and> pd_used (pg s (g, j)) \<and> pd_offset (pg s (g, j)) = Some (j - i)" if "i \<le> j" "j < i + c" for j
      using bl [of "j - i"] that by (simp add: cell_def)
    then show "all_in g i (i + c) (\<lambda>q. opages s q \<noteq> None)" "all_in g i (i + c) (\<lambda>q. pd_used (pg s q))"
      "all_in g i (i + c) (\<lambda>q. pd_offset (pg s q) = Some (snd q - i))" by (simp_all add: all_in_iff)
  qed
  have fin: "\<exists>M'. org_ok s' M'" if s': "s' = s\<lparr>opages := opages s ++ map_new (page_id_range g i (i + c)) ?F, popped := VeryUnready g i c b\<rparr>" for s'
  proof (rule org_okI)
    show "org_map s' ?N" by (rule range_relabel [OF inv m _ _ _ _ F]) (auto simp: s')
    show "out_ok (popped s') ?N (osegments s')"
      by (rule out_ok_swap [OF out, of _ g i c KBlank]) (use b q in \<open>auto simp: s' p out_span_def split: if_splits\<close>)
    show "counts (osegments s') ?N (popped s')"
      by (simp add: s', rule counts_stop [OF cnt f(1) m]) (use b in \<open>simp_all add: q p ec_of_popped_def\<close>)
  qed
  show ?thesis
    unfolding set_range_to_not_used_def q p Popped.case Let_def fst_conv snd_conv holds_claim holds_simps first option.sel
    using all first b f(3) fin [OF refl] by simp
qed (simp_all add: set_range_to_not_used_def)


section \<open>Queues of pages\<close>

lemma pages_in_requeue: "M (g, i) = Some (c, k) \<Longrightarrow> is_page k \<Longrightarrow> is_page k' \<Longrightarrow> pages_in (M((g, i) \<mapsto> (c', k'))) h = pages_in M h"
  by (auto simp: pages_in_def)

lemma kind_allows_bin:
  assumes "kind_allows hk b" "valid_bin_idx (int b) \<or> b = 74"
  shows "kind_ok hk" "page_bin (KQueued hk (b = 74)) = Some b" "b < 75"
proof -
  obtain i bs where hk: "hk = NormalPage i bs" by (cases hk)
  have r: "b \<noteq> 74 \<longrightarrow> int b = i"
    using assms(1) unfolding kind_allows_def hk PageHeaderKind.case slices_const by blast
  have a: "valid_bin_idx i \<and> bs = int (size_of_bin i) \<and> i = smallest_bin_fitting_size bs \<and> bs \<le> 131072"
    using assms(1) unfolding kind_allows_def hk PageHeaderKind.case slices_const by blast
  show "kind_ok hk" unfolding kind_ok_def hk PageHeaderKind.case using a by blast
  show "page_bin (KQueued hk (b = 74)) = Some b" using r by (auto simp: hk)
  show "b < 75" using assms(2) by (auto simp: valid_bin_idx_def)
qed

text \<open>A page enters a queue: the links of the page and of its neighbour are written.\<close>

lemma page_in:
  assumes ok: "org_ok s M" and q: "popped s = Used (g, i) True" and m: "M (g, i) = Some (c, KTaken hk)"
    and k: "kind_ok hk" "page_bin (KQueued hk f) = Some b" and b: "b < 75"
    and co: "core P = core (opages s)" and li: "\<And>x. link P x \<noteq> None \<Longrightarrow> link (opages s) x \<noteq> None"
    and lf: "\<And>x. page_queue M x \<noteq> Some b \<Longrightarrow> link P x = link (opages s) x"
    and Q: "queues_are ((link P)((g, i) \<mapsto> e)) h' l' 75 ((page_queue M)((g, i) \<mapsto> b))"
  shows "\<exists>M'. org_ok (s\<lparr>opages := P((g, i) \<mapsto> (pg s (g, i))\<lparr>pd_dlist := Some e, pd_full := Some f\<rparr>),
      used_dlist_headers := h', popped := No, used_lists := l'\<rparr>) M'" (is "\<exists>M'. org_ok ?s M'")
proof (rule org_okI)
  note inv = org_okD(1) [OF ok] and out = org_okD(2) [OF ok] and cnt = org_okD(3) [OF ok]
  let ?N = "M((g, i) \<mapsto> (c, KQueued hk f))"
  have pgi: "pg s (g, i) = cell (KTaken hk) c 0"
    using span_page0 [OF inv m] span_link_None [OF inv m, of i] span_facts(3) [OF inv m] by (simp add: cell_def)
  have n0: "cell (KQueued hk f) c n = cell (KTaken hk) c n" if "0 < n" for n using that by (simp add: cell_def)
  show "org_map ?s ?N"
  proof (rule org_map_requeue [OF inv m _ _ n0])
    show "core (opages ?s) = (core (opages s))((g, i) \<mapsto> cell (KQueued hk f) c 0)" by (simp add: co pgi cell_def)
    show "link (opages ?s) x = link (opages s) x" if "x \<noteq> (g, i)" "free_queue M x \<noteq> None" for x
      using that lf [of x] queues_apart(1) [of M x] by auto
    show "link (opages s) x \<noteq> None \<and> x \<noteq> (g, i) \<or> x = (g, i) \<and> page_bin (KQueued hk f) \<noteq> None"
      if "link (opages ?s) x \<noteq> None" for x using that li [of x] k(2) by (auto split: if_splits)
    show "queues_are (link (opages ?s)) (used_dlist_headers ?s) (used_lists ?s) 75 ((page_queue M)((g, i) := page_bin (KQueued hk f)))"
      using Q by (simp add: k(2))
  qed (use k(1) in simp_all)
  have i0: "i \<noteq> 0" using out_okD(2) [OF out, of "(g, i)"] by (auto simp: q out_span_def)
  show "out_ok (popped ?s) ?N (osegments ?s)"
    by (rule out_ok_swap [OF out, of _ g i c "KQueued hk f"]) (use i0 q in \<open>auto simp: out_span_def split: if_splits\<close>)
  show "counts (osegments ?s) ?N (popped ?s)"
    using counts_same [OF cnt, of ?N No] pages_in_requeue [of M g i c "KTaken hk" "KQueued hk f" c, OF m] by (simp add: q ec_of_popped_def)
qed

lemma into_facts:
  assumes ok: "org_ok s M" and q: "popped s = Used (g, i) True" and m: "M (g, i) = Some (c, KTaken hk)"
  shows "opages s (g, i) \<noteq> None" "pd_kind (pg s (g, i)) = Some hk" "pd_used (pg s (g, i))" "pd_offset (pg s (g, i)) = Some 0"
    "pd_dlist (pg s (g, i)) = None" "page_queue M (g, i) = None" "link (opages s) (g, i) = None"
proof -
  note inv = org_okD(1) [OF ok]
  have l: "link (opages s) (g, i) = None" using span_link_None [OF inv m, of i] span_facts(3) [OF inv m] by simp
  have "pg s (g, i) = cell (KTaken hk) c 0" using span_page0 [OF inv m] l by (simp add: cell_def)
  then show "opages s (g, i) \<noteq> None" "pd_kind (pg s (g, i)) = Some hk" "pd_used (pg s (g, i))" "pd_offset (pg s (g, i)) = Some 0"
    "pd_dlist (pg s (g, i)) = None" using span_page0(1) [OF inv m] by (simp_all add: cell_def)
  show "page_queue M (g, i) = None" using queues_None(2) [of M, OF m] by simp
  show "link (opages s) (g, i) = None" by (rule l)
qed

lemma into_keeps:
  assumes ok: "org_ok s M"
  shows "keeps (into_used_list b s)"
proof (cases "\<exists>p. popped s = Used p True")
  case True
  then obtain g i where q: "popped s = Used (g, i) True" by auto
  note inv = org_okD(1) [OF ok]
  obtain c hk where m: "M (g, i) = Some (c, KTaken hk)" by (rule out_taken [OF ok q])
  note F = into_facts [OF ok q m]
  show ?thesis
  proof (cases "(valid_bin_idx (int b) \<or> b = 74) \<and> kind_allows hk b")
    case False
    then show ?thesis using F by (auto simp: into_used_list_def q holds_require holds_claim slices_const)
  next
    case True
    then have k: "kind_ok hk" "page_bin (KQueued hk (b = 74)) = Some b" "b < 75" using kind_allows_bin by blast+
    note D = org_mapD(10) [OF inv]
    let ?h = "used_dlist_headers s ! b"
    have first: "page_queue M x = Some b" if "dh_first ?h = Some x" for x using queues_first(1) [OF D k(3) that] .
    have n: "nbr_ok s True (dh_first ?h)" "dh_first ?h \<noteq> Some (g, i)" using first F(6) by (auto intro!: nbr_page [OF inv])
    let ?P = "write_prev s (dh_first ?h) (Some (g, i)) (opages s)" and ?e = "\<lparr>de_prev = None, de_next = dh_first ?h\<rparr>"
    note W = write_links(3,4) [OF n(1) refl, of "Some (g, i)"]
    let ?n = "\<lparr>dh_first = Some (g, i), dh_last = (if dh_first ?h \<noteq> None then dh_last ?h else Some (g, i))\<rparr>"
    have "queues_are ((link ?P)((g, i) \<mapsto> ?e)) ((used_dlist_headers s)[b := ?n]) (insert_front (used_lists s) b (g, i)) 75 ((page_queue M)((g, i) \<mapsto> b))"
      by (rule queue_push_front [OF D k(3) F(6)]) (simp_all add: W)
    moreover have "link ?P x = link (opages s) x" if ne: "page_queue M x \<noteq> Some b" for x
      unfolding W by (rule put_other(2)) (rule contrapos_nn [OF ne first])
    ultimately have fin: "\<exists>M'. org_ok (s\<lparr>opages := ?P((g, i) \<mapsto> (pg s (g, i))\<lparr>pd_dlist := Some ?e, pd_full := Some (b = 74)\<rparr>),
      used_dlist_headers := (used_dlist_headers s)[b := ?n], popped := No, used_lists := insert_front (used_lists s) b (g, i)\<rparr>) M'"
      by (intro page_in [OF ok q m k W(2)]) (simp_all add: W del: not_None_eq)
    show ?thesis
      unfolding into_used_list_def q Popped.case Let_def holds_require holds_claim holds_simps F(2) option.sel slices_const
      using F n fin by simp
  qed
next
  case False
  then show ?thesis by (auto simp: into_used_list_def holds_require split: Popped.splits)
qed

lemma into_back_keeps:
  assumes ok: "org_ok s M"
  shows "keeps (into_used_list_back b s)"
proof (cases "\<exists>p. popped s = Used p True")
  case True
  then obtain g i where q: "popped s = Used (g, i) True" by auto
  note inv = org_okD(1) [OF ok]
  obtain c hk where m: "M (g, i) = Some (c, KTaken hk)" by (rule out_taken [OF ok q])
  note F = into_facts [OF ok q m]
  show ?thesis
  proof (cases "(valid_bin_idx (int b) \<or> b = 74) \<and> kind_allows hk b")
    case False
    then show ?thesis using F by (auto simp: into_used_list_back_def q holds_require holds_claim slices_const)
  next
    case True
    then have k: "kind_ok hk" "page_bin (KQueued hk (b = 74)) = Some b" "b < 75" using kind_allows_bin by blast+
    note D = org_mapD(10) [OF inv]
    let ?h = "used_dlist_headers s ! b"
    have last: "page_queue M x = Some b" if "dh_last ?h = Some x" for x using queues_first(2) [OF D k(3) that] .
    have n: "nbr_ok s True (dh_last ?h)" "dh_last ?h \<noteq> Some (g, i)" using last F(6) by (auto intro!: nbr_page [OF inv])
    have both: "dh_last ?h \<noteq> None \<longleftrightarrow> dh_first ?h \<noteq> None" by (simp only: queues_first(3) [OF D k(3)])
    let ?P = "write_next s (dh_last ?h) (Some (g, i)) (opages s)" and ?e = "\<lparr>de_prev = dh_last ?h, de_next = None\<rparr>"
    note W = write_links(1,2) [OF n(1) refl, of "Some (g, i)"]
    let ?n = "\<lparr>dh_first = (if dh_last ?h \<noteq> None then dh_first ?h else Some (g, i)), dh_last = Some (g, i)\<rparr>"
    have "queues_are ((link ?P)((g, i) \<mapsto> ?e)) ((used_dlist_headers s)[b := ?n]) (insert_back (used_lists s) b (g, i)) 75 ((page_queue M)((g, i) \<mapsto> b))"
      by (rule queue_push_back [OF D k(3) F(6)]) (simp_all add: W)
    moreover have "link ?P x = link (opages s) x" if ne: "page_queue M x \<noteq> Some b" for x
      unfolding W by (rule put_other(1)) (rule contrapos_nn [OF ne last])
    ultimately have fin: "\<exists>M'. org_ok (s\<lparr>opages := ?P((g, i) \<mapsto> (pg s (g, i))\<lparr>pd_dlist := Some ?e, pd_full := Some (b = 74)\<rparr>),
      used_dlist_headers := (used_dlist_headers s)[b := ?n], popped := No, used_lists := insert_back (used_lists s) b (g, i)\<rparr>) M'"
      by (intro page_in [OF ok q m k W(2)]) (simp_all add: W del: not_None_eq)
    show ?thesis
      unfolding into_used_list_back_def q Popped.case Let_def holds_require holds_claim holds_simps F(2) option.sel slices_const
      using F n both fin by simp
  qed
next
  case False
  then show ?thesis by (auto simp: into_used_list_back_def holds_require split: Popped.splits)
qed

lemma out_of_keeps:
  assumes ok: "org_ok s M"
  shows "keeps (out_of_used_list p b j s)"
proof (cases "popped s = No \<and> valid_used_page s p b j")
  case True
  obtain g i where p: "p = (g, i)" by (cases p)
  have q: "popped s = No" using True by simp
  note inv = org_okD(1) [OF ok] and out = org_okD(2) [OF ok] and cnt = org_okD(3) [OF ok]
  obtain c hk f where m: "M (g, i) = Some (c, KQueued hk f)" and pb: "page_bin (KQueued hk f) = Some b" and b: "b < 75"
    and j: "j < length (used_lists s ! b)" "used_lists s ! b ! j = (g, i)"
    by (rule valid_used_span [OF inv]) (use True p in blast)
  note D = org_mapD(10) [OF inv]
  have K: "page_queue M (g, i) = Some b" using m pb by (simp add: page_queue_alt)
  obtain e where e: "link (opages s) (g, i) = Some e" using queues_entry [OF D K] by blast
  note n = queue_neighbours [OF D K e]
  have pgi: "pg s (g, i) = (cell (KQueued hk f) c 0)\<lparr>pd_dlist := Some e\<rparr>" using span_page0 [OF inv m] e by simp
  have fields: "pd_dlist (pg s (g, i)) = Some e" by (simp add: pgi)
  have nb: "nbr_ok s True (de_prev e)" "nbr_ok s True (de_next e)" using n(1,2) by (auto intro!: nbr_page [OF inv])
  have ne: "de_prev e \<noteq> Some (g, i)" "de_next e \<noteq> Some (g, i)" using n(1,2) by blast+
  have d: "de_prev e \<noteq> None \<longrightarrow> de_prev e \<noteq> de_next e" using n(3) by blast
  let ?P = "write_prev s (de_next e) (de_prev e) (write_next s (de_prev e) (de_next e) (opages s))"
  note W = pop_writes [OF nb refl d]
  let ?h = "used_dlist_headers s ! b"
  let ?n = "\<lparr>dh_first = (if de_prev e \<noteq> None then dh_first ?h else de_next e), dh_last = (if de_next e \<noteq> None then dh_last ?h else de_prev e)\<rparr>"
  let ?N = "M((g, i) \<mapsto> (c, KTaken hk))"
  let ?s = "s\<lparr>opages := ?P((g, i) \<mapsto> (pg s (g, i))\<lparr>pd_full := None, pd_dlist := None\<rparr>), used_dlist_headers := (used_dlist_headers s)[b := ?n],
     popped := Used (g, i) True, used_lists := (used_lists s)[b := remove_at j (used_lists s ! b)]\<rparr>"
  have n0: "cell (KTaken hk) c n = cell (KQueued hk f) c n" if "0 < n" for n using that by (simp add: cell_def)
  have lk: "link (opages ?s) = (relink (link (opages s)) (de_prev e) (de_next e))((g, i) := None)" by (simp add: W)
  have far: "de_prev e \<noteq> Some x \<and> de_next e \<noteq> Some x" if "page_queue M x = None" for x using n(1,2) [of x] that by auto
  have fin: "\<exists>M'. org_ok ?s M'"
  proof (rule org_okI)
    show "org_map ?s ?N"
    proof (rule org_map_requeue [OF inv m _ _ n0])
      show "core (opages ?s) = (core (opages s))((g, i) \<mapsto> cell (KTaken hk) c 0)" by (simp add: W pgi cell_def)
      show "link (opages ?s) x = link (opages s) x" if "x \<noteq> (g, i)" "free_queue M x \<noteq> None" for x
        using that far [of x] queues_apart(1) [of M x] unfolding lk by (auto simp: relink_other)
      show "link (opages s) x \<noteq> None \<and> x \<noteq> (g, i) \<or> x = (g, i) \<and> page_bin (KTaken hk) \<noteq> None"
        if "link (opages ?s) x \<noteq> None" for x using that relink_None unfolding lk by (auto split: if_splits simp del: not_None_eq)
      show "queues_are (link (opages ?s)) (used_dlist_headers ?s) (used_lists ?s) 75 ((page_queue M)((g, i) := page_bin (KTaken hk)))"
      proof -
        have "dh_first ?n = (if de_prev e = None then de_next e else dh_first ?h)" by (cases "de_prev e") simp_all
        moreover have "dh_last ?n = (if de_next e = None then de_prev e else dh_last ?h)" by (cases "de_next e") simp_all
        ultimately have "queues_are ((relink (link (opages s)) (de_prev e) (de_next e))((g, i) := None))
            ((used_dlist_headers s)[b := ?n]) ((used_lists s)[b := remove_at j (used_lists s ! b)]) 75 ((page_queue M)((g, i) := None))"
          by (intro queue_pop [OF D K e j]) simp
        then show ?thesis unfolding lk by (simp split del: if_split)
      qed
    qed simp_all
    have "i \<noteq> 0" using True by (simp add: p valid_used_page_def)
    then show "out_ok (popped ?s) ?N (osegments ?s)"
      by (intro out_ok_swap [OF out, of _ g i c "KTaken hk"]) (use q in \<open>auto simp: out_span_def split: if_splits\<close>)
    show "counts (osegments ?s) ?N (popped ?s)"
      using counts_same [OF cnt, of ?N "Used (g, i) True"] pages_in_requeue [of M g i c "KQueued hk f" "KTaken hk" c, OF m]
      by (simp add: q ec_of_popped_def)
  qed
  show ?thesis
    unfolding out_of_used_list_def p Let_def fields option.sel holds_require holds_claim holds_simps
    using nb d fin by simp
qed (auto simp: out_of_used_list_def holds_require)


section \<open>Segments\<close>

lemma segment_pages_None: "org_map s M \<Longrightarrow> osegments s g = None \<Longrightarrow> opages s (g, i) = None" "org_map s M \<Longrightarrow> osegments s g = None \<Longrightarrow> M (g, i) = None"
  using org_mapD(4,5) by blast+

lemma org_map_segment:
  assumes inv: "org_map s M" and st: "segment_start (seg_nr g) \<noteq> 0" and none: "osegments s g = None"
    and P: "P = opages s ++ map_new (page_id_range g 0 (512 + 1)) (\<lambda>p. blank_page)"
  shows "org_map (s\<lparr>osegments := (osegments s)(g \<mapsto> 0), opages := P, popped := q\<rparr>) (M((g, 0) \<mapsto> (512, KBlank)))" (is "org_map ?s ?N")
proof -
  note D = org_mapD [OF inv] and none' = segment_pages_None [OF inv none]
  have Pgi: "P (g, i) = (if i \<le> 512 then Some blank_page else None)" for i using none'(1) by (auto simp: P range_write)
  have Po: "P (h, i) = opages s (h, i)" if "h \<noteq> g" for h i using that by (simp add: P range_write)
  have lk: "link P = link (opages s)"
  proof
    fix x show "link P x = link (opages s) x"
      using Pgi [of "snd x"] Po [of "fst x" "snd x"] none'(1) [of "snd x"] by (cases x; cases "fst x = g") (auto simp: link_def split: if_splits)
  qed
  have fq: "free_queue ?N = free_queue M" and pq: "page_queue ?N = page_queue M"
    using none'(2) [of 0] by (auto simp: free_queue_upd page_queue_upd free_queue_def page_queue_def fun_eq_iff)
  show ?thesis
  proof (rule org_mapI)
    show "tiled ?N h" if "osegments ?s h \<noteq> None" for h
    proof (cases "h = g")
      case True
      then show ?thesis using none'(2) unfolding tiled_def by auto
    next
      case False
      then show ?thesis using D(1) [of h] that by (simp add: tiled_other)
    qed
    show "segment_start (seg_nr h) \<noteq> 0" if "osegments ?s h \<noteq> None" for h
      using that st D(2) [of h] by (cases "h = g") auto
    show "core (opages ?s) (h, 512) = Some blank_page" if "osegments ?s h \<noteq> None" for h
      using that D(3) [of h] Pgi [of 512] Po [of h 512] by (cases "h = g") (simp_all add: core_def)
    show "osegments ?s h \<noteq> None" if "?N (h, i) \<noteq> None" for h i using that D(4) [of h i] by (auto split: if_splits)
    show "osegments ?s h \<noteq> None \<and> i \<le> 512" if "opages ?s (h, i) \<noteq> None" for h i
      using that D(5) [of h i] Pgi [of i] Po [of h i] by (cases "h = g") (auto split: if_splits)
    show "core (opages ?s) (h, i + m) = Some (cell k c m)" if a: "?N (h, i) = Some (c, k)" "m < c" for h i c k m
    proof (cases "h = g")
      case True
      then have "i = 0" "c = 512" "k = KBlank" using a(1) none'(2) by (auto split: if_splits)
      then show ?thesis using True a(2) Pgi [of m] by (simp add: core_def cell_blank)
    next
      case False
      then show ?thesis using a D(6) [of h i c k m] Po [of h] by (simp add: core_def)
    qed
    show "free_queue ?N p \<noteq> None \<or> page_queue ?N p \<noteq> None" if "link (opages ?s) p \<noteq> None" for p
      using that D(7) [of p] unfolding fq pq by (simp add: lk)
    show "kind_ok hk" if "?N p = Some (c, KQueued hk f)" for p c hk f using that D(8) [of p c hk f] by (auto split: if_splits)
    show "queues_are (link (opages ?s)) (unused_dlist_headers ?s) (unused_lists ?s) 32 (free_queue ?N)" using D(9) lk unfolding fq by simp
    show "queues_are (link (opages ?s)) (used_dlist_headers ?s) (used_lists ?s) 75 (page_queue ?N)" using D(10) lk unfolding pq by simp
  qed
qed

lemma create_keeps:
  assumes ok: "org_ok s M"
  shows "keeps (create_segment g s)"
proof (cases "popped s = No \<and> osegments s g = None \<and> segment_start (seg_nr g) \<noteq> 0")
  case True
  note inv = org_okD(1) [OF ok] and out = org_okD(2) [OF ok] and cnt = org_okD(3) [OF ok]
  let ?P = "opages s ++ map_new (page_id_range g 0 (512 + 1)) (\<lambda>p. blank_page)" and ?N = "M((g, 0) \<mapsto> (512, KBlank))"
  let ?s = "s\<lparr>osegments := (osegments s)(g \<mapsto> 0), opages := ?P, popped := SegmentCreating g\<rparr>"
  have none: "M (g, i) = None" for i using segment_pages_None(2) [OF inv] True by blast
  have fin: "\<exists>M'. org_ok ?s M'"
  proof (rule org_okI)
    show "org_map ?s ?N" by (rule org_map_segment [OF inv _ _ refl]) (use True in simp_all)
    show "out_ok (popped ?s) ?N (osegments ?s)"
      by (rule out_ok_swap [OF out, of _ g 0 512 KBlank]) (use True in \<open>auto simp: out_span_def split: if_splits\<close>)
    have "pages_in ?N h = pages_in M h" for h using none by (simp add: pages_in_quiet)
    moreover have "pages_in M g = {}" using none by (simp add: pages_in_def)
    ultimately show "counts (osegments ?s) ?N (popped ?s)" using cnt True by (auto simp: counts_def ec_of_popped_def)
  qed
  then show ?thesis using True by (simp add: create_segment_def require_def slices_const)
qed (auto simp: create_segment_def holds_require)

lemma freeing_start_keeps:
  assumes ok: "org_ok s M"
  shows "keeps (segment_freeing_start g s)"
proof (cases "popped s = No \<and> osegments s g = Some 0")
  case True
  then have q: "popped s = No" and n: "osegments s g = Some 0" by simp_all
  note inv = org_okD(1) [OF ok] and out = org_okD(2) [OF ok] and cnt = org_okD(3) [OF ok]
  have t: "tiled M g" using org_mapD(1) [OF inv, of g] n by simp
  obtain j c k where j: "M (g, j) = Some (c, k)" "j \<le> 0" using t unfolding tiled_def by (metis zero_less_numeral)
  then have m: "M (g, 0) = Some (c, KFirst)" using out_okD(4) [OF out, of g c k] by (auto simp: q out_span_def)
  note f = span_facts [OF inv m]
  let ?N = "M((g, 0) \<mapsto> (c, KBlank))" and ?P = "opages s ++ map_new (page_id_range g 0 c) (\<lambda>q. blank_page)"
  have pg0: "opages s (g, 0) \<noteq> None" "pd_count (pg s (g, 0)) = Some c" using span_page0 [OF inv m] by (simp_all add: cell_def)
  have fin: "\<exists>M'. org_ok s' M'" if s': "s' = s\<lparr>opages := ?P, popped := SegmentFreeing g c\<rparr>" for s'
  proof (rule org_okI)
    show "org_map s' ?N"
      by (rule range_relabel [OF inv m, where F = "\<lambda>q. blank_page"]) (simp_all add: s' cell_blank)
    show "out_ok (popped s') ?N (osegments s')"
      by (rule out_ok_swap [OF out, of _ g 0 c KBlank]) (use q n in \<open>auto simp: s' out_span_def split: if_splits\<close>)
    show "counts (osegments s') ?N (popped s')"
      using counts_same [OF cnt, of ?N "SegmentFreeing g c"] m by (simp add: s' q ec_of_popped_def pages_in_quiet)
  qed
  show ?thesis
    unfolding segment_freeing_start_def Let_def holds_require holds_claim holds_simps pg0(2) option.sel
    using pg0 q n f fin [OF refl] by (simp add: slices_const)
qed (auto simp: segment_freeing_start_def holds_require)

lemma freeing_finish_keeps:
  assumes ok: "org_ok s M"
  shows "keeps (segment_freeing_finish s)"
proof (cases "popped s")
  case (SegmentFreeing g i)
  note q = SegmentFreeing
  note inv = org_okD(1) [OF ok] and out = org_okD(2) [OF ok] and cnt = org_okD(3) [OF ok]
  note D = org_mapD [OF inv]
  have n: "osegments s g = Some 0" by (rule out_okD(6) [OF out q])
  have m: "M (g, 0) = Some (i, KBlank)" using out_okD(2) [OF out, of "(g, 0)"] by (auto simp: q out_span_def)
  show ?thesis
  proof (cases "i = 512")
    case True
    note f = span_facts [OF inv m]
    have only: "M (g, j) = None" if "j \<noteq> 0" for j
    proof (cases "j < 512")
      case lt: True
      then show ?thesis using tiled_inside [OF f(1) m, of j] that True by simp
    next
      case False
      have "\<not> (\<exists>d u. M (g, j) = Some (d, u))" using f(1) False unfolding tiled_def by fastforce
      then show ?thesis by (cases "M (g, j)") auto
    qed
    let ?P = "opages s |` (- page_id_range g 0 (512 + 1))" and ?N = "M((g, 0) := None)"
    have Pg: "?P (g, j) = None" for j using D(5) [of g j] by (cases "opages s (g, j)") (auto simp: page_id_range_def restrict_map_def)
    have Po: "?P (h, j) = opages s (h, j)" if "h \<noteq> g" for h j using that by (simp add: page_id_range_def restrict_map_def)
    let ?s = "s\<lparr>osegments := (osegments s)(g := None), popped := No, opages := ?P\<rparr>"
    have Ng: "?N (g, j) = None" for j using only by simp
    have lnone: "link (opages s) (g, j) = None" for j
      using D(7) [of "(g, j)"] m only [of j] by (cases "link (opages s) (g, j)"; cases "j = 0") (auto simp: free_queue_def page_queue_def)
    have lk: "link ?P = link (opages s)"
    proof
      fix x show "link ?P x = link (opages s) x"
        using Pg [of "snd x"] Po [of "fst x" "snd x"] lnone [of "snd x"] by (cases x; cases "fst x = g") (auto simp: link_def)
    qed
    have fq: "free_queue ?N = free_queue M" and pq: "page_queue ?N = page_queue M"
      using m by (auto simp: free_queue_def page_queue_def fun_eq_iff)
    have fin: "\<exists>M'. org_ok ?s M'"
    proof (rule org_okI)
      show "org_map ?s ?N"
      proof (rule org_mapI)
        show "tiled ?N h" if "osegments ?s h \<noteq> None" for h
          using that D(1) [of h] by (cases "h = g") (simp_all add: tiled_other)
        show "segment_start (seg_nr h) \<noteq> 0" if "osegments ?s h \<noteq> None" for h
          using that D(2) [of h] by (cases "h = g") auto
        show "core (opages ?s) (h, 512) = Some blank_page" if "osegments ?s h \<noteq> None" for h
          using that D(3) [of h] Po [of h 512] by (cases "h = g") (simp_all add: core_def)
        show "osegments ?s h \<noteq> None" if "?N (h, j) \<noteq> None" for h j using that D(4) [of h j] Ng [of j] by (cases "h = g") auto
        show "osegments ?s h \<noteq> None \<and> j \<le> 512" if "opages ?s (h, j) \<noteq> None" for h j
          using that D(5) [of h j] Pg [of j] Po [of h j] by (cases "h = g") auto
        show "core (opages ?s) (h, j + l) = Some (cell k c l)" if a: "?N (h, j) = Some (c, k)" "l < c" for h j c k l
          using a D(6) [of h j c k l] Po [of h] Ng [of j] by (cases "h = g") (simp_all add: core_def)
        show "free_queue ?N p \<noteq> None \<or> page_queue ?N p \<noteq> None" if "link (opages ?s) p \<noteq> None" for p
          using that D(7) [of p] lk unfolding fq pq by simp
        show "kind_ok hk" if "?N p = Some (c, KQueued hk f)" for p c hk f using that D(8) [of p c hk f] by (auto split: if_splits)
        show "queues_are (link (opages ?s)) (unused_dlist_headers ?s) (unused_lists ?s) 32 (free_queue ?N)" using D(9) lk unfolding fq by simp
        show "queues_are (link (opages ?s)) (used_dlist_headers ?s) (used_lists ?s) 75 (page_queue ?N)" using D(10) lk unfolding pq by simp
      qed
      show "out_ok (popped ?s) ?N (osegments ?s)"
      proof -
        have "\<not> is_out k" if "M (h, j) = Some (c, k)" "(h, j) \<noteq> (g, 0)" for h j c k
          using out_okD(1) [OF out that(1)] that(2) by (auto simp: q out_span_def)
        moreover have "k = KFirst" if "M (h, 0) = Some (c, k)" "h \<noteq> g" for h c k
          using out_okD(4) [OF out that(1)] that(2) by (auto simp: q out_span_def)
        ultimately show ?thesis using out_okD(3) [OF out] by (auto simp: out_ok_def out_span_def)
      qed
      have "pages_in ?N h = pages_in M h" for h using m by (simp add: pages_in_drop)
      then show "counts (osegments ?s) ?N (popped ?s)" using cnt by (auto simp: counts_def ec_of_popped_def q)
    qed
    then show ?thesis using n True by (simp add: segment_freeing_finish_def q require_def claim_def slices_const)
  qed (simp add: segment_freeing_finish_def q holds_require slices_const)
qed (simp_all add: segment_freeing_finish_def)

lemma initialize_ok: "org_ok initialize Map.empty"
proof -
  have fq: "free_queue Map.empty = Map.empty" "page_queue Map.empty = Map.empty" "link Map.empty = Map.empty"
    by (auto simp: free_queue_def page_queue_def link_def fun_eq_iff)
  have q: "queues_are Map.empty (replicate n \<lparr>dh_first = None, dh_last = None\<rparr>) (replicate n []) n Map.empty" for n
    by (simp add: queues_are_def)
  show ?thesis
    using q [of 32] q [of 75] by (simp add: org_ok_def org_map_def initialize_def fq slices_const core_def out_ok_def out_span_def counts_def)
qed

lemma org_exec_keeps: "org_ok s M \<Longrightarrow> keeps (org_exec a s)"
  by (cases a) (simp_all only: org_exec.simps take_keeps split_keeps create_keeps allocate_keeps forget_keeps forget2_keeps
      clear_keeps free_keeps used_keeps not_used_keeps into_keeps into_back_keeps out_of_keeps freeing_start_keeps
      freeing_finish_keeps merge_after_keeps merge_before_keeps)

interpretation spans_machine: machine org_exec "\<lambda>s. \<exists>M. org_ok s M"
  by unfold_locales (use org_exec_keeps in blast)

lemma org_reach_ok: "org_reach s \<Longrightarrow> \<exists>M. org_ok s M"
proof (induction rule: org_reach.induct)
  case init
  then show ?case using initialize_ok by blast
next
  case (step s a s')
  then show ?case using spans_machine.next_ok by blast
qed

end
