(* ===== verification/Page_Org_Declared.thy ===== *)
theory Page_Org_Declared
  imports Page_Org_Spec Page_Org_Steps
begin

text \<open>
  The invariants declared in the source (\<open>Page_Org_Spec\<close>) follow from the one of \<open>Page_Org_Inv\<close>: the map of spans
  says of every page to which span it belongs, and so which fields it has, in which queue it is and
  what follows it.
\<close>

section \<open>From a page to its span\<close>

lemma page_at:
  assumes inv: "org_map s M" and p: "opages s (g, j) \<noteq> None"
  obtains (last) "j = 512" "pd_offset (pg s (g, j)) = None" "pd_count (pg s (g, j)) = None" "\<not> pd_used (pg s (g, j))"
    | (span) i c k m where "M (g, i) = Some (c, k)" "m < c" "j = i + m"
      "pg s (g, j) = (cell k c m)\<lparr>pd_dlist := link (opages s) (g, j)\<rparr>"
proof -
  have g: "osegments s g \<noteq> None" "j \<le> 512" using org_mapD(5) [OF inv p] by auto
  show ?thesis
  proof (cases "j = 512")
    case True
    have "opages s (g, j) = Some (blank_page\<lparr>pd_dlist := link (opages s) (g, j)\<rparr>)"
      using core_link [OF org_mapD(3) [OF inv g(1)]] True by simp
    then show ?thesis using True by (intro last) (simp_all add: pg_def blank_page_def)
  next
    case False
    then have "j < 512" using g(2) by simp
    then obtain i c k where m: "M (g, i) = Some (c, k)" "i \<le> j" "j < i + c"
      using org_mapD(1) [OF inv g(1)] unfolding tiled_def by blast
    then have j: "j - i < c" "i + (j - i) = j" by auto
    show ?thesis
    proof (rule span [OF m(1) j(1)])
      show "j = i + (j - i)" using j(2) by simp
      show "pg s (g, j) = (cell k c (j - i))\<lparr>pd_dlist := link (opages s) (g, j)\<rparr>" using span_page(2) [OF inv m(1) j(1)] unfolding j(2) .
    qed
  qed
qed

lemma header_at:
  assumes inv: "org_map s M" and p: "opages s (g, i) \<noteq> None"
    and h: "pd_offset (pg s (g, i)) = Some 0 \<or> pd_count (pg s (g, i)) \<noteq> None"
  obtains c k where "M (g, i) = Some (c, k)" "k \<noteq> KBlank" "pg s (g, i) = (cell k c 0)\<lparr>pd_dlist := link (opages s) (g, i)\<rparr>"
  using inv p
proof (cases rule: page_at)
  case last
  then show thesis using h by simp
next
  case (span i' c k m)
  then have "m = 0 \<and> k \<noteq> KBlank" using h by (cases k) (auto simp: cell_def split: if_splits)
  then show thesis using span that by simp
qed

lemma in_range_page:
  assumes inv: "org_map s M" and m: "M (g, i) = Some (c, k)" and q: "in_range (g, i) c q"
  obtains m where "m < c" "q = (g, i + m)" "opages s q \<noteq> None" "pg s q = (cell k c m)\<lparr>pd_dlist := link (opages s) q\<rparr>"
    "m \<noteq> 0 \<or> \<not> (k = KFree \<or> (\<exists>hk f. k = KQueued hk f)) \<Longrightarrow> link (opages s) q = None"
proof -
  obtain j where j: "q = (g, j)" "i \<le> j" "j < i + c" using q by (cases q) (auto simp: in_range_def)
  then have n: "j - i < c" "i + (j - i) = j" by auto
  show thesis
  proof (rule that [OF n(1)])
    show "q = (g, i + (j - i))" using j n by simp
    show "opages s q \<noteq> None" "pg s q = (cell k c (j - i))\<lparr>pd_dlist := link (opages s) q\<rparr>"
      using span_page [OF inv m n(1)] unfolding n(2) j(1) by simp_all
    show "link (opages s) q = None" if "j - i \<noteq> 0 \<or> \<not> (k = KFree \<or> (\<exists>hk f. k = KQueued hk f))"
      unfolding j(1) by (rule span_link_None [OF inv m j(2,3)]) (use that in auto)
  qed
qed

text \<open>The queue of a span in a queue.\<close>

lemma free_in_queue:
  assumes inv: "org_map s M" and m: "M p = Some (c, KFree)"
  shows "link (opages s) p \<noteq> None" "sbin_of c < 32" "p \<in> set (unused_lists s ! sbin_of c)"
proof -
  have q: "free_queue M p = Some (sbin_of c)" using m by (simp add: free_queue_def)
  note D = queues_areD [OF org_mapD(9) [OF inv]]
  show b: "sbin_of c < 32" by (rule D(3) [OF q])
  show "p \<in> set (unused_lists s ! sbin_of c)" using D(8) [OF b] q by simp
  show "link (opages s) p \<noteq> None" using queues_entry [OF org_mapD(9) [OF inv] q] by auto
qed

lemma page_in_queue:
  assumes inv: "org_map s M" and m: "M p = Some (c, KQueued (NormalPage i n) f)"
  shows "link (opages s) p \<noteq> None" "(if f then 74 else nat i) < 75" "p \<in> set (used_lists s ! (if f then 74 else nat i))"
    "valid_bin_idx i" "n = int (size_of_bin i)" "i = smallest_bin_fitting_size n" "n \<le> 131072"
proof -
  have q: "page_queue M p = Some (if f then 74 else nat i)" using m by (simp add: page_queue_def)
  note D = queues_areD [OF org_mapD(10) [OF inv]]
  show b: "(if f then 74 else nat i) < 75" by (rule D(3) [OF q])
  show "p \<in> set (used_lists s ! (if f then 74 else nat i))" using D(8) [OF b] q by simp
  show "link (opages s) p \<noteq> None" using queues_entry [OF org_mapD(10) [OF inv] q] by auto
  have "kind_ok (NormalPage i n)" by (rule org_mapD(8) [OF inv m])
  then have "valid_bin_idx i \<and> n = int (size_of_bin i) \<and> i = smallest_bin_fitting_size n \<and> n \<le> 131072"
    unfolding kind_ok_def PageHeaderKind.case .
  then show "valid_bin_idx i" "n = int (size_of_bin i)" "i = smallest_bin_fitting_size n" "n \<le> 131072" by blast+
qed

lemma in_lls: "i < length ls \<Longrightarrow> p \<in> set (ls ! i) \<Longrightarrow> is_in_lls p ls"
  unfolding is_in_lls_def by (meson in_set_conv_nth)

lemma in_list_at: "i < length ls \<Longrightarrow> p \<in> set (ls ! i) \<Longrightarrow> is_in_list_at p ls (int i)"
  unfolding is_in_list_at_def by (auto simp: in_set_conv_nth)


section \<open>The declared invariants hold\<close>

lemma domain_ok:
  assumes ok: "org_ok s M"
  shows "ll_basics s" "page_id_domain s" "segments_nonzero s" "count_off0 s"
proof -
  note inv = org_okD(1) [OF ok]
  note D = org_mapD [OF inv]
  show "ll_basics s" using queues_areD(1,2) [OF D(9)] queues_areD(1,2) [OF D(10)] by (simp add: ll_basics_def slices_const)
  have "opages s (g, j) \<noteq> None" if g: "osegments s g \<noteq> None" and j: "j \<le> 512" for g j
  proof (cases "j = 512")
    case True
    then show ?thesis using D(3) [OF g] core_None [of "opages s" "(g, 512)"] by auto
  next
    case False
    then obtain i c k where m: "M (g, i) = Some (c, k)" "i \<le> j" "j < i + c" using j D(1) [OF g] unfolding tiled_def by (metis le_neq_implies_less)
    then show ?thesis using span_page(1) [OF inv m(1), of "j - i"] by auto
  qed
  then show "page_id_domain s" using D(5) unfolding page_id_domain_def slices_const split_paired_All fst_conv snd_conv by blast
  show "segments_nonzero s" using D(2) unfolding segments_nonzero_def by blast
  have "1 \<le> the (pd_count (pg s (g, i))) \<and> i + the (pd_count (pg s (g, i))) \<le> 512"
    if p: "opages s (g, i) \<noteq> None" "pd_count (pg s (g, i)) \<noteq> None" for g i
    using inv p(1) disjI2 [OF p(2)]
  proof (cases rule: header_at)
    case (1 c k)
    then show ?thesis using span_facts(3,4) [OF inv 1(1)] by (simp add: cell_def)
  qed
  then show "count_off0 s" unfolding count_off0_def slices_const split_paired_All fst_conv snd_conv by blast
qed


text \<open>The span that is out, by the kind of the state.\<close>

lemma out_span_map:
  assumes ok: "org_ok s M" and q: "out_span (popped s) = Some p"
  obtains c k where "M p = Some (c, k)" "out_data (popped s) (c, k)"
  using out_okD(2) [OF org_okD(2) [OF ok] q] by (metis prod.exhaust)

lemma settled_queued:
  assumes ok: "org_ok s M" and m: "M p = Some (c, k)" "is_page k" and p: "settled s p"
  obtains i n f where "k = KQueued (NormalPage i n) f"
proof (cases k)
  case (KQueued hk f)
  then show thesis using that by (cases hk) simp
next
  case (KTaken hk)
  then have q: "out_span (popped s) = Some p" using out_okD(1) [OF org_okD(2) [OF ok] m(1)] by simp
  then have "out_data (popped s) (c, k)" using out_okD(2) [OF org_okD(2) [OF ok] q] m(1) by auto
  then show thesis using p q KTaken by (cases "popped s") (auto simp: settled_def out_span_def)
qed (use m(2) in simp_all)

lemma queued_header:
  assumes inv: "org_map s M" and m: "M (g, i) = Some (c, KQueued (NormalPage b n) f)"
    and p: "pg s (g, i) = (cell (KQueued (NormalPage b n) f) c 0)\<lparr>pd_dlist := link (opages s) (g, i)\<rparr>"
  shows "header_data s (g, i)" "header_queue s (g, i)"
proof -
  note q = page_in_queue [OF inv m]
  have k: "pd_kind (pg s (g, i)) = Some (NormalPage b n)" "pd_full (pg s (g, i)) = Some f" "pd_dlist (pg s (g, i)) = link (opages s) (g, i)"
    by (simp_all add: p cell_def)
  show "header_data s (g, i)" unfolding header_data_def k option.case PageHeaderKind.case slices_const using q(1,4-7) by blast
  have ls: "length (used_lists s) = 75" using queues_areD(2) [OF org_mapD(10) [OF inv]] .
  then have at: "is_in_list_at (g, i) (used_lists s) (int (if f then 74 else nat b))" using in_list_at [of _ "used_lists s" "(g, i)"] q(2,3) by simp
  have "0 \<le> b" using q(4) by (simp add: valid_bin_idx_def)
  then show "header_queue s (g, i)" using at by (simp add: header_queue_def k slices_const split: if_splits)
qed

lemma used_headers_ok:
  assumes ok: "org_ok s M"
  shows "data_for_used_header s" "ll_inv_valid_used2 s"
proof -
  note inv = org_okD(1) [OF ok]
  have "header_data s (g, i) \<and> header_queue s (g, i)"
    if p: "opages s (g, i) \<noteq> None" "settled s (g, i)" "pd_used (pg s (g, i))" "pd_offset (pg s (g, i)) = Some 0" for g i
    using inv p(1) disjI1 [OF p(4)]
  proof (cases rule: header_at)
    case (1 c k)
    have "is_page k" using p(3) by (simp add: 1(3) cell_def)
    with ok 1(1) obtain b n f where "k = KQueued (NormalPage b n) f" using p(2) by (rule settled_queued)
    then show ?thesis using queued_header [OF inv, of g i c b n f] 1 by simp
  qed
  then show "data_for_used_header s" "ll_inv_valid_used2 s"
    unfolding data_for_used_header_def ll_inv_valid_used2_def split_paired_All by blast+
qed

text \<open>A free header is in the queue of its size.\<close>

lemma free_header_queued:
  assumes inv: "org_map s M" and m: "M p = Some (c, KFree)"
    and p: "pg s p = (cell KFree c 0)\<lparr>pd_dlist := link (opages s) p\<rparr>"
  shows "pd_count (pg s p) \<noteq> None" "is_in_lls p (unused_lists s)"
  using in_lls [of "sbin_of c" "unused_lists s" p] free_in_queue [OF inv m] queues_areD(2) [OF org_mapD(9) [OF inv]]
  by (simp_all add: p cell_def)

lemma unused_header:
  assumes ok: "org_ok s M" and p: "opages s (g, i) \<noteq> None" "pd_offset (pg s (g, i)) = Some 0" "\<not> pd_used (pg s (g, i))" "i \<noteq> 0"
    and o: "\<not> in_popped_range s (g, i)"
  shows "pd_count (pg s (g, i)) \<noteq> None \<and> is_in_lls (g, i) (unused_lists s)"
  using org_okD(1) [OF ok] p(1) disjI1 [OF p(2)]
proof (cases rule: header_at)
  case (1 c k)
  note inv = org_okD(1) [OF ok]
  have "k \<noteq> KFirst" using out_okD(3) [OF org_okD(2) [OF ok], of g i c] 1(1) p(4) by auto
  moreover have "k \<noteq> KReady"
  proof
    assume k: "k = KReady"
    then have q: "out_span (popped s) = Some (g, i)" using out_okD(1) [OF org_okD(2) [OF ok] 1(1)] by simp
    then have "out_data (popped s) (c, k)" using out_okD(2) [OF org_okD(2) [OF ok] q] 1(1) by auto
    then have "in_popped_range s (g, i)"
      using q k span_facts(3) [OF inv 1(1)] by (cases "popped s") (auto simp: in_popped_range_def out_span_def 1(3) cell_def)
    then show False using o by simp
  qed
  ultimately have "k = KFree" using 1(2) p(3) by (cases k) (auto simp: 1(3) cell_def)
  then show ?thesis using free_header_queued [OF inv, of "(g, i)" c] 1 by simp
qed


text \<open>The queues are linked lists of the spans they name.\<close>

lemma linked_valid:
  assumes l: "linked (link P) None ll None" and j: "j < length ll"
  shows "valid_ll_i P ll j"
proof -
  have s: "ll = take j ll @ ll ! j # drop (Suc j) ll" using j by (rule id_take_nth_drop)
  have "linked (link P) None (take j ll @ ll ! j # drop (Suc j) ll) None" using l s by metis
  then have e: "link P (ll ! j) = Some \<lparr>de_prev = last_opt None (take j ll), de_next = hd_opt None (drop (Suc j) ll)\<rparr>" by (rule linked_at)
  have pv: "last_opt None (take j ll) = get_prev ll j"
    using j by (cases j) (auto simp: last_opt_def get_prev_def take_Suc_conv_app_nth)
  have nx: "hd_opt None (drop (Suc j) ll) = get_next ll j"
    using j by (auto simp: hd_opt_def get_next_def Cons_nth_drop_Suc [symmetric] split: list.splits)
  show ?thesis using e j unfolding pv nx by (cases "P (ll ! j)") (simp_all add: valid_ll_i_def link_def)
qed

lemma queue_valid_ll:
  assumes "queues_are (link P) hs ls n K" "i < n"
  shows "valid_ll P (hs ! i) (ls ! i)"
proof -
  have "dh_first (hs ! i) = hd_opt None (ls ! i)" "dh_last (hs ! i) = last_opt None (ls ! i)"
    using queues_areD(4,5) [OF assms] .
  then show ?thesis using linked_valid [OF queues_areD(6) [OF assms]]
    by (auto simp: valid_ll_def hd_opt_def last_opt_def last_conv_nth split: list.splits)
qed

lemma queued_at:
  assumes "queues_are E hs ls n K" "i < length ls" "j < length (ls ! i)"
  shows "K (ls ! i ! j) = Some i"
  using queues_areD(2,8) [OF assms(1)] assms(2,3) nth_mem [OF assms(3)] by auto

lemma unused_queues_ok:
  assumes ok: "org_ok s M"
  shows "ll_inv_valid_unused s" "ll_inv_exists_in_some_list s" "ready_popped_not_in_unused_lists s"
proof -
  note inv = org_okD(1) [OF ok]
  note q = org_mapD(9) [OF inv]
  have n: "length (unused_lists s) = 32" using queues_areD(2) [OF q] .
  have e: "\<exists>g k c. unused_lists s ! i ! j = (g, k) \<and> M (g, k) = Some (c, KFree) \<and> sbin_of c = i"
    if "i < length (unused_lists s)" "j < length (unused_lists s ! i)" for i j
    using queued_at [OF q that] by (cases "unused_lists s ! i ! j") (auto elim: queued_spanE)
  have bin: "int i = smallest_sbin_fitting_size (int (the (pd_count (pg s (unused_lists s ! i ! j)))))"
    if ij: "i < length (unused_lists s)" "j < length (unused_lists s ! i)" for i j
  proof -
    obtain g k c where c: "unused_lists s ! i ! j = (g, k)" "M (g, k) = Some (c, KFree)" "sbin_of c = i" using e [OF ij] by blast
    then show ?thesis using span_page0 [OF inv c(2)] sbin_lt(2) [of c] span_facts(4) [OF inv c(2)] by (simp add: cell_def)
  qed
  have all: "let p = unused_lists s ! i ! j in
          i \<le> unat SEGMENT_BIN_MAX \<and> opages s p \<noteq> None \<and> snd p \<noteq> 0 \<and> \<not> pd_used (pg s p)
          \<and> (case pd_count (pg s p) of Some c \<Rightarrow> 1 \<le> c \<and> c \<le> unat SLICES_PER_SEGMENT | None \<Rightarrow> False)
          \<and> pd_offset (pg s p) = Some 0 \<and> pd_dlist (pg s p) \<noteq> None \<and> valid_unused_page s p i j
          \<and> int i = smallest_sbin_fitting_size (int (the (pd_count (pg s p))))"
    if ij: "i < length (unused_lists s)" "j < length (unused_lists s ! i)" for i j
  proof -
    obtain g k c where c: "unused_lists s ! i ! j = (g, k)" "M (g, k) = Some (c, KFree)" "sbin_of c = i" using e [OF ij] by blast
    have "k \<noteq> 0"
    proof
      assume "k = 0"
      then have o: "out_span (popped s) = Some (g, 0)" using out_okD(4) [OF org_okD(2) [OF ok], of g c KFree] c(2) by simp
      then have "out_data (popped s) (c, KFree)" using out_okD(2) [OF org_okD(2) [OF ok] o] c(2) \<open>k = 0\<close> by simp
      then show False using o by (cases "popped s") (auto simp: out_span_def)
    qed
    then show ?thesis using span_page0 [OF inv c(2)] span_facts(3,4) [OF inv c(2)] free_in_queue(1) [OF inv c(2)] bin [OF ij] ij n c(1)
      by (simp add: cell_def valid_unused_page_def slices_const)
  qed
  show "ll_inv_valid_unused s" unfolding ll_inv_valid_unused_def using queue_valid_ll [OF q] all n by simp
  show "ll_inv_exists_in_some_list s"
    unfolding ll_inv_exists_in_some_list_def split_paired_All using unused_header [OF ok] bin by simp
  have "unused_lists s ! i ! j \<noteq> p" if r: "popped s = Ready p b" and ij: "i < length (unused_lists s)" "j < length (unused_lists s ! i)" for p b i j
  proof -
    obtain c k where "M p = Some (c, k)" "out_data (popped s) (c, k)" by (rule out_span_map [OF ok, of p]) (simp add: r out_span_def)
    then show ?thesis using e [OF ij] r by auto
  qed
  then show "ready_popped_not_in_unused_lists s" by (auto simp: ready_popped_not_in_unused_lists_def split: Popped.splits)
qed

lemma used_queues_ok:
  assumes ok: "org_ok s M"
  shows "ll_inv_valid_used s"
proof -
  note inv = org_okD(1) [OF ok]
  note q = org_mapD(10) [OF inv]
  have n: "length (used_lists s) = 75" using queues_areD(2) [OF q] .
  have all: "let p = used_lists s ! i ! j in
          (valid_bin_idx (int i) \<or> i = unat BIN_FULL) \<and> valid_used_page s p i j \<and> pd_count (pg s p) \<noteq> None
          \<and> pd_full (pg s p) = Some (i = unat BIN_FULL) \<and> (case popped s of Ready q _ \<Rightarrow> p \<noteq> q | _ \<Rightarrow> True)"
    if ij: "i < length (used_lists s)" "j < length (used_lists s ! i)" for i j
  proof -
    obtain g k where p: "used_lists s ! i ! j = (g, k)" by fastforce
    obtain c hk f where m: "M (g, k) = Some (c, KQueued hk f)" "page_bin (KQueued hk f) = Some i"
      by (rule paged_spanE [OF queued_at [OF q ij, unfolded p]])
    obtain b sz where hk: "hk = NormalPage b sz" by (cases hk)
    note m' = m(1) [unfolded hk]
    note Q = page_in_queue [OF inv m']
    have i: "i = (if f then 74 else nat b)" using m(2) by (simp add: hk split: if_splits)
    have b: "0 \<le> b" "b \<le> 73" using Q(4) by (simp_all add: valid_bin_idx_def)
    have k: "k \<noteq> 0"
    proof
      assume "k = 0"
      then have o: "out_span (popped s) = Some (g, 0)" using out_okD(4) [OF org_okD(2) [OF ok], of g c "KQueued hk f"] m(1) by simp
      then have "out_data (popped s) (c, KQueued hk f)" using out_okD(2) [OF org_okD(2) [OF ok] o] m(1) \<open>k = 0\<close> by simp
      then show False using o by (cases "popped s") (auto simp: out_span_def)
    qed
    have f: "i = 74 \<longleftrightarrow> f" and ib: "\<not> f \<Longrightarrow> int i = b" using i b by (auto split: if_splits)
    have pd: "opages s (g, k) \<noteq> None" "pd_used (pg s (g, k))" "pd_offset (pg s (g, k)) = Some 0" "pd_count (pg s (g, k)) = Some c"
      "pd_full (pg s (g, k)) = Some f" "pd_kind (pg s (g, k)) = Some (NormalPage b sz)" "pd_dlist (pg s (g, k)) \<noteq> None"
      using span_page0 [OF inv m'] Q(1) by (simp_all add: cell_def)
    have v: "valid_bin_idx (int i) \<or> i = 74" using f ib Q(4) by (cases f) auto
    have k4: "valid_bin_idx b \<and> int (size_of_bin b) = sz \<and> (i \<noteq> 74 \<longrightarrow> int i = b)" using Q(4,5) f ib by blast
    have u: "valid_used_page s (g, k) i j"
      unfolding valid_used_page_def pd option.case PageHeaderKind.case slices_const fst_conv snd_conv using pd k4 v k ij(2) p by blast
    have r: "case popped s of Ready q _ \<Rightarrow> (g, k) \<noteq> q | _ \<Rightarrow> True"
    proof (cases "popped s")
      case (Ready q b)
      then obtain c k where "M q = Some (c, k)" "out_data (popped s) (c, k)" using out_span_map [OF ok, of q] by (auto simp: out_span_def)
      then show ?thesis using m(1) Ready by auto
    qed simp_all
    show ?thesis using v u pd(4,5) f r by (simp add: p slices_const)
  qed
  show ?thesis unfolding ll_inv_valid_used_def using queue_valid_ll [OF q] all n by simp
qed


text \<open>Pages are counted by their first slice.\<close>

lemma ucount_sum_card: "ucount_sum s g n = card {i. i < n \<and> does_count s (g, i)}"
proof (induction n)
  case (Suc n)
  have "{i. i < Suc n \<and> does_count s (g, i)} = (if does_count s (g, n) then insert n else id) {i. i < n \<and> does_count s (g, i)}"
    by (auto simp: less_Suc_eq)
  then show ?case using Suc by (simp add: one_count_def)
qed simp

lemma ucount_pages:
  assumes ok: "org_ok s M" and g: "osegments s g \<noteq> None"
  shows "ucount s g = card (pages_in M g)"
proof -
  note inv = org_okD(1) [OF ok]
  have "i < 512 \<and> does_count s (g, i) \<longleftrightarrow> i \<in> pages_in M g" for i
  proof
    assume a: "i < 512 \<and> does_count s (g, i)"
    then have p: "opages s (g, i) \<noteq> None" "pd_offset (pg s (g, i)) = Some 0" "pd_used (pg s (g, i))" by (auto simp: does_count_def)
    show "i \<in> pages_in M g" using inv p(1) disjI1 [OF p(2)]
    proof (cases rule: header_at)
      case (1 c k)
      then show ?thesis using p(3) by (auto simp: pages_in_def cell_def)
    qed
  next
    assume "i \<in> pages_in M g"
    then obtain c k where m: "M (g, i) = Some (c, k)" "is_page k" by (auto simp: pages_in_def)
    have "i \<noteq> 0"
    proof
      assume "i = 0"
      then have o: "k = KFirst \<or> out_span (popped s) = Some (g, 0)" using out_okD(4) [OF org_okD(2) [OF ok]] m(1) by blast
      then have o': "out_span (popped s) = Some (g, 0)" using m(2) by auto
      then have "out_data (popped s) (c, k)" using out_okD(2) [OF org_okD(2) [OF ok] o'] m(1) \<open>i = 0\<close> by simp
      then show False using o' m(2) by (cases "popped s") (auto simp: out_span_def)
    qed
    then show "i < 512 \<and> does_count s (g, i)"
      using span_page0 [OF inv m(1)] span_facts(3,4) [OF inv m(1)] m(2) by (cases k) (simp_all add: does_count_def cell_def)
  qed
  then have "{i. i < 512 \<and> does_count s (g, i)} = pages_in M g" by blast
  then show ?thesis by (simp add: ucount_def ucount_sum_card slices_const)
qed

lemma counts_ok:
  assumes ok: "org_ok s M"
  shows "count_is_right s" "end_is_unused s"
proof -
  note inv = org_okD(1) [OF ok]
  show "count_is_right s" using ucount_pages [OF ok] org_okD(3) [OF ok] by (auto simp: count_is_right_def counts_def)
  have "opages s (g, 0) \<noteq> None \<and> pd_offset (pg s (g, 0)) = Some 0 \<and> \<not> pd_used (pg s (g, 0)) \<and> pd_count (pg s (g, 0)) \<noteq> None"
    if g: "osegments s g \<noteq> None" and q: "\<not> (case popped s of SegmentCreating sid \<Rightarrow> sid = g | SegmentFreeing sid _ \<Rightarrow> sid = g | _ \<Rightarrow> False)" for g
  proof -
    obtain i c k where m: "M (g, i) = Some (c, k)" "i \<le> 0" using org_mapD(1) [OF inv g] unfolding tiled_def by (meson zero_less_numeral)
    have "out_span (popped s) \<noteq> Some (g, 0)"
    proof
      assume o: "out_span (popped s) = Some (g, 0)"
      then obtain c k where "out_data (popped s) (c, k)" using out_span_map [OF ok] by blast
      then show False using o q by (cases "popped s") (auto simp: out_span_def)
    qed
    then have "k = KFirst" using out_okD(4) [OF org_okD(2) [OF ok], of g c k] m by simp
    then show ?thesis using span_page0 [OF inv, of g 0 c k] m by (simp add: cell_def)
  qed
  then show "end_is_unused s" unfolding end_is_unused_def by blast
qed

text \<open>The pages of a span have the shape of its kind.\<close>

lemma first_span_good:
  assumes inv: "org_map s M" and m: "M (g, 0) = Some (c, KFirst)"
  shows "good_range0 s g" "pd_count (pg s (g, 0)) = Some c"
proof -
  have p: "opages s (g, 0) \<noteq> None" "pd_offset (pg s (g, 0)) = Some 0" and c: "pd_count (pg s (g, 0)) = Some c"
    using span_page0 [OF inv m] by (simp_all add: cell_def)
  show "pd_count (pg s (g, 0)) = Some c" by (rule c)
  have "opages s q \<noteq> None \<and> \<not> pd_used (pg s q) \<and> pd_full (pg s q) = None \<and> pd_kind (pg s q) = None
      \<and> (pd_count (pg s q) \<noteq> None \<longleftrightarrow> q = (g, 0)) \<and> pd_dlist (pg s q) = None \<and> pd_offset (pg s q) = Some (snd q - snd (g, 0::nat))"
    if "in_range (g, 0) c q" for q
    using inv m that by (rule in_range_page) (simp add: cell_def)
  then show "good_range0 s g" using p c span_facts(4) [OF inv m] by (simp add: good_range0_def Let_def slices_const)
qed

lemma free_span_good:
  assumes inv: "org_map s M" and m: "M (g, i) = Some (c, KFree)"
  shows "good_range_unused s (g, i)"
proof -
  have p: "opages s (g, i) \<noteq> None" "pd_offset (pg s (g, i)) = Some 0" and c: "pd_count (pg s (g, i)) = Some c"
    using span_page0 [OF inv m] by (simp_all add: cell_def)
  have "opages s q \<noteq> None \<and> \<not> pd_used (pg s q) \<and> pd_full (pg s q) = None \<and> pd_kind (pg s q) = None
      \<and> (pd_count (pg s q) \<noteq> None \<longleftrightarrow> q = (g, i)) \<and> (pd_dlist (pg s q) \<noteq> None \<longleftrightarrow> q = (g, i))
      \<and> pd_offset (pg s q) = (if q = (g, i) \<or> q = (g, i + c - 1) then Some (snd q - i) else None)"
    if q: "in_range (g, i) c q" for q
    using inv m q
  proof (rule in_range_page)
    fix n
    assume n: "n < c" "q = (g, i + n)" "opages s q \<noteq> None" "pg s q = (cell KFree c n)\<lparr>pd_dlist := link (opages s) q\<rparr>"
      "n \<noteq> 0 \<or> \<not> (KFree = KFree \<or> (\<exists>hk f. KFree = KQueued hk f)) \<Longrightarrow> link (opages s) q = None"
    have "link (opages s) q \<noteq> None \<longleftrightarrow> n = 0" using n(5) free_in_queue(1) [OF inv m] n(2) by (cases "n = 0") simp_all
    moreover have "i + n = i + c - 1 \<longleftrightarrow> n = c - 1" using n(1) by auto
    ultimately show ?thesis using n(2-4) by (simp add: cell_def)
  qed
  then show ?thesis using p c span_facts(4) [OF inv m] by (simp add: good_range_unused_def Let_def slices_const)
qed

lemma page_span_good:
  assumes inv: "org_map s M" and m: "M (g, i) = Some (c, k)" "is_page k"
  shows "good_range_used s (g, i)"
proof -
  have k: "k \<noteq> KBlank" "k \<noteq> KFree" using m(2) by auto
  have p: "opages s (g, i) \<noteq> None" "pd_offset (pg s (g, i)) = Some 0" and c: "pd_count (pg s (g, i)) = Some c"
    using span_page0 [OF inv m(1)] k by (simp_all add: cell_def split: kind.splits)
  have "opages s q \<noteq> None \<and> pd_used (pg s q) \<and> pd_offset (pg s q) = Some (snd q - i)
      \<and> (pd_kind (pg s q) \<noteq> None \<longleftrightarrow> q = (g, i)) \<and> (q \<noteq> (g, i) \<longrightarrow> pd_dlist (pg s q) = None) \<and> (q \<noteq> (g, i) \<longrightarrow> pd_full (pg s q) = None)"
    if q: "in_range (g, i) c q" for q
    using inv m(1) q
  proof (rule in_range_page)
    fix n
    assume n: "n < c" "q = (g, i + n)" "opages s q \<noteq> None" "pg s q = (cell k c n)\<lparr>pd_dlist := link (opages s) q\<rparr>"
      "n \<noteq> 0 \<or> \<not> (k = KFree \<or> (\<exists>hk f. k = KQueued hk f)) \<Longrightarrow> link (opages s) q = None"
    then show ?thesis using m(2) by (cases k) (simp_all add: cell_def)
  qed
  then show ?thesis using p c span_facts(4) [OF inv m(1)] by (simp add: good_range_used_def Let_def slices_const)
qed


lemma blank_span_page:
  assumes inv: "org_map s M" and m: "M (g, i) = Some (c, KBlank)" and q: "in_range (g, i) c q"
  shows "opages s q = Some blank_page"
  using inv m q
proof (rule in_range_page)
  fix n
  assume n: "q = (g, i + n)" "opages s q \<noteq> None" "pg s q = (cell KBlank c n)\<lparr>pd_dlist := link (opages s) q\<rparr>"
    "n \<noteq> 0 \<or> \<not> (KBlank = KFree \<or> (\<exists>hk f. KBlank = KQueued hk f)) \<Longrightarrow> link (opages s) q = None"
  have "link (opages s) q = None" by (rule n(4)) simp
  then have "pg s q = blank_page" using n(3) by (simp add: cell_def blank_page_def)
  then show ?thesis using n(2) by (auto simp: pg_def)
qed

lemma ready_span_good:
  assumes inv: "org_map s M" and m: "M (g, i) = Some (c, KReady)"
  shows "good_range_ready s (g, i)"
proof -
  have p: "opages s (g, i) \<noteq> None" "pd_offset (pg s (g, i)) = Some 0" and c: "pd_count (pg s (g, i)) = Some c"
    using span_page0 [OF inv m] by (simp_all add: cell_def)
  have "opages s q \<noteq> None \<and> \<not> pd_used (pg s q) \<and> pd_full (pg s q) = None \<and> pd_kind (pg s q) = None
      \<and> (pd_count (pg s q) \<noteq> None \<longleftrightarrow> q = (g, i)) \<and> pd_dlist (pg s q) = None \<and> pd_offset (pg s q) = Some (snd q - i)"
    if "in_range (g, i) c q" for q
    using inv m that by (rule in_range_page) (simp add: cell_def)
  then show ?thesis using p c span_facts(4) [OF inv m] by (simp add: good_range_ready_def Let_def slices_const)
qed

lemma out_ready:
  assumes ok: "org_ok s M" and q: "popped s = Ready (g, i) b \<or> popped s = Used (g, i) b"
  obtains c k where "M (g, i) = Some (c, k)" "popped s = Ready (g, i) b \<and> k = KReady \<or> popped s = Used (g, i) b \<and> (\<exists>hk. k = KTaken hk)"
    "i \<noteq> 0" "osegments s g \<noteq> None" "opages s (g, i) \<noteq> None" "pd_offset (pg s (g, i)) = Some 0" "pd_count (pg s (g, i)) = Some c"
    "0 < c" "i + c \<le> 512" "pd_dlist (pg s (g, i)) = None" "pd_full (pg s (g, i)) = None"
    "k = KReady \<Longrightarrow> pd_kind (pg s (g, i)) = None"
proof -
  note inv = org_okD(1) [OF ok]
  have o: "out_span (popped s) = Some (g, i)" using q by (auto simp: out_span_def)
  obtain c k where m: "M (g, i) = Some (c, k)" "out_data (popped s) (c, k)" by (rule out_span_map [OF ok o])
  have k: "popped s = Ready (g, i) b \<and> k = KReady \<or> popped s = Used (g, i) b \<and> (\<exists>hk. k = KTaken hk)" and i: "i \<noteq> 0"
    using q m(2) by auto
  have l: "link (opages s) (g, i) = None" by (rule span_link_None [OF inv m(1)]) (use k span_facts(3) [OF inv m(1)] in auto)
  show thesis by (rule that [OF m(1) k i]) (use span_facts [OF inv m(1)] span_page0 [OF inv m(1)] l k in \<open>auto simp: cell_def\<close>)
qed

lemma out_ok_spec:
  assumes ok: "org_ok s M"
  shows "popped_basics s" "inv_very_unready s" "inv_ready s" "inv_used s"
proof -
  note inv = org_okD(1) [OF ok]
  have "popped_basics s \<and> inv_very_unready s \<and> inv_ready s \<and> inv_used s"
  proof (cases "popped s")
    case No
    then show ?thesis by (simp add: popped_basics_def inv_very_unready_def inv_ready_def inv_used_def)
  next
    case (Ready p b)
    obtain g i where p: "p = (g, i)" by (cases p)
    show ?thesis
      by (rule out_ready [OF ok, of g i b]) (use Ready p ready_span_good [OF inv, of g i] in
          \<open>simp_all add: popped_basics_def inv_very_unready_def inv_ready_def inv_used_def slices_const\<close>)
  next
    case (Used p b)
    obtain g i where p: "p = (g, i)" by (cases p)
    show ?thesis
      by (rule out_ready [OF ok, of g i b]) (use Used p page_span_good [OF inv, of g i] in
          \<open>auto simp: popped_basics_def inv_very_unready_def inv_ready_def inv_used_def slices_const\<close>)
  next
    case (SegmentCreating g)
    obtain c k where "M (g, 0) = Some (c, k)" by (rule out_span_map [OF ok, of "(g, 0)"]) (simp add: SegmentCreating out_span_def)
    then show ?thesis using span_facts(2) [OF inv, of g 0 c k] SegmentCreating
      by (simp add: popped_basics_def inv_very_unready_def inv_ready_def inv_used_def)
  next
    case (VeryUnready g i c b)
    note o = out_very_unready(1,2) [OF ok VeryUnready]
    note f = span_facts [OF inv o(1)]
    have a: "opages s q = Some blank_page" "pg s q = blank_page" if "in_range (g, i) c q" for q
      using blank_span_page [OF inv o(1) that] by (simp_all add: pg_def)
    then have "opages s (g, i) = Some blank_page" "pg s (g, i) = blank_page" using f(3) by (simp_all add: in_range_def)
    then have "good_range_very_unready s (g, i)" using a f(4) by (simp add: good_range_very_unready_def VeryUnready slices_const blank_page_def)
    then show ?thesis using f o(2) by (simp add: popped_basics_def inv_very_unready_def inv_ready_def inv_used_def VeryUnready slices_const)
  next
    case (SegmentFreeing g i)
    obtain c k where m: "M (g, 0) = Some (c, k)" "out_data (popped s) (c, k)"
      by (rule out_span_map [OF ok, of "(g, 0)"]) (simp add: SegmentFreeing out_span_def)
    then show ?thesis using span_facts(2,4) [OF inv m(1)] SegmentFreeing
      by (simp add: popped_basics_def inv_very_unready_def inv_ready_def inv_used_def slices_const)
  next
    case (ExtraCount g)
    then show ?thesis using out_okD(5) [OF org_okD(2) [OF ok], of g]
      by (simp add: popped_basics_def inv_very_unready_def inv_ready_def inv_used_def)
  qed
  then show "popped_basics s" "inv_very_unready s" "inv_ready s" "inv_used s" by blast+
qed

text \<open>The spans follow each other.\<close>

lemma popped_span:
  assumes ok: "org_ok s M" and i: "is_the_popped g i (popped s)"
  obtains c k where "M (g, i) = Some (c, k)" "popped_len s = c" "out_span (popped s) = Some (g, i)" "popped_for_seg s g" "0 < i"
proof (cases "popped s")
  case (VeryUnready h j c b)
  then show thesis using that out_very_unready(1,2) [OF ok VeryUnready] i
    by (simp add: is_the_popped_def popped_len_def out_span_def popped_for_seg_def)
next
  case (Ready p b)
  then have p: "p = (g, i)" using i by (cases p) (simp add: is_the_popped_def)
  show thesis by (rule out_ready [OF ok, of g i b]) (use Ready p that in \<open>auto simp: popped_len_def out_span_def popped_for_seg_def\<close>)
next
  case (Used p b)
  then have p: "p = (g, i)" using i by (cases p) (simp add: is_the_popped_def)
  show thesis by (rule out_ready [OF ok, of g i b]) (use Used p that in \<open>auto simp: popped_len_def out_span_def popped_for_seg_def\<close>)
qed (use i in \<open>simp_all add: is_the_popped_def\<close>)

lemma popped_unique: "is_the_popped g i q \<Longrightarrow> is_the_popped g j q \<Longrightarrow> i = j"
  by (cases q) (auto simp: is_the_popped_def)

lemma popped_for_seg_iff: "popped_for_seg s g \<longleftrightarrow> (\<exists>i. is_the_popped g i (popped s))"
  by (cases "popped s") (auto simp: is_the_popped_def popped_for_seg_def)

lemma attached_from:
  assumes ok: "org_ok s M" and g: "osegments s g \<noteq> None"
  shows "0 < i \<Longrightarrow> i = 512 \<or> M (g, i) \<noteq> None \<Longrightarrow> attached_rec s g i (\<exists>j\<ge>i. is_the_popped g j (popped s))"
proof (induction "512 - i" arbitrary: i rule: less_induct)
  case less
  note inv = org_okD(1) [OF ok]
  note t = org_mapD(1) [OF inv g]
  show ?case
  proof (cases "i = 512")
    case True
    have "\<not> is_the_popped g j (popped s)" if "j \<ge> 512" for j
    proof
      assume "is_the_popped g j (popped s)"
      then obtain c k where "M (g, j) = Some (c, k)" using popped_span [OF ok] by blast
      then show False using span_facts(3,4) [OF inv, of g j c k] that by simp
    qed
    then show ?thesis unfolding True by (subst attached_rec.simps) (auto simp: slices_const)
  next
    case False
    then obtain c k where m: "M (g, i) = Some (c, k)" using less.prems(2) by auto
    note f = span_facts [OF inv m]
    have nx: "i + c = 512 \<or> M (g, i + c) \<noteq> None"
    proof (cases "i + c = 512")
      case False
      then have "i + c < 512" using f(4) by simp
      with t m obtain d v where "M (g, i + c) = Some (d, v)" by (rule tiled_next)
      then show ?thesis by simp
    qed simp
    have IH: "attached_rec s g (i + c) (\<exists>j\<ge>i + c. is_the_popped g j (popped s))"
      by (rule less.hyps) (use f nx in auto)
    have lt: "i < 512" using f by simp
    show ?thesis
    proof (cases "is_the_popped g i (popped s)")
      case True
      then have len: "popped_len s = c" using popped_span [OF ok True] m by (metis option.inject prod.inject)
      have "\<not> (\<exists>j\<ge>i + c. is_the_popped g j (popped s))" using popped_unique [OF True] f(3) by auto
      then have a: "attached_rec s g (i + c) False" using IH by (simp only: simp_thms)
      have e: "\<exists>j\<ge>i. is_the_popped g j (popped s)" using True by blast
      show ?thesis by (subst attached_rec.simps) (use True len a e f lt in \<open>simp add: slices_const\<close>)
    next
      case np: False
      have "is_the_popped g j (popped s) \<Longrightarrow> j \<ge> i \<Longrightarrow> j \<ge> i + c" for j
      proof -
        assume a: "is_the_popped g j (popped s)" "j \<ge> i"
        then obtain d u where "M (g, j) = Some (d, u)" using popped_span [OF ok a(1)] by blast
        moreover have "j \<noteq> i" using a(1) np by blast
        ultimately show "j \<ge> i + c" using tiled_inside [OF t m, of j] a(2) by (cases "j < i + c") auto
      qed
      then have e: "(\<exists>j\<ge>i. is_the_popped g j (popped s)) = (\<exists>j\<ge>i + c. is_the_popped g j (popped s))"
        by (meson dual_order.trans le_add1)
      have "\<not> is_out k"
      proof
        assume "is_out k"
        then have o: "out_span (popped s) = Some (g, i)" by (rule out_okD(1) [OF org_okD(2) [OF ok] m])
        then show False using np less.prems(1) by (cases "popped s") (auto simp: out_span_def is_the_popped_def)
      qed
      moreover have "k \<noteq> KFirst" using out_okD(3) [OF org_okD(2) [OF ok], of g i c] m less.prems(1) by auto
      ultimately have k: "k = KFree \<or> is_page k" by (cases k) auto
      have p: "the (pd_count (pg s (g, i))) = c" "pd_used (pg s (g, i)) = is_page k"
        using span_page0(2) [OF inv m] k by (auto simp: cell_def)
      have gu: "is_page k \<Longrightarrow> good_range_used s (g, i)" by (rule page_span_good [OF inv m])
      have gf: "\<not> is_page k \<Longrightarrow> good_range_unused s (g, i)" using free_span_good [OF inv, of g i c] m k by simp
      show ?thesis by (subst attached_rec.simps) (use np p gu gf f lt IH e in \<open>simp add: slices_const Let_def\<close>)
    qed
  qed
qed


lemma attached_ranges_ok:
  assumes ok: "org_ok s M"
  shows "attached_ranges s"
proof -
  note inv = org_okD(1) [OF ok]
  have "attached_ranges_segment s g" if g: "osegments s g \<noteq> None" for g
  proof (cases "out_span (popped s) = Some (g, 0)")
    case False
    obtain i c k where m: "M (g, i) = Some (c, k)" "i \<le> 0" using org_mapD(1) [OF inv g] unfolding tiled_def by (meson zero_less_numeral)
    then have m0: "M (g, 0) = Some (c, KFirst)" using out_okD(4) [OF org_okD(2) [OF ok], of g c k] False by auto
    note f = span_facts [OF inv m0]
    have c: "c = 512 \<or> M (g, c) \<noteq> None"
    proof (cases "c = 512")
      case False
      then have "0 + c < 512" using f(4) by simp
      with f(1) m0 obtain d v where "M (g, 0 + c) = Some (d, v)" by (rule tiled_next)
      then show ?thesis by simp
    qed simp
    have "i < c \<Longrightarrow> \<not> is_the_popped g i (popped s)" for i
    proof
      assume a: "i < c" "is_the_popped g i (popped s)"
      then obtain d u where "M (g, i) = Some (d, u)" "0 < i" using popped_span [OF ok a(2)] by blast
      then show False using tiled_inside [OF f(1) m0, of i] a(1) by simp
    qed
    then have "popped_for_seg s g \<longleftrightarrow> (\<exists>j\<ge>c. is_the_popped g j (popped s))" unfolding popped_for_seg_iff by (meson not_le)
    then have "attached_rec0 s g (popped_for_seg s g)"
      using attached_from [OF ok g f(3) c] first_span_good [OF inv m0] by (simp add: attached_rec0_def)
    then show ?thesis using False by (cases "popped s") (auto simp: attached_ranges_segment_def out_span_def)
  next
    case True
    show ?thesis
    proof (cases "popped s")
      case (SegmentFreeing h i)
      then have h: "h = g" using True by (simp add: out_span_def)
      obtain c k where "M (g, 0) = Some (c, k)" "out_data (popped s) (c, k)" by (rule out_span_map [OF ok True])
      then have m: "M (g, 0) = Some (i, KBlank)" by (simp add: SegmentFreeing)
      note f = span_facts [OF inv m]
      have "i = 512 \<or> M (g, i) \<noteq> None"
      proof (cases "i = 512")
        case False
        then have "0 + i < 512" using f(4) by simp
        with f(1) m obtain d v where "M (g, 0 + i) = Some (d, v)" by (rule tiled_next)
        then show ?thesis by simp
      qed simp
      then have "attached_rec s g i (\<exists>j\<ge>i. is_the_popped g j (popped s))" by (rule attached_from [OF ok g f(3)])
      then show ?thesis using f(3) by (simp add: SegmentFreeing h attached_ranges_segment_def is_the_popped_def)
    next
      case (VeryUnready h i c b)
      then show ?thesis using True out_very_unready(2) [OF ok VeryUnready] by (simp add: out_span_def)
    next
      case (Ready p b)
      then have "p = (g, 0)" using True by (simp add: out_span_def)
      with Ready show ?thesis using out_ready [OF ok, of g 0 b] by auto
    next
      case (Used p b)
      then have "p = (g, 0)" using True by (simp add: out_span_def)
      with Used show ?thesis using out_ready [OF ok, of g 0 b] by auto
    qed (use True in \<open>simp_all add: out_span_def attached_ranges_segment_def\<close>)
  qed
  then show ?thesis by (simp add: attached_ranges_def)
qed

lemma segment_states_ok:
  assumes ok: "org_ok s M"
  shows "inv_segment_creating s" "inv_segment_freeing s"
proof -
  note inv = org_okD(1) [OF ok]
  show "inv_segment_creating s"
  proof (cases "popped s")
    case (SegmentCreating g)
    have o: "out_span (popped s) = Some (g, 0)" by (simp add: SegmentCreating out_span_def)
    obtain c k where "M (g, 0) = Some (c, k)" "out_data (popped s) (c, k)" by (rule out_span_map [OF ok o])
    then have m: "M (g, 0) = Some (512, KBlank)" by (simp add: SegmentCreating)
    note f = span_facts [OF inv m]
    have only: "M (g, j) = None" if "j \<noteq> 0" for j
    proof (cases "j < 512")
      case True
      then show ?thesis using tiled_inside [OF f(1) m, of j] that by simp
    next
      case False
      have "\<not> (\<exists>d u. M (g, j) = Some (d, u))" using f(1) False unfolding tiled_def by fastforce
      then show ?thesis by (cases "M (g, j)") auto
    qed
    have "\<not> is_page k" if "M (g, j) = Some (c, k)" for j c k using that only [of j] m by (cases "j = 0") auto
    then have "pages_in M g = {}" unfolding pages_in_def by blast
    moreover obtain n where n: "osegments s g = Some n" using f(2) by blast
    moreover have "n = int (card (pages_in M g)) + ec_of_popped (popped s) g"
      using org_okD(3) [OF ok] n unfolding counts_def by blast
    ultimately have n: "osegments s g = Some 0" by (simp add: ec_of_popped_def SegmentCreating)
    have b: "opages s (g, i) = Some blank_page" if i: "i \<le> 512" for i
    proof (cases "i = 512")
      case True
      have l: "link (opages s) (g, 512) = None"
        using org_mapD(7) [OF inv, of "(g, 512)"] only [of 512] by (cases "link (opages s) (g, 512)") (auto simp: free_queue_def page_queue_def)
      show ?thesis unfolding True using core_link [OF org_mapD(3) [OF inv f(2)]] l by (simp add: blank_page_def)
    next
      case False
      then show ?thesis using blank_span_page [OF inv m, of "(g, i)"] i by (simp add: in_range_def)
    qed
    have u: "header_data s (h, i) \<and> header_queue s (h, i)"
      if p: "opages s (h, i) \<noteq> None" "h \<noteq> g" "pd_used (pg s (h, i))" "pd_offset (pg s (h, i)) = Some 0" for h i
      using inv p(1) disjI1 [OF p(4)]
    proof (cases rule: header_at)
      case (1 c k)
      have "\<not> is_out k" using out_okD(1) [OF org_okD(2) [OF ok] 1(1)] o p(2) by auto
      moreover have "is_page k" using p(3) by (simp add: 1(3) cell_def)
      ultimately obtain hk f where k: "k = KQueued hk f" by (cases k) auto
      obtain b n where "hk = NormalPage b n" by (cases hk)
      with k show ?thesis using queued_header [OF inv, of h i c b n f] 1 by simp
    qed
    have v: "pd_count (pg s (h, i)) \<noteq> None \<and> is_in_lls (h, i) (unused_lists s)"
      if p: "opages s (h, i) \<noteq> None" "pd_offset (pg s (h, i)) = Some 0" "\<not> pd_used (pg s (h, i))" "i \<noteq> 0" for h i
      by (rule unused_header [OF ok p]) (simp add: in_popped_range_def SegmentCreating)
    show ?thesis using n b u v by (simp add: inv_segment_creating_def SegmentCreating slices_const)
  qed (simp_all add: inv_segment_creating_def)
  show "inv_segment_freeing s"
  proof (cases "popped s")
    case (SegmentFreeing g i)
    have o: "out_span (popped s) = Some (g, 0)" by (simp add: SegmentFreeing out_span_def)
    obtain c k where "M (g, 0) = Some (c, k)" "out_data (popped s) (c, k)" by (rule out_span_map [OF ok o])
    then have m: "M (g, 0) = Some (i, KBlank)" by (simp add: SegmentFreeing)
    note f = span_facts [OF inv m]
    have b: "opages s (g, j) = Some blank_page" if "j < i" for j using blank_span_page [OF inv m, of "(g, j)"] that by (simp add: in_range_def)
    have a: "attached_ranges_segment s g" using attached_ranges_ok [OF ok] f(2) by (simp add: attached_ranges_def)
    show ?thesis using out_okD(6) [OF org_okD(2) [OF ok] SegmentFreeing] f(3,4) b a
      by (simp add: inv_segment_freeing_def SegmentFreeing slices_const seg_free_prefix_def pg_def blank_page_def attached_ranges_segment_def)
  qed (simp_all add: inv_segment_freeing_def)
qed

lemma org_ok_invariant: "org_ok s M \<Longrightarrow> page_org_invariant s"
  unfolding page_org_invariant_def
  by (intro conjI domain_ok used_headers_ok unused_queues_ok used_queues_ok counts_ok out_ok_spec segment_states_ok attached_ranges_ok)

end
