(* ===== verification/Page_Org_Props.thy ===== *)
theory Page_Org_Props
  imports Page_Org_Declared
begin

text \<open>
  What holds of \<open>PageOrg\<close> in every reachable state: no fact a transition claims is false, every invariant
  the source declares is true, distinct spans are disjoint, and an empty segment can be given back.
\<close>

section \<open>Runs of the machine\<close>

abbreviation org_execs :: "org_step list \<Rightarrow> PageOrg \<Rightarrow> PageOrg step_res" where
  "org_execs \<equiv> run_steps org_exec"

lemma org_execs_reach: "org_reach s \<Longrightarrow> org_execs as s = Next s' \<Longrightarrow> org_reach s'"
  by (rule run_steps_keep [where R = org_reach]) (rule org_reach.step)

lemma reach_ok:
  assumes "org_reach s"
  obtains M where "org_ok s M"
  using org_reach_ok [OF assms] by blast

text \<open>A step that is not disabled has a next state.\<close>

lemma step_next: "org_ok s M \<Longrightarrow> org_exec a s \<noteq> Disabled \<Longrightarrow> \<exists>s' M'. org_exec a s = Next s' \<and> org_ok s' M'"
  using spans_machine.enabled_next [of s a] by blast

text \<open>A segment that is being given back loses its free spans one by one.\<close>

lemma freeing_take:
  assumes ok: "org_ok s M" and q: "popped s = SegmentFreeing g i" and i: "i < 512"
  obtains b j s' M' c where "org_exec (TakePage (g, i) b j) s = Next s'" "org_ok s' M'" "popped s' = SegmentFreeing g (i + c)" "0 < c"
    "osegments s' = osegments s" "used_lists s' = used_lists s" "used_dlist_headers s' = used_dlist_headers s"
proof -
  note inv = org_okD(1) [OF ok]
  have o: "out_span (popped s) = Some (g, 0)" by (simp add: q out_span_def)
  obtain c k where "M (g, 0) = Some (c, k)" "out_data (popped s) (c, k)" by (rule out_span_map [OF ok o])
  then have m0: "M (g, 0) = Some (i, KBlank)" by (simp add: q)
  note f0 = span_facts [OF inv m0]
  have "0 + i < 512" using i by simp
  with f0(1) m0 obtain c k where m: "M (g, i) = Some (c, k)" by (rule tiled_next) simp
  note f = span_facts [OF inv m]
  have "pages_in M g = {}"
  proof -
    obtain n where n: "osegments s g = Some n" "n = 0" using out_okD(6) [OF org_okD(2) [OF ok] q] by blast
    then have "card (pages_in M g) = 0" using org_okD(3) [OF ok] unfolding counts_def by (fastforce simp: q ec_of_popped_def)
    then show ?thesis using pages_in_finite [OF f(1)] by simp
  qed
  then have "\<not> is_page k" using m unfolding pages_in_def by blast
  moreover have "\<not> is_out k" using out_okD(1) [OF org_okD(2) [OF ok] m] o f0(3) by auto
  moreover have "k \<noteq> KFirst" using out_okD(3) [OF org_okD(2) [OF ok], of g i c] m f0(3) by auto
  ultimately have m: "M (g, i) = Some (c, KFree)" using m by (cases k) auto
  note fq = free_in_queue [OF inv m]
  obtain j where j: "j < length (unused_lists s ! sbin_of c)" "unused_lists s ! sbin_of c ! j = (g, i)" using fq(3) by (meson in_set_conv_nth)
  let ?a = "TakePage (g, i) (sbin_of c) j"
  have v: "valid_unused_page s (g, i) (sbin_of c) j" and n: "the (pd_count (pg s (g, i))) = c"
    using span_page0 [OF inv m] f f0(3) fq j by (simp_all add: valid_unused_page_def slices_const cell_def)
  have "org_exec ?a s \<noteq> Disabled" using v by (simp add: take_page_from_unused_queue_def require_def claim_def Let_def q)
  then obtain s' M' where s': "org_exec ?a s = Next s'" "org_ok s' M'" using step_next [OF ok] by blast
  have "popped s' = SegmentFreeing g (i + c) \<and> osegments s' = osegments s \<and> used_lists s' = used_lists s \<and> used_dlist_headers s' = used_dlist_headers s"
    using s'(1) n by (auto simp: take_page_from_unused_queue_def require_def claim_def Let_def q split: if_splits)
  then show thesis using that [OF s'] f(3) by blast
qed

lemma freeing_run:
  assumes "org_ok s M" "popped s = SegmentFreeing g i"
  shows "\<exists>as s' M'. org_execs as s = Next s' \<and> org_ok s' M' \<and> popped s' = SegmentFreeing g 512 \<and> osegments s' = osegments s
    \<and> used_lists s' = used_lists s \<and> used_dlist_headers s' = used_dlist_headers s"
  using assms
proof (induction "512 - i" arbitrary: i s M rule: less_induct)
  case less
  note inv = org_okD(1) [OF less.prems(1)]
  have o: "out_span (popped s) = Some (g, 0)" by (simp add: less.prems(2) out_span_def)
  obtain c k where "M (g, 0) = Some (c, k)" "out_data (popped s) (c, k)" by (rule out_span_map [OF less.prems(1) o])
  then have "M (g, 0) = Some (i, KBlank)" by (simp add: less.prems(2))
  then have le: "i \<le> 512" using span_facts(4) [OF inv] by fastforce
  show ?case
  proof (cases "i = 512")
    case True
    have "org_execs [] s = Next s" by simp
    then show ?thesis using less.prems True by blast
  next
    case False
    then have i: "i < 512" using le by simp
    obtain b j t N c where t: "org_exec (TakePage (g, i) b j) s = Next t" "org_ok t N" "popped t = SegmentFreeing g (i + c)" "0 < c"
      "osegments t = osegments s" "used_lists t = used_lists s" "used_dlist_headers t = used_dlist_headers s"
      by (rule freeing_take [OF less.prems i])
    have "512 - (i + c) < 512 - i" using t(4) i by simp
    then obtain as s' M' where "org_execs as t = Next s' \<and> org_ok s' M' \<and> popped s' = SegmentFreeing g 512 \<and> osegments s' = osegments t
      \<and> used_lists s' = used_lists t \<and> used_dlist_headers s' = used_dlist_headers t" using less.hyps [OF _ t(2,3)] by blast
    then have "org_execs (TakePage (g, i) b j # as) s = Next s' \<and> org_ok s' M' \<and> popped s' = SegmentFreeing g 512 \<and> osegments s' = osegments s
      \<and> used_lists s' = used_lists s \<and> used_dlist_headers s' = used_dlist_headers s" using t by simp
    then show ?thesis by blast
  qed
qed

lemma release_run:
  assumes ok: "org_ok s M" and q: "popped s = No" and g: "osegments s g = Some 0"
  shows "\<exists>as s'. org_execs as s = Next s' \<and> popped s' = No \<and> osegments s' = (osegments s)(g := None) \<and> (\<forall>i. opages s' (g, i) = None)
    \<and> used_lists s' = used_lists s \<and> used_dlist_headers s' = used_dlist_headers s"
proof -
  have "org_exec (FreeingStart g) s \<noteq> Disabled" using q g by (simp add: segment_freeing_start_def require_def claim_def Let_def)
  then obtain t N where t: "org_exec (FreeingStart g) s = Next t" "org_ok t N" using step_next [OF ok] by blast
  have t': "(\<exists>i. popped t = SegmentFreeing g i) \<and> osegments t = osegments s \<and> used_lists t = used_lists s \<and> used_dlist_headers t = used_dlist_headers s"
    using t(1) q g by (auto simp: segment_freeing_start_def require_def claim_def Let_def split: if_splits)
  then obtain as u M' where u: "org_execs as t = Next u" "org_ok u M'" "popped u = SegmentFreeing g 512" "osegments u = osegments s"
    "used_lists u = used_lists s" "used_dlist_headers u = used_dlist_headers s"
    using freeing_run [OF t(2)] by metis
  have "org_exec FreeingFinish u \<noteq> Disabled" using u(3) by (simp add: segment_freeing_finish_def require_def claim_def slices_const)
  then obtain s' M' where s': "org_exec FreeingFinish u = Next s'" "org_ok s' M'" using step_next [OF u(2)] by blast
  have e: "popped s' = No \<and> osegments s' = (osegments s)(g := None) \<and> used_lists s' = used_lists s \<and> used_dlist_headers s' = used_dlist_headers s"
    using s'(1) u by (auto simp: segment_freeing_finish_def require_def claim_def slices_const split: if_splits)
  have "opages s' (g, i) = None" for i
    using org_mapD(5) [OF org_okD(1) [OF s'(2)], of g i] e by (cases "opages s' (g, i)") auto
  moreover have "org_execs (FreeingStart g # as @ [FreeingFinish]) s = Next s'" using t(1) u(1) s'(1) by (simp add: run_steps_append)
  ultimately show ?thesis using e by blast
qed



section \<open>A run\<close>

text \<open>A segment is made, its first free span is split, and a page of one slice is put to use.\<close>

definition example_segment :: SegmentId where
  "example_segment = \<lparr>seg_nr = 1, seg_uniq = 0\<rparr>"

definition fresh_run :: "org_step list" where
  "fresh_run = [CreateSegment example_segment, ForgetFirst 1, ForgetFirst2, FreeToUnused 31]"

definition page_run :: "org_step list" where
  "page_run = fresh_run @ [TakePage (example_segment, 1) 31 0, SplitPage (example_segment, 1) 511 1 31, AllocatePopped,
     SetUsed (NormalPage 1 8), IntoUsed 1]"

lemma map_new_at: "map_new (page_id_range g lo hi) f (h, k) = (if h = g \<and> lo \<le> k \<and> k < hi then Some (f (g, k)) else None)"
  by (auto simp: map_new_def page_id_range_def)

lemma run_bins: "smallest_sbin_fitting_size 511 = 31" "smallest_sbin_fitting_size 510 = 31"
  by code_simp+

lemma run_kind: "kind_allows (NormalPage 1 8) (Suc 0)"
  unfolding kind_allows_def PageHeaderKind.case slices_const by code_simp

lemma run_range: "Suc 0 \<le> k \<and> k < 2 \<longleftrightarrow> k = Suc 0" "k < 2 \<longleftrightarrow> k = 0 \<or> k = Suc 0"
  by auto

lemmas run_simps = initialize_def create_segment_def forget_about_first_page_def forget_about_first_page2_def free_to_unused_queue_def
  take_page_from_unused_queue_def split_page_def allocate_popped_def set_range_to_used_def into_used_list_def valid_unused_page_def
  require_def claim_def Let_def slices_const range_write map_new_at all_in_iff pg_def blank_page_def run_bins run_kind run_range
  segment_start_def layout_consts valid_sbin_idx_def valid_bin_idx_def write_prev_def write_next_def nth_append insert_front_def
  replicate_append_same nbr_ok_def example_segment_def

lemma fresh_run_state:
  obtains s where "org_execs fresh_run initialize = Next s" "org_reach s" "popped s = No" "osegments s example_segment = Some 0"
proof -
  have "\<exists>s. org_execs fresh_run initialize = Next s \<and> popped s = No \<and> osegments s example_segment = Some 0"
    by (simp add: fresh_run_def run_simps)
  then show thesis using that org_execs_reach [OF org_reach.init] by blast
qed

lemma page_run_state:
  obtains s where "org_execs page_run initialize = Next s" "org_reach s" "valid_used_page s (example_segment, 1) 1 0"
    "opages s (example_segment, 1) \<noteq> None" "pd_count (pg s (example_segment, 1)) = Some 1"
    "opages s (example_segment, 2) \<noteq> None" "pd_count (pg s (example_segment, 2)) = Some 510"
proof -
  have "int (size_of_bin 1) = 8" by code_simp
  then have "\<exists>s. org_execs page_run initialize = Next s \<and> valid_used_page s (example_segment, 1) 1 0
    \<and> opages s (example_segment, 1) \<noteq> None \<and> pd_count (pg s (example_segment, 1)) = Some 1
    \<and> opages s (example_segment, 2) \<noteq> None \<and> pd_count (pg s (example_segment, 2)) = Some 510"
    by (simp add: page_run_def fresh_run_def run_simps valid_used_page_def)
  then show thesis using that org_execs_reach [OF org_reach.init] by blast
qed


section \<open>Properties\<close>

text \<open>
  C10. No transition of the page organisation ever finds a fact it claims (\<^verbatim>\<open>assert\<close>) to be false: in every
  state reachable from the empty one, each transition with any parameters is either not enabled or succeeds.
\<close>

theorem org_asserts_hold:
  assumes "org_reach s"
  shows "org_exec a s \<noteq> Violated"
  by (rule spans_machine.not_violated [OF org_reach_ok [OF assms]])

theorem org_asserts_hold_witness:
  "\<exists>s. org_execs page_run initialize = Next s \<and> valid_used_page s (example_segment, 1) 1 0
     \<and> org_exec (OutOfUsed (example_segment, 1) 1 0) s \<noteq> Violated"
  by (rule page_run_state) (use org_asserts_hold in blast)

text \<open>
  C11. Every reachable state of the page organisation has all the invariants the source declares for it: every segment
  is cut into spans that follow each other and have the shape of their kind, the queues are doubly linked
  lists of just the spans that belong in them, the span that is out is as its state says, and the count of each segment
  is that of its pages in use.
\<close>

theorem org_invariant_holds:
  assumes "org_reach s"
  shows "page_org_invariant s"
proof -
  obtain M where "org_ok s M" using assms by (rule reach_ok)
  then show ?thesis by (rule org_ok_invariant)
qed

theorem org_invariant_holds_witness:
  "\<exists>s. org_execs page_run initialize = Next s \<and> valid_used_page s (example_segment, 1) 1 0 \<and> page_org_invariant s"
  by (rule page_run_state) (use org_invariant_holds in blast)

text \<open>
  C13. In a reachable state two spans never overlap: the slices of two different headers of a segment are disjoint.
\<close>

theorem org_spans_disjoint:
  assumes "org_reach s" and "opages s (g, i) \<noteq> None" "pd_count (pg s (g, i)) = Some c"
    and "opages s (g, j) \<noteq> None" "pd_count (pg s (g, j)) = Some d" and "i \<noteq> j"
  shows "page_id_range g i (i + c) \<inter> page_id_range g j (j + d) = {}"
proof -
  obtain M where ok: "org_ok s M" using assms(1) by (rule reach_ok)
  note inv = org_okD(1) [OF ok]
  have span: "\<exists>k. M (g, i) = Some (c, k)" if p: "opages s (g, i) \<noteq> None" "pd_count (pg s (g, i)) = Some c" for i c
    using inv p(1) disjI2 [of "pd_count (pg s (g, i)) \<noteq> None"]
    by (rule header_at) (use p(2) in \<open>auto simp: cell_def\<close>)
  obtain u v where m: "M (g, i) = Some (c, u)" "M (g, j) = Some (d, v)" using span assms(2-5) by meson
  then show ?thesis using tiled_unique [OF span_facts(1) [OF inv m(1)] m] assms(6) by (auto simp: page_id_range_def)
qed

theorem org_spans_disjoint_witness:
  "\<exists>s. org_execs page_run initialize = Next s \<and> pd_count (pg s (example_segment, 1)) = Some 1
     \<and> page_id_range example_segment 1 (1 + 1) \<inter> page_id_range example_segment 2 (2 + 510) = {}"
proof (rule page_run_state)
  fix s
  assume s: "org_execs page_run initialize = Next s" "org_reach s" "opages s (example_segment, 1) \<noteq> None"
    "pd_count (pg s (example_segment, 1)) = Some 1" "opages s (example_segment, 2) \<noteq> None" "pd_count (pg s (example_segment, 2)) = Some 510"
  have "page_id_range example_segment 1 (1 + 1) \<inter> page_id_range example_segment 2 (2 + 510) = {}"
    by (rule org_spans_disjoint [OF s(2-6)]) simp
  with s show ?thesis by blast
qed

text \<open>
  C12. A segment that counts no page in use can always be given back: from a reachable state with no span out there is a run
  that removes the segment and its pages, and leaves the queues of pages and all other segments.
\<close>

theorem org_empty_segment_released:
  assumes "org_reach s" "popped s = No" "osegments s g = Some 0"
  shows "\<exists>as s'. org_execs as s = Next s' \<and> popped s' = No \<and> osegments s' = (osegments s)(g := None)
    \<and> (\<forall>i. opages s' (g, i) = None) \<and> used_lists s' = used_lists s \<and> used_dlist_headers s' = used_dlist_headers s"
proof -
  obtain M where "org_ok s M" using assms(1) by (rule reach_ok)
  then show ?thesis using assms(2,3) by (rule release_run)
qed

theorem org_empty_segment_released_witness:
  "\<exists>s as s'. org_execs fresh_run initialize = Next s \<and> osegments s example_segment = Some 0
     \<and> org_execs as s = Next s' \<and> osegments s' example_segment = None"
proof (rule fresh_run_state)
  fix s
  assume s: "org_execs fresh_run initialize = Next s" "org_reach s" "popped s = No" "osegments s example_segment = Some 0"
  obtain as s' where r: "org_execs as s = Next s'" "osegments s' = (osegments s)(example_segment := None)"
    using org_empty_segment_released [OF s(2-4)] by blast
  then have "osegments s' example_segment = None" by simp
  then show ?thesis using s r(1) by blast
qed

end
