(* ===== verification/Mim.thy ===== *)
theory Mim
  imports Transitions Page_Org Linked_List
begin

text \<open>
  The state machine \<^verbatim>\<open>Mim\<close> of \<^verbatim>\<open>tokens.rs\<close>: who owns what. Every thread has its heap, its segments and its pages;
  whoever holds the token of a block may free it, from any thread. The machine says what such a thread may then
  rely on: that the headers it goes through to the owner stay as they are while it looks at them.

  The permissions to read a header (\<^verbatim>\<open>SegmentSharedAccess\<close>, \<^verbatim>\<open>PageSharedAccess\<close>, \<^verbatim>\<open>HeapSharedAccess\<close>) are the
  type parameters \<open>'sa\<close>, \<open>'pa\<close>, \<open>'ha\<close> and the instance of the machine is \<open>'i\<close>; what it is for the permission of a
  heap to be good (\<^verbatim>\<open>wf2\<close>) is the parameter \<open>wf2\<close>. Maps and sets are finite in the source.
\<close>

section \<open>States\<close>

record HeapId =
  heap_nr :: nat       \<comment> \<open>\<^verbatim>\<open>id\<close>; its provenance is left out\<close>
  heap_uniq :: int

type_synonym ThreadId = u64

record BlockId =
  bi_page :: page_id
  bi_idx :: nat
  bi_slice :: nat
  bi_size :: nat

definition range_from :: "page_id \<Rightarrow> nat \<Rightarrow> nat \<Rightarrow> page_id set" where
  "range_from p lo hi = page_id_range (fst p) (snd p + lo) (snd p + hi)"

definition page_id_for_slice :: "BlockId \<Rightarrow> page_id" where
  "page_id_for_slice b = (fst (bi_page b), bi_slice b)"

definition get_slice_idx :: "page_id \<Rightarrow> nat \<Rightarrow> nat \<Rightarrow> nat" where
  "get_slice_idx p i bsize = snd p + (start_offset bsize + i * bsize) div unat SLICE_SIZE"

record 'pa PageState =
  ps_offset :: int
  ps_block_size :: nat
  ps_num_blocks :: nat
  ps_shared :: 'pa
  ps_enabled :: bool

record 'sa SegmentState =
  ss_shared :: 'sa
  ss_enabled :: bool

record ('sa, 'pa) BlockState =
  bs_segment :: 'sa
  bs_page :: 'pa
  bs_slice :: 'pa
  bs_heap :: "HeapId option"

record 'ha HeapState =
  hs_shared :: 'ha

record ('sa, 'pa, 'ha) ThreadState =
  ts_heap_id :: HeapId
  ts_heap :: "'ha HeapState"
  ts_segments :: "SegmentId \<rightharpoonup> 'sa SegmentState"
  ts_pages :: "page_id \<rightharpoonup> 'pa PageState"

record ThreadCheckedState =
  cs_pages :: "page_id set"

datatype Actor = Idle | Abandoned

datatype ('pa, 'ha) DelayFreeingActor = HeapUnknown | Heap HeapId 'ha 'pa

record ('sa, 'pa, 'ha, 'i) Mim =
  right_to_set_inst :: bool
  my_inst :: "'i option"
  right_to_use_thread :: "ThreadId set"
  thread_local_state :: "ThreadId \<rightharpoonup> ('sa, 'pa, 'ha) ThreadState"
  thread_checked_state :: "ThreadId \<rightharpoonup> ThreadCheckedState"
  block :: "BlockId \<rightharpoonup> ('sa, 'pa) BlockState"
  thread_of_segment :: "SegmentId \<rightharpoonup> ThreadId"
  delay :: "page_id \<rightharpoonup> DelayState"
  heap_of_page :: "page_id \<rightharpoonup> HeapId"
  actor :: "ThreadId \<rightharpoonup> Actor"
  delay_actor :: "page_id \<rightharpoonup> ('pa, 'ha) DelayFreeingActor"
  segment_shared_access :: "SegmentId \<rightharpoonup> 'sa"
  page_shared_access :: "page_id \<rightharpoonup> 'pa"
  heap_shared_access :: "HeapId \<rightharpoonup> 'ha"
  reserved_uniq :: "HeapId set"
  heap_to_thread :: "HeapId \<rightharpoonup> ThreadId"

text \<open>The largest identifier in use, and one that is not.\<close>

definition segment_u_max :: "SegmentId set \<Rightarrow> int" where
  "segment_u_max S = Max (insert 0 (seg_uniq ` S))"

definition segment_get_unused_uniq_field :: "SegmentId set \<Rightarrow> int" where
  "segment_get_unused_uniq_field S = segment_u_max S + 1"

definition heap_u_max :: "HeapId set \<Rightarrow> int" where
  "heap_u_max S = Max (insert 0 (heap_uniq ` S))"

definition heap_get_unused_uniq_field :: "HeapId set \<Rightarrow> int" where
  "heap_get_unused_uniq_field S = heap_u_max S + 1"

definition range_block_ids :: "nat \<Rightarrow> nat \<Rightarrow> page_id \<Rightarrow> nat \<Rightarrow> BlockId set" where
  "range_block_ids lo hi p bsize =
     (\<lambda>i. \<lparr>bi_page = p, bi_idx = i, bi_slice = get_slice_idx p i bsize, bi_size = bsize\<rparr>) ` {lo..<hi}"

text \<open>The state of a thread, and writing it back.\<close>

definition tls :: "('sa, 'pa, 'ha, 'i) Mim \<Rightarrow> ThreadId \<Rightarrow> ('sa, 'pa, 'ha) ThreadState" where
  "tls s t = the (thread_local_state s t)"

definition put_tls :: "ThreadId \<Rightarrow> ('sa, 'pa, 'ha) ThreadState \<Rightarrow> ('sa, 'pa, 'ha, 'i) Mim \<Rightarrow> ('sa, 'pa, 'ha, 'i) Mim" where
  "put_tls t ts s = s\<lparr>thread_local_state := (thread_local_state s)(t \<mapsto> ts)\<rparr>"

definition pageof :: "('sa, 'pa, 'ha) ThreadState \<Rightarrow> page_id \<Rightarrow> 'pa PageState" where
  "pageof ts p = the (ts_pages ts p)"


section \<open>Transitions\<close>

definition mim_initialize :: "('sa, 'pa, 'ha, 'i) Mim" where
  "mim_initialize = \<lparr>right_to_set_inst = True, my_inst = None, right_to_use_thread = UNIV, thread_local_state = Map.empty,
     thread_checked_state = Map.empty, block = Map.empty, thread_of_segment = Map.empty, delay = Map.empty,
     heap_of_page = Map.empty, actor = Map.empty, delay_actor = Map.empty, segment_shared_access = Map.empty,
     page_shared_access = Map.empty, heap_shared_access = Map.empty, reserved_uniq = {}, heap_to_thread = Map.empty\<rparr>"

definition set_inst :: "'i \<Rightarrow> ('sa, 'pa, 'ha, 'i) Mim \<Rightarrow> ('sa, 'pa, 'ha, 'i) Mim step_res" where
  "set_inst i s = require (right_to_set_inst s) (claim (my_inst s = None \<or> my_inst s = Some i)
     (Next (s\<lparr>right_to_set_inst := False, my_inst := Some i\<rparr>)))"

definition actor_make_idle :: "ThreadId \<Rightarrow> ('sa, 'pa, 'ha, 'i) Mim \<Rightarrow> ('sa, 'pa, 'ha, 'i) Mim step_res" where
  "actor_make_idle t s = require (actor s t \<noteq> None) (require (the (actor s t) \<noteq> Abandoned)
     (Next (s\<lparr>actor := (actor s)(t \<mapsto> Idle)\<rparr>)))"

definition actor_abandon :: "ThreadId \<Rightarrow> ('sa, 'pa, 'ha, 'i) Mim \<Rightarrow> ('sa, 'pa, 'ha, 'i) Mim step_res" where
  "actor_abandon t s = require (actor s t \<noteq> None) (Next (s\<lparr>actor := (actor s)(t \<mapsto> Abandoned)\<rparr>))"

definition set_use_delayed_free :: "page_id \<Rightarrow> ('sa, 'pa, 'ha, 'i) Mim \<Rightarrow> ('sa, 'pa, 'ha, 'i) Mim step_res" where
  "set_use_delayed_free p s = require (delay s p = Some NoDelayedFree)
     (Next (s\<lparr>delay := (delay s)(p \<mapsto> UseDelayedFree)\<rparr>))"

definition delay_enter_freeing :: "page_id \<Rightarrow> BlockId \<Rightarrow> ('sa, 'pa, 'ha, 'i) Mim \<Rightarrow> ('sa, 'pa, 'ha, 'i) Mim step_res" where
  "delay_enter_freeing p b s = require (delay s p = Some UseDelayedFree) (require (bi_page b = p) (require (block s b \<noteq> None) (
     claim (delay_actor s p = None) (
     Next (s\<lparr>delay := (delay s)(p \<mapsto> Freeing), delay_actor := (delay_actor s)(p \<mapsto> HeapUnknown)\<rparr>)))))"

definition delay_leave_freeing :: "page_id \<Rightarrow> ('sa, 'pa, 'ha, 'i) Mim \<Rightarrow> ('sa, 'pa, 'ha, 'i) Mim step_res" where
  "delay_leave_freeing p s = require (delay s p \<noteq> None) (require (delay_actor s p \<noteq> None) (
     claim (the (delay s p) = Freeing) (
     Next (s\<lparr>delay := (delay s)(p \<mapsto> NoDelayedFree), delay_actor := (delay_actor s)(p := None)\<rparr>))))"

definition delay_lookup_heap :: "('ha \<Rightarrow> HeapId \<Rightarrow> 'i \<Rightarrow> bool) \<Rightarrow> BlockId \<Rightarrow> ('sa, 'pa, 'ha, 'i) Mim
    \<Rightarrow> ('sa, 'pa, 'ha, 'i) Mim step_res" where
  "delay_lookup_heap wf2 b s = (let p = bi_page b in
     require (heap_of_page s p \<noteq> None) (require (block s b \<noteq> None) (require (my_inst s \<noteq> None) (require (delay_actor s p \<noteq> None) (
     let h = the (heap_of_page s p); hsa = the (heap_shared_access s h); psa = bs_page (the (block s b)) in
     claim (wf2 hsa h (the (my_inst s))) (
     Next (s\<lparr>delay_actor := (delay_actor s)(p \<mapsto> Heap h hsa psa)\<rparr>)))))))"

definition block_set_heap_id :: "BlockId \<Rightarrow> ('sa, 'pa, 'ha, 'i) Mim \<Rightarrow> ('sa, 'pa, 'ha, 'i) Mim step_res" where
  "block_set_heap_id b s = (case delay_actor s (bi_page b) of Some (Heap h hsa psa) \<Rightarrow>
     require (block s b \<noteq> None) (Next (s\<lparr>block := (block s)(b \<mapsto> (the (block s b))\<lparr>bs_heap := Some h\<rparr>)\<rparr>))
   | _ \<Rightarrow> Disabled)"

definition reserve_uniq_identifier :: "('sa, 'pa, 'ha, 'i) Mim \<Rightarrow> ('sa, 'pa, 'ha, 'i) Mim step_res" where
  "reserve_uniq_identifier s = (let u = heap_get_unused_uniq_field (dom (heap_shared_access s) \<union> reserved_uniq s);
       h = \<lparr>heap_nr = 0, heap_uniq = u\<rparr> in
     claim (h \<notin> reserved_uniq s) (Next (s\<lparr>reserved_uniq := insert h (reserved_uniq s)\<rparr>)))"

definition create_thread_mk_tokens :: "('ha \<Rightarrow> HeapId \<Rightarrow> 'i \<Rightarrow> bool) \<Rightarrow> ThreadId \<Rightarrow> ('sa, 'pa, 'ha) ThreadState
    \<Rightarrow> ('sa, 'pa, 'ha, 'i) Mim \<Rightarrow> ('sa, 'pa, 'ha, 'i) Mim step_res" where
  "create_thread_mk_tokens wf2 t ts s = (let h = ts_heap_id ts; r = \<lparr>heap_nr = 0, heap_uniq = heap_uniq h\<rparr> in
     require (t \<in> right_to_use_thread s) (require (r \<in> reserved_uniq s) (
     require (dom (ts_pages ts) = {}) (require (dom (ts_segments ts) = {}) (
     require (my_inst s \<noteq> None) (require (wf2 (hs_shared (ts_heap ts)) h (the (my_inst s))) (
     claim (heap_shared_access s h = None) (claim (thread_local_state s t = None) (claim (thread_checked_state s t = None) (
     Next (s\<lparr>right_to_use_thread := right_to_use_thread s - {t}, reserved_uniq := reserved_uniq s - {r},
       heap_shared_access := (heap_shared_access s)(h \<mapsto> hs_shared (ts_heap ts)),
       heap_to_thread := (heap_to_thread s)(h \<mapsto> t),
       thread_local_state := (thread_local_state s)(t \<mapsto> ts),
       thread_checked_state := (thread_checked_state s)(t \<mapsto> \<lparr>cs_pages = {}\<rparr>)\<rparr>)))))))))))"

definition mk_fresh_segment_id :: "(SegmentId \<rightharpoonup> ThreadId) \<Rightarrow> SegmentId \<Rightarrow> SegmentId" where
  "mk_fresh_segment_id tos sid = \<lparr>seg_nr = seg_nr sid, seg_uniq = segment_get_unused_uniq_field (dom tos)\<rparr>"

definition create_segment_mk_tokens :: "ThreadId \<Rightarrow> SegmentId \<Rightarrow> 'sa SegmentState \<Rightarrow> ('sa, 'pa, 'ha, 'i) Mim
    \<Rightarrow> ('sa, 'pa, 'ha, 'i) Mim step_res" where
  "create_segment_mk_tokens t pre_segment_id st s =
     require (\<not> ss_enabled st) (require (thread_local_state s t \<noteq> None) (
     let ts = tls s t; g = mk_fresh_segment_id (thread_of_segment s) pre_segment_id in
     claim (ts_segments ts g = None) (claim (seg_nr pre_segment_id = seg_nr g) (claim (thread_of_segment s g = None) (
     Next ((put_tls t (ts\<lparr>ts_segments := (ts_segments ts)(g \<mapsto> st)\<rparr>) s)\<lparr>thread_of_segment := (thread_of_segment s)(g \<mapsto> t)\<rparr>))))))"

definition segment_enable :: "ThreadId \<Rightarrow> SegmentId \<Rightarrow> 'sa \<Rightarrow> ('sa, 'pa, 'ha, 'i) Mim \<Rightarrow> ('sa, 'pa, 'ha, 'i) Mim step_res" where
  "segment_enable t g sa s = require (thread_local_state s t \<noteq> None) (let ts = tls s t in
     require (ts_segments ts g \<noteq> None) (require (\<not> ss_enabled (the (ts_segments ts g))) (
     claim (segment_shared_access s g = None) (
     Next ((put_tls t (ts\<lparr>ts_segments := (ts_segments ts)(g \<mapsto> \<lparr>ss_shared = sa, ss_enabled = True\<rparr>)\<rparr>) s)\<lparr>
       segment_shared_access := (segment_shared_access s)(g \<mapsto> sa)\<rparr>)))))"

text \<open>A map of page states covers just the slices of a page, each with its distance from the first.\<close>

definition covers :: "(page_id \<rightharpoonup> 'pa PageState) \<Rightarrow> page_id \<Rightarrow> nat \<Rightarrow> bool" where
  "covers m p n \<longleftrightarrow> dom m = page_id_range (fst p) (snd p) (snd p + n) \<and> (\<forall>q\<in>dom m. ps_offset (the (m q)) + int (snd p) = int (snd q))"

definition create_page_mk_tokens :: "ThreadId \<Rightarrow> page_id \<Rightarrow> nat \<Rightarrow> nat \<Rightarrow> (page_id \<rightharpoonup> 'pa PageState)
    \<Rightarrow> ('sa, 'pa, 'ha, 'i) Mim \<Rightarrow> ('sa, 'pa, 'ha, 'i) Mim step_res" where
  "create_page_mk_tokens t p n_slices bsize page_map s = require (thread_local_state s t \<noteq> None) (let ts = tls s t in
     require (ts_segments ts (fst p) \<noteq> None) (require (ss_enabled (the (ts_segments ts (fst p)))) (
     require (covers page_map p n_slices) (
     require (\<forall>q\<in>dom page_map. \<not> ps_enabled (the (page_map q))) (require (\<forall>q\<in>dom page_map. ps_num_blocks (the (page_map q)) = 0) (
     require (page_map p \<noteq> None) (require (ps_block_size (the (page_map p)) = bsize) (
     require (dom (ts_pages ts) \<inter> dom page_map = {}) (
     claim (heap_of_page s p = None) (claim (delay s p = None) (
     Next ((put_tls t (ts\<lparr>ts_pages := ts_pages ts ++ page_map\<rparr>) s)\<lparr>
       heap_of_page := (heap_of_page s)(p \<mapsto> ts_heap_id ts), delay := (delay s)(p \<mapsto> UseDelayedFree)\<rparr>))))))))))))"

definition page_enable :: "ThreadId \<Rightarrow> page_id \<Rightarrow> nat \<Rightarrow> (page_id \<rightharpoonup> 'pa PageState) \<Rightarrow> (page_id \<rightharpoonup> 'pa)
    \<Rightarrow> ('sa, 'pa, 'ha, 'i) Mim \<Rightarrow> ('sa, 'pa, 'ha, 'i) Mim step_res" where
  "page_enable t p n_slices page_map psa_map s = require (thread_local_state s t \<noteq> None) (let ts = tls s t in
     require (covers page_map p n_slices) (require (dom page_map = dom psa_map) (
     require (\<forall>q\<in>dom page_map. the (psa_map q) = ps_shared (the (page_map q))) (
     require (\<forall>q\<in>dom page_map. ts_pages ts q \<noteq> None \<and> \<not> ps_enabled (pageof ts q)) (
     require (\<forall>q\<in>dom page_map. the (page_map q) = (pageof ts q)\<lparr>ps_enabled := True, ps_shared := the (psa_map q)\<rparr>) (
     claim (dom (page_shared_access s) \<inter> dom psa_map = {}) (
     Next ((put_tls t (ts\<lparr>ts_pages := ts_pages ts ++ page_map\<rparr>) s)\<lparr>page_shared_access := page_shared_access s ++ psa_map\<rparr>))))))))"

definition okay_to_add_block :: "('sa, 'pa, 'ha) ThreadState \<Rightarrow> page_id \<Rightarrow> nat \<Rightarrow> nat \<Rightarrow> bool" where
  "okay_to_add_block ts p i bsize = (let q = (fst p, get_slice_idx p i bsize) in
     ts_pages ts q \<noteq> None \<and> ps_enabled (pageof ts q) \<and> ps_offset (pageof ts q) = int (snd q) - int (snd p))"

definition page_mk_block_tokens :: "ThreadId \<Rightarrow> page_id \<Rightarrow> nat \<Rightarrow> nat \<Rightarrow> nat \<Rightarrow> ('sa, 'pa, 'ha, 'i) Mim
    \<Rightarrow> ('sa, 'pa, 'ha, 'i) Mim step_res" where
  "page_mk_block_tokens t p old_num_blocks new_num_blocks bsize s =
     require (thread_local_state s t \<noteq> None) (require (thread_checked_state s t \<noteq> None) (
     let ts = tls s t; cs = the (thread_checked_state s t) in
     require (ts_pages ts p \<noteq> None) (require (ps_enabled (pageof ts p)) (require (ps_num_blocks (pageof ts p) = old_num_blocks) (
     require (ps_block_size (pageof ts p) = bsize) (require (ps_offset (pageof ts p) = 0) (
     require (old_num_blocks \<le> new_num_blocks) (
     require (\<forall>i\<in>{old_num_blocks..<new_num_blocks}. okay_to_add_block ts p i bsize) (
     let ssa = the (segment_shared_access s (fst p));
         new_blocks = (\<lambda>b. if b \<in> range_block_ids old_num_blocks new_num_blocks p bsize
            then Some \<lparr>bs_segment = ssa, bs_page = ps_shared (pageof ts p),
              bs_slice = ps_shared (pageof ts (page_id_for_slice b)), bs_heap = None\<rparr> else None) in
     claim (dom (block s) \<inter> dom new_blocks = {}) (
     Next ((put_tls t (ts\<lparr>ts_pages := (ts_pages ts)(p \<mapsto> (pageof ts p)\<lparr>ps_num_blocks := new_num_blocks\<rparr>)\<rparr>) s)\<lparr>
       block := block s ++ new_blocks,
       thread_checked_state := (thread_checked_state s)(t \<mapsto> \<lparr>cs_pages = cs_pages cs - {p}\<rparr>)\<rparr>)))))))))))"

definition page_destroy_block_tokens :: "ThreadId \<Rightarrow> page_id \<Rightarrow> (BlockId \<rightharpoonup> ('sa, 'pa) BlockState)
    \<Rightarrow> ('sa, 'pa, 'ha, 'i) Mim \<Rightarrow> ('sa, 'pa, 'ha, 'i) Mim step_res" where
  "page_destroy_block_tokens t p blocks s = require (thread_local_state s t \<noteq> None) (let ts = tls s t in
     require (ts_pages ts p \<noteq> None) (
     require (finite (dom blocks) \<and> card (dom blocks) = ps_num_blocks (pageof ts p)) (
     require (\<forall>b\<in>dom blocks. bi_page b = p) (
     require (blocks \<subseteq>\<^sub>m block s) (
     Next ((put_tls t (ts\<lparr>ts_pages := (ts_pages ts)(p \<mapsto> (pageof ts p)\<lparr>ps_num_blocks := 0\<rparr>)\<rparr>) s)\<lparr>
       block := block s |` (- dom blocks)\<rparr>))))))"

definition page_check_delay_state :: "ThreadId \<Rightarrow> page_id \<Rightarrow> ('sa, 'pa, 'ha, 'i) Mim \<Rightarrow> ('sa, 'pa, 'ha, 'i) Mim step_res" where
  "page_check_delay_state t p s = require (thread_local_state s t \<noteq> None) (require (thread_checked_state s t \<noteq> None) (
     let ts = tls s t; cs = the (thread_checked_state s t) in
     require (ts_pages ts p \<noteq> None) (require (ps_num_blocks (pageof ts p) = 0) (
     require (delay s p \<noteq> None) (require (the (delay s p) \<noteq> Freeing) (
     Next (s\<lparr>thread_checked_state := (thread_checked_state s)(t \<mapsto> \<lparr>cs_pages = insert p (cs_pages cs)\<rparr>)\<rparr>)))))))"

definition page_disable :: "ThreadId \<Rightarrow> page_id \<Rightarrow> nat \<Rightarrow> ('sa, 'pa, 'ha, 'i) Mim \<Rightarrow> ('sa, 'pa, 'ha, 'i) Mim step_res" where
  "page_disable t p n_slices s = require (thread_local_state s t \<noteq> None) (require (thread_checked_state s t \<noteq> None) (
     let ts = tls s t; cs = the (thread_checked_state s t); R = range_from p 0 n_slices in
     require (ts_pages ts p \<noteq> None) (require (ps_enabled (pageof ts p)) (require (p \<in> cs_pages cs) (
     require (ps_num_blocks (pageof ts p) = 0) (require (R \<subseteq> dom (ts_pages ts)) (
     require (\<forall>q\<in>R. ts_pages ts q \<noteq> None \<and> ps_enabled (pageof ts q) \<and> ps_offset (pageof ts q) = int (snd q) - int (snd p)) (
     let disabled = (\<lambda>q. if q \<in> R then Some ((pageof ts q)\<lparr>ps_enabled := False\<rparr>) else None);
         psa_map = (\<lambda>q. if q \<in> R then Some (ps_shared (pageof ts q)) else None) in
     claim (psa_map \<subseteq>\<^sub>m page_shared_access s) (
     Next ((put_tls t (ts\<lparr>ts_pages := ts_pages ts ++ disabled\<rparr>) s)\<lparr>page_shared_access := page_shared_access s |` (- R)\<rparr>))))))))))"

definition page_destroy_tokens :: "ThreadId \<Rightarrow> page_id \<Rightarrow> nat \<Rightarrow> ('sa, 'pa, 'ha, 'i) Mim \<Rightarrow> ('sa, 'pa, 'ha, 'i) Mim step_res" where
  "page_destroy_tokens t p n_slices s =
     require (heap_of_page s p \<noteq> None) (require (delay s p \<noteq> None) (require (thread_local_state s t \<noteq> None) (
     let ts = tls s t; R = range_from p 0 n_slices in
     require (R \<subseteq> dom (ts_pages ts)) (require (n_slices \<ge> 1) (
     require (\<forall>q\<in>R. \<not> ps_enabled (pageof ts q)) (require (\<forall>q\<in>R. p \<noteq> q \<longrightarrow> ps_offset (pageof ts q) \<noteq> 0) (
     Next ((put_tls t (ts\<lparr>ts_pages := ts_pages ts |` (- R)\<rparr>) s)\<lparr>
       heap_of_page := (heap_of_page s)(p := None), delay := (delay s)(p := None)\<rparr>))))))))"

definition block_tokens_distinct_retain :: "BlockId \<Rightarrow> BlockId \<Rightarrow> ('sa, 'pa, 'ha, 'i) Mim \<Rightarrow> ('sa, 'pa, 'ha, 'i) Mim step_res" where
  "block_tokens_distinct_retain b1 b2 s = require (bi_page b1 = bi_page b2) (require (bi_idx b1 = bi_idx b2) (
     require (block s b1 \<noteq> None) (require (block s b2 \<noteq> None \<and> b2 \<noteq> b1) (claim False (Next s)))))"

definition block_tokens_distinct :: "BlockId \<Rightarrow> BlockId \<Rightarrow> ('sa, 'pa, 'ha, 'i) Mim \<Rightarrow> ('sa, 'pa, 'ha, 'i) Mim step_res" where
  "block_tokens_distinct b1 b2 s = require (bi_page b1 = bi_page b2) (require (bi_idx b1 = bi_idx b2) (
     require (block s b1 \<noteq> None) (require (block s b2 \<noteq> None \<and> b2 \<noteq> b1) (
     claim False (Next (s\<lparr>block := (block s)(b1 := None, b2 := None)\<rparr>))))))"

definition block_in_range :: "ThreadId \<Rightarrow> BlockId \<Rightarrow> ('sa, 'pa, 'ha, 'i) Mim \<Rightarrow> ('sa, 'pa, 'ha, 'i) Mim step_res" where
  "block_in_range t b s = require (thread_local_state s t \<noteq> None) (require (block s b \<noteq> None) (
     require (ts_pages (tls s t) (bi_page b) \<noteq> None) (
     claim (bi_idx b < ps_num_blocks (pageof (tls s t) (bi_page b))) (Next s))))"


section \<open>Properties\<close>

text \<open>What the owner of a token may conclude: steps that change nothing and claim a fact.\<close>

definition block_properties :: "('sa, 'pa, 'ha) ThreadState \<Rightarrow> BlockId \<Rightarrow> ('sa, 'pa) BlockState \<Rightarrow> bool" where
  "block_properties ts b bs \<longleftrightarrow> (let q = page_id_for_slice b; p = bi_page b in
     ts_pages ts p \<noteq> None \<and> ps_enabled (pageof ts p) \<and> ps_offset (pageof ts p) = 0 \<and> ps_block_size (pageof ts p) = bi_size b
     \<and> ps_shared (pageof ts p) = bs_page bs \<and> bi_idx b < ps_num_blocks (pageof ts p)
     \<and> ts_pages ts q \<noteq> None \<and> ps_enabled (pageof ts q) \<and> ps_shared (pageof ts q) = bs_slice bs
     \<and> int (snd q) - int (snd p) = ps_offset (pageof ts q)
     \<and> ss_enabled (the (ts_segments ts (fst p))) \<and> ss_shared (the (ts_segments ts (fst p))) = bs_segment bs
     \<and> (case bs_heap bs of None \<Rightarrow> True | Some h \<Rightarrow> h = ts_heap_id ts))"

definition block_on_the_local_thread :: "ThreadId \<Rightarrow> BlockId \<Rightarrow> ('sa, 'pa, 'ha, 'i) Mim \<Rightarrow> ('sa, 'pa, 'ha, 'i) Mim step_res" where
  "block_on_the_local_thread t b s = (let p = bi_page b; ts = tls s t in
     require (thread_of_segment s (fst p) \<noteq> None) (require (thread_local_state s t \<noteq> None) (require (block s b \<noteq> None) (
     require (the (thread_of_segment s (fst p)) = t) (
     claim (ts_segments ts (fst p) \<noteq> None) (claim (ts_pages ts p \<noteq> None) (
     claim (ps_block_size (pageof ts p) = bi_size b) (claim (ps_offset (pageof ts p) = 0) (
     claim (bi_idx b < ps_num_blocks (pageof ts p)) (Next s))))))))))"

definition alloc_guards_segment_shared_access :: "BlockId \<Rightarrow> ('sa, 'pa, 'ha, 'i) Mim \<Rightarrow> ('sa, 'pa, 'ha, 'i) Mim step_res" where
  "alloc_guards_segment_shared_access b s = require (block s b \<noteq> None) (
     claim (segment_shared_access s (fst (bi_page b)) = Some (bs_segment (the (block s b)))) (Next s))"

definition alloc_guards_page_slice_shared_access :: "BlockId \<Rightarrow> ('sa, 'pa, 'ha, 'i) Mim \<Rightarrow> ('sa, 'pa, 'ha, 'i) Mim step_res" where
  "alloc_guards_page_slice_shared_access b s = require (block s b \<noteq> None) (
     claim (page_shared_access s (page_id_for_slice b) = Some (bs_slice (the (block s b)))) (Next s))"

definition alloc_guards_page_shared_access :: "BlockId \<Rightarrow> ('sa, 'pa, 'ha, 'i) Mim \<Rightarrow> ('sa, 'pa, 'ha, 'i) Mim step_res" where
  "alloc_guards_page_shared_access b s = require (block s b \<noteq> None) (
     claim (page_shared_access s (bi_page b) = Some (bs_page (the (block s b)))) (Next s))"

definition delay_guards_heap_shared_access :: "page_id \<Rightarrow> ('sa, 'pa, 'ha, 'i) Mim \<Rightarrow> ('sa, 'pa, 'ha, 'i) Mim step_res" where
  "delay_guards_heap_shared_access p s = (case delay_actor s p of
     Some (Heap h hsa psa) \<Rightarrow> claim (heap_shared_access s h = Some hsa) (Next s) | _ \<Rightarrow> Disabled)"

definition delay_guards_page_shared_access :: "page_id \<Rightarrow> ('sa, 'pa, 'ha, 'i) Mim \<Rightarrow> ('sa, 'pa, 'ha, 'i) Mim step_res" where
  "delay_guards_page_shared_access p s = (case delay_actor s p of
     Some (Heap h hsa psa) \<Rightarrow> claim (page_shared_access s p = Some psa) (Next s) | _ \<Rightarrow> Disabled)"

definition thread_local_state_guards_page :: "ThreadId \<Rightarrow> page_id \<Rightarrow> ('sa, 'pa, 'ha, 'i) Mim \<Rightarrow> ('sa, 'pa, 'ha, 'i) Mim step_res" where
  "thread_local_state_guards_page t p s = require (thread_local_state s t \<noteq> None) (
     require (ts_pages (tls s t) p \<noteq> None) (require (ps_enabled (pageof (tls s t) p)) (
     claim (page_shared_access s p = Some (ps_shared (pageof (tls s t) p))) (Next s))))"

definition thread_local_state_guards_heap :: "ThreadId \<Rightarrow> ('sa, 'pa, 'ha, 'i) Mim \<Rightarrow> ('sa, 'pa, 'ha, 'i) Mim step_res" where
  "thread_local_state_guards_heap t s = require (thread_local_state s t \<noteq> None) (
     claim (heap_shared_access s (ts_heap_id (tls s t)) = Some (hs_shared (ts_heap (tls s t)))) (Next s))"

definition thread_local_state_guards_segment :: "ThreadId \<Rightarrow> SegmentId \<Rightarrow> ('sa, 'pa, 'ha, 'i) Mim \<Rightarrow> ('sa, 'pa, 'ha, 'i) Mim step_res" where
  "thread_local_state_guards_segment t g s = require (thread_local_state s t \<noteq> None) (
     require (ts_segments (tls s t) g \<noteq> None) (require (ss_enabled (the (ts_segments (tls s t) g))) (
     claim (segment_shared_access s g = Some (ss_shared (the (ts_segments (tls s t) g)))) (Next s))))"

definition heap_of_page_agree_with_thread_state :: "page_id \<Rightarrow> ThreadId \<Rightarrow> ('sa, 'pa, 'ha, 'i) Mim \<Rightarrow> ('sa, 'pa, 'ha, 'i) Mim step_res" where
  "heap_of_page_agree_with_thread_state p t s = require (thread_local_state s t \<noteq> None) (require (heap_of_page s p \<noteq> None) (
     require (ts_pages (tls s t) p \<noteq> None) (claim (ts_heap_id (tls s t) = the (heap_of_page s p)) (Next s))))"

definition block_in_heap_has_valid_page :: "ThreadId \<Rightarrow> BlockId \<Rightarrow> ('sa, 'pa, 'ha, 'i) Mim \<Rightarrow> ('sa, 'pa, 'ha, 'i) Mim step_res" where
  "block_in_heap_has_valid_page t b s = (let ts = tls s t; p = bi_page b in
     require (thread_local_state s t \<noteq> None) (require (block s b \<noteq> None) (
     require (bs_heap (the (block s b)) = Some (ts_heap_id ts)) (
     claim (ts_pages ts p \<noteq> None) (claim (ps_block_size (pageof ts p) = bi_size b) (claim (ps_offset (pageof ts p) = 0) (Next s)))))))"

definition get_block_properties :: "ThreadId \<Rightarrow> BlockId \<Rightarrow> ('sa, 'pa, 'ha, 'i) Mim \<Rightarrow> ('sa, 'pa, 'ha, 'i) Mim step_res" where
  "get_block_properties t b s = require (block s b \<noteq> None) (require (thread_local_state s t \<noteq> None) (
     require (ts_pages (tls s t) (bi_page b) \<noteq> None) (
     claim (block_properties (tls s t) b (the (block s b))) (Next s))))"


section \<open>Runs\<close>

text \<open>The transitions and properties with their parameters.\<close>

datatype ('sa, 'pa, 'ha, 'i) mim_step = SetInst 'i | ActorMakeIdle ThreadId | ActorAbandon ThreadId | SetUseDelayedFree page_id
  | DelayEnterFreeing page_id BlockId | DelayLeaveFreeing page_id | DelayLookupHeap BlockId | BlockSetHeapId BlockId
  | ReserveUniq | CreateThread ThreadId "('sa, 'pa, 'ha) ThreadState" | MkSegment ThreadId SegmentId "'sa SegmentState"
  | SegmentEnable ThreadId SegmentId 'sa | MkPage ThreadId page_id nat nat "page_id \<rightharpoonup> 'pa PageState"
  | PageEnable ThreadId page_id nat "page_id \<rightharpoonup> 'pa PageState" "page_id \<rightharpoonup> 'pa" | MkBlocks ThreadId page_id nat nat nat
  | DestroyBlocks ThreadId page_id "BlockId \<rightharpoonup> ('sa, 'pa) BlockState" | CheckDelayState ThreadId page_id
  | PageDisable ThreadId page_id nat | PageDestroy ThreadId page_id nat
  | BlocksDistinctRetain BlockId BlockId | BlocksDistinct BlockId BlockId | BlockInRange ThreadId BlockId

datatype mim_query = LocalBlock ThreadId BlockId | BlockSegment BlockId | BlockSlice BlockId | BlockPage BlockId
  | DelayHeap page_id | DelayPage page_id | ThreadPage ThreadId page_id | ThreadHeap ThreadId | ThreadSegment ThreadId SegmentId
  | PageHeap page_id ThreadId | HeapBlock ThreadId BlockId | BlockProperties ThreadId BlockId

fun mim_exec :: "('ha \<Rightarrow> HeapId \<Rightarrow> 'i \<Rightarrow> bool) \<Rightarrow> ('sa, 'pa, 'ha, 'i) mim_step \<Rightarrow> ('sa, 'pa, 'ha, 'i) Mim \<Rightarrow> ('sa, 'pa, 'ha, 'i) Mim step_res" where
  "mim_exec wf2 (SetInst i) = set_inst i"
| "mim_exec wf2 (ActorMakeIdle t) = actor_make_idle t"
| "mim_exec wf2 (ActorAbandon t) = actor_abandon t"
| "mim_exec wf2 (SetUseDelayedFree p) = set_use_delayed_free p"
| "mim_exec wf2 (DelayEnterFreeing p b) = delay_enter_freeing p b"
| "mim_exec wf2 (DelayLeaveFreeing p) = delay_leave_freeing p"
| "mim_exec wf2 (DelayLookupHeap b) = delay_lookup_heap wf2 b"
| "mim_exec wf2 (BlockSetHeapId b) = block_set_heap_id b"
| "mim_exec wf2 ReserveUniq = reserve_uniq_identifier"
| "mim_exec wf2 (CreateThread t ts) = create_thread_mk_tokens wf2 t ts"
| "mim_exec wf2 (MkSegment t g st) = create_segment_mk_tokens t g st"
| "mim_exec wf2 (SegmentEnable t g sa) = segment_enable t g sa"
| "mim_exec wf2 (MkPage t p n sz m) = create_page_mk_tokens t p n sz m"
| "mim_exec wf2 (PageEnable t p n m a) = page_enable t p n m a"
| "mim_exec wf2 (MkBlocks t p i j sz) = page_mk_block_tokens t p i j sz"
| "mim_exec wf2 (DestroyBlocks t p bs) = page_destroy_block_tokens t p bs"
| "mim_exec wf2 (CheckDelayState t p) = page_check_delay_state t p"
| "mim_exec wf2 (PageDisable t p n) = page_disable t p n"
| "mim_exec wf2 (PageDestroy t p n) = page_destroy_tokens t p n"
| "mim_exec wf2 (BlocksDistinctRetain b1 b2) = block_tokens_distinct_retain b1 b2"
| "mim_exec wf2 (BlocksDistinct b1 b2) = block_tokens_distinct b1 b2"
| "mim_exec wf2 (BlockInRange t b) = block_in_range t b"

fun mim_ask :: "mim_query \<Rightarrow> ('sa, 'pa, 'ha, 'i) Mim \<Rightarrow> ('sa, 'pa, 'ha, 'i) Mim step_res" where
  "mim_ask (LocalBlock t b) = block_on_the_local_thread t b"
| "mim_ask (BlockSegment b) = alloc_guards_segment_shared_access b"
| "mim_ask (BlockSlice b) = alloc_guards_page_slice_shared_access b"
| "mim_ask (BlockPage b) = alloc_guards_page_shared_access b"
| "mim_ask (DelayHeap p) = delay_guards_heap_shared_access p"
| "mim_ask (DelayPage p) = delay_guards_page_shared_access p"
| "mim_ask (ThreadPage t p) = thread_local_state_guards_page t p"
| "mim_ask (ThreadHeap t) = thread_local_state_guards_heap t"
| "mim_ask (ThreadSegment t g) = thread_local_state_guards_segment t g"
| "mim_ask (PageHeap p t) = heap_of_page_agree_with_thread_state p t"
| "mim_ask (HeapBlock t b) = block_in_heap_has_valid_page t b"
| "mim_ask (BlockProperties t b) = get_block_properties t b"

inductive mim_reach :: "('ha \<Rightarrow> HeapId \<Rightarrow> 'i \<Rightarrow> bool) \<Rightarrow> ('sa, 'pa, 'ha, 'i) Mim \<Rightarrow> bool" for wf2 where
  mim_init: "mim_reach wf2 mim_initialize"
| mim_step: "mim_reach wf2 s \<Longrightarrow> mim_exec wf2 a s = Next s' \<Longrightarrow> mim_reach wf2 s'"

end
