(* ===== verification/Mim_Inv.thy ===== *)
theory Mim_Inv
  imports Mim
begin

text \<open>
  The invariant of \<^verbatim>\<open>Mim\<close>. A segment has one owner, so the pages and segments of all threads make two maps
  (\<open>pgs\<close>, \<open>sgs\<close>); the other fields are determined by them or refer to them. The parts of the invariant
  are predicates on the fields they speak of.
\<close>

section \<open>Owners\<close>

type_synonym ('sa, 'pa, 'ha) threads = "ThreadId \<rightharpoonup> ('sa, 'pa, 'ha) ThreadState"
type_synonym owners = "SegmentId \<rightharpoonup> ThreadId"

definition owner :: "('sa, 'pa, 'ha) threads \<Rightarrow> owners \<Rightarrow> SegmentId \<rightharpoonup> ('sa, 'pa, 'ha) ThreadState" where
  "owner T W g = (case W g of None \<Rightarrow> None | Some t \<Rightarrow> T t)"

definition pgs :: "('sa, 'pa, 'ha) threads \<Rightarrow> owners \<Rightarrow> page_id \<rightharpoonup> 'pa PageState" where
  "pgs T W p = (case owner T W (fst p) of None \<Rightarrow> None | Some ts \<Rightarrow> ts_pages ts p)"

definition sgs :: "('sa, 'pa, 'ha) threads \<Rightarrow> owners \<Rightarrow> SegmentId \<rightharpoonup> 'sa SegmentState" where
  "sgs T W g = (case owner T W g of None \<Rightarrow> None | Some ts \<Rightarrow> ts_segments ts g)"

definition hps :: "('sa, 'pa, 'ha) threads \<Rightarrow> owners \<Rightarrow> SegmentId \<rightharpoonup> HeapId" where
  "hps T W g = map_option ts_heap_id (owner T W g)"

definition checked :: "owners \<Rightarrow> (ThreadId \<rightharpoonup> ThreadCheckedState) \<Rightarrow> page_id \<Rightarrow> bool" where
  "checked W C p \<longleftrightarrow> (\<exists>t cs. W (fst p) = Some t \<and> C t = Some cs \<and> p \<in> cs_pages cs)"

text \<open>Segments and pages of a thread are those it owns.\<close>

definition owned :: "('sa, 'pa, 'ha) threads \<Rightarrow> owners \<Rightarrow> bool" where
  "owned T W \<longleftrightarrow> finite (dom W)
     \<and> (\<forall>t ts g. T t = Some ts \<and> ts_segments ts g \<noteq> None \<longrightarrow> W g = Some t)
     \<and> (\<forall>g t. W g = Some t \<longrightarrow> (\<exists>ts. T t = Some ts \<and> ts_segments ts g \<noteq> None))
     \<and> (\<forall>t ts p. T t = Some ts \<and> ts_pages ts p \<noteq> None \<longrightarrow> ts_segments ts (fst p) \<noteq> None)"

section \<open>The invariant\<close>

text \<open>A page is in an enabled segment, the access that is stored is that of the enabled ones, and a page header has the heap of its owner.\<close>

definition stored :: "(page_id \<rightharpoonup> 'pa PageState) \<Rightarrow> (SegmentId \<rightharpoonup> 'sa SegmentState) \<Rightarrow> (SegmentId \<rightharpoonup> HeapId)
    \<Rightarrow> (page_id \<rightharpoonup> 'pa) \<Rightarrow> (SegmentId \<rightharpoonup> 'sa) \<Rightarrow> (page_id \<rightharpoonup> HeapId) \<Rightarrow> bool" where
  "stored P S K psa ssa hop \<longleftrightarrow> (\<forall>p ps. P p = Some ps \<longrightarrow> (\<exists>ss. S (fst p) = Some ss \<and> ss_enabled ss))
     \<and> (\<forall>p. psa p = (case P p of None \<Rightarrow> None | Some ps \<Rightarrow> if ps_enabled ps then Some (ps_shared ps) else None))
     \<and> (\<forall>g. ssa g = (case S g of None \<Rightarrow> None | Some ss \<Rightarrow> if ss_enabled ss then Some (ss_shared ss) else None))
     \<and> (\<forall>p. hop p = (case P p of None \<Rightarrow> None | Some ps \<Rightarrow> if ps_offset ps = 0 then K (fst p) else None))"

text \<open>What is known of a block that is out.\<close>

definition block_fits :: "(page_id \<rightharpoonup> 'pa PageState) \<Rightarrow> (SegmentId \<rightharpoonup> 'sa SegmentState) \<Rightarrow> (SegmentId \<rightharpoonup> HeapId)
    \<Rightarrow> BlockId \<Rightarrow> ('sa, 'pa) BlockState \<Rightarrow> bool" where
  "block_fits P S K b bs \<longleftrightarrow> (\<exists>ps qs ss. P (bi_page b) = Some ps \<and> ps_enabled ps \<and> ps_offset ps = 0 \<and> ps_block_size ps = bi_size b
     \<and> ps_shared ps = bs_page bs \<and> bi_idx b < ps_num_blocks ps
     \<and> P (page_id_for_slice b) = Some qs \<and> ps_enabled qs \<and> ps_shared qs = bs_slice bs
     \<and> int (bi_slice b) - int (snd (bi_page b)) = ps_offset qs
     \<and> S (fst (bi_page b)) = Some ss \<and> ss_enabled ss \<and> ss_shared ss = bs_segment bs
     \<and> (\<forall>h. bs_heap bs = Some h \<longrightarrow> K (fst (bi_page b)) = Some h))"

definition blocks_out :: "(page_id \<rightharpoonup> 'pa PageState) \<Rightarrow> (SegmentId \<rightharpoonup> 'sa SegmentState) \<Rightarrow> (SegmentId \<rightharpoonup> HeapId)
    \<Rightarrow> (BlockId \<rightharpoonup> ('sa, 'pa) BlockState) \<Rightarrow> bool" where
  "blocks_out P S K B \<longleftrightarrow> (\<forall>b bs. B b = Some bs \<longrightarrow> block_fits P S K b bs)
     \<and> (\<forall>b c. B b \<noteq> None \<and> B c \<noteq> None \<and> bi_page b = bi_page c \<and> bi_idx b = bi_idx c \<longrightarrow> b = c)"

text \<open>A thread is in the freeing window of a page when the delay state says so; the page stays while it is.\<close>

definition windows :: "(page_id \<rightharpoonup> 'pa PageState) \<Rightarrow> (SegmentId \<rightharpoonup> HeapId) \<Rightarrow> (page_id \<Rightarrow> bool) \<Rightarrow> (page_id \<rightharpoonup> DelayState)
    \<Rightarrow> (page_id \<rightharpoonup> HeapId) \<Rightarrow> (page_id \<rightharpoonup> ('pa, 'ha) DelayFreeingActor) \<Rightarrow> (HeapId \<rightharpoonup> 'ha) \<Rightarrow> bool" where
  "windows P K ch D hop A hsa \<longleftrightarrow> (\<forall>p. D p = None \<longleftrightarrow> hop p = None)
     \<and> (\<forall>p. A p \<noteq> None \<longleftrightarrow> D p = Some Freeing) \<and> (\<forall>p. D p \<noteq> Some NeverDelayedFree)
     \<and> (\<forall>p a. A p = Some a \<longrightarrow> (\<exists>ps. P p = Some ps \<and> ps_enabled ps))
     \<and> (\<forall>p h x y. A p = Some (Heap h x y) \<longrightarrow> K (fst p) = Some h \<and> hsa h = Some x \<and> (\<forall>ps. P p = Some ps \<longrightarrow> ps_shared ps = y))
     \<and> (\<forall>p ps. ch p \<and> P p = Some ps \<longrightarrow> ps_num_blocks ps = 0 \<and> A p = None)"

definition heaps_ok :: "('ha \<Rightarrow> HeapId \<Rightarrow> 'i \<Rightarrow> bool) \<Rightarrow> bool \<Rightarrow> 'i option \<Rightarrow> ('sa, 'pa, 'ha) threads \<Rightarrow> (ThreadId \<rightharpoonup> ThreadCheckedState)
    \<Rightarrow> ThreadId set \<Rightarrow> (HeapId \<rightharpoonup> 'ha) \<Rightarrow> HeapId set \<Rightarrow> (HeapId \<rightharpoonup> ThreadId) \<Rightarrow> bool" where
  "heaps_ok wf2 r inst T C U hsa res htt \<longleftrightarrow> (r \<longleftrightarrow> inst = None)
     \<and> (\<forall>h a. hsa h = Some a \<longrightarrow> (\<exists>i. inst = Some i \<and> wf2 a h i))
     \<and> finite (dom hsa) \<and> finite res
     \<and> (\<forall>h\<in>res. heap_nr h = 0 \<and> (\<forall>k. hsa k \<noteq> None \<longrightarrow> heap_uniq h \<noteq> heap_uniq k))
     \<and> (\<forall>t. C t = None \<longleftrightarrow> T t = None) \<and> (\<forall>t. t \<in> U \<longleftrightarrow> T t = None)
     \<and> (\<forall>t ts. T t = Some ts \<longrightarrow> htt (ts_heap_id ts) = Some t \<and> hsa (ts_heap_id ts) = Some (hs_shared (ts_heap ts)))
     \<and> (\<forall>h t. htt h = Some t \<longrightarrow> (\<exists>ts. T t = Some ts \<and> ts_heap_id ts = h))"

definition mim_ok :: "('ha \<Rightarrow> HeapId \<Rightarrow> 'i \<Rightarrow> bool) \<Rightarrow> ('sa, 'pa, 'ha, 'i) Mim \<Rightarrow> bool" where
  "mim_ok wf2 s \<longleftrightarrow> (let T = thread_local_state s; W = thread_of_segment s; P = pgs T W; S = sgs T W; K = hps T W in
     owned T W
   \<and> stored P S K (page_shared_access s) (segment_shared_access s) (heap_of_page s)
   \<and> blocks_out P S K (block s)
   \<and> windows P K (checked W (thread_checked_state s)) (delay s) (heap_of_page s) (delay_actor s) (heap_shared_access s)
   \<and> heaps_ok wf2 (right_to_set_inst s) (my_inst s) T (thread_checked_state s) (right_to_use_thread s)
       (heap_shared_access s) (reserved_uniq s) (heap_to_thread s))"

lemma mim_okD:
  assumes "mim_ok wf2 s"
  shows "owned (thread_local_state s) (thread_of_segment s)"
    "stored (pgs (thread_local_state s) (thread_of_segment s)) (sgs (thread_local_state s) (thread_of_segment s))
       (hps (thread_local_state s) (thread_of_segment s)) (page_shared_access s) (segment_shared_access s) (heap_of_page s)"
    "blocks_out (pgs (thread_local_state s) (thread_of_segment s)) (sgs (thread_local_state s) (thread_of_segment s))
       (hps (thread_local_state s) (thread_of_segment s)) (block s)"
    "windows (pgs (thread_local_state s) (thread_of_segment s)) (hps (thread_local_state s) (thread_of_segment s))
       (checked (thread_of_segment s) (thread_checked_state s)) (delay s) (heap_of_page s) (delay_actor s) (heap_shared_access s)"
    "heaps_ok wf2 (right_to_set_inst s) (my_inst s) (thread_local_state s) (thread_checked_state s) (right_to_use_thread s)
       (heap_shared_access s) (reserved_uniq s) (heap_to_thread s)"
  using assms unfolding mim_ok_def Let_def by blast+


section \<open>What the owner has\<close>

lemma ownedD:
  assumes "owned T W"
  shows "finite (dom W)" "T t = Some ts \<Longrightarrow> ts_segments ts g \<noteq> None \<Longrightarrow> W g = Some t"
    "W g = Some t \<Longrightarrow> \<exists>ts. T t = Some ts \<and> ts_segments ts g \<noteq> None"
    "T t = Some ts \<Longrightarrow> ts_pages ts p \<noteq> None \<Longrightarrow> ts_segments ts (fst p) \<noteq> None"
    "T t = Some ts \<Longrightarrow> ts_pages ts p \<noteq> None \<Longrightarrow> W (fst p) = Some t"
  using assms unfolding owned_def by blast+

lemma owner_of:
  assumes o: "owned T W" and t: "T t = Some ts" and w: "W g = Some t"
  shows "owner T W g = Some ts" "hps T W g = Some (ts_heap_id ts)" "sgs T W g = ts_segments ts g" "fst p = g \<Longrightarrow> pgs T W p = ts_pages ts p"
  using t w by (auto simp: owner_def hps_def sgs_def pgs_def)

lemma thread_page:
  assumes "owned T W" "T t = Some ts" "ts_pages ts p = Some ps"
  shows "pgs T W p = Some ps" "W (fst p) = Some t" "hps T W (fst p) = Some (ts_heap_id ts)" "sgs T W (fst p) = ts_segments ts (fst p)"
  using owner_of [OF assms(1,2), of "fst p"] ownedD(5) [OF assms(1,2), of p] assms(3) by auto

lemma thread_segment:
  assumes "owned T W" "T t = Some ts" "ts_segments ts g = Some ss"
  shows "sgs T W g = Some ss" "W g = Some t" "hps T W g = Some (ts_heap_id ts)" "fst p = g \<Longrightarrow> pgs T W p = ts_pages ts p"
  using owner_of [OF assms(1,2), of g] ownedD(2) [OF assms(1,2), of g] assms(3) by auto

lemma pgsE:
  assumes "owned T W" "pgs T W p = Some ps"
  obtains t ts where "W (fst p) = Some t" "T t = Some ts" "ts_pages ts p = Some ps"
  using assms by (auto simp: pgs_def owner_def split: option.splits)

lemma sgsE:
  assumes "owned T W" "sgs T W g = Some ss"
  obtains t ts where "W g = Some t" "T t = Some ts" "ts_segments ts g = Some ss"
  using assms by (auto simp: sgs_def owner_def split: option.splits)

text \<open>A thread changes its pages, or a segment.\<close>

lemma put_pages:
  assumes o: "owned T W" and t: "T t = Some ts" and P: "\<And>p. P p \<noteq> None \<Longrightarrow> ts_segments ts (fst p) \<noteq> None"
    and T': "T' = T(t \<mapsto> ts\<lparr>ts_pages := P\<rparr>)"
  shows "owned T' W" "pgs T' W = (\<lambda>p. if W (fst p) = Some t then P p else pgs T W p)" "sgs T' W = sgs T W" "hps T' W = hps T W"
proof -
  note D = ownedD [OF o]
  show "owned T' W"
    unfolding owned_def
  proof (intro conjI allI impI)
    show "finite (dom W)" by (rule D(1))
    show "W g = Some u" if "T' u = Some us \<and> ts_segments us g \<noteq> None" for u us g
      using that t D(2) [of u] D(2) [OF t] by (auto simp: T' split: if_splits)
    show "\<exists>us. T' u = Some us \<and> ts_segments us g \<noteq> None" if "W g = Some u" for g u
      using D(3) [OF that] t by (auto simp: T')
    show "ts_segments us (fst p) \<noteq> None" if "T' u = Some us \<and> ts_pages us p \<noteq> None" for u us p
    proof (cases "u = t")
      case True
      then show ?thesis using that P [of p] by (auto simp: T')
    next
      case False
      then show ?thesis using that D(4) [of u us p] by (simp add: T')
    qed
  qed
  show "pgs T' W = (\<lambda>p. if W (fst p) = Some t then P p else pgs T W p)" "sgs T' W = sgs T W" "hps T' W = hps T W"
    using t by (auto simp: T' pgs_def sgs_def hps_def owner_def fun_eq_iff split: option.splits)
qed

lemma add_pages:
  assumes o: "owned T W" and t: "T t = Some ts" and m: "\<And>p. m p \<noteq> None \<Longrightarrow> ts_segments ts (fst p) \<noteq> None"
    and T': "T' = T(t \<mapsto> ts\<lparr>ts_pages := ts_pages ts ++ m\<rparr>)"
  shows "owned T' W" "pgs T' W = pgs T W ++ m" "sgs T' W = sgs T W" "hps T' W = hps T W"
proof -
  have P: "ts_segments ts (fst p) \<noteq> None" if "(ts_pages ts ++ m) p \<noteq> None" for p
    using that m [of p] ownedD(4) [OF o t, of p] by (cases "m p") (auto simp: map_add_def)
  note X = put_pages [where P = "ts_pages ts ++ m", OF o t P refl]
  show "owned T' W" "sgs T' W = sgs T W" "hps T' W = hps T W" using X(1,3,4) unfolding T' by blast+
  have "(if W (fst p) = Some t then (ts_pages ts ++ m) p else pgs T W p) = (pgs T W ++ m) p" for p
    using owner_of(4) [OF o t, of "fst p" p] ownedD(2) [OF o t, of "fst p"] m [of p]
    by (cases "m p") (auto simp: map_add_def)
  then show "pgs T' W = pgs T W ++ m" using X(2) unfolding T' by presburger
qed

lemma upd_page:
  assumes o: "owned T W" and t: "T t = Some ts" and p: "ts_pages ts p \<noteq> None"
    and T': "T' = T(t \<mapsto> ts\<lparr>ts_pages := (ts_pages ts)(p \<mapsto> x)\<rparr>)"
  shows "owned T' W" "pgs T' W = (pgs T W)(p \<mapsto> x)" "sgs T' W = sgs T W" "hps T' W = hps T W"
proof -
  have m: "ts_segments ts (fst q) \<noteq> None" if "[p \<mapsto> x] q \<noteq> None" for q
    using that ownedD(4) [OF o t p] by (auto split: if_splits)
  have e: "f ++ [p \<mapsto> x] = f(p \<mapsto> x)" for f :: "page_id \<rightharpoonup> 'b PageState" by simp
  note X = add_pages [OF o t, of "[p \<mapsto> x]", OF m refl, unfolded e]
  show "owned T' W" "pgs T' W = (pgs T W)(p \<mapsto> x)" "sgs T' W = sgs T W" "hps T' W = hps T W" using X unfolding T' by blast+
qed

lemma drop_pages:
  assumes o: "owned T W" and t: "T t = Some ts" and R: "R \<subseteq> dom (ts_pages ts)"
    and T': "T' = T(t \<mapsto> ts\<lparr>ts_pages := ts_pages ts |` (- R)\<rparr>)"
  shows "owned T' W" "pgs T' W = pgs T W |` (- R)" "sgs T' W = sgs T W" "hps T' W = hps T W"
proof -
  have P: "ts_segments ts (fst p) \<noteq> None" if "(ts_pages ts |` (- R)) p \<noteq> None" for p
    using that ownedD(4) [OF o t, of p] by (auto simp: restrict_map_def split: if_splits)
  note X = put_pages [where P = "ts_pages ts |` (- R)", OF o t P refl]
  show "owned T' W" "sgs T' W = sgs T W" "hps T' W = hps T W" using X(1,3,4) unfolding T' by blast+
  have "(if W (fst p) = Some t then (ts_pages ts |` (- R)) p else pgs T W p) = (pgs T W |` (- R)) p" for p
    using owner_of(4) [OF o t, of "fst p" p] ownedD(5) [OF o t, of p] R by (auto simp: restrict_map_def)
  then show "pgs T' W = pgs T W |` (- R)" using X(2) unfolding T' by presburger
qed

lemma upd_segment:
  assumes o: "owned T W" and t: "T t = Some ts" and g: "ts_segments ts g \<noteq> None \<or> W g = None"
    and T': "T' = T(t \<mapsto> ts\<lparr>ts_segments := (ts_segments ts)(g \<mapsto> x)\<rparr>)"
  shows "owned T' (W(g \<mapsto> t))" "pgs T' (W(g \<mapsto> t)) = pgs T W" "sgs T' (W(g \<mapsto> t)) = (sgs T W)(g \<mapsto> x)"
    "hps T' (W(g \<mapsto> t)) = (hps T W)(g \<mapsto> ts_heap_id ts)"
proof -
  note D = ownedD [OF o]
  have W: "W g = Some t \<or> W g = None" using g D(2) [OF t, of g] by (cases "ts_segments ts g") auto
  have none: "us = ts \<or> ts_segments us g = None" if "T u = Some us" for u us
    using D(2) [OF that, of g] W t that by (cases "ts_segments us g") auto
  have np: "ts_pages ts p = None" if "W (fst p) = None" for p using D(5) [OF t, of p] that by (cases "ts_pages ts p") auto
  show "owned T' (W(g \<mapsto> t))"
    unfolding owned_def
  proof (intro conjI allI impI)
    show "finite (dom (W(g \<mapsto> t)))" using D(1) by simp
    show "(W(g \<mapsto> t)) h = Some u" if a: "T' u = Some us \<and> ts_segments us h \<noteq> None" for u us h
    proof (cases "u = t")
      case True
      then show ?thesis using a D(2) [OF t, of h] by (auto simp: T' split: if_splits)
    next
      case False
      then have u: "T u = Some us" "ts_segments us h \<noteq> None" using a by (auto simp: T')
      then have "W h = Some u" by (rule D(2))
      moreover have "h \<noteq> g" using calculation W False by auto
      ultimately show ?thesis by simp
    qed
    show "\<exists>us. T' u = Some us \<and> ts_segments us h \<noteq> None" if "(W(g \<mapsto> t)) h = Some u" for h u
      using that D(3) [of h u] t by (auto simp: T' split: if_splits)
    show "ts_segments us (fst p) \<noteq> None" if "T' u = Some us \<and> ts_pages us p \<noteq> None" for u us p
      using that D(4) [of u us p] D(4) [OF t, of p] by (auto simp: T' split: if_splits)
  qed
  show "pgs T' (W(g \<mapsto> t)) = pgs T W" "sgs T' (W(g \<mapsto> t)) = (sgs T W)(g \<mapsto> x)" "hps T' (W(g \<mapsto> t)) = (hps T W)(g \<mapsto> ts_heap_id ts)"
    using t W np by (auto simp: T' pgs_def sgs_def hps_def owner_def fun_eq_iff split: option.splits)
qed

end
