(* ===== verification/Mim_Steps.thy ===== *)
theory Mim_Steps
  imports Mim_Inv
begin

text \<open>Every transition of \<^verbatim>\<open>Mim\<close> keeps the invariant, and no fact it claims is false.\<close>

section \<open>Parts of the invariant\<close>

lemma storedD:
  assumes "stored P S K psa ssa hop"
  shows "P p = Some ps \<Longrightarrow> \<exists>ss. S (fst p) = Some ss \<and> ss_enabled ss"
    "psa p = (case P p of None \<Rightarrow> None | Some ps \<Rightarrow> if ps_enabled ps then Some (ps_shared ps) else None)"
    "ssa g = (case S g of None \<Rightarrow> None | Some ss \<Rightarrow> if ss_enabled ss then Some (ss_shared ss) else None)"
    "hop p = (case P p of None \<Rightarrow> None | Some ps \<Rightarrow> if ps_offset ps = 0 then K (fst p) else None)"
  using assms unfolding stored_def by blast+

lemma blocks_outD:
  assumes "blocks_out P S K B"
  shows "B b = Some bs \<Longrightarrow> block_fits P S K b bs"
    "B b \<noteq> None \<Longrightarrow> B c \<noteq> None \<Longrightarrow> bi_page b = bi_page c \<Longrightarrow> bi_idx b = bi_idx c \<Longrightarrow> b = c"
  using assms unfolding blocks_out_def by blast+

lemma windowsD:
  assumes "windows P K ch D hop A hsa"
  shows "D p = None \<longleftrightarrow> hop p = None" "A p \<noteq> None \<longleftrightarrow> D p = Some Freeing" "D p \<noteq> Some NeverDelayedFree"
    "A p = Some a \<Longrightarrow> \<exists>ps. P p = Some ps \<and> ps_enabled ps" "A p = Some (Heap h x y) \<Longrightarrow> K (fst p) = Some h"
    "A p = Some (Heap h x y) \<Longrightarrow> hsa h = Some x" "A p = Some (Heap h x y) \<Longrightarrow> P p = Some ps \<Longrightarrow> ps_shared ps = y"
    "ch p \<Longrightarrow> P p = Some ps \<Longrightarrow> ps_num_blocks ps = 0" "ch p \<Longrightarrow> P p = Some ps \<Longrightarrow> A p = None"
  using assms unfolding windows_def by blast+

lemma windowsI:
  assumes "\<And>p. D p = None \<longleftrightarrow> hop p = None" "\<And>p. A p \<noteq> None \<longleftrightarrow> D p = Some Freeing" "\<And>p. D p \<noteq> Some NeverDelayedFree"
    "\<And>p a. A p = Some a \<Longrightarrow> \<exists>ps. P p = Some ps \<and> ps_enabled ps"
    "\<And>p h x y. A p = Some (Heap h x y) \<Longrightarrow> K (fst p) = Some h \<and> hsa h = Some x \<and> (\<forall>ps. P p = Some ps \<longrightarrow> ps_shared ps = y)"
    "\<And>p ps. ch p \<Longrightarrow> P p = Some ps \<Longrightarrow> ps_num_blocks ps = 0 \<and> A p = None"
  shows "windows P K ch D hop A hsa"
  unfolding windows_def using assms by blast

text \<open>The delay state of a page changes, and who is in its window.\<close>

lemma windows_upd:
  assumes w: "windows P K ch D hop A hsa" and D: "D p \<noteq> None" "a \<noteq> None \<longleftrightarrow> d = Freeing" "d \<noteq> NeverDelayedFree"
    and a: "a \<noteq> None \<Longrightarrow> \<exists>ps. P p = Some ps \<and> ps_enabled ps \<and> \<not> ch p"
      "\<And>h x y. a = Some (Heap h x y) \<Longrightarrow> K (fst p) = Some h \<and> hsa h = Some x \<and> (\<forall>ps. P p = Some ps \<longrightarrow> ps_shared ps = y)"
  shows "windows P K ch (D(p \<mapsto> d)) hop (A(p := a)) hsa"
proof (rule windowsI)
  note w = windowsD [OF w]
  fix q
  show "(D(p \<mapsto> d)) q = None \<longleftrightarrow> hop q = None" using w(1) [of p] w(1) [of q] D(1) by simp
  show "(A(p := a)) q \<noteq> None \<longleftrightarrow> (D(p \<mapsto> d)) q = Some Freeing" using w(2) [of q] D(2) by simp
  show "(D(p \<mapsto> d)) q \<noteq> Some NeverDelayedFree" using w(3) [of q] D(3) by simp
  show "\<exists>ps. P q = Some ps \<and> ps_enabled ps" if "(A(p := a)) q = Some b" for b using that w(4) [of q b] a(1) by (auto split: if_splits)
  show "K (fst q) = Some h \<and> hsa h = Some x \<and> (\<forall>ps. P q = Some ps \<longrightarrow> ps_shared ps = y)" if "(A(p := a)) q = Some (Heap h x y)" for h x y
    using that w(5,6) [of q h x y] w(7) [of q h x y] a(2) [of h x y] by (cases "q = p") simp_all
  show "ps_num_blocks ps = 0 \<and> (A(p := a)) q = None" if "ch q" "P q = Some ps" for ps
    using that w(8,9) [of q ps] a(1) by (cases "q = p"; cases a) auto
qed

lemma block_fitsE:
  assumes "block_fits P S K b bs"
  obtains ps qs ss where "P (bi_page b) = Some ps" "ps_enabled ps" "ps_offset ps = 0" "ps_block_size ps = bi_size b"
    "ps_shared ps = bs_page bs" "bi_idx b < ps_num_blocks ps"
    "P (page_id_for_slice b) = Some qs" "ps_enabled qs" "ps_shared qs = bs_slice bs" "int (bi_slice b) - int (snd (bi_page b)) = ps_offset qs"
    "S (fst (bi_page b)) = Some ss" "ss_enabled ss" "ss_shared ss = bs_segment bs"
    "\<And>h. bs_heap bs = Some h \<Longrightarrow> K (fst (bi_page b)) = Some h"
  using assms unfolding block_fits_def by blast

text \<open>The pages, segments and heaps a block refers to may be all that is kept.\<close>

lemma block_fits_mono:
  assumes "block_fits P S K b bs"
    and "\<And>p ps. P p = Some ps \<Longrightarrow> ps_enabled ps \<Longrightarrow> p = bi_page b \<or> p = page_id_for_slice b \<Longrightarrow> P' p = Some ps"
    and "\<And>g ss. S g = Some ss \<Longrightarrow> ss_enabled ss \<Longrightarrow> S' g = Some ss"
    and "\<And>h. K (fst (bi_page b)) = Some h \<Longrightarrow> K' (fst (bi_page b)) = Some h"
  shows "block_fits P' S' K' b bs"
  using assms(1)
proof (rule block_fitsE)
  fix ps qs ss
  assume a: "P (bi_page b) = Some ps" "ps_enabled ps" "ps_offset ps = 0" "ps_block_size ps = bi_size b"
    "ps_shared ps = bs_page bs" "bi_idx b < ps_num_blocks ps"
    "P (page_id_for_slice b) = Some qs" "ps_enabled qs" "ps_shared qs = bs_slice bs" "int (bi_slice b) - int (snd (bi_page b)) = ps_offset qs"
    "S (fst (bi_page b)) = Some ss" "ss_enabled ss" "ss_shared ss = bs_segment bs"
    "\<And>h. bs_heap bs = Some h \<Longrightarrow> K (fst (bi_page b)) = Some h"
  have p: "P' (bi_page b) = Some ps" "P' (page_id_for_slice b) = Some qs" using assms(2) a(1,2,7,8) by blast+
  have g: "S' (fst (bi_page b)) = Some ss" using assms(3) a(11,12) by blast
  have k: "bs_heap bs = Some h \<Longrightarrow> K' (fst (bi_page b)) = Some h" for h using assms(4) a(14) by blast
  show ?thesis unfolding block_fits_def using p g k a(2-6,8-10,12,13) by blast
qed

lemma heap_of_owner:
  assumes "mim_ok wf2 s" "hps (thread_local_state s) (thread_of_segment s) g = Some h"
  shows "heap_shared_access s h \<noteq> None" "\<exists>t. heap_to_thread s h = Some t \<and> thread_of_segment s g = Some t"
proof -
  obtain t ts where "thread_of_segment s g = Some t" "thread_local_state s t = Some ts" "ts_heap_id ts = h"
    using assms(2) by (auto simp: hps_def owner_def split: option.splits)
  moreover have "heap_to_thread s (ts_heap_id ts) = Some t \<and> heap_shared_access s (ts_heap_id ts) = Some (hs_shared (ts_heap ts))"
    using mim_okD(5) [OF assms(1)] calculation(2) unfolding heaps_ok_def by blast
  ultimately show "heap_shared_access s h \<noteq> None" "\<exists>t. heap_to_thread s h = Some t \<and> thread_of_segment s g = Some t" by auto
qed

text \<open>The identifiers chosen are new.\<close>

lemma fresh_uniq:
  "finite S \<Longrightarrow> h \<in> S \<Longrightarrow> heap_uniq h < heap_get_unused_uniq_field S"
  "finite G \<Longrightarrow> g \<in> G \<Longrightarrow> seg_uniq g < segment_get_unused_uniq_field G"
  unfolding heap_get_unused_uniq_field_def heap_u_max_def segment_get_unused_uniq_field_def segment_u_max_def
  by (auto simp: zle_add1_eq_le)


section \<open>Transitions that leave the threads\<close>

lemma set_inst_keeps: "mim_ok wf2 s \<Longrightarrow> holds (set_inst i s) (mim_ok wf2)"
  by (auto simp: set_inst_def holds_require holds_claim mim_ok_def Let_def heaps_ok_def)

lemma actor_keeps:
  "mim_ok wf2 s \<Longrightarrow> holds (actor_make_idle t s) (mim_ok wf2)" "mim_ok wf2 s \<Longrightarrow> holds (actor_abandon t s) (mim_ok wf2)"
  by (auto simp: actor_make_idle_def actor_abandon_def holds_require mim_ok_def Let_def)

lemma set_use_keeps:
  assumes ok: "mim_ok wf2 s"
  shows "holds (set_use_delayed_free p s) (mim_ok wf2)"
proof (cases "delay s p = Some NoDelayedFree")
  case True
  note w = mim_okD(4) [OF ok]
  have A: "delay_actor s p = None" using windowsD(2) [OF w, of p] True by auto
  then have e: "(delay_actor s)(p := None) = delay_actor s" by (auto simp: fun_eq_iff)
  have "windows (pgs (thread_local_state s) (thread_of_segment s)) (hps (thread_local_state s) (thread_of_segment s))
     (checked (thread_of_segment s) (thread_checked_state s)) ((delay s)(p \<mapsto> UseDelayedFree)) (heap_of_page s)
     ((delay_actor s)(p := None)) (heap_shared_access s)"
    by (rule windows_upd [OF w]) (simp_all add: True)
  then show ?thesis using mim_okD [OF ok] e by (simp add: set_use_delayed_free_def holds_require mim_ok_def Let_def)
qed (simp add: set_use_delayed_free_def holds_require)

lemma enter_keeps:
  assumes ok: "mim_ok wf2 s"
  shows "holds (delay_enter_freeing p b s) (mim_ok wf2)"
proof (cases "delay s p = Some UseDelayedFree \<and> bi_page b = p \<and> block s b \<noteq> None")
  case True
  note D = windowsD [OF mim_okD(4) [OF ok]]
  obtain bs where b: "block s b = Some bs" using True by blast
  obtain ps where ps: "pgs (thread_local_state s) (thread_of_segment s) p = Some ps" "ps_enabled ps" "0 < ps_num_blocks ps"
    by (rule block_fitsE [OF blocks_outD(1) [OF mim_okD(3) [OF ok] b]]) (use True in auto)
  have "\<not> checked (thread_of_segment s) (thread_checked_state s) p" using D(8) [OF _ ps(1)] ps(3) by auto
  then have "windows (pgs (thread_local_state s) (thread_of_segment s)) (hps (thread_local_state s) (thread_of_segment s))
     (checked (thread_of_segment s) (thread_checked_state s)) ((delay s)(p \<mapsto> Freeing)) (heap_of_page s)
     ((delay_actor s)(p \<mapsto> HeapUnknown)) (heap_shared_access s)"
    by (intro windows_upd [OF mim_okD(4) [OF ok]]) (simp_all add: True ps)
  moreover have "delay_actor s p = None" using D(2) [of p] True by auto
  ultimately show ?thesis using True mim_okD [OF ok]
    by (simp add: delay_enter_freeing_def holds_require holds_claim mim_ok_def Let_def)
qed (simp add: delay_enter_freeing_def holds_require)

lemma leave_keeps:
  assumes ok: "mim_ok wf2 s"
  shows "holds (delay_leave_freeing p s) (mim_ok wf2)"
proof (cases "delay_actor s p \<noteq> None")
  case True
  then have d: "delay s p = Some Freeing" using windowsD(2) [OF mim_okD(4) [OF ok]] by blast
  have "windows (pgs (thread_local_state s) (thread_of_segment s)) (hps (thread_local_state s) (thread_of_segment s))
     (checked (thread_of_segment s) (thread_checked_state s)) ((delay s)(p \<mapsto> NoDelayedFree)) (heap_of_page s)
     ((delay_actor s)(p := None)) (heap_shared_access s)"
    by (rule windows_upd [OF mim_okD(4) [OF ok]]) (simp_all add: d)
  then show ?thesis using True d mim_okD [OF ok]
    by (simp add: delay_leave_freeing_def holds_require holds_claim mim_ok_def Let_def)
qed (simp add: delay_leave_freeing_def holds_require)

lemma lookup_keeps:
  assumes ok: "mim_ok wf2 s"
  shows "holds (delay_lookup_heap wf2 b s) (mim_ok wf2)"
proof (cases "heap_of_page s (bi_page b) \<noteq> None \<and> block s b \<noteq> None \<and> my_inst s \<noteq> None \<and> delay_actor s (bi_page b) \<noteq> None")
  case True
  let ?P = "pgs (thread_local_state s) (thread_of_segment s)" and ?K = "hps (thread_local_state s) (thread_of_segment s)" and ?p = "bi_page b"
  obtain h bs i a where h: "heap_of_page s ?p = Some h" and b: "block s b = Some bs" and i: "my_inst s = Some i" and a: "delay_actor s ?p = Some a"
    using True by blast
  obtain ps where ps: "?P ?p = Some ps" "ps_enabled ps" "ps_shared ps = bs_page bs"
    by (rule block_fitsE [OF blocks_outD(1) [OF mim_okD(3) [OF ok] b]]) auto
  have K: "?K (fst ?p) = Some h" using storedD(4) [OF mim_okD(2) [OF ok], of ?p] h ps(1) by (auto split: if_splits)
  obtain x where x: "heap_shared_access s h = Some x" using heap_of_owner(1) [OF ok K] by blast
  have "wf2 x h i" using mim_okD(5) [OF ok] x i unfolding heaps_ok_def by fastforce
  moreover have "windows ?P ?K (checked (thread_of_segment s) (thread_checked_state s)) (delay s) (heap_of_page s)
      ((delay_actor s)(?p \<mapsto> Heap h x (bs_page bs))) (heap_shared_access s)"
  proof -
    note w = mim_okD(4) [OF ok]
    have d: "delay s ?p = Some Freeing" using windowsD(2) [OF w, of ?p] a by simp
    then have e: "(delay s)(?p \<mapsto> Freeing) = delay s" by (auto simp: fun_eq_iff)
    have "\<not> checked (thread_of_segment s) (thread_checked_state s) ?p" using windowsD(9) [OF w _ ps(1)] a by auto
    then have "windows ?P ?K (checked (thread_of_segment s) (thread_checked_state s)) ((delay s)(?p \<mapsto> Freeing)) (heap_of_page s)
      ((delay_actor s)(?p \<mapsto> Heap h x (bs_page bs))) (heap_shared_access s)"
      by (intro windows_upd [OF w]) (use d ps K x in auto)
    then show ?thesis unfolding e .
  qed
  ultimately show ?thesis using mim_okD [OF ok] h b i a x
    by (simp add: delay_lookup_heap_def Let_def holds_require holds_claim mim_ok_def)
qed (auto simp: delay_lookup_heap_def holds_require Let_def)

lemma set_heap_keeps:
  assumes ok: "mim_ok wf2 s"
  shows "holds (block_set_heap_id b s) (mim_ok wf2)"
proof (cases "\<exists>h x y bs. delay_actor s (bi_page b) = Some (Heap h x y) \<and> block s b = Some bs")
  case True
  then obtain h x y bs where a: "delay_actor s (bi_page b) = Some (Heap h x y)" and b: "block s b = Some bs" by blast
  let ?P = "pgs (thread_local_state s) (thread_of_segment s)" and ?S = "sgs (thread_local_state s) (thread_of_segment s)"
    and ?K = "hps (thread_local_state s) (thread_of_segment s)"
  note B = blocks_outD [OF mim_okD(3) [OF ok]]
  have K: "?K (fst (bi_page b)) = Some h" by (rule windowsD(5) [OF mim_okD(4) [OF ok] a])
  have f: "block_fits ?P ?S ?K b (bs\<lparr>bs_heap := Some h\<rparr>)" using B(1) [OF b] K unfolding block_fits_def by auto
  have "blocks_out ?P ?S ?K ((block s)(b \<mapsto> bs\<lparr>bs_heap := Some h\<rparr>))"
    unfolding blocks_out_def
  proof (intro conjI allI impI)
    show "block_fits ?P ?S ?K c cs" if "((block s)(b \<mapsto> bs\<lparr>bs_heap := Some h\<rparr>)) c = Some cs" for c cs
      using that f B(1) by (auto split: if_splits)
    have dom: "((block s)(b \<mapsto> bs\<lparr>bs_heap := Some h\<rparr>)) c \<noteq> None \<longleftrightarrow> block s c \<noteq> None" for c using b by simp
    show "c = d" if "((block s)(b \<mapsto> bs\<lparr>bs_heap := Some h\<rparr>)) c \<noteq> None \<and> ((block s)(b \<mapsto> bs\<lparr>bs_heap := Some h\<rparr>)) d \<noteq> None
        \<and> bi_page c = bi_page d \<and> bi_idx c = bi_idx d" for c d
      using that B(2) unfolding dom by blast
  qed
  then show ?thesis using mim_okD [OF ok] a b by (simp add: block_set_heap_id_def holds_require mim_ok_def Let_def)
qed (auto simp: block_set_heap_id_def holds_require split: option.splits DelayFreeingActor.splits)

lemma reserve_keeps:
  assumes ok: "mim_ok wf2 s"
  shows "holds (reserve_uniq_identifier s) (mim_ok wf2)"
proof -
  let ?D = "dom (heap_shared_access s) \<union> reserved_uniq s"
  let ?u = "heap_get_unused_uniq_field ?D"
  note H = mim_okD(5) [OF ok]
  have fin: "finite ?D" using H unfolding heaps_ok_def by blast
  have lt: "heap_uniq k < ?u" if "k \<in> ?D" for k using fresh_uniq(1) [OF fin that] .
  have new: "\<lparr>heap_nr = 0, heap_uniq = ?u\<rparr> \<notin> reserved_uniq s" using lt [of "\<lparr>heap_nr = 0, heap_uniq = ?u\<rparr>"] by auto
  have "?u \<noteq> heap_uniq k" if "heap_shared_access s k \<noteq> None" for k
  proof -
    have "k \<in> ?D" using that by auto
    then show ?thesis using lt [of k] by simp
  qed
  then have "heaps_ok wf2 (right_to_set_inst s) (my_inst s) (thread_local_state s) (thread_checked_state s) (right_to_use_thread s)
     (heap_shared_access s) (insert \<lparr>heap_nr = 0, heap_uniq = ?u\<rparr> (reserved_uniq s)) (heap_to_thread s)"
    using H unfolding heaps_ok_def by simp
  then show ?thesis using mim_okD [OF ok] new by (simp add: reserve_uniq_identifier_def Let_def holds_claim mim_ok_def)
qed

lemma check_keeps:
  assumes ok: "mim_ok wf2 s"
  shows "holds (page_check_delay_state t p s) (mim_ok wf2)"
proof (cases "\<exists>ts cs ps. thread_local_state s t = Some ts \<and> thread_checked_state s t = Some cs \<and> ts_pages ts p = Some ps
    \<and> ps_num_blocks ps = 0 \<and> delay s p \<noteq> Some Freeing")
  case True
  then obtain ts cs ps where t: "thread_local_state s t = Some ts" "thread_checked_state s t = Some cs" "ts_pages ts p = Some ps"
    "ps_num_blocks ps = 0" "delay s p \<noteq> Some Freeing" by blast
  let ?P = "pgs (thread_local_state s) (thread_of_segment s)" and ?K = "hps (thread_local_state s) (thread_of_segment s)"
    and ?C = "(thread_checked_state s)(t \<mapsto> \<lparr>cs_pages = insert p (cs_pages cs)\<rparr>)"
  note w = mim_okD(4) [OF ok]
  have P: "?P p = Some ps" by (rule thread_page(1) [OF mim_okD(1) [OF ok] t(1,3)])
  have A: "delay_actor s p = None" using windowsD(2) [OF w, of p] t(5) by blast
  have ch: "checked (thread_of_segment s) ?C q \<Longrightarrow> q = p \<or> checked (thread_of_segment s) (thread_checked_state s) q" for q
    using t(2) by (auto simp: checked_def split: if_splits)
  have "windows ?P ?K (checked (thread_of_segment s) ?C) (delay s) (heap_of_page s) (delay_actor s) (heap_shared_access s)"
  proof (rule windowsI)
    note w = windowsD [OF w]
    fix q
    show "delay s q = None \<longleftrightarrow> heap_of_page s q = None" "delay_actor s q \<noteq> None \<longleftrightarrow> delay s q = Some Freeing"
      "delay s q \<noteq> Some NeverDelayedFree" by (rule w(1-3))+
    show "\<exists>ps. ?P q = Some ps \<and> ps_enabled ps" if "delay_actor s q = Some a" for a using that by (rule w(4))
    show "?K (fst q) = Some h \<and> heap_shared_access s h = Some x \<and> (\<forall>ps. ?P q = Some ps \<longrightarrow> ps_shared ps = y)"
      if "delay_actor s q = Some (Heap h x y)" for h x y using w(5-7) [OF that] by blast
    show "ps_num_blocks qs = 0 \<and> delay_actor s q = None" if "checked (thread_of_segment s) ?C q" "?P q = Some qs" for qs
      using ch [OF that(1)] w(8,9) [of q qs] that(2) P A t(4) by auto
  qed
  moreover have "heaps_ok wf2 (right_to_set_inst s) (my_inst s) (thread_local_state s) ?C (right_to_use_thread s)
     (heap_shared_access s) (reserved_uniq s) (heap_to_thread s)"
    using mim_okD(5) [OF ok] t(1) unfolding heaps_ok_def by simp
  ultimately show ?thesis using mim_okD(1-3) [OF ok] t(2)
    by (simp add: page_check_delay_state_def holds_require mim_ok_def Let_def)
qed (auto simp: page_check_delay_state_def holds_require Let_def tls_def pageof_def)



section \<open>Threads and segments\<close>

lemma mim_okI:
  assumes "thread_local_state s' = T" "thread_of_segment s' = W" "owned T W"
    "stored (pgs T W) (sgs T W) (hps T W) (page_shared_access s') (segment_shared_access s') (heap_of_page s')"
    "blocks_out (pgs T W) (sgs T W) (hps T W) (block s')"
    "windows (pgs T W) (hps T W) (checked W (thread_checked_state s')) (delay s') (heap_of_page s') (delay_actor s') (heap_shared_access s')"
    "heaps_ok wf2 (right_to_set_inst s') (my_inst s') T (thread_checked_state s') (right_to_use_thread s')
       (heap_shared_access s') (reserved_uniq s') (heap_to_thread s')"
  shows "mim_ok wf2 s'"
  using assms unfolding mim_ok_def Let_def by simp

lemma heaps_okD:
  assumes "heaps_ok wf2 r inst T C U hsa res htt"
  shows "r \<longleftrightarrow> inst = None" "hsa h = Some a \<Longrightarrow> \<exists>i. inst = Some i \<and> wf2 a h i" "finite (dom hsa)" "finite res"
    "h \<in> res \<Longrightarrow> heap_nr h = 0" "h \<in> res \<Longrightarrow> hsa k \<noteq> None \<Longrightarrow> heap_uniq h \<noteq> heap_uniq k"
    "C t = None \<longleftrightarrow> T t = None" "t \<in> U \<longleftrightarrow> T t = None"
    "T t = Some ts \<Longrightarrow> htt (ts_heap_id ts) = Some t" "T t = Some ts \<Longrightarrow> hsa (ts_heap_id ts) = Some (hs_shared (ts_heap ts))"
    "htt h = Some t \<Longrightarrow> \<exists>ts. T t = Some ts \<and> ts_heap_id ts = h"
  using assms unfolding heaps_ok_def by blast+

text \<open>A thread keeps its heap.\<close>

lemma heaps_ok_put:
  assumes h: "heaps_ok wf2 r inst T C U hsa res htt" and t: "T t = Some ts" and e: "ts_heap_id ts' = ts_heap_id ts" "ts_heap ts' = ts_heap ts"
    and C: "\<And>u. C' u = None \<longleftrightarrow> C u = None"
  shows "heaps_ok wf2 r inst (T(t \<mapsto> ts')) C' U hsa res htt"
proof -
  note D = heaps_okD [OF h]
  have a: "htt (ts_heap_id us) = Some u \<and> hsa (ts_heap_id us) = Some (hs_shared (ts_heap us))" if "(T(t \<mapsto> ts')) u = Some us" for u us
    using that D(9,10) [OF t] D(9,10) [of u us] e by (cases "u = t") auto
  have b: "\<exists>us. (T(t \<mapsto> ts')) u = Some us \<and> ts_heap_id us = k" if k: "htt k = Some u" for u k
    using D(11) [OF k] t e by (cases "u = t") auto
  have c: "C' u = None \<longleftrightarrow> (T(t \<mapsto> ts')) u = None" "u \<in> U \<longleftrightarrow> (T(t \<mapsto> ts')) u = None" for u
    using C [of u] D(7,8) [of u] t by auto
  show ?thesis using h a b c unfolding heaps_ok_def by blast
qed

lemma create_thread_keeps:
  assumes ok: "mim_ok wf2 s"
  shows "holds (create_thread_mk_tokens wf2 t ts s) (mim_ok wf2)"
proof -
  let ?h = "ts_heap_id ts"
  let ?r = "\<lparr>heap_nr = 0, heap_uniq = heap_uniq ?h\<rparr>"
  let ?T = "thread_local_state s" and ?W = "thread_of_segment s" and ?C = "thread_checked_state s"
  let ?T' = "?T(t \<mapsto> ts)" and ?C' = "?C(t \<mapsto> \<lparr>cs_pages = {}\<rparr>)"
  let ?hsa = "(heap_shared_access s)(?h \<mapsto> hs_shared (ts_heap ts))" and ?htt = "(heap_to_thread s)(?h \<mapsto> t)"
  note H = heaps_okD [OF mim_okD(5) [OF ok]]
  have main: "heap_shared_access s ?h = None \<and> ?T t = None \<and> ?C t = None \<and> mim_ok wf2 (s\<lparr>right_to_use_thread := right_to_use_thread s - {t},
      reserved_uniq := reserved_uniq s - {?r}, heap_shared_access := ?hsa, heap_to_thread := ?htt,
      thread_local_state := ?T', thread_checked_state := ?C'\<rparr>)"
    if c: "t \<in> right_to_use_thread s" "?r \<in> reserved_uniq s" "ts_pages ts = Map.empty" "ts_segments ts = Map.empty"
      "my_inst s = Some i" "wf2 (hs_shared (ts_heap ts)) ?h i" for i
  proof -
    have none: "?T t = None" "?C t = None" using H(7,8) [of t] c(1) by auto
    have hnone: "heap_shared_access s ?h = None" using H(6) [OF c(2), of ?h] by (cases "heap_shared_access s ?h") auto
    have W: "?W g \<noteq> Some t" for g using ownedD(3) [OF mim_okD(1) [OF ok], of g t] none by auto
    have ow: "owner ?T' ?W = owner ?T ?W" using W by (auto simp: owner_def fun_eq_iff split: option.splits)
    have v: "pgs ?T' ?W = pgs ?T ?W" "sgs ?T' ?W = sgs ?T ?W" "hps ?T' ?W = hps ?T ?W"
      by (simp_all add: pgs_def sgs_def hps_def fun_eq_iff ow)
    have ch: "checked ?W ?C' = checked ?W ?C" 
    proof
      fix q show "checked ?W ?C' q = checked ?W ?C q" using W [of "fst q"] by (cases "?W (fst q)") (simp_all add: checked_def)
    qed
    have own: "owned ?T' ?W"
      using mim_okD(1) [OF ok] W c(3,4) none unfolding owned_def by simp metis
    have win: "windows (pgs ?T ?W) (hps ?T ?W) (checked ?W ?C) (delay s) (heap_of_page s) (delay_actor s) ?hsa"
    proof (rule windowsI)
      note w = windowsD [OF mim_okD(4) [OF ok]]
      fix q
      show "delay s q = None \<longleftrightarrow> heap_of_page s q = None" "delay_actor s q \<noteq> None \<longleftrightarrow> delay s q = Some Freeing"
        "delay s q \<noteq> Some NeverDelayedFree" by (rule w(1-3))+
      show "\<exists>ps. pgs ?T ?W q = Some ps \<and> ps_enabled ps" if "delay_actor s q = Some a" for a using that by (rule w(4))
      show "hps ?T ?W (fst q) = Some h \<and> ?hsa h = Some x \<and> (\<forall>ps. pgs ?T ?W q = Some ps \<longrightarrow> ps_shared ps = y)"
        if "delay_actor s q = Some (Heap h x y)" for h x y using w(5-7) [OF that] hnone by auto
      show "ps_num_blocks qs = 0 \<and> delay_actor s q = None" if "checked ?W ?C q" "pgs ?T ?W q = Some qs" for qs
        using w(8,9) [OF that] by blast
    qed
    have heap: "heaps_ok wf2 (right_to_set_inst s) (my_inst s) ?T' ?C' (right_to_use_thread s - {t}) ?hsa (reserved_uniq s - {?r}) ?htt"
      unfolding heaps_ok_def
    proof (intro conjI allI impI ballI)
      show "right_to_set_inst s \<longleftrightarrow> my_inst s = None" by (rule H(1))
      show "\<exists>i. my_inst s = Some i \<and> wf2 a h i" if "?hsa h = Some a" for h a
        using that H(2) [of h a] c(5,6) by (auto split: if_splits)
      show "finite (dom ?hsa)" "finite (reserved_uniq s - {?r})" using H(3,4) by simp_all
      fix h assume h: "h \<in> reserved_uniq s - {?r}"
      show nr: "heap_nr h = 0" using H(5) h by blast
      show "heap_uniq h \<noteq> heap_uniq k" if k: "?hsa k \<noteq> None" for k
      proof (cases "k = ?h")
        case True
        show ?thesis
        proof
          assume "heap_uniq h = heap_uniq k"
          then have "h = ?r" using nr True by simp
          then show False using h by simp
        qed
      next
        case False
        then show ?thesis using H(6) [of h k] h k by simp
      qed
    next
      show "?C' u = None \<longleftrightarrow> ?T' u = None" "u \<in> right_to_use_thread s - {t} \<longleftrightarrow> ?T' u = None" for u using H(7,8) [of u] by auto
      show "?htt (ts_heap_id us) = Some u" "?hsa (ts_heap_id us) = Some (hs_shared (ts_heap us))" if "?T' u = Some us" for u us
        using that H(9,10) [of u us] hnone by (auto split: if_splits)
      show "\<exists>us. ?T' u = Some us \<and> ts_heap_id us = h" if "?htt h = Some u" for h u
        using that H(11) [of h u] none by (auto split: if_splits)
    qed
    show ?thesis using none hnone mim_okD [OF ok] own v ch win heap by (simp add: mim_ok_def Let_def)
  qed
  show ?thesis
    unfolding create_thread_mk_tokens_def Let_def holds_require holds_claim holds_simps using main by (auto simp: dom_eq_empty_conv)
qed

lemma create_segment_keeps:
  assumes ok: "mim_ok wf2 s"
  shows "holds (create_segment_mk_tokens t sid st s) (mim_ok wf2)"
proof (cases "\<exists>ts. thread_local_state s t = Some ts \<and> \<not> ss_enabled st")
  case True
  then obtain ts where t: "thread_local_state s t = Some ts" and st: "\<not> ss_enabled st" by blast
  let ?T = "thread_local_state s" and ?W = "thread_of_segment s" and ?g = "mk_fresh_segment_id (thread_of_segment s) sid"
  let ?T' = "?T(t \<mapsto> ts\<lparr>ts_segments := (ts_segments ts)(?g \<mapsto> st)\<rparr>)" and ?W' = "?W(?g \<mapsto> t)"
  note own = mim_okD(1) [OF ok]
  have W: "?W ?g = None"
  proof (rule ccontr)
    assume "?W ?g \<noteq> None"
    then have "?g \<in> dom ?W" by blast
    then show False using fresh_uniq(2) [OF ownedD(1) [OF own]] by (fastforce simp: mk_fresh_segment_id_def)
  qed
  have g: "ts_segments ts ?g = None" using ownedD(2) [OF own t, of ?g] W by (cases "ts_segments ts ?g") auto
  note U = upd_segment [OF own t disjI2 [OF W] refl, of st]
  have S: "sgs ?T ?W ?g = None" by (simp add: sgs_def owner_def W)
  have P: "pgs ?T ?W p = None" if "fst p = ?g" for p by (simp add: pgs_def owner_def W that)
  note sd = storedD [OF mim_okD(2) [OF ok]]
  have "mim_ok wf2 ((put_tls t (ts\<lparr>ts_segments := (ts_segments ts)(?g \<mapsto> st)\<rparr>) s)\<lparr>thread_of_segment := ?W'\<rparr>)" (is "mim_ok wf2 ?s")
  proof (rule mim_okI [where T = ?T' and W = ?W'])
    show "owned ?T' ?W'" by (rule U(1))
    show "stored (pgs ?T' ?W') (sgs ?T' ?W') (hps ?T' ?W') (page_shared_access ?s) (segment_shared_access ?s) (heap_of_page ?s)"
      unfolding stored_def U(2-4)
    proof (intro conjI allI impI)
      fix p ps assume p: "pgs ?T ?W p = Some ps"
      then have "fst p \<noteq> ?g" using P [of p] by auto
      then show "\<exists>ss. ((sgs ?T ?W)(?g \<mapsto> st)) (fst p) = Some ss \<and> ss_enabled ss" using sd(1) [OF p] by simp
    next
      fix p
      show "page_shared_access ?s p = (case pgs ?T ?W p of None \<Rightarrow> None | Some ps \<Rightarrow> if ps_enabled ps then Some (ps_shared ps) else None)"
        using sd(2) [of p] by (simp add: put_tls_def)
      show "heap_of_page ?s p = (case pgs ?T ?W p of None \<Rightarrow> None
          | Some ps \<Rightarrow> if ps_offset ps = 0 then ((hps ?T ?W)(?g \<mapsto> ts_heap_id ts)) (fst p) else None)"
        using sd(4) [of p] P [of p] by (auto simp: put_tls_def split: option.splits)
    next
      fix h show "segment_shared_access ?s h = (case ((sgs ?T ?W)(?g \<mapsto> st)) h of None \<Rightarrow> None
          | Some ss \<Rightarrow> if ss_enabled ss then Some (ss_shared ss) else None)"
        using sd(3) [of h] S st by (simp add: put_tls_def)
    qed
    show "blocks_out (pgs ?T' ?W') (sgs ?T' ?W') (hps ?T' ?W') (block ?s)"
      unfolding blocks_out_def U(2-4)
    proof (intro conjI allI impI)
      fix b bs assume "block ?s b = Some bs"
      then have f: "block_fits (pgs ?T ?W) (sgs ?T ?W) (hps ?T ?W) b bs" using blocks_outD(1) [OF mim_okD(3) [OF ok]] by (simp add: put_tls_def)
      then have "fst (bi_page b) \<noteq> ?g" using P [of "bi_page b"] by (auto elim: block_fitsE)
      then show "block_fits (pgs ?T ?W) ((sgs ?T ?W)(?g \<mapsto> st)) ((hps ?T ?W)(?g \<mapsto> ts_heap_id ts)) b bs"
        using S by (intro block_fits_mono [OF f]) auto
    next
      fix b c assume "block ?s b \<noteq> None \<and> block ?s c \<noteq> None \<and> bi_page b = bi_page c \<and> bi_idx b = bi_idx c"
      then show "b = c" using blocks_outD(2) [OF mim_okD(3) [OF ok]] by (simp add: put_tls_def)
    qed
    show "windows (pgs ?T' ?W') (hps ?T' ?W') (checked ?W' (thread_checked_state ?s)) (delay ?s) (heap_of_page ?s) (delay_actor ?s) (heap_shared_access ?s)"
      unfolding U(2-4)
    proof (rule windowsI)
      note w = windowsD [OF mim_okD(4) [OF ok]]
      fix q
      show "delay ?s q = None \<longleftrightarrow> heap_of_page ?s q = None" "delay_actor ?s q \<noteq> None \<longleftrightarrow> delay ?s q = Some Freeing"
        "delay ?s q \<noteq> Some NeverDelayedFree" using w(1-3) [of q] by (simp_all add: put_tls_def)
      show "\<exists>ps. pgs ?T ?W q = Some ps \<and> ps_enabled ps" if "delay_actor ?s q = Some a" for a using that w(4) [of q a] by (simp add: put_tls_def)
      show "((hps ?T ?W)(?g \<mapsto> ts_heap_id ts)) (fst q) = Some h \<and> heap_shared_access ?s h = Some x \<and> (\<forall>ps. pgs ?T ?W q = Some ps \<longrightarrow> ps_shared ps = y)"
        if "delay_actor ?s q = Some (Heap h x y)" for h x y
      proof -
        have a: "delay_actor s q = Some (Heap h x y)" using that by (simp add: put_tls_def)
        then have "fst q \<noteq> ?g" using w(4) [OF a] P [of q] by auto
        then show ?thesis using w(5-7) [OF a] by (simp add: put_tls_def)
      qed
      show "ps_num_blocks qs = 0 \<and> delay_actor ?s q = None" if "checked ?W' (thread_checked_state ?s) q" "pgs ?T ?W q = Some qs" for qs
      proof -
        have "fst q \<noteq> ?g" using P [of q] that(2) by auto
        then have "checked ?W (thread_checked_state s) q" using that(1) by (simp add: checked_def put_tls_def)
        then show ?thesis using w(8,9) that(2) by (simp add: put_tls_def)
      qed
    qed
    show "heaps_ok wf2 (right_to_set_inst ?s) (my_inst ?s) ?T' (thread_checked_state ?s) (right_to_use_thread ?s)
       (heap_shared_access ?s) (reserved_uniq ?s) (heap_to_thread ?s)"
      using heaps_ok_put [OF mim_okD(5) [OF ok] t, of "ts\<lparr>ts_segments := (ts_segments ts)(?g \<mapsto> st)\<rparr>"] by (simp add: put_tls_def)
  qed (simp_all add: put_tls_def)
  then show ?thesis using t st W g by (simp add: create_segment_mk_tokens_def holds_require holds_claim Let_def tls_def) (simp add: mk_fresh_segment_id_def)
qed (auto simp: create_segment_mk_tokens_def holds_require)


lemma segment_enable_keeps:
  assumes ok: "mim_ok wf2 s"
  shows "holds (segment_enable t g sa s) (mim_ok wf2)"
proof (cases "\<exists>ts ss. thread_local_state s t = Some ts \<and> ts_segments ts g = Some ss \<and> \<not> ss_enabled ss")
  case True
  then obtain ts ss where t: "thread_local_state s t = Some ts" and g: "ts_segments ts g = Some ss" and n: "\<not> ss_enabled ss" by blast
  let ?T = "thread_local_state s" and ?W = "thread_of_segment s" and ?x = "\<lparr>ss_shared = sa, ss_enabled = True\<rparr>"
  let ?T' = "?T(t \<mapsto> ts\<lparr>ts_segments := (ts_segments ts)(g \<mapsto> ?x)\<rparr>)"
  note own = mim_okD(1) [OF ok]
  note G = thread_segment [OF own t g]
  have W: "?W(g \<mapsto> t) = ?W" using G(2) by (auto simp: fun_eq_iff)
  have K: "(hps ?T ?W)(g \<mapsto> ts_heap_id ts) = hps ?T ?W" using G(3) by (auto simp: fun_eq_iff)
  have g': "ts_segments ts g \<noteq> None" using g by simp
  note U = upd_segment [OF own t disjI1 [OF g'] refl, of ?x, unfolded W K]
  note sd = storedD [OF mim_okD(2) [OF ok]]
  have P: "fst p \<noteq> g" if "pgs ?T ?W p = Some ps" for p ps using sd(1) [OF that] G(1) n by auto
  have ssa: "segment_shared_access s g = None" using sd(3) [of g] G(1) n by simp
  have "mim_ok wf2 ((put_tls t (ts\<lparr>ts_segments := (ts_segments ts)(g \<mapsto> ?x)\<rparr>) s)\<lparr>segment_shared_access := (segment_shared_access s)(g \<mapsto> sa)\<rparr>)"
    (is "mim_ok wf2 ?s")
  proof (rule mim_okI [where T = ?T' and W = ?W])
    show "owned ?T' ?W" by (rule U(1))
    show "stored (pgs ?T' ?W) (sgs ?T' ?W) (hps ?T' ?W) (page_shared_access ?s) (segment_shared_access ?s) (heap_of_page ?s)"
      unfolding stored_def U(2-4)
    proof (intro conjI allI impI)
      fix p ps assume "pgs ?T ?W p = Some ps"
      then show "\<exists>ss. ((sgs ?T ?W)(g \<mapsto> ?x)) (fst p) = Some ss \<and> ss_enabled ss" using sd(1) by simp
    next
      fix p
      show "page_shared_access ?s p = (case pgs ?T ?W p of None \<Rightarrow> None | Some ps \<Rightarrow> if ps_enabled ps then Some (ps_shared ps) else None)"
        using sd(2) [of p] by (simp add: put_tls_def)
      show "heap_of_page ?s p = (case pgs ?T ?W p of None \<Rightarrow> None | Some ps \<Rightarrow> if ps_offset ps = 0 then hps ?T ?W (fst p) else None)"
        using sd(4) [of p] by (simp add: put_tls_def)
    next
      fix h show "segment_shared_access ?s h = (case ((sgs ?T ?W)(g \<mapsto> ?x)) h of None \<Rightarrow> None
          | Some ss \<Rightarrow> if ss_enabled ss then Some (ss_shared ss) else None)"
        using sd(3) [of h] by (simp add: put_tls_def)
    qed
    show "blocks_out (pgs ?T' ?W) (sgs ?T' ?W) (hps ?T' ?W) (block ?s)"
      unfolding blocks_out_def U(2-4)
    proof (intro conjI allI impI)
      fix b bs assume "block ?s b = Some bs"
      then have f: "block_fits (pgs ?T ?W) (sgs ?T ?W) (hps ?T ?W) b bs" using blocks_outD(1) [OF mim_okD(3) [OF ok]] by (simp add: put_tls_def)
      show "block_fits (pgs ?T ?W) ((sgs ?T ?W)(g \<mapsto> ?x)) (hps ?T ?W) b bs"
        using G(1) n by (intro block_fits_mono [OF f]) auto
    next
      fix b c assume "block ?s b \<noteq> None \<and> block ?s c \<noteq> None \<and> bi_page b = bi_page c \<and> bi_idx b = bi_idx c"
      then show "b = c" using blocks_outD(2) [OF mim_okD(3) [OF ok]] by (simp add: put_tls_def)
    qed
    show "windows (pgs ?T' ?W) (hps ?T' ?W) (checked ?W (thread_checked_state ?s)) (delay ?s) (heap_of_page ?s) (delay_actor ?s) (heap_shared_access ?s)"
      unfolding U(2,4) using mim_okD(4) [OF ok] by (simp add: put_tls_def)
    show "heaps_ok wf2 (right_to_set_inst ?s) (my_inst ?s) ?T' (thread_checked_state ?s) (right_to_use_thread ?s)
       (heap_shared_access ?s) (reserved_uniq ?s) (heap_to_thread ?s)"
      using heaps_ok_put [OF mim_okD(5) [OF ok] t, of "ts\<lparr>ts_segments := (ts_segments ts)(g \<mapsto> ?x)\<rparr>"] by (simp add: put_tls_def)
  qed (simp_all add: put_tls_def)
  then show ?thesis using t g n ssa by (simp add: segment_enable_def holds_require holds_claim Let_def tls_def)
qed (auto simp: segment_enable_def holds_require Let_def tls_def)


section \<open>Pages\<close>

text \<open>Only the pages of one thread change.\<close>

lemma pages_changed:
  assumes ok: "mim_ok wf2 s" and t: "thread_local_state s t = Some ts"
    and own: "owned ((thread_local_state s)(t \<mapsto> ts\<lparr>ts_pages := Q\<rparr>)) (thread_of_segment s)"
    and P: "pgs ((thread_local_state s)(t \<mapsto> ts\<lparr>ts_pages := Q\<rparr>)) (thread_of_segment s) = P'"
    and SK: "sgs ((thread_local_state s)(t \<mapsto> ts\<lparr>ts_pages := Q\<rparr>)) (thread_of_segment s) = sgs (thread_local_state s) (thread_of_segment s)"
      "hps ((thread_local_state s)(t \<mapsto> ts\<lparr>ts_pages := Q\<rparr>)) (thread_of_segment s) = hps (thread_local_state s) (thread_of_segment s)"
    and C: "\<And>u. C' u = None \<longleftrightarrow> thread_checked_state s u = None"
    and st: "stored P' (sgs (thread_local_state s) (thread_of_segment s)) (hps (thread_local_state s) (thread_of_segment s)) psa (segment_shared_access s) hop"
    and bl: "blocks_out P' (sgs (thread_local_state s) (thread_of_segment s)) (hps (thread_local_state s) (thread_of_segment s)) B"
    and wi: "windows P' (hps (thread_local_state s) (thread_of_segment s)) (checked (thread_of_segment s) C') D hop (delay_actor s) (heap_shared_access s)"
  shows "mim_ok wf2 ((put_tls t (ts\<lparr>ts_pages := Q\<rparr>) s)\<lparr>page_shared_access := psa, heap_of_page := hop, block := B, delay := D, thread_checked_state := C'\<rparr>)"
  by (rule mim_okI [where T = "(thread_local_state s)(t \<mapsto> ts\<lparr>ts_pages := Q\<rparr>)" and W = "thread_of_segment s"])
    (use own P SK st bl wi heaps_ok_put [OF mim_okD(5) [OF ok] t, of "ts\<lparr>ts_pages := Q\<rparr>" C'] C in \<open>simp_all add: put_tls_def\<close>)

lemma windows_pages:
  assumes w: "windows P K ch D hop A hsa"
    and a: "\<And>p ps. A p \<noteq> None \<Longrightarrow> P p = Some ps \<Longrightarrow> ps_enabled ps \<Longrightarrow> \<exists>qs. P' p = Some qs \<and> ps_enabled qs \<and> ps_shared qs = ps_shared ps"
    and c: "\<And>p ps. ch' p \<Longrightarrow> P' p = Some ps \<Longrightarrow> ps_num_blocks ps = 0 \<and> A p = None"
    and D: "\<And>p. D' p = None \<longleftrightarrow> hop' p = None" "\<And>p. D' p \<noteq> Some NeverDelayedFree" "\<And>p. D' p = Some Freeing \<longleftrightarrow> D p = Some Freeing"
  shows "windows P' K ch' D' hop' A hsa"
proof (rule windowsI)
  note w = windowsD [OF w]
  fix q
  show "D' q = None \<longleftrightarrow> hop' q = None" "D' q \<noteq> Some NeverDelayedFree" by (fact D)+
  show "A q \<noteq> None \<longleftrightarrow> D' q = Some Freeing" unfolding D(3) by (rule w(2))
  show "\<exists>ps. P' q = Some ps \<and> ps_enabled ps" if q: "A q = Some b" for b using w(4) [OF q] a [of q] q by auto
  show "K (fst q) = Some h \<and> hsa h = Some x \<and> (\<forall>ps. P' q = Some ps \<longrightarrow> ps_shared ps = y)" if q: "A q = Some (Heap h x y)" for h x y
  proof -
    obtain ps where "P q = Some ps" "ps_enabled ps" using w(4) [OF q] by blast
    then show ?thesis using w(5-7) [OF q] a [of q ps] q by auto
  qed
  show "ps_num_blocks ps = 0 \<and> A q = None" if "ch' q" "P' q = Some ps" for ps by (rule c [OF that])
qed


lemma coversD:
  assumes "covers m p n"
  shows "m q \<noteq> None \<Longrightarrow> fst q = fst p" "m q = Some x \<Longrightarrow> ps_offset x + int (snd p) = int (snd q)"
    "m q = Some x \<Longrightarrow> ps_offset x = 0 \<longleftrightarrow> q = p"
proof -
  have a: "fst q = fst p \<and> ps_offset (the (m q)) + int (snd p) = int (snd q)" if "m q \<noteq> None" for q
  proof -
    have q: "q \<in> dom m" using that by blast
    then have "q \<in> page_id_range (fst p) (snd p) (snd p + n)" using assms unfolding covers_def by blast
    then have "fst q = fst p" by (auto simp: page_id_range_def)
    then show ?thesis using q assms unfolding covers_def by blast
  qed
  show "m q \<noteq> None \<Longrightarrow> fst q = fst p" using a by blast
  show b: "m q = Some x \<Longrightarrow> ps_offset x + int (snd p) = int (snd q)" using a [of q] by simp
  show "m q = Some x \<Longrightarrow> ps_offset x = 0 \<longleftrightarrow> q = p" using b a [of q] by (auto simp: prod_eq_iff)
qed

text \<open>A page of the map a thread adds is not of another thread.\<close>

lemma create_page_keeps:
  assumes ok: "mim_ok wf2 s"
  shows "holds (create_page_mk_tokens t p n sz m s) (mim_ok wf2)"
proof -
  let ?T = "thread_local_state s" and ?W = "thread_of_segment s"
  let ?P = "pgs ?T ?W" and ?S = "sgs ?T ?W" and ?K = "hps ?T ?W"
  note own = mim_okD(1) [OF ok] and sd = storedD [OF mim_okD(2) [OF ok]] and w = windowsD [OF mim_okD(4) [OF ok]]
  have main: "heap_of_page s p = None \<and> delay s p = None \<and> mim_ok wf2 ((put_tls t (ts\<lparr>ts_pages := ts_pages ts ++ m\<rparr>) s)\<lparr>
       heap_of_page := (heap_of_page s)(p \<mapsto> ts_heap_id ts), delay := (delay s)(p \<mapsto> UseDelayedFree)\<rparr>)"
    if t: "?T t = Some ts" and g: "ts_segments ts (fst p) = Some ss" "ss_enabled ss" and cv: "covers m p n"
      and m: "\<And>q x. m q = Some x \<Longrightarrow> \<not> ps_enabled x \<and> ps_num_blocks x = 0" and p: "m p \<noteq> None" and d: "dom (ts_pages ts) \<inter> dom m = {}" for ts ss
  proof -
    note cd = coversD [OF cv]
    note G = thread_segment [OF own t g(1)]
    have msg: "ts_segments ts (fst q) \<noteq> None" if "m q \<noteq> None" for q using cd(1) [OF that] g(1) by simp
    note U = add_pages [OF own t msg refl]
    have new: "?P q = None" if "m q \<noteq> None" for q using G(4) [OF cd(1) [OF that]] d that by auto
    have hop: "heap_of_page s q = None" "delay s q = None" "delay_actor s q = None" if "m q \<noteq> None" for q
    proof -
      show h: "heap_of_page s q = None" using sd(4) [of q] new [OF that] by simp
      then show dl: "delay s q = None" using w(1) by blast
      then show "delay_actor s q = None" using w(2) [of q] by (cases "delay_actor s q") auto
    qed
    have st: "stored (?P ++ m) ?S ?K (page_shared_access s) (segment_shared_access s) ((heap_of_page s)(p \<mapsto> ts_heap_id ts))"
      unfolding stored_def
    proof (intro conjI allI impI)
      fix q ps assume q: "(?P ++ m) q = Some ps"
      show "\<exists>ss. ?S (fst q) = Some ss \<and> ss_enabled ss"
      proof (cases "m q")
        case None
        then show ?thesis using q sd(1) by (auto simp: map_add_def)
      next
        case (Some x)
        then show ?thesis using cd(1) [of q] G(1) g(2) by simp
      qed
    next
      fix q
      show "page_shared_access s q = (case (?P ++ m) q of None \<Rightarrow> None | Some ps \<Rightarrow> if ps_enabled ps then Some (ps_shared ps) else None)"
        using sd(2) [of q] new [of q] m [of q] by (cases "m q") (auto simp: map_add_def)
      show "((heap_of_page s)(p \<mapsto> ts_heap_id ts)) q = (case (?P ++ m) q of None \<Rightarrow> None | Some ps \<Rightarrow> if ps_offset ps = 0 then ?K (fst q) else None)"
      proof (cases "m q")
        case None
        then show ?thesis using sd(4) [of q] p by (auto simp: map_add_def)
      next
        case (Some x)
        then show ?thesis using cd(3) [OF Some] hop(1) [of q] G(3) cd(1) [of q] by (auto simp: map_add_def)
      qed
    next
      fix g show "segment_shared_access s g = (case ?S g of None \<Rightarrow> None | Some ss \<Rightarrow> if ss_enabled ss then Some (ss_shared ss) else None)" by (rule sd(3))
    qed
    have bl: "blocks_out (?P ++ m) ?S ?K (block s)"
      unfolding blocks_out_def
    proof (intro conjI allI impI)
      fix b bs assume "block s b = Some bs"
      then have f: "block_fits ?P ?S ?K b bs" by (rule blocks_outD(1) [OF mim_okD(3) [OF ok]])
      show "block_fits (?P ++ m) ?S ?K b bs"
      proof (rule block_fits_mono [OF f])
        fix q ps assume "?P q = Some ps"
        then show "(?P ++ m) q = Some ps" using new [of q] by (cases "m q") (auto simp: map_add_def)
      qed
    next
      fix b c assume "block s b \<noteq> None \<and> block s c \<noteq> None \<and> bi_page b = bi_page c \<and> bi_idx b = bi_idx c"
      then show "b = c" using blocks_outD(2) [OF mim_okD(3) [OF ok]] by blast
    qed
    have wi: "windows (?P ++ m) ?K (checked ?W (thread_checked_state s)) ((delay s)(p \<mapsto> UseDelayedFree)) ((heap_of_page s)(p \<mapsto> ts_heap_id ts))
        (delay_actor s) (heap_shared_access s)"
    proof (rule windows_pages [OF mim_okD(4) [OF ok]])
      fix q
      show "\<exists>qs. (?P ++ m) q = Some qs \<and> ps_enabled qs \<and> ps_shared qs = ps_shared ps" if "?P q = Some ps" "ps_enabled ps" for ps
        using that new [of q] by (cases "m q") (auto simp: map_add_def)
      show "ps_num_blocks ps = 0 \<and> delay_actor s q = None" if "checked ?W (thread_checked_state s) q" "(?P ++ m) q = Some ps" for ps
        using that w(8,9) [of q ps] hop(3) [of q] m [of q] by (cases "m q") (auto simp: map_add_def)
      show "((delay s)(p \<mapsto> UseDelayedFree)) q = None \<longleftrightarrow> ((heap_of_page s)(p \<mapsto> ts_heap_id ts)) q = None" using w(1) [of q] by simp
      show "((delay s)(p \<mapsto> UseDelayedFree)) q \<noteq> Some NeverDelayedFree" using w(3) [of q] by simp
      show "((delay s)(p \<mapsto> UseDelayedFree)) q = Some Freeing \<longleftrightarrow> delay s q = Some Freeing" using hop(2) [OF p] by simp
    qed
    have "mim_ok wf2 ((put_tls t (ts\<lparr>ts_pages := ts_pages ts ++ m\<rparr>) s)\<lparr>page_shared_access := page_shared_access s,
        heap_of_page := (heap_of_page s)(p \<mapsto> ts_heap_id ts), block := block s, delay := (delay s)(p \<mapsto> UseDelayedFree),
        thread_checked_state := thread_checked_state s\<rparr>)"
      by (rule pages_changed [OF ok t U refl st bl wi])
    then show ?thesis using hop(1,2) [OF p] by (simp add: put_tls_def)
  qed
  show ?thesis
    unfolding create_page_mk_tokens_def Let_def holds_require holds_claim holds_simps
  proof (intro impI)
    assume a: "?T t \<noteq> None" "ts_segments (tls s t) (fst p) \<noteq> None" "ss_enabled (the (ts_segments (tls s t) (fst p)))" "covers m p n"
      "\<forall>q\<in>dom m. \<not> ps_enabled (the (m q))" "\<forall>q\<in>dom m. ps_num_blocks (the (m q)) = 0" "m p \<noteq> None" "dom (ts_pages (tls s t)) \<inter> dom m = {}"
    obtain ts ss where t: "?T t = Some ts" "ts_segments (tls s t) (fst p) = Some ss" using a(1,2) by blast
    have e: "tls s t = ts" using t(1) by (simp add: tls_def)
    have m: "\<not> ps_enabled x \<and> ps_num_blocks x = 0" if "m q = Some x" for q x using bspec [OF a(5), of q] bspec [OF a(6), of q] that by auto
    show "heap_of_page s p = None \<and> delay s p = None \<and> mim_ok wf2 ((put_tls t (tls s t\<lparr>ts_pages := ts_pages (tls s t) ++ m\<rparr>) s)\<lparr>
       heap_of_page := (heap_of_page s)(p \<mapsto> ts_heap_id (tls s t)), delay := (delay s)(p \<mapsto> UseDelayedFree)\<rparr>)"
      unfolding e by (rule main [OF t(1) t(2) [unfolded e] _ a(4) m a(7)]) (use a(3,8) t in \<open>simp_all add: e\<close>)
  qed
qed


lemma page_enable_keeps:
  assumes ok: "mim_ok wf2 s"
  shows "holds (page_enable t p n m a s) (mim_ok wf2)"
proof -
  let ?T = "thread_local_state s" and ?W = "thread_of_segment s"
  let ?P = "pgs ?T ?W" and ?S = "sgs ?T ?W" and ?K = "hps ?T ?W"
  note own = mim_okD(1) [OF ok] and sd = storedD [OF mim_okD(2) [OF ok]] and w = windowsD [OF mim_okD(4) [OF ok]]
  have main: "dom (page_shared_access s) \<inter> dom a = {} \<and> mim_ok wf2 ((put_tls t (ts\<lparr>ts_pages := ts_pages ts ++ m\<rparr>) s)\<lparr>
       page_shared_access := page_shared_access s ++ a\<rparr>)"
    if t: "?T t = Some ts" and ma: "\<And>q. m q = None \<longleftrightarrow> a q = None"
      and m: "\<And>q x. m q = Some x \<Longrightarrow> \<exists>y z. ts_pages ts q = Some y \<and> a q = Some z \<and> \<not> ps_enabled y \<and> x = y\<lparr>ps_enabled := True, ps_shared := z\<rparr>" for ts
  proof -
    have msg: "ts_segments ts (fst q) \<noteq> None" if "m q \<noteq> None" for q using that m [of q] ownedD(4) [OF own t, of q] by auto
    note U = add_pages [OF own t msg refl]
    have old: "\<exists>y z. ?P q = Some y \<and> a q = Some z \<and> \<not> ps_enabled y \<and> x = y\<lparr>ps_enabled := True, ps_shared := z\<rparr>" if "m q = Some x" for q x
      using m [OF that] thread_page(1) [OF own t, of q] by blast
    have keep: "(?P ++ m) q = Some ps" if "?P q = Some ps" "ps_enabled ps" for q ps
      using that old [of q] by (cases "m q") (auto simp: map_add_def)
    have psa: "page_shared_access s q = None" if "m q \<noteq> None" for q using that old [of q] sd(2) [of q] by auto
    have st: "stored (?P ++ m) ?S ?K (page_shared_access s ++ a) (segment_shared_access s) (heap_of_page s)"
      unfolding stored_def
    proof (intro conjI allI impI)
      fix q ps assume q: "(?P ++ m) q = Some ps"
      then obtain y where "?P q = Some y" using old [of q] by (cases "m q") (auto simp: map_add_def)
      then show "\<exists>ss. ?S (fst q) = Some ss \<and> ss_enabled ss" by (rule sd(1))
    next
      fix q
      show "(page_shared_access s ++ a) q = (case (?P ++ m) q of None \<Rightarrow> None | Some ps \<Rightarrow> if ps_enabled ps then Some (ps_shared ps) else None)"
        using sd(2) [of q] old [of q] ma [of q] by (cases "m q") (auto simp: map_add_def)
      show "heap_of_page s q = (case (?P ++ m) q of None \<Rightarrow> None | Some ps \<Rightarrow> if ps_offset ps = 0 then ?K (fst q) else None)"
        using sd(4) [of q] old [of q] by (cases "m q") (auto simp: map_add_def)
    next
      fix g show "segment_shared_access s g = (case ?S g of None \<Rightarrow> None | Some ss \<Rightarrow> if ss_enabled ss then Some (ss_shared ss) else None)" by (rule sd(3))
    qed
    have bl: "blocks_out (?P ++ m) ?S ?K (block s)"
      unfolding blocks_out_def
    proof (intro conjI allI impI)
      fix b bs assume "block s b = Some bs"
      then have f: "block_fits ?P ?S ?K b bs" by (rule blocks_outD(1) [OF mim_okD(3) [OF ok]])
      show "block_fits (?P ++ m) ?S ?K b bs" by (rule block_fits_mono [OF f]) (use keep in auto)
    next
      fix b c assume "block s b \<noteq> None \<and> block s c \<noteq> None \<and> bi_page b = bi_page c \<and> bi_idx b = bi_idx c"
      then show "b = c" using blocks_outD(2) [OF mim_okD(3) [OF ok]] by blast
    qed
    have wi: "windows (?P ++ m) ?K (checked ?W (thread_checked_state s)) (delay s) (heap_of_page s) (delay_actor s) (heap_shared_access s)"
    proof (rule windows_pages [OF mim_okD(4) [OF ok]])
      fix q
      show "\<exists>qs. (?P ++ m) q = Some qs \<and> ps_enabled qs \<and> ps_shared qs = ps_shared ps" if "?P q = Some ps" "ps_enabled ps" for ps
        using keep [OF that] that by simp
      show "ps_num_blocks ps = 0 \<and> delay_actor s q = None" if c: "checked ?W (thread_checked_state s) q" "(?P ++ m) q = Some ps" for ps
      proof (cases "m q")
        case None
        then show ?thesis using w(8,9) [OF c(1)] c(2) by (simp add: map_add_def)
      next
        case (Some x)
        then obtain y z where "?P q = Some y" "x = y\<lparr>ps_enabled := True, ps_shared := z\<rparr>" using old by blast
        then show ?thesis using w(8,9) [OF c(1), of y] c(2) Some by (simp add: map_add_def) (metis PageState.select_convs(3) PageState.update_convs(4,5) PageState.surjective)
      qed
    qed (fact w(1) w(3) | rule refl)+
    have "mim_ok wf2 ((put_tls t (ts\<lparr>ts_pages := ts_pages ts ++ m\<rparr>) s)\<lparr>page_shared_access := page_shared_access s ++ a,
        heap_of_page := heap_of_page s, block := block s, delay := delay s, thread_checked_state := thread_checked_state s\<rparr>)"
      by (rule pages_changed [OF ok t U refl st bl wi])
    moreover have "dom (page_shared_access s) \<inter> dom a = {}" using psa ma by fastforce
    ultimately show ?thesis by (simp add: put_tls_def)
  qed
  show ?thesis
    unfolding page_enable_def Let_def holds_require holds_claim holds_simps
  proof (intro impI)
    assume c: "?T t \<noteq> None" "covers m p n" "dom m = dom a" "\<forall>q\<in>dom m. the (a q) = ps_shared (the (m q))"
      "\<forall>q\<in>dom m. ts_pages (tls s t) q \<noteq> None \<and> \<not> ps_enabled (pageof (tls s t) q)"
      "\<forall>q\<in>dom m. the (m q) = (pageof (tls s t) q)\<lparr>ps_enabled := True, ps_shared := the (a q)\<rparr>"
    obtain ts where t: "?T t = Some ts" using c(1) by blast
    have e: "tls s t = ts" using t by (simp add: tls_def)
    have ma: "m q = None \<longleftrightarrow> a q = None" for q using c(3) by (metis domIff)
    have m: "\<exists>y z. ts_pages ts q = Some y \<and> a q = Some z \<and> \<not> ps_enabled y \<and> x = y\<lparr>ps_enabled := True, ps_shared := z\<rparr>" if mq: "m q = Some x" for q x
    proof -
      have q: "q \<in> dom m" using mq by blast
      obtain y z where "ts_pages ts q = Some y" "a q = Some z" using bspec [OF c(5) q] ma [of q] mq e by auto
      then show ?thesis using bspec [OF c(5) q] bspec [OF c(6) q] mq e by (simp add: pageof_def)
    qed
    show "dom (page_shared_access s) \<inter> dom a = {} \<and> mim_ok wf2 ((put_tls t (tls s t\<lparr>ts_pages := ts_pages (tls s t) ++ m\<rparr>) s)\<lparr>
       page_shared_access := page_shared_access s ++ a\<rparr>)"
      unfolding e by (rule main [OF t ma m])
  qed
qed


text \<open>The number of blocks of a page changes: all that refers to the page but its own blocks is as before.\<close>

lemma stored_num:
  assumes st: "stored P S K psa ssa hop" and p: "P p = Some ps" and u: "ps_enabled ps' = ps_enabled ps" "ps_shared ps' = ps_shared ps" "ps_offset ps' = ps_offset ps"
  shows "stored (P(p \<mapsto> ps')) S K psa ssa hop"
  unfolding stored_def
proof (intro conjI allI impI)
  note sd = storedD [OF st]
  show "\<exists>ss. S (fst q) = Some ss \<and> ss_enabled ss" if "(P(p \<mapsto> ps')) q = Some qs" for q qs
    using that sd(1) [of q qs] sd(1) [OF p] by (cases "q = p") simp_all
  fix q
  show "psa q = (case (P(p \<mapsto> ps')) q of None \<Rightarrow> None | Some ps \<Rightarrow> if ps_enabled ps then Some (ps_shared ps) else None)"
    using sd(2) [of q] p u by simp
  show "hop q = (case (P(p \<mapsto> ps')) q of None \<Rightarrow> None | Some ps \<Rightarrow> if ps_offset ps = 0 then K (fst q) else None)"
    using sd(4) [of q] p u by simp
next
  fix g show "ssa g = (case S g of None \<Rightarrow> None | Some ss \<Rightarrow> if ss_enabled ss then Some (ss_shared ss) else None)" by (rule storedD(3) [OF st])
qed

lemma block_fits_num:
  assumes f: "block_fits P S K b bs" and p: "P p = Some ps"
    and u: "ps_enabled ps' = ps_enabled ps" "ps_shared ps' = ps_shared ps" "ps_offset ps' = ps_offset ps" "ps_block_size ps' = ps_block_size ps"
    and n: "bi_page b = p \<Longrightarrow> bi_idx b < ps_num_blocks ps'"
  shows "block_fits (P(p \<mapsto> ps')) S K b bs"
  using f
proof (rule block_fitsE)
  fix qs rs ss
  assume a: "P (bi_page b) = Some qs" "ps_enabled qs" "ps_offset qs = 0" "ps_block_size qs = bi_size b"
    "ps_shared qs = bs_page bs" "bi_idx b < ps_num_blocks qs"
    "P (page_id_for_slice b) = Some rs" "ps_enabled rs" "ps_shared rs = bs_slice bs" "int (bi_slice b) - int (snd (bi_page b)) = ps_offset rs"
    "S (fst (bi_page b)) = Some ss" "ss_enabled ss" "ss_shared ss = bs_segment bs"
    "\<And>h. bs_heap bs = Some h \<Longrightarrow> K (fst (bi_page b)) = Some h"
  obtain x where x: "(P(p \<mapsto> ps')) (bi_page b) = Some x" "ps_enabled x" "ps_offset x = 0" "ps_block_size x = bi_size b"
    "ps_shared x = bs_page bs" "bi_idx b < ps_num_blocks x"
    using a(1-6) p u n by (cases "bi_page b = p") auto
  obtain y where y: "(P(p \<mapsto> ps')) (page_id_for_slice b) = Some y" "ps_enabled y" "ps_shared y = bs_slice bs" "int (bi_slice b) - int (snd (bi_page b)) = ps_offset y"
    using a(7-10) p u by (cases "page_id_for_slice b = p") auto
  show ?thesis unfolding block_fits_def using x y a(11-14) by blast
qed

lemma mk_blocks_keeps:
  assumes ok: "mim_ok wf2 s"
  shows "holds (page_mk_block_tokens t p lo hi sz s) (mim_ok wf2)"
proof -
  let ?T = "thread_local_state s" and ?W = "thread_of_segment s"
  let ?P = "pgs ?T ?W" and ?S = "sgs ?T ?W" and ?K = "hps ?T ?W"
  note own = mim_okD(1) [OF ok] and sd = storedD [OF mim_okD(2) [OF ok]] and w = windowsD [OF mim_okD(4) [OF ok]]
    and bo = blocks_outD [OF mim_okD(3) [OF ok]]
  have main: "dom (block s) \<inter> dom N = {} \<and> mim_ok wf2 ((put_tls t (ts\<lparr>ts_pages := (ts_pages ts)(p \<mapsto> ps\<lparr>ps_num_blocks := hi\<rparr>)\<rparr>) s)\<lparr>
       block := block s ++ N, thread_checked_state := (thread_checked_state s)(t \<mapsto> \<lparr>cs_pages = cs_pages cs - {p}\<rparr>)\<rparr>)"
    if t: "?T t = Some ts" and c: "thread_checked_state s t = Some cs" and p: "ts_pages ts p = Some ps" and ps: "ps_enabled ps" "ps_num_blocks ps = lo"
        "ps_block_size ps = sz" "ps_offset ps = 0" and le: "lo \<le> hi" and oka: "\<forall>i\<in>{lo..<hi}. okay_to_add_block ts p i sz"
      and N: "N = (\<lambda>b. if b \<in> range_block_ids lo hi p sz then Some \<lparr>bs_segment = the (segment_shared_access s (fst p)), bs_page = ps_shared ps,
              bs_slice = ps_shared (pageof ts (page_id_for_slice b)), bs_heap = None\<rparr> else None)" for ts cs ps N
  proof -
    let ?ps = "ps\<lparr>ps_num_blocks := hi\<rparr>" and ?C = "(thread_checked_state s)(t \<mapsto> \<lparr>cs_pages = cs_pages cs - {p}\<rparr>)"
    note G = thread_page [OF own t p]
    have p': "ts_pages ts p \<noteq> None" using p by simp
    note U = upd_page [OF own t p' refl, of ?ps]
    obtain ss where ss: "?S (fst p) = Some ss" "ss_enabled ss" using sd(1) [OF G(1)] by blast
    have ssa: "the (segment_shared_access s (fst p)) = ss_shared ss" using sd(3) [of "fst p"] ss by simp
    have NB: "\<exists>i. lo \<le> i \<and> i < hi \<and> b = \<lparr>bi_page = p, bi_idx = i, bi_slice = get_slice_idx p i sz, bi_size = sz\<rparr>" if "N b \<noteq> None" for b
      using that by (auto simp: N range_block_ids_def split: if_splits)
    have idx: "bi_idx b < lo" if "block s b \<noteq> None" "bi_page b = p" for b
    proof -
      obtain bs where "block s b = Some bs" using \<open>block s b \<noteq> None\<close> by blast
      then show ?thesis using that(2) G(1) ps(2) by (auto elim!: block_fitsE [OF bo(1)])
    qed
    have disj: "dom (block s) \<inter> dom N = {}"
    proof (rule ccontr)
      assume "dom (block s) \<inter> dom N \<noteq> {}"
      then obtain b where b: "block s b \<noteq> None" "N b \<noteq> None" by blast
      obtain i where "lo \<le> i" "bi_page b = p" "bi_idx b = i" using NB [OF b(2)] by auto
      then show False using idx [OF b(1)] by simp
    qed
    have new: "block_fits (?P(p \<mapsto> ?ps)) ?S ?K b bs" if Nb: "N b = Some bs" for b bs
    proof -
      obtain i where i: "lo \<le> i" "i < hi" "b = \<lparr>bi_page = p, bi_idx = i, bi_slice = get_slice_idx p i sz, bi_size = sz\<rparr>" using NB [of b] Nb by auto
      let ?q = "page_id_for_slice b"
      have q: "?q = (fst p, get_slice_idx p i sz)" by (simp add: page_id_for_slice_def i(3))
      have "okay_to_add_block ts p i sz" using oka i(1,2) by simp
      then obtain qs where qs: "ts_pages ts ?q = Some qs" "ps_enabled qs" "ps_offset qs = int (get_slice_idx p i sz) - int (snd p)"
        unfolding q okay_to_add_block_def Let_def by (auto simp: pageof_def)
      have Pq: "?P ?q = Some qs" by (rule thread_page(1) [OF own t qs(1)])
      obtain y where y: "(?P(p \<mapsto> ?ps)) ?q = Some y" "ps_enabled y" "ps_offset y = ps_offset qs" "ps_shared y = ps_shared qs"
        using Pq qs(2) G(1) by (cases "?q = p") auto
      have bs: "bs_segment bs = ss_shared ss" "bs_page bs = ps_shared ps" "bs_slice bs = ps_shared qs" "bs_heap bs = None"
        using Nb qs(1) by (auto simp: N ssa pageof_def split: if_splits)
      have x: "(?P(p \<mapsto> ?ps)) (bi_page b) = Some ?ps" "ps_enabled ?ps" "ps_offset ?ps = 0" "ps_block_size ?ps = bi_size b"
        "ps_shared ?ps = bs_page bs" "bi_idx b < ps_num_blocks ?ps" using ps bs i by simp_all
      have y': "ps_shared y = bs_slice bs" "int (bi_slice b) - int (snd (bi_page b)) = ps_offset y" using y qs bs i by simp_all
      have z: "?S (fst (bi_page b)) = Some ss" "ss_shared ss = bs_segment bs" "bs_heap bs = Some h \<Longrightarrow> ?K (fst (bi_page b)) = Some h" for h
        using ss bs i by simp_all
      show ?thesis unfolding block_fits_def using x y(1,2) y' z ss(2) by blast
    qed
    have bl: "blocks_out (?P(p \<mapsto> ?ps)) ?S ?K (block s ++ N)"
      unfolding blocks_out_def
    proof (intro conjI allI impI)
      fix b bs assume b: "(block s ++ N) b = Some bs"
      show "block_fits (?P(p \<mapsto> ?ps)) ?S ?K b bs"
      proof (cases "N b")
        case None
        then have bb: "block s b = Some bs" using b by (simp add: map_add_def)
        show ?thesis by (rule block_fits_num [OF bo(1) [OF bb] G(1)]) (use idx [of b] bb le in auto)
      next
        case (Some x)
        then show ?thesis using new b by (simp add: map_add_def)
      qed
    next
      fix b c assume a: "(block s ++ N) b \<noteq> None \<and> (block s ++ N) c \<noteq> None \<and> bi_page b = bi_page c \<and> bi_idx b = bi_idx c"
      have cases: "block s x \<noteq> None \<or> N x \<noteq> None" if "(block s ++ N) x \<noteq> None" for x
        using that by (cases "N x") (auto simp: map_add_def)
      have mixed: False if "block s x \<noteq> None" "N y \<noteq> None" "bi_page x = bi_page y" "bi_idx x = bi_idx y" for x y
        using idx [OF that(1)] NB [OF that(2)] that(3,4) by auto
      have nn: "x = y" if "N x \<noteq> None" "N y \<noteq> None" "bi_idx x = bi_idx y" for x y using NB [OF that(1)] NB [OF that(2)] that(3) by auto
      show "b = c" using cases [of b] cases [of c] a mixed nn bo(2) by metis
    qed
    have ch: "checked ?W ?C q \<Longrightarrow> q \<noteq> p \<and> checked ?W (thread_checked_state s) q" for q
      using c G(2) by (auto simp: checked_def split: if_splits)
    have wi: "windows (?P(p \<mapsto> ?ps)) ?K (checked ?W ?C) (delay s) (heap_of_page s) (delay_actor s) (heap_shared_access s)"
    proof (rule windows_pages [OF mim_okD(4) [OF ok]])
      fix q
      show "\<exists>qs. (?P(p \<mapsto> ?ps)) q = Some qs \<and> ps_enabled qs \<and> ps_shared qs = ps_shared x" if "?P q = Some x" "ps_enabled x" for x
        using that G(1) by (cases "q = p") auto
      show "ps_num_blocks x = 0 \<and> delay_actor s q = None" if "checked ?W ?C q" "(?P(p \<mapsto> ?ps)) q = Some x" for x
        using ch [OF that(1)] that(2) w(8,9) [of q x] by simp
    qed (fact w(1) w(3) | rule refl)+
    have st: "stored (?P(p \<mapsto> ?ps)) ?S ?K (page_shared_access s) (segment_shared_access s) (heap_of_page s)"
      by (rule stored_num [OF mim_okD(2) [OF ok] G(1)]) simp_all
    have C: "?C u = None \<longleftrightarrow> thread_checked_state s u = None" for u using c by simp
    have "mim_ok wf2 ((put_tls t (ts\<lparr>ts_pages := (ts_pages ts)(p \<mapsto> ?ps)\<rparr>) s)\<lparr>page_shared_access := page_shared_access s,
        heap_of_page := heap_of_page s, block := block s ++ N, delay := delay s, thread_checked_state := ?C\<rparr>)"
      by (rule pages_changed [OF ok t U C st bl wi])
    then show ?thesis using disj by (simp add: put_tls_def)
  qed
  show ?thesis
    unfolding page_mk_block_tokens_def Let_def holds_require holds_claim holds_simps
  proof (intro impI)
    assume a: "?T t \<noteq> None" "thread_checked_state s t \<noteq> None" "ts_pages (tls s t) p \<noteq> None" "ps_enabled (pageof (tls s t) p)"
      "ps_num_blocks (pageof (tls s t) p) = lo" "ps_block_size (pageof (tls s t) p) = sz" "ps_offset (pageof (tls s t) p) = 0" "lo \<le> hi"
      "\<forall>i\<in>{lo..<hi}. okay_to_add_block (tls s t) p i sz"
    obtain ts cs where t: "?T t = Some ts" and c: "thread_checked_state s t = Some cs" using a(1,2) by blast
    have e: "tls s t = ts" using t by (simp add: tls_def)
    obtain ps where p: "ts_pages ts p = Some ps" using a(3) e by auto
    have f: "pageof ts p = ps" by (simp add: pageof_def p)
    note A = a(4-7,9) [unfolded e f]
    show "dom (block s) \<inter> dom (\<lambda>b. if b \<in> range_block_ids lo hi p sz then Some \<lparr>bs_segment = the (segment_shared_access s (fst p)),
          bs_page = ps_shared (pageof (tls s t) p), bs_slice = ps_shared (pageof (tls s t) (page_id_for_slice b)), bs_heap = None\<rparr> else None) = {} \<and>
      mim_ok wf2 ((put_tls t (tls s t\<lparr>ts_pages := (ts_pages (tls s t))(p \<mapsto> (pageof (tls s t) p)\<lparr>ps_num_blocks := hi\<rparr>)\<rparr>) s)\<lparr>
       block := block s ++ (\<lambda>b. if b \<in> range_block_ids lo hi p sz then Some \<lparr>bs_segment = the (segment_shared_access s (fst p)),
          bs_page = ps_shared (pageof (tls s t) p), bs_slice = ps_shared (pageof (tls s t) (page_id_for_slice b)), bs_heap = None\<rparr> else None),
       thread_checked_state := (thread_checked_state s)(t \<mapsto> \<lparr>cs_pages = cs_pages (the (thread_checked_state s t)) - {p}\<rparr>)\<rparr>)"
      unfolding e f c option.sel by (rule main [OF t c p A(1-4) a(8) A(5) refl])
  qed
qed


text \<open>As many blocks as a page has are all its blocks.\<close>

lemma all_blocks:
  assumes bo: "blocks_out P S K B" and P: "P p = Some ps" and X: "X \<subseteq>\<^sub>m B" "\<And>b. X b \<noteq> None \<Longrightarrow> bi_page b = p"
    and n: "finite (dom X)" "card (dom X) = ps_num_blocks ps" and b: "B b \<noteq> None" "bi_page b = p"
  shows "X b \<noteq> None"
proof -
  have in_B: "B c \<noteq> None" if "c \<in> dom X" for c using map_le_implies_dom_le [OF X(1)] that by blast
  have lt: "bi_idx c < ps_num_blocks ps" if c: "B c \<noteq> None" "bi_page c = p" for c
  proof -
    obtain bs where "B c = Some bs" using c(1) by blast
    then show ?thesis using c(2) P by (auto elim!: block_fitsE [OF blocks_outD(1) [OF bo]])
  qed
  have inj: "inj_on bi_idx (dom X)"
  proof (rule inj_onI)
    fix c d assume a: "c \<in> dom X" "d \<in> dom X" "bi_idx c = bi_idx d"
    then have "bi_page c = p" "bi_page d = p" using X(2) by blast+
    then show "c = d" using blocks_outD(2) [OF bo in_B [OF a(1)] in_B [OF a(2)]] a(3) by simp
  qed
  have "bi_idx ` dom X \<subseteq> {..<ps_num_blocks ps}"
  proof
    fix i assume "i \<in> bi_idx ` dom X"
    then obtain c where c: "c \<in> dom X" "i = bi_idx c" by blast
    then have "bi_page c = p" using X(2) by blast
    then show "i \<in> {..<ps_num_blocks ps}" using lt [OF in_B [OF c(1)]] c(2) by simp
  qed
  moreover have "card (bi_idx ` dom X) = card {..<ps_num_blocks ps}" using card_image [OF inj] n(2) by simp
  ultimately have "bi_idx ` dom X = {..<ps_num_blocks ps}" by (simp add: card_subset_eq)
  then have "bi_idx b \<in> bi_idx ` dom X" using lt [OF b] by simp
  then obtain c where c: "c \<in> dom X" "bi_idx b = bi_idx c" by blast
  then have "bi_page c = p" using X(2) by blast
  then have "b = c" using blocks_outD(2) [OF bo b(1) in_B [OF c(1)]] b(2) c(2) by simp
  then show ?thesis using c(1) by blast
qed

lemma destroy_blocks_keeps:
  assumes ok: "mim_ok wf2 s"
  shows "holds (page_destroy_block_tokens t p X s) (mim_ok wf2)"
proof -
  let ?T = "thread_local_state s" and ?W = "thread_of_segment s"
  let ?P = "pgs ?T ?W" and ?S = "sgs ?T ?W" and ?K = "hps ?T ?W"
  note own = mim_okD(1) [OF ok] and w = windowsD [OF mim_okD(4) [OF ok]] and bo = blocks_outD [OF mim_okD(3) [OF ok]]
  have main: "mim_ok wf2 ((put_tls t (ts\<lparr>ts_pages := (ts_pages ts)(p \<mapsto> ps\<lparr>ps_num_blocks := 0\<rparr>)\<rparr>) s)\<lparr>block := block s |` (- dom X)\<rparr>)"
    if t: "?T t = Some ts" and p: "ts_pages ts p = Some ps" and n: "finite (dom X)" "card (dom X) = ps_num_blocks ps"
      and X: "X \<subseteq>\<^sub>m block s" "\<And>b. X b \<noteq> None \<Longrightarrow> bi_page b = p" for ts ps
  proof -
    let ?ps = "ps\<lparr>ps_num_blocks := 0\<rparr>"
    note G = thread_page [OF own t p]
    have p': "ts_pages ts p \<noteq> None" using p by simp
    note U = upd_page [OF own t p' refl, of ?ps]
    have st: "stored (?P(p \<mapsto> ?ps)) ?S ?K (page_shared_access s) (segment_shared_access s) (heap_of_page s)"
      by (rule stored_num [OF mim_okD(2) [OF ok] G(1)]) simp_all
    have left: "block s b \<noteq> None \<and> bi_page b \<noteq> p" if "(block s |` (- dom X)) b \<noteq> None" for b
      using that all_blocks [OF mim_okD(3) [OF ok] G(1) X n, of b] by (auto simp: restrict_map_def split: if_splits)
    have bl: "blocks_out (?P(p \<mapsto> ?ps)) ?S ?K (block s |` (- dom X))"
      unfolding blocks_out_def
    proof (intro conjI allI impI)
      fix b bs assume b: "(block s |` (- dom X)) b = Some bs"
      then have bb: "block s b = Some bs" by (auto simp: restrict_map_def split: if_splits)
      show "block_fits (?P(p \<mapsto> ?ps)) ?S ?K b bs" by (rule block_fits_num [OF bo(1) [OF bb] G(1)]) (use left [of b] b in auto)
    next
      fix b c assume "(block s |` (- dom X)) b \<noteq> None \<and> (block s |` (- dom X)) c \<noteq> None \<and> bi_page b = bi_page c \<and> bi_idx b = bi_idx c"
      then show "b = c" using left bo(2) by blast
    qed
    have wi: "windows (?P(p \<mapsto> ?ps)) ?K (checked ?W (thread_checked_state s)) (delay s) (heap_of_page s) (delay_actor s) (heap_shared_access s)"
    proof (rule windows_pages [OF mim_okD(4) [OF ok]])
      fix q
      show "\<exists>qs. (?P(p \<mapsto> ?ps)) q = Some qs \<and> ps_enabled qs \<and> ps_shared qs = ps_shared x" if "?P q = Some x" "ps_enabled x" for x
        using that G(1) by (cases "q = p") auto
      show "ps_num_blocks x = 0 \<and> delay_actor s q = None" if "checked ?W (thread_checked_state s) q" "(?P(p \<mapsto> ?ps)) q = Some x" for x
        using that w(8,9) [OF that(1)] G(1) by (cases "q = p") auto
    qed (fact w(1) w(3) | rule refl)+
    have "mim_ok wf2 ((put_tls t (ts\<lparr>ts_pages := (ts_pages ts)(p \<mapsto> ?ps)\<rparr>) s)\<lparr>page_shared_access := page_shared_access s,
        heap_of_page := heap_of_page s, block := block s |` (- dom X), delay := delay s, thread_checked_state := thread_checked_state s\<rparr>)"
      by (rule pages_changed [OF ok t U refl st bl wi])
    then show ?thesis by (simp add: put_tls_def)
  qed
  show ?thesis
    unfolding page_destroy_block_tokens_def Let_def holds_require holds_simps
  proof (intro impI)
    assume a: "?T t \<noteq> None" "ts_pages (tls s t) p \<noteq> None" "finite (dom X) \<and> card (dom X) = ps_num_blocks (pageof (tls s t) p)"
      "\<forall>b\<in>dom X. bi_page b = p" "X \<subseteq>\<^sub>m block s"
    obtain ts where t: "?T t = Some ts" using a(1) by blast
    have e: "tls s t = ts" using t by (simp add: tls_def)
    obtain ps where p: "ts_pages ts p = Some ps" using a(2) e by auto
    have f: "pageof ts p = ps" by (simp add: pageof_def p)
    show "mim_ok wf2 ((put_tls t (tls s t\<lparr>ts_pages := (ts_pages (tls s t))(p \<mapsto> (pageof (tls s t) p)\<lparr>ps_num_blocks := 0\<rparr>)\<rparr>) s)\<lparr>
        block := block s |` (- dom X)\<rparr>)"
      unfolding e f by (rule main [OF t p _ _ a(5)]) (use a(3,4) in \<open>auto simp: e f\<close>)
  qed
qed


lemma range_fromD: "q \<in> range_from p 0 n \<Longrightarrow> fst q = fst p" "n \<noteq> 0 \<Longrightarrow> p \<in> range_from p 0 n"
  by (auto simp: range_from_def page_id_range_def mem_Times_iff)

lemma disable_keeps:
  assumes ok: "mim_ok wf2 s"
  shows "holds (page_disable t p n s) (mim_ok wf2)"
proof -
  let ?T = "thread_local_state s" and ?W = "thread_of_segment s" and ?R = "range_from p 0 n"
  let ?P = "pgs ?T ?W" and ?S = "sgs ?T ?W" and ?K = "hps ?T ?W"
  note own = mim_okD(1) [OF ok] and sd = storedD [OF mim_okD(2) [OF ok]] and w = windowsD [OF mim_okD(4) [OF ok]]
    and bo = blocks_outD [OF mim_okD(3) [OF ok]]
  have main: "(\<lambda>q. if q \<in> ?R then Some (ps_shared (pageof ts q)) else None) \<subseteq>\<^sub>m page_shared_access s \<and>
      mim_ok wf2 ((put_tls t (ts\<lparr>ts_pages := ts_pages ts ++ (\<lambda>q. if q \<in> ?R then Some ((pageof ts q)\<lparr>ps_enabled := False\<rparr>) else None)\<rparr>) s)\<lparr>
        page_shared_access := page_shared_access s |` (- ?R)\<rparr>)"
    if t: "?T t = Some ts" and c: "thread_checked_state s t = Some cs" and p: "ts_pages ts p = Some ps" "p \<in> cs_pages cs" "ps_num_blocks ps = 0"
      and R: "\<And>q. q \<in> ?R \<Longrightarrow> \<exists>x. ts_pages ts q = Some x \<and> ps_enabled x \<and> ps_offset x = int (snd q) - int (snd p)" for ts cs ps
  proof -
    let ?D = "\<lambda>q. if q \<in> ?R then Some ((pageof ts q)\<lparr>ps_enabled := False\<rparr>) else None"
    note G = thread_page [OF own t p(1)]
    have old: "\<exists>x. ?P q = Some x \<and> ?D q = Some (x\<lparr>ps_enabled := False\<rparr>) \<and> pageof ts q = x \<and> ps_enabled x \<and> ps_offset x = int (snd q) - int (snd p)"
      if "q \<in> ?R" for q
      using R [OF that] thread_page(1) [OF own t, of q] that by (auto simp: pageof_def)
    have seg: "ts_segments ts (fst q) \<noteq> None" if "?D q \<noteq> None" for q
    proof -
      have "q \<in> ?R" using that by (auto split: if_splits)
      then show ?thesis using R ownedD(4) [OF own t, of q] by fastforce
    qed
    note U = add_pages [OF own t seg refl]
    have eval: "(?P ++ ?D) q = (if q \<in> ?R then ?D q else ?P q)" for q by (simp add: map_add_def)
    have ch: "checked ?W (thread_checked_state s) p" using G(2) c p(2) by (auto simp: checked_def)
    have Ap: "delay_actor s p = None" by (rule w(9) [OF ch G(1)])
    have head: "q = p" if "q \<in> ?R" "?P q = Some x" "ps_offset x = 0" for q x
      using old [OF that(1)] that(2,3) range_fromD(1) [OF that(1)] by (auto simp: prod_eq_iff)
    have psa: "page_shared_access s q = Some (ps_shared (pageof ts q))" if "q \<in> ?R" for q using old [OF that] sd(2) [of q] by auto
    have st: "stored (?P ++ ?D) ?S ?K (page_shared_access s |` (- ?R)) (segment_shared_access s) (heap_of_page s)"
      unfolding stored_def eval
    proof (intro conjI allI impI)
      fix q ps assume q: "(if q \<in> ?R then ?D q else ?P q) = Some ps"
      obtain x where "?P q = Some x"
      proof (cases "q \<in> ?R")
        case True
        then show ?thesis using old that by blast
      next
        case False
        then show ?thesis using q that by simp
      qed
      then show "\<exists>ss. ?S (fst q) = Some ss \<and> ss_enabled ss" by (rule sd(1))
    next
      fix q
      show "(page_shared_access s |` (- ?R)) q = (case if q \<in> ?R then ?D q else ?P q of None \<Rightarrow> None | Some ps \<Rightarrow> if ps_enabled ps then Some (ps_shared ps) else None)"
        using sd(2) [of q] by (cases "q \<in> ?R") simp_all
      show "heap_of_page s q = (case if q \<in> ?R then ?D q else ?P q of None \<Rightarrow> None | Some ps \<Rightarrow> if ps_offset ps = 0 then ?K (fst q) else None)"
        using sd(4) [of q] old [of q] by (cases "q \<in> ?R") auto
    next
      fix g show "segment_shared_access s g = (case ?S g of None \<Rightarrow> None | Some ss \<Rightarrow> if ss_enabled ss then Some (ss_shared ss) else None)" by (rule sd(3))
    qed
    have bl: "blocks_out (?P ++ ?D) ?S ?K (block s)"
      unfolding blocks_out_def
    proof (intro conjI allI impI)
      fix b bs assume "block s b = Some bs"
      then have f: "block_fits ?P ?S ?K b bs" by (rule bo(1))
      have np: "bi_page b \<noteq> p" using f G(1) p(3) by (auto elim: block_fitsE)
      have "bi_page b \<notin> ?R" by (rule block_fitsE [OF f]) (use np head [of "bi_page b"] in blast)
      moreover have "page_id_for_slice b \<notin> ?R"
      proof
        assume q: "page_id_for_slice b \<in> ?R"
        then obtain x where x: "?P (page_id_for_slice b) = Some x" "ps_offset x = int (bi_slice b) - int (snd p)"
          using old [OF q] by (auto simp: page_id_for_slice_def)
        then have "int (bi_slice b) - int (snd (bi_page b)) = int (bi_slice b) - int (snd p)" using f by (auto elim!: block_fitsE)
        moreover have "fst (bi_page b) = fst p" using range_fromD(1) [OF q] by (simp add: page_id_for_slice_def)
        ultimately show False using np by (simp add: prod_eq_iff)
      qed
      ultimately show "block_fits (?P ++ ?D) ?S ?K b bs" by (intro block_fits_mono [OF f]) (auto simp: eval)
    next
      fix b c assume "block s b \<noteq> None \<and> block s c \<noteq> None \<and> bi_page b = bi_page c \<and> bi_idx b = bi_idx c"
      then show "b = c" using bo(2) by blast
    qed
    have Aout: "q \<notin> ?R" if "delay_actor s q \<noteq> None" for q
    proof
      assume q: "q \<in> ?R"
      have "delay s q = Some Freeing" using w(2) that by blast
      then have h: "heap_of_page s q \<noteq> None" using w(1) [of q] by simp
      show False
      proof (cases "?P q")
        case None
        then show ?thesis using sd(4) [of q] h by simp
      next
        case (Some x)
        then have "ps_offset x = 0" using sd(4) [of q] h by (simp split: if_splits)
        then have "q = p" by (rule head [OF q Some])
        then show ?thesis using Ap that by simp
      qed
    qed
    have wi: "windows (?P ++ ?D) ?K (checked ?W (thread_checked_state s)) (delay s) (heap_of_page s) (delay_actor s) (heap_shared_access s)"
    proof (rule windows_pages [OF mim_okD(4) [OF ok]])
      fix q
      show "\<exists>qs. (?P ++ ?D) q = Some qs \<and> ps_enabled qs \<and> ps_shared qs = ps_shared x" if "delay_actor s q \<noteq> None" "?P q = Some x" "ps_enabled x" for x
        unfolding eval using Aout [OF that(1)] that(2,3) by simp
      show "ps_num_blocks x = 0 \<and> delay_actor s q = None" if a: "checked ?W (thread_checked_state s) q" "(?P ++ ?D) q = Some x" for x
      proof (cases "q \<in> ?R")
        case True
        then obtain y where "?P q = Some y" "x = y\<lparr>ps_enabled := False\<rparr>" using a(2) old [OF True] unfolding eval by auto
        then show ?thesis using w(8,9) [OF a(1), of y] by simp
      next
        case False
        then show ?thesis using w(8,9) [OF a(1)] a(2) unfolding eval by simp
      qed
    qed (fact w(1) w(3) | rule refl)+
    have "mim_ok wf2 ((put_tls t (ts\<lparr>ts_pages := ts_pages ts ++ ?D\<rparr>) s)\<lparr>page_shared_access := page_shared_access s |` (- ?R),
        heap_of_page := heap_of_page s, block := block s, delay := delay s, thread_checked_state := thread_checked_state s\<rparr>)"
      by (rule pages_changed [OF ok t U refl st bl wi])
    then show ?thesis using psa by (auto simp: put_tls_def map_le_def)
  qed
  show ?thesis
    unfolding page_disable_def Let_def holds_require holds_claim holds_simps
  proof (intro impI)
    assume a: "?T t \<noteq> None" "thread_checked_state s t \<noteq> None" "ts_pages (tls s t) p \<noteq> None" "p \<in> cs_pages (the (thread_checked_state s t))"
      "ps_num_blocks (pageof (tls s t) p) = 0"
      and R: "\<forall>q\<in>?R. ts_pages (tls s t) q \<noteq> None \<and> ps_enabled (pageof (tls s t) q) \<and> ps_offset (pageof (tls s t) q) = int (snd q) - int (snd p)"
    obtain ts cs where t: "?T t = Some ts" and c: "thread_checked_state s t = Some cs" using a(1,2) by blast
    have e: "tls s t = ts" using t by (simp add: tls_def)
    obtain ps where p: "ts_pages ts p = Some ps" using a(3) e by auto
    have R': "\<exists>x. ts_pages ts q = Some x \<and> ps_enabled x \<and> ps_offset x = int (snd q) - int (snd p)" if "q \<in> ?R" for q
      using bspec [OF R that] unfolding e by (auto simp: pageof_def)
    show "(\<lambda>q. if q \<in> ?R then Some (ps_shared (pageof (tls s t) q)) else None) \<subseteq>\<^sub>m page_shared_access s \<and>
      mim_ok wf2 ((put_tls t (tls s t\<lparr>ts_pages := ts_pages (tls s t) ++ (\<lambda>q. if q \<in> ?R then Some ((pageof (tls s t) q)\<lparr>ps_enabled := False\<rparr>) else None)\<rparr>) s)\<lparr>
        page_shared_access := page_shared_access s |` (- ?R)\<rparr>)"
      unfolding e by (rule main [OF t c p _ _ R']) (use a(4,5) c p e in \<open>simp_all add: pageof_def\<close>)
  qed
qed

lemma destroy_keeps:
  assumes ok: "mim_ok wf2 s"
  shows "holds (page_destroy_tokens t p n s) (mim_ok wf2)"
proof -
  let ?T = "thread_local_state s" and ?W = "thread_of_segment s" and ?R = "range_from p 0 n"
  let ?P = "pgs ?T ?W" and ?S = "sgs ?T ?W" and ?K = "hps ?T ?W"
  let ?h = "(heap_of_page s)(p := None)" and ?d = "(delay s)(p := None)"
  note own = mim_okD(1) [OF ok] and sd = storedD [OF mim_okD(2) [OF ok]] and w = windowsD [OF mim_okD(4) [OF ok]]
    and bo = blocks_outD [OF mim_okD(3) [OF ok]]
  have main: "mim_ok wf2 ((put_tls t (ts\<lparr>ts_pages := ts_pages ts |` (- ?R)\<rparr>) s)\<lparr>heap_of_page := ?h, delay := ?d\<rparr>)"
    if t: "?T t = Some ts" and sub: "?R \<subseteq> dom (ts_pages ts)" and p: "p \<in> ?R"
      and R: "\<And>q x. q \<in> ?R \<Longrightarrow> ts_pages ts q = Some x \<Longrightarrow> \<not> ps_enabled x \<and> (p \<noteq> q \<longrightarrow> ps_offset x \<noteq> 0)" for ts
  proof -
    note U = drop_pages [OF own t sub refl]
    have old: "\<exists>x. ?P q = Some x \<and> \<not> ps_enabled x \<and> (p \<noteq> q \<longrightarrow> ps_offset x \<noteq> 0)" if q: "q \<in> ?R" for q
    proof -
      obtain x where "ts_pages ts q = Some x" using sub q by blast
      then show ?thesis using thread_page(1) [OF own t] R [OF q] by blast
    qed
    have keep: "q \<notin> ?R" if "?P q = Some x" "ps_enabled x" for q x using old [of q] that by auto
    have eval: "(?P |` (- ?R)) q = (if q \<in> ?R then None else ?P q)" for q by simp
    have Aout: "q \<notin> ?R" if a: "delay_actor s q \<noteq> None" for q
    proof -
      obtain b where "delay_actor s q = Some b" using a by blast
      then show ?thesis using w(4) keep by blast
    qed
    have dp: "delay s p \<noteq> Some Freeing" using Aout [of p] p w(2) [of p] by blast
    have st: "stored (?P |` (- ?R)) ?S ?K (page_shared_access s) (segment_shared_access s) ?h"
      unfolding stored_def eval
    proof (intro conjI allI impI)
      fix q ps assume "(if q \<in> ?R then None else ?P q) = Some ps"
      then have "?P q = Some ps" by (simp split: if_splits)
      then show "\<exists>ss. ?S (fst q) = Some ss \<and> ss_enabled ss" by (rule sd(1))
    next
      fix q
      show "page_shared_access s q = (case if q \<in> ?R then None else ?P q of None \<Rightarrow> None | Some ps \<Rightarrow> if ps_enabled ps then Some (ps_shared ps) else None)"
        using sd(2) [of q] old [of q] by (cases "q \<in> ?R") auto
      show "?h q = (case if q \<in> ?R then None else ?P q of None \<Rightarrow> None | Some ps \<Rightarrow> if ps_offset ps = 0 then ?K (fst q) else None)"
        using sd(4) [of q] old [of q] p by (cases "q \<in> ?R") auto
    next
      fix g show "segment_shared_access s g = (case ?S g of None \<Rightarrow> None | Some ss \<Rightarrow> if ss_enabled ss then Some (ss_shared ss) else None)" by (rule sd(3))
    qed
    have bl: "blocks_out (?P |` (- ?R)) ?S ?K (block s)"
      unfolding blocks_out_def
    proof (intro conjI allI impI)
      fix b bs assume "block s b = Some bs"
      then have f: "block_fits ?P ?S ?K b bs" by (rule bo(1))
      show "block_fits (?P |` (- ?R)) ?S ?K b bs"
        by (rule block_fits_mono [OF f]) (use keep in \<open>auto simp: eval\<close>)
    next
      fix b c assume "block s b \<noteq> None \<and> block s c \<noteq> None \<and> bi_page b = bi_page c \<and> bi_idx b = bi_idx c"
      then show "b = c" using bo(2) by blast
    qed
    have wi: "windows (?P |` (- ?R)) ?K (checked ?W (thread_checked_state s)) ?d ?h (delay_actor s) (heap_shared_access s)"
    proof (rule windows_pages [OF mim_okD(4) [OF ok]])
      fix q
      show "\<exists>qs. (?P |` (- ?R)) q = Some qs \<and> ps_enabled qs \<and> ps_shared qs = ps_shared x" if "?P q = Some x" "ps_enabled x" for x
        unfolding eval using keep [OF that] that by simp
      show "ps_num_blocks x = 0 \<and> delay_actor s q = None" if a: "checked ?W (thread_checked_state s) q" "(?P |` (- ?R)) q = Some x" for x
        using w(8,9) [OF a(1), of x] a(2) unfolding eval by (simp split: if_splits)
      show "?d q = None \<longleftrightarrow> ?h q = None" using w(1) [of q] by simp
      show "?d q \<noteq> Some NeverDelayedFree" using w(3) [of q] by simp
      show "?d q = Some Freeing \<longleftrightarrow> delay s q = Some Freeing" using dp by simp
    qed
    have "mim_ok wf2 ((put_tls t (ts\<lparr>ts_pages := ts_pages ts |` (- ?R)\<rparr>) s)\<lparr>page_shared_access := page_shared_access s,
        heap_of_page := ?h, block := block s, delay := ?d, thread_checked_state := thread_checked_state s\<rparr>)"
      by (rule pages_changed [OF ok t U refl st bl wi])
    then show ?thesis by (simp add: put_tls_def)
  qed
  show ?thesis
    unfolding page_destroy_tokens_def Let_def holds_require holds_simps
  proof (intro impI)
    assume a: "?T t \<noteq> None" "?R \<subseteq> dom (ts_pages (tls s t))" "1 \<le> n" "\<forall>q\<in>?R. \<not> ps_enabled (pageof (tls s t) q)"
      "\<forall>q\<in>?R. p \<noteq> q \<longrightarrow> ps_offset (pageof (tls s t) q) \<noteq> 0"
    obtain ts where t: "?T t = Some ts" using a(1) by blast
    have e: "tls s t = ts" using t by (simp add: tls_def)
    have pR: "p \<in> ?R" using range_fromD(2) [of n p] a(3) by simp
    show "mim_ok wf2 ((put_tls t (tls s t\<lparr>ts_pages := ts_pages (tls s t) |` (- ?R)\<rparr>) s)\<lparr>heap_of_page := ?h, delay := ?d\<rparr>)"
      unfolding e
    proof (rule main [OF t a(2) [unfolded e] pR])
      fix q x assume q: "q \<in> ?R" "ts_pages ts q = Some x"
      then have "pageof ts q = x" by (simp add: pageof_def)
      then show "\<not> ps_enabled x \<and> (p \<noteq> q \<longrightarrow> ps_offset x \<noteq> 0)" using bspec [OF a(4) q(1)] bspec [OF a(5) q(1)] e by simp
    qed
  qed
qed



section \<open>What may be concluded\<close>

text \<open>The owner of the segment of a block that is out has what the source calls \<^verbatim>\<open>block_properties\<close>.\<close>

lemma block_owner:
  assumes ok: "mim_ok wf2 s" and b: "block s b = Some bs"
  obtains t ts where "thread_of_segment s (fst (bi_page b)) = Some t" "thread_local_state s t = Some ts" "block_properties ts b bs"
    "ts_segments ts (fst (bi_page b)) \<noteq> None"
proof -
  let ?T = "thread_local_state s" and ?W = "thread_of_segment s"
  note own = mim_okD(1) [OF ok]
  have f: "block_fits (pgs ?T ?W) (sgs ?T ?W) (hps ?T ?W) b bs" by (rule blocks_outD(1) [OF mim_okD(3) [OF ok] b])
  then obtain ps where "pgs ?T ?W (bi_page b) = Some ps" by (rule block_fitsE)
  then obtain t ts where t: "?W (fst (bi_page b)) = Some t" "?T t = Some ts" by (rule pgsE [OF own])
  note O = owner_of [OF own t(2,1)]
  have e: "pgs ?T ?W (bi_page b) = ts_pages ts (bi_page b)" "pgs ?T ?W (page_id_for_slice b) = ts_pages ts (page_id_for_slice b)"
    by (rule O(4); simp add: page_id_for_slice_def)+
  show thesis
  proof (rule that [OF t])
    show "block_properties ts b bs"
      using f unfolding block_fits_def e O(2,3) by (auto simp: block_properties_def Let_def pageof_def page_id_for_slice_def split: option.splits)
    show "ts_segments ts (fst (bi_page b)) \<noteq> None" using f unfolding block_fits_def O(3) by auto
  qed
qed

text \<open>A thread that has the page of a block is the owner of its segment.\<close>

lemma block_of_thread:
  assumes ok: "mim_ok wf2 s" and b: "block s b = Some bs" and t: "thread_local_state s t = Some ts" and p: "ts_pages ts (bi_page b) \<noteq> None"
  shows "block_properties ts b bs"
proof -
  have "thread_of_segment s (fst (bi_page b)) = Some t" by (rule ownedD(5) [OF mim_okD(1) [OF ok] t p])
  then show ?thesis using block_owner [OF ok b] t by (metis option.inject)
qed

lemma local_keeps:
  "mim_ok wf2 s \<Longrightarrow> holds (block_tokens_distinct_retain b c s) (mim_ok wf2)"
  "mim_ok wf2 s \<Longrightarrow> holds (block_tokens_distinct b c s) (mim_ok wf2)"
  "mim_ok wf2 s \<Longrightarrow> holds (block_in_range t b s) (mim_ok wf2)"
proof -
  assume ok: "mim_ok wf2 s"
  note bo = blocks_outD(2) [OF mim_okD(3) [OF ok]]
  show "holds (block_tokens_distinct_retain b c s) (mim_ok wf2)" "holds (block_tokens_distinct b c s) (mim_ok wf2)"
    unfolding block_tokens_distinct_retain_def block_tokens_distinct_def holds_require holds_claim using bo by blast+
  show "holds (block_in_range t b s) (mim_ok wf2)"
    unfolding block_in_range_def holds_require holds_claim holds_simps
  proof (intro impI conjI ok)
    assume a: "thread_local_state s t \<noteq> None" "block s b \<noteq> None" "ts_pages (tls s t) (bi_page b) \<noteq> None"
    obtain ts bs where t: "thread_local_state s t = Some ts" and b: "block s b = Some bs" using a(1,2) by blast
    have e: "tls s t = ts" using t by (simp add: tls_def)
    show "bi_idx b < ps_num_blocks (pageof (tls s t) (bi_page b))"
      using block_of_thread [OF ok b t] a(3) unfolding e block_properties_def Let_def by blast
  qed
qed

lemma query_holds:
  assumes ok: "mim_ok wf2 s"
  shows "holds (mim_ask a s) (\<lambda>s'. s' = s)"
proof -
  let ?T = "thread_local_state s" and ?W = "thread_of_segment s"
  note own = mim_okD(1) [OF ok] and sd = storedD [OF mim_okD(2) [OF ok]] and w = windowsD [OF mim_okD(4) [OF ok]]
    and bo = blocks_outD [OF mim_okD(3) [OF ok]] and H = heaps_okD [OF mim_okD(5) [OF ok]]
  have tls: "tls s t = ts" if "?T t = Some ts" for t ts using that by (simp add: tls_def)
  have guards: "segment_shared_access s (fst (bi_page b)) = Some (bs_segment bs) \<and> page_shared_access s (page_id_for_slice b) = Some (bs_slice bs)
      \<and> page_shared_access s (bi_page b) = Some (bs_page bs)" if b: "block s b = Some bs" for b bs
    using bo(1) [OF b] sd(2) [of "bi_page b"] sd(2) [of "page_id_for_slice b"] sd(3) [of "fst (bi_page b)"] by (auto elim!: block_fitsE)
  show ?thesis
  proof (cases a)
    case (LocalBlock t b)
    have "ts_segments (tls s t) (fst (bi_page b)) \<noteq> None \<and> block_properties (tls s t) b (the (block s b))"
      if a: "block s b \<noteq> None" "the (?W (fst (bi_page b))) = t" for b t
    proof -
      obtain bs where b: "block s b = Some bs" using a(1) by blast
      show ?thesis by (rule block_owner [OF ok b]) (use a(2) b in \<open>simp add: tls_def\<close>)
    qed
    then show ?thesis by (simp add: LocalBlock block_on_the_local_thread_def holds_require holds_claim Let_def block_properties_def)
  next
    case (BlockSegment b)
    then show ?thesis using guards [of b] by (auto simp: alloc_guards_segment_shared_access_def holds_require holds_claim)
  next
    case (BlockSlice b)
    then show ?thesis using guards [of b] by (auto simp: alloc_guards_page_slice_shared_access_def holds_require holds_claim)
  next
    case (BlockPage b)
    then show ?thesis using guards [of b] by (auto simp: alloc_guards_page_shared_access_def holds_require holds_claim)
  next
    case (DelayHeap p)
    then show ?thesis using w(6) [of p] by (auto simp: delay_guards_heap_shared_access_def holds_claim split: option.splits DelayFreeingActor.splits)
  next
    case (DelayPage p)
    have "page_shared_access s p = Some y" if d: "delay_actor s p = Some (Heap h x y)" for h x y
      using w(4) [OF d] w(7) [OF d] sd(2) [of p] by auto
    then show ?thesis by (auto simp: DelayPage delay_guards_page_shared_access_def holds_claim split: option.splits DelayFreeingActor.splits)
  next
    case (ThreadPage t p)
    have "page_shared_access s p = Some (ps_shared (pageof (tls s t) p))"
      if a: "?T t \<noteq> None" "ts_pages (tls s t) p \<noteq> None" "ps_enabled (pageof (tls s t) p)"
    proof -
      obtain ts where t: "?T t = Some ts" using a(1) by blast
      obtain ps where p: "ts_pages ts p = Some ps" using a(2) tls [OF t] by auto
      show ?thesis using sd(2) [of p] thread_page(1) [OF own t p] a(3) p by (simp add: tls [OF t] pageof_def)
    qed
    then show ?thesis by (simp add: ThreadPage thread_local_state_guards_page_def holds_require holds_claim)
  next
    case (ThreadHeap t)
    then show ?thesis using H(10) [of t] by (auto simp: thread_local_state_guards_heap_def holds_require holds_claim tls)
  next
    case (ThreadSegment t g)
    have "segment_shared_access s g = Some (ss_shared (the (ts_segments (tls s t) g)))"
      if a: "?T t \<noteq> None" "ts_segments (tls s t) g \<noteq> None" "ss_enabled (the (ts_segments (tls s t) g))"
    proof -
      obtain ts where t: "?T t = Some ts" using a(1) by blast
      obtain ss where g: "ts_segments ts g = Some ss" using a(2) tls [OF t] by auto
      show ?thesis using sd(3) [of g] thread_segment(1) [OF own t g] a(3) g by (simp add: tls [OF t])
    qed
    then show ?thesis by (simp add: ThreadSegment thread_local_state_guards_segment_def holds_require holds_claim)
  next
    case (PageHeap p t)
    have "ts_heap_id (tls s t) = the (heap_of_page s p)"
      if a: "?T t \<noteq> None" "heap_of_page s p \<noteq> None" "ts_pages (tls s t) p \<noteq> None"
    proof -
      obtain ts where t: "?T t = Some ts" using a(1) by blast
      obtain ps where p: "ts_pages ts p = Some ps" using a(3) tls [OF t] by auto
      show ?thesis using sd(4) [of p] thread_page [OF own t p] a(2) by (simp add: tls [OF t] split: if_splits)
    qed
    then show ?thesis by (simp add: PageHeap heap_of_page_agree_with_thread_state_def holds_require holds_claim)
  next
    case (HeapBlock t b)
    have "block_properties (tls s t) b (the (block s b))"
      if a: "?T t \<noteq> None" "block s b \<noteq> None" "bs_heap (the (block s b)) = Some (ts_heap_id (tls s t))"
    proof -
      obtain ts bs where t: "?T t = Some ts" and b: "block s b = Some bs" using a(1,2) by blast
      show ?thesis
      proof (rule block_owner [OF ok b])
        fix u us assume u: "?W (fst (bi_page b)) = Some u" "?T u = Some us" "block_properties us b bs"
        then have "ts_heap_id us = ts_heap_id ts" using a(3) b by (simp add: block_properties_def Let_def tls [OF t])
        then have "u = t" using H(9) [OF t] H(9) [OF u(2)] by simp
        then show ?thesis using u b t by (simp add: tls [OF t])
      qed
    qed
    then show ?thesis by (simp add: HeapBlock block_in_heap_has_valid_page_def holds_require holds_claim Let_def block_properties_def)
  next
    case (BlockProperties t b)
    have "block_properties (tls s t) b (the (block s b))"
      if a: "?T t \<noteq> None" "block s b \<noteq> None" "ts_pages (tls s t) (bi_page b) \<noteq> None"
    proof -
      obtain ts bs where t: "?T t = Some ts" and b: "block s b = Some bs" using a(1,2) by blast
      show ?thesis using block_of_thread [OF ok b t] a(3) b by (simp add: tls [OF t])
    qed
    then show ?thesis by (simp add: BlockProperties get_block_properties_def holds_require holds_claim)
  qed
qed


section \<open>Reachable states\<close>

lemma mim_initialize_ok: "mim_ok wf2 mim_initialize"
  by (simp add: mim_ok_def mim_initialize_def Let_def owned_def stored_def blocks_out_def windows_def heaps_ok_def pgs_def sgs_def owner_def)

lemma mim_exec_keeps: "mim_ok wf2 s \<Longrightarrow> holds (mim_exec wf2 a s) (mim_ok wf2)"
  by (cases a) (simp_all only: mim_exec.simps set_inst_keeps actor_keeps set_use_keeps enter_keeps leave_keeps lookup_keeps set_heap_keeps
      reserve_keeps create_thread_keeps create_segment_keeps segment_enable_keeps create_page_keeps page_enable_keeps mk_blocks_keeps
      destroy_blocks_keeps check_keeps disable_keeps destroy_keeps local_keeps)

interpretation ownership: machine "mim_exec wf2" "mim_ok wf2" for wf2 :: "'ha \<Rightarrow> HeapId \<Rightarrow> 'i \<Rightarrow> bool"
  by unfold_locales (rule mim_exec_keeps)

lemma mim_reach_ok: "mim_reach wf2 s \<Longrightarrow> mim_ok wf2 s"
proof (induction rule: mim_reach.induct)
  case mim_init
  then show ?case by (rule mim_initialize_ok)
next
  case (mim_step s a s')
  then show ?case by (metis ownership.next_ok)
qed

end
