(* ===== verification/Mim_Spec.thy ===== *)
theory Mim_Spec
  imports Mim_Steps
begin

text \<open>
  The invariants \<^verbatim>\<open>tokens.rs\<close> declares for \<^verbatim>\<open>Mim\<close>, as they are written there, and that they follow from
  the one of \<open>Mim_Inv\<close>. Reading a map where it has no entry gives an unknown value in the source and
  \<open>the None\<close> here; no invariant depends on it.
\<close>

section \<open>The declared invariants\<close>

definition inv_reserved :: "('sa, 'pa, 'ha, 'i) Mim \<Rightarrow> bool" where
  "inv_reserved s \<longleftrightarrow> (\<forall>h\<in>reserved_uniq s. heap_nr h = 0)"

definition inv_reserved2 :: "('sa, 'pa, 'ha, 'i) Mim \<Rightarrow> bool" where
  "inv_reserved2 s \<longleftrightarrow> (\<forall>h k. h \<in> reserved_uniq s \<and> heap_shared_access s k \<noteq> None \<longrightarrow> heap_uniq h \<noteq> heap_uniq k)"

definition inv_right_to_set_inst :: "('sa, 'pa, 'ha, 'i) Mim \<Rightarrow> bool" where
  "inv_right_to_set_inst s \<longleftrightarrow> (right_to_set_inst s \<longleftrightarrow> my_inst s = None)"

definition inv_heap_of_page_delay :: "('sa, 'pa, 'ha, 'i) Mim \<Rightarrow> bool" where
  "inv_heap_of_page_delay s \<longleftrightarrow> dom (heap_of_page s) = dom (delay s)"

definition inv_delay_state_for_page :: "('sa, 'pa, 'ha, 'i) Mim \<Rightarrow> page_id \<Rightarrow> bool" where
  "inv_delay_state_for_page s p = (case the (delay s p) of UseDelayedFree \<Rightarrow> delay_actor s p = None
     | Freeing \<Rightarrow> delay_actor s p \<noteq> None | NoDelayedFree \<Rightarrow> delay_actor s p = None | NeverDelayedFree \<Rightarrow> False)"

definition inv_delay_state :: "('sa, 'pa, 'ha, 'i) Mim \<Rightarrow> bool" where
  "inv_delay_state s \<longleftrightarrow> (\<forall>p. delay s p \<noteq> None \<longrightarrow> inv_delay_state_for_page s p)"

definition inv_delay_actor_for_page :: "('sa, 'pa, 'ha, 'i) Mim \<Rightarrow> page_id \<Rightarrow> bool" where
  "inv_delay_actor_for_page s p = (case the (delay_actor s p) of
     HeapUnknown \<Rightarrow> let t = the (thread_of_segment s (fst p)) in thread_local_state s t \<noteq> None
        \<and> ts_pages (tls s t) p \<noteq> None \<and> ps_enabled (pageof (tls s t) p)
   | Heap h hsa psa \<Rightarrow> let t = the (heap_to_thread s h) in heap_shared_access s h \<noteq> None \<and> the (heap_shared_access s h) = hsa
        \<and> heap_to_thread s h \<noteq> None \<and> thread_local_state s t \<noteq> None \<and> ts_pages (tls s t) p \<noteq> None
        \<and> ps_shared (pageof (tls s t) p) = psa \<and> ps_enabled (pageof (tls s t) p))"

definition inv_delay_actor :: "('sa, 'pa, 'ha, 'i) Mim \<Rightarrow> bool" where
  "inv_delay_actor s \<longleftrightarrow> (\<forall>p. delay_actor s p \<noteq> None \<longrightarrow> inv_delay_actor_for_page s p)"

definition inv_delay_actor_sub :: "('sa, 'pa, 'ha, 'i) Mim \<Rightarrow> bool" where
  "inv_delay_actor_sub s \<longleftrightarrow> dom (delay_actor s) \<subseteq> dom (delay s)"

definition inv_checked_threads :: "('sa, 'pa, 'ha, 'i) Mim \<Rightarrow> bool" where
  "inv_checked_threads s \<longleftrightarrow> dom (thread_local_state s) = dom (thread_checked_state s)"

definition inv_no_delay_actor_for_checked :: "('sa, 'pa, 'ha, 'i) Mim \<Rightarrow> bool" where
  "inv_no_delay_actor_for_checked s \<longleftrightarrow> (\<forall>t p. thread_local_state s t \<noteq> None \<and> ts_pages (tls s t) p \<noteq> None
     \<and> p \<in> cs_pages (the (thread_checked_state s t)) \<longrightarrow> ps_num_blocks (pageof (tls s t) p) = 0 \<and> delay_actor s p = None)"

definition right_to_use_thread_complement :: "('sa, 'pa, 'ha, 'i) Mim \<Rightarrow> bool" where
  "right_to_use_thread_complement s \<longleftrightarrow> (\<forall>t. t \<in> right_to_use_thread s \<longleftrightarrow> thread_local_state s t = None)"

definition heap_of_thread_is_valid :: "('sa, 'pa, 'ha, 'i) Mim \<Rightarrow> bool" where
  "heap_of_thread_is_valid s \<longleftrightarrow> (\<forall>t. thread_local_state s t \<noteq> None \<longrightarrow> heap_shared_access s (ts_heap_id (tls s t)) \<noteq> None)"

definition wf_heap_shared_access_requires_inst :: "('sa, 'pa, 'ha, 'i) Mim \<Rightarrow> bool" where
  "wf_heap_shared_access_requires_inst s \<longleftrightarrow> (my_inst s = None \<longrightarrow> dom (heap_shared_access s) = {})"

definition wf_heap_shared_access :: "('ha \<Rightarrow> HeapId \<Rightarrow> 'i \<Rightarrow> bool) \<Rightarrow> ('sa, 'pa, 'ha, 'i) Mim \<Rightarrow> bool" where
  "wf_heap_shared_access wf2 s \<longleftrightarrow> (\<forall>h. heap_shared_access s h \<noteq> None \<longrightarrow> wf2 (the (heap_shared_access s h)) h (the (my_inst s)))"

definition inv_thread_of_segment1 :: "('sa, 'pa, 'ha, 'i) Mim \<Rightarrow> bool" where
  "inv_thread_of_segment1 s \<longleftrightarrow> (\<forall>t g. thread_local_state s t \<noteq> None \<and> ts_segments (tls s t) g \<noteq> None
     \<longrightarrow> thread_of_segment s g \<noteq> None \<and> the (thread_of_segment s g) = t)"

definition inv_thread_of_segment2 :: "('sa, 'pa, 'ha, 'i) Mim \<Rightarrow> bool" where
  "inv_thread_of_segment2 s \<longleftrightarrow> (\<forall>g. thread_of_segment s g \<noteq> None \<longrightarrow> thread_local_state s (the (thread_of_segment s g)) \<noteq> None
     \<and> ts_segments (tls s (the (thread_of_segment s g))) g \<noteq> None)"

definition inv_thread_has_segment_for_page :: "('sa, 'pa, 'ha, 'i) Mim \<Rightarrow> bool" where
  "inv_thread_has_segment_for_page s \<longleftrightarrow> (\<forall>t p. thread_local_state s t \<noteq> None \<and> ts_pages (tls s t) p \<noteq> None
     \<longrightarrow> ts_segments (tls s t) (fst p) \<noteq> None)"

definition inv_thread_of_page1 :: "('sa, 'pa, 'ha, 'i) Mim \<Rightarrow> bool" where
  "inv_thread_of_page1 s \<longleftrightarrow> (\<forall>t p. thread_local_state s t \<noteq> None \<and> ts_pages (tls s t) p \<noteq> None \<and> ps_offset (pageof (tls s t) p) = 0
     \<longrightarrow> heap_of_page s p \<noteq> None \<and> ts_segments (tls s t) (fst p) \<noteq> None)"

definition inv_thread_of_page2 :: "('sa, 'pa, 'ha, 'i) Mim \<Rightarrow> bool" where
  "inv_thread_of_page2 s \<longleftrightarrow> (\<forall>p. heap_of_page s p \<noteq> None \<longrightarrow> thread_of_segment s (fst p) \<noteq> None
     \<and> (let t = the (thread_of_segment s (fst p)) in thread_local_state s t \<noteq> None \<and> ts_pages (tls s t) p \<noteq> None
         \<and> ps_offset (pageof (tls s t) p) = 0))"

definition heap_of_page_is_correct :: "('sa, 'pa, 'ha, 'i) Mim \<Rightarrow> bool" where
  "heap_of_page_is_correct s \<longleftrightarrow> (\<forall>p. heap_of_page s p \<noteq> None
     \<longrightarrow> the (heap_of_page s p) = ts_heap_id (tls s (the (thread_of_segment s (fst p)))))"

definition inv_page_shared_access_dom :: "('sa, 'pa, 'ha, 'i) Mim \<Rightarrow> bool" where
  "inv_page_shared_access_dom s \<longleftrightarrow> (\<forall>p. page_shared_access s p \<noteq> None \<longleftrightarrow> thread_of_segment s (fst p) \<noteq> None
     \<and> (let ts = tls s (the (thread_of_segment s (fst p))) in ts_pages ts p \<noteq> None \<and> ps_enabled (pageof ts p)))"

definition inv_page_shared_access_eq :: "('sa, 'pa, 'ha, 'i) Mim \<Rightarrow> bool" where
  "inv_page_shared_access_eq s \<longleftrightarrow> (\<forall>p. page_shared_access s p \<noteq> None
     \<longrightarrow> the (page_shared_access s p) = ps_shared (pageof (tls s (the (thread_of_segment s (fst p)))) p))"

definition inv_segment_shared_access_dom :: "('sa, 'pa, 'ha, 'i) Mim \<Rightarrow> bool" where
  "inv_segment_shared_access_dom s \<longleftrightarrow> (\<forall>g. segment_shared_access s g \<noteq> None \<longleftrightarrow> thread_of_segment s g \<noteq> None
     \<and> (let ts = tls s (the (thread_of_segment s g)) in ts_segments ts g \<noteq> None \<and> ss_enabled (the (ts_segments ts g))))"

definition inv_segment_shared_access_eq :: "('sa, 'pa, 'ha, 'i) Mim \<Rightarrow> bool" where
  "inv_segment_shared_access_eq s \<longleftrightarrow> (\<forall>g. segment_shared_access s g \<noteq> None
     \<longrightarrow> the (segment_shared_access s g) = ss_shared (the (ts_segments (tls s (the (thread_of_segment s g))) g)))"

definition inv_block_id_valid_for_block :: "('sa, 'pa, 'ha, 'i) Mim \<Rightarrow> BlockId \<Rightarrow> bool" where
  "inv_block_id_valid_for_block s b \<longleftrightarrow> thread_of_segment s (fst (bi_page b)) \<noteq> None
     \<and> block_properties (tls s (the (thread_of_segment s (fst (bi_page b))))) b (the (block s b))"

definition inv_block_id_valid :: "('sa, 'pa, 'ha, 'i) Mim \<Rightarrow> bool" where
  "inv_block_id_valid s \<longleftrightarrow> (\<forall>b. block s b \<noteq> None \<longrightarrow> inv_block_id_valid_for_block s b)"

definition inv_block_id_at_idx_uniq :: "('sa, 'pa, 'ha, 'i) Mim \<Rightarrow> bool" where
  "inv_block_id_at_idx_uniq s \<longleftrightarrow> (\<forall>b c. block s b \<noteq> None \<and> block s c \<noteq> None \<and> bi_page b = bi_page c \<and> bi_idx b = bi_idx c \<longrightarrow> b = c)"

definition heap_ids_thread_id1 :: "('sa, 'pa, 'ha, 'i) Mim \<Rightarrow> bool" where
  "heap_ids_thread_id1 s \<longleftrightarrow> (\<forall>t. thread_local_state s t \<noteq> None \<longrightarrow> heap_to_thread s (ts_heap_id (tls s t)) \<noteq> None
     \<and> the (heap_to_thread s (ts_heap_id (tls s t))) = t)"

definition heap_ids_thread_id2 :: "('sa, 'pa, 'ha, 'i) Mim \<Rightarrow> bool" where
  "heap_ids_thread_id2 s \<longleftrightarrow> (\<forall>h. heap_to_thread s h \<noteq> None \<longrightarrow> thread_local_state s (the (heap_to_thread s h)) \<noteq> None
     \<and> ts_heap_id (tls s (the (heap_to_thread s h))) = h)"

definition inv_heap_shared_access :: "('sa, 'pa, 'ha, 'i) Mim \<Rightarrow> bool" where
  "inv_heap_shared_access s \<longleftrightarrow> (\<forall>t. thread_local_state s t \<noteq> None \<longrightarrow> heap_shared_access s (ts_heap_id (tls s t)) \<noteq> None
     \<and> the (heap_shared_access s (ts_heap_id (tls s t))) = hs_shared (ts_heap (tls s t)))"

definition page_implies_segment_enabled :: "('sa, 'pa, 'ha, 'i) Mim \<Rightarrow> bool" where
  "page_implies_segment_enabled s \<longleftrightarrow> (\<forall>t p. thread_local_state s t \<noteq> None \<and> ts_pages (tls s t) p \<noteq> None
     \<longrightarrow> ts_segments (tls s t) (fst p) \<noteq> None \<and> ss_enabled (the (ts_segments (tls s t) (fst p))))"

definition mim_invariant :: "('ha \<Rightarrow> HeapId \<Rightarrow> 'i \<Rightarrow> bool) \<Rightarrow> ('sa, 'pa, 'ha, 'i) Mim \<Rightarrow> bool" where
  "mim_invariant wf2 s \<longleftrightarrow> inv_reserved s \<and> inv_reserved2 s \<and> inv_right_to_set_inst s \<and> inv_heap_of_page_delay s
     \<and> inv_delay_state s \<and> inv_delay_actor s \<and> inv_delay_actor_sub s \<and> inv_checked_threads s \<and> inv_no_delay_actor_for_checked s
     \<and> right_to_use_thread_complement s \<and> heap_of_thread_is_valid s \<and> wf_heap_shared_access_requires_inst s
     \<and> wf_heap_shared_access wf2 s \<and> inv_thread_of_segment1 s \<and> inv_thread_of_segment2 s \<and> inv_thread_has_segment_for_page s
     \<and> inv_thread_of_page1 s \<and> inv_thread_of_page2 s \<and> heap_of_page_is_correct s \<and> inv_page_shared_access_dom s
     \<and> inv_page_shared_access_eq s \<and> inv_segment_shared_access_dom s \<and> inv_segment_shared_access_eq s
     \<and> inv_block_id_valid s \<and> inv_block_id_at_idx_uniq s \<and> heap_ids_thread_id1 s \<and> heap_ids_thread_id2 s
     \<and> inv_heap_shared_access s \<and> page_implies_segment_enabled s"


section \<open>They follow\<close>

lemma tls_Some [simp]: "thread_local_state s t = Some ts \<Longrightarrow> tls s t = ts"
  by (simp add: tls_def)

lemma pageof_Some [simp]: "ts_pages ts p = Some ps \<Longrightarrow> pageof ts p = ps"
  by (simp add: pageof_def)

lemma heap_parts:
  assumes ok: "mim_ok wf2 s"
  shows "inv_reserved s" "inv_reserved2 s" "inv_right_to_set_inst s" "inv_checked_threads s" "right_to_use_thread_complement s"
    "heap_of_thread_is_valid s" "wf_heap_shared_access_requires_inst s" "wf_heap_shared_access wf2 s"
    "heap_ids_thread_id1 s" "heap_ids_thread_id2 s" "inv_heap_shared_access s"
proof -
  note H = heaps_okD [OF mim_okD(5) [OF ok]]
  show "inv_reserved s" "inv_reserved2 s" "inv_right_to_set_inst s" "right_to_use_thread_complement s"
    unfolding inv_reserved_def inv_reserved2_def inv_right_to_set_inst_def right_to_use_thread_complement_def using H(1,5,6,8) by blast+
  show "inv_checked_threads s" unfolding inv_checked_threads_def using H(7) by (simp add: dom_def)
  show "heap_of_thread_is_valid s" "inv_heap_shared_access s" "heap_ids_thread_id1 s"
    unfolding heap_of_thread_is_valid_def inv_heap_shared_access_def heap_ids_thread_id1_def using H(9,10) by auto
  show "wf_heap_shared_access_requires_inst s" unfolding wf_heap_shared_access_requires_inst_def using H(2) by fastforce
  show "wf_heap_shared_access wf2 s" unfolding wf_heap_shared_access_def using H(2) by fastforce
  show "heap_ids_thread_id2 s" unfolding heap_ids_thread_id2_def using H(11) by fastforce
qed

lemma owner_parts:
  assumes ok: "mim_ok wf2 s"
  shows "inv_thread_of_segment1 s" "inv_thread_of_segment2 s" "inv_thread_has_segment_for_page s" "page_implies_segment_enabled s"
proof -
  note own = mim_okD(1) [OF ok] and sd = storedD [OF mim_okD(2) [OF ok]]
  have "thread_of_segment s g \<noteq> None \<and> the (thread_of_segment s g) = t" if a: "thread_local_state s t \<noteq> None" "ts_segments (tls s t) g \<noteq> None" for t g
  proof -
    obtain ts where t: "thread_local_state s t = Some ts" using a(1) by blast
    show ?thesis using ownedD(2) [OF own t, of g] a(2) unfolding tls_Some [OF t] by simp
  qed
  then show "inv_thread_of_segment1 s" unfolding inv_thread_of_segment1_def by blast
  have "thread_local_state s t \<noteq> None \<and> ts_segments (tls s t) g \<noteq> None" if a: "thread_of_segment s g = Some t" for t g
  proof -
    obtain ts where t: "thread_local_state s t = Some ts" "ts_segments ts g \<noteq> None" using ownedD(3) [OF own a] by blast
    then show ?thesis by simp
  qed
  then show "inv_thread_of_segment2 s" unfolding inv_thread_of_segment2_def by force
  have seg: "ts_segments (tls s t) (fst p) \<noteq> None \<and> ss_enabled (the (ts_segments (tls s t) (fst p)))"
    if a: "thread_local_state s t \<noteq> None" "ts_pages (tls s t) p \<noteq> None" for t p
  proof -
    obtain ts where t: "thread_local_state s t = Some ts" using a(1) by blast
    obtain ps where p: "ts_pages ts p = Some ps" using a(2) t by auto
    note G = thread_page [OF own t p]
    obtain ss where "sgs (thread_local_state s) (thread_of_segment s) (fst p) = Some ss" "ss_enabled ss" using sd(1) [OF G(1)] by blast
    then show ?thesis using G(4) t by simp
  qed
  then show "inv_thread_has_segment_for_page s" "page_implies_segment_enabled s"
    unfolding inv_thread_has_segment_for_page_def page_implies_segment_enabled_def by blast+
qed

lemma page_entry:
  assumes own: "owned (thread_local_state s) (thread_of_segment s)"
  shows "pgs (thread_local_state s) (thread_of_segment s) p = (if thread_of_segment s (fst p) = None then None
     else ts_pages (tls s (the (thread_of_segment s (fst p)))) p)"
    "sgs (thread_local_state s) (thread_of_segment s) g = (if thread_of_segment s g = None then None
     else ts_segments (tls s (the (thread_of_segment s g))) g)"
    "hps (thread_local_state s) (thread_of_segment s) g = (if thread_of_segment s g = None then None
     else Some (ts_heap_id (tls s (the (thread_of_segment s g)))))"
proof -
  have T: "\<exists>ts. thread_local_state s t = Some ts" if "thread_of_segment s h = Some t" for h t using ownedD(3) [OF own that] by blast
  show "pgs (thread_local_state s) (thread_of_segment s) p = (if thread_of_segment s (fst p) = None then None
     else ts_pages (tls s (the (thread_of_segment s (fst p)))) p)"
    using T [of "fst p"] by (auto simp: pgs_def owner_def)
  show "sgs (thread_local_state s) (thread_of_segment s) g = (if thread_of_segment s g = None then None
     else ts_segments (tls s (the (thread_of_segment s g))) g)"
    using T [of g] by (auto simp: sgs_def owner_def)
  show "hps (thread_local_state s) (thread_of_segment s) g = (if thread_of_segment s g = None then None
     else Some (ts_heap_id (tls s (the (thread_of_segment s g)))))"
    using T [of g] by (auto simp: hps_def owner_def)
qed

lemma stored_parts:
  assumes ok: "mim_ok wf2 s"
  shows "inv_page_shared_access_dom s" "inv_page_shared_access_eq s" "inv_segment_shared_access_dom s" "inv_segment_shared_access_eq s"
    "heap_of_page_is_correct s" "inv_thread_of_page1 s" "inv_thread_of_page2 s"
proof -
  note own = mim_okD(1) [OF ok] and sd = storedD [OF mim_okD(2) [OF ok]]
  note E = page_entry [OF own]
  show "inv_page_shared_access_dom s" "inv_page_shared_access_eq s"
    unfolding inv_page_shared_access_dom_def inv_page_shared_access_eq_def sd(2) E(1) Let_def pageof_def by (simp_all split: option.splits)
  show "inv_segment_shared_access_dom s" "inv_segment_shared_access_eq s"
    unfolding inv_segment_shared_access_dom_def inv_segment_shared_access_eq_def sd(3) E(2) Let_def by (simp_all split: option.splits)
  show "heap_of_page_is_correct s"
    unfolding heap_of_page_is_correct_def sd(4) E(1,3) by (simp split: option.splits)
  have T: "thread_local_state s t \<noteq> None" if "thread_of_segment s h = Some t" for h t using ownedD(3) [OF own that] by blast
  show "inv_thread_of_page2 s"
    unfolding inv_thread_of_page2_def sd(4) E(1,3) Let_def pageof_def using T by (auto split: option.splits if_splits)
  have "heap_of_page s p \<noteq> None \<and> ts_segments (tls s t) (fst p) \<noteq> None"
    if a: "thread_local_state s t \<noteq> None" "ts_pages (tls s t) p \<noteq> None" "ps_offset (pageof (tls s t) p) = 0" for t p
  proof -
    obtain ts where t: "thread_local_state s t = Some ts" using a(1) by blast
    obtain ps where p: "ts_pages ts p = Some ps" using a(2) t by auto
    show ?thesis using thread_page [OF own t p] sd(4) [of p] a(3) t p ownedD(4) [OF own t, of p] by simp
  qed
  then show "inv_thread_of_page1 s" unfolding inv_thread_of_page1_def by blast
qed

lemma window_parts:
  assumes ok: "mim_ok wf2 s"
  shows "inv_heap_of_page_delay s" "inv_delay_state s" "inv_delay_actor s" "inv_delay_actor_sub s" "inv_no_delay_actor_for_checked s"
proof -
  note own = mim_okD(1) [OF ok] and w = windowsD [OF mim_okD(4) [OF ok]]
  show "inv_heap_of_page_delay s" unfolding inv_heap_of_page_delay_def using w(1) by (simp add: dom_def)
  have "inv_delay_state_for_page s p" if "delay s p = Some d" for p d
    using w(2,3) [of p] that by (cases d) (simp_all add: inv_delay_state_for_page_def)
  then show "inv_delay_state s" unfolding inv_delay_state_def by blast
  have "delay s p \<noteq> None" if "delay_actor s p \<noteq> None" for p using w(2) [of p] that by simp
  then show "inv_delay_actor_sub s" unfolding inv_delay_actor_sub_def by blast
  have "inv_delay_actor_for_page s p" if a: "delay_actor s p = Some x" for p x
  proof -
    obtain ps where ps: "pgs (thread_local_state s) (thread_of_segment s) p = Some ps" "ps_enabled ps" using w(4) [OF a] by blast
    obtain t ts where t: "thread_of_segment s (fst p) = Some t" "thread_local_state s t = Some ts" "ts_pages ts p = Some ps"
      by (rule pgsE [OF own ps(1)])
    show ?thesis
    proof (cases x)
      case HeapUnknown
      then show ?thesis using a t ps(2) by (simp add: inv_delay_actor_for_page_def)
    next
      case (Heap h hsa psa)
      note a' = a [unfolded Heap]
      have "\<exists>u. heap_to_thread s h = Some u \<and> thread_of_segment s (fst p) = Some u" by (rule heap_of_owner(2) [OF ok w(5) [OF a']])
      then have "heap_to_thread s h = Some t" using t(1) by simp
      then show ?thesis using a' t ps(2) w(6) [OF a'] w(7) [OF a' ps(1)] by (simp add: inv_delay_actor_for_page_def)
    qed
  qed
  then show "inv_delay_actor s" unfolding inv_delay_actor_def by blast
  have "ps_num_blocks (pageof (tls s t) p) = 0 \<and> delay_actor s p = None"
    if a: "thread_local_state s t \<noteq> None" "ts_pages (tls s t) p \<noteq> None" "p \<in> cs_pages (the (thread_checked_state s t))" for t p
  proof -
    obtain ts where t: "thread_local_state s t = Some ts" using a(1) by blast
    obtain ps where p: "ts_pages ts p = Some ps" using a(2) t by auto
    obtain cs where c: "thread_checked_state s t = Some cs" using heaps_okD(7) [OF mim_okD(5) [OF ok], of t] t by (cases "thread_checked_state s t") auto
    note G = thread_page [OF own t p]
    have "checked (thread_of_segment s) (thread_checked_state s) p" using G(2) c a(3) by (simp add: checked_def)
    then show ?thesis using w(8,9) [OF _ G(1)] t p by simp
  qed
  then show "inv_no_delay_actor_for_checked s" unfolding inv_no_delay_actor_for_checked_def by blast
qed

lemma block_parts:
  assumes ok: "mim_ok wf2 s"
  shows "inv_block_id_valid s" "inv_block_id_at_idx_uniq s"
proof -
  have "inv_block_id_valid_for_block s b" if b: "block s b = Some bs" for b bs
    by (rule block_owner [OF ok b]) (simp add: inv_block_id_valid_for_block_def b)
  then show "inv_block_id_valid s" unfolding inv_block_id_valid_def by blast
  show "inv_block_id_at_idx_uniq s" unfolding inv_block_id_at_idx_uniq_def using blocks_outD(2) [OF mim_okD(3) [OF ok]] by blast
qed

lemma mim_ok_invariant: "mim_ok wf2 s \<Longrightarrow> mim_invariant wf2 s"
  unfolding mim_invariant_def
  by (intro conjI heap_parts owner_parts stored_parts window_parts block_parts)

end
