(* ===== verification/Mim_Props.thy ===== *)
theory Mim_Props
  imports Mim_Spec
begin

text \<open>
  What holds of \<open>Mim\<close> in every reachable state: no fact a transition or a property claims is false, every
  invariant the source declares is true, the headers a block leads to stay while the block is out, and a
  thread that has got back the blocks of a page can give the page back.
\<close>

section \<open>Steps\<close>

lemmas guard_defs = require_def claim_def Let_def

lemmas mim_step_defs = set_inst_def actor_make_idle_def actor_abandon_def set_use_delayed_free_def delay_enter_freeing_def
  delay_leave_freeing_def delay_lookup_heap_def reserve_uniq_identifier_def create_thread_mk_tokens_def create_segment_mk_tokens_def
  segment_enable_def create_page_mk_tokens_def page_enable_def page_check_delay_state_def page_disable_def page_destroy_tokens_def
  block_tokens_distinct_retain_def block_in_range_def

lemma mim_runs_reach: "mim_reach wf2 s \<Longrightarrow> run_steps (mim_exec wf2) as s = Next s' \<Longrightarrow> mim_reach wf2 s'"
  by (rule run_steps_keep [where R = "mim_reach wf2"]) (rule mim_step)

text \<open>No step changes what a block that stays out leads to.\<close>

lemma block_kept:
  assumes "mim_exec wf2 a s = Next s'" "block s b = Some bs" "block s' b = Some bs'"
  shows "bs_page bs' = bs_page bs \<and> bs_slice bs' = bs_slice bs \<and> bs_segment bs' = bs_segment bs"
proof (cases "block s' = block s")
  case True
  then show ?thesis using assms by simp
next
  case False
  show ?thesis
  proof (cases a)
    case (BlockSetHeapId c)
    then show ?thesis using assms
      by (auto simp: block_set_heap_id_def guard_defs split: option.splits DelayFreeingActor.splits if_splits)
  next
    case (MkBlocks t p i j sz)
    have d: "dom (block s) \<inter> dom m = {} \<Longrightarrow> m b = None" for m :: "BlockId \<rightharpoonup> ('a, 'b) BlockState" using assms(2) by blast
    show ?thesis using assms unfolding MkBlocks mim_exec.simps page_mk_block_tokens_def guard_defs
      by (simp split: if_splits) (use d in \<open>fastforce simp: map_add_def split: if_splits\<close>)
  next
    case (DestroyBlocks t p bs)
    then show ?thesis using assms by (auto simp: page_destroy_block_tokens_def guard_defs restrict_map_def split: if_splits)
  next
    case (BlocksDistinct c d)
    then show ?thesis using assms(1) by (simp add: block_tokens_distinct_def guard_defs split: if_splits)
  qed (use assms(1) False in \<open>auto simp: mim_step_defs guard_defs put_tls_def split: if_splits\<close>)
qed

text \<open>The headers a block leads to are the ones its token names.\<close>

lemma block_guards:
  assumes ok: "mim_ok wf2 s" and b: "block s b = Some bs"
  shows "page_shared_access s (bi_page b) = Some (bs_page bs)" "page_shared_access s (page_id_for_slice b) = Some (bs_slice bs)"
    "segment_shared_access s (fst (bi_page b)) = Some (bs_segment bs)"
  using query_holds [OF ok, of "BlockPage b"] query_holds [OF ok, of "BlockSlice b"] query_holds [OF ok, of "BlockSegment b"] b
  by (simp_all add: alloc_guards_page_shared_access_def alloc_guards_page_slice_shared_access_def
      alloc_guards_segment_shared_access_def holds_require holds_claim)

text \<open>
  A thread gives a page back: it hands in the tokens of the blocks, looks at the word of delayed frees,
  takes the headers and drops the page.
\<close>

definition own_span :: "('sa, 'pa, 'ha, 'i) Mim \<Rightarrow> ThreadId \<Rightarrow> page_id \<Rightarrow> nat \<Rightarrow> bool" where
  "own_span s t p n \<longleftrightarrow> thread_local_state s t \<noteq> None \<and> 1 \<le> n
     \<and> (\<forall>i<n. \<exists>ps. ts_pages (tls s t) (fst p, snd p + i) = Some ps \<and> ps_enabled ps \<and> ps_offset ps = int i)"

lemma own_spanD:
  assumes "own_span s t p n"
  shows "thread_local_state s t \<noteq> None" "1 \<le> n" "p \<in> range_from p 0 n"
    "q \<in> range_from p 0 n \<Longrightarrow> \<exists>ps. ts_pages (tls s t) q = Some ps \<and> ps_enabled ps \<and> ps_offset ps = int (snd q) - int (snd p)"
proof -
  show "thread_local_state s t \<noteq> None" "1 \<le> n" using assms by (simp_all add: own_span_def)
  then show "p \<in> range_from p 0 n" by (cases p) (simp add: range_from_def page_id_range_def)
  assume "q \<in> range_from p 0 n"
  then obtain i where i: "q = (fst p, snd p + i)" "i < n"
    by (cases q) (auto simp: range_from_def page_id_range_def intro!: that [of "snd q - snd p"])
  then show "\<exists>ps. ts_pages (tls s t) q = Some ps \<and> ps_enabled ps \<and> ps_offset ps = int (snd q) - int (snd p)"
    using assms by (fastforce simp: own_span_def)
qed

lemma page_blocks_finite:
  assumes ok: "mim_ok wf2 s"
  shows "finite {b. block s b \<noteq> None \<and> bi_page b = p}" (is "finite ?B")
proof (rule inj_on_finite)
  note B = blocks_outD [OF mim_okD(3) [OF ok]]
  show "inj_on bi_idx ?B" using B(2) by (auto intro!: inj_onI)
  show "bi_idx ` ?B \<subseteq> {..<ps_num_blocks (the (pgs (thread_local_state s) (thread_of_segment s) p))}"
  proof (rule image_subsetI)
    fix b assume "b \<in> ?B"
    then obtain bs where b: "block s b = Some bs" "bi_page b = p" by blast
    show "bi_idx b \<in> {..<ps_num_blocks (the (pgs (thread_local_state s) (thread_of_segment s) p))}"
      by (rule block_fitsE [OF B(1) [OF b(1)]]) (use b(2) in simp)
  qed
qed simp

lemma hand_in_blocks:
  assumes ok: "mim_ok wf2 s" and own: "own_span s t p n"
    and num: "card {b. block s b \<noteq> None \<and> bi_page b = p} = ps_num_blocks (pageof (tls s t) p)"
  obtains s' where "mim_exec wf2 (DestroyBlocks t p (block s |` {b. bi_page b = p})) s = Next s'" "mim_ok wf2 s'" "own_span s' t p n"
    "ps_num_blocks (pageof (tls s' t) p) = 0" "delay s' = delay s" "block s' = block s |` {b. bi_page b \<noteq> p}"
    "page_shared_access s' = page_shared_access s" "\<And>q. q \<noteq> p \<Longrightarrow> ts_pages (tls s' t) q = ts_pages (tls s t) q"
proof -
  let ?m = "block s |` {b. bi_page b = p}" and ?a = "DestroyBlocks t p (block s |` {b. bi_page b = p})"
  note D = own_spanD [OF own]
  obtain ts where t: "thread_local_state s t = Some ts" using D(1) by blast
  obtain ps where p: "ts_pages ts p = Some ps" using D(4) [OF D(3)] t by auto
  note fin = page_blocks_finite [OF ok, of p]
  have d: "dom ?m = {b. block s b \<noteq> None \<and> bi_page b = p}" by (auto simp: restrict_map_def split: if_splits)
  have m: "?m \<subseteq>\<^sub>m block s" unfolding map_le_def by (auto simp: restrict_map_def split: if_splits)
  have r: "block s |` (- {b. block s b \<noteq> None \<and> bi_page b = p}) = block s |` {b. bi_page b \<noteq> p}" by (rule ext) (auto simp: restrict_map_def)
  have e: "mim_exec wf2 ?a s = Next ((put_tls t (ts\<lparr>ts_pages := (ts_pages ts)(p \<mapsto> ps\<lparr>ps_num_blocks := 0\<rparr>)\<rparr>) s)\<lparr>
       block := block s |` {b. bi_page b \<noteq> p}\<rparr>)" (is "_ = Next ?s")
    using fin num t p m unfolding mim_exec.simps page_destroy_block_tokens_def d guard_defs by (simp add: r [simplified])
  moreover have "mim_ok wf2 ?s" by (rule ownership.next_ok [OF ok e])
  moreover have "own_span ?s t p n" using own t p by (auto simp: own_span_def put_tls_def tls_def)
  ultimately show thesis by (rule that) (simp_all add: put_tls_def tls_def pageof_def t)
qed

lemma page_words:
  assumes ok: "mim_ok wf2 s" and own: "own_span s t p n"
  shows "heap_of_page s p \<noteq> None" "delay s p \<noteq> None" "thread_checked_state s t \<noteq> None"
    "q \<in> range_from p 0 n \<Longrightarrow> page_shared_access s q = Some (ps_shared (pageof (tls s t) q))"
proof -
  note D = own_spanD [OF own]
  obtain ps where "ts_pages (tls s t) p = Some ps" "ps_offset ps = int (snd p) - int (snd p)" using D(4) [OF D(3)] by blast
  then have "ts_pages (tls s t) p \<noteq> None \<and> ps_offset (pageof (tls s t) p) = 0" by (simp add: pageof_def)
  then show "heap_of_page s p \<noteq> None" using stored_parts(6) [OF ok] D(1) unfolding inv_thread_of_page1_def by blast
  then show "delay s p \<noteq> None" using window_parts(1) [OF ok] unfolding inv_heap_of_page_delay_def by blast
  show "thread_checked_state s t \<noteq> None" using heap_parts(4) [OF ok] D(1) unfolding inv_checked_threads_def by blast
  assume "q \<in> range_from p 0 n"
  then obtain ps where "ts_pages (tls s t) q = Some ps" "ps_enabled ps" using D(4) by blast
  then show "page_shared_access s q = Some (ps_shared (pageof (tls s t) q))"
    using query_holds [OF ok, of "ThreadPage t q"] D(1)
    by (simp add: thread_local_state_guards_page_def holds_require holds_claim pageof_def)
qed

lemma check_empty_page:
  assumes ok: "mim_ok wf2 s" and own: "own_span s t p n" and num: "ps_num_blocks (pageof (tls s t) p) = 0" and d: "delay s p \<noteq> Some Freeing"
  obtains cs where "mim_exec wf2 (CheckDelayState t p) s = Next (s\<lparr>thread_checked_state := (thread_checked_state s)(t \<mapsto> cs)\<rparr>)"
    "p \<in> cs_pages cs"
proof -
  note D = own_spanD [OF own] and W = page_words [OF ok own]
  have "ts_pages (tls s t) p \<noteq> None" "the (delay s p) \<noteq> Freeing" using D(4) [OF D(3)] d W(2) by auto
  then have "mim_exec wf2 (CheckDelayState t p) s
     = Next (s\<lparr>thread_checked_state := (thread_checked_state s)(t \<mapsto> \<lparr>cs_pages = insert p (cs_pages (the (thread_checked_state s t)))\<rparr>)\<rparr>)"
    unfolding mim_exec.simps page_check_delay_state_def guard_defs using D(1) W num by (simp only: simp_thms if_True not_False_eq_True)
  then show thesis by (rule that) simp
qed

lemma disable_page:
  assumes ok: "mim_ok wf2 s" and own: "own_span s t p n" and num: "ps_num_blocks (pageof (tls s t) p) = 0"
    and c: "thread_checked_state s t = Some cs" "p \<in> cs_pages cs"
  obtains s' ts' where "mim_exec wf2 (PageDisable t p n) s = Next s'" "thread_local_state s' t = Some ts'"
    "page_shared_access s' = page_shared_access s |` (- range_from p 0 n)"
    "heap_of_page s' = heap_of_page s" "delay s' = delay s" "block s' = block s"
    "\<And>q. ts_pages ts' q = (if q \<in> range_from p 0 n then Some ((pageof (tls s t) q)\<lparr>ps_enabled := False\<rparr>) else ts_pages (tls s t) q)"
proof -
  let ?R = "range_from p 0 n" and ?ts = "tls s t"
  let ?d = "\<lambda>q. if q \<in> ?R then Some ((pageof ?ts q)\<lparr>ps_enabled := False\<rparr>) else None"
  let ?s = "(put_tls t (?ts\<lparr>ts_pages := ts_pages ?ts ++ ?d\<rparr>) s)\<lparr>page_shared_access := page_shared_access s |` (- ?R)\<rparr>"
  note D = own_spanD [OF own] and W = page_words [OF ok own]
  have R: "ts_pages ?ts q \<noteq> None \<and> ps_enabled (pageof ?ts q) \<and> ps_offset (pageof ?ts q) = int (snd q) - int (snd p)" if "q \<in> ?R" for q
    using D(4) [OF that] by (auto simp: pageof_def)
  then have S: "?R \<subseteq> dom (ts_pages ?ts)" and B: "\<forall>q\<in>?R. ts_pages ?ts q \<noteq> None \<and> ps_enabled (pageof ?ts q)
      \<and> ps_offset (pageof ?ts q) = int (snd q) - int (snd p)" by blast+
  have m: "(\<lambda>q. if q \<in> ?R then Some (ps_shared (pageof ?ts q)) else None) \<subseteq>\<^sub>m page_shared_access s"
    unfolding map_le_def using W(4) by (auto split: if_splits)
  have c': "thread_checked_state s t \<noteq> None" "p \<in> cs_pages (the (thread_checked_state s t))" using c by simp_all
  have e: "mim_exec wf2 (PageDisable t p n) s = Next ?s"
    unfolding mim_exec.simps page_disable_def guard_defs if_P [OF B]
    using D(1) R [OF D(3)] S m num c' by (simp only: simp_thms if_True not_False_eq_True)
  show thesis
    by (rule that [OF e, of "?ts\<lparr>ts_pages := ts_pages ?ts ++ ?d\<rparr>"]) (simp_all add: put_tls_def map_add_def)
qed

lemma destroy_page:
  assumes t: "thread_local_state s t \<noteq> None" and n: "1 \<le> n" and w: "heap_of_page s p \<noteq> None" "delay s p \<noteq> None"
    and r: "\<And>q. q \<in> range_from p 0 n \<Longrightarrow> \<exists>ps. ts_pages (tls s t) q = Some ps \<and> \<not> ps_enabled ps \<and> (p \<noteq> q \<longrightarrow> ps_offset ps \<noteq> 0)"
  obtains s' ts' where "mim_exec wf2 (PageDestroy t p n) s = Next s'" "thread_local_state s' t = Some ts'"
    "ts_pages ts' = ts_pages (tls s t) |` (- range_from p 0 n)" "page_shared_access s' = page_shared_access s"
    "heap_of_page s' = (heap_of_page s)(p := None)" "delay s' = (delay s)(p := None)" "block s' = block s"
proof -
  let ?R = "range_from p 0 n" and ?ts = "tls s t"
  let ?s = "(put_tls t (?ts\<lparr>ts_pages := ts_pages ?ts |` (- ?R)\<rparr>) s)\<lparr>heap_of_page := (heap_of_page s)(p := None), delay := (delay s)(p := None)\<rparr>"
  have B: "?R \<subseteq> dom (ts_pages ?ts)" "\<forall>q\<in>?R. \<not> ps_enabled (pageof ?ts q)" "\<forall>q\<in>?R. p \<noteq> q \<longrightarrow> ps_offset (pageof ?ts q) \<noteq> 0"
    using r by (fastforce simp: pageof_def)+
  have e: "mim_exec wf2 (PageDestroy t p n) s = Next ?s"
    unfolding mim_exec.simps page_destroy_tokens_def guard_defs if_P [OF B(2)] if_P [OF B(3)]
    using t n w B(1) by (simp only: simp_thms if_True not_False_eq_True)
  show thesis by (rule that [OF e, of "?ts\<lparr>ts_pages := ts_pages ?ts |` (- ?R)\<rparr>"]) (simp_all add: put_tls_def)
qed


section \<open>A run\<close>

text \<open>A thread gets a heap, a segment and a page of one slice with one block of eight bytes.\<close>

definition ex_heap :: HeapId where
  "ex_heap = \<lparr>heap_nr = 1, heap_uniq = 1\<rparr>"

definition ex_segment :: SegmentId where
  "ex_segment = \<lparr>seg_nr = 1, seg_uniq = 1\<rparr>"

definition ex_block :: BlockId where
  "ex_block = \<lparr>bi_page = (ex_segment, 1), bi_idx = 0, bi_slice = 1, bi_size = 8\<rparr>"

definition ex_page :: "bool \<Rightarrow> nat \<Rightarrow> nat PageState" where
  "ex_page e n = \<lparr>ps_offset = 0, ps_block_size = 8, ps_num_blocks = n, ps_shared = 5, ps_enabled = e\<rparr>"

definition ex_thread :: "bool \<Rightarrow> nat \<Rightarrow> (nat, nat, nat) ThreadState" where
  "ex_thread made n = \<lparr>ts_heap_id = ex_heap, ts_heap = \<lparr>hs_shared = 7\<rparr>,
     ts_segments = (if made then [ex_segment \<mapsto> \<lparr>ss_shared = 3, ss_enabled = True\<rparr>] else Map.empty),
     ts_pages = (if made then [(ex_segment, 1) \<mapsto> ex_page True n] else Map.empty)\<rparr>"

definition ex_steps :: "(nat, nat, nat, unit) mim_step list" where
  "ex_steps = [SetInst (), ReserveUniq, CreateThread 1 (ex_thread False 0),
     MkSegment 1 \<lparr>seg_nr = 1, seg_uniq = 0\<rparr> \<lparr>ss_shared = 0, ss_enabled = False\<rparr>, SegmentEnable 1 ex_segment 3,
     MkPage 1 (ex_segment, 1) 1 8 [(ex_segment, 1) \<mapsto> ex_page False 0],
     PageEnable 1 (ex_segment, 1) 1 [(ex_segment, 1) \<mapsto> ex_page True 0] [(ex_segment, 1) \<mapsto> 5]]"

definition ex_state :: "nat \<Rightarrow> (BlockId \<rightharpoonup> (nat, nat) BlockState) \<Rightarrow> (nat, nat, nat, unit) Mim" where
  "ex_state n bs = \<lparr>right_to_set_inst = False, my_inst = Some (), right_to_use_thread = - {1},
     thread_local_state = [1 \<mapsto> ex_thread True n], thread_checked_state = [1 \<mapsto> \<lparr>cs_pages = {}\<rparr>],
     block = bs, thread_of_segment = [ex_segment \<mapsto> 1], delay = [(ex_segment, 1) \<mapsto> UseDelayedFree],
     heap_of_page = [(ex_segment, 1) \<mapsto> ex_heap], actor = Map.empty, delay_actor = Map.empty, segment_shared_access = [ex_segment \<mapsto> 3],
     page_shared_access = [(ex_segment, 1) \<mapsto> 5], heap_shared_access = [ex_heap \<mapsto> 7], reserved_uniq = {}, heap_to_thread = [ex_heap \<mapsto> 1]\<rparr>"

lemma ex_uniq: "heap_get_unused_uniq_field {} = 1" "segment_get_unused_uniq_field {} = 1"
  by (simp_all add: heap_get_unused_uniq_field_def heap_u_max_def segment_get_unused_uniq_field_def segment_u_max_def)

lemma ex_covers: "covers [(g, i) \<mapsto> ps] (g, i) (Suc 0) \<longleftrightarrow> ps_offset ps = 0"
  by (auto simp: covers_def page_id_range_def)

lemma ex_run: "run_steps (mim_exec (\<lambda>_ _ _. True)) ex_steps mim_initialize = Next (ex_state 0 Map.empty)"
  by (simp add: ex_steps_def mim_initialize_def mim_step_defs guard_defs put_tls_def tls_def pageof_def ex_uniq ex_covers
      mk_fresh_segment_id_def ex_thread_def ex_page_def ex_state_def ex_segment_def ex_heap_def Compl_eq_Diff_UNIV)

lemma ex_slice: "get_slice_idx (ex_segment, 1) 0 8 = 1"
  by (simp add: get_slice_idx_def layout_unat)

lemma ex_range: "range_block_ids 0 1 (ex_segment, 1) 8 = {ex_block}"
  using ex_slice by (simp add: range_block_ids_def ex_block_def)

definition ex_out :: "BlockId \<rightharpoonup> (nat, nat) BlockState" where
  "ex_out = [ex_block \<mapsto> \<lparr>bs_segment = 3, bs_page = 5, bs_slice = 5, bs_heap = None\<rparr>]"

lemma ex_mk: "mim_exec (\<lambda>_ _ _. True) (MkBlocks 1 (ex_segment, 1) 0 1 8) (ex_state 0 Map.empty) = Next (ex_state 1 ex_out)"
proof -
  have o: "okay_to_add_block (ex_thread True 0) (ex_segment, 1) 0 8"
    using ex_slice by (simp add: okay_to_add_block_def ex_thread_def pageof_def ex_page_def)
  have b: "(\<lambda>b. if b = ex_block then Some \<lparr>bs_segment = 3, bs_page = 5,
      bs_slice = ps_shared (pageof (ex_thread True 0) (page_id_for_slice b)), bs_heap = None\<rparr> else None) = ex_out"
    by (rule ext) (simp add: ex_out_def page_id_for_slice_def ex_block_def ex_thread_def pageof_def ex_page_def)
  have p: "ts_pages (ex_thread True 0) (ex_segment, 1) = Some (ex_page True 0)" "pageof (ex_thread True 0) (ex_segment, 1) = ex_page True 0"
    "ps_enabled (ex_page True 0)" "ps_num_blocks (ex_page True 0) = 0" "ps_block_size (ex_page True 0) = 8" "ps_offset (ex_page True 0) = 0"
    "ps_shared (ex_page True 0) = 5"
    by (simp_all add: ex_thread_def pageof_def ex_page_def)
  have e: "tls (ex_state 0 Map.empty) 1 = ex_thread True 0" "thread_local_state (ex_state 0 Map.empty) 1 \<noteq> None"
    "thread_checked_state (ex_state 0 Map.empty) 1 = Some \<lparr>cs_pages = {}\<rparr>" "block (ex_state 0 Map.empty) = Map.empty"
    "segment_shared_access (ex_state 0 Map.empty) ex_segment = Some 3"
    by (simp_all add: ex_state_def tls_def)
  have "\<forall>i\<in>{0..<1}. okay_to_add_block (ex_thread True 0) (ex_segment, 1) i 8" using o by simp
  then show ?thesis
    unfolding mim_exec.simps page_mk_block_tokens_def guard_defs ex_range e p singleton_iff fst_conv option.sel b
    by (simp add: p ex_state_def put_tls_def) (simp add: ex_thread_def ex_page_def)
qed

lemma ex_reach: "mim_reach (\<lambda>_ _ _. True) (ex_state 0 Map.empty)" "mim_reach (\<lambda>_ _ _. True) (ex_state 1 ex_out)"
  using mim_runs_reach [OF mim_init ex_run] mim_step [OF _ ex_mk] by blast+


text \<open>Another thread is about to put the block on the delayed list.\<close>

definition ex_window :: "(nat, nat, nat, unit) Mim" where
  "ex_window = (ex_state 1 ex_out)\<lparr>delay := [(ex_segment, 1) \<mapsto> Freeing], delay_actor := [(ex_segment, 1) \<mapsto> HeapUnknown]\<rparr>"

lemma ex_enter: "mim_exec (\<lambda>_ _ _. True) (DelayEnterFreeing (ex_segment, 1) ex_block) (ex_state 1 ex_out) = Next ex_window"
  by (simp add: delay_enter_freeing_def guard_defs ex_state_def ex_out_def ex_window_def ex_block_def)

lemma ex_out_at: "ex_out b = (if b = ex_block then Some \<lparr>bs_segment = 3, bs_page = 5, bs_slice = 5, bs_heap = None\<rparr> else None)"
  by (simp add: ex_out_def)

lemma ex_own: "own_span (ex_state 1 ex_out) 1 (ex_segment, 1) 1"
  by (simp add: own_span_def ex_state_def tls_def ex_thread_def ex_page_def)

lemma ex_card: "card {b. block (ex_state 1 ex_out) b \<noteq> None \<and> bi_page b = (ex_segment, 1)} = ps_num_blocks (pageof (tls (ex_state 1 ex_out) 1) (ex_segment, 1))"
proof -
  have "{b. block (ex_state 1 ex_out) b \<noteq> None \<and> bi_page b = (ex_segment, 1)} = {ex_block}"
    by (auto simp: ex_state_def ex_out_at ex_block_def)
  then show ?thesis by (simp add: ex_state_def tls_def ex_thread_def pageof_def ex_page_def)
qed


section \<open>Properties\<close>

text \<open>
  C14. In a reachable state of \<open>Mim\<close> no transition and no property claims a false fact: what is added is new,
  what is withdrawn is there, no two tokens are of one block, a token leads to the headers of its page, its
  slice and its segment, and a thread in the window of a delayed free to those of the heap and the page.
\<close>

theorem mim_claims_hold:
  assumes "mim_reach wf2 s"
  shows "mim_exec wf2 a s \<noteq> Violated \<and> mim_ask q s \<in> {Disabled, Next s}"
  using ownership.not_violated [OF mim_reach_ok [OF assms], of a] query_holds [OF mim_reach_ok [OF assms], of q]
  by (cases "mim_ask q s") auto

theorem mim_claims_hold_witness:
  "mim_reach (\<lambda>_ _ _. True) (ex_state 1 ex_out)
   \<and> mim_exec (\<lambda>_ _ _. True) (PageDisable 1 (ex_segment, 1) 1) (ex_state 1 ex_out) \<noteq> Violated
   \<and> mim_ask (BlockPage ex_block) (ex_state 1 ex_out) \<in> {Disabled, Next (ex_state 1 ex_out)}"
  using ex_reach(2) mim_claims_hold [OF ex_reach(2), of "PageDisable 1 (ex_segment, 1) 1" "BlockPage ex_block"] by blast

text \<open>C15. Every invariant the source declares for \<open>Mim\<close> is true in every reachable state.\<close>

theorem mim_invariant_holds:
  assumes "mim_reach wf2 s"
  shows "mim_invariant wf2 s"
  by (rule mim_ok_invariant [OF mim_reach_ok [OF assms]])

theorem mim_invariant_holds_witness:
  "mim_invariant (\<lambda>_ _ _. True) ex_window \<and> delay_actor ex_window (ex_segment, 1) \<noteq> None"
  using mim_invariant_holds [OF mim_step [OF ex_reach(2) ex_enter]] by (simp add: ex_window_def)

text \<open>
  C16. While the token of a block is out, no step of any thread changes or takes away the headers of the page
  of the block, of the slice it is in and of its segment: a thread that frees the block can read them.
\<close>

theorem block_headers_stable:
  assumes "mim_reach wf2 s" "mim_exec wf2 a s = Next s'" "block s b \<noteq> None" "block s' b \<noteq> None"
  shows "page_shared_access s' (bi_page b) = page_shared_access s (bi_page b) \<and> page_shared_access s (bi_page b) \<noteq> None
    \<and> page_shared_access s' (page_id_for_slice b) = page_shared_access s (page_id_for_slice b)
    \<and> page_shared_access s (page_id_for_slice b) \<noteq> None
    \<and> segment_shared_access s' (fst (bi_page b)) = segment_shared_access s (fst (bi_page b))
    \<and> segment_shared_access s (fst (bi_page b)) \<noteq> None"
proof -
  obtain bs bs' where b: "block s b = Some bs" "block s' b = Some bs'" using assms(3,4) by blast
  show ?thesis using block_guards [OF mim_reach_ok [OF assms(1)] b(1)] block_kept [OF assms(2) b]
      block_guards [OF mim_reach_ok [OF mim_step [OF assms(1,2)]] b(2)] by simp
qed

theorem block_headers_stable_witness:
  "page_shared_access ex_window (bi_page ex_block) = page_shared_access (ex_state 1 ex_out) (bi_page ex_block)
   \<and> page_shared_access (ex_state 1 ex_out) (bi_page ex_block) \<noteq> None"
  using block_headers_stable [OF ex_reach(2) ex_enter, of ex_block] by (simp add: ex_window_def ex_state_def ex_out_at)

text \<open>
  C17. A thread that has all blocks of a page of its own back, with no thread in the window of a delayed
  free, can give the page back: the tokens are destroyed, the delay state is looked at, the headers are taken
  and the page is dropped, and nothing of it is left.
\<close>

theorem page_given_back:
  assumes "mim_reach wf2 s" "own_span s t p n"
    and num: "card {b. block s b \<noteq> None \<and> bi_page b = p} = ps_num_blocks (pageof (tls s t) p)" and d: "delay s p \<noteq> Some Freeing"
  shows "\<exists>s'. run_steps (mim_exec wf2) [DestroyBlocks t p (block s |` {b. bi_page b = p}), CheckDelayState t p, PageDisable t p n,
        PageDestroy t p n] s = Next s'
    \<and> ts_pages (tls s' t) = ts_pages (tls s t) |` (- range_from p 0 n)
    \<and> page_shared_access s' = page_shared_access s |` (- range_from p 0 n)
    \<and> heap_of_page s' p = None \<and> delay s' p = None \<and> block s' = block s |` {b. bi_page b \<noteq> p}"
proof -
  let ?R = "range_from p 0 n"
  obtain s1 where s1: "mim_exec wf2 (DestroyBlocks t p (block s |` {b. bi_page b = p})) s = Next s1" "mim_ok wf2 s1" "own_span s1 t p n"
    "ps_num_blocks (pageof (tls s1 t) p) = 0" "delay s1 = delay s" "block s1 = block s |` {b. bi_page b \<noteq> p}"
    "page_shared_access s1 = page_shared_access s" "\<And>q. q \<noteq> p \<Longrightarrow> ts_pages (tls s1 t) q = ts_pages (tls s t) q"
    by (rule hand_in_blocks [OF mim_reach_ok [OF assms(1)] assms(2) num]) blast
  have "delay s1 p \<noteq> Some Freeing" using d s1(5) by simp
  then obtain cs where cs: "mim_exec wf2 (CheckDelayState t p) s1 = Next (s1\<lparr>thread_checked_state := (thread_checked_state s1)(t \<mapsto> cs)\<rparr>)"
    (is "_ = Next ?s2") "p \<in> cs_pages cs" using check_empty_page [OF s1(2-4)] by metis
  have ok: "mim_ok wf2 ?s2" by (rule ownership.next_ok [OF s1(2) cs(1)])
  have own: "own_span ?s2 t p n" using s1(3) by (simp add: own_span_def tls_def)
  have num2: "ps_num_blocks (pageof (tls ?s2 t) p) = 0" "thread_checked_state ?s2 t = Some cs" using s1(4) by (simp_all add: tls_def)
  obtain s3 ts where s3: "mim_exec wf2 (PageDisable t p n) ?s2 = Next s3" "thread_local_state s3 t = Some ts"
    "page_shared_access s3 = page_shared_access ?s2 |` (- ?R)" "heap_of_page s3 = heap_of_page ?s2" "delay s3 = delay ?s2" "block s3 = block ?s2"
    "\<And>q. ts_pages ts q = (if q \<in> ?R then Some ((pageof (tls ?s2 t) q)\<lparr>ps_enabled := False\<rparr>) else ts_pages (tls ?s2 t) q)"
    by (rule disable_page [OF ok own num2 cs(2)]) blast
  have r: "\<exists>ps. ts_pages (tls s3 t) q = Some ps \<and> \<not> ps_enabled ps \<and> (p \<noteq> q \<longrightarrow> ps_offset ps \<noteq> 0)" if q: "q \<in> ?R" for q
  proof -
    obtain ps where "ts_pages (tls ?s2 t) q = Some ps" "ps_offset ps = int (snd q) - int (snd p)" using own_spanD(4) [OF own q] by blast
    moreover have "fst q = fst p" by (rule range_fromD(1) [OF q])
    ultimately show ?thesis using s3(7) [of q] q s3(2) by (cases p; cases q) (simp add: pageof_def)
  qed
  have w: "thread_local_state s3 t \<noteq> None" "heap_of_page s3 p \<noteq> None" "delay s3 p \<noteq> None"
    unfolding s3(4,5) using s3(2) page_words(1,2) [OF ok own] by simp_all
  obtain s4 us where s4: "mim_exec wf2 (PageDestroy t p n) s3 = Next s4" "thread_local_state s4 t = Some us"
    "ts_pages us = ts_pages (tls s3 t) |` (- ?R)" "page_shared_access s4 = page_shared_access s3"
    "heap_of_page s4 = (heap_of_page s3)(p := None)" "delay s4 = (delay s3)(p := None)" "block s4 = block s3"
    by (rule destroy_page [OF w(1) own_spanD(2) [OF own] w(2,3) r]) blast+
  have "ts_pages (tls s4 t) = ts_pages (tls s t) |` (- ?R)"
  proof
    fix q
    have "p \<in> ?R" by (rule own_spanD(3) [OF own])
    then show "ts_pages (tls s4 t) q = (ts_pages (tls s t) |` (- ?R)) q"
      using s4(2,3) s3(2) s3(7) [of q] s1(8) [of q] by (cases "q \<in> ?R"; cases "q = p") (simp_all add: tls_def)
  qed
  then show ?thesis using s1 cs s3 s4 by simp
qed

theorem page_given_back_witness:
  "\<exists>s'. run_steps (mim_exec (\<lambda>_ _ _. True)) [DestroyBlocks 1 (ex_segment, 1) (block (ex_state 1 ex_out) |` {b. bi_page b = (ex_segment, 1)}),
      CheckDelayState 1 (ex_segment, 1), PageDisable 1 (ex_segment, 1) 1, PageDestroy 1 (ex_segment, 1) 1] (ex_state 1 ex_out) = Next s'
    \<and> heap_of_page s' (ex_segment, 1) = None"
  using page_given_back [OF ex_reach(2) ex_own ex_card] by (auto simp: ex_state_def)

end
