(* ===== verification/Header_Frame.thy ===== *)
theory Header_Frame
  imports Segment_Props
begin

text \<open>
  What \<^verbatim>\<open>segment.rs\<close> does to the fields of a page header that belong to the page layer: the three
  lists, the counters and the flags of a page. An operation either leaves them as they are or
  the header is clean afterwards, so a header that is clean stays so until its page is
  initialised. This is why \<^verbatim>\<open>page_init\<close> can leave most fields alone.
\<close>

section \<open>Clean headers\<close>

definition clean :: "Page \<Rightarrow> bool" where
  "clean pg \<longleftrightarrow> capacity (inner pg) = 0 \<and> reserved (inner pg) = 0 \<and> flags1 (inner pg) = 0 \<and> free (inner pg) = 0
     \<and> used (inner pg) = 0 \<and> local_free (inner pg) = 0 \<and> xthread_free pg = 0"

definition life :: "Page \<Rightarrow> u16 \<times> u16 \<times> u8 \<times> usize \<times> u32 \<times> usize \<times> usize" where
  "life pg = (capacity (inner pg), reserved (inner pg), flags1 (inner pg), free (inner pg), used (inner pg),
     local_free (inner pg), xthread_free pg)"

lemma clean_life: "life pg' = life pg \<Longrightarrow> clean pg' = clean pg"
  by (simp add: life_def clean_def)

lemma clean_zeroed: "clean zeroed_page"
  by (simp add: clean_def zeroed_page_def zeroed_inner_def)

definition keeps_life :: "st \<Rightarrow> st \<Rightarrow> bool" where
  "keeps_life s s' \<longleftrightarrow> sys_calls s \<le> sys_calls s' \<and> dom (page_at s) \<subseteq> dom (page_at s')
     \<and> (\<forall>x pg'. page_at s' x = Some pg' \<longrightarrow> clean pg' \<or> (\<exists>pg. page_at s x = Some pg \<and> life pg' = life pg))"

lemma keeps_life_refl: "page_at s' = page_at s \<Longrightarrow> sys_calls s \<le> sys_calls s' \<Longrightarrow> keeps_life s s'"
  by (auto simp: keeps_life_def)

lemma keeps_life_trans:
  assumes "keeps_life s s1" "keeps_life s1 s2"
  shows "keeps_life s s2"
proof -
  have "clean pg2 \<or> (\<exists>pg. page_at s x = Some pg \<and> life pg2 = life pg)" if x: "page_at s2 x = Some pg2" for x pg2
  proof -
    have "clean pg2 \<or> (\<exists>pg. page_at s1 x = Some pg \<and> life pg2 = life pg)" using assms(2) x by (simp add: keeps_life_def)
    then show ?thesis
    proof
      assume "\<exists>pg. page_at s1 x = Some pg \<and> life pg2 = life pg"
      then obtain pg1 where 1: "page_at s1 x = Some pg1" "life pg2 = life pg1" by blast
      then have "clean pg1 \<or> (\<exists>pg. page_at s x = Some pg \<and> life pg1 = life pg)" using assms(1) by (simp add: keeps_life_def)
      then show ?thesis using 1(2) clean_life [of pg2 pg1] by auto
    qed simp
  qed
  moreover have "sys_calls s \<le> sys_calls s2 \<and> dom (page_at s) \<subseteq> dom (page_at s2)"
    using assms unfolding keeps_life_def by (meson order_trans subset_trans)
  ultimately show ?thesis by (simp add: keeps_life_def)
qed

lemma keeps_clean: "keeps_life s s' \<Longrightarrow> page_at s' x = Some pg' \<Longrightarrow> (\<And>pg. page_at s x = Some pg \<Longrightarrow> clean pg) \<Longrightarrow> clean pg'"
  unfolding keeps_life_def using clean_life by blast


section \<open>Results that keep them\<close>

text \<open>\<open>sel\<close> finds the state in the result.\<close>

definition lifeR :: "('a \<Rightarrow> st) \<Rightarrow> st \<Rightarrow> 'a res \<Rightarrow> bool" where
  "lifeR sel s r \<longleftrightarrow> (\<forall>a. r = Inr a \<longrightarrow> keeps_life s (sel a))"

abbreviation third :: "'a \<times> 'b \<times> st \<Rightarrow> st" where
  "third a \<equiv> snd (snd a)"

named_theorems life_intros

lemma lifeR_Inl [life_intros]: "lifeR sel s (Inl e)"
  by (simp add: lifeR_def)

lemma lifeR_todo [life_intros]: "lifeR sel s todo"
  by (simp add: lifeR_def todo_def)

lemma lifeR_Inr: "keeps_life s (sel a) \<Longrightarrow> lifeR sel s (Inr a)"
  by (simp add: lifeR_def)

lemma lifeR_Inr_same [life_intros]: "page_at (sel a) = page_at s \<Longrightarrow> sys_calls s \<le> sys_calls (sel a) \<Longrightarrow> lifeR sel s (Inr a)"
  by (simp add: lifeR_def keeps_life_refl)

lemma lifeR_bind:
  assumes "lifeR sela s r" "\<And>a. r = Inr a \<Longrightarrow> lifeR selb (sela a) (f a)"
  shows "lifeR selb s (bindR r f)"
  using assms keeps_life_trans by (auto simp: lifeR_def bindR_Inr_iff)

lemma lifeR_bind1: "lifeR (\<lambda>s. s) s r \<Longrightarrow> (\<And>s'. lifeR sel s' (f s')) \<Longrightarrow> lifeR sel s (bindR r f)"
  by (rule lifeR_bind)

lemma lifeR_bind2: "lifeR snd s r \<Longrightarrow> (\<And>x s'. lifeR sel s' (f x s')) \<Longrightarrow> lifeR sel s (bindR r (\<lambda>(x, s'). f x s'))"
  by (rule lifeR_bind) (auto split: prod.split)

lemma lifeR_bind3: "lifeR third s r \<Longrightarrow> (\<And>x y s'. lifeR sel s' (f x y s')) \<Longrightarrow> lifeR sel s (bindR r (\<lambda>(x, y, s'). f x y s'))"
  by (rule lifeR_bind) (auto split: prod.split)

lemma lifeR_read: "(\<And>a. r = Inr a \<Longrightarrow> lifeR sel s (f a)) \<Longrightarrow> lifeR sel s (bindR r f)"
  by (auto simp: lifeR_def bindR_Inr_iff)

lemma lifeR_if [life_intros]: "(b \<Longrightarrow> lifeR sel s x) \<Longrightarrow> (\<not> b \<Longrightarrow> lifeR sel s y) \<Longrightarrow> lifeR sel s (if b then x else y)"
  by simp

lemma lifeR_same: "page_at sa = page_at s \<Longrightarrow> sys_calls s \<le> sys_calls sa \<Longrightarrow> lifeR sel sa r \<Longrightarrow> lifeR sel s r"
  by (fastforce simp: lifeR_def keeps_life_def)

lemma lifeR_upd_page [life_intros]:
  assumes "\<And>pg. life (f pg) = life pg"
  shows "lifeR (\<lambda>s. s) s (upd_page s p f)"
  using assms by (auto simp: lifeR_def upd_page_def bindR_Inr_iff fetch_Inr_iff keeps_life_def split: if_splits)

lemma lifeR_upd_inner [life_intros]:
  assumes "\<And>n. (capacity (f n), reserved (f n), flags1 (f n), free (f n), used (f n), local_free (f n))
     = (capacity n, reserved n, flags1 n, free n, used n, local_free n)"
  shows "lifeR (\<lambda>s. s) s (upd_inner s p f)"
  unfolding upd_inner_def using assms by (intro lifeR_upd_page) (simp add: life_def)

text \<open>Operations that do not touch page headers.\<close>

lemma lifeR_headers [life_intros]:
  "lifeR (\<lambda>s. s) s (upd_main s g f1)" "lifeR (\<lambda>s. s) s (upd_main2 s g f2)"
  "lifeR (\<lambda>s. s) s (upd_span_queue s tld i f3)"
  by (auto simp: lifeR_def upd_main_def upd_main2_def upd_segment_def upd_span_queue_def bindR_Inr_iff
      intro!: keeps_life_refl)

lemmas life_reads = lifeR_read [where r = "fetch _ _"] lifeR_read [where r = "index _ _"]
  lifeR_read [where r = "get_main _ _"] lifeR_read [where r = "get_main2 _ _"] lifeR_read [where r = "get_span_queue _ _ _"]
  lifeR_read [where r = "create _ _ _"] lifeR_read [where r = "segment_commit_mask _ _ _ _ _"] lifeR_read [where r = "check_is_good _"]

lemma span_queue_delete_life: "lifeR (\<lambda>s. s) s (span_queue_delete tld b p s)"
  unfolding span_queue_delete_def Let_def
  by (intro life_reads lifeR_bind1 life_intros) (simp_all add: life_def)

lemma slice_split_life: "lifeR (\<lambda>s. s) s (segment_slice_split p c n tld s)"
  unfolding segment_slice_split_def Let_def
  by (intro life_reads lifeR_bind1 life_intros) (simp_all add: life_def)

lemma offset_loop_life: "lifeR (\<lambda>s. s) s (offset_loop p i n s)"
proof (induction p i n s rule: offset_loop.induct)
  case (1 p i n s)
  show ?case unfolding offset_loop.simps [of p i n s]
    by (intro lifeR_if lifeR_bind [where sela = "\<lambda>s. s"] lifeR_upd_page 1 lifeR_Inr_same) (simp_all add: life_def)
qed

section \<open>Committing memory\<close>

lemma lifeR_prod:
  "(\<And>a b. lifeR sel s (f a b)) \<Longrightarrow> lifeR sel s (case x of (a, b) \<Rightarrow> f a b)"
  by (simp split: prod.split)

lemma mprotect_life [life_intros]: "lifeR (\<lambda>s. s) s (mprotect_prot env rw a n s)"
  "lifeR (\<lambda>s. s) s (mprotect_prot_none env a n s)" "lifeR (\<lambda>s. s) s (mprotect_prot_read_write env a n s)"
  unfolding mprotect_prot_none_def mprotect_prot_read_write_def
  by (simp_all add: lifeR_def mprotect_prot_def set_prot_def Let_def keeps_life_refl)

lemma os_commitx_life [life_intros]: "lifeR third s (os_commitx env a n c con s)"
  unfolding os_commitx_def Let_def
  by (intro life_intros lifeR_prod lifeR_bind1) simp_all

lemma os_commit_life [life_intros]: "lifeR third s (os_commit env a n s)"
  unfolding os_commit_def by (rule os_commitx_life)

lemma os_decommit_life [life_intros]: "lifeR snd s (os_decommit env a n s)"
  unfolding os_decommit_def by (intro lifeR_bind3 life_intros) simp_all

lemmas life_steps = life_reads lifeR_prod lifeR_bind2 lifeR_bind3 lifeR_bind1

lemma commitx_os_life [life_intros]: "lifeR snd s (commitx_os env g c a n m s)"
  unfolding commitx_os_def by (intro life_steps life_intros) simp_all

lemma commitx_pending_life [life_intros]: "lifeR (\<lambda>s. s) s (commitx_pending env g c m s)"
  unfolding commitx_pending_def clock_now_def clock_gettime_monotonic_def Let_def split_beta
  by (intro life_steps life_intros) (auto simp: upd_main_def upd_segment_def lifeR_def bindR_Inr_iff keeps_life_def)

lemma commitx_life [life_intros]: "lifeR snd s (segment_commitx env g c p n s)"
  unfolding segment_commitx_def by (intro life_steps life_intros) simp_all

lemma ensure_committed_life [life_intros]: "lifeR snd s (segment_ensure_committed env g p n s)"
  unfolding segment_ensure_committed_def by (intro life_steps life_intros) simp_all

lemma delayed_decommit_loop_life [life_intros]: "lifeR (\<lambda>s. s) s (delayed_decommit_loop fuel env g i s)"
proof (induction fuel arbitrary: i s)
  case (Suc fuel)
  then show ?case unfolding delayed_decommit_loop.simps Let_def by (intro life_steps life_intros) simp_all
qed (simp add: lifeR_Inl)

lemma clock_now_frame [simp]: "page_at (snd (clock_now env s)) = page_at s" "sys_calls s \<le> sys_calls (snd (clock_now env s))"
  by (simp_all add: clock_now_def clock_gettime_monotonic_def split_beta Let_def)

lemma delayed_decommit_life [life_intros]: "lifeR (\<lambda>s. s) s (segment_delayed_decommit env g force s)"
  unfolding segment_delayed_decommit_def Let_def split_beta
  by (intro life_reads life_intros, simp_all, rule lifeR_same [where sa = "snd (clock_now env s)"], simp_all add: delayed_decommit_loop_life)

lemma perhaps_expire_life [life_intros]: "lifeR (\<lambda>s. s) s (perhaps_expire env g s)"
  unfolding perhaps_expire_def Let_def split_beta
  by (rule lifeR_same [where sa = "snd (clock_now env s)"]) (simp_all, intro life_steps life_intros)

lemma perhaps_decommit_life [life_intros]: "lifeR (\<lambda>s. s) s (segment_perhaps_decommit env g p n s)"
  unfolding segment_perhaps_decommit_def Let_def by (intro life_steps life_intros) simp_all


section \<open>Spans\<close>

lemma span_allocate_life [life_intros]: "lifeR snd s (segment_span_allocate env g p n s)"
  unfolding segment_span_allocate_def Let_def
  by (intro life_steps life_intros offset_loop_life) (simp_all add: life_def flag_setters)

lemma span_free_life [life_intros]: "lifeR (\<lambda>s. s) s (segment_span_free env g i n d tld s)"
  unfolding segment_span_free_def Let_def by (intro life_steps life_intros) (simp_all add: life_def)

lemma coalesce_unlink_life [life_intros]: "lifeR snd s (coalesce_unlink p tld s)"
  unfolding coalesce_unlink_def Let_def by (intro life_steps life_intros) (simp_all add: life_def)

lemma coalesce_before_life [life_intros]: "lifeR third s (segment_span_free_coalesce_before g p tld n s)"
  unfolding segment_span_free_coalesce_before_def Let_def by (intro life_steps life_intros) simp_all

lemma coalesce_life [life_intros]: "lifeR (\<lambda>s. s) s (segment_span_free_coalesce env p tld s)"
  unfolding segment_span_free_coalesce_def Let_def
  by (intro life_steps life_intros lifeR_read [where r = "if _ then _ else Inr False"]) simp_all

lemma find_in_queue_life [life_intros]: "lifeR snd s (find_in_queue fuel env tld b n p s)"
proof (induction fuel arbitrary: p s)
  case (Suc fuel)
  then show ?case unfolding find_in_queue.simps Let_def
    by (intro life_steps life_intros span_queue_delete_life slice_split_life) simp_all
qed (simp add: lifeR_Inl)

lemma find_in_bins_life [life_intros]: "lifeR snd s (find_in_bins env tld b n s)"
proof (induction env tld b n s rule: find_in_bins.induct)
  case (1 env tld b n s)
  show ?case unfolding find_in_bins.simps [of env tld b n s]
  proof (intro lifeR_if life_reads)
    fix cq assume a: "b \<le> unat SEGMENT_BIN_MAX" "get_span_queue s tld (of_nat b) = Inr cq"
    show "lifeR snd s (bindR (find_in_queue address_count env tld (of_nat b) n (sq_first cq) s)
        (\<lambda>(found, s). case found of Some p \<Rightarrow> Inr (p, s) | None \<Rightarrow> find_in_bins env tld (b + 1) n s))"
    proof (rule lifeR_bind [OF find_in_queue_life])
      fix r assume r: "find_in_queue address_count env tld (of_nat b) n (sq_first cq) s = Inr r"
      obtain found s1 where f: "r = (found, s1)" by (cases r)
      then show "lifeR snd (snd r) (case r of (found, s) \<Rightarrow> case found of Some p \<Rightarrow> Inr (p, s) | None \<Rightarrow> find_in_bins env tld (b + 1) n s)"
        using "1" [OF a r f [symmetric]] by (cases found) (simp_all add: lifeR_Inr_same)
    qed
  qed (simp add: lifeR_Inr_same)
qed

lemma header_loop_life: "keeps_life s (header_loop i p s)"
proof (induction i p s rule: header_loop.induct)
  case (1 i p s)
  have "keeps_life s (s\<lparr>page_at := (page_at s)(p \<mapsto> zeroed_page)\<rparr>)" using clean_zeroed by (auto simp: keeps_life_def)
  then show ?case using 1 keeps_life_trans unfolding header_loop.simps [of i p s] by (auto intro: keeps_life_refl)
qed

lemma unix_mmapx_pages [simp]: "page_at (snd (unix_mmapx env h n al rw s)) = page_at s"
  "sys_calls s \<le> sys_calls (snd (unix_mmapx env h n al rw s))"
  by (simp_all add: unix_mmapx_def os_get_aligned_hint_def aligned_base_add_def aligned_base_cas_def mmap_prot_def Let_def split_beta)

lemma os_alloc_life: "lifeR third s (os_alloc_aligned_offset env n al off c lg s)"
proof -
  have "lifeR third s (unix_mmap env h n al c lo al2 s)" for h n al lo al2
    unfolding unix_mmap_def Let_def split_beta by (intro life_steps life_intros) simp_all
  then have "lifeR third s (os_mem_alloc env n al c lg s)" for n al lg
    unfolding os_mem_alloc_def Let_def by (intro life_steps life_intros) simp_all
  then have "lifeR third s (os_mem_alloc_aligned env n al c lg s)" for n al
    unfolding os_mem_alloc_aligned_def Let_def by (intro life_steps life_intros) simp_all
  then show ?thesis unfolding os_alloc_aligned_offset_def os_alloc_aligned_def by (intro life_steps life_intros) simp_all
qed

lemma arena_life: "lifeR (\<lambda>(a, b, c, d, e, f, s). s) s (arena_alloc_aligned env n al off c lg aid s)"
  unfolding arena_alloc_aligned_def by (intro lifeR_bind3 os_alloc_life lifeR_Inr_same) simp_all

lemma lifeR_bind7: "lifeR (\<lambda>(a, b, c, d, e, f, s). s) s r \<Longrightarrow> (\<And>a b c d e f s'. lifeR sel s' (g a b c d e f s')) \<Longrightarrow>
    lifeR sel s (bindR r (\<lambda>(a, b, c, d, e, f, s'). g a b c d e f s'))"
  by (rule lifeR_bind) (auto split: prod.split)

lemma segment_os_alloc_life [life_intros]: "lifeR snd s (segment_os_alloc env al ed aid n i cm dm c s)"
  unfolding segment_os_alloc_def Let_def
  by (intro lifeR_bind7 arena_life life_steps life_intros) simp_all

lemma first_allocate_life [life_intros]:
  "lifeR snd s (segment_span_allocate env g p n (header_loop i q (s\<lparr>segment_at := S\<rparr>)))"
proof -
  have "keeps_life s (header_loop i q (s\<lparr>segment_at := S\<rparr>))"
    by (rule keeps_life_trans [OF keeps_life_refl header_loop_life]) simp_all
  then show ?thesis using span_allocate_life keeps_life_trans unfolding lifeR_def by blast
qed

lemma segment_alloc_life [life_intros]: "lifeR snd s (segment_alloc env req al aid tld s)"
  unfolding segment_alloc_def Let_def by (intro life_steps life_intros) simp_all

lemma page_alloc_rec_life: "lifeR snd s (segments_page_alloc_rec fuel env heap req n tld s)"
proof (induction fuel arbitrary: s)
  case (Suc fuel)
  then show ?case unfolding segments_page_alloc_rec.simps segments_page_find_and_allocate_def segment_reclaim_or_alloc_def Let_def bindR_assoc
    by (intro life_steps life_intros) simp_all
qed (simp add: lifeR_Inl)

lemma segment_page_alloc_life: "lifeR snd s (segment_page_alloc env heap n al tld s)"
  unfolding segment_page_alloc_def segments_page_alloc_def by (intro life_intros page_alloc_rec_life)

text \<open>Freeing a page leaves its header clean.\<close>

lemma segment_page_free_life:
  assumes "segment_page_free env p force tld s = Inr s'"
  shows "keeps_life s s'" "\<exists>pg. page_at s' p = Some pg \<and> clean pg"
proof -
  obtain s1 where c: "segment_page_clear env p tld s = Inr s1" "page_at s' = page_at s1" "sys_calls s' = sys_calls s1"
    using assms by (auto simp: segment_page_free_def Let_def bindR_Inr_iff segment_free_def todo_def split: if_splits)
  obtain pg where pg: "page_at s p = Some pg"
    using c(1) by (auto simp: segment_page_clear_def Let_def bindR_Inr_iff fetch_Inr_iff)
  define pg1 where "pg1 = pg\<lparr>inner := (set_is_zero_init False (inner pg))\<lparr>capacity := 0, reserved := 0, free := 0, flags1 := 0, flags2 := 0, used := 0,
            xblock_size := 0, local_free := 0\<rparr>, xthread_free := 0\<rparr>"
  define s0 where "s0 = s\<lparr>page_at := (page_at s)(p \<mapsto> pg1)\<rparr>"
  obtain s2 where s2: "segment_span_free_coalesce env p tld s0 = Inr s2" "page_at s1 = page_at s2" "sys_calls s1 = sys_calls s2"
    using c(1) pg by (auto simp: segment_page_clear_def Let_def bindR_Inr_iff todo_def upd_inner_eq upd_page_eq upd_main2_def upd_segment_def
        s0_def pg1_def make_empty_def page_canon split: if_splits)
  have k: "keeps_life s0 s2" using coalesce_life s2(1) unfolding lifeR_def by blast
  have cl: "clean pg1" by (simp add: pg1_def clean_def)
  then have "keeps_life s s0" by (auto simp: keeps_life_def s0_def)
  then show "keeps_life s s'" using keeps_life_trans [OF _ k] c(2,3) s2(2,3) by (auto simp: keeps_life_def)
  have s0p: "page_at s0 p = Some pg1" by (simp add: s0_def)
  then obtain pg2 where pg2: "page_at s2 p = Some pg2" using k unfolding keeps_life_def by blast
  have "clean pg2" by (rule keeps_clean [OF k pg2]) (use s0p cl in simp)
  then show "\<exists>pg. page_at s' p = Some pg \<and> clean pg" using pg2 c(2) s2(2) by auto
qed

end
