(* ===== verification/Page_Blocks.thy ===== *)
theory Page_Blocks
  imports Segment
begin

text \<open>
  The blocks of a page (\<^verbatim>\<open>alloc_generic.rs\<close>): collecting the blocks other threads freed, moving the
  local list over, and extending the free list by blocks that were never used. The invariant
  \<open>blocks_ok\<close> says that the blocks cut from the page are split among its three lists and the
  blocks that are out; each operation is a change of that split.
\<close>

section \<open>Operations\<close>

definition MIN_EXTEND :: usize where "MIN_EXTEND = 4"
definition MAX_EXTEND_SIZE :: u32 where "MAX_EXTEND_SIZE = 4096"

text \<open>\<^verbatim>\<open>ThreadLLWithDelayBits::take\<close>: the list leaves the word, the delay state stays.\<close>

definition xthread_free_take :: "usize \<Rightarrow> st \<Rightarrow> (usize \<times> st) res" where
  "xthread_free_take page s =
     bindR (fetch (page_at s) page) (\<lambda>pg.
     let res = xthread_free pg in
     bindR (upd_page s page (\<lambda>g. g\<lparr>xthread_free := res AND 3\<rparr>)) (\<lambda>s. Inr (res AND NOT 3, s)))"

definition page_thread_free_collect :: "usize \<Rightarrow> st \<Rightarrow> st res" where
  "page_thread_free_collect page s =
     bindR (xthread_free_take page s) (\<lambda>(list, s).
     if LL_is_empty list then Inr s
     else
       bindR (fetch (page_at s) page) (\<lambda>pg.
       bindR (append (node_at s) (local_free (inner pg)) list) (\<lambda>(m, first, rest, n).
       upd_inner (s\<lparr>node_at := m\<rparr>) page (\<lambda>i. i\<lparr>local_free := first, used := used i - n\<rparr>))))"

definition page_free_collect :: "usize \<Rightarrow> bool \<Rightarrow> st \<Rightarrow> st res" where
  "page_free_collect page force s =
     bindR (fetch (page_at s) page) (\<lambda>pg.
     bindR (if force \<or> xthread_free pg \<noteq> 0 then page_thread_free_collect page s else Inr s) (\<lambda>s.
     bindR (fetch (page_at s) page) (\<lambda>pg.
     let i = inner pg in
     if \<not> LL_is_empty (local_free i) then
       if LL_is_empty (free i) then
         upd_inner s page (\<lambda>i. i\<lparr>free := local_free i, local_free := LL_new\<rparr>)
       else if force then
         bindR (append (node_at s) (free i) (local_free i)) (\<lambda>(m, first, rest, n).
         upd_inner (s\<lparr>node_at := m\<rparr>) page (\<lambda>i. i\<lparr>free := first, local_free := rest\<rparr>))
       else Inr s
     else Inr s)))"

definition page_free_list_extend :: "usize \<Rightarrow> usize \<Rightarrow> usize \<Rightarrow> st \<Rightarrow> st res" where
  "page_free_list_extend page bsize ext s =
     bindR (fetch (page_at s) page) (\<lambda>pg.
     let cap = capacity (inner pg);
         pag_start = calculate_page_start page bsize;
         start = calculate_page_block_at pag_start bsize (ucast cap);
         x = ucast cap + ext - 1;
         last_block = calculate_page_block_at pag_start bsize x in
     bindR (prepend_contiguous_blocks (node_at s) (free (inner pg)) start last_block bsize) (\<lambda>(m, first).
     upd_inner (s\<lparr>node_at := m\<rparr>) page (\<lambda>i. i\<lparr>free := first, capacity := capacity i + ucast ext\<rparr>)))"

definition page_extend_free :: "usize \<Rightarrow> st \<Rightarrow> st res" where
  "page_extend_free page s =
     bindR (fetch (page_at s) page) (\<lambda>pg.
     let res = reserved (inner pg); cap = capacity (inner pg) in
     if cap \<ge> res then Inr s
     else
       let bsize = ucast (xblock_size (inner pg));
           max_extend = (if bsize \<ge> ucast MAX_EXTEND_SIZE then MIN_EXTEND
                         else ucast (MAX_EXTEND_SIZE div ucast bsize));
           max_extend = (if max_extend < MIN_EXTEND then MIN_EXTEND else max_extend);
           ext = ucast (res - cap);
           ext = (if ext > max_extend then max_extend else ext) in
       page_free_list_extend page bsize ext s)"


section \<open>The blocks of a page\<close>

lemma unat_widen:
  "unat (ucast (x :: u32) :: usize) = unat x" "unat (ucast (y :: u16) :: usize) = unat y"
  using unat_bound [of x] unat_bound [of y] by (simp_all add: unat_ucast_small)

lemma narrow_widen: "ucast (ucast (x :: u32) :: usize) = x"
  using unat_bound [of x] by (simp add: word_unat_eq_iff unat_ucast_small unat_widen)

definition page_block :: "usize \<Rightarrow> usize \<Rightarrow> nat \<Rightarrow> usize" where
  "page_block p bs k = calculate_page_block_at (calculate_page_start p bs) bs (of_nat k)"

definition blocks_of :: "usize \<Rightarrow> usize \<Rightarrow> nat \<Rightarrow> usize set" where
  "blocks_of p bs n = page_block p bs ` {..<n}"

text \<open>Room for \<open>n\<close> blocks whose size and addresses are multiples of a word.\<close>

definition page_fits :: "usize \<Rightarrow> usize \<Rightarrow> nat \<Rightarrow> bool" where
  "page_fits p bs n \<longleftrightarrow> 0 < unat bs \<and> 8 dvd unat bs \<and> 0 < unat (calculate_page_start p bs) \<and> 8 dvd unat (calculate_page_start p bs)
     \<and> unat (calculate_page_start p bs) + n * unat bs < 2 ^ 64"

lemma page_fits_mono: "page_fits p bs n \<Longrightarrow> m \<le> n \<Longrightarrow> page_fits p bs m"
  unfolding page_fits_def using mult_le_mono1 [of m n "unat bs"] by linarith

lemma page_block_unat:
  assumes "page_fits p bs n" "k \<le> n"
  shows "unat (page_block p bs k) = unat (calculate_page_start p bs) + k * unat bs"
proof -
  have "0 < bs" using assms(1) by (simp add: page_fits_def unat_gt_0 word_gt_0)
  then have "unat (calculate_page_start p bs + of_nat k * bs) = unat (calculate_page_start p bs) + k * unat bs"
    using assms by (intro unat_stride [where n = n]) (auto simp: page_fits_def)
  then show ?thesis by (simp add: page_block_def calculate_page_block_at_def mult.commute)
qed

lemma page_block_inject:
  assumes "page_fits p bs n" "j \<le> n" "k \<le> n"
  shows "page_block p bs j = page_block p bs k \<longleftrightarrow> j = k"
proof
  assume "page_block p bs j = page_block p bs k"
  then have "unat (page_block p bs j) = unat (page_block p bs k)" by (rule arg_cong)
  then have "unat (calculate_page_start p bs) + j * unat bs = unat (calculate_page_start p bs) + k * unat bs"
    unfolding page_block_unat [OF assms(1,2)] page_block_unat [OF assms(1,3)] .
  moreover have "0 < unat bs" using assms(1) unfolding page_fits_def by blast
  ultimately show "j = k" by simp
qed simp

lemma page_block_nonnull: "page_fits p bs n \<Longrightarrow> k \<le> n \<Longrightarrow> page_block p bs k \<noteq> 0"
  using page_block_unat [of p bs n k] by (auto simp: page_fits_def)

lemma page_block_aligned:
  assumes "page_fits p bs n" "k \<le> n"
  shows "8 dvd unat (page_block p bs k)" "page_block p bs k AND 3 = 0"
proof -
  show d: "8 dvd unat (page_block p bs k)" using page_block_unat [OF assms] assms(1) by (simp add: page_fits_def)
  then have "(4 :: nat) dvd unat (page_block p bs k)" by (rule dvd_trans [rotated]) simp
  then show "page_block p bs k AND 3 = 0" by (simp add: word_unat_eq_iff unat_and_3 mod_eq_0_iff_dvd)
qed

lemma blocks_of_card: "page_fits p bs n \<Longrightarrow> card (blocks_of p bs n) = n"
  unfolding blocks_of_def by (subst card_image) (auto simp: inj_on_def page_block_inject [of p bs n])

lemma blocks_of_nonnull: "page_fits p bs n \<Longrightarrow> b \<in> blocks_of p bs n \<Longrightarrow> b \<noteq> 0 \<and> b AND 3 = 0"
  unfolding blocks_of_def using page_block_nonnull [of p bs n] page_block_aligned(2) [of p bs n] by auto

lemma blocks_of_mono: "m \<le> n \<Longrightarrow> blocks_of p bs m \<subseteq> blocks_of p bs n"
  by (auto simp: blocks_of_def)

lemma blocks_of_add: "blocks_of p bs (m + n) = blocks_of p bs m \<union> page_block p bs ` {m..<m + n}"
proof -
  have "{..<m + n} = {..<m} \<union> {m..<m + n}" by auto
  then show ?thesis by (simp add: blocks_of_def image_Un)
qed


section \<open>The split of the blocks\<close>

text \<open>
  \<open>out\<close> are the blocks handed out or on their way back through the heap's delayed list;
  \<open>fs\<close>, \<open>ls\<close> and \<open>ts\<close> are the free, the local and the thread-free list. The counter \<^verbatim>\<open>used\<close>
  includes the blocks on the thread-free list.
\<close>

abbreviation psize :: "Page \<Rightarrow> usize" where
  "psize pg \<equiv> ucast (xblock_size (inner pg))"

abbreviation pcap :: "Page \<Rightarrow> nat" where
  "pcap pg \<equiv> unat (capacity (inner pg))"

abbreviation pres :: "Page \<Rightarrow> nat" where
  "pres pg \<equiv> unat (reserved (inner pg))"

abbreviation pblocks :: "usize \<Rightarrow> Page \<Rightarrow> usize set" where
  "pblocks p pg \<equiv> blocks_of p (psize pg) (pcap pg)"

definition tlist :: "mem \<Rightarrow> Page \<Rightarrow> usize list \<Rightarrow> bool" where
  "tlist m pg ts \<longleftrightarrow> (\<exists>q d. xthread_free pg = encode q d \<and> q AND 3 = 0 \<and> d \<noteq> Freeing \<and> ll m q ts)"

definition split_ok :: "usize \<Rightarrow> Page \<Rightarrow> usize set \<Rightarrow> usize list \<Rightarrow> usize list \<Rightarrow> usize list \<Rightarrow> bool" where
  "split_ok p pg out fs ls ts \<longleftrightarrow> page_fits p (psize pg) (pres pg) \<and> pcap pg \<le> pres pg
     \<and> distinct (fs @ ls @ ts) \<and> set (fs @ ls @ ts) \<subseteq> pblocks p pg
     \<and> out \<inter> pblocks p pg = pblocks p pg - set (fs @ ls @ ts)
     \<and> unat (used (inner pg)) + length fs + length ls = pcap pg"

definition blocks_ok :: "mem \<Rightarrow> usize \<Rightarrow> Page \<Rightarrow> usize set \<Rightarrow> usize list \<Rightarrow> usize list \<Rightarrow> usize list \<Rightarrow> bool" where
  "blocks_ok m p pg out fs ls ts \<longleftrightarrow> split_ok p pg out fs ls ts \<and> ll m (free (inner pg)) fs
     \<and> ll m (local_free (inner pg)) ls \<and> tlist m pg ts"

lemma split_okD:
  assumes "split_ok p pg out fs ls ts"
  shows "page_fits p (psize pg) (pres pg)" "page_fits p (psize pg) (pcap pg)" "pcap pg \<le> pres pg" "distinct (fs @ ls @ ts)"
    "set (fs @ ls @ ts) \<subseteq> pblocks p pg" "out \<inter> pblocks p pg = pblocks p pg - set (fs @ ls @ ts)"
    "unat (used (inner pg)) + length fs + length ls = pcap pg" "out \<inter> set (fs @ ls @ ts) = {}"
  using assms page_fits_mono unfolding split_ok_def by blast+

text \<open>The words of a page and its blocks determine its lists.\<close>

lemma tlist_unique:
  assumes "tlist m pg ts" "tlist m pg ts'"
  shows "ts = ts'"
proof -
  obtain q d where q: "xthread_free pg = encode q d" "q AND 3 = 0" "ll m q ts" using assms(1) unfolding tlist_def by blast
  obtain r e where r: "xthread_free pg = encode r e" "r AND 3 = 0" "ll m r ts'" using assms(2) unfolding tlist_def by blast
  have "q = r" using q r encode_inject [of q r d e] by simp
  then show ?thesis using q(3) r(3) ll_unique by blast
qed

lemma blocks_unique:
  assumes "blocks_ok m p pg out fs ls ts" "blocks_ok m p pg out' fs' ls' ts'"
  shows "out \<inter> pblocks p pg = out' \<inter> pblocks p pg"
proof -
  have "fs = fs'" "ls = ls'" "ts = ts'" using assms ll_unique tlist_unique unfolding blocks_ok_def by blast+
  then show ?thesis using assms split_okD(6) unfolding blocks_ok_def by metis
qed

text \<open>The counter says how many blocks are out or on the thread-free list.\<close>

lemma split_used:
  assumes "split_ok p pg out fs ls ts"
  shows "unat (used (inner pg)) = length ts + card (out \<inter> pblocks p pg)"
proof -
  note d = split_okD [OF assms]
  have "card (out \<inter> pblocks p pg) = card (pblocks p pg) - card (set (fs @ ls @ ts))"
    unfolding d(6) by (rule card_Diff_subset) (use d(5) in simp_all)
  also have "\<dots> = pcap pg - length (fs @ ls @ ts)" using blocks_of_card [OF d(2)] distinct_card [OF d(4)] by simp
  finally have c: "card (out \<inter> pblocks p pg) = pcap pg - length (fs @ ls @ ts)" .
  have "card (set (fs @ ls @ ts)) \<le> card (pblocks p pg)" by (rule card_mono [OF _ d(5)]) (simp add: blocks_of_def)
  then have "length (fs @ ls @ ts) \<le> pcap pg" using blocks_of_card [OF d(2)] distinct_card [OF d(4)] by simp
  then show ?thesis using c d(7) by simp
qed

lemma split_unused:
  assumes "split_ok p pg out fs ls ts" "used (inner pg) = 0"
  shows "ts = []" "out \<inter> pblocks p pg = {}"
proof -
  have "length ts + card (out \<inter> pblocks p pg) = 0" using split_used [OF assms(1)] assms(2) by simp
  moreover have "finite (out \<inter> pblocks p pg)" by (simp add: blocks_of_def)
  ultimately show "ts = []" "out \<inter> pblocks p pg = {}" by simp_all
qed

text \<open>Memory outside the lists does not matter.\<close>

lemma blocks_ok_mem:
  assumes "blocks_ok m p pg out fs ls ts" "\<And>q. q \<in> set (fs @ ls @ ts) \<Longrightarrow> m' q = m q"
  shows "blocks_ok m' p pg out fs ls ts"
proof -
  have "ll m' q xs = ll m q xs" if "set xs \<subseteq> set (fs @ ls @ ts)" for q xs using assms(2) that by (intro lseg_cong) blast
  then show ?thesis using assms(1) by (auto simp: blocks_ok_def tlist_def)
qed

lemma blocks_ok_out: "blocks_ok m p pg out fs ls ts \<Longrightarrow> out' \<inter> pblocks p pg = out \<inter> pblocks p pg \<Longrightarrow> blocks_ok m p pg out' fs ls ts"
  by (simp add: blocks_ok_def split_ok_def)

text \<open>What a change of a page's blocks leaves in its header.\<close>

definition page_kept :: "Page \<Rightarrow> Page \<Rightarrow> bool" where
  "page_kept pg pg' \<longleftrightarrow> pcount pg' = pcount pg \<and> poffset pg' = poffset pg \<and> xheap pg' = xheap pg \<and> prev_ptr pg' = prev_ptr pg
     \<and> next_ptr pg' = next_ptr pg \<and> xblock_size (inner pg') = xblock_size (inner pg) \<and> reserved (inner pg') = reserved (inner pg)
     \<and> flags1 (inner pg') = flags1 (inner pg) \<and> capacity (inner pg) \<le> capacity (inner pg')"

lemma page_kept_refl: "page_kept pg pg"
  by (simp add: page_kept_def)

lemma page_kept_trans: "page_kept pg pg1 \<Longrightarrow> page_kept pg1 pg2 \<Longrightarrow> page_kept pg pg2"
  by (auto simp: page_kept_def intro: order_trans)

text \<open>A result that changed one page and the memory of its free blocks.\<close>

definition page_step :: "st \<Rightarrow> usize \<Rightarrow> Page \<Rightarrow> usize set \<Rightarrow> (mem \<Rightarrow> Page \<Rightarrow> bool) \<Rightarrow> st res \<Rightarrow> bool" where
  "page_step s p pg W Q r \<longleftrightarrow> (\<exists>m' pg'. r = Inr (s\<lparr>page_at := (page_at s)(p \<mapsto> pg'), node_at := m'\<rparr>) \<and> page_kept pg pg'
     \<and> (\<forall>q. q \<notin> W \<longrightarrow> m' q = node_at s q) \<and> Q m' pg')"

lemma page_step_same: "page_at s p = Some pg \<Longrightarrow> Q (node_at s) pg \<Longrightarrow> page_step s p pg W Q (Inr s)"
  unfolding page_step_def by (intro exI [of _ "node_at s"] exI [of _ pg]) (simp add: page_kept_refl fun_upd_idem)

lemma page_step_one:
  assumes "page_kept pg pg'" "Q (node_at s) pg'"
  shows "page_step s p pg W Q (Inr (s\<lparr>page_at := (page_at s)(p \<mapsto> pg')\<rparr>))"
  unfolding page_step_def by (intro exI [of _ "node_at s"] exI [of _ pg']) (simp add: assms)

lemma page_step_bind:
  assumes "page_step s p pg W Q r"
    and "\<And>m' pg'. Q m' pg' \<Longrightarrow> page_kept pg pg' \<Longrightarrow> \<forall>q. q \<notin> W \<longrightarrow> m' q = node_at s q \<Longrightarrow>
      page_step (s\<lparr>page_at := (page_at s)(p \<mapsto> pg'), node_at := m'\<rparr>) p pg' W R (f (s\<lparr>page_at := (page_at s)(p \<mapsto> pg'), node_at := m'\<rparr>))"
  shows "page_step s p pg W R (bindR r f)"
proof -
  obtain m' pg' where r: "r = Inr (s\<lparr>page_at := (page_at s)(p \<mapsto> pg'), node_at := m'\<rparr>)" "page_kept pg pg'"
    "\<forall>q. q \<notin> W \<longrightarrow> m' q = node_at s q" "Q m' pg'" using assms(1) unfolding page_step_def by blast
  obtain m2 pg2 where f: "f (s\<lparr>page_at := (page_at s)(p \<mapsto> pg'), node_at := m'\<rparr>) = Inr (s\<lparr>page_at := (page_at s)(p \<mapsto> pg2), node_at := m2\<rparr>)"
    "page_kept pg' pg2" "\<forall>q. q \<notin> W \<longrightarrow> m2 q = m' q" "R m2 pg2" using assms(2) [OF r(4,2,3)] by (auto simp: page_step_def st_canon)
  show ?thesis unfolding page_step_def using r f page_kept_trans [OF r(2) f(2)]
    by (intro exI [of _ m2] exI [of _ pg2]) simp
qed

lemma page_step_mono: "page_step s p pg W Q r \<Longrightarrow> W \<subseteq> V \<Longrightarrow> (\<And>m' pg'. Q m' pg' \<Longrightarrow> page_kept pg pg' \<Longrightarrow> R m' pg') \<Longrightarrow> page_step s p pg V R r"
  unfolding page_step_def by blast


section \<open>Collecting freed blocks\<close>

lemma taken_word: "q AND 3 = 0 \<Longrightarrow> encode q d AND 3 = encode 0 d" "q AND 3 = 0 \<Longrightarrow> encode q d AND NOT 3 = q"
  using encode_parts [of q d] by (simp_all add: encode_def)

lemma thread_collect_ok:
  assumes pg: "page_at s p = Some pg" and ok: "blocks_ok (node_at s) p pg out fs ls ts"
  shows "page_step s p pg (set ts) (\<lambda>m' pg'. blocks_ok m' p pg' out fs (ts @ ls) [] \<and> capacity (inner pg') = capacity (inner pg))
    (page_thread_free_collect p s)"
proof -
  obtain q d where x: "xthread_free pg = encode q d" "q AND 3 = 0" "d \<noteq> Freeing" "ll (node_at s) q ts"
    using ok unfolding blocks_ok_def tlist_def by blast
  have sp: "split_ok p pg out fs ls ts" and l: "ll (node_at s) (free (inner pg)) fs" "ll (node_at s) (local_free (inner pg)) ls"
    using ok unfolding blocks_ok_def by blast+
  note d = split_okD [OF sp]
  define pg1 where "pg1 = pg\<lparr>xthread_free := encode 0 d\<rparr>"
  have take: "xthread_free_take p s = Inr (q, s\<lparr>page_at := (page_at s)(p \<mapsto> pg1)\<rparr>)"
    using pg taken_word [OF x(2), of d] by (simp add: xthread_free_take_def upd_page_eq x(1) pg1_def)
  have tl: "tlist m (pg\<lparr>inner := n, xthread_free := encode 0 d\<rparr>) []" for m n using x(3) unfolding tlist_def by auto
  show ?thesis
  proof (cases "q = 0")
    case True
    then have ts: "ts = []" using x(4) by simp
    have "blocks_ok (node_at s) p pg1 out fs ls []" using sp l tl [of "node_at s" "inner pg"] unfolding blocks_ok_def split_ok_def by (simp add: pg1_def ts)
    then show ?thesis unfolding page_thread_free_collect_def take using True ts
      by (simp add: LL_is_empty_def) (rule page_step_one, simp_all add: page_kept_def pg1_def)
  next
    case False
    have dis: "set ls \<inter> set ts = {}" using d(4) by auto
    obtain m' a' where m': "append (node_at s) (local_free (inner pg)) q = Inr (m', a', 0, of_nat (length ts))" "ll m' a' (ts @ ls)"
      "\<forall>q. q \<notin> set ts \<longrightarrow> m' q = node_at s q" using append_spec [OF l(2) x(4) dis] by blast
    define pg2 where "pg2 = pg\<lparr>inner := (inner pg)\<lparr>local_free := a', used := used (inner pg) - of_nat (length ts)\<rparr>, xthread_free := encode 0 d\<rparr>"
    have r: "page_thread_free_collect p s = Inr (s\<lparr>page_at := (page_at s)(p \<mapsto> pg2), node_at := m'\<rparr>)"
      unfolding page_thread_free_collect_def take using False m'(1)
      by (simp add: LL_is_empty_def pg1_def upd_inner_eq st_canon pg2_def page_canon)
    have len: "length ts \<le> unat (used (inner pg))" using split_used [OF sp] by simp
    have "length ts < 2 ^ 32" using len unat_bound [of "used (inner pg)"] by simp
    then have ut: "unat (of_nat (length ts) :: u32) = length ts" by (intro unat_of_nat_small) simp
    then have "(of_nat (length ts) :: u32) \<le> used (inner pg)" using len by (simp add: word_le_nat_alt)
    then have us: "unat (used (inner pg) - of_nat (length ts)) = unat (used (inner pg)) - length ts" using ut by (simp add: unat_sub_small)
    have "split_ok p pg2 out fs (ts @ ls) []" using sp len us unfolding split_ok_def by (auto simp: pg2_def)
    moreover have "m' a = node_at s a" if "a \<in> set fs" for a using that m'(3) d(4) by auto
    then have "ll m' (free (inner pg)) fs" using l(1) lseg_cong [of fs m' "node_at s"] by simp
    ultimately have "blocks_ok m' p pg2 out fs (ts @ ls) []" using m'(2) tl unfolding blocks_ok_def by (simp add: pg2_def)
    then show ?thesis unfolding page_step_def r using m'(3) by (intro exI [of _ m'] exI [of _ pg2]) (simp add: page_kept_def pg2_def)
  qed
qed

text \<open>
  After a collection nothing is on the thread-free list, and when the free list is empty the
  local list is too; a free list that was not empty stays in front of what it was.
\<close>

lemma free_collect_ok:
  assumes pg: "page_at s p = Some pg" and ok: "blocks_ok (node_at s) p pg out fs ls ts"
  shows "page_step s p pg (set ts) (\<lambda>m' pg'. \<exists>fs' ls'. blocks_ok m' p pg' out fs' ls' [] \<and> (fs' = [] \<longrightarrow> ls' = [])
      \<and> capacity (inner pg') = capacity (inner pg) \<and> (fs \<noteq> [] \<longrightarrow> fs' = fs)) (page_free_collect p False s)"
proof -
  let ?Q = "\<lambda>m' pg'. \<exists>fs1 ls1. blocks_ok m' p pg' out fs1 ls1 [] \<and> capacity (inner pg') = capacity (inner pg) \<and> fs1 = fs"
  have first: "page_step s p pg (set ts) ?Q (if xthread_free pg \<noteq> 0 then page_thread_free_collect p s else Inr s)"
  proof (cases "xthread_free pg = 0")
    case True
    obtain q d where x: "xthread_free pg = encode q d" "q AND 3 = 0" "ll (node_at s) q ts" using ok unfolding blocks_ok_def tlist_def by blast
    then have "q = 0" using True encode_parts(2) [OF x(2), of d] by simp
    then have "ts = []" using x(3) by simp
    then show ?thesis using ok True page_step_same [OF pg, of ?Q] by auto
  next
    case False
    have "page_step s p pg (set ts) ?Q (page_thread_free_collect p s)"
      by (rule page_step_mono [OF thread_collect_ok [OF pg ok] order_refl]) blast
    then show ?thesis using False by simp
  qed
  have body: "page_free_collect p False s = bindR (if xthread_free pg \<noteq> 0 then page_thread_free_collect p s else Inr s) (\<lambda>s.
     bindR (fetch (page_at s) p) (\<lambda>pg. let i = inner pg in
     if local_free i \<noteq> 0 \<and> free i = 0 then upd_inner s p (\<lambda>i. i\<lparr>free := local_free i, local_free := 0\<rparr>) else Inr s))"
  proof -
    have nest: "(if a then if b then x else y else y) = (if a \<and> b then x else y)" for a b and x y :: "st res" by simp
    show ?thesis using pg unfolding page_free_collect_def LL_is_empty_def LL_new_def by (simp only: bindR_simps fetch_simps Let_def simp_thms if_False nest)
  qed
  show ?thesis unfolding body
  proof (rule page_step_bind [OF first])
    fix m' pg' assume a: "?Q m' pg'" "page_kept pg pg'"
    let ?s = "s\<lparr>page_at := (page_at s)(p \<mapsto> pg'), node_at := m'\<rparr>"
    let ?R = "\<lambda>m' pg'. \<exists>fs' ls'. blocks_ok m' p pg' out fs' ls' [] \<and> (fs' = [] \<longrightarrow> ls' = [])
      \<and> capacity (inner pg') = capacity (inner pg) \<and> (fs \<noteq> [] \<longrightarrow> fs' = fs)"
    obtain ls1 where b: "blocks_ok m' p pg' out fs ls1 []" "capacity (inner pg') = capacity (inner pg)" using a by blast
    then have l: "ll m' (free (inner pg')) fs" "ll m' (local_free (inner pg')) ls1" unfolding blocks_ok_def by blast+
    have e: "free (inner pg') = 0 \<longleftrightarrow> fs = []" "local_free (inner pg') = 0 \<longleftrightarrow> ls1 = []"
      using l by (cases fs; cases ls1; auto)+
    show "page_step ?s p pg' (set ts) ?R (bindR (fetch (page_at ?s) p) (\<lambda>pg. let i = inner pg in
     if local_free i \<noteq> 0 \<and> free i = 0 then upd_inner ?s p (\<lambda>i. i\<lparr>free := local_free i, local_free := 0\<rparr>) else Inr ?s))"
    proof (cases "local_free (inner pg') \<noteq> 0 \<and> free (inner pg') = 0")
      case True
      let ?pg = "pg'\<lparr>inner := (inner pg')\<lparr>free := local_free (inner pg'), local_free := 0\<rparr>\<rparr>"
      have "fs = []" using True e by simp
      then have "blocks_ok m' p ?pg out ls1 [] []" using b(1) unfolding blocks_ok_def split_ok_def tlist_def by auto
      moreover have "ls1 \<noteq> []" "page_kept pg' ?pg" using True e by (auto simp: page_kept_def)
      ultimately have "page_step ?s p pg' (set ts) ?R (Inr (?s\<lparr>page_at := (page_at ?s)(p \<mapsto> ?pg)\<rparr>))"
        using b(2) \<open>fs = []\<close> by (intro page_step_one) auto
      then show ?thesis using True by (simp add: upd_inner_eq st_canon Let_def)
    next
      case False
      have "page_step ?s p pg' (set ts) ?R (Inr ?s)" by (rule page_step_same) (use b e False in auto)
      then show ?thesis using False by (auto simp: Let_def)
    qed
  qed
qed


section \<open>Extending the free list\<close>

text \<open>How many blocks the free list grows by: at least four, one operating system page of small blocks.\<close>

definition extend_count :: "Page \<Rightarrow> nat" where
  "extend_count pg = min (pres pg - pcap pg)
     (if unat (psize pg) \<ge> 4096 then 4 else max 4 (4096 div unat (psize pg)))"

lemma new_blocks:
  assumes "0 < e"
  shows "blocks_from (page_block p bs n) bs (Suc (e - 1)) = map (page_block p bs) [n..<n + e]"
proof -
  have "Suc (e - 1) = e" using assms by simp
  moreover have "map (page_block p bs) [n..<n + e] = map (\<lambda>i. page_block p bs (n + i)) [0..<e]"
    by (simp add: list_eq_iff_nth_eq)
  ultimately show ?thesis by (simp add: page_block_def calculate_page_block_at_def algebra_simps)
qed

lemma list_extend_ok:
  assumes pg: "page_at s p = Some pg" and ok: "blocks_ok (node_at s) p pg out fs ls ts" and e: "0 < e" "pcap pg + e \<le> pres pg"
    and fresh: "out \<inter> page_block p (psize pg) ` {pcap pg..<pres pg} = {}"
  shows "page_step s p pg (page_block p (psize pg) ` {pcap pg..<pres pg})
    (\<lambda>m' pg'. pcap pg' = pcap pg + e \<and> blocks_ok m' p pg' out (map (page_block p (psize pg)) [pcap pg..<pcap pg + e] @ fs) ls ts)
    (page_free_list_extend p (psize pg) (of_nat e) s)"
proof -
  have sp: "split_ok p pg out fs ls ts" and l: "ll (node_at s) (free (inner pg)) fs" "ll (node_at s) (local_free (inner pg)) ls" "tlist (node_at s) pg ts"
    using ok unfolding blocks_ok_def by blast+
  note d = split_okD [OF sp]
  let ?bs = "psize pg" and ?n = "pcap pg"
  let ?new = "map (page_block p ?bs) [?n..<?n + e]"
  have inj: "j = k" if "page_block p ?bs j = page_block p ?bs k" "j \<le> pres pg" "k \<le> pres pg" for j k
    using page_block_inject [OF d(1)] that by blast
  have dis: "pblocks p pg \<inter> page_block p ?bs ` {?n..<pres pg} = {}" using inj d(3) by (fastforce simp: blocks_of_def)
  have nset: "set ?new \<subseteq> page_block p ?bs ` {?n..<pres pg}" using e(2) by auto
  have nd: "set ?new \<inter> set (fs @ ls @ ts) = {}" using nset dis d(5) by blast
  let ?start = "page_block p ?bs ?n"
  have st: "unat ?start = unat (calculate_page_start p ?bs) + ?n * unat ?bs" by (rule page_block_unat [OF d(1,3)])
  have "?n * unat ?bs + (e - 1) * unat ?bs \<le> pres pg * unat ?bs"
    using mult_le_mono1 [of "?n + (e - 1)" "pres pg" "unat ?bs"] e(2) by (simp add: add_mult_distrib)
  then have room: "unat ?start + (e - 1) * unat ?bs < 2 ^ 64" using st d(1) unfolding page_fits_def by linarith
  have "0 < unat ?bs" using d(1) unfolding page_fits_def by blast
  then have pos: "0 < ?bs" by (metis unat_gt_0 word_gt_0)
  have "?start \<noteq> 0" by (rule page_block_nonnull [OF d(1,3)])
  from prepend_contiguous_blocks_spec [OF l(1) this pos room] nd
  obtain m' where m': "prepend_contiguous_blocks (node_at s) (free (inner pg)) ?start (?start + of_nat (e - 1) * ?bs) ?bs = Inr (m', ?start)"
    "ll m' ?start (?new @ fs)" "\<And>q. q \<notin> set ?new \<Longrightarrow> m' q = node_at s q"
    unfolding new_blocks [OF e(1)] by auto
  have last: "calculate_page_block_at (calculate_page_start p ?bs) ?bs (ucast (capacity (inner pg)) + of_nat e - 1) = ?start + of_nat (e - 1) * ?bs"
  proof -
    obtain j where "e = Suc j" using e(1) by (cases e) auto
    then show ?thesis by (simp add: page_block_def calculate_page_block_at_def algebra_simps)
  qed
  define pg1 where "pg1 = pg\<lparr>inner := (inner pg)\<lparr>free := ?start, capacity := capacity (inner pg) + ucast (of_nat e :: usize)\<rparr>\<rparr>"
  have r: "page_free_list_extend p ?bs (of_nat e) s = Inr (s\<lparr>page_at := (page_at s)(p \<mapsto> pg1), node_at := m'\<rparr>)"
    using pg m'(1) last by (simp add: page_free_list_extend_def Let_def upd_inner_eq st_canon pg1_def page_block_def)
  have e16: "unat (ucast (of_nat e :: usize) :: u16) = e" "?n + e < 2 ^ 16"
    using e(2) unat_bound [of "reserved (inner pg)"] by (simp_all add: unat_ucast_small unat_of_nat_small)
  then have c1: "pcap pg1 = ?n + e" by (simp add: pg1_def unat_add_small)
  have B1: "pblocks p pg1 = pblocks p pg \<union> set ?new" using blocks_of_add [of p ?bs ?n e] c1 by (simp add: pg1_def)
  have "distinct ?new" using inj e(2) by (auto simp: distinct_map inj_on_def)
  moreover have "out \<inter> set ?new = {}" using fresh nset by blast
  moreover have "pres pg1 = pres pg" "psize pg1 = ?bs" "used (inner pg1) = used (inner pg)" by (simp_all add: pg1_def)
  ultimately have "split_ok p pg1 out (?new @ fs) ls ts"
    using d nd e c1 dis nset unfolding split_ok_def B1 by auto
  moreover have "m' a = node_at s a" if "a \<in> set (ls @ ts)" for a using that m'(3) nd by auto
  then have "lseg m' q ls 0 = lseg (node_at s) q ls 0" "lseg m' q ts 0 = lseg (node_at s) q ts 0" for q by (auto intro!: lseg_cong)
  ultimately have b: "blocks_ok m' p pg1 out (?new @ fs) ls ts"
    using l(2,3) m'(2) unfolding blocks_ok_def tlist_def by (simp add: pg1_def)
  have "capacity (inner pg) \<le> capacity (inner pg1)" using c1 by (simp add: word_le_nat_alt)
  then have "page_kept pg pg1" by (simp add: page_kept_def pg1_def)
  then show ?thesis unfolding page_step_def r using m'(3) nset b c1 by (intro exI [of _ m'] exI [of _ pg1]) blast
qed

lemma extend_free_ok:
  assumes pg: "page_at s p = Some pg" and ok: "blocks_ok (node_at s) p pg out fs ls ts"
    and fresh: "out \<inter> page_block p (psize pg) ` {pcap pg..<pres pg} = {}"
  shows "page_step s p pg (page_block p (psize pg) ` {pcap pg..<pres pg})
    (\<lambda>m' pg'. pcap pg' = pcap pg + extend_count pg
      \<and> blocks_ok m' p pg' out (map (page_block p (psize pg)) [pcap pg..<pcap pg + extend_count pg] @ fs) ls ts)
    (page_extend_free p s)"
proof (cases "capacity (inner pg) \<ge> reserved (inner pg)")
  case True
  then have "extend_count pg = 0" by (simp add: extend_count_def word_le_nat_alt)
  moreover have "page_extend_free p s = Inr s" using pg True by (simp add: page_extend_free_def Let_def)
  ultimately show ?thesis using page_step_same [OF pg] ok by simp
next
  case False
  have "split_ok p pg out fs ls ts" using ok unfolding blocks_ok_def by blast
  note d = split_okD [OF this]
  let ?e = "extend_count pg" and ?x = "xblock_size (inner pg)"
  have lt: "pcap pg < pres pg" using False by (simp add: word_less_nat_alt not_le)
  have px: "0 < unat ?x" using d(1) unfolding page_fits_def unat_widen by blast
  have ex: "0 < ?e" "pcap pg + ?e \<le> pres pg" using lt by (auto simp: extend_count_def)
  note cast = narrow_widen [of ?x]
  let ?k = "if (psize pg) \<ge> ucast MAX_EXTEND_SIZE then MIN_EXTEND else ucast (MAX_EXTEND_SIZE div ?x)"
  let ?kk = "if ?k < MIN_EXTEND then MIN_EXTEND else ?k"
  have k: "unat ?kk = (if unat (psize pg) \<ge> 4096 then 4 else max 4 (4096 div unat (psize pg)))"
  proof -
    have "unat (ucast (MAX_EXTEND_SIZE div ?x) :: usize) = 4096 div unat ?x"
      by (simp add: MAX_EXTEND_SIZE_def unat_div unat_widen)
    then show ?thesis by (auto simp: MIN_EXTEND_def MAX_EXTEND_SIZE_def word_less_nat_alt word_le_nat_alt unat_widen)
  qed
  have diff: "unat (ucast (reserved (inner pg) - capacity (inner pg)) :: usize) = pres pg - pcap pg"
    using False by (simp add: unat_widen unat_sub_small)
  have "(if ucast (reserved (inner pg) - capacity (inner pg)) > ?kk then ?kk else ucast (reserved (inner pg) - capacity (inner pg))) = of_nat ?e"
  proof -
    have "pres pg < 2 ^ 16" using unat_bound [of "reserved (inner pg)"] by simp
    then have "?e < 2 ^ 64" using ex by simp
    then have "unat (of_nat ?e :: usize) = ?e" by (intro unat_of_nat_small) simp
    then show ?thesis using k diff by (auto simp: word_unat_eq_iff word_less_nat_alt extend_count_def)
  qed
  note ext = this
  have "page_extend_free p s = page_free_list_extend p (psize pg) (of_nat ?e) s"
    using pg False unfolding page_extend_free_def Let_def by (simp only: fetch_simps bindR_simps if_False cast ext)
  then show ?thesis using list_extend_ok [OF pg ok ex fresh] by simp
qed

end
