(* ===== verification/Alloc.thy ===== *)
theory Alloc
  imports Page_Blocks Queues
begin

text \<open>
  The allocator proper: pages of a heap (\<^verbatim>\<open>page.rs\<close>), freeing a block (\<^verbatim>\<open>free.rs\<close>), allocating one
  (\<^verbatim>\<open>alloc_fast.rs\<close>, \<^verbatim>\<open>alloc_generic.rs\<close>) and setting up a thread's heap (\<^verbatim>\<open>init.rs\<close>). Each
  function runs without interference: an exchange succeeds and a word read twice has not
  changed. What other threads do in between to the words they share is the subject of
  \<open>Thread_Free\<close>.
\<close>

section \<open>Words shared with other threads\<close>

text \<open>\<^verbatim>\<open>ThreadLLSimple::take\<close> and \<^verbatim>\<open>atomic_insert_block\<close> on the delayed list of a heap.\<close>

definition delayed_free_take :: "usize \<Rightarrow> st \<Rightarrow> (usize \<times> st) res" where
  "delayed_free_take heap s =
     bindR (fetch (heap_at s) heap) (\<lambda>h.
     let res = thread_delayed_free h in
     if res = 0 then Inr (LL_new, s)
     else bindR (upd_heap s heap (\<lambda>h. h\<lparr>thread_delayed_free := 0\<rparr>)) (\<lambda>s. Inr (res, s)))"

definition atomic_insert_block :: "usize \<Rightarrow> usize \<Rightarrow> st \<Rightarrow> st res" where
  "atomic_insert_block heap ptr s =
     bindR (fetch (heap_at s) heap) (\<lambda>h.
     let nxt = thread_delayed_free h in
     upd_heap (s\<lparr>node_at := block_write_ptr (node_at s) ptr nxt\<rparr>) heap (\<lambda>h. h\<lparr>thread_delayed_free := ptr\<rparr>))"

text \<open>While the word says \<^verbatim>\<open>Freeing\<close> the loop yields four times and gives up.\<close>

definition try_use_delayed_free :: "usize \<Rightarrow> usize \<Rightarrow> bool \<Rightarrow> st \<Rightarrow> (bool \<times> st) res" where
  "try_use_delayed_free page delay override_never s =
     bindR (fetch (page_at s) page) (\<lambda>pg.
     let tfree = xthread_free pg;
         tfreex = masked_ptr_delay_set_delay tfree delay;
         old_delay = masked_ptr_delay_get_delay tfree in
     if old_delay = 1 then Inr (False, s)
     else if delay = old_delay then Inr (True, s)
     else if \<not> override_never \<and> old_delay = 3 then Inr (True, s)
     else bindR (upd_page s page (\<lambda>g. g\<lparr>xthread_free := tfreex\<rparr>)) (\<lambda>s. Inr (True, s)))"

definition page_try_use_delayed_free :: "usize \<Rightarrow> usize \<Rightarrow> bool \<Rightarrow> st \<Rightarrow> (bool \<times> st) res" where
  "page_try_use_delayed_free page delay override_never s = try_use_delayed_free page delay override_never s"


section \<open>Pages of a heap\<close>

definition page_init :: "usize \<Rightarrow> usize \<Rightarrow> usize \<Rightarrow> usize \<Rightarrow> st \<Rightarrow> st res" where
  "page_init heap page bsize tld s =
     bindR (fetch (page_at s) page) (\<lambda>pg.
     let n = pcount pg in
     bindR (upd_page s page (\<lambda>g. g\<lparr>xheap := heap\<rparr>)) (\<lambda>s.
     bindR (upd_inner s page (\<lambda>i.
        let start_offs = calculate_start_offset bsize;
            page_size = n * ucast SLICE_SIZE - start_offs in
        i\<lparr>xblock_size := ucast bsize, reserved := ucast (page_size div ucast bsize)\<rparr>)) (\<lambda>s.
     page_extend_free page s)))"

definition page_fresh_alloc :: "Env \<Rightarrow> usize \<Rightarrow> usize \<Rightarrow> usize \<Rightarrow> usize \<Rightarrow> st \<Rightarrow> (usize \<times> st) res" where
  "page_fresh_alloc env heap pq bsize page_alignment s =
     bindR (fetch (heap_at s) heap) (\<lambda>h.
     bindR (segment_page_alloc env heap bsize page_alignment (tld_ptr h) s) (\<lambda>(page, s).
     if page = 0 then Inr (page, s)
     else
       bindR (fetch (heap_at s) heap) (\<lambda>h.
       bindR (page_init heap page bsize (tld_ptr h) s) (\<lambda>s.
       bindR (page_queue_push s heap pq page) (\<lambda>s. Inr (page, s))))))"

definition page_fresh :: "Env \<Rightarrow> usize \<Rightarrow> usize \<Rightarrow> st \<Rightarrow> (usize \<times> st) res" where
  "page_fresh env heap pq s =
     bindR (get_queue s heap pq) (\<lambda>cq. page_fresh_alloc env heap pq (pq_block_size cq) 0 s)"

definition page_to_full :: "usize \<Rightarrow> usize \<Rightarrow> usize \<Rightarrow> st \<Rightarrow> st res" where
  "page_to_full page heap pq s =
     bindR (page_queue_enqueue_from s heap BIN_FULL pq page) (page_free_collect page False)"

definition page_unfull :: "usize \<Rightarrow> st \<Rightarrow> st res" where
  "page_unfull page s =
     bindR (fetch (page_at s) page) (\<lambda>pg.
     let heap = xheap pg; pq = ucast (bin (ucast (xblock_size (inner pg)))) in
     page_queue_enqueue_from s heap pq BIN_FULL page)"

text \<open>
  The loop of \<^verbatim>\<open>page_queue_find_free_ex\<close>; a queue is a list of distinct pages, so
  \<open>address_count\<close> rounds reach its end. The result is the page the loop stops at, 0 at the end.
\<close>

fun find_free_loop :: "nat \<Rightarrow> usize \<Rightarrow> usize \<Rightarrow> usize \<Rightarrow> st \<Rightarrow> (usize \<times> st) res" where
  "find_free_loop 0 heap pq page s = Inl Diverge"
| "find_free_loop (Suc fuel) heap pq page s =
     (if page = 0 then Inr (page, s)
      else
        bindR (fetch (page_at s) page) (\<lambda>pg.
        let nxt = next_ptr pg in
        bindR (page_free_collect page False s) (\<lambda>s.
        bindR (fetch (page_at s) page) (\<lambda>pg.
        if \<not> LL_is_empty (free (inner pg)) then Inr (page, s)
        else if capacity (inner pg) < reserved (inner pg) then
          bindR (page_extend_free page s) (\<lambda>s. Inr (page, s))
        else
          bindR (page_to_full page heap pq s) (\<lambda>s.
          find_free_loop fuel heap pq nxt s)))))"

function page_queue_find_free_ex :: "Env \<Rightarrow> usize \<Rightarrow> usize \<Rightarrow> bool \<Rightarrow> st \<Rightarrow> (usize \<times> st) res" where
  "page_queue_find_free_ex env heap pq first_try s =
     bindR (get_queue s heap pq) (\<lambda>cq.
     bindR (find_free_loop address_count heap pq (pq_first cq) s) (\<lambda>(page, s).
     if page = 0 then
       bindR (page_fresh env heap pq s) (\<lambda>(page, s).
       if page = 0 \<and> first_try then page_queue_find_free_ex env heap pq False s
       else Inr (page, s))
     else
       bindR (upd_inner s page (set_retire_expire 0)) (\<lambda>s. Inr (page, s))))"
  by pat_completeness auto
termination by (relation "measure (\<lambda>(env, heap, pq, first_try, s). if first_try then 1 else 0)") auto

declare page_queue_find_free_ex.simps [simp del]

definition find_free_page :: "Env \<Rightarrow> usize \<Rightarrow> usize \<Rightarrow> st \<Rightarrow> (usize \<times> st) res" where
  "find_free_page env heap sz s =
     (let pq = ucast (bin sz) in
      bindR (get_queue s heap pq) (\<lambda>cq.
      let page = pq_first cq in
      if page \<noteq> 0 then
        bindR (page_free_collect page False s) (\<lambda>s.
        bindR (fetch (page_at s) page) (\<lambda>pg.
        if \<not> LL_is_empty (free (inner pg)) then Inr (page, s)
        else page_queue_find_free_ex env heap pq True s))
      else page_queue_find_free_ex env heap pq True s))"

definition find_page :: "Env \<Rightarrow> usize \<Rightarrow> usize \<Rightarrow> usize \<Rightarrow> st \<Rightarrow> (usize \<times> st) res" where
  "find_page env heap sz huge_alignment s =
     (if sz > MEDIUM_OBJ_SIZE_MAX \<or> huge_alignment > 0 then
        if sz > MAX_ALLOC_SIZE then Inr (0, s) else todo
      else find_free_page env heap sz s)"

definition page_queue_of :: "usize \<Rightarrow> st \<Rightarrow> (usize \<times> usize) res" where
  "page_queue_of page s =
     bindR (fetch (page_at s) page) (\<lambda>pg.
     let is_in_full = get_in_full (inner pg);
         b = (if is_in_full then BIN_FULL else ucast (bin (ucast (xblock_size (inner pg))))) in
     Inr (xheap pg, b))"

definition page_free :: "Env \<Rightarrow> usize \<Rightarrow> usize \<Rightarrow> bool \<Rightarrow> st \<Rightarrow> st res" where
  "page_free env page pq force s =
     bindR (upd_inner s page (set_has_aligned False)) (\<lambda>s.
     bindR (fetch (page_at s) page) (\<lambda>pg.
     let heap = xheap pg in
     bindR (page_queue_remove s heap pq page) (\<lambda>s.
     bindR (fetch (heap_at s) heap) (\<lambda>h.
     segment_page_free env page force (tld_ptr h) s))))"

definition MAX_RETIRE_SIZE :: u32 where "MAX_RETIRE_SIZE = ucast MEDIUM_OBJ_SIZE_MAX"

definition page_retire :: "Env \<Rightarrow> usize \<Rightarrow> st \<Rightarrow> st res" where
  "page_retire env page s =
     bindR (page_queue_of page s) (\<lambda>(heap, pq).
     bindR (fetch (page_at s) page) (\<lambda>pg.
     bindR (get_queue s heap pq) (\<lambda>cq.
     if xblock_size (inner pg) \<le> MAX_RETIRE_SIZE \<and> \<not> pq_block_size cq > MEDIUM_OBJ_SIZE_MAX
        \<and> pq_last cq = page \<and> pq_first cq = page then
       let RETIRE_CYCLES = 8 in
       bindR (upd_inner s page (\<lambda>i.
          let xb = ucast (xblock_size i) in
          set_retire_expire (1 + (if xb \<le> SMALL_OBJ_SIZE_MAX then RETIRE_CYCLES else RETIRE_CYCLES div 4)) i)) (\<lambda>s.
       bindR (upd_heap s heap (\<lambda>h. if pq < page_retired_min h then h\<lparr>page_retired_min := pq\<rparr> else h)) (\<lambda>s.
       upd_heap s heap (\<lambda>h. if pq > page_retired_max h then h\<lparr>page_retired_max := pq\<rparr> else h)))
     else page_free env page pq False s)))"


section \<open>Freeing a block\<close>

definition free_block_mt :: "usize \<Rightarrow> usize \<Rightarrow> st \<Rightarrow> st res" where
  "free_block_mt page ptr s =
     bindR (fetch (page_at s) page) (\<lambda>pg.
     let msk = xthread_free pg;
         use_delayed = masked_ptr_delay_get_is_use_delayed msk in
     if use_delayed then
       bindR (upd_page s page (\<lambda>g. g\<lparr>xthread_free := masked_ptr_delay_set_freeing msk\<rparr>)) (\<lambda>s.
       bindR (atomic_insert_block (xheap pg) ptr s) (\<lambda>s.
       upd_page s page (\<lambda>g. g\<lparr>xthread_free := leave_freeing (xthread_free g)\<rparr>)))
     else
       upd_page (s\<lparr>node_at := block_write_ptr (node_at s) ptr (masked_ptr_delay_get_ptr msk)\<rparr>) page
         (\<lambda>g. g\<lparr>xthread_free := masked_ptr_delay_set_ptr msk ptr\<rparr>))"

text \<open>The lines \<^verbatim>\<open>free\<close> and \<^verbatim>\<open>free_block\<close> share: the block goes on the free list; the result is \<^verbatim>\<open>used\<close>.\<close>

definition free_local :: "usize \<Rightarrow> usize \<Rightarrow> st \<Rightarrow> (u32 \<times> st) res" where
  "free_local page ptr s =
     bindR (fetch (page_at s) page) (\<lambda>pg.
     let (m, first) = insert_block (node_at s) (free (inner pg)) ptr;
         u = used (inner pg) - 1 in
     bindR (upd_inner (s\<lparr>node_at := m\<rparr>) page (\<lambda>i. i\<lparr>free := first, used := u\<rparr>)) (\<lambda>s. Inr (u, s)))"

definition free_block :: "Env \<Rightarrow> usize \<Rightarrow> bool \<Rightarrow> usize \<Rightarrow> st \<Rightarrow> st res" where
  "free_block env page is_local ptr s =
     (if is_local then
        bindR (free_local page ptr s) (\<lambda>(u, s).
        if u = 0 then page_retire env page s
        else
          bindR (fetch (page_at s) page) (\<lambda>pg.
          if get_in_full (inner pg) then page_unfull page s else Inr s))
      else free_block_mt page ptr s)"

definition free_generic :: "Env \<Rightarrow> usize \<Rightarrow> usize \<Rightarrow> bool \<Rightarrow> usize \<Rightarrow> st \<Rightarrow> st res" where
  "free_generic env segment page is_local p s = free_block env page is_local p s"

text \<open>The page of a block (the same lines in \<^verbatim>\<open>free\<close> and \<^verbatim>\<open>free_delayed_block\<close>).\<close>

definition block_page :: "usize \<Rightarrow> usize \<Rightarrow> st \<Rightarrow> usize res" where
  "block_page ptr segment s =
     (let slice_page_ptr = calculate_slice_page_ptr_from_block ptr segment in
      bindR (fetch (page_at s) slice_page_ptr) (\<lambda>slice_page.
      Inr (calculate_page_ptr_subtract_offset slice_page_ptr (poffset slice_page))))"

definition mi_free :: "Env \<Rightarrow> usize \<Rightarrow> st \<Rightarrow> st res" where
  "mi_free env ptr s =
     (if ptr = 0 then Inr s
      else
        let segment_ptr = calculate_segment_ptr_from_block ptr in
        bindR (fetch (segment_at s) segment_ptr) (\<lambda>segment.
        let is_local = (env_thread_id env = thread_id segment) in
        bindR (block_page ptr segment_ptr s) (\<lambda>page.
        if is_local then
          bindR (fetch (page_at s) page) (\<lambda>pg.
          if not_full_nor_aligned (inner pg) then
            bindR (free_local page ptr s) (\<lambda>(u, s).
            if u = 0 then page_retire env page s else Inr s)
          else free_generic env segment_ptr page True ptr s)
        else free_generic env segment_ptr page False ptr s)))"

definition free_delayed_block :: "Env \<Rightarrow> usize \<Rightarrow> st \<Rightarrow> (bool \<times> st) res" where
  "free_delayed_block env ptr s =
     (let segment = calculate_segment_ptr_from_block ptr in
      bindR (block_page ptr segment s) (\<lambda>page.
      bindR (page_try_use_delayed_free page 0 False s) (\<lambda>(ok, s).
      if \<not> ok then Inr (False, s)
      else
        bindR (page_free_collect page False s) (\<lambda>s.
        bindR (free_block env page True ptr s) (\<lambda>s. Inr (True, s))))))"


section \<open>Allocating a block\<close>

text \<open>The loop over the detached delayed list; its nodes are distinct, so \<open>address_count\<close> rounds empty it.\<close>

fun delayed_free_loop :: "nat \<Rightarrow> Env \<Rightarrow> usize \<Rightarrow> usize \<Rightarrow> bool \<Rightarrow> st \<Rightarrow> (bool \<times> st) res" where
  "delayed_free_loop 0 env heap list all_freed s = Inl Diverge"
| "delayed_free_loop (Suc fuel) env heap list all_freed s =
     (if LL_is_empty list then Inr (all_freed, s)
      else
        bindR (pop_block (node_at s) list) (\<lambda>(ptr, list).
        bindR (free_delayed_block env ptr s) (\<lambda>(success, s).
        if \<not> success then
          bindR (atomic_insert_block heap ptr s) (\<lambda>s. delayed_free_loop fuel env heap list False s)
        else delayed_free_loop fuel env heap list all_freed s)))"

definition heap_delayed_free_partial :: "Env \<Rightarrow> usize \<Rightarrow> st \<Rightarrow> (bool \<times> st) res" where
  "heap_delayed_free_partial env heap s =
     bindR (delayed_free_take heap s) (\<lambda>(list, s). delayed_free_loop address_count env heap list True s)"

text \<open>
  \<^verbatim>\<open>page_malloc\<close> and \<^verbatim>\<open>malloc_generic\<close> call each other; the generic path hands \<^verbatim>\<open>page_malloc\<close> a page
  with a free block, so no call nests deeper than three.
\<close>

fun page_malloc_rec :: "nat \<Rightarrow> Env \<Rightarrow> usize \<Rightarrow> usize \<Rightarrow> usize \<Rightarrow> bool \<Rightarrow> st \<Rightarrow> (usize \<times> st) res"
  and malloc_generic_rec :: "nat \<Rightarrow> Env \<Rightarrow> usize \<Rightarrow> usize \<Rightarrow> bool \<Rightarrow> usize \<Rightarrow> st \<Rightarrow> (usize \<times> st) res" where
  "page_malloc_rec 0 env heap page sz zero s = Inl Diverge"
| "page_malloc_rec (Suc fuel) env heap page sz zero s =
     bindR (fetch (page_at s) page) (\<lambda>pg.
     if LL_is_empty (free (inner pg)) then malloc_generic_rec fuel env heap sz zero 0 s
     else
       bindR (pop_block (node_at s) (free (inner pg))) (\<lambda>(ptr, rest).
       bindR (upd_inner s page (\<lambda>i. i\<lparr>free := rest, used := used i + 1\<rparr>)) (\<lambda>s.
       Inr (ptr, s))))"
| "malloc_generic_rec 0 env heap sz zero huge_alignment s = Inl Diverge"
| "malloc_generic_rec (Suc fuel) env heap sz zero huge_alignment s =
     bindR (heap_delayed_free_partial env heap s) (\<lambda>(all_freed, s).
     bindR (find_page env heap sz huge_alignment s) (\<lambda>(page, s).
     if page = 0 then todo
     else
       bindR (fetch (page_at s) page) (\<lambda>pg.
       if zero \<and> xblock_size (inner pg) = 0 then todo
       else page_malloc_rec fuel env heap page sz zero s)))"

definition page_malloc :: "Env \<Rightarrow> usize \<Rightarrow> usize \<Rightarrow> usize \<Rightarrow> bool \<Rightarrow> st \<Rightarrow> (usize \<times> st) res" where
  "page_malloc = page_malloc_rec 3"

definition malloc_generic :: "Env \<Rightarrow> usize \<Rightarrow> usize \<Rightarrow> bool \<Rightarrow> usize \<Rightarrow> st \<Rightarrow> (usize \<times> st) res" where
  "malloc_generic = malloc_generic_rec 2"

definition heap_get_free_small_page :: "usize \<Rightarrow> usize \<Rightarrow> st \<Rightarrow> usize res" where
  "heap_get_free_small_page heap sz s =
     (let i = (sz + 7) div 8 in
      bindR (fetch (heap_at s) heap) (\<lambda>h. index (pages_free_direct h) (unat i)))"

definition heap_malloc_small_zero :: "Env \<Rightarrow> usize \<Rightarrow> usize \<Rightarrow> bool \<Rightarrow> st \<Rightarrow> (usize \<times> st) res" where
  "heap_malloc_small_zero env heap sz zero s =
     bindR (heap_get_free_small_page heap sz s) (\<lambda>page. page_malloc env heap page sz zero s)"

definition heap_malloc_zero_ex :: "Env \<Rightarrow> usize \<Rightarrow> usize \<Rightarrow> bool \<Rightarrow> usize \<Rightarrow> st \<Rightarrow> (usize \<times> st) res" where
  "heap_malloc_zero_ex env heap sz zero huge_alignment s =
     (if sz \<le> SMALL_SIZE_MAX then heap_malloc_small_zero env heap sz zero s
      else malloc_generic env heap sz zero huge_alignment s)"

definition heap_malloc_zero :: "Env \<Rightarrow> usize \<Rightarrow> usize \<Rightarrow> bool \<Rightarrow> st \<Rightarrow> (usize \<times> st) res" where
  "heap_malloc_zero env heap sz zero s = heap_malloc_zero_ex env heap sz zero 0 s"

definition heap_malloc :: "Env \<Rightarrow> usize \<Rightarrow> usize \<Rightarrow> st \<Rightarrow> (usize \<times> st) res" where
  "heap_malloc env heap sz s = heap_malloc_zero env heap sz False s"


section \<open>Setting up a heap\<close>

definition increment_thread_count :: "st \<Rightarrow> st" where
  "increment_thread_count s = s\<lparr>thread_count := thread_count s + 1\<rparr>"

definition current_thread_count :: "st \<Rightarrow> usize" where
  "current_thread_count s = thread_count s"

definition thread_data_alloc :: "Env \<Rightarrow> st \<Rightarrow> (usize \<times> st) res" where
  "thread_data_alloc env s =
     (let (addr, s) = mmap_prot_read_write env 0 4096 s in
      if addr = MAP_FAILED then todo else Inr (addr, s))"

definition init_empty_page_ptr :: "Env \<Rightarrow> st \<Rightarrow> (usize \<times> st) res" where
  "init_empty_page_ptr env s =
     (let (pt, s) = mmap_prot_read_write env 0 4096 s in
      if pt = MAP_FAILED then todo
      else Inr (pt, s\<lparr>page_at := (page_at s)(pt \<mapsto> zeroed_page)\<rparr>))"

text \<open>The loops of \<^verbatim>\<open>heap_init\<close> that fill the two tables.\<close>

primrec fill_upto :: "nat \<Rightarrow> 'a list \<Rightarrow> 'a \<Rightarrow> 'a list res" where
  "fill_upto 0 xs v = Inr xs"
| "fill_upto (Suc n) xs v =
     bindR (fill_upto n xs v) (\<lambda>ys. if n < length ys then Inr (ys[n := v]) else Inl Panic)"

definition heap_init :: "Env \<Rightarrow> st \<Rightarrow> (usize \<times> st) res" where
  "heap_init env s =
     (let s = increment_thread_count s in
      bindR (thread_data_alloc env s) (\<lambda>(addr, s).
      if addr = 0 then Inr (0, s)
      else
        let heap_p = addr; tld_p = addr + SIZEOF_HEAP in
        bindR (init_empty_page_ptr env s) (\<lambda>(empty_ptr, s).
        bindR (fill_upto (unat PAGES_DIRECT) pages_free_direct_tmp empty_ptr) (\<lambda>pfd.
        bindR (fill_upto (unat (SEGMENT_BIN_MAX + 1)) span_queue_headers_tmp \<lparr>sq_first = 0, sq_last = 0\<rparr>) (\<lambda>sq.
        let hp = \<lparr>tld_ptr = tld_p, pages_free_direct = pfd, pages = pages_tmp, thread_delayed_free = 0,
                heap_thread_id = env_thread_id env, arena_id = 0, page_count = 0, page_retired_min = 0,
                page_retired_max = 0, no_reclaim = False, page_empty_ptr = empty_ptr\<rparr>;
            td = \<lparr>heap_backing = heap_p, segments = \<lparr>span_queue_headers = sq, segments_count = 0,
                peak_count = 0, current_size = 0, peak_size = 0\<rparr>\<rparr> in
        Inr (heap_p, s\<lparr>heap_at := (heap_at s)(heap_p \<mapsto> hp), tld_at := (tld_at s)(tld_p \<mapsto> td)\<rparr>))))))"

end
