(* ===== verification/Heap_Inv.thy ===== *)
theory Heap_Inv
  imports Header_Frame Alloc
begin

text \<open>
  The invariant of a thread's heap between calls. It joins the invariants of the layers below:
  the segments and their spans, the page queues with the direct table, and the split of each
  page's blocks. The abstract state is the map \<open>B\<close> of the blocks that are out to the number of
  bytes their owner may use.
\<close>

section \<open>The invariant\<close>

type_synonym live = "usize \<rightharpoonup> nat"

text \<open>The words the allocator must leave alone: those of a block that is out, at least its first.\<close>

definition owned :: "live \<Rightarrow> usize set" where
  "owned B = {x. \<exists>b n. B b = Some n \<and> unat b \<le> unat x \<and> unat x < unat b + max 1 n}"

text \<open>Queue \<open>k\<close> holds the page; 74 is the queue of full pages, 75 stands for no queue.\<close>

definition hdr_ok :: "usize \<Rightarrow> nat \<Rightarrow> Page \<Rightarrow> bool" where
  "hdr_ok heap k pg \<longleftrightarrow> xheap pg = heap \<and> \<not> get_has_aligned (inner pg) \<and> (k < 75 \<longrightarrow> get_in_full (inner pg) = (k = 74))
     \<and> (\<exists>b. 1 \<le> b \<and> b \<le> 52 \<and> unat (psize pg) = size_of_bin (int b) \<and> (k < 74 \<longrightarrow> k = b))
     \<and> start_offset (unat (psize pg)) + pres pg * unat (psize pg) \<le> 65536 * unat (pcount pg)"

definition page_ok :: "st \<Rightarrow> usize \<Rightarrow> live \<Rightarrow> nat \<Rightarrow> usize \<Rightarrow> bool" where
  "page_ok s heap B k p \<longleftrightarrow> (\<exists>pg fs ls ts. page_at s p = Some pg \<and> hdr_ok heap k pg
     \<and> blocks_ok (node_at s) p pg (dom B) fs ls ts \<and> (\<forall>b n. B b = Some n \<longrightarrow> b \<in> pblocks p pg \<longrightarrow> n \<le> unat (psize pg)))"

definition queued :: "usize list list \<Rightarrow> usize set" where
  "queued Q = \<Union> (set ` set Q)"

definition placed :: "usize list list \<Rightarrow> usize set \<Rightarrow> nat \<Rightarrow> usize \<Rightarrow> bool" where
  "placed Q X k p \<longleftrightarrow> k < length Q \<and> p \<in> set (Q ! k) \<or> k = 75 \<and> p \<in> X"

definition pages_ok :: "st \<Rightarrow> usize \<Rightarrow> live \<Rightarrow> usize list list \<Rightarrow> usize set \<Rightarrow> bool" where
  "pages_ok s heap B Q X \<longleftrightarrow> (\<forall>k p. placed Q X k p \<longrightarrow> page_ok s heap B k p)
     \<and> (\<forall>b \<in> dom B. \<exists>p \<in> queued Q \<union> X. \<exists>pg. page_at s p = Some pg \<and> b \<in> pblocks p pg)"

text \<open>The segments belong to the thread, the slices of a page are committed, and headers out of use are clean.\<close>

definition segs_ok :: "u64 \<Rightarrow> usize \<Rightarrow> usize \<Rightarrow> st \<Rightarrow> usize set \<Rightarrow> spans \<Rightarrow> bool" where
  "segs_ok tid tld emp s U M \<longleftrightarrow> seg_inv tld s U M
     \<and> (\<forall>g sg. segment_at s g = Some sg \<longrightarrow> thread_id sg = tid \<and> abandoned (main2 sg) = 0)
     \<and> (\<forall>g i c. M (g, i) = Some (c, UsedSpan) \<longrightarrow> 0 < i \<longrightarrow> {i..<i + c} \<subseteq> committed s g)
     \<and> emp \<in> dom (page_at s) \<and> (\<forall>g \<in> dom (segment_at s). \<not> in_segment g emp)
     \<and> (\<forall>x pg. page_at s x = Some pg \<longrightarrow> x \<notin> U \<longrightarrow> clean pg)"

definition heap_inv :: "u64 \<Rightarrow> usize \<Rightarrow> st \<Rightarrow> live \<Rightarrow> usize list list \<Rightarrow> usize set \<Rightarrow> spans \<Rightarrow> bool" where
  "heap_inv tid heap s B Q X M \<longleftrightarrow> (\<exists>h. heap_at s heap = Some h \<and> segs_ok tid (tld_ptr h) (page_empty_ptr h) s (queued Q \<union> X) M)
     \<and> heap_ok s heap Q \<and> X \<inter> queued Q = {} \<and> pages_ok s heap B Q X"


section \<open>Where blocks lie\<close>

lemma queued_iff: "p \<in> queued Q \<longleftrightarrow> (\<exists>k<length Q. p \<in> set (Q ! k))"
  by (auto simp: queued_def set_conv_nth [of Q])

lemma placed_iff: "p \<in> queued Q \<union> X \<longleftrightarrow> (\<exists>k. placed Q X k p)"
  by (auto simp: placed_def queued_iff)

lemma seg_inv_hdr:
  assumes "seg_inv tld s U M" "p \<in> U"
  obtains g i c where "p = hdr g i" "0 < i" "M (g, i) = Some (c, UsedSpan)" "g \<in> dom (segment_at s)" "seg_addr_ok g" "0 < c" "i + c \<le> 512"
    "tiled M g" "span_hdr (page_at s) g i c UsedSpan"
proof -
  note v = assms(1) [unfolded seg_inv_def]
  obtain t L where sp: "spans_inv (page_at s) (sqs t) (dom (segment_at s)) M L" using v unfolding seg_ok_def by blast
  obtain g i c where m: "p = hdr g i" "0 < i" "M (g, i) = Some (c, UsedSpan)" using v assms(2) by blast
  show ?thesis using that [OF m] spans_invD [OF sp m(3)] by blast
qed

lemma page_start_at:
  assumes "seg_addr_ok g" "i \<le> 512"
  shows "unat (calculate_page_start (hdr g i) bs) = unat g + 65536 * i + start_offset (unat bs)"
  using calculate_page_start_ok [OF hdr_page_ptr [OF assms], of bs] assms(1)
  by (auto simp: page_start_def segment_start_def layout_consts seg_addr_ok_def)

lemma start_offset_8: "8 dvd start_offset n" "start_offset n \<le> 384"
  by (simp_all add: start_offset_def layout_consts)

text \<open>The room of a page is that of its span.\<close>

lemma span_fits:
  assumes g: "seg_addr_ok g" "0 < i" "i + c \<le> 512" and bs: "0 < unat bs" "8 dvd unat bs"
    and room: "start_offset (unat bs) + n * unat bs \<le> 65536 * c"
  shows "page_fits (hdr g i) bs n"
proof -
  have i: "i \<le> 512" using g(3) by simp
  have a: "33554432 dvd unat g" "unat g + 33554432 < 2 ^ 64" using g(1) by (auto simp: seg_addr_ok_def)
  then have "8 dvd unat g" by (auto elim!: dvdE)
  then have d: "8 dvd unat g + 65536 * i + start_offset (unat bs)" using start_offset_8(1) [of "unat bs"] by simp
  have "65536 * i + 65536 * c \<le> 33554432" using g(3) by simp
  then have "unat g + 65536 * i + start_offset (unat bs) + n * unat bs < 2 ^ 64" using a(2) room by linarith
  then show ?thesis using bs d g(2) unfolding page_fits_def page_start_at [OF g(1) i] by simp
qed

lemma span_block:
  assumes g: "seg_addr_ok g" "i + c \<le> 512" and fits: "page_fits (hdr g i) bs n" and k: "k < n"
    and room: "start_offset (unat bs) + n * unat bs \<le> 65536 * c"
  shows "unat (page_block (hdr g i) bs k) = unat g + 65536 * i + start_offset (unat bs) + k * unat bs"
    "unat g + 65536 * i \<le> unat (page_block (hdr g i) bs k)"
    "unat (page_block (hdr g i) bs k) + unat bs \<le> unat g + 65536 * (i + c)"
proof -
  show b: "unat (page_block (hdr g i) bs k) = unat g + 65536 * i + start_offset (unat bs) + k * unat bs"
    using page_block_unat [OF fits, of k] page_start_at [OF g(1), of i bs] g(2) k by simp
  then show "unat g + 65536 * i \<le> unat (page_block (hdr g i) bs k)" by simp
  have "Suc k * unat bs \<le> n * unat bs" using k by (intro mult_le_mono1) simp
  then show "unat (page_block (hdr g i) bs k) + unat bs \<le> unat g + 65536 * (i + c)" using room unfolding b by simp
qed


section \<open>Changes of used headers\<close>

definition hdrs_change :: "usize set \<Rightarrow> page_map \<Rightarrow> page_map \<Rightarrow> bool" where
  "hdrs_change U P P' \<longleftrightarrow> (\<forall>x. x \<notin> U \<longrightarrow> P' x = P x) \<and> (\<forall>x \<in> U. \<exists>pg pg'. P x = Some pg \<and> P' x = Some pg'
     \<and> pcount pg' = pcount pg \<and> poffset pg' = poffset pg \<and> xblock_size (inner pg') \<noteq> 0)"

lemma seg_inv_headers:
  assumes inv: "seg_inv tld s U M" and ch: "hdrs_change U (page_at s) P"
  shows "seg_inv tld (s\<lparr>page_at := P, heap_at := H, node_at := N\<rparr>) U M"
proof -
  note v = inv [unfolded seg_inv_def]
  let ?s = "s\<lparr>page_at := P, heap_at := H, node_at := N\<rparr>" and ?G = "dom (segment_at s)"
  obtain t L where t: "tld_at s tld = Some t" "spans_inv (page_at s) (sqs t) ?G M L" "\<And>g. g \<in> ?G \<Longrightarrow> commit_ok s g"
    using v unfolding seg_ok_def by blast
  have U: "x \<in> U \<longleftrightarrow> (\<exists>g i c. x = hdr g i \<and> 0 < i \<and> M (g, i) = Some (c, UsedSpan))" for x using v by blast
  have rel: "\<exists>pg'. P x = Some pg' \<and> pcount pg' = pcount pg \<and> poffset pg' = poffset pg \<and> (x \<notin> U \<longrightarrow> pg' = pg)
      \<and> (x \<in> U \<longrightarrow> xblock_size (inner pg') \<noteq> 0)" if "page_at s x = Some pg" for x pg
    using ch that unfolding hdrs_change_def by (cases "x \<in> U") auto
  have free: "hdr g k \<notin> U" if m: "M (g, i) = Some (c, u)" "u \<noteq> UsedSpan" "i \<le> k" "k < i + c" for g i c u k
  proof
    assume "hdr g k \<in> U"
    then obtain g' i' c' where x: "hdr g k = hdr g' i'" "M (g', i') = Some (c', UsedSpan)" using U by blast
    note d = spans_invD [OF t(2) m(1)] and d' = spans_invD [OF t(2) x(2)]
    have "g = g' \<and> k = i'" using hdr_inject [OF d(1) d'(1), of k i'] x(1) m(4) d(3) d'(4) by simp
    then have k: "M (g, k) = Some (c', UsedSpan)" using x(2) by simp
    then show False using tiled_inside [OF d(8) m(1), of k] m by (cases "k = i") auto
  qed
  have sh: "span_hdr P g i c u" if m: "M (g, i) = Some (c, u)" for g i c u
  proof (cases "u = PoppedSpan")
    case False
    note d = spans_invD [OF t(2) m]
    have h: "span_hdr (page_at s) g i c u" using d(6) .
    obtain pg where pg: "page_at s (hdr g i) = Some pg" "pcount pg = of_nat c" "poffset pg = 0" "xblock_size (inner pg) = 0 \<longleftrightarrow> u = FreeSpan"
      using h False unfolding span_hdr_def by blast
    obtain pg' where pg': "P (hdr g i) = Some pg'" "pcount pg' = pcount pg" "poffset pg' = poffset pg" "hdr g i \<notin> U \<longrightarrow> pg' = pg"
      "hdr g i \<in> U \<longrightarrow> xblock_size (inner pg') \<noteq> 0" using rel [OF pg(1)] by blast
    have "xblock_size (inner pg') = 0 \<longleftrightarrow> u = FreeSpan"
    proof (cases "hdr g i \<in> U")
      case True
      then have "u \<noteq> FreeSpan" using free [OF m, of i] d(2) by auto
      then show ?thesis using pg'(5) True by simp
    next
      case False
      then show ?thesis using pg' pg(4) by simp
    qed
    moreover have "\<exists>pg. P (hdr g (i + m)) = Some pg \<and> poffset pg = of_nat m * 80" if m: "m < c" "u = UsedSpan \<or> m = c - 1" for m
    proof -
      obtain pg where "page_at s (hdr g (i + m)) = Some pg" "poffset pg = of_nat m * 80" using h \<open>u \<noteq> PoppedSpan\<close> m unfolding span_hdr_def by blast
      then show ?thesis using rel [of "hdr g (i + m)" pg] by auto
    qed
    ultimately show ?thesis using pg'(1-3) pg(2,3) unfolding span_hdr_def by auto
  qed (simp add: span_hdr_def)
  have q: "dseg P 0 (L ! b) 0" if b: "b < 32" for b
  proof -
    have "P x = page_at s x" if xb: "x \<in> set (L ! b)" for x
    proof -
      obtain g i c where x: "x = hdr g i" "M (g, i) = Some (c, FreeSpan)" using xb t(2) b unfolding spans_inv_def free_hdrs_def by blast
      then have "x \<notin> U" using free [OF x(2), of i] spans_invD(2) [OF t(2) x(2)] by simp
      then show ?thesis using ch unfolding hdrs_change_def by blast
    qed
    then have "dseg P 0 (L ! b) 0 = dseg (page_at s) 0 (L ! b) 0" by (rule dseg_cong)
    then show ?thesis using t(2) b unfolding spans_inv_def by blast
  qed
  have dom: "P x \<noteq> None" if "page_at s x \<noteq> None" for x using that rel by (cases "page_at s x") force+
  have "spans_inv P (sqs t) ?G M L" using t(2) sh q dom unfolding spans_inv_def by blast
  moreover have "commit_ok ?s g" if "g \<in> ?G" for g using t(3) [OF that] commit_ok_cong [of ?s s g] by simp
  ultimately have "seg_ok ?s tld ?G M" using t(1) unfolding seg_ok_def by auto
  then show ?thesis using v unfolding seg_inv_def by simp
qed

lemma segs_ok_headers:
  assumes ok: "segs_ok tid tld emp s U M" and ch: "hdrs_change U (page_at s) P"
  shows "segs_ok tid tld emp (s\<lparr>page_at := P, heap_at := H, node_at := N\<rparr>) U M"
proof -
  have "committed (s\<lparr>page_at := P, heap_at := H, node_at := N\<rparr>) g = committed s g" for g by (simp add: committed_def)
  moreover have "emp \<in> dom P" if "emp \<in> dom (page_at s)" using that ch unfolding hdrs_change_def by (cases "emp \<in> U") (auto simp: domIff)
  moreover have "clean pg" if "P x = Some pg" "x \<notin> U" for x pg
    using ok that ch unfolding segs_ok_def hdrs_change_def by metis
  ultimately show ?thesis using ok seg_inv_headers [OF _ ch] unfolding segs_ok_def by simp
qed


section \<open>Blocks of different pages\<close>

lemma page_okE:
  assumes "page_ok s heap B k p"
  obtains pg fs ls ts where "page_at s p = Some pg" "hdr_ok heap k pg" "blocks_ok (node_at s) p pg (dom B) fs ls ts"
    "split_ok p pg (dom B) fs ls ts" "\<forall>b n. B b = Some n \<longrightarrow> b \<in> pblocks p pg \<longrightarrow> n \<le> unat (psize pg)"
  using assms unfolding page_ok_def blocks_ok_def by blast

lemma page_okI:
  "page_at s p = Some pg \<Longrightarrow> hdr_ok heap k pg \<Longrightarrow> blocks_ok (node_at s) p pg (dom B) fs ls ts \<Longrightarrow>
    (\<And>b n. B b = Some n \<Longrightarrow> b \<in> pblocks p pg \<Longrightarrow> n \<le> unat (psize pg)) \<Longrightarrow> page_ok s heap B k p"
  unfolding page_ok_def by blast

lemma bin_size_dvd: "1 \<le> b \<Longrightarrow> b \<le> 52 \<Longrightarrow> 8 dvd size_of_bin (int b) \<and> 0 < size_of_bin (int b)"
proof -
  assume b: "1 \<le> b" "b \<le> 52"
  have "8 \<le> size_of_bin (int b)"
    using size_of_bin_words(2) [of "int b"] b by (cases "b = 1") (auto simp: size_of_bin_def)
  then show ?thesis using size_of_bin_words(1) [of "int b"] b by simp
qed

lemma hdr_ok_size: "hdr_ok heap k pg \<Longrightarrow> 0 < unat (psize pg) \<and> 8 dvd unat (psize pg) \<and> xblock_size (inner pg) \<noteq> 0"
proof -
  assume "hdr_ok heap k pg"
  then obtain b where b: "1 \<le> b" "b \<le> 52" "unat (psize pg) = size_of_bin (int b)" unfolding hdr_ok_def by blast
  then have "0 < unat (psize pg) \<and> 8 dvd unat (psize pg)" using bin_size_dvd [OF b(1,2)] by simp
  then show ?thesis by auto
qed

text \<open>A block of a page lies in the span of the page.\<close>

lemma block_in_span:
  assumes inv: "seg_inv tld s U M" and p: "p \<in> U" "page_ok s heap B k p" "page_at s p = Some pg" and j: "j < pres pg"
  obtains g i c where "p = hdr g i" "0 < i" "M (g, i) = Some (c, UsedSpan)" "page_fits p (psize pg) (pres pg)"
    "unat g + 65536 * i \<le> unat (page_block p (psize pg) j)" "unat (page_block p (psize pg) j) + unat (psize pg) \<le> unat g + 65536 * (i + c)"
proof -
  obtain g i c where m: "p = hdr g i" "0 < i" "M (g, i) = Some (c, UsedSpan)" "seg_addr_ok g" "0 < c" "i + c \<le> 512" "span_hdr (page_at s) g i c UsedSpan"
    using seg_inv_hdr [OF inv p(1)] by metis
  obtain fs ls ts where h: "hdr_ok heap k pg" "split_ok p pg (dom B) fs ls ts" using p(2,3) by (auto elim: page_okE)
  have "pcount pg = of_nat c" using m(7) p(3) m(1) unfolding span_hdr_def by simp
  then have "unat (pcount pg) = c" using m(6) by simp
  then have room: "start_offset (unat (psize pg)) + pres pg * unat (psize pg) \<le> 65536 * c" using h(1) unfolding hdr_ok_def by simp
  have fits: "page_fits (hdr g i) (psize pg) (pres pg)" using split_okD(1) [OF h(2)] m(1) by simp
  show ?thesis using that [OF m(1-3)] span_block(2,3) [OF m(4,6) fits j room] fits m(1) by simp
qed

lemma pages_apart:
  fixes x :: usize
  assumes inv: "seg_inv tld s U M" and p: "p \<in> U" "page_ok s heap B k p" "page_at s p = Some pg" "j < pres pg"
    and q: "q \<in> U" "page_ok s heap B l q" "page_at s q = Some qg" "i < pres qg" and ne: "p \<noteq> q"
    and x: "unat (page_block p (psize pg) j) \<le> unat x" "unat x < unat (page_block p (psize pg) j) + unat (psize pg)"
    and y: "unat (page_block q (psize qg) i) \<le> unat x" "unat x < unat (page_block q (psize qg) i) + unat (psize qg)"
  shows False
proof -
  obtain t L where sp: "spans_inv (page_at s) (sqs t) (dom (segment_at s)) M L" using inv unfolding seg_inv_def seg_ok_def by blast
  obtain g a c where P: "p = hdr g a" "M (g, a) = Some (c, UsedSpan)"
    "unat g + 65536 * a \<le> unat (page_block p (psize pg) j)" "unat (page_block p (psize pg) j) + unat (psize pg) \<le> unat g + 65536 * (a + c)"
    using block_in_span [OF inv p] by metis
  obtain g' a' c' where R: "q = hdr g' a'" "M (g', a') = Some (c', UsedSpan)"
    "unat g' + 65536 * a' \<le> unat (page_block q (psize qg) i)" "unat (page_block q (psize qg) i) + unat (psize qg) \<le> unat g' + 65536 * (a' + c')"
    using block_in_span [OF inv q] by metis
  have "(g, a) \<noteq> (g', a')" using ne P(1) R(1) by auto
  from spans_bytes_disjoint [OF sp P(2) R(2) this, of x] show False using P(3,4) R(3,4) x y by linarith
qed

lemma same_page_apart:
  fixes x :: usize
  assumes fits: "page_fits p bs n" and k: "j < n" "i < n" "j \<noteq> i"
    and x: "unat (page_block p bs j) \<le> unat x" "unat x < unat (page_block p bs j) + unat bs"
    and y: "unat (page_block p bs i) \<le> unat x" "unat x < unat (page_block p bs i) + unat bs"
  shows False
proof -
  note b = page_block_unat [OF fits less_imp_le_nat [OF k(1)]] page_block_unat [OF fits less_imp_le_nat [OF k(2)]]
  have "Suc j * unat bs \<le> i * unat bs \<or> Suc i * unat bs \<le> j * unat bs"
    using k(3) by (cases "j < i") (auto intro: mult_le_mono1 simp del: mult_Suc)
  then show False using x y unfolding b by auto
qed

text \<open>A block that is not out, cut from its page or not yet, is no word anyone owns.\<close>

lemma pages_okD: "pages_ok s heap B Q X \<Longrightarrow> placed Q X k p \<Longrightarrow> page_ok s heap B k p"
  by (simp add: pages_ok_def)

lemma live_block:
  assumes "pages_ok s heap B Q X" "B b = Some n"
  obtains p k pg j where "placed Q X k p" "page_ok s heap B k p" "page_at s p = Some pg" "b = page_block p (psize pg) j" "j < pcap pg" "j < pres pg" "n \<le> unat (psize pg)"
proof -
  have "b \<in> dom B" using assms(2) by blast
  then obtain p pg where p: "p \<in> queued Q \<union> X" "page_at s p = Some pg" "b \<in> pblocks p pg" using assms(1) unfolding pages_ok_def by blast
  then obtain k where k: "placed Q X k p" using placed_iff by blast
  obtain j where j: "b = page_block p (psize pg) j" "j < pcap pg" using p(3) unfolding blocks_of_def by blast
  have po: "page_ok s heap B k p" by (rule pages_okD [OF assms(1) k])
  then obtain fs ls ts where sp: "split_ok p pg (dom B) fs ls ts" and n: "n \<le> unat (psize pg)"
    using p(2,3) assms(2) by (elim page_okE) auto
  show ?thesis using that [OF k po p(2) j _ n] j(2) split_okD(3) [OF sp] by simp
qed

lemma owned_free:
  assumes inv: "seg_inv tld s (queued Q \<union> X) M" and ok: "pages_ok s heap B Q X"
    and p: "placed Q X k p" "page_at s p = Some pg" and w: "w \<in> blocks_of p (psize pg) (pres pg)" "w \<notin> dom B"
  shows "w \<notin> owned B"
proof
  assume "w \<in> owned B"
  then obtain b n where b: "B b = Some n" "unat b \<le> unat w" "unat w < unat b + max 1 n" unfolding owned_def by blast
  obtain q l qg i where q: "placed Q X l q" "page_ok s heap B l q" "page_at s q = Some qg" "b = page_block q (psize qg) i" "i < pcap qg" "i < pres qg" "n \<le> unat (psize qg)"
    using live_block [OF ok b(1)] by metis
  obtain j where j: "w = page_block p (psize pg) j" "j < pres pg" using w(1) unfolding blocks_of_def by blast
  have po: "page_ok s heap B k p" by (rule pages_okD [OF ok p(1)])
  obtain fs ls ts where h: "hdr_ok heap k pg" "split_ok p pg (dom B) fs ls ts" using po p(2) by (auto elim: page_okE)
  have sz: "0 < unat (psize pg)" "0 < unat (psize qg)" using hdr_ok_size [OF h(1)] q(2,3) hdr_ok_size by (auto elim!: page_okE)
  have y: "unat (page_block q (psize qg) i) \<le> unat w" "unat w < unat (page_block q (psize qg) i) + unat (psize qg)"
    using b(2,3) q(4,7) sz(2) by auto
  have x: "unat (page_block p (psize pg) j) \<le> unat w" "unat w < unat (page_block p (psize pg) j) + unat (psize pg)" using j(1) sz(1) by auto
  have U: "p \<in> queued Q \<union> X" "q \<in> queued Q \<union> X" using p(1) q(1) placed_iff by blast+
  show False
  proof (cases "p = q")
    case False
    show False by (rule pages_apart [OF inv U(1) po p(2) j(2) U(2) q(2,3,6) False x y])
  next
    case True
    then have "pg = qg" using p(2) q(3) by simp
    moreover have "j \<noteq> i" using True \<open>pg = qg\<close> j(1) q(4) b(1) w(2) by auto
    ultimately show False using same_page_apart [OF split_okD(1) [OF h(2)] j(2), of i w] q(6) x y True by simp
  qed
qed


section \<open>Changes that keep the invariant\<close>

lemma heap_invE:
  assumes "heap_inv tid heap s B Q X M"
  obtains h where "heap_at s heap = Some h" "segs_ok tid (tld_ptr h) (page_empty_ptr h) s (queued Q \<union> X) M"
    "seg_inv (tld_ptr h) s (queued Q \<union> X) M" "heap_ok s heap Q" "X \<inter> queued Q = {}" "pages_ok s heap B Q X" "length Q = 75" "length (pages h) = 75"
    "queues_ok (page_at s) (pages h) Q"
proof -
  obtain h where h: "heap_at s heap = Some h" "segs_ok tid (tld_ptr h) (page_empty_ptr h) s (queued Q \<union> X) M" "heap_ok s heap Q"
    "X \<inter> queued Q = {}" "pages_ok s heap B Q X" using assms unfolding heap_inv_def by blast
  have l: "length (pages h) = 75" "queues_ok (page_at s) (pages h) Q"
    using h(1,3) by (simp_all add: heap_ok_def queue_sizes_ok_def layout_consts)
  then have "length Q = 75" by (simp add: queues_ok_def)
  moreover have "seg_inv (tld_ptr h) s (queued Q \<union> X) M" using h(2) unfolding segs_ok_def by blast
  ultimately show ?thesis using that [OF h(1,2) _ h(3-5) _ l] by blast
qed

lemma heap_invD:
  assumes "heap_inv tid heap s B Q X M"
  shows "pages_ok s heap B Q X" "heap_ok s heap Q" "X \<inter> queued Q = {}" "length Q = 75"
    "i < 75 \<Longrightarrow> j < 75 \<Longrightarrow> i \<noteq> j \<Longrightarrow> set (Q ! i) \<inter> set (Q ! j) = {}"
proof -
  obtain h where h: "heap_at s heap = Some h" "segs_ok tid (tld_ptr h) (page_empty_ptr h) s (queued Q \<union> X) M"
    "seg_inv (tld_ptr h) s (queued Q \<union> X) M" "heap_ok s heap Q" "X \<inter> queued Q = {}" "pages_ok s heap B Q X" "length Q = 75" "length (pages h) = 75"
    "queues_ok (page_at s) (pages h) Q" by (rule heap_invE [OF assms])
  show "pages_ok s heap B Q X" "heap_ok s heap Q" "X \<inter> queued Q = {}" "length Q = 75" by (fact h)+
  show "i < 75 \<Longrightarrow> j < 75 \<Longrightarrow> i \<noteq> j \<Longrightarrow> set (Q ! i) \<inter> set (Q ! j) = {}" using queues_disjoint [OF h(9), of i j] h(8) by simp
qed

lemma heap_ok_write:
  assumes "heap_ok s heap Q" "page_at s p = Some pg" "prev_ptr pg' = prev_ptr pg" "next_ptr pg' = next_ptr pg"
  shows "heap_ok (s\<lparr>page_at := (page_at s)(p \<mapsto> pg'), node_at := N\<rparr>) heap Q"
  using assms dseg_same_links [of "page_at s" p pg pg', OF assms(2-4)] by (auto simp: heap_ok_def queues_ok_def split: option.splits)

text \<open>A change of one page's blocks and of the memory of those that are free afterwards.\<close>

lemma page_kept_hdr: "page_kept pg pg' \<Longrightarrow> hdr_ok heap k pg \<Longrightarrow> hdr_ok heap k pg'"
  unfolding page_kept_def hdr_ok_def by (simp add: get_in_full_def get_has_aligned_def)

lemma heap_inv_page:
  assumes inv: "heap_inv tid heap s B Q X M" and p: "placed Q X k p" "page_at s p = Some pg" and kept: "page_kept pg pg'"
    and m: "\<And>q. q \<notin> W \<Longrightarrow> m' q = node_at s q" "W \<subseteq> blocks_of p (psize pg) (pres pg)"
    and ok: "blocks_ok m' p pg' (dom B') fs ls ts"
    and B': "\<And>b. b \<notin> pblocks p pg' \<Longrightarrow> B' b = B b" "\<And>b n. B' b = Some n \<Longrightarrow> b \<in> pblocks p pg' \<Longrightarrow> n \<le> unat (psize pg)"
  shows "heap_inv tid heap (s\<lparr>page_at := (page_at s)(p \<mapsto> pg'), node_at := m'\<rparr>) B' Q X M"
proof -
  obtain h where h: "heap_at s heap = Some h" "segs_ok tid (tld_ptr h) (page_empty_ptr h) s (queued Q \<union> X) M"
    "seg_inv (tld_ptr h) s (queued Q \<union> X) M" "heap_ok s heap Q" "X \<inter> queued Q = {}" "pages_ok s heap B Q X" by (rule heap_invE [OF inv])
  let ?s = "s\<lparr>page_at := (page_at s)(p \<mapsto> pg'), node_at := m'\<rparr>" and ?U = "queued Q \<union> X"
  note k = kept [unfolded page_kept_def]
  have pU: "p \<in> ?U" using p(1) placed_iff by blast
  have po: "page_ok s heap B k p" by (rule pages_okD [OF h(6) p(1)])
  then have hd: "hdr_ok heap k pg" using p(2) by (auto elim: page_okE)
  have ps: "psize pg' = psize pg" "pres pg' = pres pg" using k by simp_all
  have xb: "xblock_size (inner pg') \<noteq> 0" using hdr_ok_size [OF hd] k by simp
  have "split_ok p pg' (dom B') fs ls ts" using ok unfolding blocks_ok_def by blast
  note sp' = split_okD [OF this]
  have sub: "pblocks p pg' \<subseteq> blocks_of p (psize pg) (pres pg)" using blocks_of_mono [OF sp'(3)] ps by simp
  have mono: "pblocks p pg \<subseteq> pblocks p pg'" using blocks_of_mono [of "pcap pg" "pcap pg'"] k ps by (simp add: word_le_nat_alt)
  have apart: "blocks_of p (psize pg) (pres pg) \<inter> blocks_of q (psize qg) (pres qg) = {}"
    if q: "placed Q X l q" "page_at s q = Some qg" "q \<noteq> p" for l q qg
  proof (rule ccontr)
    assume "blocks_of p (psize pg) (pres pg) \<inter> blocks_of q (psize qg) (pres qg) \<noteq> {}"
    then obtain i j where ij: "page_block p (psize pg) j = page_block q (psize qg) i" "j < pres pg" "i < pres qg" unfolding blocks_of_def by auto
    have qo: "page_ok s heap B l q" by (rule pages_okD [OF h(6) q(1)])
    then have hq: "hdr_ok heap l qg" using q(2) by (auto elim: page_okE)
    have qU: "q \<in> ?U" using q(1) placed_iff by blast
    show False using pages_apart [OF h(3) pU po p(2) ij(2) qU qo q(2) ij(3), of "page_block p (psize pg) j"] q(3) ij(1)
      hdr_ok_size [OF hd] hdr_ok_size [OF hq] by auto
  qed
  have pages: "page_ok ?s heap B' l q" if q: "placed Q X l q" for l q
  proof -
    have qo: "page_ok s heap B l q" by (rule pages_okD [OF h(6) q])
    then obtain qg us vs ws where qg: "page_at s q = Some qg" "hdr_ok heap l qg" "blocks_ok (node_at s) q qg (dom B) us vs ws"
      "split_ok q qg (dom B) us vs ws" "\<forall>b n. B b = Some n \<longrightarrow> b \<in> pblocks q qg \<longrightarrow> n \<le> unat (psize qg)" by (rule page_okE)
    note sq = split_okD [OF qg(4)]
    show ?thesis
    proof (cases "q = p")
      case True
      then have "hdr_ok heap l pg'" using qg(1,2) p(2) page_kept_hdr [OF kept] by simp
      then show ?thesis using True ok B'(2) ps by (intro page_okI [of _ q pg']) simp_all
    next
      case False
      have qb: "pblocks q qg \<subseteq> blocks_of q (psize qg) (pres qg)" by (rule blocks_of_mono [OF sq(3)])
      have dis: "pblocks q qg \<inter> pblocks p pg' = {}" "pblocks q qg \<inter> W = {}" using apart [OF q qg(1) False] qb sub m(2) by blast+
      have same: "B' b = B b" if "b \<in> pblocks q qg" for b using B'(1) [of b] dis(1) that by blast
      have "m' a = node_at s a" if "a \<in> set (us @ vs @ ws)" for a using m(1) [of a] dis(2) sq(5) that by blast
      then have "blocks_ok m' q qg (dom B) us vs ws" by (rule blocks_ok_mem [OF qg(3)])
      then have "blocks_ok m' q qg (dom B') us vs ws" by (rule blocks_ok_out) (use same in \<open>auto simp: domIff\<close>)
      then show ?thesis using False qg(1,2,5) same by (intro page_okI [of _ q qg]) simp_all
    qed
  qed
  have live: "\<exists>q \<in> ?U. \<exists>qg. page_at ?s q = Some qg \<and> b \<in> pblocks q qg" if b: "b \<in> dom B'" for b
  proof (cases "b \<in> pblocks p pg'")
    case True
    then show ?thesis using pU by (intro bexI [of _ p]) simp_all
  next
    case False
    then have "b \<in> dom B" using B'(1) [of b] b by (simp add: domIff)
    then obtain q qg where q: "q \<in> ?U" "page_at s q = Some qg" "b \<in> pblocks q qg" using h(6) unfolding pages_ok_def by blast
    then have "q \<noteq> p" using False mono p(2) by auto
    then show ?thesis using q by (intro bexI [of _ q]) simp_all
  qed
  have "hdrs_change ?U (page_at s) ((page_at s)(p \<mapsto> pg'))"
    unfolding hdrs_change_def
  proof (intro conjI allI impI ballI)
    show "((page_at s)(p \<mapsto> pg')) x = page_at s x" if "x \<notin> ?U" for x using that pU by auto
    fix x assume "x \<in> ?U"
    then obtain l where l: "placed Q X l x" using placed_iff by blast
    from pages_okD [OF h(6) l] obtain xg where "page_at s x = Some xg" "hdr_ok heap l xg" by (blast elim: page_okE)
    then show "\<exists>pg pg'a. page_at s x = Some pg \<and> ((page_at s)(p \<mapsto> pg')) x = Some pg'a \<and> pcount pg'a = pcount pg \<and> poffset pg'a = poffset pg
        \<and> xblock_size (inner pg'a) \<noteq> 0"
      using hdr_ok_size [of heap l xg] xb k p(2) by (cases "x = p") auto
  qed
  from segs_ok_headers [OF h(2) this, where H = "heap_at s" and N = m'] have "segs_ok tid (tld_ptr h) (page_empty_ptr h) ?s ?U M" by simp
  moreover have "heap_ok ?s heap Q" by (rule heap_ok_write [OF h(4) p(2)]) (use k in simp_all)
  moreover have "pages_ok ?s heap B' Q X" using pages live unfolding pages_ok_def by blast
  ultimately show ?thesis using h(1,5) unfolding heap_inv_def by simp
qed

text \<open>A write to a block that is out.\<close>

lemma heap_inv_write:
  assumes inv: "heap_inv tid heap s B Q X M" and m: "\<And>q. q \<notin> owned B \<Longrightarrow> m' q = node_at s q"
  shows "heap_inv tid heap (s\<lparr>node_at := m'\<rparr>) B Q X M"
proof -
  obtain h where h: "heap_at s heap = Some h" "segs_ok tid (tld_ptr h) (page_empty_ptr h) s (queued Q \<union> X) M"
    "seg_inv (tld_ptr h) s (queued Q \<union> X) M" "heap_ok s heap Q" "X \<inter> queued Q = {}" "pages_ok s heap B Q X" by (rule heap_invE [OF inv])
  let ?s = "s\<lparr>node_at := m'\<rparr>"
  have "page_ok ?s heap B k p" if k: "placed Q X k p" for k p
  proof -
    obtain pg fs ls ts where p: "page_at s p = Some pg" "hdr_ok heap k pg" "blocks_ok (node_at s) p pg (dom B) fs ls ts"
      "split_ok p pg (dom B) fs ls ts" "\<forall>b n. B b = Some n \<longrightarrow> b \<in> pblocks p pg \<longrightarrow> n \<le> unat (psize pg)"
      using pages_okD [OF h(6) k] by (rule page_okE)
    note d = split_okD [OF p(4)]
    have "m' a = node_at s a" if a: "a \<in> set (fs @ ls @ ts)" for a
    proof (rule m, rule owned_free [OF h(3,6) k p(1)])
      show "a \<in> blocks_of p (psize pg) (pres pg)" using d(5) a blocks_of_mono [OF d(3)] by blast
      show "a \<notin> dom B" using d(8) a by blast
    qed
    then have "blocks_ok m' p pg (dom B) fs ls ts" by (rule blocks_ok_mem [OF p(3)])
    then show ?thesis using p(1,2,5) by (intro page_okI [of _ p pg]) simp_all
  qed
  then have "pages_ok ?s heap B Q X" using h(6) unfolding pages_ok_def by simp
  moreover have "hdrs_change (queued Q \<union> X) (page_at s) (page_at s)"
    unfolding hdrs_change_def
  proof (intro conjI allI impI ballI refl)
    fix x assume "x \<in> queued Q \<union> X"
    then obtain l where l: "placed Q X l x" using placed_iff by blast
    from pages_okD [OF h(6) l] obtain xg where "page_at s x = Some xg" "hdr_ok heap l xg" by (blast elim: page_okE)
    then show "\<exists>pg pg'. page_at s x = Some pg \<and> page_at s x = Some pg' \<and> pcount pg' = pcount pg \<and> poffset pg' = poffset pg
        \<and> xblock_size (inner pg') \<noteq> 0" using hdr_ok_size by auto
  qed
  from segs_ok_headers [OF h(2) this, where H = "heap_at s" and N = m'] have "segs_ok tid (tld_ptr h) (page_empty_ptr h) ?s (queued Q \<union> X) M" by simp
  moreover have "heap_ok ?s heap Q" using h(1,4) by (simp add: heap_ok_def)
  ultimately show ?thesis using h(1,5) unfolding heap_inv_def by simp
qed


text \<open>A change of links, flags and queues.\<close>

definition page_same :: "Page \<Rightarrow> Page \<Rightarrow> bool" where
  "page_same pg pg' \<longleftrightarrow> pcount pg' = pcount pg \<and> poffset pg' = poffset pg \<and> xthread_free pg' = xthread_free pg \<and> xheap pg' = xheap pg
     \<and> capacity (inner pg') = capacity (inner pg) \<and> reserved (inner pg') = reserved (inner pg) \<and> free (inner pg') = free (inner pg)
     \<and> used (inner pg') = used (inner pg) \<and> local_free (inner pg') = local_free (inner pg) \<and> xblock_size (inner pg') = xblock_size (inner pg)"

lemma page_same_blocks: "page_same pg pg' \<Longrightarrow> blocks_ok m p pg' out fs ls ts = blocks_ok m p pg out fs ls ts"
  by (simp add: page_same_def blocks_ok_def split_ok_def tlist_def)

lemma page_same_body: "body pg' = body pg \<Longrightarrow> page_same pg pg'"
  by (simp add: body_fields page_same_def)

lemma hdr_ok_body: "body pg' = body pg \<Longrightarrow> hdr_ok heap k pg' = hdr_ok heap k pg"
  by (simp add: body_fields hdr_ok_def)

lemma heap_inv_queue:
  assumes inv: "heap_inv tid heap s B Q X M" and h: "heap_at s heap = Some h" "tld_ptr h' = tld_ptr h" "page_empty_ptr h' = page_empty_ptr h"
    and ok: "heap_ok (s\<lparr>page_at := P, heap_at := (heap_at s)(heap \<mapsto> h')\<rparr>) heap Q'"
    and U: "queued Q' \<union> X' = queued Q \<union> X" "X' \<inter> queued Q' = {}" "\<And>y. y \<notin> queued Q \<union> X \<Longrightarrow> P y = page_at s y"
    and pages: "\<And>k p pg. placed Q' X' k p \<Longrightarrow> page_at s p = Some pg \<Longrightarrow> (\<And>l. placed Q X l p \<Longrightarrow> hdr_ok heap l pg) \<Longrightarrow>
      \<exists>pg'. P p = Some pg' \<and> page_same pg pg' \<and> hdr_ok heap k pg'"
  shows "heap_inv tid heap (s\<lparr>page_at := P, heap_at := (heap_at s)(heap \<mapsto> h')\<rparr>) B Q' X' M"
proof -
  let ?s = "s\<lparr>page_at := P, heap_at := (heap_at s)(heap \<mapsto> h')\<rparr>"
  have hh: "segs_ok tid (tld_ptr h) (page_empty_ptr h) s (queued Q \<union> X) M" "pages_ok s heap B Q X"
    using heap_invE [OF inv] h(1) by (metis option.inject)+
  have old: "\<exists>pg l. page_at s p = Some pg \<and> page_ok s heap B l p \<and> (\<forall>l. placed Q X l p \<longrightarrow> hdr_ok heap l pg)" if p: "p \<in> queued Q \<union> X" for p
  proof -
    obtain l where l: "placed Q X l p" using p placed_iff by blast
    have po: "page_ok s heap B l p" by (rule pages_okD [OF hh(2) l])
    obtain pg where pg: "page_at s p = Some pg" using po by (rule page_okE)
    have "hdr_ok heap l' pg" if "placed Q X l' p" for l' using pages_okD [OF hh(2) that] pg by (auto elim: page_okE)
    then show ?thesis using po pg by blast
  qed
  have new: "\<exists>pg pg'. page_at s p = Some pg \<and> P p = Some pg' \<and> page_same pg pg' \<and> hdr_ok heap k pg' \<and> page_ok ?s heap B k p"
    if k: "placed Q' X' k p" for k p
  proof -
    have "p \<in> queued Q \<union> X" using k placed_iff U(1) by blast
    then obtain pg l where o: "page_at s p = Some pg" "page_ok s heap B l p" "\<forall>l. placed Q X l p \<longrightarrow> hdr_ok heap l pg" using old by blast
    obtain pg' where n: "P p = Some pg'" "page_same pg pg'" "hdr_ok heap k pg'" using pages [OF k o(1)] o(3) by blast
    obtain fs ls ts where b: "blocks_ok (node_at s) p pg (dom B) fs ls ts" "\<forall>b n. B b = Some n \<longrightarrow> b \<in> pblocks p pg \<longrightarrow> n \<le> unat (psize pg)"
      using o(1,2) by (auto elim: page_okE)
    have "blocks_ok (node_at s) p pg' (dom B) fs ls ts" using b(1) page_same_blocks [OF n(2)] by simp
    then have "page_ok ?s heap B k p" using n b(2) by (intro page_okI [of _ p pg']) (simp_all add: page_same_def)
    then show ?thesis using o(1) n by blast
  qed
  have "hdrs_change (queued Q \<union> X) (page_at s) P"
    unfolding hdrs_change_def
  proof (intro conjI allI impI ballI)
    show "P x = page_at s x" if "x \<notin> queued Q \<union> X" for x using U(3) that by blast
    fix x assume "x \<in> queued Q \<union> X"
    then obtain k where "placed Q' X' k x" using placed_iff U(1) by metis
    then obtain pg pg' where n: "page_at s x = Some pg" "P x = Some pg'" "page_same pg pg'" "hdr_ok heap k pg'" using new by blast
    then show "\<exists>pg pg'. page_at s x = Some pg \<and> P x = Some pg' \<and> pcount pg' = pcount pg \<and> poffset pg' = poffset pg \<and> xblock_size (inner pg') \<noteq> 0"
      using hdr_ok_size [OF n(4)] by (simp add: page_same_def)
  qed
  from segs_ok_headers [OF hh(1) this, where H = "(heap_at s)(heap \<mapsto> h')" and N = "node_at s"]
  have seg: "segs_ok tid (tld_ptr h') (page_empty_ptr h') ?s (queued Q' \<union> X') M" using h(2,3) U(1) by simp
  have "\<exists>p \<in> queued Q' \<union> X'. \<exists>pg. page_at ?s p = Some pg \<and> b \<in> pblocks p pg" if b: "b \<in> dom B" for b
  proof -
    obtain p pg where p: "p \<in> queued Q \<union> X" "page_at s p = Some pg" "b \<in> pblocks p pg" using hh(2) b unfolding pages_ok_def by blast
    obtain k where k: "placed Q' X' k p" using placed_iff U(1) p(1) by metis
    from new [OF k] obtain pg1 pg' where n: "page_at s p = Some pg1" "P p = Some pg'" "page_same pg1 pg'" by blast
    then have "b \<in> pblocks p pg'" using p(2,3) by (simp add: page_same_def)
    then show ?thesis using p(1) U(1) n(2) by (intro bexI [of _ p] exI [of _ pg']) simp_all
  qed
  then have "pages_ok ?s heap B Q' X'" using new unfolding pages_ok_def by blast
  then show ?thesis using ok seg U(2) unfolding heap_inv_def by simp
qed

lemma placed_update: "k < length Q \<Longrightarrow> placed (Q[k := ys]) X l p \<longleftrightarrow> (if l = k then p \<in> set ys \<or> l = 75 \<and> p \<in> X else placed Q X l p)"
  unfolding placed_def by (auto simp: nth_list_update)

lemma queued_update: "k < length Q \<Longrightarrow> queued (Q[k := ys]) = set ys \<union> {p. \<exists>j<length Q. j \<noteq> k \<and> p \<in> set (Q ! j)}"
  by (rule set_eqI) (auto simp: queued_iff nth_list_update split: if_splits)

lemma queue_bins:
  assumes "heap_inv tid heap s B Q X M" "placed Q X k p"
  shows "k \<le> 75" "1 \<le> k" "k = 74 \<or> k = 75 \<or> k \<le> 52"
proof -
  have h: "pages_ok s heap B Q X" "length Q = 75" using heap_invD [OF assms(1)] by blast+
  then show "k \<le> 75" using assms(2) unfolding placed_def by auto
  from pages_okD [OF h(1) assms(2)] obtain pg where "hdr_ok heap k pg" by (rule page_okE)
  then show "1 \<le> k" "k = 74 \<or> k = 75 \<or> k \<le> 52" using \<open>k \<le> 75\<close> unfolding hdr_ok_def by fastforce+
qed

lemma placed_unique:
  assumes "heap_inv tid heap s B Q X M" "placed Q X k p" "placed Q X l p"
  shows "k = l"
proof -
  note h = heap_invD [OF assms(1)]
  show ?thesis
  proof (cases "k < 75 \<and> l < 75")
    case True
    then show ?thesis using h(4) h(5) [of k l] assms(2,3) unfolding placed_def by auto
  next
    case False
    then show ?thesis using assms(2,3) h(3,4) by (auto simp: placed_def queued_iff disjoint_iff)
  qed
qed


text \<open>A block that is out and lies in a page was cut from it.\<close>

lemma live_in_page:
  assumes inv: "heap_inv tid heap s B Q X M" and p: "placed Q X k p" "page_at s p = Some pg"
    and b: "B b = Some n" "b \<in> blocks_of p (psize pg) (pres pg)"
  shows "b \<in> pblocks p pg" "n \<le> unat (psize pg)"
proof -
  obtain h where h: "heap_at s heap = Some h" "segs_ok tid (tld_ptr h) (page_empty_ptr h) s (queued Q \<union> X) M"
    "seg_inv (tld_ptr h) s (queued Q \<union> X) M" "heap_ok s heap Q" "X \<inter> queued Q = {}" "pages_ok s heap B Q X" "length Q = 75" "length (pages h) = 75"
    "queues_ok (page_at s) (pages h) Q" by (rule heap_invE [OF inv])
  obtain q l qg i where q: "placed Q X l q" "page_ok s heap B l q" "page_at s q = Some qg" "b = page_block q (psize qg) i" "i < pcap qg" "i < pres qg" "n \<le> unat (psize qg)"
    using live_block [OF h(6) b(1)] by metis
  obtain j where j: "b = page_block p (psize pg) j" "j < pres pg" using b(2) unfolding blocks_of_def by blast
  have po: "page_ok s heap B k p" by (rule pages_okD [OF h(6) p(1)])
  have sz: "0 < unat (psize pg)" "0 < unat (psize qg)" using po p(2) q(2,3) hdr_ok_size by (auto elim!: page_okE)
  have U: "p \<in> queued Q \<union> X" "q \<in> queued Q \<union> X" using p(1) q(1) placed_iff by blast+
  have "p = q"
  proof (rule ccontr)
    assume "p \<noteq> q"
    from pages_apart [OF h(3) U(1) po p(2) j(2) U(2) q(2,3,6) this, of b] show False using j(1) q(4) sz by auto
  qed
  then show "b \<in> pblocks p pg" "n \<le> unat (psize pg)" using p(2) q(3-5,7) by (auto simp: blocks_of_def)
qed

lemma uncut_not_live:
  assumes inv: "heap_inv tid heap s B Q X M" and p: "placed Q X k p" "page_at s p = Some pg"
  shows "dom B \<inter> page_block p (psize pg) ` {pcap pg..<pres pg} = {}"
proof (rule ccontr)
  assume "dom B \<inter> page_block p (psize pg) ` {pcap pg..<pres pg} \<noteq> {}"
  then obtain j n where j: "B (page_block p (psize pg) j) = Some n" "pcap pg \<le> j" "j < pres pg" by auto
  then have "page_block p (psize pg) j \<in> blocks_of p (psize pg) (pres pg)" unfolding blocks_of_def by simp
  from live_in_page(1) [OF inv p j(1) this] obtain i where i: "page_block p (psize pg) j = page_block p (psize pg) i" "i < pcap pg"
    unfolding blocks_of_def by auto
  obtain fs ls ts where "split_ok p pg (dom B) fs ls ts" using pages_okD [OF heap_invD(1) [OF inv] p(1)] p(2) by (auto elim: page_okE)
  note d = split_okD [OF this]
  show False using page_block_inject [OF d(1), of j i] i j d(3) by simp
qed

end
