(* ===== verification/Heap_Pages.thy ===== *)
theory Heap_Pages
  imports Heap_Inv
begin

text \<open>
  The operations of \<^verbatim>\<open>page.rs\<close> and of the free lists in a heap with the invariant: each one
  returns, keeps the invariant and leaves the memory of the blocks that are out alone.
\<close>

section \<open>What a step leaves alone\<close>

definition frame :: "usize \<Rightarrow> live \<Rightarrow> st \<Rightarrow> st \<Rightarrow> bool" where
  "frame heap B s s' \<longleftrightarrow> (\<forall>x \<in> owned B. node_at s' x = node_at s x) \<and> sys_calls s \<le> sys_calls s'
     \<and> (\<exists>h h'. heap_at s heap = Some h \<and> heap_at s' heap = Some h' \<and> tld_ptr h' = tld_ptr h
          \<and> page_empty_ptr h' = page_empty_ptr h \<and> thread_delayed_free h' = thread_delayed_free h)"

lemma frame_trans: "frame heap B s s1 \<Longrightarrow> frame heap B s1 s2 \<Longrightarrow> frame heap B s s2"
  unfolding frame_def by (elim conjE exE) simp

lemma owned_mono: "B' \<subseteq>\<^sub>m B \<Longrightarrow> owned B' \<subseteq> owned B"
  unfolding owned_def map_le_def by (auto simp: dom_def) metis

lemma frame_mono: "frame heap B s s' \<Longrightarrow> B' \<subseteq>\<^sub>m B \<Longrightarrow> frame heap B' s s'"
  using owned_mono [of B' B] unfolding frame_def by blast

text \<open>No segment, no queue of spans and no memory protection changes.\<close>

definition quiet :: "st \<Rightarrow> st \<Rightarrow> bool" where
  "quiet s s' \<longleftrightarrow> segment_at s' = segment_at s \<and> tld_at s' = tld_at s \<and> os_prot s' = os_prot s \<and> sys_calls s' = sys_calls s"

lemma quiet_refl: "quiet s s"
  by (simp add: quiet_def)

lemma quiet_trans: "quiet s s1 \<Longrightarrow> quiet s1 s2 \<Longrightarrow> quiet s s2"
  by (simp add: quiet_def)

definition stepped :: "u64 \<Rightarrow> usize \<Rightarrow> live \<Rightarrow> spans \<Rightarrow> st \<Rightarrow> st \<Rightarrow> usize list list \<Rightarrow> usize set \<Rightarrow> bool" where
  "stepped tid heap B M s s' Q X \<longleftrightarrow> heap_inv tid heap s' B Q X M \<and> frame heap B s s' \<and> quiet s s'"

lemma heap_exists: "heap_inv tid heap s B Q X M \<Longrightarrow> \<exists>h. heap_at s heap = Some h"
  unfolding heap_inv_def by blast

lemma heap_seg_inv: "heap_inv tid heap s B Q X M \<Longrightarrow> \<exists>tld. seg_inv tld s (queued Q \<union> X) M"
  by (auto simp: heap_inv_def segs_ok_def)

lemma frame_refl: "heap_inv tid heap s B Q X M \<Longrightarrow> frame heap B s s"
  using heap_exists unfolding frame_def by blast

lemma stepped_refl: "heap_inv tid heap s B Q X M \<Longrightarrow> stepped tid heap B M s s Q X"
  by (simp add: stepped_def frame_refl quiet_refl)

lemma stepped_trans: "stepped tid heap B M s s1 Q X \<Longrightarrow> stepped tid heap B M s1 s2 Q' X' \<Longrightarrow> stepped tid heap B M s s2 Q' X'"
  unfolding stepped_def using frame_trans quiet_trans by blast


section \<open>Steps of a page\<close>

lemma page_step_inv:
  assumes inv: "heap_inv tid heap s B Q X M" and p: "placed Q X k p" "page_at s p = Some pg" and st: "page_step s p pg W R r"
    and W: "W \<subseteq> blocks_of p (psize pg) (pres pg)" "W \<inter> dom B = {}"
    and R: "\<And>m' pg'. R m' pg' \<Longrightarrow> \<exists>fs ls ts. blocks_ok m' p pg' (dom B) fs ls ts"
  obtains s' pg' where "r = Inr s'" "stepped tid heap B M s s' Q X" "page_at s' p = Some pg'" "page_kept pg pg'" "R (node_at s') pg'"
proof -
  obtain m' pg' where r: "r = Inr (s\<lparr>page_at := (page_at s)(p \<mapsto> pg'), node_at := m'\<rparr>)" "page_kept pg pg'" "\<forall>q. q \<notin> W \<longrightarrow> m' q = node_at s q" "R m' pg'"
    using st unfolding page_step_def by blast
  let ?s = "s\<lparr>page_at := (page_at s)(p \<mapsto> pg'), node_at := m'\<rparr>"
  obtain fs ls ts where b: "blocks_ok m' p pg' (dom B) fs ls ts" using R [OF r(4)] by blast
  then have "split_ok p pg' (dom B) fs ls ts" unfolding blocks_ok_def by blast
  note d = split_okD [OF this]
  have "pblocks p pg' \<subseteq> blocks_of p (psize pg) (pres pg)" using blocks_of_mono [OF d(3)] r(2) by (simp add: page_kept_def)
  then have sz: "n \<le> unat (psize pg)" if "B b = Some n" "b \<in> pblocks p pg'" for b n using live_in_page(2) [OF inv p that(1)] that(2) by blast
  have "heap_inv tid heap ?s B Q X M"
    by (rule heap_inv_page [OF inv p r(2) _ W(1) b]) (use r(3) sz in blast)+
  moreover have "frame heap B s ?s"
  proof -
    have "x \<notin> W" if "x \<in> owned B" for x
    proof
      assume "x \<in> W"
      then have "x \<in> blocks_of p (psize pg) (pres pg)" "x \<notin> dom B" using W by blast+
      moreover have "\<exists>tld. seg_inv tld s (queued Q \<union> X) M" by (rule heap_seg_inv [OF inv])
      ultimately have "x \<notin> owned B" using owned_free [OF _ heap_invD(1) [OF inv] p] by blast
      then show False using that by blast
    qed
    then show ?thesis using r(3) heap_exists [OF inv] unfolding frame_def by auto
  qed
  ultimately show ?thesis using that [OF r(1)] r(2,4) by (simp add: stepped_def quiet_def)
qed

lemma page_at_placed:
  assumes "heap_inv tid heap s B Q X M" "placed Q X k p"
  obtains pg fs ls ts where "page_at s p = Some pg" "hdr_ok heap k pg" "blocks_ok (node_at s) p pg (dom B) fs ls ts"
    "split_ok p pg (dom B) fs ls ts" "\<forall>b n. B b = Some n \<longrightarrow> b \<in> pblocks p pg \<longrightarrow> n \<le> unat (psize pg)"
  using pages_okD [OF heap_invD(1) [OF assms(1)] assms(2)] by (rule page_okE)

lemma collect_page:
  assumes inv: "heap_inv tid heap s B Q X M" and p: "placed Q X k p" "page_at s p = Some pg"
  obtains s' pg' where "page_free_collect p False s = Inr s'" "stepped tid heap B M s s' Q X" "page_at s' p = Some pg'" "page_kept pg pg'"
proof -
  obtain fs ls ts where h: "blocks_ok (node_at s) p pg (dom B) fs ls ts" "split_ok p pg (dom B) fs ls ts"
    using page_at_placed [OF inv p(1)] p(2) by (metis option.inject)
  note d = split_okD [OF h(2)]
  have W: "set ts \<subseteq> blocks_of p (psize pg) (pres pg)" "set ts \<inter> dom B = {}"
    using d(5,8) blocks_of_mono [OF d(3), of p "psize pg"] by auto
  show ?thesis
    by (rule page_step_inv [OF inv p free_collect_ok [OF p(2) h(1)] W]) (use that in blast)+
qed

lemma collect_inv:
  assumes inv: "heap_inv tid heap s B Q X M" and p: "placed Q X k p"
  obtains s' where "page_free_collect p False s = Inr s'" "stepped tid heap B M s s' Q X"
proof -
  obtain pg where "page_at s p = Some pg" by (rule page_at_placed [OF inv p])
  from collect_page [OF inv p this] that show ?thesis by blast
qed

lemma extend_inv:
  assumes inv: "heap_inv tid heap s B Q X M" and p: "placed Q X k p" "page_at s p = Some pg" "capacity (inner pg) < reserved (inner pg)"
  obtains s' pg' where "page_extend_free p s = Inr s'" "stepped tid heap B M s s' Q X" "page_at s' p = Some pg'" "free (inner pg') \<noteq> 0"
    "page_kept pg pg'"
proof -
  obtain fs ls ts where h: "blocks_ok (node_at s) p pg (dom B) fs ls ts" "split_ok p pg (dom B) fs ls ts"
    using page_at_placed [OF inv p(1)] p(2) by (metis option.inject)
  note d = split_okD [OF h(2)]
  have fresh: "dom B \<inter> page_block p (psize pg) ` {pcap pg..<pres pg} = {}" by (rule uncut_not_live [OF inv p(1,2)])
  have W: "page_block p (psize pg) ` {pcap pg..<pres pg} \<subseteq> blocks_of p (psize pg) (pres pg)" unfolding blocks_of_def by auto
  have W2: "page_block p (psize pg) ` {pcap pg..<pres pg} \<inter> dom B = {}" using fresh by blast
  have e: "0 < extend_count pg" using p(3) by (auto simp: extend_count_def word_less_nat_alt)
  then have ne: "map (page_block p (psize pg)) [pcap pg..<pcap pg + extend_count pg] @ fs \<noteq> []" by simp
  show ?thesis
  proof (rule page_step_inv [OF inv p(1,2) extend_free_ok [OF p(2) h(1) fresh] W W2])
    show "\<exists>fs ls ts. blocks_ok m' p pg' (dom B) fs ls ts"
      if "pcap pg' = pcap pg + extend_count pg \<and> blocks_ok m' p pg' (dom B) (map (page_block p (psize pg)) [pcap pg..<pcap pg + extend_count pg] @ fs) ls ts" for m' pg'
      using that by blast
    fix s' pg'
    assume a: "page_extend_free p s = Inr s'" "stepped tid heap B M s s' Q X" "page_at s' p = Some pg'" "page_kept pg pg'"
      "pcap pg' = pcap pg + extend_count pg \<and> blocks_ok (node_at s') p pg' (dom B) (map (page_block p (psize pg)) [pcap pg..<pcap pg + extend_count pg] @ fs) ls ts"
    then have "ll (node_at s') (free (inner pg')) (map (page_block p (psize pg)) [pcap pg..<pcap pg + extend_count pg] @ fs)"
      unfolding blocks_ok_def by blast
    then have "free (inner pg') \<noteq> 0" using ne by (auto simp del: lseg_append map_is_Nil_conv)
    then show ?thesis using that a by blast
  qed
qed


section \<open>Moving pages between queues\<close>

lemma stepped_queue:
  assumes inv: "heap_inv tid heap s B Q X M" and h: "heap_at s heap = Some h" "same_heap h h'"
    and new: "heap_inv tid heap (s\<lparr>page_at := P, heap_at := (heap_at s)(heap \<mapsto> h')\<rparr>) B Q' X' M"
  shows "stepped tid heap B M s (s\<lparr>page_at := P, heap_at := (heap_at s)(heap \<mapsto> h')\<rparr>) Q' X'"
proof -
  obtain qs pfd n where "h' = h\<lparr>pages := qs, pages_free_direct := pfd, page_count := n\<rparr>" using h(2) unfolding same_heap_def by blast
  then show ?thesis using new h(1) by (simp add: stepped_def frame_def quiet_def)
qed

lemma queued_split: "k < length Q \<Longrightarrow> queued Q = set (Q ! k) \<union> {p. \<exists>j<length Q. j \<noteq> k \<and> p \<in> set (Q ! j)}"
  using queued_update [of k Q "Q ! k"] by simp

lemma same_heap_ptrs: "same_heap h h' \<Longrightarrow> tld_ptr h' = tld_ptr h \<and> page_empty_ptr h' = page_empty_ptr h \<and> thread_delayed_free h' = thread_delayed_free h"
  by (auto simp: same_heap_def)

lemma remove_inv:
  assumes inv: "heap_inv tid heap s B Q {} M" and k: "unat pq = k" "k \<le> 74" "Q ! k = us @ p # vs" and pg: "page_at s p = Some pg"
  obtains s' pg' where "page_queue_remove s heap pq p = Inr s'" "stepped tid heap B M s s' (Q[k := us @ vs]) {p}" "page_at s' p = Some pg'"
    "body pg' = body pg"
proof -
  note d = heap_invD [OF inv]
  have pl: "placed Q {} k p" using k d(4) by (simp add: placed_def)
  have k1: "1 \<le> k" by (rule queue_bins(2) [OF inv pl])
  obtain P h h' where h: "heap_at s heap = Some h" "page_queue_remove s heap pq p = Inr (s\<lparr>page_at := P, heap_at := (heap_at s)(heap \<mapsto> h')\<rparr>)"
    "heap_ok (s\<lparr>page_at := P, heap_at := (heap_at s)(heap \<mapsto> h')\<rparr>) heap (Q[k := us @ vs])" "same_heap h h'"
    "\<forall>y. map_option body (P y) = map_option body (page_at s y)" "\<forall>y. y \<notin> set (Q ! k) \<longrightarrow> P y = page_at s y"
    using page_queue_remove_spec [OF d(2) k(1) k1 k(2,3)] by blast
  have dis: "distinct (Q ! k)" using d(2) k(2) by (rule heap_okE) (simp add: queues_ok_def)
  then have pn: "p \<notin> set (us @ vs)" using k(3) by simp
  have other: "p \<notin> set (Q ! j)" if "j < 75" "j \<noteq> k" for j using d(5) [of k j] that k(2,3) by auto
  have q': "queued (Q[k := us @ vs]) = queued Q - {p}"
    using k(2,3) d(4) pn other by (auto simp: queued_update queued_split [of k])
  have pQ: "p \<in> queued Q" unfolding queued_iff using k(2,3) d(4) by (intro exI [of _ k]) simp
  have "heap_inv tid heap (s\<lparr>page_at := P, heap_at := (heap_at s)(heap \<mapsto> h')\<rparr>) B (Q[k := us @ vs]) {p} M"
  proof (rule heap_inv_queue [OF inv h(1) _ _ h(3)])
    show "queued (Q[k := us @ vs]) \<union> {p} = queued Q \<union> {}" "{p} \<inter> queued (Q[k := us @ vs]) = {}" using q' pQ by auto
    show "P y = page_at s y" if "y \<notin> queued Q \<union> {}" for y using h(6) that k(2) d(4) by (auto simp: queued_iff)
    fix l x xg
    assume x: "placed (Q[k := us @ vs]) {p} l x" "page_at s x = Some xg" "\<And>l. placed Q {} l x \<Longrightarrow> hdr_ok heap l xg"
    have "map_option body (P x) = Some (body xg)" using h(5) x(2) by simp
    then obtain xg' where xg': "P x = Some xg'" "body xg' = body xg" by auto
    have "hdr_ok heap l xg"
    proof (cases "l = 75")
      case True
      then have "x = p" using x(1) d(4) by (simp add: placed_def)
      then show ?thesis using x(3) [of k] pl True unfolding hdr_ok_def by auto
    next
      case False
      then have "placed Q {} l x" using x(1) k(3) by (cases "l = k") (auto simp: placed_def)
      then show ?thesis by (rule x(3))
    qed
    then show "\<exists>pg'. P x = Some pg' \<and> page_same xg pg' \<and> hdr_ok heap l pg'" using xg' page_same_body hdr_ok_body by blast
  qed (use same_heap_ptrs [OF h(4)] in auto)
  from stepped_queue [OF inv h(1,4) this] have st: "stepped tid heap B M s (s\<lparr>page_at := P, heap_at := (heap_at s)(heap \<mapsto> h')\<rparr>) (Q[k := us @ vs]) {p}" .
  have "map_option body (P p) = Some (body pg)" using h(5) pg by simp
  then show ?thesis using that [OF h(2) st] by auto
qed

text \<open>A page that is in no queue goes into the queue of its bin or into that of full pages.\<close>

lemma put_inv:
  assumes inv: "heap_inv tid heap s B Q {p} M" and k: "1 \<le> k" "k \<le> 74" "k \<noteq> 74 \<longrightarrow> unat (psize pg) = size_of_bin (int k) \<and> k \<le> 52"
    and pg: "page_at s p = Some pg"
    and h: "heap_at s heap = Some h" "heap_ok (s\<lparr>page_at := P, heap_at := (heap_at s)(heap \<mapsto> h')\<rparr>) heap (Q[k := ys])" "same_heap h h'" "set ys = insert p (set (Q ! k))"
      "\<forall>y. map_option body (P y) = (if y = p then Some (body (pg\<lparr>inner := set_in_full (k = 74) (inner pg)\<rparr>)) else map_option body (page_at s y))"
      "\<forall>y. y \<notin> insert p (set (Q ! k)) \<longrightarrow> P y = page_at s y"
  shows "stepped tid heap B M s (s\<lparr>page_at := P, heap_at := (heap_at s)(heap \<mapsto> h')\<rparr>) (Q[k := ys]) {}"
proof -
  note d = heap_invD [OF inv]
  have pl: "placed Q {p} 75 p" by (simp add: placed_def)
  let ?pg1 = "pg\<lparr>inner := set_in_full (k = 74) (inner pg)\<rparr>"
  have "queued (Q[k := ys]) = insert p (queued Q)"
    using k(2) h(4) d(4) by (auto simp: queued_update queued_split [of k])
  note q' = this
  have "heap_inv tid heap (s\<lparr>page_at := P, heap_at := (heap_at s)(heap \<mapsto> h')\<rparr>) B (Q[k := ys]) {} M"
  proof (rule heap_inv_queue [OF inv h(1) _ _ h(2)])
    show "queued (Q[k := ys]) \<union> {} = queued Q \<union> {p}" using q' by auto
    show "P y = page_at s y" if "y \<notin> queued Q \<union> {p}" for y using h(6) that k(2) d(4) by (auto simp: queued_iff)
    fix l x xg
    assume x: "placed (Q[k := ys]) {} l x" "page_at s x = Some xg" "\<And>l. placed Q {p} l x \<Longrightarrow> hdr_ok heap l xg"
    show "\<exists>pg'. P x = Some pg' \<and> page_same xg pg' \<and> hdr_ok heap l pg'"
    proof (cases "x = p")
      case True
      then have xg: "xg = pg" using x(2) pg by simp
      have "map_option body (P p) = Some (body ?pg1)" using h(5) by simp
      then obtain xg' where xg': "P p = Some xg'" "body xg' = body ?pg1" by auto
      have "p \<notin> queued Q" using d(3) by auto
      then have lk: "l = k" using x(1) True k(2) d(4) by (auto simp: placed_def queued_iff nth_list_update split: if_splits)
      have "hdr_ok heap 75 pg" using x(3) [of 75] True pl xg by simp
      then have "hdr_ok heap k ?pg1" using k unfolding hdr_ok_def by (auto simp: flags1_laws)
      moreover have "page_same pg ?pg1" by (simp add: page_same_def)
      ultimately show ?thesis using xg' page_same_body [OF xg'(2)] hdr_ok_body [OF xg'(2)] True xg lk by (auto simp: page_same_def)
    next
      case False
      have "map_option body (P x) = Some (body xg)" using h(5) x(2) False by simp
      then obtain xg' where xg': "P x = Some xg'" "body xg' = body xg" by auto
      have kl: "k < length Q" using k(2) d(4) by simp
      have "placed Q {p} l x"
      proof (cases "l = k")
        case True
        then have "x \<in> set ys" using x(1) unfolding placed_update [OF kl] by simp
        then show ?thesis using h(4) \<open>x \<noteq> p\<close> True kl by (simp add: placed_def)
      next
        case False
        then have "placed Q {} l x" using x(1) unfolding placed_update [OF kl] by simp
        then show ?thesis unfolding placed_def by blast
      qed
      then have "hdr_ok heap l xg" by (rule x(3))
      then show ?thesis using xg' page_same_body [OF xg'(2)] hdr_ok_body [OF xg'(2)] by simp
    qed
  qed (use same_heap_ptrs [OF h(3)] in auto)
  from stepped_queue [OF inv h(1,3) this] show ?thesis .
qed

lemma seg_inv_nonnull:
  assumes "seg_inv tld s U M" "p \<in> U"
  shows "p \<noteq> 0"
proof -
  obtain g i c where m: "p = hdr g i" "0 < i" "M (g, i) = Some (c, UsedSpan)" "g \<in> dom (segment_at s)" "seg_addr_ok g" "0 < c" "i + c \<le> 512"
    "tiled M g" "span_hdr (page_at s) g i c UsedSpan" by (rule seg_inv_hdr [OF assms])
  then show ?thesis using hdr_nonnull [of g i] by simp
qed

lemma put_premises:
  assumes inv: "heap_inv tid heap s B Q {p} M"
  shows "p \<noteq> 0" "\<forall>i \<le> 74. p \<notin> set (Q ! i)"
proof -
  note d = heap_invD [OF inv]
  show "\<forall>i \<le> 74. p \<notin> set (Q ! i)" using d(3,4) by (auto simp: queued_iff)
  obtain tld where "seg_inv tld s (queued Q \<union> {p}) M" using heap_seg_inv [OF inv] by blast
  then show "p \<noteq> 0" by (rule seg_inv_nonnull) simp
qed

lemma full_word: "unat pq = k \<Longrightarrow> (pq = BIN_FULL) = (k = 74)"
  by (auto simp: layout_consts word_unat_eq_iff)

lemma push_inv:
  assumes inv: "heap_inv tid heap s B Q {p} M" and k: "unat pq = k" "1 \<le> k" "k \<le> 74" "k \<noteq> 74 \<longrightarrow> unat (psize pg) = size_of_bin (int k) \<and> k \<le> 52"
    and pg: "page_at s p = Some pg"
  obtains s' pg' where "page_queue_push s heap pq p = Inr s'" "stepped tid heap B M s s' (Q[k := p # Q ! k]) {}" "page_at s' p = Some pg'"
    "body pg' = body (pg\<lparr>inner := set_in_full (k = 74) (inner pg)\<rparr>)"
proof -
  obtain P h h' where h: "heap_at s heap = Some h" "page_queue_push s heap pq p = Inr (s\<lparr>page_at := P, heap_at := (heap_at s)(heap \<mapsto> h')\<rparr>)"
    "heap_ok (s\<lparr>page_at := P, heap_at := (heap_at s)(heap \<mapsto> h')\<rparr>) heap (Q[k := p # Q ! k])" "same_heap h h'"
    "\<forall>y. map_option body (P y) = (if y = p then Some (body (pg\<lparr>inner := set_in_full (k = 74) (inner pg)\<rparr>)) else map_option body (page_at s y))"
    "\<forall>y. y \<notin> insert p (set (Q ! k)) \<longrightarrow> P y = page_at s y"
    using page_queue_push_spec [OF heap_invD(2) [OF inv] k(1-3) put_premises(1) [OF inv] pg put_premises(2) [OF inv]]
    unfolding full_word [OF k(1)] by blast
  have "stepped tid heap B M s (s\<lparr>page_at := P, heap_at := (heap_at s)(heap \<mapsto> h')\<rparr>) (Q[k := p # Q ! k]) {}"
    by (rule put_inv [OF inv k(2-4) pg h(1,3,4) _ h(5,6)]) simp
  moreover have "map_option body (P p) = Some (body (pg\<lparr>inner := set_in_full (k = 74) (inner pg)\<rparr>))" using h(5) by simp
  ultimately show ?thesis using that [OF h(2)] by auto
qed

lemma push_back_inv:
  assumes inv: "heap_inv tid heap s B Q {p} M" and k: "unat pq = k" "1 \<le> k" "k \<le> 74" "k \<noteq> 74 \<longrightarrow> unat (psize pg) = size_of_bin (int k) \<and> k \<le> 52"
    and pg: "page_at s p = Some pg"
  obtains s' pg' where "page_queue_push_back s heap pq p = Inr s'" "stepped tid heap B M s s' (Q[k := Q ! k @ [p]]) {}" "page_at s' p = Some pg'"
    "body pg' = body (pg\<lparr>inner := set_in_full (k = 74) (inner pg)\<rparr>)"
proof -
  obtain P h h' where h: "heap_at s heap = Some h" "page_queue_push_back s heap pq p = Inr (s\<lparr>page_at := P, heap_at := (heap_at s)(heap \<mapsto> h')\<rparr>)"
    "heap_ok (s\<lparr>page_at := P, heap_at := (heap_at s)(heap \<mapsto> h')\<rparr>) heap (Q[k := Q ! k @ [p]])" "same_heap h h'"
    "\<forall>y. map_option body (P y) = (if y = p then Some (body (pg\<lparr>inner := set_in_full (k = 74) (inner pg)\<rparr>)) else map_option body (page_at s y))"
    "\<forall>y. y \<notin> insert p (set (Q ! k)) \<longrightarrow> P y = page_at s y"
    using page_queue_push_back_spec [OF heap_invD(2) [OF inv] k(1-3) put_premises(1) [OF inv] pg put_premises(2) [OF inv]]
    unfolding full_word [OF k(1)] by blast
  have "stepped tid heap B M s (s\<lparr>page_at := P, heap_at := (heap_at s)(heap \<mapsto> h')\<rparr>) (Q[k := Q ! k @ [p]]) {}"
    by (rule put_inv [OF inv k(2-4) pg h(1,3,4) _ h(5,6)]) simp
  moreover have "map_option body (P p) = Some (body (pg\<lparr>inner := set_in_full (k = 74) (inner pg)\<rparr>))" using h(5) by simp
  ultimately show ?thesis using that [OF h(2)] by auto
qed


lemma body_page_same: "body pg' = body pg \<Longrightarrow> psize pg' = psize pg \<and> pcap pg' = pcap pg \<and> pres pg' = pres pg \<and> inner pg' = inner pg
    \<and> xheap pg' = xheap pg \<and> xthread_free pg' = xthread_free pg"
  by (simp add: body_fields)

lemma enqueue_from_inv:
  assumes inv: "heap_inv tid heap s B Q {} M" and k: "unat from = k" "k \<le> 74" "Q ! k = us @ p # vs" and l: "unat to = l" "1 \<le> l" "l \<le> 74" "l \<noteq> k"
    and pg: "page_at s p = Some pg" "l \<noteq> 74 \<longrightarrow> unat (psize pg) = size_of_bin (int l) \<and> l \<le> 52"
  obtains s' pg' where "page_queue_enqueue_from s heap to from p = Inr s'"
    "stepped tid heap B M s s' (Q[k := us @ vs, l := Q ! l @ [p]]) {}" "page_at s' p = Some pg'"
    "body pg' = body (pg\<lparr>inner := set_in_full (l = 74) (inner pg)\<rparr>)"
proof -
  obtain s1 pg1 where r: "page_queue_remove s heap from p = Inr s1" "stepped tid heap B M s s1 (Q[k := us @ vs]) {p}" "page_at s1 p = Some pg1"
    "body pg1 = body pg" by (rule remove_inv [OF inv k pg(1)])
  have inv1: "heap_inv tid heap s1 B (Q[k := us @ vs]) {p} M" using r(2) by (simp add: stepped_def)
  have ps: "psize pg1 = psize pg" "inner pg1 = inner pg" using body_page_same [OF r(4)] by blast+
  obtain s2 pg2 where b: "page_queue_push_back s1 heap to p = Inr s2" "stepped tid heap B M s1 s2 (Q[k := us @ vs, l := Q[k := us @ vs] ! l @ [p]]) {}"
    "page_at s2 p = Some pg2" "body pg2 = body (pg1\<lparr>inner := set_in_full (l = 74) (inner pg1)\<rparr>)"
    by (rule push_back_inv [OF inv1 l(1-3) _ r(3)]) (use pg(2) ps in simp)
  have "body (pg1\<lparr>inner := set_in_full (l = 74) (inner pg1)\<rparr>) = body (pg\<lparr>inner := set_in_full (l = 74) (inner pg)\<rparr>)"
    using r(4) by (simp add: body_fields)
  moreover have "Q[k := us @ vs] ! l = Q ! l" using l(4) by simp
  ultimately show ?thesis using that [OF _ stepped_trans [OF r(2)], of s2 pg2] r(1) b by (simp add: page_queue_enqueue_from_def)
qed

text \<open>Writing the other flags of a page.\<close>

lemma flag_inv:
  assumes inv: "heap_inv tid heap s B Q X M" and p: "placed Q X k p" "page_at s p = Some pg"
    and f: "page_same pg (pg\<lparr>inner := f (inner pg)\<rparr>)" "get_in_full (f (inner pg)) = get_in_full (inner pg)" "get_has_aligned (f (inner pg)) = get_has_aligned (inner pg)"
  obtains s' where "upd_inner s p f = Inr s'" "stepped tid heap B M s s' Q X" "page_at s' p = Some (pg\<lparr>inner := f (inner pg)\<rparr>)"
    "heap_at s' = heap_at s"
proof -
  obtain h where h: "heap_at s heap = Some h" using heap_exists [OF inv] by blast
  let ?pg = "pg\<lparr>inner := f (inner pg)\<rparr>"
  let ?P = "(page_at s)(p \<mapsto> ?pg)"
  let ?s = "s\<lparr>page_at := ?P, heap_at := (heap_at s)(heap \<mapsto> h)\<rparr>"
  have hs: "?s = s\<lparr>page_at := ?P\<rparr>" using h by (simp add: fun_upd_idem)
  have "heap_ok (s\<lparr>page_at := ?P, node_at := node_at s\<rparr>) heap Q" by (rule heap_ok_write [OF heap_invD(2) [OF inv] p(2)]) simp_all
  then have "heap_ok ?s heap Q" unfolding hs by simp
  moreover have "p \<in> queued Q \<union> X" using p(1) placed_iff by blast
  ultimately have "heap_inv tid heap ?s B Q X M"
  proof (intro heap_inv_queue [OF inv h])
    show "X \<inter> queued Q = {}" by (rule heap_invD(3) [OF inv])
    fix l x xg
    assume x: "placed Q X l x" "page_at s x = Some xg" "\<And>l. placed Q X l x \<Longrightarrow> hdr_ok heap l xg"
    have hx: "hdr_ok heap l xg" by (rule x(3) [OF x(1)])
    show "\<exists>pg'. ?P x = Some pg' \<and> page_same xg pg' \<and> hdr_ok heap l pg'"
    proof (cases "x = p")
      case True
      then have "xg = pg" using x(2) p(2) by simp
      moreover have "hdr_ok heap l ?pg" using hx f \<open>xg = pg\<close> by (simp add: hdr_ok_def page_same_def)
      ultimately show ?thesis using True f(1) by simp
    next
      case False
      then show ?thesis using hx x(2) by (simp add: page_same_def)
    qed
  qed auto
  moreover have "same_heap h h" 
    unfolding same_heap_def by (rule exI [of _ "pages h"], rule exI [of _ "pages_free_direct h"], rule exI [of _ "page_count h"]) simp
  ultimately have "stepped tid heap B M s ?s Q X" by (intro stepped_queue [OF inv h])
  then show ?thesis using that [of "s\<lparr>page_at := ?P\<rparr>"] p(2) unfolding hs by (simp add: upd_inner_eq)
qed

section \<open>Full pages\<close>

lemma bin_of_page:
  assumes "hdr_ok heap k pg"
  obtains b where "1 \<le> b" "b \<le> 52" "unat (psize pg) = size_of_bin (int b)" "k < 74 \<longrightarrow> k = b" "unat (ucast (bin (psize pg)) :: usize) = b"
proof -
  obtain b where b: "1 \<le> b" "b \<le> 52" "unat (psize pg) = size_of_bin (int b)" "k < 74 \<longrightarrow> k = b" using assms unfolding hdr_ok_def by blast
  have "size_of_bin (int b) \<le> size_of_bin 52" using size_of_bin_strict_mono [of "int b" 52] b(1,2) by (cases "b = 52") auto
  also have "\<dots> = 131072" by (simp add: size_of_bin_def pow2_eq)
  finally have "unat (psize pg) \<le> 131072" using b(3) by simp
  from bin_eq_spec [OF this] have "uint (bin (psize pg)) = smallest_bin_fitting_size (uint (psize pg))" .
  moreover have "uint (psize pg) = int (size_of_bin (int b))" using b(3) by (metis uint_nat)
  ultimately have "uint (bin (psize pg)) = int b" using smallest_bin_of_size_of_bin [of "int b"] b(1,2) by (simp add: valid_bin_idx_def)
  then have "nat (uint (bin (psize pg))) = b" by (simp only: nat_int)
  then have "unat (bin (psize pg)) = b" by (simp only: nat_uint_eq)
  then show ?thesis using that [OF b] b(2) by (simp add: unat_ucast_small)
qed

lemma to_full_inv:
  assumes inv: "heap_inv tid heap s B Q {} M" and k: "unat pq = k" "k < 74" "Q ! k = us @ p # vs" and pg: "page_at s p = Some pg"
  obtains s' where "page_to_full p heap pq s = Inr s'" "stepped tid heap B M s s' (Q[k := us @ vs, 74 := Q ! 74 @ [p]]) {}"
proof -
  have k74: "k \<le> 74" "unat BIN_FULL = 74" using k(2) by (simp_all add: layout_consts)
  obtain s1 pg1 where e: "page_queue_enqueue_from s heap BIN_FULL pq p = Inr s1" "stepped tid heap B M s s1 (Q[k := us @ vs, 74 := Q ! 74 @ [p]]) {}"
    by (rule enqueue_from_inv [OF inv k(1) k74(1) k(3) k74(2) _ _ _ pg]) (use k(2) in auto)
  let ?Q = "Q[k := us @ vs, 74 := Q ! 74 @ [p]]"
  have inv1: "heap_inv tid heap s1 B ?Q {} M" using e(2) by (simp add: stepped_def)
  have "placed ?Q {} 74 p" using heap_invD(4) [OF inv] by (simp add: placed_def)
  from collect_inv [OF inv1 this] obtain s2 where "page_free_collect p False s1 = Inr s2" "stepped tid heap B M s1 s2 ?Q {}" by blast
  then show ?thesis using that [OF _ stepped_trans [OF e(2)]] e(1) by (simp add: page_to_full_def)
qed

lemma unfull_inv:
  assumes inv: "heap_inv tid heap s B Q {} M" and k: "Q ! 74 = us @ p # vs" and pg: "page_at s p = Some pg"
  obtains s' l where "page_unfull p s = Inr s'" "l < 74" "stepped tid heap B M s s' (Q[74 := us @ vs, l := Q ! l @ [p]]) {}"
proof -
  have pl: "placed Q {} 74 p" using k heap_invD(4) [OF inv] by (simp add: placed_def)
  obtain pg1 fs ls ts where h: "page_at s p = Some pg1" "hdr_ok heap 74 pg1" "blocks_ok (node_at s) p pg1 (dom B) fs ls ts"
    "split_ok p pg1 (dom B) fs ls ts" "\<forall>b n. B b = Some n \<longrightarrow> b \<in> pblocks p pg1 \<longrightarrow> n \<le> unat (psize pg1)" by (rule page_at_placed [OF inv pl])
  have hd: "hdr_ok heap 74 pg" "xheap pg = heap" using h(1,2) pg by (simp_all add: hdr_ok_def)
  obtain b where b: "1 \<le> b" "b \<le> 52" "unat (psize pg) = size_of_bin (int b)" "(74::nat) < 74 \<longrightarrow> 74 = b" "unat (ucast (bin (psize pg)) :: usize) = b"
    by (rule bin_of_page [OF hd(1)])
  have full: "unat BIN_FULL = 74" by (simp add: layout_consts)
  obtain s1 where e: "page_queue_enqueue_from s heap (ucast (bin (psize pg))) BIN_FULL p = Inr s1"
    "stepped tid heap B M s s1 (Q[74 := us @ vs, b := Q ! b @ [p]]) {}"
    by (rule enqueue_from_inv [OF inv full _ k b(5,1) _ _ pg]) (use b in auto)
  then show ?thesis using that [of s1 b] pg hd(2) b(2) by (simp add: page_unfull_def Let_def)
qed

end
