(* ===== verification/Heap_Free.thy ===== *)
theory Heap_Free
  imports Heap_Pages
begin

text \<open>
  Freeing in a heap with the invariant (\<^verbatim>\<open>page_free\<close> and \<^verbatim>\<open>page_retire\<close> of \<^verbatim>\<open>page.rs\<close>, \<^verbatim>\<open>free.rs\<close>):
  a block goes back to its page, a page without blocks goes back to its segment, and the
  blocks that other threads freed come in through the delayed list.
\<close>

section \<open>Results\<close>

text \<open>A result, a panic of a kernel that refuses \<^verbatim>\<open>mprotect\<close>, or a \<^verbatim>\<open>todo\<close> where \<open>T\<close> allows it.\<close>

definition result :: "bool \<Rightarrow> Env \<Rightarrow> 'a res \<Rightarrow> ('a \<Rightarrow> bool) \<Rightarrow> bool" where
  "result T env r R \<longleftrightarrow> r = Inl Todo \<and> T \<or> outcome env r R"

lemma result_Inr [simp]: "result T env (Inr a) R \<longleftrightarrow> R a"
  by (simp add: result_def)

lemma result_bind:
  assumes "result T env r Q" "\<And>a. Q a \<Longrightarrow> result T env (f a) R"
  shows "result T env (bindR r f) R"
proof (cases r)
  case (Inl e)
  then show ?thesis using assms(1) by (auto simp: result_def outcome_def)
next
  case (Inr a)
  then show ?thesis using assms by simp
qed

lemma result_mono: "result T env r Q \<Longrightarrow> (T \<Longrightarrow> T') \<Longrightarrow> (\<And>a. Q a \<Longrightarrow> R a) \<Longrightarrow> result T' env r R"
  unfolding result_def outcome_def by blast

text \<open>An operation that gave no segment away.\<close>

definition kept :: "u64 \<Rightarrow> usize \<Rightarrow> live \<Rightarrow> st \<Rightarrow> st \<Rightarrow> bool" where
  "kept tid heap B s s' \<longleftrightarrow> (\<exists>Q M. heap_inv tid heap s' B Q {} M) \<and> frame heap B s s' \<and> dom (segment_at s') = dom (segment_at s)"

lemma stepped_kept: "stepped tid heap B M s s' Q {} \<Longrightarrow> kept tid heap B s s'"
  by (auto simp: stepped_def kept_def quiet_def)

lemma kept_trans: "kept tid heap B s s1 \<Longrightarrow> kept tid heap B s1 s2 \<Longrightarrow> kept tid heap B s s2"
  unfolding kept_def using frame_trans by (metis (no_types, lifting))


section \<open>Giving a page back to its segment\<close>

lemma used_not_slice:
  assumes sp: "spans_inv P T G M L" and m: "M (g, j) = Some (e, u)" "j \<le> k" "k < j + e" and x: "hdr g k \<in> slices_of M S"
  shows "u \<in> S"
proof -
  note d = spans_invD [OF sp m(1)]
  obtain g' k' i c v where s: "hdr g k = hdr g' k'" "M (g', i) = Some (c, v)" "v \<in> S" "i \<le> k'" "k' < i + c" using x unfolding slices_of_def by blast
  note d' = spans_invD [OF sp s(2)]
  have k: "g = g'" "k = k'" using hdr_inject [OF d(1) d'(1), of k k'] s(1,5) m(3) d(3) d'(3) by simp_all
  then have "M (g, i) = Some (c, v)" "i \<le> k" "k < i + c" using s by simp_all
  then have "j = i" using tiled_unique [OF d(8) m(1), of i c v k] m(2,3) by simp
  then show ?thesis using \<open>M (g, i) = Some (c, v)\<close> m(1) s(3) by simp
qed

text \<open>The pages that stay are untouched by an operation on other slices.\<close>

lemma pages_transfer:
  assumes inv: "heap_inv tid heap s B Q X M" and same: "\<And>x. x \<in> queued Q \<Longrightarrow> page_at s' x = page_at s x" "node_at s' = node_at s" "heap_at s' heap = heap_at s heap"
  shows "heap_ok s' heap Q" "placed Q {} k p \<Longrightarrow> page_ok s' heap B k p"
proof -
  note d = heap_invD [OF inv]
  have sub: "set (Q ! i) \<subseteq> queued Q" if "i < length Q" for i using that by (auto simp: queued_iff)
  have dq: "dseg (page_at s') 0 (Q ! i) 0 = dseg (page_at s) 0 (Q ! i) 0" if "i < length Q" for i
    using same(1) sub [OF that] by (intro dseg_cong) blast
  obtain h where h: "heap_at s heap = Some h" using heap_exists [OF inv] by blast
  have "queues_ok (page_at s) (pages h) Q" using d(2) h by (simp add: heap_ok_def)
  then have "queues_ok (page_at s') (pages h) Q" using dq unfolding queues_ok_def by auto
  then show "heap_ok s' heap Q" using d(2) h same(3) by (simp add: heap_ok_def)
  assume p: "placed Q {} k p"
  then have q: "p \<in> queued Q" "placed Q X k p" by (auto simp: placed_def queued_iff)
  show "page_ok s' heap B k p" using pages_okD [OF d(1) q(2)] same(1) [OF q(1)] same(2) unfolding page_ok_def by simp
qed

lemma span_frame_ids:
  assumes fr: "span_frame tld g A s s'" and old: "\<forall>g sg. segment_at s g = Some sg \<longrightarrow> thread_id sg = tid \<and> abandoned (main2 sg) = 0"
    and g: "g \<in> dom (segment_at s)" and sg: "segment_at s' q = Some sg"
  shows "thread_id sg = tid \<and> abandoned (main2 sg) = 0"
proof (cases "q = g")
  case True
  obtain sg0 where sg0: "segment_at s g = Some sg0" using g by blast
  then have "\<exists>e dm cm u. segment_at s' g = Some (sg0\<lparr>main := (main sg0)\<lparr>decommit_expire := e, decommit_mask := dm, commit_mask := cm\<rparr>,
          main2 := (main2 sg0)\<lparr>seg_used := u\<rparr>\<rparr>)" using fr unfolding span_frame_def by blast
  then show ?thesis using old sg0 sg True by auto
next
  case False
  then have "segment_at s' q = segment_at s q" using fr unfolding span_frame_def by blast
  then show ?thesis using old sg by simp
qed

lemma span_frame_committed:
  assumes fr: "span_frame tld g A s s'" and k: "k < 512" "hdr g k \<notin> A \<or> q \<noteq> g"
  shows "k \<in> committed s' q \<longleftrightarrow> k \<in> committed s q"
proof (cases "q = g")
  case True
  then show ?thesis using assms unfolding span_frame_def by blast
next
  case False
  then have "segment_at s' q = segment_at s q" using fr unfolding span_frame_def by blast
  then show ?thesis by (simp add: committed_def)
qed

text \<open>A segment with one page left; \<^verbatim>\<open>segment_free\<close>, which would give it back, is a \<^verbatim>\<open>todo\<close>.\<close>

definition last_used :: "st \<Rightarrow> usize \<Rightarrow> bool" where
  "last_used s g \<longleftrightarrow> (\<exists>sg. segment_at s g = Some sg \<and> seg_used (main2 sg) = 1)"

abbreviation last_page :: "st \<Rightarrow> usize \<Rightarrow> bool" where
  "last_page s p \<equiv> last_used s (ptr_segment p)"

lemma seg_free_inv:
  assumes inv: "heap_inv tid heap s B Q {p} M" and pg: "page_at s p = Some pg" "used (inner pg) = 0" and h: "heap_at s heap = Some h"
  shows "result (last_page s p) env (segment_page_free env p force (tld_ptr h) s) (kept tid heap B s)"
proof -
  obtain h' where h': "heap_at s heap = Some h'" "segs_ok tid (tld_ptr h') (page_empty_ptr h') s (queued Q \<union> {p}) M"
    "seg_inv (tld_ptr h') s (queued Q \<union> {p}) M" "heap_ok s heap Q" "{p} \<inter> queued Q = {}" "pages_ok s heap B Q {p}" "length Q = 75" "length (pages h') = 75"
    "queues_ok (page_at s) (pages h') Q" by (rule heap_invE [OF inv])
  then have hh: "h' = h" using h by simp
  note v = h'(3) [unfolded hh seg_inv_def] and so = h'(2) [unfolded hh segs_ok_def]
  have pU: "p \<in> queued Q \<union> {p}" by simp
  obtain g i c where m: "p = hdr g i" "0 < i" "M (g, i) = Some (c, UsedSpan)" "g \<in> dom (segment_at s)" "seg_addr_ok g" "0 < c" "i + c \<le> 512"
    "tiled M g" "span_hdr (page_at s) g i c UsedSpan" by (rule seg_inv_hdr [OF h'(3) pU])
  obtain sg where sg: "segment_at s g = Some sg" using m(4) by blast
  have sgf: "thread_id sg \<noteq> 0" "seg_kind (main2 sg) \<noteq> Huge" "abandoned (main2 sg) = 0" using v so sg by blast+
  have pl: "placed Q {p} 75 p" by (simp add: placed_def)
  obtain pg1 fs ls ts where hp: "page_at s p = Some pg1" "hdr_ok heap 75 pg1" "blocks_ok (node_at s) p pg1 (dom B) fs ls ts"
    "split_ok p pg1 (dom B) fs ls ts" "\<forall>b n. B b = Some n \<longrightarrow> b \<in> pblocks p pg1 \<longrightarrow> n \<le> unat (psize pg1)" by (rule page_at_placed [OF inv pl])
  have pg1: "pg1 = pg" using hp(1) pg(1) by simp
  have empty: "dom B \<inter> pblocks p pg = {}" using split_unused(2) hp(4) pg(2) pg1 by blast
  have "tlist (node_at s) pg ts" using hp(3) pg1 unfolding blocks_ok_def by blast
  then obtain q d where x: "xthread_free pg = encode q d" "q AND 3 = 0" "d \<noteq> Freeing" unfolding tlist_def by blast
  have "to_int d \<noteq> 1" using x(3) by (cases d) (simp_all add: to_int_def)
  then have delay: "masked_ptr_delay_get_delay (xthread_free pg) \<noteq> 1" using masked_ptr_ops(2) [OF x(2)] x(1) by simp
  have ok: "seg_ok s (tld_ptr h) (dom (segment_at s)) M" using v by blast
  have seg: "ptr_segment p = g" using hdr_back(1) [of g i] m by simp
  have alone: "\<And>key d. M key \<noteq> Some (d, PoppedSpan)" using v by blast
  let ?r = "segment_page_free env p force (tld_ptr h) s" and ?A = "slices_of (M((g, i) \<mapsto> (c, PoppedSpan))) {FreeSpan, PoppedSpan}"
  note free = segment_page_free_ok [OF ok m(3) alone sg sgf(1,2) pg(1) [unfolded m(1)] delay, of env force, folded m(1), unfolded sgf(3)]
  consider (panic) "?r = Inl Panic" "\<not> mprotect_granted env" | (todo) "?r = Inl Todo" "seg_used (main2 sg) - 1 = 0"
    | (ok) s' M' where "?r = Inr s'" "freed_span M g i c M'" "seg_ok s' (tld_ptr h) (dom (segment_at s)) M'" "span_frame (tld_ptr h) g ?A s s'"
    using free by (auto split: if_splits)
  then show ?thesis
  proof cases
    case panic
    then show ?thesis by (simp add: result_def outcome_def)
  next
    case todo
    then have "seg_used (main2 sg) = 1" by (metis diff_eq_eq add_0)
    then have "last_page s p" using sg seg by (simp add: last_used_def)
    then show ?thesis using todo(1) by (simp add: result_def)
  next
    case ok
    obtain t L where sp: "spans_inv (page_at s) (sqs t) (dom (segment_at s)) M L" using v unfolding seg_ok_def by blast
    note kl = segment_page_free_life [OF ok(1)] and fr = ok(4)
    note segs = span_frame_segments [OF fr m(4)]
    have UQ: "queued Q \<union> {p} - {hdr g i} = queued Q" using h'(5) m(1) by auto
    have si: "seg_inv (tld_ptr h) s' (queued Q) M'" using seg_inv_freed [OF h'(3) [unfolded hh] m(3,2) ok(2-4)] unfolding UQ .
    have zero: "M (g, 0) = Some (1, UsedSpan)" using v m(4) by blast
    note M' = freed_span_cases [OF ok(2) m(8,3,2) zero]
    have notA: "hdr g' k \<notin> ?A" if k: "M (g', j) = Some (e, UsedSpan)" "(g', j) \<noteq> (g, i)" "j \<le> k" "k < j + e" for g' j e k
    proof
      assume a: "hdr g' k \<in> ?A"
      have sp1: "spans_inv (page_at s) (sqs t) (dom (segment_at s)) (M((g, i) \<mapsto> (c, PoppedSpan))) L" by (rule spans_inv_release [OF sp m(3)])
      have "(M((g, i) \<mapsto> (c, PoppedSpan))) (g', j) = Some (e, UsedSpan)" using k(1,2) by auto
      from used_not_slice [OF sp1 this k(3,4) a] show False by simp
    qed
    have keep: "page_at s' x = page_at s x" if x: "x \<in> queued Q" for x
    proof -
      have xU: "x \<in> queued Q \<union> {p}" using x by simp
      obtain g' j e where y: "x = hdr g' j" "0 < j" "M (g', j) = Some (e, UsedSpan)" "g' \<in> dom (segment_at s)" "seg_addr_ok g'" "0 < e" "j + e \<le> 512"
        "tiled M g'" "span_hdr (page_at s) g' j e UsedSpan" by (rule seg_inv_hdr [OF h'(3) xU])
      have "(g', j) \<noteq> (g, i)" using x y(1) m(1) h'(5) by auto
      then have "x \<notin> ?A" using notA [OF y(3), of j] y(1,6) by simp
      then show ?thesis using fr unfolding span_frame_def by blast
    qed
    have rest: "node_at s' = node_at s" "heap_at s' = heap_at s" using fr unfolding span_frame_def by blast+
    have com: "{j..<j + e} \<subseteq> committed s' g'" if j: "M' (g', j) = Some (e, UsedSpan)" "0 < j" for g' j e
    proof
      fix k assume k: "k \<in> {j..<j + e}"
      have mj: "M (g', j) = Some (e, UsedSpan)" "(g', j) \<noteq> (g, i)" using M'(1) j(1) by blast+
      have "{j..<j + e} \<subseteq> committed s g'" using so mj(1) j(2) by blast
      then have "k \<in> committed s g'" using k by blast
      moreover have "k < 512" using spans_invD(3) [OF sp mj(1)] k by simp
      moreover have "hdr g' k \<notin> ?A" using notA [OF mj] k by simp
      ultimately show "k \<in> committed s' g'" using span_frame_committed [OF fr, of k g'] by metis
    qed
    have ids: "\<forall>q sg. segment_at s' q = Some sg \<longrightarrow> thread_id sg = tid \<and> abandoned (main2 sg) = 0"
      using span_frame_ids [OF fr _ m(4), of tid] so by blast
    have emp: "page_empty_ptr h \<in> dom (page_at s')" using so kl(1) unfolding keeps_life_def by blast
    have cl: "clean xg" if x: "page_at s' x = Some xg" "x \<notin> queued Q" for x xg
    proof (cases "x = p")
      case True
      then show ?thesis using kl(2) x(1) by auto
    next
      case False
      then have "\<And>xg. page_at s x = Some xg \<Longrightarrow> clean xg" using so x(2) by blast
      then show ?thesis by (rule keeps_clean [OF kl(1) x(1)])
    qed
    have "segs_ok tid (tld_ptr h) (page_empty_ptr h) s' (queued Q) M'"
      unfolding segs_ok_def segs(1) using si ids com emp so cl by blast
    moreover note tr = pages_transfer [OF inv keep rest(1) arg_cong [OF rest(2), of "\<lambda>f. f heap"]]
    have "pages_ok s' heap B Q {}" unfolding pages_ok_def
    proof (intro conjI allI impI ballI)
      show "page_ok s' heap B k x" if "placed Q {} k x" for k x using tr(2) that by blast
      fix b assume b: "b \<in> dom B"
      then obtain x xg where x: "x \<in> queued Q \<union> {p}" "page_at s x = Some xg" "b \<in> pblocks x xg" using h'(6) unfolding pages_ok_def by blast
      have "x \<noteq> p" using x(2,3) pg(1) empty b by auto
      then show "\<exists>p \<in> queued Q \<union> {}. \<exists>pg. page_at s' p = Some pg \<and> b \<in> pblocks p pg" using x keep by auto
    qed
    ultimately have "heap_inv tid heap s' B Q {} M'" using tr(1) h rest(2) unfolding heap_inv_def by simp
    moreover have "frame heap B s s'" using rest h kl(1) unfolding frame_def keeps_life_def by simp
    ultimately show ?thesis using ok(1) segs(1) by (auto simp: kept_def)
  qed
qed


lemma result_stepped:
  assumes "stepped tid heap B M s s1 Q X" "result T env r (kept tid heap B s1)" "T \<Longrightarrow> T'"
  shows "result T' env r (kept tid heap B s)"
proof (rule result_mono [OF assms(2)])
  fix a assume "kept tid heap B s1 a"
  then show "kept tid heap B s a" using assms(1) frame_trans unfolding kept_def stepped_def quiet_def by metis
qed (rule assms(3))

lemma last_page_quiet: "quiet s s1 \<Longrightarrow> last_page s1 p = last_page s p"
  by (simp add: last_used_def quiet_def)

lemma xheap_placed: "heap_inv tid heap s B Q X M \<Longrightarrow> placed Q X k p \<Longrightarrow> page_at s p = Some pg \<Longrightarrow> hdr_ok heap k pg \<and> xheap pg = heap"
  using pages_okD [OF heap_invD(1)] by (fastforce elim: page_okE simp: hdr_ok_def)

lemma page_free_inv:
  assumes inv: "heap_inv tid heap s B Q {} M" and k: "unat pq = k" "k \<le> 74" "Q ! k = us @ p # vs" and pg: "page_at s p = Some pg" "used (inner pg) = 0"
  shows "result (last_page s p) env (page_free env p pq force s) (kept tid heap B s)"
proof -
  have pl: "placed Q {} k p" using k heap_invD(4) [OF inv] by (simp add: placed_def)
  have hd: "hdr_ok heap k pg" "xheap pg = heap" using xheap_placed [OF inv pl pg(1)] by auto
  let ?pg = "pg\<lparr>inner := set_has_aligned False (inner pg)\<rparr>"
  have "page_same pg ?pg" by (simp add: page_same_def set_has_aligned_def)
  then obtain s1 where s1: "upd_inner s p (set_has_aligned False) = Inr s1" "stepped tid heap B M s s1 Q {}" "page_at s1 p = Some ?pg"
    by (rule flag_inv [OF inv pl pg(1)]) (use hd(1) in \<open>simp_all add: flags1_laws hdr_ok_def\<close>)
  have inv1: "heap_inv tid heap s1 B Q {} M" using s1(2) by (simp add: stepped_def)
  obtain s2 pg2 where r: "page_queue_remove s1 heap pq p = Inr s2" "stepped tid heap B M s1 s2 (Q[k := us @ vs]) {p}" "page_at s2 p = Some pg2"
    "body pg2 = body ?pg" by (rule remove_inv [OF inv1 k s1(3)])
  have inv2: "heap_inv tid heap s2 B (Q[k := us @ vs]) {p} M" using r(2) by (simp add: stepped_def)
  have u: "used (inner pg2) = 0" using body_page_same [OF r(4)] pg(2) by (simp add: set_has_aligned_def)
  obtain h where h: "heap_at s2 heap = Some h" using heap_exists [OF inv2] by blast
  have st: "stepped tid heap B M s s2 (Q[k := us @ vs]) {p}" by (rule stepped_trans [OF s1(2) r(2)])
  then have "last_page s2 p = last_page s p" unfolding stepped_def using last_page_quiet by blast
  then have "result (last_page s p) env (segment_page_free env p force (tld_ptr h) s2) (kept tid heap B s)"
    using result_stepped [OF st seg_free_inv [OF inv2 r(3) u h]] by simp
  moreover have "page_free env p pq force s = segment_page_free env p force (tld_ptr h) s2"
    using s1(1,3) hd(2) r(1) h by (simp add: page_free_def)
  ultimately show ?thesis by simp
qed

text \<open>Heap fields no invariant speaks of.\<close>

lemma heap_field_inv:
  assumes inv: "heap_inv tid heap s B Q X M" and h: "heap_at s heap = Some h" and f: "tld_ptr (f h) = tld_ptr h" "page_empty_ptr (f h) = page_empty_ptr h"
    "pages (f h) = pages h" "pages_free_direct (f h) = pages_free_direct h" "thread_delayed_free (f h) = thread_delayed_free h"
  shows "\<exists>s'. upd_heap s heap f = Inr s' \<and> stepped tid heap B M s s' Q X \<and> heap_at s' heap = Some (f h) \<and> page_at s' = page_at s \<and> node_at s' = node_at s"
proof -
  let ?s = "s\<lparr>heap_at := (heap_at s)(heap \<mapsto> f h)\<rparr>"
  have e: "s\<lparr>page_at := page_at s, heap_at := (heap_at s)(heap \<mapsto> f h)\<rparr> = ?s" by simp
  have "heap_ok ?s heap Q" using heap_invD(2) [OF inv] h f(2-4) by (simp add: heap_ok_def)
  then have "heap_inv tid heap (s\<lparr>page_at := page_at s, heap_at := (heap_at s)(heap \<mapsto> f h)\<rparr>) B Q X M"
    by (intro heap_inv_queue [OF inv h f(1,2)]) (use heap_invD(3) [OF inv] in \<open>auto simp: page_same_def\<close>)
  then have "stepped tid heap B M s ?s Q X" unfolding e using h f(1,2,5) by (simp add: stepped_def frame_def quiet_def)
  then show ?thesis using h by (simp add: upd_heap_eq)
qed

lemma queue_of_page:
  assumes inv: "heap_inv tid heap s B Q {} M" and p: "placed Q {} k p" "page_at s p = Some pg"
  shows "\<exists>pq. page_queue_of p s = Inr (heap, pq) \<and> unat pq = k"
proof -
  have hd: "hdr_ok heap k pg" "xheap pg = heap" using xheap_placed [OF inv p] by auto
  have k: "k < 75" using p(1) heap_invD(4) [OF inv] by (simp add: placed_def)
  obtain b where b: "1 \<le> b" "b \<le> 52" "unat (psize pg) = size_of_bin (int b)" "k < 74 \<longrightarrow> k = b" "unat (ucast (bin (psize pg)) :: usize) = b"
    by (rule bin_of_page [OF hd(1)])
  have "get_in_full (inner pg) = (k = 74)" using hd(1) k unfolding hdr_ok_def by blast
  moreover have "unat BIN_FULL = 74" by (simp add: layout_consts)
  ultimately show ?thesis using b(4,5) k p(2) hd(2) by (simp add: page_queue_of_def Let_def)
qed

lemma retire_inv:
  assumes inv: "heap_inv tid heap s B Q {} M" and p: "placed Q {} k p" "page_at s p = Some pg" "used (inner pg) = 0"
  shows "result (last_page s p) env (page_retire env p s) (kept tid heap B s)"
proof -
  obtain pq where pq: "page_queue_of p s = Inr (heap, pq)" "unat pq = k" using queue_of_page [OF inv p(1,2)] by blast
  obtain h where h: "heap_at s heap = Some h" using heap_exists [OF inv] by blast
  have k: "k < 75" "p \<in> set (Q ! k)" using p(1) heap_invD(4) [OF inv] by (simp_all add: placed_def)
  have lp: "length (pages h) = 75" using heap_invD(2) [OF inv] h by (simp add: heap_ok_def queue_sizes_ok_def layout_consts)
  then have gq: "get_queue s heap pq = Inr (pages h ! k)" using h pq(2) k(1) by (simp add: get_queue_def)
  let ?keep = "xblock_size (inner pg) \<le> MAX_RETIRE_SIZE \<and> \<not> pq_block_size (pages h ! k) > MEDIUM_OBJ_SIZE_MAX
        \<and> pq_last (pages h ! k) = p \<and> pq_first (pages h ! k) = p"
  show ?thesis
  proof (cases ?keep)
    case False
    obtain us vs where Qk: "Q ! k = us @ p # vs" using k(2) by (meson split_list)
    have "page_retire env p s = page_free env p pq False s"
      by (simp only: page_retire_def pq(1) bindR_simps prod.case fetch_simps(1) [of "page_at s", OF p(2)] gq False if_False)
    then show ?thesis using page_free_inv [OF inv pq(2) _ Qk p(2,3)] k(1) by simp
  next
    case True
    define f where "f = (\<lambda>i. set_retire_expire (1 + (if (ucast (xblock_size i) :: usize) \<le> SMALL_OBJ_SIZE_MAX then 8 else 8 div 4)) i)"
    have "page_same pg (pg\<lparr>inner := f (inner pg)\<rparr>)" by (simp add: page_same_def f_def set_retire_expire_def)
    then obtain s1 where s1: "upd_inner s p f = Inr s1" "stepped tid heap B M s s1 Q {}" "heap_at s1 = heap_at s"
      by (rule flag_inv [OF inv p(1,2)]) (simp_all add: f_def set_retire_expire_def flag_getters)
    have inv1: "heap_inv tid heap s1 B Q {} M" using s1(2) by (simp add: stepped_def)
    have h1: "heap_at s1 heap = Some h" using s1(3) h by simp
    let ?f1 = "\<lambda>h :: Heap. if pq < page_retired_min h then h\<lparr>page_retired_min := pq\<rparr> else h"
    let ?f2 = "\<lambda>h :: Heap. if pq > page_retired_max h then h\<lparr>page_retired_max := pq\<rparr> else h"
    have "\<exists>s2. upd_heap s1 heap ?f1 = Inr s2 \<and> stepped tid heap B M s1 s2 Q {} \<and> heap_at s2 heap = Some (?f1 h)
        \<and> page_at s2 = page_at s1 \<and> node_at s2 = node_at s1"
      by (rule heap_field_inv [OF inv1 h1]) simp_all
    then obtain s2 where s2: "upd_heap s1 heap ?f1 = Inr s2" "stepped tid heap B M s1 s2 Q {}" "heap_at s2 heap = Some (?f1 h)" by blast
    have inv2: "heap_inv tid heap s2 B Q {} M" using s2(2) by (simp add: stepped_def)
    have "\<exists>s3. upd_heap s2 heap ?f2 = Inr s3 \<and> stepped tid heap B M s2 s3 Q {} \<and> heap_at s3 heap = Some (?f2 (?f1 h))
        \<and> page_at s3 = page_at s2 \<and> node_at s3 = node_at s2"
      by (rule heap_field_inv [OF inv2 s2(3)]) simp_all
    then obtain s3 where s3: "upd_heap s2 heap ?f2 = Inr s3" "stepped tid heap B M s2 s3 Q {}" by blast
    have "page_retire env p s = Inr s3"
      using pq(1) p(2) gq True s1(1) s2(1) s3(1) by (simp add: page_retire_def Let_def f_def)
    moreover have "kept tid heap B s s3" by (rule stepped_kept [OF stepped_trans [OF stepped_trans [OF s1(2) s2(2)] s3(2)]])
    ultimately show ?thesis by simp
  qed
qed


section \<open>A block of one's own\<close>

lemma free_local_inv:
  assumes inv: "heap_inv tid heap s B Q X M" and p: "placed Q X k p" "page_at s p = Some pg" and b: "b \<in> dom B" "b \<in> pblocks p pg"
  obtains s' pg' where "free_local p b s = Inr (used (inner pg'), s')" "heap_inv tid heap s' (B(b := None)) Q X M" "frame heap (B(b := None)) s s'"
    "quiet s s'" "page_at s' p = Some pg'" "page_kept pg pg'"
proof -
  obtain pg1 fs ls ts where h: "page_at s p = Some pg1" "hdr_ok heap k pg1" "blocks_ok (node_at s) p pg1 (dom B) fs ls ts"
    "split_ok p pg1 (dom B) fs ls ts" "\<forall>b n. B b = Some n \<longrightarrow> b \<in> pblocks p pg1 \<longrightarrow> n \<le> unat (psize pg1)" by (rule page_at_placed [OF inv p(1)])
  have pg1: "pg1 = pg" using h(1) p(2) by simp
  note h = h [unfolded pg1]
  note d = split_okD [OF h(4)]
  have l: "ll (node_at s) (free (inner pg)) fs" "ll (node_at s) (local_free (inner pg)) ls" "tlist (node_at s) pg ts" using h(3) unfolding blocks_ok_def by blast+
  have nb: "b \<notin> set (fs @ ls @ ts)" "b \<noteq> 0" using d(8) b blocks_of_nonnull [OF d(2) b(2)] by blast+
  let ?m = "(node_at s)(b \<mapsto> free (inner pg))" and ?pg = "pg\<lparr>inner := (inner pg)\<lparr>free := b, used := used (inner pg) - 1\<rparr>\<rparr>"
  let ?s = "s\<lparr>page_at := (page_at s)(p \<mapsto> ?pg), node_at := ?m\<rparr>"
  have kept: "page_kept pg ?pg" by (simp add: page_kept_def)
  have fin: "finite (dom B \<inter> pblocks p pg)" by (simp add: blocks_of_def)
  have "b \<in> dom B \<inter> pblocks p pg" using b by blast
  then have "0 < card (dom B \<inter> pblocks p pg)" using fin by (auto simp: card_gt_0_iff)
  then have u: "1 \<le> unat (used (inner pg))" using split_used [OF h(4)] by simp
  then have u1: "unat (used (inner pg) - 1) = unat (used (inner pg)) - 1" by (subst unat_sub_small) (simp_all add: word_le_nat_alt)
  have "split_ok p ?pg (dom (B(b := None))) (b # fs) ls ts"
    using d nb b u u1 unfolding split_ok_def by auto
  moreover have "ll ?m b (b # fs)" "ll ?m (local_free (inner pg)) ls" "tlist ?m ?pg ts" using l nb by (auto simp: tlist_def)
  ultimately have bo: "blocks_ok ?m p ?pg (dom (B(b := None))) (b # fs) ls ts" unfolding blocks_ok_def by simp
  have sub: "{b} \<subseteq> blocks_of p (psize pg) (pres pg)" using b(2) blocks_of_mono [OF d(3)] by blast
  have "heap_inv tid heap ?s (B(b := None)) Q X M"
    by (rule heap_inv_page [OF inv p kept _ sub bo]) (use b(2) h(5) in \<open>auto split: if_splits\<close>)
  moreover have "frame heap (B(b := None)) s ?s"
  proof -
    have "b \<notin> owned (B(b := None))"
    proof
      assume "b \<in> owned (B(b := None))"
      then obtain c n where c: "B c = Some n" "c \<noteq> b" "unat c \<le> unat b" "unat b < unat c + max 1 n" unfolding owned_def by (auto split: if_splits)
      then have o1: "b \<in> owned (B(b := None))" unfolding owned_def by auto
      let ?s1 = "?s"
      obtain tld where si: "seg_inv tld ?s1 (queued Q \<union> X) M" using heap_seg_inv [OF \<open>heap_inv tid heap ?s (B(b := None)) Q X M\<close>] by blast
      have "b \<notin> owned (B(b := None))"
        by (rule owned_free [OF si heap_invD(1) [OF \<open>heap_inv tid heap ?s (B(b := None)) Q X M\<close>] p(1), of ?pg]) (use sub in simp_all)
      then show False using o1 by blast
    qed
    then show ?thesis using heap_exists [OF inv] unfolding frame_def by auto
  qed
  moreover have "free_local p b s = Inr (used (inner ?pg), ?s)"
    using p(2) by (simp add: free_local_def insert_block_def upd_inner_eq st_canon Let_def)
  moreover have "quiet s ?s" "page_at ?s p = Some ?pg" by (simp_all add: quiet_def)
  ultimately show ?thesis using that [of ?pg ?s] kept by blast
qed


text \<open>From the address of a block that is out to its page.\<close>

lemma block_to_page:
  assumes g: "seg_addr_ok g" "0 < i" "i + c \<le> 512" and b: "unat b = unat g + 65536 * i + start_offset n + j * n" "unat b + n \<le> unat g + 65536 * (i + c)"
    and n: "0 < n" "8 dvd n"
  obtains q where "calculate_segment_ptr_from_block b = g" "calculate_slice_page_ptr_from_block b g = hdr g q" "i \<le> q" "q < i + c"
proof -
  define q where "q = (unat b - unat g) div 65536"
  let ?pid = "\<lparr>segment_id = unat g div 33554432, idx = i\<rparr>"
  let ?b = "\<lparr>page_id = ?pid, block_idx = j, slice_idx = q, block_size = n\<rparr>"
  have ga: "unat g div 33554432 * 33554432 = unat g" "unat g + 33554432 < 18446744073709551615"
    using g(1) by (auto simp: seg_addr_ok_def)
  have lo: "unat g + 65536 * i \<le> unat b" using b(1) by simp
  have hi: "unat b < unat g + 65536 * (i + c)" using b(2) n(1) by linarith
  have q: "i \<le> q" "q < i + c"
    unfolding q_def using lo hi by (simp_all add: less_eq_div_iff_mult_less_eq div_less_iff_less_mult)
  have "65536 * q \<le> unat b - unat g" "unat b - unat g < 65536 * q + 65536" unfolding q_def by simp_all
  then have qb: "unat g + q * 65536 \<le> unat b" "unat b < unat g + q * 65536 + 65536" using lo by linarith+
  have c512: "65536 * (i + c) \<le> 33554432" using g(3) by simp
  have "block_start ?b = unat b" using b(1) ga(1)
    by (simp add: block_start_def block_start_at_def page_start_def segment_start_def layout_consts)
  moreover have "8 \<le> n" "n mod 8 = 0" using n by (auto elim!: dvdE)
  ultimately have bp: "is_block_ptr1 (unat b) ?b"
    using ga lo hi qb q(2) g(2,3) c512 unfolding is_block_ptr1_def Let_def
    by (simp add: segment_start_def layout_consts)
  have sp: "is_segment_ptr (calculate_segment_ptr_from_block b) (unat g div 33554432)" using segment_ptr_from_block_ok [OF bp] by simp
  moreover have gp: "is_segment_ptr g (unat g div 33554432)" by (rule seg_addr_ptr [OF g(1)])
  ultimately have s: "calculate_segment_ptr_from_block b = g" by (simp add: is_segment_ptr_def word_unat_eq_iff)
  have "is_page_ptr (calculate_slice_page_ptr_from_block b g) (?pid\<lparr>idx := q\<rparr>)" using slice_page_ptr_from_block_ok [OF bp, of g] gp by simp
  moreover have "is_page_ptr (hdr g q) \<lparr>segment_id = unat g div 33554432, idx = q\<rparr>" using hdr_page_ptr [OF g(1), of q] q(2) g(3) by simp
  ultimately have "calculate_slice_page_ptr_from_block b g = hdr g q" using page_ptr_unique by simp
  then show ?thesis using that s q by blast
qed

lemma block_page_ok:
  assumes inv: "heap_inv tid heap s B Q X M" and b: "b \<in> dom B"
  obtains p k pg sg where "placed Q X k p" "page_at s p = Some pg" "b \<in> pblocks p pg" "calculate_segment_ptr_from_block b = ptr_segment p"
    "segment_at s (ptr_segment p) = Some sg" "thread_id sg = tid" "block_page b (ptr_segment p) s = Inr p" "b \<noteq> 0"
proof -
  obtain h where h: "heap_at s heap = Some h" "segs_ok tid (tld_ptr h) (page_empty_ptr h) s (queued Q \<union> X) M"
    "seg_inv (tld_ptr h) s (queued Q \<union> X) M" "heap_ok s heap Q" "X \<inter> queued Q = {}" "pages_ok s heap B Q X" "length Q = 75" "length (pages h) = 75"
    "queues_ok (page_at s) (pages h) Q" by (rule heap_invE [OF inv])
  obtain n where "B b = Some n" using b by blast
  from live_block [OF h(6) this] obtain p k pg j where p: "placed Q X k p" "page_ok s heap B k p" "page_at s p = Some pg"
    "b = page_block p (psize pg) j" "j < pcap pg" "j < pres pg" by metis
  have pU: "p \<in> queued Q \<union> X" using p(1) placed_iff by blast
  obtain g i c where m: "p = hdr g i" "0 < i" "M (g, i) = Some (c, UsedSpan)" "g \<in> dom (segment_at s)" "seg_addr_ok g" "0 < c" "i + c \<le> 512"
    "tiled M g" "span_hdr (page_at s) g i c UsedSpan" by (rule seg_inv_hdr [OF h(3) pU])
  obtain fs ls ts where hd: "hdr_ok heap k pg" "split_ok p pg (dom B) fs ls ts" using p(2,3) by (auto elim: page_okE)
  have "pcount pg = of_nat c" using m(9,1) p(3) unfolding span_hdr_def by simp
  then have "unat (pcount pg) = c" using m(7) by simp
  then have room: "start_offset (unat (psize pg)) + pres pg * unat (psize pg) \<le> 65536 * c" using hd(1) unfolding hdr_ok_def by simp
  have fits: "page_fits (hdr g i) (psize pg) (pres pg)" using split_okD(1) [OF hd(2)] m(1) by simp
  note sb = span_block [OF m(5,7) fits p(6) room, folded m(1), folded p(4)]
  have sz: "0 < unat (psize pg)" "8 dvd unat (psize pg)" using hdr_ok_size [OF hd(1)] by blast+
  obtain q where q: "calculate_segment_ptr_from_block b = g" "calculate_slice_page_ptr_from_block b g = hdr g q" "i \<le> q" "q < i + c"
    by (rule block_to_page [OF m(5,2,7) sb(1,3) sz])
  have seg: "ptr_segment p = g" using hdr_back(1) [of g i] m by simp
  obtain sg where sg: "segment_at s g = Some sg" using m(4) by blast
  then have tid: "thread_id sg = tid" using h(2) unfolding segs_ok_def by blast
  have "q - i < c" using q(3,4) by linarith
  then obtain qg where qg: "page_at s (hdr g (i + (q - i))) = Some qg" "poffset qg = of_nat (q - i) * 80" using m(9) unfolding span_hdr_def by blast
  have qi: "i + (q - i) = q" "q - (q - i) = i" using q(3) by simp_all
  have "calculate_page_ptr_subtract_offset (hdr g q) (poffset qg) = hdr g (q - (q - i))" unfolding qg(2) by (rule hdr_subtract) (use q m(7) in simp_all)
  then have "block_page b g s = Inr p" using qg(1) q(2) m(1) unfolding qi by (simp add: block_page_def)
  moreover have "b \<in> pblocks p pg" using p(4,5) by (auto simp: blocks_of_def)
  moreover have "b \<noteq> 0" using sb(2) m(2) by auto
  ultimately show ?thesis using that [OF p(1,3)] q(1) seg sg tid by simp
qed

lemma result_freed:
  assumes "frame heap (B(b := None)) s s1" "quiet s s1" "result (last_page s1 p) env r (kept tid heap (B(b := None)) s1)"
  shows "result (last_page s p) env r (kept tid heap (B(b := None)) s)"
proof (rule result_mono [OF assms(3)])
  show "last_page s1 p \<Longrightarrow> last_page s p" using last_page_quiet [OF assms(2)] by simp
  show "kept tid heap (B(b := None)) s a" if "kept tid heap (B(b := None)) s1 a" for a
    using that assms(1,2) frame_trans unfolding kept_def quiet_def by metis
qed

lemma page_kept_flags: "page_kept pg pg' \<Longrightarrow> get_in_full (inner pg') = get_in_full (inner pg)"
  by (simp add: page_kept_def get_in_full_def)

text \<open>\<^verbatim>\<open>free_block\<close> of the owner.\<close>

lemma free_block_inv:
  assumes inv: "heap_inv tid heap s B Q {} M" and p: "placed Q {} k p" "page_at s p = Some pg" and b: "b \<in> dom B" "b \<in> pblocks p pg"
  shows "result (last_page s p) env (free_block env p True b s) (kept tid heap (B(b := None)) s)"
proof -
  obtain s1 pg1 where f: "free_local p b s = Inr (used (inner pg1), s1)" "heap_inv tid heap s1 (B(b := None)) Q {} M" "frame heap (B(b := None)) s s1"
    "quiet s s1" "page_at s1 p = Some pg1" "page_kept pg pg1" by (rule free_local_inv [OF inv p b])
  show ?thesis
  proof (cases "used (inner pg1) = 0")
    case True
    have "free_block env p True b s = page_retire env p s1" using f(1) True by (simp add: free_block_def)
    then show ?thesis using result_freed [OF f(3,4) retire_inv [OF f(2) p(1) f(5) True]] by simp
  next
    case False
    have "result (last_page s1 p) env (if get_in_full (inner pg1) then page_unfull p s1 else Inr s1) (kept tid heap (B(b := None)) s1)"
    proof (cases "get_in_full (inner pg1)")
      case True
      have k: "k < 75" "p \<in> set (Q ! k)" using p(1) heap_invD(4) [OF inv] by (simp_all add: placed_def)
      have "hdr_ok heap k pg1" using xheap_placed [OF f(2) p(1) f(5)] by blast
      then have "k = 74" using True k(1) unfolding hdr_ok_def by blast
      then obtain us vs where Q74: "Q ! 74 = us @ p # vs" using k(2) by (meson split_list)
      obtain s2 l where "page_unfull p s1 = Inr s2" "l < 74" "stepped tid heap (B(b := None)) M s1 s2 (Q[74 := us @ vs, l := Q ! l @ [p]]) {}"
        by (rule unfull_inv [OF f(2) Q74 f(5)])
      then show ?thesis using True stepped_kept by auto
    next
      case False
      have "kept tid heap (B(b := None)) s1 s1" using f(2) frame_refl by (auto simp: kept_def)
      then show ?thesis using False by simp
    qed
    moreover have "free_block env p True b s = (if get_in_full (inner pg1) then page_unfull p s1 else Inr s1)"
      using f(1,5) False by (simp add: free_block_def)
    ultimately show ?thesis using result_freed [OF f(3,4)] by simp
  qed
qed

lemma free_owner_inv:
  assumes inv: "heap_inv tid heap s B Q {} M" and b: "b \<in> dom B" and tid: "env_thread_id env = tid"
  shows "result (last_used s (calculate_segment_ptr_from_block b)) env (mi_free env b s) (kept tid heap (B(b := None)) s)"
proof -
  obtain p k pg sg where p: "placed Q {} k p" "page_at s p = Some pg" "b \<in> pblocks p pg" "calculate_segment_ptr_from_block b = ptr_segment p"
    "segment_at s (ptr_segment p) = Some sg" "thread_id sg = tid" "block_page b (ptr_segment p) s = Inr p" "b \<noteq> 0"
    by (rule block_page_ok [OF inv b])
  note free = free_block_inv [OF inv p(1,2) b p(3), of env]
  show ?thesis
  proof (cases "not_full_nor_aligned (inner pg)")
    case False
    have "mi_free env b s = free_block env p True b s"
      using p tid False by (simp add: mi_free_def free_generic_def Let_def)
    then show ?thesis using free p(4) by simp
  next
    case True
    obtain s1 pg1 where f: "free_local p b s = Inr (used (inner pg1), s1)" "heap_inv tid heap s1 (B(b := None)) Q {} M" "frame heap (B(b := None)) s s1"
      "quiet s s1" "page_at s1 p = Some pg1" "page_kept pg pg1" by (rule free_local_inv [OF inv p(1,2) b p(3)])
    have "\<not> get_in_full (inner pg1)" using page_kept_flags [OF f(6)] not_full_nor_aligned_imp [OF True] by simp
    then have "mi_free env b s = free_block env p True b s"
      using p tid True f(1,5) by (simp add: mi_free_def free_block_def Let_def)
    then show ?thesis using free p(4) by simp
  qed
qed

end
