(* ===== verification/Heap_Remote.thy ===== *)
theory Heap_Remote
  imports Heap_Free
begin

text \<open>
  Blocks that other threads free, in a heap with the invariant: \<^verbatim>\<open>free_block_mt\<close> puts the block
  on the page's thread-free list or on the delayed list of the heap, and
  \<^verbatim>\<open>heap_delayed_free_partial\<close> empties the delayed list. The state of a heap is the map of
  the blocks that are out together with the delayed list, whose blocks no thread owns.
\<close>

section \<open>The state of a heap\<close>

definition heap_state :: "u64 \<Rightarrow> usize \<Rightarrow> st \<Rightarrow> live \<Rightarrow> usize list \<Rightarrow> bool" where
  "heap_state tid heap s B ds \<longleftrightarrow> (\<exists>Q M h. heap_inv tid heap s B Q {} M \<and> heap_at s heap = Some h
     \<and> ll (node_at s) (thread_delayed_free h) ds \<and> set ds \<subseteq> dom B)"

lemma dom_owned: "dom B \<subseteq> owned B"
proof
  fix b assume "b \<in> dom B"
  then obtain n where "B b = Some n" by blast
  moreover have "unat b < unat b + max 1 n" by (simp add: less_max_iff_disj)
  ultimately show "b \<in> owned B" unfolding owned_def by blast
qed

lemma heap_state_kept:
  assumes st: "heap_state tid heap s B ds" and k: "kept tid heap B' s s'" and ds: "set ds \<subseteq> dom B'"
  shows "heap_state tid heap s' B' ds"
proof -
  obtain h where h: "heap_at s heap = Some h" "ll (node_at s) (thread_delayed_free h) ds" using st unfolding heap_state_def by blast
  obtain Q M where inv: "heap_inv tid heap s' B' Q {} M" using k unfolding kept_def by blast
  have fr: "frame heap B' s s'" using k unfolding kept_def by blast
  obtain h' where h': "heap_at s' heap = Some h'" "thread_delayed_free h' = thread_delayed_free h" using fr h(1) unfolding frame_def by auto
  have "node_at s' x = node_at s x" if "x \<in> set ds" for x using that ds fr dom_owned [of B'] unfolding frame_def by blast
  then have "ll (node_at s') (thread_delayed_free h') ds" using h(2) h'(2) lseg_cong [of ds "node_at s'" "node_at s"] by simp
  then show ?thesis using inv h'(1) ds unfolding heap_state_def by blast
qed

lemma delayed_word_inv:
  assumes inv: "heap_inv tid heap s B Q X M" and h: "heap_at s heap = Some h"
  shows "heap_inv tid heap (s\<lparr>heap_at := (heap_at s)(heap \<mapsto> h\<lparr>thread_delayed_free := x\<rparr>)\<rparr>) B Q X M"
proof -
  let ?h = "h\<lparr>thread_delayed_free := x\<rparr>"
  let ?s = "s\<lparr>page_at := page_at s, heap_at := (heap_at s)(heap \<mapsto> ?h)\<rparr>"
  have "heap_ok ?s heap Q" using heap_invD(2) [OF inv] h by (simp add: heap_ok_def)
  then have "heap_inv tid heap ?s B Q X M"
    by (intro heap_inv_queue [OF inv h]) (use heap_invD(3) [OF inv] in \<open>auto simp: page_same_def\<close>)
  then show ?thesis by simp
qed

text \<open>Blocks that are out do not overlap.\<close>

lemma live_apart_block:
  fixes x :: usize
  assumes inv: "heap_inv tid heap s B Q X M" and c: "B c = Some n" "c \<noteq> b" and b: "b \<in> dom B"
    and x: "unat c \<le> unat x" "unat x < unat c + max 1 n" "unat b \<le> unat x" "unat x < unat b + max 1 (the (B b))"
  shows False
proof -
  obtain tld where si: "seg_inv tld s (queued Q \<union> X) M" using heap_seg_inv [OF inv] by blast
  note ok = heap_invD(1) [OF inv]
  obtain m where m: "B b = Some m" using b by blast
  obtain p k pg j where p: "placed Q X k p" "page_ok s heap B k p" "page_at s p = Some pg" "c = page_block p (psize pg) j" "j < pcap pg" "j < pres pg"
    "n \<le> unat (psize pg)" using live_block [OF ok c(1)] by metis
  obtain q l qg i where q: "placed Q X l q" "page_ok s heap B l q" "page_at s q = Some qg" "b = page_block q (psize qg) i" "i < pcap qg" "i < pres qg"
    "m \<le> unat (psize qg)" using live_block [OF ok m] by metis
  have U: "p \<in> queued Q \<union> X" "q \<in> queued Q \<union> X" using p(1) q(1) placed_iff by blast+
  have sz: "0 < unat (psize pg)" "0 < unat (psize qg)" using p(2,3) q(2,3) hdr_ok_size by (auto elim!: page_okE)
  have "unat (page_block p (psize pg) j) \<le> unat x" "unat x < unat (page_block p (psize pg) j) + unat (psize pg)" 
    "unat (page_block q (psize qg) i) \<le> unat x" "unat x < unat (page_block q (psize qg) i) + unat (psize qg)"
    using x m sz p(4,7) q(4,7) by auto
  note y = this
  show False
  proof (cases "p = q")
    case False
    show False by (rule pages_apart [OF si U(1) p(2,3,6) U(2) q(2,3,6) False y])
  next
    case True
    then have e: "pg = qg" using p(3) q(3) by simp
    obtain fs ls ts where "split_ok p pg (dom B) fs ls ts" using p(2,3) by (auto elim: page_okE)
    from split_okD(1) [OF this] have "page_fits p (psize pg) (pres pg)" .
    moreover have "j \<noteq> i" using c(2) p(4) q(4) True e by auto
    ultimately show False using same_page_apart [of p "psize pg" "pres pg" j i x] p(6) q(6) y True e by simp
  qed
qed

lemma freed_not_owned:
  assumes inv: "heap_inv tid heap s (B(b := None)) Q X M" and p: "placed Q X k p" "page_at s p = Some pg" "b \<in> blocks_of p (psize pg) (pres pg)"
  shows "b \<notin> owned (B(b := None))"
proof -
  obtain tld where "seg_inv tld s (queued Q \<union> X) M" using heap_seg_inv [OF inv] by blast
  from owned_free [OF this heap_invD(1) [OF inv] p] show ?thesis by simp
qed


section \<open>The thread-free word of a page\<close>

lemma word_inv:
  assumes inv: "heap_inv tid heap s B Q X M" and p: "placed Q X k p" "page_at s p = Some pg"
    and q: "xthread_free pg = encode q e" "q AND 3 = 0" "d \<noteq> Freeing"
  shows "heap_inv tid heap (s\<lparr>page_at := (page_at s)(p \<mapsto> pg\<lparr>xthread_free := encode q d\<rparr>)\<rparr>) B Q X M"
proof -
  let ?pg = "pg\<lparr>xthread_free := encode q d\<rparr>"
  obtain pg1 fs ls ts where h: "page_at s p = Some pg1" "hdr_ok heap k pg1" "blocks_ok (node_at s) p pg1 (dom B) fs ls ts"
    "split_ok p pg1 (dom B) fs ls ts" "\<forall>b n. B b = Some n \<longrightarrow> b \<in> pblocks p pg1 \<longrightarrow> n \<le> unat (psize pg1)" by (rule page_at_placed [OF inv p(1)])
  have pg1: "pg1 = pg" using h(1) p(2) by simp
  note h = h [unfolded pg1]
  obtain q' d' where w: "xthread_free pg = encode q' d'" "q' AND 3 = 0" "ll (node_at s) q' ts" using h(3) unfolding blocks_ok_def tlist_def by blast
  have "q' = q" using w(1,2) q(1,2) encode_inject by simp
  then have "tlist (node_at s) ?pg ts" using w(3) q(2,3) unfolding tlist_def by auto
  then have "blocks_ok (node_at s) p ?pg (dom B) fs ls ts" using h(3) unfolding blocks_ok_def split_ok_def by simp
  moreover have "page_kept pg ?pg" by (simp add: page_kept_def)
  ultimately have "heap_inv tid heap (s\<lparr>page_at := (page_at s)(p \<mapsto> ?pg), node_at := node_at s\<rparr>) B Q X M"
    using h(5) by (intro heap_inv_page [OF inv p, where W = "{}"]) auto
  then show ?thesis by simp
qed

lemma tlist_word:
  assumes inv: "heap_inv tid heap s B Q X M" and p: "placed Q X k p" "page_at s p = Some pg"
  obtains q d where "xthread_free pg = encode q d" "q AND 3 = 0" "d \<noteq> Freeing"
proof -
  obtain fs ls ts where "blocks_ok (node_at s) p pg (dom B) fs ls ts" using page_at_placed [OF inv p(1)] p(2) by (metis option.inject)
  then show ?thesis using that unfolding blocks_ok_def tlist_def by blast
qed

lemma try_delayed_inv:
  assumes inv: "heap_inv tid heap s B Q X M" and p: "placed Q X k p" "page_at s p = Some pg"
  obtains s' pg' where "page_try_use_delayed_free p 0 False s = Inr (True, s')" "stepped tid heap B M s s' Q X" "page_at s' p = Some pg'" "page_kept pg pg'"
proof -
  obtain q d where w: "xthread_free pg = encode q d" "q AND 3 = 0" "d \<noteq> Freeing" by (rule tlist_word [OF inv p])
  have use: "to_int UseDelayedFree = 0" by (simp add: to_int_def)
  note ops = masked_ptr_ops(2) [OF w(2), of d] masked_ptr_ops(6) [OF w(2), of d UseDelayedFree, unfolded use]
  show ?thesis
  proof (cases "d = NoDelayedFree")
    case False
    have "page_try_use_delayed_free p 0 False s = Inr (True, s)"
      using p(2) w ops False by (cases d) (simp_all add: page_try_use_delayed_free_def try_use_delayed_free_def to_int_def Let_def)
    then show ?thesis using that stepped_refl [OF inv] p(2) page_kept_refl by blast
  next
    case True
    let ?pg = "pg\<lparr>xthread_free := encode q UseDelayedFree\<rparr>"
    let ?s = "s\<lparr>page_at := (page_at s)(p \<mapsto> ?pg)\<rparr>"
    have "page_try_use_delayed_free p 0 False s = Inr (True, ?s)"
      using p(2) w ops True by (simp add: page_try_use_delayed_free_def try_use_delayed_free_def to_int_def Let_def upd_page_eq)
    moreover have "stepped tid heap B M s ?s Q X"
      using word_inv [OF inv p w(1,2), of UseDelayedFree] heap_exists [OF inv] by (auto simp: stepped_def frame_def quiet_def)
    moreover have "page_at ?s p = Some ?pg" "page_kept pg ?pg" by (simp_all add: page_kept_def)
    ultimately show ?thesis using that by blast
  qed
qed


section \<open>Freeing by another thread\<close>

text \<open>What every call leaves alone, and what the calls of the kernel depend on.\<close>

definition later :: "usize \<Rightarrow> live \<Rightarrow> st \<Rightarrow> st \<Rightarrow> bool" where
  "later heap B s s' \<longleftrightarrow> (\<forall>x \<in> owned B. node_at s' x = node_at s x) \<and> sys_calls s \<le> sys_calls s' \<and> dom (segment_at s') = dom (segment_at s)
     \<and> (\<exists>h h'. heap_at s heap = Some h \<and> heap_at s' heap = Some h' \<and> page_empty_ptr h' = page_empty_ptr h)"

lemma kept_later: "kept tid heap B s s' \<Longrightarrow> later heap B s s'"
  unfolding kept_def later_def frame_def by (elim conjE exE) simp

lemma later_trans: "later heap B s s1 \<Longrightarrow> later heap B s1 s2 \<Longrightarrow> later heap B s s2"
  unfolding later_def by (elim conjE exE) simp

lemma later_mono: "later heap B s s' \<Longrightarrow> B' \<subseteq>\<^sub>m B \<Longrightarrow> later heap B' s s'"
  using owned_mono [of B' B] unfolding later_def by blast

lemma upd_none_le: "B(b := None) \<subseteq>\<^sub>m B"
  by (auto simp: map_le_def)

lemma free_mt_delayed:
  assumes st: "heap_at s heap = Some h" "ll (node_at s) (thread_delayed_free h) ds" "set ds \<subseteq> dom B"
    and inv: "heap_inv tid heap s B Q {} M" and p: "placed Q {} k p" "page_at s p = Some pg" and b: "b \<in> dom B" "b \<notin> set ds" "b \<in> pblocks p pg"
    and w: "xthread_free pg = encode q UseDelayedFree" "q AND 3 = 0"
  shows "\<exists>s'. free_block_mt p b s = Inr s' \<and> heap_state tid heap s' B (b # ds) \<and> later heap (B(b := None)) s s'"
proof -
  have x: "xheap pg = heap" using xheap_placed [OF inv p] by blast
  let ?pg = "pg\<lparr>xthread_free := encode q NoDelayedFree\<rparr>"
  let ?m = "(node_at s)(b \<mapsto> thread_delayed_free h)" and ?h = "h\<lparr>thread_delayed_free := b\<rparr>"
  let ?s1 = "s\<lparr>page_at := (page_at s)(p \<mapsto> ?pg)\<rparr>"
  let ?s2 = "?s1\<lparr>node_at := ?m\<rparr>"
  let ?s3 = "?s2\<lparr>heap_at := (heap_at ?s2)(heap \<mapsto> ?h)\<rparr>"
  have i1: "heap_inv tid heap ?s1 B Q {} M" by (rule word_inv [OF inv p w]) simp
  have i2: "heap_inv tid heap ?s2 B Q {} M" by (rule heap_inv_write [OF i1]) (use b(1) dom_owned [of B] in auto)
  have i3: "heap_inv tid heap ?s3 B Q {} M" by (rule delayed_word_inv [OF i2]) (use st(1) in simp)
  obtain fs ls ts where "split_ok p pg (dom B) fs ls ts" using page_at_placed [OF inv p(1)] p(2) by (metis option.inject)
  note d = split_okD [OF this]
  have b0: "b \<noteq> 0" using blocks_of_nonnull [OF d(2) b(3)] by blast
  have "ll (node_at ?s3) (thread_delayed_free ?h) (b # ds)" using st(2) b(2) b0 by simp
  then have "heap_state tid heap ?s3 B (b # ds)" using i3 st(3) b(1) unfolding heap_state_def by auto
  moreover have "free_block_mt p b s = Inr ?s3"
    using p(2) st(1) x w masked_ptr_ops [OF w(2)]
    by (simp add: free_block_mt_def Let_def atomic_insert_block_def upd_page_eq upd_heap_eq block_write_ptr_def st_canon page_canon)
  moreover have "b \<notin> owned (B(b := None))"
  proof -
    obtain tld where si: "seg_inv tld s (queued Q \<union> {}) M" using heap_seg_inv [OF inv] by blast
    show ?thesis
    proof
      assume "b \<in> owned (B(b := None))"
      then obtain c n where c: "B c = Some n" "c \<noteq> b" "unat c \<le> unat b" "unat b < unat c + max 1 n" unfolding owned_def by (auto split: if_splits)
      show False using live_apart_block [OF inv c(1,2) b(1) c(3,4)] by (simp add: less_max_iff_disj)
    qed
  qed
  then have "later heap (B(b := None)) s ?s3" using st(1) unfolding later_def by auto
  ultimately show ?thesis by blast
qed


lemma free_mt_page:
  assumes st: "heap_at s heap = Some h" "ll (node_at s) (thread_delayed_free h) ds" "set ds \<subseteq> dom B"
    and inv: "heap_inv tid heap s B Q {} M" and p: "placed Q {} k p" "page_at s p = Some pg" and b: "b \<in> dom B" "b \<notin> set ds" "b \<in> pblocks p pg"
    and w: "xthread_free pg = encode q d" "q AND 3 = 0" "d \<noteq> UseDelayedFree" "d \<noteq> Freeing"
  shows "\<exists>s'. free_block_mt p b s = Inr s' \<and> heap_state tid heap s' (B(b := None)) ds \<and> later heap (B(b := None)) s s'"
proof -
  obtain pg1 fs ls ts where h: "page_at s p = Some pg1" "hdr_ok heap k pg1" "blocks_ok (node_at s) p pg1 (dom B) fs ls ts"
    "split_ok p pg1 (dom B) fs ls ts" "\<forall>b n. B b = Some n \<longrightarrow> b \<in> pblocks p pg1 \<longrightarrow> n \<le> unat (psize pg1)" by (rule page_at_placed [OF inv p(1)])
  have pg1: "pg1 = pg" using h(1) p(2) by simp
  note h = h [unfolded pg1]
  note sd = split_okD [OF h(4)]
  let ?B = "B(b := None)" and ?m = "(node_at s)(b \<mapsto> q)" and ?pg = "pg\<lparr>xthread_free := encode b d\<rparr>"
  let ?s = "s\<lparr>page_at := (page_at s)(p \<mapsto> ?pg), node_at := ?m\<rparr>"
  have b0: "b \<noteq> 0" "b AND 3 = 0" using blocks_of_nonnull [OF sd(2) b(3)] by blast+
  have nb: "b \<notin> set (fs @ ls @ ts)" using sd(8) b(1) by blast
  have l: "ll (node_at s) (free (inner pg)) fs" "ll (node_at s) (local_free (inner pg)) ls" "tlist (node_at s) pg ts"
    using h(3) unfolding blocks_ok_def by blast+
  obtain q' d' where w': "xthread_free pg = encode q' d'" "q' AND 3 = 0" "ll (node_at s) q' ts" using l(3) unfolding tlist_def by blast
  have "q' = q" using w'(1,2) w(1,2) encode_inject by simp
  then have "ll ?m b (b # ts)" using w'(3) nb b0(1) by simp
  then have "tlist ?m ?pg (b # ts)" using b0(2) w(4) unfolding tlist_def by (intro exI [of _ b] exI [of _ d]) simp
  moreover have "split_ok p ?pg (dom ?B) fs ls (b # ts)" using sd nb b unfolding split_ok_def by auto
  ultimately have bo: "blocks_ok ?m p ?pg (dom ?B) fs ls (b # ts)" using l(1,2) nb unfolding blocks_ok_def by simp
  have sub: "{b} \<subseteq> blocks_of p (psize pg) (pres pg)" using b(3) blocks_of_mono [OF sd(3)] by blast
  have kp: "page_kept pg ?pg" by (simp add: page_kept_def)
  have inv': "heap_inv tid heap ?s ?B Q {} M"
    by (rule heap_inv_page [OF inv p kp _ sub bo]) (use b(3) h(5) in \<open>auto split: if_splits\<close>)
  have "b \<notin> owned ?B" by (rule freed_not_owned [OF inv' p(1), of ?pg]) (use sub in simp_all)
  then have lt: "later heap ?B s ?s" using st(1) unfolding later_def by auto
  have "ll ?m (thread_delayed_free h) ds" using st(2) b(2) by simp
  then have "heap_state tid heap ?s ?B ds" using inv' st(1,3) b(2) unfolding heap_state_def by auto
  moreover have "free_block_mt p b s = Inr ?s"
    using p(2) w masked_ptr_ops [OF w(2)] by (simp add: free_block_mt_def Let_def upd_page_eq block_write_ptr_def st_canon)
  ultimately show ?thesis using lt by blast
qed

lemma free_remote_inv:
  assumes st: "heap_state tid heap s B ds" and b: "b \<in> dom B" "b \<notin> set ds" and tid: "env_thread_id env \<noteq> tid"
  shows "\<exists>s'. mi_free env b s = Inr s' \<and> (heap_state tid heap s' B (b # ds) \<or> heap_state tid heap s' (B(b := None)) ds)
    \<and> later heap (B(b := None)) s s'"
proof -
  obtain Q M h where h: "heap_inv tid heap s B Q {} M" "heap_at s heap = Some h" "ll (node_at s) (thread_delayed_free h) ds" "set ds \<subseteq> dom B"
    using st unfolding heap_state_def by blast
  obtain p k pg sg where p: "placed Q {} k p" "page_at s p = Some pg" "b \<in> pblocks p pg" "calculate_segment_ptr_from_block b = ptr_segment p"
    "segment_at s (ptr_segment p) = Some sg" "thread_id sg = tid" "block_page b (ptr_segment p) s = Inr p" "b \<noteq> 0"
    by (rule block_page_ok [OF h(1) b(1)])
  have m: "mi_free env b s = free_block_mt p b s"
    using p tid by (simp add: mi_free_def free_generic_def free_block_def Let_def)
  obtain q d where w: "xthread_free pg = encode q d" "q AND 3 = 0" "d \<noteq> Freeing" by (rule tlist_word [OF h(1) p(1,2)])
  show ?thesis
  proof (cases "d = UseDelayedFree")
    case True
    then show ?thesis using free_mt_delayed [OF h(2-4,1) p(1,2) b p(3) _ w(2)] w(1) m by auto
  next
    case False
    then show ?thesis using free_mt_page [OF h(2-4,1) p(1,2) b p(3) w(1,2) False w(3)] m by auto
  qed
qed


section \<open>The delayed list\<close>

lemma free_delayed_inv:
  assumes inv: "heap_inv tid heap s B Q {} M" and b: "b \<in> dom B"
  shows "result (last_used s (calculate_segment_ptr_from_block b)) env (free_delayed_block env b s) (\<lambda>(ok, s'). ok \<and> kept tid heap (B(b := None)) s s')"
proof -
  obtain p k pg sg where p: "placed Q {} k p" "page_at s p = Some pg" "b \<in> pblocks p pg" "calculate_segment_ptr_from_block b = ptr_segment p"
    "segment_at s (ptr_segment p) = Some sg" "thread_id sg = tid" "block_page b (ptr_segment p) s = Inr p" "b \<noteq> 0"
    by (rule block_page_ok [OF inv b])
  obtain s1 pg1 where s1: "page_try_use_delayed_free p 0 False s = Inr (True, s1)" "stepped tid heap B M s s1 Q {}" "page_at s1 p = Some pg1" "page_kept pg pg1"
    by (rule try_delayed_inv [OF inv p(1,2)])
  have inv1: "heap_inv tid heap s1 B Q {} M" using s1(2) by (simp add: stepped_def)
  obtain s2 pg2 where s2: "page_free_collect p False s1 = Inr s2" "stepped tid heap B M s1 s2 Q {}" "page_at s2 p = Some pg2" "page_kept pg1 pg2"
    by (rule collect_page [OF inv1 p(1) s1(3)])
  have st: "stepped tid heap B M s s2 Q {}" by (rule stepped_trans [OF s1(2) s2(2)])
  have inv2: "heap_inv tid heap s2 B Q {} M" "frame heap B s s2" "quiet s s2" using st by (simp_all add: stepped_def)
  have "page_kept pg pg2" by (rule page_kept_trans [OF s1(4) s2(4)])
  then have b2: "b \<in> pblocks p pg2" using p(3) blocks_of_mono [of "pcap pg" "pcap pg2"] by (auto simp: page_kept_def word_le_nat_alt)
  have fr: "frame heap (B(b := None)) s s2" by (rule frame_mono [OF inv2(2) upd_none_le])
  have "result (last_page s p) env (free_block env p True b s2) (kept tid heap (B(b := None)) s)"
    by (rule result_freed [OF fr inv2(3) free_block_inv [OF inv2(1) p(1) s2(3) b b2]])
  then have "result (last_page s p) env (bindR (free_block env p True b s2) (\<lambda>s. Inr (True, s))) (\<lambda>(ok, s'). ok \<and> kept tid heap (B(b := None)) s s')"
    by (rule result_bind) simp
  then show ?thesis using p(4,7) s1(1) s2(1) by (simp add: free_delayed_block_def Let_def)
qed

lemma restrict_cons: "(B(b := None)) |` (- set ds) = B |` (- set (b # ds))"
  by (rule ext) (simp add: restrict_map_def)

lemma kept_shrink:
  assumes "kept tid heap B s s1" "B' \<subseteq>\<^sub>m B" "kept tid heap B' s1 s'"
  shows "kept tid heap B' s s'"
proof -
  have "frame heap B' s s'" using frame_trans [OF frame_mono [OF _ assms(2)]] assms(1,3) unfolding kept_def by blast
  then show ?thesis using assms(1,3) unfolding kept_def by auto
qed

lemma delayed_loop_inv:
  assumes "heap_inv tid heap s B Q {} M" "ll (node_at s) list ds" "set ds \<subseteq> dom B" "length ds < fuel"
  shows "result (ds \<noteq> []) env (delayed_free_loop fuel env heap list all s) (\<lambda>(a, s'). a = all \<and> kept tid heap (B |` (- set ds)) s s')"
  using assms
proof (induction ds arbitrary: s B Q M list fuel)
  case Nil
  then obtain n where n: "fuel = Suc n" by (cases fuel) auto
  have "list = 0" using Nil.prems(2) by simp
  moreover have "kept tid heap B s s" using Nil.prems(1) frame_refl by (auto simp: kept_def)
  ultimately show ?case unfolding n by (simp add: LL_is_empty_def)
next
  case (Cons b ds)
  then obtain n where n: "fuel = Suc n" "length ds < n" by (cases fuel) auto
  obtain rest where rest: "pop_block (node_at s) list = Inr (b, rest)" "ll (node_at s) rest ds" using pop_block_spec [OF Cons.prems(2)] by blast
  have ne: "list \<noteq> 0" using Cons.prems(2) by (metis list.distinct(1) ll_null)
  have bd: "b \<in> dom B" "b \<notin> set ds" using Cons.prems(3) ll_distinct [OF Cons.prems(2)] by auto
  let ?B = "B(b := None)"
  have step: "result True env (free_delayed_block env b s) (\<lambda>(ok, s'). ok \<and> kept tid heap ?B s s')"
    by (rule result_mono [OF free_delayed_inv [OF Cons.prems(1) bd(1)]]) simp_all
  have loop: "delayed_free_loop fuel env heap list all s = bindR (free_delayed_block env b s) (\<lambda>(success, s1).
      if \<not> success then bindR (atomic_insert_block heap b s1) (\<lambda>s. delayed_free_loop n env heap rest False s)
      else delayed_free_loop n env heap rest all s1)"
    using ne rest(1) by (simp add: n(1) LL_is_empty_def)
  have "result True env (delayed_free_loop fuel env heap list all s) (\<lambda>(a, s'). a = all \<and> kept tid heap (B |` (- set (b # ds))) s s')"
    unfolding loop
  proof (rule result_bind [OF step])
    fix r assume r: "case r of (ok, s') \<Rightarrow> ok \<and> kept tid heap ?B s s'"
    obtain s1 where s1: "r = (True, s1)" "kept tid heap ?B s s1" using r by (cases r) auto
    obtain Q1 M1 where inv1: "heap_inv tid heap s1 ?B Q1 {} M1" using s1(2) unfolding kept_def by blast
    have sub: "set ds \<subseteq> dom ?B" using Cons.prems(3) bd(2) by auto
    have "node_at s1 x = node_at s x" if "x \<in> set ds" for x
      using that sub s1(2) dom_owned [of ?B] unfolding kept_def frame_def by blast
    then have "ll (node_at s1) rest ds" using rest(2) lseg_cong [of ds "node_at s1" "node_at s"] by simp
    from Cons.IH [OF inv1 this sub n(2)]
    have ih: "result (ds \<noteq> []) env (delayed_free_loop n env heap rest all s1) (\<lambda>(a, s'). a = all \<and> kept tid heap (B |` (- set (b # ds))) s1 s')"
      unfolding restrict_cons .
    have le: "B |` (- set (b # ds)) \<subseteq>\<^sub>m ?B" by (auto simp: map_le_def)
    have "kept tid heap (B |` (- set (b # ds))) s s'" if "kept tid heap (B |` (- set (b # ds))) s1 s'" for s'
      by (rule kept_shrink [OF s1(2) le that])
    then have "result True env (delayed_free_loop n env heap rest all s1) (\<lambda>(a, s'). a = all \<and> kept tid heap (B |` (- set (b # ds))) s s')"
      by (intro result_mono [OF ih]) auto
    then show "result True env (case r of (success, s1) \<Rightarrow>
      if \<not> success then bindR (atomic_insert_block heap b s1) (\<lambda>s. delayed_free_loop n env heap rest False s)
      else delayed_free_loop n env heap rest all s1) (\<lambda>(a, s'). a = all \<and> kept tid heap (B |` (- set (b # ds))) s s')"
      using s1(1) by simp
  qed
  then show ?case by simp
qed

lemma delayed_partial_inv:
  assumes st: "heap_state tid heap s B ds"
  shows "result (ds \<noteq> []) env (heap_delayed_free_partial env heap s)
    (\<lambda>(all, s'). all \<and> heap_state tid heap s' (B |` (- set ds)) [] \<and> later heap (B |` (- set ds)) s s')"
proof -
  obtain Q M h where h: "heap_inv tid heap s B Q {} M" "heap_at s heap = Some h" "ll (node_at s) (thread_delayed_free h) ds" "set ds \<subseteq> dom B"
    using st unfolding heap_state_def by blast
  let ?s = "s\<lparr>heap_at := (heap_at s)(heap \<mapsto> h\<lparr>thread_delayed_free := 0\<rparr>)\<rparr>"
  let ?B = "B |` (- set ds)"
  have take: "delayed_free_take heap s = Inr (thread_delayed_free h, ?s)"
  proof (cases "thread_delayed_free h = 0")
    case True
    then have "h\<lparr>thread_delayed_free := 0\<rparr> = h" by simp
    then have "?s = s" using h(2) by (simp add: fun_upd_idem)
    then show ?thesis using True h(2) by (simp add: delayed_free_take_def LL_new_def)
  qed (use h(2) in \<open>simp add: delayed_free_take_def upd_heap_eq\<close>)
  have inv: "heap_inv tid heap ?s B Q {} M" by (rule delayed_word_inv [OF h(1,2)])
  have res: "result (ds \<noteq> []) env (delayed_free_loop address_count env heap (thread_delayed_free h) True ?s) (\<lambda>(a, s'). a = True \<and> kept tid heap ?B ?s s')"
    by (rule delayed_loop_inv [OF inv _ h(4) ll_length [OF h(3)]]) (use h(3) in simp)
  have "heap_state tid heap s' ?B [] \<and> later heap ?B s s'" if k: "kept tid heap ?B ?s s'" for s'
  proof
    have "heap_state tid heap ?s B []" using inv unfolding heap_state_def by auto
    then show "heap_state tid heap s' ?B []" by (rule heap_state_kept [OF _ k]) simp
    have "later heap ?B s ?s" using h(2) unfolding later_def by simp
    then show "later heap ?B s s'" using kept_later [OF k] later_trans by blast
  qed
  then have "result (ds \<noteq> []) env (delayed_free_loop address_count env heap (thread_delayed_free h) True ?s)
    (\<lambda>(all, s'). all \<and> heap_state tid heap s' ?B [] \<and> later heap ?B s s')" by (intro result_mono [OF res]) auto
  then show ?thesis using take by (simp add: heap_delayed_free_partial_def)
qed

end
