(* ===== verification/Heap_Alloc.thy ===== *)
theory Heap_Alloc
  imports Heap_Remote
begin

text \<open>
  Allocating in a heap with the invariant (\<^verbatim>\<open>page_fresh\<close> and the searches of \<^verbatim>\<open>page.rs\<close>,
  \<^verbatim>\<open>alloc_generic.rs\<close>, \<^verbatim>\<open>alloc_fast.rs\<close>): a page comes from a segment, gets its first blocks
  and enters its queue; a block comes from the free list of the page found.
\<close>

section \<open>A page from a segment\<close>

definition ids_ok :: "u64 \<Rightarrow> st \<Rightarrow> bool" where
  "ids_ok tid s \<longleftrightarrow> (\<forall>g sg. segment_at s g = Some sg \<longrightarrow> thread_id sg = tid \<and> abandoned (main2 sg) = 0)"

definition used_committed :: "st \<Rightarrow> spans \<Rightarrow> bool" where
  "used_committed s M \<longleftrightarrow> (\<forall>g i c. M (g, i) = Some (c, UsedSpan) \<longrightarrow> 0 < i \<longrightarrow> {i..<i + c} \<subseteq> committed s g)"

text \<open>What the two kinds of step below leave alone.\<close>

definition pages_same :: "usize set \<Rightarrow> st \<Rightarrow> st \<Rightarrow> bool" where
  "pages_same U s s' \<longleftrightarrow> (\<forall>x \<in> U. page_at s' x = page_at s x) \<and> node_at s' = node_at s \<and> heap_at s' = heap_at s"

lemma used_not_free:
  assumes inv: "seg_inv tld s U M" and x: "x \<in> U"
  shows "x \<notin> slices_of M {FreeSpan, PoppedSpan}"
proof
  assume a: "x \<in> slices_of M {FreeSpan, PoppedSpan}"
  obtain g i c where m: "x = hdr g i" "0 < i" "M (g, i) = Some (c, UsedSpan)" "g \<in> dom (segment_at s)" "seg_addr_ok g" "0 < c" "i + c \<le> 512"
    "tiled M g" "span_hdr (page_at s) g i c UsedSpan" by (rule seg_inv_hdr [OF inv x])
  obtain t L where sp: "spans_inv (page_at s) (sqs t) (dom (segment_at s)) M L" using inv unfolding seg_inv_def seg_ok_def by blast
  have "UsedSpan \<in> {FreeSpan, PoppedSpan}" by (rule used_not_slice [OF sp m(3) _ _ a [unfolded m(1)]]) (use m(6) in simp_all)
  then show False by simp
qed

lemma took_step:
  assumes si: "seg_inv tld s U M" and t: "took_span s tld (dom (segment_at s)) M g i c n s'" and n: "0 < n"
    and ids: "ids_ok tid s" and com: "used_committed s M"
  shows "seg_inv tld s' (insert (hdr g i) U) (carve M g i c n)" "ids_ok tid s'" "used_committed s' (carve M g i c n)"
    "dom (segment_at s') = dom (segment_at s)" "pages_same U s s'" "hdr g i \<notin> U" "hdr g i \<noteq> 0"
    "\<exists>pg. page_at s' (hdr g i) = Some pg \<and> pcount pg = of_nat n"
proof -
  note k = t [unfolded took_span_def]
  show si': "seg_inv tld s' (insert (hdr g i) U) (carve M g i c n)" and nU: "hdr g i \<notin> U" using seg_inv_took [OF si t n] by blast+
  have m: "M (g, i) = Some (c, FreeSpan)" "n \<le> c" using seg_inv_took [OF si t n] by blast+
  obtain tt L where sp: "spans_inv (page_at s) (sqs tt) (dom (segment_at s)) M L" using si unfolding seg_inv_def seg_ok_def by blast
  note d = spans_invD [OF sp m(1)]
  have fr: "span_frame tld g (slices_of M {FreeSpan, PoppedSpan}) s s'" using k by blast
  show "dom (segment_at s') = dom (segment_at s)" using span_frame_segments [OF fr d(7)] by blast
  show "hdr g i \<noteq> 0" by (rule hdr_nonnull [OF d(1,4)])
  show "\<exists>pg. page_at s' (hdr g i) = Some pg \<and> pcount pg = of_nat n" using k by blast
  show "ids_ok tid s'" using span_frame_ids [OF fr ids [unfolded ids_ok_def] d(7)] unfolding ids_ok_def by blast
  show "pages_same U s s'" using fr used_not_free [OF si] unfolding pages_same_def span_frame_def by blast
  show "used_committed s' (carve M g i c n)"
    unfolding used_committed_def
  proof (intro allI impI)
    fix g' j e assume j: "carve M g i c n (g', j) = Some (e, UsedSpan)" "0 < j"
    show "{j..<j + e} \<subseteq> committed s' g'"
    proof (cases "(g', j) = (g, i)")
      case True
      then have "e = n" using j(1) n by (auto simp: carve_def split: if_splits)
      then show ?thesis using True k by blast
    next
      case False
      then have mj: "M (g', j) = Some (e, UsedSpan)" using j(1) by (auto simp: carve_def split: if_splits)
      then have cm: "{j..<j + e} \<subseteq> committed s g'" using com j(2) unfolding used_committed_def by blast
      show ?thesis
      proof
        fix k assume k: "k \<in> {j..<j + e}"
        have "hdr g' k \<notin> slices_of M {FreeSpan, PoppedSpan}" using used_not_slice [OF sp mj, of k] k by fastforce
        moreover have "k < 512" using spans_invD(3) [OF sp mj] k by simp
        ultimately show "k \<in> committed s' g'" using span_frame_committed [OF fr, of k g'] cm k by blast
      qed
    qed
  qed
qed

lemma fresh_step:
  assumes si: "seg_inv tld s U M" and f: "fresh_segment env s tld (dom (segment_at s)) M g s'" and tid: "env_thread_id env = tid" "tid \<noteq> 0"
    and ids: "ids_ok tid s" and com: "used_committed s M"
  shows "seg_inv tld s' U (fresh_spans M g)" "ids_ok tid s'" "used_committed s' (fresh_spans M g)"
    "dom (segment_at s') = insert g (dom (segment_at s))" "pages_same U s s'"
proof -
  note k = f [unfolded fresh_segment_def]
  have e0: "env_thread_id env \<noteq> 0" using tid by simp
  note fi = seg_inv_fresh [OF si f e0]
  show si': "seg_inv tld s' U (fresh_spans M g)" and dom: "dom (segment_at s') = insert g (dom (segment_at s))" by (fact fi)+
  obtain sg where sg: "segment_at s' g = Some sg" "thread_id sg = tid" "abandoned (main2 sg) = 0" using k tid(1) by blast
  have o: "segment_at s' q = segment_at s q" if "q \<noteq> g" for q using k that by blast
  show "ids_ok tid s'"
    unfolding ids_ok_def
  proof (intro allI impI)
    fix q xg assume "segment_at s' q = Some xg"
    then show "thread_id xg = tid \<and> abandoned (main2 xg) = 0" using sg o [of q] ids unfolding ids_ok_def by (cases "q = g") auto
  qed
  show "used_committed s' (fresh_spans M g)"
    unfolding used_committed_def
  proof (intro allI impI)
    fix g' j e assume j: "fresh_spans M g (g', j) = Some (e, UsedSpan)" "0 < j"
    have mj: "M (g', j) = Some (e, UsedSpan)" using j by (auto simp: fresh_spans_def split: if_splits)
    obtain t L where sp: "spans_inv (page_at s) (sqs t) (dom (segment_at s)) M L" using si unfolding seg_inv_def seg_ok_def by blast
    have "g' \<noteq> g" using spans_invD(7) [OF sp mj] k by blast
    then have "committed s' g' = committed s g'" using o by (simp add: committed_def)
    then show "{j..<j + e} \<subseteq> committed s' g'" using com mj j(2) unfolding used_committed_def by simp
  qed
  have g: "seg_addr_ok g"
  proof -
    obtain t L where sp: "spans_inv (page_at s') (sqs t) (dom (segment_at s')) (fresh_spans M g) L" using si' unfolding seg_inv_def seg_ok_def by blast
    show ?thesis by (rule spans_invD(1) [OF sp, of g 0 1 UsedSpan]) (simp add: fresh_spans_def)
  qed
  have "page_at s' x = page_at s x" if x: "x \<in> U" for x
  proof -
    obtain g' i c where m: "x = hdr g' i" "0 < i" "M (g', i) = Some (c, UsedSpan)" "g' \<in> dom (segment_at s)" "seg_addr_ok g'" "0 < c" "i + c \<le> 512"
      "tiled M g'" "span_hdr (page_at s) g' i c UsedSpan" by (rule seg_inv_hdr [OF si x])
    have "g' \<noteq> g" using m(4) k by blast
    then have "x \<notin> {hdr g k | k. k \<le> 512}" using hdr_inject [OF m(5) g, of i] m(1,7) by auto
    then show ?thesis using k used_not_free [OF si x] by blast
  qed
  then show "pages_same U s s'" using k unfolding pages_same_def by blast
qed

lemma pages_same_trans: "pages_same U s s1 \<Longrightarrow> pages_same U s1 s2 \<Longrightarrow> pages_same U s s2"
  by (simp add: pages_same_def)

text \<open>A page header out of every queue that is clean apart from what its span says.\<close>

definition new_page :: "u64 \<Rightarrow> usize \<Rightarrow> live \<Rightarrow> usize list list \<Rightarrow> st \<Rightarrow> nat \<Rightarrow> usize \<Rightarrow> st \<Rightarrow> bool" where
  "new_page tid heap B Q s n p s' \<longleftrightarrow> p \<noteq> 0 \<and> p \<notin> queued Q
     \<and> (\<exists>h M. heap_at s' heap = Some h \<and> segs_ok tid (tld_ptr h) (page_empty_ptr h) s' (queued Q \<union> {p}) M)
     \<and> heap_ok s' heap Q \<and> pages_ok s' heap B Q {} \<and> (\<exists>pg. page_at s' p = Some pg \<and> clean pg \<and> pcount pg = of_nat n)
     \<and> node_at s' = node_at s \<and> heap_at s' = heap_at s \<and> sys_calls s \<le> sys_calls s'"

text \<open>
  What the code relies on of the kernel: it maps memory that is not in use, neither by a segment
  nor by the page that holds the empty page's header.
\<close>

definition kernel_ok :: "Env \<Rightarrow> usize \<Rightarrow> st \<Rightarrow> bool" where
  "kernel_ok env heap s \<longleftrightarrow> mmap_fresh env s (dom (segment_at s))
     \<and> (\<forall>h g. heap_at s heap = Some h \<longrightarrow> mapped_by env s g \<longrightarrow> \<not> in_segment g (page_empty_ptr h))"

lemma new_pageI:
  assumes inv: "heap_inv tid heap s B Q {} M" and h: "heap_at s heap = Some h"
    and si: "seg_inv (tld_ptr h) s' (queued Q \<union> {p}) M'" and ids: "ids_ok tid s'" and com: "used_committed s' M'"
    and emp: "\<forall>g \<in> dom (segment_at s'). \<not> in_segment g (page_empty_ptr h)"
    and ps: "pages_same (queued Q) s s'" and p: "p \<noteq> 0" "p \<notin> queued Q" "\<exists>pg. page_at s' p = Some pg \<and> pcount pg = of_nat n"
    and life: "keeps_life s s'"
  shows "new_page tid heap B Q s n p s'"
proof -
  obtain h1 where h1: "heap_at s heap = Some h1" "segs_ok tid (tld_ptr h1) (page_empty_ptr h1) s (queued Q \<union> {}) M"
    "seg_inv (tld_ptr h1) s (queued Q \<union> {}) M" "heap_ok s heap Q" "{} \<inter> queued Q = {}" "pages_ok s heap B Q {}" "length Q = 75" "length (pages h1) = 75"
    "queues_ok (page_at s) (pages h1) Q" by (rule heap_invE [OF inv])
  have e: "h1 = h" using h h1(1) by simp
  have so: "page_empty_ptr h \<in> dom (page_at s)" "\<forall>x pg. page_at s x = Some pg \<longrightarrow> x \<notin> queued Q \<longrightarrow> clean pg"
    using h1(2) unfolding e segs_ok_def by auto
  have cl: "clean xg" if "page_at s' x = Some xg" "x \<notin> queued Q" for x xg
    using keeps_clean [OF life that(1)] so(2) that(2) by blast
  have seg: "segs_ok tid (tld_ptr h) (page_empty_ptr h) s' (queued Q \<union> {p}) M'"
    using si ids com emp so(1) life cl unfolding segs_ok_def ids_ok_def used_committed_def keeps_life_def by blast
  have same: "\<And>x. x \<in> queued Q \<Longrightarrow> page_at s' x = page_at s x" "node_at s' = node_at s" "heap_at s' heap = heap_at s heap"
    using ps unfolding pages_same_def by auto
  note tr = pages_transfer [OF inv same]
  have "\<exists>q \<in> queued Q \<union> {}. \<exists>qg. page_at s' q = Some qg \<and> b \<in> pblocks q qg" if "b \<in> dom B" for b
    using h1(6) that same(1) unfolding pages_ok_def by fastforce
  then have "pages_ok s' heap B Q {}" using tr(2) unfolding pages_ok_def by blast
  moreover have "sys_calls s \<le> sys_calls s'" using life unfolding keeps_life_def by blast
  moreover have "\<exists>pg. page_at s' p = Some pg \<and> clean pg \<and> pcount pg = of_nat n" using p(2,3) cl by blast
  moreover have "\<exists>h M. heap_at s' heap = Some h \<and> segs_ok tid (tld_ptr h) (page_empty_ptr h) s' (queued Q \<union> {p}) M"
    using seg h same(3) by auto
  ultimately show ?thesis using p(1,2) tr(1) ps unfolding new_page_def pages_same_def by blast
qed

lemma page_alloc_inv:
  assumes inv: "heap_inv tid heap s B Q {} M" and h: "heap_at s heap = Some h" and tid: "env_thread_id env = tid" "tid \<noteq> 0"
    and kern: "kernel_ok env heap s" and b: "bsize \<le> MEDIUM_OBJ_SIZE_MAX"
  shows "\<exists>n. unat bsize \<le> n * 65536 \<and> 0 < n \<and> n \<le> 8 \<and> (bsize \<le> SMALL_OBJ_SIZE_MAX \<longrightarrow> n = 1)
    \<and> outcome_todo env (segment_page_alloc env heap bsize 0 (tld_ptr h) s) (\<lambda>(p, s'). new_page tid heap B Q s n p s')"
proof -
  obtain h1 where h1: "heap_at s heap = Some h1" "segs_ok tid (tld_ptr h1) (page_empty_ptr h1) s (queued Q \<union> {}) M"
    "seg_inv (tld_ptr h1) s (queued Q \<union> {}) M" "heap_ok s heap Q" "{} \<inter> queued Q = {}" "pages_ok s heap B Q {}" "length Q = 75" "length (pages h1) = 75"
    "queues_ok (page_at s) (pages h1) Q" by (rule heap_invE [OF inv])
  have e: "h1 = h" using h h1(1) by simp
  have si: "seg_inv (tld_ptr h) s (queued Q) M" using h1(3) e by simp
  have ids: "ids_ok tid s" and com: "used_committed s M" and emp: "\<forall>g \<in> dom (segment_at s). \<not> in_segment g (page_empty_ptr h)"
    using h1(2) unfolding e segs_ok_def ids_ok_def used_committed_def by blast+
  have ok: "seg_ok s (tld_ptr h) (dom (segment_at s)) M" using si unfolding seg_inv_def by blast
  have kn: "mmap_fresh env s (dom (segment_at s))" "\<And>g. mapped_by env s g \<Longrightarrow> \<not> in_segment g (page_empty_ptr h)"
    using kern h unfolding kernel_ok_def by blast+
  have bl: "bsize \<le> LARGE_OBJ_SIZE_MAX" "0 \<le> ALIGNMENT_MAX" using b by (simp_all add: layout_consts word_le_nat_alt)
  obtain n where n: "unat bsize \<le> n * 65536" "0 < n" "n \<le> 256" "bsize \<le> SMALL_OBJ_SIZE_MAX \<longrightarrow> n = 1" "bsize \<le> MEDIUM_OBJ_SIZE_MAX \<longrightarrow> n \<le> 8"
    "outcome_todo env (segment_page_alloc env heap bsize 0 (tld_ptr h) s) (\<lambda>(p, s'). got_page env s (tld_ptr h) (dom (segment_at s)) M n p s')"
    using segment_page_alloc_ok [OF ok kn(1) h bl] by (elim exE conjE) (rule that)
  let ?r = "segment_page_alloc env heap bsize 0 (tld_ptr h) s"
  have new: "new_page tid heap B Q s n p s'" if r: "?r = Inr (p, s')" "got_page env s (tld_ptr h) (dom (segment_at s)) M n p s'" for p s'
  proof -
    have life: "keeps_life s s'" using segment_page_alloc_life [of s env heap bsize 0 "tld_ptr h"] r(1) by (simp add: lifeR_def)
    from r(2) [unfolded got_page_def] show ?thesis
    proof (elim disjE exE conjE)
      fix g i c assume a: "p = hdr g i" "took_span s (tld_ptr h) (dom (segment_at s)) M g i c n s'"
      note t = took_step [OF si a(2) n(2) ids com, folded a(1)]
      have t1: "seg_inv (tld_ptr h) s' (queued Q \<union> {p}) (carve M g i c n)" using t(1) by simp
      show ?thesis by (rule new_pageI [OF inv h t1 t(2,3) _ t(5,7,6,8) life]) (use emp t(4) in simp)
    next
      fix g s0 assume a: "p = hdr g 1" "fresh_segment env s (tld_ptr h) (dom (segment_at s)) M g s0"
        "took_span s0 (tld_ptr h) (insert g (dom (segment_at s))) (fresh_spans M g) g 1 511 n s'"
      note f = fresh_step [OF si a(2) tid ids com]
      note t = took_step [OF f(1) a(3) [folded f(4)] n(2) f(2,3), folded a(1)]
      have t1: "seg_inv (tld_ptr h) s' (queued Q \<union> {p}) (carve (fresh_spans M g) g 1 511 n)" using t(1) by simp
      have "mapped_by env s g" using a(2) unfolding fresh_segment_def by blast
      then have emp': "\<forall>g \<in> dom (segment_at s'). \<not> in_segment g (page_empty_ptr h)" using t(4) f(4) emp kn(2) by simp
      show ?thesis by (rule new_pageI [OF inv h t1 t(2,3) emp' pages_same_trans [OF f(5) t(5)] t(7,6,8) life])
    qed
  qed
  have "outcome_todo env ?r (\<lambda>(p, s'). new_page tid heap B Q s n p s')"
    using n(6) new unfolding outcome_todo_def outcome_def by (cases ?r) auto
  then show ?thesis using n b by (intro exI [of _ n]) simp
qed

section \<open>Setting up a page\<close>

lemma bin_size_bounds: "1 \<le> b \<Longrightarrow> b \<le> 52 \<Longrightarrow> 8 \<le> size_of_bin (int b) \<and> size_of_bin (int b) \<le> 131072"
proof -
  assume b: "1 \<le> b" "b \<le> 52"
  have "size_of_bin (int b) \<le> size_of_bin 52" using size_of_bin_strict_mono [of "int b" 52] b by (cases "b = 52") auto
  also have "\<dots> = 131072" by (simp add: size_of_bin_def pow2_eq)
  finally show ?thesis using bin_size_dvd [OF b] by (auto elim!: dvdE)
qed

lemma start_offset_word: "unat (calculate_start_offset bs) = start_offset (unat bs)"
  by (simp add: calculate_start_offset_def start_offset_def layout_consts word_le_nat_alt)

text \<open>The number of blocks that fit behind the start offset.\<close>

lemma page_room:
  assumes n: "unat bs \<le> n * 65536" "0 < n" "n \<le> 8" "bs \<le> SMALL_OBJ_SIZE_MAX \<longrightarrow> n = 1" and bs: "8 \<le> unat bs" "unat bs \<le> 131072"
  defines "r \<equiv> ucast ((of_nat n * ucast SLICE_SIZE - calculate_start_offset bs) div ucast bs :: u32) :: u16"
  shows "0 < unat r" "start_offset (unat bs) + unat r * unat bs \<le> 65536 * n"
proof -
  let ?o = "start_offset (unat bs)"
  have ol: "?o \<le> 384" by (rule start_offset_8)
  have "unat (of_nat n * ucast SLICE_SIZE :: u32) = n * 65536"
    using n(3) by (subst unat_mult_small) (auto simp: layout_consts unat_of_nat_small)
  moreover have "calculate_start_offset bs \<le> of_nat n * ucast SLICE_SIZE" using ol n(2) calculation by (simp add: word_le_nat_alt start_offset_word)
  ultimately have size: "unat (of_nat n * ucast SLICE_SIZE - calculate_start_offset bs :: u32) = n * 65536 - ?o"
    by (simp add: unat_sub_small start_offset_word)
  have "unat (ucast bs :: u32) = unat bs" using bs(2) by (simp add: unat_ucast_small)
  then have d: "unat ((of_nat n * ucast SLICE_SIZE - calculate_start_offset bs) div ucast bs :: u32) = (n * 65536 - ?o) div unat bs"
    using size by (simp add: unat_div)
  have "(n * 65536 - ?o) div unat bs \<le> 65535"
  proof (cases "bs \<le> SMALL_OBJ_SIZE_MAX")
    case True
    then have "n * 65536 - ?o \<le> 65536" using n(4) by simp
    from div_le_mono [OF this, of "unat bs"] div_le_mono2 [of 8 "unat bs" 65536] bs(1) show ?thesis by linarith
  next
    case False
    then have l: "16384 < unat bs" by (simp add: layout_consts word_le_nat_alt)
    have "n * 65536 - ?o \<le> 524288" using n(3) by simp
    from div_le_mono [OF this, of "unat bs"] div_le_mono2 [of 16384 "unat bs" 524288] l show ?thesis by linarith
  qed
  then have r: "unat r = (n * 65536 - ?o) div unat bs" unfolding r_def using d by (simp add: unat_ucast_small)
  have "unat bs \<le> n * 65536 - ?o"
  proof (cases "unat bs \<le> 1024")
    case True
    then show ?thesis using ol n(2) by linarith
  next
    case False
    then have "?o = 0" by (simp add: start_offset_def)
    then show ?thesis using n(1) by simp
  qed
  then show "0 < unat r" unfolding r using bs(1) by (simp add: div_greater_zero_iff)
  have "unat r * unat bs \<le> n * 65536 - ?o" unfolding r by simp
  then show "?o + unat r * unat bs \<le> 65536 * n" using ol n(2) by linarith
qed

lemma new_page_setup:
  assumes new: "new_page tid heap B Q s n p s'" and X: "length Q = 75"
    and n: "unat bs \<le> n * 65536" "0 < n" "n \<le> 8" "bs \<le> SMALL_OBJ_SIZE_MAX \<longrightarrow> n = 1" and b: "1 \<le> b" "b \<le> 52" "unat bs = size_of_bin (int b)"
    and pg: "page_at s' p = Some pg"
  defines "pg' \<equiv> pg\<lparr>xheap := heap, inner := (inner pg)\<lparr>xblock_size := ucast bs, reserved := ucast ((pcount pg * ucast SLICE_SIZE - calculate_start_offset bs) div ucast bs)\<rparr>\<rparr>"
  shows "\<exists>M. heap_inv tid heap (s'\<lparr>page_at := (page_at s')(p \<mapsto> pg')\<rparr>) B Q {p} M"
    "capacity (inner pg') < reserved (inner pg')" "psize pg' = bs"
proof -
  obtain h M where h: "heap_at s' heap = Some h" "segs_ok tid (tld_ptr h) (page_empty_ptr h) s' (queued Q \<union> {p}) M" "heap_ok s' heap Q"
    "pages_ok s' heap B Q {}" "p \<noteq> 0" "p \<notin> queued Q" using new unfolding new_page_def by blast
  have c: "clean pg" "pcount pg = of_nat n" using new pg unfolding new_page_def by auto
  have bb: "8 \<le> unat bs" "unat bs \<le> 131072" using bin_size_bounds [OF b(1,2)] b(3) by simp_all
  have ub: "unat (ucast bs :: u32) = unat bs" using bb(2) by (simp add: unat_ucast_small)
  then show ps: "psize pg' = bs" by (simp add: pg'_def word_unat_eq_iff unat_widen)
  note room = page_room [OF n bb, folded c(2)]
  have res: "reserved (inner pg') = ucast ((pcount pg * ucast SLICE_SIZE - calculate_start_offset bs) div ucast bs)" by (simp add: pg'_def)
  have cap0: "capacity (inner pg') = 0" using c(1) by (simp add: pg'_def clean_def)
  show "capacity (inner pg') < reserved (inner pg')" using room(1) unfolding cap0 res by (simp add: word_less_nat_alt)
  have un: "unat (pcount pg') = n" using c(2) n(3) by (simp add: pg'_def unat_of_nat_small)
  have r2: "start_offset (unat (psize pg')) + pres pg' * unat (psize pg') \<le> 65536 * n" using room(2) unfolding ps res .
  let ?s = "s'\<lparr>page_at := (page_at s')(p \<mapsto> pg')\<rparr>"
  have si: "seg_inv (tld_ptr h) s' (queued Q \<union> {p}) M" using h(2) unfolding segs_ok_def by blast
  have pU: "p \<in> queued Q \<union> {p}" by simp
  obtain g i k where m: "p = hdr g i" "0 < i" "M (g, i) = Some (k, UsedSpan)" "g \<in> dom (segment_at s')" "seg_addr_ok g" "0 < k" "i + k \<le> 512"
    "tiled M g" "span_hdr (page_at s') g i k UsedSpan" by (rule seg_inv_hdr [OF si pU])
  have "pcount pg = of_nat k" using m(9,1) pg unfolding span_hdr_def by simp
  then have kn: "k = n" using m(7) un by (simp add: pg'_def unat_of_nat_small)
  have dv: "0 < unat (psize pg')" "8 dvd unat (psize pg')" using bin_size_dvd [OF b(1,2)] unfolding ps b(3) by blast+
  have fits: "page_fits p (psize pg') (pres pg')" unfolding m(1) by (rule span_fits [OF m(5,2,7) dv]) (use r2 kn in simp)
  have "flags1 (inner pg') = 0" using c(1) by (simp add: pg'_def clean_def)
  then have al: "\<not> get_has_aligned (inner pg')" by (simp add: get_has_aligned_def)
  have hd: "hdr_ok heap 75 pg'" unfolding hdr_ok_def using al b ps r2 un by (auto simp: pg'_def)
  have "split_ok p pg' (dom B) [] [] []" unfolding split_ok_def using fits cap0 c(1) by (simp add: blocks_of_def pg'_def clean_def)
  moreover have "tlist (node_at s') pg' []" using c(1) unfolding tlist_def
    by (intro exI [of _ 0] exI [of _ UseDelayedFree]) (simp add: pg'_def clean_def encode_def to_int_def)
  ultimately have bo: "blocks_ok (node_at s') p pg' (dom B) [] [] []" using c(1) unfolding blocks_ok_def by (simp add: pg'_def clean_def)
  have pok: "page_ok ?s heap B 75 p" by (rule page_okI [of _ p pg']) (use hd bo cap0 in \<open>simp_all add: blocks_of_def\<close>)
  have old: "page_ok ?s heap B l x" if "placed Q {} l x" for l x
  proof -
    have "x \<noteq> p" using that h(6) X by (auto simp: placed_def queued_iff)
    then show ?thesis using pages_okD [OF h(4) that] unfolding page_ok_def by simp
  qed
  have "page_ok ?s heap B l x" if "placed Q {p} l x" for l x using that pok old [of l x] X by (auto simp: placed_def)
  moreover have "\<exists>q \<in> queued Q \<union> {p}. \<exists>qg. page_at ?s q = Some qg \<and> d \<in> pblocks q qg" if "d \<in> dom B" for d
  proof -
    obtain q qg where q: "q \<in> queued Q \<union> {}" "page_at s' q = Some qg" "d \<in> pblocks q qg" using h(4) \<open>d \<in> dom B\<close> unfolding pages_ok_def by blast
    then have "q \<noteq> p" using h(6) by blast
    then show ?thesis using q by (intro bexI [of _ q]) simp_all
  qed
  ultimately have "pages_ok ?s heap B Q {p}" unfolding pages_ok_def by blast
  moreover have "hdrs_change (queued Q \<union> {p}) (page_at s') ((page_at s')(p \<mapsto> pg'))"
    unfolding hdrs_change_def
  proof (intro conjI allI impI ballI)
    show "((page_at s')(p \<mapsto> pg')) x = page_at s' x" if "x \<notin> queued Q \<union> {p}" for x using that by simp
    fix x assume x: "x \<in> queued Q \<union> {p}"
    show "\<exists>xg xg'. page_at s' x = Some xg \<and> ((page_at s')(p \<mapsto> pg')) x = Some xg' \<and> pcount xg' = pcount xg \<and> poffset xg' = poffset xg
        \<and> xblock_size (inner xg') \<noteq> 0"
    proof (cases "x = p")
      case True
      then show ?thesis using pg hdr_ok_size [OF hd] by (simp add: pg'_def)
    next
      case False
      then obtain l where "placed Q {} l x" using x placed_iff [of x Q "{}"] by auto
      from pages_okD [OF h(4) this] obtain xg where "page_at s' x = Some xg" "hdr_ok heap l xg" by (blast elim: page_okE)
      then show ?thesis using False hdr_ok_size by auto
    qed
  qed
  from segs_ok_headers [OF h(2) this, where H = "heap_at s'" and N = "node_at s'"]
  have "segs_ok tid (tld_ptr h) (page_empty_ptr h) ?s (queued Q \<union> {p}) M" by simp
  moreover have "prev_ptr pg' = prev_ptr pg" "next_ptr pg' = next_ptr pg" by (simp_all add: pg'_def)
  then have "heap_ok (s'\<lparr>page_at := (page_at s')(p \<mapsto> pg'), node_at := node_at s'\<rparr>) heap Q" by (rule heap_ok_write [OF h(3) pg])
  then have "heap_ok ?s heap Q" by simp
  ultimately show "\<exists>M. heap_inv tid heap ?s B Q {p} M" using h(1,6) unfolding heap_inv_def by auto
qed

text \<open>\<^verbatim>\<open>page_init\<close> puts the page under the invariant and gives it its first blocks.\<close>

lemma page_init_inv:
  assumes new: "new_page tid heap B Q s n p s'" and old: "heap_inv tid heap s B Q {} M0"
    and n: "unat bs \<le> n * 65536" "0 < n" "n \<le> 8" "bs \<le> SMALL_OBJ_SIZE_MAX \<longrightarrow> n = 1" and b: "1 \<le> b" "b \<le> 52" "unat bs = size_of_bin (int b)"
  obtains s2 pg2 M where "page_init heap p bs tld s' = Inr s2" "heap_inv tid heap s2 B Q {p} M" "frame heap B s s2" "page_at s2 p = Some pg2"
    "free (inner pg2) \<noteq> 0" "psize pg2 = bs"
proof -
  have X: "length Q = 75" by (rule heap_invD(4) [OF old])
  obtain pg where pg: "page_at s' p = Some pg" using new unfolding new_page_def by blast
  define pg1 where "pg1 = pg\<lparr>xheap := heap, inner := (inner pg)\<lparr>xblock_size := ucast bs,
      reserved := ucast ((pcount pg * ucast SLICE_SIZE - calculate_start_offset bs) div ucast bs)\<rparr>\<rparr>"
  let ?s = "s'\<lparr>page_at := (page_at s')(p \<mapsto> pg1)\<rparr>"
  note su = new_page_setup [OF new X n b pg, folded pg1_def]
  obtain M where M: "heap_inv tid heap ?s B Q {p} M" using su(1) by blast
  have pl: "placed Q {p} 75 p" by (simp add: placed_def)
  have p1: "page_at ?s p = Some pg1" by simp
  obtain s2 pg2 where e: "page_extend_free p ?s = Inr s2" "stepped tid heap B M ?s s2 Q {p}" "page_at s2 p = Some pg2" "free (inner pg2) \<noteq> 0"
    "page_kept pg1 pg2" by (rule extend_inv [OF M pl p1 su(2)])
  have "page_init heap p bs tld s' = page_extend_free p ?s"
    using pg by (simp add: page_init_def Let_def upd_page_eq upd_inner_eq st_canon page_canon pg1_def)
  moreover have same: "node_at s' = node_at s" "heap_at s' = heap_at s" "sys_calls s \<le> sys_calls s'" using new unfolding new_page_def by blast+
  obtain h0 where "heap_at s heap = Some h0" using heap_exists [OF old] by blast
  then have "frame heap B s ?s" using same unfolding frame_def by simp
  then have "frame heap B s s2" using frame_trans e(2) unfolding stepped_def by blast
  moreover have "psize pg2 = bs" using e(5) su(3) by (simp add: page_kept_def)
  moreover have "heap_inv tid heap s2 B Q {p} M" using e(2) unfolding stepped_def by blast
  ultimately show ?thesis using that [of s2 M pg2] e(1,3,4) by simp
qed


section \<open>Finding a page with a free block\<close>

lemma outcome_todo_is_result: "outcome_todo env r R \<longleftrightarrow> result (\<not> mmap_granted env) env r R"
  by (simp add: outcome_todo_def result_def)

definition ready :: "u64 \<Rightarrow> usize \<Rightarrow> live \<Rightarrow> nat \<Rightarrow> usize \<Rightarrow> st \<Rightarrow> st \<Rightarrow> bool" where
  "ready tid heap B k p s s' \<longleftrightarrow> (\<exists>Q M pg. heap_inv tid heap s' B Q {} M \<and> placed Q {} k p \<and> page_at s' p = Some pg \<and> free (inner pg) \<noteq> 0)
     \<and> p \<noteq> 0 \<and> frame heap B s s'"

lemma queue_block_size:
  assumes inv: "heap_inv tid heap s B Q X M" and h: "heap_at s heap = Some h" and k: "unat pq = k" "1 \<le> k" "k \<le> 74"
  shows "get_queue s heap pq = Inr (pages h ! k)" "pq_first (pages h ! k) = hd_or 0 (Q ! k)" "k \<le> 73 \<Longrightarrow> unat (pq_block_size (pages h ! k)) = size_of_bin (int k)"
proof -
  obtain h1 where h1: "heap_at s heap = Some h1" "queues_ok (page_at s) (pages h1) Q" "queue_sizes_ok (pages h1)"
    "pages_free_direct_is_correct (pages_free_direct h1) (pages h1) (page_empty_ptr h1)" "k < length (pages h1)"
    by (rule heap_okE [OF heap_invD(2) [OF inv] k(3)])
  have e: "h1 = h" using h h1(1) by simp
  show "get_queue s heap pq = Inr (pages h ! k)" using h h1(5) k(1) e by (simp add: get_queue_def)
  show "pq_first (pages h ! k) = hd_or 0 (Q ! k)" using queues_ok_nth(1) [OF h1(2,5)] e by simp
  show "k \<le> 73 \<Longrightarrow> unat (pq_block_size (pages h ! k)) = size_of_bin (int k)" using h1(3) k(2) e by (simp add: queue_sizes_ok_def)
qed

lemma page_fresh_inv:
  assumes inv: "heap_inv tid heap s B Q {} M" and tid: "env_thread_id env = tid" "tid \<noteq> 0" and kern: "kernel_ok env heap s"
    and k: "unat pq = k" "1 \<le> k" "k \<le> 52"
  shows "result (\<not> mmap_granted env) env (page_fresh env heap pq s) (\<lambda>(p, s'). ready tid heap B k p s s')"
proof -
  obtain h where h: "heap_at s heap = Some h" using heap_exists [OF inv] by blast
  have k74: "k \<le> 74" "k \<le> 73" using k(3) by simp_all
  note q = queue_block_size [OF inv h k(1,2) k74(1)]
  let ?bs = "pq_block_size (pages h ! k)"
  have bs: "unat ?bs = size_of_bin (int k)" by (rule q(3) [OF k74(2)])
  have "?bs \<le> MEDIUM_OBJ_SIZE_MAX" using bin_size_bounds [OF k(2,3)] bs by (simp add: layout_consts word_le_nat_alt)
  from page_alloc_inv [OF inv h tid kern this] obtain n where n: "unat ?bs \<le> n * 65536" "0 < n" "n \<le> 8" "?bs \<le> SMALL_OBJ_SIZE_MAX \<longrightarrow> n = 1"
    "outcome_todo env (segment_page_alloc env heap ?bs 0 (tld_ptr h) s) (\<lambda>(p, s'). new_page tid heap B Q s n p s')"
    by (elim exE conjE) (rule that)
  have "page_fresh env heap pq s = bindR (segment_page_alloc env heap ?bs 0 (tld_ptr h) s) (\<lambda>(page, s).
     if page = 0 then Inr (page, s)
     else
       bindR (fetch (heap_at s) heap) (\<lambda>h.
       bindR (page_init heap page ?bs (tld_ptr h) s) (\<lambda>s.
       bindR (page_queue_push s heap pq page) (\<lambda>s. Inr (page, s)))))"
    using q(1) h by (simp add: page_fresh_def page_fresh_alloc_def)
  moreover have "result (\<not> mmap_granted env) env (bindR (segment_page_alloc env heap ?bs 0 (tld_ptr h) s) (\<lambda>(page, s).
     if page = 0 then Inr (page, s)
     else
       bindR (fetch (heap_at s) heap) (\<lambda>h.
       bindR (page_init heap page ?bs (tld_ptr h) s) (\<lambda>s.
       bindR (page_queue_push s heap pq page) (\<lambda>s. Inr (page, s)))))) (\<lambda>(p, s'). ready tid heap B k p s s')"
  proof (rule result_bind [OF n(5) [unfolded outcome_todo_is_result]])
    fix a assume a: "case a of (p, s') \<Rightarrow> new_page tid heap B Q s n p s'"
    obtain p s1 where p: "a = (p, s1)" "new_page tid heap B Q s n p s1" using a by (cases a) auto
    obtain h1 where h1: "heap_at s1 heap = Some h1" "p \<noteq> 0" using p(2) unfolding new_page_def by blast
    obtain s2 pg2 M2 where i: "page_init heap p ?bs (tld_ptr h1) s1 = Inr s2" "heap_inv tid heap s2 B Q {p} M2" "frame heap B s s2" "page_at s2 p = Some pg2"
      "free (inner pg2) \<noteq> 0" "psize pg2 = ?bs" by (rule page_init_inv [OF p(2) inv n(1-4) k(2,3) bs])
    obtain s3 pg3 where u: "page_queue_push s2 heap pq p = Inr s3" "stepped tid heap B M2 s2 s3 (Q[k := p # Q ! k]) {}" "page_at s3 p = Some pg3"
      "body pg3 = body (pg2\<lparr>inner := set_in_full (k = 74) (inner pg2)\<rparr>)"
      by (rule push_inv [OF i(2) k(1,2) k74(1) _ i(4)]) (use bs i(6) k(3) in simp)
    have "inner pg3 = set_in_full (k = 74) (inner pg2)" using body_page_same [OF u(4)] by simp
    then have "free (inner pg3) \<noteq> 0" using i(5) by (simp add: set_in_full_def)
    moreover have "heap_inv tid heap s3 B (Q[k := p # Q ! k]) {} M2" "frame heap B s s3" using u(2) frame_trans [OF i(3)] unfolding stepped_def by blast+
    moreover have "placed (Q[k := p # Q ! k]) {} k p" using heap_invD(4) [OF inv] k(3) by (simp add: placed_def)
    ultimately have "ready tid heap B k p s s3" using u(3) h1(2) unfolding ready_def by blast
    then show "result (\<not> mmap_granted env) env (case a of (page, s) \<Rightarrow> if page = 0 then Inr (page, s)
     else bindR (fetch (heap_at s) heap) (\<lambda>h.
       bindR (page_init heap page ?bs (tld_ptr h) s) (\<lambda>s.
       bindR (page_queue_push s heap pq page) (\<lambda>s. Inr (page, s))))) (\<lambda>(p, s'). ready tid heap B k p s s')"
      using p(1) h1 i(1) u(1) by simp
  qed
  ultimately show ?thesis by simp
qed

lemma find_loop_inv:
  assumes "heap_inv tid heap s B Q {} M" "unat pq = k" "k < 74" "page = hd_or 0 (Q ! k)" "length (Q ! k) < fuel"
  shows "\<exists>p s' Q'. find_free_loop fuel heap pq page s = Inr (p, s') \<and> stepped tid heap B M s s' Q' {}
    \<and> (p = 0 \<or> placed Q' {} k p \<and> (\<exists>pg. page_at s' p = Some pg \<and> free (inner pg) \<noteq> 0))"
  using assms
proof (induction fuel arbitrary: s Q page)
  case (Suc fuel)
  note inv = Suc.prems(1)
  have k75: "k < length Q" "k \<noteq> 74" using heap_invD(4) [OF inv] Suc.prems(3) by simp_all
  obtain h where h: "heap_at s heap = Some h" "queues_ok (page_at s) (pages h) Q" "queue_sizes_ok (pages h)"
    "pages_free_direct_is_correct (pages_free_direct h) (pages h) (page_empty_ptr h)" "k < length (pages h)"
    using heap_okE [OF heap_invD(2) [OF inv], of k] Suc.prems(3) by (metis less_imp_le)
  have dq: "dseg (page_at s) 0 (Q ! k) 0" by (rule queues_ok_nth(3) [OF h(2,5)])
  show ?case
  proof (cases "Q ! k")
    case Nil
    then have "find_free_loop (Suc fuel) heap pq page s = Inr (0, s)" using Suc.prems(4) by simp
    then show ?thesis using stepped_refl [OF inv] by blast
  next
    case (Cons x rest)
    have px: "page = x" using Suc.prems(4) Cons by simp
    obtain pg where pg: "page_at s x = Some pg" "next_ptr pg = hd_or 0 rest" "x \<noteq> 0" using dq Cons by (auto split: option.splits)
    have pl: "placed Q {} k x" using Cons k75(1) by (simp add: placed_def)
    obtain s1 pg1 where c: "page_free_collect x False s = Inr s1" "stepped tid heap B M s s1 Q {}" "page_at s1 x = Some pg1" "page_kept pg pg1"
      by (rule collect_page [OF inv pl pg(1)])
    have inv1: "heap_inv tid heap s1 B Q {} M" using c(2) by (simp add: stepped_def)
    note code = px pg c(1,3)
    consider (found) "free (inner pg1) \<noteq> 0" | (more) "free (inner pg1) = 0" "capacity (inner pg1) < reserved (inner pg1)"
      | (full) "free (inner pg1) = 0" "\<not> capacity (inner pg1) < reserved (inner pg1)" by blast
    then show ?thesis
    proof cases
      case found
      then have "find_free_loop (Suc fuel) heap pq page s = Inr (x, s1)" using code by (simp add: LL_is_empty_def)
      then show ?thesis using c(2,3) pl found by blast
    next
      case more
      obtain s2 pg2 where e: "page_extend_free x s1 = Inr s2" "stepped tid heap B M s1 s2 Q {}" "page_at s2 x = Some pg2" "free (inner pg2) \<noteq> 0"
        "page_kept pg1 pg2" by (rule extend_inv [OF inv1 pl c(3) more(2)])
      then have "find_free_loop (Suc fuel) heap pq page s = Inr (x, s2)" using code more by (simp add: LL_is_empty_def)
      then show ?thesis using stepped_trans [OF c(2) e(2)] e(3,4) pl by blast
    next
      case full
      have Qk: "Q ! k = [] @ x # rest" using Cons by simp
      obtain s2 where f: "page_to_full x heap pq s1 = Inr s2" "stepped tid heap B M s1 s2 (Q[k := [] @ rest, 74 := Q ! 74 @ [x]]) {}"
        by (rule to_full_inv [OF inv1 Suc.prems(2,3) Qk c(3)])
      let ?Q = "Q[k := [] @ rest, 74 := Q ! 74 @ [x]]"
      have Q2: "?Q ! k = rest" using k75 by simp
      have inv2: "heap_inv tid heap s2 B ?Q {} M" using f(2) by (simp add: stepped_def)
      have len: "length (?Q ! k) < fuel" "hd_or 0 rest = hd_or 0 (?Q ! k)" using Suc.prems(5) Cons unfolding Q2 by simp_all
      obtain p s' Q' where r: "find_free_loop fuel heap pq (hd_or 0 rest) s2 = Inr (p, s')" "stepped tid heap B M s2 s' Q' {}"
        "p = 0 \<or> placed Q' {} k p \<and> (\<exists>pg. page_at s' p = Some pg \<and> free (inner pg) \<noteq> 0)"
        using Suc.IH [OF inv2 Suc.prems(2,3) len(2,1)] by blast
      have "find_free_loop (Suc fuel) heap pq page s = Inr (p, s')" using code full f(1) r(1) by (simp add: LL_is_empty_def)
      then show ?thesis using stepped_trans [OF stepped_trans [OF c(2) f(2)] r(2)] r(3) by blast
    qed
  qed
qed simp

lemma clear_retire_inv:
  assumes inv: "heap_inv tid heap s B Q X M" and p: "placed Q X k p" "page_at s p = Some pg"
  obtains s' where "upd_inner s p (set_retire_expire 0) = Inr s'" "stepped tid heap B M s s' Q X" "page_at s' p = Some (pg\<lparr>inner := set_retire_expire 0 (inner pg)\<rparr>)"
proof -
  have "page_same pg (pg\<lparr>inner := set_retire_expire 0 (inner pg)\<rparr>)" by (simp add: page_same_def set_retire_expire_def)
  moreover have "get_in_full (set_retire_expire 0 (inner pg)) = get_in_full (inner pg)" "get_has_aligned (set_retire_expire 0 (inner pg)) = get_has_aligned (inner pg)"
    by (simp_all add: set_retire_expire_def flag_getters)
  ultimately show ?thesis by (rule flag_inv [OF inv p]) (rule that)
qed

lemma stepped_kernel: "stepped tid heap B M s s' Q X \<Longrightarrow> kernel_ok env heap s \<Longrightarrow> kernel_ok env heap s'"
  unfolding stepped_def quiet_def frame_def kernel_ok_def mmap_fresh_def mapped_by_def by (elim conjE exE) simp

lemma ready_stepped: "stepped tid heap B M s s1 Q X \<Longrightarrow> ready tid heap B k p s1 s' \<Longrightarrow> ready tid heap B k p s s'"
  unfolding ready_def stepped_def using frame_trans by blast

lemma find_free_ex_inv:
  assumes inv: "heap_inv tid heap s B Q {} M" and tid: "env_thread_id env = tid" "tid \<noteq> 0" and kern: "kernel_ok env heap s"
    and k: "unat pq = k" "1 \<le> k" "k \<le> 52"
  shows "result (\<not> mmap_granted env) env (page_queue_find_free_ex env heap pq first_try s) (\<lambda>(p, s'). ready tid heap B k p s s')"
proof -
  have k74: "k \<le> 74" "k < 74" using k(3) by simp_all
  obtain h where h: "heap_at s heap = Some h" "queues_ok (page_at s) (pages h) Q" "queue_sizes_ok (pages h)"
    "pages_free_direct_is_correct (pages_free_direct h) (pages h) (page_empty_ptr h)" "k < length (pages h)"
    by (rule heap_okE [OF heap_invD(2) [OF inv] k74(1)])
  note q = queue_block_size [OF inv h(1) k(1,2) k74(1)]
  have "length (Q ! k) < address_count"
  proof -
    have "distinct (Q ! k)" by (rule queues_ok_nth(4) [OF h(2,5)])
    moreover have "0 \<notin> set (Q ! k)" using dseg_nonnull queues_ok_nth(3) [OF h(2,5)] by blast
    then have "card (set (Q ! k)) < card (UNIV :: usize set)" by (intro psubset_card_mono) auto
    ultimately show ?thesis by (simp add: distinct_card card_word address_count_def)
  qed
  then obtain p s1 Q1 where r: "find_free_loop address_count heap pq (pq_first (pages h ! k)) s = Inr (p, s1)" "stepped tid heap B M s s1 Q1 {}"
    "p = 0 \<or> placed Q1 {} k p \<and> (\<exists>pg. page_at s1 p = Some pg \<and> free (inner pg) \<noteq> 0)"
    using find_loop_inv [OF inv k(1) k74(2) q(2)] by blast
  have inv1: "heap_inv tid heap s1 B Q1 {} M" using r(2) by (simp add: stepped_def)
  show ?thesis
  proof (cases "p = 0")
    case True
    have code: "page_queue_find_free_ex env heap pq first_try s = bindR (page_fresh env heap pq s1) (\<lambda>(page, s).
       if page = 0 \<and> first_try then page_queue_find_free_ex env heap pq False s else Inr (page, s))"
      using q(1) r(1) True by (subst page_queue_find_free_ex.simps) simp
    show ?thesis
      unfolding code
    proof (rule result_bind [OF page_fresh_inv [OF inv1 tid stepped_kernel [OF r(2) kern] k]])
      fix a assume a: "case a of (p, s') \<Rightarrow> ready tid heap B k p s1 s'"
      obtain x s' where x: "a = (x, s')" "ready tid heap B k x s1 s'" using a by (cases a) auto
      then have "x \<noteq> 0" unfolding ready_def by blast
      then show "result (\<not> mmap_granted env) env (case a of (page, s) \<Rightarrow> if page = 0 \<and> first_try then page_queue_find_free_ex env heap pq False s else Inr (page, s))
         (\<lambda>(p, s'). ready tid heap B k p s s')" using x(1) ready_stepped [OF r(2) x(2)] by simp
    qed
  next
    case False
    obtain pg where pg: "placed Q1 {} k p" "page_at s1 p = Some pg" "free (inner pg) \<noteq> 0" using r(3) False by blast
    obtain s2 where s2: "upd_inner s1 p (set_retire_expire 0) = Inr s2" "stepped tid heap B M s1 s2 Q1 {}"
      "page_at s2 p = Some (pg\<lparr>inner := set_retire_expire 0 (inner pg)\<rparr>)" by (rule clear_retire_inv [OF inv1 pg(1,2)])
    have "page_queue_find_free_ex env heap pq first_try s = Inr (p, s2)"
      using q(1) r(1) False s2(1) by (subst page_queue_find_free_ex.simps) simp
    moreover have "free (inner (pg\<lparr>inner := set_retire_expire 0 (inner pg)\<rparr>)) \<noteq> 0" using pg(3) by (simp add: set_retire_expire_def)
    then have "ready tid heap B k p s1 s2" using s2(2,3) pg(1) False unfolding ready_def stepped_def by blast
    ultimately show ?thesis using ready_stepped [OF r(2)] by simp
  qed
qed

lemma bin_word:
  assumes "sz \<le> MEDIUM_OBJ_SIZE_MAX"
  obtains k where "1 \<le> k" "k \<le> 52" "unat (ucast (bin sz) :: usize) = k" "unat sz \<le> size_of_bin (int k)"
proof -
  have sz: "unat sz \<le> 131072" using assms by (simp add: layout_consts word_le_nat_alt)
  let ?b = "smallest_bin_fitting_size (uint sz)"
  have "int (unat sz) \<le> 131072" using sz by linarith
  then have u: "uint sz \<le> 131072" "0 \<le> uint sz" unfolding uint_nat by simp_all
  have e: "uint (bin sz) = ?b" by (rule bin_eq_spec [OF sz])
  have u4: "uint sz \<le> 4194304" using u(1) by linarith
  note b = smallest_bin_bounds(1,3) [OF u(2) u4]
  have "?b \<le> smallest_bin_fitting_size 131072" by (rule smallest_bin_mono [OF u(2,1)]) simp
  also have "smallest_bin_fitting_size (131072 :: int) = 52"
    using smallest_bin_of_size_of_bin [of 52] by (simp add: valid_bin_idx_def size_of_bin_def pow2_eq)
  finally have b52: "?b \<le> 52" .
  have n: "unat (bin sz) = nat ?b" using e by (simp only: nat_uint_eq [symmetric])
  then have "unat (ucast (bin sz) :: usize) = nat ?b" using b52 by (simp add: unat_ucast_small)
  moreover have "int (unat sz) \<le> int (size_of_bin (int (nat ?b)))" using b(1,2) unfolding uint_nat by simp
  then have "unat sz \<le> size_of_bin (int (nat ?b))" by (simp only: of_nat_le_iff)
  moreover have "1 \<le> nat ?b" "nat ?b \<le> 52" using b(1) b52 by linarith+
  ultimately show ?thesis using that by blast
qed

lemma find_page_inv:
  assumes inv: "heap_inv tid heap s B Q {} M" and tid: "env_thread_id env = tid" "tid \<noteq> 0" and kern: "kernel_ok env heap s"
    and sz: "sz \<le> MEDIUM_OBJ_SIZE_MAX"
  shows "\<exists>k. k \<le> 52 \<and> unat sz \<le> size_of_bin (int k)
    \<and> result (\<not> mmap_granted env) env (find_page env heap sz 0 s) (\<lambda>(p, s'). ready tid heap B k p s s')"
proof -
  obtain k where k: "1 \<le> k" "k \<le> 52" "unat (ucast (bin sz) :: usize) = k" "unat sz \<le> size_of_bin (int k)" by (rule bin_word [OF sz])
  let ?pq = "ucast (bin sz) :: usize"
  obtain h where h: "heap_at s heap = Some h" using heap_exists [OF inv] by blast
  have k74: "k \<le> 74" using k(2) by simp
  note q = queue_block_size [OF inv h k(3,1) k74]
  have "\<not> MEDIUM_OBJ_SIZE_MAX < sz" using sz by simp
  then have code: "find_page env heap sz 0 s = find_free_page env heap sz s" by (simp add: find_page_def)
  have "result (\<not> mmap_granted env) env (find_free_page env heap sz s) (\<lambda>(p, s'). ready tid heap B k p s s')"
  proof (cases "Q ! k")
    case Nil
    then have "find_free_page env heap sz s = page_queue_find_free_ex env heap ?pq True s"
      using q(1,2) by (simp add: find_free_page_def Let_def)
    then show ?thesis using find_free_ex_inv [OF inv tid kern k(3,1,2)] by simp
  next
    case (Cons x rest)
    have pl: "placed Q {} k x" using Cons heap_invD(4) [OF inv] k(2) by (simp add: placed_def)
    obtain pg where pg: "page_at s x = Some pg" by (rule page_at_placed [OF inv pl])
    have "x \<in> queued Q \<union> {}" using pl placed_iff by blast
    moreover obtain tld where "seg_inv tld s (queued Q \<union> {}) M" using heap_seg_inv [OF inv] by blast
    ultimately have x0: "x \<noteq> 0" using seg_inv_nonnull by blast
    obtain s1 pg1 where c: "page_free_collect x False s = Inr s1" "stepped tid heap B M s s1 Q {}" "page_at s1 x = Some pg1" "page_kept pg pg1"
      by (rule collect_page [OF inv pl pg])
    have inv1: "heap_inv tid heap s1 B Q {} M" using c(2) by (simp add: stepped_def)
    have code: "find_free_page env heap sz s = (if free (inner pg1) \<noteq> 0 then Inr (x, s1) else page_queue_find_free_ex env heap ?pq True s1)"
      using q(1,2) Cons x0 c(1,3) by (simp add: find_free_page_def Let_def LL_is_empty_def)
    show ?thesis
    proof (cases "free (inner pg1) = 0")
      case True
      have "result (\<not> mmap_granted env) env (page_queue_find_free_ex env heap ?pq True s1) (\<lambda>(p, s'). ready tid heap B k p s s')"
        by (rule result_mono [OF find_free_ex_inv [OF inv1 tid stepped_kernel [OF c(2) kern] k(3,1,2)]]) (use ready_stepped [OF c(2)] in auto)
      then show ?thesis unfolding code using True by simp
    next
      case False
      have "frame heap B s s1" using c(2) by (simp add: stepped_def)
      then have "ready tid heap B k x s s1" using inv1 pl c(3) False x0 unfolding ready_def by blast
      then show ?thesis unfolding code using False by simp
    qed
  qed
  then show ?thesis unfolding code using k(2,4) by blast
qed

section \<open>Taking a block\<close>

lemma pop_inv:
  assumes inv: "heap_inv tid heap s B Q X M" and p: "placed Q X k p" "page_at s p = Some pg" and ne: "free (inner pg) \<noteq> 0" and sz: "n \<le> unat (psize pg)"
  obtains b rest s' where "pop_block (node_at s) (free (inner pg)) = Inr (b, rest)"
    "upd_inner s p (\<lambda>i. i\<lparr>free := rest, used := used i + 1\<rparr>) = Inr s'" "heap_inv tid heap s' (B(b \<mapsto> n)) Q X M"
    "frame heap B s s'" "b \<notin> dom B" "b \<noteq> 0" "node_at s' = node_at s"
proof -
  obtain pg1 fs ls ts where h: "page_at s p = Some pg1" "hdr_ok heap k pg1" "blocks_ok (node_at s) p pg1 (dom B) fs ls ts"
    "split_ok p pg1 (dom B) fs ls ts" "\<forall>b n. B b = Some n \<longrightarrow> b \<in> pblocks p pg1 \<longrightarrow> n \<le> unat (psize pg1)" by (rule page_at_placed [OF inv p(1)])
  have pg1: "pg1 = pg" using h(1) p(2) by simp
  note h = h [unfolded pg1]
  note d = split_okD [OF h(4)]
  have l: "ll (node_at s) (free (inner pg)) fs" "ll (node_at s) (local_free (inner pg)) ls" "tlist (node_at s) pg ts" using h(3) unfolding blocks_ok_def by blast+
  obtain b fs' where fs: "fs = b # fs'" using l(1) ne by (cases fs) auto
  obtain rest where r: "pop_block (node_at s) (free (inner pg)) = Inr (b, rest)" "ll (node_at s) rest fs'" using pop_block_spec l(1) fs by blast
  let ?pg = "pg\<lparr>inner := (inner pg)\<lparr>free := rest, used := used (inner pg) + 1\<rparr>\<rparr>" and ?B = "B(b \<mapsto> n)"
  let ?s = "s\<lparr>page_at := (page_at s)(p \<mapsto> ?pg)\<rparr>"
  have bp: "b \<in> pblocks p pg" "b \<notin> dom B" using d(5,8) fs by auto
  then have b0: "b \<noteq> 0" using blocks_of_nonnull [OF d(2)] by blast
  have "unat (used (inner pg)) < pcap pg" using d(7) fs by simp
  then have "unat (used (inner pg)) + 1 < 2 ^ 32" using unat_bound [of "capacity (inner pg)"] by simp
  then have u: "unat (used (inner pg) + 1) = unat (used (inner pg)) + 1" by (subst unat_add_small) simp_all
  have "split_ok p ?pg (dom ?B) fs' ls ts" using d fs bp u unfolding split_ok_def by auto
  then have bo: "blocks_ok (node_at s) p ?pg (dom ?B) fs' ls ts" using l r(2) unfolding blocks_ok_def tlist_def by simp
  have kp: "page_kept pg ?pg" by (simp add: page_kept_def)
  have sub: "{} \<subseteq> blocks_of p (psize pg) (pres pg)" by simp
  have "heap_inv tid heap (s\<lparr>page_at := (page_at s)(p \<mapsto> ?pg), node_at := node_at s\<rparr>) ?B Q X M"
    by (rule heap_inv_page [OF inv p kp _ sub bo]) (use bp h(5) sz in \<open>auto split: if_splits\<close>)
  then have "heap_inv tid heap ?s ?B Q X M" by simp
  moreover obtain h0 where "heap_at s heap = Some h0" using heap_exists [OF inv] by blast
  then have "frame heap B s ?s" unfolding frame_def by simp
  moreover have "upd_inner s p (\<lambda>i. i\<lparr>free := rest, used := used i + 1\<rparr>) = Inr ?s" using p(2) by (simp add: upd_inner_eq)
  ultimately show ?thesis using that [OF r(1)] bp(2) b0 by simp
qed

text \<open>A new block next to those in \<open>B\<close>; \<open>ds\<close> is the delayed list.\<close>

definition got_block :: "u64 \<Rightarrow> usize \<Rightarrow> live \<Rightarrow> usize list \<Rightarrow> usize \<Rightarrow> st \<Rightarrow> usize \<Rightarrow> st \<Rightarrow> bool" where
  "got_block tid heap B ds sz s b s' \<longleftrightarrow> b \<noteq> 0 \<and> b \<notin> dom B \<and> heap_state tid heap s' (B(b \<mapsto> unat sz)) ds
     \<and> (\<forall>x \<in> owned B. node_at s' x = node_at s x)"

lemma page_malloc_inv:
  assumes st: "heap_state tid heap s0 B ds" and inv: "heap_inv tid heap s B Q {} M" and fr: "frame heap B s0 s"
    and p: "placed Q {} k p" "page_at s p = Some pg" "free (inner pg) \<noteq> 0" "unat sz \<le> unat (psize pg)"
  shows "\<exists>b s'. page_malloc_rec (Suc f) env heap p sz zero s = Inr (b, s') \<and> got_block tid heap B ds sz s0 b s'"
proof -
  obtain b rest s' where r: "pop_block (node_at s) (free (inner pg)) = Inr (b, rest)"
    "upd_inner s p (\<lambda>i. i\<lparr>free := rest, used := used i + 1\<rparr>) = Inr s'" "heap_inv tid heap s' (B(b \<mapsto> unat sz)) Q {} M"
    "frame heap B s s'" "b \<notin> dom B" "b \<noteq> 0" "node_at s' = node_at s" by (rule pop_inv [OF inv p])
  have fr': "frame heap B s0 s'" by (rule frame_trans [OF fr r(4)])
  obtain h where h: "heap_at s0 heap = Some h" "ll (node_at s0) (thread_delayed_free h) ds" "set ds \<subseteq> dom B" using st unfolding heap_state_def by blast
  obtain h' where h': "heap_at s' heap = Some h'" "thread_delayed_free h' = thread_delayed_free h" using fr' h(1) unfolding frame_def by auto
  have n: "\<forall>x \<in> owned B. node_at s' x = node_at s0 x" using fr' unfolding frame_def by blast
  have "node_at s' x = node_at s0 x" if "x \<in> set ds" for x using that n h(3) dom_owned [of B] by blast
  then have "ll (node_at s') (thread_delayed_free h') ds" using h(2) h'(2) lseg_cong [of ds "node_at s'" "node_at s0"] by simp
  then have "heap_state tid heap s' (B(b \<mapsto> unat sz)) ds" using r(3) h'(1) h(3) unfolding heap_state_def by auto
  moreover have "page_malloc_rec (Suc f) env heap p sz zero s = Inr (b, s')" using p(2,3) r(1,2) by (simp add: LL_is_empty_def)
  ultimately show ?thesis using r(5,6) n unfolding got_block_def by blast
qed

lemma later_kernel: "later heap B s s' \<Longrightarrow> kernel_ok env heap s \<Longrightarrow> kernel_ok env heap s'"
proof -
  assume l: "later heap B s s'" and k: "kernel_ok env heap s"
  obtain h h' where h: "sys_calls s \<le> sys_calls s'" "dom (segment_at s') = dom (segment_at s)" "heap_at s heap = Some h" "heap_at s' heap = Some h'"
    "page_empty_ptr h' = page_empty_ptr h" using l unfolding later_def by blast
  have "mmap_fresh env s' (dom (segment_at s'))" using k order_trans [OF h(1)] unfolding kernel_ok_def mmap_fresh_def h(2) by blast
  moreover have "mapped_by env s g" if "mapped_by env s' g" for g using that order_trans [OF h(1)] unfolding mapped_by_def by blast
  then have "\<not> in_segment g (page_empty_ptr h')" if "mapped_by env s' g" for g using k h(3,5) that unfolding kernel_ok_def by simp
  ultimately show "kernel_ok env heap s'" using h(4) unfolding kernel_ok_def by simp
qed

lemma page_size_of: "hdr_ok heap k pg \<Longrightarrow> k < 74 \<Longrightarrow> unat (psize pg) = size_of_bin (int k)"
  unfolding hdr_ok_def by auto

lemma malloc_generic_inv:
  assumes st: "heap_state tid heap s B ds" and tid: "env_thread_id env = tid" "tid \<noteq> 0" and kern: "kernel_ok env heap s"
  shows "result (\<not> mmap_granted env \<or> sz > MEDIUM_OBJ_SIZE_MAX \<or> ds \<noteq> []) env (malloc_generic_rec (Suc (Suc f)) env heap sz zero 0 s)
    (\<lambda>(b, s'). got_block tid heap (B |` (- set ds)) [] sz s b s')"
proof -
  let ?B = "B |` (- set ds)" and ?T = "\<not> mmap_granted env \<or> sz > MEDIUM_OBJ_SIZE_MAX \<or> ds \<noteq> []"
  have d: "result ?T env (heap_delayed_free_partial env heap s) (\<lambda>(all, s'). all \<and> heap_state tid heap s' ?B [] \<and> later heap ?B s s')"
    by (rule result_mono [OF delayed_partial_inv [OF st]]) auto
  show ?thesis
    unfolding malloc_generic_rec.simps(2)
  proof (rule result_bind [OF d])
    fix a assume a: "case a of (all, s') \<Rightarrow> all \<and> heap_state tid heap s' ?B [] \<and> later heap ?B s s'"
    obtain all s1 where s1: "a = (all, s1)" "heap_state tid heap s1 ?B []" "later heap ?B s s1" using a by (cases a) auto
    obtain Q M where inv: "heap_inv tid heap s1 ?B Q {} M" using s1(2) unfolding heap_state_def by blast
    have kern1: "kernel_ok env heap s1" by (rule later_kernel [OF s1(3) kern])
    have "result ?T env (bindR (find_page env heap sz 0 s1) (\<lambda>(page, s). if page = 0 then todo
       else bindR (fetch (page_at s) page) (\<lambda>pg. if zero \<and> xblock_size (inner pg) = 0 then todo
         else page_malloc_rec (Suc f) env heap page sz zero s))) (\<lambda>(b, s'). got_block tid heap ?B [] sz s b s')"
    proof (cases "sz \<le> MEDIUM_OBJ_SIZE_MAX")
      case False
      then have "find_page env heap sz 0 s1 = Inr (0, s1) \<or> find_page env heap sz 0 s1 = todo" by (auto simp: find_page_def)
      then show ?thesis using False by (auto simp: todo_def result_def)
    next
      case True
      obtain k where k: "k \<le> 52" "unat sz \<le> size_of_bin (int k)"
        "result (\<not> mmap_granted env) env (find_page env heap sz 0 s1) (\<lambda>(p, s'). ready tid heap ?B k p s1 s')"
        using find_page_inv [OF inv tid kern1 True] by (elim exE conjE) (rule that)
      have f: "result ?T env (find_page env heap sz 0 s1) (\<lambda>(p, s'). ready tid heap ?B k p s1 s')"
        by (rule result_mono [OF k(3)]) auto
      show ?thesis
      proof (rule result_bind [OF f])
        fix c assume c: "case c of (p, s') \<Rightarrow> ready tid heap ?B k p s1 s'"
        obtain p s2 where p: "c = (p, s2)" "ready tid heap ?B k p s1 s2" using c by (cases c) auto
        obtain Q2 M2 pg where r: "heap_inv tid heap s2 ?B Q2 {} M2" "placed Q2 {} k p" "page_at s2 p = Some pg" "free (inner pg) \<noteq> 0" "p \<noteq> 0"
          "frame heap ?B s1 s2" using p(2) unfolding ready_def by blast
        have hd: "hdr_ok heap k pg" using xheap_placed [OF r(1-3)] by blast
        have psz: "unat sz \<le> unat (psize pg)" using page_size_of [OF hd] k(1,2) by simp
        obtain b s3 where b: "page_malloc_rec (Suc f) env heap p sz zero s2 = Inr (b, s3)" "got_block tid heap ?B [] sz s1 b s3"
          using page_malloc_inv [OF s1(2) r(1,6,2-4) psz] by blast
        have "got_block tid heap ?B [] sz s b s3" using b(2) s1(3) unfolding got_block_def later_def by simp
        moreover have "xblock_size (inner pg) \<noteq> 0" using hdr_ok_size [OF hd] by blast
        ultimately show "result ?T env (case c of (page, s) \<Rightarrow> if page = 0 then todo
       else bindR (fetch (page_at s) page) (\<lambda>pg. if zero \<and> xblock_size (inner pg) = 0 then todo
         else page_malloc_rec (Suc f) env heap page sz zero s)) (\<lambda>(b, s'). got_block tid heap ?B [] sz s b s')"
          using p(1) r(3,5) b(1) by (simp del: page_malloc_rec.simps)
      qed
    qed
    then show "result ?T env (case a of (all_freed, s) \<Rightarrow> bindR (find_page env heap sz 0 s) (\<lambda>(page, s). if page = 0 then todo
       else bindR (fetch (page_at s) page) (\<lambda>pg. if zero \<and> xblock_size (inner pg) = 0 then todo
         else page_malloc_rec (Suc f) env heap page sz zero s))) (\<lambda>(b, s'). got_block tid heap ?B [] sz s b s')"
      using s1(1) by (simp del: page_malloc_rec.simps)
  qed
qed

text \<open>The direct table leads to the first page of the bin, or to the empty page.\<close>

lemma direct_page_inv:
  assumes inv: "heap_inv tid heap s B Q {} M" and sz: "sz \<le> SMALL_SIZE_MAX"
  obtains p pg where "heap_get_free_small_page heap sz s = Inr p" "page_at s p = Some pg"
    "free (inner pg) = 0 \<or> (\<exists>k. placed Q {} k p \<and> unat sz \<le> unat (psize pg))"
proof -
  obtain h where h: "heap_at s heap = Some h" "segs_ok tid (tld_ptr h) (page_empty_ptr h) s (queued Q \<union> {}) M"
    "seg_inv (tld_ptr h) s (queued Q \<union> {}) M" "heap_ok s heap Q" "{} \<inter> queued Q = {}" "pages_ok s heap B Q {}" "length Q = 75" "length (pages h) = 75"
    "queues_ok (page_at s) (pages h) Q" by (rule heap_invE [OF inv])
  let ?w = "unat ((sz + 7) div 8)"
  have u: "unat sz \<le> 1024" using sz by (simp add: layout_consts word_le_nat_alt)
  have "unat (sz + 7) = unat sz + 7" using u by (subst unat_add_small) simp_all
  then have w: "?w = (unat sz + 7) div 8" by (simp add: unat_div)
  have "(unat sz + 7) div 8 \<le> 1031 div 8" using u by (intro div_le_mono) simp
  then have w128: "?w \<le> 128" unfolding w by simp
  have w8: "unat sz \<le> ?w * 8" unfolding w by linarith
  have "pages_free_direct_is_correct (pages_free_direct h) (pages h) (page_empty_ptr h)" using h(1,4) by (simp add: heap_ok_def)
  then have pf: "length (pages_free_direct h) = 129" "pages_free_direct h ! ?w = direct_page (pages h ! wbin ?w) (page_empty_ptr h)"
    using w128 unfolding pfd_correct_iff by auto
  let ?k = "wbin ?w" and ?p = "direct_page (pages h ! wbin ?w) (page_empty_ptr h)"
  have k: "1 \<le> ?k" "?k \<le> 72" using wbin_range [OF w128] by blast+
  then have k74: "?k < 74" by simp
  have code: "heap_get_free_small_page heap sz s = Inr ?p" using h(1) pf w128 by (simp add: heap_get_free_small_page_def Let_def)
  have first: "pq_first (pages h ! ?k) = hd_or 0 (Q ! ?k)" using queues_ok_nth(1) [OF h(9), of ?k] h(8) k74 by simp
  show ?thesis
  proof (cases "pq_first (pages h ! ?k) = 0")
    case True
    have "page_empty_ptr h \<notin> queued Q"
    proof
      assume "page_empty_ptr h \<in> queued Q"
      then have "page_empty_ptr h \<in> queued Q \<union> {}" by simp
      then obtain g i c where m: "page_empty_ptr h = hdr g i" "0 < i" "M (g, i) = Some (c, UsedSpan)" "g \<in> dom (segment_at s)" "seg_addr_ok g" "0 < c" "i + c \<le> 512"
        "tiled M g" "span_hdr (page_at s) g i c UsedSpan" by (rule seg_inv_hdr [OF h(3)])
      have "in_segment g (hdr g i)" using hdr_unat [OF m(5), of i] m(7) by (simp add: in_segment_def)
      then show False using h(2) m(1,4) unfolding segs_ok_def by auto
    qed
    moreover obtain pg where pg: "page_at s (page_empty_ptr h) = Some pg" using h(2) unfolding segs_ok_def by blast
    ultimately have "clean pg" using h(2) unfolding segs_ok_def by auto
    then have "free (inner pg) = 0" unfolding clean_def by blast
    then show ?thesis using that [OF code, of pg] pg True by (simp add: direct_page_def)
  next
    case False
    then obtain x rest where x: "Q ! ?k = x # rest" using first by (cases "Q ! ?k") auto
    have pl: "placed Q {} ?k x" using x k74 h(7) by (simp add: placed_def)
    have px: "?p = x" using first x False by (simp add: direct_page_def)
    obtain pg where pg: "page_at s x = Some pg" by (rule page_at_placed [OF inv pl])
    have "hdr_ok heap ?k pg" using xheap_placed [OF inv pl pg] by blast
    from page_size_of [OF this k74] have ps: "unat (psize pg) = size_of_bin (int ?k)" .
    have k0: "int ?k = smallest_bin_fitting_size (int ?w * 8)" using smallest_bin_small [OF w128] by simp
    have "int ?w * 8 \<le> int (size_of_bin (smallest_bin_fitting_size (int ?w * 8)))" by (rule smallest_bin_bounds(3)) (use w128 in linarith)+
    then have "int (?w * 8) \<le> int (size_of_bin (int ?k))" unfolding k0 by simp
    then have "?w * 8 \<le> size_of_bin (int ?k)" by (simp only: of_nat_le_iff)
    then have "unat sz \<le> unat (psize pg)" using w8 unfolding ps by linarith
    then show ?thesis using that [OF code, of pg] pg pl px by blast
  qed
qed

text \<open>
  What a call of \<^verbatim>\<open>heap_malloc\<close> does to a heap: the delayed list is emptied or left alone, and
  one block comes out.
\<close>

definition malloced :: "u64 \<Rightarrow> usize \<Rightarrow> live \<Rightarrow> usize list \<Rightarrow> usize \<Rightarrow> st \<Rightarrow> usize \<Rightarrow> st \<Rightarrow> bool" where
  "malloced tid heap B ds sz s b s' \<longleftrightarrow> got_block tid heap B ds sz s b s' \<or> got_block tid heap (B |` (- set ds)) [] sz s b s'"

lemma heap_malloc_inv:
  assumes st: "heap_state tid heap s B ds" and tid: "env_thread_id env = tid" "tid \<noteq> 0" and kern: "kernel_ok env heap s"
  shows "result (\<not> mmap_granted env \<or> sz > MEDIUM_OBJ_SIZE_MAX \<or> ds \<noteq> []) env (heap_malloc_zero_ex env heap sz zero 0 s)
    (\<lambda>(b, s'). malloced tid heap B ds sz s b s')"
proof -
  let ?T = "\<not> mmap_granted env \<or> sz > MEDIUM_OBJ_SIZE_MAX \<or> ds \<noteq> []"
  have gen: "result ?T env (malloc_generic_rec (Suc (Suc f)) env heap sz zero 0 s) (\<lambda>(b, s'). malloced tid heap B ds sz s b s')" for f
    by (rule result_mono [OF malloc_generic_inv [OF st tid kern]]) (auto simp: malloced_def)
  show ?thesis
  proof (cases "sz \<le> SMALL_SIZE_MAX")
    case False
    then have "heap_malloc_zero_ex env heap sz zero 0 s = malloc_generic_rec (Suc (Suc 0)) env heap sz zero 0 s"
      by (simp add: heap_malloc_zero_ex_def malloc_generic_def numeral_2_eq_2 del: malloc_generic_rec.simps)
    then show ?thesis using gen [of 0] by (simp del: malloc_generic_rec.simps)
  next
    case True
    obtain Q M where inv: "heap_inv tid heap s B Q {} M" using st unfolding heap_state_def by blast
    obtain p pg where p: "heap_get_free_small_page heap sz s = Inr p" "page_at s p = Some pg"
      "free (inner pg) = 0 \<or> (\<exists>k. placed Q {} k p \<and> unat sz \<le> unat (psize pg))" by (rule direct_page_inv [OF inv True])
    have code: "heap_malloc_zero_ex env heap sz zero 0 s = page_malloc_rec (Suc (Suc (Suc 0))) env heap p sz zero s"
      using True p(1) by (simp add: heap_malloc_zero_ex_def heap_malloc_small_zero_def page_malloc_def numeral_3_eq_3 del: page_malloc_rec.simps)
    show ?thesis
    proof (cases "free (inner pg) = 0")
      case True
      then have "heap_malloc_zero_ex env heap sz zero 0 s = malloc_generic_rec (Suc (Suc 0)) env heap sz zero 0 s"
        unfolding code page_malloc_rec.simps(2) using p(2) by (simp add: LL_is_empty_def del: malloc_generic_rec.simps)
      then show ?thesis using gen [of 0] by (simp del: malloc_generic_rec.simps)
    next
      case False
      then obtain k where k: "placed Q {} k p" "unat sz \<le> unat (psize pg)" using p(3) by blast
      obtain b s' where b: "page_malloc_rec (Suc (Suc (Suc 0))) env heap p sz zero s = Inr (b, s')" "got_block tid heap B ds sz s b s'"
        using page_malloc_inv [OF st inv frame_refl [OF inv] k(1) p(2) False k(2)] by blast
      then show ?thesis unfolding code by (simp add: malloced_def del: page_malloc_rec.simps)
    qed
  qed
qed

end
