(* ===== verification/Heap_Props.thy ===== *)
theory Heap_Props
  imports Heap_Alloc
begin

text \<open>
  The heap as its user sees it. The transition system runs \<^verbatim>\<open>heap_init\<close> and then any sequence of
  \<^verbatim>\<open>heap_malloc\<close>, \<^verbatim>\<open>free\<close> (by the owner or by another thread) and writes of owners to their
  blocks; its state is the memory and the map from live blocks to the bytes asked for.
\<close>

section \<open>The user's view\<close>

definition heap_user :: "u64 \<Rightarrow> usize \<Rightarrow> st \<Rightarrow> live \<Rightarrow> bool" where
  "heap_user tid heap s L \<longleftrightarrow> (\<exists>B ds. heap_state tid heap s B ds \<and> L = B |` (- set ds))"

text \<open>A thread has freed a block that the owner has not taken back yet.\<close>

definition pending :: "usize \<Rightarrow> st \<Rightarrow> bool" where
  "pending heap s \<longleftrightarrow> (\<exists>h. heap_at s heap = Some h \<and> thread_delayed_free h \<noteq> 0)"

definition block_bytes :: "usize \<Rightarrow> nat \<Rightarrow> usize set" where
  "block_bytes b n = {x. unat b \<le> unat x \<and> unat x < unat b + n}"

lemma heap_userE:
  assumes "heap_user tid heap s L"
  obtains B ds where "heap_state tid heap s B ds" "L = B |` (- set ds)"
  using assms unfolding heap_user_def by blast

lemma heap_stateE:
  assumes "heap_state tid heap s B ds"
  obtains Q M h where "heap_inv tid heap s B Q {} M" "heap_at s heap = Some h" "ll (node_at s) (thread_delayed_free h) ds" "set ds \<subseteq> dom B"
  using assms unfolding heap_state_def by blast

lemma delayed_pending: "heap_state tid heap s B ds \<Longrightarrow> pending heap s = (ds \<noteq> [])"
proof -
  assume st: "heap_state tid heap s B ds"
  obtain h where h: "heap_at s heap = Some h" "ll (node_at s) (thread_delayed_free h) ds" using heap_stateE [OF st] by metis
  have "thread_delayed_free h = 0 \<longleftrightarrow> ds = []" using h(2) by (cases ds) auto
  then show ?thesis using h(1) by (simp add: pending_def)
qed

lemma restrict_none: "B |` (- set []) = B"
  by (simp add: restrict_map_def)

lemma restrict_upd: "b \<notin> D \<Longrightarrow> (B |` (- D))(b := v) = (B(b := v)) |` (- D)"
  by (rule ext) (simp add: restrict_map_def)

lemma user_owned: "L = B |` (- D) \<Longrightarrow> L \<subseteq>\<^sub>m B"
  by (auto simp: map_le_def)

lemma user_malloc:
  assumes u: "heap_user tid heap s L" and tid: "env_thread_id env = tid" "tid \<noteq> 0" and kern: "kernel_ok env heap s"
  shows "result (\<not> mmap_granted env \<or> sz > MEDIUM_OBJ_SIZE_MAX \<or> pending heap s) env (heap_malloc_zero_ex env heap sz zero 0 s)
    (\<lambda>(b, s'). b \<noteq> 0 \<and> b \<notin> dom L \<and> heap_user tid heap s' (L(b \<mapsto> unat sz)) \<and> (\<forall>x \<in> owned L. node_at s' x = node_at s x))"
proof -
  obtain B ds where B: "heap_state tid heap s B ds" "L = B |` (- set ds)" by (rule heap_userE [OF u])
  have ds: "set ds \<subseteq> dom B" using B(1) unfolding heap_state_def by blast
  have L: "b \<noteq> 0 \<and> b \<notin> dom L \<and> heap_user tid heap s' (L(b \<mapsto> unat sz)) \<and> (\<forall>x \<in> owned L. node_at s' x = node_at s x)"
    if m: "malloced tid heap B ds sz s b s'" for b s'
    using m unfolding malloced_def
  proof
    assume g: "got_block tid heap B ds sz s b s'"
    have nb: "b \<notin> dom B" "b \<notin> set ds" using g ds unfolding got_block_def by blast+
    have "L(b \<mapsto> unat sz) = (B(b \<mapsto> unat sz)) |` (- set ds)" unfolding B(2) by (rule restrict_upd [OF nb(2)])
    then have "heap_user tid heap s' (L(b \<mapsto> unat sz))" using g unfolding heap_user_def got_block_def by blast
    moreover have "b \<notin> dom L" using nb unfolding B(2) by simp
    moreover have "\<forall>x \<in> owned L. node_at s' x = node_at s x" using g owned_mono [OF user_owned [OF B(2)]] unfolding got_block_def by blast
    ultimately show ?thesis using g unfolding got_block_def by blast
  next
    assume g: "got_block tid heap (B |` (- set ds)) [] sz s b s'"
    have "L(b \<mapsto> unat sz) = (L(b \<mapsto> unat sz)) |` (- set [])" by (simp only: restrict_none)
    then have "heap_user tid heap s' (L(b \<mapsto> unat sz))" using g unfolding heap_user_def got_block_def B(2) [symmetric] by blast
    then show ?thesis using g unfolding got_block_def B(2) [symmetric] by blast
  qed
  show ?thesis
    by (rule result_mono [OF heap_malloc_inv [OF B(1) tid kern]]) (use L delayed_pending [OF B(1)] in auto)
qed

text \<open>The owner may have to stop where freeing the last page of a segment is a \<^verbatim>\<open>todo\<close>; other threads return.\<close>

lemma user_free:
  assumes u: "heap_user tid heap s L" and b: "b \<in> dom L"
  shows "result (env_thread_id env = tid \<and> last_used s (calculate_segment_ptr_from_block b)) env (mi_free env b s)
    (\<lambda>s'. heap_user tid heap s' (L(b := None)) \<and> (\<forall>x \<in> owned (L(b := None)). node_at s' x = node_at s x))"
proof -
  obtain B ds where B: "heap_state tid heap s B ds" "L = B |` (- set ds)" by (rule heap_userE [OF u])
  have bb: "b \<in> dom B" "b \<notin> set ds" using b B(2) by (auto simp: restrict_map_def split: if_splits)
  have L: "L(b := None) = (B(b := None)) |` (- set ds)" unfolding B(2) by (rule restrict_upd [OF bb(2)])
  have o: "owned (L(b := None)) \<subseteq> owned (B(b := None))" by (rule owned_mono [OF user_owned [OF L]])
  show ?thesis
  proof (cases "env_thread_id env = tid")
    case True
    obtain Q M h where inv: "heap_inv tid heap s B Q {} M" "set ds \<subseteq> dom B" by (rule heap_stateE [OF B(1)])
    have "set ds \<subseteq> dom (B(b := None))" using inv(2) bb(2) by auto
    then have "heap_user tid heap s' (L(b := None)) \<and> (\<forall>x \<in> owned (L(b := None)). node_at s' x = node_at s x)"
      if k: "kept tid heap (B(b := None)) s s'" for s'
      using heap_state_kept [OF B(1) k] L o kept_later [OF k] unfolding heap_user_def later_def by blast
    then show ?thesis by (intro result_mono [OF free_owner_inv [OF inv(1) bb(1) True]]) (use True in auto)
  next
    case False
    obtain s' where s': "mi_free env b s = Inr s'" "heap_state tid heap s' B (b # ds) \<or> heap_state tid heap s' (B(b := None)) ds"
      "later heap (B(b := None)) s s'" using free_remote_inv [OF B(1) bb False] by blast
    have "L(b := None) = B |` (- set (b # ds))" unfolding L by (rule ext) (simp add: restrict_map_def)
    then have "heap_user tid heap s' (L(b := None))" using s'(2) L unfolding heap_user_def by blast
    then show ?thesis using s'(1,3) o unfolding later_def by auto
  qed
qed

lemma user_write:
  assumes u: "heap_user tid heap s L" and m: "\<forall>x. x \<notin> owned L \<longrightarrow> m x = node_at s x"
  shows "heap_user tid heap (s\<lparr>node_at := m\<rparr>) L"
proof -
  obtain B ds where B: "heap_state tid heap s B ds" "L = B |` (- set ds)" by (rule heap_userE [OF u])
  obtain Q M h where inv: "heap_inv tid heap s B Q {} M" "heap_at s heap = Some h" "ll (node_at s) (thread_delayed_free h) ds" "set ds \<subseteq> dom B"
    by (rule heap_stateE [OF B(1)])
  have "heap_inv tid heap (s\<lparr>node_at := m\<rparr>) B Q {} M"
    by (rule heap_inv_write [OF inv(1)]) (use m owned_mono [OF user_owned [OF B(2)]] in blast)
  moreover have "m d = node_at s d" if d: "d \<in> set ds" for d
  proof (rule ccontr)
    assume "m d \<noteq> node_at s d"
    then have "d \<in> owned L" using m by blast
    then obtain c n where c: "L c = Some n" "unat c \<le> unat d" "unat d < unat c + max 1 n" unfolding owned_def by blast
    then have c': "B c = Some n" "c \<noteq> d" using d B(2) by (auto simp: restrict_map_def split: if_splits)
    show False using live_apart_block [OF inv(1) c' _ c(2,3)] d inv(4) by (auto simp: less_max_iff_disj)
  qed
  then have "ll m (thread_delayed_free h) ds" using inv(3) lseg_cong [of ds m "node_at s"] by simp
  ultimately have "heap_state tid heap (s\<lparr>node_at := m\<rparr>) B ds" using inv(2,4) unfolding heap_state_def by auto
  then show ?thesis using B(2) unfolding heap_user_def by blast
qed


section \<open>The first state\<close>

lemma fill_upto_eq: "n \<le> length xs \<Longrightarrow> fill_upto n xs v = Inr (replicate n v @ drop n xs)"
proof (induction n)
  case (Suc n)
  then have "drop n xs = xs ! n # drop (Suc n) xs" by (intro Cons_nth_drop_Suc [symmetric]) simp
  then show ?case using Suc by (simp add: list_update_append replicate_append_same)
qed simp

text \<open>The heap and the thread-local data as \<^verbatim>\<open>heap_init\<close> leaves them.\<close>

definition first_heap :: "Env \<Rightarrow> usize \<Rightarrow> usize \<Rightarrow> Heap" where
  "first_heap env heap e = \<lparr>tld_ptr = heap + SIZEOF_HEAP, pages_free_direct = replicate 129 e, pages = pages_tmp, thread_delayed_free = 0,
     heap_thread_id = env_thread_id env, arena_id = 0, page_count = 0, page_retired_min = 0, page_retired_max = 0, no_reclaim = False,
     page_empty_ptr = e\<rparr>"

definition first_tld :: "usize \<Rightarrow> Tld" where
  "first_tld heap = \<lparr>heap_backing = heap, segments = \<lparr>span_queue_headers = span_queue_headers_tmp, segments_count = 0,
     peak_count = 0, current_size = 0, peak_size = 0\<rparr>\<rparr>"

lemma heap_init_eq:
  assumes ae: "a = env_mmap env (sys_calls s) 0 4096 True" "e = env_mmap env (sys_calls s + 1) 0 4096 True"
  shows "a = MAP_FAILED \<Longrightarrow> heap_init env s = Inl Todo" "a \<noteq> MAP_FAILED \<Longrightarrow> a = 0 \<Longrightarrow> \<exists>s'. heap_init env s = Inr (0, s')"
    "a \<noteq> MAP_FAILED \<Longrightarrow> a \<noteq> 0 \<Longrightarrow> e = MAP_FAILED \<Longrightarrow> heap_init env s = Inl Todo"
    "a \<noteq> MAP_FAILED \<Longrightarrow> a \<noteq> 0 \<Longrightarrow> e \<noteq> MAP_FAILED \<Longrightarrow> \<exists>s'. heap_init env s = Inr (a, s') \<and> sys_calls s' = sys_calls s + 2
      \<and> heap_at s' a = Some (first_heap env a e) \<and> tld_at s' (a + SIZEOF_HEAP) = Some (first_tld a) \<and> segment_at s' = segment_at s
      \<and> page_at s' = (page_at s)(e \<mapsto> zeroed_page)"
proof -
  have len: "length pages_free_direct_tmp = 129" "length span_queue_headers_tmp = 32" by (simp_all add: pages_free_direct_tmp_def span_queue_headers_tmp_def)
  have fill: "fill_upto (unat PAGES_DIRECT) pages_free_direct_tmp e = Inr (replicate 129 e)"
    "fill_upto (unat (SEGMENT_BIN_MAX + 1)) span_queue_headers_tmp \<lparr>sq_first = 0, sq_last = 0\<rparr> = Inr span_queue_headers_tmp" for e
    using len by (simp_all add: fill_upto_eq layout_consts span_queue_headers_tmp_def)
  note code = heap_init_def thread_data_alloc_def init_empty_page_ptr_def mmap_prot_read_write_def mmap_prot_def increment_thread_count_def todo_def
  show "a = MAP_FAILED \<Longrightarrow> heap_init env s = Inl Todo" "a \<noteq> MAP_FAILED \<Longrightarrow> a = 0 \<Longrightarrow> \<exists>s'. heap_init env s = Inr (0, s')"
    "a \<noteq> MAP_FAILED \<Longrightarrow> a \<noteq> 0 \<Longrightarrow> e = MAP_FAILED \<Longrightarrow> heap_init env s = Inl Todo"
    by (simp_all add: code Let_def set_prot_def ae)
  show "\<exists>s'. heap_init env s = Inr (a, s') \<and> sys_calls s' = sys_calls s + 2
      \<and> heap_at s' a = Some (first_heap env a e) \<and> tld_at s' (a + SIZEOF_HEAP) = Some (first_tld a) \<and> segment_at s' = segment_at s
      \<and> page_at s' = (page_at s)(e \<mapsto> zeroed_page)" if "a \<noteq> MAP_FAILED" "a \<noteq> 0" "e \<noteq> MAP_FAILED"
    using that by (simp add: code Let_def set_prot_def ae fill first_heap_def first_tld_def)
qed

lemma first_heap_user:
  assumes f: "heap_at s heap = Some (first_heap env heap e)" "tld_at s (heap + SIZEOF_HEAP) = Some (first_tld heap)" "segment_at s = Map.empty"
    "page_at s = [e \<mapsto> zeroed_page]"
  shows "heap_state tid heap s Map.empty []"
proof -
  let ?hp = "first_heap env heap e" and ?Q = "replicate 75 [] :: usize list list"
  have h: "tld_ptr ?hp = heap + SIZEOF_HEAP" "page_empty_ptr ?hp = e" "pages ?hp = pages_tmp" "pages_free_direct ?hp = replicate 129 e"
    "thread_delayed_free ?hp = 0" by (simp_all add: first_heap_def)
  have Q: "queued ?Q = {}" by (simp add: queued_def)
  have "sqs (first_tld heap) = span_queue_headers_tmp" by (simp add: first_tld_def)
  from seg_inv_start [OF f(2) this f(3)] have "seg_inv (tld_ptr ?hp) s {} Map.empty" unfolding h(1) .
  then have "segs_ok tid (tld_ptr ?hp) (page_empty_ptr ?hp) s (queued ?Q \<union> {}) Map.empty"
    using f(3,4) clean_zeroed unfolding segs_ok_def Q h(2) by (simp split: if_splits)
  moreover have "heap_ok s heap ?Q" by (rule initial_tables_ok [OF f(1)]) (use h in simp_all)
  moreover have "pages_ok s heap Map.empty ?Q {}" by (auto simp: pages_ok_def placed_def nth_replicate)
  ultimately have "heap_inv tid heap s Map.empty ?Q {} Map.empty" using f(1) unfolding heap_inv_def by auto
  then show ?thesis using f(1) h(5) unfolding heap_state_def by auto
qed

lemma heap_init_user:
  assumes i: "heap_init env s = Inr (heap, s')" "heap \<noteq> 0" and start: "segment_at s = Map.empty" "page_at s = Map.empty"
  shows "heap_user tid heap s' Map.empty" "\<not> pending heap s'" "\<exists>h. heap_at s' heap = Some h \<and> heap_ok s' heap (replicate 75 [])"
proof -
  let ?a = "env_mmap env (sys_calls s) 0 4096 True" and ?e = "env_mmap env (sys_calls s + 1) 0 4096 True"
  have n1: "?a \<noteq> MAP_FAILED" using heap_init_eq(1) [OF refl refl, of env s] i(1) by auto
  have n2: "?a \<noteq> 0" using heap_init_eq(2) [OF refl refl n1] i by auto
  have n3: "?e \<noteq> MAP_FAILED" using heap_init_eq(3) [OF refl refl n1 n2] i(1) by auto
  note ne = n1 n2 n3
  obtain s1 where s1: "heap_init env s = Inr (?a, s1)" "heap_at s1 ?a = Some (first_heap env ?a ?e)" "tld_at s1 (?a + SIZEOF_HEAP) = Some (first_tld ?a)"
    "segment_at s1 = segment_at s" "page_at s1 = (page_at s)(?e \<mapsto> zeroed_page)" using heap_init_eq(4) [OF refl refl ne] by blast
  have e: "heap = ?a" "s' = s1" using s1(1) i(1) by simp_all
  have st: "heap_state tid heap s' Map.empty []" for tid
    using s1(2-5) start unfolding e by (intro first_heap_user [of _ _ env ?e]) simp_all
  show "heap_user tid heap s' Map.empty" using st unfolding heap_user_def by (intro exI [of _ Map.empty] exI [of _ "[]"]) simp
  show "\<not> pending heap s'" using delayed_pending [OF st] by simp
  have "heap_ok s' heap (replicate 75 [])" unfolding e by (rule initial_tables_ok [OF s1(2)]) (simp_all add: first_heap_def)
  then show "\<exists>h. heap_at s' heap = Some h \<and> heap_ok s' heap (replicate 75 [])" using s1(2) e by blast
qed


text \<open>The memory determines which blocks are live: nothing is both free and out.\<close>

lemma queues_unique:
  assumes "queues_ok P qs Q" "queues_ok P qs Q'"
  shows "Q = Q'"
proof (rule nth_equalityI)
  show "length Q = length Q'" using assms unfolding queues_ok_def by simp
  fix i assume "i < length Q"
  then have i: "i < length qs" using assms unfolding queues_ok_def by simp
  have "dseg P 0 (Q ! i) 0" "dseg P 0 (Q' ! i) 0" "hd_or 0 (Q ! i) = hd_or 0 (Q' ! i)" using assms i unfolding queues_ok_def by metis+
  then show "Q ! i = Q' ! i" by (rule dseg_unique)
qed

lemma live_subset:
  assumes "heap_inv tid heap s B Q {} M" "heap_inv tid heap s B' Q' {} M'"
  shows "dom B \<subseteq> dom B'"
proof
  have hq: "heap_ok s heap Q" "heap_ok s heap Q'" and po: "pages_ok s heap B Q {}" "pages_ok s heap B' Q' {}"
    using assms unfolding heap_inv_def by blast+
  have "Q = Q'" using hq queues_unique unfolding heap_ok_def by (auto split: option.splits)
  note po = po [folded this]
  fix b assume "b \<in> dom B"
  then obtain p pg where p: "p \<in> queued Q" "page_at s p = Some pg" "b \<in> pblocks p pg" using po(1) unfolding pages_ok_def by blast
  then obtain k where k: "placed Q {} k p" using placed_iff [of p Q "{}"] by blast
  obtain fs ls ts where f: "blocks_ok (node_at s) p pg (dom B) fs ls ts" using pages_okD [OF po(1) k] p(2) unfolding page_ok_def by auto
  obtain fs' ls' ts' where f': "blocks_ok (node_at s) p pg (dom B') fs' ls' ts'" using pages_okD [OF po(2) k] p(2) unfolding page_ok_def by auto
  show "b \<in> dom B'" using blocks_unique [OF f f'] p(3) \<open>b \<in> dom B\<close> by blast
qed

lemma user_unique:
  assumes "heap_user tid heap s L" "heap_user tid heap s L'"
  shows "dom L = dom L'"
proof -
  obtain B ds where B: "heap_state tid heap s B ds" "L = B |` (- set ds)" by (rule heap_userE [OF assms(1)])
  obtain B' ds' where B': "heap_state tid heap s B' ds'" "L' = B' |` (- set ds')" by (rule heap_userE [OF assms(2)])
  obtain Q M h where q: "heap_inv tid heap s B Q {} M" "heap_at s heap = Some h" "ll (node_at s) (thread_delayed_free h) ds" by (rule heap_stateE [OF B(1)])
  obtain Q' M' h' where q': "heap_inv tid heap s B' Q' {} M'" "heap_at s heap = Some h'" "ll (node_at s) (thread_delayed_free h') ds'"
    by (rule heap_stateE [OF B'(1)])
  have "ds = ds'" using q(2,3) q'(2,3) ll_unique by auto
  moreover have "dom B = dom B'" using live_subset [OF q(1) q'(1)] live_subset [OF q'(1) q(1)] by blast
  ultimately show ?thesis unfolding B(2) B'(2) by simp
qed


section \<open>Reachable heaps\<close>

inductive heap_reach :: "u64 \<Rightarrow> usize \<Rightarrow> st \<Rightarrow> live \<Rightarrow> bool" for tid heap where
  init: "heap_init env s = Inr (heap, s') \<Longrightarrow> heap \<noteq> 0 \<Longrightarrow> segment_at s = Map.empty \<Longrightarrow> page_at s = Map.empty \<Longrightarrow>
    heap_reach tid heap s' Map.empty"
| malloc: "heap_reach tid heap s L \<Longrightarrow> env_thread_id env = tid \<Longrightarrow> kernel_ok env heap s \<Longrightarrow>
    heap_malloc_zero_ex env heap sz zero 0 s = Inr (b, s') \<Longrightarrow> heap_reach tid heap s' (L(b \<mapsto> unat sz))"
| free: "heap_reach tid heap s L \<Longrightarrow> b \<in> dom L \<Longrightarrow> mi_free env b s = Inr s' \<Longrightarrow> heap_reach tid heap s' (L(b := None))"
| writing: "heap_reach tid heap s L \<Longrightarrow> \<forall>x. x \<notin> owned L \<longrightarrow> m x = node_at s x \<Longrightarrow> heap_reach tid heap (s\<lparr>node_at := m\<rparr>) L"

lemma result_InrD: "result T env r R \<Longrightarrow> r = Inr a \<Longrightarrow> R a"
  by (simp add: result_def outcome_def)

lemma heap_reach_user:
  assumes "heap_reach tid heap s L" "tid \<noteq> 0"
  shows "heap_user tid heap s L"
  using assms(1)
proof (induction rule: heap_reach.induct)
  case (init env s s')
  then show ?case by (rule heap_init_user(1))
next
  case (malloc s L env sz zero b s')
  from result_InrD [OF user_malloc [OF malloc.IH malloc.hyps(2) assms(2) malloc.hyps(3)] malloc.hyps(4)] show ?case unfolding prod.case by blast
next
  case (free s L b env s')
  from result_InrD [OF user_free [OF free.IH free.hyps(2)] free.hyps(3)] show ?case by blast
next
  case (writing s L m)
  then show ?case using user_write by blast
qed

text \<open>The bytes of a block that is out are committed, and no two such blocks share one.\<close>

lemma live_bytes:
  assumes inv: "heap_inv tid heap s B Q X M" and b: "B b = Some n" and x: "x \<in> block_bytes b n"
  shows "os_prot s x = Some True"
proof -
  obtain h where h: "heap_at s heap = Some h" "segs_ok tid (tld_ptr h) (page_empty_ptr h) s (queued Q \<union> X) M"
    "seg_inv (tld_ptr h) s (queued Q \<union> X) M" "heap_ok s heap Q" "X \<inter> queued Q = {}" "pages_ok s heap B Q X" "length Q = 75" "length (pages h) = 75"
    "queues_ok (page_at s) (pages h) Q" by (rule heap_invE [OF inv])
  obtain p k pg j where p: "placed Q X k p" "page_ok s heap B k p" "page_at s p = Some pg" "b = page_block p (psize pg) j" "j < pcap pg" "j < pres pg"
    "n \<le> unat (psize pg)" using live_block [OF h(6) b] by metis
  have pU: "p \<in> queued Q \<union> X" using p(1) placed_iff by blast
  obtain g i c where m: "p = hdr g i" "0 < i" "M (g, i) = Some (c, UsedSpan)" "page_fits p (psize pg) (pres pg)"
    "unat g + 65536 * i \<le> unat b" "unat b + unat (psize pg) \<le> unat g + 65536 * (i + c)"
    using block_in_span [OF h(3) pU p(2,3,6)] p(4) by metis
  let ?k = "(unat x - unat g) div 65536"
  have x': "unat g + 65536 * i \<le> unat x" "unat x < unat g + 65536 * (i + c)" using x m(5,6) p(7) unfolding block_bytes_def by auto
  then have "i \<le> ?k" "?k < i + c" by (simp_all add: less_eq_div_iff_mult_less_eq div_less_iff_less_mult)
  moreover have "{i..<i + c} \<subseteq> committed s g" using h(2) m(2,3) unfolding segs_ok_def by blast
  ultimately have ck: "?k \<in> committed s g" by auto
  have ok: "seg_ok s (tld_ptr h) (dom (segment_at s)) M" using h(3) unfolding seg_inv_def by blast
  then obtain t L where sp: "spans_inv (page_at s) (sqs t) (dom (segment_at s)) M L" unfolding seg_ok_def by blast
  have "commit_ok s g" using ok spans_invD(7) [OF sp m(3)] unfolding seg_ok_def by blast
  then obtain sg where sg: "segment_at s g = Some sg" "\<forall>x \<in> chunk_bytes g (view (commit_mask (main sg))). os_prot s x = Some True"
    unfolding commit_ok_def by blast
  have "?k \<in> view (commit_mask (main sg))" using ck sg(1) by (simp add: committed_def)
  then have "x \<in> chunk_bytes g (view (commit_mask (main sg)))" using x'(1) unfolding chunk_bytes_def by simp
  then show ?thesis using sg(2) by blast
qed

lemma live_shape:
  assumes inv: "heap_inv tid heap s B Q X M" and b: "B b = Some n"
  shows "b \<noteq> 0" "8 dvd unat b" "unat b + n < 2 ^ 64"
proof -
  note ok = heap_invD(1) [OF inv]
  obtain p k pg j where p: "placed Q X k p" "page_ok s heap B k p" "page_at s p = Some pg" "b = page_block p (psize pg) j" "j < pcap pg" "j < pres pg"
    "n \<le> unat (psize pg)" using live_block [OF ok b] by metis
  obtain fs ls ts where "split_ok p pg (dom B) fs ls ts" using p(2,3) by (auto elim: page_okE)
  from split_okD(1) [OF this] have fits: "page_fits p (psize pg) (pres pg)" .
  have j: "j \<le> pres pg" using p(6) by simp
  show "b \<noteq> 0" unfolding p(4) by (rule page_block_nonnull [OF fits j])
  show "8 dvd unat b" unfolding p(4) by (rule page_block_aligned(1) [OF fits j])
  have "unat b = unat (calculate_page_start p (psize pg)) + j * unat (psize pg)" unfolding p(4) by (rule page_block_unat [OF fits j])
  moreover have "Suc j * unat (psize pg) \<le> pres pg * unat (psize pg)" using p(6) by (intro mult_le_mono1) simp
  ultimately show "unat b + n < 2 ^ 64" using fits p(7) unfolding page_fits_def by simp
qed

lemma user_block:
  assumes u: "heap_user tid heap s L" and b: "L b = Some n"
  shows "b \<noteq> 0" "8 dvd unat b" "unat b + n < 2 ^ 64" "x \<in> block_bytes b n \<Longrightarrow> os_prot s x = Some True"
    "L c = Some m \<Longrightarrow> c \<noteq> b \<Longrightarrow> block_bytes b n \<inter> block_bytes c m = {}"
proof -
  obtain B ds where B: "heap_state tid heap s B ds" "L = B |` (- set ds)" by (rule heap_userE [OF u])
  obtain Q M where inv: "heap_inv tid heap s B Q {} M" using B(1) unfolding heap_state_def by blast
  have in_B: "B b = Some n" if "L b = Some n" for b n using that B(2) by (auto simp: restrict_map_def split: if_splits)
  note Bb = in_B [OF b]
  show "b \<noteq> 0" "8 dvd unat b" "unat b + n < 2 ^ 64" by (rule live_shape [OF inv Bb])+
  show "x \<in> block_bytes b n \<Longrightarrow> os_prot s x = Some True" by (rule live_bytes [OF inv Bb])
  show "block_bytes b n \<inter> block_bytes c m = {}" if c: "L c = Some m" "c \<noteq> b"
  proof -
    have False if x: "x \<in> block_bytes b n" "x \<in> block_bytes c m" for x
      by (rule live_apart_block [OF inv in_B [OF c(1)] c(2), of x]) (use x Bb in \<open>auto simp: block_bytes_def\<close>)
    then show ?thesis by blast
  qed
qed

section \<open>Properties\<close>

lemma heap_malloc_eq: "heap_malloc env heap sz s = heap_malloc_zero_ex env heap sz False 0 s"
  by (simp add: heap_malloc_def heap_malloc_zero_def)

text \<open>
  C1. Live blocks never overlap and can be used. Whatever sequence of allocations, frees by the
  owner or by other threads and writes to live blocks follows \<^verbatim>\<open>heap_init\<close>, every live block is at a
  non-null address aligned to 8 bytes, does not wrap around the address space, and all the bytes asked for
  can be read and written; two live blocks share no byte.
\<close>

theorem live_blocks_disjoint:
  assumes "heap_reach tid heap s L" "tid \<noteq> 0"
  shows "(\<forall>b n. L b = Some n \<longrightarrow> b \<noteq> 0 \<and> 8 dvd unat b \<and> unat b + n < 2 ^ 64 \<and> (\<forall>x \<in> block_bytes b n. os_prot s x = Some True))
    \<and> (\<forall>b n c m. L b = Some n \<and> L c = Some m \<and> b \<noteq> c \<longrightarrow> block_bytes b n \<inter> block_bytes c m = {})"
  using user_block [OF heap_reach_user [OF assms]] by blast

text \<open>
  C2. What \<^verbatim>\<open>heap_malloc\<close> returns. A block it returns is not null, is none of the live
  blocks and shares no byte with them; the bytes asked for can be read and written, and no word
  of a live block has changed.
\<close>

theorem malloc_gives_fresh_block:
  assumes "heap_reach tid heap s L" "tid \<noteq> 0" "env_thread_id env = tid" "kernel_ok env heap s" "heap_malloc env heap sz s = Inr (b, s')"
  shows "b \<noteq> 0 \<and> b \<notin> dom L \<and> 8 dvd unat b \<and> (\<forall>x \<in> block_bytes b (unat sz). os_prot s' x = Some True)
    \<and> (\<forall>c n. L c = Some n \<longrightarrow> block_bytes b (unat sz) \<inter> block_bytes c n = {}) \<and> (\<forall>x \<in> owned L. node_at s' x = node_at s x)"
proof -
  note u = heap_reach_user [OF assms(1,2)]
  have r: "b \<noteq> 0 \<and> b \<notin> dom L \<and> heap_user tid heap s' (L(b \<mapsto> unat sz)) \<and> (\<forall>x \<in> owned L. node_at s' x = node_at s x)"
    using result_InrD [OF user_malloc [OF u assms(3,2,4)] assms(5) [unfolded heap_malloc_eq]] unfolding prod.case by blast
  then have u': "heap_user tid heap s' (L(b \<mapsto> unat sz))" by blast
  have b: "(L(b \<mapsto> unat sz)) b = Some (unat sz)" by simp
  note ub = user_block [OF u' b]
  have "block_bytes b (unat sz) \<inter> block_bytes c n = {}" if c: "L c = Some n" for c n
  proof -
    have "c \<noteq> b" using c r by auto
    then show ?thesis using ub(5) [of c n] c by simp
  qed
  then show ?thesis using r ub(2,4) by blast
qed

text \<open>
  C3. \<^verbatim>\<open>heap_malloc\<close> always comes to an end. From every reachable state it returns a block, except
  that it panics where the kernel refuses \<^verbatim>\<open>mprotect\<close> and stops in \<^verbatim>\<open>todo\<close> where the kernel has no
  memory, where more than \<^verbatim>\<open>MEDIUM_OBJ_SIZE_MAX\<close> bytes are asked for (then always), or where
  taking back a delayed block frees the last page of a segment. It never reads a header
  that is not there and no loop of it runs forever.
\<close>

theorem malloc_returns:
  assumes "heap_reach tid heap s L" "tid \<noteq> 0" "env_thread_id env = tid" "kernel_ok env heap s"
  shows "((\<exists>b s'. heap_malloc env heap sz s = Inr (b, s'))
      \<or> heap_malloc env heap sz s = Inl Todo \<and> (\<not> mmap_granted env \<or> sz > MEDIUM_OBJ_SIZE_MAX \<or> pending heap s)
      \<or> heap_malloc env heap sz s = Inl Panic \<and> \<not> mprotect_granted env)
    \<and> (sz > MEDIUM_OBJ_SIZE_MAX \<longrightarrow> (\<forall>b s'. heap_malloc env heap sz s \<noteq> Inr (b, s')))"
proof (intro conjI impI)
  note u = heap_reach_user [OF assms(1,2)]
  show "(\<exists>b s'. heap_malloc env heap sz s = Inr (b, s'))
      \<or> heap_malloc env heap sz s = Inl Todo \<and> (\<not> mmap_granted env \<or> sz > MEDIUM_OBJ_SIZE_MAX \<or> pending heap s)
      \<or> heap_malloc env heap sz s = Inl Panic \<and> \<not> mprotect_granted env"
    using user_malloc [OF u assms(3,2,4), of sz False] unfolding heap_malloc_eq result_def outcome_def by auto
  assume big: "sz > MEDIUM_OBJ_SIZE_MAX"
  then have small: "\<not> sz \<le> SMALL_SIZE_MAX" by (simp add: layout_consts word_le_nat_alt word_less_nat_alt)
  have none: "find_page env heap sz 0 s1 = Inr (0, s1) \<or> find_page env heap sz 0 s1 = Inl Todo" for s1
    using big by (simp add: find_page_def todo_def)
  have "bindR (find_page env heap sz 0 s1) (\<lambda>(page, s). if page = 0 then todo else g page s) \<noteq> Inr r" for s1 g and r :: "usize \<times> st"
    using none [of s1] by (auto simp: todo_def)
  then have "malloc_generic_rec (Suc f) env heap sz False 0 s \<noteq> Inr r" for f r
    by (cases "heap_delayed_free_partial env heap s") (simp_all add: split_beta del: page_malloc_rec.simps)
  then show "\<forall>b s'. heap_malloc env heap sz s \<noteq> Inr (b, s')"
    unfolding heap_malloc_eq heap_malloc_zero_ex_def malloc_generic_def using small
    by (simp add: numeral_2_eq_2 del: malloc_generic_rec.simps)
qed

text \<open>
  C4. Freeing a live block, by its owner or by another thread, takes exactly that block out: in the state
  that follows the invariant of the heap holds with just the other blocks live, so the block is free in its page or
  waits on the delayed list, and no word of another block has changed. The call
  returns unless the kernel refuses \<^verbatim>\<open>mprotect\<close> (panic) or the owner gives back the last page
  of a segment (\<^verbatim>\<open>todo\<close>). A call that changed nothing would not do: the state before the call does not satisfy
  the invariant without the block.
\<close>

theorem free_keeps_other_blocks:
  assumes "heap_reach tid heap s L" "tid \<noteq> 0" "b \<in> dom L"
  shows "\<not> heap_user tid heap s (L(b := None))
    \<and> ((\<exists>s'. mi_free env b s = Inr s' \<and> heap_user tid heap s' (L(b := None)) \<and> (\<forall>x \<in> owned (L(b := None)). node_at s' x = node_at s x))
    \<or> mi_free env b s = Inl Todo \<and> env_thread_id env = tid \<and> last_used s (calculate_segment_ptr_from_block b)
    \<or> mi_free env b s = Inl Panic \<and> \<not> mprotect_granted env)"
proof -
  note u = heap_reach_user [OF assms(1,2)]
  have "\<not> heap_user tid heap s (L(b := None))" using user_unique [OF u, of "L(b := None)"] assms(3) by auto
  then show ?thesis using user_free [OF u assms(3), of env] unfolding result_def outcome_def by blast
qed

text \<open>
  C18. Blocks that other threads freed come back. \<^verbatim>\<open>heap_delayed_free_partial\<close> empties the delayed
  list of every reachable heap: it returns true with nothing pending, the same blocks live and
  their words unchanged. It can stop only where a block was pending (in \<^verbatim>\<open>todo\<close>, when that frees the last page of
  a segment) or where the kernel refuses \<^verbatim>\<open>mprotect\<close>.
\<close>

theorem delayed_blocks_come_back:
  assumes "heap_reach tid heap s L" "tid \<noteq> 0"
  shows "(\<exists>s'. heap_delayed_free_partial env heap s = Inr (True, s') \<and> heap_user tid heap s' L \<and> \<not> pending heap s'
        \<and> (\<forall>x \<in> owned L. node_at s' x = node_at s x))
    \<or> heap_delayed_free_partial env heap s = Inl Todo \<and> pending heap s
    \<or> heap_delayed_free_partial env heap s = Inl Panic \<and> \<not> mprotect_granted env"
proof -
  obtain B ds where B: "heap_state tid heap s B ds" "L = B |` (- set ds)" by (rule heap_userE [OF heap_reach_user [OF assms]])
  have "heap_user tid heap s' L \<and> \<not> pending heap s' \<and> (\<forall>x \<in> owned L. node_at s' x = node_at s x)"
    if "heap_state tid heap s' L []" "later heap L s s'" for s'
  proof -
    have "L = L |` (- set [])" by (simp only: restrict_none)
    then show ?thesis using that delayed_pending [OF that(1)] unfolding heap_user_def later_def by blast
  qed
  then show ?thesis using delayed_partial_inv [OF B(1), of env] delayed_pending [OF B(1)]
    unfolding result_def outcome_def B(2) [symmetric] by auto
qed

text \<open>
  C19. \<^verbatim>\<open>heap_init\<close> returns a heap that is ready. When the two calls of \<^verbatim>\<open>mmap\<close> succeed it returns the
  first address with all queues empty, every entry of the direct table on the empty page, no
  block live and none pending; where one fails it stops in \<^verbatim>\<open>todo\<close>.
\<close>

theorem heap_init_ready:
  assumes "segment_at s = Map.empty" "page_at s = Map.empty"
  shows "(\<exists>heap s'. heap_init env s = Inr (heap, s') \<and> heap = env_mmap env (sys_calls s) 0 4096 True
        \<and> (heap = 0 \<or> heap_user tid heap s' Map.empty \<and> heap_ok s' heap (replicate 75 []) \<and> \<not> pending heap s'))
    \<or> heap_init env s = Inl Todo \<and> (env_mmap env (sys_calls s) 0 4096 True = MAP_FAILED \<or> env_mmap env (sys_calls s + 1) 0 4096 True = MAP_FAILED)"
proof -
  let ?a = "env_mmap env (sys_calls s) 0 4096 True" and ?e = "env_mmap env (sys_calls s + 1) 0 4096 True"
  consider "?a = MAP_FAILED" | "?a \<noteq> MAP_FAILED" "?a = 0" | "?a \<noteq> MAP_FAILED" "?a \<noteq> 0" "?e = MAP_FAILED" | "?a \<noteq> MAP_FAILED" "?a \<noteq> 0" "?e \<noteq> MAP_FAILED"
    by blast
  then show ?thesis
  proof cases
    case 4
    then obtain s' where i: "heap_init env s = Inr (?a, s')" using heap_init_eq(4) [OF refl refl] by blast
    note u = heap_init_user [OF i 4(2) assms]
    show ?thesis using i u by blast
  next
    case 2
    then show ?thesis using heap_init_eq(2) [OF refl refl 2] by auto
  next
    case 3
    then show ?thesis using heap_init_eq(3) [OF refl refl 3] by blast
  qed (use heap_init_eq(1) [OF refl refl, of env s] in blast)
qed

section \<open>Witnesses\<close>

text \<open>A kernel that puts the heap at 32 MiB, the empty page at 64 MiB and one segment at 96 MiB.\<close>

definition env_heap :: Env where
  "env_heap = env_example\<lparr>env_mmap := (\<lambda>n hint len rw. if len = 4096 then if n = 0 then 33554432 else 67108864 else 100663296)\<rparr>"

lemma env_heap_grants: "mmap_granted env_heap" "mprotect_granted env_heap" "env_thread_id env_heap = 1"
  by (simp_all add: mmap_granted_def mprotect_granted_def env_heap_def env_example_def MAP_FAILED_def)

lemma start_empty: "segment_at st_empty = Map.empty" "page_at st_empty = Map.empty" "sys_calls st_empty = 0"
  by (simp_all add: st_empty_def)

lemma example_init:
  obtains s where "heap_init env_heap st_empty = Inr (33554432, s)" "heap_reach 1 33554432 s Map.empty" "kernel_ok env_heap 33554432 s" "\<not> pending 33554432 s"
proof -
  have m: "env_mmap env_heap (sys_calls st_empty) 0 4096 True = 33554432" "env_mmap env_heap (sys_calls st_empty + 1) 0 4096 True = 67108864"
    by (simp_all add: env_heap_def start_empty)
  have ne: "(33554432 :: usize) \<noteq> MAP_FAILED" "(33554432 :: usize) \<noteq> 0" "(67108864 :: usize) \<noteq> MAP_FAILED" by (simp_all add: MAP_FAILED_def)
  obtain s where s: "heap_init env_heap st_empty = Inr (33554432, s)" "heap_at s 33554432 = Some (first_heap env_heap 33554432 67108864)"
    "segment_at s = Map.empty" using heap_init_eq(4) [OF m(1) [symmetric] m(2) [symmetric] ne] start_empty(1) by auto
  have "heap_reach 1 33554432 s Map.empty" by (rule heap_reach.init [OF s(1) ne(2) start_empty(1,2)])
  moreover have "\<not> in_segment g 67108864" if "mapped_by env_heap s g" for g
    using that by (auto simp: mapped_by_def env_heap_def in_segment_def)
  then have "kernel_ok env_heap 33554432 s"
    using s(2,3) by (simp add: kernel_ok_def mmap_fresh_def first_heap_def) (simp add: env_heap_def)
  ultimately show ?thesis using that [OF s(1)] heap_init_user(2) [OF s(1) ne(2) start_empty(1,2)] by blast
qed

lemma example_malloc:
  obtains s b s' where "heap_reach 1 33554432 s Map.empty" "kernel_ok env_heap 33554432 s" "heap_malloc env_heap 33554432 100 s = Inr (b, s')"
    "heap_reach 1 33554432 s' [b \<mapsto> 100]"
proof -
  obtain s where s: "heap_reach 1 33554432 s Map.empty" "kernel_ok env_heap 33554432 s" "\<not> pending 33554432 s" by (rule example_init)
  have u: "heap_user 1 33554432 s Map.empty" by (rule heap_reach_user [OF s(1)]) simp
  have "\<not> (100 :: usize) > MEDIUM_OBJ_SIZE_MAX" by (simp add: layout_consts)
  moreover have "(1 :: u64) \<noteq> 0" by simp
  note user_malloc [OF u env_heap_grants(3) this s(2), of 100 False]
  ultimately obtain b s' where "heap_malloc_zero_ex env_heap 33554432 100 False 0 s = Inr (b, s')"
    using env_heap_grants(1,2) s(3) unfolding result_def outcome_def by auto
  then show ?thesis using that [OF s(1,2)] heap_reach.malloc [OF s(1) env_heap_grants(3) s(2)] by (fastforce simp: heap_malloc_eq)
qed

theorem live_blocks_disjoint_witness:
  "\<exists>s b. heap_reach 1 33554432 s [b \<mapsto> 100] \<and> b \<noteq> 0 \<and> 8 dvd unat b \<and> os_prot s b = Some True"
proof -
  obtain s b where r: "heap_reach 1 33554432 s [b \<mapsto> 100]" by (rule example_malloc)
  have "(1 :: u64) \<noteq> 0" by simp
  note d = conjunct1 [OF live_blocks_disjoint [OF r this]]
  have "[b \<mapsto> 100] b = Some 100" "b \<in> block_bytes b 100" by (simp_all add: block_bytes_def)
  then show ?thesis using r d by blast
qed

theorem malloc_gives_fresh_block_witness:
  "\<exists>s b s'. heap_malloc env_heap 33554432 100 s = Inr (b, s') \<and> b \<noteq> 0 \<and> 8 dvd unat b"
proof -
  obtain s b s' where r: "heap_reach 1 33554432 s Map.empty" "kernel_ok env_heap 33554432 s" "heap_malloc env_heap 33554432 100 s = Inr (b, s')"
    by (rule example_malloc)
  have "(1 :: u64) \<noteq> 0" by simp
  from malloc_gives_fresh_block [OF r(1) this env_heap_grants(3) r(2,3)] r(3) show ?thesis by blast
qed

theorem malloc_returns_witness:
  "\<exists>s b s'. heap_reach 1 33554432 s Map.empty \<and> heap_malloc env_heap 33554432 100 s = Inr (b, s')"
proof -
  obtain s where s: "heap_reach 1 33554432 s Map.empty" "kernel_ok env_heap 33554432 s" "\<not> pending 33554432 s" by (rule example_init)
  have one: "(1 :: u64) \<noteq> 0" by simp
  have "\<not> (100 :: usize) > MEDIUM_OBJ_SIZE_MAX" by (simp add: layout_consts)
  then have "\<exists>b s'. heap_malloc env_heap 33554432 100 s = Inr (b, s')"
    using malloc_returns [OF s(1) one env_heap_grants(3) s(2), of 100] env_heap_grants(1,2) s(3) by blast
  then show ?thesis using s(1) by blast
qed

text \<open>A block that another thread frees; then the owner takes it back.\<close>

theorem free_keeps_other_blocks_witness:
  "\<exists>s b s'. mi_free (env_heap\<lparr>env_thread_id := 2\<rparr>) b s = Inr s' \<and> heap_user 1 33554432 s' Map.empty
     \<and> \<not> heap_user 1 33554432 s Map.empty"
proof -
  obtain s b where r: "heap_reach 1 33554432 s [b \<mapsto> 100]" by (rule example_malloc)
  have one: "(1 :: u64) \<noteq> 0" and b: "b \<in> dom [b \<mapsto> 100]" by simp_all
  have "mprotect_granted (env_heap\<lparr>env_thread_id := 2\<rparr>)" using env_heap_grants(2) by (simp add: mprotect_granted_def)
  then show ?thesis using free_keeps_other_blocks [OF r one b, of "env_heap\<lparr>env_thread_id := 2\<rparr>"] by auto
qed

theorem delayed_blocks_come_back_witness:
  "\<exists>s s'. heap_delayed_free_partial env_heap 33554432 s = Inr (True, s') \<and> \<not> pending 33554432 s'"
proof -
  obtain s where s: "heap_reach 1 33554432 s Map.empty" "\<not> pending 33554432 s" by (rule example_init)
  have "(1 :: u64) \<noteq> 0" by simp
  from delayed_blocks_come_back [OF s(1) this, of env_heap] s(2) env_heap_grants(2) show ?thesis by blast
qed

theorem heap_init_ready_witness:
  "\<exists>s. heap_init env_heap st_empty = Inr (33554432, s) \<and> heap_ok s 33554432 (replicate 75 [])"
proof -
  obtain s where s: "heap_init env_heap st_empty = Inr (33554432, s)" by (rule example_init)
  then show ?thesis using heap_init_ready [OF start_empty(1,2), of env_heap 1] by auto
qed

end
