(* ===== verification/Entry_Points.thy ===== *)
theory Entry_Points
  imports Heap_Props
begin

text \<open>
  The C entry points (\<^verbatim>\<open>lib.rs\<close>) that are implemented. The default heap of the calling thread
  (\<^verbatim>\<open>get_default_heap\<close>, kept by C code outside the repository) is the parameter \<open>heap\<close>.
\<close>

section \<open>Entry points\<close>

definition verus_mi_thread_init_default_heap :: "Env \<Rightarrow> st \<Rightarrow> (usize \<times> st) res" where
  "verus_mi_thread_init_default_heap env s = heap_init env s"

definition verus_mi_heap_malloc :: "Env \<Rightarrow> usize \<Rightarrow> usize \<Rightarrow> st \<Rightarrow> (usize \<times> st) res" where
  "verus_mi_heap_malloc env heap sz s = heap_malloc env heap sz s"

definition verus_mi_free :: "Env \<Rightarrow> usize \<Rightarrow> st \<Rightarrow> st res" where
  "verus_mi_free env ptr s = mi_free env ptr s"

definition c_malloc :: "Env \<Rightarrow> usize \<Rightarrow> usize \<Rightarrow> st \<Rightarrow> (usize \<times> st) res" where
  "c_malloc env heap sz s = verus_mi_heap_malloc env heap sz s"

text \<open>\<^verbatim>\<open>overflowing_mul\<close> returns the wrapped product and whether it wrapped.\<close>

definition count_size_overflow :: "usize \<Rightarrow> usize \<Rightarrow> usize \<times> bool" where
  "count_size_overflow cnt sz = (if cnt = 1 then (sz, False) else (cnt * sz, unat cnt * unat sz \<ge> 2 ^ 64))"

text \<open>
  \<^verbatim>\<open>write_bytes\<close> with zeros, on words at multiples of 8 (as blocks and their words are): a word
  wholly inside becomes zero, of the last one the low bytes do.
\<close>

definition write_zero :: "usize \<Rightarrow> usize \<Rightarrow> mem \<Rightarrow> mem" where
  "write_zero p sz m = (\<lambda>x.
     if unat p \<le> unat x \<and> unat x + 8 \<le> unat p + unat sz then Some 0
     else if unat p \<le> unat x \<and> unat x < unat p + unat sz
     then map_option (\<lambda>w. w AND NOT (mask (8 * (unat p + unat sz - unat x)))) (m x)
     else m x)"

definition c_calloc :: "Env \<Rightarrow> usize \<Rightarrow> usize \<Rightarrow> usize \<Rightarrow> st \<Rightarrow> (usize \<times> st) res" where
  "c_calloc env heap number sz s =
     (let (n, ov) = count_size_overflow number sz in
      bindR (c_malloc env heap n s) (\<lambda>(p, s).
      Inr (p, if p \<noteq> 0 then s\<lparr>node_at := write_zero p n (node_at s)\<rparr> else s)))"

definition c_free :: "Env \<Rightarrow> usize \<Rightarrow> st \<Rightarrow> st res" where
  "c_free env ptr s = verus_mi_free env ptr s"

definition libc_malloc :: "Env \<Rightarrow> usize \<Rightarrow> usize \<Rightarrow> st \<Rightarrow> (usize \<times> st) res" where
  "libc_malloc env heap sz s = verus_mi_heap_malloc env heap sz s"

definition libc_free :: "Env \<Rightarrow> usize \<Rightarrow> st \<Rightarrow> st res" where
  "libc_free env ptr s = verus_mi_free env ptr s"

definition libc_cfree :: "Env \<Rightarrow> usize \<Rightarrow> st \<Rightarrow> st res" where
  "libc_cfree env ptr s = verus_mi_free env ptr s"


section \<open>The memory of calloc\<close>

lemma count_size_product: "fst (count_size_overflow n sz) = n * sz"
  by (simp add: count_size_overflow_def)

lemma write_zero_other: "x \<notin> block_bytes p (unat n) \<Longrightarrow> write_zero p n m x = m x"
  by (auto simp: write_zero_def block_bytes_def)

text \<open>
  C20. \<^verbatim>\<open>calloc\<close>. A block it returns is new and holds the product of its arguments modulo
  \<open>2 ^ 64\<close>; all words of these bytes are zero, no word of another live block has
  changed, and the state that follows is reachable with the block live. When the product wraps
  around, the block is smaller than what was asked for: the overflow flag is not looked at.
\<close>

theorem calloc_zeroes:
  assumes "heap_reach tid heap s L" "tid \<noteq> 0" "env_thread_id env = tid" "kernel_ok env heap s" "c_calloc env heap number sz s = Inr (p, s')"
  shows "p \<noteq> 0 \<and> p \<notin> dom L \<and> heap_reach tid heap s' (L(p \<mapsto> unat (number * sz))) \<and> (\<forall>x \<in> owned L. node_at s' x = node_at s x)
    \<and> (\<forall>x. unat p \<le> unat x \<and> unat x + 8 \<le> unat p + unat (number * sz) \<longrightarrow> node_at s' x = Some 0)
    \<and> (snd (count_size_overflow number sz) \<longrightarrow> unat (number * sz) < unat number * unat sz)"
proof -
  let ?n = "number * sz"
  obtain s1 where m: "heap_malloc env heap ?n s = Inr (p, s1)" and s': "s' = (if p \<noteq> 0 then s1\<lparr>node_at := write_zero p ?n (node_at s1)\<rparr> else s1)"
    using assms(5) count_size_product [of number sz]
    by (auto simp: c_calloc_def c_malloc_def verus_mi_heap_malloc_def Let_def bindR_Inr_iff split: prod.splits)
  have r1: "heap_reach tid heap s1 (L(p \<mapsto> unat ?n))"
    using heap_reach.malloc [OF assms(1,3,4)] m unfolding heap_malloc_eq by blast
  note u = heap_reach_user [OF assms(1,2)]
  have b: "p \<noteq> 0" "p \<notin> dom L" "\<forall>x \<in> owned L. node_at s1 x = node_at s x"
    using result_InrD [OF user_malloc [OF u assms(3,2,4)] m [unfolded heap_malloc_eq]] unfolding prod.case by blast+
  have s'1: "s' = s1\<lparr>node_at := write_zero p ?n (node_at s1)\<rparr>" using s' b(1) by simp
  note u1 = heap_reach_user [OF r1 assms(2)]
  have own: "block_bytes p (unat ?n) \<subseteq> owned (L(p \<mapsto> unat ?n))" unfolding owned_def block_bytes_def by (auto simp: less_max_iff_disj)
  then have out: "\<forall>x. x \<notin> owned (L(p \<mapsto> unat ?n)) \<longrightarrow> write_zero p ?n (node_at s1) x = node_at s1 x"
    using write_zero_other by blast
  have reach: "heap_reach tid heap s' (L(p \<mapsto> unat ?n))" unfolding s'1 by (rule heap_reach.writing [OF r1 out])
  have keep: "node_at s' x = node_at s x" if x: "x \<in> owned L" for x
  proof -
    have "x \<notin> block_bytes p (unat ?n)"
    proof
      assume xp: "x \<in> block_bytes p (unat ?n)"
      obtain c k where c: "L c = Some k" "unat c \<le> unat x" "unat x < unat c + max 1 k" using x unfolding owned_def by blast
      have ne: "p \<noteq> c" using c(1) b(2) by auto
      obtain B ds where B: "heap_state tid heap s1 B ds" "L(p \<mapsto> unat ?n) = B |` (- set ds)" by (rule heap_userE [OF u1])
      obtain Q M where inv: "heap_inv tid heap s1 B Q {} M" using B(1) unfolding heap_state_def by blast
      have Bp: "B p = Some (unat ?n)" "B c = Some k" using fun_cong [OF B(2), of p] fun_cong [OF B(2), of c] c(1) ne
        by (auto simp: restrict_map_def split: if_splits)
      have cd: "c \<in> dom B" using Bp(2) by blast
      show False using live_apart_block [OF inv Bp(1) ne cd, of x] xp c(2,3) Bp(2) by (auto simp: block_bytes_def)
    qed
    then show ?thesis using b(3) x write_zero_other unfolding s'1 by simp
  qed
  have "unat ?n < unat number * unat sz" if "snd (count_size_overflow number sz)"
    using that unat_bound [of ?n] by (auto simp: count_size_overflow_def split: if_splits)
  then show ?thesis using b(1,2) reach keep by (simp add: s'1 write_zero_def)
qed

theorem calloc_zeroes_witness:
  "\<exists>s p s'. c_calloc env_heap 33554432 25 4 s = Inr (p, s') \<and> p \<noteq> 0 \<and> heap_reach 1 33554432 s' [p \<mapsto> 100] \<and> node_at s' p = Some 0"
proof -
  obtain s b s1 where r: "heap_reach 1 33554432 s Map.empty" "kernel_ok env_heap 33554432 s" "heap_malloc env_heap 33554432 100 s = Inr (b, s1)"
    by (rule example_malloc)
  have one: "(1 :: u64) \<noteq> 0" and n: "(25 :: usize) * 4 = 100" "unat (100 :: usize) = 100" by simp_all
  obtain s' where c: "c_calloc env_heap 33554432 25 4 s = Inr (b, s')"
    using r(3) by (simp add: c_calloc_def count_size_overflow_def c_malloc_def verus_mi_heap_malloc_def)
  note z = calloc_zeroes [OF r(1) one env_heap_grants(3) r(2) c, unfolded n]
  have "node_at s' b = Some 0" using z by simp
  then show ?thesis using c z by blast
qed

text \<open>With two arguments whose product wraps to 0, \<^verbatim>\<open>calloc\<close> is a call for 0 bytes.\<close>

lemma calloc_overflow_small:
  "count_size_overflow 2305843009213693952 8 = (0, True)" "c_calloc env heap 2305843009213693952 8 s = c_calloc env heap 1 0 s"
proof -
  have "(18446744073709551616 :: usize) = 0" by (simp add: word_unat_eq_iff)
  then show c: "count_size_overflow 2305843009213693952 8 = (0, True)" by (simp add: count_size_overflow_def)
  show "c_calloc env heap 2305843009213693952 8 s = c_calloc env heap 1 0 s" unfolding c_calloc_def c by (simp add: count_size_overflow_def)
qed

end
