(* ===== verification/Spec2Isabelle.thy ===== *)
theory Spec2Isabelle
  imports Bin_Sizes Flags Commit_Mask Thread_Free Layout Queues Os Commit_Segment Segment_Props Page_Org_Props Mim_Props Entry_Points
begin

text \<open>
  A model of verus-mimalloc, the Verus port of the mimalloc allocator
  (\<^verbatim>\<open>src/verus-mimalloc/*.rs\<close>), and the theorems that make it correct.

  \<^bold>\<open>The program.\<close> A thread owns one heap. Memory comes from the operating system in segments of
  32 MiB, aligned to their size and cut into 512 slices of 64 KiB; the first slice holds the
  segment header and the page headers. A span of slices is either free, and then in the span
  queue of its size, or a page: memory cut into blocks of one size. The heap has a queue of pages
  for each of 73 block sizes, a queue of full pages, and a table that maps a small request at once
  to the first page of its queue. A page has three lists of free blocks: the one \<^verbatim>\<open>malloc\<close> takes
  from, the one its owner frees to, and one other threads push to. A page that is full asks other threads to
  put their blocks on the delayed list of the heap, so that the owner notices.

  \<^bold>\<open>Conventions.\<close> A Rust struct is a record, an enum a datatype, \<^verbatim>\<open>usize\<close> a 64-bit word;
  arithmetic wraps around as in a release build. Executable Rust code is translated; the ghost and
  tracked arguments, proof blocks and specifications around it are erased, as the compiler does.
  The memory is the record \<open>st\<close>: maps from addresses to page headers, segment headers, heaps,
  thread-local data and the first words of blocks, the protection of every byte, and counters of
  the address hint and of the system calls. A read through a pointer to no object of its type is \<open>Fault\<close>, an index
  out of range or a refused \<^verbatim>\<open>mprotect\<close> is \<open>Panic\<close>, \<^verbatim>\<open>todo()\<close> is \<open>Todo\<close>, a loop that runs out of fuel is
  \<open>Diverge\<close>; the theorems say which of these can happen, so the first and the last are
  excluded by proof. The kernel, the clock and the thread identifier are the parameter \<open>Env\<close>: what
  \<^verbatim>\<open>mmap\<close>, \<^verbatim>\<open>mprotect\<close> and \<^verbatim>\<open>clock_gettime\<close> answer at each call. What is relied on is stated by name:
  \<open>mmap_fresh\<close> and \<open>kernel_ok\<close> (a mapping overlaps no earlier one and fits in the address space),
  and, only to show that an operation succeeds, \<open>mmap_granted\<close> and \<open>mprotect_granted\<close>.

  \<^bold>\<open>Fuel.\<close> A walk over a linked list gets \<open>address_count\<close> = 2^64 rounds; the list is one of
  distinct addresses, so this is never used up. The decommit loop visits at most 512 chunks and
  gets 513 rounds. \<open>segment_page_alloc\<close> searches at most twice (2), \<open>page_malloc\<close> calls itself at
  most three deep (3): a page found by \<open>find_page\<close> has a free block.

  \<^bold>\<open>Theories\<close>, in the order of the code's layers:
  \<^item> \<open>Prelude\<close>: word types, results, facts on words and leading zeros. \<open>Config\<close>: \<^verbatim>\<open>config.rs\<close>.
    \<open>Types\<close>: the runtime fields of \<^verbatim>\<open>types.rs\<close> and the state \<open>st\<close>. \<open>Init_Tables\<close>: the tables of \<^verbatim>\<open>init.rs\<close>.
  \<^item> \<open>Bin_Sizes\<close> (\<^verbatim>\<open>bin_sizes.rs\<close>): the bit tricks that find a size class compute the least class
    that holds the request, as the specification functions of the source say.
  \<^item> \<open>Flags\<close> (\<^verbatim>\<open>flags.rs\<close>): each setter changes its own flag only.
  \<^item> \<open>Commit_Mask\<close> (\<^verbatim>\<open>commit_mask.rs\<close>): the loops over eight fields are operations on sets of bit
    indices; \<open>next_run\<close> finds the first maximal run.
  \<^item> \<open>Linked_List\<close> (\<^verbatim>\<open>linked_list.rs\<close>): free lists threaded through the first words of blocks, as
    HOL lists; the interface \<open>block_list\<close> of a list that is pushed to and popped from.
  \<^item> \<open>Thread_Free\<close> (\<^verbatim>\<open>free.rs\<close>, \<^verbatim>\<open>linked_list.rs\<close>, \<^verbatim>\<open>alloc_generic.rs\<close>): the lock-free part, one step per atomic
    access, any number of threads and pages of one heap, with the owner's \<^verbatim>\<open>heap_delayed_free_partial\<close> in steps. Every
    block is in exactly one place, at most one thread is in the \<^verbatim>\<open>Freeing\<close> window of a page, and a thread that
    runs alone returns: nine steps, and three more for each exchange that fails spuriously.
  \<^item> \<open>Layout\<close> (\<^verbatim>\<open>layout.rs\<close>, \<^verbatim>\<open>types.rs\<close>): from the address of a block to the headers of its page
    and segment.
  \<^item> \<open>Dll\<close>: doubly linked lists of page headers. \<open>Queues\<close> (\<^verbatim>\<open>queues.rs\<close>): the page queues as lists
    and the table of direct pages that follows them; the interface \<open>page_queues\<close>.
  \<^item> \<open>Os\<close> (\<^verbatim>\<open>os_mem.rs\<close>, \<^verbatim>\<open>os_alloc.rs\<close>, \<^verbatim>\<open>os_commit.rs\<close>, \<^verbatim>\<open>arena.rs\<close>) and \<open>Commit_Segment\<close>
    (\<^verbatim>\<open>commit_segment.rs\<close>): aligned regions, and the masks that say which chunks of a segment
    are committed (\<open>commit_ok\<close>).
  \<^item> \<open>Segment\<close> (\<^verbatim>\<open>segment.rs\<close>): the definitions. \<open>Spans\<close>, \<open>Span_Ops\<close>, \<open>Span_Free\<close>, \<open>Segment_Alloc\<close>:
    the abstract state is a map of spans that tile each segment; splitting, allocating, merging and
    a fresh segment are changes of that map, related to headers and queues by \<open>spans_inv\<close>.
    \<open>Segment_Props\<close>: the transition system of page allocations and frees and what it guarantees.
    \<open>Header_Frame\<close>: which header fields \<^verbatim>\<open>segment.rs\<close> leaves alone. \<open>Tiling\<close>: what it is to tile a segment.
  \<^item> \<open>Page_Org\<close> (\<^verbatim>\<open>page_organization.rs\<close>, with the lists of \<open>Org_Lists\<close>): the state machine the source uses
    as the specification of spans and queues, one definition per transition; a transition is disabled, fails a
    claimed fact, or gives the next state. \<open>Page_Org_Spec\<close>: the invariants it declares. \<open>Page_Org_Inv\<close>: the
    map of spans that determines a state; \<open>Page_Org_Steps\<close>: every transition is a change of that map and no claimed
    fact fails; \<open>Page_Org_Declared\<close>: the declared invariants follow; \<open>Page_Org_Props\<close>: reachable states.
    \<open>Transitions\<close>: such transitions in general, and the interface \<open>machine\<close> of one whose steps keep an invariant.
  \<^item> \<open>Mim\<close> (\<^verbatim>\<open>tokens.rs\<close>): the state machine of ownership, on which the source rests that a thread may free a
    block of another: who holds the tokens of threads, segments, pages and blocks, which headers a token gives
    the right to read, and who is in the window of a delayed free; one definition per transition and per
    property. \<open>Mim_Spec\<close>: the invariants it declares. \<open>Mim_Inv\<close>: the invariant in five parts, on the pages and
    segments of all threads taken together; \<open>Mim_Steps\<close>: every transition keeps it and no claimed fact fails;
    \<open>Mim_Props\<close>: reachable states, and that a page whose blocks are back can be given back.
  \<^item> \<open>Page_Blocks\<close> (\<^verbatim>\<open>alloc_generic.rs\<close>): collecting and extending the lists of a page, as changes
    of the split of its blocks (\<open>split_ok\<close>, \<open>blocks_ok\<close>).
  \<^item> \<open>Alloc\<close> (\<^verbatim>\<open>page.rs\<close>, \<^verbatim>\<open>free.rs\<close>, \<^verbatim>\<open>alloc_fast.rs\<close>, \<^verbatim>\<open>alloc_generic.rs\<close>, \<^verbatim>\<open>init.rs\<close>): the definitions of the
    allocator proper, running without interference; the interleavings are those of \<open>Thread_Free\<close>.
  \<^item> \<open>Heap_Inv\<close>, \<open>Heap_Pages\<close>, \<open>Heap_Free\<close>, \<open>Heap_Remote\<close>, \<open>Heap_Alloc\<close>: the invariant \<open>heap_inv\<close> of a whole
    heap joins those of segments, queues and pages; each operation keeps it and changes the map of blocks that
    are out as it should. \<open>Heap_Props\<close>: the user's view, with every sequence of allocations,
    frees and writes after \<^verbatim>\<open>heap_init\<close>.
  \<^item> \<open>Entry_Points\<close> (\<^verbatim>\<open>lib.rs\<close>): the C functions.

  \<^bold>\<open>Restrictions of the whole-heap theorems.\<close> There is one heap; other threads free blocks of it, each
  such call running as one step between calls of the owner. Interleavings inside the calls are covered for
  the words the threads share (\<open>Thread_Free\<close>), not for the whole heap.

  \<^bold>\<open>Not modelled.\<close> \<^verbatim>\<open>dealloc_token.rs\<close>, \<^verbatim>\<open>os_mem_util.rs\<close> and \<^verbatim>\<open>pigeonhole.rs\<close>
  are ghost code of the Verus proof with no executable statement, and so are the proof functions of the
  other files, which the theorems here replace; \<^verbatim>\<open>thread.rs\<close> names an
  external function; \<^verbatim>\<open>bitmap.rs\<close> and \<^verbatim>\<open>realloc.rs\<close> are empty. Functions of \<^verbatim>\<open>lib.rs\<close> whose body is
  \<^verbatim>\<open>todo()\<close> alone, huge allocations (\<^verbatim>\<open>todo()\<close> in the source) beyond the fact that they stop,
  \<^verbatim>\<open>main\<close> and its tests. Pointer provenance, and the memory order of atomic accesses, which are
  taken as sequentially consistent. The two state machines are models of their own: that each call of
  the allocator takes the transitions the ghost code names is not shown.
\<close>

end
